(* ===== verification/Prelude.thy ===== *)
theory Prelude
  imports Main "HOL-Library.Word" "HOL-Library.AList"
begin

text \<open>
  Shared vocabulary of the development: Python exceptions as values, the result type and its
  sequencing, Python's integer operations and slices, ordered dictionaries as association lists
  (\<open>AList.update\<close> overwrites in place or appends, \<open>AList.delete\<close> removes: exactly
  \<open>dict.__setitem__\<close> and \<open>dict.pop\<close>), byte strings, and the generic lemmas on them.
\<close>

section \<open>Results: Python exceptions as values\<close>

datatype py_error =
    ValueError
  | AssertionError
  | RuntimeError
  | IndexError
  | KeyError
  | OverflowError
  | NotImplementedError
  | TypeError
  | StopIteration
  | AttributeError
  | ZeroDivisionError

type_synonym 'a res = "py_error + 'a"

definition res_bind :: "'a res \<Rightarrow> ('a \<Rightarrow> 'b res) \<Rightarrow> 'b res" where
  "res_bind m f = (case m of Inl e \<Rightarrow> Inl e | Inr x \<Rightarrow> f x)"

text \<open>\<open>assert c; k\<close> and \<open>if not c: raise e; k\<close>.\<close>

definition guard :: "bool \<Rightarrow> py_error \<Rightarrow> 'a res \<Rightarrow> 'a res" where
  "guard c e k = (if c then k else Inl e)"

text \<open>A \<open>for\<close> loop whose body may raise.\<close>

fun fold_res :: "('a \<Rightarrow> 's \<Rightarrow> 's res) \<Rightarrow> 'a list \<Rightarrow> 's \<Rightarrow> 's res" where
  "fold_res f [] s = Inr s"
| "fold_res f (x # xs) s = res_bind (f x s) (fold_res f xs)"

named_theorems res_simps \<open>sequencing of results\<close>

lemma res_bind_simps [simp, res_simps]:
  "res_bind (Inl e) f = Inl e"
  "res_bind (Inr x) f = f x"
  by (simp_all add: res_bind_def)

lemma res_bind_eq_Inr [simp, res_simps]:
  "res_bind m f = Inr y \<longleftrightarrow> (\<exists>x. m = Inr x \<and> f x = Inr y)"
  by (cases m) auto

lemma guard_eq_Inr [simp, res_simps]: "guard c e k = Inr y \<longleftrightarrow> c \<and> k = Inr y"
  by (simp add: guard_def)

lemma guard_True [simp, res_simps]: "guard True e k = k"
  by (simp add: guard_def)

lemma guard_False [simp, res_simps]: "guard False e k = Inl e"
  by (simp add: guard_def)

text \<open>Code that may raise and may not return: \<open>None\<close> is a call that does not return.\<close>

definition ob :: "'a res option \<Rightarrow> ('a \<Rightarrow> 'b res option) \<Rightarrow> 'b res option" where
  "ob m f = (case m of None \<Rightarrow> None | Some (Inl e) \<Rightarrow> Some (Inl e) | Some (Inr x) \<Rightarrow> f x)"

definition og :: "bool \<Rightarrow> py_error \<Rightarrow> 'a res option \<Rightarrow> 'a res option" where
  "og c e k = (if c then k else Some (Inl e))"

lemma ob_simps [simp]: "ob None f = None" "ob (Some (Inl e)) f = Some (Inl e)" "ob (Some (Inr x)) f = f x"
  by (simp_all add: ob_def)

lemma ob_eq_Inr [simp]: "ob m f = Some (Inr y) \<longleftrightarrow> (\<exists>x. m = Some (Inr x) \<and> f x = Some (Inr y))"
  by (auto simp: ob_def split: option.splits sum.splits)

lemma og_eq_Inr [simp]: "og c e k = Some (Inr y) \<longleftrightarrow> c \<and> k = Some (Inr y)"
  by (simp add: og_def)

lemma fold_res_append [simp]:
  "fold_res f (xs @ ys) s = res_bind (fold_res f xs s) (fold_res f ys)"
  by (induction xs arbitrary: s) (auto simp: res_bind_def split: sum.splits)

text \<open>The loop rule: a body that succeeds and keeps an invariant gives a loop that does.\<close>

lemma fold_res_invariant:
  assumes "I s"
    and "\<And>x s. x \<in> set xs \<Longrightarrow> I s \<Longrightarrow> \<exists>s'. f x s = Inr s' \<and> I s'"
  shows "\<exists>s'. fold_res f xs s = Inr s' \<and> I s'"
  using assms
proof (induction xs arbitrary: s)
  case Nil
  then show ?case by simp
next
  case (Cons x xs)
  from Cons.prems obtain s1 where "f x s = Inr s1" "I s1"
    by (meson list.set_intros(1))
  with Cons.IH [of s1] Cons.prems(2) show ?case by auto
qed

lemma fold_res_preserves:
  assumes "fold_res f xs s = Inr s'" "I s"
    and "\<And>x s s'. x \<in> set xs \<Longrightarrow> I s \<Longrightarrow> f x s = Inr s' \<Longrightarrow> I s'"
  shows "I s'"
  using assms
proof (induction xs arbitrary: s)
  case Nil
  then show ?case by simp
next
  case (Cons x xs)
  from Cons.prems(1) obtain s1 where "f x s = Inr s1" "fold_res f xs s1 = Inr s'" by auto
  with Cons.IH [of s1] Cons.prems(2,3) show ?case by auto
qed

section \<open>Python slices\<close>

text \<open>\<open>xs[a:b]\<close> for non-negative bounds, and \<open>xs[a:]\<close> is \<^const>\<open>drop\<close>.\<close>

definition py_slice :: "nat \<Rightarrow> nat \<Rightarrow> 'a list \<Rightarrow> 'a list" where
  "py_slice a b xs = take (b - a) (drop a xs)"

lemma length_py_slice [simp]: "length (py_slice a b xs) = min (b - a) (length xs - a)"
  by (simp add: py_slice_def)

lemma py_slice_nth [simp]: "a + i < b \<Longrightarrow> a + i < length xs \<Longrightarrow> py_slice a b xs ! i = xs ! (a + i)"
  by (simp add: py_slice_def)

lemma set_py_slice_subset: "set (py_slice a b xs) \<subseteq> set xs"
  unfolding py_slice_def by (meson set_drop_subset set_take_subset subset_trans)

lemma py_slice_0 [simp]: "py_slice 0 b xs = take b xs"
  by (simp add: py_slice_def)

lemma py_slice_append_left: "b \<le> length xs \<Longrightarrow> py_slice a b (xs @ ys) = py_slice a b xs"
  by (simp add: py_slice_def)

section \<open>Ordered dictionaries\<close>

type_synonym ('k, 'v) odict = "('k \<times> 'v) list"

abbreviation od_wf :: "('k, 'v) odict \<Rightarrow> bool" where
  "od_wf d \<equiv> distinct (map fst d)"

text \<open>Subscription of a dictionary, and a list comprehension whose body may raise.\<close>

definition dict_get :: "'k \<Rightarrow> ('k, 'v) odict \<Rightarrow> 'v res" where
  "dict_get k d = (case map_of d k of None \<Rightarrow> Inl KeyError | Some v \<Rightarrow> Inr v)"

fun map_res :: "('a \<Rightarrow> 'b res) \<Rightarrow> 'a list \<Rightarrow> 'b list res" where
  "map_res f [] = Inr []"
| "map_res f (x # xs) = res_bind (f x) (\<lambda>y. res_bind (map_res f xs) (\<lambda>ys. Inr (y # ys)))"

lemma map_res_eq_Inr: "map_res f xs = Inr ys \<longleftrightarrow> list_all2 (\<lambda>x y. f x = Inr y) xs ys"
  by (induction xs arbitrary: ys) (auto simp: list_all2_Cons1)

lemma map_res_mem: "map_res f xs = Inr ys \<Longrightarrow> x \<in> set xs \<Longrightarrow> \<exists>y \<in> set ys. f x = Inr y"
  by (induction xs arbitrary: ys) auto

lemma map_res_image: "map_res f xs = Inr ys \<Longrightarrow> y \<in> set ys \<Longrightarrow> \<exists>x \<in> set xs. f x = Inr y"
  by (induction xs arbitrary: ys) auto

lemma dict_get_eq_Inr [simp]: "dict_get k d = Inr v \<longleftrightarrow> map_of d k = Some v"
  by (simp add: dict_get_def split: option.splits)

text \<open>\<open>OrderedDict.move_to_end(key)\<close> for a present key.\<close>

definition od_move_to_end :: "'k \<Rightarrow> ('k, 'v) odict \<Rightarrow> ('k, 'v) odict" where
  "od_move_to_end k d =
     (case map_of d k of None \<Rightarrow> d | Some v \<Rightarrow> AList.delete k d @ [(k, v)])"

lemma map_of_delete [simp]: "map_of (AList.delete k d) x = (if x = k then None else map_of d x)"
  by (simp add: AList.delete_conv')

lemma map_of_update_alist [simp]:
  "map_of (AList.update k v d) x = (if x = k then Some v else map_of d x)"
  by (simp add: AList.update_conv')

lemma keys_delete [simp]: "fst ` set (AList.delete k d) = fst ` set d - {k}"
  by (metis AList.delete_keys image_set set_removeAll)

lemma od_wf_delete [simp]: "od_wf d \<Longrightarrow> od_wf (AList.delete k d)"
  by (rule AList.distinct_delete)

lemma od_wf_update [simp]: "od_wf d \<Longrightarrow> od_wf (AList.update k v d)"
  by (rule AList.distinct_update)

lemma delete_not_key: "k \<notin> fst ` set d \<Longrightarrow> AList.delete k d = d"
  by (simp add: AList.delete_id)

lemma od_wf_move_to_end [simp]: "od_wf d \<Longrightarrow> od_wf (od_move_to_end k d)"
  by (simp add: od_move_to_end_def split: option.splits)

lemma map_of_move_to_end [simp]: "map_of (od_move_to_end k d) = map_of d"
  by (rule ext) (auto simp: od_move_to_end_def map_add_def split: option.splits)

lemma keys_move_to_end [simp]: "fst ` set (od_move_to_end k d) = fst ` set d"
  by (metis (no_types, lifting) dom_map_of_conv_image_fst map_of_move_to_end)

lemma length_move_to_end [simp]: "od_wf d \<Longrightarrow> length (od_move_to_end k d) = length d"
  by (metis distinct_card image_set keys_move_to_end length_map od_wf_move_to_end)

lemma length_delete_wf:
  assumes "od_wf d" "map_of d k = Some v"
  shows "Suc (length (AList.delete k d)) = length d"
proof -
  have kin: "k \<in> fst ` set d" using assms(2) by (metis domI dom_map_of_conv_image_fst)
  have "length (AList.delete k d) = card (fst ` set d - {k})"
    using od_wf_delete [OF assms(1), of k]
    by (metis distinct_card image_set keys_delete length_map)
  moreover have "length d = card (fst ` set d)"
    using assms(1) by (metis distinct_card image_set length_map)
  moreover have "card (fst ` set d) > 0" using kin by (metis List.finite_set card_gt_0_iff empty_iff finite_imageI)
  ultimately show ?thesis using kin by (simp add: card_Diff_singleton)
qed

lemma wf_map_of_eq: "od_wf d \<Longrightarrow> map_of d k = Some v \<longleftrightarrow> (k, v) \<in> set d"
  by simp

section \<open>Bytes\<close>

type_synonym byte = "8 word"
type_synonym bytes = "byte list"

section \<open>Counting\<close>

lemma count_list_replicate [simp]: "count_list (replicate n x) y = (if x = y then n else 0)"
  by (induction n) auto

lemma count_list_distinct: "distinct xs \<Longrightarrow> count_list xs x = (if x \<in> set xs then 1 else 0)"
  by (induction xs) auto

end
