(* ===== verification/Math_Utils.thy ===== *)
theory Math_Utils
  imports Prelude
begin

text \<open>
  src/vllm/vllm/utils/math_utils.py: the integer arithmetic every size computation of the KV cache
  goes through. Python's \<^verbatim>\<open>//\<close> rounds towards minus infinity, as \<open>div\<close> on \<^typ>\<open>int\<close> does.
\<close>

unbundle bit_operations_syntax

definition cdiv :: "int \<Rightarrow> int \<Rightarrow> int" where
  "cdiv a b = - (a div (- b))"

text \<open>\<^verbatim>\<open>int.bit_length\<close> for non-negative integers.\<close>

function bit_length :: "int \<Rightarrow> nat" where
  "bit_length n = (if n \<le> 0 then 0 else Suc (bit_length (n div 2)))"
  by pat_completeness auto
termination
  by (relation "measure nat") auto

declare bit_length.simps [simp del]

definition next_power_of_2 :: "int \<Rightarrow> int" where
  "next_power_of_2 n = (if n < 1 then 1 else push_bit (bit_length (n - 1)) 1)"

definition round_up :: "int \<Rightarrow> int \<Rightarrow> int" where
  "round_up x y = ((x + y - 1) div y) * y"

definition round_down :: "int \<Rightarrow> int \<Rightarrow> int" where
  "round_down x y = (x div y) * y"

definition largest_power_of_2_divisor :: "int \<Rightarrow> int" where
  "largest_power_of_2_divisor n = n AND (- n)"

section \<open>Rounding\<close>

named_theorems rounding_rules \<open>ceiling division and rounding to multiples\<close>

text \<open>Floor division by its defining adjunction; all bounds below follow from it.\<close>

lemma le_div_iff: "b > 0 \<Longrightarrow> (k::int) \<le> a div b \<longleftrightarrow> k * b \<le> a"
proof
  assume b: "b > 0" and k: "k \<le> a div b"
  have "k * b \<le> (a div b) * b" using b k by (simp add: mult_right_mono)
  also have "\<dots> \<le> a" using b by (simp add: minus_mod_eq_div_mult [symmetric])
  finally show "k * b \<le> a" .
next
  assume b: "b > 0" and "k * b \<le> a"
  then have "(k * b) div b \<le> a div b" by (intro zdiv_mono1) auto
  then show "k \<le> a div b" using b by simp
qed

lemma cdiv_le_iff [rounding_rules]: "b > 0 \<Longrightarrow> cdiv a b \<le> k \<longleftrightarrow> a \<le> k * b"
proof -
  assume b: "b > 0"
  have "cdiv a b = - ((- a) div b)" by (simp add: cdiv_def div_minus_right)
  moreover have "- k \<le> (- a) div b \<longleftrightarrow> (- k) * b \<le> - a" using le_div_iff [OF b] .
  ultimately show ?thesis by auto
qed

lemma less_cdiv_iff [rounding_rules]: "b > 0 \<Longrightarrow> k < cdiv a b \<longleftrightarrow> k * b < a"
  using cdiv_le_iff [of b a k] by linarith

lemma cdiv_mult_ge: "b > 0 \<Longrightarrow> a \<le> cdiv a b * b"
  using cdiv_le_iff [of b a "cdiv a b"] by simp

lemma cdiv_mono: "b > 0 \<Longrightarrow> a \<le> a' \<Longrightarrow> cdiv a b \<le> cdiv a' b"
  using cdiv_le_iff [of b a "cdiv a' b"] cdiv_mult_ge [of b a'] by linarith

lemma cdiv_nonneg: "b > 0 \<Longrightarrow> 0 \<le> a \<Longrightarrow> 0 \<le> cdiv a b"
  using less_cdiv_iff [of b "- 1" a] by simp

lemma cdiv_mult [simp]: "b > 0 \<Longrightarrow> cdiv (k * b) b = k"
  using cdiv_le_iff [of b "k * b" k] less_cdiv_iff [of b "k - 1" "k * b"]
  by (simp add: algebra_simps)

lemma cdiv_0 [simp]: "cdiv 0 b = 0"
  by (simp add: cdiv_def)

lemma cdiv_1 [simp]: "cdiv a 1 = a"
  by (simp add: cdiv_def)

lemma cdiv_pos_iff: "b > 0 \<Longrightarrow> 0 < cdiv a b \<longleftrightarrow> 0 < a"
  using less_cdiv_iff [of b 0 a] by simp

lemma cdiv_eq_div: "b > 0 \<Longrightarrow> cdiv a b = (a + b - 1) div b"
proof -
  assume b: "b > 0"
  have "cdiv a b \<le> k \<longleftrightarrow> (a + b - 1) div b \<le> k" for k
    using cdiv_le_iff [OF b, of a k] le_div_iff [OF b, of "k + 1" "a + b - 1"]
    by (auto simp: algebra_simps)
  then show ?thesis by (meson antisym order_refl)
qed

lemma round_up_cdiv: "y > 0 \<Longrightarrow> round_up x y = cdiv x y * y"
  by (simp add: round_up_def cdiv_eq_div)

lemma round_down_le: "y > 0 \<Longrightarrow> round_down x y \<le> x \<and> x < round_down x y + y"
  unfolding round_down_def
  using pos_mod_sign [of y x] pos_mod_bound [of y x] div_mult_mod_eq [of x y] by linarith

lemma round_up_ge: "y > 0 \<Longrightarrow> x \<le> round_up x y \<and> round_up x y < x + y"
  using cdiv_mult_ge [of y x] less_cdiv_iff [of y "cdiv x y - 1" x]
  by (simp add: round_up_cdiv algebra_simps)

section \<open>Powers of two\<close>

lemma bit_length_Suc: "n > 0 \<Longrightarrow> bit_length n = Suc (bit_length (n div 2))"
  by (subst bit_length.simps) simp

lemma bit_length_pos: "n > 0 \<Longrightarrow> bit_length n > 0"
  by (simp add: bit_length_Suc)

lemma bit_length_bounds:
  "n > 0 \<Longrightarrow> 2 ^ (bit_length n - 1) \<le> n \<and> n < 2 ^ bit_length n"
proof (induction n rule: bit_length.induct)
  case (1 n)
  show ?case
  proof (cases "n = 1")
    case True
    then show ?thesis by (simp add: bit_length_Suc bit_length.simps [of 0])
  next
    case False
    with 1 have half: "n div 2 > 0" by auto
    with 1 have IH: "2 ^ (bit_length (n div 2) - 1) \<le> n div 2" "n div 2 < 2 ^ bit_length (n div 2)"
      by auto
    have "2 ^ bit_length (n div 2) = 2 * (2::int) ^ (bit_length (n div 2) - 1)"
      using bit_length_pos [OF half] by (metis power_Suc Suc_pred')
    moreover have "2 * (n div 2) \<le> n" "n < 2 * (n div 2) + 2" by linarith+
    ultimately have "2 ^ bit_length (n div 2) \<le> n" "n < 2 * 2 ^ bit_length (n div 2)"
      using IH by linarith+
    then show ?thesis using 1(2) by (simp add: bit_length_Suc)
  qed
qed

lemma next_power_of_2_least:
  shows "n \<le> next_power_of_2 n" "\<exists>k. next_power_of_2 n = 2 ^ k"
    "n \<le> 2 ^ j \<Longrightarrow> next_power_of_2 n \<le> 2 ^ j"
proof -
  show "\<exists>k. next_power_of_2 n = 2 ^ k"
  proof (cases "n < 1")
    case True
    then show ?thesis by (auto simp: next_power_of_2_def intro: exI [of _ 0])
  next
    case False
    then show ?thesis by (auto simp: next_power_of_2_def push_bit_eq_mult)
  qed
  show "n \<le> next_power_of_2 n"
    using bit_length_bounds [of "n - 1"]
    by (cases "n \<le> 1") (auto simp: next_power_of_2_def push_bit_eq_mult bit_length.simps [of 0])
  assume le: "n \<le> 2 ^ j"
  show "next_power_of_2 n \<le> 2 ^ j"
  proof (cases "n \<le> 1")
    case True
    then show ?thesis by (auto simp: next_power_of_2_def bit_length.simps [of 0])
  next
    case False
    then have "(2::int) ^ (bit_length (n - 1) - 1) < n" using bit_length_bounds [of "n - 1"] by auto
    then have "(2::int) ^ (bit_length (n - 1) - 1) < 2 ^ j" using le by (rule less_le_trans)
    then have "bit_length (n - 1) - 1 < j" by (rule power_less_imp_less_exp [rotated]) simp
    then have "bit_length (n - 1) \<le> j" by simp
    then have "(2::int) ^ bit_length (n - 1) \<le> 2 ^ j" by (intro power_increasing) auto
    with False show ?thesis by (simp add: next_power_of_2_def push_bit_eq_mult)
  qed
qed

text \<open>\<open>n AND - n\<close> isolates the lowest set bit.\<close>

lemma odd_and_minus: "odd (m::int) \<Longrightarrow> m AND - m = 1"
proof (rule bit_eqI)
  fix n
  assume odd: "odd m"
  then obtain q where q: "m = 2 * q + 1" by (auto elim: oddE)
  have nm: "- m = NOT (2 * q)" using q by (simp add: not_eq_complement)
  show "bit (m AND - m) n = bit 1 n"
    unfolding bit_and_iff nm bit_not_iff unfolding q by (cases n) (simp_all add: bit_Suc bit_0 bit_1_iff)
qed

lemma largest_power_of_2_divisor_pow:
  "odd m \<Longrightarrow> largest_power_of_2_divisor (2 ^ k * m) = 2 ^ k"
proof -
  assume odd: "odd m"
  have "2 ^ k * m AND - (2 ^ k * m) = push_bit k (m AND - m)"
    unfolding push_bit_and by (simp add: push_bit_eq_mult mult.commute)
  then show ?thesis using odd_and_minus [OF odd]
    by (simp add: largest_power_of_2_divisor_def push_bit_eq_mult)
qed

end
