(* ===== verification/KV_Cache_Spec.thy ===== *)
theory KV_Cache_Spec
  imports Math_Utils
begin

text \<open>
  src/vllm/vllm/v1/kv_cache_interface.py: the KV cache format of a layer (\<^verbatim>\<open>KVCacheSpec\<close> and its
  subclasses), page sizes, the maximal memory a request can need, merging of the specs of a group,
  and the configuration objects. A torch dtype is its name together with its element size, which is
  torch's own datum.
\<close>

section \<open>Quantisation modes\<close>

datatype kv_quant_mode = NONE | FP8_PER_TENSOR | INT8_PER_TOKEN_HEAD | FP8_PER_TOKEN_HEAD | NVFP4

definition is_per_token_head :: "kv_quant_mode \<Rightarrow> bool" where
  "is_per_token_head m \<longleftrightarrow> m = INT8_PER_TOKEN_HEAD \<or> m = FP8_PER_TOKEN_HEAD"

definition is_nvfp4 :: "kv_quant_mode \<Rightarrow> bool" where
  "is_nvfp4 m \<longleftrightarrow> m = NVFP4"

definition get_kv_quant_mode :: "string \<Rightarrow> kv_quant_mode" where
  "get_kv_quant_mode d =
     (if d = ''int8_per_token_head'' then INT8_PER_TOKEN_HEAD
      else if d = ''fp8_per_token_head'' then FP8_PER_TOKEN_HEAD
      else if d = ''nvfp4'' then NVFP4
      else if take 3 d = ''fp8'' then FP8_PER_TENSOR
      else NONE)"

definition is_quantized_kv_cache :: "string \<Rightarrow> bool" where
  "is_quantized_kv_cache d \<longleftrightarrow> get_kv_quant_mode d \<noteq> NONE"

definition kv_cache_uses_per_token_head_scales :: "string \<Rightarrow> bool" where
  "kv_cache_uses_per_token_head_scales d = is_per_token_head (get_kv_quant_mode d)"

section \<open>Specs\<close>

record torch_dtype =
  dtype_name :: string
  dtype_size :: int

text \<open>The fields of \<^verbatim>\<open>AttentionSpec\<close>.\<close>

record attention_fields =
  a_block_size :: int
  num_kv_heads :: int
  head_size :: int
  dtype :: torch_dtype
  kv_quant :: kv_quant_mode
  page_size_padded :: "int option"

text \<open>The additional fields of \<^verbatim>\<open>FullAttentionSpec\<close>.\<close>

record full_fields =
  head_size_v :: int
  sliding_window :: "int option"
  attention_chunk_size :: "int option"

record mamba_fields =
  m_block_size :: int
  shapes :: "int list list"
  dtypes :: "torch_dtype list"
  m_page_size_padded :: "int option"
  mamba_type :: string
  mamba_cache_mode :: string
  num_speculative_blocks :: int

datatype kv_cache_spec =
    FullAttentionSpec attention_fields full_fields
  | TQFullAttentionSpec attention_fields full_fields int
  | MLAAttentionSpec attention_fields full_fields "string option"
  | SinkFullAttentionSpec attention_fields full_fields "int option"
  | ChunkedLocalAttentionSpec attention_fields int
  | SlidingWindowSpec attention_fields int
  | MambaSpec mamba_fields
  | EncoderOnlyAttentionSpec attention_fields
  | CrossAttentionSpec attention_fields
  | UniformTypeKVCacheSpecs int "(string \<times> kv_cache_spec) list"

text \<open>The configuration values that the specs and the set-up of the caches read.\<close>

record vllm_config =
  max_model_len :: int
  original_max_model_len :: int
  num_gpu_blocks_override :: "int option"
  disable_hybrid_kv_cache_manager :: bool
  decode_context_parallel_size :: int
  prefill_context_parallel_size :: int
  max_num_batched_tokens :: int
  max_num_encoder_input_tokens :: int
  config_mamba_cache_mode :: string

fun block_size :: "kv_cache_spec \<Rightarrow> int" where
  "block_size (FullAttentionSpec a f) = a_block_size a"
| "block_size (TQFullAttentionSpec a f t) = a_block_size a"
| "block_size (MLAAttentionSpec a f c) = a_block_size a"
| "block_size (SinkFullAttentionSpec a f s) = a_block_size a"
| "block_size (ChunkedLocalAttentionSpec a c) = a_block_size a"
| "block_size (SlidingWindowSpec a w) = a_block_size a"
| "block_size (MambaSpec m) = m_block_size m"
| "block_size (EncoderOnlyAttentionSpec a) = a_block_size a"
| "block_size (CrossAttentionSpec a) = a_block_size a"
| "block_size (UniformTypeKVCacheSpecs b specs) = b"

text \<open>\<^verbatim>\<open>isinstance(spec, FullAttentionSpec)\<close>: the class and its three subclasses.\<close>

fun is_full_attention :: "kv_cache_spec \<Rightarrow> bool" where
  "is_full_attention (FullAttentionSpec a f) = True"
| "is_full_attention (TQFullAttentionSpec a f t) = True"
| "is_full_attention (MLAAttentionSpec a f c) = True"
| "is_full_attention (SinkFullAttentionSpec a f s) = True"
| "is_full_attention _ = False"

fun is_mamba :: "kv_cache_spec \<Rightarrow> bool" where
  "is_mamba (MambaSpec m) = True"
| "is_mamba _ = False"

fun copy_with_new_block_size :: "int \<Rightarrow> kv_cache_spec \<Rightarrow> kv_cache_spec" where
  "copy_with_new_block_size b (FullAttentionSpec a f) = FullAttentionSpec (a\<lparr>a_block_size := b\<rparr>) f"
| "copy_with_new_block_size b (TQFullAttentionSpec a f t) = TQFullAttentionSpec (a\<lparr>a_block_size := b\<rparr>) f t"
| "copy_with_new_block_size b (MLAAttentionSpec a f c) = MLAAttentionSpec (a\<lparr>a_block_size := b\<rparr>) f c"
| "copy_with_new_block_size b (SinkFullAttentionSpec a f s) = SinkFullAttentionSpec (a\<lparr>a_block_size := b\<rparr>) f s"
| "copy_with_new_block_size b (ChunkedLocalAttentionSpec a c) = ChunkedLocalAttentionSpec (a\<lparr>a_block_size := b\<rparr>) c"
| "copy_with_new_block_size b (SlidingWindowSpec a w) = SlidingWindowSpec (a\<lparr>a_block_size := b\<rparr>) w"
| "copy_with_new_block_size b (MambaSpec m) = MambaSpec (m\<lparr>m_block_size := b\<rparr>)"
| "copy_with_new_block_size b (EncoderOnlyAttentionSpec a) = EncoderOnlyAttentionSpec (a\<lparr>a_block_size := b\<rparr>)"
| "copy_with_new_block_size b (CrossAttentionSpec a) = CrossAttentionSpec (a\<lparr>a_block_size := b\<rparr>)"
| "copy_with_new_block_size b (UniformTypeKVCacheSpecs _ specs) = UniformTypeKVCacheSpecs b specs"

section \<open>Page sizes\<close>

definition nvfp4_kv_cache_full_dim :: "int \<Rightarrow> int" where
  "nvfp4_kv_cache_full_dim h = h div 2 + h div 16"

definition attention_real_page_size_bytes :: "attention_fields \<Rightarrow> int" where
  "attention_real_page_size_bytes a =
     2 * a_block_size a * num_kv_heads a * head_size a * dtype_size (dtype a)"

definition full_real_page_size_bytes :: "attention_fields \<Rightarrow> full_fields \<Rightarrow> int" where
  "full_real_page_size_bytes a f =
     (if is_nvfp4 (kv_quant a)
      then let last_dim = nvfp4_kv_cache_full_dim (head_size a) + nvfp4_kv_cache_full_dim (head_size_v f)
           in a_block_size a * num_kv_heads a * last_dim * dtype_size (dtype a)
      else a_block_size a * num_kv_heads a * (head_size a + head_size_v f) * dtype_size (dtype a))"

definition tq_real_page_size_bytes :: "attention_fields \<Rightarrow> full_fields \<Rightarrow> int \<Rightarrow> int" where
  "tq_real_page_size_bytes a f slot =
     (if slot > 0 then a_block_size a * num_kv_heads a * slot else full_real_page_size_bytes a f)"

definition mla_real_page_size_bytes :: "attention_fields \<Rightarrow> string option \<Rightarrow> int" where
  "mla_real_page_size_bytes a cache_dtype_str =
     (if cache_dtype_str = Some ''fp8_ds_mla'' then a_block_size a * 656
      else a_block_size a * num_kv_heads a * head_size a * dtype_size (dtype a))"

text \<open>\<^verbatim>\<open>AttentionSpec.page_size_bytes\<close>: per-head scales are float32, four bytes each.\<close>

definition attention_page_size_bytes :: "attention_fields \<Rightarrow> int \<Rightarrow> int res" where
  "attention_page_size_bytes a real =
     (let real' = (if is_per_token_head (kv_quant a)
                   then real + 2 * a_block_size a * num_kv_heads a * 4 else real)
      in case page_size_padded a of
           None \<Rightarrow> Inr real'
         | Some pad \<Rightarrow> guard (pad \<ge> real') AssertionError (Inr pad))"

definition mamba_page_size_bytes :: "mamba_fields \<Rightarrow> int res" where
  "mamba_page_size_bytes m =
     (let page_size = (\<Sum>(sh, dt) \<leftarrow> zip (shapes m) (dtypes m). prod_list sh * dtype_size dt)
      in case m_page_size_padded m of
           None \<Rightarrow> Inr page_size
         | Some pad \<Rightarrow> guard (pad \<ge> page_size) AssertionError (Inr pad))"

fun sum_res :: "int res list \<Rightarrow> int res" where
  "sum_res [] = Inr 0"
| "sum_res (x # xs) = res_bind x (\<lambda>v. res_bind (sum_res xs) (\<lambda>s. Inr (v + s)))"

lemma member_spec_size: "(l, s) \<in> set specs \<Longrightarrow> size s \<le> size_list (size_prod (\<lambda>x. 0) size) specs"
  by (induction specs) auto

function page_size_bytes :: "kv_cache_spec \<Rightarrow> int res" where
  "page_size_bytes (FullAttentionSpec a f) = attention_page_size_bytes a (full_real_page_size_bytes a f)"
| "page_size_bytes (TQFullAttentionSpec a f t) = attention_page_size_bytes a (tq_real_page_size_bytes a f t)"
| "page_size_bytes (MLAAttentionSpec a f c) = attention_page_size_bytes a (mla_real_page_size_bytes a c)"
| "page_size_bytes (SinkFullAttentionSpec a f s) = attention_page_size_bytes a (full_real_page_size_bytes a f)"
| "page_size_bytes (ChunkedLocalAttentionSpec a c) = attention_page_size_bytes a (attention_real_page_size_bytes a)"
| "page_size_bytes (SlidingWindowSpec a w) = attention_page_size_bytes a (attention_real_page_size_bytes a)"
| "page_size_bytes (MambaSpec m) = mamba_page_size_bytes m"
| "page_size_bytes (EncoderOnlyAttentionSpec a) = attention_page_size_bytes a (attention_real_page_size_bytes a)"
| "page_size_bytes (CrossAttentionSpec a) = attention_page_size_bytes a (attention_real_page_size_bytes a)"
| "page_size_bytes (UniformTypeKVCacheSpecs b specs) = sum_res (map (\<lambda>x. page_size_bytes (snd x)) specs)"
  by pat_completeness auto
termination
  by (relation "measure size") (auto simp: less_Suc_eq_le member_spec_size)

section \<open>Maximal memory of a request\<close>

text \<open>The number of tokens for which a full-attention layer keeps slots on one rank.\<close>

definition full_tokens :: "vllm_config \<Rightarrow> int" where
  "full_tokens cfg =
     (let ws = decode_context_parallel_size cfg * prefill_context_parallel_size cfg
      in if ws > 1 then cdiv (max_model_len cfg) ws else max_model_len cfg)"

fun max_res :: "int res list \<Rightarrow> int res" where
  "max_res [] = Inl ValueError"
| "max_res [x] = x"
| "max_res (x # xs) = res_bind x (\<lambda>v. res_bind (max_res xs) (\<lambda>w. Inr (max v w)))"

lemma max_res_cong [fundef_cong]: "xs = ys \<Longrightarrow> max_res xs = max_res ys"
  by simp

function max_memory_usage_bytes :: "vllm_config \<Rightarrow> kv_cache_spec \<Rightarrow> int res" where
  "max_memory_usage_bytes cfg (FullAttentionSpec a f) =
     res_bind (page_size_bytes (FullAttentionSpec a f)) (\<lambda>ps. Inr (cdiv (full_tokens cfg) (a_block_size a) * ps))"
| "max_memory_usage_bytes cfg (TQFullAttentionSpec a f t) =
     res_bind (page_size_bytes (TQFullAttentionSpec a f t)) (\<lambda>ps. Inr (cdiv (full_tokens cfg) (a_block_size a) * ps))"
| "max_memory_usage_bytes cfg (MLAAttentionSpec a f c) =
     res_bind (page_size_bytes (MLAAttentionSpec a f c)) (\<lambda>ps. Inr (cdiv (full_tokens cfg) (a_block_size a) * ps))"
| "max_memory_usage_bytes cfg (SinkFullAttentionSpec a f s) =
     res_bind (page_size_bytes (SinkFullAttentionSpec a f s)) (\<lambda>ps. Inr (cdiv (full_tokens cfg) (a_block_size a) * ps))"
| "max_memory_usage_bytes cfg (ChunkedLocalAttentionSpec a c) =
     res_bind (page_size_bytes (ChunkedLocalAttentionSpec a c)) (\<lambda>ps.
       Inr (cdiv (min (c + max_num_batched_tokens cfg) (max_model_len cfg)) (a_block_size a) * ps))"
| "max_memory_usage_bytes cfg (SlidingWindowSpec a w) =
     guard (decode_context_parallel_size cfg = 1) AssertionError
       (res_bind (page_size_bytes (SlidingWindowSpec a w)) (\<lambda>ps.
          Inr ((cdiv (min (w - 1 + max_num_batched_tokens cfg) (max_model_len cfg)) (a_block_size a) + 1) * ps)))"
| "max_memory_usage_bytes cfg (MambaSpec m) =
     res_bind (mamba_page_size_bytes m) (\<lambda>ps.
       if config_mamba_cache_mode cfg = ''all'' then Inr (cdiv (max_model_len cfg) (m_block_size m) * ps)
       else if config_mamba_cache_mode cfg = ''align'' then Inr (ps * (2 + num_speculative_blocks m))
       else Inr (ps * (1 + num_speculative_blocks m)))"
| "max_memory_usage_bytes cfg (EncoderOnlyAttentionSpec a) = Inr 0"
| "max_memory_usage_bytes cfg (CrossAttentionSpec a) =
     res_bind (page_size_bytes (CrossAttentionSpec a)) (\<lambda>ps.
       Inr (cdiv (max_num_encoder_input_tokens cfg) (a_block_size a) * ps))"
| "max_memory_usage_bytes cfg (UniformTypeKVCacheSpecs b specs) =
     res_bind (max_res (map (\<lambda>x.
         res_bind (max_memory_usage_bytes cfg (snd x)) (\<lambda>m.
         res_bind (page_size_bytes (snd x)) (\<lambda>ps. Inr (cdiv m ps)))) specs))
       (\<lambda>pages. res_bind (page_size_bytes (UniformTypeKVCacheSpecs b specs)) (\<lambda>ps. Inr (pages * ps)))"
  by pat_completeness auto
termination
  by (relation "measure (\<lambda>(cfg, s). size s)") (auto simp: less_Suc_eq_le member_spec_size)

section \<open>Merging the specs of a group\<close>

fun full_parts :: "kv_cache_spec \<Rightarrow> (attention_fields \<times> full_fields) option" where
  "full_parts (FullAttentionSpec a f) = Some (a, f)"
| "full_parts (TQFullAttentionSpec a f t) = Some (a, f)"
| "full_parts (MLAAttentionSpec a f c) = Some (a, f)"
| "full_parts (SinkFullAttentionSpec a f s) = Some (a, f)"
| "full_parts _ = None"

fun is_mla :: "kv_cache_spec \<Rightarrow> bool" where
  "is_mla (MLAAttentionSpec a f c) = True"
| "is_mla _ = False"

text \<open>The argument is the set of window sizes, without repetitions.\<close>

definition merge_window_sizes :: "int list \<Rightarrow> int option res" where
  "merge_window_sizes ws =
     (case remdups ws of [] \<Rightarrow> Inr None | [w] \<Rightarrow> Inr (Some w) | _ \<Rightarrow> Inl ValueError)"

text \<open>\<^verbatim>\<open>FullAttentionSpec.merge\<close>: the fields of the merged spec.\<close>

definition merge_full_parts :: "kv_cache_spec list \<Rightarrow> (attention_fields \<times> full_fields) res" where
  "merge_full_parts specs =
     guard (list_all is_full_attention specs) AssertionError
     (let parts = List.map_filter full_parts specs;
          sws = List.map_filter (\<lambda>(a, f). sliding_window f) parts;
          chs = List.map_filter (\<lambda>(a, f). attention_chunk_size f) parts
      in guard (\<not> list_ex is_mla specs) AssertionError
        (case parts of
           [] \<Rightarrow> Inl IndexError
         | (a0, f0) # _ \<Rightarrow>
             res_bind (merge_window_sizes sws) (\<lambda>sw.
             res_bind (merge_window_sizes chs) (\<lambda>ch.
             guard (list_all (\<lambda>(a, f). a = a0) parts) AssertionError
             (guard (\<not> (sw \<noteq> None \<and> ch \<noteq> None)) AssertionError
               (Inr (a0, \<lparr>head_size_v = head_size_v f0, sliding_window = sw,
                          attention_chunk_size = ch\<rparr>)))))))"

fun check_tq_slot_sizes :: "int \<Rightarrow> kv_cache_spec list \<Rightarrow> unit res" where
  "check_tq_slot_sizes t [] = Inr ()"
| "check_tq_slot_sizes t (TQFullAttentionSpec a f t' # specs) =
     guard (t' = t) AssertionError (check_tq_slot_sizes t specs)"
| "check_tq_slot_sizes t (s # specs) = Inl AttributeError"

text \<open>\<^verbatim>\<open>specs[0].merge(specs)\<close>, dispatched on the class of the first spec.\<close>

definition merge_specs :: "kv_cache_spec list \<Rightarrow> kv_cache_spec res" where
  "merge_specs specs =
     (case specs of
        [] \<Rightarrow> Inl IndexError
      | FullAttentionSpec a f # _ \<Rightarrow>
          res_bind (merge_full_parts specs) (\<lambda>(a', f'). Inr (FullAttentionSpec a' f'))
      | TQFullAttentionSpec a f t # _ \<Rightarrow>
          res_bind (merge_full_parts specs) (\<lambda>(a', f').
          res_bind (check_tq_slot_sizes t specs) (\<lambda>_. Inr (TQFullAttentionSpec a' f' t)))
      | SinkFullAttentionSpec a f s # _ \<Rightarrow>
          res_bind (merge_full_parts specs) (\<lambda>(a', f'). Inr (SinkFullAttentionSpec a' f' s))
      | MLAAttentionSpec a f c # _ \<Rightarrow>
          guard (list_all is_mla specs) AssertionError
          (guard (list_all (\<lambda>s. case s of MLAAttentionSpec _ _ c' \<Rightarrow> c' = c | _ \<Rightarrow> False) specs) AssertionError
            (Inr (MLAAttentionSpec a
               \<lparr>head_size_v = head_size a, sliding_window = None, attention_chunk_size = None\<rparr> c)))
      | s # rest \<Rightarrow> guard (list_all (\<lambda>t. t = s) rest) AssertionError (Inr s))"

section \<open>Uniform types and configuration\<close>

definition is_uniform_type :: "(string \<times> kv_cache_spec) list \<Rightarrow> bool res" where
  "is_uniform_type specs =
     (if length (remdups (map (\<lambda>x. block_size (snd x)) specs)) > 1 then Inr False
      else case specs of
        [] \<Rightarrow> Inl StopIteration
      | (l, one) # _ \<Rightarrow>
          (if is_full_attention one then Inr (list_all (\<lambda>x. is_full_attention (snd x)) specs)
           else case one of
             CrossAttentionSpec a \<Rightarrow>
               Inr (list_all (\<lambda>x. case snd x of CrossAttentionSpec _ \<Rightarrow> True | _ \<Rightarrow> False) specs)
           | SlidingWindowSpec a w \<Rightarrow>
               Inr (list_all (\<lambda>x. case snd x of SlidingWindowSpec _ w' \<Rightarrow> w' = w | _ \<Rightarrow> False) specs)
           | ChunkedLocalAttentionSpec a c \<Rightarrow>
               Inr (list_all (\<lambda>x. case snd x of ChunkedLocalAttentionSpec _ c' \<Rightarrow> c' = c | _ \<Rightarrow> False) specs)
           | MambaSpec m \<Rightarrow>
               Inr (list_all (\<lambda>x. case snd x of
                   MambaSpec m' \<Rightarrow> num_speculative_blocks m' = num_speculative_blocks m | _ \<Rightarrow> False) specs)
           | _ \<Rightarrow> Inl NotImplementedError))"

definition uniform_from_specs :: "(string \<times> kv_cache_spec) list \<Rightarrow> kv_cache_spec option res" where
  "uniform_from_specs specs =
     res_bind (is_uniform_type specs) (\<lambda>u.
       Inr (if u then Some (UniformTypeKVCacheSpecs (block_size (snd (hd specs))) specs) else None))"

record kv_cache_tensor =
  tensor_size :: int
  shared_by :: "string list"

record kv_cache_group_spec =
  layer_names :: "string list"
  group_spec :: kv_cache_spec

record kv_cache_config =
  num_blocks :: int
  kv_cache_tensors :: "kv_cache_tensor list"
  kv_cache_groups :: "kv_cache_group_spec list"

definition has_mamba_layers :: "kv_cache_config \<Rightarrow> bool" where
  "has_mamba_layers c = list_ex (\<lambda>g. is_mamba (group_spec g)) (kv_cache_groups c)"

definition needs_kv_cache_zeroing :: "kv_cache_config \<Rightarrow> bool" where
  "needs_kv_cache_zeroing c = has_mamba_layers c"

section \<open>Memory grows with the model length\<close>

text \<open>A spec whose block and page sizes are positive.\<close>

function spec_ok :: "kv_cache_spec \<Rightarrow> bool" where
  "spec_ok s \<longleftrightarrow>
     block_size s > 0 \<and> (\<exists>ps. page_size_bytes s = Inr ps \<and> ps > 0)
     \<and> (case s of
          UniformTypeKVCacheSpecs b specs \<Rightarrow> specs \<noteq> [] \<and> (\<forall>x \<in> set specs. spec_ok (snd x))
        | MambaSpec m \<Rightarrow> num_speculative_blocks m \<ge> 0
        | _ \<Rightarrow> True)"
  by pat_completeness auto
termination
  by (relation "measure size") (auto simp: less_Suc_eq_le member_spec_size)

declare spec_ok.simps [simp del]

lemma spec_okD:
  assumes "spec_ok s"
  shows "block_size s > 0" "\<exists>ps. page_size_bytes s = Inr ps \<and> ps > 0"
  using assms by (simp_all add: spec_ok.simps)

lemma spec_ok_member: "spec_ok (UniformTypeKVCacheSpecs b specs) \<Longrightarrow> x \<in> set specs \<Longrightarrow> spec_ok (snd x)"
  by (simp add: spec_ok.simps [of "UniformTypeKVCacheSpecs b specs"])

lemma full_tokens_mono:
  assumes "L \<le> L'"
  shows "full_tokens (cfg\<lparr>max_model_len := L\<rparr>) \<le> full_tokens (cfg\<lparr>max_model_len := L'\<rparr>)"
  using assms cdiv_mono by (simp add: full_tokens_def Let_def)

lemma max_res_mono:
  assumes "list_all2 (\<lambda>x y. \<exists>a b. x = Inr a \<and> y = Inr b \<and> a \<le> b) xs ys" "xs \<noteq> []"
  shows "\<exists>a b. max_res xs = Inr a \<and> max_res ys = Inr b \<and> a \<le> (b::int)"
  using assms
proof (induction xs arbitrary: ys rule: max_res.induct)
  case 1
  then show ?case by simp
next
  case (2 x)
  then show ?case by (auto simp: list_all2_Cons1)
next
  case (3 x y zs)
  then obtain a b y' ys' where ys: "ys = Inr b # y' # ys'" "x = Inr a" "a \<le> b"
    "list_all2 (\<lambda>x y. \<exists>a b. x = Inr a \<and> y = Inr b \<and> a \<le> b) (y # zs) (y' # ys')"
    by (auto simp: list_all2_Cons1)
  from 3(1) [OF ys(4)] obtain c d where "max_res (y # zs) = Inr c" "max_res (y' # ys') = Inr d" "c \<le> d"
    by blast
  with ys show ?case by (auto simp: max_def)
qed

lemma pages_mem_mono:
  assumes "b > 0" "\<exists>ps. page = Inr ps \<and> ps > 0" "t \<le> t'"
  shows "\<exists>m m'. res_bind page (\<lambda>ps. Inr (cdiv t b * ps)) = Inr m
    \<and> res_bind page (\<lambda>ps. Inr (cdiv t' b * ps)) = Inr m' \<and> m \<le> m'"
  using assms cdiv_mono [OF assms(1,3)] by (auto simp: mult_right_mono)

lemma max_memory_usage_mono:
  assumes "spec_ok s" "decode_context_parallel_size cfg = 1" "L \<le> L'"
  shows "\<exists>m m'. max_memory_usage_bytes (cfg\<lparr>max_model_len := L\<rparr>) s = Inr m
    \<and> max_memory_usage_bytes (cfg\<lparr>max_model_len := L'\<rparr>) s = Inr m' \<and> m \<le> m'"
proof -
  note ft = full_tokens_mono [OF assms(3), of cfg]
  show ?thesis using assms
proof (induction s rule: page_size_bytes.induct)
  case (1 a f)
  then show ?case using spec_okD [OF 1(1)] ft unfolding max_memory_usage_bytes.simps
    by (intro pages_mem_mono) auto
next
  case (2 a f t)
  then show ?case using spec_okD [OF 2(1)] ft unfolding max_memory_usage_bytes.simps
    by (intro pages_mem_mono) auto
next
  case (3 a f c)
  then show ?case using spec_okD [OF 3(1)] ft unfolding max_memory_usage_bytes.simps
    by (intro pages_mem_mono) auto
next
  case (4 a f s)
  then show ?case using spec_okD [OF 4(1)] ft unfolding max_memory_usage_bytes.simps
    by (intro pages_mem_mono) auto
next
  case (5 a c)
  then show ?case using spec_okD [OF 5(1)] unfolding max_memory_usage_bytes.simps
    by (intro pages_mem_mono) auto
next
  case (6 a w)
  obtain ps where ps: "page_size_bytes (SlidingWindowSpec a w) = Inr ps" "ps > 0"
    using spec_okD(2) [OF 6(1)] by blast
  have "cdiv (min (w - 1 + max_num_batched_tokens cfg) L) (a_block_size a)
      \<le> cdiv (min (w - 1 + max_num_batched_tokens cfg) L') (a_block_size a)"
    using spec_okD(1) [OF 6(1)] 6(3) by (intro cdiv_mono) auto
  then show ?case unfolding max_memory_usage_bytes.simps ps(1) using 6(2) ps(2)
    by (simp add: mult_right_mono)
next
  case (7 m)
  obtain ps where ps: "mamba_page_size_bytes m = Inr ps" "ps > 0"
    using spec_okD(2) [OF 7(1)] by auto
  have "cdiv L (m_block_size m) \<le> cdiv L' (m_block_size m)"
    using spec_okD(1) [OF 7(1)] 7(3) by (intro cdiv_mono) auto
  then show ?case using ps by (simp add: mult_right_mono)
next
  case (8 a)
  then show ?case by simp
next
  case (9 a)
  then show ?case using spec_okD(2) [OF 9(1)] unfolding max_memory_usage_bytes.simps by auto
next
  case (10 b specs)
  let ?c = "cfg\<lparr>max_model_len := L\<rparr>" and ?c' = "cfg\<lparr>max_model_len := L'\<rparr>"
  let ?f = "\<lambda>c x. res_bind (max_memory_usage_bytes c (snd x)) (\<lambda>m.
         res_bind (page_size_bytes (snd x)) (\<lambda>ps. Inr (cdiv m ps)))"
  have "\<exists>a b. ?f ?c x = Inr a \<and> ?f ?c' x = Inr b \<and> a \<le> b" if x: "x \<in> set specs" for x
  proof -
    have ok: "spec_ok (snd x)" using 10(2) x by (rule spec_ok_member)
    obtain m m' where "max_memory_usage_bytes ?c (snd x) = Inr m"
      "max_memory_usage_bytes ?c' (snd x) = Inr m'" "m \<le> m'"
      using 10(1) [OF x ok] assms(2,3) by blast
    then show ?thesis using spec_okD(2) [OF ok] cdiv_mono by fastforce
  qed
  then have "list_all2 (\<lambda>x y. \<exists>a b. x = Inr a \<and> y = Inr b \<and> a \<le> b) (map (?f ?c) specs) (map (?f ?c') specs)"
    by (auto simp: list_all2_conv_all_nth)
  moreover have "map (?f ?c) specs \<noteq> []" using 10(2) by (auto simp: spec_ok.simps)
  ultimately obtain a b where "max_res (map (?f ?c) specs) = Inr a" "max_res (map (?f ?c') specs) = Inr b" "a \<le> b"
    using max_res_mono by blast
  moreover obtain ps where "page_size_bytes (UniformTypeKVCacheSpecs b specs) = Inr ps" "ps > 0"
    using spec_okD(2) [OF 10(2)] by auto
  ultimately show ?case by (simp add: mult_right_mono)
qed
qed

end
