(* ===== verification/KV_Cache_Config.thy ===== *)
theory KV_Cache_Config
  imports KV_Cache_Spec Complex_Main
begin

text \<open>
  The set-up of the KV caches (src/vllm/vllm/v1/core/kv_cache_utils.py): the memory check and the largest model length that fits, the
  groups of layers, the number of blocks and the tensors of each worker. Logging is left out except for the figures it
  computes, which may raise. \<^verbatim>\<open>vllm_config.model_config.max_model_len\<close> is overwritten during an estimate and restored
  before it returns, so the model passes the tentative length instead.
\<close>

section \<open>Memory checks\<close>

definition check_enough_memory :: "int \<Rightarrow> int res \<Rightarrow> (int \<Rightarrow> int res) \<Rightarrow> unit res" where
  "check_enough_memory available needed estimate =
     guard (available > 0) ValueError
     (res_bind needed (\<lambda>n.
        if n > available then res_bind (estimate available) (\<lambda>_. Inl ValueError) else Inr ()))"

definition total_max_memory_usage_bytes :: "vllm_config \<Rightarrow> kv_cache_spec list \<Rightarrow> int res" where
  "total_max_memory_usage_bytes cfg specs = sum_res (map (max_memory_usage_bytes cfg) specs)"

text \<open>The binary search; \<open>fits\<close> may raise.\<close>

function search_len :: "(int \<Rightarrow> bool res) \<Rightarrow> int \<Rightarrow> int \<Rightarrow> int \<Rightarrow> int res" where
  "search_len fits left right result =
     (if left \<le> right
      then let mid = (left + right) div 2 in
        res_bind (fits mid) (\<lambda>ok. if ok then search_len fits (mid + 1) right mid else search_len fits left (mid - 1) result)
      else Inr result)"
  by pat_completeness auto
termination
  by (relation "measure (\<lambda>(fits, left, right, result). nat (right - left + 1))") auto

declare search_len.simps [simp del]

definition largest_fitting :: "(int \<Rightarrow> bool res) \<Rightarrow> int \<Rightarrow> int res" where
  "largest_fitting fits original_max = res_bind (fits 1) (\<lambda>ok. if ok then search_len fits 1 original_max 1 else Inr 0)"

definition estimate_max_model_len :: "vllm_config \<Rightarrow> (string, kv_cache_spec) odict \<Rightarrow> int \<Rightarrow> int res" where
  "estimate_max_model_len cfg specs available =
     largest_fitting (\<lambda>len. res_bind (total_max_memory_usage_bytes (cfg\<lparr>max_model_len := len\<rparr>) (map snd specs)) (\<lambda>n. Inr (n \<le> available)))
       (max_model_len cfg)"

definition check_enough_kv_cache_memory :: "vllm_config \<Rightarrow> (string, kv_cache_spec) odict \<Rightarrow> int \<Rightarrow> unit res" where
  "check_enough_kv_cache_memory cfg specs available =
     (if specs = [] then Inr ()
      else check_enough_memory available (total_max_memory_usage_bytes cfg (map snd specs)) (estimate_max_model_len cfg specs))"

section \<open>Groups of layers\<close>

definition create_kv_cache_group_specs ::
  "(string, kv_cache_spec) odict \<Rightarrow> string list list \<Rightarrow> kv_cache_group_spec list res" where
  "create_kv_cache_group_specs specs grouped =
     map_res (\<lambda>names. res_bind (map_res (\<lambda>l. dict_get l specs) names) (\<lambda>ss.
       res_bind (merge_specs ss) (\<lambda>m. Inr \<lparr>layer_names = names, group_spec = m\<rparr>))) grouped"

text \<open>Only an \<^verbatim>\<open>AssertionError\<close> of \<^verbatim>\<open>merge\<close> is caught.\<close>

definition is_kv_cache_spec_uniform :: "(string, kv_cache_spec) odict \<Rightarrow> bool res" where
  "is_kv_cache_spec_uniform specs =
     (if specs = [] then Inr True
      else case merge_specs (map snd specs) of
        Inr _ \<Rightarrow> Inr True
      | Inl e \<Rightarrow> if e = AssertionError then Inr False else Inl e)"

definition may_override_num_blocks :: "vllm_config \<Rightarrow> int \<Rightarrow> int" where
  "may_override_num_blocks cfg n = (case num_gpu_blocks_override cfg of None \<Rightarrow> n | Some m \<Rightarrow> m)"

definition get_num_blocks :: "vllm_config \<Rightarrow> int \<Rightarrow> int \<Rightarrow> int \<Rightarrow> int res" where
  "get_num_blocks cfg num_layers available page_size =
     guard (page_size \<noteq> 0 \<and> num_layers \<noteq> 0) ZeroDivisionError
     (Inr (may_override_num_blocks cfg (max (available div page_size div num_layers) 0)))"

definition get_uniform_page_size :: "kv_cache_spec list \<Rightarrow> int res" where
  "get_uniform_page_size specs =
     res_bind (map_res page_size_bytes specs) (\<lambda>sizes. case remdups sizes of [p] \<Rightarrow> Inr p | _ \<Rightarrow> Inl AssertionError)"

definition get_kv_cache_groups_uniform_spec :: "(string, kv_cache_spec) odict \<Rightarrow> kv_cache_group_spec list res" where
  "get_kv_cache_groups_uniform_spec specs = create_kv_cache_group_specs specs [map fst specs]"

definition get_kv_cache_groups_uniform_type :: "(string, kv_cache_spec) odict \<Rightarrow> kv_cache_spec \<Rightarrow> kv_cache_group_spec list" where
  "get_kv_cache_groups_uniform_type specs uniform = [\<lparr>layer_names = map fst specs, group_spec = uniform\<rparr>]"

definition is_kv_cache_page_size_uniform :: "(string, kv_cache_spec) odict \<Rightarrow> bool res" where
  "is_kv_cache_page_size_uniform specs =
     res_bind (map_res page_size_bytes (map snd specs)) (\<lambda>sizes. Inr (length (remdups sizes) = 1))"

definition unify_layer_page_size :: "int \<Rightarrow> string \<times> kv_cache_spec \<Rightarrow> (string \<times> kv_cache_spec) res" where
  "unify_layer_page_size max_page_size layer =
     (case layer of (name, spec) \<Rightarrow>
      res_bind (page_size_bytes spec) (\<lambda>p.
        if p = max_page_size then Inr (name, spec)
        else
        guard (p \<noteq> 0) ZeroDivisionError
        (guard (max_page_size mod p = 0) NotImplementedError
         (let spec' = copy_with_new_block_size (block_size spec * (max_page_size div p)) spec in
          res_bind (page_size_bytes spec') (\<lambda>p'. guard (p' = max_page_size) AssertionError (Inr (name, spec')))))))"

definition unify_kv_cache_spec_page_size :: "(string, kv_cache_spec) odict \<Rightarrow> (string, kv_cache_spec) odict res" where
  "unify_kv_cache_spec_page_size specs =
     res_bind (map_res page_size_bytes (map snd specs)) (\<lambda>sizes.
       if length (remdups sizes) \<le> 1 then Inr specs else map_res (unify_layer_page_size (Max (set sizes))) specs)"

text \<open>The layers by spec, in the order in which each spec first occurs.\<close>

definition same_type_layers :: "(string, kv_cache_spec) odict \<Rightarrow> (kv_cache_spec, string list) odict" where
  "same_type_layers specs =
     fold (\<lambda>(l, s) g. AList.update s ((case map_of g s of None \<Rightarrow> [] | Some ls \<Rightarrow> ls) @ [l]) g) specs []"

definition layer_group_size :: "string list list \<Rightarrow> nat" where
  "layer_group_size types =
     (let mn = Min (set (map length types)); mx = Max (set (map length types)) in if 2 * mx < 3 * mn then mx else mn)"

text \<open>\<^verbatim>\<open>xs[i::n]\<close>\<close>

definition stride :: "nat \<Rightarrow> nat \<Rightarrow> 'a list \<Rightarrow> 'a list" where
  "stride i n xs = map ((!) xs) (filter (\<lambda>k. i \<le> k \<and> (k - i) mod n = 0) [0..<length xs])"

definition split_layers :: "nat \<Rightarrow> string list \<Rightarrow> string list list" where
  "split_layers gs layers =
     (let num_groups = nat (cdiv (int (length layers)) (int gs)) in map (\<lambda>i. stride i num_groups layers) [0..<num_groups])"

definition get_kv_cache_groups_uniform_page_size :: "(string, kv_cache_spec) odict \<Rightarrow> kv_cache_group_spec list res" where
  "get_kv_cache_groups_uniform_page_size specs =
     (let types = map snd (same_type_layers specs) in
      if types = [] then Inl ValueError
      else create_kv_cache_group_specs specs (concat (map (split_layers (layer_group_size types)) types)))"

section \<open>Disabling the hybrid manager\<close>

fun as_full_attention :: "kv_cache_spec \<Rightarrow> kv_cache_spec" where
  "as_full_attention (SlidingWindowSpec a w) =
     FullAttentionSpec (a\<lparr>kv_quant := NONE\<rparr>) \<lparr>head_size_v = head_size a, sliding_window = Some w, attention_chunk_size = None\<rparr>"
| "as_full_attention (ChunkedLocalAttentionSpec a c) =
     FullAttentionSpec (a\<lparr>kv_quant := NONE\<rparr>) \<lparr>head_size_v = head_size a, sliding_window = None, attention_chunk_size = Some c\<rparr>"
| "as_full_attention s = s"

fun is_windowed :: "kv_cache_spec \<Rightarrow> bool" where
  "is_windowed (SlidingWindowSpec a w) = True"
| "is_windowed (ChunkedLocalAttentionSpec a c) = True"
| "is_windowed _ = False"

definition is_one_type :: "(string, kv_cache_spec) odict \<Rightarrow> bool res" where
  "is_one_type specs = res_bind (is_kv_cache_spec_uniform specs) (\<lambda>u. if u then Inr True else is_uniform_type specs)"

definition unify_hybrid_kv_cache_specs :: "(string, kv_cache_spec) odict \<Rightarrow> (string, kv_cache_spec) odict res" where
  "unify_hybrid_kv_cache_specs specs =
     res_bind (is_one_type specs) (\<lambda>u.
       if u then Inr specs
       else
       let specs' = (if list_ex (\<lambda>(l, s). is_full_attention s) specs \<and> list_ex (\<lambda>(l, s). is_windowed s) specs
                     then map (\<lambda>(l, s). (l, as_full_attention s)) specs else specs) in
       res_bind (is_one_type specs') (\<lambda>u'. guard u' ValueError (Inr specs')))"

definition get_kv_cache_groups :: "vllm_config \<Rightarrow> (string, kv_cache_spec) odict \<Rightarrow> kv_cache_group_spec list res" where
  "get_kv_cache_groups cfg specs0 =
     res_bind (if disable_hybrid_kv_cache_manager cfg then unify_hybrid_kv_cache_specs specs0 else Inr specs0) (\<lambda>specs.
     if specs = [] then Inr []
     else
     res_bind (is_kv_cache_spec_uniform specs) (\<lambda>u.
     if u then get_kv_cache_groups_uniform_spec specs
     else
     res_bind (uniform_from_specs specs) (\<lambda>ut. case ut of
         Some t \<Rightarrow> Inr (get_kv_cache_groups_uniform_type specs t)
       | None \<Rightarrow> res_bind (unify_kv_cache_spec_page_size specs) get_kv_cache_groups_uniform_page_size)))"

section \<open>Blocks and tensors of a worker\<close>

definition layer_tensor :: "int \<Rightarrow> (string, kv_cache_spec) odict \<Rightarrow> string \<Rightarrow> kv_cache_tensor res" where
  "layer_tensor n specs name =
     res_bind (dict_get name specs) (\<lambda>s. res_bind (page_size_bytes s) (\<lambda>p. Inr \<lparr>tensor_size = p * n, shared_by = [name]\<rparr>))"

definition max_layers :: "kv_cache_group_spec list \<Rightarrow> nat" where
  "max_layers groups = Max (set (map (length \<circ> layer_names) groups))"

definition sharing_layers :: "kv_cache_group_spec list \<Rightarrow> nat \<Rightarrow> string list" where
  "sharing_layers groups i =
     List.map_filter (\<lambda>g. if i < length (layer_names g) then Some (layer_names g ! i) else None) groups"

text \<open>One group whose layers differ in size has a tensor per layer; otherwise the \<open>i\<close>-th layers of the groups share a tensor.\<close>

definition uniform_type_specs :: "kv_cache_group_spec list \<Rightarrow> (string, kv_cache_spec) odict option" where
  "uniform_type_specs groups =
     (case groups of [g] \<Rightarrow> (case group_spec g of UniformTypeKVCacheSpecs b specs \<Rightarrow> Some specs | _ \<Rightarrow> None) | _ \<Rightarrow> None)"

definition get_kv_cache_config_from_groups :: "vllm_config \<Rightarrow> kv_cache_group_spec list \<Rightarrow> int \<Rightarrow> kv_cache_config res" where
  "get_kv_cache_config_from_groups cfg groups available =
     (if groups = [] then Inr \<lparr>num_blocks = 1, kv_cache_tensors = [], kv_cache_groups = []\<rparr>
      else case uniform_type_specs groups of
        Some specs \<Rightarrow>
          res_bind (page_size_bytes (group_spec (hd groups))) (\<lambda>p.
          guard (p \<noteq> 0) ZeroDivisionError
          (let n = may_override_num_blocks cfg (available div p) in
           res_bind (map_res (layer_tensor n specs) (layer_names (hd groups))) (\<lambda>ts.
             Inr \<lparr>num_blocks = n, kv_cache_tensors = ts, kv_cache_groups = groups\<rparr>)))
      | None \<Rightarrow>
          res_bind (get_uniform_page_size (map group_spec groups)) (\<lambda>p.
          guard (max_layers groups > 0) AssertionError
          (res_bind (get_num_blocks cfg (int (max_layers groups)) available p) (\<lambda>n.
             Inr \<lparr>num_blocks = n,
                  kv_cache_tensors = map (\<lambda>i. \<lparr>tensor_size = p * n, shared_by = sharing_layers groups i\<rparr>) [0..<max_layers groups],
                  kv_cache_groups = groups\<rparr>))))"

definition get_max_concurrency_for_kv_cache_config :: "vllm_config \<Rightarrow> kv_cache_config \<Rightarrow> rat res" where
  "get_max_concurrency_for_kv_cache_config cfg c =
     (if kv_cache_groups c = [] then Inl ValueError
      else
      let nl = int (max_layers (kv_cache_groups c)) in
      res_bind (total_max_memory_usage_bytes cfg (map group_spec (kv_cache_groups c))) (\<lambda>m.
      res_bind (page_size_bytes (group_spec (hd (kv_cache_groups c)))) (\<lambda>p.
      guard (p * nl \<noteq> 0) ZeroDivisionError
      (let per_request = cdiv (nl * m) (p * nl) in
       guard (per_request \<noteq> 0) ZeroDivisionError (Inr (of_int (num_blocks c) / of_int per_request))))))"

text \<open>The figures of the log: tokens and concurrency.\<close>

definition report_kv_cache_config :: "vllm_config \<Rightarrow> kv_cache_config \<Rightarrow> (int \<times> rat) res" where
  "report_kv_cache_config cfg c =
     (if kv_cache_groups c = [] then Inl ValueError
      else
      let n = num_blocks c div int (length (kv_cache_groups c)) * Min (set (map (block_size \<circ> group_spec) (kv_cache_groups c)));
          ws = prefill_context_parallel_size cfg * decode_context_parallel_size cfg in
      res_bind (get_max_concurrency_for_kv_cache_config cfg c) (\<lambda>x. Inr (if ws > 1 then n * ws else n, x)))"

text \<open>The copy for the scheduler has one spec per group.\<close>

definition scheduler_group :: "kv_cache_group_spec \<Rightarrow> kv_cache_group_spec res" where
  "scheduler_group g =
     (case group_spec g of
        UniformTypeKVCacheSpecs b specs \<Rightarrow> (case specs of [] \<Rightarrow> Inl StopIteration | (l, s) # _ \<Rightarrow> Inr (g\<lparr>group_spec := s\<rparr>))
      | _ \<Rightarrow> Inr g)"

definition generate_scheduler_kv_cache_config :: "kv_cache_config list \<Rightarrow> kv_cache_config res" where
  "generate_scheduler_kv_cache_config cs =
     (case cs of
        [] \<Rightarrow> Inl IndexError
      | c # _ \<Rightarrow>
          guard (list_all (\<lambda>d. num_blocks d = num_blocks c) cs) AssertionError
          (res_bind (map_res scheduler_group (kv_cache_groups c)) (\<lambda>gs. Inr (c\<lparr>kv_cache_groups := gs\<rparr>))))"

section \<open>All workers\<close>

definition max_memory_usage_bytes_from_groups :: "vllm_config \<Rightarrow> kv_cache_group_spec list \<Rightarrow> int res" where
  "max_memory_usage_bytes_from_groups cfg groups =
     (if groups = [] then Inr 0
      else case uniform_type_specs groups of
        Some specs \<Rightarrow> total_max_memory_usage_bytes cfg (map snd specs)
      | None \<Rightarrow>
          res_bind (get_uniform_page_size (map group_spec groups)) (\<lambda>p.
          res_bind (sum_res (map (\<lambda>g. res_bind (max_memory_usage_bytes cfg (group_spec g)) (\<lambda>m.
                      guard (p \<noteq> 0) ZeroDivisionError (Inr (cdiv m p)))) groups)) (\<lambda>blocks.
            Inr (int (max_layers groups) * p * blocks))))"

definition estimate_max_model_len_from_groups :: "vllm_config \<Rightarrow> kv_cache_group_spec list \<Rightarrow> int \<Rightarrow> int res" where
  "estimate_max_model_len_from_groups cfg groups available =
     largest_fitting (\<lambda>len. res_bind (max_memory_usage_bytes_from_groups (cfg\<lparr>max_model_len := len\<rparr>) groups) (\<lambda>n. Inr (n \<le> available)))
       (max_model_len cfg)"

definition auto_fit_worker :: "vllm_config \<Rightarrow> kv_cache_group_spec list \<times> int \<Rightarrow> int \<Rightarrow> int res" where
  "auto_fit_worker cfg w best =
     (case w of (groups, available) \<Rightarrow>
      if groups = [] then Inr best
      else res_bind (estimate_max_model_len_from_groups cfg groups available) (\<lambda>n. Inr (if n < best then n else best)))"

definition auto_fit_max_model_len :: "vllm_config \<Rightarrow> kv_cache_group_spec list list \<Rightarrow> int list \<Rightarrow> vllm_config res" where
  "auto_fit_max_model_len cfg projected available =
     (if list_all (\<lambda>groups. groups = []) projected then Inr cfg
      else
      guard (available \<noteq> []) IndexError
      (res_bind (fold_res (auto_fit_worker cfg) (zip projected available) (max_model_len cfg)) (\<lambda>best.
       guard (best > 0) ValueError
       (Inr (if best \<ge> max_model_len cfg then cfg else cfg\<lparr>max_model_len := best\<rparr>)))))"

definition project_group :: "(string, kv_cache_spec) odict \<Rightarrow> kv_cache_group_spec \<Rightarrow> kv_cache_group_spec res" where
  "project_group worker g =
     (let names = filter (\<lambda>l. l \<in> fst ` set worker) (layer_names g) in
      case group_spec g of
        UniformTypeKVCacheSpecs b specs \<Rightarrow>
          if names = [] then Inr \<lparr>layer_names = [], group_spec = group_spec g\<rparr>
          else res_bind (map_res (\<lambda>l. res_bind (dict_get l specs) (\<lambda>s. Inr (l, s))) names) (\<lambda>ss.
            Inr \<lparr>layer_names = names, group_spec = UniformTypeKVCacheSpecs b ss\<rparr>)
      | s \<Rightarrow> Inr \<lparr>layer_names = names, group_spec = s\<rparr>)"

definition project_kv_cache_groups_to_worker ::
  "kv_cache_group_spec list \<Rightarrow> (string, kv_cache_spec) odict \<Rightarrow> kv_cache_group_spec list res" where
  "project_kv_cache_groups_to_worker groups worker = map_res (project_group worker) groups"

definition merge_worker_layer :: "string \<times> kv_cache_spec \<Rightarrow> (string, kv_cache_spec) odict \<Rightarrow> (string, kv_cache_spec) odict res" where
  "merge_worker_layer e d =
     (case e of (l, s) \<Rightarrow>
      case map_of d l of None \<Rightarrow> Inr (AList.update l s d) | Some s' \<Rightarrow> guard (s' = s) AssertionError (Inr d))"

definition check_worker :: "vllm_config \<Rightarrow> kv_cache_group_spec list \<times> int \<Rightarrow> unit res" where
  "check_worker cfg w =
     (case w of (groups, available) \<Rightarrow>
      if groups = [] then Inr ()
      else check_enough_memory available (max_memory_usage_bytes_from_groups cfg groups) (estimate_max_model_len_from_groups cfg groups))"

definition worker_config :: "vllm_config \<Rightarrow> kv_cache_group_spec list \<times> (string, kv_cache_spec) odict \<times> int \<Rightarrow> kv_cache_config res" where
  "worker_config cfg w =
     (case w of (groups, worker, available) \<Rightarrow>
      guard (sum_list (map (length \<circ> layer_names) groups) = length worker) AssertionError
        (get_kv_cache_config_from_groups cfg groups available))"

definition shrink_tensor :: "int \<Rightarrow> int \<Rightarrow> kv_cache_tensor \<Rightarrow> kv_cache_tensor res" where
  "shrink_tensor old new t =
     guard (old \<noteq> 0) ZeroDivisionError
     (guard (tensor_size t mod old = 0) AssertionError (Inr (t\<lparr>tensor_size := tensor_size t div old * new\<rparr>)))"

definition shrink_config :: "vllm_config \<Rightarrow> int \<Rightarrow> kv_cache_config \<Rightarrow> kv_cache_config res" where
  "shrink_config cfg n c =
     res_bind (map_res (shrink_tensor (num_blocks c) n) (kv_cache_tensors c)) (\<lambda>ts.
     let c' = c\<lparr>num_blocks := n, kv_cache_tensors := ts\<rparr> in
     res_bind (if kv_cache_groups c' = [] then Inr () else res_bind (report_kv_cache_config cfg c') (\<lambda>_. Inr ())) (\<lambda>_. Inr c'))"

text \<open>The configurations, and the configuration object with the model length that was settled.\<close>

definition get_kv_cache_configs ::
  "vllm_config \<Rightarrow> (string, kv_cache_spec) odict list \<Rightarrow> int list \<Rightarrow> (kv_cache_config list \<times> vllm_config) res" where
  "get_kv_cache_configs cfg workers available =
     res_bind (fold_res (fold_res merge_worker_layer) workers []) (\<lambda>merged.
     res_bind (get_kv_cache_groups cfg merged) (\<lambda>groups.
     res_bind (map_res (project_kv_cache_groups_to_worker groups) workers) (\<lambda>projected.
     res_bind (if original_max_model_len cfg = -1 then auto_fit_max_model_len cfg projected available else Inr cfg) (\<lambda>cfg1.
     res_bind (map_res (check_worker cfg1) (zip projected available)) (\<lambda>_.
     res_bind (map_res (worker_config cfg1) (zip projected (zip workers available))) (\<lambda>cs.
     if cs = [] then Inl ValueError
     else
     res_bind (map_res (shrink_config cfg1 (Min (set (map num_blocks cs)))) cs) (\<lambda>cs'. Inr (cs', cfg1))))))))"

end
