(* ===== verification/KV_Cache_Config_Properties.thy ===== *)
theory KV_Cache_Config_Properties
  imports KV_Cache_Config "HOL-Library.Multiset"
begin

text \<open>
  The set-up of the KV caches is right: the estimated model length is the largest that fits, every layer is in one group and has one
  tensor, the tensors fit into the memory of the worker, and all workers get the same number of blocks.
\<close>

section \<open>The largest length that fits\<close>

lemma search_len_correct:
  assumes fits: "\<And>L. 1 \<le> L \<Longrightarrow> L \<le> R \<Longrightarrow> fits L = Inr (ok L)"
    and anti: "\<And>L L'. 1 \<le> L \<Longrightarrow> L \<le> L' \<Longrightarrow> L' \<le> R \<Longrightarrow> ok L' \<Longrightarrow> ok L"
    and start: "1 \<le> left" "right \<le> R" "1 \<le> result" "result \<le> R" "ok result" "left - 1 \<le> result" "\<And>L. right < L \<Longrightarrow> L \<le> R \<Longrightarrow> \<not> ok L"
  shows "\<exists>n. search_len fits left right result = Inr n \<and> 1 \<le> n \<and> n \<le> R \<and> (\<forall>L. 1 \<le> L \<and> L \<le> R \<longrightarrow> ok L = (L \<le> n))"
  using start
proof (induction "nat (right - left + 1)" arbitrary: left right result rule: less_induct)
  case less
  define mid where "mid = (left + right) div 2"
  show ?case
  proof (cases "left \<le> right")
    case True
    then have mid: "left \<le> mid" "mid \<le> right" by (simp_all add: mid_def)
    have f: "fits mid = Inr (ok mid)" using mid less.prems by (intro fits) simp_all
    show ?thesis
    proof (cases "ok mid")
      case ok: True
      have "\<exists>n. search_len fits (mid + 1) right mid = Inr n \<and> 1 \<le> n \<and> n \<le> R \<and> (\<forall>L. 1 \<le> L \<and> L \<le> R \<longrightarrow> ok L = (L \<le> n))"
        using less.prems mid ok by (intro less.hyps) auto
      then show ?thesis using True f ok by (simp add: search_len.simps [of fits left right] mid_def [symmetric] Let_def)
    next
      case no: False
      have "\<not> ok L" if "mid - 1 < L" "L \<le> R" for L using anti [of mid L] that no mid less.prems(1) by force
      then have "\<exists>n. search_len fits left (mid - 1) result = Inr n \<and> 1 \<le> n \<and> n \<le> R \<and> (\<forall>L. 1 \<le> L \<and> L \<le> R \<longrightarrow> ok L = (L \<le> n))"
        using less.prems mid by (intro less.hyps) auto
      then show ?thesis using True f no by (simp add: search_len.simps [of fits left right] mid_def [symmetric] Let_def)
    qed
  next
    case False
    have "ok L = (L \<le> result)" if "1 \<le> L" "L \<le> R" for L
    proof
      assume "ok L"
      then show "L \<le> result" using less.prems(6,7) that False by (cases "right < L") auto
    qed (use anti [of L result] that less.prems in blast)
    then show ?thesis using False less.prems by (simp add: search_len.simps [of fits left right])
  qed
qed

text \<open>\<open>need\<close> is defined and grows up to \<open>R\<close>.\<close>

definition grows :: "(int \<Rightarrow> int res) \<Rightarrow> int \<Rightarrow> bool" where
  "grows need R \<longleftrightarrow> (\<forall>L L'. 1 \<le> L \<and> L \<le> L' \<and> L' \<le> R \<longrightarrow> (\<exists>m m'. need L = Inr m \<and> need L' = Inr m' \<and> m \<le> m'))"

lemma growsD: "grows need R \<Longrightarrow> 1 \<le> L \<Longrightarrow> L \<le> L' \<Longrightarrow> L' \<le> R \<Longrightarrow> \<exists>m m'. need L = Inr m \<and> need L' = Inr m' \<and> m \<le> m'"
  by (simp add: grows_def)

lemma largest_fitting_correct:
  assumes g: "grows need R" and R: "1 \<le> R"
  shows "\<exists>n. largest_fitting (\<lambda>L. res_bind (need L) (\<lambda>m. Inr (m \<le> available))) R = Inr n \<and> 0 \<le> n \<and> n \<le> R
    \<and> (\<forall>L. 1 \<le> L \<and> L \<le> R \<longrightarrow> (L \<le> n \<longleftrightarrow> (\<exists>m. need L = Inr m \<and> m \<le> available)))"
proof -
  define ok where "ok L = (\<exists>m. need L = Inr m \<and> m \<le> available)" for L
  let ?fits = "\<lambda>L. res_bind (need L) (\<lambda>m. Inr (m \<le> available))"
  have fits: "?fits L = Inr (ok L)" if "1 \<le> L" "L \<le> R" for L using growsD [OF g that(1) order_refl that(2)] by (auto simp: ok_def)
  have anti: "ok L" if "1 \<le> L" "L \<le> L'" "L' \<le> R" "ok L'" for L L' using growsD [OF g that(1-3)] that(4) by (auto simp: ok_def)
  show ?thesis
  proof (cases "ok 1")
    case True
    have "\<exists>n. search_len ?fits 1 R 1 = Inr n \<and> 1 \<le> n \<and> n \<le> R \<and> (\<forall>L. 1 \<le> L \<and> L \<le> R \<longrightarrow> ok L = (L \<le> n))"
      by (rule search_len_correct) (use fits anti R True in \<open>simp_all del: res_bind_eq_Inr\<close>)
    then obtain n where n: "search_len ?fits 1 R 1 = Inr n" "1 \<le> n" "n \<le> R" "\<forall>L. 1 \<le> L \<and> L \<le> R \<longrightarrow> ok L = (L \<le> n)" by blast
    have "largest_fitting ?fits R = Inr n" unfolding largest_fitting_def fits [OF order_refl R] using True n(1) by simp
    then show ?thesis using n by (intro exI [of _ n]) (simp add: ok_def)
  next
    case False
    then have "\<not> ok L" if "1 \<le> L" "L \<le> R" for L using anti [of 1 L] that by auto
    moreover have "largest_fitting ?fits R = Inr 0" unfolding largest_fitting_def fits [OF order_refl R] using False by simp
    ultimately show ?thesis using R by (intro exI [of _ 0]) (auto simp: ok_def)
  qed
qed

text \<open>The memory a request needs grows with the model length.\<close>

lemma sum_res_mono:
  assumes "list_all2 (\<lambda>x y. \<exists>a b. x = Inr a \<and> y = Inr b \<and> a \<le> b) xs ys"
  shows "\<exists>a b. sum_res xs = Inr a \<and> sum_res ys = Inr b \<and> a \<le> b"
  using assms by (induction rule: list_all2_induct) (auto intro: add_mono)

lemma sum_res_map_mono:
  assumes "\<And>x. x \<in> set xs \<Longrightarrow> \<exists>a b. f x = Inr a \<and> g x = Inr b \<and> a \<le> b"
  shows "\<exists>a b. sum_res (map f xs) = Inr a \<and> sum_res (map g xs) = Inr b \<and> a \<le> b"
  using assms by (intro sum_res_mono) (auto simp: list_all2_conv_all_nth)

lemma total_memory_grows:
  assumes "\<forall>s \<in> set specs. spec_ok s" "decode_context_parallel_size cfg = 1"
  shows "grows (\<lambda>L. total_max_memory_usage_bytes (cfg\<lparr>max_model_len := L\<rparr>) specs) R"
  unfolding grows_def total_max_memory_usage_bytes_def
proof (intro allI impI)
  fix L L' assume "1 \<le> L \<and> L \<le> L' \<and> L' \<le> R"
  then show "\<exists>m m'. sum_res (map (max_memory_usage_bytes (cfg\<lparr>max_model_len := L\<rparr>)) specs) = Inr m
      \<and> sum_res (map (max_memory_usage_bytes (cfg\<lparr>max_model_len := L'\<rparr>)) specs) = Inr m' \<and> m \<le> m'"
    using assms by (intro sum_res_map_mono max_memory_usage_mono) auto
qed

text \<open>Groups with positive sizes and, unless each layer has its own tensor, one page size.\<close>

definition sized_groups :: "kv_cache_group_spec list \<Rightarrow> bool" where
  "sized_groups groups \<longleftrightarrow> (\<forall>g \<in> set groups. spec_ok (group_spec g))
     \<and> (groups \<noteq> [] \<and> uniform_type_specs groups = None \<longrightarrow> (\<exists>p. get_uniform_page_size (map group_spec groups) = Inr p))"

lemma the_only: "(case xs of [p] \<Rightarrow> Inr p | _ \<Rightarrow> Inl e) = Inr q \<longleftrightarrow> xs = [q]"
  by (auto split: list.splits)

lemma uniform_page:
  assumes "get_uniform_page_size specs = Inr p"
  shows "specs \<noteq> []" "s \<in> set specs \<Longrightarrow> page_size_bytes s = Inr p"
proof -
  obtain sizes where m: "map_res page_size_bytes specs = Inr sizes" and r: "remdups sizes = [p]"
    using assms by (auto simp: get_uniform_page_size_def the_only)
  have "set sizes = {p}" using arg_cong [OF r, of set] by simp
  then have all: "x = p" if "x \<in> set sizes" for x using that by simp
  show "specs \<noteq> []" using m r by auto
  assume "s \<in> set specs"
  then obtain q where "q \<in> set sizes" "page_size_bytes s = Inr q"
    using map_res_mem [OF m] by blast
  then show "page_size_bytes s = Inr p" using all by simp
qed

lemma uniform_page_pos: "get_uniform_page_size specs = Inr p \<Longrightarrow> \<forall>s \<in> set specs. spec_ok s \<Longrightarrow> 0 < p"
  using uniform_page [of specs p] spec_okD(2) by (metis all_not_in_conv set_empty sum.inject(2))

lemma uniform_type_specs_eq: "uniform_type_specs groups = Some specs \<longleftrightarrow> (\<exists>g b. groups = [g] \<and> group_spec g = UniformTypeKVCacheSpecs b specs)"
  by (auto simp: uniform_type_specs_def split: list.splits kv_cache_spec.splits)

lemma groups_memory_grows:
  assumes s: "sized_groups groups" and d: "decode_context_parallel_size cfg = 1"
  shows "grows (\<lambda>L. max_memory_usage_bytes_from_groups (cfg\<lparr>max_model_len := L\<rparr>) groups) R"
proof (cases "groups = []")
  case True
  then show ?thesis by (simp add: grows_def max_memory_usage_bytes_from_groups_def)
next
  case ne: False
  show ?thesis
  proof (cases "uniform_type_specs groups")
    case (Some specs)
    then obtain g b where g: "groups = [g]" "group_spec g = UniformTypeKVCacheSpecs b specs" unfolding uniform_type_specs_eq by blast
    have "\<forall>t \<in> set (map snd specs). spec_ok t" using s g spec_ok_member by (auto simp: sized_groups_def)
    then show ?thesis using total_memory_grows [OF _ d] Some ne by (simp add: max_memory_usage_bytes_from_groups_def)
  next
    case None
    then obtain p where p: "get_uniform_page_size (map group_spec groups) = Inr p" using s ne by (auto simp: sized_groups_def)
    have pos: "0 < p" using uniform_page_pos [OF p] s by (auto simp: sized_groups_def)
    let ?need = "\<lambda>L g. res_bind (max_memory_usage_bytes (cfg\<lparr>max_model_len := L\<rparr>) (group_spec g)) (\<lambda>m. guard (p \<noteq> 0) ZeroDivisionError (Inr (cdiv m p)))"
    have "\<exists>a b. ?need L g = Inr a \<and> ?need L' g = Inr b \<and> a \<le> b" if "L \<le> L'" "g \<in> set groups" for L L' g
      using max_memory_usage_mono [of "group_spec g" cfg L L'] s d that pos cdiv_mono [OF pos] by (fastforce simp: sized_groups_def)
    then have "\<exists>a b. sum_res (map (?need L) groups) = Inr a \<and> sum_res (map (?need L') groups) = Inr b \<and> a \<le> b" if "L \<le> L'" for L L'
      using that by (intro sum_res_map_mono) blast
    then show ?thesis using pos unfolding grows_def max_memory_usage_bytes_from_groups_def by (fastforce simp: None p ne intro: mult_left_mono)
  qed
qed

section \<open>The length chosen automatically\<close>

text \<open>\<open>request_fits cfg L w\<close>: a request of length \<open>L\<close> fits into the memory of worker \<open>w\<close>.\<close>

definition request_fits :: "vllm_config \<Rightarrow> int \<Rightarrow> kv_cache_group_spec list \<times> int \<Rightarrow> bool" where
  "request_fits cfg L w \<longleftrightarrow> (\<exists>m. max_memory_usage_bytes_from_groups (cfg\<lparr>max_model_len := L\<rparr>) (fst w) = Inr m \<and> m \<le> snd w)"

lemma auto_fit_worker_ok:
  assumes "fst w \<noteq> [] \<Longrightarrow> sized_groups (fst w)" "decode_context_parallel_size cfg = 1" "1 \<le> max_model_len cfg"
    and "0 \<le> best" "best \<le> max_model_len cfg"
  shows "\<exists>n. auto_fit_worker cfg w best = Inr n \<and> 0 \<le> n \<and> n \<le> best
    \<and> (\<forall>L. 1 \<le> L \<and> L \<le> best \<longrightarrow> (L \<le> n \<longleftrightarrow> fst w = [] \<or> request_fits cfg L w))"
proof (cases "fst w = []")
  case True
  then show ?thesis using assms(4) by (cases w) (auto simp: auto_fit_worker_def)
next
  case False
  have g: "grows (\<lambda>L. max_memory_usage_bytes_from_groups (cfg\<lparr>max_model_len := L\<rparr>) (fst w)) (max_model_len cfg)"
    by (rule groups_memory_grows [OF assms(1) [OF False] assms(2)])
  obtain n where n: "estimate_max_model_len_from_groups cfg (fst w) (snd w) = Inr n" "0 \<le> n"
    "\<forall>L. 1 \<le> L \<and> L \<le> max_model_len cfg \<longrightarrow> (L \<le> n \<longleftrightarrow> request_fits cfg L w)"
    using largest_fitting_correct [OF g assms(3), of "snd w"] unfolding estimate_max_model_len_from_groups_def request_fits_def by blast
  have "auto_fit_worker cfg w best = Inr (if n < best then n else best)" using False n(1) by (cases w) (simp add: auto_fit_worker_def)
  then show ?thesis using n(2,3) assms(4,5) False by (intro exI [of _ "if n < best then n else best"]) auto
qed

lemma auto_fit_workers:
  assumes "\<And>w. w \<in> set ws \<Longrightarrow> fst w \<noteq> [] \<Longrightarrow> sized_groups (fst w)" "decode_context_parallel_size cfg = 1" "1 \<le> max_model_len cfg"
    and "0 \<le> best" "best \<le> max_model_len cfg"
  shows "\<exists>n. fold_res (auto_fit_worker cfg) ws best = Inr n \<and> 0 \<le> n \<and> n \<le> best
    \<and> (\<forall>L. 1 \<le> L \<and> L \<le> best \<longrightarrow> (L \<le> n \<longleftrightarrow> (\<forall>w \<in> set ws. fst w = [] \<or> request_fits cfg L w)))"
  using assms(1,4,5)
proof (induction ws arbitrary: best)
  case (Cons w ws)
  obtain n where n: "auto_fit_worker cfg w best = Inr n" "0 \<le> n" "n \<le> best"
    "\<forall>L. 1 \<le> L \<and> L \<le> best \<longrightarrow> (L \<le> n \<longleftrightarrow> fst w = [] \<or> request_fits cfg L w)"
    using auto_fit_worker_ok [OF _ assms(2,3) Cons.prems(2,3), of w] Cons.prems(1) by auto
  obtain n' where n': "fold_res (auto_fit_worker cfg) ws n = Inr n'" "0 \<le> n'" "n' \<le> n"
    "\<forall>L. 1 \<le> L \<and> L \<le> n \<longrightarrow> (L \<le> n' \<longleftrightarrow> (\<forall>w \<in> set ws. fst w = [] \<or> request_fits cfg L w))"
    using Cons.IH [of n] Cons.prems n(2,3) by auto
  have "L \<le> n' \<longleftrightarrow> (\<forall>w \<in> set (w # ws). fst w = [] \<or> request_fits cfg L w)" if "1 \<le> L" "L \<le> best" for L
    using n(4) n'(3,4) that by (cases "L \<le> n") auto
  then show ?case using n n' by (intro exI [of _ n']) auto
qed auto

text \<open>
  C33: \<^verbatim>\<open>estimate_max_model_len\<close> terminates with the largest model length that fits. For specs with positive block and page sizes its binary search
  returns, without an error, a length between 0 and the configured one, and a length from 1 up to the configured one fits into the
  available memory exactly if it is at most the result.
\<close>

theorem estimate_max_model_len_correct:
  assumes "\<forall>(l, s) \<in> set specs. spec_ok s" "decode_context_parallel_size cfg = 1" "1 \<le> max_model_len cfg"
  shows "\<exists>n. estimate_max_model_len cfg specs available = Inr n \<and> 0 \<le> n \<and> n \<le> max_model_len cfg
    \<and> (\<forall>L. 1 \<le> L \<and> L \<le> max_model_len cfg \<longrightarrow>
         (L \<le> n \<longleftrightarrow> (\<exists>m. total_max_memory_usage_bytes (cfg\<lparr>max_model_len := L\<rparr>) (map snd specs) = Inr m \<and> m \<le> available)))"
proof -
  have "\<forall>s \<in> set (map snd specs). spec_ok s" using assms(1) by auto
  then show ?thesis unfolding estimate_max_model_len_def
    by (intro largest_fitting_correct total_memory_grows assms(2,3))
qed

definition example_attention :: attention_fields where
  "example_attention = \<lparr>a_block_size = 16, num_kv_heads = 2, head_size = 4, dtype = \<lparr>dtype_name = ''bfloat16'', dtype_size = 2\<rparr>,
     kv_quant = NONE, page_size_padded = None\<rparr>"

definition example_full :: kv_cache_spec where
  "example_full = FullAttentionSpec example_attention \<lparr>head_size_v = 4, sliding_window = None, attention_chunk_size = None\<rparr>"

definition example_window :: kv_cache_spec where
  "example_window = SlidingWindowSpec example_attention 32"

definition example_vllm_config :: vllm_config where
  "example_vllm_config = \<lparr>max_model_len = 1000, original_max_model_len = -1, num_gpu_blocks_override = None, disable_hybrid_kv_cache_manager = False,
     decode_context_parallel_size = 1, prefill_context_parallel_size = 1, max_num_batched_tokens = 64, max_num_encoder_input_tokens = 0,
     config_mamba_cache_mode = ''none''\<rparr>"

lemma example_specs_ok: "spec_ok example_full" "spec_ok example_window" "spec_ok (as_full_attention example_window)"
  by (simp_all add: spec_ok.simps example_full_def example_window_def example_attention_def attention_page_size_bytes_def
      full_real_page_size_bytes_def attention_real_page_size_bytes_def is_per_token_head_def is_nvfp4_def)

theorem estimate_max_model_len_correct_witness:
  "\<exists>n. estimate_max_model_len example_vllm_config [(''full.0'', example_full), (''sw.0'', example_window)] 8192 = Inr n
     \<and> n = 144 \<and> (\<exists>m. total_max_memory_usage_bytes (example_vllm_config\<lparr>max_model_len := 144\<rparr>) [example_full, example_window] = Inr m \<and> m \<le> 8192)"
proof -
  let ?specs = "[(''full.0'', example_full), (''sw.0'', example_window)]"
  have v: "estimate_max_model_len example_vllm_config ?specs 8192 = Inr 144" by code_simp
  have cfg: "decode_context_parallel_size example_vllm_config = 1" "max_model_len example_vllm_config = 1000" by (simp_all add: example_vllm_config_def)
  have ok: "\<forall>(l, s) \<in> set ?specs. spec_ok s" using example_specs_ok by simp
  have "\<forall>L. 1 \<le> L \<and> L \<le> 1000 \<longrightarrow> (L \<le> 144 \<longleftrightarrow> (\<exists>m. total_max_memory_usage_bytes (example_vllm_config\<lparr>max_model_len := L\<rparr>) (map snd ?specs) = Inr m \<and> m \<le> 8192))"
    using estimate_max_model_len_correct [OF ok cfg(1), of 8192] v cfg(2) by auto
  from spec [OF this, of 144]
  have "\<exists>m. total_max_memory_usage_bytes (example_vllm_config\<lparr>max_model_len := 144\<rparr>) (map snd ?specs) = Inr m \<and> m \<le> 8192" by simp
  then show ?thesis using v by simp
qed

text \<open>
  C34: a model length chosen automatically passes the memory check. When \<^verbatim>\<open>_auto_fit_max_model_len\<close> returns, the length it leaves in the configuration
  lies between 1 and the configured one, every request of that length fits into the memory of every worker, so the check that follows raises for
  none of them, and one token more would not fit on some worker unless the full length is kept.
\<close>

theorem auto_fit_passes_check:
  assumes "auto_fit_max_model_len cfg projected available = Inr cfg'"
    and "\<forall>groups \<in> set projected. sized_groups groups" "decode_context_parallel_size cfg = 1" "1 \<le> max_model_len cfg"
    and "\<forall>m \<in> set available. 0 < m"
  shows "1 \<le> max_model_len cfg' \<and> max_model_len cfg' \<le> max_model_len cfg
    \<and> (\<forall>w \<in> set (zip projected available). check_worker cfg' w = Inr ())
    \<and> (max_model_len cfg' < max_model_len cfg \<longrightarrow>
         (\<exists>w \<in> set (zip projected available). fst w \<noteq> [] \<and> \<not> request_fits cfg (max_model_len cfg' + 1) w))"
proof -
  let ?ws = "zip projected available"
  have sized: "\<And>w. w \<in> set ?ws \<Longrightarrow> fst w \<noteq> [] \<Longrightarrow> sized_groups (fst w)" using assms(2) by (auto dest: set_zip_leftD)
  obtain n where n: "fold_res (auto_fit_worker cfg) ?ws (max_model_len cfg) = Inr n" "n \<le> max_model_len cfg"
    "\<And>L. 1 \<le> L \<Longrightarrow> L \<le> max_model_len cfg \<Longrightarrow> (L \<le> n \<longleftrightarrow> (\<forall>w \<in> set ?ws. fst w = [] \<or> request_fits cfg L w))"
    using auto_fit_workers [of ?ws cfg "max_model_len cfg"] sized assms(3,4) by auto
  have check: "check_worker (cfg\<lparr>max_model_len := L\<rparr>) w = Inr ()" if w: "fst w = [] \<or> request_fits cfg L w" "w \<in> set ?ws" for L w
  proof (cases "fst w = []")
    case False
    then obtain m where m: "max_memory_usage_bytes_from_groups (cfg\<lparr>max_model_len := L\<rparr>) (fst w) = Inr m" "m \<le> snd w" using w(1) by (auto simp: request_fits_def)
    have "snd w \<in> set available" using w(2) set_zip_rightD [of "fst w" "snd w" projected available] by simp
    then have "0 < snd w" using assms(5) by blast
    then show ?thesis using m False by (simp add: check_worker_def check_enough_memory_def case_prod_beta)
  qed (simp add: check_worker_def case_prod_beta)
  show ?thesis
  proof (cases "list_all (\<lambda>groups. groups = []) projected")
    case True
    then have "cfg' = cfg" using assms(1) by (simp add: auto_fit_max_model_len_def)
    moreover have "fst w = []" if "w \<in> set ?ws" for w using True that by (cases w) (auto simp: list_all_iff dest: set_zip_leftD)
    ultimately show ?thesis using check [of _ "max_model_len cfg"] assms(4) by simp
  next
    case False
    then have pos: "0 < n" and cfg': "cfg' = cfg\<lparr>max_model_len := n\<rparr>"
      using assms(1) n(1,2) unfolding auto_fit_max_model_len_def by (auto split: if_splits)
    have "fst w = [] \<or> request_fits cfg n w" if "w \<in> set ?ws" for w using n(3) [of n] pos n(2) that by simp
    moreover have "\<exists>w \<in> set ?ws. fst w \<noteq> [] \<and> \<not> request_fits cfg (n + 1) w" if "n < max_model_len cfg" using n(3) [of "n + 1"] pos that by auto
    ultimately show ?thesis using check pos n(2) by (simp add: cfg')
  qed
qed

definition example_groups :: "kv_cache_group_spec list" where
  "example_groups = [\<lparr>layer_names = [''full.0''], group_spec = example_full\<rparr>, \<lparr>layer_names = [''sw.0''], group_spec = example_window\<rparr>]"

lemma example_groups_sized: "sized_groups example_groups"
proof -
  have "get_uniform_page_size (map group_spec example_groups) = Inr 512" by code_simp
  then show ?thesis using example_specs_ok by (auto simp: sized_groups_def example_groups_def)
qed

theorem auto_fit_passes_check_witness:
  "\<exists>cfg'. auto_fit_max_model_len example_vllm_config [example_groups] [8192] = Inr cfg' \<and> max_model_len cfg' = 144
     \<and> check_worker cfg' (example_groups, 8192) = Inr () \<and> \<not> request_fits example_vllm_config 145 (example_groups, 8192)"
proof -
  have "case auto_fit_max_model_len example_vllm_config [example_groups] [8192] of Inr cfg' \<Rightarrow> max_model_len cfg' = 144 | _ \<Rightarrow> False" by code_simp
  then obtain cfg' where a: "auto_fit_max_model_len example_vllm_config [example_groups] [8192] = Inr cfg'" "max_model_len cfg' = 144"
    by (auto split: sum.splits)
  have cfg: "decode_context_parallel_size example_vllm_config = 1" "max_model_len example_vllm_config = 1000" by (simp_all add: example_vllm_config_def)
  show ?thesis using auto_fit_passes_check [OF a(1)] example_groups_sized cfg a by auto
qed

section \<open>Groups of layers\<close>

lemma stride_mset:
  assumes "0 < n"
  shows "mset (concat (map (\<lambda>i. stride i n xs) [0..<n])) = mset xs"
proof -
  have pick: "filter (\<lambda>k. i \<le> k \<and> (k - i) mod n = 0) ks = filter (\<lambda>k. k mod n = i) ks" if "i < n" for i ks
  proof (rule filter_cong [OF refl])
    fix k
    show "(i \<le> k \<and> (k - i) mod n = 0) = (k mod n = i)"
    proof
      assume "i \<le> k \<and> (k - i) mod n = 0"
      then show "k mod n = i" using that by (metis le_add_diff_inverse mod_add_right_eq mod_less add_0_right)
    next
      assume "k mod n = i"
      then show "i \<le> k \<and> (k - i) mod n = 0" by (metis mod_less_eq_dividend minus_mod_eq_mult_div mod_mult_self1_is_0)
    qed
  qed
  have split: "mset (concat (map (\<lambda>i. filter (\<lambda>k. k mod n = i) ks) [0..<m])) = mset (filter (\<lambda>k. k mod n < m) ks)" for m and ks :: "nat list"
  proof (induction m)
    case (Suc m)
    have "mset (filter (\<lambda>k. k mod n < Suc m) ks) = mset (filter (\<lambda>k. k mod n < m) ks) + mset (filter (\<lambda>k. k mod n = m) ks)"
      by (induction ks) auto
    then show ?case using Suc by simp
  qed simp
  have "concat (map (\<lambda>i. stride i n xs) [0..<n]) = map ((!) xs) (concat (map (\<lambda>i. filter (\<lambda>k. k mod n = i) [0..<length xs]) [0..<n]))"
    unfolding map_concat by (rule arg_cong [of _ _ concat]) (simp add: stride_def pick)
  then have "mset (concat (map (\<lambda>i. stride i n xs) [0..<n])) = image_mset ((!) xs) (mset (filter (\<lambda>k. k mod n < n) [0..<length xs]))"
    using split [where m = n and ks = "[0..<length xs]"] by simp
  also have "\<dots> = mset (map ((!) xs) [0..<length xs])" using assms by simp
  finally show ?thesis by (simp add: map_nth)
qed

lemma stride_length:
  assumes "0 < n" "length xs \<le> n * gs"
  shows "length (stride i n xs) \<le> gs"
proof -
  let ?K = "{k. k < length xs \<and> i \<le> k \<and> (k - i) mod n = 0}"
  have mult: "(k - i) div n * n = k - i \<and> i \<le> k" if "k \<in> ?K" for k
  proof -
    have "n dvd k - i" using that mod_0_imp_dvd by blast
    then show ?thesis using that dvd_div_mult_self by blast
  qed
  have inj: "inj_on (\<lambda>k. (k - i) div n) ?K"
  proof (rule inj_onI)
    fix x y assume x: "x \<in> ?K" and y: "y \<in> ?K" and eq: "(x - i) div n = (y - i) div n"
    have "x - i = y - i" using mult [OF x] mult [OF y] eq by metis
    then show "x = y" using mult [OF x] mult [OF y] by linarith
  qed
  have sub: "(\<lambda>k. (k - i) div n) ` ?K \<subseteq> {..<gs}"
  proof
    fix y assume "y \<in> (\<lambda>k. (k - i) div n) ` ?K"
    then obtain k where k: "k < length xs" "y = (k - i) div n" by blast
    then have "k - i < gs * n" using assms(2) by (simp add: mult.commute)
    then show "y \<in> {..<gs}" using k(2) by (simp add: less_mult_imp_div_less)
  qed
  have "length (stride i n xs) = card (set (filter (\<lambda>k. i \<le> k \<and> (k - i) mod n = 0) [0..<length xs]))"
    unfolding stride_def length_map by (rule distinct_card [symmetric]) simp
  also have "set (filter (\<lambda>k. i \<le> k \<and> (k - i) mod n = 0) [0..<length xs]) = ?K" by auto
  also have "card ?K \<le> card {..<gs}" by (rule card_inj_on_le [OF inj sub]) simp
  finally show ?thesis by simp
qed

lemma stride_nonempty: "i < length xs \<Longrightarrow> stride i n xs \<noteq> []"
  by (auto simp: stride_def filter_empty_conv intro!: bexI [of _ i])

lemma split_layers_ok:
  assumes "layers \<noteq> []" "0 < gs"
  shows "mset (concat (split_layers gs layers)) = mset layers"
    "ls \<in> set (split_layers gs layers) \<Longrightarrow> ls \<noteq> [] \<and> length ls \<le> gs"
proof -
  define n where "n = nat (cdiv (int (length layers)) (int gs))"
  have gs: "0 < int gs" using assms(2) by simp
  have c1: "0 < cdiv (int (length layers)) (int gs)" using cdiv_pos_iff [OF gs, of "int (length layers)"] assms(1) by simp
  have c2: "int (length layers) \<le> cdiv (int (length layers)) (int gs) * int gs" by (rule cdiv_mult_ge [OF gs])
  have c3: "cdiv (int (length layers)) (int gs) \<le> int (length layers)"
    using cdiv_le_iff [OF gs, of "int (length layers)" "int (length layers)"] gs mult_left_mono [of 1 "int gs" "int (length layers)"] by simp
  have n: "0 < n" "n \<le> length layers" using c1 c3 by (simp_all add: n_def)
  have "int (length layers) \<le> int (n * gs)" using c1 c2 by (simp add: n_def)
  then have len: "length layers \<le> n * gs" by linarith
  have split: "split_layers gs layers = map (\<lambda>i. stride i n layers) [0..<n]" by (simp add: split_layers_def n_def Let_def)
  show "mset (concat (split_layers gs layers)) = mset layers" unfolding split by (rule stride_mset [OF n(1)])
  show "ls \<noteq> [] \<and> length ls \<le> gs" if ls: "ls \<in> set (split_layers gs layers)"
  proof -
    obtain i where i: "i < n" "ls = stride i n layers" using ls by (auto simp: split)
    then show ?thesis using stride_length [OF n(1) len] stride_nonempty [of i layers n] n(2) by simp
  qed
qed

text \<open>The layers by type.\<close>

lemma set_update_subset: "set (AList.update k v d) \<subseteq> insert (k, v) (set d)"
  by (induction d) auto

lemma add_layer_mset:
  "mset (concat (map snd (AList.update s ((case map_of g s of None \<Rightarrow> [] | Some ls \<Rightarrow> ls) @ [l]) g))) = add_mset l (mset (concat (map snd g)))"
  by (induction g) auto

lemma same_type_layers_ok:
  shows "mset (concat (map snd (same_type_layers specs))) = mset (map fst specs)"
    "(s, ls) \<in> set (same_type_layers specs) \<Longrightarrow> ls \<noteq> [] \<and> (\<forall>l \<in> set ls. (l, s) \<in> set specs)"
proof -
  let ?F = "\<lambda>(l, s) g. AList.update s ((case map_of g s of None \<Rightarrow> [] | Some ls \<Rightarrow> ls) @ [l]) g"
  have m: "mset (concat (map snd (fold ?F ds g))) = mset (concat (map snd g)) + mset (map fst ds)" for ds :: "(string, kv_cache_spec) odict" and g
    by (induction ds arbitrary: g) (auto simp: add_layer_mset)
  show "mset (concat (map snd (same_type_layers specs))) = mset (map fst specs)" using m [of specs "[]"] by (simp add: same_type_layers_def)
  define P where "P = (\<lambda>(s, ls). ls \<noteq> [] \<and> (\<forall>l \<in> set ls. (l, s) \<in> set specs))"
  have inv: "\<forall>e \<in> set (fold ?F ds g). P e" if "set ds \<subseteq> set specs" "\<forall>e \<in> set g. P e" for ds g
    using that
  proof (induction ds arbitrary: g)
    case (Cons d ds)
    obtain l s where d: "d = (l, s)" by fastforce
    have "\<forall>e \<in> set (?F d g). P e"
    proof
      fix e assume "e \<in> set (?F d g)"
      then have "e = (s, (case map_of g s of None \<Rightarrow> [] | Some ls \<Rightarrow> ls) @ [l]) \<or> e \<in> set g"
        using set_update_subset [of s _ g] by (auto simp: d)
      then show "P e" using Cons.prems d by (fastforce simp: P_def split: option.splits dest!: map_of_SomeD)
    qed
    then show ?case using Cons by simp
  qed simp
  have "\<forall>e \<in> set (same_type_layers specs). P e" using inv [of specs "[]"] by (simp add: same_type_layers_def)
  then show "ls \<noteq> [] \<and> (\<forall>l \<in> set ls. (l, s) \<in> set specs)" if "(s, ls) \<in> set (same_type_layers specs)" using that by (auto simp: P_def)
qed

text \<open>A merged spec has the sizes of the first spec.\<close>

lemma merge_full_first:
  assumes "merge_full_parts (s # ss) = Inr (a, f)"
  shows "full_parts s = None \<or> a = fst (the (full_parts s)) \<and> head_size_v f = head_size_v (snd (the (full_parts s)))"
  using assms by (auto simp: merge_full_parts_def Let_def map_filter_simps split: list.splits option.splits)

lemma merge_first:
  assumes "merge_specs (s # ss) = Inr m"
  shows "block_size m = block_size s" "page_size_bytes m = page_size_bytes s" "spec_ok s \<Longrightarrow> spec_ok m"
proof -
  have "block_size m = block_size s \<and> page_size_bytes m = page_size_bytes s
      \<and> (m = s \<or> (\<forall>b ds. m \<noteq> UniformTypeKVCacheSpecs b ds) \<and> (\<forall>x. m \<noteq> MambaSpec x))"
  proof (cases "is_full_attention s")
    case True
    then show ?thesis using assms
      by (cases s) (auto simp: merge_specs_def full_real_page_size_bytes_def tq_real_page_size_bytes_def mla_real_page_size_bytes_def
          Let_def dest!: merge_full_first)
  next
    case False
    then have "m = s" using assms by (cases s) (auto simp: merge_specs_def)
    then show ?thesis by simp
  qed
  then show "block_size m = block_size s" "page_size_bytes m = page_size_bytes s" "spec_ok s \<Longrightarrow> spec_ok m"
    by (auto simp: spec_ok.simps [of m] spec_ok.simps [of s] split: kv_cache_spec.splits)
qed

lemma group_specs_ok:
  assumes "create_kv_cache_group_specs specs grouped = Inr groups"
  shows "map layer_names groups = grouped"
    "g \<in> set groups \<Longrightarrow> \<exists>s ss. list_all2 (\<lambda>l s. map_of specs l = Some s) (layer_names g) (s # ss) \<and> merge_specs (s # ss) = Inr (group_spec g)"
proof -
  let ?f = "\<lambda>names. res_bind (map_res (\<lambda>l. dict_get l specs) names) (\<lambda>ss. res_bind (merge_specs ss) (\<lambda>m. Inr \<lparr>layer_names = names, group_spec = m\<rparr>))"
  have m: "map_res ?f grouped = Inr groups" using assms by (simp add: create_kv_cache_group_specs_def)
  have "list_all2 (\<lambda>names g. layer_names g = names) grouped groups"
    using m unfolding map_res_eq_Inr by (rule list_all2_mono) auto
  then show "map layer_names groups = grouped" by (auto simp: list_all2_conv_all_nth intro: nth_equalityI)
  assume "g \<in> set groups"
  then obtain names where "?f names = Inr g" using map_res_image [OF m] by blast
  then obtain ss where ss: "map_res (\<lambda>l. dict_get l specs) names = Inr ss" "merge_specs ss = Inr (group_spec g)" "layer_names g = names" by auto
  moreover obtain s ss' where "ss = s # ss'" using ss(2) by (cases ss) (auto simp: merge_specs_def)
  ultimately show "\<exists>s ss. list_all2 (\<lambda>l s. map_of specs l = Some s) (layer_names g) (s # ss) \<and> merge_specs (s # ss) = Inr (group_spec g)"
    unfolding map_res_eq_Inr by auto
qed

lemma layer_group_size_pos:
  assumes "types \<noteq> []" "\<forall>ls \<in> set types. ls \<noteq> []"
  shows "0 < layer_group_size types"
proof -
  let ?L = "set (map length types)"
  have "finite ?L" "?L \<noteq> {}" using assms(1) by simp_all
  moreover have "\<forall>n \<in> ?L. 0 < n" using assms(2) by auto
  ultimately have "0 < Min ?L" "0 < Max ?L" using Min_in Max_in by blast+
  then show ?thesis by (simp add: layer_group_size_def Let_def)
qed

lemma layer_groups_partition_core:
  assumes "get_kv_cache_groups_uniform_page_size specs = Inr groups" "od_wf specs"
  shows "mset (concat (map layer_names groups)) = mset (map fst specs)
    \<and> (\<forall>g \<in> set groups. layer_names g \<noteq> [] \<and> length (layer_names g) \<le> layer_group_size (map snd (same_type_layers specs))
        \<and> (\<exists>s. (\<forall>l \<in> set (layer_names g). map_of specs l = Some s)
             \<and> block_size (group_spec g) = block_size s \<and> page_size_bytes (group_spec g) = page_size_bytes s))"
proof -
  define types where "types = map snd (same_type_layers specs)"
  define gs where "gs = layer_group_size types"
  have ne: "types \<noteq> []" and c: "create_kv_cache_group_specs specs (concat (map (split_layers gs) types)) = Inr groups"
    using assms(1) by (auto simp: get_kv_cache_groups_uniform_page_size_def Let_def types_def gs_def split: if_splits)
  have full: "\<forall>ls \<in> set types. ls \<noteq> []" using same_type_layers_ok(2) by (fastforce simp: types_def)
  have gs: "0 < gs" using layer_group_size_pos [OF ne full] by (simp add: gs_def)
  note G = group_specs_ok [OF c]
  have split: "mset (concat (concat (map (split_layers gs) ts))) = mset (concat ts)" if "\<forall>ls \<in> set ts. ls \<noteq> []" for ts
    using that split_layers_ok(1) [OF _ gs] by (induction ts) simp_all
  have "mset (concat (map layer_names groups)) = mset (map fst specs)"
    unfolding G(1) split [OF full] using same_type_layers_ok(1) [of specs] by (simp add: types_def)
  moreover have "layer_names g \<noteq> [] \<and> length (layer_names g) \<le> gs \<and> (\<exists>s. (\<forall>l \<in> set (layer_names g). map_of specs l = Some s)
      \<and> block_size (group_spec g) = block_size s \<and> page_size_bytes (group_spec g) = page_size_bytes s)" if g: "g \<in> set groups" for g
  proof -
    have "layer_names g \<in> set (concat (map (split_layers gs) types))" using G(1) g by (metis image_eqI set_map)
    then obtain t ls where t: "(t, ls) \<in> set (same_type_layers specs)" and mem: "layer_names g \<in> set (split_layers gs ls)"
      by (auto simp: types_def)
    have T: "ls \<noteq> []" "\<forall>l \<in> set ls. map_of specs l = Some t" using same_type_layers_ok(2) [OF t] assms(2) by auto
    have "set (layer_names g) \<subseteq> set ls" using mem split_layers_ok(1) [OF T(1) gs] by (metis UN_upper set_concat set_mset_mset)
    then have all: "\<forall>l \<in> set (layer_names g). map_of specs l = Some t" using T(2) by blast
    obtain s ss where s: "list_all2 (\<lambda>l s. map_of specs l = Some s) (layer_names g) (s # ss)" "merge_specs (s # ss) = Inr (group_spec g)"
      using G(2) [OF g] by blast
    obtain l ls' where "layer_names g = l # ls'" "map_of specs l = Some s" using s(1) by (auto simp: list_all2_Cons2)
    then have "s = t" using all by simp
    then show ?thesis using split_layers_ok(2) [OF T(1) gs mem] all merge_first(1,2) [OF s(2)] by blast
  qed
  ultimately show ?thesis by (simp add: gs_def types_def)
qed

text \<open>
  C35: hybrid models are split into groups of equal layers. \<^verbatim>\<open>_get_kv_cache_groups_uniform_page_size\<close> puts every layer into exactly one group, no group
  is empty or has more layers than the group size, all layers of a group have one and the same spec, and the spec of the group has the
  block size and the page size of its layers.
\<close>

theorem layer_groups_partition:
  assumes "get_kv_cache_groups_uniform_page_size specs = Inr groups" "od_wf specs"
  shows "mset (concat (map layer_names groups)) = mset (map fst specs)
    \<and> (\<forall>g \<in> set groups. layer_names g \<noteq> [] \<and> length (layer_names g) \<le> layer_group_size (map snd (same_type_layers specs))
        \<and> (\<exists>s. (\<forall>l \<in> set (layer_names g). map_of specs l = Some s)
             \<and> block_size (group_spec g) = block_size s \<and> page_size_bytes (group_spec g) = page_size_bytes s))"
  by (rule layer_groups_partition_core [OF assms])

definition example_layers :: "(string, kv_cache_spec) odict" where
  "example_layers = [(''full.0'', example_full), (''sw.0'', example_window), (''sw.1'', example_window), (''full.1'', example_full),
     (''sw.2'', example_window)]"

theorem layer_groups_partition_witness:
  "\<exists>groups. get_kv_cache_groups_uniform_page_size example_layers = Inr groups
     \<and> map layer_names groups = [[''full.0'', ''full.1''], [''sw.0'', ''sw.2''], [''sw.1'']]
     \<and> mset (concat (map layer_names groups)) = mset (map fst example_layers)"
proof -
  have "case get_kv_cache_groups_uniform_page_size example_layers of
      Inr groups \<Rightarrow> map layer_names groups = [[''full.0'', ''full.1''], [''sw.0'', ''sw.2''], [''sw.1'']] | _ \<Rightarrow> False" by code_simp
  then obtain groups where g: "get_kv_cache_groups_uniform_page_size example_layers = Inr groups"
    "map layer_names groups = [[''full.0'', ''full.1''], [''sw.0'', ''sw.2''], [''sw.1'']]" by (auto split: sum.splits)
  have "od_wf example_layers" by (simp add: example_layers_def)
  from layer_groups_partition [OF g(1) this] show ?thesis using g by (intro exI [of _ groups] conjI) simp_all
qed

section \<open>Tensors\<close>

lemma concat_map_append: "mset (concat (map (\<lambda>i. f i @ g i) is)) = mset (concat (map f is)) + mset (concat (map g is))"
  by (induction "is") auto

lemma concat_if: "concat (map (\<lambda>i. if P i then [f i] else []) is) = map f (filter P is)"
  by (induction "is") auto

lemma picked_once:
  assumes "length xs \<le> n"
  shows "concat (map (\<lambda>i. if i < length xs then [xs ! i] else []) [0..<n]) = xs"
proof -
  have "[0..<n] = [0..<length xs] @ [length xs..<n]" using assms by (metis le_add_diff_inverse upt_add_eq_append zero_le)
  then have "filter (\<lambda>i. i < length xs) [0..<n] = [0..<length xs]" by simp
  then show ?thesis by (simp add: concat_if map_nth)
qed

lemma sharing_layers_Cons:
  "sharing_layers (g # gs) i = (if i < length (layer_names g) then [layer_names g ! i] else []) @ sharing_layers gs i"
  by (simp add: sharing_layers_def map_filter_simps)

lemma sharing_mset:
  assumes "\<forall>g \<in> set groups. length (layer_names g) \<le> n"
  shows "mset (concat (map (sharing_layers groups) [0..<n])) = mset (concat (map layer_names groups))"
  using assms
proof (induction groups)
  case Nil
  then show ?case by (simp add: sharing_layers_def map_filter_simps concat_eq_Nil_conv)
next
  case (Cons g gs)
  then show ?case using picked_once [of "layer_names g" n] by (simp add: sharing_layers_Cons concat_map_append)
qed

lemma layer_tensor_eq:
  "map_of specs l = Some s \<Longrightarrow> layer_tensor n specs l = res_bind (page_size_bytes s) (\<lambda>p. Inr \<lparr>tensor_size = p * n, shared_by = [l]\<rparr>)"
  by (simp add: layer_tensor_def dict_get_def)

lemma layer_tensors:
  assumes "od_wf specs" "set ds \<subseteq> set specs" "map_res (layer_tensor n specs) (map fst ds) = Inr ts"
    and "sum_res (map (\<lambda>x. page_size_bytes (snd x)) ds) = Inr p"
  shows "sum_list (map tensor_size ts) = n * p" "map shared_by ts = map (\<lambda>l. [l]) (map fst ds)" "\<forall>t \<in> set ts. n dvd tensor_size t"
proof -
  have "sum_list (map tensor_size ts) = n * p \<and> map shared_by ts = map (\<lambda>l. [l]) (map fst ds) \<and> (\<forall>t \<in> set ts. n dvd tensor_size t)"
    using assms(2-4)
  proof (induction ds arbitrary: ts p)
    case (Cons d ds)
    obtain l s where d: "d = (l, s)" by fastforce
    then have l: "map_of specs l = Some s" using assms(1) Cons.prems(1) by simp
    obtain t ts' q p' where ts: "ts = t # ts'" "map_res (layer_tensor n specs) (map fst ds) = Inr ts'" and p: "p = q + p'"
      "sum_res (map (\<lambda>x. page_size_bytes (snd x)) ds) = Inr p'" "t = \<lparr>tensor_size = q * n, shared_by = [l]\<rparr>"
      using Cons.prems(2,3) d by (auto simp: layer_tensor_eq [OF l])
    then show ?case using Cons.IH [OF _ ts(2) p(2)] Cons.prems(1) d by (auto simp: algebra_simps)
  qed auto
  then show "sum_list (map tensor_size ts) = n * p" "map shared_by ts = map (\<lambda>l. [l]) (map fst ds)" "\<forall>t \<in> set ts. n dvd tensor_size t" by blast+
qed

text \<open>Where each layer has a tensor of its own, the specs are those of the layers of the group.\<close>

definition own_specs :: "kv_cache_group_spec list \<Rightarrow> bool" where
  "own_specs groups \<longleftrightarrow> (\<forall>specs. uniform_type_specs groups = Some specs \<longrightarrow> od_wf specs \<and> layer_names (hd groups) = map fst specs)"

text \<open>
  \<open>laid_out groups m c\<close>: \<open>b\<close> bytes per block are divided among the tensors, the blocks fill the memory \<open>m\<close> up to less than one block, and
  every layer has one tensor.
\<close>

definition laid_out :: "kv_cache_group_spec list \<Rightarrow> int \<Rightarrow> kv_cache_config \<Rightarrow> bool" where
  "laid_out groups m c \<longleftrightarrow> 0 \<le> num_blocks c \<and> kv_cache_groups c = groups
     \<and> mset (concat (map shared_by (kv_cache_tensors c))) = mset (concat (map layer_names groups))
     \<and> (\<exists>b > 0. sum_list (map tensor_size (kv_cache_tensors c)) = num_blocks c * b
          \<and> num_blocks c * b \<le> m \<and> m < (num_blocks c + 1) * b)
     \<and> (\<forall>t \<in> set (kv_cache_tensors c). num_blocks c dvd tensor_size t)"

lemma div_bounds: "0 < (b::int) \<Longrightarrow> m div b * b \<le> m \<and> m < (m div b + 1) * b"
proof -
  assume "0 < b"
  then have "0 \<le> m mod b" "m mod b < b" by simp_all
  moreover have "m div b * b + m mod b = m" by (rule div_mult_mod_eq)
  ultimately show ?thesis unfolding distrib_right by linarith
qed

lemma config_laid_out:
  assumes c: "get_kv_cache_config_from_groups cfg groups available = Inr c" and o: "num_gpu_blocks_override cfg = None"
    and av: "0 \<le> available" and ne: "groups \<noteq> []" and ok: "\<forall>g \<in> set groups. spec_ok (group_spec g)" and own: "own_specs groups"
  shows "laid_out groups available c"
proof (cases "uniform_type_specs groups")
  case (Some specs)
  then obtain g b where g: "groups = [g]" "group_spec g = UniformTypeKVCacheSpecs b specs" unfolding uniform_type_specs_eq by blast
  have names: "od_wf specs" "layer_names g = map fst specs" using own Some g by (auto simp: own_specs_def)
  obtain p where p: "page_size_bytes (group_spec g) = Inr p" "0 < p" using ok g spec_okD(2) [of "group_spec g"] by auto
  obtain ts where ts: "map_res (layer_tensor (available div p) specs) (map fst specs) = Inr ts"
    and c': "c = \<lparr>num_blocks = available div p, kv_cache_tensors = ts, kv_cache_groups = groups\<rparr>"
    using c Some o p g names by (auto simp: get_kv_cache_config_from_groups_def Let_def may_override_num_blocks_def)
  have "sum_res (map (\<lambda>x. page_size_bytes (snd x)) specs) = Inr p" using p g by simp
  note T = layer_tensors [OF names(1) order_refl ts this]
  have "mset (concat (map shared_by ts)) = mset (concat (map layer_names groups))" unfolding T(2) by (simp add: g names comp_def)
  then show ?thesis using T(1,3) av p div_bounds [OF p(2), of available] by (auto simp: laid_out_def c' pos_imp_zdiv_nonneg_iff intro!: exI [of _ p])
next
  case None
  define gs where "gs = max_layers groups"
  obtain p n where p: "get_uniform_page_size (map group_spec groups) = Inr p" and gs: "0 < gs"
    and n: "get_num_blocks cfg (int gs) available p = Inr n"
    and c': "c = \<lparr>num_blocks = n, kv_cache_tensors = map (\<lambda>i. \<lparr>tensor_size = p * n, shared_by = sharing_layers groups i\<rparr>) [0..<gs],
                  kv_cache_groups = groups\<rparr>"
    using c None ne by (auto simp: get_kv_cache_config_from_groups_def gs_def)
  have pos: "0 < p" using uniform_page_pos [OF p] ok by simp
  have n': "n = available div (p * int gs)"
    using n o av pos gs by (auto simp: get_num_blocks_def may_override_num_blocks_def zdiv_zmult2_eq pos_imp_zdiv_nonneg_iff)
  have "\<forall>g \<in> set groups. length (layer_names g) \<le> gs" by (simp add: gs_def max_layers_def)
  note S = sharing_mset [OF this]
  have "map shared_by (kv_cache_tensors c) = map (sharing_layers groups) [0..<gs]" by (simp add: c')
  moreover have "sum_list (map tensor_size (kv_cache_tensors c)) = n * (p * int gs)" by (simp add: c' comp_def sum_list_triv algebra_simps)
  moreover have b: "0 < p * int gs" using pos gs by simp
  ultimately show ?thesis using S div_bounds [OF b, of available] av b unfolding laid_out_def
    by (auto simp: c' n' comp_def pos_imp_zdiv_nonneg_iff intro!: exI [of _ "p * int gs"])
qed

text \<open>
  C36: the KV cache tensors use the memory of a worker and nothing more. Without a block override, \<^verbatim>\<open>get_kv_cache_config_from_groups\<close> gives
  every layer of every group exactly one tensor, the sizes of the tensors add up to the number of blocks times the bytes of a block, this is at most the
  available memory, and one more block would not fit; each tensor is a whole number of blocks.
\<close>

theorem kv_cache_tensors_fit:
  assumes "get_kv_cache_config_from_groups cfg groups available = Inr c" "num_gpu_blocks_override cfg = None"
    and "0 \<le> available" "groups \<noteq> []" "\<forall>g \<in> set groups. spec_ok (group_spec g)" "own_specs groups"
  shows "mset (concat (map shared_by (kv_cache_tensors c))) = mset (concat (map layer_names groups))
    \<and> (\<exists>b > 0. sum_list (map tensor_size (kv_cache_tensors c)) = num_blocks c * b \<and> num_blocks c * b \<le> available \<and> available < (num_blocks c + 1) * b)
    \<and> 0 \<le> num_blocks c \<and> (\<forall>t \<in> set (kv_cache_tensors c). num_blocks c dvd tensor_size t)"
  using config_laid_out [OF assms] by (auto simp: laid_out_def)

theorem kv_cache_tensors_fit_witness:
  "\<exists>c. get_kv_cache_config_from_groups example_vllm_config example_groups 8000 = Inr c \<and> num_blocks c = 15
     \<and> mset (concat (map shared_by (kv_cache_tensors c))) = {#''full.0'', ''sw.0''#}"
proof -
  have "case get_kv_cache_config_from_groups example_vllm_config example_groups 8000 of Inr c \<Rightarrow> num_blocks c = 15 | _ \<Rightarrow> False" by code_simp
  then obtain c where c: "get_kv_cache_config_from_groups example_vllm_config example_groups 8000 = Inr c" "num_blocks c = 15"
    by (auto split: sum.splits)
  have "\<forall>g \<in> set example_groups. spec_ok (group_spec g)" "own_specs example_groups" "example_groups \<noteq> []"
    using example_specs_ok by (auto simp: example_groups_def own_specs_def uniform_type_specs_def)
  then show ?thesis using kv_cache_tensors_fit [OF c(1)] c by (auto simp: example_vllm_config_def example_groups_def)
qed

section \<open>All workers\<close>

text \<open>The spec of a single layer, with positive sizes also where it is turned into full attention.\<close>

definition layer_spec :: "kv_cache_spec \<Rightarrow> bool" where
  "layer_spec s \<longleftrightarrow> spec_ok s \<and> spec_ok (as_full_attention s) \<and> (\<forall>b ds. s \<noteq> UniformTypeKVCacheSpecs b ds)"

definition group_ok :: "kv_cache_group_spec \<Rightarrow> bool" where
  "group_ok g \<longleftrightarrow> spec_ok (group_spec g) \<and> (\<forall>b ds. group_spec g = UniformTypeKVCacheSpecs b ds \<longrightarrow> layer_names g = map fst ds)"

lemma as_full_attention_simple: "\<forall>b ds. s \<noteq> UniformTypeKVCacheSpecs b ds \<Longrightarrow> as_full_attention s \<noteq> UniformTypeKVCacheSpecs b' ds'"
  by (cases s) auto

lemma merge_simple: "merge_specs (s # ss) = Inr m \<Longrightarrow> \<forall>b ds. s \<noteq> UniformTypeKVCacheSpecs b ds \<Longrightarrow> m \<noteq> UniformTypeKVCacheSpecs b' ds'"
  by (cases s) (auto simp: merge_specs_def)

lemma created_groups_ok:
  assumes "create_kv_cache_group_specs specs grouped = Inr groups"
    and "\<forall>(l, s) \<in> set specs. spec_ok s \<and> (\<forall>b ds. s \<noteq> UniformTypeKVCacheSpecs b ds)"
  shows "\<forall>g \<in> set groups. group_ok g"
proof
  fix g assume "g \<in> set groups"
  then obtain s ss where s: "list_all2 (\<lambda>l s. map_of specs l = Some s) (layer_names g) (s # ss)" "merge_specs (s # ss) = Inr (group_spec g)"
    using group_specs_ok(2) [OF assms(1)] by blast
  obtain l where "map_of specs l = Some s" using s(1) by (auto simp: list_all2_Cons2)
  then have "(l, s) \<in> set specs" by (rule map_of_SomeD)
  then have "spec_ok s" "\<forall>b ds. s \<noteq> UniformTypeKVCacheSpecs b ds" using assms(2) by auto
  then show "group_ok g" using merge_first(3) [OF s(2)] merge_simple [OF s(2)] by (simp add: group_ok_def)
qed

lemma list_all2_keys: "list_all2 (\<lambda>e e'. fst e' = fst e \<and> Q e') ds es \<Longrightarrow> map fst es = map fst ds \<and> (\<forall>e \<in> set es. Q e)"
  by (induction rule: list_all2_induct) auto

lemma unify_page_size_ok:
  assumes "unify_kv_cache_spec_page_size specs = Inr specs'"
    and "\<forall>(l, s) \<in> set specs. spec_ok s \<and> (\<forall>b ds. s \<noteq> UniformTypeKVCacheSpecs b ds)"
  shows "map fst specs' = map fst specs" "\<forall>(l, s) \<in> set specs'. spec_ok s \<and> (\<forall>b ds. s \<noteq> UniformTypeKVCacheSpecs b ds)"
proof -
  have one: "fst e' = fst e \<and> spec_ok (snd e') \<and> (\<forall>b ds. snd e' \<noteq> UniformTypeKVCacheSpecs b ds)"
    if u: "unify_layer_page_size mx e = Inr e'" and e: "spec_ok (snd e)" "\<forall>b ds. snd e \<noteq> UniformTypeKVCacheSpecs b ds" and mx: "0 < mx" for mx e e'
  proof (cases "page_size_bytes (snd e) = Inr mx")
    case True
    then show ?thesis using u e by (auto simp: unify_layer_page_size_def split: prod.splits)
  next
    case False
    obtain p where p: "page_size_bytes (snd e) = Inr p" "0 < p" "0 < block_size (snd e)" using spec_okD [OF e(1)] by blast
    let ?s = "copy_with_new_block_size (block_size (snd e) * (mx div p)) (snd e)"
    have q: "mx mod p = 0" "page_size_bytes ?s = Inr mx" "e' = (fst e, ?s)"
      using u p(1) False by (auto simp: unify_layer_page_size_def Let_def split: prod.splits if_splits)
    have "mx div p * p = mx" using q(1) div_mult_mod_eq [of mx p] by simp
    then have "0 < mx div p" using mx p(2) by (metis zero_less_mult_pos2)
    then have "0 < block_size (snd e) * (mx div p)" using p(3) by simp
    moreover have "block_size ?s = block_size (snd e) * (mx div p)" by (cases "snd e") simp_all
    ultimately show ?thesis using q e mx by (cases "snd e") (auto simp: spec_ok.simps)
  qed
  obtain sizes where sizes: "map_res page_size_bytes (map snd specs) = Inr sizes"
    and u: "(if length (remdups sizes) \<le> 1 then Inr specs else map_res (unify_layer_page_size (Max (set sizes))) specs) = Inr specs'"
    using assms(1) by (auto simp: unify_kv_cache_spec_page_size_def)
  have "map fst specs' = map fst specs \<and> (\<forall>e \<in> set specs'. spec_ok (snd e) \<and> (\<forall>b ds. snd e \<noteq> UniformTypeKVCacheSpecs b ds))"
  proof (cases "length (remdups sizes) \<le> 1")
    case True
    then show ?thesis using u assms(2) by auto
  next
    case False
    then have m: "map_res (unify_layer_page_size (Max (set sizes))) specs = Inr specs'" using u by simp
    have "sizes \<noteq> []" using False by auto
    then have "Max (set sizes) \<in> set sizes" by simp
    then obtain s where "s \<in> set (map snd specs)" "page_size_bytes s = Inr (Max (set sizes))" using map_res_image [OF sizes] by blast
    then have mx: "0 < Max (set sizes)" using assms(2) spec_okD(2) by fastforce
    have "list_all2 (\<lambda>e e'. fst e' = fst e \<and> spec_ok (snd e') \<and> (\<forall>b ds. snd e' \<noteq> UniformTypeKVCacheSpecs b ds)) specs specs'"
      using m unfolding map_res_eq_Inr
    proof (rule list.rel_mono_strong)
      fix e e' assume "e \<in> set specs" "unify_layer_page_size (Max (set sizes)) e = Inr e'"
      then show "fst e' = fst e \<and> spec_ok (snd e') \<and> (\<forall>b ds. snd e' \<noteq> UniformTypeKVCacheSpecs b ds)"
        using assms(2) mx by (intro one) auto
    qed
    then show ?thesis by (rule list_all2_keys)
  qed
  then show "map fst specs' = map fst specs" "\<forall>(l, s) \<in> set specs'. spec_ok s \<and> (\<forall>b ds. s \<noteq> UniformTypeKVCacheSpecs b ds)" by auto
qed

lemma sum_pages_pos:
  assumes "\<forall>x \<in> set ds. spec_ok (snd x)"
  shows "\<exists>p. sum_res (map (\<lambda>x. page_size_bytes (snd x)) ds) = Inr p \<and> (if ds = [] then p = 0 else 0 < p)"
  using assms
proof (induction ds)
  case (Cons d ds)
  obtain p where "page_size_bytes (snd d) = Inr p" "0 < p" using Cons.prems spec_okD(2) [of "snd d"] by auto
  then show ?case using Cons by (cases "ds = []") auto
qed simp

lemma uniform_type_ok:
  assumes "uniform_from_specs specs = Inr (Some t)" "\<forall>(l, s) \<in> set specs. spec_ok s"
  shows "spec_ok t" "\<exists>b. t = UniformTypeKVCacheSpecs b specs"
proof -
  have t: "t = UniformTypeKVCacheSpecs (block_size (snd (hd specs))) specs" and ne: "specs \<noteq> []"
    using assms(1) by (auto simp: uniform_from_specs_def is_uniform_type_def split: if_splits list.splits)
  have mem: "\<forall>x \<in> set specs. spec_ok (snd x)" using assms(2) by auto
  then have "\<exists>p. page_size_bytes t = Inr p \<and> 0 < p" using sum_pages_pos [OF mem] ne by (simp add: t)
  then show "spec_ok t" using mem ne spec_okD(1) [of "snd (hd specs)"] hd_in_set [OF ne]
    by (simp add: t spec_ok.simps [of "UniformTypeKVCacheSpecs (block_size (snd (hd specs))) specs"])
  show "\<exists>b. t = UniformTypeKVCacheSpecs b specs" using t by blast
qed

lemma unify_hybrid_ok:
  assumes "unify_hybrid_kv_cache_specs specs = Inr specs'" "\<forall>(l, s) \<in> set specs. layer_spec s"
  shows "map fst specs' = map fst specs" "\<forall>(l, s) \<in> set specs'. spec_ok s \<and> (\<forall>b ds. s \<noteq> UniformTypeKVCacheSpecs b ds)"
proof -
  have "specs' = specs \<or> specs' = map (\<lambda>(l, s). (l, as_full_attention s)) specs"
    using assms(1) by (auto simp: unify_hybrid_kv_cache_specs_def Let_def split: if_splits)
  then have "map fst specs' = map fst specs \<and> (\<forall>(l, s) \<in> set specs'. spec_ok s \<and> (\<forall>b ds. s \<noteq> UniformTypeKVCacheSpecs b ds))"
  proof
    assume full: "specs' = map (\<lambda>(l, s). (l, as_full_attention s)) specs"
    have "spec_ok s' \<and> (\<forall>b ds. s' \<noteq> UniformTypeKVCacheSpecs b ds)" if e: "(l, s') \<in> set specs'" for l s'
    proof -
      obtain s where s: "(l, s) \<in> set specs" "s' = as_full_attention s" using e by (auto simp: full)
      then have "layer_spec s" using assms(2) by blast
      then show ?thesis using s(2) as_full_attention_simple [of s] by (simp add: layer_spec_def)
    qed
    moreover have "map fst specs' = map fst specs" by (auto simp: full)
    ultimately show ?thesis by blast
  qed (use assms(2) in \<open>auto simp: layer_spec_def\<close>)
  then show "map fst specs' = map fst specs" "\<forall>(l, s) \<in> set specs'. spec_ok s \<and> (\<forall>b ds. s \<noteq> UniformTypeKVCacheSpecs b ds)" by blast+
qed

lemma get_kv_cache_groups_ok:
  assumes g: "get_kv_cache_groups cfg specs = Inr groups" and wf: "od_wf specs" and ok: "\<forall>(l, s) \<in> set specs. layer_spec s"
  shows "mset (concat (map layer_names groups)) = mset (map fst specs)" "\<forall>g \<in> set groups. group_ok g"
proof -
  obtain d where d: "(if disable_hybrid_kv_cache_manager cfg then unify_hybrid_kv_cache_specs specs else Inr specs) = Inr d"
    and rest: "(if d = [] then Inr [] else res_bind (is_kv_cache_spec_uniform d) (\<lambda>u. if u then get_kv_cache_groups_uniform_spec d
       else res_bind (uniform_from_specs d) (\<lambda>ut. case ut of Some t \<Rightarrow> Inr (get_kv_cache_groups_uniform_type d t)
         | None \<Rightarrow> res_bind (unify_kv_cache_spec_page_size d) get_kv_cache_groups_uniform_page_size))) = Inr groups"
    using g unfolding get_kv_cache_groups_def res_bind_eq_Inr by blast
  have D: "map fst d = map fst specs" "\<forall>(l, s) \<in> set d. spec_ok s \<and> (\<forall>b ds. s \<noteq> UniformTypeKVCacheSpecs b ds)"
    using d ok unify_hybrid_ok [of specs d] by (auto simp: layer_spec_def split: if_splits)
  have "mset (concat (map layer_names groups)) = mset (map fst d) \<and> (\<forall>g \<in> set groups. group_ok g)"
  proof (cases "d = []")
    case False
    then obtain u where u: "(if u then get_kv_cache_groups_uniform_spec d
       else res_bind (uniform_from_specs d) (\<lambda>ut. case ut of Some t \<Rightarrow> Inr (get_kv_cache_groups_uniform_type d t)
         | None \<Rightarrow> res_bind (unify_kv_cache_spec_page_size d) get_kv_cache_groups_uniform_page_size)) = Inr groups"
      using rest unfolding if_not_P [OF False] res_bind_eq_Inr by blast
    show ?thesis
    proof (cases u)
      case True
      then show ?thesis using u group_specs_ok(1) [of d "[map fst d]" groups] created_groups_ok [of d "[map fst d]" groups] D(2)
        by (simp add: get_kv_cache_groups_uniform_spec_def)
    next
      case False
      then obtain ut where ut: "uniform_from_specs d = Inr ut" and r: "(case ut of Some t \<Rightarrow> Inr (get_kv_cache_groups_uniform_type d t)
         | None \<Rightarrow> res_bind (unify_kv_cache_spec_page_size d) get_kv_cache_groups_uniform_page_size) = Inr groups"
        using u unfolding if_not_P [OF False] res_bind_eq_Inr by blast
      show ?thesis
      proof (cases ut)
        case (Some t)
        have "\<forall>(l, s) \<in> set d. spec_ok s" using D(2) by auto
        then show ?thesis using uniform_type_ok [of d t] ut r Some by (auto simp: get_kv_cache_groups_uniform_type_def group_ok_def)
      next
        case None
        then obtain d' where page: "unify_kv_cache_spec_page_size d = Inr d'" "get_kv_cache_groups_uniform_page_size d' = Inr groups"
          using r by auto
        note U = unify_page_size_ok [OF page(1) D(2)]
        have "\<forall>g \<in> set groups. group_ok g" using page(2) created_groups_ok [OF _ U(2)]
          by (auto simp: get_kv_cache_groups_uniform_page_size_def Let_def split: if_splits)
        moreover have "od_wf d'" using U(1) D(1) wf by simp
        ultimately show ?thesis using layer_groups_partition_core [OF page(2)] U(1) by simp
      qed
    qed
  qed (use rest in simp)
  then show "mset (concat (map layer_names groups)) = mset (map fst specs)" "\<forall>g \<in> set groups. group_ok g" using D(1) by simp_all
qed

text \<open>The groups of one worker.\<close>

lemma project_group_ok:
  assumes "project_group worker g = Inr g'" "group_ok g" "distinct (layer_names g)"
  shows "layer_names g' = filter (\<lambda>l. l \<in> fst ` set worker) (layer_names g)" "spec_ok (group_spec g')"
    "group_spec g' = UniformTypeKVCacheSpecs b ds \<Longrightarrow> layer_names g' \<noteq> [] \<Longrightarrow> od_wf ds \<and> layer_names g' = map fst ds"
proof -
  let ?names = "filter (\<lambda>l. l \<in> fst ` set worker) (layer_names g)"
  have "layer_names g' = ?names \<and> spec_ok (group_spec g') \<and> (\<forall>b ds. group_spec g' = UniformTypeKVCacheSpecs b ds \<longrightarrow> layer_names g' \<noteq> []
     \<longrightarrow> od_wf ds \<and> layer_names g' = map fst ds)"
  proof (cases "\<exists>b specs. group_spec g = UniformTypeKVCacheSpecs b specs \<and> ?names \<noteq> []")
    case True
    then obtain b specs where s: "group_spec g = UniformTypeKVCacheSpecs b specs" and ne: "?names \<noteq> []" by blast
    obtain ss where ss: "map_res (\<lambda>l. res_bind (dict_get l specs) (\<lambda>s. Inr (l, s))) ?names = Inr ss"
      and g': "g' = \<lparr>layer_names = ?names, group_spec = UniformTypeKVCacheSpecs b ss\<rparr>"
      using assms(1) s ne by (auto simp: project_group_def Let_def)
    have all: "list_all2 (\<lambda>l e. fst e = l \<and> e \<in> set specs) ?names ss"
      using ss unfolding map_res_eq_Inr by (rule list_all2_mono) (auto dest: map_of_SomeD)
    have keys: "map fst ss = ?names" using all by (induction rule: list_all2_induct) auto
    have "set ss \<subseteq> set specs" using all by (induction rule: list_all2_induct) auto
    then have mem: "\<forall>x \<in> set ss. spec_ok (snd x)" using assms(2) s spec_ok_member by (auto simp: group_ok_def)
    have nss: "ss \<noteq> []" using keys ne by force
    have "\<exists>p. page_size_bytes (group_spec g') = Inr p \<and> 0 < p" using sum_pages_pos [OF mem] nss by (simp add: g')
    moreover note nss
    moreover have "0 < b" using assms(2) s spec_okD(1) [of "group_spec g"] by (simp add: group_ok_def)
    ultimately have "spec_ok (group_spec g')" using mem g' by (simp add: spec_ok.simps [of "UniformTypeKVCacheSpecs b ss"])
    then show ?thesis using g' keys assms(3) by auto
  next
    case False
    then have "g' = \<lparr>layer_names = ?names, group_spec = group_spec g\<rparr>"
      using assms(1) by (auto simp: project_group_def Let_def split: kv_cache_spec.splits if_splits)
    then show ?thesis using False assms(2) by (auto simp: group_ok_def)
  qed
  then show "layer_names g' = ?names" "spec_ok (group_spec g')"
    "group_spec g' = UniformTypeKVCacheSpecs b ds \<Longrightarrow> layer_names g' \<noteq> [] \<Longrightarrow> od_wf ds \<and> layer_names g' = map fst ds" by blast+
qed

lemma project_worker_ok:
  assumes p: "project_kv_cache_groups_to_worker groups worker = Inr projected" and ok: "\<forall>g \<in> set groups. group_ok g"
    and d: "distinct (concat (map layer_names groups))" and w: "od_wf worker" "set (map fst worker) \<subseteq> set (concat (map layer_names groups))"
  shows "mset (concat (map layer_names projected)) = mset (map fst worker)" "\<forall>g \<in> set projected. spec_ok (group_spec g)"
    "worker \<noteq> [] \<Longrightarrow> own_specs projected" "projected = [] \<longleftrightarrow> groups = []"
proof -
  let ?in = "\<lambda>l. l \<in> fst ` set worker"
  have m: "list_all2 (\<lambda>g g'. project_group worker g = Inr g') groups projected"
    using p unfolding project_kv_cache_groups_to_worker_def map_res_eq_Inr .
  have "list_all2 (\<lambda>g g'. layer_names g' = filter ?in (layer_names g) \<and> spec_ok (group_spec g')
      \<and> (\<forall>b ds. group_spec g' = UniformTypeKVCacheSpecs b ds \<longrightarrow> layer_names g' \<noteq> [] \<longrightarrow> od_wf ds \<and> layer_names g' = map fst ds)) groups projected"
    using m
  proof (rule list.rel_mono_strong)
    fix g g' assume g: "g \<in> set groups" and pg: "project_group worker g = Inr g'"
    have "distinct (layer_names g)" using d g by (auto simp: distinct_concat_iff)
    then show "layer_names g' = filter ?in (layer_names g) \<and> spec_ok (group_spec g')
      \<and> (\<forall>b ds. group_spec g' = UniformTypeKVCacheSpecs b ds \<longrightarrow> layer_names g' \<noteq> [] \<longrightarrow> od_wf ds \<and> layer_names g' = map fst ds)"
      using project_group_ok [OF pg] ok g by blast
  qed
  then have all: "concat (map layer_names projected) = filter ?in (concat (map layer_names groups))
    \<and> (\<forall>g \<in> set projected. spec_ok (group_spec g) \<and> (\<forall>b ds. group_spec g = UniformTypeKVCacheSpecs b ds \<longrightarrow> layer_names g \<noteq> []
       \<longrightarrow> od_wf ds \<and> layer_names g = map fst ds)) \<and> (projected = [] \<longleftrightarrow> groups = [])"
    by (induction rule: list_all2_induct) auto
  have "set (filter ?in (concat (map layer_names groups))) = set (map fst worker)" using w(2) by auto
  then show names: "mset (concat (map layer_names projected)) = mset (map fst worker)"
    using all d w(1) set_eq_iff_mset_eq_distinct [of "filter ?in (concat (map layer_names groups))" "map fst worker"] by simp
  show "\<forall>g \<in> set projected. spec_ok (group_spec g)" "projected = [] \<longleftrightarrow> groups = []" using all by blast+
  show "own_specs projected" if ne: "worker \<noteq> []"
    unfolding own_specs_def uniform_type_specs_eq
  proof (intro allI impI, elim exE conjE)
    fix specs g b assume g: "projected = [g]" "group_spec g = UniformTypeKVCacheSpecs b specs"
    then have "layer_names g \<noteq> []" using names ne by auto
    then show "od_wf specs \<and> layer_names (hd projected) = map fst specs" using all g by auto
  qed
qed

text \<open>The specs of all workers.\<close>

lemma merge_layer_ok:
  assumes "merge_worker_layer e d = Inr d'" "od_wf d"
  shows "od_wf d' \<and> set d \<subseteq> set d' \<and> fst e \<in> fst ` set d' \<and> set d' \<subseteq> insert e (set d)"
proof -
  obtain l s where e: "e = (l, s)" by fastforce
  show ?thesis
  proof (cases "map_of d l")
    case None
    then have d': "d' = AList.update l s d" using assms(1) e by (simp add: merge_worker_layer_def)
    have l: "l \<notin> fst ` set d" using None by (simp add: map_of_eq_None_iff)
    have "set d \<subseteq> set (AList.update l s d)" using l by (induction d) auto
    moreover have "fst ` set (AList.update l s d) = insert l (fst ` set d)" using AList.dom_update [of l s d] by simp
    ultimately show ?thesis using d' e assms(2) set_update_subset [of l s d] by auto
  next
    case (Some s')
    then show ?thesis using assms e by (force simp: merge_worker_layer_def dest: map_of_SomeD)
  qed
qed

lemma merge_layers_ok:
  assumes "fold_res merge_worker_layer w d = Inr d'" "od_wf d"
  shows "od_wf d' \<and> set d \<subseteq> set d' \<and> fst ` set w \<subseteq> fst ` set d' \<and> set d' \<subseteq> set w \<union> set d"
  using assms
proof (induction w arbitrary: d)
  case (Cons e w)
  then obtain d1 where 1: "merge_worker_layer e d = Inr d1" "fold_res merge_worker_layer w d1 = Inr d'" by auto
  note M = merge_layer_ok [OF 1(1) Cons.prems(2)]
  have I: "od_wf d' \<and> set d1 \<subseteq> set d' \<and> fst ` set w \<subseteq> fst ` set d' \<and> set d' \<subseteq> set w \<union> set d1" using Cons.IH [OF 1(2)] M by blast
  then have "fst e \<in> fst ` set d'" using M by (meson image_mono subsetD)
  then show ?case using I M by auto
qed simp

lemma merge_workers_ok:
  assumes "fold_res (fold_res merge_worker_layer) ws d = Inr d'" "od_wf d"
  shows "od_wf d' \<and> set d \<subseteq> set d' \<and> (\<forall>w \<in> set ws. fst ` set w \<subseteq> fst ` set d') \<and> set d' \<subseteq> (\<Union>w \<in> set ws. set w) \<union> set d"
  using assms
proof (induction ws arbitrary: d)
  case (Cons w ws)
  then obtain d1 where 1: "fold_res merge_worker_layer w d = Inr d1" "fold_res (fold_res merge_worker_layer) ws d1 = Inr d'" by auto
  note M = merge_layers_ok [OF 1(1) Cons.prems(2)]
  have I: "od_wf d' \<and> set d1 \<subseteq> set d' \<and> (\<forall>w \<in> set ws. fst ` set w \<subseteq> fst ` set d') \<and> set d' \<subseteq> (\<Union>w \<in> set ws. set w) \<union> set d1"
    using Cons.IH [OF 1(2)] M by blast
  have "fst ` set w \<subseteq> fst ` set d'" using I M by (meson image_mono order_trans)
  then show ?case using I M by auto
qed simp

text \<open>The configuration of one worker, before and after the number of blocks is reduced.\<close>

definition worker_ok :: "int \<Rightarrow> (string, kv_cache_spec) odict \<Rightarrow> kv_cache_config \<Rightarrow> bool" where
  "worker_ok m w c \<longleftrightarrow> 0 \<le> num_blocks c \<and> mset (concat (map shared_by (kv_cache_tensors c))) = mset (map fst w)
     \<and> (\<forall>g \<in> set (kv_cache_groups c). spec_ok (group_spec g))
     \<and> (kv_cache_tensors c = [] \<or> (\<exists>b > 0. sum_list (map tensor_size (kv_cache_tensors c)) = num_blocks c * b \<and> num_blocks c * b \<le> m))"

lemma config_worker_ok:
  assumes c: "get_kv_cache_config_from_groups cfg projected m = Inr c" and o: "num_gpu_blocks_override cfg = None" and m: "0 \<le> m"
    and names: "mset (concat (map layer_names projected)) = mset (map fst w)" and ok: "\<forall>g \<in> set projected. spec_ok (group_spec g)"
    and own: "w \<noteq> [] \<Longrightarrow> own_specs projected"
  shows "worker_ok m w c"
proof (cases "projected = []")
  case True
  then show ?thesis using c names by (auto simp: worker_ok_def get_kv_cache_config_from_groups_def)
next
  case ne: False
  show ?thesis
  proof (cases "w = []")
    case False
    have "laid_out projected m c" by (rule config_laid_out [OF c o m ne ok own [OF False]])
    then show ?thesis using names ok unfolding laid_out_def worker_ok_def by auto
  next
    case True
    have none: "layer_names g = []" if "g \<in> set projected" for g using names that True by (auto simp: concat_eq_Nil_conv)
    show ?thesis
    proof (cases "uniform_type_specs projected")
      case None
      have "max_layers projected = 0" using none ne by (simp add: max_layers_def image_constant_conv cong: image_cong_simp)
      then show ?thesis using c None ne by (simp add: get_kv_cache_config_from_groups_def)
    next
      case (Some specs)
      then obtain g where g: "projected = [g]" unfolding uniform_type_specs_eq by blast
      obtain p where p: "page_size_bytes (group_spec g) = Inr p" "0 < p" using ok g spec_okD(2) [of "group_spec g"] by auto
      have "c = \<lparr>num_blocks = m div p, kv_cache_tensors = [], kv_cache_groups = projected\<rparr>"
        using c Some g p o none by (auto simp: get_kv_cache_config_from_groups_def Let_def may_override_num_blocks_def)
      then show ?thesis using True m p(2) ok by (simp add: worker_ok_def pos_imp_zdiv_nonneg_iff)
    qed
  qed
qed

lemma shrink_tensors:
  assumes "map_res (shrink_tensor old n) ts = Inr ts'"
  shows "old * sum_list (map tensor_size ts') = n * sum_list (map tensor_size ts)" "map shared_by ts' = map shared_by ts" "ts \<noteq> [] \<Longrightarrow> old \<noteq> 0"
proof -
  have "old * sum_list (map tensor_size ts') = n * sum_list (map tensor_size ts) \<and> map shared_by ts' = map shared_by ts \<and> (ts \<noteq> [] \<longrightarrow> old \<noteq> 0)"
    using assms
  proof (induction ts arbitrary: ts')
    case (Cons t ts)
    then obtain t' ts1 where ts': "ts' = t' # ts1" and t': "shrink_tensor old n t = Inr t'" and r: "map_res (shrink_tensor old n) ts = Inr ts1" by auto
    have old: "old \<noteq> 0" "tensor_size t mod old = 0" "t' = t\<lparr>tensor_size := tensor_size t div old * n\<rparr>" using t' by (auto simp: shrink_tensor_def)
    then have "old * tensor_size t' = n * tensor_size t" using div_mult_mod_eq [of "tensor_size t" old] by (simp add: algebra_simps)
    then show ?case using Cons.IH [OF r] ts' old by (simp add: distrib_left)
  qed simp
  then show "old * sum_list (map tensor_size ts') = n * sum_list (map tensor_size ts)" "map shared_by ts' = map shared_by ts" "ts \<noteq> [] \<Longrightarrow> old \<noteq> 0" by blast+
qed

lemma shrink_worker_ok:
  assumes "shrink_config cfg n c = Inr c'" "worker_ok m w c" "0 \<le> n" "n \<le> num_blocks c" "0 \<le> m"
  shows "num_blocks c' = n" "sum_list (map tensor_size (kv_cache_tensors c')) \<le> m"
    "mset (concat (map shared_by (kv_cache_tensors c'))) = mset (map fst w)" "kv_cache_groups c' = kv_cache_groups c"
proof -
  obtain ts where ts: "map_res (shrink_tensor (num_blocks c) n) (kv_cache_tensors c) = Inr ts"
    and c': "c' = c\<lparr>num_blocks := n, kv_cache_tensors := ts\<rparr>" using assms(1) by (auto simp: shrink_config_def Let_def)
  note S = shrink_tensors [OF ts]
  show "num_blocks c' = n" "kv_cache_groups c' = kv_cache_groups c" by (simp_all add: c')
  show "mset (concat (map shared_by (kv_cache_tensors c'))) = mset (map fst w)" using S(2) assms(2) by (simp add: c' worker_ok_def)
  show "sum_list (map tensor_size (kv_cache_tensors c')) \<le> m"
  proof (cases "kv_cache_tensors c = []")
    case True
    then show ?thesis using ts assms(5) by (simp add: c')
  next
    case False
    then obtain b where b: "0 < b" "sum_list (map tensor_size (kv_cache_tensors c)) = num_blocks c * b" "num_blocks c * b \<le> m"
      using assms(2) by (auto simp: worker_ok_def)
    have old: "0 < num_blocks c" using S(3) [OF False] assms(2) by (simp add: worker_ok_def)
    have "num_blocks c * sum_list (map tensor_size ts) = num_blocks c * (n * b)" using S(1) b(2) by (simp add: algebra_simps)
    then have "sum_list (map tensor_size ts) = n * b" using old by simp
    also have "\<dots> \<le> num_blocks c * b" using assms(4) b(1) by simp
    finally show ?thesis using b(3) by (simp add: c')
  qed
qed

lemma scheduler_groups_ok:
  assumes "\<forall>g \<in> set gs. spec_ok (group_spec g)"
  shows "\<exists>gs'. map_res scheduler_group gs = Inr gs'"
  using assms
proof (induction gs)
  case (Cons g gs)
  have "\<exists>g'. scheduler_group g = Inr g'"
  proof (cases "\<exists>b specs. group_spec g = UniformTypeKVCacheSpecs b specs")
    case True
    then obtain b specs where s: "group_spec g = UniformTypeKVCacheSpecs b specs" by blast
    then have "specs \<noteq> []" using Cons.prems spec_ok.simps [of "group_spec g"] by simp
    then show ?thesis using s by (auto simp: scheduler_group_def split: list.splits)
  qed (auto simp: scheduler_group_def split: kv_cache_spec.splits)
  then show ?case using Cons by auto
qed simp

lemma planned_workers_ok:
  assumes merged: "fold_res (fold_res merge_worker_layer) workers [] = Inr merged" and groups: "get_kv_cache_groups cfg merged = Inr groups"
    and projected: "map_res (project_kv_cache_groups_to_worker groups) workers = Inr projected"
    and cs0: "map_res (worker_config cfg1) (zip projected (zip workers available)) = Inr cs0" and o: "num_gpu_blocks_override cfg1 = None"
    and len: "length available = length workers" and av: "\<forall>m \<in> set available. 0 \<le> m"
    and ok: "\<forall>w \<in> set workers. od_wf w \<and> (\<forall>(l, s) \<in> set w. layer_spec s)"
  shows "length cs0 = length workers" "i < length workers \<Longrightarrow> worker_ok (available ! i) (workers ! i) (cs0 ! i)"
proof -
  have M: "od_wf merged" "\<forall>w \<in> set workers. fst ` set w \<subseteq> fst ` set merged" "set merged \<subseteq> (\<Union>w \<in> set workers. set w)"
    using merge_workers_ok [OF merged] by auto
  have "\<forall>(l, s) \<in> set merged. layer_spec s" using M(3) ok by fastforce
  note G = get_kv_cache_groups_ok [OF groups M(1) this]
  have dG: "distinct (concat (map layer_names groups))" using M(1) mset_eq_imp_distinct_iff [OF G(1)] by simp
  have sG: "set (concat (map layer_names groups)) = fst ` set merged" using mset_eq_setD [OF G(1)] by simp
  have P: "list_all2 (\<lambda>w pr. project_kv_cache_groups_to_worker groups w = Inr pr) workers projected" using projected unfolding map_res_eq_Inr .
  have C0: "list_all2 (\<lambda>x c. worker_config cfg1 x = Inr c) (zip projected (zip workers available)) cs0" using cs0 unfolding map_res_eq_Inr .
  have lens: "length projected = length workers" using list_all2_lengthD [OF P] by simp
  then show "length cs0 = length workers" using list_all2_lengthD [OF C0] len by simp
  assume i: "i < length workers"
  have p: "project_kv_cache_groups_to_worker groups (workers ! i) = Inr (projected ! i)" using P i by (simp add: list_all2_conv_all_nth)
  have w: "workers ! i \<in> set workers" using i by simp
  then have "od_wf (workers ! i)" "set (map fst (workers ! i)) \<subseteq> set (concat (map layer_names groups))" using ok M(2) sG by auto
  note R = project_worker_ok [OF p G(2) dG this]
  have c: "get_kv_cache_config_from_groups cfg1 (projected ! i) (available ! i) = Inr (cs0 ! i)"
    using C0 i lens len by (auto simp: list_all2_conv_all_nth worker_config_def)
  show "worker_ok (available ! i) (workers ! i) (cs0 ! i)" using av i len by (intro config_worker_ok [OF c o _ R(1,2,3)]) simp_all
qed

lemma reduced_workers_ok:
  assumes cs: "map_res (shrink_config cfg (Min (set (map num_blocks cs0)))) cs0 = Inr cs" and ne: "cs0 \<noteq> []"
    and W: "\<And>i. i < length cs0 \<Longrightarrow> worker_ok (available ! i) (workers ! i) (cs0 ! i)" and av: "\<And>i. i < length cs0 \<Longrightarrow> 0 \<le> available ! i"
  shows "\<exists>n \<ge> 0. length cs = length cs0
    \<and> (\<forall>i < length cs0. num_blocks (cs ! i) = n \<and> sum_list (map tensor_size (kv_cache_tensors (cs ! i))) \<le> available ! i
         \<and> mset (concat (map shared_by (kv_cache_tensors (cs ! i)))) = mset (map fst (workers ! i)))
    \<and> (\<exists>c. generate_scheduler_kv_cache_config cs = Inr c \<and> num_blocks c = n)"
proof -
  define n where "n = Min (set (map num_blocks cs0))"
  have C: "list_all2 (\<lambda>c c'. shrink_config cfg n c = Inr c') cs0 cs" using cs unfolding map_res_eq_Inr n_def .
  have len: "length cs = length cs0" using list_all2_lengthD [OF C] by simp
  have min: "n \<le> num_blocks (cs0 ! i)" if "i < length cs0" for i using that by (simp add: n_def)
  have "n \<in> set (map num_blocks cs0)" using ne by (simp add: n_def)
  then obtain k where "k < length cs0" "n = num_blocks (cs0 ! k)" by (auto simp: in_set_conv_nth)
  then have n0: "0 \<le> n" using W [of k] by (simp add: worker_ok_def)
  have S: "num_blocks (cs ! i) = n \<and> sum_list (map tensor_size (kv_cache_tensors (cs ! i))) \<le> available ! i
    \<and> mset (concat (map shared_by (kv_cache_tensors (cs ! i)))) = mset (map fst (workers ! i)) \<and> kv_cache_groups (cs ! i) = kv_cache_groups (cs0 ! i)"
    if i: "i < length cs0" for i
  proof -
    have "shrink_config cfg n (cs0 ! i) = Inr (cs ! i)" using C i by (simp add: list_all2_conv_all_nth)
    then show ?thesis using shrink_worker_ok [OF _ W [OF i] n0 min [OF i] av [OF i]] by blast
  qed
  have pos: "0 < length cs0" using ne by simp
  then obtain c rest where c: "cs = c # rest" using len by (cases cs) auto
  have gc: "kv_cache_groups c = kv_cache_groups (cs0 ! 0)" "num_blocks c = n" using S [OF pos] c by simp_all
  have "\<forall>g \<in> set (kv_cache_groups c). spec_ok (group_spec g)" using W [OF pos] gc(1) by (simp add: worker_ok_def)
  moreover have "list_all (\<lambda>d. num_blocks d = n) cs" using S len by (simp add: list_all_length)
  ultimately have "\<exists>c'. generate_scheduler_kv_cache_config cs = Inr c' \<and> num_blocks c' = n"
    using scheduler_groups_ok [of "kv_cache_groups c"] c gc(2) by (auto simp: generate_scheduler_kv_cache_config_def)
  then show ?thesis using S len n0 by (intro exI [of _ n]) simp
qed

text \<open>
  C32: the workers agree on the number of blocks and each stays within its memory. For layers with positive block and page sizes and without a block
  override, when \<^verbatim>\<open>get_kv_cache_configs\<close> returns, with or without an automatic model length, for a single type of attention or a hybrid model and for any
  distribution of the layers over the workers, there is one configuration per worker, all have the same number of blocks, the
  tensors of a worker need at most its available memory, every layer of a worker has exactly one tensor of that worker, and the
  configuration for the scheduler can be made and has this number of blocks.
\<close>

theorem worker_configs_agree:
  assumes get: "get_kv_cache_configs cfg workers available = Inr (cs, cfg')" and o: "num_gpu_blocks_override cfg = None"
    and len: "length available = length workers" and av: "\<forall>m \<in> set available. 0 \<le> m"
    and ok: "\<forall>w \<in> set workers. od_wf w \<and> (\<forall>(l, s) \<in> set w. layer_spec s)"
  shows "\<exists>n \<ge> 0. length cs = length workers
    \<and> (\<forall>i < length workers. num_blocks (cs ! i) = n \<and> sum_list (map tensor_size (kv_cache_tensors (cs ! i))) \<le> available ! i
         \<and> mset (concat (map shared_by (kv_cache_tensors (cs ! i)))) = mset (map fst (workers ! i)))
    \<and> (\<exists>c. generate_scheduler_kv_cache_config cs = Inr c \<and> num_blocks c = n)"
proof -
  obtain merged groups projected cfg1 cs0 where merged: "fold_res (fold_res merge_worker_layer) workers [] = Inr merged"
    and groups: "get_kv_cache_groups cfg merged = Inr groups"
    and projected: "map_res (project_kv_cache_groups_to_worker groups) workers = Inr projected"
    and cfg1: "(if original_max_model_len cfg = -1 then auto_fit_max_model_len cfg projected available else Inr cfg) = Inr cfg1"
    and cs0: "map_res (worker_config cfg1) (zip projected (zip workers available)) = Inr cs0" and ne: "cs0 \<noteq> []"
    and cs: "map_res (shrink_config cfg1 (Min (set (map num_blocks cs0)))) cs0 = Inr cs"
    using get unfolding get_kv_cache_configs_def res_bind_eq_Inr by (auto split: if_splits)
  have o1: "num_gpu_blocks_override cfg1 = None" using cfg1 o by (auto simp: auto_fit_max_model_len_def split: if_splits)
  note W = planned_workers_ok [OF merged groups projected cs0 o1 len av ok]
  show ?thesis using reduced_workers_ok [OF cs ne, of available workers] W av len by simp
qed

definition example_workers :: "(string, kv_cache_spec) odict list" where
  "example_workers = [[(''full.0'', example_full), (''sw.0'', example_window)], [(''full.1'', example_full), (''sw.1'', example_window)]]"

theorem worker_configs_agree_witness:
  "\<exists>cs cfg'. get_kv_cache_configs example_vllm_config example_workers [9000, 8000] = Inr (cs, cfg')
     \<and> map num_blocks cs = [15, 15] \<and> sum_list (map tensor_size (kv_cache_tensors (cs ! 1))) \<le> 8000
     \<and> mset (concat (map shared_by (kv_cache_tensors (cs ! 0)))) = {#''full.0'', ''sw.0''#}"
proof -
  have "case get_kv_cache_configs example_vllm_config example_workers [9000, 8000] of Inr (cs, cfg') \<Rightarrow> map num_blocks cs = [15, 15] | _ \<Rightarrow> False"
    by code_simp
  then obtain cs cfg' where g: "get_kv_cache_configs example_vllm_config example_workers [9000, 8000] = Inr (cs, cfg')" "map num_blocks cs = [15, 15]"
    by (auto split: sum.splits)
  have f: "as_full_attention example_full = example_full" by (simp add: example_full_def)
  have "layer_spec example_full" "layer_spec example_window"
    using example_specs_ok by (simp_all add: layer_spec_def f) (simp_all add: example_full_def example_window_def)
  then have ok: "\<forall>w \<in> set example_workers. od_wf w \<and> (\<forall>(l, s) \<in> set w. layer_spec s)" by (simp add: example_workers_def)
  have "\<exists>n \<ge> 0. length cs = 2 \<and> (\<forall>i < 2. num_blocks (cs ! i) = n \<and> sum_list (map tensor_size (kv_cache_tensors (cs ! i))) \<le> [9000, 8000] ! i
      \<and> mset (concat (map shared_by (kv_cache_tensors (cs ! i)))) = mset (map fst (example_workers ! i)))"
    using worker_configs_agree [OF g(1) _ _ _ ok] by (auto simp: example_vllm_config_def example_workers_def)
  then have all: "\<forall>i < 2. sum_list (map tensor_size (kv_cache_tensors (cs ! i))) \<le> [9000, 8000] ! i
      \<and> mset (concat (map shared_by (kv_cache_tensors (cs ! i)))) = mset (map fst (example_workers ! i))" by blast
  have "sum_list (map tensor_size (kv_cache_tensors (cs ! 1))) \<le> 8000" using all [rule_format, of 1] by simp
  moreover have "mset (concat (map shared_by (kv_cache_tensors (cs ! 0)))) = mset (map fst (example_workers ! 0))"
    using all [rule_format, of 0] by simp
  ultimately show ?thesis using g by (auto simp: example_workers_def)
qed

section \<open>Corner cases\<close>

text \<open>
  With the hybrid manager disabled a sliding window layer becomes a full attention layer without its quantisation mode: the scales
  that are stored with each token and head no longer count, and its page is too small.
\<close>

lemma conversion_forgets_scales:
  defines "s \<equiv> SlidingWindowSpec (example_attention\<lparr>kv_quant := INT8_PER_TOKEN_HEAD, dtype := \<lparr>dtype_name = ''int8'', dtype_size = 1\<rparr>\<rparr>) 32"
  shows "page_size_bytes s = Inr 512 \<and> page_size_bytes (as_full_attention s) = Inr 256"
  unfolding s_def by code_simp

text \<open>
  Full attention layers with different windows are not one spec, but \<^verbatim>\<open>merge\<close> reports this with a \<^verbatim>\<open>ValueError\<close>, which
  \<^verbatim>\<open>is_kv_cache_spec_uniform\<close> does not catch; a hybrid model with two window sizes cannot be run with the hybrid manager disabled, although its
  layers are of one type after the conversion.
\<close>

lemma two_windows_refused:
  defines "specs \<equiv> [(''full.0'', example_full), (''sw.0'', SlidingWindowSpec example_attention 32), (''sw.1'', SlidingWindowSpec example_attention 64)]"
  shows "unify_hybrid_kv_cache_specs specs = Inl ValueError \<and> is_uniform_type (map (\<lambda>(l, s). (l, as_full_attention s)) specs) = Inr True"
  unfolding specs_def by code_simp

end
