(* ===== verification/Free_Block_Queue.thy ===== *)
theory Free_Block_Queue
  imports Prelude
begin

text \<open>
  \<^verbatim>\<open>KVCacheBlock\<close> and \<^verbatim>\<open>FreeKVCacheBlockQueue\<close> of src/vllm/vllm/v1/core/kv_cache_utils.py.
  The Python objects are mutable and shared (the block pool, the managers and the queue hold
  references to the same \<^verbatim>\<open>KVCacheBlock\<close>), so the model keeps an explicit store of blocks and a
  reference is an address into it. The queue is the intrusive doubly linked list of the source:
  its links are the \<^verbatim>\<open>prev_free_block\<close>/\<^verbatim>\<open>next_free_block\<close> fields of the stored blocks and its ends
  are two sentinel blocks. The lemmas show that the pointer code implements a plain list.
\<close>

section \<open>Blocks, the store, and the queue's fields\<close>

record kv_cache_block =
  block_id :: int
  ref_cnt :: int
  block_hash :: "bytes option"
  prev_free_block :: "nat option"
  next_free_block :: "nat option"
  is_null :: bool

text \<open>\<^verbatim>\<open>KVCacheBlock(block_id)\<close>: the dataclass defaults.\<close>

definition new_block :: "int \<Rightarrow> kv_cache_block" where
  "new_block i = \<lparr>block_id = i, ref_cnt = 0, block_hash = None, prev_free_block = None,
     next_free_block = None, is_null = False\<rparr>"

record block_heap =
  store :: "kv_cache_block list"
  fake_free_list_head :: nat
  fake_free_list_tail :: nat
  num_free_blocks :: int

definition blk :: "block_heap \<Rightarrow> nat \<Rightarrow> kv_cache_block" where
  "blk h a = store h ! a"

definition upd_blk :: "nat \<Rightarrow> (kv_cache_block \<Rightarrow> kv_cache_block) \<Rightarrow> block_heap \<Rightarrow> block_heap" where
  "upd_blk a f h = h\<lparr>store := (store h)[a := f (store h ! a)]\<rparr>"

abbreviation nxt :: "block_heap \<Rightarrow> nat \<Rightarrow> nat option" where
  "nxt h a \<equiv> next_free_block (blk h a)"

abbreviation prv :: "block_heap \<Rightarrow> nat \<Rightarrow> nat option" where
  "prv h a \<equiv> prev_free_block (blk h a)"

definition set_next :: "nat \<Rightarrow> nat option \<Rightarrow> block_heap \<Rightarrow> block_heap" where
  "set_next a v = upd_blk a (\<lambda>b. b\<lparr>next_free_block := v\<rparr>)"

definition set_prev :: "nat \<Rightarrow> nat option \<Rightarrow> block_heap \<Rightarrow> block_heap" where
  "set_prev a v = upd_blk a (\<lambda>b. b\<lparr>prev_free_block := v\<rparr>)"

definition add_num_free :: "int \<Rightarrow> block_heap \<Rightarrow> block_heap" where
  "add_num_free k h = h\<lparr>num_free_blocks := num_free_blocks h + k\<rparr>"

section \<open>Block hash setter\<close>

text \<open>The \<^verbatim>\<open>block_hash\<close> property setter asserts that the block has no hash yet.\<close>

definition set_block_hash :: "nat \<Rightarrow> bytes \<Rightarrow> block_heap \<Rightarrow> block_heap res" where
  "set_block_hash a k h =
     guard (block_hash (blk h a) = None) AssertionError
       (Inr (upd_blk a (\<lambda>b. b\<lparr>block_hash := Some k\<rparr>) h))"

definition reset_hash :: "nat \<Rightarrow> block_heap \<Rightarrow> block_heap" where
  "reset_hash a = upd_blk a (\<lambda>b. b\<lparr>block_hash := None\<rparr>)"

section \<open>Queue operations\<close>

text \<open>
  \<^verbatim>\<open>__init__\<close>: the given blocks are addresses \<open>0 ..< n\<close>, the two sentinels \<open>n\<close> and \<open>n + 1\<close>.
\<close>

fun link_consecutive :: "nat \<Rightarrow> nat list \<Rightarrow> block_heap \<Rightarrow> block_heap" where
  "link_consecutive n [] h = h"
| "link_consecutive n (i # is) h =
     (let h1 = (if i > 0 then set_prev i (Some (i - 1)) h else h);
          h2 = (if i < n - 1 then set_next i (Some (i + 1)) h1 else h1)
      in link_consecutive n is h2)"

definition queue_init :: "kv_cache_block list \<Rightarrow> block_heap" where
  "queue_init bs =
     (let n = length bs; hd_a = n; tl_a = n + 1;
          h0 = \<lparr>store = bs @ [new_block (-1), new_block (-1)],
                fake_free_list_head = hd_a, fake_free_list_tail = tl_a,
                num_free_blocks = int n\<rparr>;
          h1 = link_consecutive n [0..<n] h0
      in if n > 0
         then set_next (n - 1) (Some tl_a) (set_prev tl_a (Some (n - 1))
                (set_prev 0 (Some hd_a) (set_next hd_a (Some 0) h1)))
         else set_prev tl_a (Some hd_a) (set_next hd_a (Some tl_a) h1))"

definition popleft :: "block_heap \<Rightarrow> (nat \<times> block_heap) res" where
  "popleft h =
     (let hd_a = fake_free_list_head h in
      case nxt h hd_a of
        None \<Rightarrow> guard (num_free_blocks h = 0) AssertionError (Inl ValueError)
      | Some first \<Rightarrow>
          if first = fake_free_list_tail h
          then guard (num_free_blocks h = 0) AssertionError (Inl ValueError)
          else (case nxt h first of
                  None \<Rightarrow> Inl RuntimeError
                | Some second \<Rightarrow>
                    let h1 = set_next hd_a (Some second) h;
                        h2 = set_prev second (Some hd_a) h1;
                        h3 = set_prev first None (set_next first None h2)
                    in Inr (first, add_num_free (-1) h3)))"

fun popleft_n_loop ::
  "nat \<Rightarrow> nat option \<Rightarrow> nat list \<Rightarrow> block_heap \<Rightarrow> (nat list \<times> nat option \<times> block_heap) res" where
  "popleft_n_loop 0 cur ret h = Inr (ret, cur, h)"
| "popleft_n_loop (Suc k) cur ret h =
     (case cur of
        None \<Rightarrow> Inl AssertionError
      | Some b \<Rightarrow>
          popleft_n_loop k (nxt h b) (ret @ [b]) (set_next b None (set_prev b None h)))"

definition popleft_n :: "int \<Rightarrow> block_heap \<Rightarrow> (nat list \<times> block_heap) res" where
  "popleft_n n h =
     (if n = 0 then Inr ([], h)
      else guard (num_free_blocks h \<ge> n) AssertionError
        (let h1 = add_num_free (- n) h; hd_a = fake_free_list_head h in
         res_bind (popleft_n_loop (nat n) (nxt h1 hd_a) [] h1) (\<lambda>(ret, cur, h2).
           (case cur of
              None \<Rightarrow> Inr (ret, h2)
            | Some c \<Rightarrow> Inr (ret, set_prev c (Some hd_a) (set_next hd_a (Some c) h2))))))"

definition remove :: "nat \<Rightarrow> block_heap \<Rightarrow> block_heap res" where
  "remove b h =
     (case (prv h b, nxt h b) of
        (Some p, Some n) \<Rightarrow>
          (let h1 = set_next p (Some n) h;
               h2 = set_prev n (Some p) h1;
               h3 = set_prev b None (set_next b None h2)
           in Inr (add_num_free (-1) h3))
      | _ \<Rightarrow> Inl RuntimeError)"

definition append :: "nat \<Rightarrow> block_heap \<Rightarrow> block_heap res" where
  "append b h =
     (let tl_a = fake_free_list_tail h in
      case prv h tl_a of
        None \<Rightarrow> Inl RuntimeError
      | Some last_block \<Rightarrow>
          (let h1 = set_prev b (Some last_block) (set_next last_block (Some b) h);
               h2 = set_prev tl_a (Some b) (set_next b (Some tl_a) h1)
           in Inr (add_num_free 1 h2)))"

fun append_n_loop :: "nat list \<Rightarrow> nat \<Rightarrow> block_heap \<Rightarrow> nat \<times> block_heap" where
  "append_n_loop [] last_block h = (last_block, h)"
| "append_n_loop (b # bs) last_block h =
     append_n_loop bs b (set_next last_block (Some b) (set_prev b (Some last_block) h))"

definition append_n :: "nat list \<Rightarrow> block_heap \<Rightarrow> block_heap res" where
  "append_n bs h =
     (if bs = [] then Inr h
      else (let tl_a = fake_free_list_tail h in
        case prv h tl_a of
          None \<Rightarrow> Inl AssertionError
        | Some last0 \<Rightarrow>
            (let (last_block, h1) = append_n_loop bs last0 h;
                 h2 = set_prev tl_a (Some last_block) (set_next last_block (Some tl_a) h1)
             in Inr (add_num_free (int (length bs)) h2))))"

text \<open>\<^verbatim>\<open>get_all_free_blocks\<close>: the loop follows the links and would run forever on a cycle.\<close>

partial_function (option) walk_free :: "block_heap \<Rightarrow> nat \<Rightarrow> nat list \<Rightarrow> nat list option" where
  "walk_free h cur ret =
     (case nxt h cur of None \<Rightarrow> Some ret | Some c \<Rightarrow> walk_free h c (ret @ [cur]))"

declare walk_free.simps [code]

definition get_all_free_blocks :: "block_heap \<Rightarrow> (nat list) option res" where
  "get_all_free_blocks h =
     (case nxt h (fake_free_list_head h) of
        None \<Rightarrow> Inl RuntimeError
      | Some c \<Rightarrow> Inr (walk_free h c []))"

section \<open>The store: reads after writes\<close>

definition same_payload :: "block_heap \<Rightarrow> block_heap \<Rightarrow> bool" where
  "same_payload h h' \<longleftrightarrow>
     length (store h') = length (store h)
     \<and> fake_free_list_head h' = fake_free_list_head h
     \<and> fake_free_list_tail h' = fake_free_list_tail h
     \<and> (\<forall>a < length (store h). block_id (blk h' a) = block_id (blk h a)
          \<and> ref_cnt (blk h' a) = ref_cnt (blk h a)
          \<and> block_hash (blk h' a) = block_hash (blk h a)
          \<and> is_null (blk h' a) = is_null (blk h a))"

named_theorems heap_simps \<open>reads of the block store after a write\<close>

lemma blk_upd_blk [heap_simps]:
  "a < length (store h) \<Longrightarrow> blk (upd_blk a f h) b = (if b = a then f (blk h a) else blk h b)"
  by (simp add: blk_def upd_blk_def)

lemma upd_blk_fields [simp]:
  "length (store (upd_blk a f h)) = length (store h)"
  "fake_free_list_head (upd_blk a f h) = fake_free_list_head h"
  "fake_free_list_tail (upd_blk a f h) = fake_free_list_tail h"
  "num_free_blocks (upd_blk a f h) = num_free_blocks h"
  by (simp_all add: upd_blk_def)

lemma set_link_fields [simp]:
  "length (store (set_next a v h)) = length (store h)"
  "fake_free_list_head (set_next a v h) = fake_free_list_head h"
  "fake_free_list_tail (set_next a v h) = fake_free_list_tail h"
  "num_free_blocks (set_next a v h) = num_free_blocks h"
  "length (store (set_prev a v h)) = length (store h)"
  "fake_free_list_head (set_prev a v h) = fake_free_list_head h"
  "fake_free_list_tail (set_prev a v h) = fake_free_list_tail h"
  "num_free_blocks (set_prev a v h) = num_free_blocks h"
  by (simp_all add: set_next_def set_prev_def)

lemma add_num_free_fields [simp]:
  "store (add_num_free k h) = store h"
  "fake_free_list_head (add_num_free k h) = fake_free_list_head h"
  "fake_free_list_tail (add_num_free k h) = fake_free_list_tail h"
  "num_free_blocks (add_num_free k h) = num_free_blocks h + k"
  "blk (add_num_free k h) = blk h"
  by (simp_all add: add_num_free_def blk_def fun_eq_iff)

lemma upd_blk_beyond: "\<not> a < length (store h) \<Longrightarrow> upd_blk a f h = h"
  by (simp add: upd_blk_def list_update_beyond)

lemma blk_upd_field:
  assumes "\<And>b. g (f b) = g b"
  shows "g (blk (upd_blk a f h) b) = g (blk h b)"
  using assms by (cases "a < length (store h)") (simp_all add: blk_upd_blk upd_blk_beyond)

lemma nxt_set [heap_simps]:
  "a < length (store h) \<Longrightarrow> nxt (set_next a v h) b = (if b = a then v else nxt h b)"
  "nxt (set_prev a v h) b = nxt h b"
  by (simp_all add: set_next_def set_prev_def blk_upd_blk blk_upd_field)

lemma prv_set [heap_simps]:
  "a < length (store h) \<Longrightarrow> prv (set_prev a v h) b = (if b = a then v else prv h b)"
  "prv (set_next a v h) b = prv h b"
  by (simp_all add: set_next_def set_prev_def blk_upd_blk blk_upd_field)

lemma same_payload_refl [simp]: "same_payload h h"
  by (simp add: same_payload_def)

lemma same_payload_trans: "same_payload h1 h2 \<Longrightarrow> same_payload h2 h3 \<Longrightarrow> same_payload h1 h3"
  by (simp add: same_payload_def)

lemma same_payload_set_next [simp]: "same_payload h (set_next a v h)"
  by (simp add: same_payload_def set_next_def blk_upd_field)

lemma same_payload_set_prev [simp]: "same_payload h (set_prev a v h)"
  by (simp add: same_payload_def set_prev_def blk_upd_field)

lemma same_payload_add_num_free [simp]: "same_payload h (add_num_free k h)"
  by (simp add: same_payload_def)

lemmas same_payload_steps =
  same_payload_trans [OF _ same_payload_set_next]
  same_payload_trans [OF _ same_payload_set_prev]
  same_payload_trans [OF _ same_payload_add_num_free]

section \<open>Doubly linked segments\<close>

text \<open>
  \<open>seg n p a xs b\<close>: following \<open>n\<close> from \<open>a\<close> passes exactly through \<open>xs\<close> and arrives at \<open>b\<close>, and
  \<open>p\<close> leads back.
\<close>

fun seg :: "(nat \<Rightarrow> nat option) \<Rightarrow> (nat \<Rightarrow> nat option) \<Rightarrow> nat \<Rightarrow> nat list \<Rightarrow> nat \<Rightarrow> bool" where
  "seg n p a [] b \<longleftrightarrow> n a = Some b \<and> p b = Some a"
| "seg n p a (x # xs) b \<longleftrightarrow> n a = Some x \<and> p x = Some a \<and> seg n p x xs b"

lemma seg_append: "seg n p a (xs @ y # ys) b \<longleftrightarrow> seg n p a xs y \<and> seg n p y ys b"
  by (induction xs arbitrary: a) auto

lemma seg_frame:
  assumes "\<And>x. x \<in> insert a (set xs) \<Longrightarrow> n' x = n x"
    and "\<And>x. x \<in> insert b (set xs) \<Longrightarrow> p' x = p x"
  shows "seg n' p' a xs b = seg n p a xs b"
  using assms by (induction xs arbitrary: a) auto

lemma seg_next_hd: "seg n p a xs b \<Longrightarrow> n a = Some (hd (xs @ [b]))"
  by (cases xs) auto

lemma seg_prev_last: "seg n p a xs b \<Longrightarrow> p b = Some (last (a # xs))"
  by (induction xs arbitrary: a) auto

text \<open>Re-attaching a segment to a new left end.\<close>

lemma seg_relink_left:
  assumes "seg n p x xs b" "n x = Some s" "distinct (a # xs @ [b])"
  shows "seg (n(a := Some s)) (p(s := Some a)) a xs b"
proof (cases xs)
  case Nil
  with assms show ?thesis by simp
next
  case (Cons y ys)
  with assms have "s = y" "seg n p y ys b" by auto
  moreover have "seg (n(a := Some s)) (p(s := Some a)) y ys b = seg n p y ys b"
    using assms(3) Cons \<open>s = y\<close> by (intro seg_frame) auto
  ultimately show ?thesis using Cons by simp
qed

text \<open>Unlinking one element: what \<open>remove\<close> and \<open>popleft\<close> do.\<close>

lemma seg_unlink:
  assumes "seg n p a (us @ y # vs) b" "p y = Some q" "n y = Some s"
    and "distinct (a # us @ y # vs @ [b])"
  shows "seg (n(q := Some s)) (p(s := Some q)) a (us @ vs) b"
  using assms
proof (induction us arbitrary: a)
  case Nil
  then have "q = a" "seg n p y vs b" by auto
  moreover have "seg (n(a := Some s)) (p(s := Some a)) a vs b"
    using Nil \<open>seg n p y vs b\<close> by (intro seg_relink_left [of n p y]) auto
  ultimately show ?case by (simp only: append_Nil)
next
  case (Cons u us)
  have q: "q = last (u # us)" using Cons.prems(1,2) seg_prev_last [of n p u us y]
    by (simp add: seg_append)
  have s: "s = hd (vs @ [b])" using Cons.prems(1,3) seg_next_hd [of n p y vs b]
    by (simp add: seg_append)
  have "s \<noteq> u" "q \<noteq> a" using Cons.prems(4) q s by (cases vs; auto)+
  with Cons show ?case by (auto simp: fun_upd_def)
qed

text \<open>Linking one element before the right end: what \<open>append\<close> does.\<close>

lemma seg_link_last:
  assumes "seg n p a xs t" "distinct (a # xs @ [t])" "b \<notin> set (a # xs @ [t])"
    and "l = last (a # xs)"
  shows "seg (n(l := Some b, b := Some t)) (p(b := Some l, t := Some b)) a (xs @ [b]) t"
  using assms
proof (induction xs arbitrary: a)
  case Nil
  then show ?case by simp
next
  case (Cons x xs)
  have IH: "seg (n(l := Some b, b := Some t)) (p(b := Some l, t := Some b)) x (xs @ [b]) t"
    using Cons.prems by (intro Cons.IH) auto
  have "l \<noteq> a" "x \<noteq> t" "x \<noteq> b" "a \<noteq> b" using Cons.prems by auto
  with IH Cons.prems(1) show ?case by (simp add: fun_upd_def)
qed

section \<open>The queue invariant\<close>

definition queue_inv :: "block_heap \<Rightarrow> nat list \<Rightarrow> bool" where
  "queue_inv h xs \<longleftrightarrow>
     distinct (fake_free_list_head h # xs @ [fake_free_list_tail h])
     \<and> (\<forall>x \<in> set (fake_free_list_head h # xs @ [fake_free_list_tail h]). x < length (store h))
     \<and> seg (nxt h) (prv h) (fake_free_list_head h) xs (fake_free_list_tail h)
     \<and> (\<forall>x < length (store h). x \<notin> set (fake_free_list_head h # xs) \<longrightarrow> nxt h x = None)
     \<and> (\<forall>x < length (store h). x \<notin> set (xs @ [fake_free_list_tail h]) \<longrightarrow> prv h x = None)
     \<and> num_free_blocks h = int (length xs)"

lemma queue_invD:
  assumes "queue_inv h xs"
  shows "distinct (fake_free_list_head h # xs @ [fake_free_list_tail h])"
    and "\<And>x. x \<in> set xs \<Longrightarrow> x < length (store h)"
    and "fake_free_list_head h < length (store h)"
    and "fake_free_list_tail h < length (store h)"
    and "seg (nxt h) (prv h) (fake_free_list_head h) xs (fake_free_list_tail h)"
    and "\<And>x. x < length (store h) \<Longrightarrow> x \<notin> set (fake_free_list_head h # xs) \<Longrightarrow> nxt h x = None"
    and "\<And>x. x < length (store h) \<Longrightarrow> x \<notin> set (xs @ [fake_free_list_tail h]) \<Longrightarrow> prv h x = None"
    and "num_free_blocks h = int (length xs)"
  using assms by (auto simp: queue_inv_def)

text \<open>The free list determines the invariant's witness.\<close>

lemma seg_unique:
  "seg n p a xs b \<Longrightarrow> seg n p a ys b \<Longrightarrow> b \<notin> set xs \<Longrightarrow> b \<notin> set ys \<Longrightarrow> xs = ys"
proof (induction xs arbitrary: a ys)
  case Nil
  then show ?case by (cases ys) auto
next
  case (Cons x xs)
  then show ?case by (cases ys) auto
qed

lemma queue_inv_unique: "queue_inv h xs \<Longrightarrow> queue_inv h ys \<Longrightarrow> xs = ys"
  by (rule seg_unique [of "nxt h" "prv h" "fake_free_list_head h" xs "fake_free_list_tail h"])
    (auto simp: queue_inv_def)

section \<open>The operations implement a list\<close>

text \<open>Helper: reads through the pointer writes of one operation, as function updates.\<close>

lemma nxt_fun [heap_simps]:
  "a < length (store h) \<Longrightarrow> (\<lambda>x. nxt (set_next a v h) x) = (nxt h)(a := v)"
  "(\<lambda>x. nxt (set_prev a v h) x) = nxt h"
  by (auto simp: heap_simps fun_eq_iff)

lemma prv_fun [heap_simps]:
  "a < length (store h) \<Longrightarrow> (\<lambda>x. prv (set_prev a v h) x) = (prv h)(a := v)"
  "(\<lambda>x. prv (set_next a v h) x) = prv h"
  by (auto simp: heap_simps fun_eq_iff)

definition unlink :: "nat \<Rightarrow> nat \<Rightarrow> nat \<Rightarrow> block_heap \<Rightarrow> block_heap" where
  "unlink p b n h = add_num_free (-1)
     (set_prev b None (set_next b None (set_prev n (Some p) (set_next p (Some n) h))))"

lemma same_payload_unlink [simp]: "same_payload h (unlink p b n h)"
  unfolding unlink_def by (intro same_payload_steps same_payload_refl)

lemma queue_inv_unlink:
  assumes inv: "queue_inv h (us @ b # vs)"
  shows "\<exists>p n. prv h b = Some p \<and> nxt h b = Some n \<and> queue_inv (unlink p b n h) (us @ vs)
    \<and> p = last (fake_free_list_head h # us) \<and> n = hd (vs @ [fake_free_list_tail h])"
proof -
  let ?H = "fake_free_list_head h" and ?T = "fake_free_list_tail h"
  note D = queue_invD [OF inv]
  have segs: "seg (nxt h) (prv h) ?H us b" "seg (nxt h) (prv h) b vs ?T"
    using D(5) by (simp_all add: seg_append)
  define p where "p = last (?H # us)"
  define n where "n = hd (vs @ [?T])"
  have p: "prv h b = Some p" using seg_prev_last [OF segs(1)] by (simp add: p_def)
  have n: "nxt h b = Some n" using seg_next_hd [OF segs(2)] by (simp add: n_def)
  have pin: "p \<in> set (?H # us)" by (metis p_def last_in_set list.discI)
  have nin: "n \<in> set (vs @ [?T])" by (metis n_def hd_in_set append_is_Nil_conv list.discI)
  have len: "p < length (store h)" "n < length (store h)" "b < length (store h)"
    using pin nin D(2,3,4) by auto
  have neq: "p \<noteq> b" "n \<noteq> b" "p \<noteq> n" using pin nin D(1) by auto
  let ?h = "unlink p b n h"
  have nx: "nxt ?h x = (if x = b then None else if x = p then Some n else nxt h x)" for x
    using len by (simp add: unlink_def heap_simps)
  have pv: "prv ?h x = (if x = b then None else if x = n then Some p else prv h x)" for x
    using len by (simp add: unlink_def heap_simps)
  have "seg ((nxt h)(p := Some n)) ((prv h)(n := Some p)) ?H (us @ vs) ?T"
    using D(1,5) p n by (intro seg_unlink [of _ _ _ us b vs]) auto
  moreover have "seg (nxt ?h) (prv ?h) ?H (us @ vs) ?T =
      seg ((nxt h)(p := Some n)) ((prv h)(n := Some p)) ?H (us @ vs) ?T"
    using D(1) by (intro seg_frame) (auto simp: nx pv)
  ultimately have "seg (nxt ?h) (prv ?h) ?H (us @ vs) ?T" by simp
  moreover have "nxt ?h x = None" if "x < length (store h)" "x \<notin> set (?H # us @ vs)" for x
    using that D(6) [of x] pin nx by auto
  moreover have "prv ?h x = None" if "x < length (store h)" "x \<notin> set ((us @ vs) @ [?T])" for x
    using that D(7) [of x] nin pv by auto
  moreover have "num_free_blocks ?h = int (length (us @ vs))" using D(8) by (simp add: unlink_def)
  ultimately have "queue_inv ?h (us @ vs)"
    using D(1,2,3,4) unfolding queue_inv_def by (auto simp: unlink_def)
  then show ?thesis using p n p_def n_def by blast
qed

lemma queue_inv_nxt_head:
  "queue_inv h xs \<Longrightarrow> nxt h (fake_free_list_head h) = Some (hd (xs @ [fake_free_list_tail h]))"
  using seg_next_hd queue_invD(5) by blast

lemma popleft_Nil: "queue_inv h [] \<Longrightarrow> popleft h = Inl ValueError"
  using queue_inv_nxt_head [of h "[]"] queue_invD(8) [of h "[]"] by (simp add: popleft_def)

lemma popleft_Cons:
  assumes "queue_inv h (x # xs)"
  shows "\<exists>h'. popleft h = Inr (x, h') \<and> queue_inv h' xs \<and> same_payload h h'"
proof -
  obtain p n where pn: "prv h x = Some p" "nxt h x = Some n" "queue_inv (unlink p x n h) xs"
    "p = fake_free_list_head h"
    using queue_inv_unlink [of h "[]" x xs] assms by auto
  have hd: "nxt h (fake_free_list_head h) = Some x" "x \<noteq> fake_free_list_tail h"
    using queue_inv_nxt_head [OF assms] queue_invD(1) [OF assms] by auto
  have "popleft h = Inr (x, unlink p x n h)"
    using hd pn by (simp add: popleft_def unlink_def Let_def)
  then show ?thesis using pn by auto
qed

lemma remove_mem:
  assumes "queue_inv h xs" "b \<in> set xs"
  shows "\<exists>h'. remove b h = Inr h' \<and> queue_inv h' (remove1 b xs) \<and> same_payload h h'"
proof -
  obtain us vs where xs: "xs = us @ b # vs" "b \<notin> set us"
    using split_list_first [OF assms(2)] by blast
  obtain p n where pn: "prv h b = Some p" "nxt h b = Some n" "queue_inv (unlink p b n h) (us @ vs)"
    using queue_inv_unlink assms(1) xs(1) by blast
  then have "remove b h = Inr (unlink p b n h)" by (simp add: remove_def unlink_def Let_def)
  with pn xs show ?thesis by (auto simp: remove1_append)
qed

lemma remove_not_mem:
  assumes "queue_inv h xs" "b \<notin> set xs" "b < length (store h)"
  shows "remove b h = Inl RuntimeError"
proof (cases "b = fake_free_list_head h")
  case True
  then have "prv h b = None" using assms queue_invD(1,7) [OF assms(1)] by auto
  then show ?thesis by (simp add: remove_def)
next
  case False
  then have "nxt h b = None" using assms queue_invD(6) [OF assms(1)] by auto
  then show ?thesis by (simp add: remove_def split: option.splits)
qed

text \<open>Appending: the loop of \<open>append_n\<close> builds the new segment behind the old last element.\<close>

lemma seg_join:
  assumes "seg n p a xs t" "seg n' p' (last (a # xs)) bs t"
    and "\<And>x. x \<in> set (butlast (a # xs)) \<Longrightarrow> n' x = n x"
    and "\<And>x. x \<in> set xs \<Longrightarrow> p' x = p x"
  shows "seg n' p' a (xs @ bs) t"
  using assms
proof (induction xs arbitrary: a)
  case Nil
  then show ?case by simp
next
  case (Cons x xs)
  then have "seg n' p' x (xs @ bs) t" by (intro Cons.IH) auto
  with Cons.prems show ?case by simp
qed

lemma append_n_loop_seg:
  assumes "append_n_loop bs l h = (l', h')" "distinct (l # bs @ [t])"
    and "\<And>x. x \<in> set (l # bs) \<Longrightarrow> x < length (store h)"
  shows "l' = last (l # bs) \<and> same_payload h h' \<and> num_free_blocks h' = num_free_blocks h
    \<and> (\<forall>x. x \<notin> set (l # bs) \<longrightarrow> nxt h' x = nxt h x)
    \<and> (\<forall>x. x \<notin> set bs \<longrightarrow> prv h' x = prv h x)
    \<and> seg ((nxt h')(l' := Some t)) ((prv h')(t := Some l')) l bs t"
  using assms
proof (induction bs arbitrary: l h)
  case Nil
  then show ?case by auto
next
  case (Cons b bs)
  let ?h = "set_next l (Some b) (set_prev b (Some l) h)"
  have len: "l < length (store h)" "b < length (store h)" using Cons.prems(3) by auto
  have IH: "l' = last (b # bs) \<and> same_payload ?h h' \<and> num_free_blocks h' = num_free_blocks ?h
    \<and> (\<forall>x. x \<notin> set (b # bs) \<longrightarrow> nxt h' x = nxt ?h x)
    \<and> (\<forall>x. x \<notin> set bs \<longrightarrow> prv h' x = prv ?h x)
    \<and> seg ((nxt h')(l' := Some t)) ((prv h')(t := Some l')) b bs t"
    using Cons.prems by (intro Cons.IH) auto
  have sp: "same_payload h ?h" by (intro same_payload_steps same_payload_refl)
  have lk: "nxt h' l = Some b" "prv h' b = Some l"
    using IH Cons.prems(2) len by (auto simp: heap_simps)
  have "last (b # bs) \<in> set (b # bs)" by (rule last_in_set) simp
  then have neq: "l' \<noteq> l" "b \<noteq> t" using IH Cons.prems(2) by auto
  have "nxt h' x = nxt h x" if "x \<notin> set (l # b # bs)" for x
    using IH that len by (simp add: heap_simps)
  moreover have "prv h' x = prv h x" if "x \<notin> set (b # bs)" for x
    using IH that len by (simp add: heap_simps)
  moreover have "seg ((nxt h')(l' := Some t)) ((prv h')(t := Some l')) l (b # bs) t"
  proof -
    have "seg ((nxt h')(l' := Some t)) ((prv h')(t := Some l')) b bs t" using IH by blast
    moreover have "((nxt h')(l' := Some t)) l = Some b" "((prv h')(t := Some l')) b = Some l"
      using lk neq by auto
    ultimately show ?thesis by (simp only: seg.simps simp_thms)
  qed
  moreover have "l' = last (l # b # bs)" "num_free_blocks h' = num_free_blocks h"
    using IH by auto
  moreover have "same_payload h h'" using IH same_payload_trans [OF sp] by blast
  ultimately show ?case by blast
qed

lemma append_n_inv:
  assumes inv: "queue_inv h xs" and bs: "distinct bs" "set bs \<inter> set xs = {}"
    and fresh: "\<And>x. x \<in> set bs \<Longrightarrow>
      x < length (store h) \<and> x \<noteq> fake_free_list_head h \<and> x \<noteq> fake_free_list_tail h"
  shows "\<exists>h'. append_n bs h = Inr h' \<and> queue_inv h' (xs @ bs) \<and> same_payload h h'"
proof (cases "bs = []")
  case True
  then show ?thesis using inv by (simp add: append_n_def)
next
  case False
  let ?H = "fake_free_list_head h" and ?T = "fake_free_list_tail h"
  note D = queue_invD [OF inv]
  define l where "l = last (?H # xs)"
  have pT: "prv h ?T = Some l" using seg_prev_last [OF D(5)] by (simp add: l_def)
  have lin: "l \<in> set (?H # xs)" by (metis l_def last_in_set list.discI)
  obtain l' h1 where loop: "append_n_loop bs l h = (l', h1)" by fastforce
  have dist: "distinct (l # bs @ [?T])" using bs fresh lin D(1) by auto
  have len: "x < length (store h)" if "x \<in> set (l # bs)" for x
    using that lin D(2,3) fresh by auto
  from append_n_loop_seg [OF loop dist len]
  have R: "l' = last (l # bs)" "same_payload h h1" "num_free_blocks h1 = num_free_blocks h"
    "\<And>x. x \<notin> set (l # bs) \<Longrightarrow> nxt h1 x = nxt h x"
    "\<And>x. x \<notin> set bs \<Longrightarrow> prv h1 x = prv h x"
    "seg ((nxt h1)(l' := Some ?T)) ((prv h1)(?T := Some l')) l bs ?T"
    by auto
  have l'in: "l' \<in> set bs" using R(1) False by simp
  have fields: "length (store h1) = length (store h)" "fake_free_list_head h1 = ?H"
    "fake_free_list_tail h1 = ?T"
    using R(2) by (auto simp: same_payload_def)
  define hf where
    "hf = add_num_free (int (length bs)) (set_prev ?T (Some l') (set_next l' (Some ?T) h1))"
  have nx: "nxt hf x = ((nxt h1)(l' := Some ?T)) x" for x
    using l'in fresh fields by (simp add: hf_def heap_simps)
  have pv: "prv hf x = ((prv h1)(?T := Some l')) x" for x
    using D(4) fields by (simp add: hf_def heap_simps)
  have "nxt hf = (nxt h1)(l' := Some ?T)" "prv hf = (prv h1)(?T := Some l')"
    by (rule ext, rule nx) (rule ext, rule pv)
  then have "seg (nxt hf) (prv hf) l bs ?T" using R(6) by (simp only:)
  moreover have "nxt hf x = nxt h x" if "x \<in> set (butlast (?H # xs))" for x
  proof -
    have "x \<noteq> l" using that D(1) unfolding l_def
      by (metis append_butlast_last_id distinct_append list.distinct(1) not_distinct_conv_prefix append_Cons)
    moreover have "x \<in> set (?H # xs)" using that by (meson in_set_butlastD)
    ultimately show ?thesis using R(4) [of x] l'in bs(2) fresh by (auto simp: nx)
  qed
  moreover have "prv hf x = prv h x" if "x \<in> set xs" for x
    using R(5) [of x] that bs(2) D(1) by (auto simp: pv)
  ultimately have "seg (nxt hf) (prv hf) ?H (xs @ bs) ?T"
    using D(5) l_def by (intro seg_join [of "nxt h" "prv h"]) auto
  moreover have "nxt hf x = None" if "x < length (store h)" "x \<notin> set (?H # xs @ bs)" for x
    using that R(4) [of x] D(6) [of x] lin l'in by (auto simp: nx)
  moreover have "prv hf x = None" if "x < length (store h)" "x \<notin> set ((xs @ bs) @ [?T])" for x
    using that R(5) [of x] D(7) [of x] by (auto simp: pv)
  moreover have "distinct (?H # (xs @ bs) @ [?T])" using D(1) bs fresh by auto
  moreover have "\<forall>x \<in> set (?H # (xs @ bs) @ [?T]). x < length (store h)"
    using D(2,3,4) fresh by auto
  moreover have "num_free_blocks hf = int (length (xs @ bs))" using D(8) R(3) by (simp add: hf_def)
  moreover have "length (store hf) = length (store h)" "fake_free_list_head hf = ?H"
    "fake_free_list_tail hf = ?T" using fields by (simp_all add: hf_def)
  ultimately have "queue_inv hf (xs @ bs)"
    unfolding queue_inv_def by simp
  moreover have "append_n bs h = Inr hf" using False pT loop by (simp add: append_n_def hf_def Let_def)
  moreover have "same_payload h hf" using R(2) unfolding hf_def by (intro same_payload_steps)
  ultimately show ?thesis by blast
qed

text \<open>\<open>append\<close> writes the same links as \<open>append_n\<close> on one block.\<close>

lemma append_eq_append_n:
  assumes "prv h (fake_free_list_tail h) = Some l" "b < length (store h)" "b \<noteq> l"
  shows "append b h = append_n [b] h"
proof -
  have "set_prev b (Some l) (set_next l (Some b) h) = set_next l (Some b) (set_prev b (Some l) h)"
    using assms by (simp add: set_prev_def set_next_def upd_blk_def list_update_swap)
  then show ?thesis using assms by (simp add: append_def append_n_def)
qed

lemma append_inv:
  assumes inv: "queue_inv h xs" and b: "b \<notin> set xs" "b < length (store h)"
    "b \<noteq> fake_free_list_head h" "b \<noteq> fake_free_list_tail h"
  shows "\<exists>h'. append b h = Inr h' \<and> queue_inv h' (xs @ [b]) \<and> same_payload h h'"
proof -
  have "prv h (fake_free_list_tail h) = Some (last (fake_free_list_head h # xs))"
    using seg_prev_last queue_invD(5) [OF inv] by blast
  moreover have "b \<noteq> last (fake_free_list_head h # xs)"
    using b by (metis last_in_set list.distinct(1) set_ConsD)
  ultimately have "append b h = append_n [b] h" using b(2) append_eq_append_n by blast
  then show ?thesis using append_n_inv [OF inv, of "[b]"] b by auto
qed

text \<open>\<open>popleft_n\<close>: the loop follows the forward links only and detaches the first \<open>n\<close> blocks.\<close>

fun chain :: "(nat \<Rightarrow> nat option) \<Rightarrow> nat option \<Rightarrow> nat list \<Rightarrow> nat \<Rightarrow> bool" where
  "chain n cur [] c \<longleftrightarrow> cur = Some c"
| "chain n cur (x # xs) c \<longleftrightarrow> cur = Some x \<and> chain n (n x) xs c"

lemma chain_frame: "(\<And>x. x \<in> set xs \<Longrightarrow> n' x = n x) \<Longrightarrow> chain n' cur xs c = chain n cur xs c"
  by (induction xs arbitrary: cur) auto

lemma seg_chain: "seg n p a (ys @ zs) b \<Longrightarrow> chain n (n a) ys (hd (zs @ [b]))"
  by (induction ys arbitrary: a) (auto simp: seg_next_hd)

lemma popleft_n_loop_chain:
  assumes "chain (nxt h) cur ys c" "distinct ys" "\<And>x. x \<in> set ys \<Longrightarrow> x < length (store h)"
  shows "\<exists>h'. popleft_n_loop (length ys) cur acc h = Inr (acc @ ys, Some c, h')
    \<and> same_payload h h' \<and> num_free_blocks h' = num_free_blocks h
    \<and> nxt h' = (\<lambda>x. if x \<in> set ys then None else nxt h x)
    \<and> prv h' = (\<lambda>x. if x \<in> set ys then None else prv h x)"
  using assms
proof (induction ys arbitrary: cur acc h)
  case Nil
  then show ?case by simp
next
  case (Cons y ys)
  define h1 where "h1 = set_next y None (set_prev y None h)"
  have y: "y < length (store h)" using Cons.prems(3) by simp
  have sp: "same_payload h h1" unfolding h1_def by (intro same_payload_steps same_payload_refl)
  have nf: "num_free_blocks h1 = num_free_blocks h" by (simp add: h1_def)
  have nx: "nxt h1 x = (if x = y then None else nxt h x)" for x
    using y by (simp add: h1_def heap_simps)
  have pv: "prv h1 x = (if x = y then None else prv h x)" for x
    using y by (simp add: h1_def heap_simps)
  have "chain (nxt h1) (nxt h y) ys c = chain (nxt h) (nxt h y) ys c"
    using Cons.prems(2) by (intro chain_frame) (auto simp: nx)
  then have "chain (nxt h1) (nxt h y) ys c" using Cons.prems(1) by simp
  moreover have "\<And>x. x \<in> set ys \<Longrightarrow> x < length (store h1)"
    using Cons.prems(3) by (simp add: h1_def)
  ultimately obtain h' where h': "popleft_n_loop (length ys) (nxt h y) (acc @ [y]) h1
      = Inr ((acc @ [y]) @ ys, Some c, h')" "same_payload h1 h'"
    "num_free_blocks h' = num_free_blocks h1"
    "nxt h' = (\<lambda>x. if x \<in> set ys then None else nxt h1 x)"
    "prv h' = (\<lambda>x. if x \<in> set ys then None else prv h1 x)"
    using Cons.IH [of h1 "nxt h y" "acc @ [y]"] Cons.prems(2) by auto
  have "popleft_n_loop (length (y # ys)) cur acc h = Inr (acc @ y # ys, Some c, h')"
    using Cons.prems(1) h'(1) by (simp add: h1_def)
  moreover have "nxt h' = (\<lambda>x. if x \<in> set (y # ys) then None else nxt h x)"
    unfolding h'(4) by (rule ext) (simp add: nx)
  moreover have "prv h' = (\<lambda>x. if x \<in> set (y # ys) then None else prv h x)"
    unfolding h'(5) by (rule ext) (simp add: pv)
  moreover have "num_free_blocks h' = num_free_blocks h" using h'(3) nf by simp
  ultimately show ?case using same_payload_trans [OF sp h'(2)] by blast
qed

lemma popleft_n_inv:
  assumes inv: "queue_inv h (ys @ zs)"
  shows "\<exists>h'. popleft_n (int (length ys)) h = Inr (ys, h') \<and> queue_inv h' zs \<and> same_payload h h'"
proof (cases "ys = []")
  case True
  then show ?thesis using inv by (simp add: popleft_n_def)
next
  case False
  let ?H = "fake_free_list_head h" and ?T = "fake_free_list_tail h"
  note D = queue_invD [OF inv]
  define c where "c = hd (zs @ [?T])"
  define h0 where "h0 = add_num_free (- int (length ys)) h"
  have blk0: "blk h0 = blk h" by (simp add: h0_def)
  have ch: "chain (nxt h0) (nxt h0 ?H) ys c"
    unfolding blk0 c_def using seg_chain [of "nxt h" "prv h" ?H ys zs ?T] D(5) by simp
  have "distinct ys" "\<And>x. x \<in> set ys \<Longrightarrow> x < length (store h0)"
    using D(1,2) by (auto simp: h0_def)
  from popleft_n_loop_chain [OF ch this, of "[]"] obtain h1 where
    h1: "popleft_n_loop (length ys) (nxt h0 ?H) [] h0 = Inr (ys, Some c, h1)"
      "same_payload h0 h1" "num_free_blocks h1 = num_free_blocks h0"
      "nxt h1 = (\<lambda>x. if x \<in> set ys then None else nxt h x)"
      "prv h1 = (\<lambda>x. if x \<in> set ys then None else prv h x)"
    unfolding blk0 by auto
  have sp: "same_payload h h1"
    using h1(2) same_payload_trans [OF same_payload_add_num_free] unfolding h0_def by blast
  then have fields: "length (store h1) = length (store h)" "fake_free_list_head h1 = ?H"
    "fake_free_list_tail h1 = ?T" by (simp_all add: same_payload_def)
  define hf where "hf = set_prev c (Some ?H) (set_next ?H (Some c) h1)"
  have cin: "c \<in> set (zs @ [?T])" by (metis c_def hd_in_set append_is_Nil_conv list.discI)
  have len: "c < length (store h1)" "?H < length (store h1)" using cin D(2,3,4) fields by auto
  have nx: "nxt hf x = (if x = ?H then Some c else if x \<in> set ys then None else nxt h x)" for x
    using len by (simp add: hf_def heap_simps fun_cong [OF h1(4)])
  have pv: "prv hf x = (if x = c then Some ?H else if x \<in> set ys then None else prv h x)" for x
    using len by (simp add: hf_def heap_simps fun_cong [OF h1(5)])
  define l where "l = last ys"
  have "ys @ zs = butlast ys @ l # zs" using append_butlast_last_id [OF False] l_def
    by (metis append.assoc append_Cons append_Nil)
  then have "seg (nxt h) (prv h) ?H (butlast ys @ l # zs) ?T" using D(5) by (simp only:)
  then have l: "l \<in> set ys" "seg (nxt h) (prv h) l zs ?T"
    using False by (simp_all add: seg_append l_def)
  then have "nxt h l = Some c" using seg_next_hd c_def by blast
  then have "seg ((nxt h)(?H := Some c)) ((prv h)(c := Some ?H)) ?H zs ?T"
    using l D(1) by (intro seg_relink_left [of "nxt h" "prv h" l]) auto
  moreover have "seg (nxt hf) (prv hf) ?H zs ?T =
      seg ((nxt h)(?H := Some c)) ((prv h)(c := Some ?H)) ?H zs ?T"
    using D(1) by (intro seg_frame) (auto simp: nx pv)
  ultimately have "seg (nxt hf) (prv hf) ?H zs ?T" by simp
  moreover have "nxt hf x = None" if "x < length (store h)" "x \<notin> set (?H # zs)" for x
    using that D(6) [of x] by (auto simp: nx)
  moreover have "prv hf x = None" if "x < length (store h)" "x \<notin> set (zs @ [?T])" for x
    using that D(7) [of x] cin by (auto simp: pv)
  moreover have "num_free_blocks hf = int (length zs)"
    using D(8) h1(3) by (simp add: hf_def h0_def)
  moreover have "distinct (?H # zs @ [?T])" using D(1) by auto
  moreover have "\<forall>x \<in> set (?H # zs @ [?T]). x < length (store h)" using D(2,3,4) by auto
  moreover have "length (store hf) = length (store h)" "fake_free_list_head hf = ?H"
    "fake_free_list_tail hf = ?T" using fields by (simp_all add: hf_def)
  ultimately have "queue_inv hf zs" unfolding queue_inv_def by simp
  moreover have "popleft_n (int (length ys)) h = Inr (ys, hf)"
    using h1(1) D(8) False by (simp add: popleft_n_def Let_def h0_def hf_def)
  moreover have "same_payload h hf" using sp unfolding hf_def by (intro same_payload_steps)
  ultimately show ?thesis by blast
qed

lemma popleft_n_too_many:
  assumes "queue_inv h xs" "n > int (length xs)"
  shows "popleft_n n h = Inl AssertionError"
  using assms queue_invD(8) [OF assms(1)] by (simp add: popleft_n_def)

text \<open>\<open>popleft_n\<close> is \<open>n\<close> calls of \<open>popleft\<close>.\<close>

fun popleft_times :: "nat \<Rightarrow> block_heap \<Rightarrow> (nat list \<times> block_heap) res" where
  "popleft_times 0 h = Inr ([], h)"
| "popleft_times (Suc k) h = res_bind (popleft h) (\<lambda>(b, h1).
     res_bind (popleft_times k h1) (\<lambda>(bs, h2). Inr (b # bs, h2)))"

lemma popleft_times_inv:
  "queue_inv h (ys @ zs) \<Longrightarrow>
   \<exists>h'. popleft_times (length ys) h = Inr (ys, h') \<and> queue_inv h' zs \<and> same_payload h h'"
proof (induction ys arbitrary: h)
  case Nil
  then show ?case by simp
next
  case (Cons y ys)
  then obtain h1 where h1: "popleft h = Inr (y, h1)" "queue_inv h1 (ys @ zs)" "same_payload h h1"
    using popleft_Cons by fastforce
  with Cons.IH obtain h2 where "popleft_times (length ys) h1 = Inr (ys, h2)" "queue_inv h2 zs"
    "same_payload h1 h2" by blast
  with h1 show ?case using same_payload_trans by fastforce
qed

text \<open>The walk over the list ends and returns it.\<close>

lemma walk_free_chain:
  "chain (nxt h) (Some a) xs b \<Longrightarrow> nxt h b = None \<Longrightarrow> walk_free h a acc = Some (acc @ xs)"
proof (induction xs arbitrary: a acc)
  case Nil
  then show ?case by (subst walk_free.simps) simp
next
  case (Cons x xs)
  then have ax: "a = x" and ch: "chain (nxt h) (nxt h x) xs b" by auto
  then obtain c where c: "nxt h x = Some c" by (cases xs) auto
  with ch Cons.IH [of c "acc @ [x]"] Cons.prems(2) ax c show ?case
    by (subst walk_free.simps) simp
qed

lemma get_all_free_blocks_inv:
  assumes "queue_inv h xs"
  shows "get_all_free_blocks h = Inr (Some xs)"
proof -
  let ?H = "fake_free_list_head h" and ?T = "fake_free_list_tail h"
  note D = queue_invD [OF assms]
  have ch: "chain (nxt h) (nxt h ?H) xs ?T" using seg_chain [of "nxt h" "prv h" ?H xs "[]" ?T] D(5) by simp
  moreover have "nxt h ?T = None" using D(1,4,6) by auto
  moreover obtain c where "nxt h ?H = Some c" using seg_next_hd [OF D(5)] by blast
  ultimately show ?thesis using walk_free_chain [of h c xs ?T "[]"]
    by (simp add: get_all_free_blocks_def)
qed

section \<open>Construction\<close>

lemma link_consecutive_effect:
  assumes "\<And>i. i \<in> set is \<Longrightarrow> i < length (store h)"
  shows "same_payload h (link_consecutive n is h)
    \<and> num_free_blocks (link_consecutive n is h) = num_free_blocks h
    \<and> (\<forall>x. nxt (link_consecutive n is h) x =
          (if x \<in> set is \<and> x < n - 1 then Some (x + 1) else nxt h x))
    \<and> (\<forall>x. prv (link_consecutive n is h) x =
          (if x \<in> set is \<and> x > 0 then Some (x - 1) else prv h x))"
  using assms
proof (induction "is" arbitrary: h)
  case Nil
  then show ?case by simp
next
  case (Cons i js)
  define h1 where "h1 = (if i > 0 then set_prev i (Some (i - 1)) h else h)"
  define h2 where "h2 = (if i < n - 1 then set_next i (Some (i + 1)) h1 else h1)"
  have i: "i < length (store h)" using Cons.prems by simp
  have sp: "same_payload h h2" "num_free_blocks h2 = num_free_blocks h"
    using same_payload_steps(1) [OF same_payload_set_prev] by (simp_all add: h2_def h1_def)
  have nx: "nxt h2 x = (if x = i \<and> x < n - 1 then Some (x + 1) else nxt h x)" for x
    using i by (auto simp: h2_def h1_def heap_simps)
  have pv: "prv h2 x = (if x = i \<and> x > 0 then Some (x - 1) else prv h x)" for x
    using i by (auto simp: h2_def h1_def heap_simps)
  have "link_consecutive n (i # js) h = link_consecutive n js h2"
    by (simp add: h1_def h2_def Let_def)
  moreover have "\<And>j. j \<in> set js \<Longrightarrow> j < length (store h2)"
    using Cons.prems sp(1) by (simp add: same_payload_def)
  note IH = Cons.IH [OF this]
  ultimately show ?case using IH sp nx pv same_payload_trans [OF sp(1)] by auto
qed

lemma seg_upt:
  assumes "k < m" "n a = Some k" "p k = Some a" "n (m - 1) = Some b" "p b = Some (m - 1)"
    and "\<And>i. k \<le> i \<Longrightarrow> i < m - 1 \<Longrightarrow> n i = Some (i + 1) \<and> p (i + 1) = Some i"
  shows "seg n p a [k..<m] b"
  using assms
proof (induction "m - k" arbitrary: k a)
  case 0
  then show ?case by simp
next
  case (Suc d)
  show ?case
  proof (cases "k + 1 = m")
    case True
    with Suc.prems show ?thesis by auto
  next
    case False
    with Suc have "seg n p k [Suc k..<m] b" by (intro Suc.hyps(1)) auto
    with Suc.prems(1-3) show ?thesis by (simp add: upt_conv_Cons)
  qed
qed

text \<open>Building the queue over fresh blocks gives the queue of all of them in order of address.\<close>

lemma queue_init_inv:
  assumes "\<forall>b \<in> set bs. prev_free_block b = None \<and> next_free_block b = None"
  shows "queue_inv (queue_init bs) [0..<length bs]"
    and "same_payload \<lparr>store = bs @ [new_block (-1), new_block (-1)],
       fake_free_list_head = length bs, fake_free_list_tail = length bs + 1,
       num_free_blocks = int (length bs)\<rparr> (queue_init bs)"
proof -
  let ?n = "length bs"
  define h0 where "h0 = \<lparr>store = bs @ [new_block (-1), new_block (-1)],
     fake_free_list_head = ?n, fake_free_list_tail = ?n + 1, num_free_blocks = int ?n\<rparr>"
  define h1 where "h1 = link_consecutive ?n [0..<?n] h0"
  have len0: "length (store h0) = ?n + 2" by (simp add: h0_def)
  have none: "nxt h0 x = None" "prv h0 x = None" if "x < ?n + 2" for x
  proof -
    have "store h0 ! x \<in> set (store h0)" using that len0 by simp
    then show "nxt h0 x = None" "prv h0 x = None"
      using assms by (auto simp: h0_def blk_def new_block_def)
  qed
  have bound: "\<And>i. i \<in> set [0..<?n] \<Longrightarrow> i < length (store h0)" using len0 by simp
  have h1: "same_payload h0 h1" "num_free_blocks h1 = int ?n"
    "\<And>x. nxt h1 x = (if x < ?n - 1 then Some (x + 1) else nxt h0 x)"
    "\<And>x. prv h1 x = (if x < ?n \<and> x > 0 then Some (x - 1) else prv h0 x)"
    using link_consecutive_effect [of "[0..<?n]" h0 ?n, OF bound]
    by (auto simp: h1_def [symmetric]) (simp add: h0_def)
  have len1: "length (store h1) = ?n + 2" using h1(1) len0 by (simp add: same_payload_def)
  have hf: "queue_init bs = (if ?n > 0
      then set_next (?n - 1) (Some (?n + 1)) (set_prev (?n + 1) (Some (?n - 1))
             (set_prev 0 (Some ?n) (set_next ?n (Some 0) h1)))
      else set_prev (?n + 1) (Some ?n) (set_next ?n (Some (?n + 1)) h1))"
    by (simp add: queue_init_def Let_def h1_def h0_def)
  have sp: "same_payload h0 (queue_init bs)"
    unfolding hf using h1(1) by (auto intro!: same_payload_steps)
  then show "same_payload \<lparr>store = bs @ [new_block (-1), new_block (-1)],
       fake_free_list_head = length bs, fake_free_list_tail = length bs + 1,
       num_free_blocks = int (length bs)\<rparr> (queue_init bs)" by (simp add: h0_def)
  have fields: "length (store (queue_init bs)) = ?n + 2" "fake_free_list_head (queue_init bs) = ?n"
    "fake_free_list_tail (queue_init bs) = ?n + 1"
    using sp len0 by (auto simp: same_payload_def h0_def)
  have nx: "nxt (queue_init bs) x = (if x = ?n then Some (if ?n = 0 then 1 else 0)
      else if x < ?n then Some (if x = ?n - 1 then ?n + 1 else x + 1) else None)" if "x < ?n + 2" for x
    using that none [OF that] h1(3) [of x] len1 by (auto simp: hf heap_simps)
  have pv: "prv (queue_init bs) x = (if x = ?n + 1 then Some (if ?n = 0 then 0 else ?n - 1)
      else if x < ?n then Some (if x = 0 then ?n else x - 1) else None)" if "x < ?n + 2" for x
    using that none [OF that] h1(4) [of x] len1 by (auto simp: hf heap_simps)
  have "seg (nxt (queue_init bs)) (prv (queue_init bs)) ?n [0..<?n] (?n + 1)"
  proof (cases "?n = 0")
    case True
    then show ?thesis using nx [of ?n] pv [of "?n + 1"] by simp
  next
    case False
    then have "?n - 1 < ?n" "?n - 1 \<noteq> ?n" by linarith+
    show ?thesis by (rule seg_upt) (use False nx pv \<open>?n - 1 \<noteq> ?n\<close> in auto)
  qed
  moreover have "num_free_blocks (queue_init bs) = int ?n" using h1(2) by (simp add: hf)
  ultimately show "queue_inv (queue_init bs) [0..<?n]"
    unfolding queue_inv_def fields using nx pv by auto
qed

section \<open>The interface the block pool relies on\<close>

text \<open>
  The contract of the queue for its clients: \<open>repr h xs\<close> says that \<open>h\<close> holds the free list \<open>xs\<close>,
  \<open>frame\<close> that an operation left everything but the list alone, \<open>member_ok\<close> which blocks may enter it.
\<close>

locale fifo_free_list =
  fixes repr :: "'h \<Rightarrow> nat list \<Rightarrow> bool"
    and frame :: "'h \<Rightarrow> 'h \<Rightarrow> bool"
    and member_ok :: "'h \<Rightarrow> nat \<Rightarrow> bool"
    and pop_n :: "int \<Rightarrow> 'h \<Rightarrow> (nat list \<times> 'h) res"
    and rem :: "nat \<Rightarrow> 'h \<Rightarrow> 'h res"
    and put_n :: "nat list \<Rightarrow> 'h \<Rightarrow> 'h res"
  assumes frame_refl: "frame h h"
    and frame_trans: "frame h1 h2 \<Longrightarrow> frame h2 h3 \<Longrightarrow> frame h1 h3"
    and frame_member: "frame h h' \<Longrightarrow> member_ok h' a = member_ok h a"
    and repr_distinct: "repr h xs \<Longrightarrow> distinct xs"
    and repr_member: "repr h xs \<Longrightarrow> a \<in> set xs \<Longrightarrow> member_ok h a"
    and pop_n_split: "repr h (ys @ zs) \<Longrightarrow>
      \<exists>h'. pop_n (int (length ys)) h = Inr (ys, h') \<and> repr h' zs \<and> frame h h'"
    and pop_n_short: "repr h xs \<Longrightarrow> n > int (length xs) \<Longrightarrow> pop_n n h = Inl AssertionError"
    and rem_mem: "repr h xs \<Longrightarrow> b \<in> set xs \<Longrightarrow>
      \<exists>h'. rem b h = Inr h' \<and> repr h' (remove1 b xs) \<and> frame h h'"
    and put_n_fresh: "repr h xs \<Longrightarrow> distinct bs \<Longrightarrow> set bs \<inter> set xs = {} \<Longrightarrow>
      \<forall>b \<in> set bs. member_ok h b \<Longrightarrow> \<exists>h'. put_n bs h = Inr h' \<and> repr h' (xs @ bs) \<and> frame h h'"
begin

lemma pop_n_take:
  assumes "repr h xs" "0 \<le> n" "n \<le> int (length xs)"
  shows "\<exists>h'. pop_n n h = Inr (take (nat n) xs, h') \<and> repr h' (drop (nat n) xs) \<and> frame h h'"
proof -
  have "int (length (take (nat n) xs)) = n" using assms(2,3) by auto
  then show ?thesis using pop_n_split [of h "take (nat n) xs" "drop (nat n) xs"] assms(1) by simp
qed

text \<open>Taking blocks and giving them back moves them to the end: the LRU rotation.\<close>

lemma pop_put_rotates:
  assumes "repr h xs" "n \<le> length xs"
  shows "\<exists>h1 h2. pop_n (int n) h = Inr (take n xs, h1) \<and> put_n (take n xs) h1 = Inr h2
    \<and> repr h2 (drop n xs @ take n xs) \<and> frame h h2"
proof -
  from pop_n_take [OF assms(1), of "int n"] assms(2) obtain h1 where
    h1: "pop_n (int n) h = Inr (take n xs, h1)" "repr h1 (drop n xs)" "frame h h1" by auto
  have "set (take n xs) \<inter> set (drop n xs) = {}"
    using repr_distinct [OF assms(1)] by (simp add: set_take_disj_set_drop_if_distinct)
  moreover have "\<forall>b \<in> set (take n xs). member_ok h1 b"
    using repr_member [OF assms(1)] frame_member [OF h1(3)] by (auto dest: in_set_takeD)
  moreover have "distinct (take n xs)" using repr_distinct [OF assms(1)] by simp
  ultimately obtain h2 where "put_n (take n xs) h1 = Inr h2" "repr h2 (drop n xs @ take n xs)"
    "frame h1 h2"
    using put_n_fresh [OF h1(2), of "take n xs"] by blast
  with h1 show ?thesis using frame_trans by blast
qed

text \<open>Removing a set of members one by one leaves the others, in order.\<close>

lemma fold_rem:
  assumes "repr h xs" "distinct bs" "set bs \<subseteq> set xs"
  shows "\<exists>h'. fold_res rem bs h = Inr h' \<and> repr h' (filter (\<lambda>x. x \<notin> set bs) xs) \<and> frame h h'"
  using assms
proof (induction bs arbitrary: h xs)
  case Nil
  then show ?case using frame_refl by simp
next
  case (Cons b bs)
  then obtain h1 where h1: "rem b h = Inr h1" "repr h1 (remove1 b xs)" "frame h h1"
    using rem_mem [of h xs b] by auto
  have f: "remove1 b xs = filter (\<lambda>x. x \<noteq> b) xs"
    using repr_distinct [OF Cons.prems(1)] by (auto simp: distinct_remove1_removeAll removeAll_filter_not_eq intro: filter_cong)
  have "set bs \<subseteq> set (remove1 b xs)" using Cons.prems by (auto simp: f)
  with Cons.IH [OF h1(2)] Cons.prems(2) obtain h2 where "fold_res rem bs h1 = Inr h2"
    "repr h2 (filter (\<lambda>x. x \<notin> set bs) (remove1 b xs))" "frame h1 h2" by auto
  moreover have "filter (\<lambda>x. x \<notin> set bs) (remove1 b xs) = filter (\<lambda>x. x \<notin> set (b # bs)) xs"
    unfolding f by (auto intro: filter_cong)
  ultimately show ?case using h1 frame_trans by fastforce
qed

end

definition list_member_ok :: "block_heap \<Rightarrow> nat \<Rightarrow> bool" where
  "list_member_ok h a \<longleftrightarrow>
     a < length (store h) \<and> a \<noteq> fake_free_list_head h \<and> a \<noteq> fake_free_list_tail h"

interpretation fq: fifo_free_list queue_inv same_payload list_member_ok popleft_n remove append_n
proof (unfold_locales, goal_cases)
  case (2 h1 h2 h3)
  then show ?case by (rule same_payload_trans)
next
  case (3 h h' a)
  then show ?case by (simp add: same_payload_def list_member_ok_def)
next
  case (4 h xs)
  then show ?case using queue_invD(1) by auto
next
  case (5 h xs a)
  then show ?case using queue_invD(1,2) [OF 5(1)] by (auto simp: list_member_ok_def)
next
  case (6 h ys zs)
  then show ?case by (rule popleft_n_inv)
next
  case (7 h xs n)
  then show ?case by (rule popleft_n_too_many)
next
  case (8 h xs b)
  then show ?case by (rule remove_mem)
next
  case (9 h xs bs)
  then show ?case by (intro append_n_inv) (auto simp: list_member_ok_def)
qed simp

end
