(* ===== verification/Request_Data.thy ===== *)
theory Request_Data
  imports Prelude Complex_Main
begin

text \<open>
  The data of src/vllm/vllm/v1/request.py and of the parameter objects a request carries: the
  fields the engine core reads or writes. Token ids are Python ints; a prompt-embedding tensor is
  the list of its rows' raw bytes (what \<^verbatim>\<open>tensor_data\<close> hands to the hash); an arrival time is a
  finite float, modelled by the rational it denotes; \<open>object_id\<close> is \<^verbatim>\<open>id(self)\<close>.
\<close>

section \<open>Status\<close>

datatype request_status =
    WAITING
  | WAITING_FOR_STRUCTURED_OUTPUT_GRAMMAR
  | WAITING_FOR_REMOTE_KVS
  | WAITING_FOR_STREAMING_REQ
  | RUNNING
  | PREEMPTED
  | FINISHED_STOPPED
  | FINISHED_LENGTH_CAPPED
  | FINISHED_ABORTED
  | FINISHED_IGNORED
  | FINISHED_ERROR
  | FINISHED_REPETITION

text \<open>The \<^verbatim>\<open>IntEnum\<close> values given by \<^verbatim>\<open>enum.auto()\<close>.\<close>

fun status_value :: "request_status \<Rightarrow> nat" where
  "status_value WAITING = 1"
| "status_value WAITING_FOR_STRUCTURED_OUTPUT_GRAMMAR = 2"
| "status_value WAITING_FOR_REMOTE_KVS = 3"
| "status_value WAITING_FOR_STREAMING_REQ = 4"
| "status_value RUNNING = 5"
| "status_value PREEMPTED = 6"
| "status_value FINISHED_STOPPED = 7"
| "status_value FINISHED_LENGTH_CAPPED = 8"
| "status_value FINISHED_ABORTED = 9"
| "status_value FINISHED_IGNORED = 10"
| "status_value FINISHED_ERROR = 11"
| "status_value FINISHED_REPETITION = 12"

instantiation request_status :: linorder
begin

definition less_eq_request_status :: "request_status \<Rightarrow> request_status \<Rightarrow> bool" where
  "less_eq_request_status s t = (status_value s \<le> status_value t)"

definition less_request_status :: "request_status \<Rightarrow> request_status \<Rightarrow> bool" where
  "less_request_status s t = (status_value s < status_value t)"

instance
proof
  fix s t :: request_status
  assume "s \<le> t" "t \<le> s"
  then have "status_value s = status_value t" by (simp add: less_eq_request_status_def)
  then show "s = t" by (cases s; cases t) simp_all
qed (auto simp: less_eq_request_status_def less_request_status_def)

end

section \<open>Parameters and inputs of a request\<close>

record mm_feature =
  mm_identifier :: string
  mm_offset :: nat
  mm_length :: nat
  is_embed :: "bool list option"

record lora_request_data =
  lora_name :: string
  lora_int_id :: int

record repetition_detection_params =
  max_pattern_size :: int
  min_pattern_size :: int
  min_count :: int

record sampling_params_data =
  sp_max_tokens :: "int option"
  min_tokens :: int
  eos_token_id :: "int option"
  stop_token_ids :: "int list"
  repetition_detection :: "repetition_detection_params option"
  sp_skip_reading_prefix_cache :: "bool option"
  has_structured_outputs :: bool

record pooling_params_data =
  pp_skip_reading_prefix_cache :: "bool option"

datatype stop_reason_value = StopToken int | StopString string

record streaming_update =
  su_mm_features :: "mm_feature list"
  su_prompt_token_ids :: "int list option"
  su_max_tokens :: int
  su_arrival_time :: rat
  su_sampling_params :: "sampling_params_data option"

section \<open>The request\<close>

record request =
  object_id :: nat
  request_id :: string
  client_index :: int
  priority :: int
  arrival_time :: rat
  sampling_params :: "sampling_params_data option"
  pooling_params :: "pooling_params_data option"
  lora_request :: "lora_request_data option"
  structured_output_request :: bool
  status :: request_status
  stop_reason :: "stop_reason_value option"
  max_tokens :: int
  prompt_token_ids :: "int list option"
  prompt_embeds :: "bytes list option"
  prompt_embeds_per_block_hashes :: "(nat \<times> nat, bytes) odict"
  num_prompt_tokens :: nat
  output_token_ids :: "int list"
  all_token_ids :: "int list"
  num_output_placeholders :: int
  discard_latest_async_tokens :: bool
  spec_token_ids :: "int list"
  num_computed_tokens :: int
  cache_salt :: "string option"
  mm_features :: "mm_feature list"
  is_prefill_chunk :: bool
  num_preemptions :: nat
  block_hashes :: "bytes list"
  skip_reading_prefix_cache :: bool
  resumable :: bool
  streaming_queue :: "streaming_update option list option"

text \<open>The derived properties of a request.\<close>

definition num_tokens :: "request \<Rightarrow> nat" where
  "num_tokens r = length (all_token_ids r)"

definition num_tokens_with_spec :: "request \<Rightarrow> nat" where
  "num_tokens_with_spec r = length (all_token_ids r) + length (spec_token_ids r)"

definition num_output_tokens :: "request \<Rightarrow> nat" where
  "num_output_tokens r = length (output_token_ids r)"

definition num_encoder_inputs :: "request \<Rightarrow> nat" where
  "num_encoder_inputs r = length (mm_features r)"

definition has_encoder_inputs :: "request \<Rightarrow> bool" where
  "has_encoder_inputs r = (num_encoder_inputs r > 0)"

definition use_structured_output :: "request \<Rightarrow> bool" where
  "use_structured_output r = structured_output_request r"

definition is_finished_status :: "request_status \<Rightarrow> bool" where
  "is_finished_status s = (s > PREEMPTED)"

definition is_finished :: "request \<Rightarrow> bool" where
  "is_finished r = is_finished_status (status r)"

text \<open>\<^verbatim>\<open>PlaceholderRange.get_num_embeds\<close>: the last entry of the mask's cumulative sum.\<close>

definition get_num_embeds :: "mm_feature \<Rightarrow> nat" where
  "get_num_embeds f =
     (case is_embed f of
        None \<Rightarrow> mm_length f
      | Some flags \<Rightarrow> length (filter id flags))"

definition get_num_encoder_embeds :: "request \<Rightarrow> nat \<Rightarrow> nat res" where
  "get_num_encoder_embeds r i =
     guard (i < length (mm_features r)) AssertionError (Inr (get_num_embeds (mm_features r ! i)))"

lemma status_lt_simps [simp]:
  "is_finished_status s \<longleftrightarrow> s \<in> {FINISHED_STOPPED, FINISHED_LENGTH_CAPPED, FINISHED_ABORTED,
     FINISHED_IGNORED, FINISHED_ERROR, FINISHED_REPETITION}"
  by (cases s) (simp_all add: is_finished_status_def less_request_status_def)

end
