(* ===== verification/Block_Hash.thy ===== *)
theory Block_Hash
  imports Request_Data
begin

text \<open>
  Block hashing of src/vllm/vllm/v1/core/kv_cache_utils.py: packing of a block hash with its KV
  cache group id, the extra keys of multi-modal, LoRA, salted and embedding prompts, the hash chain
  of a request and its incremental extension, and the change of hash granularity.

  The configured hash function, \<^verbatim>\<open>hashlib.sha256\<close>, the seed \<^verbatim>\<open>NONE_HASH\<close> and the environment switch
  for integer event hashes are parameters, collected in \<open>hash_env\<close>.
\<close>

section \<open>Hash keys\<close>

text \<open>
  An entry of the extra-key tuple. LoRA names and cache salts are both plain Python strings there.
\<close>

datatype extra_key = StrKey string | MMKey string int | BytesKey bytes

record hash_env =
  caching_hash_fn :: "bytes \<times> int list \<times> extra_key list option \<Rightarrow> bytes"
  sha256 :: "bytes \<Rightarrow> bytes"
  NONE_HASH :: bytes
  VLLM_KV_EVENTS_USE_INT_BLOCK_HASHES :: bool

datatype external_block_hash = ExtBytes bytes | ExtInt nat

text \<open>\<^verbatim>\<open>int.to_bytes(4, "big", signed=False)\<close> and \<^verbatim>\<open>int.from_bytes(_, "big")\<close>.\<close>

definition to_bytes_4_big :: "int \<Rightarrow> bytes res" where
  "to_bytes_4_big g =
     guard (0 \<le> g \<and> g < 2 ^ 32) OverflowError
       (Inr (map (\<lambda>i. word_of_int (g div 256 ^ i)) [3, 2, 1, 0]))"

definition from_bytes_big :: "bytes \<Rightarrow> nat" where
  "from_bytes_big bs = foldl (\<lambda>acc b. 256 * acc + unat b) 0 bs"

definition make_block_hash_with_group_id :: "bytes \<Rightarrow> int \<Rightarrow> bytes res" where
  "make_block_hash_with_group_id h g = res_bind (to_bytes_4_big g) (\<lambda>bs. Inr (h @ bs))"

text \<open>\<^verbatim>\<open>key[:-4]\<close> and \<^verbatim>\<open>key[-4:]\<close>.\<close>

definition get_block_hash :: "bytes \<Rightarrow> bytes" where
  "get_block_hash key = take (length key - 4) key"

definition get_group_id :: "bytes \<Rightarrow> nat" where
  "get_group_id key = from_bytes_big (drop (length key - 4) key)"

definition maybe_convert_block_hash :: "hash_env \<Rightarrow> bytes \<Rightarrow> external_block_hash" where
  "maybe_convert_block_hash E h =
     (if \<not> VLLM_KV_EVENTS_USE_INT_BLOCK_HASHES E then ExtBytes h
      else ExtInt (take_bit 64 (from_bytes_big h)))"

section \<open>Extra keys\<close>

definition need_extra_keys :: "request \<Rightarrow> bool" where
  "need_extra_keys r \<longleftrightarrow>
     mm_features r \<noteq> [] \<or> lora_request r \<noteq> None \<or> cache_salt r \<noteq> None"

function mm_keys_loop ::
  "mm_feature list \<Rightarrow> nat \<Rightarrow> nat \<Rightarrow> nat \<Rightarrow> extra_key list \<Rightarrow> extra_key list \<times> nat" where
  "mm_keys_loop fs s e i acc =
     (if i < length fs
      then let f = fs ! i; off = mm_offset f; len = mm_length f in
        if e > off
        then if s \<ge> off + len then mm_keys_loop fs s e (i + 1) acc
             else let acc' = acc @ [MMKey (mm_identifier f) (int off - int s)] in
               if e \<ge> off + len then mm_keys_loop fs s e (i + 1) acc'
               else (acc', i)
        else (acc, i)
      else (acc, i))"
  by pat_completeness auto
termination
  by (relation "measure (\<lambda>(fs, s, e, i, acc). length fs - i)") auto

declare mm_keys_loop.simps [simp del]

definition gen_mm_extra_hash_keys ::
  "request \<Rightarrow> nat \<Rightarrow> nat \<Rightarrow> int \<Rightarrow> (extra_key list \<times> int) res" where
  "gen_mm_extra_hash_keys r s e start_mm_idx =
     (let fs = mm_features r in
      if fs = [] then Inr ([], start_mm_idx)
      else if mm_offset (last fs) + mm_length (last fs) \<le> s then Inr ([], start_mm_idx)
      else if start_mm_idx < 0
      then guard (- start_mm_idx \<le> int (length fs)) AssertionError
             (let (ks, i) = mm_keys_loop fs s e (nat (int (length fs) + start_mm_idx)) []
              in Inr (ks, int i))
      else (let (ks, i) = mm_keys_loop fs s e (nat start_mm_idx) [] in Inr (ks, int i)))"

definition gen_lora_extra_hash_keys :: "request \<Rightarrow> extra_key list" where
  "gen_lora_extra_hash_keys r =
     (case lora_request r of None \<Rightarrow> [] | Some l \<Rightarrow> [StrKey (lora_name l)])"

text \<open>Hashes of prompt embeddings are memoised on the request.\<close>

definition gen_prompt_embeds_extra_hash_keys ::
  "hash_env \<Rightarrow> request \<Rightarrow> nat \<Rightarrow> nat \<Rightarrow> extra_key list \<times> request" where
  "gen_prompt_embeds_extra_hash_keys E r s e =
     (case prompt_embeds r of
        None \<Rightarrow> ([], r)
      | Some rows \<Rightarrow>
          (case map_of (prompt_embeds_per_block_hashes r) (s, e) of
             Some h \<Rightarrow> ([BytesKey h], r)
           | None \<Rightarrow>
               (let h = sha256 E (concat (py_slice s e rows))
                in ([BytesKey h], r\<lparr>prompt_embeds_per_block_hashes :=
                      AList.update (s, e) h (prompt_embeds_per_block_hashes r)\<rparr>))))"

text \<open>An empty salt is falsy in Python and gives no key.\<close>

definition cache_salt_keys :: "request \<Rightarrow> nat \<Rightarrow> extra_key list" where
  "cache_salt_keys r s =
     (case cache_salt r of
        None \<Rightarrow> []
      | Some salt \<Rightarrow> if s = 0 \<and> salt \<noteq> [] then [StrKey salt] else [])"

definition generate_block_hash_extra_keys ::
  "hash_env \<Rightarrow> request \<Rightarrow> nat \<Rightarrow> nat \<Rightarrow> int \<Rightarrow> (extra_key list option \<times> int \<times> request) res" where
  "generate_block_hash_extra_keys E r s e start_mm_idx =
     res_bind (gen_mm_extra_hash_keys r s e start_mm_idx) (\<lambda>(mm_keys, new_idx).
       let (embed_keys, r') = gen_prompt_embeds_extra_hash_keys E r s e;
           ks = gen_lora_extra_hash_keys r @ mm_keys @ cache_salt_keys r s @ embed_keys
       in Inr (if ks = [] then None else Some ks, new_idx, r'))"

section \<open>The hash chain of a request\<close>

definition hash_block_tokens ::
  "hash_env \<Rightarrow> bytes option \<Rightarrow> int list \<Rightarrow> extra_key list option \<Rightarrow> bytes" where
  "hash_block_tokens E parent tokens ks =
     caching_hash_fn E
       (case parent of None \<Rightarrow> NONE_HASH E | Some p \<Rightarrow> if p = [] then NONE_HASH E else p,
        tokens, ks)"

text \<open>
  The \<^verbatim>\<open>while True\<close> loop of \<^verbatim>\<open>request_block_hasher\<close>; a non-positive block size would not leave it, so
  the recursion is guarded by \<open>block_size > 0\<close> (the configuration's own constraint).
\<close>

function hasher_loop ::
  "hash_env \<Rightarrow> nat \<Rightarrow> nat \<Rightarrow> request \<Rightarrow> nat \<Rightarrow> int \<Rightarrow> bytes option \<Rightarrow> bytes list
     \<Rightarrow> (bytes list \<times> request) res" where
  "hasher_loop E bs n r s mm prev acc =
     (if bs = 0 \<or> s + bs > n then Inr (acc, r)
      else case generate_block_hash_extra_keys E r s (s + bs) mm of
        Inl err \<Rightarrow> Inl err
      | Inr (ks, mm', r') \<Rightarrow>
          let h = hash_block_tokens E prev (py_slice s (s + bs) (all_token_ids r')) ks
          in hasher_loop E bs n r' (s + bs) mm' (Some h) (acc @ [h]))"
  by pat_completeness auto
termination
  by (relation "measure (\<lambda>(E, bs, n, r, s, mm, prev, acc). n + 1 - s)") auto

declare hasher_loop.simps [simp del]

definition request_block_hasher :: "hash_env \<Rightarrow> nat \<Rightarrow> request \<Rightarrow> (bytes list \<times> request) res" where
  "request_block_hasher E block_size r =
     (let s = length (block_hashes r) * block_size in
      if s + block_size > num_tokens r then Inr ([], r)
      else hasher_loop E block_size (num_tokens r) r s (if s > 0 then -1 else 0)
             (if block_hashes r = [] then None else Some (last (block_hashes r))) [])"

text \<open>\<^verbatim>\<open>Request.update_block_hashes\<close> with the request's \<^verbatim>\<open>_block_hasher\<close>, absent without prefix caching.\<close>

type_synonym block_hasher = "request \<Rightarrow> (bytes list \<times> request) res"

definition update_block_hashes :: "block_hasher option \<Rightarrow> request \<Rightarrow> request res" where
  "update_block_hashes hasher r =
     (case hasher of
        None \<Rightarrow> Inr r
      | Some f \<Rightarrow> res_bind (f r) (\<lambda>(hs, r'). Inr (r'\<lparr>block_hashes := block_hashes r' @ hs\<rparr>)))"

section \<open>Change of granularity\<close>

record block_hash_list =
  bhl_block_hashes :: "bytes list"
  scale_factor :: nat

definition block_hash_list_with_block_size :: "bytes list \<Rightarrow> nat \<Rightarrow> nat \<Rightarrow> block_hash_list res" where
  "block_hash_list_with_block_size hs hash_block_size target_block_size =
     guard (target_block_size mod hash_block_size = 0) AssertionError
       (Inr \<lparr>bhl_block_hashes = hs, scale_factor = target_block_size div hash_block_size\<rparr>)"

definition bhl_len :: "block_hash_list \<Rightarrow> nat" where
  "bhl_len b = length (bhl_block_hashes b) div scale_factor b"

fun index_res :: "'a list \<Rightarrow> nat \<Rightarrow> 'a res" where
  "index_res xs i = (if i < length xs then Inr (xs ! i) else Inl IndexError)"

definition get_value_at :: "block_hash_list \<Rightarrow> nat \<Rightarrow> bytes res" where
  "get_value_at b idx =
     (let base = idx * scale_factor b; fin = base + scale_factor b in
      res_bind (index_res (bhl_block_hashes b) base) (\<lambda>h0.
        fold_res (\<lambda>i merged. res_bind (index_res (bhl_block_hashes b) i) (\<lambda>h. Inr (merged @ h)))
          [base + 1..<fin] h0))"

text \<open>\<^verbatim>\<open>bhl[start:]\<close> and iteration: the values from \<open>start\<close> to the end.\<close>

definition bhl_from :: "block_hash_list \<Rightarrow> nat \<Rightarrow> bytes list res" where
  "bhl_from b start =
     fold_res (\<lambda>i acc. res_bind (get_value_at b i) (\<lambda>v. Inr (acc @ [v]))) [start..<bhl_len b] []"

section \<open>Packing of the group id\<close>

lemma unat_byte: "unat (word_of_int k :: byte) = nat (k mod 256)"
  by (simp add: unat_eq_nat_uint uint_word_of_int take_bit_eq_mod)

lemma from_bytes_big_snoc [simp]: "from_bytes_big (bs @ [b]) = 256 * from_bytes_big bs + unat b"
  by (simp add: from_bytes_big_def)

lemma from_bytes_big_digits:
  assumes "0 \<le> g"
  shows "int (from_bytes_big (map (\<lambda>i. word_of_int (g div 256 ^ i)) (rev [0..<n]))) = g mod 256 ^ n"
proof (induction n arbitrary: g)
  case 0
  then show ?case by (simp add: from_bytes_big_def)
next
  case (Suc n)
  have rev: "rev [0..<Suc n] = map Suc (rev [0..<n]) @ [0]"
    by (simp only: upt_conv_Cons map_Suc_upt [symmetric] rev.simps rev_map zero_less_Suc)
  have dv: "g div 256 ^ Suc i = (g div 256) div 256 ^ i" for i
    by (simp only: power_Suc) (rule zdiv_zmult2_eq, simp)
  have "map (\<lambda>i. word_of_int (g div 256 ^ i) :: byte) (rev [0..<Suc n]) =
      map (\<lambda>i. word_of_int ((g div 256) div 256 ^ i)) (rev [0..<n]) @ [word_of_int g]"
    unfolding rev by (simp only: map_append map_map o_def dv list.map power_0 div_by_1)
  moreover have "256 * (g div 256 mod 256 ^ n) + g mod 256 = g mod (256 ^ Suc n)"
    by (simp only: power_Suc) (simp add: zmod_zmult2_eq)
  ultimately show ?case using Suc.IH [of "g div 256"]
    by (simp add: unat_byte)
qed

lemma to_bytes_4_big_roundtrip:
  assumes "0 \<le> g" "g < 2 ^ 32"
  shows "\<exists>bs. to_bytes_4_big g = Inr bs \<and> length bs = 4 \<and> from_bytes_big bs = nat g"
proof -
  have idx: "[3, 2, 1, 0] = rev [0..<4]" by (simp add: upt_rec)
  have "(256::int) ^ 4 = 2 ^ 32" by simp
  with assms have "g mod 256 ^ 4 = g" by simp
  then have "from_bytes_big (map (\<lambda>i. word_of_int (g div 256 ^ i)) [3, 2, 1, 0]) = nat g"
    unfolding idx using from_bytes_big_digits [OF assms(1), of 4] by linarith
  then show ?thesis using assms unfolding to_bytes_4_big_def guard_def by simp
qed

lemma make_block_hash_with_group_id_ok:
  assumes "0 \<le> g" "g < 2 ^ 32"
  shows "\<exists>k. make_block_hash_with_group_id h g = Inr k
    \<and> get_block_hash k = h \<and> get_group_id k = nat g \<and> length k = length h + 4"
  using to_bytes_4_big_roundtrip [OF assms]
  by (elim exE conjE) (simp add: make_block_hash_with_group_id_def get_block_hash_def get_group_id_def)

lemma make_block_hash_with_group_id_range:
  "make_block_hash_with_group_id h g = Inr k \<Longrightarrow> 0 \<le> g \<and> g < 2 ^ 32"
  unfolding make_block_hash_with_group_id_def to_bytes_4_big_def res_bind_eq_Inr guard_eq_Inr
  by blast

lemma make_block_hash_with_group_id_inj:
  assumes "make_block_hash_with_group_id h g = Inr k" "make_block_hash_with_group_id h' g' = Inr k"
  shows "h = h' \<and> g = g'"
proof -
  note r = make_block_hash_with_group_id_range [OF assms(1)]
    make_block_hash_with_group_id_range [OF assms(2)]
  have "get_block_hash k = h" "get_group_id k = nat g"
    using make_block_hash_with_group_id_ok [of g h] r assms(1) by auto
  moreover have "get_block_hash k = h'" "get_group_id k = nat g'"
    using make_block_hash_with_group_id_ok [of g' h'] r assms(2) by auto
  ultimately show ?thesis using r by (simp add: eq_nat_nat_iff)
qed

section \<open>Multi-modal keys: the scan finds the items that meet the block\<close>

definition meets :: "nat \<Rightarrow> nat \<Rightarrow> mm_feature \<Rightarrow> bool" where
  "meets s e f \<longleftrightarrow> mm_offset f < e \<and> s < mm_offset f + mm_length f"

definition mm_keys_spec :: "mm_feature list \<Rightarrow> nat \<Rightarrow> nat \<Rightarrow> extra_key list" where
  "mm_keys_spec fs s e =
     map (\<lambda>f. MMKey (mm_identifier f) (int (mm_offset f) - int s)) (filter (meets s e) fs)"

abbreviation ends_by :: "nat \<Rightarrow> mm_feature \<Rightarrow> bool" where
  "ends_by p f \<equiv> mm_offset f + mm_length f \<le> p"

text \<open>The items are in prompt order and do not overlap.\<close>

definition mm_sorted :: "mm_feature list \<Rightarrow> bool" where
  "mm_sorted fs \<longleftrightarrow> sorted_wrt (\<lambda>f g. ends_by (mm_offset g) f) fs"

lemma mm_keys_spec_simps [simp]:
  "mm_keys_spec [] s e = []"
  "mm_keys_spec (f # fs) s e =
     (if meets s e f then MMKey (mm_identifier f) (int (mm_offset f) - int s) # mm_keys_spec fs s e
      else mm_keys_spec fs s e)"
  "mm_keys_spec (fs @ gs) s e = mm_keys_spec fs s e @ mm_keys_spec gs s e"
  by (simp_all add: mm_keys_spec_def)

lemma mm_keys_spec_none: "(\<And>f. f \<in> set fs \<Longrightarrow> \<not> meets s e f) \<Longrightarrow> mm_keys_spec fs s e = []"
  by (auto simp: mm_keys_spec_def filter_empty_conv)

lemma mm_sorted_drop:
  assumes "mm_sorted fs" "i < length fs"
  shows "f \<in> set (drop (Suc i) fs) \<Longrightarrow> ends_by (mm_offset f) (fs ! i)"
proof -
  assume "f \<in> set (drop (Suc i) fs)"
  then obtain j where "j < length fs - Suc i" "f = drop (Suc i) fs ! j"
    by (metis in_set_conv_nth length_drop)
  then have "f = fs ! (Suc i + j)" "Suc i + j < length fs" by auto
  with assms show ?thesis by (simp add: mm_sorted_def sorted_wrt_iff_nth_less)
qed

lemma mm_keys_loop_spec:
  assumes "mm_sorted fs" "s \<le> e" "\<forall>f \<in> set (take i fs). ends_by e f"
  shows "\<exists>j. mm_keys_loop fs s e i acc = (acc @ mm_keys_spec (drop i fs) s e, j)
    \<and> (\<forall>f \<in> set (take j fs). ends_by e f)"
  using assms
proof (induction fs s e i acc rule: mm_keys_loop.induct)
  case (1 fs s e i acc)
  let ?f = "fs ! i"
  show ?case
  proof (cases "i < length fs")
    case False
    then show ?thesis using 1 by (subst mm_keys_loop.simps) auto
  next
    case i: True
    have drop: "drop i fs = ?f # drop (Suc i) fs" using i by (simp add: Cons_nth_drop_Suc)
    have take: "take (i + 1) fs = take i fs @ [?f]" using i by (simp add: take_Suc_conv_app_nth)
    have rest: "mm_keys_spec (drop (Suc i) fs) s e = []" if "e \<le> mm_offset ?f + mm_length ?f"
    proof (rule mm_keys_spec_none)
      fix g assume "g \<in> set (drop (Suc i) fs)"
      then show "\<not> meets s e g" using mm_sorted_drop [OF 1(3) i, of g] that by (simp add: meets_def)
    qed
    consider (before) "e \<le> mm_offset ?f"
      | (passed) "mm_offset ?f < e" "ends_by s ?f"
      | (ends) "mm_offset ?f < e" "\<not> ends_by s ?f" "ends_by e ?f"
      | (inside) "mm_offset ?f < e" "\<not> ends_by s ?f" "\<not> ends_by e ?f"
      by linarith
    then show ?thesis
    proof cases
      case before
      then show ?thesis using i 1(5) rest drop
        by (subst mm_keys_loop.simps) (auto simp: Let_def meets_def)
    next
      case passed
      then have "\<forall>f \<in> set (take (i + 1) fs). ends_by e f" using 1(4,5) take by auto
      with 1(1) [OF i refl refl refl passed 1(3,4)] i passed drop show ?thesis
        by (subst mm_keys_loop.simps) (auto simp: Let_def meets_def)
    next
      case ends
      then have "\<forall>f \<in> set (take (i + 1) fs). ends_by e f" using 1(5) take by auto
      with 1(2) [OF i refl refl refl ends(1) _ refl ends(3) 1(3,4)] i ends drop show ?thesis
        by (subst mm_keys_loop.simps) (auto simp: Let_def meets_def)
    next
      case inside
      then show ?thesis using i 1(5) rest drop
        by (subst mm_keys_loop.simps) (auto simp: Let_def meets_def)
    qed
  qed
qed

text \<open>Where the scan may start: every earlier item ends before the block.\<close>

definition mm_pos :: "mm_feature list \<Rightarrow> int \<Rightarrow> nat" where
  "mm_pos fs i = nat (if i < 0 then int (length fs) + i else i)"

definition mm_start_ok :: "mm_feature list \<Rightarrow> int \<Rightarrow> nat \<Rightarrow> bool" where
  "mm_start_ok fs i s \<longleftrightarrow> - 1 \<le> i \<and> (\<forall>f \<in> set (take (mm_pos fs i) fs). ends_by s f)"

lemma gen_mm_extra_hash_keys_spec:
  assumes "mm_sorted (mm_features r)" "mm_start_ok (mm_features r) i s" "s \<le> e"
  shows "\<exists>j. gen_mm_extra_hash_keys r s e i = Inr (mm_keys_spec (mm_features r) s e, j)
    \<and> mm_start_ok (mm_features r) j e"
proof -
  let ?fs = "mm_features r"
  have early: "\<forall>f \<in> set (take (mm_pos ?fs i) ?fs). ends_by e f"
    using assms(2,3) by (fastforce simp: mm_start_ok_def)
  have skip: "mm_keys_spec (take (mm_pos ?fs i) ?fs) s e = []"
    using assms(2) by (intro mm_keys_spec_none) (auto simp: mm_start_ok_def meets_def)
  have "mm_keys_spec ?fs s e =
      mm_keys_spec (take (mm_pos ?fs i) ?fs @ drop (mm_pos ?fs i) ?fs) s e" by simp
  then have split: "mm_keys_spec ?fs s e = mm_keys_spec (drop (mm_pos ?fs i) ?fs) s e"
    using skip by (simp only: mm_keys_spec_simps append_Nil)
  obtain j where j: "mm_keys_loop ?fs s e (mm_pos ?fs i) [] = (mm_keys_spec ?fs s e, j)"
    "\<forall>f \<in> set (take j ?fs). ends_by e f"
    using mm_keys_loop_spec [OF assms(1,3) early, of "[]"] split by auto
  consider (none) "?fs = []" | (past) "?fs \<noteq> []" "ends_by s (last ?fs)"
    | (scan) "?fs \<noteq> []" "\<not> ends_by s (last ?fs)" by blast
  then show ?thesis
  proof cases
    case none
    then show ?thesis using assms(2,3) early by (auto simp: gen_mm_extra_hash_keys_def mm_start_ok_def)
  next
    case past
    have snoc: "?fs = butlast ?fs @ [last ?fs]" using past(1) by simp
    have "\<forall>f \<in> set (butlast ?fs). ends_by (mm_offset (last ?fs)) f"
      using assms(1) unfolding mm_sorted_def by (subst (asm) snoc) (simp add: sorted_wrt_append)
    moreover have "set ?fs = insert (last ?fs) (set (butlast ?fs))" by (subst snoc) simp
    ultimately have "ends_by s f" if "f \<in> set ?fs" for f using that past(2) by fastforce
    then have "mm_keys_spec ?fs s e = []" by (intro mm_keys_spec_none) (simp add: meets_def not_less)
    then show ?thesis using past assms(2) early
      by (auto simp: gen_mm_extra_hash_keys_def mm_start_ok_def Let_def)
  next
    case scan
    have "- i \<le> int (length ?fs)" if "i < 0"
    proof -
      have "i = -1" using that assms(2) by (simp add: mm_start_ok_def)
      then show ?thesis using scan(1) by (cases ?fs) auto
    qed
    with scan j(1) have "gen_mm_extra_hash_keys r s e i = Inr (mm_keys_spec ?fs s e, int j)"
      by (cases "i < 0") (simp_all add: gen_mm_extra_hash_keys_def mm_pos_def)
    then show ?thesis using j(2) by (auto simp: mm_start_ok_def mm_pos_def)
  qed
qed

section \<open>The reference hash chain\<close>

text \<open>What the chain should be: every full block hashed with all its keys after its predecessor.\<close>

definition embeds_keys_spec :: "hash_env \<Rightarrow> request \<Rightarrow> nat \<Rightarrow> nat \<Rightarrow> extra_key list" where
  "embeds_keys_spec E r s e =
     (case prompt_embeds r of
        None \<Rightarrow> [] | Some rows \<Rightarrow> [BytesKey (sha256 E (concat (py_slice s e rows)))])"

definition extra_keys_spec :: "hash_env \<Rightarrow> request \<Rightarrow> nat \<Rightarrow> nat \<Rightarrow> extra_key list option" where
  "extra_keys_spec E r s e =
     (let ks = gen_lora_extra_hash_keys r @ mm_keys_spec (mm_features r) s e
               @ cache_salt_keys r s @ embeds_keys_spec E r s e
      in if ks = [] then None else Some ks)"

definition block_tokens :: "nat \<Rightarrow> request \<Rightarrow> nat \<Rightarrow> int list" where
  "block_tokens bs r i = py_slice (i * bs) (i * bs + bs) (all_token_ids r)"

definition block_keys :: "hash_env \<Rightarrow> nat \<Rightarrow> request \<Rightarrow> nat \<Rightarrow> extra_key list option" where
  "block_keys E bs r i = extra_keys_spec E r (i * bs) (i * bs + bs)"

primrec hash_chain :: "hash_env \<Rightarrow> nat \<Rightarrow> request \<Rightarrow> nat \<Rightarrow> bytes list" where
  "hash_chain E bs r 0 = []"
| "hash_chain E bs r (Suc k) =
     (let hs = hash_chain E bs r k
      in hs @ [hash_block_tokens E (if hs = [] then None else Some (last hs))
                 (block_tokens bs r k) (block_keys E bs r k)])"

definition hashes_ok :: "hash_env \<Rightarrow> nat \<Rightarrow> request \<Rightarrow> bool" where
  "hashes_ok E bs r \<longleftrightarrow> block_hashes r = hash_chain E bs r (num_tokens r div bs)"

definition memo_ok :: "hash_env \<Rightarrow> request \<Rightarrow> bool" where
  "memo_ok E r \<longleftrightarrow>
     (\<forall>s e h. map_of (prompt_embeds_per_block_hashes r) (s, e) = Some h \<longrightarrow>
        (\<exists>rows. prompt_embeds r = Some rows \<and> h = sha256 E (concat (py_slice s e rows))))"

lemma length_hash_chain [simp]: "length (hash_chain E bs r k) = k"
  by (induction k) (simp_all add: Let_def)

lemma hash_chain_take: "j \<le> k \<Longrightarrow> take j (hash_chain E bs r k) = hash_chain E bs r j"
proof (induction k)
  case 0
  then show ?case by simp
next
  case (Suc k)
  then show ?case by (cases "j = Suc k") (simp_all add: Let_def)
qed

lemma hash_chain_cong:
  assumes "\<And>i. i < k \<Longrightarrow> block_tokens bs r i = block_tokens bs r' i"
    and "\<And>i. i < k \<Longrightarrow> block_keys E bs r i = block_keys E bs r' i"
  shows "hash_chain E bs r k = hash_chain E bs r' k"
  using assms by (induction k) (simp_all add: Let_def)

text \<open>The chain depends on the content of the prompt only, not on the request's other state.\<close>

lemma block_keys_cong:
  assumes "mm_features r' = mm_features r" "lora_request r' = lora_request r"
    "cache_salt r' = cache_salt r" "prompt_embeds r' = prompt_embeds r"
  shows "block_keys E bs r' i = block_keys E bs r i"
  by (simp add: assms block_keys_def extra_keys_spec_def embeds_keys_spec_def
      gen_lora_extra_hash_keys_def cache_salt_keys_def)

lemma hash_chain_content:
  assumes "all_token_ids r' = all_token_ids r" "mm_features r' = mm_features r"
    "lora_request r' = lora_request r" "cache_salt r' = cache_salt r" "prompt_embeds r' = prompt_embeds r"
  shows "hash_chain E bs r' k = hash_chain E bs r k"
  using block_keys_cong [OF assms(2-5)]
  by (intro hash_chain_cong) (simp_all add: assms(1) block_tokens_def)

abbreviation with_memo :: "request \<Rightarrow> (nat \<times> nat, bytes) odict \<Rightarrow> request" where
  "with_memo r m \<equiv> r\<lparr>prompt_embeds_per_block_hashes := m\<rparr>"

lemma with_memo_hashing [simp]:
  "hash_chain E bs (with_memo r m) k = hash_chain E bs r k"
  "hash_chain E bs (r\<lparr>block_hashes := hs\<rparr>) k = hash_chain E bs r k"
  "block_tokens bs (with_memo r m) i = block_tokens bs r i"
  "block_keys E bs (with_memo r m) i = block_keys E bs r i"
  "num_tokens (with_memo r m) = num_tokens r"
  by (rule hash_chain_content; simp) (rule hash_chain_content; simp | rule block_keys_cong; simp
    | simp add: block_tokens_def num_tokens_def)+

lemma embeds_keys_memo:
  assumes "memo_ok E r"
  shows "\<exists>m. gen_prompt_embeds_extra_hash_keys E r s e = (embeds_keys_spec E r s e, with_memo r m)
    \<and> memo_ok E (with_memo r m)"
proof (cases "prompt_embeds r")
  case None
  then show ?thesis using assms
    by (auto simp: gen_prompt_embeds_extra_hash_keys_def embeds_keys_spec_def
        intro: exI [of _ "prompt_embeds_per_block_hashes r"])
next
  case (Some rows)
  show ?thesis
  proof (cases "map_of (prompt_embeds_per_block_hashes r) (s, e)")
    case None
    with Some assms show ?thesis
      by (intro exI [of _ "AList.update (s, e) (sha256 E (concat (py_slice s e rows)))
            (prompt_embeds_per_block_hashes r)"])
        (simp add: gen_prompt_embeds_extra_hash_keys_def embeds_keys_spec_def memo_ok_def Let_def)
  next
    case (Some h)
    with \<open>prompt_embeds r = Some rows\<close> assms show ?thesis
      by (intro exI [of _ "prompt_embeds_per_block_hashes r"])
        (auto simp: gen_prompt_embeds_extra_hash_keys_def embeds_keys_spec_def memo_ok_def)
  qed
qed

lemma generate_block_hash_extra_keys_spec:
  assumes "mm_sorted (mm_features r)" "mm_start_ok (mm_features r) i s" "s \<le> e" "memo_ok E r"
  shows "\<exists>j m. generate_block_hash_extra_keys E r s e i = Inr (extra_keys_spec E r s e, j, with_memo r m)
    \<and> mm_start_ok (mm_features r) j e \<and> memo_ok E (with_memo r m)"
  using gen_mm_extra_hash_keys_spec [OF assms(1-3)] embeds_keys_memo [OF assms(4), of s e]
  by (elim exE conjE)
    (simp add: generate_block_hash_extra_keys_def extra_keys_spec_def Let_def exI)

lemma hasher_loop_chain:
  assumes "bs > 0" "k \<le> n div bs" "mm_sorted (mm_features r)"
    "mm_start_ok (mm_features r) mm (k * bs)" "memo_ok E r"
  shows "\<exists>m. hasher_loop E bs n r (k * bs) mm
        (if k = 0 then None else Some (last (hash_chain E bs r k))) acc
      = Inr (acc @ drop k (hash_chain E bs r (n div bs)), with_memo r m)
    \<and> memo_ok E (with_memo r m)"
  using assms(2-)
proof (induction "n div bs - k" arbitrary: k mm r acc)
  case 0
  then have "k = n div bs" by simp
  then have "k * bs + bs > n" using dividend_less_div_times [OF assms(1), of n] by (simp add: add.commute)
  then have "hasher_loop E bs n r (k * bs) mm prev acc = Inr (acc, r)" for prev
    by (subst hasher_loop.simps) simp
  with 0(5) \<open>k = n div bs\<close> show ?case
    by (intro exI [of _ "prompt_embeds_per_block_hashes r"]) simp
next
  case (Suc d)
  then have k: "k < n div bs" by simp
  then have fits: "\<not> k * bs + bs > n"
    using less_eq_div_iff_mult_less_eq [OF assms(1), of "Suc k" n] by simp
  obtain j m where g: "generate_block_hash_extra_keys E r (k * bs) (k * bs + bs) mm
      = Inr (block_keys E bs r k, j, with_memo r m)"
    "mm_start_ok (mm_features r) j (Suc k * bs)" "memo_ok E (with_memo r m)"
    using generate_block_hash_extra_keys_spec [OF Suc.prems(2,3) _ Suc.prems(4), of "k * bs + bs"]
    by (auto simp: block_keys_def add.commute)
  let ?h = "last (hash_chain E bs r (Suc k))"
  have nth: "hash_chain E bs r (n div bs) ! k = ?h"
  proof -
    have "take (Suc k) (hash_chain E bs r (n div bs)) = hash_chain E bs r (Suc k)"
      using k by (intro hash_chain_take) simp
    then have "hash_chain E bs r (n div bs) ! k = hash_chain E bs r (Suc k) ! k"
      by (metis lessI nth_take)
    also have "\<dots> = ?h" by (simp add: Let_def nth_append)
    finally show ?thesis .
  qed
  have drop: "drop k (hash_chain E bs r (n div bs)) = ?h # drop (Suc k) (hash_chain E bs r (n div bs))"
    using k nth by (metis Cons_nth_drop_Suc length_hash_chain)
  have hd: "hash_block_tokens E (if k = 0 then None else Some (last (hash_chain E bs r k)))
      (py_slice (k * bs) (k * bs + bs) (all_token_ids r)) (block_keys E bs r k) = ?h"
    by (cases k) (simp_all add: Let_def block_tokens_def)
  have "d = n div bs - Suc k" "Suc k \<le> n div bs" using Suc.hyps(2) k by auto
  from Suc.hyps(1) [OF this, of "with_memo r m" j "acc @ [?h]"] Suc.prems g(2,3)
  obtain m' where IH: "hasher_loop E bs n (with_memo r m) (Suc k * bs) j (Some ?h) (acc @ [?h])
      = Inr ((acc @ [?h]) @ drop (Suc k) (hash_chain E bs r (n div bs)), with_memo r m')"
    "memo_ok E (with_memo r m')"
    unfolding with_memo_hashing by auto
  have "hasher_loop E bs n r (k * bs) mm
      (if k = 0 then None else Some (last (hash_chain E bs r k))) acc
    = hasher_loop E bs n (with_memo r m) (Suc k * bs) j (Some ?h) (acc @ [?h])"
    using assms(1) fits g(1) hd
    by (subst hasher_loop.simps) (simp add: Let_def add.commute)
  then show ?case using IH drop by (intro exI [of _ m']) (simp only: append_assoc append.simps simp_thms)
qed

section \<open>Incremental hashing extends the chain\<close>

text \<open>
  The incremental scan restarts at the last multi-modal item, so every other item must lie in the
  blocks that are already hashed.
\<close>

definition mm_resume_ok :: "nat \<Rightarrow> request \<Rightarrow> bool" where
  "mm_resume_ok p r \<longleftrightarrow> p = 0 \<or> (\<forall>f \<in> set (butlast (mm_features r)). ends_by p f)"

lemma request_block_hasher_chain:
  assumes "bs > 0" "mm_sorted (mm_features r)" "memo_ok E r"
    and hs: "block_hashes r = hash_chain E bs r k" and k: "k \<le> num_tokens r div bs"
    and res: "mm_resume_ok (k * bs) r"
  shows "\<exists>m. request_block_hasher E bs r
      = Inr (drop k (hash_chain E bs r (num_tokens r div bs)), with_memo r m) \<and> memo_ok E (with_memo r m)"
proof (cases "k * bs + bs > num_tokens r")
  case True
  then have "num_tokens r < Suc k * bs" by (simp add: add.commute)
  then have "num_tokens r div bs < Suc k" by (simp add: less_mult_imp_div_less)
  with k have "k = num_tokens r div bs" by simp
  with True hs assms(3) show ?thesis
    by (intro exI [of _ "prompt_embeds_per_block_hashes r"]) (simp add: request_block_hasher_def)
next
  case False
  let ?mm = "if k * bs > 0 then - 1 else 0 :: int"
  have "take (nat (int (length (mm_features r)) - 1)) (mm_features r) = butlast (mm_features r)"
    by (simp add: butlast_conv_take nat_diff_distrib')
  then have "mm_start_ok (mm_features r) ?mm (k * bs)"
    using res by (auto simp: mm_start_ok_def mm_resume_ok_def mm_pos_def)
  moreover have "hash_chain E bs r k = [] \<longleftrightarrow> k = 0" by (metis length_0_conv length_hash_chain)
  moreover note hasher_loop_chain [OF assms(1) k assms(2) calculation(1) assms(3), of "[]"]
  ultimately show ?thesis using False hs assms(1)
    by (cases "k = 0") (simp_all add: request_block_hasher_def Let_def)
qed

lemma update_block_hashes_chain:
  assumes "bs > 0" "mm_sorted (mm_features r)" "memo_ok E r"
    and "block_hashes r = hash_chain E bs r k" "k \<le> num_tokens r div bs" "mm_resume_ok (k * bs) r"
  shows "\<exists>m. update_block_hashes (Some (request_block_hasher E bs)) r
      = Inr (with_memo (r\<lparr>block_hashes := hash_chain E bs r (num_tokens r div bs)\<rparr>) m)
    \<and> memo_ok E (with_memo r m)"
proof -
  have "hash_chain E bs r k @ drop k (hash_chain E bs r (num_tokens r div bs))
      = hash_chain E bs r (num_tokens r div bs)"
    using hash_chain_take [OF assms(5), of E] by (metis append_take_drop_id)
  moreover obtain m where "request_block_hasher E bs r =
      Inr (drop k (hash_chain E bs r (num_tokens r div bs)), with_memo r m)" "memo_ok E (with_memo r m)"
    using request_block_hasher_chain [OF assms] by blast
  ultimately show ?thesis using assms(4)
    by (intro exI [of _ m]) (simp add: update_block_hashes_def)
qed

text \<open>Appending tokens leaves the full blocks as they were.\<close>

lemma py_slice_append: "b \<le> length xs \<Longrightarrow> py_slice a b (xs @ ys) = py_slice a b xs"
  by (simp add: py_slice_def)

lemma hash_chain_append:
  assumes "k \<le> num_tokens r div bs"
  shows "hash_chain E bs (r\<lparr>output_token_ids := os, all_token_ids := all_token_ids r @ ts\<rparr>) k
    = hash_chain E bs r k"
proof (rule hash_chain_cong)
  fix i assume "i < k"
  then have "Suc i * bs \<le> num_tokens r div bs * bs" using assms by (intro mult_le_mono1) simp
  also have "\<dots> \<le> num_tokens r" by simp
  finally show "block_tokens bs (r\<lparr>output_token_ids := os, all_token_ids := all_token_ids r @ ts\<rparr>) i
      = block_tokens bs r i"
    by (simp add: block_tokens_def num_tokens_def py_slice_append add.commute)
qed (simp add: block_keys_def extra_keys_spec_def embeds_keys_spec_def gen_lora_extra_hash_keys_def
    cache_salt_keys_def)

section \<open>What equal hashes imply\<close>

definition chain_parent :: "hash_env \<Rightarrow> nat \<Rightarrow> request \<Rightarrow> nat \<Rightarrow> bytes" where
  "chain_parent E bs r i =
     (if i = 0 then NONE_HASH E
      else let p = hash_chain E bs r i ! (i - 1) in if p = [] then NONE_HASH E else p)"

definition hash_input :: "hash_env \<Rightarrow> nat \<Rightarrow> request \<Rightarrow> nat \<Rightarrow> bytes \<times> int list \<times> extra_key list option" where
  "hash_input E bs r i = (chain_parent E bs r i, block_tokens bs r i, block_keys E bs r i)"

lemma hash_chain_nth:
  assumes "i < k"
  shows "hash_chain E bs r k ! i = caching_hash_fn E (hash_input E bs r i)"
proof -
  have "hash_chain E bs r k ! i = hash_chain E bs r (Suc i) ! i"
    using hash_chain_take [of "Suc i" k E bs r] assms by (metis Suc_leI lessI nth_take)
  also have "\<dots> = caching_hash_fn E (hash_input E bs r i)"
  proof (cases i)
    case 0
    then show ?thesis
      by (simp add: Let_def nth_append hash_input_def chain_parent_def hash_block_tokens_def)
  next
    case (Suc j)
    have ne: "hash_chain E bs r (Suc j) \<noteq> []" using length_hash_chain [of E bs r "Suc j"] by auto
    then have "last (hash_chain E bs r (Suc j)) = hash_chain E bs r (Suc j) ! j"
      by (simp add: last_conv_nth del: hash_chain.simps)
    then show ?thesis unfolding Suc using ne
      by (subst hash_chain.simps(2))
        (simp add: Let_def nth_append hash_input_def chain_parent_def hash_block_tokens_def
          del: hash_chain.simps)
  qed
  finally show ?thesis .
qed

lemma chain_parent_Suc:
  "chain_parent E bs r (Suc i) =
    (let p = caching_hash_fn E (hash_input E bs r i) in if p = [] then NONE_HASH E else p)"
  using hash_chain_nth [of i "Suc i"] by (simp add: chain_parent_def del: hash_chain.simps)

text \<open>No two of the inputs hashed for two requests collide, and none hashes to the seed.\<close>

definition collision_free :: "hash_env \<Rightarrow> (bytes \<times> int list \<times> extra_key list option) set \<Rightarrow> bool" where
  "collision_free E I \<longleftrightarrow> inj_on (caching_hash_fn E) I
     \<and> (\<forall>x \<in> I. caching_hash_fn E x \<noteq> [] \<and> caching_hash_fn E x \<noteq> NONE_HASH E)"

lemma collision_free_subset: "collision_free E I \<Longrightarrow> J \<subseteq> I \<Longrightarrow> collision_free E J"
  unfolding collision_free_def by (meson inj_on_subset subsetD)

lemma equal_hash_equal_prefix:
  assumes "collision_free E (hash_input E bs r ` {..i} \<union> hash_input E bs' r' ` {..j})"
    and "caching_hash_fn E (hash_input E bs r i) = caching_hash_fn E (hash_input E bs' r' j)"
  shows "i = j \<and> (\<forall>l \<le> i. block_tokens bs r l = block_tokens bs' r' l
    \<and> block_keys E bs r l = block_keys E bs' r' l)"
  using assms
proof (induction i arbitrary: j)
  case 0
  then have eq: "hash_input E bs r 0 = hash_input E bs' r' j"
    unfolding collision_free_def by (elim conjE inj_onD) auto
  have "j = 0"
  proof (rule ccontr)
    assume "j \<noteq> 0"
    then obtain j' where j: "j = Suc j'" by (cases j) auto
    with eq 0(1) show False
      by (auto simp: hash_input_def chain_parent_Suc chain_parent_def [of _ _ _ 0] collision_free_def Let_def)
  qed
  with eq show ?case by (simp add: hash_input_def)
next
  case (Suc i)
  then have eq: "hash_input E bs r (Suc i) = hash_input E bs' r' j"
    unfolding collision_free_def by (elim conjE inj_onD) auto
  have ok: "caching_hash_fn E (hash_input E bs r i) \<notin> {[], NONE_HASH E}"
    using Suc.prems(1) by (auto simp: collision_free_def)
  have "chain_parent E bs r (Suc i) \<noteq> NONE_HASH E" using ok by (simp add: chain_parent_Suc Let_def)
  moreover have "chain_parent E bs' r' 0 = NONE_HASH E" by (simp add: chain_parent_def)
  ultimately have "j \<noteq> 0" using eq by (metis hash_input_def prod.inject)
  then obtain j' where j: "j = Suc j'" by (cases j) auto
  have "caching_hash_fn E (hash_input E bs' r' j') \<notin> {[], NONE_HASH E}"
    using Suc.prems(1) j by (auto simp: collision_free_def)
  moreover have "chain_parent E bs r (Suc i) = chain_parent E bs' r' (Suc j')"
    using eq j by (simp add: hash_input_def)
  ultimately have "caching_hash_fn E (hash_input E bs r i) = caching_hash_fn E (hash_input E bs' r' j')"
    using ok unfolding chain_parent_Suc Let_def by simp
  moreover have "collision_free E (hash_input E bs r ` {..i} \<union> hash_input E bs' r' ` {..j'})"
  proof (rule collision_free_subset [OF Suc.prems(1)])
    show "hash_input E bs r ` {..i} \<union> hash_input E bs' r' ` {..j'}
      \<subseteq> hash_input E bs r ` {..Suc i} \<union> hash_input E bs' r' ` {..j}"
      unfolding j by (intro Un_mono image_mono) auto
  qed
  ultimately have "i = j' \<and> (\<forall>l \<le> i. block_tokens bs r l = block_tokens bs' r' l
    \<and> block_keys E bs r l = block_keys E bs' r' l)" by (intro Suc.IH)
  with eq j show ?case by (auto simp: hash_input_def le_Suc_eq)
qed

section \<open>Coarser blocks\<close>

lemma merge_loop:
  "j \<le> length hs \<Longrightarrow>
   fold_res (\<lambda>i merged. res_bind (index_res hs i) (\<lambda>h. Inr (merged @ h))) [i..<j] acc
     = Inr (acc @ concat (py_slice i j hs))"
proof (induction "j - i" arbitrary: i acc)
  case 0
  then show ?case by (simp add: py_slice_def)
next
  case (Suc d)
  then have "i < j" by simp
  then have "[i..<j] = i # [Suc i..<j]" by (simp add: upt_conv_Cons)
  moreover have "py_slice i j hs = hs ! i # py_slice (Suc i) j hs"
    using \<open>i < j\<close> Suc.prems by (simp add: py_slice_def Cons_nth_drop_Suc [symmetric] take_Cons')
  ultimately show ?case using Suc.hyps(1) [of "Suc i" "acc @ hs ! i"] Suc.hyps(2) Suc.prems \<open>i < j\<close>
    by simp
qed

lemma get_value_at_concat:
  assumes "scale_factor b > 0" "(idx + 1) * scale_factor b \<le> length (bhl_block_hashes b)"
  shows "get_value_at b idx =
    Inr (concat (py_slice (idx * scale_factor b) ((idx + 1) * scale_factor b) (bhl_block_hashes b)))"
proof -
  let ?hs = "bhl_block_hashes b" and ?i = "idx * scale_factor b" and ?j = "(idx + 1) * scale_factor b"
  have lt: "?i < ?j" "?i < length ?hs" using assms by auto
  then have "py_slice ?i ?j ?hs = ?hs ! ?i # py_slice (?i + 1) ?j ?hs"
    by (simp add: py_slice_def Cons_nth_drop_Suc [symmetric] take_Cons')
  with merge_loop [OF assms(2), of "?i + 1" "?hs ! ?i"] lt show ?thesis
    by (simp add: get_value_at_def Let_def add.commute)
qed

lemma bhl_from_values:
  assumes "scale_factor b > 0"
  shows "bhl_from b start = Inr (map (\<lambda>i. concat (py_slice (i * scale_factor b)
    ((i + 1) * scale_factor b) (bhl_block_hashes b))) [start..<bhl_len b])"
proof -
  define f where "f = (\<lambda>i. concat (py_slice (i * scale_factor b)
    ((i + 1) * scale_factor b) (bhl_block_hashes b)))"
  have val: "get_value_at b i = Inr (f i)" if "i < bhl_len b" for i
  proof -
    have "(i + 1) * scale_factor b \<le> bhl_len b * scale_factor b" using that by (intro mult_le_mono1) simp
    also have "\<dots> \<le> length (bhl_block_hashes b)" by (simp add: bhl_len_def)
    finally show ?thesis using get_value_at_concat [OF assms, of i] by (simp add: f_def)
  qed
  have "fold_res (\<lambda>i acc. res_bind (get_value_at b i) (\<lambda>v. Inr (acc @ [v]))) xs acc
      = Inr (acc @ map f xs)" if "set xs \<subseteq> {..<bhl_len b}" for xs acc
    using that by (induction xs arbitrary: acc) (simp_all add: val)
  moreover have "set [start..<bhl_len b] \<subseteq> {..<bhl_len b}" by auto
  ultimately show ?thesis unfolding bhl_from_def f_def [symmetric] by (metis append_Nil)
qed

text \<open>Digests have a fixed length, so a merged hash determines the hashes it was made of.\<close>

lemma merged_hash_inj:
  assumes "\<forall>h \<in> set xs \<union> set ys. length h = n" "length xs = length ys" "concat xs = concat ys"
  shows "xs = ys"
proof (rule concat_injective [OF assms(3,2)])
  show "\<forall>(x, y) \<in> set (zip xs ys). length x = length y"
  proof clarify
    fix a b assume "(a, b) \<in> set (zip xs ys)"
    from set_zip_leftD [OF this] set_zip_rightD [OF this] assms(1) show "length a = length b" by simp
  qed
qed

end
