(* ===== verification/Request.thy ===== *)
theory Request
  imports Block_Hash "HOL-Library.Char_ord" "HOL-Library.List_Lexorder" "HOL-Library.Sublist"
begin

text \<open>
  The operations of \<^verbatim>\<open>Request\<close> (src/vllm/vllm/v1/request.py): construction, appending of sampled
  tokens with the update of the block hashes, the priority order and the finish reasons. The clock
  reading for a request without arrival time is a parameter; engine events, trace headers, NaN
  counters, prefill statistics and connector parameters are carried by the source but decide
  nothing here and are left out.
\<close>

section \<open>Construction\<close>

record request_args =
  arg_request_id :: string
  arg_prompt_token_ids :: "int list option"
  arg_sampling_params :: "sampling_params_data option"
  arg_pooling_params :: "pooling_params_data option"
  arg_client_index :: int
  arg_arrival_time :: "rat option"
  arg_prompt_embeds :: "bytes list option"
  arg_mm_features :: "mm_feature list option"
  arg_lora_request :: "lora_request_data option"
  arg_cache_salt :: "string option"
  arg_priority :: int
  arg_resumable :: bool

definition length_from_prompt_token_ids_or_embeds ::
  "int list option \<Rightarrow> bytes list option \<Rightarrow> nat res" where
  "length_from_prompt_token_ids_or_embeds toks embeds =
     (case toks of
        None \<Rightarrow> (case embeds of None \<Rightarrow> Inl ValueError | Some e \<Rightarrow> Inr (length e))
      | Some t \<Rightarrow>
          (case embeds of
             None \<Rightarrow> Inr (length t)
           | Some e \<Rightarrow> guard (length e = length t) ValueError (Inr (length t))))"

definition get_skip_reading_prefix_cache ::
  "sampling_params_data option \<Rightarrow> pooling_params_data option \<Rightarrow> bool" where
  "get_skip_reading_prefix_cache sp pp =
     (case sp of
        Some s \<Rightarrow>
          (case sp_skip_reading_prefix_cache s of
             Some b \<Rightarrow> b
           | None \<Rightarrow> (case pp of Some p \<Rightarrow> pp_skip_reading_prefix_cache p = Some True | None \<Rightarrow> False))
      | None \<Rightarrow> (case pp of Some p \<Rightarrow> pp_skip_reading_prefix_cache p = Some True | None \<Rightarrow> False))"

definition uses_structured_output :: "sampling_params_data option \<Rightarrow> bool" where
  "uses_structured_output sp = (case sp of None \<Rightarrow> False | Some s \<Rightarrow> has_structured_outputs s)"

definition init_limits ::
  "sampling_params_data option \<Rightarrow> pooling_params_data option \<Rightarrow> (int \<times> request_status) res" where
  "init_limits sp pp =
     (if pp \<noteq> None then Inr (1, WAITING)
      else case sp of
        None \<Rightarrow> Inl ValueError
      | Some s \<Rightarrow>
          (case sp_max_tokens s of
             None \<Rightarrow> Inl AssertionError
           | Some m \<Rightarrow> Inr (m, if uses_structured_output sp
                               then WAITING_FOR_STRUCTURED_OUTPUT_GRAMMAR else WAITING)))"

definition request_init ::
  "block_hasher option \<Rightarrow> rat \<Rightarrow> nat \<Rightarrow> request_args \<Rightarrow> request res" where
  "request_init hasher now oid a =
     (let sp = arg_sampling_params a; pp = arg_pooling_params a in
      res_bind (init_limits sp pp) (\<lambda>(mt, st).
      res_bind (length_from_prompt_token_ids_or_embeds (arg_prompt_token_ids a) (arg_prompt_embeds a))
        (\<lambda>n.
      update_block_hashes hasher
        \<lparr>object_id = oid, request_id = arg_request_id a, client_index = arg_client_index a,
         priority = arg_priority a,
         arrival_time = (case arg_arrival_time a of Some t \<Rightarrow> t | None \<Rightarrow> now),
         sampling_params = sp, pooling_params = pp, lora_request = arg_lora_request a,
         structured_output_request = uses_structured_output sp,
         status = st, stop_reason = None, max_tokens = mt,
         prompt_token_ids = arg_prompt_token_ids a, prompt_embeds = arg_prompt_embeds a,
         prompt_embeds_per_block_hashes = [], num_prompt_tokens = n, output_token_ids = [],
         all_token_ids =
           (case arg_prompt_token_ids a of Some t \<Rightarrow> t | None \<Rightarrow> replicate n 0),
         num_output_placeholders = 0, discard_latest_async_tokens = False, spec_token_ids = [],
         num_computed_tokens = 0, cache_salt = arg_cache_salt a,
         mm_features = (case arg_mm_features a of None \<Rightarrow> [] | Some fs \<Rightarrow> fs),
         is_prefill_chunk = False, num_preemptions = 0, block_hashes = [],
         skip_reading_prefix_cache = get_skip_reading_prefix_cache sp pp,
         resumable = arg_resumable a, streaming_queue = None\<rparr>)))"

section \<open>Tokens, order, finish reasons\<close>

definition append_output_token_ids :: "block_hasher option \<Rightarrow> int list \<Rightarrow> request \<Rightarrow> request res" where
  "append_output_token_ids hasher ts r =
     update_block_hashes hasher
       (r\<lparr>output_token_ids := output_token_ids r @ ts, all_token_ids := all_token_ids r @ ts\<rparr>)"

text \<open>\<^verbatim>\<open>Request.__lt__\<close>.\<close>

definition request_lt :: "request \<Rightarrow> request \<Rightarrow> bool" where
  "request_lt r s =
     (if priority r \<noteq> priority s then priority r < priority s
      else if arrival_time r \<noteq> arrival_time s then arrival_time r < arrival_time s
      else if request_id r \<noteq> request_id s then request_id r < request_id s
      else object_id r < object_id s)"

datatype finish_reason = FR_STOP | FR_LENGTH | FR_ABORT | FR_ERROR | FR_REPETITION

fun get_finished_reason :: "request_status \<Rightarrow> finish_reason option" where
  "get_finished_reason FINISHED_STOPPED = Some FR_STOP"
| "get_finished_reason FINISHED_LENGTH_CAPPED = Some FR_LENGTH"
| "get_finished_reason FINISHED_ABORTED = Some FR_ABORT"
| "get_finished_reason FINISHED_IGNORED = Some FR_LENGTH"
| "get_finished_reason FINISHED_ERROR = Some FR_ERROR"
| "get_finished_reason WAITING_FOR_STREAMING_REQ = Some FR_STOP"
| "get_finished_reason FINISHED_REPETITION = Some FR_REPETITION"
| "get_finished_reason _ = None"

definition streaming_update_from_request :: "request \<Rightarrow> streaming_update option" where
  "streaming_update_from_request r =
     (if \<not> resumable r then None
      else Some \<lparr>su_mm_features = mm_features r, su_prompt_token_ids = prompt_token_ids r,
             su_max_tokens = max_tokens r, su_arrival_time = arrival_time r,
             su_sampling_params = sampling_params r\<rparr>)"

section \<open>The request invariant\<close>

text \<open>
  The token lists agree, the embedding hashes in the memo are right, and the block hashes are the
  reference chain over all full blocks.
\<close>

definition request_inv :: "hash_env \<Rightarrow> nat \<Rightarrow> request \<Rightarrow> bool" where
  "request_inv E bs r \<longleftrightarrow>
     num_prompt_tokens r \<le> num_tokens r
     \<and> drop (num_prompt_tokens r) (all_token_ids r) = output_token_ids r
     \<and> mm_sorted (mm_features r) \<and> memo_ok E r \<and> hashes_ok E bs r"

lemma request_init_inv:
  assumes "bs > 0" "mm_sorted (case arg_mm_features a of None \<Rightarrow> [] | Some fs \<Rightarrow> fs)"
    and "request_init (Some (request_block_hasher E bs)) now oid a = Inr r"
  shows "request_inv E bs r \<and> output_token_ids r = [] \<and> num_computed_tokens r = 0"
proof -
  from assms(3) obtain mt st n r0 where
    len: "length_from_prompt_token_ids_or_embeds (arg_prompt_token_ids a) (arg_prompt_embeds a) = Inr n"
    and r0: "update_block_hashes (Some (request_block_hasher E bs)) r0 = Inr r"
      "block_hashes r0 = []" "prompt_embeds_per_block_hashes r0 = []" "output_token_ids r0 = []"
      "num_prompt_tokens r0 = n" "num_computed_tokens r0 = 0"
      "all_token_ids r0 = (case arg_prompt_token_ids a of Some t \<Rightarrow> t | None \<Rightarrow> replicate n 0)"
      "mm_features r0 = (case arg_mm_features a of None \<Rightarrow> [] | Some fs \<Rightarrow> fs)"
    by (auto simp: request_init_def Let_def)
  have n: "length (all_token_ids r0) = n"
    using len r0(7) by (auto simp: length_from_prompt_token_ids_or_embeds_def split: option.splits)
  have "memo_ok E r0" by (simp add: memo_ok_def r0)
  moreover have "mm_sorted (mm_features r0)" using assms(2) r0(8) by simp
  ultimately obtain m where "r = with_memo (r0\<lparr>block_hashes := hash_chain E bs r0 (num_tokens r0 div bs)\<rparr>) m"
    "memo_ok E (with_memo r0 m)"
    using update_block_hashes_chain [OF assms(1), of r0 E 0] r0 by (auto simp: mm_resume_ok_def)
  then show ?thesis using n r0 assms(2)
    by (auto simp: request_inv_def num_tokens_def hashes_ok_def memo_ok_def)
qed

text \<open>Sampled tokens extend both token lists and the chain.\<close>

lemma append_output_token_ids_inv:
  assumes "bs > 0" and inv: "request_inv E bs r"
    and res: "mm_resume_ok (num_tokens r div bs * bs) r"
  shows "\<exists>r'. append_output_token_ids (Some (request_block_hasher E bs)) ts r = Inr r'
    \<and> request_inv E bs r' \<and> output_token_ids r' = output_token_ids r @ ts
    \<and> all_token_ids r' = all_token_ids r @ ts \<and> prefix (block_hashes r) (block_hashes r')"
proof -
  let ?r = "r\<lparr>output_token_ids := output_token_ids r @ ts, all_token_ids := all_token_ids r @ ts\<rparr>"
  let ?k = "num_tokens r div bs" and ?k' = "num_tokens ?r div bs"
  have old: "block_hashes ?r = hash_chain E bs ?r ?k"
    using inv hash_chain_append [of ?k r bs E ts "output_token_ids r @ ts"]
    by (simp add: request_inv_def hashes_ok_def)
  have le: "?k \<le> ?k'" by (intro div_le_mono) (simp add: num_tokens_def)
  have "mm_sorted (mm_features ?r)" "memo_ok E ?r" "mm_resume_ok (?k * bs) ?r"
    using inv res by (simp_all add: request_inv_def memo_ok_def mm_resume_ok_def)
  then obtain m where m: "append_output_token_ids (Some (request_block_hasher E bs)) ts r
      = Inr (with_memo (?r\<lparr>block_hashes := hash_chain E bs ?r ?k'\<rparr>) m)" "memo_ok E (with_memo ?r m)"
    using update_block_hashes_chain [OF assms(1) _ _ old le] by (auto simp: append_output_token_ids_def)
  let ?r' = "with_memo (?r\<lparr>block_hashes := hash_chain E bs ?r ?k'\<rparr>) m"
  have "hash_chain E bs ?r' j = hash_chain E bs ?r j" for j by (rule hash_chain_content) simp_all
  then have "request_inv E bs ?r'"
    using inv m(2) by (auto simp: request_inv_def num_tokens_def hashes_ok_def memo_ok_def)
  moreover have "prefix (block_hashes r) (hash_chain E bs ?r ?k')"
  proof -
    have "block_hashes r = take ?k (hash_chain E bs ?r ?k')" using old hash_chain_take [OF le, of E bs ?r] by simp
    then show ?thesis by (metis take_is_prefix)
  qed
  ultimately show ?thesis using m(1) by auto
qed

section \<open>The priority order\<close>

lemma request_lt_irrefl: "\<not> request_lt r r"
  by (simp add: request_lt_def)

lemma request_lt_trans: "request_lt r s \<Longrightarrow> request_lt s t \<Longrightarrow> request_lt r t"
  by (auto simp: request_lt_def split: if_splits)

lemma request_lt_total: "object_id r \<noteq> object_id s \<Longrightarrow> request_lt r s \<or> request_lt s r"
  by (auto simp: request_lt_def)

lemma request_lt_asym: "request_lt r s \<Longrightarrow> \<not> request_lt s r"
  using request_lt_trans request_lt_irrefl by blast

section \<open>Properties\<close>

text \<open>A small request and hash environment on which the properties are exercised.\<close>

definition example_env :: hash_env where
  "example_env = \<lparr>caching_hash_fn = (\<lambda>(p, ts, ks). 0 # p @ map word_of_int ts
       @ map (\<lambda>k. case k of StrKey s \<Rightarrow> word_of_nat (length s) | MMKey s i \<Rightarrow> of_char (hd s)
                | BytesKey b \<Rightarrow> 3) (case ks of None \<Rightarrow> [] | Some l \<Rightarrow> l)),
     sha256 = (\<lambda>b. take 32 b), NONE_HASH = [7], VLLM_KV_EVENTS_USE_INT_BLOCK_HASHES = False\<rparr>"

definition example_sampling :: sampling_params_data where
  "example_sampling = \<lparr>sp_max_tokens = Some 16, min_tokens = 0, eos_token_id = Some 2,
     stop_token_ids = [], repetition_detection = None, sp_skip_reading_prefix_cache = None,
     has_structured_outputs = False\<rparr>"

definition example_args :: "string \<Rightarrow> int list \<Rightarrow> request_args" where
  "example_args rid toks = \<lparr>arg_request_id = rid, arg_prompt_token_ids = Some toks,
     arg_sampling_params = Some example_sampling, arg_pooling_params = None, arg_client_index = 0,
     arg_arrival_time = Some 0, arg_prompt_embeds = None, arg_mm_features = None,
     arg_lora_request = None, arg_cache_salt = None, arg_priority = 0, arg_resumable = False\<rparr>"

text \<open>Equal block hashes cover equal token prefixes.\<close>

lemma take_blocks:
  assumes "\<forall>l \<le> i. block_tokens bs r l = block_tokens bs r' l"
  shows "take (Suc i * bs) (all_token_ids r) = take (Suc i * bs) (all_token_ids r')"
  using assms
proof (induction i)
  case 0
  then show ?case by (simp add: block_tokens_def)
next
  case (Suc i)
  have split: "take (Suc (Suc i) * bs) xs = take (Suc i * bs) xs @ py_slice (Suc i * bs) (Suc i * bs + bs) xs"
    for xs :: "int list"
    by (simp add: py_slice_def add.commute take_add [symmetric])
  have "block_tokens bs r (Suc i) = block_tokens bs r' (Suc i)" using Suc.prems by blast
  moreover have "take (Suc i * bs) (all_token_ids r) = take (Suc i * bs) (all_token_ids r')"
    using Suc by simp
  ultimately show ?case unfolding split block_tokens_def by (simp only:)
qed

lemma request_inv_block_hash:
  "request_inv E bs r \<Longrightarrow> i < length (block_hashes r) \<Longrightarrow>
   block_hashes r ! i = caching_hash_fn E (hash_input E bs r i)"
  by (simp add: request_inv_def hashes_ok_def hash_chain_nth)

text \<open>
  A request created with the block hasher holds, for any prompt, the reference hash chain over
  all its full blocks.
\<close>

theorem request_init_hashes:
  assumes "bs > 0" "mm_sorted (case arg_mm_features a of None \<Rightarrow> [] | Some fs \<Rightarrow> fs)"
    and "request_init (Some (request_block_hasher E bs)) now oid a = Inr r"
  shows "request_inv E bs r \<and> output_token_ids r = [] \<and> num_computed_tokens r = 0"
  using request_init_inv [OF assms] by blast

lemma request_init_hashes_witness:
  "\<exists>r. request_init (Some (request_block_hasher example_env 2)) 0 1 (example_args ''a'' [5, 6, 7, 8, 9]) = Inr r
     \<and> request_inv example_env 2 r \<and> block_hashes r = [[0, 7, 5, 6], [0, 0, 7, 5, 6, 7, 8]]"
proof -
  let ?i = "request_init (Some (request_block_hasher example_env 2)) 0 1 (example_args ''a'' [5, 6, 7, 8, 9])"
  have "case ?i of Inl e \<Rightarrow> False | Inr r \<Rightarrow> block_hashes r = [[0, 7, 5, 6], [0, 0, 7, 5, 6, 7, 8]]"
    by code_simp
  then obtain r where r: "?i = Inr r" "block_hashes r = [[0, 7, 5, 6], [0, 0, 7, 5, 6, 7, 8]]"
    by (auto split: sum.splits)
  have "request_inv example_env 2 r"
    using request_init_hashes [OF _ _ r(1)] by (simp add: example_args_def mm_sorted_def)
  with r show ?thesis by blast
qed


text \<open>
  C14: Appending sampled tokens extends both token lists and keeps the block hashes equal to the
  reference chain, so hashing is incremental without changing any hash, provided that every
  multi-modal item but the last ends in a block that is hashed already (or nothing is hashed yet).
  This is what the hasher relies on when it resumes at the last item; without it a hash may miss an
  item, see \<open>incremental_hash_misses_item\<close> below.
\<close>

theorem append_output_keeps_chain:
  assumes "bs > 0" "request_inv E bs r" "mm_resume_ok (num_tokens r div bs * bs) r"
  shows "\<exists>r'. append_output_token_ids (Some (request_block_hasher E bs)) ts r = Inr r'
    \<and> request_inv E bs r' \<and> all_token_ids r' = all_token_ids r @ ts
    \<and> block_hashes r' = hash_chain E bs r' (num_tokens r' div bs)
    \<and> prefix (block_hashes r) (block_hashes r')"
  using append_output_token_ids_inv [OF assms] by (auto simp: request_inv_def hashes_ok_def)

definition example_request :: "int list \<Rightarrow> request" where
  "example_request toks =
     (case request_init (Some (request_block_hasher example_env 2)) 0 1 (example_args ''a'' toks) of
        Inr r \<Rightarrow> r | Inl e \<Rightarrow> undefined)"

lemma example_request_inv:
  assumes "case request_init (Some (request_block_hasher example_env 2)) 0 1 (example_args ''a'' toks) of
    Inl e \<Rightarrow> False | Inr r \<Rightarrow> True"
  shows "request_inv example_env 2 (example_request toks)"
proof -
  let ?i = "request_init (Some (request_block_hasher example_env 2)) 0 1 (example_args ''a'' toks)"
  obtain r where "?i = Inr r" using assms by (auto split: sum.splits)
  then show ?thesis using request_init_inv [of 2 "example_args ''a'' toks" example_env 0 1 r]
    by (simp add: example_request_def example_args_def mm_sorted_def)
qed

lemma example_requests_inv:
  "request_inv example_env 2 (example_request [5, 6, 7])"
  "request_inv example_env 2 (example_request [5, 6, 1, 1])"
  by (rule example_request_inv, code_simp)+

text \<open>A request with an image in its first block and another one in its last, partial block.\<close>

definition image_args :: request_args where
  "image_args = (example_args ''a'' [1, 8, 8, 2, 9, 9])\<lparr>arg_mm_features :=
     Some [\<lparr>mm_identifier = ''x'', mm_offset = 1, mm_length = 2, is_embed = None\<rparr>,
           \<lparr>mm_identifier = ''y'', mm_offset = 4, mm_length = 2, is_embed = None\<rparr>]\<rparr>"

definition image_request :: request where
  "image_request =
     (case request_init (Some (request_block_hasher example_env 4)) 0 1 image_args of Inr r \<Rightarrow> r | Inl e \<Rightarrow> undefined)"

lemma append_output_keeps_chain_witness:
  "\<exists>r'. append_output_token_ids (Some (request_block_hasher example_env 4)) [5, 6] image_request = Inr r'
    \<and> request_inv example_env 4 r' \<and> length (block_hashes image_request) = 1 \<and> length (block_hashes r') = 2
    \<and> block_keys example_env 4 r' 1 = Some [MMKey ''y'' 0] \<and> prefix (block_hashes image_request) (block_hashes r')"
proof -
  let ?i = "request_init (Some (request_block_hasher example_env 4)) 0 1 image_args"
  have "case ?i of Inl e \<Rightarrow> False | Inr r \<Rightarrow> True" by code_simp
  then have "?i = Inr image_request" by (auto simp: image_request_def split: sum.splits)
  then have inv: "request_inv example_env 4 image_request"
    using request_init_inv [of 4 image_args example_env 0 1 image_request]
    by (simp add: image_args_def example_args_def mm_sorted_def)
  have res: "mm_resume_ok (num_tokens image_request div 4 * 4) image_request" by code_simp
  have run: "case append_output_token_ids (Some (request_block_hasher example_env 4)) [5, 6] image_request of
      Inl e \<Rightarrow> False
    | Inr r' \<Rightarrow> length (block_hashes image_request) = 1 \<and> length (block_hashes r') = 2
        \<and> block_keys example_env 4 r' 1 = Some [MMKey ''y'' 0]" by code_simp
  from append_output_keeps_chain [OF _ inv res, of "[5, 6]"] show ?thesis using run by auto
qed



section \<open>Two collisions of the key construction\<close>

text \<open>
  The incremental hasher starts its scan at the last multi-modal item. When the prompt's last,
  partial block holds two items, the block completed by sampled tokens is hashed without the first
  of them: requests that differ in that item get the same hash, although hashing the same tokens
  from scratch tells them apart.
\<close>

definition two_items_args :: "string \<Rightarrow> int list \<Rightarrow> request_args" where
  "two_items_args ident toks = (example_args ''a'' toks)\<lparr>arg_mm_features :=
     Some [\<lparr>mm_identifier = ident, mm_offset = 4, mm_length = 1, is_embed = None\<rparr>,
           \<lparr>mm_identifier = ''b'', mm_offset = 5, mm_length = 1, is_embed = None\<rparr>]\<rparr>"

definition hashes_after :: "string \<Rightarrow> int list \<Rightarrow> int list \<Rightarrow> bytes list res" where
  "hashes_after ident prompt out =
     res_bind (request_init (Some (request_block_hasher example_env 4)) 0 1 (two_items_args ident prompt))
       (\<lambda>r. res_bind (append_output_token_ids (Some (request_block_hasher example_env 4)) out r)
          (\<lambda>r'. Inr (block_hashes r')))"

lemma incremental_hash_misses_item:
  "hashes_after ''x'' [1, 2, 3, 4, 9, 9] [5, 6] = hashes_after ''y'' [1, 2, 3, 4, 9, 9] [5, 6]
   \<and> hashes_after ''x'' [1, 2, 3, 4, 9, 9, 5, 6] [] \<noteq> hashes_after ''y'' [1, 2, 3, 4, 9, 9, 5, 6] []"
  by code_simp

text \<open>
  A LoRA name and a cache salt are both plain strings in the key tuple: a request of the adapter
  named \<open>n\<close> and a base-model request salted with \<open>n\<close> get the same keys for their first block.
\<close>

lemma lora_name_and_salt_collide:
  assumes "lora_request r = Some l" "cache_salt r = None" "lora_request r' = None"
    "cache_salt r' = Some (lora_name l)" "lora_name l \<noteq> []"
    "mm_features r = []" "mm_features r' = []" "prompt_embeds r = None" "prompt_embeds r' = None"
  shows "extra_keys_spec E r 0 e = extra_keys_spec E r' 0 e"
  using assms by (simp add: extra_keys_spec_def gen_lora_extra_hash_keys_def cache_salt_keys_def
      embeds_keys_spec_def)

end
