(* ===== verification/KV_Metrics.thy ===== *)
theory KV_Metrics
  imports Prelude Complex_Main
begin

text \<open>
  src/vllm/vllm/v1/core/kv_cache_metrics.py: sampled residency metrics of KV cache blocks. The
  monotonic clock and the random source are part of the collector's state as the sequences of
  their readings, consumed in the order in which the code reads them.
\<close>

record block_metrics_state =
  birth_time_ns :: int
  last_access_ns :: int
  access_history :: "int list"

record kv_cache_eviction_event =
  lifetime_seconds :: rat
  idle_seconds :: rat
  reuse_gaps_seconds :: "rat list"

record metrics =
  sample_rate :: rat
  block_metrics :: "(int, block_metrics_state) odict"
  eviction_events :: "kv_cache_eviction_event list"
  clock :: "nat \<Rightarrow> int"
  clock_reads :: nat
  rng :: "nat \<Rightarrow> rat"
  rng_draws :: nat

definition monotonic_ns :: "metrics \<Rightarrow> int \<times> metrics" where
  "monotonic_ns m = (clock m (clock_reads m), m\<lparr>clock_reads := clock_reads m + 1\<rparr>)"

definition metrics_init :: "rat \<Rightarrow> (nat \<Rightarrow> int) \<Rightarrow> (nat \<Rightarrow> rat) \<Rightarrow> metrics res" where
  "metrics_init rate clk rand =
     guard (0 < rate \<and> rate \<le> 1) AssertionError
       (Inr \<lparr>sample_rate = rate, block_metrics = [], eviction_events = [], clock = clk,
             clock_reads = 0, rng = rand, rng_draws = 0\<rparr>)"

definition new_block_metrics_state :: "metrics \<Rightarrow> block_metrics_state \<times> metrics" where
  "new_block_metrics_state m =
     (let (now, m1) = monotonic_ns m
      in (\<lparr>birth_time_ns = now, last_access_ns = now, access_history = []\<rparr>, m1))"

text \<open>A \<^verbatim>\<open>deque(maxlen=4)\<close> drops from the left.\<close>

definition record_access :: "int \<Rightarrow> block_metrics_state \<Rightarrow> block_metrics_state" where
  "record_access now s =
     (let hist = access_history s @ [now]
      in s\<lparr>last_access_ns := now, access_history := drop (length hist - 4) hist\<rparr>)"

definition seconds :: "int \<Rightarrow> rat" where
  "seconds ns = of_int ns / 1000000000"

definition get_reuse_gaps_seconds :: "block_metrics_state \<Rightarrow> rat list" where
  "get_reuse_gaps_seconds s =
     (let hist = access_history s in
      if length hist < 2 then []
      else map (\<lambda>i. seconds (hist ! i - hist ! (i - 1))) [1..<length hist])"

definition should_sample_block :: "metrics \<Rightarrow> bool \<times> metrics" where
  "should_sample_block m = (rng m (rng_draws m) < sample_rate m, m\<lparr>rng_draws := rng_draws m + 1\<rparr>)"

definition on_block_allocated :: "int \<Rightarrow> metrics \<Rightarrow> metrics" where
  "on_block_allocated bid m =
     (let (yes, m1) = should_sample_block m in
      if yes
      then let (s, m2) = new_block_metrics_state m1
           in m2\<lparr>block_metrics := AList.update bid s (block_metrics m2)\<rparr>
      else m1)"

definition on_block_accessed :: "int \<Rightarrow> metrics \<Rightarrow> metrics" where
  "on_block_accessed bid m =
     (case map_of (block_metrics m) bid of
        None \<Rightarrow> m
      | Some s \<Rightarrow>
          let (now, m1) = monotonic_ns m
          in m1\<lparr>block_metrics := AList.update bid (record_access now s) (block_metrics m1)\<rparr>)"

definition on_block_evicted :: "int \<Rightarrow> metrics \<Rightarrow> metrics" where
  "on_block_evicted bid m =
     (case map_of (block_metrics m) bid of
        None \<Rightarrow> m
      | Some s \<Rightarrow>
          let m1 = m\<lparr>block_metrics := AList.delete bid (block_metrics m)\<rparr>;
              (t1, m2) = monotonic_ns m1;
              (t2, m3) = monotonic_ns m2
          in m3\<lparr>eviction_events := eviction_events m3 @
               [\<lparr>lifetime_seconds = seconds (t1 - birth_time_ns s),
                 idle_seconds = seconds (t2 - last_access_ns s),
                 reuse_gaps_seconds = get_reuse_gaps_seconds s\<rparr>]\<rparr>)"

definition metrics_reset :: "metrics \<Rightarrow> metrics" where
  "metrics_reset m = m\<lparr>block_metrics := [], eviction_events := []\<rparr>"

definition drain_events :: "metrics \<Rightarrow> kv_cache_eviction_event list \<times> metrics" where
  "drain_events m = (eviction_events m, m\<lparr>eviction_events := []\<rparr>)"

section \<open>Invariant\<close>

definition history_ok :: "(nat \<Rightarrow> int) \<Rightarrow> nat \<Rightarrow> block_metrics_state \<Rightarrow> bool" where
  "history_ok clk n s \<longleftrightarrow>
     length (access_history s) \<le> 4 \<and> sorted (access_history s)
     \<and> birth_time_ns s \<le> last_access_ns s
     \<and> (\<forall>t \<in> set (access_history s). t \<le> last_access_ns s)
     \<and> (\<forall>k \<ge> n. last_access_ns s \<le> clk k)"

definition event_ok :: "kv_cache_eviction_event \<Rightarrow> bool" where
  "event_ok e \<longleftrightarrow>
     0 \<le> idle_seconds e \<and> 0 \<le> lifetime_seconds e
     \<and> length (reuse_gaps_seconds e) \<le> 3 \<and> (\<forall>g \<in> set (reuse_gaps_seconds e). 0 \<le> g)"

definition metrics_inv :: "metrics \<Rightarrow> bool" where
  "metrics_inv m \<longleftrightarrow>
     mono (clock m) \<and> od_wf (block_metrics m)
     \<and> (\<forall>s \<in> snd ` set (block_metrics m). history_ok (clock m) (clock_reads m) s)
     \<and> (\<forall>e \<in> set (eviction_events m). event_ok e)"

lemma seconds_nonneg: "0 \<le> k \<Longrightarrow> 0 \<le> seconds k"
  by (simp add: seconds_def)

lemma reuse_gaps_ok:
  assumes "length (access_history s) \<le> 4" "sorted (access_history s)"
  shows "length (get_reuse_gaps_seconds s) \<le> 3 \<and> (\<forall>g \<in> set (get_reuse_gaps_seconds s). 0 \<le> g)"
proof -
  have "0 \<le> seconds (access_history s ! i - access_history s ! (i - 1))"
    if "i < length (access_history s)" for i
    using assms(2) that by (intro seconds_nonneg) (simp add: sorted_nth_mono)
  with assms(1) show ?thesis by (auto simp: get_reuse_gaps_seconds_def Let_def)
qed

lemma record_access_ok:
  assumes "history_ok clk n s" "mono clk"
  shows "history_ok clk (Suc n) (record_access (clk n) s)"
proof -
  have now: "last_access_ns s \<le> clk n" and mono: "\<And>k. k \<ge> Suc n \<Longrightarrow> clk n \<le> clk k"
    using assms by (auto simp: history_ok_def mono_def)
  have "sorted (access_history s @ [clk n])"
    using assms(1) now by (fastforce simp: history_ok_def sorted_append)
  then have "sorted (drop (length (access_history s @ [clk n]) - 4) (access_history s @ [clk n]))"
    by (rule sorted_wrt_drop)
  moreover have "\<forall>t \<in> set (access_history s @ [clk n]). t \<le> clk n"
    using assms(1) now by (fastforce simp: history_ok_def)
  ultimately show ?thesis using assms(1) now mono
    by (auto simp: history_ok_def record_access_def Let_def dest: in_set_dropD)
qed

lemma history_ok_later: "history_ok clk n s \<Longrightarrow> n \<le> n' \<Longrightarrow> history_ok clk n' s"
  by (simp add: history_ok_def)

lemma metrics_inv_later:
  "metrics_inv m \<Longrightarrow> clock_reads m \<le> n \<Longrightarrow> s \<in> snd ` set (block_metrics m) \<Longrightarrow> history_ok (clock m) n s"
  unfolding metrics_inv_def using history_ok_later by blast

lemma ball_snd_update:
  "P v \<Longrightarrow> \<forall>s \<in> snd ` set d. P s \<Longrightarrow> \<forall>s \<in> snd ` set (AList.update k v d). P s"
  by (induction d) auto

lemma snd_delete_subset: "snd ` set (AList.delete k d) \<subseteq> snd ` set d"
  by (auto simp: AList.delete_eq)

lemma on_block_allocated_inv: "metrics_inv m \<Longrightarrow> metrics_inv (on_block_allocated bid m)"
proof -
  assume inv: "metrics_inv m"
  let ?s = "\<lparr>birth_time_ns = clock m (clock_reads m), last_access_ns = clock m (clock_reads m),
    access_history = []\<rparr>"
  have "history_ok (clock m) (Suc (clock_reads m)) ?s"
    using monoD [of "clock m" "clock_reads m"] inv unfolding history_ok_def metrics_inv_def by simp
  moreover have "\<forall>s \<in> snd ` set (block_metrics m). history_ok (clock m) (Suc (clock_reads m)) s"
    using metrics_inv_later [OF inv] by simp
  ultimately have "\<forall>s \<in> snd ` set (AList.update bid ?s (block_metrics m)).
      history_ok (clock m) (Suc (clock_reads m)) s"
    by (rule ball_snd_update)
  then show ?thesis using inv
    by (simp add: on_block_allocated_def should_sample_block_def new_block_metrics_state_def
        monotonic_ns_def metrics_inv_def)
qed

lemma on_block_accessed_inv: "metrics_inv m \<Longrightarrow> metrics_inv (on_block_accessed bid m)"
proof (cases "map_of (block_metrics m) bid")
  case None
  then show "metrics_inv m \<Longrightarrow> ?thesis" by (simp add: on_block_accessed_def)
next
  case (Some s)
  assume inv: "metrics_inv m"
  have s: "history_ok (clock m) (clock_reads m) s"
    using inv Some by (force simp: metrics_inv_def dest: map_of_SomeD)
  let ?s = "record_access (clock m (clock_reads m)) s"
  have "history_ok (clock m) (Suc (clock_reads m)) ?s"
    using record_access_ok [OF s] inv by (simp add: metrics_inv_def)
  moreover have "\<forall>s \<in> snd ` set (block_metrics m). history_ok (clock m) (Suc (clock_reads m)) s"
    using metrics_inv_later [OF inv] by simp
  ultimately have "\<forall>s \<in> snd ` set (AList.update bid ?s (block_metrics m)).
      history_ok (clock m) (Suc (clock_reads m)) s"
    by (rule ball_snd_update)
  then show ?thesis using inv Some
    by (simp add: on_block_accessed_def monotonic_ns_def metrics_inv_def)
qed

lemma on_block_evicted_inv: "metrics_inv m \<Longrightarrow> metrics_inv (on_block_evicted bid m)"
proof (cases "map_of (block_metrics m) bid")
  case None
  then show "metrics_inv m \<Longrightarrow> ?thesis" by (simp add: on_block_evicted_def)
next
  case (Some s)
  assume inv: "metrics_inv m"
  let ?n = "clock_reads m"
  have s: "history_ok (clock m) ?n s"
    using inv Some by (force simp: metrics_inv_def dest: map_of_SomeD)
  then have "last_access_ns s \<le> clock m ?n" "last_access_ns s \<le> clock m (Suc ?n)"
    "birth_time_ns s \<le> last_access_ns s"
    unfolding history_ok_def by simp_all
  then have "0 \<le> seconds (clock m ?n - birth_time_ns s)"
    "0 \<le> seconds (clock m (Suc ?n) - last_access_ns s)" by (auto intro: seconds_nonneg)
  then have ev: "event_ok \<lparr>lifetime_seconds = seconds (clock m ?n - birth_time_ns s),
      idle_seconds = seconds (clock m (Suc ?n) - last_access_ns s),
      reuse_gaps_seconds = get_reuse_gaps_seconds s\<rparr>"
    using reuse_gaps_ok [of s] s by (simp add: event_ok_def history_ok_def)
  have "\<forall>s \<in> snd ` set (AList.delete bid (block_metrics m)). history_ok (clock m) (Suc (Suc ?n)) s"
  proof
    fix s assume "s \<in> snd ` set (AList.delete bid (block_metrics m))"
    then have "s \<in> snd ` set (block_metrics m)" by (rule subsetD [OF snd_delete_subset])
    then show "history_ok (clock m) (Suc (Suc ?n)) s" by (intro metrics_inv_later [OF inv]) simp
  qed
  moreover have "block_metrics (on_block_evicted bid m) = AList.delete bid (block_metrics m)"
    "clock (on_block_evicted bid m) = clock m" "clock_reads (on_block_evicted bid m) = Suc (Suc ?n)"
    "eviction_events (on_block_evicted bid m) = eviction_events m @
      [\<lparr>lifetime_seconds = seconds (clock m ?n - birth_time_ns s),
        idle_seconds = seconds (clock m (Suc ?n) - last_access_ns s),
        reuse_gaps_seconds = get_reuse_gaps_seconds s\<rparr>]"
    using Some by (simp_all add: on_block_evicted_def monotonic_ns_def)
  moreover have "mono (clock m)" "od_wf (block_metrics m)" "\<forall>e \<in> set (eviction_events m). event_ok e"
    using inv unfolding metrics_inv_def by blast+
  ultimately show ?thesis using ev unfolding metrics_inv_def by simp
qed

lemma metrics_reset_inv: "metrics_inv m \<Longrightarrow> metrics_inv (metrics_reset m)"
  by (simp add: metrics_inv_def metrics_reset_def)

lemma drain_events_inv: "metrics_inv m \<Longrightarrow> metrics_inv (snd (drain_events m))"
  by (simp add: metrics_inv_def drain_events_def)

lemmas metrics_preserve = on_block_allocated_inv on_block_accessed_inv on_block_evicted_inv
  metrics_reset_inv drain_events_inv

end
