(* ===== verification/Block_Pool.thy ===== *)
theory Block_Pool
  imports Free_Block_Queue Request KV_Metrics
begin

text \<open>
  src/vllm/vllm/v1/core/block_pool.py: the map from block hashes to cached blocks
  (\<^verbatim>\<open>BlockHashToBlockMap\<close>) and the pool of KV cache blocks with reference counts, prefix cache,
  eviction and KV events. Block objects are addresses into the store of \<open>Free_Block_Queue\<close>.
\<close>

section \<open>BlockHashToBlockMap\<close>

datatype cached_blocks = OneBlock nat | ManyBlocks "(int, nat) odict"

type_synonym block_hash_map = "(bytes, cached_blocks) odict"

definition get_one_block :: "block_hash_map \<Rightarrow> bytes \<Rightarrow> nat option res" where
  "get_one_block m key =
     (case map_of m key of
        None \<Rightarrow> Inr None
      | Some (OneBlock a) \<Rightarrow> Inr (Some a)
      | Some (ManyBlocks d) \<Rightarrow>
          (case d of [] \<Rightarrow> Inl StopIteration | (i, a) # _ \<Rightarrow> Inr (Some a)))"

text \<open>\<open>bid\<close> reads the \<^verbatim>\<open>block_id\<close> attribute of a block object.\<close>

definition bm_insert :: "(nat \<Rightarrow> int) \<Rightarrow> bytes \<Rightarrow> nat \<Rightarrow> block_hash_map \<Rightarrow> block_hash_map" where
  "bm_insert bid key block m =
     (case map_of m key of
        None \<Rightarrow> AList.update key (OneBlock block) m
      | Some (OneBlock b) \<Rightarrow>
          AList.update key (ManyBlocks (AList.update (bid block) block [(bid b, b)])) m
      | Some (ManyBlocks d) \<Rightarrow>
          AList.update key (ManyBlocks (AList.update (bid block) block d)) m)"

definition bm_pop ::
  "(nat \<Rightarrow> int) \<Rightarrow> bytes \<Rightarrow> int \<Rightarrow> block_hash_map \<Rightarrow> nat option \<times> block_hash_map" where
  "bm_pop bid key pid m =
     (case map_of m key of
        None \<Rightarrow> (None, m)
      | Some (OneBlock b) \<Rightarrow>
          if bid b = pid then (Some b, AList.delete key m)
          else (None, AList.update key (OneBlock b) (AList.delete key m))
      | Some (ManyBlocks d) \<Rightarrow>
          let d' = AList.delete pid d in
          (map_of d pid,
           if length d' > 0 then AList.update key (ManyBlocks d') (AList.delete key m)
           else AList.delete key m))"

section \<open>The pool's state\<close>

record block_stored =
  bs_block_hashes :: "external_block_hash list option"
  bs_parent_block_hash :: "external_block_hash option"
  bs_token_ids :: "int list"
  bs_block_size :: nat
  bs_lora_id :: "int option"
  bs_lora_name :: "string option"
  bs_extra_keys :: "extra_key list option list option"
  bs_group_idx :: int

datatype kv_cache_event =
    BlockStored block_stored
  | BlockRemoved "external_block_hash list" nat
  | AllBlocksCleared

record block_pool =
  heap :: block_heap
  num_gpu_blocks :: nat
  enable_caching :: bool
  hash_block_size :: nat
  cached_block_hash_to_block :: block_hash_map
  null_block :: nat
  enable_kv_cache_events :: bool
  kv_event_queue :: "kv_cache_event list"
  metrics_collector :: "metrics option"

abbreviation pblk :: "block_pool \<Rightarrow> nat \<Rightarrow> kv_cache_block" where
  "pblk p a \<equiv> blk (heap p) a"

definition on_heap :: "(block_heap \<Rightarrow> block_heap) \<Rightarrow> block_pool \<Rightarrow> block_pool" where
  "on_heap f p = p\<lparr>heap := f (heap p)\<rparr>"

definition add_ref :: "int \<Rightarrow> nat \<Rightarrow> block_pool \<Rightarrow> block_pool" where
  "add_ref k a = on_heap (upd_blk a (\<lambda>b. b\<lparr>ref_cnt := ref_cnt b + k\<rparr>))"

definition on_metrics :: "(metrics \<Rightarrow> metrics) \<Rightarrow> block_pool \<Rightarrow> block_pool" where
  "on_metrics f p = p\<lparr>metrics_collector := map_option f (metrics_collector p)\<rparr>"

definition emit_event :: "kv_cache_event \<Rightarrow> block_pool \<Rightarrow> block_pool" where
  "emit_event e p = p\<lparr>kv_event_queue := kv_event_queue p @ [e]\<rparr>"

definition block_pool_init ::
  "int \<Rightarrow> bool \<Rightarrow> nat \<Rightarrow> bool \<Rightarrow> metrics option \<Rightarrow> block_pool res" where
  "block_pool_init n caching hbs events mc =
     guard (n > 0) AssertionError
       (let h = queue_init (map (\<lambda>i. new_block (int i)) [0..<nat n]) in
        res_bind (popleft h) (\<lambda>(nb, h1).
          Inr \<lparr>heap = upd_blk nb (\<lambda>b. b\<lparr>is_null := True\<rparr>) h1, num_gpu_blocks = nat n,
               enable_caching = caching, hash_block_size = hbs, cached_block_hash_to_block = [],
               null_block = nb, enable_kv_cache_events = events, kv_event_queue = [],
               metrics_collector = mc\<rparr>))"

section \<open>Lookup and caching\<close>

fun get_cached_block :: "block_pool \<Rightarrow> bytes \<Rightarrow> int list \<Rightarrow> nat list option res" where
  "get_cached_block p h [] = Inr (Some [])"
| "get_cached_block p h (g # gs) =
     res_bind (make_block_hash_with_group_id h g) (\<lambda>key.
     res_bind (get_one_block (cached_block_hash_to_block p) key) (\<lambda>b.
       case b of
         None \<Rightarrow> Inr None
       | Some a \<Rightarrow> res_bind (get_cached_block p h gs) (\<lambda>rest.
           Inr (case rest of None \<Rightarrow> None | Some bs \<Rightarrow> Some (a # bs)))))"

text \<open>
  The loop of \<^verbatim>\<open>cache_full_blocks\<close> over \<^verbatim>\<open>enumerate(new_full_blocks)\<close>; the second component collects
  the hashes for the event.
\<close>

fun cache_blocks_loop ::
  "hash_env \<Rightarrow> bytes list \<Rightarrow> int \<Rightarrow> nat \<Rightarrow> nat list \<Rightarrow> block_pool \<times> external_block_hash list
     \<Rightarrow> (block_pool \<times> external_block_hash list) res" where
  "cache_blocks_loop E hs gid i [] s = Inr s"
| "cache_blocks_loop E hs gid i (b # bs) (p, out) =
     (if is_null (pblk p b) then cache_blocks_loop E hs gid (i + 1) bs (p, out)
      else guard (block_hash (pblk p b) = None) AssertionError
        (res_bind (index_res hs i) (\<lambda>h.
         res_bind (make_block_hash_with_group_id h gid) (\<lambda>key.
         res_bind (set_block_hash b key (heap p)) (\<lambda>h'.
           cache_blocks_loop E hs gid (i + 1) bs
             (p\<lparr>heap := h', cached_block_hash_to_block :=
                  bm_insert (\<lambda>a. block_id (blk h' a)) key b (cached_block_hash_to_block p)\<rparr>,
              out @ [maybe_convert_block_hash E h]))))))"

fun event_keys_loop ::
  "hash_env \<Rightarrow> block_pool \<Rightarrow> nat list \<Rightarrow> nat \<Rightarrow> nat list \<Rightarrow> int \<times> extra_key list option list \<times> request
     \<Rightarrow> (extra_key list option list \<times> request) res" where
  "event_keys_loop E p blocks bs [] (mm, acc, r) = Inr (acc, r)"
| "event_keys_loop E p blocks bs (i # is) (mm, acc, r) =
     res_bind (index_res blocks i) (\<lambda>b.
       if is_null (pblk p b) then event_keys_loop E p blocks bs is (mm, acc, r)
       else res_bind (generate_block_hash_extra_keys E r (i * bs) (i * bs + bs) mm)
         (\<lambda>(ks, mm', r'). event_keys_loop E p blocks bs is (mm', acc @ [ks], r')))"

text \<open>The hashes at the granularity of the group: the request's own, or merged ones.\<close>

datatype hash_view = PlainHashes "bytes list" | MergedHashes block_hash_list

definition view_from :: "hash_view \<Rightarrow> nat \<Rightarrow> bytes list res" where
  "view_from v i = (case v of PlainHashes hs \<Rightarrow> Inr (drop i hs) | MergedHashes b \<Rightarrow> bhl_from b i)"

definition view_at :: "hash_view \<Rightarrow> nat \<Rightarrow> bytes res" where
  "view_at v i = (case v of PlainHashes hs \<Rightarrow> index_res hs i | MergedHashes b \<Rightarrow> get_value_at b i)"

definition view_len :: "hash_view \<Rightarrow> nat" where
  "view_len v = (case v of PlainHashes hs \<Rightarrow> length hs | MergedHashes b \<Rightarrow> bhl_len b)"

definition hashes_at_block_size :: "bytes list \<Rightarrow> nat \<Rightarrow> nat \<Rightarrow> hash_view res" where
  "hashes_at_block_size hs hbs bs =
     (if bs = hbs then Inr (PlainHashes hs)
      else guard (bs mod hbs = 0) AssertionError
        (res_bind (block_hash_list_with_block_size hs hbs bs) (\<lambda>b. Inr (MergedHashes b))))"

definition cache_full_blocks ::
  "hash_env \<Rightarrow> block_pool \<Rightarrow> request \<Rightarrow> nat list \<Rightarrow> nat \<Rightarrow> nat \<Rightarrow> nat \<Rightarrow> int \<Rightarrow> (block_pool \<times> request) res" where
  "cache_full_blocks E p r blocks num_cached num_full block_size gid =
     (if num_cached \<ge> num_full then Inr (p, r)
      else guard (length (block_hashes r) \<ge> num_full) AssertionError
        (res_bind (hashes_at_block_size (block_hashes r) (hash_block_size p) block_size) (\<lambda>view.
         res_bind (view_from view num_cached) (\<lambda>new_hashes.
         res_bind (cache_blocks_loop E new_hashes gid 0 (py_slice num_cached num_full blocks) (p, []))
           (\<lambda>(p1, ext_hashes).
         if \<not> enable_kv_cache_events p1 then Inr (p1, r)
         else
           res_bind (if num_cached = 0 then Inr None
                     else res_bind (view_at view (num_cached - 1))
                            (\<lambda>h. Inr (Some (maybe_convert_block_hash E h)))) (\<lambda>parent.
           res_bind (event_keys_loop E p1 blocks block_size [num_cached..<num_full] (0, [], r))
             (\<lambda>(keys, r').
           Inr (emit_event (BlockStored
             \<lparr>bs_block_hashes = Some ext_hashes, bs_parent_block_hash = parent,
              bs_token_ids = py_slice (num_cached * block_size) (num_full * block_size) (all_token_ids r'),
              bs_block_size = block_size,
              bs_lora_id = map_option lora_int_id (lora_request r'),
              bs_lora_name = map_option lora_name (lora_request r'),
              bs_extra_keys = (if keys = [] then None else Some keys),
              bs_group_idx = gid\<rparr>) p1, r'))))))))"

section \<open>Allocation, eviction, reference counts\<close>

definition get_num_free_blocks :: "block_pool \<Rightarrow> int" where
  "get_num_free_blocks p = num_free_blocks (heap p)"

definition maybe_evict_cached_block :: "nat \<Rightarrow> hash_env \<Rightarrow> block_pool \<Rightarrow> bool \<times> block_pool" where
  "maybe_evict_cached_block a E p =
     (let p0 = on_metrics (on_block_evicted (block_id (pblk p a))) p in
      case block_hash (pblk p0 a) of
        None \<Rightarrow> (False, p0)
      | Some key \<Rightarrow>
          (case bm_pop (\<lambda>x. block_id (pblk p0 x)) key (block_id (pblk p0 a)) (cached_block_hash_to_block p0) of
             (None, m) \<Rightarrow> (False, p0\<lparr>cached_block_hash_to_block := m\<rparr>)
           | (Some _, m) \<Rightarrow>
               let p1 = on_heap (reset_hash a) (p0\<lparr>cached_block_hash_to_block := m\<rparr>) in
               (True,
                if enable_kv_cache_events p1
                then emit_event (BlockRemoved [maybe_convert_block_hash E (get_block_hash key)]
                       (get_group_id key)) p1
                else p1)))"

definition claim_block :: "hash_env \<Rightarrow> nat \<Rightarrow> block_pool \<Rightarrow> block_pool res" where
  "claim_block E a p =
     (let p1 = (if enable_caching p then snd (maybe_evict_cached_block a E p) else p) in
      guard (ref_cnt (pblk p1 a) = 0) AssertionError
        (let p2 = add_ref 1 a p1
         in Inr (on_metrics (on_block_allocated (block_id (pblk p2 a))) p2)))"

definition get_new_blocks :: "hash_env \<Rightarrow> int \<Rightarrow> block_pool \<Rightarrow> (nat list \<times> block_pool) res" where
  "get_new_blocks E n p =
     guard (\<not> n > get_num_free_blocks p) ValueError
       (res_bind (popleft_n n (heap p)) (\<lambda>(ret, h).
          res_bind (fold_res (claim_block E) ret (p\<lparr>heap := h\<rparr>)) (\<lambda>p'. Inr (ret, p'))))"

definition touch_block :: "nat \<Rightarrow> block_pool \<Rightarrow> block_pool res" where
  "touch_block a p =
     res_bind (if ref_cnt (pblk p a) = 0 \<and> \<not> is_null (pblk p a)
               then res_bind (remove a (heap p)) (\<lambda>h. Inr (p\<lparr>heap := h\<rparr>)) else Inr p)
       (\<lambda>p1. let p2 = add_ref 1 a p1
             in Inr (on_metrics (on_block_accessed (block_id (pblk p2 a))) p2))"

definition touch :: "nat list \<Rightarrow> block_pool \<Rightarrow> block_pool res" where
  "touch blocks p = fold_res touch_block blocks p"

definition free_blocks :: "nat list \<Rightarrow> block_pool \<Rightarrow> block_pool res" where
  "free_blocks blocks p =
     (let p1 = fold (add_ref (-1)) blocks p in
      res_bind (append_n (filter (\<lambda>a. ref_cnt (pblk p1 a) = 0 \<and> \<not> is_null (pblk p1 a)) blocks) (heap p1))
        (\<lambda>h. Inr (p1\<lparr>heap := h\<rparr>)))"

text \<open>\<^verbatim>\<open>self.blocks[block_id]\<close>: a negative index counts from the end.\<close>

definition evict_block_id :: "hash_env \<Rightarrow> int \<Rightarrow> block_pool \<Rightarrow> block_pool res" where
  "evict_block_id E i p =
     (let n = int (num_gpu_blocks p) in
      guard (i < n) AssertionError
        (if i < - n then Inl IndexError
         else Inr (snd (maybe_evict_cached_block (nat (if i < 0 then n + i else i)) E p))))"

definition evict_blocks :: "hash_env \<Rightarrow> int list \<Rightarrow> block_pool \<Rightarrow> block_pool res" where
  "evict_blocks E ids p = fold_res (evict_block_id E) ids p"

definition reset_prefix_cache :: "block_pool \<Rightarrow> bool \<times> block_pool" where
  "reset_prefix_cache p =
     (if int (num_gpu_blocks p) - get_num_free_blocks p \<noteq> 1 then (False, p)
      else let p1 = p\<lparr>cached_block_hash_to_block := []\<rparr>;
               p2 = fold (\<lambda>a. on_heap (reset_hash a)) [0..<num_gpu_blocks p] p1;
               p3 = on_metrics metrics_reset p2
           in (True, if enable_kv_cache_events p3 then emit_event AllBlocksCleared p3 else p3))"

text \<open>Usage as the exact quotient the float approximates.\<close>

definition get_usage :: "block_pool \<Rightarrow> rat" where
  "get_usage p =
     (let total = int (num_gpu_blocks p) - 1 in
      if total = 0 then 0 else 1 - of_int (get_num_free_blocks p) / of_int total)"

definition take_events :: "block_pool \<Rightarrow> kv_cache_event list \<times> block_pool" where
  "take_events p =
     (if \<not> enable_kv_cache_events p then ([], p) else (kv_event_queue p, p\<lparr>kv_event_queue := []\<rparr>))"

section \<open>The contract of the hash map\<close>

text \<open>
  What the pool relies on: the map represents, for every key, the set \<open>cached m k\<close> of blocks; a
  lookup finds one of them, insertion and removal change exactly one element.
\<close>

locale hash_block_map =
  fixes minv :: "'m \<Rightarrow> bool"
    and cached :: "'m \<Rightarrow> bytes \<Rightarrow> nat set"
    and bid :: "nat \<Rightarrow> int"
    and get_one :: "'m \<Rightarrow> bytes \<Rightarrow> nat option res"
    and ins :: "bytes \<Rightarrow> nat \<Rightarrow> 'm \<Rightarrow> 'm"
    and pop :: "bytes \<Rightarrow> int \<Rightarrow> 'm \<Rightarrow> nat option \<times> 'm"
  assumes get_one_miss: "minv m \<Longrightarrow> cached m k = {} \<Longrightarrow> get_one m k = Inr None"
    and get_one_hit: "minv m \<Longrightarrow> cached m k \<noteq> {} \<Longrightarrow> \<exists>a \<in> cached m k. get_one m k = Inr (Some a)"
    and ins_law: "minv m \<Longrightarrow> inj_on bid (insert a (cached m k)) \<Longrightarrow>
      minv (ins k a m) \<and> cached (ins k a m) = (cached m)(k := insert a (cached m k))"
    and pop_law: "minv m \<Longrightarrow> inj_on bid (insert a (cached m k)) \<Longrightarrow> pop k (bid a) m = (r, m') \<Longrightarrow>
      minv m' \<and> cached m' = (cached m)(k := cached m k - {a})
        \<and> r = (if a \<in> cached m k then Some a else None)"
begin

lemma get_one_cases:
  assumes "minv m"
  shows "(get_one m k = Inr None \<and> cached m k = {})
    \<or> (\<exists>a. get_one m k = Inr (Some a) \<and> a \<in> cached m k)"
  using get_one_miss [OF assms] get_one_hit [OF assms] by blast

lemma ins_then_hit:
  assumes "minv m" "inj_on bid (insert a (cached m k))"
  shows "\<exists>b \<in> insert a (cached m k). get_one (ins k a m) k = Inr (Some b)"
  using ins_law [OF assms] get_one_hit [of "ins k a m" k] by auto

text \<open>Evicting one of two blocks with the same hash keeps the hash cached.\<close>

lemma duplicate_survives_pop:
  assumes "minv m" "inj_on bid (insert a (cached m k))" "b \<in> cached m k" "b \<noteq> a"
    and "pop k (bid a) m = (r, m')"
  shows "\<exists>c \<in> cached m k - {a}. get_one m' k = Inr (Some c)"
proof -
  have "minv m'" "cached m' k = cached m k - {a}" using pop_law [OF assms(1,2,5)] by auto
  with assms(3,4) get_one_hit [of m' k] show ?thesis by blast
qed

lemma ins_pop_id:
  assumes "minv m" "inj_on bid (insert a (cached m k))" "a \<notin> cached m k"
    and "pop k (bid a) (ins k a m) = (r, m')"
  shows "r = Some a \<and> minv m' \<and> cached m' = cached m"
proof -
  have i: "minv (ins k a m)" "cached (ins k a m) = (cached m)(k := insert a (cached m k))"
    using ins_law [OF assms(1,2)] by auto
  have "inj_on bid (insert a (cached (ins k a m) k))" using i(2) assms(2) by simp
  from pop_law [OF i(1) this assms(4)] i(2) assms(3) show ?thesis by (auto simp: fun_eq_iff)
qed

end

definition bm_cached :: "block_hash_map \<Rightarrow> bytes \<Rightarrow> nat set" where
  "bm_cached m k =
     (case map_of m k of
        None \<Rightarrow> {} | Some (OneBlock a) \<Rightarrow> {a} | Some (ManyBlocks d) \<Rightarrow> snd ` set d)"

definition entry_ok :: "(nat \<Rightarrow> int) \<Rightarrow> cached_blocks \<Rightarrow> bool" where
  "entry_ok bid e =
     (case e of
        OneBlock a \<Rightarrow> True
      | ManyBlocks d \<Rightarrow> d \<noteq> [] \<and> od_wf d \<and> (\<forall>(i, a) \<in> set d. i = bid a))"

definition bm_inv :: "(nat \<Rightarrow> int) \<Rightarrow> block_hash_map \<Rightarrow> bool" where
  "bm_inv bid m \<longleftrightarrow> od_wf m \<and> (\<forall>k e. map_of m k = Some e \<longrightarrow> entry_ok bid e)"

text \<open>A dictionary keyed by block id is a set of blocks.\<close>

lemma set_alist_update:
  "od_wf d \<Longrightarrow> set (AList.update k v d) = insert (k, v) {x \<in> set d. fst x \<noteq> k}"
  by (induction d) (auto simp: image_iff)

lemma id_dict_key:
  assumes "\<forall>(i, a) \<in> set d. i = bid a" "inj_on bid (insert a (snd ` set d))" "(i, b) \<in> set d"
  shows "i = bid a \<longleftrightarrow> b = a"
proof -
  have "i = bid b" "b \<in> insert a (snd ` set d)" using assms(1,3) by force+
  then show ?thesis using inj_on_eq_iff [OF assms(2), of b a] by simp
qed

lemma id_dict_update:
  assumes "od_wf d" "\<forall>(i, a) \<in> set d. i = bid a" "inj_on bid (insert a (snd ` set d))"
  shows "snd ` set (AList.update (bid a) a d) = insert a (snd ` set d)"
    and "\<forall>(i, b) \<in> set (AList.update (bid a) a d). i = bid b"
proof -
  note key = id_dict_key [OF assms(2,3)]
  have set: "set (AList.update (bid a) a d) = insert (bid a, a) {x \<in> set d. fst x \<noteq> bid a}"
    by (rule set_alist_update [OF assms(1)])
  show "\<forall>(i, b) \<in> set (AList.update (bid a) a d). i = bid b" unfolding set using assms(2) by auto
  show "snd ` set (AList.update (bid a) a d) = insert a (snd ` set d)"
    unfolding set using key by force
qed

lemma id_dict_delete:
  assumes "od_wf d" "\<forall>(i, a) \<in> set d. i = bid a" "inj_on bid (insert a (snd ` set d))"
  shows "snd ` set (AList.delete (bid a) d) = snd ` set d - {a}"
    and "map_of d (bid a) = (if a \<in> snd ` set d then Some a else None)"
proof -
  note key = id_dict_key [OF assms(2,3)]
  have "set (AList.delete (bid a) d) = {x \<in> set d. fst x \<noteq> bid a}" by (auto simp: AList.delete_eq)
  with key show "snd ` set (AList.delete (bid a) d) = snd ` set d - {a}" by force
  show "map_of d (bid a) = (if a \<in> snd ` set d then Some a else None)"
  proof (cases "a \<in> snd ` set d")
    case True
    then have "(bid a, a) \<in> set d" using assms(2) by auto
    then show ?thesis using True assms(1) by simp
  next
    case False
    then have "bid a \<notin> fst ` set d" using key by force
    then show ?thesis using False by (simp add: map_of_eq_None_iff)
  qed
qed

lemma entry_ok_simps [simp]:
  "entry_ok bid (OneBlock a)"
  "entry_ok bid (ManyBlocks d) \<longleftrightarrow> d \<noteq> [] \<and> od_wf d \<and> (\<forall>(i, a) \<in> set d. i = bid a)"
  by (simp_all add: entry_ok_def)

lemma bm_inv_update: "bm_inv bid m \<Longrightarrow> entry_ok bid e \<Longrightarrow> bm_inv bid (AList.update k e m)"
  by (simp add: bm_inv_def)

lemma bm_inv_delete: "bm_inv bid m \<Longrightarrow> bm_inv bid (AList.delete k m)"
  by (simp add: bm_inv_def)

lemma bm_insert_law:
  assumes inv: "bm_inv bid m" and inj: "inj_on bid (insert a (bm_cached m k))"
  shows "bm_inv bid (bm_insert bid k a m)
    \<and> bm_cached (bm_insert bid k a m) = (bm_cached m)(k := insert a (bm_cached m k))"
proof -
  have upd: "bm_cached (AList.update k e m) = (bm_cached m)(k := bm_cached [(k, e)] k)" for e
    by (rule ext) (simp add: bm_cached_def)
  show ?thesis
  proof (cases "map_of m k")
    case None
    then show ?thesis using inv
      by (simp add: bm_insert_def upd bm_inv_update) (simp add: bm_cached_def)
  next
    case (Some e)
    have e: "entry_ok bid e" using inv Some by (simp add: bm_inv_def)
    define d0 where "d0 = (case e of OneBlock b \<Rightarrow> [(bid b, b)] | ManyBlocks d \<Rightarrow> d)"
    have d0: "od_wf d0" "\<forall>(i, b) \<in> set d0. i = bid b" "snd ` set d0 = bm_cached m k"
      using e Some by (auto simp: d0_def bm_cached_def split: cached_blocks.splits)
    let ?d = "AList.update (bid a) a d0"
    have d: "snd ` set ?d = insert a (bm_cached m k)" "\<forall>(i, b) \<in> set ?d. i = bid b"
      using id_dict_update [OF d0(1,2) inj [folded d0(3)]] d0(3) by simp_all
    then have "entry_ok bid (ManyBlocks ?d)" using d0(1) by auto
    moreover have "bm_insert bid k a m = AList.update k (ManyBlocks ?d) m"
      using Some by (simp add: bm_insert_def d0_def split: cached_blocks.splits)
    ultimately show ?thesis using inv d(1)
      by (simp add: bm_inv_update upd) (simp add: bm_cached_def)
  qed
qed

lemma bm_pop_law:
  assumes inv: "bm_inv bid m" and inj: "inj_on bid (insert a (bm_cached m k))"
    and pop: "bm_pop bid k (bid a) m = (r, m')"
  shows "bm_inv bid m' \<and> bm_cached m' = (bm_cached m)(k := bm_cached m k - {a})
    \<and> r = (if a \<in> bm_cached m k then Some a else None)"
proof -
  have upd: "bm_cached (AList.update k e (AList.delete k m)) = (bm_cached m)(k := bm_cached [(k, e)] k)" for e
    by (rule ext) (simp add: bm_cached_def)
  have del: "bm_cached (AList.delete k m) = (bm_cached m)(k := {})"
    by (rule ext) (simp add: bm_cached_def)
  consider (none) "map_of m k = None" | (one) b where "map_of m k = Some (OneBlock b)"
    | (many) d where "map_of m k = Some (ManyBlocks d)"
    by (metis cached_blocks.exhaust not_Some_eq)
  then show ?thesis
  proof cases
    case none
    then show ?thesis using inv pop by (auto simp: bm_pop_def bm_cached_def fun_eq_iff)
  next
    case one
    have "bid b = bid a \<longleftrightarrow> b = a" using inj one by (auto simp: bm_cached_def inj_on_def)
    then show ?thesis using inv pop one
      by (auto simp: bm_pop_def upd del bm_inv_update bm_inv_delete split: if_splits)
        (auto simp: bm_cached_def fun_eq_iff)
  next
    case many
    then have "entry_ok bid (ManyBlocks d)" using inv unfolding bm_inv_def by blast
    with many have d: "od_wf d" "\<forall>(i, b) \<in> set d. i = bid b" "bm_cached m k = snd ` set d"
      by (simp_all add: bm_cached_def)
    let ?d = "AList.delete (bid a) d"
    have D: "snd ` set ?d = bm_cached m k - {a}" "r = (if a \<in> bm_cached m k then Some a else None)"
      using id_dict_delete [OF d(1,2) inj [unfolded d(3)]] d(3) pop many
      by (simp_all add: bm_pop_def Let_def)
    have "\<forall>(i, b) \<in> set ?d. i = bid b" using d(2) by (auto simp: AList.delete_eq)
    then have "?d \<noteq> [] \<Longrightarrow> entry_ok bid (ManyBlocks ?d)" using d(1) by simp
    moreover have "m' = (if ?d = [] then AList.delete k m
        else AList.update k (ManyBlocks ?d) (AList.delete k m))"
      using pop many by (auto simp: bm_pop_def Let_def)
    moreover have "bm_cached [(k, ManyBlocks ?d)] k = bm_cached m k - {a}"
      using D(1) by (simp add: bm_cached_def [of "[_]"])
    moreover have "?d = [] \<Longrightarrow> bm_cached m k - {a} = {}" using D(1) by simp
    ultimately show ?thesis using inv D(2)
      by (cases "?d = []") (simp_all only: upd del bm_inv_update bm_inv_delete if_True if_False
        simp_thms not_False_eq_True)
  qed
qed

interpretation hm: hash_block_map "bm_inv bid" bm_cached bid get_one_block "bm_insert bid" "bm_pop bid"
  for bid
proof (unfold_locales, goal_cases)
  case (1 m k)
  then have "map_of m k = None"
    by (auto simp: bm_cached_def bm_inv_def entry_ok_def split: option.splits cached_blocks.splits)
  then show ?case by (simp add: get_one_block_def)
next
  case (2 m k)
  then show ?case
    by (auto simp: bm_cached_def bm_inv_def entry_ok_def get_one_block_def
        split: option.splits cached_blocks.splits list.splits)
next
  case (3 m a k)
  then show ?case by (rule bm_insert_law)
next
  case (4 m a k r m')
  then show ?case by (rule bm_pop_law)
qed

section \<open>The pool invariant\<close>

text \<open>The free list, read off the links.\<close>

definition free_list :: "block_pool \<Rightarrow> nat list" where
  "free_list p = (case get_all_free_blocks (heap p) of Inr (Some xs) \<Rightarrow> xs | _ \<Rightarrow> [])"

text \<open>
  Block objects \<open>0 ..< n\<close> with their ids, the null block first, the sentinels behind them, and a
  well-formed queue.
\<close>

definition heap_inv :: "nat \<Rightarrow> block_heap \<Rightarrow> nat list \<Rightarrow> bool" where
  "heap_inv n h xs \<longleftrightarrow>
     n > 0 \<and> length (store h) = n + 2 \<and> fake_free_list_head h = n \<and> fake_free_list_tail h = n + 1
     \<and> (\<forall>a < n. block_id (blk h a) = int a \<and> (is_null (blk h a) \<longleftrightarrow> a = 0))
     \<and> queue_inv h xs"

text \<open>
  Exactly the unreferenced blocks are free, except the null block and the reserved set \<open>R\<close> (blocks
  taken from the queue for good, such as sink blocks, without a reference).
\<close>

definition ref_inv :: "nat set \<Rightarrow> nat \<Rightarrow> block_heap \<Rightarrow> nat list \<Rightarrow> bool" where
  "ref_inv R n h xs \<longleftrightarrow>
     (\<forall>a. 0 < a \<and> a < n \<longrightarrow> ref_cnt (blk h a) \<ge> 0)
     \<and> (\<forall>a \<in> R. 0 < a \<and> a < n \<and> ref_cnt (blk h a) = 0)
     \<and> set xs = {a. 0 < a \<and> a < n \<and> ref_cnt (blk h a) = 0 \<and> a \<notin> R}"

text \<open>The cache holds a block under a key iff the block carries that key.\<close>

definition cache_inv :: "nat \<Rightarrow> block_heap \<Rightarrow> block_hash_map \<Rightarrow> bool" where
  "cache_inv n h m \<longleftrightarrow>
     bm_inv int m \<and> block_hash (blk h 0) = None
     \<and> (\<forall>k. bm_cached m k = {a. 0 < a \<and> a < n \<and> block_hash (blk h a) = Some k})"

definition pool_core :: "nat set \<Rightarrow> block_pool \<Rightarrow> bool" where
  "pool_core R p \<longleftrightarrow>
     null_block p = 0
     \<and> heap_inv (num_gpu_blocks p) (heap p) (free_list p)
     \<and> ref_inv R (num_gpu_blocks p) (heap p) (free_list p)
     \<and> cache_inv (num_gpu_blocks p) (heap p) (cached_block_hash_to_block p)"

definition pool_inv :: "nat set \<Rightarrow> block_pool \<Rightarrow> bool" where
  "pool_inv R p \<longleftrightarrow> pool_core R p \<and> (\<forall>a \<in> R. block_hash (pblk p a) = None)"

definition same_config :: "block_pool \<Rightarrow> block_pool \<Rightarrow> bool" where
  "same_config p p' \<longleftrightarrow>
     num_gpu_blocks p' = num_gpu_blocks p \<and> enable_caching p' = enable_caching p
     \<and> hash_block_size p' = hash_block_size p \<and> null_block p' = null_block p
     \<and> enable_kv_cache_events p' = enable_kv_cache_events p"

abbreviation refs :: "block_pool \<Rightarrow> nat \<Rightarrow> int" where
  "refs p a \<equiv> ref_cnt (pblk p a)"

abbreviation hash_of :: "block_pool \<Rightarrow> nat \<Rightarrow> bytes option" where
  "hash_of p a \<equiv> block_hash (pblk p a)"

lemma free_listI: "queue_inv (heap p) xs \<Longrightarrow> free_list p = xs"
  by (simp add: free_list_def get_all_free_blocks_inv)

lemma pool_coreI:
  assumes "null_block p = 0" "heap_inv (num_gpu_blocks p) (heap p) xs"
    "ref_inv R (num_gpu_blocks p) (heap p) xs"
    "cache_inv (num_gpu_blocks p) (heap p) (cached_block_hash_to_block p)"
  shows "pool_core R p \<and> free_list p = xs"
proof -
  have "free_list p = xs" using assms(2) by (intro free_listI) (simp add: heap_inv_def)
  then show ?thesis using assms by (simp add: pool_core_def)
qed

lemma pool_coreD:
  assumes "pool_core R p"
  shows "heap_inv (num_gpu_blocks p) (heap p) (free_list p)"
    "ref_inv R (num_gpu_blocks p) (heap p) (free_list p)"
    "cache_inv (num_gpu_blocks p) (heap p) (cached_block_hash_to_block p)"
    "queue_inv (heap p) (free_list p)" "null_block p = 0"
    "length (store (heap p)) = num_gpu_blocks p + 2" "num_gpu_blocks p > 0"
    "distinct (free_list p)" "get_num_free_blocks p = int (length (free_list p))"
    "\<And>a. a < num_gpu_blocks p \<Longrightarrow> block_id (pblk p a) = int a"
    "\<And>a. a < num_gpu_blocks p \<Longrightarrow> is_null (pblk p a) \<longleftrightarrow> a = 0"
  using assms fq.repr_distinct queue_invD(8)
  by (auto simp: pool_core_def heap_inv_def get_num_free_blocks_def)

lemma pool_free_iff:
  assumes "pool_core R p"
  shows "a \<in> set (free_list p) \<longleftrightarrow> 0 < a \<and> a < num_gpu_blocks p \<and> refs p a = 0 \<and> a \<notin> R"
  using assms by (auto simp: pool_core_def ref_inv_def)

lemma pool_refs_nonneg:
  "pool_core R p \<Longrightarrow> 0 < a \<Longrightarrow> a < num_gpu_blocks p \<Longrightarrow> refs p a \<ge> 0"
  by (auto simp: pool_core_def ref_inv_def)

lemma pool_reservedD:
  "pool_core R p \<Longrightarrow> a \<in> R \<Longrightarrow> 0 < a \<and> a < num_gpu_blocks p \<and> refs p a = 0"
  by (auto simp: pool_core_def ref_inv_def)

lemma same_config_refl [simp]: "same_config p p"
  by (simp add: same_config_def)

lemma same_config_trans: "same_config p q \<Longrightarrow> same_config q r \<Longrightarrow> same_config p r"
  by (simp add: same_config_def)

text \<open>Writes that leave the links alone.\<close>

lemma queue_inv_upd_payload:
  assumes "\<And>b. next_free_block (f b) = next_free_block b" "\<And>b. prev_free_block (f b) = prev_free_block b"
  shows "queue_inv (upd_blk a f h) xs = queue_inv h xs"
proof -
  have "nxt (upd_blk a f h) = nxt h" "prv (upd_blk a f h) = prv h"
    using blk_upd_field [of next_free_block f] blk_upd_field [of prev_free_block f] assms by auto
  then show ?thesis unfolding queue_inv_def upd_blk_fields by (simp add: fun_eq_iff)
qed

lemma heap_inv_upd_payload:
  assumes "\<And>b. next_free_block (f b) = next_free_block b" "\<And>b. prev_free_block (f b) = prev_free_block b"
    and "\<And>b. block_id (f b) = block_id b" "\<And>b. is_null (f b) = is_null b"
  shows "heap_inv n (upd_blk a f h) xs = heap_inv n h xs"
  using assms by (simp add: heap_inv_def queue_inv_upd_payload blk_upd_field)

lemma heap_inv_same_payload:
  assumes "heap_inv n h xs" "same_payload h h'" "queue_inv h' ys"
  shows "heap_inv n h' ys"
  using assms by (auto simp: heap_inv_def same_payload_def)

lemma cache_inv_cong:
  assumes "cache_inv n h m" "\<And>a. a < n \<Longrightarrow> block_hash (blk h' a) = block_hash (blk h a)" "n > 0"
  shows "cache_inv n h' m"
  using assms by (auto simp: cache_inv_def)

lemma same_payloadD:
  assumes "same_payload h h'" "a < length (store h)"
  shows "block_id (blk h' a) = block_id (blk h a)" "ref_cnt (blk h' a) = ref_cnt (blk h a)"
    "block_hash (blk h' a) = block_hash (blk h a)" "is_null (blk h' a) = is_null (blk h a)"
  using assms by (auto simp: same_payload_def)

text \<open>Metrics and events are invisible to the rest of the state.\<close>

lemma on_metrics_fields [simp]:
  "heap (on_metrics f p) = heap p" "num_gpu_blocks (on_metrics f p) = num_gpu_blocks p"
  "enable_caching (on_metrics f p) = enable_caching p"
  "cached_block_hash_to_block (on_metrics f p) = cached_block_hash_to_block p"
  "null_block (on_metrics f p) = null_block p"
  "enable_kv_cache_events (on_metrics f p) = enable_kv_cache_events p"
  "hash_block_size (on_metrics f p) = hash_block_size p"
  by (simp_all add: on_metrics_def)

lemma emit_event_fields [simp]:
  "heap (emit_event e p) = heap p" "num_gpu_blocks (emit_event e p) = num_gpu_blocks p"
  "enable_caching (emit_event e p) = enable_caching p"
  "cached_block_hash_to_block (emit_event e p) = cached_block_hash_to_block p"
  "null_block (emit_event e p) = null_block p"
  "enable_kv_cache_events (emit_event e p) = enable_kv_cache_events p"
  "hash_block_size (emit_event e p) = hash_block_size p"
  by (simp_all add: emit_event_def)

lemma on_heap_fields [simp]:
  "heap (on_heap f p) = f (heap p)" "num_gpu_blocks (on_heap f p) = num_gpu_blocks p"
  "enable_caching (on_heap f p) = enable_caching p"
  "cached_block_hash_to_block (on_heap f p) = cached_block_hash_to_block p"
  "null_block (on_heap f p) = null_block p"
  "enable_kv_cache_events (on_heap f p) = enable_kv_cache_events p"
  "hash_block_size (on_heap f p) = hash_block_size p"
  by (simp_all add: on_heap_def)

lemma free_list_heap: "heap p' = heap p \<Longrightarrow> free_list p' = free_list p"
  by (simp add: free_list_def)

lemma same_config_steps [simp]:
  "same_config p (on_metrics f p)" "same_config p (emit_event e p)" "same_config p (on_heap g p)"
  "same_config p (p\<lparr>heap := h\<rparr>)" "same_config p (p\<lparr>cached_block_hash_to_block := m\<rparr>)"
  by (simp_all add: same_config_def)

lemma pool_core_cong:
  assumes "heap p' = heap p" "num_gpu_blocks p' = num_gpu_blocks p"
    "cached_block_hash_to_block p' = cached_block_hash_to_block p" "null_block p' = null_block p"
  shows "pool_core R p' = pool_core R p"
  using assms free_list_heap [OF assms(1)] by (simp add: pool_core_def)

section \<open>Eviction\<close>

lemma bm_pop_cong:
  assumes "\<And>b. b \<in> bm_cached m k \<Longrightarrow> bid b = bid' b"
  shows "bm_pop bid k i m = bm_pop bid' k i m"
  using assms by (auto simp: bm_pop_def bm_cached_def split: option.splits cached_blocks.splits)

lemma bm_insert_cong:
  assumes "\<And>b. b \<in> insert a (bm_cached m k) \<Longrightarrow> bid b = bid' b"
  shows "bm_insert bid k a m = bm_insert bid' k a m"
  using assms by (auto simp: bm_insert_def bm_cached_def split: option.splits cached_blocks.splits)

lemma heap_inv_reset_hash: "heap_inv n (reset_hash a h) xs = heap_inv n h xs"
  unfolding reset_hash_def by (rule heap_inv_upd_payload) simp_all

lemma reset_hash_reads:
  "ref_cnt (blk (reset_hash a h) x) = ref_cnt (blk h x)"
  "block_id (blk (reset_hash a h) x) = block_id (blk h x)"
  "a < length (store h) \<Longrightarrow> block_hash (blk (reset_hash a h) x) = (if x = a then None else block_hash (blk h x))"
  by (simp_all add: reset_hash_def blk_upd_field blk_upd_blk)

lemma evict_law:
  assumes core: "pool_core R p" and a: "a < num_gpu_blocks p"
    and ev: "maybe_evict_cached_block a E p = (b, p')"
  shows "pool_core R p' \<and> free_list p' = free_list p \<and> same_config p p' \<and> b = (hash_of p a \<noteq> None)
    \<and> (\<forall>x. refs p' x = refs p x) \<and> (\<forall>x. hash_of p' x = (if x = a then None else hash_of p x))"
proof (cases "hash_of p a")
  case None
  then have "p' = on_metrics (on_block_evicted (block_id (pblk p a))) p" "b = False"
    using ev by (auto simp: maybe_evict_cached_block_def Let_def)
  then show ?thesis using core None
    by (simp add: pool_core_cong [of "on_metrics _ p" p] free_list_heap [of "on_metrics _ p" p])
next
  case (Some k)
  note D = pool_coreD [OF core]
  let ?m = "cached_block_hash_to_block p" and ?n = "num_gpu_blocks p"
  have ci: "bm_inv int ?m" "block_hash (pblk p 0) = None"
    "\<And>k. bm_cached ?m k = {a. 0 < a \<and> a < ?n \<and> hash_of p a = Some k}"
    using D(3) by (simp_all add: cache_inv_def)
  have acached: "a \<in> bm_cached ?m k" using Some ci a by (auto intro: gr0I)
  obtain r m' where pop: "bm_pop int k (int a) ?m = (r, m')" by fastforce
  have law: "bm_inv int m'" "bm_cached m' = (bm_cached ?m)(k := bm_cached ?m k - {a})" "r = Some a"
    using hm.pop_law [OF ci(1) _ pop] acached by (auto simp: inj_on_def)
  have "bm_pop (\<lambda>x. block_id (pblk p x)) k (block_id (pblk p a)) ?m = (Some a, m')"
    using bm_pop_cong [of ?m k "\<lambda>x. block_id (pblk p x)" int "int a"] D(10) ci(3) a pop law(3) by simp
  then have p': "heap p' = reset_hash a (heap p)" "num_gpu_blocks p' = ?n"
    "cached_block_hash_to_block p' = m'" "null_block p' = null_block p" "b" "same_config p p'"
    using ev Some by (auto simp: maybe_evict_cached_block_def Let_def same_config_def split: if_splits)
  have len: "a < length (store (heap p))" using D(6) a by simp
  have "heap_inv ?n (heap p') (free_list p)" using D(1) p'(1) by (simp add: heap_inv_reset_hash)
  moreover have "ref_inv R ?n (heap p') (free_list p)"
    using D(2) p'(1) by (simp add: ref_inv_def reset_hash_reads)
  moreover have "cache_inv ?n (heap p') m'"
    unfolding cache_inv_def law(2) p'(1) using law(1) ci(2,3) len by (auto simp: reset_hash_reads Some)
  ultimately have "pool_core R p' \<and> free_list p' = free_list p"
    using pool_coreI [of p' "free_list p" R] p' D(5) by simp
  then show ?thesis using p' Some len by (simp add: reset_hash_reads)
qed

section \<open>Reference counts and allocation\<close>

lemma add_ref_fields [simp]:
  "num_gpu_blocks (add_ref k a p) = num_gpu_blocks p"
  "cached_block_hash_to_block (add_ref k a p) = cached_block_hash_to_block p"
  "null_block (add_ref k a p) = null_block p" "enable_caching (add_ref k a p) = enable_caching p"
  "length (store (heap (add_ref k a p))) = length (store (heap p))"
  "same_config p (add_ref k a p)"
  by (simp_all add: add_ref_def)

lemma add_ref_reads:
  "a < length (store (heap p)) \<Longrightarrow> refs (add_ref k a p) x = refs p x + (if x = a then k else 0)"
  "hash_of (add_ref k a p) x = hash_of p x"
  "is_null (pblk (add_ref k a p) x) = is_null (pblk p x)"
  "block_id (pblk (add_ref k a p) x) = block_id (pblk p x)"
  by (simp_all add: add_ref_def blk_upd_field blk_upd_blk)

lemma heap_inv_add_ref: "heap_inv n (heap (add_ref k a p)) xs = heap_inv n (heap p) xs"
  unfolding add_ref_def on_heap_fields by (rule heap_inv_upd_payload) simp_all

lemma cache_inv_add_ref: "cache_inv n (heap (add_ref k a p)) m = cache_inv n (heap p) m"
  by (simp add: cache_inv_def add_ref_reads)

text \<open>Taking a detached block: from reserved to referenced.\<close>

lemma add_ref_detached:
  assumes core: "pool_core (insert a R) p" and "a \<notin> R"
  shows "pool_core R (add_ref 1 a p) \<and> free_list (add_ref 1 a p) = free_list p"
proof -
  note D = pool_coreD [OF core]
  have a: "0 < a" "a < num_gpu_blocks p" "refs p a = 0" using pool_reservedD [OF core] by auto
  have "a < length (store (heap p))" using D(6) a by simp
  note rd = add_ref_reads(1) [OF this]
  have "ref_inv R (num_gpu_blocks p) (heap (add_ref 1 a p)) (free_list p)"
    using D(2) assms(2) a unfolding ref_inv_def by (auto simp: rd)
  then show ?thesis using D by (intro pool_coreI) (simp_all add: heap_inv_add_ref cache_inv_add_ref)
qed

text \<open>One more or one fewer reference on a block that keeps at least one, or on the null block.\<close>

lemma add_ref_referenced:
  assumes core: "pool_core R p" and a: "a < num_gpu_blocks p"
    and ok: "a = 0 \<or> (refs p a > 0 \<and> refs p a + k > 0)"
  shows "pool_core R (add_ref k a p) \<and> free_list (add_ref k a p) = free_list p"
proof -
  note D = pool_coreD [OF core]
  have "a < length (store (heap p))" using D(6) a by simp
  note rd = add_ref_reads(1) [OF this]
  have "ref_inv R (num_gpu_blocks p) (heap (add_ref k a p)) (free_list p)"
    using D(2) ok unfolding ref_inv_def by (auto simp: rd)
  then show ?thesis using D by (intro pool_coreI) (simp_all add: heap_inv_add_ref cache_inv_add_ref)
qed

lemma queue_op_core:
  assumes core: "pool_core R p" and q: "queue_inv h ys" "same_payload (heap p) h"
    and R': "\<forall>a \<in> R'. 0 < a \<and> a < num_gpu_blocks p \<and> refs p a = 0"
      "set ys = {a. 0 < a \<and> a < num_gpu_blocks p \<and> refs p a = 0 \<and> a \<notin> R'}"
  shows "pool_core R' (p\<lparr>heap := h\<rparr>) \<and> free_list (p\<lparr>heap := h\<rparr>) = ys"
proof -
  note D = pool_coreD [OF core]
  have sp: "ref_cnt (blk h a) = refs p a" "block_hash (blk h a) = hash_of p a"
    if "a < num_gpu_blocks p" for a
    using same_payloadD [OF q(2), of a] that D(6) by auto
  have "heap_inv (num_gpu_blocks p) h ys" by (rule heap_inv_same_payload [OF D(1) q(2,1)])
  moreover have "ref_inv R' (num_gpu_blocks p) h ys"
    unfolding ref_inv_def
  proof (intro conjI)
    show "\<forall>a. 0 < a \<and> a < num_gpu_blocks p \<longrightarrow> 0 \<le> ref_cnt (blk h a)"
      using D(2) sp(1) by (simp add: ref_inv_def)
    show "\<forall>a \<in> R'. 0 < a \<and> a < num_gpu_blocks p \<and> ref_cnt (blk h a) = 0"
      using R'(1) sp(1) by simp
    show "set ys = {a. 0 < a \<and> a < num_gpu_blocks p \<and> ref_cnt (blk h a) = 0 \<and> a \<notin> R'}"
      unfolding R'(2) using sp(1) by (intro Collect_cong) auto
  qed
  moreover have "cache_inv (num_gpu_blocks p) h (cached_block_hash_to_block p)"
    by (rule cache_inv_cong [OF D(3) sp(2) D(7)])
  ultimately show ?thesis using D(5) by (intro pool_coreI) simp_all
qed

lemma claim_block_law:
  assumes core: "pool_core (insert a R) p" and "a \<notin> R"
  shows "\<exists>p'. claim_block E a p = Inr p' \<and> pool_core R p' \<and> free_list p' = free_list p
    \<and> same_config p p'
    \<and> (\<forall>x. refs p' x = refs p x + (if x = a then 1 else 0))
    \<and> (\<forall>x. hash_of p' x = (if x = a \<and> enable_caching p then None else hash_of p x))"
proof -
  have a: "a < num_gpu_blocks p" "refs p a = 0" using pool_reservedD [OF core] by auto
  define p1 where "p1 = (if enable_caching p then snd (maybe_evict_cached_block a E p) else p)"
  have p1: "pool_core (insert a R) p1" "free_list p1 = free_list p" "same_config p p1"
    "\<forall>x. refs p1 x = refs p x"
    "\<forall>x. hash_of p1 x = (if x = a \<and> enable_caching p then None else hash_of p x)"
    using core evict_law [OF core a(1)] by (auto simp: p1_def) (metis prod.collapse)+
  have len: "a < length (store (heap p1))"
    using pool_coreD(6) [OF p1(1)] a(1) p1(3) by (simp add: same_config_def)
  let ?p = "on_metrics (on_block_allocated (block_id (pblk (add_ref 1 a p1) a))) (add_ref 1 a p1)"
  have "pool_core R ?p \<and> free_list ?p = free_list p1"
    using add_ref_detached [OF p1(1) assms(2)] pool_core_cong [of ?p "add_ref 1 a p1"]
      free_list_heap [of ?p "add_ref 1 a p1"] by simp
  moreover have "claim_block E a p = Inr ?p"
    using a(2) p1(4) by (simp add: claim_block_def p1_def [symmetric] Let_def)
  moreover have "same_config p ?p"
    using p1(3) by (meson add_ref_fields(6) same_config_steps(1) same_config_trans)
  ultimately show ?thesis using p1 len by (simp add: add_ref_reads)
qed

lemma claim_blocks_law:
  assumes "pool_core (R \<union> set bs) p" "distinct bs" "R \<inter> set bs = {}"
  shows "\<exists>p'. fold_res (claim_block E) bs p = Inr p' \<and> pool_core R p' \<and> free_list p' = free_list p
    \<and> same_config p p'
    \<and> (\<forall>x. refs p' x = refs p x + (if x \<in> set bs then 1 else 0))
    \<and> (\<forall>x. hash_of p' x = (if x \<in> set bs \<and> enable_caching p then None else hash_of p x))"
  using assms
proof (induction bs arbitrary: p)
  case Nil
  then show ?case by simp
next
  case (Cons b bs)
  have "pool_core (insert b (R \<union> set bs)) p" using Cons.prems(1) by simp
  moreover have "b \<notin> R \<union> set bs" using Cons.prems by auto
  ultimately obtain p1 where p1: "claim_block E b p = Inr p1" "pool_core (R \<union> set bs) p1"
    "free_list p1 = free_list p" "same_config p p1"
    "\<forall>x. refs p1 x = refs p x + (if x = b then 1 else 0)"
    "\<forall>x. hash_of p1 x = (if x = b \<and> enable_caching p then None else hash_of p x)"
    using claim_block_law by blast
  with Cons.IH [OF p1(2)] Cons.prems obtain p2 where p2: "fold_res (claim_block E) bs p1 = Inr p2"
    "pool_core R p2" "free_list p2 = free_list p1" "same_config p1 p2"
    "\<forall>x. refs p2 x = refs p1 x + (if x \<in> set bs then 1 else 0)"
    "\<forall>x. hash_of p2 x = (if x \<in> set bs \<and> enable_caching p1 then None else hash_of p1 x)"
    by auto
  have "enable_caching p1 = enable_caching p" using p1(4) by (simp add: same_config_def)
  moreover have "same_config p p2" using same_config_trans p1(4) p2(4) by blast
  ultimately show ?case using p1 p2 Cons.prems(2) by auto
qed

text \<open>Allocation takes the first \<open>n\<close> blocks of the eviction order.\<close>

lemma get_new_blocks_law:
  assumes core: "pool_core R p" and n: "0 \<le> n" "n \<le> int (length (free_list p))"
  shows "\<exists>p'. get_new_blocks E n p = Inr (take (nat n) (free_list p), p') \<and> pool_core R p'
    \<and> free_list p' = drop (nat n) (free_list p) \<and> same_config p p'
    \<and> (\<forall>x. x < num_gpu_blocks p \<longrightarrow>
         refs p' x = refs p x + (if x \<in> set (take (nat n) (free_list p)) then 1 else 0))
    \<and> (\<forall>x. x < num_gpu_blocks p \<longrightarrow>
         hash_of p' x = (if x \<in> set (take (nat n) (free_list p)) \<and> enable_caching p
                         then None else hash_of p x))"
proof -
  note D = pool_coreD [OF core]
  let ?xs = "free_list p" and ?bs = "take (nat n) (free_list p)"
  obtain h where h: "popleft_n n (heap p) = Inr (?bs, h)" "queue_inv h (drop (nat n) ?xs)"
    "same_payload (heap p) h"
    using fq.pop_n_take [OF D(4) n] by blast
  have dist: "distinct ?bs" "set ?bs \<inter> set (drop (nat n) ?xs) = {}"
    using D(8) by (simp_all add: set_take_disj_set_drop_if_distinct)
  have mem: "set ?xs = set ?bs \<union> set (drop (nat n) ?xs)"
    by (metis append_take_drop_id set_append)
  have bs: "0 < a \<and> a < num_gpu_blocks p \<and> refs p a = 0 \<and> a \<notin> R" if "a \<in> set ?bs" for a
    using that in_set_takeD pool_free_iff [OF core] by metis
  have "pool_core (R \<union> set ?bs) (p\<lparr>heap := h\<rparr>) \<and> free_list (p\<lparr>heap := h\<rparr>) = drop (nat n) ?xs"
  proof (rule queue_op_core [OF core h(2,3)])
    show "\<forall>a \<in> R \<union> set ?bs. 0 < a \<and> a < num_gpu_blocks p \<and> refs p a = 0"
      using bs pool_reservedD [OF core] by blast
    show "set (drop (nat n) ?xs) =
      {a. 0 < a \<and> a < num_gpu_blocks p \<and> refs p a = 0 \<and> a \<notin> R \<union> set ?bs}"
      using mem dist(2) pool_free_iff [OF core] by blast
  qed
  moreover have "R \<inter> set ?bs = {}" using bs by blast
  ultimately obtain p' where p': "fold_res (claim_block E) ?bs (p\<lparr>heap := h\<rparr>) = Inr p'" "pool_core R p'"
    "free_list p' = drop (nat n) ?xs" "same_config (p\<lparr>heap := h\<rparr>) p'"
    "\<forall>x. refs p' x = ref_cnt (blk h x) + (if x \<in> set ?bs then 1 else 0)"
    "\<forall>x. hash_of p' x = (if x \<in> set ?bs \<and> enable_caching p then None else block_hash (blk h x))"
    using claim_blocks_law [of R ?bs "p\<lparr>heap := h\<rparr>" E] dist(1) by auto
  have "get_new_blocks E n p = Inr (?bs, p')"
    using h(1) p'(1) n D(9) by (simp add: get_new_blocks_def)
  moreover have "same_config p p'" using p'(4) same_config_steps(4) same_config_trans by blast
  moreover have "ref_cnt (blk h x) = refs p x" "block_hash (blk h x) = hash_of p x"
    if "x < num_gpu_blocks p" for x
    using same_payloadD(2,3) [OF h(3), of x] that D(6) by simp_all
  ultimately show ?thesis using p' by simp
qed

lemma get_new_blocks_error:
  "pool_core R p \<Longrightarrow> n > int (length (free_list p)) \<Longrightarrow> get_new_blocks E n p = Inl ValueError"
  using pool_coreD(9) by (simp add: get_new_blocks_def)

section \<open>Touching and freeing\<close>

lemma touch_block_law:
  assumes core: "pool_core R p" and a: "a < num_gpu_blocks p" "a \<notin> R"
  shows "\<exists>p'. touch_block a p = Inr p' \<and> pool_core R p'
    \<and> free_list p' = filter (\<lambda>x. x \<noteq> a) (free_list p) \<and> same_config p p'
    \<and> (\<forall>x. x < num_gpu_blocks p \<longrightarrow> refs p' x = refs p x + (if x = a then 1 else 0))
    \<and> (\<forall>x. x < num_gpu_blocks p \<longrightarrow> hash_of p' x = hash_of p x)"
proof -
  note D = pool_coreD [OF core]
  have fin: "?thesis" if t: "touch_block a p = Inr (on_metrics (on_block_accessed (block_id (pblk (add_ref 1 a q) a))) (add_ref 1 a q))"
    and q: "pool_core R (add_ref 1 a q)" "free_list (add_ref 1 a q) = filter (\<lambda>x. x \<noteq> a) (free_list p)"
      "same_config p q" "length (store (heap q)) = length (store (heap p))"
      "\<And>x. x < num_gpu_blocks p \<Longrightarrow> refs q x = refs p x \<and> hash_of q x = hash_of p x" for q
  proof -
    let ?p = "on_metrics (on_block_accessed (block_id (pblk (add_ref 1 a q) a))) (add_ref 1 a q)"
    have "pool_core R ?p" "free_list ?p = free_list (add_ref 1 a q)"
      using q(1) pool_core_cong [of ?p "add_ref 1 a q"] free_list_heap [of ?p "add_ref 1 a q"] by simp_all
    moreover have "same_config p ?p"
      using q(3) by (meson add_ref_fields(6) same_config_steps(1) same_config_trans)
    moreover have "a < length (store (heap q))" using a D(6) q(4) by simp
    ultimately show ?thesis using t q by (simp add: add_ref_reads)
  qed
  show ?thesis
  proof (cases "a \<in> set (free_list p)")
    case True
    then have a0: "0 < a" "refs p a = 0" using pool_free_iff [OF core] by auto
    obtain h where h: "remove a (heap p) = Inr h" "queue_inv h (remove1 a (free_list p))"
      "same_payload (heap p) h"
      using fq.rem_mem [OF D(4) True] by blast
    have rm: "remove1 a (free_list p) = filter (\<lambda>x. x \<noteq> a) (free_list p)"
      using D(8) by (auto simp: distinct_remove1_removeAll removeAll_filter_not_eq intro: filter_cong)
    have "pool_core (insert a R) (p\<lparr>heap := h\<rparr>) \<and> free_list (p\<lparr>heap := h\<rparr>) = remove1 a (free_list p)"
    proof (rule queue_op_core [OF core h(2,3)])
      show "\<forall>x \<in> insert a R. 0 < x \<and> x < num_gpu_blocks p \<and> refs p x = 0"
        using a0 a pool_reservedD [OF core] by blast
      show "set (remove1 a (free_list p)) =
        {x. 0 < x \<and> x < num_gpu_blocks p \<and> refs p x = 0 \<and> x \<notin> insert a R}"
        unfolding rm using pool_free_iff [OF core] by auto
    qed
    then have "pool_core R (add_ref 1 a (p\<lparr>heap := h\<rparr>))
        \<and> free_list (add_ref 1 a (p\<lparr>heap := h\<rparr>)) = filter (\<lambda>x. x \<noteq> a) (free_list p)"
      using add_ref_detached [of a R "p\<lparr>heap := h\<rparr>"] a(2) rm by simp
    then show ?thesis
    proof (intro fin [of "p\<lparr>heap := h\<rparr>"])
      show "touch_block a p = Inr (on_metrics (on_block_accessed (block_id (pblk (add_ref 1 a (p\<lparr>heap := h\<rparr>)) a)))
          (add_ref 1 a (p\<lparr>heap := h\<rparr>)))"
        using a0 a h(1) D(11) [OF a(1)] by (simp add: touch_block_def Let_def)
      show "length (store (heap (p\<lparr>heap := h\<rparr>))) = length (store (heap p))"
        using h(3) by (simp add: same_payload_def)
      fix x assume "x < num_gpu_blocks p"
      then show "refs (p\<lparr>heap := h\<rparr>) x = refs p x \<and> hash_of (p\<lparr>heap := h\<rparr>) x = hash_of p x"
        using same_payloadD(2,3) [OF h(3), of x] D(6) by simp
    qed simp_all
  next
    case False
    then have ok: "a = 0 \<or> (refs p a > 0 \<and> refs p a + 1 > 0)"
      using pool_free_iff [OF core, of a] pool_refs_nonneg [OF core, of a] a by fastforce
    have "filter (\<lambda>x. x \<noteq> a) (free_list p) = free_list p" using False by (auto intro: filter_True)
    with add_ref_referenced [OF core a(1) ok] show ?thesis
    proof (intro fin [of p])
      show "touch_block a p = Inr (on_metrics (on_block_accessed (block_id (pblk (add_ref 1 a p) a))) (add_ref 1 a p))"
        using ok D(11) [OF a(1)] by (auto simp: touch_block_def Let_def)
    qed simp_all
  qed
qed

lemma touch_law:
  assumes "pool_core R p" "\<forall>a \<in> set bs. a < num_gpu_blocks p \<and> a \<notin> R"
  shows "\<exists>p'. touch bs p = Inr p' \<and> pool_core R p'
    \<and> free_list p' = filter (\<lambda>x. x \<notin> set bs) (free_list p) \<and> same_config p p'
    \<and> (\<forall>x. x < num_gpu_blocks p \<longrightarrow> refs p' x = refs p x + int (count_list bs x))
    \<and> (\<forall>x. x < num_gpu_blocks p \<longrightarrow> hash_of p' x = hash_of p x)"
  using assms
proof (induction bs arbitrary: p)
  case Nil
  then show ?case by (simp add: touch_def)
next
  case (Cons b bs)
  obtain p1 where p1: "touch_block b p = Inr p1" "pool_core R p1"
    "free_list p1 = filter (\<lambda>x. x \<noteq> b) (free_list p)" "same_config p p1"
    "\<forall>x. x < num_gpu_blocks p \<longrightarrow> refs p1 x = refs p x + (if x = b then 1 else 0)"
    "\<forall>x. x < num_gpu_blocks p \<longrightarrow> hash_of p1 x = hash_of p x"
    using touch_block_law [OF Cons.prems(1), of b] Cons.prems(2) by auto
  have n: "num_gpu_blocks p1 = num_gpu_blocks p" using p1(4) by (simp add: same_config_def)
  obtain p2 where p2: "touch bs p1 = Inr p2" "pool_core R p2"
    "free_list p2 = filter (\<lambda>x. x \<notin> set bs) (free_list p1)" "same_config p1 p2"
    "\<forall>x. x < num_gpu_blocks p \<longrightarrow> refs p2 x = refs p1 x + int (count_list bs x)"
    "\<forall>x. x < num_gpu_blocks p \<longrightarrow> hash_of p2 x = hash_of p1 x"
    using Cons.IH [OF p1(2)] Cons.prems(2) n by auto
  have "free_list p2 = filter (\<lambda>x. x \<notin> set (b # bs)) (free_list p)"
    unfolding p2(3) p1(3) by (auto intro: filter_cong)
  moreover have "touch (b # bs) p = Inr p2" using p1(1) p2(1) by (simp add: touch_def)
  moreover have "same_config p p2" using same_config_trans p1(4) p2(4) by blast
  ultimately show ?case using p1(5,6) p2(2,5,6) by auto
qed

lemma drop_refs_effect:
  assumes "\<forall>a \<in> set bs. a < length (store (heap p))"
  shows "same_config p (fold (add_ref (-1)) bs p)
    \<and> cached_block_hash_to_block (fold (add_ref (-1)) bs p) = cached_block_hash_to_block p
    \<and> length (store (heap (fold (add_ref (-1)) bs p))) = length (store (heap p))
    \<and> (\<forall>x. refs (fold (add_ref (-1)) bs p) x = refs p x - int (count_list bs x))
    \<and> (\<forall>x. hash_of (fold (add_ref (-1)) bs p) x = hash_of p x)
    \<and> (\<forall>x. is_null (pblk (fold (add_ref (-1)) bs p) x) = is_null (pblk p x))
    \<and> (\<forall>n xs. heap_inv n (heap (fold (add_ref (-1)) bs p)) xs = heap_inv n (heap p) xs)"
  using assms
proof (induction bs arbitrary: p)
  case Nil
  then show ?case by simp
next
  case (Cons b bs)
  have b: "b < length (store (heap p))" using Cons.prems by simp
  have "\<forall>a \<in> set bs. a < length (store (heap (add_ref (-1) b p)))" using Cons.prems by simp
  from Cons.IH [OF this] show ?case
    using same_config_trans [OF add_ref_fields(6), of "-1" b p]
    by (simp add: add_ref_reads(1) [OF b] add_ref_reads(2-) heap_inv_add_ref)
qed

text \<open>
  Freeing gives up one reference per listed block and appends the blocks that became unreferenced,
  in the given order. Each non-null block may be listed once only and must be referenced.
\<close>

lemma free_blocks_law:
  assumes core: "pool_core R p" and bs: "\<forall>a \<in> set bs. a < num_gpu_blocks p"
    "distinct (filter (\<lambda>a. a \<noteq> 0) bs)" "\<forall>a \<in> set bs. a \<noteq> 0 \<longrightarrow> refs p a > 0"
  shows "\<exists>p'. free_blocks bs p = Inr p' \<and> pool_core R p'
    \<and> free_list p' = free_list p @ filter (\<lambda>a. a \<noteq> 0 \<and> refs p a = 1) bs \<and> same_config p p'
    \<and> (\<forall>x. x < num_gpu_blocks p \<longrightarrow> refs p' x = refs p x - int (count_list bs x))
    \<and> (\<forall>x. x < num_gpu_blocks p \<longrightarrow> hash_of p' x = hash_of p x)"
proof -
  note D = pool_coreD [OF core]
  let ?n = "num_gpu_blocks p" and ?xs = "free_list p"
  let ?fs = "filter (\<lambda>a. a \<noteq> 0 \<and> refs p a = 1) bs"
  define p1 where "p1 = fold (add_ref (-1)) bs p"
  have "\<forall>a \<in> set bs. a < length (store (heap p))" using bs(1) D(6) by auto
  from drop_refs_effect [OF this]
  have p1: "same_config p p1" "cached_block_hash_to_block p1 = cached_block_hash_to_block p"
    "length (store (heap p1)) = length (store (heap p))"
    "\<And>x. refs p1 x = refs p x - int (count_list bs x)" "\<And>x. hash_of p1 x = hash_of p x"
    "\<And>x. is_null (pblk p1 x) = is_null (pblk p x)" "heap_inv ?n (heap p1) ?xs"
    using D(1) by (simp_all add: p1_def)
  have cnt: "count_list bs x = (if x \<in> set bs then 1 else 0)" if "x \<noteq> 0" for x
  proof -
    have "count_list bs x = count_list (filter (\<lambda>a. a \<noteq> 0) bs) x"
      using that by (induction bs) auto
    then show ?thesis using count_list_distinct [OF bs(2), of x] that by simp
  qed
  have fs: "filter (\<lambda>a. refs p1 a = 0 \<and> \<not> is_null (pblk p1 a)) bs = ?fs"
    using bs(1) cnt D(11) p1(4,6) by (intro filter_cong) auto
  have q1: "queue_inv (heap p1) ?xs" using p1(7) by (simp add: heap_inv_def)
  have "distinct ?fs" using distinct_filter [OF bs(2), of "\<lambda>a. refs p a = 1"] by (simp add: conj_commute)
  moreover have "a \<notin> set ?xs" if "a \<in> set ?fs" for a
    using that pool_free_iff [OF core, of a] by simp
  then have "set ?fs \<inter> set ?xs = {}" by blast
  moreover have "\<forall>b \<in> set ?fs. list_member_ok (heap p1) b"
    using bs(1) p1(7) by (auto simp: list_member_ok_def heap_inv_def)
  ultimately obtain h where h: "append_n ?fs (heap p1) = Inr h" "queue_inv h (?xs @ ?fs)"
    "same_payload (heap p1) h"
    using fq.put_n_fresh [OF q1] by blast
  let ?p = "p1\<lparr>heap := h\<rparr>"
  have n1: "num_gpu_blocks p1 = ?n" "null_block p1 = 0" using p1(1) D(5) by (auto simp: same_config_def)
  have rd: "refs ?p x = refs p x - int (count_list bs x)" "hash_of ?p x = hash_of p x" if "x < ?n" for x
    using same_payloadD(2,3) [OF h(3), of x] that D(6) p1(3,4,5) by simp_all
  have "heap_inv ?n h (?xs @ ?fs)" by (rule heap_inv_same_payload [OF p1(7) h(3,2)])
  moreover have "ref_inv R ?n h (?xs @ ?fs)"
    unfolding ref_inv_def
  proof (intro conjI allI impI ballI)
    fix a assume a: "0 < a \<and> a < ?n"
    then show "0 \<le> ref_cnt (blk h a)"
      using rd(1) [of a] cnt [of a] bs(3) pool_refs_nonneg [OF core, of a] by force
  next
    fix a assume "a \<in> R"
    then have a: "0 < a" "a < ?n" "refs p a = 0" using pool_reservedD [OF core] by auto
    moreover have "a \<notin> set bs" using a bs(3) by force
    ultimately show "0 < a" "a < ?n" "ref_cnt (blk h a) = 0" using rd(1) [of a] cnt [of a] by auto
  next
    have "a \<in> set (?xs @ ?fs) \<longleftrightarrow> 0 < a \<and> a < ?n \<and> ref_cnt (blk h a) = 0 \<and> a \<notin> R" for a
    proof (cases "0 < a \<and> a < ?n")
      case True
      have "a \<in> R \<Longrightarrow> refs p a = 0" using pool_reservedD [OF core] by blast
      with True show ?thesis using rd(1) [of a] cnt [of a] bs(3) pool_free_iff [OF core, of a]
        by (cases "a \<in> set bs") auto
    next
      case False
      then show ?thesis using bs(1) pool_free_iff [OF core, of a] by auto
    qed
    then show "set (?xs @ ?fs) = {a. 0 < a \<and> a < ?n \<and> ref_cnt (blk h a) = 0 \<and> a \<notin> R}" by blast
  qed
  moreover have "cache_inv ?n h (cached_block_hash_to_block p1)"
    unfolding p1(2) by (rule cache_inv_cong [OF D(3) _ D(7)]) (use rd(2) in simp)
  ultimately have "pool_core R ?p \<and> free_list ?p = ?xs @ ?fs"
    using n1 by (intro pool_coreI) simp_all
  moreover have "free_blocks bs p = Inr ?p"
    using h(1) fs by (simp add: free_blocks_def p1_def [symmetric])
  moreover have "same_config p ?p" using p1(1) by (simp add: same_config_def)
  ultimately show ?thesis using rd by blast
qed

section \<open>Construction, explicit eviction, reset\<close>

lemma block_pool_init_law:
  assumes "n > 0"
  shows "\<exists>p. block_pool_init n caching hbs events mc = Inr p \<and> pool_core {} p
    \<and> num_gpu_blocks p = nat n \<and> enable_caching p = caching \<and> hash_block_size p = hbs
    \<and> free_list p = [1..<nat n] \<and> (\<forall>a < nat n. refs p a = 0 \<and> hash_of p a = None)
    \<and> enable_kv_cache_events p = events"
proof -
  let ?bs = "map (\<lambda>i. new_block (int i)) [0..<nat n]"
  let ?h0 = "\<lparr>store = ?bs @ [new_block (-1), new_block (-1)], fake_free_list_head = length ?bs,
    fake_free_list_tail = length ?bs + 1, num_free_blocks = int (length ?bs)\<rparr>"
  have fresh: "\<forall>b \<in> set ?bs. prev_free_block b = None \<and> next_free_block b = None"
    by (auto simp: new_block_def)
  have q: "queue_inv (queue_init ?bs) (0 # [1..<nat n])"
    using queue_init_inv(1) [OF fresh] assms by (simp add: upt_conv_Cons)
  obtain h1 where h1: "popleft (queue_init ?bs) = Inr (0, h1)" "queue_inv h1 [1..<nat n]"
    "same_payload (queue_init ?bs) h1"
    using popleft_Cons [OF q] by blast
  have sp: "same_payload ?h0 h1" using same_payload_trans [OF queue_init_inv(2) [OF fresh] h1(3)] .
  define h2 where "h2 = upd_blk 0 (\<lambda>b. b\<lparr>is_null := True\<rparr>) h1"
  have len: "length (store h1) = nat n + 2" "fake_free_list_head h1 = nat n" "fake_free_list_tail h1 = nat n + 1"
    using sp by (simp_all add: same_payload_def)
  have pay: "block_id (blk h1 a) = int a" "ref_cnt (blk h1 a) = 0" "block_hash (blk h1 a) = None"
    "\<not> is_null (blk h1 a)" if "a < nat n" for a
    using same_payloadD [OF sp, of a] that by (simp_all add: blk_def new_block_def nth_append)
  have pay2: "block_id (blk h2 a) = int a" "ref_cnt (blk h2 a) = 0" "block_hash (blk h2 a) = None"
    "is_null (blk h2 a) \<longleftrightarrow> a = 0" if "a < nat n" for a
    using pay [OF that] len by (auto simp: h2_def blk_upd_blk)
  define p where "p = \<lparr>heap = h2, num_gpu_blocks = nat n, enable_caching = caching, hash_block_size = hbs,
     cached_block_hash_to_block = [], null_block = 0, enable_kv_cache_events = events,
     kv_event_queue = [], metrics_collector = mc\<rparr>"
  have "queue_inv h2 [1..<nat n]" using h1(2) unfolding h2_def by (subst queue_inv_upd_payload) simp_all
  then have "heap_inv (nat n) h2 [1..<nat n]"
    using assms len pay2 by (simp add: heap_inv_def h2_def)
  moreover have "ref_inv {} (nat n) h2 [1..<nat n]" using pay2 by (auto simp: ref_inv_def)
  moreover have "cache_inv (nat n) h2 []"
    using pay2 assms by (auto simp: cache_inv_def bm_inv_def bm_cached_def)
  ultimately have "pool_core {} p \<and> free_list p = [1..<nat n]"
    by (intro pool_coreI) (simp_all add: p_def)
  moreover have "block_pool_init n caching hbs events mc = Inr p"
    using assms h1(1) by (simp add: block_pool_init_def h2_def p_def)
  ultimately show ?thesis using pay2 by (auto simp: p_def)
qed

lemma evict_blocks_law:
  assumes "pool_core R p" "\<forall>i \<in> set ids. 0 \<le> i \<and> i < int (num_gpu_blocks p)"
  shows "\<exists>p'. evict_blocks E ids p = Inr p' \<and> pool_core R p' \<and> free_list p' = free_list p
    \<and> same_config p p' \<and> (\<forall>x. refs p' x = refs p x)
    \<and> (\<forall>x. hash_of p' x = (if int x \<in> set ids then None else hash_of p x))"
  using assms
proof (induction ids arbitrary: p)
  case Nil
  then show ?case by (simp add: evict_blocks_def)
next
  case (Cons i ids)
  then have i: "nat i < num_gpu_blocks p" "0 \<le> i" "i < int (num_gpu_blocks p)" by auto
  obtain b p1 where ev: "maybe_evict_cached_block (nat i) E p = (b, p1)" by fastforce
  note L = evict_law [OF Cons.prems(1) i(1) ev]
  have "num_gpu_blocks p1 = num_gpu_blocks p" using L by (simp add: same_config_def)
  with Cons.IH [of p1] Cons.prems(2) L obtain p2 where p2: "evict_blocks E ids p1 = Inr p2"
    "pool_core R p2" "free_list p2 = free_list p1" "same_config p1 p2"
    "\<forall>x. refs p2 x = refs p1 x" "\<forall>x. hash_of p2 x = (if int x \<in> set ids then None else hash_of p1 x)"
    by auto
  have "evict_blocks E (i # ids) p = Inr p2"
    using p2(1) ev i by (simp add: evict_blocks_def evict_block_id_def)
  moreover have "same_config p p2" using L p2(4) same_config_trans by blast
  moreover have "int x = i \<longleftrightarrow> x = nat i" for x using i by auto
  ultimately show ?case using L p2 by auto
qed

lemma reset_hashes_effect:
  assumes "\<forall>a \<in> set as. a < length (store (heap p))"
  shows "same_config p (fold (\<lambda>a. on_heap (reset_hash a)) as p)
    \<and> cached_block_hash_to_block (fold (\<lambda>a. on_heap (reset_hash a)) as p) = cached_block_hash_to_block p
    \<and> (\<forall>x. refs (fold (\<lambda>a. on_heap (reset_hash a)) as p) x = refs p x)
    \<and> (\<forall>x. hash_of (fold (\<lambda>a. on_heap (reset_hash a)) as p) x = (if x \<in> set as then None else hash_of p x))
    \<and> (\<forall>n xs. heap_inv n (heap (fold (\<lambda>a. on_heap (reset_hash a)) as p)) xs = heap_inv n (heap p) xs)"
  using assms
proof (induction as arbitrary: p)
  case Nil
  then show ?case by simp
next
  case (Cons a as)
  have a: "a < length (store (heap p))" using Cons.prems by simp
  have "\<forall>x \<in> set as. x < length (store (heap (on_heap (reset_hash a) p)))"
    using Cons.prems by (simp add: reset_hash_def)
  from Cons.IH [OF this] show ?case
    using same_config_trans [OF same_config_steps(3), of "reset_hash a" p] a
    by (simp add: reset_hash_reads heap_inv_reset_hash)
qed

text \<open>The cache is reset iff no block is in use; then no hash survives.\<close>

lemma reset_prefix_cache_law:
  assumes core: "pool_core R p" and res: "reset_prefix_cache p = (ok, p')"
  shows "pool_core R p' \<and> free_list p' = free_list p \<and> same_config p p'
    \<and> ok = (length (free_list p) + 1 = num_gpu_blocks p)
    \<and> (\<forall>x. refs p' x = refs p x)
    \<and> (\<not> ok \<longrightarrow> p' = p)
    \<and> (ok \<longrightarrow> (\<forall>a < num_gpu_blocks p. hash_of p' a = None) \<and> cached_block_hash_to_block p' = [])"
proof (cases "int (num_gpu_blocks p) - get_num_free_blocks p \<noteq> 1")
  case True
  then show ?thesis using res core pool_coreD(9) [OF core] by (auto simp: reset_prefix_cache_def)
next
  case False
  note D = pool_coreD [OF core]
  let ?n = "num_gpu_blocks p"
  define p2 where "p2 = fold (\<lambda>a. on_heap (reset_hash a)) [0..<?n] (p\<lparr>cached_block_hash_to_block := []\<rparr>)"
  have "\<forall>a \<in> set [0..<?n]. a < length (store (heap (p\<lparr>cached_block_hash_to_block := []\<rparr>)))"
    using D(6) by simp
  note R = reset_hashes_effect [OF this, folded p2_def]
  have p2: "same_config p p2" "cached_block_hash_to_block p2 = []" "\<And>x. refs p2 x = refs p x"
    "\<And>x. hash_of p2 x = (if x < ?n then None else hash_of p x)" "heap_inv ?n (heap p2) (free_list p)"
    using R D(1) by (auto simp: same_config_def)
  have p': "heap p' = heap p2" "cached_block_hash_to_block p' = []" "same_config p p'" "ok"
    using res False p2(1,2)
    by (auto simp: reset_prefix_cache_def p2_def [symmetric] same_config_def split: if_splits)
  have "ref_inv R ?n (heap p') (free_list p)" using D(2) p2(3) by (simp add: ref_inv_def p')
  moreover have "cache_inv ?n (heap p') []"
    using p2(4) D(7) by (auto simp: cache_inv_def bm_inv_def bm_cached_def p')
  ultimately have "pool_core R p' \<and> free_list p' = free_list p"
    using p'(1,2,3) p2(5) D(5) by (intro pool_coreI) (simp_all add: same_config_def)
  then show ?thesis using p' p2(3,4) False D(9) by auto
qed

section \<open>Lookup and insertion\<close>

text \<open>A lookup that hits returns, for every group, a block carrying that group's key.\<close>

lemma get_cached_block_law:
  assumes core: "pool_core R p" and g: "\<forall>g \<in> set gs. 0 \<le> g \<and> g < 2 ^ 32"
  shows "\<exists>res. get_cached_block p h gs = Inr res \<and>
    (case res of
       None \<Rightarrow> \<exists>g \<in> set gs. \<forall>a k. a < num_gpu_blocks p \<longrightarrow> make_block_hash_with_group_id h g = Inr k \<longrightarrow>
                 hash_of p a \<noteq> Some k
     | Some bs \<Rightarrow> length bs = length gs \<and> (\<forall>i < length gs. 0 < bs ! i \<and> bs ! i < num_gpu_blocks p
         \<and> (\<exists>k. make_block_hash_with_group_id h (gs ! i) = Inr k \<and> hash_of p (bs ! i) = Some k)))"
  using g
proof (induction gs)
  case Nil
  then show ?case by simp
next
  case (Cons g gs)
  let ?m = "cached_block_hash_to_block p"
  obtain k where k: "make_block_hash_with_group_id h g = Inr k"
    using make_block_hash_with_group_id_ok [of g h] Cons.prems by auto
  have ci: "bm_inv int ?m" "block_hash (pblk p 0) = None"
    "bm_cached ?m k = {a. 0 < a \<and> a < num_gpu_blocks p \<and> hash_of p a = Some k}"
    using pool_coreD(3) [OF core] by (simp_all add: cache_inv_def)
  from hm.get_one_cases [OF ci(1), of k] show ?case
  proof
    assume m: "get_one_block ?m k = Inr None \<and> bm_cached ?m k = {}"
    then have "\<forall>a. a < num_gpu_blocks p \<longrightarrow> hash_of p a \<noteq> Some k"
      using ci(2,3) by (metis (mono_tags, lifting) empty_Collect_eq gr0I option.distinct(1))
    then show ?thesis using m k by auto
  next
    assume "\<exists>a. get_one_block ?m k = Inr (Some a) \<and> a \<in> bm_cached ?m k"
    then obtain a where a: "get_one_block ?m k = Inr (Some a)" "0 < a" "a < num_gpu_blocks p"
      "hash_of p a = Some k" using ci(3) by auto
    from Cons obtain res where res: "get_cached_block p h gs = Inr res" and
      spec: "case res of None \<Rightarrow> \<exists>g \<in> set gs. \<forall>a k. a < num_gpu_blocks p \<longrightarrow>
          make_block_hash_with_group_id h g = Inr k \<longrightarrow> hash_of p a \<noteq> Some k
        | Some bs \<Rightarrow> length bs = length gs \<and> (\<forall>i < length gs. 0 < bs ! i \<and> bs ! i < num_gpu_blocks p
         \<and> (\<exists>k. make_block_hash_with_group_id h (gs ! i) = Inr k \<and> hash_of p (bs ! i) = Some k))"
      by auto
    show ?thesis
    proof (cases res)
      case None
      then show ?thesis using res spec a(1) k by auto
    next
      case (Some bs)
      then have "get_cached_block p h (g # gs) = Inr (Some (a # bs))" using res a(1) k by simp
      then show ?thesis using spec Some a k by (auto simp: less_Suc_eq_0_disj)
    qed
  qed
qed

lemma cache_one_law:
  assumes core: "pool_core R p" and b: "0 < b" "b < num_gpu_blocks p" "hash_of p b = None"
  shows "\<exists>h'. set_block_hash b k (heap p) = Inr h' \<and>
    (let p1 = p\<lparr>heap := h', cached_block_hash_to_block :=
                bm_insert (\<lambda>a. block_id (blk h' a)) k b (cached_block_hash_to_block p)\<rparr>
     in pool_core R p1 \<and> free_list p1 = free_list p \<and> same_config p p1
       \<and> (\<forall>x. refs p1 x = refs p x) \<and> (\<forall>x. is_null (pblk p1 x) = is_null (pblk p x))
       \<and> (\<forall>x. hash_of p1 x = (if x = b then Some k else hash_of p x)))"
proof -
  note D = pool_coreD [OF core]
  let ?n = "num_gpu_blocks p" and ?m = "cached_block_hash_to_block p"
  define h' where "h' = upd_blk b (\<lambda>c. c\<lparr>block_hash := Some k\<rparr>) (heap p)"
  have set: "set_block_hash b k (heap p) = Inr h'" using b(3) by (simp add: set_block_hash_def h'_def)
  have len: "b < length (store (heap p))" using D(6) b by simp
  have rd: "ref_cnt (blk h' x) = refs p x" "block_id (blk h' x) = block_id (pblk p x)"
    "is_null (blk h' x) = is_null (pblk p x)"
    "block_hash (blk h' x) = (if x = b then Some k else hash_of p x)" for x
    using len by (simp_all add: h'_def blk_upd_blk blk_upd_field)
  have ci: "bm_inv int ?m" "block_hash (pblk p 0) = None"
    "\<And>k. bm_cached ?m k = {a. 0 < a \<and> a < ?n \<and> hash_of p a = Some k}"
    using D(3) by (simp_all add: cache_inv_def)
  have ins: "bm_insert (\<lambda>a. block_id (blk h' a)) k b ?m = bm_insert int k b ?m"
    using D(10) b ci(3) rd(2) by (intro bm_insert_cong) auto
  have law: "bm_inv int (bm_insert int k b ?m)"
    "bm_cached (bm_insert int k b ?m) = (bm_cached ?m)(k := insert b (bm_cached ?m k))"
    using hm.ins_law [OF ci(1), of b k] by (auto simp: inj_on_def)
  let ?p = "p\<lparr>heap := h', cached_block_hash_to_block := bm_insert (\<lambda>a. block_id (blk h' a)) k b ?m\<rparr>"
  have "heap_inv ?n h' (free_list p)" unfolding h'_def using D(1) by (subst heap_inv_upd_payload) simp_all
  moreover have "ref_inv R ?n h' (free_list p)" using D(2) by (simp add: ref_inv_def rd)
  moreover have "cache_inv ?n h' (bm_insert int k b ?m)"
    unfolding cache_inv_def law(2) using law(1) ci b by (auto simp: rd)
  ultimately have "pool_core R ?p \<and> free_list ?p = free_list p"
    using D(5) ins by (intro pool_coreI) simp_all
  then show ?thesis using set rd by (intro exI [of _ h']) (simp add: same_config_def)
qed

lemma cache_blocks_loop_law:
  assumes "pool_core R p" "0 \<le> gid" "gid < 2 ^ 32" "i + length bs \<le> length hs"
    and "\<forall>a \<in> set bs. a < num_gpu_blocks p \<and> (a \<noteq> 0 \<longrightarrow> hash_of p a = None)"
    and "distinct (filter (\<lambda>a. a \<noteq> 0) bs)"
  shows "\<exists>p' out'. cache_blocks_loop E hs gid i bs (p, out) = Inr (p', out')
    \<and> pool_core R p' \<and> free_list p' = free_list p \<and> same_config p p'
    \<and> (\<forall>x. refs p' x = refs p x) \<and> (\<forall>x. is_null (pblk p' x) = is_null (pblk p x))
    \<and> (\<forall>x. x \<notin> set bs \<or> x = 0 \<longrightarrow> hash_of p' x = hash_of p x)
    \<and> (\<forall>j < length bs. bs ! j \<noteq> 0 \<longrightarrow>
         (\<exists>k. make_block_hash_with_group_id (hs ! (i + j)) gid = Inr k \<and> hash_of p' (bs ! j) = Some k))"
  using assms
proof (induction bs arbitrary: i p out)
  case Nil
  then show ?case by simp
next
  case (Cons b bs)
  have nul: "is_null (pblk p b) \<longleftrightarrow> b = 0"
    using pool_coreD(11) [OF Cons.prems(1)] Cons.prems(5) by simp
  show ?case
  proof (cases "b = 0")
    case True
    with Cons.IH [OF Cons.prems(1-3), of "i + 1" out] Cons.prems(4-6) nul show ?thesis
      by (auto simp: less_Suc_eq_0_disj)
  next
    case False
    then have b: "0 < b" "b < num_gpu_blocks p" "hash_of p b = None" "b \<notin> set bs"
      using Cons.prems(5,6) by auto
    obtain k where k: "make_block_hash_with_group_id (hs ! i) gid = Inr k"
      using make_block_hash_with_group_id_ok [OF Cons.prems(2,3)] by blast
    obtain h' p1 where h': "set_block_hash b k (heap p) = Inr h'"
      and p1: "p1 = p\<lparr>heap := h', cached_block_hash_to_block :=
                bm_insert (\<lambda>a. block_id (blk h' a)) k b (cached_block_hash_to_block p)\<rparr>"
        "pool_core R p1" "free_list p1 = free_list p" "same_config p p1" "\<forall>x. refs p1 x = refs p x"
        "\<forall>x. is_null (pblk p1 x) = is_null (pblk p x)"
        "\<forall>x. hash_of p1 x = (if x = b then Some k else hash_of p x)"
      using cache_one_law [OF Cons.prems(1) b(1-3), of k] unfolding Let_def by blast
    have n1: "num_gpu_blocks p1 = num_gpu_blocks p" using p1(4) by (simp add: same_config_def)
    have pre: "\<forall>a \<in> set bs. a < num_gpu_blocks p1 \<and> (a \<noteq> 0 \<longrightarrow> hash_of p1 a = None)"
      using Cons.prems(5) p1(7) b(4) n1 by auto
    have "i + 1 + length bs \<le> length hs" "distinct (filter (\<lambda>a. a \<noteq> 0) bs)"
      using Cons.prems(4,6) False by auto
    from Cons.IH [OF p1(2) Cons.prems(2,3) this(1) pre this(2), of "out @ [maybe_convert_block_hash E (hs ! i)]"]
    obtain p' out' where p': "cache_blocks_loop E hs gid (i + 1) bs (p1, out @ [maybe_convert_block_hash E (hs ! i)])
        = Inr (p', out')" "pool_core R p'" "free_list p' = free_list p1" "same_config p1 p'"
      "\<forall>x. refs p' x = refs p1 x" "\<forall>x. is_null (pblk p' x) = is_null (pblk p1 x)"
      "\<forall>x. x \<notin> set bs \<or> x = 0 \<longrightarrow> hash_of p' x = hash_of p1 x"
      "\<forall>j < length bs. bs ! j \<noteq> 0 \<longrightarrow>
         (\<exists>k. make_block_hash_with_group_id (hs ! (i + 1 + j)) gid = Inr k \<and> hash_of p' (bs ! j) = Some k)"
      by blast
    have "cache_blocks_loop E hs gid i (b # bs) (p, out) = Inr (p', out')"
      using nul False b(3) Cons.prems(4) k h' p1(1) p'(1) by simp
    moreover have "same_config p p'" using p1(4) p'(4) same_config_trans by blast
    moreover have "hash_of p' b = Some k" using p'(7) b(4) p1(7) by simp
    then have "\<forall>j < length (b # bs). (b # bs) ! j \<noteq> 0 \<longrightarrow>
         (\<exists>k. make_block_hash_with_group_id (hs ! (i + j)) gid = Inr k \<and> hash_of p' ((b # bs) ! j) = Some k)"
      using p'(8) k by (auto simp: less_Suc_eq_0_disj)
    moreover have "\<forall>x. x \<notin> set (b # bs) \<or> x = 0 \<longrightarrow> hash_of p' x = hash_of p x"
      using p'(7) p1(7) False by auto
    ultimately show ?thesis using p' p1 by auto
  qed
qed

text \<open>The event part reads keys but cannot fail on the blocks of the request.\<close>

lemma mm_keys_nonneg:
  assumes "0 \<le> i"
  shows "\<exists>ks j m. generate_block_hash_extra_keys E r s e i = Inr (ks, j, with_memo r m) \<and> 0 \<le> j"
proof -
  have "\<exists>ks j. gen_mm_extra_hash_keys r s e i = Inr (ks, j) \<and> 0 \<le> j"
    using assms by (auto simp: gen_mm_extra_hash_keys_def Let_def split: prod.splits)
  then obtain ks j where g: "gen_mm_extra_hash_keys r s e i = Inr (ks, j)" "0 \<le> j" by blast
  obtain ek r' where e: "gen_prompt_embeds_extra_hash_keys E r s e = (ek, r')" by fastforce
  then have "\<exists>m. r' = with_memo r m"
    by (auto simp: gen_prompt_embeds_extra_hash_keys_def Let_def split: option.splits
        intro: exI [of _ "prompt_embeds_per_block_hashes r"])
  with g e show ?thesis by (auto simp: generate_block_hash_extra_keys_def)
qed

lemma event_keys_loop_ok:
  assumes "\<forall>i \<in> set is. i < length blocks" "0 \<le> mm"
  shows "\<exists>ks m. event_keys_loop E p blocks bs is (mm, acc, r) = Inr (ks, with_memo r m)"
  using assms
proof (induction "is" arbitrary: mm acc r)
  case Nil
  show ?case by (intro exI [of _ acc] exI [of _ "prompt_embeds_per_block_hashes r"]) simp
next
  case (Cons i js)
  show ?case
  proof (cases "is_null (pblk p (blocks ! i))")
    case True
    with Cons.IH [of mm acc r] Cons.prems show ?thesis by simp
  next
    case False
    obtain ks j m where g: "generate_block_hash_extra_keys E r (i * bs) (i * bs + bs) mm
        = Inr (ks, j, with_memo r m)" "0 \<le> j"
      using mm_keys_nonneg [OF Cons.prems(2)] by blast
    obtain ks' m' where "event_keys_loop E p blocks bs js (j, acc @ [ks], with_memo r m)
        = Inr (ks', with_memo (with_memo r m) m')"
      using Cons.IH [of j "acc @ [ks]" "with_memo r m"] Cons.prems(1) g(2) by auto
    with False g(1) Cons.prems(1) show ?thesis
      by (intro exI [of _ ks'] exI [of _ m']) simp
  qed
qed

lemma cache_full_blocks_law:
  assumes core: "pool_core R p" and gid: "0 \<le> gid" "gid < 2 ^ 32"
    and len: "num_full \<le> length (block_hashes r)" "num_full \<le> length blocks"
    and view: "hashes_at_block_size (block_hashes r) (hash_block_size p) bs = Inr view"
      "view_from view num_cached = Inr hs" "num_full \<le> num_cached + length hs"
      "num_cached = 0 \<or> (\<exists>h. view_at view (num_cached - 1) = Inr h)"
    and new: "\<forall>a \<in> set (py_slice num_cached num_full blocks).
        a < num_gpu_blocks p \<and> (a \<noteq> 0 \<longrightarrow> hash_of p a = None)"
      "distinct (filter (\<lambda>a. a \<noteq> 0) (py_slice num_cached num_full blocks))"
  shows "\<exists>p' m. cache_full_blocks E p r blocks num_cached num_full bs gid = Inr (p', with_memo r m)
    \<and> pool_core R p' \<and> free_list p' = free_list p \<and> same_config p p'
    \<and> (\<forall>x. refs p' x = refs p x)
    \<and> (\<forall>x. x \<notin> set (py_slice num_cached num_full blocks) \<or> x = 0 \<longrightarrow> hash_of p' x = hash_of p x)
    \<and> (\<forall>i. num_cached \<le> i \<and> i < num_full \<and> blocks ! i \<noteq> 0 \<longrightarrow>
         (\<exists>k. make_block_hash_with_group_id (hs ! (i - num_cached)) gid = Inr k
            \<and> hash_of p' (blocks ! i) = Some k))"
proof (cases "num_cached \<ge> num_full")
  case True
  then show ?thesis using core
    by (intro exI [of _ p] exI [of _ "prompt_embeds_per_block_hashes r"])
      (auto simp: cache_full_blocks_def py_slice_def)
next
  case False
  let ?sl = "py_slice num_cached num_full blocks"
  have sl: "length ?sl = num_full - num_cached" using len(2) by simp
  obtain p1 out where p1: "cache_blocks_loop E hs gid 0 ?sl (p, []) = Inr (p1, out)"
    "pool_core R p1" "free_list p1 = free_list p" "same_config p p1" "\<forall>x. refs p1 x = refs p x"
    "\<forall>x. x \<notin> set ?sl \<or> x = 0 \<longrightarrow> hash_of p1 x = hash_of p x"
    "\<forall>j < length ?sl. ?sl ! j \<noteq> 0 \<longrightarrow>
       (\<exists>k. make_block_hash_with_group_id (hs ! j) gid = Inr k \<and> hash_of p1 (?sl ! j) = Some k)"
  proof -
    have "0 + length ?sl \<le> length hs" using view(3) sl by simp
    from cache_blocks_loop_law [OF core gid this new, of E "[]"] show ?thesis
      by (elim exE conjE) (rule that; simp)
  qed
  have keyed: "\<exists>k. make_block_hash_with_group_id (hs ! (i - num_cached)) gid = Inr k
      \<and> hash_of p1 (blocks ! i) = Some k" if "num_cached \<le> i" "i < num_full" "blocks ! i \<noteq> 0" for i
  proof -
    have "?sl ! (i - num_cached) = blocks ! i" using that len(2) by simp
    moreover have "i - num_cached < length ?sl" using that(1,2) len(2) by auto
    ultimately show ?thesis using p1(7) that(3) by metis
  qed
  obtain parent where parent: "(if num_cached = 0 then Inr None else res_bind (view_at view (num_cached - 1))
      (\<lambda>h. Inr (Some (maybe_convert_block_hash E h)))) = Inr parent"
    using view(4) by (cases "num_cached = 0") auto
  obtain ks m where ks: "event_keys_loop E p1 blocks bs [num_cached..<num_full] (0, [], r) = Inr (ks, with_memo r m)"
    using event_keys_loop_ok [of "[num_cached..<num_full]" blocks 0 E p1 bs "[]" r] len(2) by auto
  have run: "\<exists>p' m. cache_full_blocks E p r blocks num_cached num_full bs gid = Inr (p', with_memo r m)
      \<and> (p' = p1 \<or> (\<exists>e. p' = emit_event e p1))"
  proof (cases "enable_kv_cache_events p1")
    case True
    then have "\<exists>e. cache_full_blocks E p r blocks num_cached num_full bs gid
        = Inr (emit_event e p1, with_memo r m)"
      using False len(1) view(1,2) p1(1) parent ks by (simp add: cache_full_blocks_def) blast
    then show ?thesis by blast
  next
    case ev: False
    then show ?thesis using False len(1) view(1,2) p1(1)
      by (intro exI [of _ p1] exI [of _ "prompt_embeds_per_block_hashes r"]) (simp add: cache_full_blocks_def)
  qed
  then obtain p' m' where p': "cache_full_blocks E p r blocks num_cached num_full bs gid = Inr (p', with_memo r m')"
    "p' = p1 \<or> (\<exists>e. p' = emit_event e p1)" by blast
  have hp: "heap p' = heap p1" "num_gpu_blocks p' = num_gpu_blocks p1"
    "cached_block_hash_to_block p' = cached_block_hash_to_block p1" "null_block p' = null_block p1"
    "same_config p p'"
    using p'(2) p1(4) by (auto simp: same_config_def)
  have "pool_core R p'" "free_list p' = free_list p"
    using p1(2,3) pool_core_cong [OF hp(1-4)] free_list_heap [OF hp(1)] by simp_all
  with p'(1) hp p1(5,6) keyed show ?thesis by auto
qed

end
