(* ===== verification/Single_Type_Managers.thy ===== *)
theory Single_Type_Managers
  imports Block_Pool KV_Cache_Spec
begin

text \<open>
  src/vllm/vllm/v1/core/single_type_kv_cache_manager.py: the per-request block tables of one KV
  cache group. The class of a manager is determined by its spec, so the methods dispatch on it; the
  block pool, shared between the managers, is threaded through. \<^verbatim>\<open>req_to_blocks\<close> is a
  \<^verbatim>\<open>defaultdict(list)\<close>: an access by subscript creates the entry, an access by \<^verbatim>\<open>get\<close> or \<^verbatim>\<open>pop\<close> does
  not. Comparing a block with the null block is comparing object identity here, since ids differ.
\<close>

section \<open>State\<close>

record manager =
  mg_spec :: kv_cache_spec
  mg_block_size :: int
  mg_enable_caching :: bool
  new_block_ids :: "int list"
  req_to_blocks :: "(string, nat list) odict"
  num_cached_block :: "(string, nat) odict"
  kv_cache_group_id :: int
  mg_null_block :: nat
  cached_blocks_this_step :: "bytes list"
  last_state_block_idx :: "(string, int) odict"
  allocated_block_reqs :: "string list"
  sink_blocks :: "nat list"

definition blocks_of :: "manager \<Rightarrow> string \<Rightarrow> nat list" where
  "blocks_of m rid = (case map_of (req_to_blocks m) rid of None \<Rightarrow> [] | Some bs \<Rightarrow> bs)"

definition set_blocks :: "string \<Rightarrow> nat list \<Rightarrow> manager \<Rightarrow> manager" where
  "set_blocks rid bs m = m\<lparr>req_to_blocks := AList.update rid bs (req_to_blocks m)\<rparr>"

text \<open>\<^verbatim>\<open>self.req_to_blocks[rid]\<close> creates a missing entry.\<close>

definition touch_entry :: "string \<Rightarrow> manager \<Rightarrow> manager" where
  "touch_entry rid m = set_blocks rid (blocks_of m rid) m"

definition base_manager_init ::
  "kv_cache_spec \<Rightarrow> block_pool \<Rightarrow> bool \<Rightarrow> int \<Rightarrow> int \<Rightarrow> int \<Rightarrow> manager" where
  "base_manager_init spec p caching gid dcp pcp =
     \<lparr>mg_spec = spec,
      mg_block_size = (if dcp * pcp > 1 then block_size spec * (dcp * pcp) else block_size spec),
      mg_enable_caching = caching, new_block_ids = [], req_to_blocks = [], num_cached_block = [],
      kv_cache_group_id = gid, mg_null_block = null_block p, cached_blocks_this_step = [],
      last_state_block_idx = [], allocated_block_reqs = [], sink_blocks = []\<rparr>"

text \<open>\<^verbatim>\<open>spec_manager_map\<close> and the constructors; the sink manager takes its blocks off the queue.\<close>

definition get_manager_for_kv_cache_spec ::
  "kv_cache_spec \<Rightarrow> block_pool \<Rightarrow> bool \<Rightarrow> int \<Rightarrow> int \<Rightarrow> int \<Rightarrow> (manager \<times> block_pool) res" where
  "get_manager_for_kv_cache_spec spec p caching gid dcp pcp =
     (let m = base_manager_init spec p caching gid dcp pcp in
      case spec of
        SinkFullAttentionSpec a f sink_len \<Rightarrow>
          (case sink_len of
             None \<Rightarrow> Inl AssertionError
           | Some n \<Rightarrow>
               guard (n > 0 \<and> n mod mg_block_size m = 0) AssertionError
                 (res_bind (popleft_n (n div mg_block_size m) (heap p)) (\<lambda>(bs, h).
                    Inr (m\<lparr>sink_blocks := bs\<rparr>, p\<lparr>heap := h\<rparr>))))
      | EncoderOnlyAttentionSpec a \<Rightarrow> Inl KeyError
      | UniformTypeKVCacheSpecs b ss \<Rightarrow> Inl KeyError
      | _ \<Rightarrow> Inr (m, p))"

section \<open>Skipped tokens\<close>

definition sw_num_skipped_tokens :: "int \<Rightarrow> int \<Rightarrow> int" where
  "sw_num_skipped_tokens w num_computed = max 0 (num_computed - w + 1)"

definition chunked_num_skipped_tokens :: "int \<Rightarrow> int \<Rightarrow> int" where
  "chunked_num_skipped_tokens c num_computed =
     (num_computed div c) * c"

definition mamba_num_skipped_tokens :: "int \<Rightarrow> int" where
  "mamba_num_skipped_tokens num_computed = num_computed - 1"

definition get_num_skipped_tokens :: "manager \<Rightarrow> int \<Rightarrow> int" where
  "get_num_skipped_tokens m num_computed =
     (case mg_spec m of
        SlidingWindowSpec a w \<Rightarrow> sw_num_skipped_tokens w num_computed
      | ChunkedLocalAttentionSpec a c \<Rightarrow> chunked_num_skipped_tokens c num_computed
      | MambaSpec s \<Rightarrow> mamba_num_skipped_tokens num_computed
      | _ \<Rightarrow> 0)"

section \<open>Counting the blocks to allocate\<close>

definition get_num_evictable_blocks :: "block_pool \<Rightarrow> nat list \<Rightarrow> int" where
  "get_num_evictable_blocks p bs =
     int (length (filter (\<lambda>a. refs p a = 0 \<and> \<not> is_null (pblk p a)) bs))"

definition base_get_num_blocks_to_allocate ::
  "manager \<Rightarrow> block_pool \<Rightarrow> string \<Rightarrow> int \<Rightarrow> nat list \<Rightarrow> int \<Rightarrow> int res" where
  "base_get_num_blocks_to_allocate m p rid ntok new_computed total_computed =
     (let required = cdiv ntok (mg_block_size m);
          num_req = int (length (blocks_of m rid)) in
      if map_of (num_cached_block m) rid \<noteq> None
      then guard (new_computed = []) AssertionError (Inr (max (required - num_req) 0))
      else
        let skipped = get_num_skipped_tokens m total_computed div mg_block_size m;
            local_computed = int (length new_computed) + num_req;
            num_new = max (required - max skipped local_computed) 0;
            skipped_new = max 0 (skipped - num_req)
        in Inr (num_new + get_num_evictable_blocks p (drop (nat skipped_new) new_computed)))"

definition mamba_get_num_blocks_to_allocate ::
  "mamba_fields \<Rightarrow> manager \<Rightarrow> block_pool \<Rightarrow> string \<Rightarrow> int \<Rightarrow> nat list \<Rightarrow> int \<Rightarrow> int
     \<Rightarrow> (int \<times> manager) res" where
  "mamba_get_num_blocks_to_allocate s m p rid ntok new_computed total_computed ntok_main =
     (if new_computed \<noteq> [] \<and> (case hash_of p (last new_computed) of
           None \<Rightarrow> False | Some k \<Rightarrow> k \<in> set (cached_blocks_this_step m))
      then Inr (int (num_gpu_blocks p) + 1, m)
      else if mamba_cache_mode s \<noteq> ''align''
      then res_bind (base_get_num_blocks_to_allocate m p rid
             (if num_speculative_blocks s > 0
              then ntok + block_size (mg_spec m) * num_speculative_blocks s else ntok)
             new_computed total_computed) (\<lambda>n. Inr (n, m))
      else
        let required = cdiv ntok_main (mg_block_size m) + num_speculative_blocks s;
            num_new = required - int (length new_computed) - int (length (blocks_of m rid));
            num_new' = (if num_new > 0
              then (if rid \<in> set (allocated_block_reqs m) then 1 else 1 + num_speculative_blocks s)
              else num_new)
        in Inr (num_new' + get_num_evictable_blocks p new_computed, touch_entry rid m))"

definition get_num_blocks_to_allocate ::
  "manager \<Rightarrow> block_pool \<Rightarrow> string \<Rightarrow> int \<Rightarrow> nat list \<Rightarrow> int \<Rightarrow> int \<Rightarrow> (int \<times> manager) res" where
  "get_num_blocks_to_allocate m p rid ntok new_computed total_computed ntok_main =
     (case mg_spec m of
        MambaSpec s \<Rightarrow> mamba_get_num_blocks_to_allocate s m p rid ntok new_computed
                         total_computed ntok_main
      | _ \<Rightarrow> res_bind (base_get_num_blocks_to_allocate m p rid ntok new_computed total_computed)
               (\<lambda>n. Inr (n, m)))"

section \<open>Allocation\<close>

definition tracks_new_block_ids :: "kv_cache_spec \<Rightarrow> bool" where
  "tracks_new_block_ids s =
     (case s of FullAttentionSpec a f \<Rightarrow> True | TQFullAttentionSpec a f t \<Rightarrow> True | _ \<Rightarrow> False)"

definition add_new_block_ids :: "block_pool \<Rightarrow> nat list \<Rightarrow> manager \<Rightarrow> manager" where
  "add_new_block_ids p bs m =
     (if tracks_new_block_ids (mg_spec m)
      then m\<lparr>new_block_ids := new_block_ids m @ map (\<lambda>a. block_id (pblk p a)) bs\<rparr> else m)"

definition base_allocate_new_computed_blocks ::
  "hash_env \<Rightarrow> manager \<Rightarrow> block_pool \<Rightarrow> string \<Rightarrow> nat list \<Rightarrow> int \<Rightarrow> int \<Rightarrow> (manager \<times> block_pool) res" where
  "base_allocate_new_computed_blocks E m p rid new_computed num_local num_external =
     (if map_of (num_cached_block m) rid \<noteq> None
      then guard (new_computed = []) AssertionError (Inr (m, p))
      else guard (blocks_of m rid = []) AssertionError
       (let total = num_local + num_external;
            skipped_tokens = get_num_skipped_tokens m total;
            skipped = skipped_tokens div mg_block_size m;
            computed = (if skipped > 0 then drop (nat skipped) new_computed else new_computed);
            external = (if skipped > 0 then min (total - skipped_tokens) num_external else num_external) in
        res_bind (if mg_enable_caching m then touch computed p
                  else guard (computed = []) AssertionError (Inr p)) (\<lambda>p1.
        let bs = replicate (nat skipped) (mg_null_block m) @ computed;
            m1 = m\<lparr>num_cached_block := AList.update rid (length bs) (num_cached_block m)\<rparr> in
        if external > 0
        then res_bind (get_new_blocks E (cdiv total (mg_block_size m) - int (length bs)) p1) (\<lambda>(new, p2).
               Inr (add_new_block_ids p2 new (set_blocks rid (bs @ new) m1), p2))
        else Inr (set_blocks rid bs m1, p1))))"

definition allocate_new_computed_blocks ::
  "hash_env \<Rightarrow> manager \<Rightarrow> block_pool \<Rightarrow> string \<Rightarrow> nat list \<Rightarrow> int \<Rightarrow> int \<Rightarrow> (manager \<times> block_pool) res" where
  "allocate_new_computed_blocks E m p rid new_computed num_local num_external =
     (case mg_spec m of
        CrossAttentionSpec a \<Rightarrow> guard (new_computed = []) AssertionError (Inr (m, p))
      | _ \<Rightarrow> base_allocate_new_computed_blocks E m p rid new_computed num_local num_external)"

definition base_allocate_new_blocks ::
  "hash_env \<Rightarrow> manager \<Rightarrow> block_pool \<Rightarrow> string \<Rightarrow> int \<Rightarrow> (nat list \<times> manager \<times> block_pool) res" where
  "base_allocate_new_blocks E m p rid ntok =
     (let bs = blocks_of m rid;
          num_new = cdiv ntok (mg_block_size m) - int (length bs) in
      if num_new \<le> 0 then Inr ([], touch_entry rid m, p)
      else res_bind (get_new_blocks E num_new p) (\<lambda>(new, p1).
             Inr (new, add_new_block_ids p1 new (set_blocks rid (bs @ new) m), p1)))"

text \<open>The reuse loop of the aligned Mamba manager over the previous speculative blocks.\<close>

fun reuse_spec_blocks :: "nat \<Rightarrow> nat list \<Rightarrow> int \<Rightarrow> nat list \<Rightarrow> nat list" where
  "reuse_spec_blocks null [] skipped bs = bs"
| "reuse_spec_blocks null (i # is) skipped bs =
     (if int i < skipped
      then reuse_spec_blocks null is skipped ((bs @ [bs ! i])[i := null])
      else bs)"

text \<open>
  Once a request is in \<^verbatim>\<open>_allocated_block_reqs\<close> it holds at least the speculative blocks, so
  \<^verbatim>\<open>range(prev - spec, prev)\<close> starts at a non-negative index.
\<close>

definition mamba_allocate_new_blocks ::
  "hash_env \<Rightarrow> mamba_fields \<Rightarrow> manager \<Rightarrow> block_pool \<Rightarrow> string \<Rightarrow> int \<Rightarrow> int
     \<Rightarrow> (nat list \<times> manager \<times> block_pool) res" where
  "mamba_allocate_new_blocks E s m p rid ntok ntok_main =
     (let nspec = num_speculative_blocks s in
      if mamba_cache_mode s \<noteq> ''align''
      then base_allocate_new_blocks E m p rid
             (if nspec > 0 then ntok + mg_block_size m * nspec else ntok)
      else
        let bs = blocks_of m rid; prev = int (length bs);
            required = cdiv ntok_main (mg_block_size m) + nspec;
            allocated = (rid \<in> set (allocated_block_reqs m)) in
        if required = prev then Inr ([], touch_entry rid m, p)
        else guard (required > prev) AssertionError
          (let m1 = (if allocated
                     then m\<lparr>last_state_block_idx := AList.update rid (prev - 1 - nspec) (last_state_block_idx m)\<rparr>
                     else if prev > 0
                     then m\<lparr>last_state_block_idx := AList.update rid (prev - 1) (last_state_block_idx m)\<rparr>
                     else m);
               skipped = required - nspec - 1;
               bs1 = (if prev < skipped then bs @ replicate (nat (skipped - prev)) (mg_null_block m) else bs);
               bs2 = (if allocated
                      then reuse_spec_blocks (mg_null_block m) [nat (prev - nspec)..<nat prev] skipped bs1
                      else bs1);
               num_new = required - int (length bs2) in
           guard (if allocated then num_new \<le> 1 else num_new \<le> nspec + 1) AssertionError
             (res_bind (get_new_blocks E num_new p) (\<lambda>(new, p1).
                Inr (drop (nat prev) (bs2 @ new),
                     (set_blocks rid (bs2 @ new) m1)\<lparr>allocated_block_reqs :=
                        List.insert rid (allocated_block_reqs m1)\<rparr>, p1)))))"

definition allocate_new_blocks ::
  "hash_env \<Rightarrow> manager \<Rightarrow> block_pool \<Rightarrow> string \<Rightarrow> int \<Rightarrow> int \<Rightarrow> (nat list \<times> manager \<times> block_pool) res" where
  "allocate_new_blocks E m p rid ntok ntok_main =
     (case mg_spec m of
        MambaSpec s \<Rightarrow> mamba_allocate_new_blocks E s m p rid ntok ntok_main
      | _ \<Rightarrow> base_allocate_new_blocks E m p rid ntok)"

definition take_new_block_ids :: "manager \<Rightarrow> int list \<times> manager" where
  "take_new_block_ids m = (new_block_ids m, m\<lparr>new_block_ids := []\<rparr>)"

section \<open>Caching and freeing\<close>

definition base_cache_blocks ::
  "hash_env \<Rightarrow> manager \<Rightarrow> block_pool \<Rightarrow> request \<Rightarrow> int \<Rightarrow> (manager \<times> block_pool \<times> request) res" where
  "base_cache_blocks E m p r ntok =
     (let rid = request_id r;
          cached = (case map_of (num_cached_block m) rid of None \<Rightarrow> 0 | Some n \<Rightarrow> n);
          full = ntok div mg_block_size m in
      if int cached \<ge> full then Inr (m, p, r)
      else res_bind (cache_full_blocks E p r (blocks_of m rid) cached (nat full)
                       (nat (mg_block_size m)) (kv_cache_group_id m)) (\<lambda>(p1, r1).
             Inr ((touch_entry rid m)\<lparr>num_cached_block :=
                    AList.update rid (nat full) (num_cached_block m)\<rparr>, p1, r1)))"

definition cached_count :: "manager \<Rightarrow> string \<Rightarrow> nat" where
  "cached_count m rid = (case map_of (num_cached_block m) rid of None \<Rightarrow> 0 | Some n \<Rightarrow> n)"

definition mamba_cache_blocks ::
  "hash_env \<Rightarrow> manager \<Rightarrow> block_pool \<Rightarrow> request \<Rightarrow> int \<Rightarrow> (manager \<times> block_pool \<times> request) res" where
  "mamba_cache_blocks E m p r ntok =
     (let earlier = cached_count m (request_id r) in
      res_bind (base_cache_blocks E m p r ntok) (\<lambda>(m1, p1, r1).
        let after = cached_count m1 (request_id r) in
        if after > earlier
        then res_bind (fold_res (\<lambda>a acc.
               if is_null (pblk p1 a) then Inr acc
               else case hash_of p1 a of None \<Rightarrow> Inl AssertionError | Some k \<Rightarrow> Inr (List.insert k acc))
               (py_slice earlier after (blocks_of m1 (request_id r))) (cached_blocks_this_step m1))
             (\<lambda>s. Inr ((touch_entry (request_id r) m1)\<lparr>cached_blocks_this_step := s\<rparr>, p1, r1))
        else Inr (m1, p1, r1)))"

definition cache_blocks ::
  "hash_env \<Rightarrow> manager \<Rightarrow> block_pool \<Rightarrow> request \<Rightarrow> int \<Rightarrow> (manager \<times> block_pool \<times> request) res" where
  "cache_blocks E m p r ntok =
     (case mg_spec m of
        MambaSpec s \<Rightarrow> mamba_cache_blocks E m p r ntok
      | CrossAttentionSpec a \<Rightarrow> Inl ValueError
      | _ \<Rightarrow> base_cache_blocks E m p r ntok)"

definition mg_free :: "manager \<Rightarrow> block_pool \<Rightarrow> string \<Rightarrow> (manager \<times> block_pool) res" where
  "mg_free m p rid =
     (let m1 = (case mg_spec m of
                  MambaSpec s \<Rightarrow> (if mamba_cache_mode s = ''align''
                    then m\<lparr>allocated_block_reqs := removeAll rid (allocated_block_reqs m),
                           last_state_block_idx := AList.delete rid (last_state_block_idx m)\<rparr> else m)
                | _ \<Rightarrow> m) in
      res_bind (free_blocks (rev (blocks_of m rid)) p) (\<lambda>p1.
        Inr (m1\<lparr>req_to_blocks := AList.delete rid (req_to_blocks m),
                num_cached_block := AList.delete rid (num_cached_block m)\<rparr>, p1)))"

text \<open>The loop of \<^verbatim>\<open>remove_skipped_blocks\<close> from index \<open>k - 1\<close> down to the first null block.\<close>

fun strip_blocks :: "nat \<Rightarrow> nat \<Rightarrow> nat list \<Rightarrow> nat list \<Rightarrow> nat list \<times> nat list" where
  "strip_blocks null 0 bs removed = (bs, removed)"
| "strip_blocks null (Suc i) bs removed =
     (if bs ! i = null then (bs, removed)
      else strip_blocks null i (bs[i := null]) (removed @ [bs ! i]))"

definition base_remove_skipped_blocks ::
  "manager \<Rightarrow> block_pool \<Rightarrow> string \<Rightarrow> int \<Rightarrow> (manager \<times> block_pool) res" where
  "base_remove_skipped_blocks m p rid total_computed =
     (let skipped_tokens = get_num_skipped_tokens m total_computed in
      if skipped_tokens \<le> 0 then Inr (m, p)
      else
        let bs = blocks_of m rid;
            k = min (skipped_tokens div mg_block_size m) (int (length bs));
            (bs', removed) = strip_blocks (mg_null_block m) (nat k) bs []
        in res_bind (free_blocks removed p) (\<lambda>p1. Inr (set_blocks rid bs' m, p1)))"

text \<open>\<^verbatim>\<open>blocks[idx]\<close> with Python's negative indices.\<close>

definition py_index :: "'a list \<Rightarrow> int \<Rightarrow> nat option" where
  "py_index xs i =
     (let j = (if i < 0 then int (length xs) + i else i)
      in if 0 \<le> j \<and> j < int (length xs) then Some (nat j) else None)"

definition mamba_remove_skipped_blocks ::
  "mamba_fields \<Rightarrow> manager \<Rightarrow> block_pool \<Rightarrow> string \<Rightarrow> int \<Rightarrow> (manager \<times> block_pool) res" where
  "mamba_remove_skipped_blocks s m p rid num_computed =
     (let n = max 0 (num_computed - num_speculative_blocks s) in
      res_bind (base_remove_skipped_blocks m p rid n) (\<lambda>(m1, p1).
        if mamba_cache_mode s \<noteq> ''align'' then Inr (m1, p1)
        else case map_of (last_state_block_idx m1) rid of
          None \<Rightarrow> Inr (m1, p1)
        | Some idx \<Rightarrow>
            if idx < cdiv n (mg_block_size m1) - 1
            then let bs = blocks_of m1 rid in
              (case py_index bs idx of
                 None \<Rightarrow> Inl IndexError
               | Some j \<Rightarrow>
                   if bs ! j \<noteq> mg_null_block m1
                   then res_bind (free_blocks [bs ! j] p1) (\<lambda>p2.
                          Inr (set_blocks rid (bs[j := mg_null_block m1]) m1, p2))
                   else Inr (touch_entry rid m1, p1))
            else Inr (m1, p1)))"

definition remove_skipped_blocks ::
  "manager \<Rightarrow> block_pool \<Rightarrow> string \<Rightarrow> int \<Rightarrow> (manager \<times> block_pool) res" where
  "remove_skipped_blocks m p rid total_computed =
     (case mg_spec m of
        MambaSpec s \<Rightarrow> mamba_remove_skipped_blocks s m p rid total_computed
      | _ \<Rightarrow> base_remove_skipped_blocks m p rid total_computed)"

definition new_step_starts :: "manager \<Rightarrow> manager" where
  "new_step_starts m =
     (case mg_spec m of MambaSpec s \<Rightarrow> m\<lparr>cached_blocks_this_step := []\<rparr> | _ \<Rightarrow> m)"

text \<open>Blocks shared by all requests; only full attention counts them.\<close>

definition get_num_common_prefix_blocks :: "manager \<Rightarrow> block_pool \<Rightarrow> string \<Rightarrow> nat \<times> manager" where
  "get_num_common_prefix_blocks m p rid =
     (if is_full_attention (mg_spec m)
      then let m1 = touch_entry rid m in
           (length (takeWhile (\<lambda>a. refs p a = int (length (req_to_blocks m1))) (blocks_of m1 rid)), m1)
      else (0, m))"

end
