(* ===== verification/Cache_Hit.thy ===== *)
theory Cache_Hit
  imports Single_Type_Managers
begin

text \<open>
  \<^verbatim>\<open>find_longest_cache_hit\<close> of the managers of src/vllm/vllm/v1/core/single_type_kv_cache_manager.py.
  A result is one list of blocks per KV cache group of the call; all have the same length, the hit
  length in blocks. Lengths in tokens are Python ints.
\<close>

section \<open>Lookups\<close>

text \<open>\<^verbatim>\<open>if cached_block := block_pool.get_cached_block(...)\<close>: an empty list is falsy.\<close>

definition cached_at :: "block_pool \<Rightarrow> hash_view \<Rightarrow> int list \<Rightarrow> nat \<Rightarrow> nat list option res" where
  "cached_at p view gids i =
     res_bind (view_at view i) (\<lambda>h.
     res_bind (get_cached_block p h gids) (\<lambda>c. Inr (if c = Some [] then None else c)))"

text \<open>\<^verbatim>\<open>for computed, cached in zip(computed_blocks, cached_block): computed.append(cached)\<close>.\<close>

definition append_cached :: "nat list list \<Rightarrow> nat list \<Rightarrow> nat list list" where
  "append_cached comps cs = map2 (\<lambda>c b. c @ [b]) comps cs"

text \<open>The loop that looks blocks up from left to right and stops at the first miss.\<close>

fun hit_loop :: "block_pool \<Rightarrow> hash_view \<Rightarrow> int list \<Rightarrow> nat list \<Rightarrow> nat list list \<Rightarrow> nat list list res" where
  "hit_loop p view gids [] comps = Inr comps"
| "hit_loop p view gids (i # is) comps =
     res_bind (cached_at p view gids i) (\<lambda>c.
       case c of None \<Rightarrow> Inr comps
       | Some cs \<Rightarrow> hit_loop p view gids is (append_cached comps cs))"

text \<open>\<^verbatim>\<open>computed_blocks[0]\<close> with no group raises.\<close>

definition first_comp :: "nat list list \<Rightarrow> nat list res" where
  "first_comp comps = (case comps of [] \<Rightarrow> Inl IndexError | c # cs \<Rightarrow> Inr c)"

text \<open>The \<^verbatim>\<open>while\<close> loop that pops blocks until the length is aligned.\<close>

function align_pop :: "int \<Rightarrow> int \<Rightarrow> nat list list \<Rightarrow> nat list list" where
  "align_pop bs al comps =
     (if comps \<noteq> [] \<and> bs \<noteq> al \<and> (int (length (hd comps)) * bs) mod al \<noteq> 0
      then align_pop bs al (map butlast comps) else comps)"
  by pat_completeness auto
termination
proof (relation "measure (\<lambda>(bs, al, comps). length (hd comps))", goal_cases)
  case (2 bs al comps)
  then have "hd comps \<noteq> []" by auto
  with 2 show ?case by (simp add: hd_map)
qed simp

declare align_pop.simps [simp del]

definition eagle_pop :: "bool \<Rightarrow> nat list list \<Rightarrow> nat list list res" where
  "eagle_pop use_eagle comps =
     (if use_eagle
      then res_bind (first_comp comps) (\<lambda>c. Inr (if c \<noteq> [] then map butlast comps else comps))
      else Inr comps)"

section \<open>Full attention\<close>

definition full_find_longest_cache_hit ::
  "hash_view \<Rightarrow> int \<Rightarrow> int list \<Rightarrow> block_pool \<Rightarrow> kv_cache_spec \<Rightarrow> bool \<Rightarrow> int \<Rightarrow> int \<Rightarrow> int \<Rightarrow> nat list list res" where
  "full_find_longest_cache_hit view max_length gids p spec use_eagle al dcp pcp =
     guard (is_full_attention spec \<or> (case spec of ChunkedLocalAttentionSpec a c \<Rightarrow> True | _ \<Rightarrow> False))
       AssertionError
     (let bs = (if dcp * pcp > 1 then block_size spec * (dcp * pcp) else block_size spec);
          max_num = max_length div bs in
      guard (max_num \<ge> 0) ValueError
      (res_bind (hit_loop p view gids [0..<min (nat max_num) (view_len view)] (replicate (length gids) []))
        (\<lambda>comps.
       res_bind (eagle_pop use_eagle comps) (\<lambda>comps1.
       if bs \<noteq> al then res_bind (first_comp comps1) (\<lambda>_. Inr (align_pop bs al comps1))
       else Inr comps1))))"

section \<open>Sliding window\<close>

text \<open>
  The right-to-left search. \<open>sw_loop k\<close> still has to visit the indices below \<open>k\<close>; it returns the
  block lists, the number of contiguous hits at the end of the search and whether a match was found.
\<close>

fun sw_loop ::
  "block_pool \<Rightarrow> hash_view \<Rightarrow> int list \<Rightarrow> int \<Rightarrow> int \<Rightarrow> int \<Rightarrow> nat \<Rightarrow> nat list list \<Rightarrow> nat
     \<Rightarrow> (nat list list \<times> nat \<times> bool) res" where
  "sw_loop p view gids need bs al 0 comps n = Inr (comps, n, False)"
| "sw_loop p view gids need bs al (Suc i) comps n =
     res_bind (cached_at p view gids i) (\<lambda>c.
       case c of
         None \<Rightarrow> sw_loop p view gids need bs al i comps 0
       | Some cs \<Rightarrow>
           if n = 0 \<and> bs \<noteq> al \<and> (int (i + 1) * bs) mod al \<noteq> 0
           then sw_loop p view gids need bs al i comps n
           else
             let comps1 = map2 (\<lambda>l b. l[i := b]) comps cs; n1 = n + 1 in
             if int n1 \<ge> need then Inr (map (take (i + n1)) comps1, n1, True)
             else sw_loop p view gids need bs al i comps1 n1)"

definition sw_find_longest_cache_hit ::
  "hash_view \<Rightarrow> int \<Rightarrow> int list \<Rightarrow> block_pool \<Rightarrow> kv_cache_spec \<Rightarrow> bool \<Rightarrow> int \<Rightarrow> int \<Rightarrow> int \<Rightarrow> nat list list res" where
  "sw_find_longest_cache_hit view max_length gids p spec use_eagle al dcp pcp =
     (case spec of
        SlidingWindowSpec a w \<Rightarrow>
          guard (dcp = 1) AssertionError (guard (pcp = 1) AssertionError
          (let bs = a_block_size a;
               need = cdiv (w - 1) bs + (if use_eagle then 1 else 0);
               max_num = nat (max_length div bs) in
           res_bind (sw_loop p view gids need bs al max_num
                       (replicate (length gids) (replicate max_num (null_block p))) 0) (\<lambda>(comps, n, found).
           res_bind (if found then Inr comps
                     else (let comps1 = map (take n) comps in
                           if bs \<noteq> al then res_bind (first_comp comps1) (\<lambda>_. Inr (align_pop bs al comps1))
                           else Inr comps1)) (\<lambda>comps2.
           if use_eagle
           then res_bind (first_comp comps2) (\<lambda>c0.
                  if c0 \<noteq> [] then Inr (align_pop bs al (map butlast comps2)) else Inr comps2)
           else Inr comps2))))
      | _ \<Rightarrow> Inl AssertionError)"

section \<open>Chunked local attention\<close>

definition chunked_find_longest_cache_hit ::
  "hash_view \<Rightarrow> int \<Rightarrow> int list \<Rightarrow> block_pool \<Rightarrow> kv_cache_spec \<Rightarrow> bool \<Rightarrow> int \<Rightarrow> int \<Rightarrow> int \<Rightarrow> nat list list res" where
  "chunked_find_longest_cache_hit view max_length gids p spec use_eagle al dcp pcp =
     (case spec of
        ChunkedLocalAttentionSpec a c \<Rightarrow>
          guard (\<not> use_eagle) AssertionError (guard (dcp = 1) AssertionError (guard (pcp = 1) AssertionError
          (guard (a_block_size a = al) AssertionError
          (let bs = a_block_size a;
               max_num = max_length div bs;
               start_idx = (if max_length > 0 then max_length div c * c else 0);
               start_block = start_idx div bs in
           hit_loop p view gids [nat start_block..<nat max_num]
             (replicate (length gids) (replicate (nat start_block) (null_block p)))))))
      | _ \<Rightarrow> Inl AssertionError)"

section \<open>Mamba\<close>

fun mamba_loop ::
  "block_pool \<Rightarrow> hash_view \<Rightarrow> int list \<Rightarrow> int \<Rightarrow> int \<Rightarrow> nat \<Rightarrow> nat list list \<Rightarrow> nat list list res" where
  "mamba_loop p view gids bs al 0 comps = Inr comps"
| "mamba_loop p view gids bs al (Suc i) comps =
     res_bind (cached_at p view gids i) (\<lambda>c.
       case c of
         None \<Rightarrow> mamba_loop p view gids bs al i comps
       | Some cs \<Rightarrow>
           if bs \<noteq> al \<and> (int (i + 1) * bs) mod al \<noteq> 0 then mamba_loop p view gids bs al i comps
           else Inr (map2 (\<lambda>l b. l @ replicate i (null_block p) @ [b]) comps cs))"

definition mamba_find_longest_cache_hit ::
  "hash_view \<Rightarrow> int \<Rightarrow> int list \<Rightarrow> block_pool \<Rightarrow> kv_cache_spec \<Rightarrow> bool \<Rightarrow> int \<Rightarrow> int \<Rightarrow> int \<Rightarrow> nat list list res" where
  "mamba_find_longest_cache_hit view max_length gids p spec use_eagle al dcp pcp =
     (case spec of
        MambaSpec s \<Rightarrow>
          guard (dcp = 1) AssertionError (guard (pcp = 1) AssertionError
          (mamba_loop p view gids (m_block_size s) al (nat (max_length div m_block_size s))
             (replicate (length gids) [])))
      | _ \<Rightarrow> Inl AssertionError)"

text \<open>Dispatch on the manager class registered for the spec.\<close>

definition find_longest_cache_hit ::
  "hash_view \<Rightarrow> int \<Rightarrow> int list \<Rightarrow> block_pool \<Rightarrow> kv_cache_spec \<Rightarrow> bool \<Rightarrow> int \<Rightarrow> int \<Rightarrow> int \<Rightarrow> nat list list res" where
  "find_longest_cache_hit view max_length gids p spec use_eagle al dcp pcp =
     (case spec of
        SlidingWindowSpec a w \<Rightarrow> sw_find_longest_cache_hit view max_length gids p spec use_eagle al dcp pcp
      | ChunkedLocalAttentionSpec a c \<Rightarrow>
          chunked_find_longest_cache_hit view max_length gids p spec use_eagle al dcp pcp
      | MambaSpec s \<Rightarrow> mamba_find_longest_cache_hit view max_length gids p spec use_eagle al dcp pcp
      | CrossAttentionSpec a \<Rightarrow> Inl NotImplementedError
      | EncoderOnlyAttentionSpec a \<Rightarrow> Inl KeyError
      | UniformTypeKVCacheSpecs b ss \<Rightarrow> Inl KeyError
      | _ \<Rightarrow> full_find_longest_cache_hit view max_length gids p spec use_eagle al dcp pcp)"

section \<open>What a hit is\<close>

text \<open>The column of blocks at index \<open>i\<close>, one per group.\<close>

definition col :: "nat list list \<Rightarrow> nat \<Rightarrow> nat list" where
  "col comps i = map (\<lambda>l. l ! i) comps"

definition comps_ok :: "int list \<Rightarrow> nat \<Rightarrow> nat list list \<Rightarrow> bool" where
  "comps_ok gids n comps \<longleftrightarrow> length comps = length gids \<and> (\<forall>l \<in> set comps. length l = n)"

text \<open>The blocks \<open>cs\<close> hold the content hashed at index \<open>i\<close>, for every group.\<close>

definition hit_at :: "block_pool \<Rightarrow> hash_view \<Rightarrow> int list \<Rightarrow> nat \<Rightarrow> nat list \<Rightarrow> bool" where
  "hit_at p view gids i cs \<longleftrightarrow>
     (\<exists>h. view_at view i = Inr h \<and> length cs = length gids
        \<and> (\<forall>j < length gids. 0 < cs ! j \<and> cs ! j < num_gpu_blocks p
             \<and> (\<exists>k. make_block_hash_with_group_id h (gids ! j) = Inr k \<and> hash_of p (cs ! j) = Some k)))"

definition miss_at :: "block_pool \<Rightarrow> hash_view \<Rightarrow> int list \<Rightarrow> nat \<Rightarrow> bool" where
  "miss_at p view gids i \<longleftrightarrow> \<not> (\<exists>cs. hit_at p view gids i cs)"

text \<open>Preconditions of a search: a consistent pool, legal group ids, readable hashes.\<close>

definition search_ok :: "nat set \<Rightarrow> block_pool \<Rightarrow> hash_view \<Rightarrow> int list \<Rightarrow> bool" where
  "search_ok R p view gids \<longleftrightarrow>
     pool_core R p \<and> gids \<noteq> [] \<and> (\<forall>g \<in> set gids. 0 \<le> g \<and> g < 2 ^ 32)
     \<and> (\<forall>i < view_len view. \<exists>h. view_at view i = Inr h)"

lemma cached_at_cases:
  assumes ok: "search_ok R p view gids" and i: "i < view_len view"
  shows "(cached_at p view gids i = Inr None \<and> miss_at p view gids i)
    \<or> (\<exists>cs. cached_at p view gids i = Inr (Some cs) \<and> hit_at p view gids i cs)"
proof -
  obtain h where h: "view_at view i = Inr h" using ok i by (auto simp: search_ok_def)
  obtain res where res: "get_cached_block p h gids = Inr res" and
    spec: "case res of
       None \<Rightarrow> \<exists>g \<in> set gids. \<forall>a k. a < num_gpu_blocks p \<longrightarrow> make_block_hash_with_group_id h g = Inr k \<longrightarrow>
                 hash_of p a \<noteq> Some k
     | Some bs \<Rightarrow> length bs = length gids \<and> (\<forall>i < length gids. 0 < bs ! i \<and> bs ! i < num_gpu_blocks p
         \<and> (\<exists>k. make_block_hash_with_group_id h (gids ! i) = Inr k \<and> hash_of p (bs ! i) = Some k))"
    using get_cached_block_law [of R p gids h] ok by (auto simp: search_ok_def)
  show ?thesis
  proof (cases res)
    case None
    then obtain g where g: "g \<in> set gids" "\<And>a k. a < num_gpu_blocks p \<Longrightarrow>
        make_block_hash_with_group_id h g = Inr k \<Longrightarrow> hash_of p a \<noteq> Some k"
      using spec by auto
    then have "miss_at p view gids i"
      using h by (auto simp: miss_at_def hit_at_def in_set_conv_nth)
    then show ?thesis using None res h by (simp add: cached_at_def)
  next
    case (Some cs)
    then have "cs \<noteq> []" using spec ok by (auto simp: search_ok_def)
    then show ?thesis using Some spec res h by (auto simp: cached_at_def hit_at_def)
  qed
qed

lemma col_append_cached:
  assumes "comps_ok gids n comps" "length cs = length gids"
  shows "comps_ok gids (Suc n) (append_cached comps cs)"
    and "i < n \<Longrightarrow> col (append_cached comps cs) i = col comps i"
    and "col (append_cached comps cs) n = cs"
proof -
  have len: "length comps = length cs" and l: "\<And>j. j < length cs \<Longrightarrow> length (comps ! j) = n"
    using assms by (auto simp: comps_ok_def)
  show "comps_ok gids (Suc n) (append_cached comps cs)"
    using assms by (auto simp: comps_ok_def append_cached_def dest: set_zip_leftD)
  show "i < n \<Longrightarrow> col (append_cached comps cs) i = col comps i"
    using len l by (intro nth_equalityI) (auto simp: col_def append_cached_def nth_append)
  show "col (append_cached comps cs) n = cs"
    using len l by (intro nth_equalityI) (auto simp: col_def append_cached_def nth_append)
qed

lemma hit_loop_law:
  assumes ok: "search_ok R p view gids" and "comps_ok gids n comps" "m \<le> view_len view" "n \<le> m"
  shows "\<exists>k comps'. hit_loop p view gids [n..<m] comps = Inr comps' \<and> n \<le> k \<and> k \<le> m
    \<and> comps_ok gids k comps' \<and> (\<forall>i < n. col comps' i = col comps i)
    \<and> (\<forall>i. n \<le> i \<and> i < k \<longrightarrow> hit_at p view gids i (col comps' i))
    \<and> (k < m \<longrightarrow> miss_at p view gids k)"
  using assms(2-4)
proof (induction "m - n" arbitrary: n comps)
  case 0
  then show ?case by (intro exI [of _ n] exI [of _ comps]) auto
next
  case (Suc d)
  then have "n < m" by simp
  then have up: "[n..<m] = n # [Suc n..<m]" by (simp add: upt_conv_Cons)
  have "n < view_len view" using \<open>n < m\<close> Suc.prems(2) by simp
  from cached_at_cases [OF ok this] show ?case
  proof (elim disjE)
    assume "cached_at p view gids n = Inr None \<and> miss_at p view gids n"
    then show ?thesis using Suc.prems \<open>n < m\<close> up
      by (intro exI [of _ n] exI [of _ comps]) auto
  next
    assume "\<exists>cs. cached_at p view gids n = Inr (Some cs) \<and> hit_at p view gids n cs"
    then obtain cs where cs: "cached_at p view gids n = Inr (Some cs)" "hit_at p view gids n cs" by blast
    then have "length cs = length gids" by (auto simp: hit_at_def)
    note C = col_append_cached [OF Suc.prems(1) this]
    obtain k comps' where IH: "hit_loop p view gids [Suc n..<m] (append_cached comps cs) = Inr comps'"
      "Suc n \<le> k" "k \<le> m" "comps_ok gids k comps'"
      "\<forall>i < Suc n. col comps' i = col (append_cached comps cs) i"
      "\<forall>i. Suc n \<le> i \<and> i < k \<longrightarrow> hit_at p view gids i (col comps' i)"
      "k < m \<longrightarrow> miss_at p view gids k"
    proof -
      have "d = m - Suc n" "Suc n \<le> m" using Suc.hyps(2) \<open>n < m\<close> by auto
      from Suc.hyps(1) [OF this(1) C(1) Suc.prems(2) this(2)] that show ?thesis by blast
    qed
    have "hit_at p view gids n (col comps' n)" using IH(5) C(3) cs(2) by simp
    then have "\<forall>i. n \<le> i \<and> i < k \<longrightarrow> hit_at p view gids i (col comps' i)"
      using IH(6) by (metis Suc_leI le_neq_implies_less)
    then show ?thesis using IH C(2) cs(1) up by (intro exI [of _ k] exI [of _ comps']) auto
  qed
qed

text \<open>Dropping blocks from the right.\<close>

lemma comps_ok_take:
  assumes "comps_ok gids n comps" "k \<le> n"
  shows "comps_ok gids k (map (take k) comps)"
    and "i < k \<Longrightarrow> col (map (take k) comps) i = col comps i"
  using assms by (auto simp: comps_ok_def col_def)

lemma comps_ok_take_all: "comps_ok gids n comps \<Longrightarrow> map (take n) comps = comps"
  by (rule map_idI) (auto simp: comps_ok_def)

lemma comps_ok_hd: "comps_ok gids n comps \<Longrightarrow> gids \<noteq> [] \<Longrightarrow> comps \<noteq> [] \<and> length (hd comps) = n"
  by (cases comps) (auto simp: comps_ok_def)

lemma butlast_take_comps:
  assumes "comps_ok gids n comps"
  shows "map butlast comps = map (take (n - 1)) comps"
  using assms by (auto simp: comps_ok_def butlast_conv_take)

lemma align_pop_law:
  assumes "comps_ok gids n comps" "gids \<noteq> []"
  shows "\<exists>k \<le> n. align_pop bs al comps = map (take k) comps \<and> (bs \<noteq> al \<longrightarrow> (int k * bs) mod al = 0)
    \<and> (bs = al \<longrightarrow> k = n) \<and> (\<forall>j. k < j \<and> j \<le> n \<longrightarrow> (int j * bs) mod al \<noteq> 0)"
  using assms(1)
proof (induction n arbitrary: comps)
  case 0
  then have "map (take 0) comps = comps" by (rule comps_ok_take_all)
  moreover have "comps \<noteq> []" "length (hd comps) = 0" using comps_ok_hd [OF 0 assms(2)] by auto
  ultimately show ?case by (subst align_pop.simps) simp
next
  case (Suc n)
  have hd: "comps \<noteq> []" "length (hd comps) = Suc n" using comps_ok_hd [OF Suc.prems assms(2)] by auto
  show ?case
  proof (cases "bs \<noteq> al \<and> (int (Suc n) * bs) mod al \<noteq> 0")
    case True
    have ok: "comps_ok gids n (map butlast comps)"
      unfolding butlast_take_comps [OF Suc.prems] using comps_ok_take(1) [OF Suc.prems, of n] by simp
    obtain k where k: "k \<le> n" "align_pop bs al (map butlast comps) = map (take k) (map butlast comps)"
      "(int k * bs) mod al = 0" "\<forall>j. k < j \<and> j \<le> n \<longrightarrow> (int j * bs) mod al \<noteq> 0"
      using Suc.IH [OF ok] True by auto
    have "map (take k) (map butlast comps) = map (take k) comps"
      using k(1) butlast_take_comps [OF Suc.prems] by (simp add: min_def)
    then have "align_pop bs al comps = map (take k) comps"
      using True hd k(2) by (subst align_pop.simps) simp
    moreover have "\<forall>j. k < j \<and> j \<le> Suc n \<longrightarrow> (int j * bs) mod al \<noteq> 0"
      using k(4) True by (auto simp: le_Suc_eq)
    ultimately show ?thesis using k(1,3) True by (intro exI [of _ k]) auto
  next
    case False
    have "map (take (Suc n)) comps = comps" using Suc.prems by (rule comps_ok_take_all)
    moreover have "align_pop bs al comps = comps" using False hd by (subst align_pop.simps) auto
    ultimately show ?thesis using False by (intro exI [of _ "Suc n"]) auto
  qed
qed

lemma eagle_pop_law:
  assumes "comps_ok gids n comps" "gids \<noteq> []"
  shows "eagle_pop use_eagle comps = Inr (map (take (if use_eagle then n - 1 else n)) comps)"
proof -
  obtain c cs where c: "comps = c # cs" "length c = n"
    using assms by (cases comps) (auto simp: comps_ok_def)
  have id: "map (take n) comps = comps" using assms(1) by (rule comps_ok_take_all)
  show ?thesis
  proof (cases "use_eagle \<and> n > 0")
    case True
    then have "eagle_pop use_eagle comps = Inr (map butlast comps)"
      using c by (auto simp: eagle_pop_def first_comp_def)
    then show ?thesis using butlast_take_comps [OF assms(1)] True by simp
  next
    case False
    then have "eagle_pop use_eagle comps = Inr comps"
      using c by (auto simp: eagle_pop_def first_comp_def)
    then show ?thesis using False id by auto
  qed
qed

text \<open>
  The longest run of cached leading blocks of at most \<open>limit\<close> blocks: it cannot be extended, because
  of the limit, because the hashes end there, or because the next block is not cached.
\<close>

definition longest_run :: "block_pool \<Rightarrow> hash_view \<Rightarrow> int list \<Rightarrow> int \<Rightarrow> nat \<Rightarrow> bool" where
  "longest_run p view gids limit k \<longleftrightarrow>
     (\<forall>i < k. \<not> miss_at p view gids i) \<and> int k \<le> limit \<and> k \<le> view_len view
     \<and> (int k = limit \<or> k = view_len view \<or> miss_at p view gids k)"

text \<open>
  Full attention: the result is a run of hits from the start, not longer than allowed, aligned, and
  without extra alignment the longest one, less its last block with EAGLE.
\<close>

lemma full_hit_law:
  assumes ok: "search_ok R p view gids" and spec: "is_full_attention spec" "dcp * pcp \<le> 1"
    and bs: "block_size spec = bs" "bs > 0" and L: "L \<ge> 0"
  shows "\<exists>n comps. full_find_longest_cache_hit view L gids p spec use_eagle al dcp pcp = Inr comps
    \<and> comps_ok gids n comps \<and> (\<forall>i < n. hit_at p view gids i (col comps i))
    \<and> int n * bs \<le> L \<and> (bs \<noteq> al \<longrightarrow> (int n * bs) mod al = 0)
    \<and> (bs = al \<longrightarrow> (\<exists>k. n = (if use_eagle then k - 1 else k) \<and> longest_run p view gids (L div bs) k))"
proof -
  let ?m = "min (nat (L div bs)) (view_len view)"
  have g: "gids \<noteq> []" using ok by (simp add: search_ok_def)
  have start: "comps_ok gids 0 (replicate (length gids) [])" by (auto simp: comps_ok_def)
  obtain k c where loop: "hit_loop p view gids [0..<?m] (replicate (length gids) []) = Inr c"
    "k \<le> ?m" "comps_ok gids k c" "\<forall>i. i < k \<longrightarrow> hit_at p view gids i (col c i)"
    "k < ?m \<longrightarrow> miss_at p view gids k"
    using hit_loop_law [OF ok start min.cobounded2 le0, of "nat (L div bs)"] by force
  define k1 where "k1 = (if use_eagle then k - 1 else k)"
  have c1: "eagle_pop use_eagle c = Inr (map (take k1) c)" "comps_ok gids k1 (map (take k1) c)"
    using eagle_pop_law [OF loop(3) g] comps_ok_take(1) [OF loop(3)] by (auto simp: k1_def)
  obtain k2 where k2: "k2 \<le> k1" "align_pop bs al (map (take k1) c) = map (take k2) (map (take k1) c)"
    "bs \<noteq> al \<longrightarrow> (int k2 * bs) mod al = 0" "bs = al \<longrightarrow> k2 = k1"
    using align_pop_law [OF c1(2) g, of bs al] by (elim exE conjE) (rule that)
  let ?c = "map (take k2) c"
  have k2k: "k2 \<le> k" using k2(1) by (auto simp: k1_def split: if_splits)
  have al: "map (take k2) (map (take k1) c) = ?c" using k2(1) by (simp add: min_def)
  have "c \<noteq> []" using comps_ok_hd [OF loop(3) g] by simp
  then obtain x where first: "first_comp (map (take k1) c) = Inr x" by (cases c) (auto simp: first_comp_def)
  have nn: "0 \<le> L div bs" using L bs(2) by (simp add: pos_imp_zdiv_nonneg_iff)
  have "full_find_longest_cache_hit view L gids p spec use_eagle al dcp pcp
      = (if bs \<noteq> al then Inr (align_pop bs al (map (take k1) c)) else Inr (map (take k1) c))"
    using spec bs(1) nn loop(1) c1(1) first by (simp add: full_find_longest_cache_hit_def)
  then have "full_find_longest_cache_hit view L gids p spec use_eagle al dcp pcp = Inr ?c"
    using k2(2,4) al by (cases "bs = al") simp_all
  moreover have "comps_ok gids k2 ?c" "\<forall>i < k2. hit_at p view gids i (col ?c i)"
    using comps_ok_take [OF loop(3) k2k] loop(4) k2k by auto
  moreover have "int k2 * bs \<le> L"
  proof -
    have "k2 \<le> nat (L div bs)" using k2k loop(2) by simp
    then have "int k2 \<le> L div bs" using nn by (simp add: le_nat_iff)
    then show ?thesis using bs(2) le_div_iff by simp
  qed
  moreover have "longest_run p view gids (L div bs) k"
  proof -
    have "k = ?m \<or> miss_at p view gids k" using loop(2,5) by auto
    moreover have "int k \<le> L div bs" "k \<le> view_len view" using loop(2) nn by (auto simp: le_nat_iff)
    ultimately show ?thesis using loop(4) nn
      by (auto simp: longest_run_def miss_at_def min_def split: if_splits)
  qed
  moreover have "bs = al \<longrightarrow> k2 = (if use_eagle then k - 1 else k)" using k2(4) by (simp add: k1_def)
  ultimately show ?thesis using k2(3) by (intro exI [of _ k2] exI [of _ ?c]) blast
qed

text \<open>
  Sliding window: when the search stops with a match, the last \<open>need\<close> columns are hits; otherwise
  the first \<open>n\<close> columns are. The invariant says that the \<open>n\<close> columns from \<open>k\<close> on are hits.
\<close>

definition sw_inv :: "block_pool \<Rightarrow> hash_view \<Rightarrow> int list \<Rightarrow> int \<Rightarrow> int \<Rightarrow> nat \<Rightarrow> nat \<Rightarrow> nat list list \<Rightarrow> nat \<Rightarrow> bool" where
  "sw_inv p view gids bs al mx k comps n \<longleftrightarrow>
     comps_ok gids mx comps \<and> k + n \<le> mx
     \<and> (\<forall>i. k \<le> i \<and> i < k + n \<longrightarrow> hit_at p view gids i (col comps i))
     \<and> (\<forall>i < k. col comps i = replicate (length gids) (null_block p))
     \<and> (n > 0 \<and> bs \<noteq> al \<longrightarrow> (int (k + n) * bs) mod al = 0)"

lemma col_update:
  assumes "comps_ok gids mx comps" "length cs = length gids" "i < mx"
  shows "comps_ok gids mx (map2 (\<lambda>l b. l[i := b]) comps cs)"
    and "col (map2 (\<lambda>l b. l[i := b]) comps cs) j = (if j = i then cs else col comps j)"
proof -
  show "comps_ok gids mx (map2 (\<lambda>l b. l[i := b]) comps cs)"
    using assms by (auto simp: comps_ok_def dest: set_zip_leftD)
  have l: "\<And>j. j < length gids \<Longrightarrow> length (comps ! j) = mx" using assms(1) by (auto simp: comps_ok_def)
  show "col (map2 (\<lambda>l b. l[i := b]) comps cs) j = (if j = i then cs else col comps j)"
    using assms l by (intro nth_equalityI) (auto simp: col_def comps_ok_def)
qed

lemma sw_loop_law:
  assumes ok: "search_ok R p view gids" and "sw_inv p view gids bs al mx k comps n" "mx \<le> view_len view"
    "int n < need"
  shows "\<exists>comps' n' found. sw_loop p view gids need bs al k comps n = Inr (comps', n', found)
    \<and> (if found
       then \<exists>i. comps_ok gids (i + n') comps' \<and> i + n' \<le> mx \<and> int n' = need
         \<and> (\<forall>j. i \<le> j \<and> j < i + n' \<longrightarrow> hit_at p view gids j (col comps' j))
         \<and> (\<forall>j < i. col comps' j = replicate (length gids) (null_block p))
         \<and> (bs \<noteq> al \<longrightarrow> (int (i + n') * bs) mod al = 0)
       else sw_inv p view gids bs al mx 0 comps' n')"
  using assms(2-4)
proof (induction k arbitrary: comps n)
  case 0
  then show ?case by (intro exI [of _ comps] exI [of _ n] exI [of _ False]) simp
next
  case (Suc i)
  note inv = Suc.prems(1) [unfolded sw_inv_def]
  have i: "i < view_len view" "i < mx" using inv Suc.prems(2) by auto
  have need: "need > 0" using Suc.prems(3) by simp
  from cached_at_cases [OF ok i(1)] show ?case
  proof (elim disjE)
    assume m: "cached_at p view gids i = Inr None \<and> miss_at p view gids i"
    have "sw_inv p view gids bs al mx i comps 0" using inv by (auto simp: sw_inv_def)
    from Suc.IH [OF this Suc.prems(2)] need show ?thesis using m by simp
  next
    assume "\<exists>cs. cached_at p view gids i = Inr (Some cs) \<and> hit_at p view gids i cs"
    then obtain cs where cs: "cached_at p view gids i = Inr (Some cs)" "hit_at p view gids i cs" by blast
    show ?thesis
    proof (cases "n = 0 \<and> bs \<noteq> al \<and> (int (i + 1) * bs) mod al \<noteq> 0")
      case True
      then have "sw_inv p view gids bs al mx i comps n" using inv by (auto simp: sw_inv_def)
      from Suc.IH [OF this Suc.prems(2,3)] show ?thesis using cs(1) True by simp
    next
      case False
      have "length cs = length gids" using cs(2) by (auto simp: hit_at_def)
      note U = col_update [OF _ this i(2), of comps]
      define c1 where "c1 = map2 (\<lambda>l b. l[i := b]) comps cs"
      have inv1: "sw_inv p view gids bs al mx i c1 (Suc n)"
        unfolding sw_inv_def
      proof (intro conjI allI impI)
        show "comps_ok gids mx c1" using U(1) inv by (simp add: c1_def)
        show "i + Suc n \<le> mx" using inv by simp
        show "hit_at p view gids j (col c1 j)" if "i \<le> j \<and> j < i + Suc n" for j
          using that inv cs(2) U(2) by (cases "j = i") (auto simp: c1_def)
        show "col c1 j = replicate (length gids) (null_block p)" if "j < i" for j
          using that inv U(2) by (simp add: c1_def)
        show "int (i + Suc n) * bs mod al = 0" if "0 < Suc n \<and> bs \<noteq> al"
          using that inv False by (cases "n = 0") auto
      qed
      show ?thesis
      proof (cases "int (n + 1) \<ge> need")
        case True
        have le: "i + Suc n \<le> mx" "comps_ok gids mx c1" using inv1 by (auto simp: sw_inv_def)
        let ?c = "map (take (i + (n + 1))) c1"
        have "sw_loop p view gids need bs al (Suc i) comps n = Inr (?c, n + 1, True)"
          using cs(1) False True by (auto simp: c1_def Let_def)
        moreover have "comps_ok gids (i + (n + 1)) ?c" "\<And>j. j < i + (n + 1) \<Longrightarrow> col ?c j = col c1 j"
          using comps_ok_take [OF le(2), of "i + (n + 1)"] le(1) by simp_all
        moreover have "int (n + 1) = need" using True Suc.prems(3) by simp
        ultimately show ?thesis using inv1 unfolding sw_inv_def
          by (intro exI [of _ ?c] exI [of _ "n + 1"] exI [of _ True]) (auto intro!: exI [of _ i])
      next
        case lt: False
        then have "int (Suc n) < need" by simp
        from Suc.IH [OF inv1 Suc.prems(2) this] show ?thesis
          using cs(1) False lt by (auto simp: c1_def Let_def)
      qed
    qed
  qed
qed

text \<open>
  The hit covers the attention window of the next token: the blocks that hold its last
  \<open>w - 1\<close> predecessors are cached. With EAGLE this needs the group's own alignment.
\<close>

definition window_covered :: "block_pool \<Rightarrow> hash_view \<Rightarrow> int list \<Rightarrow> int \<Rightarrow> nat \<Rightarrow> nat list list \<Rightarrow> bool" where
  "window_covered p view gids window_blocks n comps \<longleftrightarrow>
     (\<forall>i < n. int n - window_blocks \<le> int i \<longrightarrow> hit_at p view gids i (col comps i))"

lemma sw_found_law:
  assumes ok: "search_ok R p view gids" and c: "comps_ok gids (i + k) comps" "k > 0"
    and hits: "\<forall>j. i \<le> j \<and> j < i + k \<longrightarrow> hit_at p view gids j (col comps j)"
    and w: "int k = wb + (if use_eagle then 1 else 0)"
  shows "\<exists>c0. first_comp comps = Inr c0 \<and> c0 \<noteq> []"
    and "\<not> use_eagle \<Longrightarrow> window_covered p view gids wb (i + k) comps"
    and "use_eagle \<Longrightarrow> comps_ok gids (i + k - 1) (map butlast comps)
      \<and> window_covered p view gids wb (i + k - 1) (map butlast comps)"
proof -
  have g: "gids \<noteq> []" using ok by (simp add: search_ok_def)
  show "\<exists>c0. first_comp comps = Inr c0 \<and> c0 \<noteq> []"
    using comps_ok_hd [OF c(1) g] c(2) by (cases comps) (auto simp: first_comp_def)
  show "\<not> use_eagle \<Longrightarrow> window_covered p view gids wb (i + k) comps"
    using hits w by (auto simp: window_covered_def)
  note T = comps_ok_take [OF c(1), of "i + k - 1", folded butlast_take_comps [OF c(1)]]
  show "use_eagle \<Longrightarrow> comps_ok gids (i + k - 1) (map butlast comps)
      \<and> window_covered p view gids wb (i + k - 1) (map butlast comps)"
    using T hits w c(2) by (auto simp: window_covered_def)
qed

lemma sw_hit_law:
  assumes ok: "search_ok R p view gids" and a: "a_block_size a = bs" "bs > 0"
    and L: "nat (L div bs) \<le> view_len view" "L \<ge> 0" and w: "w > 1" and al: "use_eagle \<longrightarrow> bs = al"
  shows "\<exists>n comps. sw_find_longest_cache_hit view L gids p (SlidingWindowSpec a w) use_eagle al 1 1 = Inr comps
    \<and> comps_ok gids n comps \<and> int n * bs \<le> L \<and> (bs \<noteq> al \<longrightarrow> (int n * bs) mod al = 0)
    \<and> window_covered p view gids (cdiv (w - 1) bs) n comps"
proof -
  have g: "gids \<noteq> []" using ok by (simp add: search_ok_def)
  define wb where "wb = cdiv (w - 1) bs"
  define need where "need = wb + (if use_eagle then 1 else 0)"
  define mx where "mx = nat (L div bs)"
  let ?start = "replicate (length gids) (replicate mx (null_block p))"
  let ?f = "sw_find_longest_cache_hit view L gids p (SlidingWindowSpec a w) use_eagle al 1 1"
  have wb: "wb > 0" using w a(2) by (simp add: wb_def cdiv_pos_iff)
  have bound: "int n * bs \<le> L" if "n \<le> mx" for n
  proof -
    have "int n \<le> L div bs" using that L(2) a(2) by (simp add: mx_def le_nat_iff pos_imp_zdiv_nonneg_iff)
    then show ?thesis using a(2) le_div_iff by simp
  qed
  have inv0: "sw_inv p view gids bs al mx mx ?start 0"
    by (auto simp: sw_inv_def comps_ok_def col_def intro!: nth_equalityI)
  have pre: "mx \<le> view_len view" "int 0 < need" using L(1) wb by (auto simp: need_def mx_def)
  obtain c n found where run: "sw_loop p view gids need bs al mx ?start 0 = Inr (c, n, found)"
    and R: "if found
       then \<exists>i. comps_ok gids (i + n) c \<and> i + n \<le> mx \<and> int n = need
         \<and> (\<forall>j. i \<le> j \<and> j < i + n \<longrightarrow> hit_at p view gids j (col c j))
         \<and> (\<forall>j < i. col c j = replicate (length gids) (null_block p))
         \<and> (bs \<noteq> al \<longrightarrow> (int (i + n) * bs) mod al = 0)
       else sw_inv p view gids bs al mx 0 c n"
    using sw_loop_law [OF ok inv0 pre] by (elim exE conjE) (rule that)
  have unf: "?f = res_bind (if found then Inr c
                     else (let comps1 = map (take n) c in
                           if bs \<noteq> al then res_bind (first_comp comps1) (\<lambda>_. Inr (align_pop bs al comps1))
                           else Inr comps1)) (\<lambda>comps2.
           if use_eagle
           then res_bind (first_comp comps2) (\<lambda>c0.
                  if c0 \<noteq> [] then Inr (align_pop bs al (map butlast comps2)) else Inr comps2)
           else Inr comps2)"
    using run a(1) by (simp add: sw_find_longest_cache_hit_def wb_def need_def mx_def Let_def)
  show ?thesis
  proof (cases found)
    case True
    then obtain i where i: "comps_ok gids (i + n) c" "i + n \<le> mx" "int n = need"
      "\<forall>j. i \<le> j \<and> j < i + n \<longrightarrow> hit_at p view gids j (col c j)"
      "bs \<noteq> al \<longrightarrow> (int (i + n) * bs) mod al = 0"
      using R by auto
    have n0: "n > 0" using i(3) wb by (cases use_eagle) (simp_all add: need_def)
    note F = sw_found_law [OF ok i(1) n0 i(4) i(3) [unfolded need_def]]
    show ?thesis
    proof (cases use_eagle)
      case e: True
      have "align_pop bs al (map butlast c) = map butlast c" using al e by (subst align_pop.simps) simp
      then have "?f = Inr (map butlast c)" using unf True e F(1) by auto
      then show ?thesis using F(3) [OF e] bound [of "i + n - 1"] i(2) al e
        by (intro exI [of _ "i + n - 1"] exI [of _ "map butlast c"]) (simp add: wb_def)
    next
      case False
      then show ?thesis using unf True F(2) bound [OF i(2)] i(1,5)
        by (intro exI [of _ "i + n"] exI [of _ c]) (simp add: wb_def)
    qed
  next
    case False
    then have inv: "comps_ok gids mx c" "n \<le> mx" "\<forall>i < n. hit_at p view gids i (col c i)"
      using R by (auto simp: sw_inv_def)
    note T = comps_ok_take [OF inv(1,2)]
    obtain k where k: "k \<le> n" "align_pop bs al (map (take n) c) = map (take k) (map (take n) c)"
      "bs \<noteq> al \<longrightarrow> (int k * bs) mod al = 0" "bs = al \<longrightarrow> k = n"
      using align_pop_law [OF T(1) g, of bs al] by (elim exE conjE) (rule that)
    have tk: "map (take k) (map (take n) c) = map (take k) c" using k(1) by (simp add: min_def)
    have "map (take n) c \<noteq> []" using comps_ok_hd [OF T(1) g] by simp
    then obtain x where x: "first_comp (map (take n) c) = Inr x" by (cases c) (auto simp: first_comp_def)
    have run1: "(let comps1 = map (take n) c in
        if bs \<noteq> al then res_bind (first_comp comps1) (\<lambda>_. Inr (align_pop bs al comps1)) else Inr comps1)
        = Inr (map (take k) c)"
      using x k(2,4) tk by (cases "bs = al") simp_all
    define k' where "k' = (if use_eagle then k - 1 else k)"
    have km: "k \<le> mx" "k' \<le> mx" "k' \<le> k" using k(1) inv(2) by (auto simp: k'_def)
    have okk: "comps_ok gids k (map (take k) c)" using comps_ok_take(1) [OF inv(1) km(1)] .
    have ep: "eagle_pop use_eagle (map (take k) c) = Inr (map (take k') (map (take k) c))"
      using eagle_pop_law [OF okk g] by (simp add: k'_def)
    have "?f = Inr (map (take k') (map (take k) c))"
    proof (cases use_eagle)
      case True
      then have "align_pop bs al cs = cs" for cs using al by (subst align_pop.simps) simp
      then show ?thesis using unf False run1 ep True by (auto simp: eagle_pop_def)
    next
      case nf: False
      then show ?thesis using unf False run1 comps_ok_take_all [OF okk] by (simp add: k'_def)
    qed
    moreover have "map (take k') (map (take k) c) = map (take k') c" using km(3) by (simp add: min_def)
    moreover have "comps_ok gids k' (map (take k') c)" "\<And>i. i < k' \<Longrightarrow> col (map (take k') c) i = col c i"
      using comps_ok_take [OF inv(1) km(2)] by auto
    moreover have "window_covered p view gids wb k' (map (take k') c)"
      using calculation(4) inv(3) km(3) k(1) by (simp add: window_covered_def)
    moreover have "bs \<noteq> al \<longrightarrow> (int k' * bs) mod al = 0" using k(3) al by (auto simp: k'_def)
    ultimately show ?thesis using bound [OF km(2)]
      by (intro exI [of _ k'] exI [of _ "map (take k') c"]) (simp add: wb_def)
  qed
qed

text \<open>
  Mamba: a hit needs the state after its last block only; every earlier column is null.
\<close>

lemma mamba_loop_law:
  assumes ok: "search_ok R p view gids" and "k \<le> view_len view"
  shows "\<exists>n comps. mamba_loop p view gids bs al k (replicate (length gids) []) = Inr comps
    \<and> comps_ok gids n comps \<and> n \<le> k \<and> (bs \<noteq> al \<longrightarrow> (int n * bs) mod al = 0)
    \<and> (n > 0 \<longrightarrow> hit_at p view gids (n - 1) (col comps (n - 1)))
    \<and> (\<forall>j. n \<le> j \<and> j < k \<longrightarrow> miss_at p view gids j \<or> (bs \<noteq> al \<and> (int (j + 1) * bs) mod al \<noteq> 0))"
  using assms(2)
proof (induction k)
  case 0
  then show ?case by (auto simp: comps_ok_def)
next
  case (Suc i)
  obtain n comps where IH: "mamba_loop p view gids bs al i (replicate (length gids) []) = Inr comps"
    "comps_ok gids n comps" "n \<le> i" "bs \<noteq> al \<longrightarrow> (int n * bs) mod al = 0"
    "n > 0 \<longrightarrow> hit_at p view gids (n - 1) (col comps (n - 1))"
    "\<forall>j. n \<le> j \<and> j < i \<longrightarrow> miss_at p view gids j \<or> (bs \<noteq> al \<and> (int (j + 1) * bs) mod al \<noteq> 0)"
    using Suc by auto
  have skip: ?case if "mamba_loop p view gids bs al (Suc i) (replicate (length gids) []) = Inr comps"
    "miss_at p view gids i \<or> (bs \<noteq> al \<and> (int (i + 1) * bs) mod al \<noteq> 0)"
    using that IH by (intro exI [of _ n] exI [of _ comps]) (auto simp: less_Suc_eq)
  have "i < view_len view" using Suc.prems by simp
  from cached_at_cases [OF ok this] show ?case
  proof (elim disjE)
    assume "cached_at p view gids i = Inr None \<and> miss_at p view gids i"
    then show ?thesis using IH(1) by (intro skip) simp_all
  next
    assume "\<exists>cs. cached_at p view gids i = Inr (Some cs) \<and> hit_at p view gids i cs"
    then obtain cs where cs: "cached_at p view gids i = Inr (Some cs)" "hit_at p view gids i cs" by blast
    show ?thesis
    proof (cases "bs \<noteq> al \<and> (int (i + 1) * bs) mod al \<noteq> 0")
      case True
      then show ?thesis using IH(1) cs(1) by (intro skip) simp_all
    next
      case False
      have len: "length cs = length gids" using cs(2) by (auto simp: hit_at_def)
      let ?c = "map2 (\<lambda>l b. l @ replicate i (null_block p) @ [b]) (replicate (length gids) []) cs"
      have "comps_ok gids (Suc i) ?c" using len by (auto simp: comps_ok_def dest: set_zip_leftD)
      moreover have "col ?c i = cs"
        using len by (intro nth_equalityI) (auto simp: col_def nth_append)
      ultimately show ?thesis using cs False
        by (intro exI [of _ "Suc i"] exI [of _ ?c]) auto
    qed
  qed
qed

section \<open>Re-aligning after the EAGLE pop loses the window\<close>

text \<open>
  With EAGLE and an alignment coarser than the block size, the second alignment loop of the sliding
  window search pops cached blocks after the match: the remaining hit can consist of null blocks
  only although the window of the next token reaches into it. Here the cache holds the blocks of
  indices 2 and 3 only; the reported hit of two blocks has nothing cached.
\<close>

definition eagle_example_pool :: block_pool where
  "eagle_example_pool =
     (case block_pool_init 4 True 4 False None of Inl e \<Rightarrow> undefined | Inr p0 \<Rightarrow>
      (case get_new_blocks example_env 2 p0 of Inl e \<Rightarrow> undefined | Inr (bs, p1) \<Rightarrow>
      (case cache_blocks_loop example_env [[2], [3]] 0 0 bs (p1, []) of
         Inl e \<Rightarrow> undefined | Inr (p2, out) \<Rightarrow> p2)))"

definition eagle_example_spec :: kv_cache_spec where
  "eagle_example_spec = SlidingWindowSpec
     \<lparr>a_block_size = 4, num_kv_heads = 1, head_size = 1,
      dtype = \<lparr>dtype_name = ''half'', dtype_size = 2\<rparr>, kv_quant = NONE, page_size_padded = None\<rparr> 5"

lemma eagle_realign_loses_window:
  "sw_find_longest_cache_hit (PlainHashes [[0], [1], [2], [3]]) 16 [0] eagle_example_pool
     eagle_example_spec True 8 1 1 = Inr [[0, 0]]
   \<and> cached_at eagle_example_pool (PlainHashes [[0], [1], [2], [3]]) [0] 1 = Inr None"
  by code_simp

end
