(* ===== verification/KV_Cache_Coordinator.thy ===== *)
theory KV_Cache_Coordinator
  imports Cache_Hit
begin

text \<open>
  src/vllm/vllm/v1/core/kv_cache_coordinator.py: the block tables of all KV cache groups over one
  block pool. The three coordinator classes are the three values of \<open>coordinator_kind\<close> with the
  attributes only they have. Every per-manager loop of the class threads the shared pool through the
  managers in order (\<open>each_manager\<close>).
\<close>

section \<open>State and construction\<close>

text \<open>An attention group: a spec and the ids of the KV cache groups with it; the class of the manager
  is determined by the spec.\<close>

type_synonym attention_group = "kv_cache_spec \<times> nat list"

datatype coordinator_kind =
    NoPrefixCache
  | Unitary (unitary_block_size: int) (unitary_dcp: int) (unitary_pcp: int)
  | Hybrid (hybrid_hash_block_size: nat) (attention_groups: "attention_group list") (lcm_block_size: int)

record coordinator =
  co_config :: kv_cache_config
  co_max_model_len :: int
  co_enable_caching :: bool
  co_pool :: block_pool
  co_use_eagle :: bool
  single_type_managers :: "manager list"
  co_kind :: coordinator_kind

text \<open>The loop over \<^verbatim>\<open>enumerate(self.single_type_managers)\<close>, starting at index \<open>i\<close>.\<close>

fun each_manager ::
  "(nat \<Rightarrow> manager \<Rightarrow> block_pool \<Rightarrow> ('r \<times> manager \<times> block_pool) res) \<Rightarrow> nat \<Rightarrow> manager list \<Rightarrow> block_pool
     \<Rightarrow> ('r list \<times> manager list \<times> block_pool) res" where
  "each_manager f i [] p = Inr ([], [], p)"
| "each_manager f i (m # ms) p =
     res_bind (f i m p) (\<lambda>(r, m', p').
       res_bind (each_manager f (Suc i) ms p') (\<lambda>(rs, ms', p''). Inr (r # rs, m' # ms', p'')))"

fun make_managers ::
  "bool \<Rightarrow> int \<Rightarrow> int \<Rightarrow> nat \<Rightarrow> kv_cache_group_spec list \<Rightarrow> block_pool \<Rightarrow> (manager list \<times> block_pool) res" where
  "make_managers caching dcp pcp i [] p = Inr ([], p)"
| "make_managers caching dcp pcp i (g # gs) p =
     res_bind (get_manager_for_kv_cache_spec (group_spec g) p caching (int i) dcp pcp) (\<lambda>(m, p').
       res_bind (make_managers caching dcp pcp (Suc i) gs p') (\<lambda>(ms, p''). Inr (m # ms, p'')))"

definition coordinator_init ::
  "kv_cache_config \<Rightarrow> int \<Rightarrow> bool \<Rightarrow> bool \<Rightarrow> bool \<Rightarrow> int \<Rightarrow> int \<Rightarrow> nat \<Rightarrow> metrics option \<Rightarrow> coordinator_kind
     \<Rightarrow> coordinator res" where
  "coordinator_init cfg max_len use_eagle caching events dcp pcp hbs mc kind =
     res_bind (block_pool_init (num_blocks cfg) caching hbs events mc) (\<lambda>p.
     res_bind (make_managers caching dcp pcp 0 (kv_cache_groups cfg) p) (\<lambda>(ms, p').
       Inr \<lparr>co_config = cfg, co_max_model_len = max_len, co_enable_caching = caching, co_pool = p',
            co_use_eagle = use_eagle, single_type_managers = ms, co_kind = kind\<rparr>))"

definition unitary_init ::
  "kv_cache_config \<Rightarrow> int \<Rightarrow> bool \<Rightarrow> bool \<Rightarrow> bool \<Rightarrow> int \<Rightarrow> int \<Rightarrow> nat \<Rightarrow> metrics option \<Rightarrow> coordinator res" where
  "unitary_init cfg max_len use_eagle caching events dcp pcp hbs mc =
     res_bind (coordinator_init cfg max_len use_eagle caching events dcp pcp hbs mc NoPrefixCache) (\<lambda>c.
     case kv_cache_groups cfg of
       [] \<Rightarrow> Inl IndexError
     | g # gs \<Rightarrow>
         let bs0 = block_size (group_spec g);
             bs1 = (if dcp > 1 then bs0 * dcp else bs0);
             bs = (if pcp > 1 then bs1 * pcp else bs1) in
         guard (\<not> caching \<or> int hbs = bs) AssertionError
           (guard (gs = []) AssertionError (Inr (c\<lparr>co_kind := Unitary bs dcp pcp\<rparr>))))"

text \<open>\<^verbatim>\<open>verify_and_split_kv_cache_groups\<close>: the inner search appends the id to the group with an equal spec.\<close>

fun add_to_group :: "kv_cache_spec \<Rightarrow> nat \<Rightarrow> attention_group list \<Rightarrow> attention_group list" where
  "add_to_group spec i [] = [(spec, [i])]"
| "add_to_group spec i ((s, ids) # gs) =
     (if s = spec then (s, ids @ [i]) # gs else (s, ids) # add_to_group spec i gs)"

definition split_groups :: "kv_cache_group_spec list \<Rightarrow> attention_group list" where
  "split_groups gs = fold (\<lambda>(i, g). add_to_group (group_spec g) i) (enumerate 0 gs) []"

text \<open>The stable sort on the key \<^verbatim>\<open>not isinstance(x[0], FullAttentionSpec)\<close>.\<close>

definition full_first :: "attention_group list \<Rightarrow> attention_group list" where
  "full_first gs = filter (\<lambda>g. is_full_attention (fst g)) gs @ filter (\<lambda>g. \<not> is_full_attention (fst g)) gs"

definition verify_and_split_kv_cache_groups :: "nat \<Rightarrow> coordinator \<Rightarrow> coordinator res" where
  "verify_and_split_kv_cache_groups hbs c =
     (let gs = split_groups (kv_cache_groups (co_config c)) in
      guard (length gs > 1) AssertionError
        (Inr (c\<lparr>co_kind := Hybrid hbs (full_first gs)
                   (fold lcm (map (\<lambda>g. block_size (fst g)) gs) 1)\<rparr>)))"

definition hybrid_init ::
  "kv_cache_config \<Rightarrow> int \<Rightarrow> bool \<Rightarrow> bool \<Rightarrow> bool \<Rightarrow> int \<Rightarrow> int \<Rightarrow> nat \<Rightarrow> metrics option \<Rightarrow> coordinator res" where
  "hybrid_init cfg max_len use_eagle caching events dcp pcp hbs mc =
     res_bind (coordinator_init cfg max_len use_eagle caching events dcp pcp hbs mc NoPrefixCache) (\<lambda>c.
     guard (list_all (\<lambda>g. block_size (group_spec g) mod int hbs = 0) (kv_cache_groups cfg)) AssertionError
     (guard (dcp = 1) AssertionError (guard (pcp = 1) AssertionError
       (verify_and_split_kv_cache_groups hbs c))))"

definition get_kv_cache_coordinator ::
  "kv_cache_config \<Rightarrow> int \<Rightarrow> bool \<Rightarrow> bool \<Rightarrow> bool \<Rightarrow> int \<Rightarrow> int \<Rightarrow> nat \<Rightarrow> metrics option \<Rightarrow> coordinator res" where
  "get_kv_cache_coordinator cfg max_len use_eagle caching events dcp pcp hbs mc =
     (if \<not> caching
      then coordinator_init cfg max_len use_eagle False events dcp pcp hbs mc NoPrefixCache
      else if length (kv_cache_groups cfg) = 1
      then unitary_init cfg max_len use_eagle caching events dcp pcp hbs mc
      else hybrid_init cfg max_len use_eagle caching events dcp pcp hbs mc)"

section \<open>Operations over all managers\<close>

definition is_cross_attention :: "kv_cache_spec \<Rightarrow> bool" where
  "is_cross_attention s = (case s of CrossAttentionSpec a \<Rightarrow> True | _ \<Rightarrow> False)"

text \<open>Run a per-manager operation and store the managers and the pool back.\<close>

definition on_managers ::
  "(nat \<Rightarrow> manager \<Rightarrow> block_pool \<Rightarrow> ('r \<times> manager \<times> block_pool) res) \<Rightarrow> coordinator
     \<Rightarrow> ('r list \<times> coordinator) res" where
  "on_managers f c =
     res_bind (each_manager f 0 (single_type_managers c) (co_pool c)) (\<lambda>(rs, ms, p).
       Inr (rs, c\<lparr>single_type_managers := ms, co_pool := p\<rparr>))"

definition co_get_num_blocks_to_allocate ::
  "coordinator \<Rightarrow> string \<Rightarrow> int \<Rightarrow> nat list list \<Rightarrow> int \<Rightarrow> int \<Rightarrow> int \<Rightarrow> (int \<times> coordinator) res" where
  "co_get_num_blocks_to_allocate c rid ntok new_computed n_enc total_computed ntok_main =
     res_bind (on_managers (\<lambda>i m p.
       if is_cross_attention (mg_spec m)
       then res_bind (get_num_blocks_to_allocate m p rid n_enc [] 0 n_enc) (\<lambda>(n, m'). Inr (n, m', p))
       else res_bind (index_res new_computed i) (\<lambda>bs.
              res_bind (get_num_blocks_to_allocate m p rid ntok bs total_computed ntok_main)
                (\<lambda>(n, m'). Inr (n, m', p)))) c)
       (\<lambda>(ns, c'). Inr (sum_list ns, c'))"

definition co_allocate_new_computed_blocks ::
  "hash_env \<Rightarrow> coordinator \<Rightarrow> string \<Rightarrow> nat list list \<Rightarrow> int \<Rightarrow> int \<Rightarrow> coordinator res" where
  "co_allocate_new_computed_blocks E c rid new_computed num_local num_external =
     res_bind (on_managers (\<lambda>i m p.
       res_bind (index_res new_computed i) (\<lambda>bs.
         res_bind (allocate_new_computed_blocks E m p rid bs num_local num_external)
           (\<lambda>(m', p'). Inr ((), m', p')))) c)
       (\<lambda>(_, c'). Inr c')"

definition co_allocate_new_blocks ::
  "hash_env \<Rightarrow> coordinator \<Rightarrow> string \<Rightarrow> int \<Rightarrow> int \<Rightarrow> int \<Rightarrow> (nat list list \<times> coordinator) res" where
  "co_allocate_new_blocks E c rid ntok ntok_main n_enc =
     on_managers (\<lambda>i m p. allocate_new_blocks E m p rid
       (if is_cross_attention (mg_spec m) then n_enc else ntok) ntok_main) c"

text \<open>Caching also fills the request's memo of prompt-embedding hashes, which is threaded along.\<close>

fun cache_each :: "hash_env \<Rightarrow> int \<Rightarrow> manager list \<Rightarrow> block_pool \<Rightarrow> request
    \<Rightarrow> (manager list \<times> block_pool \<times> request) res" where
  "cache_each E n [] p r = Inr ([], p, r)"
| "cache_each E n (m # ms) p r =
     res_bind (cache_blocks E m p r n) (\<lambda>(m', p', r').
       res_bind (cache_each E n ms p' r') (\<lambda>(ms', p'', r''). Inr (m' # ms', p'', r'')))"

definition co_cache_blocks ::
  "hash_env \<Rightarrow> coordinator \<Rightarrow> request \<Rightarrow> int \<Rightarrow> (coordinator \<times> request) res" where
  "co_cache_blocks E c r n =
     res_bind (cache_each E n (single_type_managers c) (co_pool c) r) (\<lambda>(ms, p, r').
       Inr (c\<lparr>single_type_managers := ms, co_pool := p\<rparr>, r'))"

definition co_free :: "coordinator \<Rightarrow> string \<Rightarrow> coordinator res" where
  "co_free c rid =
     res_bind (on_managers (\<lambda>i m p. res_bind (mg_free m p rid) (\<lambda>(m', p'). Inr ((), m', p'))) c)
       (\<lambda>(_, c'). Inr c')"

definition co_get_num_common_prefix_blocks :: "coordinator \<Rightarrow> string \<Rightarrow> (nat list \<times> coordinator) res" where
  "co_get_num_common_prefix_blocks c rid =
     (case co_kind c of
        NoPrefixCache \<Rightarrow> Inr (replicate (length (single_type_managers c)) 0, c)
      | _ \<Rightarrow> on_managers (\<lambda>i m p. case get_num_common_prefix_blocks m p rid of (n, m') \<Rightarrow> Inr (n, m', p)) c)"

definition co_remove_skipped_blocks :: "coordinator \<Rightarrow> string \<Rightarrow> int \<Rightarrow> coordinator res" where
  "co_remove_skipped_blocks c rid total_computed =
     res_bind (on_managers (\<lambda>i m p.
       res_bind (remove_skipped_blocks m p rid total_computed) (\<lambda>(m', p'). Inr ((), m', p'))) c)
       (\<lambda>(_, c'). Inr c')"

definition co_get_blocks :: "coordinator \<Rightarrow> string \<Rightarrow> nat list list" where
  "co_get_blocks c rid = map (\<lambda>m. blocks_of m rid) (single_type_managers c)"

definition co_new_step_starts :: "coordinator \<Rightarrow> coordinator" where
  "co_new_step_starts c = c\<lparr>single_type_managers := map new_step_starts (single_type_managers c)\<rparr>"

section \<open>The longest cache hit\<close>

text \<open>\<^verbatim>\<open>_get_block_hashes\<close>; \<^verbatim>\<open>BlockHashListWithBlockSize\<close> checks divisibility in its constructor.\<close>

definition co_get_block_hashes :: "nat \<Rightarrow> bytes list \<Rightarrow> kv_cache_spec \<Rightarrow> hash_view res" where
  "co_get_block_hashes hbs hashes spec =
     (if block_size spec = int hbs then Inr (PlainHashes hashes)
      else res_bind (block_hash_list_with_block_size hashes hbs (nat (block_size spec)))
             (\<lambda>b. Inr (MergedHashes b)))"

type_synonym hit_table = "nat list option list"

definition store_hits :: "nat list \<Rightarrow> nat list list \<Rightarrow> hit_table \<Rightarrow> hit_table" where
  "store_hits ids hits table = fold (\<lambda>(i, bs) t. t[i := Some bs]) (zip ids hits) table"

text \<open>One iteration of the inner \<^verbatim>\<open>for\<close> loop: the candidate length and the hits found so far.\<close>

definition hybrid_group ::
  "coordinator \<Rightarrow> nat \<Rightarrow> int \<Rightarrow> bytes list \<Rightarrow> attention_group \<Rightarrow> int \<times> hit_table \<Rightarrow> (int \<times> hit_table) res" where
  "hybrid_group c hbs lcm_bs hashes g st =
     (case (g, st) of ((spec, ids), (cur, table)) \<Rightarrow>
      if is_full_attention spec \<and> table ! hd ids \<noteq> None
      then Inr (cur div block_size spec * block_size spec, table)
      else res_bind (co_get_block_hashes hbs hashes spec) (\<lambda>view.
           res_bind (find_longest_cache_hit view cur (map int ids) (co_pool c) spec (co_use_eagle c)
                       lcm_bs 1 1) (\<lambda>hits.
           res_bind (first_comp hits) (\<lambda>c0.
             Inr (int (length c0) * block_size spec, store_hits ids hits table)))))"

definition hybrid_pass ::
  "coordinator \<Rightarrow> nat \<Rightarrow> attention_group list \<Rightarrow> int \<Rightarrow> bytes list \<Rightarrow> int \<Rightarrow> hit_table \<Rightarrow> (int \<times> hit_table) res" where
  "hybrid_pass c hbs groups lcm_bs hashes hit table =
     fold_res (hybrid_group c hbs lcm_bs hashes) groups (hit, table)"

text \<open>The \<^verbatim>\<open>while True\<close> loop; \<open>None\<close> is the loop that never leaves.\<close>

partial_function (option) hybrid_loop ::
  "coordinator \<Rightarrow> nat \<Rightarrow> attention_group list \<Rightarrow> int \<Rightarrow> bytes list \<Rightarrow> bool \<Rightarrow> int \<Rightarrow> hit_table
     \<Rightarrow> (int \<times> hit_table) res option" where
  "hybrid_loop c hbs groups lcm_bs hashes simple hit table =
     (case hybrid_pass c hbs groups lcm_bs hashes hit table of
        Inl e \<Rightarrow> Some (Inl e)
      | Inr st \<Rightarrow>
          if fst st \<ge> hit then Some (Inr (hit, snd st))
          else if simple then Some (Inr st)
          else hybrid_loop c hbs groups lcm_bs hashes simple (fst st) (snd st))"

declare hybrid_loop.simps [code]

text \<open>The final truncation of the full attention group.\<close>

definition truncate_full :: "attention_group list \<Rightarrow> int \<Rightarrow> hit_table \<Rightarrow> hit_table" where
  "truncate_full groups hit table =
     (case groups of
        (spec, ids) # _ \<Rightarrow>
          if is_full_attention spec
          then fold (\<lambda>i t. t[i := map_option (take (nat (hit div block_size spec))) (t ! i)]) ids table
          else table
      | [] \<Rightarrow> table)"

definition hybrid_find_longest_cache_hit ::
  "coordinator \<Rightarrow> nat \<Rightarrow> attention_group list \<Rightarrow> int \<Rightarrow> bytes list \<Rightarrow> int
     \<Rightarrow> (nat list list \<times> int) res option" where
  "hybrid_find_longest_cache_hit c hbs groups lcm_bs hashes max_len =
     (let simple = (length groups = 2 \<and> is_full_attention (fst (hd groups))) in
      case hybrid_loop c hbs groups lcm_bs hashes simple max_len
             (replicate (length (kv_cache_groups (co_config c))) None) of
        None \<Rightarrow> None
      | Some r \<Rightarrow> Some (res_bind r (\<lambda>(hit, table).
          Inr (map (\<lambda>b. case b of None \<Rightarrow> [] | Some bs \<Rightarrow> bs) (truncate_full groups hit table), hit))))"

definition co_find_longest_cache_hit ::
  "coordinator \<Rightarrow> bytes list \<Rightarrow> int \<Rightarrow> (nat list list \<times> int) res option" where
  "co_find_longest_cache_hit c hashes max_len =
     (case co_kind c of
        NoPrefixCache \<Rightarrow> Some (Inr (replicate (length (single_type_managers c)) [], 0))
      | Unitary bs dcp pcp \<Rightarrow> Some (
          case kv_cache_groups (co_config c) of
            [] \<Rightarrow> Inl IndexError
          | g # _ \<Rightarrow>
              res_bind (find_longest_cache_hit (PlainHashes hashes) max_len [0] (co_pool c)
                          (group_spec g) (co_use_eagle c) bs dcp pcp) (\<lambda>hits.
              res_bind (first_comp hits) (\<lambda>c0. Inr (hits, int (length c0) * bs))))
      | Hybrid hbs groups lcm_bs \<Rightarrow> hybrid_find_longest_cache_hit c hbs groups lcm_bs hashes max_len)"

end
