(* ===== verification/Block_Ownership.thy ===== *)
theory Block_Ownership
  imports KV_Cache_Coordinator
begin

text \<open>
  Who owns a block. Every reference count of the pool is accounted for by the block tables of the
  managers: \<open>refs p a\<close> is the number of occurrences of \<open>a\<close> in all tables of all groups. The laws
  below show this balance for every table operation, and from it that no operation fails: blocks
  freed are always referenced, blocks cached are always unhashed.
\<close>

section \<open>Occurrences in the tables\<close>

definition table_count :: "(string, nat list) odict \<Rightarrow> nat \<Rightarrow> nat" where
  "table_count d a = sum_list (map (\<lambda>e. count_list (snd e) a) d)"

definition held :: "manager \<Rightarrow> nat \<Rightarrow> nat" where
  "held m a = table_count (req_to_blocks m) a"

definition held_all :: "manager list \<Rightarrow> nat \<Rightarrow> nat" where
  "held_all ms a = sum_list (map (\<lambda>m. held m a) ms)"

lemma table_count_simps [simp]:
  "table_count [] a = 0"
  "table_count (e # d) a = count_list (snd e) a + table_count d a"
  by (simp_all add: table_count_def)

lemma held_all_simps [simp]:
  "held_all [] a = 0"
  "held_all (m # ms) a = held m a + held_all ms a"
  "held_all (ms @ ms') a = held_all ms a + held_all ms' a"
  by (simp_all add: held_all_def)

lemma table_count_update:
  "table_count (AList.update k bs d) a + count_list (case map_of d k of None \<Rightarrow> [] | Some b \<Rightarrow> b) a
     = table_count d a + count_list bs a"
  by (induction d) auto

lemma table_count_delete:
  "od_wf d \<Longrightarrow> table_count (AList.delete k d) a
     + count_list (case map_of d k of None \<Rightarrow> [] | Some b \<Rightarrow> b) a = table_count d a"
proof (induction d)
  case Nil
  then show ?case by simp
next
  case (Cons e d)
  obtain k' b where e: "e = (k', b)" by (cases e)
  show ?case
  proof (cases "k' = k")
    case True
    then have "AList.delete k d = d" using Cons.prems e by (intro delete_not_key) auto
    then show ?thesis using True e by simp
  next
    case False
    then show ?thesis using Cons e by simp
  qed
qed

lemma held_set_blocks:
  "held (set_blocks rid bs m) a + count_list (blocks_of m rid) a = held m a + count_list bs a"
  unfolding held_def set_blocks_def blocks_of_def using table_count_update by simp

lemma count_le_held: "count_list (blocks_of m rid) a \<le> held m a"
proof -
  have "count_list (case map_of d rid of None \<Rightarrow> [] | Some b \<Rightarrow> b) a \<le> table_count d a" for d
    by (induction d) auto
  then show ?thesis by (simp add: held_def blocks_of_def)
qed

lemma held_le_held_all: "m \<in> set ms \<Longrightarrow> held m a \<le> held_all ms a"
  by (induction ms) auto

lemma set_blocks_fields [simp]:
  "mg_spec (set_blocks rid bs m) = mg_spec m" "mg_block_size (set_blocks rid bs m) = mg_block_size m"
  "mg_enable_caching (set_blocks rid bs m) = mg_enable_caching m"
  "kv_cache_group_id (set_blocks rid bs m) = kv_cache_group_id m"
  "mg_null_block (set_blocks rid bs m) = mg_null_block m"
  "num_cached_block (set_blocks rid bs m) = num_cached_block m"
  "allocated_block_reqs (set_blocks rid bs m) = allocated_block_reqs m"
  "last_state_block_idx (set_blocks rid bs m) = last_state_block_idx m"
  by (simp_all add: set_blocks_def)

lemma blocks_of_set_blocks [simp]:
  "blocks_of (set_blocks rid bs m) x = (if x = rid then bs else blocks_of m x)"
  by (simp add: blocks_of_def set_blocks_def)

lemma blocks_of_cong: "req_to_blocks m' = req_to_blocks m \<Longrightarrow> blocks_of m' = blocks_of m"
  by (simp add: blocks_of_def fun_eq_iff)

section \<open>Well-formed tables\<close>

text \<open>A list of blocks that a table may hold: allocatable blocks, none twice but the null block.\<close>

definition row_ok :: "nat set \<Rightarrow> nat \<Rightarrow> nat list \<Rightarrow> bool" where
  "row_ok R n bs \<longleftrightarrow> (\<forall>a \<in> set bs. a < n \<and> a \<notin> R) \<and> distinct (filter (\<lambda>a. a \<noteq> 0) bs)"

definition table_ok :: "nat set \<Rightarrow> nat \<Rightarrow> manager \<Rightarrow> bool" where
  "table_ok R n m \<longleftrightarrow>
     od_wf (req_to_blocks m) \<and> (\<forall>rid. row_ok R n (blocks_of m rid))
     \<and> mg_null_block m = 0 \<and> mg_block_size m > 0"

definition same_manager :: "manager \<Rightarrow> manager \<Rightarrow> bool" where
  "same_manager m m' \<longleftrightarrow>
     mg_spec m' = mg_spec m \<and> mg_block_size m' = mg_block_size m
     \<and> mg_enable_caching m' = mg_enable_caching m \<and> kv_cache_group_id m' = kv_cache_group_id m
     \<and> mg_null_block m' = mg_null_block m"

text \<open>The references of the pool cover what the manager holds.\<close>

definition owns :: "nat set \<Rightarrow> manager \<Rightarrow> block_pool \<Rightarrow> bool" where
  "owns R m p \<longleftrightarrow>
     pool_core R p \<and> table_ok R (num_gpu_blocks p) m
     \<and> (\<forall>a. 0 < a \<and> a < num_gpu_blocks p \<longrightarrow> int (held m a) \<le> refs p a)"

text \<open>A step of one manager that keeps the balance.\<close>

definition step_ok :: "nat set \<Rightarrow> manager \<Rightarrow> block_pool \<Rightarrow> manager \<Rightarrow> block_pool \<Rightarrow> bool" where
  "step_ok R m p m' p' \<longleftrightarrow>
     pool_core R p' \<and> same_config p p' \<and> table_ok R (num_gpu_blocks p) m' \<and> same_manager m m'
     \<and> (\<forall>a. 0 < a \<and> a < num_gpu_blocks p \<longrightarrow> refs p' a + int (held m a) = refs p a + int (held m' a))"

lemma row_ok_simps [simp]:
  "row_ok R n []"
  "row_ok R n bs \<Longrightarrow> row_ok R n (rev bs)"
  by (simp_all add: row_ok_def flip: rev_filter)

lemma row_ok_append:
  "row_ok R n (xs @ ys) \<longleftrightarrow> row_ok R n xs \<and> row_ok R n ys
     \<and> (\<forall>a \<in> set xs. a \<noteq> 0 \<longrightarrow> a \<notin> set ys)"
  by (auto simp: row_ok_def)

lemma row_ok_nulls: "n > 0 \<Longrightarrow> 0 \<notin> R \<Longrightarrow> row_ok R n (replicate k 0)"
  by (auto simp: row_ok_def)

lemma row_ok_drop: "row_ok R n xs \<Longrightarrow> row_ok R n (drop k xs)"
  by (metis append_take_drop_id row_ok_append)

lemma row_ok_take: "row_ok R n xs \<Longrightarrow> row_ok R n (take k xs)"
  by (metis append_take_drop_id row_ok_append)

lemma table_ok_set_blocks: "table_ok R n m \<Longrightarrow> row_ok R n bs \<Longrightarrow> table_ok R n (set_blocks rid bs m)"
  by (auto simp: table_ok_def set_blocks_def blocks_of_def)

lemma table_ok_cong:
  "req_to_blocks m' = req_to_blocks m \<Longrightarrow> mg_null_block m' = mg_null_block m
     \<Longrightarrow> mg_block_size m' = mg_block_size m \<Longrightarrow> table_ok R n m' = table_ok R n m"
  by (simp add: table_ok_def blocks_of_cong [of m' m])

lemma held_cong: "req_to_blocks m' = req_to_blocks m \<Longrightarrow> held m' = held m"
  by (simp add: held_def fun_eq_iff)

lemma same_manager_refl [simp]: "same_manager m m"
  by (simp add: same_manager_def)

lemma step_ok_refl: "owns R m p \<Longrightarrow> step_ok R m p m p"
  by (simp add: step_ok_def owns_def)

lemma step_ok_owns:
  assumes "owns R m p" "step_ok R m p m' p'"
  shows "owns R m' p'"
proof -
  have "int (held m' a) \<le> refs p' a" if "0 < a" "a < num_gpu_blocks p" for a
    using assms that unfolding owns_def step_ok_def by smt
  then show ?thesis using assms by (auto simp: owns_def step_ok_def same_config_def)
qed

lemma step_ok_trans:
  assumes "step_ok R m p m1 p1" "step_ok R m1 p1 m2 p2"
  shows "step_ok R m p m2 p2"
proof -
  have n: "num_gpu_blocks p1 = num_gpu_blocks p" using assms(1) by (simp add: step_ok_def same_config_def)
  have "refs p2 a + int (held m a) = refs p a + int (held m2 a)" if "0 < a \<and> a < num_gpu_blocks p" for a
    using assms that n unfolding step_ok_def by smt
  then show ?thesis using assms n by (auto simp: step_ok_def same_manager_def same_config_def)
qed

lemma owns_reserved_0: "owns R m p \<Longrightarrow> 0 \<notin> R \<and> num_gpu_blocks p > 0"
  by (auto simp: owns_def pool_core_def ref_inv_def heap_inv_def)

lemma owned_row: "owns R m p \<Longrightarrow> row_ok R (num_gpu_blocks p) (blocks_of m rid)"
  by (simp add: owns_def table_ok_def)

lemma owned_referenced:
  assumes "owns R m p" "a \<in> set (blocks_of m rid)" "a \<noteq> 0"
  shows "refs p a > 0"
proof -
  have "a < num_gpu_blocks p" using owned_row [OF assms(1)] assms(2) by (auto simp: row_ok_def)
  then have "int (held m a) \<le> refs p a" using assms(1,3) by (simp add: owns_def)
  moreover have "count_list (blocks_of m rid) a > 0" using assms(2) by (metis count_list_0_iff gr0I)
  ultimately show ?thesis using count_le_held [of m rid a] by linarith
qed

text \<open>Changing one row while the references change by the same amount.\<close>

lemma step_okI:
  assumes own: "owns R m p" and core: "pool_core R p'" "same_config p p'"
    and row: "row_ok R (num_gpu_blocks p) bs" and same: "same_manager m m'"
    and tab: "req_to_blocks m' = req_to_blocks (set_blocks rid bs m)"
    and bal: "\<And>a. 0 < a \<Longrightarrow> a < num_gpu_blocks p \<Longrightarrow>
      refs p' a + int (count_list (blocks_of m rid) a) = refs p a + int (count_list bs a)"
  shows "step_ok R m p m' p'"
proof -
  have "table_ok R (num_gpu_blocks p) (set_blocks rid bs m)"
    using own row by (intro table_ok_set_blocks) (simp_all add: owns_def)
  then have t: "table_ok R (num_gpu_blocks p) m'"
    using table_ok_cong [OF tab, of R "num_gpu_blocks p"] same by (simp add: same_manager_def)
  have "refs p' a + int (held m a) = refs p a + int (held m' a)" if "0 < a \<and> a < num_gpu_blocks p" for a
    using bal [of a] that held_set_blocks [of rid bs m a] by (simp add: held_cong [OF tab])
  then show ?thesis using core same t by (simp add: step_ok_def)
qed

lemma touch_entry_ok: "owns R m p \<Longrightarrow> step_ok R m p (touch_entry rid m) p"
  by (rule step_okI [of R m p p "blocks_of m rid" _ rid])
    (auto simp: owns_def owned_row touch_entry_def same_manager_def table_ok_def)

section \<open>Freeing\<close>

definition drop_entry :: "string \<Rightarrow> manager \<Rightarrow> manager" where
  "drop_entry rid m = m\<lparr>req_to_blocks := AList.delete rid (req_to_blocks m)\<rparr>"

lemma drop_entry_laws:
  assumes "table_ok R n m"
  shows "table_ok R n (drop_entry rid m)"
    "held (drop_entry rid m) a + count_list (blocks_of m rid) a = held m a"
    "blocks_of (drop_entry rid m) x = (if x = rid then [] else blocks_of m x)"
  using assms table_count_delete [of "req_to_blocks m" rid a]
  by (auto simp: table_ok_def drop_entry_def blocks_of_def held_def)

text \<open>Freeing never fails, appends the blocks that become unused in reverse order, and touches no
  other request.\<close>

lemma mg_free_law:
  assumes own: "owns R m p"
  shows "\<exists>m' p'. mg_free m p rid = Inr (m', p') \<and> step_ok R m p m' p'
    \<and> free_list p' = free_list p @ filter (\<lambda>a. a \<noteq> 0 \<and> refs p a = 1) (rev (blocks_of m rid))
    \<and> (\<forall>x. blocks_of m' x = (if x = rid then [] else blocks_of m x))
    \<and> (\<forall>x. map_of (num_cached_block m') x = (if x = rid then None else map_of (num_cached_block m) x))
    \<and> (\<forall>x < num_gpu_blocks p. hash_of p' x = hash_of p x)"
proof -
  note row = owned_row [OF own, of rid]
  have core: "pool_core R p" and tab: "table_ok R (num_gpu_blocks p) m" using own by (auto simp: owns_def)
  obtain p' where free: "free_blocks (rev (blocks_of m rid)) p = Inr p'" "pool_core R p'"
    "free_list p' = free_list p @ filter (\<lambda>a. a \<noteq> 0 \<and> refs p a = 1) (rev (blocks_of m rid))"
    "same_config p p'"
    "\<forall>x. x < num_gpu_blocks p \<longrightarrow> refs p' x = refs p x - int (count_list (rev (blocks_of m rid)) x)"
    "\<forall>x. x < num_gpu_blocks p \<longrightarrow> hash_of p' x = hash_of p x"
    using free_blocks_law [OF core, of "rev (blocks_of m rid)"] row owned_referenced [OF own]
    by (force simp: row_ok_def simp flip: rev_filter)
  define m' where "m' = fst (case mg_free m p rid of Inr x \<Rightarrow> x | Inl e \<Rightarrow> undefined)"
  have res: "mg_free m p rid = Inr (m', p')"
    by (simp add: m'_def mg_free_def free(1))
  have m': "req_to_blocks m' = req_to_blocks (drop_entry rid m)"
    "num_cached_block m' = AList.delete rid (num_cached_block m)" "same_manager m m'"
    "mg_null_block m' = mg_null_block (drop_entry rid m)" "mg_block_size m' = mg_block_size (drop_entry rid m)"
    by (auto simp: m'_def mg_free_def free(1) drop_entry_def same_manager_def split: kv_cache_spec.splits)
  note D = drop_entry_laws [OF tab, of rid]
  have "table_ok R (num_gpu_blocks p) m'"
    using D(1) table_ok_cong [OF m'(1,4,5)] by simp
  moreover have "refs p' a + int (held m a) = refs p a + int (held m' a)"
    if "0 < a \<and> a < num_gpu_blocks p" for a
    using free(5) that D(2) [of a] by (simp add: held_cong [OF m'(1)])
  ultimately have "step_ok R m p m' p'" using free(2,4) m'(3) by (simp add: step_ok_def)
  then show ?thesis
    using res free(3,6) m'(2) D(3) blocks_of_cong [OF m'(1)] by (intro exI [of _ m'] exI [of _ p']) simp
qed

section \<open>Removing skipped blocks\<close>

text \<open>
  The loop frees the blocks from the skipped boundary \<open>k\<close> down to the first null block at \<open>j\<close>, and
  overwrites exactly these with the null block.
\<close>

lemma strip_blocks_spec:
  assumes "k \<le> length bs"
  shows "\<exists>j \<le> k. strip_blocks null k bs removed
      = (take j bs @ replicate (k - j) null @ drop k bs, removed @ rev (drop j (take k bs)))
    \<and> null \<notin> set (drop j (take k bs)) \<and> (0 < j \<longrightarrow> bs ! (j - 1) = null)"
  using assms
proof (induction k arbitrary: bs removed)
  case 0
  then show ?case by simp
next
  case (Suc i)
  show ?case
  proof (cases "bs ! i = null")
    case True
    then show ?thesis using Suc.prems by (intro exI [of _ "Suc i"]) simp
  next
    case False
    let ?bs = "bs[i := null]"
    have len: "i \<le> length ?bs" using Suc.prems by simp
    obtain j where j: "j \<le> i" "strip_blocks null i ?bs (removed @ [bs ! i])
        = (take j ?bs @ replicate (i - j) null @ drop i ?bs, (removed @ [bs ! i]) @ rev (drop j (take i ?bs)))"
      "null \<notin> set (drop j (take i ?bs))" "0 < j \<longrightarrow> ?bs ! (j - 1) = null"
      using Suc.IH [OF len, of "removed @ [bs ! i]"] by (elim exE conjE) (rule that)
    have d: "drop i ?bs = null # drop (Suc i) bs" using Suc.prems
      by (metis Cons_nth_drop_Suc Suc_le_eq drop_update_cancel length_list_update lessI nth_list_update_eq)
    have t: "take i ?bs = take i bs" "take j ?bs = take j bs" using j(1) by simp_all
    have ts: "take (Suc i) bs = take i bs @ [bs ! i]" using Suc.prems by (simp add: take_Suc_conv_app_nth)
    have ds: "drop j (take (Suc i) bs) = drop j (take i bs) @ [bs ! i]"
      using j(1) Suc.prems by (simp add: ts)
    have r: "replicate (Suc i - j) null = replicate (i - j) null @ [null]"
      using j(1) by (simp add: Suc_diff_le replicate_append_same)
    have nj: "0 < j \<longrightarrow> bs ! (j - 1) = null" using j(1,4) by (auto simp: nth_list_update split: if_splits)
    show ?thesis
      using False j(1,2,3) nj by (intro exI [of _ j]) (simp add: d t ds r)
  qed
qed

lemma count_list_split3:
  assumes "j \<le> k" "k \<le> length bs" "a \<noteq> null"
  shows "count_list (take j bs @ replicate (k - j) null @ drop k bs) a
    + count_list (drop j (take k bs)) a = count_list bs a"
proof -
  have "bs = take j bs @ drop j (take k bs) @ drop k bs"
    using assms(1,2) by (metis append_assoc append_take_drop_id min.absorb1 take_take)
  then have "count_list bs a = count_list (take j bs) a + count_list (drop j (take k bs)) a + count_list (drop k bs) a"
    by (metis add.assoc count_list_append)
  then show ?thesis using assms(3) by simp
qed

lemma row_ok_strip:
  assumes "row_ok R n bs" "j \<le> k" "k \<le> length bs" "n > 0" "0 \<notin> R"
  shows "row_ok R n (take j bs @ replicate (k - j) 0 @ drop k bs)"
proof -
  have eq: "bs = take j bs @ drop j (take k bs) @ drop k bs"
    using assms(2,3) by (metis append_assoc append_take_drop_id min.absorb1 take_take)
  then have r: "row_ok R n (take j bs @ drop j (take k bs) @ drop k bs)" using assms(1) by simp
  then show ?thesis using assms(4,5) by (auto simp: row_ok_append row_ok_nulls)
qed

lemma base_remove_skipped_blocks_law:
  assumes own: "owns R m p"
  shows "\<exists>m' p'. base_remove_skipped_blocks m p rid tc = Inr (m', p') \<and> step_ok R m p m' p'
    \<and> num_cached_block m' = num_cached_block m \<and> last_state_block_idx m' = last_state_block_idx m
    \<and> (\<forall>x. x \<noteq> rid \<longrightarrow> blocks_of m' x = blocks_of m x)
    \<and> length (blocks_of m' rid) = length (blocks_of m rid)
    \<and> (\<forall>i < length (blocks_of m rid). blocks_of m' rid ! i = blocks_of m rid ! i
         \<or> blocks_of m' rid ! i = 0 \<and> int i < get_num_skipped_tokens m tc div mg_block_size m)
    \<and> (\<exists>freed. free_list p' = free_list p @ freed)
    \<and> (\<forall>x < num_gpu_blocks p. hash_of p' x = hash_of p x)"
proof (cases "get_num_skipped_tokens m tc \<le> 0")
  case True
  then show ?thesis using step_ok_refl [OF own] by (simp add: base_remove_skipped_blocks_def)
next
  case False
  let ?bs = "blocks_of m rid" and ?s = "get_num_skipped_tokens m tc div mg_block_size m"
  define k where "k = nat (min ?s (int (length ?bs)))"
  note row = owned_row [OF own, of rid] and R0 = owns_reserved_0 [OF own]
  have core: "pool_core R p" and tab: "table_ok R (num_gpu_blocks p) m" using own by (auto simp: owns_def)
  have k: "k \<le> length ?bs" "i < k \<Longrightarrow> int i < ?s" for i by (auto simp: k_def)
  obtain j where j: "j \<le> k" "strip_blocks 0 k ?bs [] =
      (take j ?bs @ replicate (k - j) 0 @ drop k ?bs, [] @ rev (drop j (take k ?bs)))"
    "0 \<notin> set (drop j (take k ?bs))"
    using strip_blocks_spec [OF k(1), of 0 "[]"] by (elim exE conjE) (rule that)
  let ?bs' = "take j ?bs @ replicate (k - j) 0 @ drop k ?bs" and ?freed = "rev (drop j (take k ?bs))"
  have sub: "set ?freed \<subseteq> set ?bs" by (metis order_trans set_drop_subset set_rev set_take_subset)
  have rowf: "row_ok R (num_gpu_blocks p) ?freed" by (simp add: row row_ok_drop row_ok_take)
  obtain p' where free: "free_blocks ?freed p = Inr p'" "pool_core R p'"
    "free_list p' = free_list p @ filter (\<lambda>a. a \<noteq> 0 \<and> refs p a = 1) ?freed" "same_config p p'"
    "\<forall>x. x < num_gpu_blocks p \<longrightarrow> refs p' x = refs p x - int (count_list ?freed x)"
    "\<forall>x. x < num_gpu_blocks p \<longrightarrow> hash_of p' x = hash_of p x"
    using free_blocks_law [OF core, of ?freed] rowf sub owned_referenced [OF own, of _ rid]
    by (auto simp: row_ok_def)
  have res: "base_remove_skipped_blocks m p rid tc = Inr (set_blocks rid ?bs' m, p')"
    using False j(2) free(1) tab by (simp add: base_remove_skipped_blocks_def table_ok_def k_def Let_def)
  have step: "step_ok R m p (set_blocks rid ?bs' m) p'"
  proof (rule step_okI [OF own free(2,4), where rid = rid])
    show "row_ok R (num_gpu_blocks p) ?bs'" using row_ok_strip [OF row j(1) k(1)] R0 by simp
    show "same_manager m (set_blocks rid ?bs' m)" by (simp add: same_manager_def)
    fix a assume "0 < a" "a < num_gpu_blocks p"
    then show "refs p' a + int (count_list ?bs a) = refs p a + int (count_list ?bs' a)"
      using free(5) count_list_split3 [OF j(1) k(1), of a 0] by simp
  qed simp
  have nth: "?bs' ! i = ?bs ! i \<or> ?bs' ! i = 0 \<and> int i < ?s" if "i < length ?bs" for i
    using that j(1) k by (auto simp: nth_append)
  show ?thesis
    using res step nth free(3,6) j(1) k(1)
    by (intro exI [of _ "set_blocks rid ?bs' m"] exI [of _ p']) auto
qed

section \<open>Allocation\<close>

lemma add_new_block_ids_fields [simp]:
  "mg_spec (add_new_block_ids p bs m) = mg_spec m"
  "mg_block_size (add_new_block_ids p bs m) = mg_block_size m"
  "mg_enable_caching (add_new_block_ids p bs m) = mg_enable_caching m"
  "kv_cache_group_id (add_new_block_ids p bs m) = kv_cache_group_id m"
  "mg_null_block (add_new_block_ids p bs m) = mg_null_block m"
  "req_to_blocks (add_new_block_ids p bs m) = req_to_blocks m"
  "num_cached_block (add_new_block_ids p bs m) = num_cached_block m"
  "blocks_of (add_new_block_ids p bs m) x = blocks_of m x"
  by (simp_all add: add_new_block_ids_def blocks_of_def)

text \<open>Blocks taken from the free list extend a row: they are unreferenced, so no row holds them.\<close>

lemma fresh_blocks_row:
  assumes own: "owns R m p" and new: "set new \<subseteq> set (free_list p)" "distinct new"
  shows "row_ok R (num_gpu_blocks p) (blocks_of m rid @ new)"
proof -
  have core: "pool_core R p" using own by (simp add: owns_def)
  have free: "0 < a \<and> a < num_gpu_blocks p \<and> refs p a = 0 \<and> a \<notin> R" if "a \<in> set new" for a
    using that new(1) pool_free_iff [OF core, of a] by auto
  have "a \<notin> set new" if "a \<in> set (blocks_of m rid)" "a \<noteq> 0" for a
    using owned_referenced [OF own that] free by force
  then show ?thesis
    using owned_row [OF own, of rid] free new(2) by (auto simp: row_ok_append row_ok_def)
qed

lemma extend_row:
  assumes own: "owns R m p" and k: "0 \<le> k" "k \<le> int (length (free_list p))"
  shows "\<exists>new p'. get_new_blocks E k p = Inr (new, p') \<and> int (length new) = k
    \<and> free_list p = new @ free_list p' \<and> pool_core R p' \<and> same_config p p'
    \<and> (\<forall>m'. same_manager m m' \<and> req_to_blocks m' = req_to_blocks (set_blocks rid (blocks_of m rid @ new) m)
         \<longrightarrow> step_ok R m p m' p')
    \<and> (\<forall>x < num_gpu_blocks p. hash_of p' x = (if x \<in> set new \<and> enable_caching p then None else hash_of p x))
    \<and> (\<forall>x < num_gpu_blocks p. refs p' x = refs p x + int (count_list new x))"
proof -
  define new where "new = take (nat k) (free_list p)"
  have core: "pool_core R p" using own by (simp add: owns_def)
  obtain p' where p': "get_new_blocks E k p = Inr (new, p')" "pool_core R p'"
    "free_list p' = drop (nat k) (free_list p)" "same_config p p'"
    "\<forall>x. x < num_gpu_blocks p \<longrightarrow> refs p' x = refs p x + (if x \<in> set new then 1 else 0)"
    "\<forall>x. x < num_gpu_blocks p \<longrightarrow>
       hash_of p' x = (if x \<in> set new \<and> enable_caching p then None else hash_of p x)"
    using get_new_blocks_law [OF core k, of E, folded new_def] by (elim exE conjE) (rule that)
  have dist: "distinct new" using pool_coreD(8) [OF core] by (simp add: new_def)
  have refs: "refs p' x = refs p x + int (count_list new x)" if "x < num_gpu_blocks p" for x
    using p'(5) that dist by (simp add: count_list_distinct)
  have row: "row_ok R (num_gpu_blocks p) (blocks_of m rid @ new)"
    by (rule fresh_blocks_row [OF own _ dist]) (auto simp: new_def dest: in_set_takeD)
  have step: "step_ok R m p m' p'" if "same_manager m m'"
    "req_to_blocks m' = req_to_blocks (set_blocks rid (blocks_of m rid @ new) m)" for m'
    by (rule step_okI [OF own p'(2,4) row that]) (simp add: refs)
  have len: "int (length new) = k" using k by (simp add: new_def)
  have split: "free_list p = new @ free_list p'" by (simp add: p'(3) new_def)
  show ?thesis
    using p'(1,2,4,6) refs len split step by (intro exI [of _ new] exI [of _ p']) blast
qed

lemma base_allocate_new_blocks_law:
  assumes own: "owns R m p"
    and n: "cdiv ntok (mg_block_size m) - int (length (blocks_of m rid)) \<le> int (length (free_list p))"
  shows "\<exists>new m' p'. base_allocate_new_blocks E m p rid ntok = Inr (new, m', p') \<and> step_ok R m p m' p'
    \<and> num_cached_block m' = num_cached_block m
    \<and> blocks_of m' rid = blocks_of m rid @ new \<and> (\<forall>x. x \<noteq> rid \<longrightarrow> blocks_of m' x = blocks_of m x)
    \<and> int (length new) = max 0 (cdiv ntok (mg_block_size m) - int (length (blocks_of m rid)))
    \<and> free_list p = new @ free_list p'
    \<and> (\<forall>x < num_gpu_blocks p. hash_of p' x = (if x \<in> set new \<and> enable_caching p then None else hash_of p x))
    \<and> (\<forall>x < num_gpu_blocks p. refs p' x = refs p x + int (count_list new x))"
proof (cases "cdiv ntok (mg_block_size m) - int (length (blocks_of m rid)) \<le> 0")
  case True
  then have "base_allocate_new_blocks E m p rid ntok = Inr ([], touch_entry rid m, p)"
    by (simp add: base_allocate_new_blocks_def)
  then show ?thesis using True touch_entry_ok [OF own, of rid] by (auto simp: touch_entry_def)
next
  case False
  define k where "k = cdiv ntok (mg_block_size m) - int (length (blocks_of m rid))"
  have k: "0 \<le> k" "k \<le> int (length (free_list p))" using False n by (auto simp: k_def)
  obtain new p' where X: "get_new_blocks E k p = Inr (new, p')" "int (length new) = k"
    "free_list p = new @ free_list p'" and step: "\<And>m'. same_manager m m' \<Longrightarrow>
      req_to_blocks m' = req_to_blocks (set_blocks rid (blocks_of m rid @ new) m) \<Longrightarrow> step_ok R m p m' p'"
    and hr: "\<forall>x < num_gpu_blocks p. hash_of p' x = (if x \<in> set new \<and> enable_caching p then None else hash_of p x)"
    "\<forall>x < num_gpu_blocks p. refs p' x = refs p x + int (count_list new x)"
    using extend_row [OF own k, of E rid] by (elim exE conjE) (rule that; blast)
  let ?m = "add_new_block_ids p' new (set_blocks rid (blocks_of m rid @ new) m)"
  have res: "base_allocate_new_blocks E m p rid ntok = Inr (new, ?m, p')"
    using False X(1) by (simp add: base_allocate_new_blocks_def k_def)
  have "step_ok R m p ?m p'" by (rule step) (simp_all add: same_manager_def)
  then show ?thesis
    using res X(2,3) hr k by (intro exI [of _ new] exI [of _ ?m] exI [of _ p']) (simp add: k_def)
qed

lemma base_allocate_new_blocks_error:
  assumes own: "owns R m p"
    and n: "cdiv ntok (mg_block_size m) - int (length (blocks_of m rid)) > int (length (free_list p))"
  shows "base_allocate_new_blocks E m p rid ntok = Inl ValueError"
  using n get_new_blocks_error [of R p, OF _ n, of E] own by (simp add: base_allocate_new_blocks_def owns_def)

text \<open>The row a request starts with: null blocks for the skipped prefix, then the hit.\<close>

definition initial_row :: "manager \<Rightarrow> nat list \<Rightarrow> int \<Rightarrow> nat list" where
  "initial_row m new_computed tc =
     (let k = nat (get_num_skipped_tokens m tc div mg_block_size m)
      in replicate k 0 @ drop k new_computed)"

definition external_blocks :: "manager \<Rightarrow> nat list \<Rightarrow> int \<Rightarrow> int \<Rightarrow> int" where
  "external_blocks m new_computed tc num_external =
     (let sk = get_num_skipped_tokens m tc;
          ext = (if sk div mg_block_size m > 0 then min (tc - sk) num_external else num_external)
      in if ext > 0 then cdiv tc (mg_block_size m) - int (length (initial_row m new_computed tc)) else 0)"

lemma update_twice: "AList.update k v (AList.update k w d) = AList.update k v d"
  by (induction d) auto

lemma row_ok_initial:
  assumes "row_ok R n new_computed" "n > 0" "0 \<notin> R"
  shows "row_ok R n (initial_row m new_computed tc)"
  using assms row_ok_drop [OF assms(1)] by (auto simp: initial_row_def Let_def row_ok_append row_ok_nulls)

lemma base_allocate_new_computed_blocks_law:
  assumes own: "owns R m p" and new: "map_of (num_cached_block m) rid = None" "blocks_of m rid = []"
    and hit: "row_ok R (num_gpu_blocks p) hit" "mg_enable_caching m \<or> hit = []"
    and fl: "fl = filter (\<lambda>x. x \<notin> set (initial_row m hit (nl + ne))) (free_list p)"
    and ext: "0 \<le> external_blocks m hit (nl + ne) ne" "external_blocks m hit (nl + ne) ne \<le> int (length fl)"
  shows "\<exists>ext m' p'. base_allocate_new_computed_blocks E m p rid hit nl ne = Inr (m', p') \<and> step_ok R m p m' p'
    \<and> blocks_of m' rid = initial_row m hit (nl + ne) @ ext \<and> (\<forall>x. x \<noteq> rid \<longrightarrow> blocks_of m' x = blocks_of m x)
    \<and> num_cached_block m' = AList.update rid (length (initial_row m hit (nl + ne))) (num_cached_block m)
    \<and> int (length ext) = external_blocks m hit (nl + ne) ne \<and> fl = ext @ free_list p'
    \<and> (\<forall>x < num_gpu_blocks p. hash_of p' x = (if x \<in> set ext \<and> enable_caching p then None else hash_of p x))
    \<and> (\<forall>x. 0 < x \<and> x < num_gpu_blocks p \<longrightarrow>
         refs p' x = refs p x + int (count_list (initial_row m hit (nl + ne) @ ext) x))"
proof -
  define k where "k = nat (get_num_skipped_tokens m (nl + ne) div mg_block_size m)"
  define row where "row = initial_row m hit (nl + ne)"
  define comp where "comp = drop k hit"
  have row: "row = replicate k 0 @ comp" by (simp add: row_def initial_row_def k_def comp_def Let_def)
  have core: "pool_core R p" and null: "mg_null_block m = 0" using own by (auto simp: owns_def table_ok_def)
  have cok: "row_ok R (num_gpu_blocks p) comp" by (simp add: comp_def row_ok_drop hit(1))
  obtain p1 where p1: "touch comp p = Inr p1" "pool_core R p1"
    "free_list p1 = filter (\<lambda>x. x \<notin> set comp) (free_list p)" "same_config p p1"
    "\<forall>x. x < num_gpu_blocks p \<longrightarrow> refs p1 x = refs p x + int (count_list comp x)"
    "\<forall>x. x < num_gpu_blocks p \<longrightarrow> hash_of p1 x = hash_of p x"
    using touch_law [OF core, of comp] cok by (auto simp: row_ok_def)
  have 0: "0 < x" if "x \<in> set (free_list p)" for x using that pool_free_iff [OF core, of x] by simp
  have fl1: "free_list p1 = fl" unfolding p1(3) fl row_def [symmetric] row
    by (rule filter_cong) (auto dest: 0)
  define m1 where "m1 = (set_blocks rid row m)\<lparr>num_cached_block := AList.update rid (length row) (num_cached_block m)\<rparr>"
  have m1: "req_to_blocks m1 = req_to_blocks (set_blocks rid row m)" "same_manager m m1"
    "blocks_of m1 x = (if x = rid then row else blocks_of m x)" for x
    by (auto simp: m1_def same_manager_def set_blocks_def blocks_of_def)
  have n: "num_gpu_blocks p1 = num_gpu_blocks p" "enable_caching p1 = enable_caching p"
    using p1(4) by (auto simp: same_config_def)
  have rrow: "row_ok R (num_gpu_blocks p) row"
    unfolding row_def using owns_reserved_0 [OF own] by (intro row_ok_initial hit(1)) auto
  have step1: "step_ok R m p m1 p1"
  proof (rule step_okI [OF own p1(2,4) rrow m1(2,1)])
    fix a assume "0 < a" "a < num_gpu_blocks p"
    then show "refs p1 a + int (count_list (blocks_of m rid) a) = refs p a + int (count_list row a)"
      using p1(5) by (simp add: new(2) row)
  qed
  have touch: "(if mg_enable_caching m then touch comp p
      else guard (comp = []) AssertionError (Inr p)) = Inr p1"
    using hit(2) p1(1) by (auto simp: comp_def touch_def)
  define ex where "ex = (if get_num_skipped_tokens m (nl + ne) div mg_block_size m > 0
    then min (nl + ne - get_num_skipped_tokens m (nl + ne)) ne else ne)"
  have comp': "(if get_num_skipped_tokens m (nl + ne) div mg_block_size m > 0
      then drop (nat (get_num_skipped_tokens m (nl + ne) div mg_block_size m)) hit else hit) = comp"
    by (simp add: comp_def k_def)
  let ?m1 = "m\<lparr>num_cached_block := AList.update rid (length row) (num_cached_block m)\<rparr>"
  have eq: "base_allocate_new_computed_blocks E m p rid hit nl ne =
     (if ex > 0 then res_bind (get_new_blocks E (cdiv (nl + ne) (mg_block_size m) - int (length row)) p1)
        (\<lambda>(new, p2). Inr (add_new_block_ids p2 new (set_blocks rid (row @ new) ?m1), p2))
      else Inr (set_blocks rid row ?m1, p1))"
    unfolding base_allocate_new_computed_blocks_def Let_def comp' touch
    by (simp add: new null row ex_def k_def [symmetric])
  have xb: "external_blocks m hit (nl + ne) ne
      = (if ex > 0 then cdiv (nl + ne) (mg_block_size m) - int (length row) else 0)"
    by (simp add: external_blocks_def Let_def ex_def row_def)
  have set1: "set_blocks rid row ?m1 = m1" by (simp add: m1_def set_blocks_def)
  show ?thesis
  proof (cases "ex > 0")
    case False
    then show ?thesis
      using step1 p1(5,6) m1(3) fl1 xb unfolding eq set1 row_def [symmetric]
      by (intro exI [of _ "[]"] exI [of _ m1] exI [of _ p1]) (simp add: row m1_def)
  next
    case True
    note own1 = step_ok_owns [OF own step1]
    define q where "q = cdiv (nl + ne) (mg_block_size m) - int (length row)"
    have q: "0 \<le> q" "q \<le> int (length (free_list p1))" using ext True xb by (simp_all add: q_def fl1)
    obtain new p' where X: "get_new_blocks E q p1 = Inr (new, p')" "int (length new) = q"
      "free_list p1 = new @ free_list p'" and step2: "\<And>m'. same_manager m1 m' \<Longrightarrow>
        req_to_blocks m' = req_to_blocks (set_blocks rid (blocks_of m1 rid @ new) m1) \<Longrightarrow> step_ok R m1 p1 m' p'"
      and hr: "\<forall>x < num_gpu_blocks p1. hash_of p' x = (if x \<in> set new \<and> enable_caching p1 then None else hash_of p1 x)"
      "\<forall>x < num_gpu_blocks p1. refs p' x = refs p1 x + int (count_list new x)"
      using extend_row [OF own1 q, of E rid] by (elim exE conjE) (rule that; blast)
    let ?m = "add_new_block_ids p' new (set_blocks rid (row @ new) ?m1)"
    have "step_ok R m1 p1 ?m p'"
    proof (rule step2)
      show "req_to_blocks ?m = req_to_blocks (set_blocks rid (blocks_of m1 rid @ new) m1)"
        unfolding m1(3) by (simp add: m1_def set_blocks_def update_twice)
    qed (simp add: same_manager_def m1_def set_blocks_def)
    then have step: "step_ok R m p ?m p'" by (rule step_ok_trans [OF step1])
    have refs: "refs p' x = refs p x + int (count_list (row @ new) x)" if "0 < x \<and> x < num_gpu_blocks p" for x
      using hr(2) p1(5) that n by (simp add: row)
    have hash: "hash_of p' x = (if x \<in> set new \<and> enable_caching p then None else hash_of p x)"
      if "x < num_gpu_blocks p" for x
      using hr(1) p1(6) that n by simp
    have same: "blocks_of ?m1 x = blocks_of m x" for x by (simp add: blocks_of_def)
    show ?thesis
      using True X refs hash step xb fl1 unfolding eq row_def [symmetric]
      by (intro exI [of _ new] exI [of _ ?m] exI [of _ p']) (simp add: q_def same)
  qed
qed

section \<open>The global invariant\<close>

text \<open>Every reference is accounted for by the tables of the managers.\<close>

definition kv_inv :: "nat set \<Rightarrow> manager list \<Rightarrow> block_pool \<Rightarrow> bool" where
  "kv_inv R ms p \<longleftrightarrow>
     pool_core R p \<and> (\<forall>m \<in> set ms. table_ok R (num_gpu_blocks p) m)
     \<and> (\<forall>a. 0 < a \<and> a < num_gpu_blocks p \<longrightarrow> refs p a = int (held_all ms a))"

text \<open>The blocks of a row that are not cached yet carry no hash and belong to this request alone.\<close>

definition fresh_ok :: "manager \<Rightarrow> block_pool \<Rightarrow> bool" where
  "fresh_ok m p \<longleftrightarrow> enable_caching p \<longrightarrow>
     (\<forall>rid i. cached_count m rid \<le> i \<and> i < length (blocks_of m rid) \<and> blocks_of m rid ! i \<noteq> 0 \<longrightarrow>
        hash_of p (blocks_of m rid ! i) = None \<and> refs p (blocks_of m rid ! i) = 1)"

definition kv_wf :: "nat set \<Rightarrow> manager list \<Rightarrow> block_pool \<Rightarrow> bool" where
  "kv_wf R ms p \<longleftrightarrow> kv_inv R ms p \<and> (\<forall>m \<in> set ms. fresh_ok m p)"

lemma kv_inv_owns: "kv_inv R ms p \<Longrightarrow> m \<in> set ms \<Longrightarrow> owns R m p"
  using held_le_held_all [of m ms] by (auto simp: kv_inv_def owns_def)

lemma kv_wf_owns: "kv_wf R ms p \<Longrightarrow> m \<in> set ms \<Longrightarrow> owns R m p \<and> fresh_ok m p"
  using kv_inv_owns by (auto simp: kv_wf_def)

lemma kv_inv_step:
  assumes inv: "kv_inv R (pre @ m # post) p" and step: "step_ok R m p m' p'"
  shows "kv_inv R (pre @ m' # post) p'"
proof -
  have n: "num_gpu_blocks p' = num_gpu_blocks p" using step by (simp add: step_ok_def same_config_def)
  have "refs p' a = int (held_all (pre @ m' # post) a)" if "0 < a \<and> a < num_gpu_blocks p" for a
    using inv step that unfolding kv_inv_def step_ok_def by force
  then show ?thesis using inv step n by (auto simp: kv_inv_def step_ok_def)
qed

text \<open>The occurrences as a sum over any finite set of requests that covers the table.\<close>

lemma table_count_sum:
  assumes "od_wf d" "finite K" "fst ` set d \<subseteq> K"
  shows "table_count d a = (\<Sum>k \<in> K. count_list (case map_of d k of None \<Rightarrow> [] | Some b \<Rightarrow> b) a)"
  using assms
proof (induction d)
  case Nil
  then show ?case by simp
next
  case (Cons e d)
  obtain k b where e: "e = (k, b)" by (cases e)
  have k: "k \<in> K" "map_of d k = None" using Cons.prems e by (auto simp: map_of_eq_None_iff)
  let ?row = "\<lambda>d k. case map_of d k of None \<Rightarrow> [] | Some b \<Rightarrow> b"
  have "(\<Sum>x \<in> K. count_list (?row (e # d) x) a)
      = (\<Sum>x \<in> K. count_list (?row d x) a + (if x = k then count_list b a else 0))"
    by (rule sum.cong) (use k e in auto)
  also have "\<dots> = table_count d a + count_list b a"
    using Cons e k(1) by (simp add: sum.distrib)
  finally show ?case using e by simp
qed

lemma held_one_row:
  assumes "od_wf (req_to_blocks m)" "od_wf (req_to_blocks m')"
    and "\<forall>x. x \<noteq> rid \<longrightarrow> blocks_of m' x = blocks_of m x"
  shows "held m' a + count_list (blocks_of m rid) a = held m a + count_list (blocks_of m' rid) a"
proof -
  define K where "K = insert rid (fst ` set (req_to_blocks m) \<union> fst ` set (req_to_blocks m'))"
  have K: "finite K" "rid \<in> K" by (auto simp: K_def)
  have sum: "held x a = (\<Sum>k \<in> K. count_list (blocks_of x k) a)" if "x = m \<or> x = m'" for x
    unfolding held_def blocks_of_def using assms that
    by (intro table_count_sum) (auto simp: K_def)
  have "(\<Sum>k \<in> K - {rid}. count_list (blocks_of m' k) a) = (\<Sum>k \<in> K - {rid}. count_list (blocks_of m k) a)"
    by (rule sum.cong) (use assms(3) in auto)
  then show ?thesis using sum [of m] sum [of m'] K by (simp add: sum.remove [of K rid])
qed

lemma two_rows:
  assumes "od_wf (req_to_blocks m)" "x \<noteq> y"
  shows "count_list (blocks_of m x) a + count_list (blocks_of m y) a \<le> held m a"
proof -
  have "held m a = held (drop_entry x m) a + count_list (blocks_of m x) a"
    using table_count_delete [OF assms(1), of x a] by (simp add: held_def drop_entry_def blocks_of_def)
  moreover have "blocks_of (drop_entry x m) y = blocks_of m y"
    using assms(2) by (simp add: drop_entry_def blocks_of_def)
  ultimately show ?thesis using count_le_held [of "drop_entry x m" y a] by simp
qed

lemma in_set_count: "a \<in> set xs \<longleftrightarrow> count_list xs a > 0"
  using count_list_0_iff [of xs a] by auto

text \<open>
  A step on the row of one request: it adds only unreferenced or hashed blocks, keeps the hashes of
  the other referenced blocks, and leaves the uncached part of the row fresh.
\<close>

definition row_step :: "nat set \<Rightarrow> string \<Rightarrow> manager \<Rightarrow> block_pool \<Rightarrow> manager \<Rightarrow> block_pool \<Rightarrow> bool" where
  "row_step R rid m p m' p' \<longleftrightarrow>
     step_ok R m p m' p'
     \<and> (\<forall>x. x \<noteq> rid \<longrightarrow> blocks_of m' x = blocks_of m x \<and> cached_count m' x = cached_count m x)
     \<and> (\<forall>b \<in> set (blocks_of m' rid). b = 0 \<or> b \<in> set (blocks_of m rid) \<or> refs p b = 0 \<or> hash_of p b \<noteq> None)
     \<and> (\<forall>b < num_gpu_blocks p. hash_of p b = None \<and> refs p b > 0 \<and> b \<notin> set (blocks_of m rid)
          \<longrightarrow> hash_of p' b = None)
     \<and> (enable_caching p \<longrightarrow> (\<forall>i. cached_count m' rid \<le> i \<and> i < length (blocks_of m' rid)
          \<and> blocks_of m' rid ! i \<noteq> 0 \<longrightarrow>
          hash_of p' (blocks_of m' rid ! i) = None \<and> refs p' (blocks_of m' rid ! i) = 1))"

text \<open>A fresh block that the row does not hold keeps its single owner and stays unhashed.\<close>

lemma row_step_frame:
  assumes step: "row_step R rid m p m' p'" and own: "owns R m p"
    and b: "0 < b" "b < num_gpu_blocks p" "hash_of p b = None" "refs p b > 0" "b \<notin> set (blocks_of m rid)"
  shows "hash_of p' b = None \<and> refs p' b = refs p b"
proof -
  have st: "step_ok R m p m' p'" using step by (simp add: row_step_def)
  have "b \<notin> set (blocks_of m' rid)" using step b unfolding row_step_def by (metis less_irrefl)
  then have "count_list (blocks_of m' rid) b = 0" "count_list (blocks_of m rid) b = 0"
    using b(5) by (simp_all add: count_list_0_iff)
  then have "held m' b = held m b"
    using held_one_row [of m m' rid b] own step by (simp add: row_step_def step_ok_def owns_def table_ok_def)
  then show ?thesis using st b step by (auto simp: row_step_def step_ok_def)
qed

lemma row_step_wf:
  assumes wf: "kv_wf R (pre @ m # post) p" and step: "row_step R rid m p m' p'"
  shows "kv_wf R (pre @ m' # post) p'"
proof -
  have st: "step_ok R m p m' p'" and cfg: "enable_caching p' = enable_caching p"
    using step by (auto simp: row_step_def step_ok_def same_config_def)
  have inv: "kv_inv R (pre @ m # post) p" using wf by (simp add: kv_wf_def)
  have own: "owns R m p" and fr: "fresh_ok m p" using kv_wf_owns [OF wf, of m] by auto
  have "fresh_ok m2 p'" if m2: "m2 \<in> set pre \<union> set post" for m2
    unfolding fresh_ok_def
  proof (intro impI allI)
    fix rid' i assume c: "enable_caching p'"
      and i: "cached_count m2 rid' \<le> i \<and> i < length (blocks_of m2 rid') \<and> blocks_of m2 rid' ! i \<noteq> 0"
    let ?b = "blocks_of m2 rid' ! i"
    have own2: "owns R m2 p" and fr2: "fresh_ok m2 p" using kv_wf_owns [OF wf, of m2] m2 by auto
    have f: "hash_of p ?b = None" "refs p ?b = 1" using fr2 i c cfg by (auto simp: fresh_ok_def)
    have mem: "?b \<in> set (blocks_of m2 rid')" using i by simp
    then have n: "?b < num_gpu_blocks p" using owned_row [OF own2, of rid'] by (auto simp: row_ok_def)
    have "held m2 ?b > 0" using mem count_le_held [of m2 rid' ?b] by (simp add: in_set_count)
    moreover have "held m2 ?b \<le> held_all pre ?b + held_all post ?b"
      using m2 held_le_held_all [of m2 pre ?b] held_le_held_all [of m2 post ?b] by auto
    moreover have "refs p ?b = int (held_all (pre @ m # post) ?b)" using inv n i by (simp add: kv_inv_def)
    ultimately have "held m ?b = 0" using f(2) by simp
    then have "?b \<notin> set (blocks_of m rid)" using count_le_held [of m rid ?b] by (simp add: in_set_count)
    then show "hash_of p' ?b = None \<and> refs p' ?b = 1"
      using row_step_frame [OF step own _ n f(1)] f(2) i by simp
  qed
  moreover have "fresh_ok m' p'"
    unfolding fresh_ok_def
  proof (intro impI allI)
    fix rid' i assume c: "enable_caching p'"
      and i: "cached_count m' rid' \<le> i \<and> i < length (blocks_of m' rid') \<and> blocks_of m' rid' ! i \<noteq> 0"
    let ?b = "blocks_of m' rid' ! i"
    show "hash_of p' ?b = None \<and> refs p' ?b = 1"
    proof (cases "rid' = rid")
      case True
      then show ?thesis using step i c cfg by (auto simp: row_step_def)
    next
      case False
      then have eq: "blocks_of m' rid' = blocks_of m rid'" "cached_count m' rid' = cached_count m rid'"
        using step by (auto simp: row_step_def)
      have f: "hash_of p ?b = None" "refs p ?b = 1" using fr i c cfg eq by (auto simp: fresh_ok_def)
      have mem: "?b \<in> set (blocks_of m rid')" using i eq by simp
      then have n: "?b < num_gpu_blocks p" using owned_row [OF own, of rid'] by (auto simp: row_ok_def)
      have "int (held m ?b) \<le> 1" using own f(2) n i by (auto simp: owns_def)
      moreover have "count_list (blocks_of m rid') ?b + count_list (blocks_of m rid) ?b \<le> held m ?b"
        using own False by (intro two_rows) (auto simp: owns_def table_ok_def)
      ultimately have "?b \<notin> set (blocks_of m rid)" using mem by (simp add: in_set_count)
      then show ?thesis using row_step_frame [OF step own _ n f(1)] f(2) i by simp
    qed
  qed
  ultimately show ?thesis using kv_inv_step [OF inv st] by (auto simp: kv_wf_def)
qed

end
