(* ===== verification/Coordinator_Laws.thy ===== *)
theory Coordinator_Laws
  imports Block_Ownership
begin

text \<open>
  The operations of the coordinator keep the ownership invariant \<open>kv_wf\<close> and do not fail: each
  manager operation is a step on one row (\<open>row_step\<close>), and the loop over the managers composes them.
\<close>

section \<open>Steps of one manager\<close>

lemma cached_count_cong: "num_cached_block m' = num_cached_block m \<Longrightarrow> cached_count m' x = cached_count m x"
  by (simp add: cached_count_def)

lemma mg_free_row_step:
  assumes own: "owns R m p"
  shows "\<exists>m' p'. mg_free m p rid = Inr (m', p') \<and> row_step R rid m p m' p'
    \<and> free_list p' = free_list p @ filter (\<lambda>a. a \<noteq> 0 \<and> refs p a = 1) (rev (blocks_of m rid))
    \<and> (\<forall>x. blocks_of m' x = (if x = rid then [] else blocks_of m x))"
proof -
  obtain m' p' where f: "mg_free m p rid = Inr (m', p')" "step_ok R m p m' p'"
    "free_list p' = free_list p @ filter (\<lambda>a. a \<noteq> 0 \<and> refs p a = 1) (rev (blocks_of m rid))"
    "\<forall>x. blocks_of m' x = (if x = rid then [] else blocks_of m x)"
    "\<forall>x. map_of (num_cached_block m') x = (if x = rid then None else map_of (num_cached_block m) x)"
    "\<forall>x < num_gpu_blocks p. hash_of p' x = hash_of p x"
    using mg_free_law [OF own, of rid] by (elim exE conjE) (rule that)
  then have "row_step R rid m p m' p'" by (simp add: row_step_def cached_count_def)
  with f show ?thesis by blast
qed

lemma row_count_1:
  assumes "row_ok R n bs" "b \<in> set bs" "b \<noteq> 0"
  shows "count_list bs b = 1"
proof -
  have "count_list (filter (\<lambda>a. a \<noteq> 0) bs) b = 1"
    using assms by (subst count_list_distinct) (auto simp: row_ok_def)
  moreover have "count_list (filter (\<lambda>a. a \<noteq> 0) xs) b = count_list xs b" for xs
    using assms(3) by (induction xs) auto
  ultimately show ?thesis by simp
qed

lemma base_remove_row_step:
  assumes own: "owns R m p" and fr: "fresh_ok m p"
  shows "\<exists>m' p'. base_remove_skipped_blocks m p rid tc = Inr (m', p') \<and> row_step R rid m p m' p'
    \<and> num_cached_block m' = num_cached_block m
    \<and> length (blocks_of m' rid) = length (blocks_of m rid)
    \<and> (\<forall>i < length (blocks_of m rid). blocks_of m' rid ! i = blocks_of m rid ! i
         \<or> blocks_of m' rid ! i = 0 \<and> int i < get_num_skipped_tokens m tc div mg_block_size m)
    \<and> (\<exists>freed. free_list p' = free_list p @ freed)
    \<and> (\<forall>x < num_gpu_blocks p. hash_of p' x = hash_of p x)"
proof -
  obtain m' p' where f: "base_remove_skipped_blocks m p rid tc = Inr (m', p')" "step_ok R m p m' p'"
    "num_cached_block m' = num_cached_block m"
    "\<forall>x. x \<noteq> rid \<longrightarrow> blocks_of m' x = blocks_of m x"
    "length (blocks_of m' rid) = length (blocks_of m rid)"
    "\<forall>i < length (blocks_of m rid). blocks_of m' rid ! i = blocks_of m rid ! i
         \<or> blocks_of m' rid ! i = 0 \<and> int i < get_num_skipped_tokens m tc div mg_block_size m"
    "\<exists>freed. free_list p' = free_list p @ freed"
    "\<forall>x < num_gpu_blocks p. hash_of p' x = hash_of p x"
    using base_remove_skipped_blocks_law [OF own, of rid tc]
    by (elim exE conjE) (rule that; (assumption | rule exI))
  have sub: "b = 0 \<or> b \<in> set (blocks_of m rid)" if "b \<in> set (blocks_of m' rid)" for b
    using that f(5,6) by (metis in_set_conv_nth)
  have row: "row_ok R (num_gpu_blocks p) (blocks_of m rid)" "row_ok R (num_gpu_blocks p) (blocks_of m' rid)"
    using owned_row [OF own] f(2) by (auto simp: step_ok_def table_ok_def)
  have fresh: "hash_of p' (blocks_of m' rid ! i) = None \<and> refs p' (blocks_of m' rid ! i) = 1"
    if c: "enable_caching p" and i: "cached_count m' rid \<le> i" "i < length (blocks_of m' rid)"
      "blocks_of m' rid ! i \<noteq> 0" for i
  proof -
    let ?b = "blocks_of m' rid ! i"
    have mem': "?b \<in> set (blocks_of m' rid)" using i by simp
    have same: "blocks_of m rid ! i = ?b" using f(5,6) i by metis
    then have mem: "?b \<in> set (blocks_of m rid)" using i f(5) by (metis nth_mem)
    have "hash_of p ?b = None" "refs p ?b = 1"
      using fr [unfolded fresh_ok_def, rule_format, OF c, of rid i] i f(5) same
      by (simp_all add: cached_count_cong [OF f(3)])
    moreover have "held m' ?b = held m ?b"
      using held_one_row [of m m' rid ?b] own f(2,4) row_count_1 [OF row(1) mem i(3)]
        row_count_1 [OF row(2) mem' i(3)] by (simp add: step_ok_def owns_def table_ok_def)
    moreover have "?b < num_gpu_blocks p" using row(1) mem by (auto simp: row_ok_def)
    ultimately show ?thesis using f(2,8) i(3) by (auto simp: step_ok_def)
  qed
  have "row_step R rid m p m' p'"
    unfolding row_step_def using f(2,4,8) sub fresh by (auto simp: cached_count_cong [OF f(3)])
  with f show ?thesis by blast
qed

lemma base_allocate_row_step:
  assumes own: "owns R m p" and fr: "fresh_ok m p"
    and n: "cdiv ntok (mg_block_size m) - int (length (blocks_of m rid)) \<le> int (length (free_list p))"
  shows "\<exists>new m' p'. base_allocate_new_blocks E m p rid ntok = Inr (new, m', p') \<and> row_step R rid m p m' p'
    \<and> num_cached_block m' = num_cached_block m
    \<and> blocks_of m' rid = blocks_of m rid @ new
    \<and> int (length new) = max 0 (cdiv ntok (mg_block_size m) - int (length (blocks_of m rid)))
    \<and> free_list p = new @ free_list p'"
proof -
  obtain new m' p' where f: "base_allocate_new_blocks E m p rid ntok = Inr (new, m', p')" "step_ok R m p m' p'"
    "num_cached_block m' = num_cached_block m"
    "blocks_of m' rid = blocks_of m rid @ new" "\<forall>x. x \<noteq> rid \<longrightarrow> blocks_of m' x = blocks_of m x"
    "int (length new) = max 0 (cdiv ntok (mg_block_size m) - int (length (blocks_of m rid)))"
    "free_list p = new @ free_list p'"
    "\<forall>x < num_gpu_blocks p. hash_of p' x = (if x \<in> set new \<and> enable_caching p then None else hash_of p x)"
    "\<forall>x < num_gpu_blocks p. refs p' x = refs p x + int (count_list new x)"
    using base_allocate_new_blocks_law [OF own n, of E] by (elim exE conjE) (rule that)
  have core: "pool_core R p" using own by (simp add: owns_def)
  have new: "0 < b \<and> b < num_gpu_blocks p \<and> refs p b = 0" if "b \<in> set new" for b
    using that f(7) pool_free_iff [OF core, of b] by auto
  have dist: "distinct new" using pool_coreD(8) [OF core] f(7) by simp
  have fresh: "hash_of p' (blocks_of m' rid ! i) = None \<and> refs p' (blocks_of m' rid ! i) = 1"
    if c: "enable_caching p" and i: "cached_count m' rid \<le> i" "i < length (blocks_of m' rid)"
      "blocks_of m' rid ! i \<noteq> 0" for i
  proof (cases "i < length (blocks_of m rid)")
    case True
    let ?b = "blocks_of m rid ! i"
    have eq: "blocks_of m' rid ! i = ?b" using True f(4) by (simp add: nth_append)
    have "hash_of p ?b = None" "refs p ?b = 1"
      using fr c i True eq by (auto simp: fresh_ok_def cached_count_cong [OF f(3)])
    moreover have "?b < num_gpu_blocks p"
      using owned_row [OF own, of rid] True by (auto simp: row_ok_def)
    moreover have "?b \<notin> set new" using new [of ?b] \<open>refs p ?b = 1\<close> by auto
    ultimately show ?thesis using f(8,9) eq by (simp add: count_list_0_iff)
  next
    case False
    let ?b = "new ! (i - length (blocks_of m rid))"
    have eq: "blocks_of m' rid ! i = ?b" using False f(4) by (simp add: nth_append)
    have mem: "?b \<in> set new" using False i(2) f(4) by (intro nth_mem) simp
    then show ?thesis using f(8,9) eq new [OF mem] c dist by (simp add: count_list_distinct)
  qed
  have "row_step R rid m p m' p'"
    unfolding row_step_def using f(2,4,5,8) new fresh by (auto simp: cached_count_cong [OF f(3)])
  with f show ?thesis by blast
qed

lemma base_allocate_computed_row_step:
  assumes own: "owns R m p" and new: "map_of (num_cached_block m) rid = None" "blocks_of m rid = []"
    and hit: "row_ok R (num_gpu_blocks p) hit" "mg_enable_caching m \<or> hit = []"
      "\<forall>b \<in> set hit. b \<noteq> 0 \<longrightarrow> hash_of p b \<noteq> None"
    and fl: "fl = filter (\<lambda>x. x \<notin> set (initial_row m hit (nl + ne))) (free_list p)"
    and ext: "0 \<le> external_blocks m hit (nl + ne) ne" "external_blocks m hit (nl + ne) ne \<le> int (length fl)"
  shows "\<exists>ext m' p'. base_allocate_new_computed_blocks E m p rid hit nl ne = Inr (m', p')
    \<and> row_step R rid m p m' p'
    \<and> blocks_of m' rid = initial_row m hit (nl + ne) @ ext
    \<and> num_cached_block m' = AList.update rid (length (initial_row m hit (nl + ne))) (num_cached_block m)
    \<and> int (length ext) = external_blocks m hit (nl + ne) ne \<and> fl = ext @ free_list p'
    \<and> (\<forall>x < num_gpu_blocks p. hash_of p' x = (if x \<in> set ext \<and> enable_caching p then None else hash_of p x))"
proof -
  let ?row = "initial_row m hit (nl + ne)"
  obtain ext m' p' where f: "base_allocate_new_computed_blocks E m p rid hit nl ne = Inr (m', p')"
    "step_ok R m p m' p'" "blocks_of m' rid = ?row @ ext" "\<forall>x. x \<noteq> rid \<longrightarrow> blocks_of m' x = blocks_of m x"
    "num_cached_block m' = AList.update rid (length ?row) (num_cached_block m)"
    "int (length ext) = external_blocks m hit (nl + ne) ne" "fl = ext @ free_list p'"
    "\<forall>x < num_gpu_blocks p. hash_of p' x = (if x \<in> set ext \<and> enable_caching p then None else hash_of p x)"
    "\<forall>x. 0 < x \<and> x < num_gpu_blocks p \<longrightarrow> refs p' x = refs p x + int (count_list (?row @ ext) x)"
    using base_allocate_new_computed_blocks_law [OF own new hit(1,2) fl assms(8,9), of E]
    by (elim exE conjE) (rule that)
  have core: "pool_core R p" using own by (simp add: owns_def)
  have "set ext \<subseteq> set fl" using f(7) by auto
  then have free: "0 < b \<and> b < num_gpu_blocks p \<and> refs p b = 0" if "b \<in> set ext" for b
    using that pool_free_iff [OF core, of b] by (auto simp: fl)
  have rowb: "b = 0 \<or> b \<in> set hit" if "b \<in> set ?row" for b
    using that by (auto simp: initial_row_def Let_def dest: in_set_dropD)
  have ok: "row_ok R (num_gpu_blocks p) (?row @ ext)"
    using f(2,3) by (metis step_ok_def table_ok_def)
  have cc: "cached_count m' x = (if x = rid then length ?row else cached_count m x)" for x
    by (simp add: cached_count_def f(5))
  have fresh: "hash_of p' (blocks_of m' rid ! i) = None \<and> refs p' (blocks_of m' rid ! i) = 1"
    if c: "enable_caching p" and i: "cached_count m' rid \<le> i" "i < length (blocks_of m' rid)"
      "blocks_of m' rid ! i \<noteq> 0" for i
  proof -
    let ?b = "ext ! (i - length ?row)"
    have ge: "length ?row \<le> i" using i(1) cc by simp
    have eq: "blocks_of m' rid ! i = ?b" using ge f(3) by (simp add: nth_append)
    have mem: "?b \<in> set ext" using ge i(2) f(3) by (intro nth_mem) simp
    have "count_list (?row @ ext) ?b = 1" using mem free [OF mem] by (intro row_count_1 [OF ok]) auto
    then show ?thesis using f(8,9) eq free [OF mem] c mem by simp
  qed
  have sub: "b = 0 \<or> refs p b = 0 \<or> hash_of p b \<noteq> None" if "b \<in> set (blocks_of m' rid)" for b
    using that free rowb hit(3) f(3) by (metis Un_iff set_append)
  have "row_step R rid m p m' p'"
    unfolding row_step_def using f(2,4,8) free sub fresh by (auto simp: cc)
  with f show ?thesis by blast
qed

text \<open>The hashes of a request at the block size of a group whose block size the hash block size divides.\<close>

lemma hash_view_values:
  assumes "hbs > 0" "bs > 0" "hbs dvd bs"
  shows "\<exists>view. hashes_at_block_size hs hbs bs = Inr view \<and> view_len view = length hs div (bs div hbs)
    \<and> (\<forall>i < view_len view. \<exists>h. view_at view i = Inr h)
    \<and> (\<forall>i \<le> view_len view. \<exists>vs. view_from view i = Inr vs \<and> length vs = view_len view - i
         \<and> (\<forall>j < length vs. view_at view (i + j) = Inr (vs ! j)))"
proof (cases "bs = hbs")
  case True
  then show ?thesis using assms
    by (intro exI [of _ "PlainHashes hs"]) (auto simp: hashes_at_block_size_def view_len_def view_at_def view_from_def)
next
  case False
  define b where "b = \<lparr>bhl_block_hashes = hs, scale_factor = bs div hbs\<rparr>"
  have sf: "scale_factor b > 0" using assms by (auto simp: b_def div_greater_zero_iff dvd_imp_le)
  have val: "get_value_at b i = Inr (concat (py_slice (i * scale_factor b) ((i + 1) * scale_factor b) hs))"
    if "i < bhl_len b" for i
  proof -
    have "(i + 1) * scale_factor b \<le> bhl_len b * scale_factor b" using that by (intro mult_le_mono1) simp
    also have "\<dots> \<le> length hs" by (simp add: bhl_len_def b_def)
    finally show ?thesis using get_value_at_concat [OF sf, of i] by (simp add: b_def)
  qed
  have "hashes_at_block_size hs hbs bs = Inr (MergedHashes b)"
    using False assms(3)
    by (simp add: hashes_at_block_size_def block_hash_list_with_block_size_def b_def mod_eq_0_iff_dvd)
  moreover have "bhl_len b = length hs div (bs div hbs)" by (simp add: bhl_len_def b_def)
  ultimately show ?thesis using val bhl_from_values [OF sf]
    by (intro exI [of _ "MergedHashes b"]) (simp add: view_len_def view_at_def view_from_def b_def)
qed

text \<open>What \<^verbatim>\<open>cache_blocks\<close> asks of a request: enough hashes and enough blocks for the tokens.\<close>

definition can_cache :: "manager \<Rightarrow> block_pool \<Rightarrow> request \<Rightarrow> int \<Rightarrow> bool" where
  "can_cache m p r ntok \<longleftrightarrow>
     enable_caching p \<and> ntok \<ge> 0 \<and> 0 \<le> kv_cache_group_id m \<and> kv_cache_group_id m < 2 ^ 32
     \<and> hash_block_size p > 0 \<and> hash_block_size p dvd nat (mg_block_size m)
     \<and> nat (ntok div mg_block_size m) \<le> length (block_hashes r) div (nat (mg_block_size m) div hash_block_size p)
     \<and> nat (ntok div mg_block_size m) \<le> length (blocks_of m (request_id r))"

lemma nonzero_slice:
  assumes "row_ok R n bs"
  shows "distinct (filter (\<lambda>a. a \<noteq> 0) (py_slice i j bs))"
  using row_ok_take [OF row_ok_drop [OF assms, of i], of "j - i"] by (simp add: row_ok_def py_slice_def)

lemma row_index_unique:
  assumes "row_ok R n bs" "i < length bs" "j < length bs" "bs ! i = bs ! j" "bs ! i \<noteq> 0"
  shows "i = j"
proof (rule ccontr)
  assume "i \<noteq> j"
  then have "count_list bs (bs ! i) > 1"
    using assms(2-4)
  proof (induction i j rule: linorder_wlog)
    case (le a b)
    have "bs = take (Suc a) bs @ drop (Suc a) bs" by simp
    then have "count_list bs (bs ! a) = count_list (take (Suc a) bs) (bs ! a) + count_list (drop (Suc a) bs) (bs ! a)"
      by (metis count_list_append)
    moreover have "bs ! a \<in> set (take (Suc a) bs)" using le by (auto simp: take_Suc_conv_app_nth)
    moreover have "bs ! a \<in> set (drop (Suc a) bs)"
      using le nth_mem [of "b - Suc a" "drop (Suc a) bs"] by simp
    ultimately show ?case by (simp add: in_set_count)
  next
    case (sym a b)
    then show ?case by metis
  qed
  moreover have "count_list bs (bs ! i) = 1" using assms by (intro row_count_1 [OF assms(1)]) auto
  ultimately show False by simp
qed

text \<open>
  Caching never fails: the blocks between the cached and the full count carry no hash yet. Each of
  them gets the hash of its index, and no reference changes.
\<close>

lemma base_cache_row_step:
  assumes own: "owns R m p" and fr: "fresh_ok m p" and can: "can_cache m p r ntok"
    and rid: "rid = request_id r" and bs: "bs = nat (mg_block_size m)"
  shows "\<exists>m' p' memo. base_cache_blocks E m p r ntok = Inr (m', p', with_memo r memo)
    \<and> row_step R rid m p m' p' \<and> free_list p' = free_list p
    \<and> (\<forall>x. blocks_of m' x = blocks_of m x)
    \<and> cached_count m' rid = max (cached_count m rid) (nat (ntok div mg_block_size m))
    \<and> (\<forall>i. cached_count m rid \<le> i \<and> i < nat (ntok div mg_block_size m) \<and> blocks_of m rid ! i \<noteq> 0 \<longrightarrow>
         (\<exists>view h k. hashes_at_block_size (block_hashes r) (hash_block_size p) bs = Inr view
            \<and> view_at view i = Inr h \<and> make_block_hash_with_group_id h (kv_cache_group_id m) = Inr k
            \<and> hash_of p' (blocks_of m rid ! i) = Some k))"
proof -
  define full where "full = nat (ntok div mg_block_size m)"
  let ?row = "blocks_of m rid" and ?c = "cached_count m rid"
  have bsp: "mg_block_size m > 0" and core: "pool_core R p" using own by (auto simp: owns_def table_ok_def)
  have pos: "ntok div mg_block_size m \<ge> 0" using can bsp by (simp add: can_cache_def pos_imp_zdiv_nonneg_iff)
  have cc: "(case map_of (num_cached_block m) rid of None \<Rightarrow> 0 | Some n \<Rightarrow> n) = ?c"
    by (simp add: cached_count_def)
  show ?thesis
  proof (cases "full \<le> ?c")
    case True
    then have res: "base_cache_blocks E m p r ntok = Inr (m, p, with_memo r (prompt_embeds_per_block_hashes r))"
      by (simp add: base_cache_blocks_def Let_def rid [symmetric] cc full_def nat_le_iff)
    have "row_step R rid m p m p"
      using fr step_ok_refl [OF own] by (auto simp: row_step_def fresh_ok_def)
    with res True show ?thesis
      by (intro exI [of _ m] exI [of _ p] exI [of _ "prompt_embeds_per_block_hashes r"])
        (auto simp: full_def max_def)
  next
    case False
    have can': "enable_caching p" "0 \<le> kv_cache_group_id m" "kv_cache_group_id m < 2 ^ 32" "full \<le> length ?row"
      using can by (simp_all add: can_cache_def full_def rid)
    obtain view where view: "hashes_at_block_size (block_hashes r) (hash_block_size p) bs = Inr view"
      "view_len view = length (block_hashes r) div (bs div hash_block_size p)"
      "\<forall>i < view_len view. \<exists>h. view_at view i = Inr h"
      "\<forall>i \<le> view_len view. \<exists>vs. view_from view i = Inr vs \<and> length vs = view_len view - i
         \<and> (\<forall>j < length vs. view_at view (i + j) = Inr (vs ! j))"
      using hash_view_values [of "hash_block_size p" bs "block_hashes r"] can bsp
      by (auto simp: can_cache_def bs)
    have fl: "full \<le> view_len view" using can view(2) by (simp add: can_cache_def full_def bs)
    obtain hs where hs: "view_from view ?c = Inr hs" "length hs = view_len view - ?c"
      "\<forall>j < length hs. view_at view (?c + j) = Inr (hs ! j)"
      using view(4) False fl by (meson le_cases order_trans)
    have fb: "full \<le> length (block_hashes r)" using fl view(2) by (metis div_le_dividend order_trans)
    have slice: "b < num_gpu_blocks p \<and> (b \<noteq> 0 \<longrightarrow> hash_of p b = None)"
      if b: "b \<in> set (py_slice ?c full ?row)" for b
    proof -
      obtain j where j: "j < length (py_slice ?c full ?row)" "b = py_slice ?c full ?row ! j"
        using b by (metis in_set_conv_nth)
      then have "?c + j < length ?row" "b = ?row ! (?c + j)" using can'(4) by simp_all
      then show ?thesis using fr can'(1) owned_row [OF own, of rid]
        by (auto simp: fresh_ok_def row_ok_def)
    qed
    obtain p' memo where C: "cache_full_blocks E p r ?row ?c full bs (kv_cache_group_id m) = Inr (p', with_memo r memo)"
      "pool_core R p'" "free_list p' = free_list p" "same_config p p'" "\<forall>x. refs p' x = refs p x"
      "\<forall>x. x \<notin> set (py_slice ?c full ?row) \<or> x = 0 \<longrightarrow> hash_of p' x = hash_of p x"
      "\<forall>i. ?c \<le> i \<and> i < full \<and> ?row ! i \<noteq> 0 \<longrightarrow>
         (\<exists>k. make_block_hash_with_group_id (hs ! (i - ?c)) (kv_cache_group_id m) = Inr k
            \<and> hash_of p' (?row ! i) = Some k)"
      using cache_full_blocks_law [OF core can'(2,3) fb can'(4) view(1) hs(1), of E] slice
        nonzero_slice [OF owned_row [OF own]] hs(2) fl False view(3) by force
    define m' where "m' = (touch_entry rid m)\<lparr>num_cached_block := AList.update rid full (num_cached_block m)\<rparr>"
    have res: "base_cache_blocks E m p r ntok = Inr (m', p', with_memo r memo)"
      using False pos C(1) by (simp add: base_cache_blocks_def Let_def rid [symmetric] cc m'_def full_def bs)
    have rows: "blocks_of m' x = blocks_of m x" for x
      by (simp add: m'_def touch_entry_def set_blocks_def blocks_of_def)
    have cnt: "cached_count m' x = (if x = rid then full else cached_count m x)" for x
      by (simp add: m'_def cached_count_def)
    have same: "same_manager m m'" by (simp add: same_manager_def m'_def touch_entry_def)
    have st: "step_ok R m p m' p'"
      by (rule step_okI [OF own C(2,4) owned_row [OF own, of rid] same])
        (simp_all add: m'_def touch_entry_def C(5))
    have fresh: "hash_of p' (?row ! i) = None \<and> refs p' (?row ! i) = 1"
      if i: "full \<le> i" "i < length ?row" "?row ! i \<noteq> 0" for i
    proof -
      have "?row ! i \<notin> set (py_slice ?c full ?row)"
      proof
        assume "?row ! i \<in> set (py_slice ?c full ?row)"
        then obtain j where j: "j < length (py_slice ?c full ?row)" "?row ! i = py_slice ?c full ?row ! j"
          by (metis in_set_conv_nth)
        then have "?c + j < full" "?c + j < length ?row" by auto
        then have "?row ! i = ?row ! (?c + j)" "?c + j < full" using j(2) by simp_all
        then show False
          using row_index_unique [OF owned_row [OF own, of rid] i(2), of "?c + j"] can'(4) i by simp
      qed
      then show ?thesis using fr can'(1) i False C(5,6) by (auto simp: fresh_ok_def)
    qed
    have keep: "hash_of p' b = hash_of p b" if "b \<notin> set ?row" for b
      using that C(6) set_py_slice_subset [of ?c full ?row] by blast
    have "row_step R rid m p m' p'"
      unfolding row_step_def using st rows cnt fresh keep by simp
    moreover have "\<exists>h k. view_at view i = Inr h \<and> make_block_hash_with_group_id h (kv_cache_group_id m) = Inr k
        \<and> hash_of p' (?row ! i) = Some k" if "?c \<le> i \<and> i < full \<and> ?row ! i \<noteq> 0" for i
    proof -
      have "i - ?c < length hs" using that hs(2) fl by linarith
      then have "view_at view i = Inr (hs ! (i - ?c))" using hs(3) that by (metis le_add_diff_inverse)
      then show ?thesis using C(7) that by blast
    qed
    ultimately show ?thesis
      using res C(3) rows cnt False view(1)
      by (intro exI [of _ m'] exI [of _ p'] exI [of _ memo]) (simp add: full_def)
  qed
qed

section \<open>Loops over the managers\<close>

lemma each_manager_rule:
  assumes "Q rs pre ms p"
    and "\<And>rs pre m ms p. Q rs pre (m # ms) p \<Longrightarrow>
      \<exists>r m' p'. f (length pre) m p = Inr (r, m', p') \<and> Q (rs @ [r]) (pre @ [m']) ms p'"
  shows "\<exists>rs' ms' p'. each_manager f (length pre) ms p = Inr (rs', ms', p')
    \<and> length ms' = length ms \<and> Q (rs @ rs') (pre @ ms') [] p'"
  using assms(1)
proof (induction ms arbitrary: rs pre p)
  case Nil
  then show ?case by simp
next
  case (Cons m ms)
  obtain r m' p' where s: "f (length pre) m p = Inr (r, m', p')" "Q (rs @ [r]) (pre @ [m']) ms p'"
    using assms(2) [OF Cons.prems] by blast
  from Cons.IH [OF s(2)] obtain rs' ms' p'' where
    "each_manager f (length (pre @ [m'])) ms p' = Inr (rs', ms', p'')" "length ms' = length ms"
    "Q ((rs @ [r]) @ rs') ((pre @ [m']) @ ms') [] p''" by blast
  then show ?case using s(1) by (intro exI [of _ "r # rs'"] exI [of _ "m' # ms'"] exI [of _ p'']) simp
qed

lemma each_manager_reads:
  assumes "\<And>j. j < length ms \<Longrightarrow> f (i + j) (ms ! j) p = Inr (g (i + j) (ms ! j), ms ! j, p)"
  shows "each_manager f i ms p = Inr (map (\<lambda>j. g (i + j) (ms ! j)) [0..<length ms], ms, p)"
  using assms
proof (induction ms arbitrary: i)
  case Nil
  then show ?case by simp
next
  case (Cons m ms)
  have "each_manager f (Suc i) ms p = Inr (map (\<lambda>j. g (Suc i + j) (ms ! j)) [0..<length ms], ms, p)"
    using Cons.prems [of "Suc _"] by (intro Cons.IH) simp
  then show ?case using Cons.prems [of 0] by (simp add: upt_conv_Cons map_Suc_upt [symmetric] del: upt_Suc)
qed

text \<open>What \<^verbatim>\<open>remove_skipped_blocks\<close> does to a manager.\<close>

definition stripped :: "string \<Rightarrow> int \<Rightarrow> manager \<Rightarrow> manager \<Rightarrow> bool" where
  "stripped rid tc m m' \<longleftrightarrow>
     same_manager m m' \<and> num_cached_block m' = num_cached_block m
     \<and> (\<forall>x. x \<noteq> rid \<longrightarrow> blocks_of m' x = blocks_of m x)
     \<and> length (blocks_of m' rid) = length (blocks_of m rid)
     \<and> (\<forall>i < length (blocks_of m rid). blocks_of m' rid ! i = blocks_of m rid ! i
          \<or> blocks_of m' rid ! i = 0 \<and> int i < get_num_skipped_tokens m tc div mg_block_size m)"

definition remove_each :: "string \<Rightarrow> int \<Rightarrow> nat \<Rightarrow> manager \<Rightarrow> block_pool \<Rightarrow> (unit \<times> manager \<times> block_pool) res" where
  "remove_each rid tc i m p =
     res_bind (remove_skipped_blocks m p rid tc) (\<lambda>(m', p'). Inr ((), m', p'))"

lemma attention_dispatch:
  assumes "\<not> is_mamba (mg_spec m)"
  shows "remove_skipped_blocks m p rid tc = base_remove_skipped_blocks m p rid tc"
    "allocate_new_blocks E m p rid ntok ntok_main = base_allocate_new_blocks E m p rid ntok"
    "get_num_blocks_to_allocate m p rid ntok hit tc ntok_main =
       res_bind (base_get_num_blocks_to_allocate m p rid ntok hit tc) (\<lambda>n. Inr (n, m))"
  using assms
  by (auto simp: remove_skipped_blocks_def allocate_new_blocks_def get_num_blocks_to_allocate_def
      split: kv_cache_spec.splits)

lemma remove_each_law:
  assumes wf: "kv_wf R ms p" and att: "\<forall>m \<in> set ms. \<not> is_mamba (mg_spec m)"
  shows "\<exists>rs ms' p'. each_manager (remove_each rid tc) 0 ms p = Inr (rs, ms', p')
    \<and> kv_wf R ms' p' \<and> same_config p p' \<and> list_all2 (stripped rid tc) ms ms'
    \<and> (\<exists>freed. free_list p' = free_list p @ freed)
    \<and> (\<forall>x < num_gpu_blocks p. hash_of p' x = hash_of p x)"
proof -
  define Q where "Q rs pre todo q \<longleftrightarrow> kv_wf R (pre @ todo) q \<and> same_config p q
    \<and> (\<forall>m \<in> set todo. \<not> is_mamba (mg_spec m))
    \<and> (\<exists>ds. ms = ds @ todo \<and> list_all2 (stripped rid tc) ds pre)
    \<and> (\<exists>freed. free_list q = free_list p @ freed)
    \<and> (\<forall>x < num_gpu_blocks p. hash_of q x = hash_of p x)"
    for rs :: "unit list" and pre todo q
  have "\<exists>rs' ms' p'. each_manager (remove_each rid tc) (length ([] :: manager list)) ms p = Inr (rs', ms', p')
    \<and> length ms' = length ms \<and> Q ([] @ rs') ([] @ ms') [] p'"
  proof (rule each_manager_rule)
    show "Q [] [] ms p" using wf att by (simp add: Q_def)
    fix rs pre m todo q assume "Q rs pre (m # todo) q"
    note Q = this [unfolded Q_def]
    obtain ds freed where d: "ms = ds @ m # todo" "list_all2 (stripped rid tc) ds pre"
      and fr: "free_list q = free_list p @ freed"
      using Q by blast
    have wfq: "kv_wf R (pre @ m # todo) q" and n: "num_gpu_blocks q = num_gpu_blocks p"
      using Q by (auto simp: same_config_def)
    have own: "owns R m q" "fresh_ok m q" using kv_wf_owns [OF wfq, of m] by auto
    obtain m' q' where s: "base_remove_skipped_blocks m q rid tc = Inr (m', q')" "row_step R rid m q m' q'"
      "num_cached_block m' = num_cached_block m" "length (blocks_of m' rid) = length (blocks_of m rid)"
      "\<forall>i < length (blocks_of m rid). blocks_of m' rid ! i = blocks_of m rid ! i
         \<or> blocks_of m' rid ! i = 0 \<and> int i < get_num_skipped_tokens m tc div mg_block_size m"
      "\<exists>freed. free_list q' = free_list q @ freed"
      "\<forall>x < num_gpu_blocks q. hash_of q' x = hash_of q x"
      using base_remove_row_step [OF own, of rid tc] by (elim exE conjE) (rule that; (assumption | rule exI))
    have st: "stripped rid tc m m'" "same_config q q'"
      using s by (auto simp: stripped_def row_step_def step_ok_def)
    have "remove_each rid tc (length pre) m q = Inr ((), m', q')"
      using Q s(1) by (simp add: remove_each_def attention_dispatch)
    moreover have "kv_wf R ((pre @ [m']) @ todo) q'" using row_step_wf [OF wfq s(2)] by simp
    moreover have "list_all2 (stripped rid tc) (ds @ [m]) (pre @ [m'])"
      using d(2) st(1) by (simp add: list_all2_appendI)
    moreover have "same_config p q'" using Q st(2) same_config_trans by blast
    moreover have "\<exists>freed. free_list q' = free_list p @ freed" using s(6) fr by auto
    moreover have "\<forall>x < num_gpu_blocks p. hash_of q' x = hash_of p x" using Q s(7) n by simp
    ultimately show "\<exists>r m' p'. remove_each rid tc (length pre) m q = Inr (r, m', p')
        \<and> Q (rs @ [r]) (pre @ [m']) todo p'"
      using Q d(1) unfolding Q_def by (intro exI [of _ "()"] exI [of _ m'] exI [of _ q'] conjI)
        (auto intro!: exI [of _ "ds @ [m]"])
  qed
  then show ?thesis by (auto simp: Q_def)
qed

end
