(* ===== verification/KV_Cache_Manager.thy ===== *)
theory KV_Cache_Manager
  imports KV_Cache_Coordinator Request
begin

text \<open>
  src/vllm/vllm/v1/core/kv_cache_manager.py: the interface the scheduler allocates through. The manager
  shares the block pool with its coordinator, so the pool is the coordinator's. \<^verbatim>\<open>PrefixCacheStats\<close> is
  that of src/vllm/vllm/v1/metrics/stats.py.
\<close>

section \<open>Allocation results\<close>

text \<open>
  \<^verbatim>\<open>KVCacheBlocks\<close>; \<open>is_shared_empty\<close> tells the one pre-built empty instance of the manager, which the
  code compares by identity.
\<close>

record kv_cache_blocks =
  kb_blocks :: "nat list list"
  is_shared_empty :: bool

definition kb_add :: "kv_cache_blocks \<Rightarrow> kv_cache_blocks \<Rightarrow> kv_cache_blocks" where
  "kb_add a b = \<lparr>kb_blocks = map2 (@) (kb_blocks a) (kb_blocks b), is_shared_empty = False\<rparr>"

definition kb_get_block_ids :: "block_pool \<Rightarrow> bool \<Rightarrow> kv_cache_blocks \<Rightarrow> int list list option" where
  "kb_get_block_ids p allow_none b =
     (if allow_none \<and> list_all (\<lambda>g. g = []) (kb_blocks b) then None
      else Some (map (map (\<lambda>a. block_id (pblk p a))) (kb_blocks b)))"

definition kb_get_unhashed_block_ids :: "block_pool \<Rightarrow> kv_cache_blocks \<Rightarrow> int list res" where
  "kb_get_unhashed_block_ids p b =
     (case kb_blocks b of
        [g] \<Rightarrow> Inr (map (\<lambda>a. block_id (pblk p a)) (filter (\<lambda>a. hash_of p a = None) g))
      | _ \<Rightarrow> Inl AssertionError)"

definition kb_get_unhashed_block_ids_all_groups :: "block_pool \<Rightarrow> kv_cache_blocks \<Rightarrow> int list list" where
  "kb_get_unhashed_block_ids_all_groups p b =
     map (\<lambda>g. map (\<lambda>a. block_id (pblk p a)) (filter (\<lambda>a. hash_of p a = None \<and> \<not> is_null (pblk p a)) g))
       (kb_blocks b)"

definition kb_new_empty :: "kv_cache_blocks \<Rightarrow> kv_cache_blocks" where
  "kb_new_empty b = \<lparr>kb_blocks = replicate (length (kb_blocks b)) [], is_shared_empty = False\<rparr>"

section \<open>Prefix cache statistics\<close>

record prefix_cache_stats =
  stats_reset :: bool
  stats_requests :: int
  stats_queries :: int
  stats_hits :: int
  preempted_requests :: int
  preempted_queries :: int
  preempted_hits :: int

definition empty_stats :: prefix_cache_stats where
  "empty_stats = \<lparr>stats_reset = False, stats_requests = 0, stats_queries = 0, stats_hits = 0,
     preempted_requests = 0, preempted_queries = 0, preempted_hits = 0\<rparr>"

definition stats_record :: "int \<Rightarrow> int \<Rightarrow> bool \<Rightarrow> prefix_cache_stats \<Rightarrow> prefix_cache_stats" where
  "stats_record n hits preempted s =
     (if preempted
      then s\<lparr>preempted_requests := preempted_requests s + 1,
             preempted_queries := preempted_queries s + n, preempted_hits := preempted_hits s + hits\<rparr>
      else s\<lparr>stats_requests := stats_requests s + 1, stats_queries := stats_queries s + n,
             stats_hits := stats_hits s + hits\<rparr>)"

section \<open>The manager\<close>

record kv_manager =
  km_max_model_len :: int
  km_enable_caching :: bool
  km_use_eagle :: bool
  km_log_stats :: bool
  km_prefix_cache_stats :: "prefix_cache_stats option"
  km_coordinator :: coordinator
  num_kv_cache_groups :: nat

abbreviation km_pool :: "kv_manager \<Rightarrow> block_pool" where
  "km_pool k \<equiv> co_pool (km_coordinator k)"

definition on_coordinator :: "(coordinator \<Rightarrow> coordinator res) \<Rightarrow> kv_manager \<Rightarrow> kv_manager res" where
  "on_coordinator f k = res_bind (f (km_coordinator k)) (\<lambda>c. Inr (k\<lparr>km_coordinator := c\<rparr>))"

definition kv_manager_init ::
  "kv_cache_config \<Rightarrow> int \<Rightarrow> nat \<Rightarrow> bool \<Rightarrow> bool \<Rightarrow> bool \<Rightarrow> bool \<Rightarrow> int \<Rightarrow> int \<Rightarrow> metrics option
     \<Rightarrow> kv_manager res" where
  "kv_manager_init cfg max_len hbs caching use_eagle log_stats events dcp pcp mc =
     res_bind (get_kv_cache_coordinator cfg max_len use_eagle caching events dcp pcp hbs mc) (\<lambda>c.
       Inr \<lparr>km_max_model_len = max_len, km_enable_caching = caching, km_use_eagle = use_eagle,
            km_log_stats = log_stats,
            km_prefix_cache_stats = (if log_stats then Some empty_stats else None),
            km_coordinator = c, num_kv_cache_groups = length (kv_cache_groups cfg)\<rparr>)"

definition empty_kv_cache_blocks :: "kv_manager \<Rightarrow> kv_cache_blocks" where
  "empty_kv_cache_blocks k = \<lparr>kb_blocks = replicate (num_kv_cache_groups k) [], is_shared_empty = True\<rparr>"

definition create_kv_cache_blocks :: "kv_manager \<Rightarrow> nat list list \<Rightarrow> kv_cache_blocks" where
  "create_kv_cache_blocks k bs =
     (if list_ex (\<lambda>b. b \<noteq> []) bs then \<lparr>kb_blocks = bs, is_shared_empty = False\<rparr>
      else empty_kv_cache_blocks k)"

definition usage :: "kv_manager \<Rightarrow> rat" where
  "usage k = get_usage (km_pool k)"

definition make_prefix_cache_stats :: "kv_manager \<Rightarrow> prefix_cache_stats option \<times> kv_manager" where
  "make_prefix_cache_stats k =
     (if \<not> km_log_stats k then (None, k)
      else (km_prefix_cache_stats k, k\<lparr>km_prefix_cache_stats := Some empty_stats\<rparr>))"

text \<open>\<open>None\<close> stands for a search that does not terminate.\<close>

definition get_computed_blocks ::
  "kv_manager \<Rightarrow> request \<Rightarrow> (kv_cache_blocks \<times> int \<times> kv_manager) res option" where
  "get_computed_blocks k r =
     (if \<not> km_enable_caching k \<or> skip_reading_prefix_cache r
      then Some (Inr (empty_kv_cache_blocks k, 0, k))
      else
        case co_find_longest_cache_hit (km_coordinator k) (block_hashes r) (int (num_tokens r) - 1) of
          None \<Rightarrow> None
        | Some res \<Rightarrow> Some (res_bind res (\<lambda>(blocks, n).
            if km_log_stats k
            then (case km_prefix_cache_stats k of
                    None \<Rightarrow> Inl AssertionError
                  | Some s \<Rightarrow>
                      let k' = k\<lparr>km_prefix_cache_stats :=
                                 Some (stats_record (int (num_tokens r)) n (num_preemptions r > 0) s)\<rparr>
                      in Inr (create_kv_cache_blocks k' blocks, n, k'))
            else Inr (create_kv_cache_blocks k blocks, n, k))))"

definition block_list :: "kv_manager \<Rightarrow> kv_cache_blocks option \<Rightarrow> kv_cache_blocks" where
  "block_list k b = (case b of None \<Rightarrow> empty_kv_cache_blocks k | Some x \<Rightarrow> x)"

definition can_fit_full_sequence ::
  "kv_manager \<Rightarrow> request \<Rightarrow> int \<Rightarrow> kv_cache_blocks option \<Rightarrow> int \<Rightarrow> int \<Rightarrow> (bool \<times> kv_manager) res" where
  "can_fit_full_sequence k r num_new_computed new_computed num_external n_enc =
     (let num_local = num_computed_tokens r + num_new_computed;
          total = min (num_local + num_external) (km_max_model_len k);
          full = min (int (num_tokens r)) (km_max_model_len k) in
      res_bind (co_get_num_blocks_to_allocate (km_coordinator k) (request_id r) full
                  (kb_blocks (block_list k new_computed)) n_enc total full) (\<lambda>(n, c).
        Inr (n \<le> get_num_free_blocks (co_pool c), k\<lparr>km_coordinator := c\<rparr>)))"

text \<open>
  \<^verbatim>\<open>allocate_slots\<close>. The result \<open>None\<close> is the code's \<^verbatim>\<open>None\<close>: not enough free blocks. The request is
  returned because caching fills its memo of prompt-embedding hashes.
\<close>

definition allocate_slots ::
  "hash_env \<Rightarrow> kv_manager \<Rightarrow> request \<Rightarrow> int \<Rightarrow> int \<Rightarrow> kv_cache_blocks option \<Rightarrow> int \<Rightarrow> int \<Rightarrow> bool \<Rightarrow> int
     \<Rightarrow> (kv_cache_blocks option \<times> kv_manager \<times> request) res" where
  "allocate_slots E k r num_new num_new_computed new_computed num_lookahead num_external delay n_enc =
     guard (\<not> (num_new = 0 \<and> num_external = 0)) ValueError
     (let bl = block_list k new_computed; rid = request_id r;
          num_local = num_computed_tokens r + num_new_computed;
          total = min (num_local + num_external) (km_max_model_len k);
          ntok_main = total + num_new;
          need_slot = min (ntok_main + num_lookahead) (km_max_model_len k) in
      res_bind (co_remove_skipped_blocks (km_coordinator k) rid total) (\<lambda>c1.
      res_bind (co_get_num_blocks_to_allocate c1 rid need_slot (kb_blocks bl) n_enc
                  (num_local + num_external) ntok_main) (\<lambda>(n, c2).
      if n > get_num_free_blocks (co_pool c2) then Inr (None, k\<lparr>km_coordinator := c2\<rparr>, r)
      else
      res_bind (if \<not> is_shared_empty bl \<or> num_external > 0
                then co_allocate_new_computed_blocks E c2 rid (kb_blocks bl) num_local num_external
                else Inr c2) (\<lambda>c3.
      res_bind (co_allocate_new_blocks E c3 rid need_slot ntok_main n_enc) (\<lambda>(new_blocks, c4).
      if \<not> km_enable_caching k \<or> delay
      then Inr (Some (create_kv_cache_blocks k new_blocks), k\<lparr>km_coordinator := c4\<rparr>, r)
      else
      res_bind (co_cache_blocks E c4 r (min (total + num_new) (int (num_tokens r)))) (\<lambda>(c5, r').
        Inr (Some (create_kv_cache_blocks k new_blocks), k\<lparr>km_coordinator := c5\<rparr>, r')))))))"

definition km_free :: "kv_manager \<Rightarrow> request \<Rightarrow> kv_manager res" where
  "km_free k r = on_coordinator (\<lambda>c. co_free c (request_id r)) k"

definition km_remove_skipped_blocks :: "kv_manager \<Rightarrow> string \<Rightarrow> int \<Rightarrow> kv_manager res" where
  "km_remove_skipped_blocks k rid n = on_coordinator (\<lambda>c. co_remove_skipped_blocks c rid n) k"

definition km_evict_blocks :: "hash_env \<Rightarrow> kv_manager \<Rightarrow> int list \<Rightarrow> kv_manager res" where
  "km_evict_blocks E k ids =
     on_coordinator (\<lambda>c. res_bind (evict_blocks E ids (co_pool c)) (\<lambda>p. Inr (c\<lparr>co_pool := p\<rparr>))) k"

definition km_reset_prefix_cache :: "kv_manager \<Rightarrow> (bool \<times> kv_manager) res" where
  "km_reset_prefix_cache k =
     (case reset_prefix_cache (km_pool k) of (ok, p) \<Rightarrow>
        let k1 = k\<lparr>km_coordinator := (km_coordinator k)\<lparr>co_pool := p\<rparr>\<rparr> in
        if \<not> ok then Inr (False, k1)
        else if km_log_stats k
        then (case km_prefix_cache_stats k of
                None \<Rightarrow> Inl AssertionError
              | Some s \<Rightarrow> Inr (True, k1\<lparr>km_prefix_cache_stats := Some (s\<lparr>stats_reset := True\<rparr>)\<rparr>))
        else Inr (True, k1))"

definition km_get_num_common_prefix_blocks :: "kv_manager \<Rightarrow> string \<Rightarrow> (nat list \<times> kv_manager) res" where
  "km_get_num_common_prefix_blocks k rid =
     res_bind (co_get_num_common_prefix_blocks (km_coordinator k) rid)
       (\<lambda>(ns, c). Inr (ns, k\<lparr>km_coordinator := c\<rparr>))"

definition km_take_events :: "kv_manager \<Rightarrow> kv_cache_event list \<times> kv_manager" where
  "km_take_events k =
     (case take_events (km_pool k) of (es, p) \<Rightarrow>
        (es, k\<lparr>km_coordinator := (km_coordinator k)\<lparr>co_pool := p\<rparr>\<rparr>))"

definition km_get_blocks :: "kv_manager \<Rightarrow> string \<Rightarrow> kv_cache_blocks" where
  "km_get_blocks k rid = create_kv_cache_blocks k (co_get_blocks (km_coordinator k) rid)"

definition km_get_block_ids :: "kv_manager \<Rightarrow> string \<Rightarrow> int list list option" where
  "km_get_block_ids k rid = kb_get_block_ids (km_pool k) False (km_get_blocks k rid)"

definition km_cache_blocks :: "hash_env \<Rightarrow> kv_manager \<Rightarrow> request \<Rightarrow> int \<Rightarrow> (kv_manager \<times> request) res" where
  "km_cache_blocks E k r n =
     (if km_enable_caching k
      then res_bind (co_cache_blocks E (km_coordinator k) r n) (\<lambda>(c, r'). Inr (k\<lparr>km_coordinator := c\<rparr>, r'))
      else Inr (k, r))"

definition km_take_new_block_ids :: "kv_manager \<Rightarrow> int list \<times> kv_manager" where
  "km_take_new_block_ids k =
     (let ms = single_type_managers (km_coordinator k) in
      (concat (map (\<lambda>m. fst (take_new_block_ids m)) ms),
       k\<lparr>km_coordinator := (km_coordinator k)\<lparr>single_type_managers := map (\<lambda>m. snd (take_new_block_ids m)) ms\<rparr>\<rparr>))"

definition km_new_step_starts :: "kv_manager \<Rightarrow> kv_manager" where
  "km_new_step_starts k = k\<lparr>km_coordinator := co_new_step_starts (km_coordinator k)\<rparr>"

end
