(* ===== verification/Allocation_Laws.thy ===== *)
theory Allocation_Laws
  imports Coordinator_Laws KV_Cache_Manager
begin

text \<open>
  The allocation path of the KV cache manager: the number of blocks announced by
  \<^verbatim>\<open>get_num_blocks_to_allocate\<close> is enough for the two allocation loops that follow, so that
  \<^verbatim>\<open>allocate_slots\<close> either reports that memory is short or succeeds, and keeps the ownership
  invariant in both cases.
\<close>

section \<open>Counting\<close>

text \<open>Groups whose managers use the base operations: attention over the tokens of the request.\<close>

definition plain_group :: "manager \<Rightarrow> bool" where
  "plain_group m \<longleftrightarrow> \<not> is_mamba (mg_spec m) \<and> \<not> is_cross_attention (mg_spec m)"

text \<open>The hit handed to a group: cached blocks, and none for a request the group already knows.\<close>

definition hit_ok :: "nat set \<Rightarrow> block_pool \<Rightarrow> string \<Rightarrow> manager \<Rightarrow> nat list \<Rightarrow> bool" where
  "hit_ok R p rid m hit \<longleftrightarrow>
     row_ok R (num_gpu_blocks p) hit \<and> (mg_enable_caching m \<or> hit = [])
     \<and> (\<forall>b \<in> set hit. b \<noteq> 0 \<longrightarrow> hash_of p b \<noteq> None)
     \<and> (map_of (num_cached_block m) rid \<noteq> None \<longrightarrow> hit = [])"

text \<open>
  How a request enters the allocation: when hits are attached (\<open>attach\<close>), a group that does not know
  the request has no blocks for it; otherwise the request's row already covers its skipped blocks.
\<close>

definition entry_state :: "string \<Rightarrow> int \<Rightarrow> bool \<Rightarrow> manager \<Rightarrow> nat list \<Rightarrow> bool" where
  "entry_state rid tc attach m hit \<longleftrightarrow>
     (if attach then map_of (num_cached_block m) rid = None \<longrightarrow> blocks_of m rid = []
      else hit = [] \<and> (map_of (num_cached_block m) rid = None \<longrightarrow>
        get_num_skipped_tokens m tc div mg_block_size m \<le> int (length (blocks_of m rid))))"

definition attached :: "string \<Rightarrow> bool \<Rightarrow> manager \<Rightarrow> bool" where
  "attached rid attach m \<longleftrightarrow> attach \<and> map_of (num_cached_block m) rid = None"

definition start_len :: "string \<Rightarrow> int \<Rightarrow> bool \<Rightarrow> manager \<Rightarrow> nat list \<Rightarrow> nat" where
  "start_len rid tc attach m hit =
     (if attached rid attach m then length (initial_row m hit tc) else length (blocks_of m rid))"

definition start_evict :: "block_pool \<Rightarrow> string \<Rightarrow> int \<Rightarrow> bool \<Rightarrow> manager \<Rightarrow> nat list \<Rightarrow> int" where
  "start_evict p rid tc attach m hit =
     (if attached rid attach m
      then get_num_evictable_blocks p (drop (nat (get_num_skipped_tokens m tc div mg_block_size m)) hit)
      else 0)"

text \<open>The row the request starts from, and the hit blocks that its row takes over.\<close>

definition start_row :: "string \<Rightarrow> int \<Rightarrow> bool \<Rightarrow> manager \<Rightarrow> nat list \<Rightarrow> nat list" where
  "start_row rid tc attach m hit = (if attached rid attach m then initial_row m hit tc else blocks_of m rid)"

definition taken_hits :: "string \<Rightarrow> int \<Rightarrow> bool \<Rightarrow> manager \<Rightarrow> nat list \<Rightarrow> nat list" where
  "taken_hits rid tc attach m hit =
     (if attached rid attach m then drop (nat (get_num_skipped_tokens m tc div mg_block_size m)) hit else [])"

lemma start_len_row: "start_len rid tc attach m hit = length (start_row rid tc attach m hit)"
  by (simp add: start_len_def start_row_def)

definition row_need :: "int \<Rightarrow> manager \<Rightarrow> nat \<Rightarrow> int" where
  "row_need ntok m len = max 0 (cdiv ntok (mg_block_size m) - int len)"

lemma length_initial_row:
  "int (length (initial_row m hit tc))
     = max (get_num_skipped_tokens m tc div mg_block_size m) (int (length hit))"
  by (auto simp: initial_row_def Let_def max_def)

lemma base_count:
  assumes "hit_ok R p rid m hit" "entry_state rid tc attach m hit"
  shows "base_get_num_blocks_to_allocate m p rid ntok hit tc
    = Inr (row_need ntok m (start_len rid tc attach m hit) + start_evict p rid tc attach m hit)"
proof (cases "map_of (num_cached_block m) rid")
  case (Some n)
  then show ?thesis using assms
    by (simp add: base_get_num_blocks_to_allocate_def hit_ok_def start_len_def start_evict_def
        attached_def row_need_def Let_def max.commute)
next
  case None
  show ?thesis
  proof (cases attach)
    case True
    then have "blocks_of m rid = []" using assms(2) None by (simp add: entry_state_def)
    then show ?thesis using None True length_initial_row [of m hit tc]
      by (simp add: base_get_num_blocks_to_allocate_def start_len_def start_evict_def attached_def
          row_need_def Let_def max.commute max_def)
  next
    case False
    then show ?thesis using None assms(2)
      by (simp add: base_get_num_blocks_to_allocate_def start_len_def start_evict_def attached_def
          row_need_def Let_def max.commute entry_state_def get_num_evictable_blocks_def max_absorb2)
  qed
qed

section \<open>Attaching the hits\<close>

lemma evictable_bound:
  assumes core: "pool_core R p" and sub: "set (free_list q) \<subseteq> set (free_list p)" "distinct (free_list q)"
    and row: "row_ok R (num_gpu_blocks p) hit"
  shows "int (length (free_list q)) - get_num_evictable_blocks p hit
    \<le> int (length (filter (\<lambda>x. x \<notin> set hit) (free_list q)))"
proof -
  let ?ev = "filter (\<lambda>a. refs p a = 0 \<and> \<not> is_null (pblk p a)) hit"
  have mem: "x \<in> set ?ev" if "x \<in> set (free_list q)" "x \<in> set hit" for x
    using that sub(1) row pool_free_iff [OF core, of x] pool_coreD(11) [OF core, of x] by (auto simp: row_ok_def)
  have "length (filter (\<lambda>x. x \<in> set hit) (free_list q)) = card (set (filter (\<lambda>x. x \<in> set hit) (free_list q)))"
    using distinct_filter [OF sub(2)] by (rule distinct_card [symmetric])
  also have "\<dots> \<le> card (set ?ev)" by (rule card_mono) (use mem in auto)
  also have "\<dots> \<le> length ?ev" by (rule card_length)
  finally have "length (filter (\<lambda>x. x \<in> set hit) (free_list q)) \<le> length ?ev" .
  moreover have "length (free_list q) = length (filter (\<lambda>x. x \<in> set hit) (free_list q))
      + length (filter (\<lambda>x. x \<notin> set hit) (free_list q))"
    by (simp add: sum_length_filter_compl)
  ultimately show ?thesis by (simp add: get_num_evictable_blocks_def)
qed

lemma no_external: "ne \<le> 0 \<Longrightarrow> external_blocks m hit tc ne = 0"
  by (simp add: external_blocks_def Let_def)

definition compute_each ::
  "hash_env \<Rightarrow> string \<Rightarrow> nat list list \<Rightarrow> int \<Rightarrow> int \<Rightarrow> nat \<Rightarrow> manager \<Rightarrow> block_pool
     \<Rightarrow> (unit \<times> manager \<times> block_pool) res" where
  "compute_each E rid hits nl ne i m p =
     res_bind (index_res hits i) (\<lambda>bs.
       res_bind (allocate_new_computed_blocks E m p rid bs nl ne) (\<lambda>(m', p'). Inr ((), m', p')))"

lemma plain_compute:
  "plain_group m \<Longrightarrow> allocate_new_computed_blocks E m p rid hit nl ne
     = base_allocate_new_computed_blocks E m p rid hit nl ne"
  by (auto simp: plain_group_def allocate_new_computed_blocks_def is_cross_attention_def
      split: kv_cache_spec.splits)

text \<open>What attaching a hit does to a manager.\<close>

definition attached_to :: "string \<Rightarrow> int \<Rightarrow> manager \<Rightarrow> nat list \<Rightarrow> manager \<Rightarrow> bool" where
  "attached_to rid tc m hit m' \<longleftrightarrow>
     same_manager m m' \<and> length (blocks_of m' rid) = start_len rid tc True m hit
     \<and> (\<forall>x. x \<noteq> rid \<longrightarrow> blocks_of m' x = blocks_of m x)
     \<and> (map_of (num_cached_block m) rid = None \<longrightarrow> blocks_of m' rid = initial_row m hit tc)
     \<and> (map_of (num_cached_block m) rid \<noteq> None \<longrightarrow> blocks_of m' rid = blocks_of m rid)"

text \<open>One group, started from a pool \<open>q\<close> whose free list is a part of that of \<open>p\<close>.\<close>

lemma attach_step:
  assumes own: "owns R m q" "fresh_ok m q" and hit: "hit_ok R q rid m hit" and plain: "plain_group m"
    and ent: "entry_state rid nl True m hit"
    and p: "pool_core R p" "same_config p q" "set (free_list q) \<subseteq> set (free_list p)"
  shows "\<exists>m' q'. allocate_new_computed_blocks E m q rid hit nl 0 = Inr (m', q')
    \<and> row_step R rid m q m' q' \<and> attached_to rid nl m hit m'
    \<and> int (length (free_list q)) - start_evict p rid nl True m hit \<le> int (length (free_list q'))
    \<and> free_list q' = filter (\<lambda>x. x \<notin> set (taken_hits rid nl True m hit)) (free_list q)
    \<and> (\<forall>x < num_gpu_blocks q. hash_of q' x = hash_of q x)"
proof (cases "map_of (num_cached_block m) rid")
  case (Some c)
  then have "hit = []" using hit by (simp add: hit_ok_def)
  then have "allocate_new_computed_blocks E m q rid hit nl 0 = Inr (m, q)"
    using Some by (simp add: plain_compute [OF plain] base_allocate_new_computed_blocks_def)
  moreover have "row_step R rid m q m q"
    using own step_ok_refl by (auto simp: row_step_def fresh_ok_def)
  ultimately show ?thesis using Some
    by (auto simp: attached_to_def start_len_def start_evict_def attached_def taken_hits_def)
next
  case None
  have e: "blocks_of m rid = []" using ent None by (simp add: entry_state_def)
  let ?row = "initial_row m hit (nl + 0)"
  let ?fl = "filter (\<lambda>x. x \<notin> set ?row) (free_list q)"
  obtain ext m' q' where s: "base_allocate_new_computed_blocks E m q rid hit nl 0 = Inr (m', q')"
    "row_step R rid m q m' q'" "blocks_of m' rid = ?row @ ext"
    "int (length ext) = external_blocks m hit (nl + 0) 0" "?fl = ext @ free_list q'"
    "\<forall>x < num_gpu_blocks q. hash_of q' x = (if x \<in> set ext \<and> enable_caching q then None else hash_of q x)"
    using base_allocate_computed_row_step [OF own(1) None e, of hit ?fl nl 0 E] hit
    by (auto simp: hit_ok_def no_external)
  have ext: "ext = []" using s(4) by (simp add: no_external)
  define k where "k = nat (get_num_skipped_tokens m nl div mg_block_size m)"
  have core: "pool_core R q" using own by (simp add: owns_def)
  have pos: "x \<noteq> 0" if "x \<in> set (free_list q)" for x using that pool_free_iff [OF core, of x] by simp
  have "filter (\<lambda>x. x \<notin> set (drop k hit)) (free_list q) = ?fl"
    by (rule filter_cong) (use pos in \<open>auto simp: initial_row_def Let_def k_def\<close>)
  moreover have "row_ok R (num_gpu_blocks p) (drop k hit)"
    using hit p(2) by (simp add: hit_ok_def row_ok_drop same_config_def)
  moreover have "distinct (free_list q)" by (rule pool_coreD(8) [OF core])
  ultimately have "int (length (free_list q)) - start_evict p rid nl True m hit \<le> int (length (free_list q'))"
    using evictable_bound [OF p(1,3), of "drop k hit"] None s(5)
    by (simp add: start_evict_def attached_def k_def ext)
  moreover have "free_list q' = filter (\<lambda>x. x \<notin> set (taken_hits rid nl True m hit)) (free_list q)"
    using s(5) ext None \<open>filter (\<lambda>x. x \<notin> set (drop k hit)) (free_list q) = ?fl\<close>
    by (simp add: taken_hits_def attached_def k_def)
  moreover have "attached_to rid nl m hit m'"
    using s(2,3) None ext
    by (simp add: attached_to_def start_len_def attached_def row_step_def step_ok_def)
  ultimately show ?thesis
    using s(1,2,6) ext by (intro exI [of _ m'] exI [of _ q']) (simp add: plain_compute [OF plain])
qed

lemma drop_Cons_nth:
  assumes "drop k xs = y # ys"
  shows "k < length xs" "xs ! k = y" "drop (Suc k) xs = ys"
proof -
  show k: "k < length xs" using assms by (metis drop_eq_Nil list.distinct(1) not_le)
  show "xs ! k = y" "drop (Suc k) xs = ys"
    using assms Cons_nth_drop_Suc [OF k] by (metis list.inject)+
qed

lemma compute_each_law:
  assumes wf: "kv_wf R ms p" and len: "length hits = length ms"
    and each: "\<forall>i < length ms. plain_group (ms ! i) \<and> hit_ok R p rid (ms ! i) (hits ! i)
      \<and> entry_state rid nl True (ms ! i) (hits ! i)"
  shows "\<exists>rs ms' p'. each_manager (compute_each E rid hits nl 0) 0 ms p = Inr (rs, ms', p')
    \<and> kv_wf R ms' p' \<and> same_config p p' \<and> length ms' = length ms
    \<and> (\<forall>i < length ms. attached_to rid nl (ms ! i) (hits ! i) (ms' ! i))
    \<and> int (length (free_list p)) - (\<Sum>i < length ms. start_evict p rid nl True (ms ! i) (hits ! i))
        \<le> int (length (free_list p'))
    \<and> free_list p' = filter (\<lambda>x. \<forall>i < length ms. x \<notin> set (taken_hits rid nl True (ms ! i) (hits ! i))) (free_list p)"
proof -
  let ?ev = "\<lambda>i. start_evict p rid nl True (ms ! i) (hits ! i)"
  let ?out = "\<lambda>k x. \<forall>i < k. x \<notin> set (taken_hits rid nl True (ms ! i) (hits ! i))"
  have core: "pool_core R p" using wf by (simp add: kv_wf_def kv_inv_def)
  define Q where "Q rs pre todo q \<longleftrightarrow> kv_wf R (pre @ todo) q \<and> same_config p q
    \<and> todo = drop (length pre) ms \<and> length pre \<le> length ms
    \<and> (\<forall>i < length pre. attached_to rid nl (ms ! i) (hits ! i) (pre ! i))
    \<and> int (length (free_list p)) - (\<Sum>i < length pre. ?ev i) \<le> int (length (free_list q))
    \<and> free_list q = filter (?out (length pre)) (free_list p) \<and> (\<forall>x < num_gpu_blocks p. hash_of q x = hash_of p x)"
    for rs :: "unit list" and pre todo q
  have "\<exists>rs' ms' p'. each_manager (compute_each E rid hits nl 0) (length ([] :: manager list)) ms p = Inr (rs', ms', p')
    \<and> length ms' = length ms \<and> Q ([] @ rs') ([] @ ms') [] p'"
  proof (rule each_manager_rule)
    show "Q [] [] ms p" using wf by (simp add: Q_def)
    fix rs pre m todo q assume "Q rs pre (m # todo) q"
    note Q = this [unfolded Q_def]
    let ?k = "length pre" and ?hit = "hits ! length pre"
    have d: "drop ?k ms = m # todo" using Q by simp
    note D = drop_Cons_nth [OF d]
    have wfq: "kv_wf R (pre @ m # todo) q" and n: "num_gpu_blocks q = num_gpu_blocks p"
      using Q by (auto simp: same_config_def)
    have own: "owns R m q" "fresh_ok m q" using kv_wf_owns [OF wfq, of m] by auto
    have q: "same_config p q" "set (free_list q) \<subseteq> set (free_list p)" using Q by auto
    have e: "plain_group m" "hit_ok R p rid m ?hit" "entry_state rid nl True m ?hit"
      using each D(1,2) by auto
    have hq: "hit_ok R q rid m ?hit" using e(2) Q n by (auto simp: hit_ok_def row_ok_def)
    obtain m' q' where s: "allocate_new_computed_blocks E m q rid ?hit nl 0 = Inr (m', q')"
      "row_step R rid m q m' q'" "attached_to rid nl m ?hit m'"
      "int (length (free_list q)) - start_evict p rid nl True m ?hit \<le> int (length (free_list q'))"
      "free_list q' = filter (\<lambda>x. x \<notin> set (taken_hits rid nl True m ?hit)) (free_list q)"
      "\<forall>x < num_gpu_blocks q. hash_of q' x = hash_of q x"
      using attach_step [OF own hq e(1,3) core q, of E] by (elim exE conjE) (rule that)
    have run: "compute_each E rid hits nl 0 ?k m q = Inr ((), m', q')"
      using s(1) D(1) len by (simp add: compute_each_def)
    have "kv_wf R ((pre @ [m']) @ todo) q'" using row_step_wf [OF wfq s(2)] by simp
    moreover have "same_config p q'"
      using s(2) by (intro same_config_trans [OF q(1)]) (simp add: row_step_def step_ok_def)
    moreover have "\<forall>i < length (pre @ [m']). attached_to rid nl (ms ! i) (hits ! i) ((pre @ [m']) ! i)"
      using Q s(3) D(2) by (auto simp: nth_append less_Suc_eq)
    moreover have "int (length (free_list p)) - (\<Sum>i < length (pre @ [m']). ?ev i) \<le> int (length (free_list q'))"
    proof -
      have "int (length (free_list p)) - (\<Sum>i < ?k. ?ev i) \<le> int (length (free_list q))" using Q by blast
      then show ?thesis using s(4) D(2) by simp
    qed
    moreover have "free_list q' = filter (?out (length (pre @ [m']))) (free_list p)"
      using Q s(5) D(2) by (auto simp: less_Suc_eq intro!: filter_cong)
    ultimately show "\<exists>r m' p'. compute_each E rid hits nl 0 ?k m q = Inr (r, m', p')
        \<and> Q (rs @ [r]) (pre @ [m']) todo p'"
      using run Q s(6) n D(1,3) unfolding Q_def
      by (intro exI [of _ "()"] exI [of _ m'] exI [of _ q'] conjI) auto
  qed
  then show ?thesis by (auto simp: Q_def)
qed

section \<open>Allocating the new blocks\<close>

definition alloc_each ::
  "hash_env \<Rightarrow> string \<Rightarrow> int \<Rightarrow> int \<Rightarrow> int \<Rightarrow> nat \<Rightarrow> manager \<Rightarrow> block_pool \<Rightarrow> (nat list \<times> manager \<times> block_pool) res" where
  "alloc_each E rid ntok ntok_main n_enc i m p =
     allocate_new_blocks E m p rid (if is_cross_attention (mg_spec m) then n_enc else ntok) ntok_main"

definition extended :: "string \<Rightarrow> int \<Rightarrow> manager \<Rightarrow> nat list \<Rightarrow> manager \<Rightarrow> bool" where
  "extended rid ntok m new m' \<longleftrightarrow>
     same_manager m m' \<and> num_cached_block m' = num_cached_block m
     \<and> blocks_of m' rid = blocks_of m rid @ new \<and> (\<forall>x. x \<noteq> rid \<longrightarrow> blocks_of m' x = blocks_of m x)
     \<and> int (length new) = row_need ntok m (length (blocks_of m rid))"

lemma alloc_each_law:
  assumes wf: "kv_wf R ms p" and plain: "\<forall>m \<in> set ms. plain_group m"
    and enough: "(\<Sum>m \<leftarrow> ms. row_need ntok m (length (blocks_of m rid))) \<le> int (length (free_list p))"
  shows "\<exists>news ms' p'. each_manager (alloc_each E rid ntok ntok_main n_enc) 0 ms p = Inr (news, ms', p')
    \<and> kv_wf R ms' p' \<and> same_config p p' \<and> length ms' = length ms \<and> length news = length ms
    \<and> (\<forall>i < length ms. extended rid ntok (ms ! i) (news ! i) (ms' ! i))
    \<and> free_list p = concat news @ free_list p'"
proof -
  define Q where "Q news pre todo q \<longleftrightarrow> kv_wf R (pre @ todo) q \<and> same_config p q
    \<and> todo = drop (length pre) ms \<and> length pre \<le> length ms \<and> length news = length pre
    \<and> (\<forall>i < length pre. extended rid ntok (ms ! i) (news ! i) (pre ! i))
    \<and> free_list p = concat news @ free_list q
    \<and> (\<Sum>m \<leftarrow> todo. row_need ntok m (length (blocks_of m rid))) \<le> int (length (free_list q))"
    for news pre todo q
  have "\<exists>rs' ms' p'. each_manager (alloc_each E rid ntok ntok_main n_enc) (length ([] :: manager list)) ms p = Inr (rs', ms', p')
    \<and> length ms' = length ms \<and> Q ([] @ rs') ([] @ ms') [] p'"
  proof (rule each_manager_rule)
    show "Q [] [] ms p" using wf enough by (simp add: Q_def)
    fix news pre m todo q assume "Q news pre (m # todo) q"
    note Q = this [unfolded Q_def]
    let ?k = "length pre"
    have d: "drop ?k ms = m # todo" using Q by simp
    note D = drop_Cons_nth [OF d]
    have wfq: "kv_wf R (pre @ m # todo) q" and q: "same_config p q" using Q by blast+
    have own: "owns R m q" "fresh_ok m q" using kv_wf_owns [OF wfq, of m] by auto
    have pm: "plain_group m" using plain D(1,2) nth_mem by blast
    have nn: "0 \<le> (\<Sum>m \<leftarrow> todo. row_need ntok m (length (blocks_of m rid)))"
      by (rule sum_list_nonneg) (auto simp: row_need_def)
    have all: "(\<Sum>m \<leftarrow> m # todo. row_need ntok m (length (blocks_of m rid))) \<le> int (length (free_list q))"
      using Q by blast
    then have fit: "cdiv ntok (mg_block_size m) - int (length (blocks_of m rid)) \<le> int (length (free_list q))"
      using nn by (simp add: row_need_def)
    obtain new m' q' where s: "base_allocate_new_blocks E m q rid ntok = Inr (new, m', q')"
      "row_step R rid m q m' q'" "num_cached_block m' = num_cached_block m"
      "blocks_of m' rid = blocks_of m rid @ new"
      "int (length new) = max 0 (cdiv ntok (mg_block_size m) - int (length (blocks_of m rid)))"
      "free_list q = new @ free_list q'"
      using base_allocate_row_step [OF own fit, of E] by (elim exE conjE) (rule that)
    have run: "alloc_each E rid ntok ntok_main n_enc ?k m q = Inr (new, m', q')"
      using s(1) pm by (simp add: alloc_each_def plain_group_def attention_dispatch)
    have ex: "extended rid ntok m new m'"
      using s by (simp add: extended_def row_need_def row_step_def step_ok_def)
    have "kv_wf R ((pre @ [m']) @ todo) q'" using row_step_wf [OF wfq s(2)] by simp
    moreover have "same_config p q'"
      using s(2) by (intro same_config_trans [OF q(1)]) (simp add: row_step_def step_ok_def)
    moreover have "\<forall>i < length (pre @ [m']). extended rid ntok (ms ! i) ((news @ [new]) ! i) ((pre @ [m']) ! i)"
      using Q ex D(2) by (auto simp: nth_append less_Suc_eq)
    moreover have "(\<Sum>m \<leftarrow> todo. row_need ntok m (length (blocks_of m rid))) \<le> int (length (free_list q'))"
      using all s(5,6) by (simp add: row_need_def)
    ultimately show "\<exists>r m' p'. alloc_each E rid ntok ntok_main n_enc ?k m q = Inr (r, m', p')
        \<and> Q (news @ [r]) (pre @ [m']) todo p'"
      using run Q s(6) D(1,3) unfolding Q_def
      by (intro exI [of _ new] exI [of _ m'] exI [of _ q'] conjI) auto
  qed
  then show ?thesis by (auto simp: Q_def)
qed

section \<open>Caching and freeing in all groups\<close>

definition same_rows :: "manager \<Rightarrow> manager \<Rightarrow> bool" where
  "same_rows m m' \<longleftrightarrow> same_manager m m' \<and> (\<forall>x. blocks_of m' x = blocks_of m x)"

lemma can_cache_cong:
  "same_config p p' \<Longrightarrow> can_cache m p' (with_memo r memo) n = can_cache m p r n"
  by (simp add: can_cache_def same_config_def)

lemma plain_cache:
  "plain_group m \<Longrightarrow> cache_blocks E m p r n = base_cache_blocks E m p r n"
  by (auto simp: plain_group_def cache_blocks_def is_cross_attention_def split: kv_cache_spec.splits)

lemma cache_each_law:
  assumes "kv_wf R (pre @ ms) p" "\<forall>m \<in> set ms. plain_group m \<and> can_cache m p r n"
  shows "\<exists>ms' p' memo. cache_each E n ms p r = Inr (ms', p', with_memo r memo)
    \<and> kv_wf R (pre @ ms') p' \<and> same_config p p' \<and> free_list p' = free_list p
    \<and> list_all2 same_rows ms ms'"
  using assms
proof (induction ms arbitrary: pre p r)
  case Nil
  have "cache_each E n [] p r = Inr ([], p, with_memo r (prompt_embeds_per_block_hashes r))" by simp
  with Nil show ?case by (metis list.rel_intros(1) same_config_refl)
next
  case (Cons m ms)
  have own: "owns R m p" "fresh_ok m p" using kv_wf_owns [OF Cons.prems(1), of m] by auto
  have m: "plain_group m" "can_cache m p r n" using Cons.prems(2) by auto
  obtain m' p' memo where s: "base_cache_blocks E m p r n = Inr (m', p', with_memo r memo)"
    "row_step R (request_id r) m p m' p'" "free_list p' = free_list p" "\<forall>x. blocks_of m' x = blocks_of m x"
    using base_cache_row_step [OF own m(2) refl refl, of E] by (elim exE conjE) (rule that)
  have cfg: "same_config p p'" and sm: "same_rows m m'"
    using s(2,4) by (auto simp: row_step_def step_ok_def same_rows_def)
  have w: "kv_wf R ((pre @ [m']) @ ms) p'" using row_step_wf [OF Cons.prems(1) s(2)] by simp
  have c: "\<forall>m \<in> set ms. plain_group m \<and> can_cache m p' (with_memo r memo) n"
    using Cons.prems(2) can_cache_cong [OF cfg] by simp
  obtain ms' p'' memo' where t: "cache_each E n ms p' (with_memo r memo)
      = Inr (ms', p'', with_memo (with_memo r memo) memo')"
    "kv_wf R ((pre @ [m']) @ ms') p''" "same_config p' p''" "free_list p'' = free_list p'"
    "list_all2 same_rows ms ms'"
    using Cons.IH [OF w c] by (elim exE conjE) (rule that)
  have "cache_each E n (m # ms) p r = Inr (m' # ms', p'', with_memo r memo')"
    using s(1) t(1) by (simp add: plain_cache [OF m(1)])
  then show ?case
    using t(2-5) s(3) sm same_config_trans [OF cfg t(3)]
    by (intro exI [of _ "m' # ms'"] exI [of _ p''] exI [of _ memo']) simp
qed

definition free_each :: "string \<Rightarrow> nat \<Rightarrow> manager \<Rightarrow> block_pool \<Rightarrow> (unit \<times> manager \<times> block_pool) res" where
  "free_each rid i m p = res_bind (mg_free m p rid) (\<lambda>(m', p'). Inr ((), m', p'))"

definition released :: "string \<Rightarrow> manager \<Rightarrow> manager \<Rightarrow> bool" where
  "released rid m m' \<longleftrightarrow>
     same_manager m m' \<and> (\<forall>x. blocks_of m' x = (if x = rid then [] else blocks_of m x))"

lemma free_each_law:
  assumes wf: "kv_wf R ms p"
  shows "\<exists>rs ms' p'. each_manager (free_each rid) 0 ms p = Inr (rs, ms', p')
    \<and> kv_wf R ms' p' \<and> same_config p p' \<and> list_all2 (released rid) ms ms'
    \<and> (\<exists>freed. free_list p' = free_list p @ freed)"
proof -
  define Q where "Q rs pre todo q \<longleftrightarrow> kv_wf R (pre @ todo) q \<and> same_config p q
    \<and> (\<exists>ds. ms = ds @ todo \<and> list_all2 (released rid) ds pre)
    \<and> (\<exists>freed. free_list q = free_list p @ freed)" for rs :: "unit list" and pre todo q
  have "\<exists>rs' ms' p'. each_manager (free_each rid) (length ([] :: manager list)) ms p = Inr (rs', ms', p')
    \<and> length ms' = length ms \<and> Q ([] @ rs') ([] @ ms') [] p'"
  proof (rule each_manager_rule)
    show "Q [] [] ms p" using wf by (simp add: Q_def)
    fix rs pre m todo q assume "Q rs pre (m # todo) q"
    note Q = this [unfolded Q_def]
    obtain ds freed where d: "ms = ds @ m # todo" "list_all2 (released rid) ds pre"
      and fr: "free_list q = free_list p @ freed" using Q by blast
    have wfq: "kv_wf R (pre @ m # todo) q" and q: "same_config p q" using Q by blast+
    have own: "owns R m q" using kv_wf_owns [OF wfq, of m] by auto
    obtain m' q' where s: "mg_free m q rid = Inr (m', q')" "row_step R rid m q m' q'"
      "free_list q' = free_list q @ filter (\<lambda>a. a \<noteq> 0 \<and> refs q a = 1) (rev (blocks_of m rid))"
      "\<forall>x. blocks_of m' x = (if x = rid then [] else blocks_of m x)"
      using mg_free_row_step [OF own, of rid] by (elim exE conjE) (rule that)
    have "free_each rid (length pre) m q = Inr ((), m', q')" using s(1) by (simp add: free_each_def)
    moreover have "kv_wf R ((pre @ [m']) @ todo) q'" using row_step_wf [OF wfq s(2)] by simp
    moreover have "same_config p q'"
      using s(2) by (intro same_config_trans [OF q]) (simp add: row_step_def step_ok_def)
    moreover have "list_all2 (released rid) (ds @ [m]) (pre @ [m'])"
      using d(2) s(2,4) by (simp add: list_all2_appendI released_def row_step_def step_ok_def)
    ultimately show "\<exists>r m' p'. free_each rid (length pre) m q = Inr (r, m', p') \<and> Q (rs @ [r]) (pre @ [m']) todo p'"
      using d(1) fr s(3) unfolding Q_def by (intro exI [of _ "()"] exI [of _ m'] exI [of _ q'] conjI)
        (auto intro!: exI [of _ "ds @ [m]"])
  qed
  then show ?thesis by (auto simp: Q_def)
qed

section \<open>The stages of allocate slots\<close>

definition with_tables :: "manager list \<Rightarrow> block_pool \<Rightarrow> coordinator \<Rightarrow> coordinator" where
  "with_tables ms p c = c\<lparr>single_type_managers := ms, co_pool := p\<rparr>"

lemma with_tables_simps [simp]:
  "single_type_managers (with_tables ms p c) = ms" "co_pool (with_tables ms p c) = p"
  "with_tables ms' p' (with_tables ms p c) = with_tables ms' p' c"
  by (simp_all add: with_tables_def)

lemma on_managers_each:
  "each_manager f 0 (single_type_managers c) (co_pool c) = Inr (rs, ms, p)
     \<Longrightarrow> on_managers f c = Inr (rs, with_tables ms p c)"
  by (simp add: on_managers_def with_tables_def)

lemma co_remove_each:
  "co_remove_skipped_blocks c rid tc = res_bind (on_managers (remove_each rid tc) c) (\<lambda>(_, c'). Inr c')"
  by (simp add: co_remove_skipped_blocks_def remove_each_def [abs_def])

lemma co_compute_each:
  "co_allocate_new_computed_blocks E c rid hits nl ne
     = res_bind (on_managers (compute_each E rid hits nl ne) c) (\<lambda>(_, c'). Inr c')"
  by (simp add: co_allocate_new_computed_blocks_def compute_each_def [abs_def])

lemma co_alloc_each:
  "co_allocate_new_blocks E c rid ntok ntok_main n_enc = on_managers (alloc_each E rid ntok ntok_main n_enc) c"
  by (simp add: co_allocate_new_blocks_def alloc_each_def [abs_def])

lemma co_free_each: "co_free c rid = res_bind (on_managers (free_each rid) c) (\<lambda>(_, c'). Inr c')"
  by (simp add: co_free_def free_each_def [abs_def])

lemma skipped_same:
  "same_manager m m' \<Longrightarrow> get_num_skipped_tokens m' tc = get_num_skipped_tokens m tc"
  "same_manager m m' \<Longrightarrow> plain_group m' = plain_group m"
  by (simp_all add: get_num_skipped_tokens_def same_manager_def plain_group_def)

lemma stripped_entry:
  assumes "stripped rid t m m'" "same_config p p'" "\<forall>x < num_gpu_blocks p. hash_of p' x = hash_of p x"
  shows "entry_state rid tc attach m hit \<Longrightarrow> entry_state rid tc attach m' hit"
    and "hit_ok R p rid m hit \<Longrightarrow> hit_ok R p' rid m' hit"
  using assms skipped_same [of m m']
  by (auto simp: entry_state_def hit_ok_def stripped_def same_manager_def same_config_def row_ok_def)

text \<open>The conditions under which the scheduler allocates for a request, with no external tokens.\<close>

definition slots_pre ::
  "nat set \<Rightarrow> manager list \<Rightarrow> block_pool \<Rightarrow> string \<Rightarrow> int \<Rightarrow> bool \<Rightarrow> nat list list \<Rightarrow> bool" where
  "slots_pre R ms p rid tc attach hits \<longleftrightarrow>
     kv_wf R ms p \<and> length hits = length ms
     \<and> (\<forall>i < length ms. plain_group (ms ! i) \<and> hit_ok R p rid (ms ! i) (hits ! i)
          \<and> entry_state rid tc attach (ms ! i) (hits ! i))"

definition total_count :: "manager list \<Rightarrow> block_pool \<Rightarrow> string \<Rightarrow> int \<Rightarrow> int \<Rightarrow> bool \<Rightarrow> nat list list \<Rightarrow> int" where
  "total_count ms p rid ntok tc attach hits =
     (\<Sum>i < length ms. row_need ntok (ms ! i) (start_len rid tc attach (ms ! i) (hits ! i))
        + start_evict p rid tc attach (ms ! i) (hits ! i))"

lemma remove_stage:
  assumes pre: "slots_pre R (single_type_managers c) (co_pool c) rid tc attach hits"
  shows "\<exists>ms' p'. co_remove_skipped_blocks c rid t = Inr (with_tables ms' p' c)
    \<and> slots_pre R ms' p' rid tc attach hits \<and> same_config (co_pool c) p'
    \<and> list_all2 (stripped rid t) (single_type_managers c) ms'
    \<and> length (free_list (co_pool c)) \<le> length (free_list p')"
proof -
  let ?ms = "single_type_managers c" and ?p = "co_pool c"
  have wf: "kv_wf R ?ms ?p" and att: "\<forall>m \<in> set ?ms. \<not> is_mamba (mg_spec m)"
    using pre by (auto simp: slots_pre_def plain_group_def in_set_conv_nth)
  obtain rs ms' p' freed where s: "each_manager (remove_each rid t) 0 ?ms ?p = Inr (rs, ms', p')"
    "kv_wf R ms' p'" "same_config ?p p'" "list_all2 (stripped rid t) ?ms ms'"
    "free_list p' = free_list ?p @ freed" "\<forall>x < num_gpu_blocks ?p. hash_of p' x = hash_of ?p x"
    using remove_each_law [OF wf att, of rid t] by (elim exE conjE) (rule that)
  have len: "length ms' = length ?ms" using s(4) by (simp add: list_all2_lengthD)
  have "plain_group (ms' ! i) \<and> hit_ok R p' rid (ms' ! i) (hits ! i)
      \<and> entry_state rid tc attach (ms' ! i) (hits ! i)" if i: "i < length ms'" for i
  proof -
    have st: "stripped rid t (?ms ! i) (ms' ! i)" using s(4) i len by (simp add: list_all2_nthD)
    then have "plain_group (ms' ! i) = plain_group (?ms ! i)" by (intro skipped_same) (simp add: stripped_def)
    then show ?thesis using pre i len stripped_entry [OF st s(3,6)] by (simp add: slots_pre_def)
  qed
  then have "slots_pre R ms' p' rid tc attach hits" using pre s(2) len by (simp add: slots_pre_def)
  then show ?thesis
    using s(3-5) on_managers_each [OF s(1)]
    by (intro exI [of _ ms'] exI [of _ p']) (simp add: co_remove_each)
qed

lemma count_stage:
  assumes pre: "slots_pre R ms p rid tc attach hits"
  shows "co_get_num_blocks_to_allocate (with_tables ms p c) rid ntok hits n_enc tc ntok_main
    = Inr (total_count ms p rid ntok tc attach hits, with_tables ms p c)"
proof -
  let ?f = "\<lambda>i m p. if is_cross_attention (mg_spec m)
       then res_bind (get_num_blocks_to_allocate m p rid n_enc [] 0 n_enc) (\<lambda>(n, m'). Inr (n, m', p))
       else res_bind (index_res hits i) (\<lambda>bs.
              res_bind (get_num_blocks_to_allocate m p rid ntok bs tc ntok_main) (\<lambda>(n, m'). Inr (n, m', p)))"
  let ?g = "\<lambda>i m. row_need ntok m (start_len rid tc attach m (hits ! i)) + start_evict p rid tc attach m (hits ! i)"
  have "each_manager ?f 0 ms p = Inr (map (\<lambda>j. ?g (0 + j) (ms ! j)) [0..<length ms], ms, p)"
  proof (rule each_manager_reads)
    fix j assume j: "j < length ms"
    then have e: "plain_group (ms ! j)" "hit_ok R p rid (ms ! j) (hits ! j)"
      "entry_state rid tc attach (ms ! j) (hits ! j)" "length hits = length ms"
      using pre by (auto simp: slots_pre_def)
    then show "?f (0 + j) (ms ! j) p = Inr (?g (0 + j) (ms ! j), ms ! j, p)"
      using base_count [OF e(2,3), of ntok] j
      by (simp add: plain_group_def attention_dispatch)
  qed
  then show ?thesis
    by (simp add: co_get_num_blocks_to_allocate_def on_managers_def with_tables_def total_count_def
        interv_sum_list_conv_sum_set_nat atLeast0LessThan)
qed

text \<open>After the hits are attached, the row of the request has its announced length.\<close>

definition entered :: "string \<Rightarrow> int \<Rightarrow> bool \<Rightarrow> manager \<Rightarrow> nat list \<Rightarrow> manager \<Rightarrow> bool" where
  "entered rid tc attach m hit m' \<longleftrightarrow>
     same_manager m m' \<and> blocks_of m' rid = start_row rid tc attach m hit
     \<and> (\<forall>x. x \<noteq> rid \<longrightarrow> blocks_of m' x = blocks_of m x)"

definition unhit :: "string \<Rightarrow> int \<Rightarrow> bool \<Rightarrow> manager list \<Rightarrow> nat list list \<Rightarrow> nat \<Rightarrow> bool" where
  "unhit rid tc attach ms hits x \<longleftrightarrow>
     (\<forall>i < length ms. x \<notin> set (taken_hits rid tc attach (ms ! i) (hits ! i)))"

lemma row_need_same: "same_manager m m' \<Longrightarrow> row_need ntok m' len = row_need ntok m len"
  by (simp add: row_need_def same_manager_def)

lemma attach_stage:
  assumes pre: "slots_pre R ms p rid tc attach hits"
    and fit: "total_count ms p rid ntok tc attach hits \<le> int (length (free_list p))"
  shows "\<exists>ms' p'. (if attach then co_allocate_new_computed_blocks E (with_tables ms p c) rid hits tc 0
                   else Inr (with_tables ms p c)) = Inr (with_tables ms' p' c)
    \<and> kv_wf R ms' p' \<and> same_config p p' \<and> length ms' = length ms
    \<and> (\<forall>i < length ms. entered rid tc attach (ms ! i) (hits ! i) (ms' ! i))
    \<and> (\<Sum>m \<leftarrow> ms'. row_need ntok m (length (blocks_of m rid))) \<le> int (length (free_list p'))
    \<and> free_list p' = filter (unhit rid tc attach ms hits) (free_list p)"
proof (cases attach)
  case False
  have st: "start_len rid tc attach m hit = length (blocks_of m rid)" "start_evict p rid tc attach m hit = 0"
    "start_row rid tc attach m hit = blocks_of m rid" "taken_hits rid tc attach m hit = []" for m hit
    using False by (simp_all add: start_len_def start_evict_def attached_def start_row_def taken_hits_def)
  have "(\<Sum>m \<leftarrow> ms. row_need ntok m (length (blocks_of m rid))) = total_count ms p rid ntok tc attach hits"
    by (simp add: total_count_def st sum_list_sum_nth atLeast0LessThan)
  then show ?thesis using False pre fit st by (intro exI [of _ ms] exI [of _ p]) (simp add: slots_pre_def entered_def unhit_def)
next
  case True
  let ?ev = "\<lambda>i. start_evict p rid tc True (ms ! i) (hits ! i)"
  have wf: "kv_wf R ms p" and len: "length hits = length ms" using pre by (auto simp: slots_pre_def)
  have each: "\<forall>i < length ms. plain_group (ms ! i) \<and> hit_ok R p rid (ms ! i) (hits ! i)
      \<and> entry_state rid tc True (ms ! i) (hits ! i)" using pre True by (simp add: slots_pre_def)
  obtain rs ms' p' where s: "each_manager (compute_each E rid hits tc 0) 0 ms p = Inr (rs, ms', p')"
    "kv_wf R ms' p'" "same_config p p'" "length ms' = length ms"
    "\<forall>i < length ms. attached_to rid tc (ms ! i) (hits ! i) (ms' ! i)"
    "int (length (free_list p)) - (\<Sum>i < length ms. ?ev i) \<le> int (length (free_list p'))"
    "free_list p' = filter (\<lambda>x. \<forall>i < length ms. x \<notin> set (taken_hits rid tc True (ms ! i) (hits ! i))) (free_list p)"
    using compute_each_law [OF wf len each, of E] by (elim exE conjE) (rule that)
  have "(\<Sum>m \<leftarrow> ms'. row_need ntok m (length (blocks_of m rid)))
      = (\<Sum>i < length ms. row_need ntok (ms' ! i) (length (blocks_of (ms' ! i) rid)))"
    by (simp add: sum_list_sum_nth atLeast0LessThan s(4))
  also have "\<dots> = (\<Sum>i < length ms. row_need ntok (ms ! i) (start_len rid tc True (ms ! i) (hits ! i)))"
    by (rule sum.cong) (use s(5) row_need_same in \<open>auto simp: attached_to_def\<close>)
  also have "\<dots> = total_count ms p rid ntok tc attach hits - (\<Sum>i < length ms. ?ev i)"
    using True by (simp add: total_count_def sum.distrib)
  finally have "(\<Sum>m \<leftarrow> ms'. row_need ntok m (length (blocks_of m rid))) \<le> int (length (free_list p'))"
    using fit s(6) by linarith
  moreover have "entered rid tc attach (ms ! i) (hits ! i) (ms' ! i)" if "i < length ms" for i
    using s(5) that True by (auto simp: attached_to_def entered_def start_row_def attached_def)
  moreover have "free_list p' = filter (unhit rid tc attach ms hits) (free_list p)"
    using s(7) True by (simp add: unhit_def [abs_def])
  ultimately show ?thesis
    using True s(2-4) on_managers_each [of "compute_each E rid hits tc 0" "with_tables ms p c"] s(1)
    by (intro exI [of _ ms'] exI [of _ p']) (simp add: co_compute_each)
qed

text \<open>The rows after a successful allocation: the request covers \<open>ntok\<close> tokens, nobody else is touched.\<close>

definition grown :: "string \<Rightarrow> int \<Rightarrow> manager \<Rightarrow> manager \<Rightarrow> bool" where
  "grown rid ntok m m' \<longleftrightarrow>
     same_manager m m' \<and> cdiv ntok (mg_block_size m) \<le> int (length (blocks_of m' rid))
     \<and> (\<forall>x. x \<noteq> rid \<longrightarrow> blocks_of m' x = blocks_of m x)"

lemma alloc_stage:
  assumes wf: "kv_wf R ms p" and plain: "\<forall>m \<in> set ms. plain_group m"
    and enough: "(\<Sum>m \<leftarrow> ms. row_need ntok m (length (blocks_of m rid))) \<le> int (length (free_list p))"
  shows "\<exists>news ms' p'. co_allocate_new_blocks E (with_tables ms p c) rid ntok ntok_main n_enc
      = Inr (news, with_tables ms' p' c)
    \<and> kv_wf R ms' p' \<and> same_config p p' \<and> list_all2 (grown rid ntok) ms ms'
    \<and> length news = length ms \<and> (\<forall>i < length ms. extended rid ntok (ms ! i) (news ! i) (ms' ! i))
    \<and> free_list p = concat news @ free_list p'"
proof -
  obtain news ms' p' where s: "each_manager (alloc_each E rid ntok ntok_main n_enc) 0 ms p = Inr (news, ms', p')"
    "kv_wf R ms' p'" "same_config p p'" "length ms' = length ms"
    "\<forall>i < length ms. extended rid ntok (ms ! i) (news ! i) (ms' ! i)"
    "length news = length ms" "free_list p = concat news @ free_list p'"
    using alloc_each_law [OF wf plain enough, of E ntok_main n_enc] by (elim exE conjE) (rule that)
  have "grown rid ntok (ms ! i) (ms' ! i)" if "i < length ms" for i
    using s(5) that by (auto simp: extended_def grown_def row_need_def)
  then have "list_all2 (grown rid ntok) ms ms'" using s(4) by (simp add: list_all2_conv_all_nth)
  then show ?thesis
    using s(2,3,5-7) on_managers_each [of "alloc_each E rid ntok ntok_main n_enc" "with_tables ms p c"] s(1)
    by (intro exI [of _ news] exI [of _ ms'] exI [of _ p']) (simp add: co_alloc_each)
qed

lemma cache_stage:
  assumes wf: "kv_wf R ms p" and c: "\<forall>m \<in> set ms. plain_group m \<and> can_cache m p r n"
  shows "\<exists>ms' p' memo. co_cache_blocks E (with_tables ms p c) r n = Inr (with_tables ms' p' c, with_memo r memo)
    \<and> kv_wf R ms' p' \<and> same_config p p' \<and> list_all2 same_rows ms ms' \<and> free_list p' = free_list p"
proof -
  have w: "kv_wf R ([] @ ms) p" using wf by simp
  obtain ms' p' memo where s: "cache_each E n ms p r = Inr (ms', p', with_memo r memo)"
    "kv_wf R ([] @ ms') p'" "same_config p p'" "list_all2 same_rows ms ms'" "free_list p' = free_list p"
    using cache_each_law [OF w c, of E] by (elim exE conjE) (rule that)
  then show ?thesis
    by (intro exI [of _ ms'] exI [of _ p'] exI [of _ memo]) (simp add: co_cache_blocks_def with_tables_def)
qed

text \<open>What caching asks of the configuration and of the request: whole hash blocks, all hashes present.\<close>

definition cache_pre :: "block_pool \<Rightarrow> request \<Rightarrow> int \<Rightarrow> manager \<Rightarrow> bool" where
  "cache_pre p r max_len m \<longleftrightarrow>
     enable_caching p \<and> hash_block_size p > 0 \<and> hash_block_size p dvd nat (mg_block_size m)
     \<and> 0 \<le> kv_cache_group_id m \<and> kv_cache_group_id m < 2 ^ 32
     \<and> length (block_hashes r) = num_tokens r div hash_block_size p \<and> int (num_tokens r) \<le> max_len"

lemma cdiv_ge_div: "b > 0 \<Longrightarrow> a div b \<le> cdiv a b"
  using zdiv_mono1 [OF cdiv_mult_ge, of b b a] by simp

lemma can_cache_grown:
  assumes pre: "cache_pre p r max_len m" and bs: "mg_block_size m > 0"
    and n: "n = min t (int (num_tokens r))" "0 \<le> t" "look \<ge> 0"
    and g: "grown (request_id r) (min (t + look) max_len) m m'" and cfg: "same_config p p'"
  shows "can_cache m' p' r n"
proof -
  let ?b = "mg_block_size m" and ?need = "min (t + look) max_len"
  have n0: "0 \<le> n" "n \<le> int (num_tokens r)" "n \<le> ?need" using pre n by (auto simp: cache_pre_def)
  have "n div ?b \<le> ?need div ?b" by (rule zdiv_mono1 [OF n0(3) bs])
  also have "\<dots> \<le> cdiv ?need ?b" by (rule cdiv_ge_div [OF bs])
  also have "\<dots> \<le> int (length (blocks_of m' (request_id r)))" using g by (simp add: grown_def)
  finally have row: "nat (n div ?b) \<le> length (blocks_of m' (request_id r))" by simp
  have "n div ?b \<le> int (num_tokens r) div ?b" by (rule zdiv_mono1 [OF n0(2) bs])
  also have "\<dots> = int (num_tokens r div nat ?b)" using bs by (simp add: zdiv_int)
  finally have "nat (n div ?b) \<le> num_tokens r div nat ?b" by simp
  also have "\<dots> = num_tokens r div hash_block_size p div (nat ?b div hash_block_size p)"
    using pre by (metis cache_pre_def div_mult2_eq dvd_mult_div_cancel)
  finally show ?thesis
    using pre row n0(1) g cfg by (simp add: can_cache_def cache_pre_def grown_def same_manager_def same_config_def)
qed

lemma total_count_le:
  assumes "length hits = length ms" "\<forall>i < length ms. mg_block_size (ms ! i) = b i"
  shows "total_count ms p rid ntok tc attach hits
    \<le> (\<Sum>i < length ms. max 0 (cdiv ntok (b i)) + int (length (hits ! i)))"
  unfolding total_count_def
proof (rule sum_mono, rule add_mono)
  fix i assume "i \<in> {..<length ms}"
  then show "row_need ntok (ms ! i) (start_len rid tc attach (ms ! i) (hits ! i)) \<le> max 0 (cdiv ntok (b i))"
    using assms(2) by (simp add: row_need_def max_def)
  have "get_num_evictable_blocks p (drop k xs) \<le> int (length xs)" for k xs
    unfolding get_num_evictable_blocks_def by (metis diff_le_self length_drop length_filter_le of_nat_le_iff order_trans)
  then show "start_evict p rid tc attach (ms ! i) (hits ! i) \<le> int (length (hits ! i))"
    by (simp add: start_evict_def)
qed

text \<open>The other requests keep their rows in every group.\<close>

definition others_kept :: "string \<Rightarrow> manager \<Rightarrow> manager \<Rightarrow> bool" where
  "others_kept rid m m' \<longleftrightarrow> same_manager m m' \<and> (\<forall>x. x \<noteq> rid \<longrightarrow> blocks_of m' x = blocks_of m x)"

lemma others_kept_trans: "others_kept rid m m' \<Longrightarrow> others_kept rid m' m'' \<Longrightarrow> others_kept rid m m''"
  by (auto simp: others_kept_def same_manager_def)

lemma others_keptI:
  "stripped rid t m m' \<Longrightarrow> others_kept rid m m'"
  "entered rid tc attach m hit m' \<Longrightarrow> others_kept rid m m'"
  "grown rid ntok m m' \<Longrightarrow> others_kept rid m m'"
  "same_rows m m' \<Longrightarrow> others_kept rid m m'"
  by (auto simp: stripped_def entered_def grown_def same_rows_def others_kept_def)

lemma list_all2_trans2:
  assumes "list_all2 P xs ys" "list_all2 Q ys zs" "\<And>x y z. P x y \<Longrightarrow> Q y z \<Longrightarrow> S x z"
  shows "list_all2 S xs zs"
  using assms(3) list_all2_trans [of P Q S, OF _ assms(1,2)] by blast

text \<open>
  The tables after an allocation: every group's row is the row the request starts from followed by the
  new blocks of the group, as many as the slots need, and these are the first blocks of the free list
  that are not among the hits.
\<close>

definition allocated :: "string \<Rightarrow> int \<Rightarrow> int \<Rightarrow> bool \<Rightarrow> manager \<Rightarrow> nat list \<Rightarrow> nat list \<Rightarrow> manager \<Rightarrow> bool" where
  "allocated rid ntok tc attach m hit new m' \<longleftrightarrow>
     others_kept rid m m' \<and> blocks_of m' rid = start_row rid tc attach m hit @ new
     \<and> int (length new) = row_need ntok m (length (start_row rid tc attach m hit))"

definition slots_taken ::
  "string \<Rightarrow> int \<Rightarrow> int \<Rightarrow> bool \<Rightarrow> manager list \<Rightarrow> block_pool \<Rightarrow> nat list list \<Rightarrow> nat list list
     \<Rightarrow> manager list \<Rightarrow> block_pool \<Rightarrow> bool" where
  "slots_taken rid ntok tc attach ms p hits news ms' p' \<longleftrightarrow>
     length ms' = length ms \<and> length news = length ms
     \<and> (\<forall>i < length ms. allocated rid ntok tc attach (ms ! i) (hits ! i) (news ! i) (ms' ! i))
     \<and> filter (unhit rid tc attach ms hits) (free_list p) = concat news @ free_list p'"

lemma allocated_step:
  assumes "entered rid tc attach m hit m1" "extended rid ntok m1 new m2"
  shows "allocated rid ntok tc attach m hit new m2"
  using assms row_need_same [of m m1]
  by (auto simp: entered_def extended_def allocated_def others_kept_def same_manager_def)

lemma slots_taken_same_rows:
  assumes "slots_taken rid ntok tc attach ms p hits news ms' p'" "list_all2 same_rows ms' ms''"
    "free_list p'' = free_list p'"
  shows "slots_taken rid ntok tc attach ms p hits news ms'' p''"
  using assms
  by (auto simp: slots_taken_def allocated_def others_kept_def same_rows_def same_manager_def list_all2_conv_all_nth)

text \<open>
  The success path from the tables \<open>ms\<close> left by the removal of skipped blocks: hits, new blocks, caching.
\<close>

lemma success_path:
  assumes pre: "slots_pre R ms p rid tc attach hits"
    and fit: "total_count ms p rid need tc attach hits \<le> int (length (free_list p))"
    and rid: "rid = request_id r" and need: "need = min (t + look) max_len"
    and cache: "caching \<longrightarrow> (\<forall>m \<in> set ms. 0 \<le> t \<and> look \<ge> 0 \<and> cache_pre p r max_len m)"
  shows "\<exists>news ms' p' r'. res_bind (if attach then co_allocate_new_computed_blocks E (with_tables ms p c) rid hits tc 0
        else Inr (with_tables ms p c)) (\<lambda>c3.
      res_bind (co_allocate_new_blocks E c3 rid need ntok_main n_enc) (\<lambda>(new_blocks, c4).
        if \<not> caching then Inr (new_blocks, c4, r)
        else res_bind (co_cache_blocks E c4 r (min t (int (num_tokens r)))) (\<lambda>(c5, r').
          Inr (new_blocks, c5, r')))) = Inr (news, with_tables ms' p' c, r')
    \<and> kv_wf R ms' p' \<and> same_config p p' \<and> list_all2 (\<lambda>m m'. others_kept rid m m' \<and> grown rid need m m') ms ms'
    \<and> slots_taken rid need tc attach ms p hits news ms' p'"
proof -
  obtain ms1 p1 where A: "(if attach then co_allocate_new_computed_blocks E (with_tables ms p c) rid hits tc 0
        else Inr (with_tables ms p c)) = Inr (with_tables ms1 p1 c)"
    "kv_wf R ms1 p1" "same_config p p1" "length ms1 = length ms"
    "\<forall>i < length ms. entered rid tc attach (ms ! i) (hits ! i) (ms1 ! i)"
    "(\<Sum>m \<leftarrow> ms1. row_need need m (length (blocks_of m rid))) \<le> int (length (free_list p1))"
    "free_list p1 = filter (unhit rid tc attach ms hits) (free_list p)"
    using attach_stage [OF pre fit, of E c] by (elim exE conjE) (rule that)
  have kept1: "list_all2 (others_kept rid) ms ms1"
    using A(4,5) others_keptI(2) by (simp add: list_all2_conv_all_nth) blast
  have same1: "\<forall>i < length ms. same_manager (ms ! i) (ms1 ! i)" using A(5) by (simp add: entered_def)
  have plain1: "\<forall>m \<in> set ms1. plain_group m"
    using pre A(4) same1 skipped_same(2) by (fastforce simp: slots_pre_def in_set_conv_nth)
  obtain news ms2 p2 where B: "co_allocate_new_blocks E (with_tables ms1 p1 c) rid need ntok_main n_enc
      = Inr (news, with_tables ms2 p2 c)" "kv_wf R ms2 p2" "same_config p1 p2" "list_all2 (grown rid need) ms1 ms2"
    "length news = length ms1" "\<forall>i < length ms1. extended rid need (ms1 ! i) (news ! i) (ms2 ! i)"
    "free_list p1 = concat news @ free_list p2"
    using alloc_stage [OF A(2) plain1 A(6), of E c ntok_main n_enc] by (elim exE conjE) (rule that)
  have grown2: "list_all2 (\<lambda>m m'. others_kept rid m m' \<and> grown rid need m m') ms ms2"
    by (rule list_all2_trans2 [OF kept1 B(4)])
      (auto simp: others_kept_def grown_def same_manager_def)
  have taken2: "slots_taken rid need tc attach ms p hits news ms2 p2"
    unfolding slots_taken_def
  proof (intro conjI allI impI)
    fix i assume i: "i < length ms"
    show "allocated rid need tc attach (ms ! i) (hits ! i) (news ! i) (ms2 ! i)"
      by (rule allocated_step [of _ _ _ _ _ "ms1 ! i"]) (use A(4,5) B(6) i in auto)
  qed (use A(4,6,7) B(5,7) list_all2_lengthD [OF grown2] in auto)
  have cfg: "same_config p p2" by (rule same_config_trans [OF A(3) B(3)])
  show ?thesis
  proof (cases caching)
    case False
    then show ?thesis using A(1) B(1,2) grown2 taken2 cfg
      by (intro exI [of _ news] exI [of _ ms2] exI [of _ p2] exI [of _ r]) simp
  next
    case True
    have can: "plain_group m2 \<and> can_cache m2 p2 r (min t (int (num_tokens r)))" if "m2 \<in> set ms2" for m2
    proof -
      obtain i where i2: "i < length ms2" "m2 = ms2 ! i" using \<open>m2 \<in> set ms2\<close> by (metis in_set_conv_nth)
      have i: "i < length ms" "m2 = ms2 ! i" "grown rid need (ms ! i) m2"
        using i2 grown2 list_all2_lengthD [OF grown2] list_all2_nthD2 [OF grown2, of i] by simp_all
      have "owns R (ms ! i) p" using pre i(1) by (intro kv_inv_owns [of R ms]) (auto simp: slots_pre_def kv_wf_def)
      then have b: "mg_block_size (ms ! i) > 0" by (simp add: owns_def table_ok_def)
      have "cache_pre p r max_len (ms ! i)" "0 \<le> t" "look \<ge> 0" using cache True i(1) nth_mem by blast+
      then have "can_cache m2 p2 r (min t (int (num_tokens r)))"
        using can_cache_grown [OF _ b refl, of p r max_len t look m2 p2] i(3) cfg by (simp add: need rid)
      moreover have "plain_group m2"
        using pre i skipped_same(2) [of "ms ! i" m2] by (simp add: slots_pre_def grown_def)
      ultimately show ?thesis by blast
    qed
    have can': "\<forall>m2 \<in> set ms2. plain_group m2 \<and> can_cache m2 p2 r (min t (int (num_tokens r)))"
      using can by blast
    obtain ms3 p3 memo where C: "co_cache_blocks E (with_tables ms2 p2 c) r (min t (int (num_tokens r)))
        = Inr (with_tables ms3 p3 c, with_memo r memo)" "kv_wf R ms3 p3" "list_all2 same_rows ms2 ms3" "free_list p3 = free_list p2"
        "same_config p2 p3"
      using cache_stage [OF B(2) can', of E c] by (elim exE conjE) (rule that)
    have "list_all2 (\<lambda>m m'. others_kept rid m m' \<and> grown rid need m m') ms ms3"
      by (rule list_all2_trans2 [OF grown2 C(3)])
        (auto simp: others_kept_def grown_def same_rows_def same_manager_def)
    then show ?thesis using True A(1) B(1) C(1,2) slots_taken_same_rows [OF taken2 C(3,4)] same_config_trans [OF cfg C(5)]
      by (intro exI [of _ news] exI [of _ ms3] exI [of _ p3] exI [of _ "with_memo r memo"]) simp
  qed
qed

end
