(* ===== verification/KV_Manager_Properties.thy ===== *)
theory KV_Manager_Properties
  imports Allocation_Laws
begin

text \<open>
  The theorems about \<^verbatim>\<open>KVCacheManager\<close> as the scheduler sees it: construction, lookup of computed
  blocks, allocation, release and reset.
\<close>

section \<open>Construction\<close>

text \<open>Specs whose manager takes nothing from the pool when it is built.\<close>

fun regular_spec :: "kv_cache_spec \<Rightarrow> bool" where
  "regular_spec (SinkFullAttentionSpec a f s) = False"
| "regular_spec (EncoderOnlyAttentionSpec a) = False"
| "regular_spec (UniformTypeKVCacheSpecs b ss) = False"
| "regular_spec s = (block_size s > 0)"

lemma regular_manager:
  "regular_spec s \<Longrightarrow> get_manager_for_kv_cache_spec s p caching gid dcp pcp
     = Inr (base_manager_init s p caching gid dcp pcp, p)"
  by (cases s) (simp_all add: get_manager_for_kv_cache_spec_def)

lemma regular_block_size: "regular_spec s \<Longrightarrow> block_size s > 0"
  by (cases s) simp_all

lemma make_managers_regular:
  assumes "\<forall>g \<in> set gs. regular_spec (group_spec g)"
  shows "make_managers caching dcp pcp i gs p =
    Inr (map (\<lambda>(j, g). base_manager_init (group_spec g) p caching (int j) dcp pcp) (enumerate i gs), p)"
  using assms by (induction gs arbitrary: i) (simp_all add: regular_manager)

lemma base_manager_init_fields [simp]:
  "req_to_blocks (base_manager_init s p caching gid dcp pcp) = []"
  "num_cached_block (base_manager_init s p caching gid dcp pcp) = []"
  "mg_spec (base_manager_init s p caching gid dcp pcp) = s"
  "mg_enable_caching (base_manager_init s p caching gid dcp pcp) = caching"
  "kv_cache_group_id (base_manager_init s p caching gid dcp pcp) = gid"
  "mg_null_block (base_manager_init s p caching gid dcp pcp) = null_block p"
  "blocks_of (base_manager_init s p caching gid dcp pcp) x = []"
  by (simp_all add: base_manager_init_def blocks_of_def)

lemma base_manager_init_size:
  "block_size s > 0 \<Longrightarrow> mg_block_size (base_manager_init s p caching gid dcp pcp) > 0"
  by (simp add: base_manager_init_def)

lemma unitary_from_base:
  assumes "unitary_init cfg max_len use_eagle caching events dcp pcp hbs mc = Inr c"
  shows "\<exists>d kind. coordinator_init cfg max_len use_eagle caching events dcp pcp hbs mc NoPrefixCache = Inr d
    \<and> c = d\<lparr>co_kind := kind\<rparr>"
  using assms by (cases "kv_cache_groups cfg") (auto simp: unitary_init_def Let_def)

lemma hybrid_from_base:
  assumes "hybrid_init cfg max_len use_eagle caching events dcp pcp hbs mc = Inr c"
  shows "\<exists>d kind. coordinator_init cfg max_len use_eagle caching events dcp pcp hbs mc NoPrefixCache = Inr d
    \<and> c = d\<lparr>co_kind := kind\<rparr>"
  using assms by (auto simp: hybrid_init_def verify_and_split_kv_cache_groups_def Let_def)

text \<open>A coordinator is built from a fresh pool and one manager per group, whatever its class.\<close>

lemma coordinator_parts:
  assumes "get_kv_cache_coordinator cfg max_len use_eagle caching events dcp pcp hbs mc = Inr c"
    and "\<forall>g \<in> set (kv_cache_groups cfg). regular_spec (group_spec g)"
  shows "\<exists>p. block_pool_init (num_blocks cfg) caching hbs events mc = Inr p \<and> co_pool c = p
    \<and> single_type_managers c = map (\<lambda>(j, g). base_manager_init (group_spec g) p caching (int j) dcp pcp)
        (enumerate 0 (kv_cache_groups cfg))
    \<and> co_config c = cfg \<and> co_max_model_len c = max_len \<and> co_use_eagle c = use_eagle"
proof -
  have init: "\<exists>p. block_pool_init (num_blocks cfg) caching' hbs events mc = Inr p \<and> co_pool d = p
    \<and> single_type_managers d = map (\<lambda>(j, g). base_manager_init (group_spec g) p caching' (int j) dcp pcp)
        (enumerate 0 (kv_cache_groups cfg))
    \<and> co_config d = cfg \<and> co_max_model_len d = max_len \<and> co_use_eagle d = use_eagle"
    if "coordinator_init cfg max_len use_eagle caching' events dcp pcp hbs mc kind = Inr d" for caching' kind d
    using that assms(2) by (auto simp: coordinator_init_def make_managers_regular)
  show ?thesis
  proof (cases "caching")
    case False
    then show ?thesis using init [of False NoPrefixCache c] assms(1) by (simp add: get_kv_cache_coordinator_def)
  next
    case True
    have "\<exists>d kind. coordinator_init cfg max_len use_eagle caching events dcp pcp hbs mc NoPrefixCache = Inr d
        \<and> c = d\<lparr>co_kind := kind\<rparr>"
      using assms(1) True unitary_from_base hybrid_from_base
      by (simp add: get_kv_cache_coordinator_def split: if_splits)
    then obtain d kind where
      d: "coordinator_init cfg max_len use_eagle caching events dcp pcp hbs mc NoPrefixCache = Inr d"
      "c = d\<lparr>co_kind := kind\<rparr>" by blast
    show ?thesis using init [OF d(1)] by (simp add: d(2))
  qed
qed

lemma fresh_tables_wf:
  assumes core: "pool_core {} p" and zero: "\<forall>a < num_gpu_blocks p. refs p a = 0"
    and ms: "\<forall>m \<in> set ms. req_to_blocks m = [] \<and> mg_null_block m = 0 \<and> mg_block_size m > 0"
  shows "kv_wf {} ms p"
proof -
  have empty: "blocks_of m x = []" "held m a = 0" if "m \<in> set ms" for m x a
    using ms that by (simp_all add: blocks_of_def held_def)
  then have "held_all ms a = 0" for a using ms by (induction ms) auto
  then show ?thesis using core zero ms empty by (auto simp: kv_wf_def kv_inv_def table_ok_def fresh_ok_def)
qed

lemma kv_manager_init_parts:
  assumes "kv_manager_init cfg max_len hbs caching use_eagle log_stats events dcp pcp mc = Inr k"
    and "\<forall>g \<in> set (kv_cache_groups cfg). regular_spec (group_spec g)"
  shows "km_enable_caching k = caching \<and> km_max_model_len k = max_len
    \<and> num_kv_cache_groups k = length (kv_cache_groups cfg)
    \<and> (\<exists>p. block_pool_init (num_blocks cfg) caching hbs events mc = Inr p \<and> km_pool k = p
        \<and> single_type_managers (km_coordinator k)
          = map (\<lambda>(j, g). base_manager_init (group_spec g) p caching (int j) dcp pcp)
              (enumerate 0 (kv_cache_groups cfg)))"
proof -
  obtain c where c: "get_kv_cache_coordinator cfg max_len use_eagle caching events dcp pcp hbs mc = Inr c"
    and k: "km_coordinator k = c" "km_enable_caching k = caching" "km_max_model_len k = max_len"
    "num_kv_cache_groups k = length (kv_cache_groups cfg)"
    using assms(1) by (auto simp: kv_manager_init_def)
  show ?thesis using coordinator_parts [OF c assms(2)] k by simp
qed

lemma kv_manager_init_wf:
  assumes init: "kv_manager_init cfg max_len hbs caching use_eagle log_stats events dcp pcp mc = Inr k"
    and specs: "\<forall>g \<in> set (kv_cache_groups cfg). regular_spec (group_spec g)"
  shows "kv_wf {} (single_type_managers (km_coordinator k)) (km_pool k)
    \<and> free_list (km_pool k) = [1..<nat (num_blocks cfg)]
    \<and> enable_caching (km_pool k) = caching \<and> hash_block_size (km_pool k) = hbs
    \<and> num_gpu_blocks (km_pool k) = nat (num_blocks cfg)"
proof -
  obtain p where p: "block_pool_init (num_blocks cfg) caching hbs events mc = Inr p" "km_pool k = p"
    "single_type_managers (km_coordinator k)
       = map (\<lambda>(j, g). base_manager_init (group_spec g) p caching (int j) dcp pcp)
           (enumerate 0 (kv_cache_groups cfg))"
    using kv_manager_init_parts [OF init specs] by blast
  have n: "num_blocks cfg > 0" using p(1) by (auto simp: block_pool_init_def)
  have l: "pool_core {} p" "num_gpu_blocks p = nat (num_blocks cfg)" "enable_caching p = caching"
    "hash_block_size p = hbs" "free_list p = [1..<nat (num_blocks cfg)]"
    "\<forall>a < nat (num_blocks cfg). refs p a = 0 \<and> hash_of p a = None"
    using block_pool_init_law [OF n, of caching hbs events mc] p(1) by auto
  have ms: "req_to_blocks m = [] \<and> mg_null_block m = 0 \<and> mg_block_size m > 0"
    if "m \<in> set (single_type_managers (km_coordinator k))" for m
  proof -
    obtain j g where g: "(j, g) \<in> set (enumerate 0 (kv_cache_groups cfg))"
      and m: "m = base_manager_init (group_spec g) p caching (int j) dcp pcp" using \<open>m \<in> _\<close> p(3) by auto
    have "g \<in> set (kv_cache_groups cfg)" using g by (auto simp: enumerate_eq_zip dest: set_zip_rightD)
    then have "regular_spec (group_spec g)" using specs by simp
    then show ?thesis using m regular_block_size base_manager_init_size pool_coreD(5) [OF l(1)] by simp
  qed
  have "kv_wf {} (single_type_managers (km_coordinator k)) (km_pool k)"
    unfolding p(2) by (rule fresh_tables_wf) (use l ms in auto)
  then show ?thesis using l p(2) by simp
qed

section \<open>Allocation\<close>

lemma allocate_slots_law:
  assumes bl: "bl = block_list k new_computed" and ms: "ms = single_type_managers (km_coordinator k)"
    and tc: "tc = num_computed_tokens r + num_new_computed" and t: "t = min tc (km_max_model_len k) + num_new"
    and need: "need = min (t + num_lookahead) (km_max_model_len k)"
    and pre: "slots_pre R ms (km_pool k) (request_id r) tc (\<not> is_shared_empty bl) (kb_blocks bl)"
    and num_new: "num_new > 0"
    and cache: "km_enable_caching k \<and> \<not> delay \<longrightarrow>
      0 \<le> tc \<and> num_lookahead \<ge> 0 \<and> (\<forall>m \<in> set ms. cache_pre (km_pool k) r (km_max_model_len k) m)"
  shows "\<exists>res k' r'. allocate_slots E k r num_new num_new_computed new_computed num_lookahead 0 delay n_enc
      = Inr (res, k', r')
    \<and> kv_wf R (single_type_managers (km_coordinator k')) (km_pool k') \<and> same_config (km_pool k) (km_pool k')
    \<and> list_all2 (others_kept (request_id r)) ms (single_type_managers (km_coordinator k'))
    \<and> (res \<noteq> None \<longrightarrow> list_all2 (grown (request_id r) need) ms (single_type_managers (km_coordinator k')))
    \<and> ((\<Sum>i < length ms. max 0 (cdiv need (mg_block_size (ms ! i))) + int (length (kb_blocks bl ! i)))
         \<le> int (length (free_list (km_pool k))) \<longrightarrow> res \<noteq> None)
    \<and> (\<exists>c1. co_remove_skipped_blocks (km_coordinator k) (request_id r) (min tc (km_max_model_len k)) = Inr c1
         \<and> list_all2 (stripped (request_id r) (min tc (km_max_model_len k))) ms (single_type_managers c1)
         \<and> (res = None \<longleftrightarrow> int (length (free_list (co_pool c1))) < total_count (single_type_managers c1)
              (co_pool c1) (request_id r) need tc (\<not> is_shared_empty bl) (kb_blocks bl))
         \<and> (res = None \<longrightarrow> k' = k\<lparr>km_coordinator := c1\<rparr> \<and> r' = r)
         \<and> (\<forall>out. res = Some out \<longrightarrow> (\<exists>news. out = create_kv_cache_blocks k news
              \<and> slots_taken (request_id r) need tc (\<not> is_shared_empty bl) (single_type_managers c1) (co_pool c1)
                   (kb_blocks bl) news (single_type_managers (km_coordinator k')) (km_pool k'))))"
proof -
  define c where "c = km_coordinator k"
  let ?rid = "request_id r" and ?attach = "\<not> is_shared_empty bl" and ?hits = "kb_blocks bl"
  let ?caching = "km_enable_caching k \<and> \<not> delay"
  have "slots_pre R (single_type_managers c) (co_pool c) ?rid tc ?attach ?hits" using pre by (simp add: c_def ms)
  from remove_stage [OF this, of "min tc (km_max_model_len k)"] obtain ms1 p1 where
    A: "co_remove_skipped_blocks c ?rid (min tc (km_max_model_len k)) = Inr (with_tables ms1 p1 c)"
      "slots_pre R ms1 p1 ?rid tc ?attach ?hits" "same_config (co_pool c) p1"
      "list_all2 (stripped ?rid (min tc (km_max_model_len k))) (single_type_managers c) ms1"
      "length (free_list (co_pool c)) \<le> length (free_list p1)" by (elim exE conjE) (rule that)
  have kept1: "list_all2 (others_kept ?rid) ms ms1"
    using list_all2_mono [OF A(4)] others_keptI(1) by (simp add: ms c_def)
  have len1: "length ms1 = length ms" using kept1 by (simp add: list_all2_lengthD)
  define n where "n = total_count ms1 p1 ?rid need tc ?attach ?hits"
  have cnt: "co_get_num_blocks_to_allocate (with_tables ms1 p1 c) ?rid need ?hits n_enc tc t
      = Inr (n, with_tables ms1 p1 c)" unfolding n_def by (rule count_stage [OF A(2)])
  have wf1: "kv_wf R ms1 p1" using A(2) by (simp add: slots_pre_def)
  then have free1: "get_num_free_blocks p1 = int (length (free_list p1))"
    by (intro pool_coreD(9) [of R]) (simp add: kv_wf_def kv_inv_def)
  have start: "allocate_slots E k r num_new num_new_computed new_computed num_lookahead 0 delay n_enc =
     (if n > get_num_free_blocks p1 then Inr (None, k\<lparr>km_coordinator := with_tables ms1 p1 c\<rparr>, r)
      else res_bind (if ?attach then co_allocate_new_computed_blocks E (with_tables ms1 p1 c) ?rid ?hits tc 0
          else Inr (with_tables ms1 p1 c)) (\<lambda>c3.
        res_bind (co_allocate_new_blocks E c3 ?rid need t n_enc) (\<lambda>(new_blocks, c4).
          if \<not> ?caching then Inr (Some (create_kv_cache_blocks k new_blocks), k\<lparr>km_coordinator := c4\<rparr>, r)
          else res_bind (co_cache_blocks E c4 r (min t (int (num_tokens r)))) (\<lambda>(c5, r').
            Inr (Some (create_kv_cache_blocks k new_blocks), k\<lparr>km_coordinator := c5\<rparr>, r')))))"
    using num_new A(1) cnt
    by (simp add: allocate_slots_def Let_def c_def bl [symmetric] tc [symmetric] t [symmetric] need [symmetric]
        cong: if_cong)
  show ?thesis
  proof (cases "n > get_num_free_blocks p1")
    case True
    have "\<not> (\<Sum>i < length ms. max 0 (cdiv need (mg_block_size (ms ! i))) + int (length (?hits ! i)))
        \<le> int (length (free_list (km_pool k)))"
    proof -
      have "n \<le> (\<Sum>i < length ms1. max 0 (cdiv need (mg_block_size (ms ! i))) + int (length (?hits ! i)))"
        unfolding n_def using A(2) kept1 len1
        by (intro total_count_le) (auto simp: slots_pre_def list_all2_conv_all_nth others_kept_def same_manager_def)
      then show ?thesis using True free1 A(5) len1 by (simp add: c_def)
    qed
    then show ?thesis using start True wf1 kept1 A(1,3,4) free1
      by (intro exI [of _ None] exI [of _ "k\<lparr>km_coordinator := with_tables ms1 p1 c\<rparr>"] exI [of _ r])
        (simp add: c_def [symmetric] n_def [symmetric] ms)
  next
    case False
    then have fit: "total_count ms1 p1 ?rid need tc ?attach ?hits \<le> int (length (free_list p1))"
      using free1 by (simp add: n_def)
    have pre1: "?caching \<longrightarrow> (\<forall>m \<in> set ms1. 0 \<le> t \<and> num_lookahead \<ge> 0 \<and> cache_pre p1 r (km_max_model_len k) m)"
    proof (intro impI ballI)
      fix m1 assume ca: ?caching and "m1 \<in> set ms1"
      then obtain i where i: "i < length ms" "m1 = ms1 ! i" using len1 by (metis in_set_conv_nth)
      have "cache_pre (km_pool k) r (km_max_model_len k) (ms ! i)" "0 \<le> tc" "num_lookahead \<ge> 0"
        using cache ca i(1) by auto
      moreover have "same_manager (ms ! i) m1" using kept1 i by (simp add: list_all2_conv_all_nth others_kept_def)
      ultimately show "0 \<le> t \<and> num_lookahead \<ge> 0 \<and> cache_pre p1 r (km_max_model_len k) m1"
        using A(3) num_new by (simp add: cache_pre_def same_manager_def same_config_def c_def t)
    qed
    obtain news ms' p' r' where S: "res_bind (if ?attach then co_allocate_new_computed_blocks E (with_tables ms1 p1 c) ?rid ?hits tc 0
        else Inr (with_tables ms1 p1 c)) (\<lambda>c3.
      res_bind (co_allocate_new_blocks E c3 ?rid need t n_enc) (\<lambda>(new_blocks, c4).
        if \<not> ?caching then Inr (new_blocks, c4, r)
        else res_bind (co_cache_blocks E c4 r (min t (int (num_tokens r)))) (\<lambda>(c5, r').
          Inr (new_blocks, c5, r')))) = Inr (news, with_tables ms' p' c, r')" "kv_wf R ms' p'"
      "same_config p1 p'" "list_all2 (\<lambda>m m'. others_kept ?rid m m' \<and> grown ?rid need m m') ms1 ms'"
      "slots_taken ?rid need tc ?attach ms1 p1 ?hits news ms' p'"
      using success_path [OF A(2) fit refl need pre1, of E c t n_enc] by (elim exE conjE) (rule that)
    have res: "allocate_slots E k r num_new num_new_computed new_computed num_lookahead 0 delay n_enc
        = Inr (Some (create_kv_cache_blocks k news), k\<lparr>km_coordinator := with_tables ms' p' c\<rparr>, r')"
      using S(1) False unfolding start by (auto split: if_splits)
    have "list_all2 (others_kept ?rid) ms ms'"
      by (rule list_all2_trans2 [OF kept1 S(4)]) (auto intro: others_kept_trans)
    moreover have "list_all2 (grown ?rid need) ms ms'"
      by (rule list_all2_trans2 [OF kept1 S(4)]) (auto simp: others_kept_def grown_def same_manager_def)
    ultimately show ?thesis using res S(2,5) A(1,4) fit same_config_trans [OF A(3) S(3)]
      by (intro exI [of _ "Some (create_kv_cache_blocks k news)"]
          exI [of _ "k\<lparr>km_coordinator := with_tables ms' p' c\<rparr>"] exI [of _ r'])
        (auto simp: c_def [symmetric] ms)
  qed
qed

text \<open>
  C1: \<^verbatim>\<open>allocate_slots\<close> with no externally computed tokens, for the groups that use the base operations.
  From a state in which every reference of the pool is accounted for by the block tables, it never
  raises: the call returns (with \<open>None\<close> or with blocks), the ownership invariant holds afterwards (so no
  block is shared between the uncached parts of two requests, freed while in use, or hashed twice)
  and the rows of all other requests are untouched.

  Before anything else the blocks that fell out of the attention window are released (state \<open>c1\<close>).
  The call returns \<open>None\<close> exactly when the free blocks are then fewer than the blocks needed over all
  groups: the blocks missing from the row plus the hit blocks that are free themselves; in that case
  nothing else changes. In particular it succeeds whenever the free list holds the blocks
  of all slots and all hits. On success the row of the request in every group is the row it starts from (the
  attached hits for a new request, its own blocks otherwise) followed by exactly the missing blocks,
  which are taken in order from the front of the free list past the hits and returned to the caller;
  the row then covers all the token slots asked for.
\<close>

theorem allocate_slots_correct:
  assumes bl: "bl = block_list k new_computed" and ms: "ms = single_type_managers (km_coordinator k)"
    and tc: "tc = num_computed_tokens r + num_new_computed" and t: "t = min tc (km_max_model_len k) + num_new"
    and need: "need = min (t + num_lookahead) (km_max_model_len k)"
    and pre: "slots_pre R ms (km_pool k) (request_id r) tc (\<not> is_shared_empty bl) (kb_blocks bl)"
    and num_new: "num_new > 0"
    and cache: "km_enable_caching k \<and> \<not> delay \<longrightarrow>
      0 \<le> tc \<and> num_lookahead \<ge> 0 \<and> (\<forall>m \<in> set ms. cache_pre (km_pool k) r (km_max_model_len k) m)"
  shows "\<exists>res k' r'. allocate_slots E k r num_new num_new_computed new_computed num_lookahead 0 delay n_enc
      = Inr (res, k', r')
    \<and> kv_wf R (single_type_managers (km_coordinator k')) (km_pool k') \<and> same_config (km_pool k) (km_pool k')
    \<and> list_all2 (others_kept (request_id r)) ms (single_type_managers (km_coordinator k'))
    \<and> (res \<noteq> None \<longrightarrow> list_all2 (grown (request_id r) need) ms (single_type_managers (km_coordinator k')))
    \<and> ((\<Sum>i < length ms. max 0 (cdiv need (mg_block_size (ms ! i))) + int (length (kb_blocks bl ! i)))
         \<le> int (length (free_list (km_pool k))) \<longrightarrow> res \<noteq> None)
    \<and> (\<exists>c1. co_remove_skipped_blocks (km_coordinator k) (request_id r) (min tc (km_max_model_len k)) = Inr c1
         \<and> list_all2 (stripped (request_id r) (min tc (km_max_model_len k))) ms (single_type_managers c1)
         \<and> (res = None \<longleftrightarrow> int (length (free_list (co_pool c1))) < total_count (single_type_managers c1)
              (co_pool c1) (request_id r) need tc (\<not> is_shared_empty bl) (kb_blocks bl))
         \<and> (res = None \<longrightarrow> k' = k\<lparr>km_coordinator := c1\<rparr> \<and> r' = r)
         \<and> (\<forall>out. res = Some out \<longrightarrow> (\<exists>news. out = create_kv_cache_blocks k news
              \<and> slots_taken (request_id r) need tc (\<not> is_shared_empty bl) (single_type_managers c1) (co_pool c1)
                   (kb_blocks bl) news (single_type_managers (km_coordinator k')) (km_pool k'))))"
  using assms by (rule allocate_slots_law)

section \<open>An example manager\<close>

text \<open>One full attention group with blocks of two tokens and seven allocatable blocks.\<close>

definition example_attention :: attention_fields where
  "example_attention = \<lparr>a_block_size = 2, num_kv_heads = 1, head_size = 4,
     dtype = \<lparr>dtype_name = ''bf16'', dtype_size = 2\<rparr>, kv_quant = NONE, page_size_padded = None\<rparr>"

definition example_spec :: kv_cache_spec where
  "example_spec = FullAttentionSpec example_attention \<lparr>head_size_v = 4, sliding_window = None, attention_chunk_size = None\<rparr>"

definition example_config :: kv_cache_config where
  "example_config = \<lparr>num_blocks = 8, kv_cache_tensors = [],
     kv_cache_groups = [\<lparr>layer_names = [''l0''], group_spec = example_spec\<rparr>]\<rparr>"

definition example_manager :: kv_manager where
  "example_manager =
     (case kv_manager_init example_config 64 2 True False False False 1 1 None of
        Inr k \<Rightarrow> k | Inl e \<Rightarrow> undefined)"

lemma example_manager_init:
  "kv_manager_init example_config 64 2 True False False False 1 1 None = Inr example_manager"
proof -
  have "case kv_manager_init example_config 64 2 True False False False 1 1 None of Inr k \<Rightarrow> True | Inl e \<Rightarrow> False"
    by code_simp
  then show ?thesis by (auto simp: example_manager_def split: sum.splits)
qed

lemma example_manager_wf:
  "kv_wf {} (single_type_managers (km_coordinator example_manager)) (km_pool example_manager)"
  using kv_manager_init_wf [OF example_manager_init]
  by (simp add: example_config_def example_spec_def example_attention_def)

definition example_tables :: "manager list" where
  "example_tables = single_type_managers (km_coordinator example_manager)"

lemma example_tables_eq:
  "example_tables = [base_manager_init example_spec (km_pool example_manager) True 0 1 1]"
  using kv_manager_init_parts [OF example_manager_init]
  by (auto simp: example_tables_def example_config_def example_spec_def example_attention_def)

lemma example_slots_pre:
  "slots_pre {} (single_type_managers (km_coordinator example_manager)) (km_pool example_manager) rid tc
     (\<not> is_shared_empty (block_list example_manager None)) (kb_blocks (block_list example_manager None))"
proof -
  have n: "num_kv_cache_groups example_manager = 1" by code_simp
  have "block_list example_manager None = \<lparr>kb_blocks = [[]], is_shared_empty = True\<rparr>"
    by (simp add: block_list_def empty_kv_cache_blocks_def n)
  then show ?thesis
    using example_manager_wf
    by (simp add: slots_pre_def example_tables_def [symmetric] example_tables_eq plain_group_def hit_ok_def
        entry_state_def is_cross_attention_def example_spec_def get_num_skipped_tokens_def)
qed

lemma example_cache_pre:
  "\<forall>m \<in> set (single_type_managers (km_coordinator example_manager)).
     cache_pre (km_pool example_manager) (example_request [5, 6, 7, 8, 9]) (km_max_model_len example_manager) m"
  "num_computed_tokens (example_request [5, 6, 7, 8, 9]) = 0"
  by code_simp+

text \<open>Five tokens fit; with twenty tokens of lookahead the seven free blocks are too few.\<close>

theorem allocate_slots_correct_witness:
  "(case allocate_slots example_env example_manager (example_request [5, 6, 7, 8, 9]) 5 0 None 0 0 False 0 of
      Inl e \<Rightarrow> False
    | Inr (res, k', r') \<Rightarrow> res \<noteq> None
        \<and> kv_wf {} (single_type_managers (km_coordinator k')) (km_pool k')
        \<and> map (\<lambda>m. blocks_of m ''a'') (single_type_managers (km_coordinator k')) = [[1, 2, 3]])
   \<and> (case allocate_slots example_env example_manager (example_request [5, 6, 7, 8, 9]) 5 0 None 20 0 False 0 of
      Inl e \<Rightarrow> False
    | Inr (res, k', r') \<Rightarrow> res = None
        \<and> kv_wf {} (single_type_managers (km_coordinator k')) (km_pool k'))"
proof -
  let ?r = "example_request [5, 6, 7, 8, 9]" and ?k = example_manager
  have "\<exists>res k' r'. allocate_slots example_env ?k ?r 5 0 None look 0 False 0 = Inr (res, k', r')
      \<and> kv_wf {} (single_type_managers (km_coordinator k')) (km_pool k')" if "look \<ge> 0" for look
    using allocate_slots_correct [OF refl refl refl refl refl example_slots_pre, of 5 False ?r 0 look example_env 0]
      example_cache_pre that by auto
  from this [of 0] this [of 20] obtain res k' r' res2 k2 r2 where R:
    "allocate_slots example_env ?k ?r 5 0 None 0 0 False 0 = Inr (res, k', r')"
    "kv_wf {} (single_type_managers (km_coordinator k')) (km_pool k')"
    "allocate_slots example_env ?k ?r 5 0 None 20 0 False 0 = Inr (res2, k2, r2)"
    "kv_wf {} (single_type_managers (km_coordinator k2)) (km_pool k2)" by auto
  have "case allocate_slots example_env ?k ?r 5 0 None 0 0 False 0 of Inl e \<Rightarrow> False
    | Inr (res, k', r') \<Rightarrow> res \<noteq> None
        \<and> map (\<lambda>m. blocks_of m ''a'') (single_type_managers (km_coordinator k')) = [[1, 2, 3]]"
    by code_simp
  moreover have "case allocate_slots example_env ?k ?r 5 0 None 20 0 False 0 of Inl e \<Rightarrow> False
    | Inr (res, k', r') \<Rightarrow> res = None" by code_simp
  ultimately show ?thesis using R by simp
qed

lemma example_allocation:
  "\<exists>res k r. allocate_slots example_env example_manager (example_request [5, 6, 7, 8, 9]) 5 0 None 0 0 False 0
      = Inr (res, k, r) \<and> kv_wf {} (single_type_managers (km_coordinator k)) (km_pool k)"
proof -
  let ?r = "example_request [5, 6, 7, 8, 9]" and ?k = example_manager
  show ?thesis
    using allocate_slots_law [OF refl refl refl refl refl example_slots_pre, of 5 False ?r 0 0 example_env 0]
      example_cache_pre by auto
qed

text \<open>The manager after the first request, and a second request with the same leading tokens.\<close>

definition example_running :: kv_manager where
  "example_running =
     (case allocate_slots example_env example_manager (example_request [5, 6, 7, 8, 9]) 5 0 None 0 0 False 0 of
        Inr (res, k, r) \<Rightarrow> k | Inl e \<Rightarrow> undefined)"

definition second_request :: request where
  "second_request = (example_request [5, 6, 7, 8, 4])\<lparr>request_id := ''b''\<rparr>"

lemma example_running_wf:
  "kv_wf {} (single_type_managers (km_coordinator example_running)) (km_pool example_running)"
  using example_allocation by (auto simp: example_running_def)

section \<open>Release\<close>

text \<open>
  C6: \<^verbatim>\<open>KVCacheManager.free\<close> never raises and keeps the ownership invariant. Afterwards the request has no
  blocks in any group, the rows of all others are unchanged, the blocks that were free keep their
  place in the eviction order, and every block that no table holds any more is free.
\<close>

theorem km_free_correct:
  assumes wf: "kv_wf R (single_type_managers (km_coordinator k)) (km_pool k)"
  shows "\<exists>k' freed. km_free k r = Inr k'
    \<and> kv_wf R (single_type_managers (km_coordinator k')) (km_pool k')
    \<and> list_all2 (released (request_id r)) (single_type_managers (km_coordinator k))
        (single_type_managers (km_coordinator k'))
    \<and> free_list (km_pool k') = free_list (km_pool k) @ freed
    \<and> (\<forall>a. 0 < a \<and> a < num_gpu_blocks (km_pool k) \<and> a \<notin> R
        \<and> held_all (single_type_managers (km_coordinator k')) a = 0 \<longrightarrow> a \<in> set (free_list (km_pool k')))"
proof -
  let ?c = "km_coordinator k"
  obtain rs ms' p' freed where s: "each_manager (free_each (request_id r)) 0 (single_type_managers ?c) (co_pool ?c)
      = Inr (rs, ms', p')" "kv_wf R ms' p'" "same_config (co_pool ?c) p'"
    "list_all2 (released (request_id r)) (single_type_managers ?c) ms'" "free_list p' = free_list (co_pool ?c) @ freed"
    using free_each_law [OF wf, of "request_id r"] by (elim exE conjE) (rule that)
  have "a \<in> set (free_list p')" if "0 < a" "a < num_gpu_blocks (co_pool ?c)" "a \<notin> R" "held_all ms' a = 0" for a
  proof -
    have "pool_core R p'" "refs p' a = 0" using s(2,3) that by (auto simp: kv_wf_def kv_inv_def same_config_def)
    then show ?thesis using pool_free_iff [of R p' a] that s(3) by (simp add: same_config_def)
  qed
  then show ?thesis
    using s(2,4,5) on_managers_each [OF s(1)]
    by (intro exI [of _ "k\<lparr>km_coordinator := with_tables ms' p' ?c\<rparr>"] exI [of _ freed])
      (simp add: km_free_def on_coordinator_def co_free_each)
qed

theorem km_free_correct_witness:
  "case allocate_slots example_env example_manager (example_request [5, 6, 7, 8, 9]) 5 0 None 0 0 False 0 of
     Inl e \<Rightarrow> False
   | Inr (res, k, r) \<Rightarrow> (case km_free k r of Inl e \<Rightarrow> False
       | Inr k' \<Rightarrow> kv_wf {} (single_type_managers (km_coordinator k')) (km_pool k')
           \<and> free_list (km_pool k') = [4, 5, 6, 7, 3, 2, 1])"
proof -
  obtain res k r where R: "allocate_slots example_env example_manager (example_request [5, 6, 7, 8, 9]) 5 0 None 0 0 False 0
      = Inr (res, k, r)" "kv_wf {} (single_type_managers (km_coordinator k)) (km_pool k)"
    using example_allocation by blast
  have "case allocate_slots example_env example_manager (example_request [5, 6, 7, 8, 9]) 5 0 None 0 0 False 0 of
      Inl e \<Rightarrow> False
    | Inr (res, k, r) \<Rightarrow> (case km_free k r of Inl e \<Rightarrow> False
        | Inr k' \<Rightarrow> free_list (km_pool k') = [4, 5, 6, 7, 3, 2, 1])"
    by code_simp
  then show ?thesis using R km_free_correct [OF R(2), of r] by auto
qed

section \<open>Lookup of computed blocks\<close>

text \<open>A manager with a single full attention group, hashing at the block size of the group.\<close>

definition unitary_full :: "kv_manager \<Rightarrow> manager \<Rightarrow> int \<Rightarrow> bool" where
  "unitary_full k m bs \<longleftrightarrow>
     co_kind (km_coordinator k) = Unitary bs 1 1 \<and> single_type_managers (km_coordinator k) = [m]
     \<and> (case kv_cache_groups (co_config (km_coordinator k)) of [g] \<Rightarrow> group_spec g = mg_spec m | _ \<Rightarrow> False)
     \<and> is_full_attention (mg_spec m) \<and> block_size (mg_spec m) = bs \<and> bs > 0
     \<and> mg_block_size m = bs \<and> mg_enable_caching m \<and> num_kv_cache_groups k = 1"

lemma full_dispatch:
  "is_full_attention spec \<Longrightarrow> find_longest_cache_hit view L gids p spec use_eagle al dcp pcp
     = full_find_longest_cache_hit view L gids p spec use_eagle al dcp pcp"
  by (cases spec) (simp_all add: find_longest_cache_hit_def)

lemma full_plain:
  "is_full_attention (mg_spec m) \<Longrightarrow> plain_group m \<and> get_num_skipped_tokens m tc = 0"
  by (cases "mg_spec m") (simp_all add: plain_group_def is_cross_attention_def get_num_skipped_tokens_def)

lemma hit_column: "length comps = 1 \<Longrightarrow> col comps i = [hd comps ! i]"
  by (cases comps) (simp_all add: col_def)

text \<open>Distinct hashes find distinct blocks, since a block carries one key.\<close>

lemma distinct_hits:
  assumes hits: "\<forall>i < n. hit_at p (PlainHashes hs) [g] i [l ! i]" and n: "n = length l"
    and d: "distinct hs"
  shows "distinct l \<and> (\<forall>b \<in> set l. 0 < b \<and> b < num_gpu_blocks p \<and> hash_of p b \<noteq> None)"
proof -
  have h: "\<exists>k. i < length hs \<and> make_block_hash_with_group_id (hs ! i) g = Inr k \<and> hash_of p (l ! i) = Some k
      \<and> 0 < l ! i \<and> l ! i < num_gpu_blocks p" if "i < n" for i
    using hits that by (fastforce simp: hit_at_def view_at_def split: if_splits)
  have "i = j" if "i < n" "j < n" "l ! i = l ! j" for i j
    using h [OF that(1)] h [OF that(2)] that(3) make_block_hash_with_group_id_inj d
    by (metis nth_eq_iff_index_eq option.inject)
  then show ?thesis using h n by (fastforce simp: distinct_conv_nth in_set_conv_nth)
qed

lemma lookup_law:
  assumes wf: "kv_wf {} (single_type_managers (km_coordinator k)) (km_pool k)" and u: "unitary_full k m bs"
    and k: "km_enable_caching k" "km_log_stats k \<longrightarrow> km_prefix_cache_stats k \<noteq> None"
    and r: "num_tokens r > 0" "distinct (block_hashes r)" "\<not> skip_reading_prefix_cache r"
  shows "\<exists>l bl k'. get_computed_blocks k r = Some (Inr (bl, int (length l) * bs, k'))
    \<and> kb_blocks bl = [l] \<and> is_shared_empty bl = (l = []) \<and> km_coordinator k' = km_coordinator k
    \<and> int (length l) * bs < int (num_tokens r) \<and> distinct l
    \<and> (\<forall>i < length l. hit_at (km_pool k) (PlainHashes (block_hashes r)) [0] i [l ! i])
    \<and> (\<forall>b \<in> set l. 0 < b \<and> b < num_gpu_blocks (km_pool k) \<and> hash_of (km_pool k) b \<noteq> None)
    \<and> (\<exists>q. longest_run (km_pool k) (PlainHashes (block_hashes r)) [0] ((int (num_tokens r) - 1) div bs) q
         \<and> length l = (if co_use_eagle (km_coordinator k) then q - 1 else q))"
proof -
  let ?c = "km_coordinator k" and ?v = "PlainHashes (block_hashes r)" and ?L = "int (num_tokens r) - 1"
  obtain g where g: "co_kind ?c = Unitary bs 1 1" "kv_cache_groups (co_config ?c) = [g]" "group_spec g = mg_spec m"
    and sp: "is_full_attention (mg_spec m)" "block_size (mg_spec m) = bs" "bs > 0" "num_kv_cache_groups k = 1"
    using u by (auto simp: unitary_full_def split: list.splits)
  have ok: "search_ok {} (co_pool ?c) ?v [0]"
    using wf by (auto simp: search_ok_def kv_wf_def kv_inv_def view_at_def view_len_def)
  obtain n comps where H: "full_find_longest_cache_hit ?v ?L [0] (co_pool ?c) (mg_spec m) (co_use_eagle ?c) bs 1 1 = Inr comps"
    "comps_ok [0] n comps" "\<forall>i < n. hit_at (co_pool ?c) ?v [0] i (col comps i)" "int n * bs \<le> ?L"
    "\<exists>q. longest_run (co_pool ?c) ?v [0] (?L div bs) q \<and> n = (if co_use_eagle ?c then q - 1 else q)"
    using full_hit_law [OF ok sp(1) _ sp(2,3), of 1 1 ?L "co_use_eagle ?c" bs] r(1) by auto
  obtain l where l: "comps = [l]" "length l = n" using H(2) by (auto simp: comps_ok_def length_Suc_conv)
  have hits: "\<forall>i < n. hit_at (co_pool ?c) ?v [0] i [l ! i]" using H(3) by (simp add: l col_def)
  have D: "distinct l" "\<forall>b \<in> set l. 0 < b \<and> b < num_gpu_blocks (co_pool ?c) \<and> hash_of (co_pool ?c) b \<noteq> None"
    using distinct_hits [OF hits _ r(2)] l(2) by auto
  have find: "co_find_longest_cache_hit ?c (block_hashes r) ?L = Some (Inr ([l], int n * bs))"
    using H(1) by (simp add: co_find_longest_cache_hit_def g full_dispatch [OF sp(1)] l first_comp_def)
  let ?mk = "\<lambda>k'. create_kv_cache_blocks k' [l]"
  have mk: "kb_blocks (?mk k') = [l] \<and> is_shared_empty (?mk k') = (l = [])" if "num_kv_cache_groups k' = 1" for k'
    using that by (simp add: create_kv_cache_blocks_def empty_kv_cache_blocks_def)
  define k' where "k' = (if km_log_stats k then k\<lparr>km_prefix_cache_stats :=
      Some (stats_record (int (num_tokens r)) (int n * bs) (num_preemptions r > 0) (the (km_prefix_cache_stats k)))\<rparr> else k)"
  have "get_computed_blocks k r = Some (Inr (?mk k', int n * bs, k'))"
    using k r(3) by (auto simp: get_computed_blocks_def find k'_def Let_def)
  moreover have "km_coordinator k' = ?c" "num_kv_cache_groups k' = 1" using sp(4) by (simp_all add: k'_def)
  ultimately show ?thesis
    using mk [of k'] H(4,5) D hits l(2)
    by (intro exI [of _ l] exI [of _ "?mk k'"] exI [of _ k']) (simp del: if_split)
qed

text \<open>
  C9: \<^verbatim>\<open>get_computed_blocks\<close> on a model with one full attention group. The search ends and returns blocks
  that are cached under the hashes of the request's leading blocks, all different and none of them
  the null block; the hit never covers the whole prompt, so at least one token is left to compute.
  Its length is that of the longest run of cached leading blocks (which stops at the length limit, at the
  end of the hashes or at the first block that is not cached), or one block less with EAGLE, whose
  last matching block is recomputed.
\<close>

theorem get_computed_blocks_correct:
  assumes "kv_wf {} (single_type_managers (km_coordinator k)) (km_pool k)" "unitary_full k m bs"
    and "km_enable_caching k" "km_log_stats k \<longrightarrow> km_prefix_cache_stats k \<noteq> None"
    and "num_tokens r > 0" "distinct (block_hashes r)" "\<not> skip_reading_prefix_cache r"
  shows "\<exists>l bl k'. get_computed_blocks k r = Some (Inr (bl, int (length l) * bs, k'))
    \<and> kb_blocks bl = [l] \<and> int (length l) * bs < int (num_tokens r) \<and> distinct l
    \<and> (\<forall>i < length l. hit_at (km_pool k) (PlainHashes (block_hashes r)) [0] i [l ! i])
    \<and> (\<exists>q. longest_run (km_pool k) (PlainHashes (block_hashes r)) [0] ((int (num_tokens r) - 1) div bs) q
         \<and> length l = (if co_use_eagle (km_coordinator k) then q - 1 else q))"
  using lookup_law [OF assms] by (elim exE conjE) blast

lemma example_running_unitary:
  "unitary_full example_running (hd (single_type_managers (km_coordinator example_running))) 2"
  by code_simp

theorem get_computed_blocks_correct_witness:
  "case get_computed_blocks example_running second_request of
     Some (Inr (bl, n, k')) \<Rightarrow> kb_blocks bl = [[1, 2]] \<and> n = 4
       \<and> longest_run (km_pool example_running) (PlainHashes (block_hashes second_request)) [0] 2 2
   | _ \<Rightarrow> False"
proof -
  let ?k = example_running and ?r = second_request
  have f: "km_enable_caching ?k" "km_log_stats ?k \<longrightarrow> km_prefix_cache_stats ?k \<noteq> None"
    "num_tokens ?r > 0" "distinct (block_hashes ?r)" "\<not> skip_reading_prefix_cache ?r"
    "num_tokens ?r = 5" "\<not> co_use_eagle (km_coordinator ?k)" by code_simp+
  have run: "case get_computed_blocks ?k ?r of Some (Inr (bl, n, k')) \<Rightarrow> kb_blocks bl = [[1, 2]] \<and> n = 4 | _ \<Rightarrow> False"
    by code_simp
  show ?thesis
    using get_computed_blocks_correct [OF example_running_wf example_running_unitary f(1-5)] f(6,7) run
    by (auto simp: eval_nat_numeral)
qed

section \<open>Admission of a new request\<close>

text \<open>The hit of a lookup is admissible for the allocation.\<close>

lemma lookup_admissible:
  assumes wf: "kv_wf {} [m] p" and full: "is_full_attention (mg_spec m)" "mg_enable_caching m"
    and new: "map_of (num_cached_block m) rid = None" "blocks_of m rid = []"
    and l: "distinct l" "\<forall>b \<in> set l. 0 < b \<and> b < num_gpu_blocks p \<and> hash_of p b \<noteq> None"
  shows "slots_pre {} [m] p rid tc (l \<noteq> []) [l]"
proof -
  have "row_ok {} (num_gpu_blocks p) l" using l by (auto simp: row_ok_def)
  then show ?thesis using wf full new l full_plain [of m tc]
    by (auto simp: slots_pre_def hit_ok_def entry_state_def)
qed

text \<open>With full attention nothing is skipped, so that nothing is removed before the allocation.\<close>

lemma full_remove:
  assumes "single_type_managers c = [m]" "is_full_attention (mg_spec m)"
  shows "co_remove_skipped_blocks c rid t = Inr c"
  using assms full_plain [of m t]
  by (cases "mg_spec m") (simp_all add: co_remove_skipped_blocks_def on_managers_def remove_skipped_blocks_def
      base_remove_skipped_blocks_def)

text \<open>The free blocks are the evictable hits and the free blocks outside the hit.\<close>

lemma evictable_exact:
  assumes core: "pool_core {} p" and l: "distinct l" "\<forall>b \<in> set l. 0 < b \<and> b < num_gpu_blocks p"
  shows "get_num_evictable_blocks p l + int (length (filter (\<lambda>x. x \<notin> set l) (free_list p))) = int (length (free_list p))"
proof -
  have ev: "get_num_evictable_blocks p l = int (length (filter (\<lambda>a. a \<in> set (free_list p)) l))"
    unfolding get_num_evictable_blocks_def
    using l(2) pool_free_iff [OF core] pool_coreD(11) [OF core] by (auto intro!: arg_cong [of _ _ length] filter_cong)
  have "length (filter (\<lambda>a. a \<in> set (free_list p)) l) = card (set l \<inter> set (free_list p))"
    using distinct_card [OF distinct_filter [OF l(1)], of "\<lambda>a. a \<in> set (free_list p)"]
    by (simp add: Int_def conj_commute)
  also have "\<dots> = length (filter (\<lambda>x. x \<in> set l) (free_list p))"
    using distinct_card [OF distinct_filter [OF pool_coreD(8) [OF core]], of "\<lambda>x. x \<in> set l"]
    by (simp add: Int_def conj_commute)
  finally show ?thesis using ev sum_length_filter_compl [of "\<lambda>x. x \<in> set l" "free_list p"] by simp
qed

text \<open>Blocks that enter the row of a request gain one reference each.\<close>

lemma row_gains_reference:
  assumes wf: "kv_wf {} [m] p" "kv_wf {} [m'] p'" and kept: "others_kept rid m m'"
    and rows: "blocks_of m rid = []" "b \<in> set (blocks_of m' rid)" "0 < b" "b < num_gpu_blocks p"
    and n: "num_gpu_blocks p' = num_gpu_blocks p"
  shows "refs p' b = refs p b + 1 \<and> b \<notin> set (free_list p')"
proof -
  have "od_wf (req_to_blocks m)" "od_wf (req_to_blocks m')" "row_ok {} (num_gpu_blocks p') (blocks_of m' rid)"
    using wf by (auto simp: kv_wf_def kv_inv_def table_ok_def)
  then have d: "held m' b = held m b + count_list (blocks_of m' rid) b" and row: "distinct (filter (\<lambda>a. a \<noteq> 0) (blocks_of m' rid))"
    using held_one_row [of m m' rid b] kept rows(1) by (auto simp: others_kept_def row_ok_def)
  have "distinct (filter (\<lambda>a. a \<noteq> 0) xs) \<Longrightarrow> b \<in> set xs \<Longrightarrow> count_list xs b = 1" for xs
    using rows(3) by (induction xs) (auto split: if_splits)
  then have "count_list (blocks_of m' rid) b = 1" using row rows(2) by blast
  then have "refs p' b = refs p b + 1" "0 \<le> refs p b" using d wf rows n by (auto simp: kv_wf_def kv_inv_def)
  then show ?thesis using pool_free_iff [of "{}" p' b] wf(2) by (auto simp: kv_wf_def kv_inv_def)
qed

text \<open>The allocation law for one full attention group and a request that is new to it.\<close>

lemma admission_law:
  assumes wf: "kv_wf {} [m] (km_pool k)" and ms: "single_type_managers (km_coordinator k) = [m]"
    and full: "is_full_attention (mg_spec m)" "mg_enable_caching m" and rid: "rid = request_id r"
    and new: "map_of (num_cached_block m) rid = None" "blocks_of m rid = []" "num_computed_tokens r = 0"
    and c: "cache_pre (km_pool k) r (km_max_model_len k) m" and num: "num_new > 0" "look \<ge> 0" "0 \<le> n"
    and bl: "kb_blocks bl = [l]" "is_shared_empty bl = (l = [])" "distinct l"
      "\<forall>b \<in> set l. 0 < b \<and> b < num_gpu_blocks (km_pool k) \<and> hash_of (km_pool k) b \<noteq> None"
    and need: "need = min (min n (km_max_model_len k) + num_new + look) (km_max_model_len k)"
    and fresh: "fresh = filter (\<lambda>x. x \<notin> set l) (free_list (km_pool k))"
    and missing: "missing = max 0 (cdiv need (mg_block_size m) - int (length l))"
  shows "\<exists>res k' m' r'. allocate_slots E k r num_new n (Some bl) look 0 delay n_enc = Inr (res, k', r')
    \<and> single_type_managers (km_coordinator k') = [m'] \<and> kv_wf {} [m'] (km_pool k') \<and> others_kept rid m m'
    \<and> num_gpu_blocks (km_pool k') = num_gpu_blocks (km_pool k)
    \<and> (res = None \<longleftrightarrow> int (length fresh) < missing) \<and> (res = None \<longrightarrow> k' = k)
    \<and> (res \<noteq> None \<longrightarrow> (\<exists>new. blocks_of m' rid = l @ new \<and> int (length new) = missing
         \<and> fresh = new @ free_list (km_pool k')))"
proof -
  let ?att = "l \<noteq> []" and ?p = "km_pool k"
  have core: "pool_core {} ?p" using wf by (simp add: kv_wf_def kv_inv_def)
  have pre: "slots_pre {} [m] ?p rid n (\<not> is_shared_empty bl) (kb_blocks bl)"
    using lookup_admissible [OF wf full new(1,2) bl(3,4)] by (simp add: bl)
  have full_m: "get_num_skipped_tokens m t = 0" for t using full_plain [OF full(1)] by simp
  have st: "start_row rid n ?att m l = l" "unhit rid n ?att [m] [l] = (\<lambda>x. x \<notin> set l)"
    "start_len rid n ?att m l = length l" "start_evict ?p rid n ?att m l = get_num_evictable_blocks ?p l"
    using new(1,2) full_m
    by (auto simp: fun_eq_iff start_row_def attached_def initial_row_def unhit_def taken_hits_def start_len_def start_evict_def
        get_num_evictable_blocks_def)
  have count: "total_count [m] ?p rid need n ?att [l] = missing + get_num_evictable_blocks ?p l"
    by (simp add: total_count_def st row_need_def missing)
  have few: "int (length (free_list ?p)) < total_count [m] ?p rid need n ?att [l] \<longleftrightarrow> int (length fresh) < missing"
    using evictable_exact [OF core bl(3)] bl(4) by (auto simp: count fresh)
  have rem: "co_remove_skipped_blocks (km_coordinator k) rid t = Inr (km_coordinator k)" for t
    by (rule full_remove [OF ms full(1)])
  have bl': "block_list k (Some bl) = bl" by (simp add: block_list_def)
  obtain res k' r' where A: "allocate_slots E k r num_new n (Some bl) look 0 delay n_enc = Inr (res, k', r')"
    "kv_wf {} (single_type_managers (km_coordinator k')) (km_pool k')"
    "list_all2 (others_kept rid) [m] (single_type_managers (km_coordinator k'))"
    "res = None \<longleftrightarrow> int (length fresh) < missing" "res = None \<longrightarrow> k' = k"
    "res \<noteq> None \<longrightarrow> (\<exists>news. slots_taken rid need n ?att [m] ?p [l] news
       (single_type_managers (km_coordinator k')) (km_pool k'))"
    "same_config ?p (km_pool k')"
    using allocate_slots_law [of bl k "Some bl" "[m]" n r n _ num_new need look "{}" delay E n_enc, OF _ _ _ refl]
      pre c num need new(3) bl(1,2) few rem by (simp add: bl' ms rid [symmetric]) fastforce
  obtain m' where m': "single_type_managers (km_coordinator k') = [m']" "others_kept rid m m'"
    using A(3) by (auto simp: list_all2_Cons1)
  have "\<exists>new. blocks_of m' rid = l @ new \<and> int (length new) = missing \<and> fresh = new @ free_list (km_pool k')"
    if ok: "res \<noteq> None"
  proof -
    obtain news where "slots_taken rid need n ?att [m] ?p [l] news [m'] (km_pool k')"
      using A(6) ok m'(1) by auto
    moreover obtain new where "news = [new]"
      using calculation by (auto simp: slots_taken_def length_Suc_conv)
    ultimately show ?thesis
      by (simp add: slots_taken_def allocated_def st row_need_def missing fresh)
  qed
  then show ?thesis using A(1,2,4,5,7) m'
    by (intro exI [of _ res] exI [of _ k'] exI [of _ m'] exI [of _ r']) (simp add: same_config_def)
qed

text \<open>
  C3: admission of a new request on a model with one full attention group, from the prefix cache lookup to
  the allocation. The blocks \<open>l\<close> found by \<^verbatim>\<open>get_computed_blocks\<close> are cached under the request's leading
  hashes and are handed to \<^verbatim>\<open>allocate_slots\<close>, which never raises, keeps the ownership invariant and
  leaves every other request alone. It returns \<open>None\<close> exactly when the free blocks that are not hits
  are fewer than the blocks missing for the hit, the new tokens and the lookahead (capped at the
  model length), and then the manager is unchanged. Otherwise the row of the request is \<open>l\<close> followed by exactly the
  missing blocks, which are the first free blocks outside the hit, and every hit block has gained one
  reference and is not free.
\<close>

theorem admit_new_request_correct:
  assumes wf: "kv_wf {} (single_type_managers (km_coordinator k)) (km_pool k)" and u: "unitary_full k m bs"
    and k: "km_enable_caching k" "km_log_stats k \<longrightarrow> km_prefix_cache_stats k \<noteq> None"
    and r: "num_tokens r > 0" "distinct (block_hashes r)" "\<not> skip_reading_prefix_cache r"
    and new: "map_of (num_cached_block m) (request_id r) = None" "blocks_of m (request_id r) = []"
      "num_computed_tokens r = 0"
    and c: "cache_pre (km_pool k) r (km_max_model_len k) m" and num_new: "num_new > 0" "look \<ge> 0"
  shows "\<exists>l bl k' res k'' m'' r'. get_computed_blocks k r = Some (Inr (bl, int (length l) * bs, k'))
    \<and> kb_blocks bl = [l] \<and> (\<forall>i < length l. hit_at (km_pool k) (PlainHashes (block_hashes r)) [0] i [l ! i])
    \<and> allocate_slots E k' r num_new (int (length l) * bs) (Some bl) look 0 delay n_enc = Inr (res, k'', r')
    \<and> single_type_managers (km_coordinator k'') = [m''] \<and> kv_wf {} [m''] (km_pool k'')
    \<and> others_kept (request_id r) m m''
    \<and> (let need = min (min (int (length l) * bs) (km_max_model_len k) + num_new + look) (km_max_model_len k);
           fresh = filter (\<lambda>x. x \<notin> set l) (free_list (km_pool k));
           missing = max 0 (cdiv need bs - int (length l))
       in (res = None \<longleftrightarrow> int (length fresh) < missing) \<and> (res = None \<longrightarrow> k'' = k')
         \<and> (res \<noteq> None \<longrightarrow> (\<exists>new. blocks_of m'' (request_id r) = l @ new \<and> int (length new) = missing
              \<and> fresh = new @ free_list (km_pool k'')
              \<and> (\<forall>b \<in> set l. refs (km_pool k'') b = refs (km_pool k) b + 1
                   \<and> b \<notin> set (free_list (km_pool k''))))))"
proof -
  have ms: "single_type_managers (km_coordinator k) = [m]" and full: "is_full_attention (mg_spec m)" "mg_enable_caching m"
    and bs: "bs > 0" "mg_block_size m = bs" using u by (auto simp: unitary_full_def)
  obtain l bl k' where L: "get_computed_blocks k r = Some (Inr (bl, int (length l) * bs, k'))"
    "kb_blocks bl = [l]" "is_shared_empty bl = (l = [])" "km_coordinator k' = km_coordinator k" "distinct l"
    "\<forall>b \<in> set l. 0 < b \<and> b < num_gpu_blocks (km_pool k) \<and> hash_of (km_pool k) b \<noteq> None"
    "\<forall>i < length l. hit_at (km_pool k) (PlainHashes (block_hashes r)) [0] i [l ! i]"
    using lookup_law [OF wf u k r] by (elim exE conjE) (rule that)
  have same: "km_max_model_len k' = km_max_model_len k"
    using L(1) by (auto simp: get_computed_blocks_def Let_def split: if_splits option.splits sum.splits)
  let ?n = "int (length l) * bs" and ?rid = "request_id r"
  define need where "need = min (min ?n (km_max_model_len k) + num_new + look) (km_max_model_len k)"
  define fresh where "fresh = filter (\<lambda>x. x \<notin> set l) (free_list (km_pool k))"
  define missing where "missing = max 0 (cdiv need bs - int (length l))"
  have wf1: "kv_wf {} [m] (km_pool k')" and ms1: "single_type_managers (km_coordinator k') = [m]"
    using wf by (simp_all add: ms L(4))
  obtain res k'' m'' r' where A: "allocate_slots E k' r num_new ?n (Some bl) look 0 delay n_enc = Inr (res, k'', r')"
    "single_type_managers (km_coordinator k'') = [m'']" "kv_wf {} [m''] (km_pool k'')" "others_kept ?rid m m''"
    "num_gpu_blocks (km_pool k'') = num_gpu_blocks (km_pool k)" "res = None \<longleftrightarrow> int (length fresh) < missing" "res = None \<longrightarrow> k'' = k'"
    "res \<noteq> None \<longrightarrow> (\<exists>new. blocks_of m'' ?rid = l @ new \<and> int (length new) = missing
         \<and> fresh = new @ free_list (km_pool k''))"
    using admission_law [OF wf1 ms1 full refl new, of num_new look ?n bl l need fresh missing E delay n_enc]
      c num_new bs L same by (simp add: need_def fresh_def missing_def) blast
  have "refs (km_pool k'') b = refs (km_pool k) b + 1 \<and> b \<notin> set (free_list (km_pool k''))"
    if "b \<in> set l" "res \<noteq> None" for b
    using row_gains_reference [OF wf1 A(3,4) new(2), of b] that A(5,8) L(4,6) by auto
  then have fin: "res \<noteq> None \<longrightarrow> (\<exists>new. blocks_of m'' ?rid = l @ new \<and> int (length new) = missing
      \<and> fresh = new @ free_list (km_pool k'')
      \<and> (\<forall>b \<in> set l. refs (km_pool k'') b = refs (km_pool k) b + 1 \<and> b \<notin> set (free_list (km_pool k''))))"
    using A(8) by blast
  show ?thesis
    unfolding Let_def
    by (intro exI conjI) (rule L(1) L(2) L(7) A(1-4) A(6,7) [unfolded missing_def fresh_def need_def]
        fin [unfolded missing_def fresh_def need_def])+
qed

theorem admit_new_request_correct_witness:
  "case get_computed_blocks example_running second_request of
     Some (Inr (bl, n, k')) \<Rightarrow> kb_blocks bl = [[1, 2]] \<and> n = 4
       \<and> (case allocate_slots example_env k' second_request 1 n (Some bl) 0 0 False 0 of
            Inr (res, k'', r') \<Rightarrow> kv_wf {} (single_type_managers (km_coordinator k'')) (km_pool k'')
              \<and> co_get_blocks (km_coordinator k'') ''b'' = [[1, 2, 4]]
              \<and> co_get_blocks (km_coordinator k'') ''a'' = [[1, 2, 3]]
          | Inl e \<Rightarrow> False)
   | _ \<Rightarrow> False"
proof -
  let ?k = example_running and ?r = second_request
  let ?m = "hd (single_type_managers (km_coordinator ?k))"
  have u: "unitary_full ?k ?m 2" by code_simp
  have f: "km_enable_caching ?k" "km_log_stats ?k \<longrightarrow> km_prefix_cache_stats ?k \<noteq> None"
    "num_tokens ?r > 0" "distinct (block_hashes ?r)" "\<not> skip_reading_prefix_cache ?r"
    "map_of (num_cached_block ?m) (request_id ?r) = None" "blocks_of ?m (request_id ?r) = []"
    "num_computed_tokens ?r = 0" "cache_pre (km_pool ?k) ?r (km_max_model_len ?k) ?m" by code_simp+
  have run: "case get_computed_blocks ?k ?r of
     Some (Inr (bl, n, k')) \<Rightarrow> kb_blocks bl = [[1, 2]] \<and> n = 4
       \<and> (case allocate_slots example_env k' ?r 1 n (Some bl) 0 0 False 0 of
            Inr (res, k'', r') \<Rightarrow> co_get_blocks (km_coordinator k'') ''b'' = [[1, 2, 4]]
              \<and> co_get_blocks (km_coordinator k'') ''a'' = [[1, 2, 3]]
          | Inl e \<Rightarrow> False)
   | _ \<Rightarrow> False" by code_simp
  obtain bl n k' res k'' r' where A: "get_computed_blocks ?k ?r = Some (Inr (bl, n, k'))"
    "allocate_slots example_env k' ?r 1 n (Some bl) 0 0 False 0 = Inr (res, k'', r')"
    "kv_wf {} (single_type_managers (km_coordinator k'')) (km_pool k'')"
    using admit_new_request_correct [OF example_running_wf u f, of 1 0 example_env False 0] by auto
  then show ?thesis using run by simp
qed

section \<open>An idle manager\<close>

text \<open>
  C15: when no request holds blocks, all blocks but the null block are free, the reported usage is zero
  and \<^verbatim>\<open>reset_prefix_cache\<close> succeeds and forgets every hash; while some request holds a block, the usage is
  between zero and one and the reset is refused without any effect.
\<close>

theorem idle_manager_resets:
  assumes wf: "kv_wf {} (single_type_managers (km_coordinator k)) (km_pool k)"
    and n: "num_gpu_blocks (km_pool k) > 1" and stats: "km_log_stats k \<longrightarrow> km_prefix_cache_stats k \<noteq> None"
    and busy: "busy = (\<exists>a. 0 < a \<and> a < num_gpu_blocks (km_pool k) \<and> held_all (single_type_managers (km_coordinator k)) a > 0)"
  shows "0 \<le> usage k \<and> usage k \<le> 1 \<and> (usage k = 0 \<longleftrightarrow> \<not> busy)
    \<and> (\<exists>k'. km_reset_prefix_cache k = Inr (\<not> busy, k')
         \<and> (busy \<longrightarrow> k' = k)
         \<and> (\<not> busy \<longrightarrow> cached_block_hash_to_block (km_pool k') = []
              \<and> (\<forall>a < num_gpu_blocks (km_pool k). hash_of (km_pool k') a = None)))"
proof -
  let ?p = "km_pool k" and ?N = "num_gpu_blocks (km_pool k)"
  have core: "pool_core {} ?p" and refs: "\<And>a. 0 < a \<and> a < ?N \<Longrightarrow>
      refs ?p a = int (held_all (single_type_managers (km_coordinator k)) a)"
    using wf by (auto simp: kv_wf_def kv_inv_def)
  have set: "set (free_list ?p) = {a. 0 < a \<and> a < ?N \<and> held_all (single_type_managers (km_coordinator k)) a = 0}"
  proof (rule set_eqI)
    fix a show "a \<in> set (free_list ?p) \<longleftrightarrow>
        a \<in> {a. 0 < a \<and> a < ?N \<and> held_all (single_type_managers (km_coordinator k)) a = 0}"
      using pool_free_iff [OF core, of a] refs [of a] by (cases "0 < a \<and> a < ?N") auto
  qed
  have len: "length (free_list ?p) = card (set (free_list ?p))"
    using pool_coreD(8) [OF core] by (simp add: distinct_card)
  have sub: "set (free_list ?p) \<subseteq> {1..<?N}" by (auto simp: set)
  then have le: "length (free_list ?p) \<le> ?N - 1" using card_mono [OF _ sub] len by simp
  have all: "length (free_list ?p) + 1 = ?N \<longleftrightarrow> \<not> busy"
  proof -
    have c: "length (free_list ?p) = ?N - 1 \<longleftrightarrow> set (free_list ?p) = {1..<?N}"
      using card_subset_eq [OF _ sub] len by auto
    have h: "{a. 0 < a \<and> a < N \<and> H a = 0} = {1..<N} \<longleftrightarrow> \<not> (\<exists>a. 0 < a \<and> a < N \<and> H a > 0)"
      for N and H :: "nat \<Rightarrow> nat"
    proof -
      have "(0 < x \<and> x < N \<and> H x = 0) = (0 < x \<and> x < N) \<longleftrightarrow> (x < N \<longrightarrow> x = 0 \<or> H x = 0)" for x by linarith
      then show ?thesis by (simp add: set_eq_iff Suc_le_eq)
    qed
    have "length (free_list ?p) + 1 = ?N \<longleftrightarrow> length (free_list ?p) = ?N - 1" using n by linarith
    then show ?thesis unfolding busy c set h .
  qed
  have use: "usage k = 1 - of_nat (length (free_list ?p)) / of_nat (?N - 1)"
    using n pool_coreD(9) [OF core] by (simp add: usage_def get_usage_def Let_def of_nat_diff)
  have frac: "0 \<le> usage k" "usage k \<le> 1" using le n by (simp_all add: use divide_le_eq)
  have zero: "usage k = 0 \<longleftrightarrow> \<not> busy" using n le all by (auto simp: use field_simps)
  obtain ok p' where res: "reset_prefix_cache ?p = (ok, p')" by fastforce
  note L = reset_prefix_cache_law [OF core res]
  have ok: "ok = (\<not> busy)" using L all by simp
  show ?thesis
  proof (cases busy)
    case True
    then have "km_reset_prefix_cache k = Inr (False, k)" using res L ok by (simp add: km_reset_prefix_cache_def)
    then show ?thesis using True frac zero by simp
  next
    case False
    then show ?thesis using res L ok stats frac zero
      by (auto simp: km_reset_prefix_cache_def Let_def)
  qed
qed

theorem idle_manager_resets_witness:
  "usage example_manager = 0
   \<and> (case km_reset_prefix_cache example_manager of Inl e \<Rightarrow> False
      | Inr (ok, k') \<Rightarrow> ok \<and> cached_block_hash_to_block (km_pool k') = [])"
proof -
  let ?k = example_manager
  have f: "num_gpu_blocks (km_pool ?k) > 1" "km_log_stats ?k \<longrightarrow> km_prefix_cache_stats ?k \<noteq> None"
    by (simp_all del: not_None_eq) code_simp+
  have idle: "False = (\<exists>a. 0 < a \<and> a < num_gpu_blocks (km_pool ?k)
      \<and> held_all (single_type_managers (km_coordinator ?k)) a > 0)"
    by (simp add: example_tables_def [symmetric] example_tables_eq held_all_def held_def base_manager_init_def)
  show ?thesis using idle_manager_resets [OF example_manager_wf f idle] by auto
qed

end
