(* ===== verification/Hybrid_Hit.thy ===== *)
theory Hybrid_Hit
  imports KV_Cache_Coordinator
begin

text \<open>
  The cache hit of a hybrid model (\<^verbatim>\<open>HybridKVCacheCoordinator.find_longest_cache_hit\<close>): the fixed-point
  iteration ends, and the hits of all groups have the same length in tokens. The lemmas on the single
  searches are about their shape only and hold for any pool and any hashes.
\<close>

section \<open>Shape of a single search\<close>

text \<open>Same number of blocks for every group, at most \<open>L\<close> tokens, aligned.\<close>

definition fits :: "int list \<Rightarrow> int \<Rightarrow> int \<Rightarrow> int \<Rightarrow> nat list list \<Rightarrow> bool" where
  "fits gids bs al L comps \<longleftrightarrow>
     (\<exists>n. comps_ok gids n comps \<and> int n * bs \<le> L \<and> (int n * bs) mod al = 0)"

lemma length_get_cached_block:
  "get_cached_block p h gids = Inr (Some cs) \<Longrightarrow> length cs = length gids"
  by (induction gids arbitrary: cs) (auto split: option.splits)

lemma length_cached_at: "cached_at p view gids i = Inr (Some cs) \<Longrightarrow> length cs = length gids"
  using length_get_cached_block by (auto simp: cached_at_def split: if_splits)

lemma hit_loop_shape:
  assumes "hit_loop p view gids is comps = Inr c" "comps_ok gids n comps"
  shows "\<exists>k. comps_ok gids k c \<and> n \<le> k \<and> k \<le> n + length is"
  using assms
proof (induction "is" arbitrary: comps n)
  case Nil
  then show ?case by auto
next
  case (Cons i "is")
  then obtain r where r: "cached_at p view gids i = Inr r"
    "(case r of None \<Rightarrow> Inr comps | Some cs \<Rightarrow> hit_loop p view gids is (append_cached comps cs)) = Inr c" by auto
  show ?case
  proof (cases r)
    case None
    then show ?thesis using r Cons.prems by auto
  next
    case (Some cs)
    then have "comps_ok gids (Suc n) (append_cached comps cs)"
      using r length_cached_at Cons.prems(2) by (intro col_append_cached(1)) auto
    then show ?thesis using Cons.IH [of "append_cached comps cs" "Suc n"] r Some by fastforce
  qed
qed

lemma fits_take:
  assumes "comps_ok gids n comps" "k \<le> n" "int k * bs \<le> L" "(int k * bs) mod al = 0"
  shows "fits gids bs al L (map (take k) comps)"
  using assms comps_ok_take(1) [of gids n comps k] by (auto simp: fits_def)

lemma tokens_le:
  assumes "bs > 0" "k \<le> n" "int n * bs \<le> L"
  shows "int k * bs \<le> L"
  using assms mult_right_mono [of "int k" "int n" bs] by linarith

lemma fits_align:
  assumes c: "comps_ok gids n comps" "gids \<noteq> []" and b: "bs > 0" "int n * bs \<le> L"
  shows "fits gids bs al L (align_pop bs al comps)"
proof -
  obtain k where k: "k \<le> n" "align_pop bs al comps = map (take k) comps"
    "bs \<noteq> al \<longrightarrow> (int k * bs) mod al = 0"
    using align_pop_law [OF c, of bs al] by (elim exE conjE) (rule that)
  then have "(int k * bs) mod al = 0" by (cases "bs = al") auto
  then show ?thesis unfolding k(2) using k(1) tokens_le [OF b(1) k(1) b(2)] by (intro fits_take [OF c(1)]) auto
qed

lemma blocks_le:
  assumes "bs > 0" "int n \<le> L div bs"
  shows "int n * bs \<le> L"
  using assms le_div_iff by blast

lemma full_fits:
  assumes r: "full_find_longest_cache_hit view L gids p spec use_eagle al 1 1 = Inr comps"
    and g: "gids \<noteq> []" and b: "block_size spec = bs" "bs > 0"
  shows "fits gids bs al L comps"
proof -
  let ?m = "min (nat (L div bs)) (view_len view)" and ?start = "replicate (length gids) []"
  obtain c where c: "hit_loop p view gids [0..<?m] ?start = Inr c" and m: "L div bs \<ge> 0"
    and rest: "res_bind (eagle_pop use_eagle c) (\<lambda>c1. if bs \<noteq> al
       then res_bind (first_comp c1) (\<lambda>_. Inr (align_pop bs al c1)) else Inr c1) = Inr comps"
    using r b by (auto simp: full_find_longest_cache_hit_def Let_def)
  have "comps_ok gids 0 ?start" by (auto simp: comps_ok_def)
  then obtain k where k: "comps_ok gids k c" "k \<le> ?m" using hit_loop_shape [OF c] by fastforce
  define k1 where "k1 = (if use_eagle then k - 1 else k)"
  define c1 where "c1 = map (take k1) c"
  have c1: "comps_ok gids k1 c1" "k1 \<le> ?m"
    using comps_ok_take(1) [OF k(1), of k1] k(2) by (auto simp: c1_def k1_def)
  have e: "eagle_pop use_eagle c = Inr c1" using eagle_pop_law [OF k(1) g, of use_eagle] by (simp add: c1_def k1_def)
  have "int k1 * bs \<le> L" using c1(2) m by (intro blocks_le [OF b(2)]) (simp add: le_nat_iff)
  then show ?thesis
  proof (cases "bs = al")
    case True
    then have "comps = c1" using rest e by simp
    then show ?thesis using c1(1) \<open>int k1 * bs \<le> L\<close> True by (auto simp: fits_def)
  next
    case False
    then have "comps = align_pop bs al c1" using rest e by auto
    then show ?thesis using fits_align [OF c1(1) g b(2) \<open>int k1 * bs \<le> L\<close>] by simp
  qed
qed

lemma sw_loop_shape:
  assumes "sw_loop p view gids need bs al k comps n = Inr (c, n', found)" "comps_ok gids mx comps" "k + n \<le> mx"
    and "n > 0 \<and> bs \<noteq> al \<longrightarrow> (int (k + n) * bs) mod al = 0"
  shows "if found then \<exists>j \<le> mx. comps_ok gids j c \<and> (bs \<noteq> al \<longrightarrow> (int j * bs) mod al = 0)
    else comps_ok gids mx c \<and> n' \<le> mx"
  using assms
proof (induction k arbitrary: comps n)
  case 0
  then show ?case by simp
next
  case (Suc i)
  obtain r where r: "cached_at p view gids i = Inr r" using Suc.prems(1) by auto
  show ?case
  proof (cases r)
    case None
    then show ?thesis using Suc.IH [of comps 0] Suc.prems r by simp
  next
    case (Some cs)
    have len: "length cs = length gids" using length_cached_at r Some by simp
    show ?thesis
    proof (cases "n = 0 \<and> bs \<noteq> al \<and> (int (i + 1) * bs) mod al \<noteq> 0")
      case True
      then show ?thesis using Suc.IH [of comps n] Suc.prems r Some by simp
    next
      case False
      define c1 where "c1 = map2 (\<lambda>l b. l[i := b]) comps cs"
      have c1: "comps_ok gids mx c1"
        using Suc.prems(2) len by (auto simp: comps_ok_def c1_def set_zip)
      have al: "bs \<noteq> al \<longrightarrow> (int (i + (n + 1)) * bs) mod al = 0"
        using False Suc.prems(4) by (cases "n = 0") (auto simp: algebra_simps)
      have step: "sw_loop p view gids need bs al (Suc i) comps n =
          (if int (n + 1) \<ge> need then Inr (map (take (i + (n + 1))) c1, n + 1, True)
           else sw_loop p view gids need bs al i c1 (n + 1))"
        unfolding sw_loop.simps(2) r Some
        by (simp only: res_bind_simps option.case Let_def c1_def [symmetric] False if_False)
      show ?thesis
      proof (cases "int (n + 1) \<ge> need")
        case True
        then have "c = map (take (i + (n + 1))) c1" "found" using step Suc.prems(1) by auto
        moreover have "comps_ok gids (i + (n + 1)) (map (take (i + (n + 1))) c1)"
          using Suc.prems(3) by (intro comps_ok_take(1) [OF c1]) simp
        ultimately show ?thesis using al Suc.prems(3) by (auto intro!: exI [of _ "i + (n + 1)"])
      next
        case False
        then show ?thesis using Suc.IH [of c1 "n + 1"] step Suc.prems(1,3) c1 al by simp
      qed
    qed
  qed
qed

lemma mamba_loop_shape:
  assumes "mamba_loop p view gids bs al k (replicate (length gids) []) = Inr c"
  shows "\<exists>n \<le> k. comps_ok gids n c \<and> (bs \<noteq> al \<longrightarrow> (int n * bs) mod al = 0)"
  using assms
proof (induction k)
  case 0
  then show ?case by (auto simp: comps_ok_def)
next
  case (Suc i)
  obtain r where r: "cached_at p view gids i = Inr r" using Suc.prems by auto
  show ?case
  proof (cases "r = None \<or> bs \<noteq> al \<and> (int (i + 1) * bs) mod al \<noteq> 0")
    case True
    then have "mamba_loop p view gids bs al i (replicate (length gids) []) = Inr c"
      using Suc.prems r by (auto split: option.splits)
    then show ?thesis using Suc.IH by (meson le_SucI)
  next
    case False
    then obtain cs where cs: "r = Some cs" by auto
    have len: "length cs = length gids" using length_cached_at r cs by simp
    have "c = map2 (\<lambda>l b. l @ replicate i (null_block p) @ [b]) (replicate (length gids) []) cs"
      using Suc.prems r cs False by auto
    then have "comps_ok gids (Suc i) c" using len by (auto simp: comps_ok_def set_zip)
    then show ?thesis using False cs by (intro exI [of _ "Suc i"]) auto
  qed
qed

lemma sw_fits:
  assumes r: "sw_find_longest_cache_hit view L gids p (SlidingWindowSpec a w) use_eagle al 1 1 = Inr comps"
    and g: "gids \<noteq> []" and b: "a_block_size a = bs" "bs > 0" and L: "L \<ge> 0"
  shows "fits gids bs al L comps"
proof -
  define mx where "mx = nat (L div bs)"
  let ?start = "replicate (length gids) (replicate mx (null_block p))"
  let ?need = "cdiv (w - 1) bs + (if use_eagle then 1 else 0)"
  obtain c n found c2 where c: "sw_loop p view gids ?need bs al mx ?start 0 = Inr (c, n, found)"
    and c2: "(if found then Inr c else (let c1 = map (take n) c in
        if bs \<noteq> al then res_bind (first_comp c1) (\<lambda>_. Inr (align_pop bs al c1)) else Inr c1)) = Inr c2"
    and rest: "(if use_eagle then res_bind (first_comp c2) (\<lambda>c0.
        if c0 \<noteq> [] then Inr (align_pop bs al (map butlast c2)) else Inr c2) else Inr c2) = Inr comps"
    using r b by (auto simp: sw_find_longest_cache_hit_def Let_def mx_def)
  have mxL: "int mx * bs \<le> L" using L b(2) by (intro blocks_le) (simp_all add: mx_def pos_imp_zdiv_nonneg_iff)
  have "comps_ok gids mx ?start" by (auto simp: comps_ok_def)
  note S = sw_loop_shape [OF c this]
  have F2: "fits gids bs al L c2"
  proof (cases found)
    case True
    then obtain j where j: "j \<le> mx" "comps_ok gids j c" "bs \<noteq> al \<longrightarrow> (int j * bs) mod al = 0" using S by auto
    then have "(int j * bs) mod al = 0" by (cases "bs = al") auto
    then show ?thesis using True c2 j(2) tokens_le [OF b(2) j(1) mxL] by (auto simp: fits_def)
  next
    case False
    then have n: "comps_ok gids n (map (take n) c)" "n \<le> mx" using S comps_ok_take(1) by auto
    show ?thesis
    proof (cases "bs = al")
      case True
      then have "c2 = map (take n) c" using False c2 by simp
      then show ?thesis using n(1) tokens_le [OF b(2) n(2) mxL] True by (auto simp: fits_def)
    next
      case neq: False
      then have "c2 = align_pop bs al (map (take n) c)" using False c2 by (auto simp: Let_def)
      then show ?thesis using fits_align [OF n(1) g b(2) tokens_le [OF b(2) n(2) mxL]] by simp
    qed
  qed
  show ?thesis
  proof (cases "comps = c2")
    case True
    then show ?thesis using F2 by simp
  next
    case False
    then have e: "comps = align_pop bs al (map butlast c2)" using rest by (auto split: if_splits)
    obtain k where k: "comps_ok gids k c2" "int k * bs \<le> L" using F2 by (auto simp: fits_def)
    have "comps_ok gids (k - 1) (map butlast c2)"
      unfolding butlast_take_comps [OF k(1)] by (rule comps_ok_take(1) [OF k(1)]) simp
    then show ?thesis unfolding e using tokens_le [OF b(2) _ k(2), of "k - 1"] by (intro fits_align [OF _ g b(2)]) auto
  qed
qed

lemma chunked_fits:
  assumes r: "chunked_find_longest_cache_hit view L gids p (ChunkedLocalAttentionSpec a c) use_eagle al 1 1 = Inr comps"
    and g: "gids \<noteq> []" and b: "a_block_size a = bs" "bs > 0" and L: "L \<ge> 0" and c: "c > 0"
  shows "fits gids bs al L comps"
proof -
  define st where "st = (if L > 0 then L div c * c else 0) div bs"
  define mx where "mx = L div bs"
  have al: "bs = al" and loop: "hit_loop p view gids [nat st..<nat mx]
      (replicate (length gids) (replicate (nat st) (null_block p))) = Inr comps"
    using r b by (auto simp: chunked_find_longest_cache_hit_def Let_def st_def mx_def)
  have "(if L > 0 then L div c * c else 0) \<le> L" using L c by (simp add: minus_mod_eq_div_mult [symmetric])
  then have "st \<le> mx" unfolding st_def mx_def using b(2) by (intro zdiv_mono1) auto
  moreover have "0 \<le> mx" using L b(2) by (simp add: mx_def pos_imp_zdiv_nonneg_iff)
  moreover have "comps_ok gids (nat st) (replicate (length gids) (replicate (nat st) (null_block p)))"
    by (auto simp: comps_ok_def)
  ultimately obtain k where k: "comps_ok gids k comps" "int k \<le> mx"
    using hit_loop_shape [OF loop] by fastforce
  have "int k * bs \<le> L" using k(2) by (intro blocks_le [OF b(2)]) (simp add: mx_def)
  then show ?thesis using k(1) al by (auto simp: fits_def)
qed

text \<open>A spec whose sizes are positive.\<close>

definition sizes_ok :: "kv_cache_spec \<Rightarrow> bool" where
  "sizes_ok s \<longleftrightarrow> block_size s > 0 \<and> (case s of ChunkedLocalAttentionSpec a c \<Rightarrow> c > 0 | _ \<Rightarrow> True)"

lemma mamba_fits:
  assumes r: "mamba_find_longest_cache_hit view L gids p (MambaSpec m) use_eagle al 1 1 = Inr comps"
    and b: "m_block_size m = bs" "bs > 0" and L: "L \<ge> 0"
  shows "fits gids bs al L comps"
proof -
  have "mamba_loop p view gids bs al (nat (L div bs)) (replicate (length gids) []) = Inr comps"
    using r b by (simp add: mamba_find_longest_cache_hit_def)
  from mamba_loop_shape [OF this] obtain n where n: "n \<le> nat (L div bs)" "comps_ok gids n comps"
    "bs \<noteq> al \<longrightarrow> (int n * bs) mod al = 0" by (elim exE conjE) (rule that)
  have "int n * bs \<le> L"
    using n(1) L b(2) by (intro blocks_le) (simp_all add: le_nat_iff pos_imp_zdiv_nonneg_iff)
  moreover have "(int n * bs) mod al = 0" using n(3) by (cases "bs = al") auto
  ultimately show ?thesis using n(2) by (auto simp: fits_def)
qed

lemma search_fits:
  assumes r: "find_longest_cache_hit view L gids p spec use_eagle al 1 1 = Inr comps"
    and g: "gids \<noteq> []" and s: "sizes_ok spec" and L: "L \<ge> 0"
  shows "fits gids (block_size spec) al L comps"
proof (cases "is_full_attention spec")
  case True
  then have "full_find_longest_cache_hit view L gids p spec use_eagle al 1 1 = Inr comps"
    using r by (cases spec) (simp_all add: find_longest_cache_hit_def)
  then show ?thesis using full_fits [OF _ g refl] s by (simp add: sizes_ok_def)
next
  case False
  have b: "block_size spec > 0" using s by (simp add: sizes_ok_def)
  show ?thesis
  proof (cases spec)
    case (SlidingWindowSpec a w)
    then show ?thesis using r b sw_fits [OF _ g refl _ L] by (simp add: find_longest_cache_hit_def)
  next
    case (ChunkedLocalAttentionSpec a c)
    then show ?thesis using r b s chunked_fits [OF _ g refl _ L] by (simp add: find_longest_cache_hit_def sizes_ok_def)
  next
    case (MambaSpec m)
    then show ?thesis using r b mamba_fits [OF _ refl _ L] by (simp add: find_longest_cache_hit_def)
  qed (use r False in \<open>simp_all add: find_longest_cache_hit_def\<close>)
qed

section \<open>Termination of the fixed-point iteration\<close>

lemma hybrid_group_nonneg:
  assumes "hybrid_group c hbs lcm_bs hashes g st = Inr st'" "sizes_ok (fst g)" "fst st \<ge> 0"
  shows "fst st' \<ge> 0"
proof -
  obtain spec ids cur table where g: "g = (spec, ids)" "st = (cur, table)" by (metis prod.exhaust)
  have "block_size spec > 0" using assms(2) g by (simp add: sizes_ok_def)
  then show ?thesis
    using assms(1,3) g by (auto simp: hybrid_group_def pos_imp_zdiv_nonneg_iff split: if_splits)
qed

lemma hybrid_pass_nonneg:
  assumes "hybrid_pass c hbs groups lcm_bs hashes hit table = Inr st" "\<forall>g \<in> set groups. sizes_ok (fst g)" "hit \<ge> 0"
  shows "fst st \<ge> 0"
  using assms(1) unfolding hybrid_pass_def
  by (rule fold_res_preserves [where I = "\<lambda>s. fst s \<ge> 0"]) (use assms hybrid_group_nonneg in auto)

text \<open>The loop ends because the candidate length drops with every further iteration.\<close>

lemma hybrid_loop_total:
  assumes "\<forall>g \<in> set groups. sizes_ok (fst g)" "hit \<ge> 0"
  shows "\<exists>r. hybrid_loop c hbs groups lcm_bs hashes simple hit table = Some r
    \<and> (\<forall>h t. r = Inr (h, t) \<longrightarrow> 0 \<le> h \<and> h \<le> hit)"
  using assms(2)
proof (induction "nat hit" arbitrary: hit table rule: less_induct)
  case less
  show ?case
  proof (cases "hybrid_pass c hbs groups lcm_bs hashes hit table")
    case (Inl e)
    then show ?thesis by (subst hybrid_loop.simps) simp
  next
    case (Inr st)
    have nn: "fst st \<ge> 0" by (rule hybrid_pass_nonneg [OF Inr assms(1) less.prems])
    show ?thesis
    proof (cases "fst st \<ge> hit \<or> simple")
      case True
      then show ?thesis using Inr nn less.prems by (subst hybrid_loop.simps) auto
    next
      case False
      then have "nat (fst st) < nat hit" using nn by auto
      from less.hyps [OF this nn, of "snd st"] obtain r where
        r: "hybrid_loop c hbs groups lcm_bs hashes simple (fst st) (snd st) = Some r"
          "\<forall>h t. r = Inr (h, t) \<longrightarrow> 0 \<le> h \<and> h \<le> fst st" by blast
      then have "\<forall>h t. r = Inr (h, t) \<longrightarrow> 0 \<le> h \<and> h \<le> hit" using False by fastforce
      then show ?thesis using r(1) Inr False by (subst hybrid_loop.simps) simp
    qed
  qed
qed

section \<open>Agreement of the groups\<close>

text \<open>The attention groups of a hybrid model: disjoint, aligned to the least common multiple, with
  full attention only in front.\<close>

definition group_ok :: "nat \<Rightarrow> int \<Rightarrow> attention_group \<Rightarrow> bool" where
  "group_ok N al g \<longleftrightarrow>
     sizes_ok (fst g) \<and> block_size (fst g) dvd al \<and> snd g \<noteq> [] \<and> distinct (snd g) \<and> (\<forall>i \<in> set (snd g). i < N)"

definition groups_ok :: "nat \<Rightarrow> int \<Rightarrow> attention_group list \<Rightarrow> bool" where
  "groups_ok N al groups \<longleftrightarrow>
     groups \<noteq> [] \<and> (\<forall>g \<in> set groups. group_ok N al g) \<and> distinct (concat (map snd groups))
     \<and> (\<forall>g \<in> set (tl groups). \<not> is_full_attention (fst g))"

text \<open>The rows stored for a group are between \<open>lo\<close> and \<open>hi\<close> tokens long.\<close>

definition rows_between :: "hit_table \<Rightarrow> attention_group \<Rightarrow> int \<Rightarrow> int \<Rightarrow> bool" where
  "rows_between t g lo hi \<longleftrightarrow>
     (\<forall>i \<in> set (snd g). \<exists>b. t ! i = Some b \<and> lo \<le> int (length b) * block_size (fst g)
        \<and> int (length b) * block_size (fst g) \<le> hi)"

lemma rows_between_weaken:
  "rows_between t g lo hi \<Longrightarrow> lo' \<le> lo \<Longrightarrow> hi \<le> hi' \<Longrightarrow> rows_between t g lo' hi'"
  by (fastforce simp: rows_between_def)

lemma rows_between_cong: "(\<forall>i \<in> set (snd g). t' ! i = t ! i) \<Longrightarrow> rows_between t' g lo hi = rows_between t g lo hi"
  by (simp add: rows_between_def)

lemma store_hits_Cons [simp]:
  "store_hits [] hits t = t" "store_hits ids [] t = t"
  "store_hits (x # xs) (y # ys) t = store_hits xs ys (t[x := Some y])"
  by (simp_all add: store_hits_def)

lemma length_store_hits [simp]: "length (store_hits ids hits t) = length t"
  by (induction ids hits arbitrary: t rule: list_induct2') simp_all

lemma store_hits_other: "i \<notin> set ids \<Longrightarrow> store_hits ids hits t ! i = t ! i"
  by (induction ids hits arbitrary: t rule: list_induct2') simp_all

lemma store_hits_mem:
  "distinct ids \<Longrightarrow> length hits = length ids \<Longrightarrow> \<forall>i \<in> set ids. i < length t \<Longrightarrow> i \<in> set ids
     \<Longrightarrow> \<exists>b \<in> set hits. store_hits ids hits t ! i = Some b"
proof (induction ids hits arbitrary: t rule: list_induct2')
  case (4 x xs y ys)
  show ?case
  proof (cases "i = x")
    case True
    then show ?thesis using 4(2-5) store_hits_other [of x xs ys "t[x := Some y]"] by auto
  next
    case False
    then show ?thesis using 4(1) [of "t[x := Some y]"] 4(2-5) by auto
  qed
qed simp_all

text \<open>One group: the candidate length does not grow, stays aligned, and the rows cover it.\<close>

lemma hybrid_group_step:
  assumes r: "hybrid_group c hbs al hashes g (cur, t) = Inr (cur', t')" and g: "group_ok (length t) al g"
    and cur: "cur \<ge> 0" and full: "is_full_attention (fst g) \<and> t ! hd (snd g) \<noteq> None \<longrightarrow>
      cur mod al = 0 \<and> (\<exists>hi. rows_between t g cur hi)"
  shows "0 \<le> cur' \<and> cur' \<le> cur \<and> cur' mod al = 0 \<and> length t' = length t
    \<and> (\<forall>i. i \<notin> set (snd g) \<longrightarrow> t' ! i = t ! i) \<and> (\<exists>hi. rows_between t' g cur' hi)
    \<and> (\<not> is_full_attention (fst g) \<longrightarrow> rows_between t' g cur' cur')"
proof -
  obtain spec ids where gs: "g = (spec, ids)" by (cases g)
  have s: "sizes_ok spec" "block_size spec dvd al" "ids \<noteq> []" "distinct ids" "\<forall>i \<in> set ids. i < length t"
    using g by (auto simp: group_ok_def gs)
  have b: "block_size spec > 0" using s(1) by (simp add: sizes_ok_def)
  show ?thesis
  proof (cases "is_full_attention spec \<and> t ! hd ids \<noteq> None")
    case True
    then have "cur mod al = 0" using full by (simp add: gs)
    then have "cur mod block_size spec = 0" using s(2) by (metis dvd_eq_mod_eq_0 dvd_trans)
    then have "cur div block_size spec * block_size spec = cur" by (metis add.right_neutral div_mult_mod_eq)
    then have "cur' = cur" "t' = t" using r True by (auto simp: hybrid_group_def gs)
    then show ?thesis using True full cur by (simp add: gs)
  next
    case False
    then obtain view hits c0 where h: "find_longest_cache_hit view cur (map int ids) (co_pool c) spec (co_use_eagle c) al 1 1 = Inr hits"
      "first_comp hits = Inr c0" "cur' = int (length c0) * block_size spec" "t' = store_hits ids hits t"
      using r by (auto simp: hybrid_group_def gs split: if_splits)
    obtain n where n: "comps_ok (map int ids) n hits" "int n * block_size spec \<le> cur" "(int n * block_size spec) mod al = 0"
      using search_fits [OF h(1) _ s(1) cur] s(3) by (auto simp: fits_def)
    have "c0 \<in> set hits" using h(2) by (auto simp: first_comp_def split: list.splits)
    then have len: "length c0 = n" "length hits = length ids" "\<forall>x \<in> set hits. length x = n"
      using n(1) by (auto simp: comps_ok_def)
    have rows: "rows_between t' g cur' cur'"
      unfolding rows_between_def
    proof
      fix i assume i: "i \<in> set (snd g)"
      obtain x where "x \<in> set hits" "t' ! i = Some x"
        using store_hits_mem [OF s(4) len(2) s(5), of i] i by (auto simp: h(4) gs)
      then show "\<exists>x. t' ! i = Some x \<and> cur' \<le> int (length x) * block_size (fst g)
          \<and> int (length x) * block_size (fst g) \<le> cur'"
        using len h(3) by (intro exI [of _ x]) (simp add: gs)
    qed
    show ?thesis
      using rows n(2,3) b h(3) len(1) by (auto simp: h(4) gs store_hits_other intro!: exI [of _ cur'])
  qed
qed

lemma pass_rest:
  assumes "fold_res (hybrid_group c hbs al hashes) gs (cur, t) = Inr (cur', t')"
    and "\<forall>g \<in> set gs. group_ok (length t) al g \<and> \<not> is_full_attention (fst g)" "distinct (concat (map snd gs))"
    and "cur \<ge> 0" "cur mod al = 0"
  shows "0 \<le> cur' \<and> cur' \<le> cur \<and> cur' mod al = 0 \<and> length t' = length t
    \<and> (\<forall>i. i \<notin> set (concat (map snd gs)) \<longrightarrow> t' ! i = t ! i)
    \<and> (\<forall>g \<in> set gs. rows_between t' g cur' cur) \<and> (gs \<noteq> [] \<longrightarrow> rows_between t' (last gs) cur' cur')"
  using assms
proof (induction gs arbitrary: cur t)
  case Nil
  then show ?case by simp
next
  case (Cons g gs)
  obtain cur1 t1 where s: "hybrid_group c hbs al hashes g (cur, t) = Inr (cur1, t1)"
    "fold_res (hybrid_group c hbs al hashes) gs (cur1, t1) = Inr (cur', t')"
    using Cons.prems(1) by auto
  have S: "0 \<le> cur1" "cur1 \<le> cur" "cur1 mod al = 0" "length t1 = length t"
    "\<forall>i. i \<notin> set (snd g) \<longrightarrow> t1 ! i = t ! i" "rows_between t1 g cur1 cur1"
    using hybrid_group_step [OF s(1)] Cons.prems(2,4) by simp_all
  have IH: "0 \<le> cur'" "cur' \<le> cur1" "cur' mod al = 0" "length t' = length t1"
    "\<forall>i. i \<notin> set (concat (map snd gs)) \<longrightarrow> t' ! i = t1 ! i"
    "\<forall>g \<in> set gs. rows_between t' g cur' cur1" "gs \<noteq> [] \<longrightarrow> rows_between t' (last gs) cur' cur'"
    using Cons.IH [OF s(2)] Cons.prems(2,3) S(1,3,4) by simp_all
  have "\<forall>i \<in> set (snd g). t' ! i = t1 ! i" using IH(5) Cons.prems(3) by auto
  then have g: "rows_between t' g cur1 cur1" using rows_between_cong S(6) by blast
  have "rows_between t' x cur' cur" if "x \<in> set (g # gs)" for x
    using that g IH(2,6) S(2) by (auto intro: rows_between_weaken)
  moreover have "rows_between t' (last (g # gs)) cur' cur'"
  proof (cases "gs = []")
    case True
    then have "cur' = cur1" using s(2) by simp
    then show ?thesis using g True by simp
  next
    case False
    then show ?thesis using IH(7) by simp
  qed
  moreover have "\<forall>i. i \<notin> set (concat (map snd (g # gs))) \<longrightarrow> t' ! i = t ! i" using IH(5) S(5) by simp
  ultimately show ?case using IH S by auto
qed

text \<open>What the table holds for a final length: full attention at least, the others exactly.\<close>

definition agrees :: "hit_table \<Rightarrow> attention_group list \<Rightarrow> int \<Rightarrow> bool" where
  "agrees t groups hit \<longleftrightarrow>
     (\<forall>g \<in> set groups. (\<exists>hi. rows_between t g hit hi)
        \<and> (\<not> is_full_attention (fst g) \<longrightarrow> rows_between t g hit hit))"

definition ready :: "hit_table \<Rightarrow> int \<Rightarrow> attention_group list \<Rightarrow> int \<Rightarrow> bool" where
  "ready t al groups hit \<longleftrightarrow>
     (\<forall>i < length t. t ! i = None) \<or> hit mod al = 0 \<and> (\<exists>hi. rows_between t (hd groups) hit hi)"

lemma hybrid_pass_step:
  assumes r: "hybrid_pass c hbs groups al hashes hit t = Inr (cur, t')" and ok: "groups_ok (length t) al groups"
    and hit: "hit \<ge> 0" and rdy: "ready t al groups hit"
    and simple: "simple \<longrightarrow> length groups = 2 \<and> is_full_attention (fst (hd groups))"
  shows "0 \<le> cur \<and> cur \<le> hit \<and> cur mod al = 0 \<and> length t' = length t \<and> ready t' al groups cur
    \<and> (cur = hit \<or> simple \<longrightarrow> agrees t' groups cur)"
proof -
  obtain g0 rest where gr: "groups = g0 # rest" using ok by (cases groups) (auto simp: groups_ok_def)
  obtain cur1 t1 where s: "hybrid_group c hbs al hashes g0 (hit, t) = Inr (cur1, t1)"
    "fold_res (hybrid_group c hbs al hashes) rest (cur1, t1) = Inr (cur, t')"
    using r by (auto simp: hybrid_pass_def gr)
  have g0: "group_ok (length t) al g0" using ok by (simp add: groups_ok_def gr)
  have "hd (snd g0) < length t" using g0 by (auto simp: group_ok_def)
  then have "is_full_attention (fst g0) \<and> t ! hd (snd g0) \<noteq> None \<longrightarrow>
      hit mod al = 0 \<and> (\<exists>hi. rows_between t g0 hit hi)" using rdy by (auto simp: ready_def gr)
  note S = hybrid_group_step [OF s(1) g0 hit this]
  have S': "0 \<le> cur1" "cur1 mod al = 0" "length t1 = length t" using S by auto
  have rest: "\<forall>g \<in> set rest. group_ok (length t1) al g \<and> \<not> is_full_attention (fst g)"
    "distinct (concat (map snd rest))"
    using ok S'(3) by (auto simp: groups_ok_def gr)
  note P = pass_rest [OF s(2) rest S'(1,2)]
  have keep: "\<forall>i \<in> set (snd g0). t' ! i = t1 ! i" using P ok by (auto simp: groups_ok_def gr)
  have le: "cur \<le> cur1" "cur1 \<le> hit" using P S by auto
  obtain hi where "rows_between t1 g0 cur1 hi" using S by auto
  then have h0: "rows_between t' g0 cur hi" using rows_between_cong [OF keep] le rows_between_weaken by blast
  have e0: "\<not> is_full_attention (fst g0) \<longrightarrow> rows_between t' g0 cur1 cur1"
    using S rows_between_cong [OF keep] by simp
  have "agrees t' groups cur" if fin: "cur = hit \<or> simple"
    unfolding agrees_def gr
  proof (intro ballI conjI impI)
    fix g assume g: "g \<in> set (g0 # rest)"
    show "\<exists>hi. rows_between t' g cur hi" using g h0 P by auto
    assume nf: "\<not> is_full_attention (fst g)"
    show "rows_between t' g cur cur"
    proof (cases "cur = hit")
      case True
      then have "cur1 = cur" using le by simp
      then show ?thesis using g e0 nf P by auto
    next
      case False
      then obtain g1 where "rest = [g1]" "is_full_attention (fst g0)"
        using fin simple by (auto simp: gr length_Suc_conv numeral_2_eq_2)
      then show ?thesis using g nf P by auto
    qed
  qed
  then show ?thesis using P S' S h0 le by (auto simp: ready_def gr)
qed

lemma hybrid_loop_agrees:
  assumes "groups_ok (length t) al groups" "hit \<ge> 0" "ready t al groups hit"
    and simple: "simple \<longrightarrow> length groups = 2 \<and> is_full_attention (fst (hd groups))"
    and "hybrid_loop c hbs groups al hashes simple hit t = Some (Inr (h, t'))"
  shows "0 \<le> h \<and> h \<le> hit \<and> h mod al = 0 \<and> length t' = length t \<and> agrees t' groups h"
  using assms(1-3,5)
proof (induction "nat hit" arbitrary: hit t rule: less_induct)
  case less
  obtain cur t1 where p: "hybrid_pass c hbs groups al hashes hit t = Inr (cur, t1)"
    using less.prems(4) by (subst (asm) hybrid_loop.simps) (auto split: sum.splits)
  note S = hybrid_pass_step [OF p less.prems(1-3) simple]
  have eq: "hybrid_loop c hbs groups al hashes simple hit t =
    (if cur \<ge> hit then Some (Inr (hit, t1)) else if simple then Some (Inr (cur, t1))
     else hybrid_loop c hbs groups al hashes simple cur t1)"
    by (subst hybrid_loop.simps) (simp add: p)
  show ?case
  proof (cases "cur \<ge> hit \<or> simple")
    case True
    then show ?thesis using eq less.prems(4) S by (auto split: if_splits)
  next
    case False
    then have lt: "nat cur < nat hit" "hybrid_loop c hbs groups al hashes simple cur t1 = Some (Inr (h, t'))"
      using eq less.prems(4) S by auto
    have "0 \<le> h \<and> h \<le> cur \<and> h mod al = 0 \<and> length t' = length t1 \<and> agrees t' groups h"
      using less.hyps [OF lt(1) _ _ _ lt(2)] S less.prems(1) by simp
    then show ?thesis using S by auto
  qed
qed

lemma fold_update_nth:
  assumes "distinct ids" "\<forall>i \<in> set ids. i < length t"
  shows "length (fold (\<lambda>i t. t[i := f (t ! i)]) ids t) = length t
    \<and> (\<forall>i. fold (\<lambda>i t. t[i := f (t ! i)]) ids t ! i = (if i \<in> set ids then f (t ! i) else t ! i))"
  using assms
proof (induction ids arbitrary: t)
  case Nil
  then show ?case by simp
next
  case (Cons x xs)
  then show ?case using Cons.IH [of "t[x := f (t ! x)]"] by (auto simp: nth_list_update)
qed

lemma truncate_full_nth:
  assumes "groups_ok (length t) al groups"
  shows "length (truncate_full groups hit t) = length t
    \<and> (\<forall>i. truncate_full groups hit t ! i =
         (if is_full_attention (fst (hd groups)) \<and> i \<in> set (snd (hd groups))
          then map_option (take (nat (hit div block_size (fst (hd groups))))) (t ! i) else t ! i))"
proof -
  obtain spec ids rest where g: "groups = (spec, ids) # rest" using assms
    by (cases groups) (auto simp: groups_ok_def)
  have "distinct ids" "\<forall>i \<in> set ids. i < length t" using assms by (auto simp: groups_ok_def group_ok_def g)
  from fold_update_nth [OF this, of "map_option (take (nat (hit div block_size spec)))"] show ?thesis
    by (simp add: truncate_full_def g)
qed

text \<open>
  C5: the cache hit of a hybrid model, \<^verbatim>\<open>HybridKVCacheCoordinator.find_longest_cache_hit\<close>, when at most the
  first attention group uses full attention. The fixed-point iteration always ends. If no search
  raises, the common hit length lies between zero and the limit, is a multiple of the least common
  multiple of the block sizes, and every KV cache group gets exactly the blocks of that many tokens.
\<close>

theorem hybrid_hit_agrees:
  assumes ok: "groups_ok (length (kv_cache_groups (co_config c))) al groups" and L: "max_len \<ge> 0"
  shows "\<exists>r. hybrid_find_longest_cache_hit c hbs groups al hashes max_len = Some r
    \<and> (\<forall>blocks hit. r = Inr (blocks, hit) \<longrightarrow>
         0 \<le> hit \<and> hit \<le> max_len \<and> hit mod al = 0 \<and> length blocks = length (kv_cache_groups (co_config c))
         \<and> (\<forall>g \<in> set groups. \<forall>i \<in> set (snd g). int (length (blocks ! i)) * block_size (fst g) = hit))"
proof -
  let ?N = "length (kv_cache_groups (co_config c))"
  define t0 where "t0 = replicate ?N (None :: nat list option)"
  define simple where "simple = (length groups = 2 \<and> is_full_attention (fst (hd groups)))"
  have ok0: "groups_ok (length t0) al groups" and ready: "ready t0 al groups max_len"
    using ok by (auto simp: t0_def ready_def)
  have sz: "\<forall>g \<in> set groups. sizes_ok (fst g)" using ok by (simp add: groups_ok_def group_ok_def)
  obtain r where r: "hybrid_loop c hbs groups al hashes simple max_len t0 = Some r"
    using hybrid_loop_total [OF sz L] by blast
  have run: "hybrid_find_longest_cache_hit c hbs groups al hashes max_len = Some (res_bind r (\<lambda>(hit, table).
      Inr (map (\<lambda>b. case b of None \<Rightarrow> [] | Some bs \<Rightarrow> bs) (truncate_full groups hit table), hit)))"
    using r by (simp add: hybrid_find_longest_cache_hit_def Let_def simple_def t0_def)
  show ?thesis
  proof (cases r)
    case (Inl e)
    then show ?thesis using run by simp
  next
    case (Inr ht)
    obtain h t where ht: "ht = (h, t)" by (cases ht)
    have A: "0 \<le> h" "h \<le> max_len" "h mod al = 0" "length t = length t0" "agrees t groups h"
      using hybrid_loop_agrees [OF ok0 L ready _ r [unfolded Inr ht]] by (simp_all add: simple_def)
    let ?t = "truncate_full groups h t"
    have okt: "groups_ok (length t) al groups" using ok0 A(4) by simp
    note T = truncate_full_nth [OF okt, of h]
    have row: "\<exists>b. ?t ! i = Some b \<and> int (length b) * block_size (fst g) = h"
      if g: "g \<in> set groups" and i: "i \<in> set (snd g)" for g i
    proof (cases "is_full_attention (fst g)")
      case True
      then have gh: "g = hd groups" using okt g by (cases groups) (auto simp: groups_ok_def)
      let ?b = "block_size (fst g)"
      obtain b where b: "t ! i = Some b" "h \<le> int (length b) * ?b"
        using A(5) g i by (fastforce simp: agrees_def rows_between_def)
      have pos: "?b > 0" "?b dvd al" using okt g by (auto simp: groups_ok_def group_ok_def sizes_ok_def)
      then have "h mod ?b = 0" using A(3) by (metis dvd_eq_mod_eq_0 dvd_trans)
      then have m: "h div ?b * ?b = h" by (metis add.right_neutral div_mult_mod_eq)
      then have "h div ?b \<le> int (length b)" using b(2) pos(1) by (metis mult_le_cancel_right_pos)
      moreover have "0 \<le> h div ?b" using A(1) pos(1) by (simp add: pos_imp_zdiv_nonneg_iff)
      ultimately have "nat (h div ?b) \<le> length b" "0 \<le> h div ?b" by (simp_all add: nat_le_iff)
      then have "int (length (take (nat (h div ?b)) b)) = h div ?b" by (simp add: min_absorb2)
      then show ?thesis using T True i m b(1) by (simp add: gh)
    next
      case False
      obtain b where b: "t ! i = Some b" "int (length b) * block_size (fst g) = h"
        using A(5) False g i by (force simp: agrees_def rows_between_def)
      have "?t ! i = t ! i"
      proof (cases "g = hd groups")
        case True
        then show ?thesis using T False by simp
      next
        case neq: False
        then have "i \<notin> set (snd (hd groups))" using okt g i by (cases groups) (auto simp: groups_ok_def)
        then show ?thesis using T by simp
      qed
      then show ?thesis using b by simp
    qed
    have "int (length (map (\<lambda>b. case b of None \<Rightarrow> [] | Some bs \<Rightarrow> bs) ?t ! i)) * block_size (fst g) = h"
      if "g \<in> set groups" "i \<in> set (snd g)" for g i
    proof -
      have "i < length ?t" using okt that T by (auto simp: groups_ok_def group_ok_def)
      then show ?thesis using row [OF that] by auto
    qed
    then show ?thesis using run Inr ht A(1-4) T by (auto simp: t0_def)
  qed
qed

section \<open>Examples\<close>

definition hybrid_fields :: "int \<Rightarrow> attention_fields" where
  "hybrid_fields hs = \<lparr>a_block_size = 2, num_kv_heads = 1, head_size = hs,
     dtype = \<lparr>dtype_name = ''half'', dtype_size = 2\<rparr>, kv_quant = NONE, page_size_padded = None\<rparr>"

definition hybrid_full :: "int \<Rightarrow> kv_cache_spec" where
  "hybrid_full hs = FullAttentionSpec (hybrid_fields hs)
     \<lparr>head_size_v = hs, sliding_window = None, attention_chunk_size = None\<rparr>"

definition hybrid_window :: kv_cache_spec where
  "hybrid_window = SlidingWindowSpec (hybrid_fields 1) 3"

text \<open>Cache the blocks of the given hashes in a group.\<close>

definition with_cached :: "int \<Rightarrow> bytes list \<Rightarrow> block_pool \<Rightarrow> block_pool" where
  "with_cached gid hs p =
     (case get_new_blocks example_env (int (length hs)) p of Inl e \<Rightarrow> p | Inr (bs, p1) \<Rightarrow>
      (case cache_blocks_loop example_env hs gid 0 bs (p1, []) of Inl e \<Rightarrow> p | Inr (p2, out) \<Rightarrow> p2))"

definition hybrid_example :: "kv_cache_spec list \<Rightarrow> bytes list list \<Rightarrow> coordinator" where
  "hybrid_example specs cached =
     (case get_kv_cache_coordinator \<lparr>num_blocks = 12, kv_cache_tensors = [],
             kv_cache_groups = map (\<lambda>s. \<lparr>layer_names = [], group_spec = s\<rparr>) specs\<rparr>
             64 False True False 1 1 2 None of
        Inl e \<Rightarrow> undefined
      | Inr c \<Rightarrow> c\<lparr>co_pool := fold (\<lambda>(i, hs). with_cached (int i) hs) (enumerate 0 cached) (co_pool c)\<rparr>)"

theorem hybrid_hit_agrees_witness:
  "co_kind (hybrid_example [hybrid_full 1, hybrid_window] [[[1], [2], [3]], [[1], [2]]])
     = Hybrid 2 [(hybrid_full 1, [0]), (hybrid_window, [1])] 2
   \<and> (case co_find_longest_cache_hit (hybrid_example [hybrid_full 1, hybrid_window] [[[1], [2], [3]], [[1], [2]]])
           [[1], [2], [3]] 7 of
        Some (Inr (blocks, hit)) \<Rightarrow> hit = 4 \<and> map length blocks = [2, 2] | _ \<Rightarrow> False)"
proof -
  let ?c = "hybrid_example [hybrid_full 1, hybrid_window] [[[1], [2], [3]], [[1], [2]]]"
  let ?g = "[(hybrid_full 1, [0]), (hybrid_window, [1])]"
  have k: "co_kind ?c = Hybrid 2 ?g 2" and n: "length (kv_cache_groups (co_config ?c)) = 2" by code_simp+
  have ok: "groups_ok 2 2 ?g"
    by (auto simp: groups_ok_def group_ok_def sizes_ok_def hybrid_full_def hybrid_window_def hybrid_fields_def)
  have hit: "case co_find_longest_cache_hit ?c [[1], [2], [3]] 7 of
      Some (Inr (blocks, hit)) \<Rightarrow> hit = 4 | _ \<Rightarrow> False" by code_simp
  obtain r where r: "co_find_longest_cache_hit ?c [[1], [2], [3]] 7 = Some r"
    "\<forall>blocks hit. r = Inr (blocks, hit) \<longrightarrow> length blocks = 2 \<and>
       (\<forall>g \<in> set ?g. \<forall>i \<in> set (snd g). int (length (blocks ! i)) * block_size (fst g) = hit)"
    using hybrid_hit_agrees [of ?c 2 ?g 7 2 "[[1], [2], [3]]"] ok n k
    by (auto simp: co_find_longest_cache_hit_def)
  then show ?thesis using hit k
    by (auto simp: hybrid_full_def hybrid_window_def hybrid_fields_def length_Suc_conv numeral_2_eq_2
        split: sum.splits)
qed

text \<open>
  The final truncation treats the first attention group only. With two different full attention
  specs and a third group that shortens the hit, the second full attention group keeps the blocks
  beyond the reported hit length: here four tokens are reported, but group 1 gets three blocks of two tokens.
\<close>

lemma second_full_group_not_truncated:
  "case co_find_longest_cache_hit (hybrid_example [hybrid_full 1, hybrid_full 2, hybrid_window]
      [[[1], [2], [3]], [[1], [2], [3]], [[1], [2]]]) [[1], [2], [3]] 7 of
     Some (Inr (blocks, hit)) \<Rightarrow> hit = 4 \<and> map length blocks = [2, 3, 2] | _ \<Rightarrow> False"
  by code_simp

end
