(* ===== verification/Block_Pool_Properties.thy ===== *)
theory Block_Pool_Properties
  imports Block_Pool Request
begin

text \<open>
  The theorems about the free block queue and the block pool: the doubly linked list implements a
  FIFO list, allocation takes the least recently freed blocks, references and hashes are kept
  consistent, and a block that was cached is found again.
\<close>

section \<open>The free block queue\<close>

text \<open>
  C10: the intrusive doubly linked list of \<^verbatim>\<open>FreeKVCacheBlockQueue\<close> refines a plain list. On a list \<open>xs\<close> of
  distinct blocks, \<^verbatim>\<open>popleft_n\<close> returns the first \<open>n\<close> blocks exactly as \<open>n\<close> calls of \<^verbatim>\<open>popleft\<close> would and
  leaves the rest; \<^verbatim>\<open>remove\<close> takes out one block from anywhere in the list; \<^verbatim>\<open>append\<close> adds one block and
  \<^verbatim>\<open>append_n\<close> several at the end; \<^verbatim>\<open>get_all_free_blocks\<close> walks the links to the end and returns the list;
  and the counter \<^verbatim>\<open>num_free_blocks\<close> is its length after every operation. Asking \<^verbatim>\<open>popleft_n\<close> for more
  blocks than there are fails its assertion.
\<close>

theorem free_queue_refines_list:
  assumes q: "queue_inv h xs"
  shows "get_all_free_blocks h = Inr (Some xs) \<and> num_free_blocks h = int (length xs) \<and> distinct xs
    \<and> (\<forall>n \<le> length xs. \<exists>h' h''. popleft_n (int n) h = Inr (take n xs, h') \<and> queue_inv h' (drop n xs)
         \<and> popleft_times n h = Inr (take n xs, h'') \<and> queue_inv h'' (drop n xs))
    \<and> (\<forall>b \<in> set xs. \<exists>h'. remove b h = Inr h' \<and> queue_inv h' (remove1 b xs))
    \<and> (\<forall>bs. distinct bs \<and> set bs \<inter> set xs = {} \<and> (\<forall>b \<in> set bs. list_member_ok h b) \<longrightarrow>
         (\<exists>h'. append_n bs h = Inr h' \<and> queue_inv h' (xs @ bs)))
    \<and> (\<forall>b. b \<notin> set xs \<and> list_member_ok h b \<longrightarrow> (\<exists>h'. append b h = Inr h' \<and> queue_inv h' (xs @ [b])))
    \<and> (\<forall>n > length xs. popleft_n (int n) h = Inl AssertionError)"
proof (intro conjI allI ballI impI)
  show "get_all_free_blocks h = Inr (Some xs)" by (rule get_all_free_blocks_inv [OF q])
  show "num_free_blocks h = int (length xs)" by (rule queue_invD(8) [OF q])
  show "distinct xs" by (rule fq.repr_distinct [OF q])
  show "\<exists>h'. remove b h = Inr h' \<and> queue_inv h' (remove1 b xs)" if "b \<in> set xs" for b
    using fq.rem_mem [OF q that] by blast
  show "\<exists>h'. append_n bs h = Inr h' \<and> queue_inv h' (xs @ bs)"
    if "distinct bs \<and> set bs \<inter> set xs = {} \<and> (\<forall>b \<in> set bs. list_member_ok h b)" for bs
    using fq.put_n_fresh [OF q, of bs] that by blast
  show "\<exists>h'. append b h = Inr h' \<and> queue_inv h' (xs @ [b])" if "b \<notin> set xs \<and> list_member_ok h b" for b
    using append_inv [OF q, of b] that by (auto simp: list_member_ok_def)
  show "popleft_n (int n) h = Inl AssertionError" if "n > length xs" for n
    using fq.pop_n_short [OF q] that by simp
  show "\<exists>h' h''. popleft_n (int n) h = Inr (take n xs, h') \<and> queue_inv h' (drop n xs)
      \<and> popleft_times n h = Inr (take n xs, h'') \<and> queue_inv h'' (drop n xs)" if "n \<le> length xs" for n
    using fq.pop_n_take [OF q, of "int n"] popleft_times_inv [of h "take n xs" "drop n xs"] q that by auto
qed

definition example_queue :: block_heap where
  "example_queue = queue_init (map (\<lambda>i. new_block (int i)) [0..<5])"

lemma example_queue_inv: "queue_inv example_queue [0, 1, 2, 3, 4]"
proof -
  have "queue_inv example_queue [0..<5]"
    using queue_init_inv(1) [of "map (\<lambda>i. new_block (int i)) [0..<5]"]
    by (simp add: example_queue_def new_block_def)
  moreover have "[0..<5] = [0, 1, 2, 3, 4 :: nat]" by code_simp
  ultimately show ?thesis by simp
qed

theorem free_queue_refines_list_witness:
  "case popleft_n 2 example_queue of Inl e \<Rightarrow> False
   | Inr (bs, h') \<Rightarrow> bs = [0, 1] \<and> queue_inv h' [2, 3, 4]
       \<and> (case append 0 h' of Inl e \<Rightarrow> False
          | Inr h'' \<Rightarrow> queue_inv h'' [2, 3, 4, 0] \<and> num_free_blocks h'' = 4)"
proof -
  obtain h1 where h1: "popleft_n 2 example_queue = Inr ([0, 1], h1)" "queue_inv h1 [2, 3, 4]"
    using free_queue_refines_list [OF example_queue_inv] by (auto dest: spec [of _ "2 :: nat"])
  have "case popleft_n 2 example_queue of Inl e \<Rightarrow> False | Inr (bs, h) \<Rightarrow> list_member_ok h 0" by code_simp
  then have "list_member_ok h1 0" using h1(1) by simp
  then obtain h2 where h2: "append 0 h1 = Inr h2" "queue_inv h2 [2, 3, 4, 0]"
    using free_queue_refines_list [OF h1(2)] by (auto dest: spec [of _ "0 :: nat"])
  have "num_free_blocks h2 = 4" using free_queue_refines_list [OF h2(2)] by simp
  then show ?thesis using h1 h2 by simp
qed

section \<open>Allocation and references\<close>

text \<open>
  C11: \<^verbatim>\<open>BlockPool.get_new_blocks\<close>. With enough free blocks it hands out the least recently freed ones, each
  with exactly one reference and, with caching on, without the hash of its former content, and keeps
  the pool consistent; with too few it raises and the caller's pool is as before.
\<close>

theorem get_new_blocks_correct:
  assumes core: "pool_core R p" and n: "n \<ge> 0"
  shows "(n > get_num_free_blocks p \<longrightarrow> get_new_blocks E n p = Inl ValueError)
    \<and> (n \<le> get_num_free_blocks p \<longrightarrow>
        (\<exists>p'. get_new_blocks E n p = Inr (take (nat n) (free_list p), p') \<and> pool_core R p'
          \<and> free_list p' = drop (nat n) (free_list p)
          \<and> (\<forall>b \<in> set (take (nat n) (free_list p)). refs p' b = 1 \<and> (enable_caching p \<longrightarrow> hash_of p' b = None))
          \<and> (\<forall>b < num_gpu_blocks p. b \<notin> set (take (nat n) (free_list p)) \<longrightarrow>
               refs p' b = refs p b \<and> hash_of p' b = hash_of p b)))"
proof (intro conjI impI)
  show "get_new_blocks E n p = Inl ValueError" if "n > get_num_free_blocks p"
    using get_new_blocks_error [OF core] that pool_coreD(9) [OF core] by simp
  assume "n \<le> get_num_free_blocks p"
  then have le: "n \<le> int (length (free_list p))" using pool_coreD(9) [OF core] by simp
  let ?new = "take (nat n) (free_list p)"
  obtain p' where p': "get_new_blocks E n p = Inr (?new, p')" "pool_core R p'"
    "free_list p' = drop (nat n) (free_list p)"
    "\<forall>x. x < num_gpu_blocks p \<longrightarrow> refs p' x = refs p x + (if x \<in> set ?new then 1 else 0)"
    "\<forall>x. x < num_gpu_blocks p \<longrightarrow>
       hash_of p' x = (if x \<in> set ?new \<and> enable_caching p then None else hash_of p x)"
    using get_new_blocks_law [OF core n le, of E] by (elim exE conjE) (rule that)
  have free: "b < num_gpu_blocks p \<and> refs p b = 0" if "b \<in> set ?new" for b
    using in_set_takeD [OF that] pool_free_iff [OF core, of b] by simp
  show "\<exists>p'. get_new_blocks E n p = Inr (?new, p') \<and> pool_core R p' \<and> free_list p' = drop (nat n) (free_list p)
      \<and> (\<forall>b \<in> set ?new. refs p' b = 1 \<and> (enable_caching p \<longrightarrow> hash_of p' b = None))
      \<and> (\<forall>b < num_gpu_blocks p. b \<notin> set ?new \<longrightarrow> refs p' b = refs p b \<and> hash_of p' b = hash_of p b)"
    using p' free by (intro exI [of _ p']) simp
qed

definition example_pool :: block_pool where
  "example_pool = (case block_pool_init 5 True 2 True None of Inr p \<Rightarrow> p | Inl e \<Rightarrow> undefined)"

lemma example_pool_core: "pool_core {} example_pool" "free_list example_pool = [1, 2, 3, 4]"
    "num_gpu_blocks example_pool = 5" "\<forall>a < 5. refs example_pool a = 0 \<and> hash_of example_pool a = None"
    "enable_caching example_pool" "hash_block_size example_pool = 2"
  using block_pool_init_law [of 5 True 2 True None] by (auto simp: example_pool_def upt_rec)

theorem get_new_blocks_correct_witness:
  "get_new_blocks example_env 5 example_pool = Inl ValueError
   \<and> (case get_new_blocks example_env 3 example_pool of Inl e \<Rightarrow> False
      | Inr (bs, p') \<Rightarrow> bs = [1, 2, 3] \<and> pool_core {} p')"
proof -
  have f: "get_num_free_blocks example_pool = 4"
    using pool_coreD(9) [OF example_pool_core(1)] example_pool_core(2) by simp
  show ?thesis
    using get_new_blocks_correct [OF example_pool_core(1), of 5 example_env]
      get_new_blocks_correct [OF example_pool_core(1), of 3 example_env] f example_pool_core(2) by auto
qed

text \<open>
  C13: touching a prefix hit and freeing it again is neutral for the references and hashes, and moves the
  blocks that were free to the end of the eviction order in the order they are freed; while they
  are touched, none of them is in the free list.
\<close>

theorem touch_then_free:
  assumes core: "pool_core R p" and bs: "\<forall>a \<in> set bs. 0 < a \<and> a < num_gpu_blocks p \<and> a \<notin> R" "distinct bs"
  shows "\<exists>p1 p2. touch bs p = Inr p1 \<and> set (free_list p1) \<inter> set bs = {}
    \<and> free_blocks (rev bs) p1 = Inr p2 \<and> pool_core R p2
    \<and> free_list p2 = filter (\<lambda>x. x \<notin> set bs) (free_list p) @ filter (\<lambda>a. refs p a = 0) (rev bs)
    \<and> (\<forall>x < num_gpu_blocks p. refs p2 x = refs p x \<and> hash_of p2 x = hash_of p x)"
proof -
  have bs1: "\<forall>a \<in> set bs. a < num_gpu_blocks p \<and> a \<notin> R" using bs(1) by blast
  obtain p1 where p1: "touch bs p = Inr p1" "pool_core R p1"
    "free_list p1 = filter (\<lambda>x. x \<notin> set bs) (free_list p)" "same_config p p1"
    "\<forall>x. x < num_gpu_blocks p \<longrightarrow> refs p1 x = refs p x + int (count_list bs x)"
    "\<forall>x. x < num_gpu_blocks p \<longrightarrow> hash_of p1 x = hash_of p x"
    using touch_law [OF core bs1] by (elim exE conjE) (rule that)
  have n: "num_gpu_blocks p1 = num_gpu_blocks p" using p1(4) by (simp add: same_config_def)
  have r1: "refs p1 a = refs p a + 1" "refs p a \<ge> 0" if "a \<in> set bs" for a
    using that bs p1(5) pool_refs_nonneg [OF core, of a] by (auto simp: count_list_distinct)
  have f: "\<forall>a \<in> set (rev bs). a < num_gpu_blocks p1" "distinct (filter (\<lambda>a. a \<noteq> 0) (rev bs))"
    "\<forall>a \<in> set (rev bs). a \<noteq> 0 \<longrightarrow> refs p1 a > 0"
    using bs r1 n by fastforce+
  obtain p2 where p2: "free_blocks (rev bs) p1 = Inr p2" "pool_core R p2"
    "free_list p2 = free_list p1 @ filter (\<lambda>a. a \<noteq> 0 \<and> refs p1 a = 1) (rev bs)"
    "\<forall>x. x < num_gpu_blocks p1 \<longrightarrow> refs p2 x = refs p1 x - int (count_list (rev bs) x)"
    "\<forall>x. x < num_gpu_blocks p1 \<longrightarrow> hash_of p2 x = hash_of p1 x"
    using free_blocks_law [OF p1(2) f] by (elim exE conjE) (rule that)
  have "filter (\<lambda>a. a \<noteq> 0 \<and> refs p1 a = 1) (rev bs) = filter (\<lambda>a. refs p a = 0) (rev bs)"
    by (rule filter_cong) (use bs(1) r1 in auto)
  then show ?thesis
    using p1 p2 n by (intro exI [of _ p1] exI [of _ p2]) auto
qed

theorem touch_then_free_witness:
  "case touch [2, 3] example_pool of Inl e \<Rightarrow> False | Inr p1 \<Rightarrow>
     (case free_blocks [3, 2] p1 of Inl e \<Rightarrow> False | Inr p2 \<Rightarrow> free_list p2 = [1, 4, 3, 2] \<and> pool_core {} p2)"
  using touch_then_free [OF example_pool_core(1), of "[2, 3]"] example_pool_core by auto

section \<open>The prefix cache\<close>

text \<open>
  C12: a full block that was cached is found again. \<^verbatim>\<open>cache_full_blocks\<close> on unhashed blocks does not raise and
  keeps the pool consistent, and a lookup of the hash of any of these blocks in the same group then returns
  a block with the same content: one that carries the very key under which the block was cached.
\<close>

theorem cached_block_is_found:
  assumes core: "pool_core R p" and gid: "0 \<le> gid" "gid < 2 ^ 32" and caching: "hash_block_size p = bs"
    and len: "num_full \<le> length (block_hashes r)" "num_full \<le> length blocks"
    and new: "\<forall>a \<in> set (py_slice num_cached num_full blocks). a < num_gpu_blocks p \<and> (a \<noteq> 0 \<longrightarrow> hash_of p a = None)"
      "distinct (filter (\<lambda>a. a \<noteq> 0) (py_slice num_cached num_full blocks))"
  shows "\<exists>p' r'. cache_full_blocks E p r blocks num_cached num_full bs gid = Inr (p', r') \<and> pool_core R p'
    \<and> (\<forall>i. num_cached \<le> i \<and> i < num_full \<and> blocks ! i \<noteq> 0 \<longrightarrow>
        (\<exists>b k. get_cached_block p' (block_hashes r ! i) [gid] = Inr (Some [b])
           \<and> make_block_hash_with_group_id (block_hashes r ! i) gid = Inr k
           \<and> hash_of p' b = Some k \<and> hash_of p' (blocks ! i) = Some k))"
proof (cases "num_cached < num_full")
  case False
  then have "cache_full_blocks E p r blocks num_cached num_full bs gid = Inr (p, r)"
    by (simp add: cache_full_blocks_def)
  then show ?thesis using core False by (intro exI [of _ p] exI [of _ r]) (auto simp del: get_cached_block.simps)
next
  case True
  let ?hs = "drop num_cached (block_hashes r)"
  have view: "hashes_at_block_size (block_hashes r) (hash_block_size p) bs = Inr (PlainHashes (block_hashes r))"
    using caching by (simp add: hashes_at_block_size_def)
  obtain p' m where L: "cache_full_blocks E p r blocks num_cached num_full bs gid = Inr (p', with_memo r m)"
    "pool_core R p'" "same_config p p'"
    "\<forall>i. num_cached \<le> i \<and> i < num_full \<and> blocks ! i \<noteq> 0 \<longrightarrow>
       (\<exists>k. make_block_hash_with_group_id (?hs ! (i - num_cached)) gid = Inr k \<and> hash_of p' (blocks ! i) = Some k)"
    using cache_full_blocks_law [OF core gid len view _ _ _ new, of ?hs E] True len
    by (fastforce simp: view_from_def view_at_def)
  have "\<exists>b k. get_cached_block p' (block_hashes r ! i) [gid] = Inr (Some [b])
      \<and> make_block_hash_with_group_id (block_hashes r ! i) gid = Inr k
      \<and> hash_of p' b = Some k \<and> hash_of p' (blocks ! i) = Some k"
    if i: "num_cached \<le> i" "i < num_full" "blocks ! i \<noteq> 0" for i
  proof -
    obtain k where k: "make_block_hash_with_group_id (block_hashes r ! i) gid = Inr k" "hash_of p' (blocks ! i) = Some k"
      using L(4) i len by fastforce
    have "i - num_cached < length (py_slice num_cached num_full blocks)" using i len by simp
    from nth_mem [OF this] have "blocks ! i \<in> set (py_slice num_cached num_full blocks)" using i len by simp
    then have lt: "blocks ! i < num_gpu_blocks p'" using new(1) L(3) by (simp add: same_config_def)
    obtain res where res: "get_cached_block p' (block_hashes r ! i) [gid] = Inr res"
      "case res of None \<Rightarrow> \<exists>g \<in> set [gid]. \<forall>a k. a < num_gpu_blocks p' \<longrightarrow>
           make_block_hash_with_group_id (block_hashes r ! i) g = Inr k \<longrightarrow> hash_of p' a \<noteq> Some k
       | Some bs \<Rightarrow> length bs = length [gid] \<and> (\<forall>j < length [gid]. 0 < bs ! j \<and> bs ! j < num_gpu_blocks p'
           \<and> (\<exists>k. make_block_hash_with_group_id (block_hashes r ! i) ([gid] ! j) = Inr k \<and> hash_of p' (bs ! j) = Some k))"
      using get_cached_block_law [OF L(2), of "[gid]" "block_hashes r ! i"] gid by auto
    have "res \<noteq> None" using res(2) k lt by (cases res) auto
    then obtain b where "res = Some [b]" using res(2) by (auto simp: length_Suc_conv)
    then show ?thesis using res k by auto
  qed
  then show ?thesis using L(1,2) by blast
qed

theorem cached_block_is_found_witness:
  "case cache_full_blocks example_env example_pool (example_request [5, 6, 7, 8, 9]) [1, 2] 0 2 2 0 of
     Inl e \<Rightarrow> False
   | Inr (p', r') \<Rightarrow> pool_core {} p'
       \<and> get_cached_block p' (block_hashes (example_request [5, 6, 7, 8, 9]) ! 1) [0] = Inr (Some [2])"
proof -
  let ?r = "example_request [5, 6, 7, 8, 9]"
  have len: "2 \<le> length (block_hashes ?r)" by code_simp
  have run: "case cache_full_blocks example_env example_pool ?r [1, 2] 0 2 2 0 of Inl e \<Rightarrow> False
   | Inr (p', r') \<Rightarrow> get_cached_block p' (block_hashes ?r ! 1) [0] = Inr (Some [2])" by code_simp
  have sl: "py_slice 0 2 [1, 2 :: nat] = [1, 2]" by simp
  have "\<exists>p' r'. cache_full_blocks example_env example_pool ?r [1, 2] 0 2 2 0 = Inr (p', r') \<and> pool_core {} p'"
    using cached_block_is_found [OF example_pool_core(1) _ _ example_pool_core(6) len, of 0 "[1, 2]" 0 example_env]
      example_pool_core by (auto simp: sl)
  then show ?thesis using run by auto
qed

text \<open>
  The group id is packed into the key of a block without loss: for group ids below \<open>2^32\<close> packing succeeds,
  unpacking returns the hash and the id, and different pairs of hash and group id have different keys,
  so that groups never share cache entries.
\<close>

theorem group_key_roundtrip:
  assumes "0 \<le> g" "g < 2 ^ 32"
  shows "\<exists>k. make_block_hash_with_group_id h g = Inr k \<and> get_block_hash k = h \<and> get_group_id k = nat g
    \<and> (\<forall>h' g'. make_block_hash_with_group_id h' g' = Inr k \<longrightarrow> h' = h \<and> g' = g)"
  using make_block_hash_with_group_id_ok [OF assms, of h] make_block_hash_with_group_id_inj by blast

theorem group_key_roundtrip_witness:
  "case make_block_hash_with_group_id [1, 2] 258 of Inl e \<Rightarrow> False
   | Inr k \<Rightarrow> k = [1, 2, 0, 0, 1, 2] \<and> get_block_hash k = [1, 2] \<and> get_group_id k = 258"
proof -
  have "case make_block_hash_with_group_id [1, 2] 258 of Inl e \<Rightarrow> False | Inr k \<Rightarrow> k = [1, 2, 0, 0, 1, 2]"
    by code_simp
  moreover have "0 \<le> (258 :: int)" "(258 :: int) < 2 ^ 32" by simp_all
  from group_key_roundtrip [OF this, of "[1, 2]"] obtain k where
    "make_block_hash_with_group_id [1, 2] 258 = Inr k" "get_block_hash k = [1, 2]" "get_group_id k = nat 258"
    by (elim exE conjE) (rule that)
  ultimately show ?thesis by simp
qed

section \<open>Reserved blocks\<close>

text \<open>
  \<^verbatim>\<open>SinkFullAttentionManager\<close> takes its sink blocks from the free queue for good. \<^verbatim>\<open>reset_prefix_cache\<close> counts
  them as used: in a pool with reserved blocks it never succeeds, even when no request is running.
\<close>

lemma reset_fails_with_reserved_blocks:
  assumes core: "pool_core R p" and R: "R \<noteq> {}"
  shows "reset_prefix_cache p = (False, p)"
proof -
  let ?N = "num_gpu_blocks p"
  obtain a where a: "a \<in> R" using R by blast
  have "set (free_list p) \<subseteq> {1..<?N} - {a}"
  proof
    fix x assume "x \<in> set (free_list p)"
    then show "x \<in> {1..<?N} - {a}" using pool_free_iff [OF core, of x] a by auto
  qed
  then have "card (set (free_list p)) \<le> card ({1..<?N} - {a})" by (intro card_mono) auto
  moreover have "a \<in> {1..<?N}" using pool_reservedD [OF core a] by simp
  then have "card ({1..<?N} - {a}) < ?N - 1" by (simp add: card_Diff_singleton) linarith
  moreover have "card (set (free_list p)) = length (free_list p)"
    by (rule distinct_card [OF pool_coreD(8) [OF core]])
  ultimately have "length (free_list p) + 1 \<noteq> ?N" by linarith
  then show ?thesis using reset_prefix_cache_law [OF core] by (metis prod.exhaust_sel)
qed

end
