(* ===== verification/Heapq.thy ===== *)
theory Heapq
  imports Prelude "HOL-Library.Multiset"
begin

text \<open>
  The part of Python's \<^verbatim>\<open>heapq\<close> module that \<^verbatim>\<open>PriorityRequestQueue\<close>
  (src/vllm/vllm/v1/core/sched/request_queue.py) uses: \<^verbatim>\<open>heappush\<close>, \<^verbatim>\<open>heappop\<close> and
  \<^verbatim>\<open>heapify\<close> over an array, with the order \<^verbatim>\<open>__lt__\<close> as a parameter. The sift loops are those of the
  library: the item being placed is kept aside while the others move through the hole.
\<close>

section \<open>Operations\<close>

fun siftdown_loop :: "('a \<Rightarrow> 'a \<Rightarrow> bool) \<Rightarrow> nat \<Rightarrow> 'a \<Rightarrow> nat \<Rightarrow> 'a list \<Rightarrow> 'a list" where
  "siftdown_loop lt start newitem pos h =
     (if pos > start then
        (let parentpos = (pos - 1) div 2; parent = h ! parentpos in
         if lt newitem parent then siftdown_loop lt start newitem parentpos (h[pos := parent])
         else h[pos := newitem])
      else h[pos := newitem])"

declare siftdown_loop.simps [simp del]

definition siftdown :: "('a \<Rightarrow> 'a \<Rightarrow> bool) \<Rightarrow> 'a list \<Rightarrow> nat \<Rightarrow> nat \<Rightarrow> 'a list" where
  "siftdown lt h start pos = siftdown_loop lt start (h ! pos) pos h"

definition smaller_child :: "('a \<Rightarrow> 'a \<Rightarrow> bool) \<Rightarrow> 'a list \<Rightarrow> nat \<Rightarrow> nat" where
  "smaller_child lt h c = (if c + 1 < length h \<and> \<not> lt (h ! c) (h ! (c + 1)) then c + 1 else c)"

lemma smaller_child_bounds: "c \<le> smaller_child lt h c" "c < length h \<Longrightarrow> smaller_child lt h c < length h"
  by (simp_all add: smaller_child_def)

function siftup_loop :: "('a \<Rightarrow> 'a \<Rightarrow> bool) \<Rightarrow> nat \<Rightarrow> 'a list \<Rightarrow> nat \<times> 'a list" where
  "siftup_loop lt pos h =
     (if 2 * pos + 1 < length h then
        (let c = smaller_child lt h (2 * pos + 1) in siftup_loop lt c (h[pos := h ! c]))
      else (pos, h))"
  by pat_completeness auto
termination
  by (relation "measure (\<lambda>(lt, pos, h). length h - pos)") (auto simp: smaller_child_def)

declare siftup_loop.simps [simp del]

definition siftup :: "('a \<Rightarrow> 'a \<Rightarrow> bool) \<Rightarrow> nat \<Rightarrow> 'a list \<Rightarrow> 'a list" where
  "siftup lt pos h =
     (case siftup_loop lt pos h of (p, h') \<Rightarrow> siftdown lt (h'[p := h ! pos]) pos p)"

definition heappush :: "('a \<Rightarrow> 'a \<Rightarrow> bool) \<Rightarrow> 'a \<Rightarrow> 'a list \<Rightarrow> 'a list" where
  "heappush lt x h = siftdown lt (h @ [x]) 0 (length h)"

definition heappop :: "('a \<Rightarrow> 'a \<Rightarrow> bool) \<Rightarrow> 'a list \<Rightarrow> ('a \<times> 'a list) res" where
  "heappop lt h =
     (if h = [] then Inl IndexError
      else if butlast h = [] then Inr (last h, [])
      else Inr (hd h, siftup lt 0 ((butlast h)[0 := last h])))"

definition heapify :: "('a \<Rightarrow> 'a \<Rightarrow> bool) \<Rightarrow> 'a list \<Rightarrow> 'a list" where
  "heapify lt h = fold (siftup lt) (rev [0..<length h div 2]) h"

section \<open>The heap property\<close>

text \<open>Positions \<open>i\<close> and \<open>c\<close> are parent and child; the property holds from position \<open>s\<close> on.\<close>

definition edge :: "nat \<Rightarrow> nat \<Rightarrow> bool" where
  "edge i c \<longleftrightarrow> c > 0 \<and> i = (c - 1) div 2"

definition heap_from :: "('a \<Rightarrow> 'a \<Rightarrow> bool) \<Rightarrow> nat \<Rightarrow> 'a list \<Rightarrow> bool" where
  "heap_from lt s h \<longleftrightarrow> (\<forall>c < length h. \<forall>i \<ge> s. edge i c \<longrightarrow> \<not> lt (h ! c) (h ! i))"

text \<open>All edges from \<open>s\<close> on but those at the hole \<open>p\<close>, which the parent of \<open>p\<close> bridges.\<close>

definition heap_but :: "('a \<Rightarrow> 'a \<Rightarrow> bool) \<Rightarrow> nat \<Rightarrow> nat \<Rightarrow> 'a list \<Rightarrow> bool" where
  "heap_but lt s p h \<longleftrightarrow>
     (\<forall>c < length h. \<forall>i \<ge> s. edge i c \<and> i \<noteq> p \<and> c \<noteq> p \<longrightarrow> \<not> lt (h ! c) (h ! i))
     \<and> (\<forall>c < length h. edge p c \<and> p > s \<longrightarrow> \<not> lt (h ! c) (h ! ((p - 1) div 2)))"

text \<open>Position \<open>p\<close> is in the subtree of \<open>s\<close>.\<close>

fun below :: "nat \<Rightarrow> nat \<Rightarrow> bool" where
  "below s p = (if p > s then below s ((p - 1) div 2) else p = s)"

declare below.simps [simp del]

lemma below_refl [simp]: "below s s" by (simp add: below.simps)

lemma below_0 [simp]: "below 0 p"
proof (induction p rule: less_induct)
  case (less p)
  then show ?case by (cases "p = 0") (simp_all add: below.simps [of 0 p])
qed

lemma below_ge: "below s p \<Longrightarrow> s \<le> p" by (cases "s < p") (simp_all add: below.simps [of s p])

lemma below_child: "below s p \<Longrightarrow> edge p c \<Longrightarrow> below s c"
  using below_ge [of s p] by (auto simp: edge_def below.simps [of s c])

lemma below_parent: "below s p \<Longrightarrow> p > s \<Longrightarrow> below s ((p - 1) div 2)"
  by (simp add: below.simps [of s p])

lemma edge_less: "edge i c \<Longrightarrow> i < c" by (auto simp: edge_def)

lemma edge_children: "edge p c \<longleftrightarrow> c = 2 * p + 1 \<or> c = 2 * p + 2"
  by (auto simp: edge_def)

lemma edge_unique: "edge i c \<Longrightarrow> edge j c \<Longrightarrow> i = j" by (simp add: edge_def)

text \<open>What the loops need of the order: a strict weak order.\<close>

locale heap_order =
  fixes lt :: "'a \<Rightarrow> 'a \<Rightarrow> bool"
  assumes lt_asym: "lt x y \<Longrightarrow> \<not> lt y x"
    and not_lt_trans: "\<not> lt y x \<Longrightarrow> \<not> lt z y \<Longrightarrow> \<not> lt z x"
begin

lemma siftdown_loop_heap:
  assumes "p < length h" "below s p" "heap_but lt s p (h[p := x])"
    and "\<And>c. c < length h \<Longrightarrow> edge p c \<Longrightarrow> \<not> lt (h ! c) x"
  shows "heap_from lt s (siftdown_loop lt s x p h) \<and> mset (siftdown_loop lt s x p h) = mset (h[p := x])"
  using assms
proof (induction p arbitrary: h rule: less_induct)
  case (less p)
  let ?q = "(p - 1) div 2"
  note but = less.prems(3) [unfolded heap_but_def]
  show ?case
  proof (cases "p > s \<and> lt x (h ! ?q)")
    case True
    then have q: "?q < p" "?q < length h" "below s ?q" "edge ?q p"
      using less.prems(1,2) below_parent by (auto simp: edge_def)
    have step: "siftdown_loop lt s x p h = siftdown_loop lt s x ?q (h[p := h ! ?q])"
      using True by (simp add: siftdown_loop.simps [of lt s x p h] Let_def)
    let ?h = "h[p := h ! ?q]"
    have sib: "\<not> lt (h ! c) (h ! ?q)" if "c < length h" "edge ?q c" "c \<noteq> p" for c
      using but [THEN conjunct1, rule_format, of c ?q] that q below_ge [OF q(3)] by simp
    have gc: "\<not> lt (h ! c) (h ! ?q)" if "c < length h" "edge p c" for c
      using but [THEN conjunct2, rule_format, of c] that q True edge_less [OF that(2)] by simp
    have kids: "\<not> lt (?h ! c) x" if "c < length ?h" "edge ?q c" for c
    proof (cases "c = p")
      case False
      then show ?thesis using sib [of c] that True lt_asym not_lt_trans [of "h ! ?q" x "h ! c"]
        by simp
    qed (use True lt_asym less.prems(1) in simp)
    have hb: "heap_but lt s ?q (?h[?q := x])"
      unfolding heap_but_def
    proof (intro conjI allI impI)
      fix c i assume c: "c < length (?h[?q := x])" "s \<le> i" "edge i c \<and> i \<noteq> ?q \<and> c \<noteq> ?q"
      then have cp: "c \<noteq> p" "c < length h" using edge_unique [of i p ?q] q(4) by auto
      show "\<not> lt (?h[?q := x] ! c) (?h[?q := x] ! i)"
      proof (cases "i = p")
        case True
        then show ?thesis using gc [of c] c cp less.prems(1) by simp
      next
        case False
        then show ?thesis using but [THEN conjunct1, rule_format, of c i] c cp by simp
      qed
    next
      fix c assume c: "c < length (?h[?q := x])" "edge ?q c \<and> s < ?q"
      define g where "g = (?q - 1) div 2"
      have e: "edge g ?q" and gs: "g \<ge> s"
        using c below_ge [OF below_parent [OF q(3)]] by (simp_all add: edge_def g_def)
      then have ne: "g \<noteq> p" "g \<noteq> ?q" "c \<noteq> ?q" using edge_less [OF e] edge_less [of ?q c] c q(1) by linarith+
      have up: "\<not> lt (h ! ?q) (h ! g)"
        using but [THEN conjunct1, rule_format, of ?q g] e gs ne q(1,2) by simp
      have "\<not> lt (?h[?q := x] ! c) (h ! g)"
        using c ne up sib [of c] not_lt_trans [of "h ! ?q" "h ! g" "h ! c"]
        by (cases "c = p") simp_all
      then show "\<not> lt (?h[?q := x] ! c) (?h[?q := x] ! ((?q - 1) div 2))"
        unfolding g_def [symmetric] using ne by simp
    qed
    have ms: "mset (?h[?q := x]) = mset (h[p := x])"
    proof -
      have "?h[?q := x] = (h[p := x])[p := (h[p := x]) ! ?q, ?q := (h[p := x]) ! p]"
        using q less.prems(1) by simp
      then show ?thesis using mset_swap [of ?q "h[p := x]" p] q less.prems(1) by simp
    qed
    have len: "?q < length ?h" using q by simp
    show ?thesis using less.IH [OF q(1) len q(3) hb kids] ms step by simp
  next
    case False
    have eq: "siftdown_loop lt s x p h = h[p := x]"
      using False by (simp add: siftdown_loop.simps [of lt s x p h] Let_def)
    have "\<not> lt (h[p := x] ! c) (h[p := x] ! i)" if "c < length h" "s \<le> i" "edge i c" for c i
    proof (cases "i = p \<or> c = p")
      case True
      then show ?thesis using that False less.prems(1,4) edge_less [OF that(3)]
        by (auto simp: nth_list_update edge_def)
    qed (use but that in auto)
    then show ?thesis by (simp add: eq heap_from_def)
  qed
qed

lemma siftup_loop_heap:
  assumes "p < length h" "below s p" "heap_but lt s p (h[p := x])"
    and "siftup_loop lt p h = (p', h')"
  shows "p' < length h \<and> length h' = length h \<and> below s p' \<and> 2 * p' + 1 \<ge> length h
    \<and> heap_but lt s p' (h'[p' := x]) \<and> mset (h'[p' := x]) = mset (h[p := x])"
  using assms
proof (induction "length h - p" arbitrary: p h rule: less_induct)
  case less
  show ?case
  proof (cases "2 * p + 1 < length h")
    case False
    then have "siftup_loop lt p h = (p, h)" by (simp add: siftup_loop.simps [of lt p h])
    then show ?thesis using less.prems False by simp
  next
    case True
    define c where "c = smaller_child lt h (2 * p + 1)"
    have e: "edge p c" and c: "c < length h" using True by (auto simp: c_def smaller_child_def edge_children)
    let ?h = "h[p := h ! c]"
    note but = less.prems(3) [unfolded heap_but_def]
    have step: "siftup_loop lt c ?h = (p', h')"
      using True less.prems(4) by (simp add: siftup_loop.simps [of lt p h] Let_def c_def)
    have pc: "p < c" by (rule edge_less [OF e])
    have least: "\<not> lt (h ! d) (h ! c)" if "edge p d" "d < length h" for d
      using that True lt_asym [of "h ! d" "h ! d"] lt_asym [of "h ! (2 * p + 1)" "h ! (2 * p + 2)"]
      by (auto simp: c_def smaller_child_def edge_children)
    have hb: "heap_but lt s c (?h[c := x])"
      unfolding heap_but_def
    proof (intro conjI allI impI)
      fix d i assume d: "d < length (?h[c := x])" "s \<le> i" "edge i d \<and> i \<noteq> c \<and> d \<noteq> c"
      consider "i = p" | "d = p" | "i \<noteq> p" "d \<noteq> p" by blast
      then show "\<not> lt (?h[c := x] ! d) (?h[c := x] ! i)"
      proof cases
        case 1
        then show ?thesis using d least [of d] pc edge_less [of i d] by simp
      next
        case 2
        have i: "i = (p - 1) div 2" "s < p" "i < p" using 2 d edge_less [of i d] by (auto simp: edge_def)
        have "i \<noteq> c" "i \<noteq> p" using pc i by linarith+
        then have "\<not> lt (h ! c) (h ! i)"
          using but [THEN conjunct2, rule_format, of c] e c pc i(2) unfolding i(1) [symmetric] by simp
        then show ?thesis using 2 d pc c i(3) by simp
      next
        case 3
        then show ?thesis using but [THEN conjunct1, rule_format, of d i] d by simp
      qed
    next
      fix d assume d: "d < length (?h[c := x])" "edge c d \<and> s < c"
      have par: "(c - 1) div 2 = p" using e by (simp add: edge_def)
      have "c < d" using d edge_less by blast
      then have "\<not> lt (h ! d) (h ! c)"
        using but [THEN conjunct1, rule_format, of d c] d pc by simp
      then show "\<not> lt (?h[c := x] ! d) (?h[c := x] ! ((c - 1) div 2))"
        unfolding par using \<open>c < d\<close> pc c by simp
    qed
    have ms: "mset (?h[c := x]) = mset (h[p := x])"
    proof -
      have "?h[c := x] = (h[p := x])[p := (h[p := x]) ! c, c := (h[p := x]) ! p]"
        using pc less.prems(1) by simp
      then show ?thesis using mset_swap [of c "h[p := x]" p] pc c less.prems(1) by simp
    qed
    have m: "length ?h - c < length h - p" "c < length ?h" using pc c by simp_all
    show ?thesis using less.hyps [OF m below_child [OF less.prems(2) e] hb step] ms by simp
  qed
qed

text \<open>One \<^verbatim>\<open>_siftup\<close> extends the heap property by one position.\<close>

lemma siftup_heap:
  assumes "p < length h" "heap_from lt (Suc p) h"
  shows "heap_from lt p (siftup lt p h) \<and> mset (siftup lt p h) = mset h"
proof -
  let ?x = "h ! p"
  obtain p' h' where loop: "siftup_loop lt p h = (p', h')" by fastforce
  have "heap_but lt p p (h[p := ?x])"
    using assms(2) unfolding heap_from_def heap_but_def by (auto simp: Suc_le_eq)
  then have L: "p' < length h" "length h' = length h" "below p p'" "2 * p' + 1 \<ge> length h"
    "heap_but lt p p' (h'[p' := ?x])" "mset (h'[p' := ?x]) = mset h"
    using siftup_loop_heap [OF assms(1) below_refl _ loop, of ?x] by simp_all
  let ?h = "h'[p' := ?x]"
  have leaf: "\<not> lt (?h ! c) ?x" if "c < length ?h" "edge p' c" for c
    using that L by (simp add: edge_children)
  have "siftup lt p h = siftdown_loop lt p ?x p' ?h" using L by (simp add: siftup_def siftdown_def loop)
  then show ?thesis using siftdown_loop_heap [of p' ?h p ?x] L leaf by simp
qed

lemma heappush_heap:
  assumes "heap_from lt 0 h"
  shows "heap_from lt 0 (heappush lt x h) \<and> mset (heappush lt x h) = add_mset x (mset h)"
proof -
  let ?h = "h @ [x]" and ?p = "length h"
  have leaf: "\<not> edge ?p c" if "c < length ?h" for c using that by (auto simp: edge_def)
  have "heap_but lt 0 ?p (?h[?p := x])"
    using assms leaf by (auto simp: heap_but_def heap_from_def nth_append dest: edge_less)
  then show ?thesis
    using siftdown_loop_heap [of ?p ?h 0 x] leaf by (simp add: heappush_def siftdown_def)
qed

lemma heap_root_least:
  assumes "heap_from lt 0 h" "i < length h"
  shows "\<not> lt (h ! i) (h ! 0)"
  using assms(2)
proof (induction i rule: less_induct)
  case (less i)
  show ?case
  proof (cases "i = 0")
    case True
    then show ?thesis using lt_asym by blast
  next
    case False
    then have "edge ((i - 1) div 2) i" "(i - 1) div 2 < i" by (auto simp: edge_def)
    moreover from this have "\<not> lt (h ! i) (h ! ((i - 1) div 2))"
      using assms(1) less.prems by (auto simp: heap_from_def)
    ultimately show ?thesis using less not_lt_trans [of "h ! ((i - 1) div 2)" "h ! 0" "h ! i"] by simp
  qed
qed

lemma heappop_heap:
  assumes "heap_from lt 0 h" "h \<noteq> []"
  shows "\<exists>x h'. heappop lt h = Inr (x, h') \<and> x = h ! 0 \<and> heap_from lt 0 h' \<and> mset h = add_mset x (mset h')
    \<and> (\<forall>y \<in> set h. \<not> lt y x)"
proof -
  have least: "\<forall>y \<in> set h. \<not> lt y (h ! 0)"
    using heap_root_least [OF assms(1)] by (auto simp: in_set_conv_nth)
  show ?thesis
  proof (cases "butlast h = []")
    case True
    then obtain y where "h = [y]" using assms(2) by (cases h) (auto split: if_splits)
    then show ?thesis using least by (simp add: heappop_def heap_from_def)
  next
    case False
    then obtain x t y where h: "h = x # t @ [y]"
      using assms(2) by (cases h; cases "tl h" rule: rev_cases) (auto split: if_splits)
    let ?h = "y # t"
    have "heap_from lt (Suc 0) ?h"
    proof -
      have "\<not> lt (?h ! c) (?h ! i)" if "c < length ?h" "Suc 0 \<le> i" "edge i c" for c i
      proof -
        have "\<not> lt (h ! c) (h ! i)" using assms(1) [unfolded heap_from_def, rule_format, of c i] that h by simp
        moreover have "c - Suc 0 < length t" "i - Suc 0 < length t" using that edge_less [OF that(3)] by auto
        ultimately show ?thesis using that edge_less [OF that(3)] h by (simp add: nth_Cons' nth_append)
      qed
      then show ?thesis by (simp add: heap_from_def)
    qed
    then have "heap_from lt 0 (siftup lt 0 ?h)" "mset (siftup lt 0 ?h) = mset ?h"
      using siftup_heap [of 0 ?h] by simp_all
    moreover have "heappop lt h = Inr (x, siftup lt 0 ?h)" by (simp add: h heappop_def butlast_append)
    ultimately show ?thesis using least h by simp
  qed
qed

lemma heapify_heap: "heap_from lt 0 (heapify lt h) \<and> mset (heapify lt h) = mset h"
proof -
  have "heap_from lt 0 (fold (siftup lt) (rev [0..<n]) k) \<and> mset (fold (siftup lt) (rev [0..<n]) k) = mset k"
    if "heap_from lt n k" "n \<le> length k" for n k
    using that
  proof (induction n arbitrary: k)
    case (Suc n)
    then have "heap_from lt n (siftup lt n k)" "mset (siftup lt n k) = mset k" using siftup_heap [of n k] by simp_all
    then show ?case using Suc.IH [of "siftup lt n k"] Suc.prems(2) mset_eq_length [of "siftup lt n k" k] by simp
  qed simp
  moreover have "heap_from lt (length h div 2) h" by (auto simp: heap_from_def edge_children)
  ultimately show ?thesis by (simp add: heapify_def)
qed

end

end
