(* ===== verification/Request_Queue.thy ===== *)
theory Request_Queue
  imports Heapq Request
begin

text \<open>
  The queues of waiting requests (src/vllm/vllm/v1/core/sched/request_queue.py): the FCFS queue, a
  deque, and the priority queue, a binary heap over \<^verbatim>\<open>Request.__lt__\<close>. A queue holds references to
  requests; two references are equal when they are the same object, and the order \<open>lt\<close> compares the
  requests behind them. The locale \<open>waiting_queue\<close> is the contract of the abstract base class
  \<^verbatim>\<open>RequestQueue\<close>: what each operation does to the requests held.
\<close>

section \<open>The queues\<close>

datatype scheduling_policy = FCFS | PRIORITY

datatype 'a request_queue = FCFSRequestQueue "'a list" | PriorityRequestQueue "'a list"

fun create_request_queue :: "scheduling_policy \<Rightarrow> 'a request_queue" where
  "create_request_queue PRIORITY = PriorityRequestQueue []"
| "create_request_queue FCFS = FCFSRequestQueue []"

fun add_request :: "('a \<Rightarrow> 'a \<Rightarrow> bool) \<Rightarrow> 'a \<Rightarrow> 'a request_queue \<Rightarrow> 'a request_queue" where
  "add_request lt x (FCFSRequestQueue q) = FCFSRequestQueue (q @ [x])"
| "add_request lt x (PriorityRequestQueue h) = PriorityRequestQueue (heappush lt x h)"

fun pop_request :: "('a \<Rightarrow> 'a \<Rightarrow> bool) \<Rightarrow> 'a request_queue \<Rightarrow> ('a \<times> 'a request_queue) res" where
  "pop_request lt (FCFSRequestQueue q) =
     (case q of [] \<Rightarrow> Inl IndexError | x # xs \<Rightarrow> Inr (x, FCFSRequestQueue xs))"
| "pop_request lt (PriorityRequestQueue h) =
     (if h = [] then Inl IndexError
      else res_bind (heappop lt h) (\<lambda>(x, h'). Inr (x, PriorityRequestQueue h')))"

fun peek_request :: "'a request_queue \<Rightarrow> 'a res" where
  "peek_request (FCFSRequestQueue q) = (if q = [] then Inl IndexError else Inr (hd q))"
| "peek_request (PriorityRequestQueue h) = (if h = [] then Inl IndexError else Inr (hd h))"

fun prepend_request :: "('a \<Rightarrow> 'a \<Rightarrow> bool) \<Rightarrow> 'a \<Rightarrow> 'a request_queue \<Rightarrow> 'a request_queue" where
  "prepend_request lt x (FCFSRequestQueue q) = FCFSRequestQueue (x # q)"
| "prepend_request lt x (PriorityRequestQueue h) = add_request lt x (PriorityRequestQueue h)"

text \<open>\<^verbatim>\<open>__iter__\<close> of the priority queue pops a copy of the heap until it is empty.\<close>

fun drain_heap :: "('a \<Rightarrow> 'a \<Rightarrow> bool) \<Rightarrow> nat \<Rightarrow> 'a list \<Rightarrow> 'a list" where
  "drain_heap lt 0 h = []"
| "drain_heap lt (Suc n) h =
     (case heappop lt h of Inl e \<Rightarrow> [] | Inr (x, h') \<Rightarrow> x # drain_heap lt n h')"

fun queue_iter :: "('a \<Rightarrow> 'a \<Rightarrow> bool) \<Rightarrow> 'a request_queue \<Rightarrow> 'a list" where
  "queue_iter lt (FCFSRequestQueue q) = q"
| "queue_iter lt (PriorityRequestQueue h) = drain_heap lt (length h) h"

fun prepend_requests ::
  "('a \<Rightarrow> 'a \<Rightarrow> bool) \<Rightarrow> 'a request_queue \<Rightarrow> 'a request_queue \<Rightarrow> 'a request_queue" where
  "prepend_requests lt other (FCFSRequestQueue q) = FCFSRequestQueue (rev (queue_iter lt other) @ q)"
| "prepend_requests lt other (PriorityRequestQueue h) =
     fold (add_request lt) (queue_iter lt other) (PriorityRequestQueue h)"

fun remove_request :: "('a \<Rightarrow> 'a \<Rightarrow> bool) \<Rightarrow> 'a \<Rightarrow> 'a request_queue \<Rightarrow> 'a request_queue res" where
  "remove_request lt x (FCFSRequestQueue q) =
     guard (x \<in> set q) ValueError (Inr (FCFSRequestQueue (remove1 x q)))"
| "remove_request lt x (PriorityRequestQueue h) =
     guard (x \<in> set h) ValueError (Inr (PriorityRequestQueue (heapify lt (remove1 x h))))"

fun remove_requests :: "('a \<Rightarrow> 'a \<Rightarrow> bool) \<Rightarrow> 'a list \<Rightarrow> 'a request_queue \<Rightarrow> 'a request_queue" where
  "remove_requests lt xs (FCFSRequestQueue q) = FCFSRequestQueue (filter (\<lambda>r. r \<notin> set xs) q)"
| "remove_requests lt xs (PriorityRequestQueue h) =
     PriorityRequestQueue (heapify lt (filter (\<lambda>r. r \<notin> set xs) h))"

fun queue_len :: "'a request_queue \<Rightarrow> nat" where
  "queue_len (FCFSRequestQueue q) = length q"
| "queue_len (PriorityRequestQueue h) = length h"

fun queue_nonempty :: "'a request_queue \<Rightarrow> bool" where
  "queue_nonempty (FCFSRequestQueue q) = (length q > 0)"
| "queue_nonempty (PriorityRequestQueue h) = (h \<noteq> [])"

section \<open>The contract of a waiting queue\<close>

text \<open>
  \<open>held\<close> gives the requests in the queue and \<open>first q x\<close> that the policy allows \<open>x\<close> to be served next.
\<close>

locale waiting_queue =
  fixes inv :: "'q \<Rightarrow> bool" and members :: "'q \<Rightarrow> 'a multiset" and first :: "'q \<Rightarrow> 'a \<Rightarrow> bool"
    and add :: "'a \<Rightarrow> 'q \<Rightarrow> 'q" and pop :: "'q \<Rightarrow> ('a \<times> 'q) res" and peek :: "'q \<Rightarrow> 'a res"
    and rem :: "'a \<Rightarrow> 'q \<Rightarrow> 'q res" and rems :: "'a list \<Rightarrow> 'q \<Rightarrow> 'q"
  assumes add_law: "inv q \<Longrightarrow> inv (add x q) \<and> members (add x q) = add_mset x (members q)"
    and pop_empty: "members q = {#} \<Longrightarrow> pop q = Inl IndexError \<and> peek q = Inl IndexError"
    and pop_law: "inv q \<Longrightarrow> members q \<noteq> {#} \<Longrightarrow> \<exists>x q'. pop q = Inr (x, q') \<and> peek q = Inr x \<and> inv q'
      \<and> members q = add_mset x (members q') \<and> first q x"
    and rem_law: "inv q \<Longrightarrow> (x \<in># members q \<longrightarrow> (\<exists>q'. rem x q = Inr q' \<and> inv q' \<and> members q' = members q - {#x#}))
      \<and> (x \<notin># members q \<longrightarrow> rem x q = Inl ValueError)"
    and rems_law: "inv q \<Longrightarrow> inv (rems xs q) \<and> members (rems xs q) = filter_mset (\<lambda>r. r \<notin> set xs) (members q)"
begin

text \<open>Serving the queue until it is empty.\<close>

primrec drain :: "nat \<Rightarrow> 'q \<Rightarrow> 'a list" where
  "drain 0 q = []"
| "drain (Suc n) q = (case pop q of Inl e \<Rightarrow> [] | Inr (x, q') \<Rightarrow> x # drain n q')"

lemma drain_all: "inv q \<Longrightarrow> mset (drain (size (members q)) q) = members q"
proof (induction "size (members q)" arbitrary: q)
  case (Suc n)
  then have "members q \<noteq> {#}" by auto
  then obtain x q' where p: "pop q = Inr (x, q')" "inv q'" "members q = add_mset x (members q')"
    using pop_law [OF Suc.prems] by blast
  then show ?case using Suc.hyps(1) [of q'] Suc.hyps(2) by simp
qed simp

lemma remove_then_readd:
  assumes "inv q" "x \<in># members q"
  shows "\<exists>q'. rem x q = Inr q' \<and> members (add x q') = members q"
proof -
  obtain q' where "rem x q = Inr q'" "inv q'" "members q' = members q - {#x#}" using rem_law [OF assms(1)] assms(2) by blast
  then show ?thesis using add_law assms(2) by simp
qed

lemma add_fold:
  "inv q \<Longrightarrow> inv (fold add xs q) \<and> members (fold add xs q) = members q + mset xs"
  by (induction xs arbitrary: q) (simp_all add: add_law)

end

section \<open>The queues meet the contract\<close>

fun members :: "'a request_queue \<Rightarrow> 'a multiset" where
  "members (FCFSRequestQueue q) = mset q"
| "members (PriorityRequestQueue h) = mset h"

fun queue_inv :: "('a \<Rightarrow> 'a \<Rightarrow> bool) \<Rightarrow> 'a request_queue \<Rightarrow> bool" where
  "queue_inv lt (FCFSRequestQueue q) = True"
| "queue_inv lt (PriorityRequestQueue h) = heap_from lt 0 h"

fun serves_first :: "('a \<Rightarrow> 'a \<Rightarrow> bool) \<Rightarrow> 'a request_queue \<Rightarrow> 'a \<Rightarrow> bool" where
  "serves_first lt (FCFSRequestQueue q) x \<longleftrightarrow> (\<exists>xs. q = x # xs)"
| "serves_first lt (PriorityRequestQueue h) x \<longleftrightarrow> (\<forall>y \<in> set h. \<not> lt y x)"

text \<open>The order of two requests behind references, \<^verbatim>\<open>Request.__lt__\<close>.\<close>

definition ref_lt :: "('a \<Rightarrow> request) \<Rightarrow> 'a \<Rightarrow> 'a \<Rightarrow> bool" where
  "ref_lt st a b = request_lt (st a) (st b)"

lemma request_not_lt_trans: "\<not> request_lt s r \<Longrightarrow> \<not> request_lt t s \<Longrightarrow> \<not> request_lt t r"
  by (auto simp: request_lt_def split: if_splits)

interpretation hq: heap_order "ref_lt st" for st :: "'a \<Rightarrow> request"
  by unfold_locales (auto simp: ref_lt_def dest: request_lt_asym request_not_lt_trans)

context heap_order
begin

lemma queue_contract:
  "waiting_queue (queue_inv lt) members (serves_first lt) (add_request lt) (pop_request lt) peek_request
     (remove_request lt) (remove_requests lt)"
proof
  fix q :: "'a request_queue" and x
  assume "queue_inv lt q"
  then show "queue_inv lt (add_request lt x q) \<and> members (add_request lt x q) = add_mset x (members q)"
    using heappush_heap by (cases q) simp_all
next
  fix q :: "'a request_queue"
  assume "members q = {#}"
  then show "pop_request lt q = Inl IndexError \<and> peek_request q = Inl IndexError" by (cases q) simp_all
next
  fix q :: "'a request_queue"
  assume q: "queue_inv lt q" "members q \<noteq> {#}"
  show "\<exists>x q'. pop_request lt q = Inr (x, q') \<and> peek_request q = Inr x \<and> queue_inv lt q'
      \<and> members q = add_mset x (members q') \<and> serves_first lt q x"
  proof (cases q)
    case (FCFSRequestQueue xs)
    then show ?thesis using q by (cases xs) auto
  next
    case (PriorityRequestQueue h)
    then obtain x h' where "heappop lt h = Inr (x, h')" "x = h ! 0" "heap_from lt 0 h'"
      "mset h = add_mset x (mset h')" "\<forall>y \<in> set h. \<not> lt y x"
      using heappop_heap [of h] q by auto
    then show ?thesis using PriorityRequestQueue q by (auto simp: hd_conv_nth)
  qed
next
  fix q :: "'a request_queue" and x
  assume "queue_inv lt q"
  then show "(x \<in># members q \<longrightarrow> (\<exists>q'. remove_request lt x q = Inr q' \<and> queue_inv lt q' \<and> members q' = members q - {#x#}))
      \<and> (x \<notin># members q \<longrightarrow> remove_request lt x q = Inl ValueError)"
    using heapify_heap by (cases q) simp_all
next
  fix q :: "'a request_queue" and xs
  assume "queue_inv lt q"
  then show "queue_inv lt (remove_requests lt xs q)
      \<and> members (remove_requests lt xs q) = filter_mset (\<lambda>r. r \<notin> set xs) (members q)"
    using heapify_heap by (cases q) simp_all
qed

end

interpretation wq: waiting_queue "queue_inv (ref_lt st)" members "serves_first (ref_lt st)" "add_request (ref_lt st)"
  "pop_request (ref_lt st)" peek_request "remove_request (ref_lt st)" "remove_requests (ref_lt st)"
  for st :: "'a \<Rightarrow> request"
  by (rule hq.queue_contract)

text \<open>Three requests with priorities 1, 1, 0 and arrival times 9, 8, 7.\<close>

definition example_ref :: "nat \<Rightarrow> request" where
  "example_ref i = (example_request [])\<lparr>object_id := i, priority := (if i = 2 then 0 else 1),
     arrival_time := of_nat (9 - i)\<rparr>"

lemma example_heap:
  "heap_from (ref_lt example_ref) 0 [2, 0, 1]" "heap_from (ref_lt example_ref) 0 [2, 1, 0]"
proof -
  have "fold (heappush (ref_lt example_ref)) [0, 1, 2] [] = [2, 0, 1]"
    "fold (heappush (ref_lt example_ref)) [2, 1, 0] [] = [2, 1, 0]" by code_simp+
  then show "heap_from (ref_lt example_ref) 0 [2, 0, 1]" "heap_from (ref_lt example_ref) 0 [2, 1, 0]"
    using wq.add_fold [of example_ref "PriorityRequestQueue []" "[0, 1, 2]"]
      wq.add_fold [of example_ref "PriorityRequestQueue []" "[2, 1, 0]"]
    by (simp_all add: heap_from_def)
qed

text \<open>The order of service: the requests that \<^verbatim>\<open>pop_request\<close> returns until the queue is empty.\<close>

fun pop_times :: "('a \<Rightarrow> 'a \<Rightarrow> bool) \<Rightarrow> nat \<Rightarrow> 'a request_queue \<Rightarrow> 'a list" where
  "pop_times lt 0 q = []"
| "pop_times lt (Suc n) q = (case pop_request lt q of Inl e \<Rightarrow> [] | Inr (x, q') \<Rightarrow> x # pop_times lt n q')"

definition service_order :: "('a \<Rightarrow> 'a \<Rightarrow> bool) \<Rightarrow> 'a request_queue \<Rightarrow> 'a list" where
  "service_order lt q = pop_times lt (queue_len q) q"

lemma pop_times_fcfs: "pop_times lt (length ys) (FCFSRequestQueue ys) = ys"
  by (induction ys) simp_all

lemma service_order_fcfs: "service_order lt (FCFSRequestQueue ys) = ys"
  by (simp add: service_order_def pop_times_fcfs)

lemma pop_times_heap: "pop_times lt n (PriorityRequestQueue h) = drain_heap lt n h"
  by (induction n arbitrary: h) (auto simp: heappop_def split: sum.splits prod.splits)

lemma pop_times_iter: "pop_times lt (queue_len q) q = queue_iter lt q"
  by (cases q) (simp_all add: pop_times_fcfs pop_times_heap)

text \<open>
  C19: every operation of both queues does to the held requests what \<^verbatim>\<open>RequestQueue\<close> promises and keeps the
  heap property: \<^verbatim>\<open>add_request\<close> and \<^verbatim>\<open>prepend_request\<close> add one request, \<^verbatim>\<open>pop_request\<close> takes the one that
  \<^verbatim>\<open>peek_request\<close> shows, which no held request precedes (the oldest of a FCFS queue), \<^verbatim>\<open>remove_request\<close>
  takes the given one or raises \<^verbatim>\<open>ValueError\<close>, \<^verbatim>\<open>remove_requests\<close> exactly the given ones; popping from or
  peeking into an empty queue raises \<^verbatim>\<open>IndexError\<close>. Iterating lists the requests in the order in which
  \<^verbatim>\<open>pop_request\<close> serves them. The FCFS queue serves first come, first served: an added request is
  served after all others, a prepended one before them, the requests of a prepended queue before them in
  reverse order, and removals keep the order of the rest.
\<close>

theorem request_queue_contract:
  fixes st :: "'a \<Rightarrow> request"
  assumes inv: "queue_inv (ref_lt st) q"
  shows "queue_inv (ref_lt st) (add_request (ref_lt st) x q) \<and> members (add_request (ref_lt st) x q) = add_mset x (members q)
    \<and> queue_inv (ref_lt st) (prepend_request (ref_lt st) x q)
    \<and> members (prepend_request (ref_lt st) x q) = add_mset x (members q)
    \<and> (case pop_request (ref_lt st) q of
         Inl e \<Rightarrow> e = IndexError \<and> \<not> queue_nonempty q \<and> peek_request q = Inl IndexError
       | Inr (y, q') \<Rightarrow> peek_request q = Inr y \<and> queue_inv (ref_lt st) q' \<and> members q = add_mset y (members q')
           \<and> serves_first (ref_lt st) q y)
    \<and> (case remove_request (ref_lt st) x q of
         Inl e \<Rightarrow> e = ValueError \<and> x \<notin># members q
       | Inr q' \<Rightarrow> x \<in># members q \<and> queue_inv (ref_lt st) q' \<and> members q' = members q - {#x#})
    \<and> queue_inv (ref_lt st) (remove_requests (ref_lt st) xs q)
    \<and> members (remove_requests (ref_lt st) xs q) = filter_mset (\<lambda>r. r \<notin> set xs) (members q)
    \<and> queue_len q = size (members q) \<and> (queue_nonempty q \<longleftrightarrow> members q \<noteq> {#})
    \<and> pop_times (ref_lt st) (queue_len q) q = queue_iter (ref_lt st) q
    \<and> (\<forall>ys. q = FCFSRequestQueue ys \<longrightarrow>
         service_order (ref_lt st) q = ys
         \<and> service_order (ref_lt st) (add_request (ref_lt st) x q) = ys @ [x]
         \<and> service_order (ref_lt st) (prepend_request (ref_lt st) x q) = x # ys
         \<and> service_order (ref_lt st) (prepend_requests (ref_lt st) other q) = rev (queue_iter (ref_lt st) other) @ ys
         \<and> (\<forall>y q'. pop_request (ref_lt st) q = Inr (y, q') \<longrightarrow> ys = y # service_order (ref_lt st) q')
         \<and> (\<forall>q'. remove_request (ref_lt st) x q = Inr q' \<longrightarrow> service_order (ref_lt st) q' = remove1 x ys)
         \<and> service_order (ref_lt st) (remove_requests (ref_lt st) xs q) = filter (\<lambda>r. r \<notin> set xs) ys)"
proof -
  have ne: "queue_nonempty q \<longleftrightarrow> members q \<noteq> {#}" and len: "queue_len q = size (members q)"
    by (cases q; simp)+
  have pre: "queue_inv (ref_lt st) (prepend_request (ref_lt st) x q)
      \<and> members (prepend_request (ref_lt st) x q) = add_mset x (members q)"
    using wq.add_law [OF inv, of x] by (cases q) simp_all
  have pop: "case pop_request (ref_lt st) q of
         Inl e \<Rightarrow> e = IndexError \<and> \<not> queue_nonempty q \<and> peek_request q = Inl IndexError
       | Inr (y, q') \<Rightarrow> peek_request q = Inr y \<and> queue_inv (ref_lt st) q' \<and> members q = add_mset y (members q')
           \<and> serves_first (ref_lt st) q y"
    using wq.pop_law [OF inv] wq.pop_empty [of q st] ne by (cases "members q = {#}") auto
  have rem: "case remove_request (ref_lt st) x q of
         Inl e \<Rightarrow> e = ValueError \<and> x \<notin># members q
       | Inr q' \<Rightarrow> x \<in># members q \<and> queue_inv (ref_lt st) q' \<and> members q' = members q - {#x#}"
    using wq.rem_law [OF inv, of x] by (cases "x \<in># members q") auto
  have fcfs: "\<forall>ys. q = FCFSRequestQueue ys \<longrightarrow>
         service_order (ref_lt st) q = ys
         \<and> service_order (ref_lt st) (add_request (ref_lt st) x q) = ys @ [x]
         \<and> service_order (ref_lt st) (prepend_request (ref_lt st) x q) = x # ys
         \<and> service_order (ref_lt st) (prepend_requests (ref_lt st) other q) = rev (queue_iter (ref_lt st) other) @ ys
         \<and> (\<forall>y q'. pop_request (ref_lt st) q = Inr (y, q') \<longrightarrow> ys = y # service_order (ref_lt st) q')
         \<and> (\<forall>q'. remove_request (ref_lt st) x q = Inr q' \<longrightarrow> service_order (ref_lt st) q' = remove1 x ys)
         \<and> service_order (ref_lt st) (remove_requests (ref_lt st) xs q) = filter (\<lambda>r. r \<notin> set xs) ys"
    by (auto simp: service_order_fcfs guard_def split: list.splits if_splits)
  show ?thesis
    using wq.add_law [OF inv, of x] wq.rems_law [OF inv, of xs] pre pop rem ne len fcfs pop_times_iter [of "ref_lt st" q]
    by simp
qed

theorem request_queue_contract_witness:
  "service_order (ref_lt example_ref) (add_request (ref_lt example_ref) 1 (FCFSRequestQueue [2, 0])) = [2, 0, 1]
   \<and> queue_inv (ref_lt example_ref) (PriorityRequestQueue [2, 0, 1])
   \<and> members (remove_requests (ref_lt example_ref) [0] (PriorityRequestQueue [2, 0, 1])) = {#1, 2#}
   \<and> remove_request (ref_lt example_ref) 7 (PriorityRequestQueue [2, 0, 1]) = Inl ValueError"
proof -
  have inv: "queue_inv (ref_lt example_ref) (PriorityRequestQueue [2, 0, 1])"
    using example_heap by simp
  show ?thesis
    using request_queue_contract [OF inv, of 7 "[0]"] inv
      request_queue_contract [of example_ref "FCFSRequestQueue [2, 0]" 1] by (simp add: add_mset_commute)
qed

section \<open>Order of service\<close>

text \<open>Iterating over a heap yields its elements in order.\<close>

context heap_order
begin

lemma drain_heap_sorted:
  assumes "heap_from lt 0 h"
  shows "mset (drain_heap lt (length h) h) = mset h \<and> sorted_wrt (\<lambda>x y. \<not> lt y x) (drain_heap lt (length h) h)"
  using assms
proof (induction "length h" arbitrary: h)
  case (Suc n)
  then have "h \<noteq> []" by auto
  then obtain x h' where p: "heappop lt h = Inr (x, h')" "heap_from lt 0 h'"
    "mset h = add_mset x (mset h')" "\<forall>y \<in> set h. \<not> lt y x"
    using heappop_heap [OF Suc.prems] by blast
  have len: "n = length h'" using Suc.hyps(2) p(3) by (metis Suc_inject size_add_mset size_mset)
  have D: "mset (drain_heap lt n h') = mset h'" "sorted_wrt (\<lambda>x y. \<not> lt y x) (drain_heap lt n h')"
    using Suc.hyps(1) [OF len p(2)] len by simp_all
  have "set (drain_heap lt n h') \<subseteq> set h" using D(1) p(3) by (metis set_mset_add_mset_insert set_mset_mset subset_insertI)
  then have "sorted_wrt (\<lambda>x y. \<not> lt y x) (x # drain_heap lt n h')" using D(2) p(4) by auto
  then show ?case using D(1) p(1,3) Suc.hyps(2) [symmetric] by simp
qed simp

end

lemma sorted_unique:
  assumes "mset xs = mset ys" "sorted_wrt R xs" "sorted_wrt R ys"
    and "\<And>x y. x \<in> set xs \<Longrightarrow> y \<in> set xs \<Longrightarrow> R x y \<Longrightarrow> R y x \<Longrightarrow> x = y"
  shows "xs = ys"
  using assms
proof (induction xs arbitrary: ys)
  case (Cons x xs)
  then obtain y ys' where ys: "ys = y # ys'" by (cases ys) auto
  have sets: "set (x # xs) = set ys" using Cons.prems(1) by (metis mset_eq_setD)
  have "x = y \<or> (R x y \<and> R y x)" using Cons.prems(2,3) sets unfolding ys by auto
  then have eq: "x = y" using Cons.prems(4) [of x y] sets ys by auto
  then show ?case using Cons.IH [of ys'] Cons.prems ys by simp
qed simp

lemma ref_lt_total:
  "inj_on (object_id \<circ> st) A \<Longrightarrow> x \<in> A \<Longrightarrow> y \<in> A \<Longrightarrow> \<not> ref_lt st x y \<Longrightarrow> \<not> ref_lt st y x \<Longrightarrow> x = y"
  using request_lt_total [of "st x" "st y"] by (auto simp: ref_lt_def inj_on_def)

text \<open>
  C20: the order of service of the priority queue is determined by the requests it holds, not by the history
  of the heap: two priority queues with the same requests are iterated in the same order, this order
  lists every held request once with the smaller (priority, arrival time, id) first, and the request
  that \<^verbatim>\<open>pop_request\<close> returns and \<^verbatim>\<open>peek_request\<close> shows is the first of it.
\<close>

theorem priority_order_determined:
  assumes inv: "queue_inv (ref_lt st) (PriorityRequestQueue h)" "queue_inv (ref_lt st) (PriorityRequestQueue h')"
    and same: "mset h = mset h'" and obj: "inj_on (object_id \<circ> st) (set h)"
  shows "queue_iter (ref_lt st) (PriorityRequestQueue h) = queue_iter (ref_lt st) (PriorityRequestQueue h')
    \<and> mset (queue_iter (ref_lt st) (PriorityRequestQueue h)) = mset h
    \<and> sorted_wrt (\<lambda>a b. \<not> ref_lt st b a) (queue_iter (ref_lt st) (PriorityRequestQueue h))
    \<and> (h \<noteq> [] \<longrightarrow> peek_request (PriorityRequestQueue h) = Inr (hd (queue_iter (ref_lt st) (PriorityRequestQueue h)))
        \<and> (\<exists>q. pop_request (ref_lt st) (PriorityRequestQueue h)
               = Inr (hd (queue_iter (ref_lt st) (PriorityRequestQueue h)), q)))"
proof -
  let ?lt = "ref_lt st"
  have D: "mset (drain_heap ?lt (length h) h) = mset h"
    "sorted_wrt (\<lambda>a b. \<not> ?lt b a) (drain_heap ?lt (length h) h)"
    "mset (drain_heap ?lt (length h') h') = mset h'"
    "sorted_wrt (\<lambda>a b. \<not> ?lt b a) (drain_heap ?lt (length h') h')"
    using hq.drain_heap_sorted [of st h] hq.drain_heap_sorted [of st h'] inv by simp_all
  have set: "set (drain_heap ?lt (length h) h) = set h" using D(1) by (metis set_mset_mset)
  have eq: "drain_heap ?lt (length h) h = drain_heap ?lt (length h') h'"
    using sorted_unique [OF _ D(2,4)] D(1,3) same ref_lt_total [OF obj] set by simp
  have "peek_request (PriorityRequestQueue h) = Inr (hd (drain_heap ?lt (length h) h))
      \<and> (\<exists>q. pop_request ?lt (PriorityRequestQueue h) = Inr (hd (drain_heap ?lt (length h) h), q))" if ne: "h \<noteq> []"
  proof -
    obtain x t where h: "h = x # t" using ne by (cases h) auto
    obtain y q where "heappop ?lt h = Inr (y, q)" "y = h ! 0" using hq.heappop_heap [of st h] ne inv by auto
    then show ?thesis using h by simp
  qed
  then show ?thesis using D eq by simp
qed

theorem priority_order_determined_witness:
  "queue_iter (ref_lt example_ref) (PriorityRequestQueue [2, 0, 1]) = [2, 1, 0]
   \<and> queue_iter (ref_lt example_ref) (PriorityRequestQueue [2, 1, 0]) = [2, 1, 0]
   \<and> peek_request (PriorityRequestQueue [2, 0, 1 :: nat]) = Inr 2"
proof -
  have inv: "queue_inv (ref_lt example_ref) (PriorityRequestQueue [2, 0, 1])"
    "queue_inv (ref_lt example_ref) (PriorityRequestQueue [2, 1, 0])"
    using example_heap by simp_all
  have it: "queue_iter (ref_lt example_ref) (PriorityRequestQueue [2, 0, 1]) = [2, 1, 0]" by code_simp
  have inj: "inj_on (object_id \<circ> example_ref) (set [2, 0, 1])" by (simp add: inj_on_def example_ref_def)
  show ?thesis using priority_order_determined [OF inv _ inj] it by simp
qed

text \<open>
  Requests that the scheduler skips keep their place. Setting the skipped requests aside one by one with
  \<^verbatim>\<open>prepend_request\<close> and giving them back with \<^verbatim>\<open>prepend_requests\<close> puts them, in their original order,
  before the rest of a FCFS queue; in a priority queue the requests held are the same as before.
\<close>

theorem skipped_requests_return:
  fixes xs :: "'a list" and st :: "'a \<Rightarrow> request"
  assumes "queue_inv (ref_lt st) q"
  defines "aside \<equiv> (\<lambda>p. fold (prepend_request (ref_lt st)) xs (create_request_queue p))"
  shows "(case q of
      FCFSRequestQueue ys \<Rightarrow> prepend_requests (ref_lt st) (aside FCFS) q = FCFSRequestQueue (xs @ ys)
    | PriorityRequestQueue ys \<Rightarrow> queue_inv (ref_lt st) (prepend_requests (ref_lt st) (aside PRIORITY) q)
        \<and> members (prepend_requests (ref_lt st) (aside PRIORITY) q) = mset xs + members q)"
proof (cases q)
  case (FCFSRequestQueue ys)
  have "fold (prepend_request (ref_lt st)) xs (FCFSRequestQueue zs) = FCFSRequestQueue (rev xs @ zs)" for zs
    by (induction xs arbitrary: zs) simp_all
  then show ?thesis by (simp add: FCFSRequestQueue aside_def)
next
  case (PriorityRequestQueue ys)
  let ?lt = "ref_lt st" and ?e = "PriorityRequestQueue []"
  have f: "fold (prepend_request ?lt) zs (PriorityRequestQueue k) = PriorityRequestQueue (fold (heappush ?lt) zs k)"
    "fold (add_request ?lt) zs (PriorityRequestQueue k) = PriorityRequestQueue (fold (heappush ?lt) zs k)" for zs k
    by (induction zs arbitrary: k) simp_all
  define h where "h = fold (heappush ?lt) xs []"
  have h: "fold (prepend_request ?lt) xs ?e = PriorityRequestQueue h" "fold (add_request ?lt) xs ?e = PriorityRequestQueue h"
    by (simp_all add: f h_def)
  have H: "heap_from ?lt 0 h" "mset h = mset xs"
    using wq.add_fold [of st ?e xs] h(2) by (simp_all add: heap_from_def)
  have "mset (drain_heap ?lt (length h) h) = mset xs" using hq.drain_heap_sorted [OF H(1)] H(2) by simp
  then show ?thesis
    using wq.add_fold [OF assms(1), of "drain_heap ?lt (length h) h"]
    by (simp add: PriorityRequestQueue aside_def h(1) add.commute)
qed

theorem skipped_requests_return_witness:
  "prepend_requests (ref_lt example_ref) (fold (prepend_request (ref_lt example_ref)) [1, 2] (create_request_queue FCFS))
     (FCFSRequestQueue [0]) = FCFSRequestQueue [1, 2, 0]"
  using skipped_requests_return [of example_ref "FCFSRequestQueue [0]" "[1, 2]"] by simp

end
