(* ===== verification/Sched_Utils.thy ===== *)
theory Sched_Utils
  imports Request
begin

text \<open>
  The helpers of the scheduler, src/vllm/vllm/v1/core/sched/utils.py: the stop check after a sampled token,
  the detection of a repeating tail and the removal of requests from a list.
\<close>

section \<open>Operations\<close>

text \<open>\<^verbatim>\<open>xs[-n]\<close> for \<open>n > 0\<close>.\<close>

definition nth_from_end :: "nat \<Rightarrow> 'a list \<Rightarrow> 'a res" where
  "nth_from_end n xs = (if n \<le> length xs then Inr (xs ! (length xs - n)) else Inl IndexError)"

text \<open>The two loops return at the first difference.\<close>

fun all_equal_back :: "int list \<Rightarrow> int \<Rightarrow> nat \<Rightarrow> nat \<Rightarrow> nat list \<Rightarrow> bool res" where
  "all_equal_back toks target plen n [] = Inr True"
| "all_equal_back toks target plen n (m # ms) =
     res_bind (nth_from_end (plen * m + n) toks) (\<lambda>t.
       if t \<noteq> target then Inr False else all_equal_back toks target plen n ms)"

fun pattern_loop :: "int list \<Rightarrow> nat \<Rightarrow> nat \<Rightarrow> nat list \<Rightarrow> bool res" where
  "pattern_loop toks plen count [] = Inr True"
| "pattern_loop toks plen count (n # ns) =
     res_bind (nth_from_end n toks) (\<lambda>target.
     res_bind (all_equal_back toks target plen n [1..<count]) (\<lambda>same.
       if same then pattern_loop toks plen count ns else Inr False))"

definition has_repeating_pattern :: "int list \<Rightarrow> nat \<Rightarrow> nat \<Rightarrow> bool res" where
  "has_repeating_pattern toks plen count = pattern_loop toks plen count [1..<plen + 1]"

fun repetition_loop :: "int list \<Rightarrow> nat \<Rightarrow> nat list \<Rightarrow> bool res" where
  "repetition_loop toks count [] = Inr False"
| "repetition_loop toks count (p # ps) =
     (if p * count > length toks then Inr False
      else res_bind (has_repeating_pattern toks p count) (\<lambda>found.
        if found then Inr True else repetition_loop toks count ps))"

definition check_sequence_repetition :: "int list \<Rightarrow> repetition_detection_params \<Rightarrow> bool res" where
  "check_sequence_repetition toks params =
     (let max_size = max_pattern_size params;
          min_size = (if min_pattern_size params \<le> 0 then 1 else min_pattern_size params) in
      if max_size \<le> 0 \<or> min_count params < 2 \<or> min_size > max_size then Inr False
      else repetition_loop toks (nat (min_count params)) [nat min_size..<nat max_size + 1])"

text \<open>\<^verbatim>\<open>remove_all\<close>: the set is given by the list of its elements in iteration order.\<close>

definition remove_all :: "'a list \<Rightarrow> 'a list \<Rightarrow> 'a list" where
  "remove_all lst items =
     (if items = [] then lst
      else if length items = 1 then remove1 (hd items) lst
      else filter (\<lambda>x. x \<notin> set items) lst)"

definition check_stop :: "request \<Rightarrow> int \<Rightarrow> (bool \<times> request) res" where
  "check_stop r max_model_len =
     guard (pooling_params r = None) AssertionError
     (case sampling_params r of
        None \<Rightarrow> Inl AssertionError
      | Some sp \<Rightarrow>
          if int (num_output_tokens r) < min_tokens sp then Inr (False, r)
          else res_bind (nth_from_end 1 (output_token_ids r)) (\<lambda>last_token_id.
            if Some last_token_id = eos_token_id sp then Inr (True, r\<lparr>status := FINISHED_STOPPED\<rparr>)
            else if last_token_id \<in> set (stop_token_ids sp)
            then Inr (True, r\<lparr>status := FINISHED_STOPPED, stop_reason := Some (StopToken last_token_id)\<rparr>)
            else if int (num_tokens r) \<ge> max_model_len \<or> int (num_output_tokens r) \<ge> max_tokens r
            then Inr (True, r\<lparr>status := FINISHED_LENGTH_CAPPED\<rparr>)
            else (case repetition_detection sp of
                    None \<Rightarrow> Inr (False, r)
                  | Some params \<Rightarrow>
                      res_bind (check_sequence_repetition (output_token_ids r) params) (\<lambda>found.
                        if found
                        then Inr (True, r\<lparr>status := FINISHED_REPETITION,
                                          stop_reason := Some (StopString ''repetition_detected'')\<rparr>)
                        else Inr (False, r)))))"

section \<open>Repetition\<close>

text \<open>The tail of the tokens is \<open>count\<close> copies of one pattern of length \<open>p\<close>.\<close>

definition tail_repeats :: "'a list \<Rightarrow> nat \<Rightarrow> nat \<Rightarrow> bool" where
  "tail_repeats toks p count \<longleftrightarrow> (\<exists>pre pat. toks = pre @ concat (replicate count pat) \<and> length pat = p)"

lemma all_equal_back_iff:
  assumes "\<forall>m \<in> set ms. plen * m + n \<le> length toks"
  shows "all_equal_back toks x plen n ms = Inr (\<forall>m \<in> set ms. toks ! (length toks - (plen * m + n)) = x)"
  using assms by (induction ms) (auto simp: nth_from_end_def)

lemma pattern_loop_iff:
  assumes "plen * count \<le> length toks" "count \<ge> 1" "set ns \<subseteq> {1..plen}"
  shows "pattern_loop toks plen count ns
    = Inr (\<forall>n \<in> set ns. \<forall>m \<in> {1..<count}. toks ! (length toks - (plen * m + n)) = toks ! (length toks - n))"
  using assms(3)
proof (induction ns)
  case (Cons n ns)
  have le: "plen * m + n \<le> length toks" if "m < count" for m
  proof -
    have "plen * m + n \<le> plen * (m + 1)" using Cons.prems by simp
    also have "\<dots> \<le> plen * count" using that by (intro mult_le_mono2) simp
    finally show ?thesis using assms(1) by simp
  qed
  have b: "\<forall>m \<in> set [1..<count]. plen * m + n \<le> length toks" using le by simp
  have n: "n \<le> length toks" using le [of 0] assms(2) by simp
  show ?case using Cons all_equal_back_iff [OF b] n by (simp add: nth_from_end_def)
qed simp

lemma nth_concat_replicate:
  "i < length pat * c \<Longrightarrow> concat (replicate c pat) ! i = pat ! (i mod length pat)"
proof (induction c arbitrary: i)
  case (Suc c)
  show ?case
  proof (cases "i < length pat")
    case False
    then have "i - length pat < length pat * c" using Suc.prems by simp
    then show ?thesis using False Suc.IH by (simp add: nth_append le_mod_geq)
  qed (simp add: nth_append)
qed simp

lemma length_concat_replicate [simp]: "length (concat (replicate c pat)) = c * length pat"
  by (induction c) simp_all

lemma tail_repeats_iff:
  assumes "p * count \<le> length toks" "count \<ge> 1"
  shows "tail_repeats toks p count \<longleftrightarrow>
    (\<forall>n \<in> {1..p}. \<forall>m \<in> {1..<count}. toks ! (length toks - (p * m + n)) = toks ! (length toks - n))"
  (is "_ \<longleftrightarrow> ?R")
proof
  let ?L = "length toks"
  assume "tail_repeats toks p count"
  then obtain pre pat where t: "toks = pre @ concat (replicate count pat)" and p: "length pat = p"
    by (auto simp: tail_repeats_def)
  have at: "toks ! (?L - (p * m + n)) = pat ! (p - n)" if "m < count" "n \<in> {1..p}" for m n
  proof -
    have le: "p * m + n \<le> p * count"
      using that mult_le_mono2 [of "m + 1" count p] by simp
    have L: "?L = length pre + p * count" by (simp add: t p)
    define k where "k = count - 1 - m"
    have "k + m + 1 = count" using that by (simp add: k_def)
    then have "p * count = p * k + p * m + p" by (auto simp: distrib_left)
    then have eq: "p * count - (p * m + n) = p * k + (p - n)" using that by auto
    have "p - n < p" using that by auto
    then have "(p * count - (p * m + n)) mod p = p - n" unfolding eq mod_mult_self4 by (rule mod_less)
    moreover have pos: "?L - (p * m + n) = length pre + (p * count - (p * m + n))" using L le by simp
    moreover have "toks ! (length pre + j) = concat (replicate count pat) ! j" for j
      by (subst t) (rule nth_append_length_plus)
    moreover have "p * count - (p * m + n) < length pat * count" using le that p by auto
    ultimately show ?thesis
      using nth_concat_replicate [of "p * count - (p * m + n)" pat count] p by (simp only:)
  qed
  show ?R using at [of 0] at assms(2) by (auto simp: Suc_le_eq)
next
  let ?L = "length toks"
  assume R: ?R
  let ?pat = "drop (?L - p) toks" and ?s = "?L - p * count"
  have pl: "p \<le> ?L" using assms mult_le_mono2 [OF assms(2), of p] by linarith
  then have lp: "length ?pat = p" by simp
  have "drop ?s toks = concat (replicate count ?pat)"
  proof (rule nth_equalityI)
    show "length (drop ?s toks) = length (concat (replicate count ?pat))" using assms pl by (simp add: mult.commute)
  next
    fix i assume "i < length (drop ?s toks)"
    then have i: "i < p * count" using assms by simp
    then have pp: "p > 0" by (cases p) auto
    define q where "q = i div p"
    define e where "e = i mod p"
    define m where "m = count - 1 - q"
    define n where "n = p - e"
    have e: "e < p" "i = p * q + e" using pp by (simp_all add: e_def q_def)
    have q: "q < count" using i pp by (simp add: q_def less_mult_imp_div_less mult.commute)
    have n: "n \<in> {1..p}" using e(1) by (auto simp: n_def)
    have sum: "p * m + n + i = p * count"
    proof -
      have "m + q + 1 = count" using q by (simp add: m_def)
      then have "p * count = p * m + p * q + p" by (auto simp: distrib_left)
      then show ?thesis using e by (simp add: n_def)
    qed
    have pos: "?s + i = ?L - (p * m + n)" using sum assms(1) by linarith
    have "toks ! (?L - (p * m + n)) = toks ! (?L - n)"
      using R n q by (cases "m = 0") (auto simp: m_def)
    moreover have "?L - n = ?L - p + e" using e(1) pl by (simp add: n_def)
    ultimately show "drop ?s toks ! i = concat (replicate count ?pat) ! i"
      using nth_concat_replicate [of i ?pat count] i lp pos pl assms(1) by (simp add: e_def [symmetric])
  qed
  then have "toks = take ?s toks @ concat (replicate count ?pat)" by (metis append_take_drop_id)
  then show "tail_repeats toks p count" unfolding tail_repeats_def using lp by blast
qed

lemma tail_repeats_length: "tail_repeats toks p count \<Longrightarrow> p * count \<le> length toks"
  by (auto simp: tail_repeats_def)

lemma has_repeating_pattern_iff:
  "plen * count \<le> length toks \<Longrightarrow> count \<ge> 1 \<Longrightarrow> has_repeating_pattern toks plen count = Inr (tail_repeats toks plen count)"
  using pattern_loop_iff [of plen count toks "[1..<plen + 1]"] tail_repeats_iff [of plen count toks]
  by (simp add: has_repeating_pattern_def atLeastLessThanSuc_atLeastAtMost del: upt_Suc)

text \<open>The patterns are tried in increasing length, so the early return loses none.\<close>

lemma repetition_loop_iff:
  assumes "sorted ps" "count \<ge> 1"
  shows "repetition_loop toks count ps = Inr (\<exists>p \<in> set ps. tail_repeats toks p count)"
  using assms(1)
proof (induction ps)
  case (Cons p ps)
  show ?case
  proof (cases "p * count > length toks")
    case True
    have "\<not> tail_repeats toks p' count" if "p' \<in> set (p # ps)" for p'
    proof -
      have "p * count \<le> p' * count" using that Cons.prems by (intro mult_le_mono1) auto
      then show ?thesis using True tail_repeats_length [of toks p' count] by linarith
    qed
    then show ?thesis using True by auto
  next
    case False
    then show ?thesis using Cons has_repeating_pattern_iff [of p count toks] assms(2) by simp
  qed
qed simp

text \<open>The result of the search for a repeating tail.\<close>

lemma check_sequence_repetition_iff:
  "check_sequence_repetition toks params =
     Inr (max_pattern_size params > 0 \<and> min_count params \<ge> 2
       \<and> (\<exists>p. max 1 (min_pattern_size params) \<le> int p \<and> int p \<le> max_pattern_size params
            \<and> tail_repeats toks p (nat (min_count params))))"
proof -
  define lo where "lo = max 1 (min_pattern_size params)"
  have lo: "(if min_pattern_size params \<le> 0 then 1 else min_pattern_size params) = lo" "lo \<ge> 1" by (auto simp: lo_def)
  let ?hi = "max_pattern_size params" and ?c = "nat (min_count params)"
  have "sorted [nat lo..<nat ?hi + 1]" by (rule sorted_upt)
  then have loop: "repetition_loop toks ?c [nat lo..<nat ?hi + 1]
      = Inr (\<exists>p \<in> {nat lo..<nat ?hi + 1}. tail_repeats toks p ?c)" if "min_count params \<ge> 2"
    using repetition_loop_iff [of "[nat lo..<nat ?hi + 1]" ?c toks] that by (simp del: upt_Suc)
  have rng: "p \<in> {nat lo..<nat ?hi + 1} \<longleftrightarrow> lo \<le> int p \<and> int p \<le> ?hi" if "?hi > 0" for p using that lo(2) by auto
  show ?thesis
  proof (cases "?hi \<le> 0 \<or> min_count params < 2 \<or> lo > ?hi")
    case True
    then have "check_sequence_repetition toks params = Inr False"
      by (simp add: check_sequence_repetition_def lo Let_def)
    moreover have "\<not> (?hi > 0 \<and> min_count params \<ge> 2 \<and> (\<exists>p. lo \<le> int p \<and> int p \<le> ?hi \<and> tail_repeats toks p ?c))"
      using True by auto
    ultimately show ?thesis unfolding lo_def [symmetric] by simp
  next
    case False
    then show ?thesis unfolding lo_def [symmetric]
      using loop rng by (auto simp: check_sequence_repetition_def lo Let_def simp del: upt_Suc)
  qed
qed

text \<open>
  C22: \<^verbatim>\<open>check_sequence_repetition\<close> never indexes out of range and returns True exactly when detection is on
  (a positive largest pattern, at least two copies) and the tokens end with \<^verbatim>\<open>min_count\<close> copies of some
  pattern whose length is within the configured bounds.
\<close>

theorem check_sequence_repetition_correct:
  "check_sequence_repetition toks params =
     Inr (max_pattern_size params > 0 \<and> min_count params \<ge> 2
       \<and> (\<exists>p. max 1 (min_pattern_size params) \<le> int p \<and> int p \<le> max_pattern_size params
            \<and> tail_repeats toks p (nat (min_count params))))"
  by (rule check_sequence_repetition_iff)

section \<open>Removal\<close>

lemma remove_all_filter:
  assumes "distinct lst"
  shows "remove_all lst items = filter (\<lambda>x. x \<notin> set items) lst"
proof (cases "length items = 1")
  case True
  then obtain y where "items = [y]" by (cases items) auto
  then show ?thesis using assms by (simp add: remove_all_def distinct_remove1_removeAll removeAll_filter_not_eq eq_commute)
next
  case False
  then show ?thesis by (simp add: remove_all_def)
qed

text \<open>With a single item to remove and duplicates in the list, only the first occurrence goes.\<close>

lemma remove_all_keeps_duplicate: "remove_all [1, 2, 1 :: nat] [1] = [2, 1]"
  by (simp add: remove_all_def)

section \<open>Stopping\<close>

text \<open>The stop conditions of a generation, each on its own: the last token ends it, or the output repeats itself.\<close>

definition ends_output :: "sampling_params_data \<Rightarrow> int \<Rightarrow> bool" where
  "ends_output sp t \<longleftrightarrow> eos_token_id sp = Some t \<or> t \<in> set (stop_token_ids sp)"

definition repeats_output :: "sampling_params_data \<Rightarrow> int list \<Rightarrow> bool" where
  "repeats_output sp ts \<longleftrightarrow> (\<exists>q p. repetition_detection sp = Some q \<and> max_pattern_size q > 0 \<and> min_count q \<ge> 2
     \<and> max 1 (min_pattern_size q) \<le> int p \<and> int p \<le> max_pattern_size q \<and> tail_repeats ts p (nat (min_count q)))"

definition with_tokens :: "request \<Rightarrow> int list \<Rightarrow> request" where
  "with_tokens r ts = r\<lparr>output_token_ids := output_token_ids r @ ts, all_token_ids := all_token_ids r @ ts\<rparr>"

text \<open>What the stop check answers, and what each finished status says about the output.\<close>

definition stop_answer :: "request \<Rightarrow> sampling_params_data \<Rightarrow> bool \<Rightarrow> bool \<Rightarrow> request \<Rightarrow> bool" where
  "stop_answer r sp full stop r' \<longleftrightarrow>
     stop = (min_tokens sp \<le> int (length (output_token_ids r))
        \<and> (ends_output sp (last (output_token_ids r)) \<or> full \<or> repeats_output sp (output_token_ids r)))
     \<and> (\<not> stop \<longrightarrow> r' = r)
     \<and> (stop \<longrightarrow> r' = r\<lparr>status := status r', stop_reason := stop_reason r'\<rparr> \<and> is_finished r'
          \<and> (status r' = FINISHED_STOPPED \<longleftrightarrow> ends_output sp (last (output_token_ids r)))
          \<and> (status r' = FINISHED_LENGTH_CAPPED \<longrightarrow> full)
          \<and> (status r' = FINISHED_REPETITION \<longrightarrow> repeats_output sp (output_token_ids r)))"

lemma stop_answerD:
  assumes "stop_answer r sp full stop r'"
  shows "stop = (min_tokens sp \<le> int (length (output_token_ids r))
      \<and> (ends_output sp (last (output_token_ids r)) \<or> full \<or> repeats_output sp (output_token_ids r)))"
    and "\<not> stop \<Longrightarrow> r' = r"
  using assms unfolding stop_answer_def by blast+

lemma nth_from_end_last: "xs \<noteq> [] \<Longrightarrow> nth_from_end 1 xs = Inr (last xs)"
  by (simp add: nth_from_end_def last_conv_nth Suc_le_eq)

lemma check_stop_answer:
  assumes "pooling_params r = None" "sampling_params r = Some sp" "output_token_ids r \<noteq> []"
  shows "\<exists>stop r'. check_stop r n = Inr (stop, r')
    \<and> stop_answer r sp (int (num_tokens r) \<ge> n \<or> int (num_output_tokens r) \<ge> max_tokens r) stop r'"
proof -
  have t: "nth_from_end (Suc 0) (output_token_ids r) = Inr (last (output_token_ids r))"
    using nth_from_end_last [OF assms(3)] by simp
  show ?thesis
  proof (cases "repetition_detection sp")
    case None
    then show ?thesis using assms(1,2)
      by (auto simp: check_stop_def t stop_answer_def ends_output_def repeats_output_def num_output_tokens_def
          is_finished_def)
  next
    case (Some q)
    obtain b where b: "check_sequence_repetition (output_token_ids r) q = Inr b"
      "b = repeats_output sp (output_token_ids r)"
      using check_sequence_repetition_iff [of "output_token_ids r" q] Some by (simp add: repeats_output_def)
    then show ?thesis using assms(1,2) Some
      by (auto simp: check_stop_def t stop_answer_def ends_output_def num_output_tokens_def is_finished_def)
  qed
qed

text \<open>
  C21: generation ends, not too early and not too late. Let \<open>ts\<close> be any stream of sampled tokens of a new
  generation request and \<open>L\<close> the number of tokens its \<^verbatim>\<open>max_tokens\<close> and the model length leave it, with a
  \<^verbatim>\<open>min_tokens\<close> of at most \<open>L\<close>. Called after every token, \<^verbatim>\<open>check_stop\<close> never raises and says no, leaving the request
  as it is, until some token \<open>k\<close> with \<^verbatim>\<open>min_tokens\<close> \<open>\<le> k \<le> L\<close>, where it says yes. Before \<open>k\<close>, past the
  minimum, no token was the end of sequence or a stop token and no detected repetition was missed. At \<open>k\<close> only
  the status and the stop reason change, to a finished status that tells the truth: stopped exactly if the token is
  the end of sequence or a stop token, length capped only at \<open>L\<close> tokens, repetition only if the output ends
  with the configured number of copies of a pattern.
\<close>

theorem generation_stops:
  assumes r: "pooling_params r = None" "sampling_params r = Some sp" "output_token_ids r = []"
    and L: "int L = min (max_tokens r) (n - int (num_tokens r))" "0 < L" "min_tokens sp \<le> int L" "L \<le> length ts"
  shows "\<exists>k r'. 0 < k \<and> k \<le> L \<and> min_tokens sp \<le> int k
    \<and> (\<forall>j. 0 < j \<and> j < k \<longrightarrow> check_stop (with_tokens r (take j ts)) n = Inr (False, with_tokens r (take j ts))
         \<and> (min_tokens sp \<le> int j \<longrightarrow> \<not> ends_output sp (ts ! (j - 1)) \<and> \<not> repeats_output sp (take j ts)))
    \<and> check_stop (with_tokens r (take k ts)) n = Inr (True, r')
    \<and> r' = (with_tokens r (take k ts))\<lparr>status := status r', stop_reason := stop_reason r'\<rparr> \<and> is_finished r'
    \<and> (status r' = FINISHED_STOPPED \<longleftrightarrow> ends_output sp (ts ! (k - 1)))
    \<and> (status r' = FINISHED_LENGTH_CAPPED \<longrightarrow> k = L)
    \<and> (status r' = FINISHED_REPETITION \<longrightarrow> repeats_output sp (take k ts))"
proof -
  let ?w = "\<lambda>j. with_tokens r (take j ts)"
  define P where "P j \<longleftrightarrow> 0 < j \<and> min_tokens sp \<le> int j \<and> (ends_output sp (ts ! (j - 1)) \<or> L \<le> j \<or> repeats_output sp (take j ts))" for j
  have ans: "\<exists>r'. check_stop (?w j) n = Inr (P j, r') \<and> stop_answer (?w j) sp (L \<le> j) (P j) r'" if j: "0 < j" "j \<le> L" for j
  proof -
    have out: "output_token_ids (?w j) = take j ts" "take j ts \<noteq> []" "length (take j ts) = j"
      using j L(4) r(3) by (auto simp: with_tokens_def)
    have last: "last (take j ts) = ts ! (j - 1)" using last_conv_nth [OF out(2)] out(3) j by simp
    have full: "int (num_tokens (?w j)) \<ge> n \<or> int (num_output_tokens (?w j)) \<ge> max_tokens (?w j) \<longleftrightarrow> L \<le> j"
      using L(1,4) j r(3) by (auto simp: with_tokens_def num_tokens_def num_output_tokens_def)
    obtain stop r' where A: "check_stop (?w j) n = Inr (stop, r')" "stop_answer (?w j) sp (L \<le> j) stop r'"
      using check_stop_answer [of "?w j" sp n] r out(1,2) full by (auto simp: with_tokens_def)
    moreover have "stop = P j" using stop_answerD(1) [OF A(2)] out last j by (simp add: P_def)
    ultimately show ?thesis by blast
  qed
  have "P L" using L by (simp add: P_def)
  then obtain k where k: "P k" "k \<le> L" "\<forall>j < k. \<not> P j" using ex_least_nat_le [of P L] by blast
  have "0 < k" using k(1) by (simp add: P_def)
  then obtain r' where r': "check_stop (?w k) n = Inr (True, r')" "stop_answer (?w k) sp (L \<le> k) True r'"
    using ans [of k] k by auto
  have out: "output_token_ids (?w k) = take k ts" using r(3) by (simp add: with_tokens_def)
  have ne: "take k ts \<noteq> []" "length (take k ts) = k" using \<open>0 < k\<close> k(2) L(4) by auto
  have last: "last (take k ts) = ts ! (k - 1)" using last_conv_nth [OF ne(1)] ne(2) \<open>0 < k\<close> by simp
  have before: "check_stop (?w j) n = Inr (False, ?w j)
      \<and> (min_tokens sp \<le> int j \<longrightarrow> \<not> ends_output sp (ts ! (j - 1)) \<and> \<not> repeats_output sp (take j ts))"
    if j: "0 < j" "j < k" for j
  proof -
    have "\<not> P j" "j \<le> L" using k j by auto
    moreover obtain r1 where "check_stop (?w j) n = Inr (P j, r1)" "stop_answer (?w j) sp (L \<le> j) (P j) r1"
      using ans [OF j(1) \<open>j \<le> L\<close>] by blast
    ultimately show ?thesis using stop_answerD(2) j(1) by (auto simp: P_def)
  qed
  have A: "r' = (?w k)\<lparr>status := status r', stop_reason := stop_reason r'\<rparr>" "is_finished r'"
    "status r' = FINISHED_STOPPED \<longleftrightarrow> ends_output sp (ts ! (k - 1))" "status r' = FINISHED_LENGTH_CAPPED \<longrightarrow> L \<le> k"
    "status r' = FINISHED_REPETITION \<longrightarrow> repeats_output sp (take k ts)"
    using r'(2) unfolding stop_answer_def out last by blast+
  have B: "min_tokens sp \<le> int k" "status r' = FINISHED_LENGTH_CAPPED \<longrightarrow> k = L"
    using k(1,2) A(4) by (simp_all add: P_def)
  have C: "\<forall>j. 0 < j \<and> j < k \<longrightarrow> check_stop (?w j) n = Inr (False, ?w j)
      \<and> (min_tokens sp \<le> int j \<longrightarrow> \<not> ends_output sp (ts ! (j - 1)) \<and> \<not> repeats_output sp (take j ts))"
    using before by blast
  show ?thesis
    by (intro exI conjI) (rule \<open>0 < k\<close> k(2) B(1) C r'(1) A(1) A(2) A(3) B(2) A(5))+
qed

theorem generation_stops_witness:
  "\<exists>k r'. 0 < k \<and> k \<le> 5 \<and> check_stop (with_tokens (example_request [5]) (take k [3, 9, 2, 7, 7])) 6 = Inr (True, r')
     \<and> (status r' = FINISHED_STOPPED \<longleftrightarrow> ends_output example_sampling ([3, 9, 2, 7, 7] ! (k - 1)))"
proof -
  let ?r = "(example_request [5])"
  have h: "pooling_params ?r = None" "sampling_params ?r = Some example_sampling" "output_token_ids ?r = []"
    "min (max_tokens ?r) (6 - int (num_tokens ?r)) = 5" "min_tokens example_sampling \<le> 5" by code_simp+
  show ?thesis
    using generation_stops [OF h(1-3), of 5 6 "[3, 9, 2, 7, 7]"] h(4,5) by auto
qed

end
