(* ===== verification/Encoder_Cache.thy ===== *)
theory Encoder_Cache
  imports Request
begin

text \<open>
  The encoder caches of src/vllm/vllm/v1/core/encoder_cache_manager.py. The set of request ids that reference an
  entry is a list without duplicates; \<^verbatim>\<open>freeable\<close> is an ordered dictionary whose front is the oldest
  unreferenced entry. Input ids are non-negative, as the scheduler's \<^verbatim>\<open>enumerate\<close> gives them, and a set of
  input ids is listed in ascending order.
\<close>

section \<open>State and operations of the multimodal cache\<close>

record encoder_cache =
  ec_cache_size :: int
  num_free_slots :: int
  num_freeable_slots :: int
  cached :: "(string, string list) odict"
  freeable :: "(string, int) odict"
  freed :: "string list"

definition encoder_cache_init :: "int \<Rightarrow> encoder_cache" where
  "encoder_cache_init n = \<lparr>ec_cache_size = n, num_free_slots = n, num_freeable_slots = n, cached = [], freeable = [], freed = []\<rparr>"

definition ec_reset :: "encoder_cache \<Rightarrow> encoder_cache" where
  "ec_reset c = c\<lparr>cached := [], freeable := [], freed := [],
     num_free_slots := ec_cache_size c, num_freeable_slots := ec_cache_size c\<rparr>"

definition mm_hash_at :: "request \<Rightarrow> nat \<Rightarrow> string res" where
  "mm_hash_at r i = (if i < length (mm_features r) then Inr (mm_identifier (mm_features r ! i)) else Inl IndexError)"

definition check_and_update_cache :: "encoder_cache \<Rightarrow> request \<Rightarrow> nat \<Rightarrow> (bool \<times> encoder_cache) res" where
  "check_and_update_cache c r i =
     res_bind (mm_hash_at r i) (\<lambda>h.
       case map_of (cached c) h of
         None \<Rightarrow> Inr (False, c)
       | Some refs \<Rightarrow>
           res_bind (if refs = []
                     then (case map_of (freeable c) h of
                             None \<Rightarrow> Inl KeyError
                           | Some n \<Rightarrow> Inr (c\<lparr>freeable := AList.delete h (freeable c),
                                            num_freeable_slots := num_freeable_slots c - n\<rparr>))
                     else Inr c) (\<lambda>c1.
             Inr (True, c1\<lparr>cached := AList.update h (List.insert (request_id r) refs) (cached c1)\<rparr>)))"

text \<open>The eviction loop: \<^verbatim>\<open>popitem(last=False)\<close> takes the oldest entry and raises on an empty dictionary.\<close>

fun evict_oldest :: "int \<Rightarrow> (string, int) odict \<Rightarrow> encoder_cache \<Rightarrow> encoder_cache res" where
  "evict_oldest need [] c = (if need > num_free_slots c then Inl KeyError else Inr c)"
| "evict_oldest need ((h, n) # rest) c =
     (if need > num_free_slots c
      then guard (map_of (cached c) h \<noteq> None) KeyError
        (evict_oldest need rest
           (c\<lparr>freeable := rest, cached := AList.delete h (cached c), freed := freed c @ [h],
              num_free_slots := num_free_slots c + n\<rparr>))
      else Inr c)"

definition can_allocate :: "encoder_cache \<Rightarrow> request \<Rightarrow> nat \<Rightarrow> int \<Rightarrow> int \<Rightarrow> (bool \<times> encoder_cache) res" where
  "can_allocate c r i budget to_schedule =
     res_bind (get_num_encoder_embeds r i) (\<lambda>n.
       if int n > budget then Inr (False, c)
       else let need = int n + to_schedule in
         if need \<le> num_free_slots c then Inr (True, c)
         else if need > num_freeable_slots c then Inr (False, c)
         else res_bind (evict_oldest need (freeable c) c) (\<lambda>c'. Inr (True, c')))"

definition allocate :: "encoder_cache \<Rightarrow> request \<Rightarrow> nat \<Rightarrow> encoder_cache res" where
  "allocate c r i =
     res_bind (mm_hash_at r i) (\<lambda>h.
     let c1 = (if map_of (cached c) h = None then c\<lparr>cached := AList.update h [] (cached c)\<rparr> else c) in
     res_bind (get_num_encoder_embeds r i) (\<lambda>n.
     guard (num_free_slots c1 \<ge> int n) AssertionError
     (guard (num_freeable_slots c1 \<ge> int n) AssertionError
       (Inr (c1\<lparr>cached := AList.update h (List.insert (request_id r) (the (map_of (cached c1) h))) (cached c1),
                num_free_slots := num_free_slots c1 - int n,
                num_freeable_slots := num_freeable_slots c1 - int n\<rparr>)))))"

definition get_cached_input_ids :: "encoder_cache \<Rightarrow> request \<Rightarrow> nat list" where
  "get_cached_input_ids c r =
     filter (\<lambda>i. map_of (cached c) (mm_identifier (mm_features r ! i)) \<noteq> None) [0..<length (mm_features r)]"

definition free_encoder_input :: "request \<Rightarrow> nat \<Rightarrow> encoder_cache \<Rightarrow> encoder_cache res" where
  "free_encoder_input r i c =
     res_bind (mm_hash_at r i) (\<lambda>h.
       case map_of (cached c) h of
         None \<Rightarrow> Inr c
       | Some [] \<Rightarrow> Inr c
       | Some refs \<Rightarrow>
           let refs' = removeAll (request_id r) refs;
               c1 = c\<lparr>cached := AList.update h refs' (cached c)\<rparr> in
           if refs' = []
           then res_bind (get_num_encoder_embeds r i) (\<lambda>n.
             Inr (c1\<lparr>freeable := AList.update h (int n) (freeable c1),
                     num_freeable_slots := num_freeable_slots c1 + int n\<rparr>))
           else Inr c1)"

definition ec_free :: "request \<Rightarrow> encoder_cache \<Rightarrow> encoder_cache res" where
  "ec_free r c = fold_res (free_encoder_input r) (get_cached_input_ids c r) c"

definition get_freed_mm_hashes :: "encoder_cache \<Rightarrow> string list \<times> encoder_cache" where
  "get_freed_mm_hashes c = (freed c, c\<lparr>freed := []\<rparr>)"

section \<open>Budget\<close>

record mm_scheduler_config =
  disable_chunked_mm_input :: bool
  max_num_batched_tokens :: int
  max_num_encoder_input_tokens :: int
  encoder_cache_size :: int

definition compute_mm_encoder_budget :: "mm_scheduler_config \<Rightarrow> (string, int) odict \<Rightarrow> (int \<times> int) res" where
  "compute_mm_encoder_budget cfg items =
     (if items = [] then Inr (0, 0)
      else let m = Max (set (map snd items)) in
        guard (\<not> (disable_chunked_mm_input cfg \<and> m > max_num_batched_tokens cfg)) ValueError
          (Inr (max (max_num_encoder_input_tokens cfg) m, max (encoder_cache_size cfg) m)))"

section \<open>The cache of encoder-decoder models\<close>

record encoder_decoder_cache =
  ed_cache_size :: int
  ed_num_free_slots :: int
  ed_allocated :: "string list"
  ed_to_free :: "string list"

definition ed_init :: "int \<Rightarrow> encoder_decoder_cache" where
  "ed_init n = \<lparr>ed_cache_size = n, ed_num_free_slots = n, ed_allocated = [], ed_to_free = []\<rparr>"

definition ed_reset :: "encoder_decoder_cache \<Rightarrow> encoder_decoder_cache" where
  "ed_reset c = c\<lparr>ed_num_free_slots := ed_cache_size c, ed_allocated := [], ed_to_free := []\<rparr>"

definition ed_check_and_update_cache :: "encoder_decoder_cache \<Rightarrow> request \<Rightarrow> nat \<Rightarrow> bool" where
  "ed_check_and_update_cache c r i = False"

definition ed_can_allocate :: "encoder_decoder_cache \<Rightarrow> request \<Rightarrow> nat \<Rightarrow> int \<Rightarrow> int \<Rightarrow> bool res" where
  "ed_can_allocate c r i budget to_schedule =
     res_bind (get_num_encoder_embeds r i) (\<lambda>n.
       if int n > budget then Inr False else Inr (int n + to_schedule \<le> ed_num_free_slots c))"

definition ed_allocate :: "encoder_decoder_cache \<Rightarrow> request \<Rightarrow> nat \<Rightarrow> encoder_decoder_cache res" where
  "ed_allocate c r i =
     res_bind (get_num_encoder_embeds r i) (\<lambda>n.
     res_bind (mm_hash_at r i) (\<lambda>h.
       Inr (c\<lparr>ed_num_free_slots := ed_num_free_slots c - int n, ed_allocated := ed_allocated c @ [h]\<rparr>)))"

definition ed_free_encoder_input :: "request \<Rightarrow> nat \<Rightarrow> encoder_decoder_cache \<Rightarrow> encoder_decoder_cache res" where
  "ed_free_encoder_input r i c =
     res_bind (get_num_encoder_embeds r i) (\<lambda>n. Inr (c\<lparr>ed_num_free_slots := ed_num_free_slots c + int n\<rparr>))"

definition ed_free :: "request \<Rightarrow> encoder_decoder_cache \<Rightarrow> encoder_decoder_cache res" where
  "ed_free r c = fold_res (ed_free_encoder_input r) [0..<length (mm_features r)] c"

definition ed_get_cached_input_ids :: "encoder_decoder_cache \<Rightarrow> request \<Rightarrow> nat list" where
  "ed_get_cached_input_ids c r = [0..<length (mm_features r)]"

definition ed_get_freed_mm_hashes :: "encoder_decoder_cache \<Rightarrow> string list \<times> encoder_decoder_cache" where
  "ed_get_freed_mm_hashes c = (ed_to_free c, c\<lparr>ed_to_free := ed_allocated c, ed_allocated := []\<rparr>)"

section \<open>Either cache behind one interface\<close>

text \<open>\<^verbatim>\<open>EncoderDecoderCacheManager\<close> is a subclass: the scheduler calls the methods of whichever it holds.\<close>

datatype encoder_manager = MultiModal encoder_cache | EncoderDecoder encoder_decoder_cache

fun em_check_and_update_cache :: "encoder_manager \<Rightarrow> request \<Rightarrow> nat \<Rightarrow> (bool \<times> encoder_manager) res" where
  "em_check_and_update_cache (MultiModal c) r i =
     res_bind (check_and_update_cache c r i) (\<lambda>(hit, c'). Inr (hit, MultiModal c'))"
| "em_check_and_update_cache (EncoderDecoder c) r i = Inr (ed_check_and_update_cache c r i, EncoderDecoder c)"

fun em_can_allocate :: "encoder_manager \<Rightarrow> request \<Rightarrow> nat \<Rightarrow> int \<Rightarrow> int \<Rightarrow> (bool \<times> encoder_manager) res" where
  "em_can_allocate (MultiModal c) r i budget n =
     res_bind (can_allocate c r i budget n) (\<lambda>(ok, c'). Inr (ok, MultiModal c'))"
| "em_can_allocate (EncoderDecoder c) r i budget n =
     res_bind (ed_can_allocate c r i budget n) (\<lambda>ok. Inr (ok, EncoderDecoder c))"

fun em_allocate :: "request \<Rightarrow> nat \<Rightarrow> encoder_manager \<Rightarrow> encoder_manager res" where
  "em_allocate r i (MultiModal c) = res_bind (allocate c r i) (\<lambda>c'. Inr (MultiModal c'))"
| "em_allocate r i (EncoderDecoder c) = res_bind (ed_allocate c r i) (\<lambda>c'. Inr (EncoderDecoder c'))"

fun em_get_cached_input_ids :: "encoder_manager \<Rightarrow> request \<Rightarrow> nat list" where
  "em_get_cached_input_ids (MultiModal c) r = get_cached_input_ids c r"
| "em_get_cached_input_ids (EncoderDecoder c) r = ed_get_cached_input_ids c r"

fun em_free_encoder_input :: "request \<Rightarrow> nat \<Rightarrow> encoder_manager \<Rightarrow> encoder_manager res" where
  "em_free_encoder_input r i (MultiModal c) = res_bind (free_encoder_input r i c) (\<lambda>c'. Inr (MultiModal c'))"
| "em_free_encoder_input r i (EncoderDecoder c) = res_bind (ed_free_encoder_input r i c) (\<lambda>c'. Inr (EncoderDecoder c'))"

fun em_free :: "request \<Rightarrow> encoder_manager \<Rightarrow> encoder_manager res" where
  "em_free r (MultiModal c) = res_bind (ec_free r c) (\<lambda>c'. Inr (MultiModal c'))"
| "em_free r (EncoderDecoder c) = res_bind (ed_free r c) (\<lambda>c'. Inr (EncoderDecoder c'))"

fun em_get_freed_mm_hashes :: "encoder_manager \<Rightarrow> string list \<times> encoder_manager" where
  "em_get_freed_mm_hashes (MultiModal c) = apsnd MultiModal (get_freed_mm_hashes c)"
| "em_get_freed_mm_hashes (EncoderDecoder c) = apsnd EncoderDecoder (ed_get_freed_mm_hashes c)"

fun em_reset :: "encoder_manager \<Rightarrow> encoder_manager" where
  "em_reset (MultiModal c) = MultiModal (ec_reset c)"
| "em_reset (EncoderDecoder c) = EncoderDecoder (ed_reset c)"

section \<open>The invariant\<close>

text \<open>
  Items with the same identifier have the same number of embeddings, since the identifier is the hash of
  the item; \<open>sz\<close> gives this number. The slots not free are those of the cached entries, and the freeable
  entries are exactly the cached ones that no request references.
\<close>

definition sized :: "(string \<Rightarrow> nat) \<Rightarrow> request \<Rightarrow> bool" where
  "sized sz r \<longleftrightarrow> (\<forall>f \<in> set (mm_features r). get_num_embeds f = sz (mm_identifier f))"

definition slots :: "(string \<Rightarrow> nat) \<Rightarrow> (string, 'v) odict \<Rightarrow> int" where
  "slots sz d = (\<Sum>(h, _) \<leftarrow> d. int (sz h))"

definition enc_inv :: "(string \<Rightarrow> nat) \<Rightarrow> encoder_cache \<Rightarrow> bool" where
  "enc_inv sz c \<longleftrightarrow>
     od_wf (cached c) \<and> od_wf (freeable c)
     \<and> (\<forall>h n. map_of (freeable c) h = Some n \<longleftrightarrow> map_of (cached c) h = Some [] \<and> n = int (sz h))
     \<and> num_free_slots c = ec_cache_size c - slots sz (cached c)
     \<and> num_freeable_slots c = num_free_slots c + slots sz (freeable c)
     \<and> 0 \<le> num_free_slots c"

declare map_of_eq_Some_iff [simp del] Some_eq_map_of_iff [simp del]

lemma slots_simps [simp]:
  "slots sz [] = 0" "slots sz ((h, v) # d) = int (sz h) + slots sz d" "slots sz (d @ e) = slots sz d + slots sz e"
  by (simp_all add: slots_def)

lemma slots_nonneg: "0 \<le> slots sz d"
  by (induction d) auto

lemma slots_update: "slots sz (AList.update h v d) = slots sz d + (if map_of d h = None then int (sz h) else 0)"
  by (induction d) auto

lemma slots_delete:
  "od_wf d \<Longrightarrow> slots sz (AList.delete h d) = slots sz d - (if map_of d h = None then 0 else int (sz h))"
proof (induction d)
  case (Cons e d)
  obtain k v where e: "e = (k, v)" by fastforce
  show ?case
  proof (cases "k = h")
    case True
    then have "map_of d h = None" using Cons.prems e by (auto simp: map_of_eq_None_iff)
    then have "AList.delete h d = d" by (simp add: delete_not_key map_of_eq_None_iff)
    then show ?thesis using True e by simp
  qed (use Cons e in auto)
qed simp

lemma update_new_key: "k \<notin> fst ` set d \<Longrightarrow> AList.update k v d = d @ [(k, v)]"
  by (induction d) auto

lemma sizedD: "sized sz r \<Longrightarrow> i < length (mm_features r) \<Longrightarrow>
    get_num_encoder_embeds r i = Inr (sz (mm_identifier (mm_features r ! i)))
    \<and> mm_hash_at r i = Inr (mm_identifier (mm_features r ! i))"
  by (simp add: sized_def get_num_encoder_embeds_def mm_hash_at_def)

lemma enc_invD:
  assumes "enc_inv sz c"
  shows "od_wf (cached c)" "od_wf (freeable c)"
    "\<And>h n. map_of (freeable c) h = Some n \<longleftrightarrow> map_of (cached c) h = Some [] \<and> n = int (sz h)"
    "num_free_slots c = ec_cache_size c - slots sz (cached c)"
    "num_freeable_slots c = num_free_slots c + slots sz (freeable c)" "0 \<le> num_free_slots c"
  using assms by (auto simp: enc_inv_def)

lemma enc_inv_bounds:
  assumes "enc_inv sz c"
  shows "0 \<le> num_free_slots c \<and> num_free_slots c \<le> num_freeable_slots c \<and> num_free_slots c \<le> ec_cache_size c"
  using enc_invD(4-6) [OF assms] slots_nonneg [of sz "cached c"] slots_nonneg [of sz "freeable c"] by linarith

lemma enc_init_inv: "0 \<le> n \<Longrightarrow> enc_inv sz (encoder_cache_init n)"
  by (simp add: enc_inv_def encoder_cache_init_def)

lemma enc_reset_inv: "enc_inv sz c \<Longrightarrow> enc_inv sz (ec_reset c)"
  using enc_inv_bounds [of sz c] by (auto simp: enc_inv_def ec_reset_def)

lemma get_freed_inv: "enc_inv sz c \<Longrightarrow> enc_inv sz (snd (get_freed_mm_hashes c))"
  by (simp add: enc_inv_def get_freed_mm_hashes_def)

text \<open>Looking an entry up: a hit gains the request's reference and leaves the free slots alone.\<close>

definition references :: "encoder_cache \<Rightarrow> string \<Rightarrow> string set" where
  "references c h = (case map_of (cached c) h of None \<Rightarrow> {} | Some refs \<Rightarrow> set refs)"

definition in_cache :: "encoder_cache \<Rightarrow> string \<Rightarrow> bool" where
  "in_cache c h \<longleftrightarrow> map_of (cached c) h \<noteq> None"

lemma check_law:
  assumes inv: "enc_inv sz c" and i: "i < length (mm_features r)"
  defines "h \<equiv> mm_identifier (mm_features r ! i)"
  shows "\<exists>c'. check_and_update_cache c r i = Inr (in_cache c h, c') \<and> enc_inv sz c'
    \<and> num_free_slots c' = num_free_slots c \<and> ec_cache_size c' = ec_cache_size c \<and> freed c' = freed c
    \<and> (\<forall>k. in_cache c' k = in_cache c k)
    \<and> (\<forall>k. references c' k = (if k = h \<and> in_cache c h then insert (request_id r) (references c k) else references c k))"
proof -
  have hh: "mm_hash_at r i = Inr h" using i by (simp add: mm_hash_at_def h_def)
  note I = enc_invD [OF inv]
  show ?thesis
  proof (cases "map_of (cached c) h")
    case None
    then show ?thesis using inv hh by (simp add: check_and_update_cache_def in_cache_def)
  next
    case (Some refs)
    show ?thesis
    proof (cases "refs = []")
      case True
      then have f: "map_of (freeable c) h = Some (int (sz h))" using I(3) Some by simp
      let ?c = "c\<lparr>freeable := AList.delete h (freeable c), num_freeable_slots := num_freeable_slots c - int (sz h),
          cached := AList.update h [request_id r] (cached c)\<rparr>"
      have "check_and_update_cache c r i = Inr (True, ?c)"
        using hh Some True f by (simp add: check_and_update_cache_def)
      moreover have "enc_inv sz ?c"
      proof -
        have "slots sz (AList.delete h (freeable c)) = slots sz (freeable c) - int (sz h)"
          using slots_delete [OF I(2), of sz h] f by simp
        moreover have "slots sz (AList.update h [request_id r] (cached c)) = slots sz (cached c)"
          using Some by (simp add: slots_update)
        moreover have "map_of (AList.delete h (freeable c)) k = Some n \<longleftrightarrow>
            map_of (AList.update h [request_id r] (cached c)) k = Some [] \<and> n = int (sz k)" for k n
          using I(3) [of k n] by simp
        ultimately show ?thesis unfolding enc_inv_def using I(1,2,4,5,6) by simp
      qed
      ultimately show ?thesis using Some True by (auto simp: in_cache_def references_def)
    next
      case False
      let ?c = "c\<lparr>cached := AList.update h (List.insert (request_id r) refs) (cached c)\<rparr>"
      have "check_and_update_cache c r i = Inr (True, ?c)"
        using hh Some False by (simp add: check_and_update_cache_def)
      moreover have "enc_inv sz ?c"
        using I Some False by (auto simp: enc_inv_def slots_update List.insert_def)
      ultimately show ?thesis using Some by (auto simp: in_cache_def references_def)
    qed
  qed
qed

text \<open>Eviction takes the oldest entries, as many as needed, and never a referenced one.\<close>

definition evicted :: "(string \<Rightarrow> nat) \<Rightarrow> int \<Rightarrow> encoder_cache \<Rightarrow> encoder_cache \<Rightarrow> (string, int) odict \<Rightarrow> bool" where
  "evicted sz need c c' out \<longleftrightarrow>
     enc_inv sz c' \<and> need \<le> num_free_slots c' \<and> ec_cache_size c' = ec_cache_size c
     \<and> freeable c = out @ freeable c' \<and> freed c' = freed c @ map fst out
     \<and> (\<forall>k. map_of (cached c') k = (if k \<in> set (map fst out) then None else map_of (cached c) k))
     \<and> num_freeable_slots c' = num_freeable_slots c
     \<and> (out \<noteq> [] \<longrightarrow> num_free_slots c' - int (sz (fst (last out))) < need)"

lemma evict_one:
  assumes inv: "enc_inv sz c" and fr: "freeable c = (h, n) # rest"
  defines "c1 \<equiv> c\<lparr>freeable := rest, cached := AList.delete h (cached c), freed := freed c @ [h],
          num_free_slots := num_free_slots c + n\<rparr>"
  shows "enc_inv sz c1" "map_of (cached c) h = Some []" "n = int (sz h)"
proof -
  note I = enc_invD [OF inv]
  have "map_of (freeable c) h = Some n" by (simp add: fr)
  then show hn: "map_of (cached c) h = Some []" "n = int (sz h)" using I(3) by blast+
  have "h \<notin> fst ` set rest" using I(2) by (simp add: fr)
  then have "map_of rest h = None" by (simp add: map_of_eq_None_iff)
  then have mr: "map_of rest k = (if k = h then None else map_of (freeable c) k)" for k by (simp add: fr)
  have m: "map_of rest k = Some v \<longleftrightarrow> map_of (AList.delete h (cached c)) k = Some [] \<and> v = int (sz k)" for k v
    using I(3) [of k v] by (simp add: mr)
  have s: "slots sz (AList.delete h (cached c)) = slots sz (cached c) - int (sz h)"
    using slots_delete [OF I(1), of sz h] hn(1) by simp
  have "od_wf rest" using I(2) by (simp add: fr)
  moreover have "num_freeable_slots c = num_free_slots c + n + slots sz rest" using I(5) hn(2) by (simp add: fr)
  moreover have "num_free_slots c + n = ec_cache_size c - slots sz (AList.delete h (cached c))"
    using I(4) hn(2) s by simp
  ultimately show "enc_inv sz c1" unfolding enc_inv_def c1_def using I(1,6) m hn(2) by simp
qed

lemma evict_oldest_law:
  assumes "enc_inv sz c" "need \<le> num_freeable_slots c"
  shows "\<exists>c' out. evict_oldest need (freeable c) c = Inr c' \<and> evicted sz need c c' out"
  using assms
proof (induction "freeable c" arbitrary: c)
  case Nil
  then have "need \<le> num_free_slots c" using enc_invD(5) [OF Nil.prems(1)] by (simp add: Nil(1) [symmetric])
  then have "evict_oldest need (freeable c) c = Inr c \<and> evicted sz need c c []"
    using Nil.prems by (simp add: evicted_def flip: Nil.hyps)
  then show ?case by blast
next
  case (Cons e rest)
  obtain h n where fr: "freeable c = (h, n) # rest" using Cons.hyps(2) by (metis surj_pair)
  note one = evict_one [OF Cons.prems(1) fr]
  show ?case
  proof (cases "need > num_free_slots c")
    case False
    then have "evict_oldest need (freeable c) c = Inr c \<and> evicted sz need c c []"
      using Cons.prems(1) by (simp add: fr evicted_def)
    then show ?thesis by blast
  next
    case True
    let ?c = "c\<lparr>freeable := rest, cached := AList.delete h (cached c), freed := freed c @ [h],
          num_free_slots := num_free_slots c + n\<rparr>"
    have step: "evict_oldest need (freeable c) c = evict_oldest need (freeable ?c) ?c"
      using True one(2) by (simp add: fr)
    have ne: "need \<le> num_freeable_slots ?c" "rest = freeable ?c" using Cons.prems(2) by simp_all
    obtain c' out where r: "evict_oldest need (freeable ?c) ?c = Inr c'" and ev: "evicted sz need ?c c' out"
      using Cons.hyps(1) [OF ne(2) one(1) ne(1)] by blast
    note E = ev [unfolded evicted_def]
    have inv': "enc_inv sz c'" using E by simp
    have last: "num_free_slots c' - int (sz (fst (last ((h, n) # out)))) < need"
    proof (cases "out = []")
      case out: True
      then have "freeable c' = rest" "num_freeable_slots c' = num_freeable_slots c" using E by simp_all
      then have "num_free_slots c' = num_free_slots c + n"
        using enc_invD(5) [OF inv'] enc_invD(5) [OF one(1)] by simp
      then show ?thesis using True one(3) out by simp
    next
      case False
      then show ?thesis using E by simp
    qed
    have "evicted sz need c c' ((h, n) # out)"
      unfolding evicted_def using E fr last by simp
    then show ?thesis using r step by auto
  qed
qed

lemma can_allocate_law:
  assumes inv: "enc_inv sz c" and r: "sized sz r" "i < length (mm_features r)"
  defines "n \<equiv> int (sz (mm_identifier (mm_features r ! i)))"
  shows "\<exists>c' out. can_allocate c r i budget to_schedule
      = Inr (n \<le> budget \<and> n + to_schedule \<le> num_freeable_slots c, c')
    \<and> (if n \<le> budget \<and> n + to_schedule \<le> num_freeable_slots c
       then evicted sz (n + to_schedule) c c' out \<and> (n + to_schedule \<le> num_free_slots c \<longrightarrow> c' = c) else c' = c)"
proof -
  have e: "get_num_encoder_embeds r i = Inr (nat n)" using sizedD [OF r] by (simp add: n_def)
  have same: "evicted sz (n + to_schedule) c c []" if "n + to_schedule \<le> num_free_slots c"
    using inv that by (simp add: evicted_def)
  have le: "num_free_slots c \<le> num_freeable_slots c" using enc_inv_bounds [OF inv] by simp
  consider "n > budget" | "n \<le> budget" "n + to_schedule \<le> num_free_slots c"
    | "n \<le> budget" "n + to_schedule > num_freeable_slots c"
    | "n \<le> budget" "n + to_schedule > num_free_slots c" "n + to_schedule \<le> num_freeable_slots c" by linarith
  then show ?thesis
  proof cases
    case 1
    then show ?thesis using e by (simp add: can_allocate_def n_def)
  next
    case 2
    then have "can_allocate c r i budget to_schedule = Inr (True, c)" using e by (simp add: can_allocate_def n_def)
    then show ?thesis using 2 same le by auto
  next
    case 3
    then show ?thesis using e le by (simp add: can_allocate_def n_def Let_def)
  next
    case 4
    then obtain c' out where E: "evict_oldest (n + to_schedule) (freeable c) c = Inr c'" "evicted sz (n + to_schedule) c c' out"
      using evict_oldest_law [OF inv] by blast
    then have "can_allocate c r i budget to_schedule = Inr (True, c')" using 4 e by (simp add: can_allocate_def n_def)
    then show ?thesis using 4 E by auto
  qed
qed

lemma allocate_law:
  assumes inv: "enc_inv sz c" and r: "sized sz r" "i < length (mm_features r)"
  defines "h \<equiv> mm_identifier (mm_features r ! i)"
  assumes fresh: "\<not> in_cache c h" and room: "int (sz h) \<le> num_free_slots c"
  shows "\<exists>c'. allocate c r i = Inr c' \<and> enc_inv sz c' \<and> num_free_slots c' = num_free_slots c - int (sz h)
    \<and> num_freeable_slots c' = num_freeable_slots c - int (sz h)
    \<and> freeable c' = freeable c \<and> freed c' = freed c \<and> ec_cache_size c' = ec_cache_size c
    \<and> (\<forall>k. map_of (cached c') k = (if k = h then Some [request_id r] else map_of (cached c) k))"
proof -
  note I = enc_invD [OF inv]
  have e: "get_num_encoder_embeds r i = Inr (sz h)" "mm_hash_at r i = Inr h" using sizedD [OF r] by (simp_all add: h_def)
  have none: "map_of (cached c) h = None" using fresh by (simp add: in_cache_def)
  have fr: "int (sz h) \<le> num_freeable_slots c" using room enc_inv_bounds [OF inv] by linarith
  let ?d = "AList.update h [request_id r] (AList.update h [] (cached c))"
  let ?c = "c\<lparr>cached := ?d, num_free_slots := num_free_slots c - int (sz h),
       num_freeable_slots := num_freeable_slots c - int (sz h)\<rparr>"
  have "allocate c r i = Inr ?c" using e none room fr by (simp add: allocate_def Let_def)
  moreover have "enc_inv sz ?c"
  proof -
    have s: "slots sz ?d = slots sz (cached c) + int (sz h)" using none by (simp add: slots_update)
    have m: "map_of (freeable c) k = Some n \<longleftrightarrow> map_of ?d k = Some [] \<and> n = int (sz k)" for k n
      using I(3) [of k n] none by auto
    show ?thesis unfolding enc_inv_def using I(1,2,4,5,6) s m room by simp
  qed
  ultimately show ?thesis by auto
qed

text \<open>Releasing an input: the reference goes, and the entry becomes the youngest freeable one with its last.\<close>

lemma free_encoder_input_law:
  assumes inv: "enc_inv sz c" and r: "sized sz r" "i < length (mm_features r)"
  defines "h \<equiv> mm_identifier (mm_features r ! i)"
  shows "\<exists>c'. free_encoder_input r i c = Inr c' \<and> enc_inv sz c' \<and> num_free_slots c' = num_free_slots c
    \<and> freed c' = freed c \<and> ec_cache_size c' = ec_cache_size c \<and> (\<forall>k. in_cache c' k = in_cache c k)
    \<and> (\<forall>k. references c' k = (if k = h then references c k - {request_id r} else references c k))
    \<and> num_freeable_slots c \<le> num_freeable_slots c'
    \<and> (references c h = {request_id r} \<longrightarrow> freeable c' = freeable c @ [(h, int (sz h))]
         \<and> num_freeable_slots c' = num_freeable_slots c + int (sz h))"
proof -
  note I = enc_invD [OF inv]
  have e: "get_num_encoder_embeds r i = Inr (sz h)" "mm_hash_at r i = Inr h" using sizedD [OF r] by (simp_all add: h_def)
  show ?thesis
  proof (cases "references c h = {}")
    case True
    then have "map_of (cached c) h = None \<or> map_of (cached c) h = Some []"
      by (auto simp: references_def split: option.splits)
    then have "free_encoder_input r i c = Inr c" using e by (auto simp: free_encoder_input_def)
    then show ?thesis using inv True by auto
  next
    case False
    then obtain x xs where refs: "map_of (cached c) h = Some (x # xs)"
      by (auto simp: references_def neq_Nil_conv split: option.splits)
    define refs' where "refs' = removeAll (request_id r) (x # xs)"
    have sr: "set refs' = insert x (set xs) - {request_id r}" unfolding refs'_def by (subst set_removeAll) simp
    have nf: "map_of (freeable c) h = None" using I(3) [of h] refs by (cases "map_of (freeable c) h") auto
    let ?c1 = "c\<lparr>cached := AList.update h refs' (cached c)\<rparr>"
    have s: "slots sz (AList.update h refs' (cached c)) = slots sz (cached c)" using refs by (simp add: slots_update)
    have rf: "references c k = (if k = h then set (x # xs) else references c k)" for k using refs by (simp add: references_def)
    show ?thesis
    proof (cases "refs' = []")
      case True
      let ?c = "?c1\<lparr>freeable := AList.update h (int (sz h)) (freeable c), num_freeable_slots := num_freeable_slots c + int (sz h)\<rparr>"
      have eq: "free_encoder_input r i c = Inr ?c"
        using e refs True by (simp add: free_encoder_input_def refs'_def [symmetric] Let_def del: removeAll.simps)
      have up: "AList.update h (int (sz h)) (freeable c) = freeable c @ [(h, int (sz h))]"
        using nf by (simp add: update_new_key map_of_eq_None_iff)
      have m: "map_of (AList.update h (int (sz h)) (freeable c)) k = Some n \<longleftrightarrow>
          map_of (AList.update h refs' (cached c)) k = Some [] \<and> n = int (sz k)" for k n
        using I(3) [of k n] True by auto
      have fs: "slots sz (AList.update h (int (sz h)) (freeable c)) = slots sz (freeable c) + int (sz h)" by (simp add: up)
      have "enc_inv sz ?c" unfolding enc_inv_def using I(1,2,4,5,6) s m fs by simp
      moreover have "\<forall>k. references ?c k = (if k = h then references c k - {request_id r} else references c k)"
        using refs sr by (simp add: references_def)
      ultimately show ?thesis using eq up refs by (auto simp: in_cache_def)
    next
      case False
      have eq: "free_encoder_input r i c = Inr ?c1"
        using e refs False by (simp add: free_encoder_input_def refs'_def [symmetric] Let_def del: removeAll.simps)
      have m: "map_of (freeable c) k = Some n \<longleftrightarrow> map_of (AList.update h refs' (cached c)) k = Some [] \<and> n = int (sz k)" for k n
        using I(3) [of k n] False refs by auto
      have inv1: "enc_inv sz ?c1" unfolding enc_inv_def using I(1,2,4,5,6) s m by simp
      moreover have "\<forall>k. references ?c1 k = (if k = h then references c k - {request_id r} else references c k)"
        using refs sr by (simp add: references_def)
      moreover have "references c h \<noteq> {request_id r}"
      proof -
        have "set refs' \<noteq> {}" using False by simp
        then show ?thesis using sr refs by (auto simp: references_def)
      qed
      ultimately show ?thesis using eq refs by (auto simp: in_cache_def)
    qed
  qed
qed

lemma ec_free_law:
  assumes inv: "enc_inv sz c" and r: "sized sz r"
  shows "\<exists>c'. ec_free r c = Inr c' \<and> enc_inv sz c' \<and> num_free_slots c' = num_free_slots c \<and> ec_cache_size c' = ec_cache_size c
    \<and> (\<forall>k. in_cache c' k = in_cache c k)
    \<and> (\<forall>k. references c' k = (if k \<in> mm_identifier ` set (mm_features r) then references c k - {request_id r} else references c k))"
proof -
  have loop: "\<exists>c'. fold_res (free_encoder_input r) is c = Inr c' \<and> enc_inv sz c' \<and> num_free_slots c' = num_free_slots c \<and> ec_cache_size c' = ec_cache_size c
      \<and> (\<forall>k. in_cache c' k = in_cache c k)
      \<and> (\<forall>k. references c' k = (if k \<in> (\<lambda>i. mm_identifier (mm_features r ! i)) ` set is
            then references c k - {request_id r} else references c k))"
    if "\<forall>i \<in> set is. i < length (mm_features r)" "enc_inv sz c" for "is" c
    using that
  proof (induction "is" arbitrary: c)
    case (Cons i "is")
    then obtain c1 where c1: "free_encoder_input r i c = Inr c1" "enc_inv sz c1" "num_free_slots c1 = num_free_slots c" "ec_cache_size c1 = ec_cache_size c"
      "\<And>k. in_cache c1 k = in_cache c k"
      "\<And>k. references c1 k = (if k = mm_identifier (mm_features r ! i) then references c k - {request_id r} else references c k)"
      using free_encoder_input_law [OF Cons.prems(2) r, of i] by auto
    obtain c2 where c2: "fold_res (free_encoder_input r) is c1 = Inr c2" "enc_inv sz c2" "num_free_slots c2 = num_free_slots c1" "ec_cache_size c2 = ec_cache_size c1"
      "\<And>k. in_cache c2 k = in_cache c1 k"
      "\<And>k. references c2 k = (if k \<in> (\<lambda>i. mm_identifier (mm_features r ! i)) ` set is
            then references c1 k - {request_id r} else references c1 k)"
      using Cons.IH [OF _ c1(2)] Cons.prems(1) by auto
    show ?case using c1 c2 by auto
  qed simp
  let ?is = "get_cached_input_ids c r"
  have b: "\<forall>i \<in> set ?is. i < length (mm_features r)" by (simp add: get_cached_input_ids_def)
  obtain c' where c': "ec_free r c = Inr c'" "enc_inv sz c'" "num_free_slots c' = num_free_slots c" "ec_cache_size c' = ec_cache_size c"
    "\<And>k. in_cache c' k = in_cache c k"
    "\<And>k. references c' k = (if k \<in> (\<lambda>i. mm_identifier (mm_features r ! i)) ` set ?is
            then references c k - {request_id r} else references c k)"
    using loop [OF b inv] by (auto simp: ec_free_def)
  have "references c k = {}" if key: "k \<in> mm_identifier ` set (mm_features r)"
    "k \<notin> (\<lambda>i. mm_identifier (mm_features r ! i)) ` set ?is" for k
  proof -
    obtain i where i: "i < length (mm_features r)" "k = mm_identifier (mm_features r ! i)"
      using key(1) by (auto simp: in_set_conv_nth)
    then have "map_of (cached c) k = None" using key(2) by (auto simp: get_cached_input_ids_def image_iff)
    then show ?thesis by (simp add: references_def)
  qed
  moreover have "k \<in> mm_identifier ` set (mm_features r)" if "k \<in> (\<lambda>i. mm_identifier (mm_features r ! i)) ` set ?is" for k
    using that b by auto
  ultimately have "references c' k = (if k \<in> mm_identifier ` set (mm_features r) then references c k - {request_id r} else references c k)" for k
    using c'(6) [of k] by auto
  then show ?thesis using c' by blast
qed

end
