(* ===== verification/Encoder_Cache_Properties.thy ===== *)
theory Encoder_Cache_Properties
  imports Encoder_Cache
begin

text \<open>
  Properties of the encoder caches: the reachable states, the eviction of \<^verbatim>\<open>can_allocate\<close>, the budget that
  lets every item fit, and the slot count of the encoder-decoder variant.
\<close>

section \<open>Reachable states\<close>

inductive enc_step :: "(string \<Rightarrow> nat) \<Rightarrow> encoder_cache \<Rightarrow> encoder_cache \<Rightarrow> bool" for sz where
  step_check: "sized sz r \<Longrightarrow> i < length (mm_features r) \<Longrightarrow> check_and_update_cache c r i = Inr (hit, c') \<Longrightarrow> enc_step sz c c'"
| step_can_allocate: "sized sz r \<Longrightarrow> i < length (mm_features r) \<Longrightarrow> can_allocate c r i budget n = Inr (ok, c') \<Longrightarrow> enc_step sz c c'"
| step_allocate: "sized sz r \<Longrightarrow> i < length (mm_features r) \<Longrightarrow> \<not> in_cache c (mm_identifier (mm_features r ! i))
    \<Longrightarrow> allocate c r i = Inr c' \<Longrightarrow> enc_step sz c c'"
| step_free_input: "sized sz r \<Longrightarrow> i < length (mm_features r) \<Longrightarrow> free_encoder_input r i c = Inr c' \<Longrightarrow> enc_step sz c c'"
| step_free: "sized sz r \<Longrightarrow> ec_free r c = Inr c' \<Longrightarrow> enc_step sz c c'"
| step_get_freed: "get_freed_mm_hashes c = (hs, c') \<Longrightarrow> enc_step sz c c'"
| step_reset: "c' = ec_reset c \<Longrightarrow> enc_step sz c c'"

lemma allocate_room: "allocate c r i = Inr c' \<Longrightarrow> sized sz r \<Longrightarrow> i < length (mm_features r) \<Longrightarrow>
    int (sz (mm_identifier (mm_features r ! i))) \<le> num_free_slots c"
  using sizedD [of sz r i] by (auto simp: allocate_def Let_def split: if_splits)

lemma enc_step_inv: "enc_step sz c c' \<Longrightarrow> enc_inv sz c \<Longrightarrow> enc_inv sz c' \<and> ec_cache_size c' = ec_cache_size c"
proof (induction rule: enc_step.induct)
  case (step_check r i c hit c')
  then show ?case using check_law [OF step_check(4,2)] by auto
next
  case (step_can_allocate r i c budget n ok c')
  then show ?case using can_allocate_law [OF step_can_allocate(4,1,2), of budget n]
    by (auto simp: evicted_def split: if_splits)
next
  case (step_allocate r i c c')
  then show ?case using allocate_law [OF step_allocate(5,1,2,3) allocate_room [OF step_allocate(4,1,2)]] by auto
next
  case (step_free_input r i c c')
  then show ?case using free_encoder_input_law [OF step_free_input(4,1,2)] by auto
next
  case (step_free r c c')
  then show ?case using ec_free_law [OF step_free(3,1)] by auto
next
  case (step_get_freed c hs c')
  then show ?case using get_freed_inv [of sz c] by (auto simp: get_freed_mm_hashes_def)
next
  case (step_reset c' c)
  then show ?case using enc_reset_inv by (simp add: ec_reset_def)
qed

lemma enc_reachable_inv:
  assumes "(enc_step sz)\<^sup>*\<^sup>* (encoder_cache_init N) c" "0 \<le> N"
  shows "enc_inv sz c \<and> ec_cache_size c = N"
  using assms(1)
proof (induction rule: rtranclp_induct)
  case base
  then show ?case using enc_init_inv [OF assms(2)] by (simp add: encoder_cache_init_def)
next
  case (step c c')
  then show ?case using enc_step_inv by fastforce
qed

lemma slots_partition:
  "od_wf d \<Longrightarrow> slots sz d = slots sz (filter (\<lambda>e. snd e = []) d) + slots sz (filter (\<lambda>e. snd e \<noteq> []) d)"
  by (induction d) auto

lemma slots_same_keys:
  assumes "od_wf d" "od_wf e" "fst ` set d = fst ` set e"
  shows "slots sz d = slots sz e"
proof -
  have s: "slots sz f = (\<Sum>h \<in> fst ` set f. int (sz h))" if "od_wf f" for f :: "(string, 'c) odict"
    using that by (induction f) auto
  have s': "slots sz f = (\<Sum>h \<in> fst ` set f. int (sz h))" if "od_wf f" for f :: "(string, 'd) odict"
    using that by (induction f) auto
  show ?thesis using s [of d] s' [of e] assms by simp
qed

lemma freeable_slots_count:
  assumes "enc_inv sz c"
  shows "num_freeable_slots c = ec_cache_size c - slots sz (filter (\<lambda>e. snd e \<noteq> []) (cached c))"
proof -
  note I = enc_invD [OF assms]
  let ?u = "filter (\<lambda>e. snd e = []) (cached c)"
  have wf: "od_wf ?u" using I(1) by (rule distinct_map_filter)
  have "fst ` set ?u = fst ` set (freeable c)"
  proof (rule set_eqI)
    fix h
    have "h \<in> fst ` set ?u \<longleftrightarrow> (h, []) \<in> set (cached c)" by force
    also have "\<dots> \<longleftrightarrow> map_of (cached c) h = Some []" using map_of_eq_Some_iff [OF I(1)] by simp
    also have "\<dots> \<longleftrightarrow> map_of (freeable c) h \<noteq> None" using I(3) [of h] by (cases "map_of (freeable c) h") auto
    also have "\<dots> \<longleftrightarrow> h \<in> fst ` set (freeable c)" by (simp add: map_of_eq_None_iff)
    finally show "h \<in> fst ` set ?u \<longleftrightarrow> h \<in> fst ` set (freeable c)" .
  qed
  then have "slots sz ?u = slots sz (freeable c)" by (rule slots_same_keys [OF wf I(2)])
  then show ?thesis using I(4,5) slots_partition [OF I(1), of sz] by simp
qed

text \<open>
  \<^verbatim>\<open>allocate\<close> asserts that the item fits into the free slots; nothing else can fail. After
  \<^verbatim>\<open>can_allocate\<close> said yes the assertion holds.
\<close>

lemma allocate_exact:
  assumes inv: "enc_inv sz c" and r: "sized sz r" "i < length (mm_features r)"
  defines "h \<equiv> mm_identifier (mm_features r ! i)"
  shows "(int (sz h) \<le> num_free_slots c \<longrightarrow> (\<exists>c'. allocate c r i = Inr c' \<and> request_id r \<in> references c' h
      \<and> num_free_slots c' = num_free_slots c - int (sz h) \<and> num_freeable_slots c' = num_freeable_slots c - int (sz h)))
    \<and> (num_free_slots c < int (sz h) \<longrightarrow> allocate c r i = Inl AssertionError)"
proof -
  have e: "get_num_encoder_embeds r i = Inr (sz h)" "mm_hash_at r i = Inr h" using sizedD [OF r] by (simp_all add: h_def)
  have "num_free_slots c \<le> num_freeable_slots c" using enc_inv_bounds [OF inv] by simp
  then show ?thesis using e by (auto simp: allocate_def Let_def references_def)
qed

lemma can_allocate_then_allocate:
  assumes "enc_inv sz c" "sized sz r" "i < length (mm_features r)" "0 \<le> n" "can_allocate c r i budget n = Inr (True, c')"
  shows "\<exists>c''. allocate c' r i = Inr c''"
proof -
  let ?n = "int (sz (mm_identifier (mm_features r ! i)))"
  obtain out where "evicted sz (?n + n) c c' out"
    using can_allocate_law [OF assms(1-3), of budget n] assms(5) by (auto split: if_splits)
  then have "enc_inv sz c'" "?n \<le> num_free_slots c'" using assms(4) by (auto simp: evicted_def)
  then show ?thesis using allocate_exact [OF _ assms(2,3)] by blast
qed


definition example_image :: "string \<Rightarrow> nat \<Rightarrow> mm_feature" where
  "example_image h n = \<lparr>mm_identifier = h, mm_offset = 0, mm_length = n, is_embed = None\<rparr>"

definition example_mm_request :: "string \<Rightarrow> mm_feature list \<Rightarrow> request" where
  "example_mm_request rid fs = (example_request [])\<lparr>request_id := rid, mm_features := fs\<rparr>"

definition example_sizes :: "string \<Rightarrow> nat" where
  "example_sizes h = (if h = ''a'' then 4 else 3)"

text \<open>A request caches one image, releases it, and a second one is about to be cached.\<close>

definition example_cache :: encoder_cache where
  "example_cache = \<lparr>ec_cache_size = 6, num_free_slots = 2, num_freeable_slots = 6, cached = [(''a'', [])],
     freeable = [(''a'', 4)], freed = []\<rparr>"

lemma example_requests_sized:
  "sized example_sizes (example_mm_request ''1'' [example_image ''a'' 4])"
  "sized example_sizes (example_mm_request ''2'' [example_image ''b'' 3])"
  by (simp_all add: sized_def example_mm_request_def example_image_def example_sizes_def get_num_embeds_def)

lemma example_cache_reachable: "(enc_step example_sizes)\<^sup>*\<^sup>* (encoder_cache_init 6) example_cache"
proof -
  let ?r = "example_mm_request ''1'' [example_image ''a'' 4]"
  let ?c = "\<lparr>ec_cache_size = 6, num_free_slots = 2, num_freeable_slots = 2, cached = [(''a'', [''1''])],
     freeable = [], freed = []\<rparr>"
  have "allocate (encoder_cache_init 6) ?r 0 = Inr ?c" "free_encoder_input ?r 0 ?c = Inr example_cache"
    "length (mm_features ?r) = 1" "\<not> map_of (cached (encoder_cache_init 6)) (mm_identifier (mm_features ?r ! 0)) \<noteq> None"
    by code_simp+
  then have "enc_step example_sizes (encoder_cache_init 6) ?c" "enc_step example_sizes ?c example_cache"
    using enc_step.step_allocate [OF example_requests_sized(1), of 0 "encoder_cache_init 6" ?c]
      enc_step.step_free_input [OF example_requests_sized(1), of 0 ?c example_cache]
    by (simp_all add: in_cache_def)
  then show ?thesis by (meson converse_rtranclp_into_rtranclp rtranclp.rtrancl_refl)
qed


section \<open>Eviction\<close>

text \<open>
  C18: \<^verbatim>\<open>can_allocate\<close> as the code has it (its docstring leaves out the refusal for the compute budget, see
  \<open>can_allocate_refuses_with_room\<close>). It says yes exactly when the item is within the compute budget and fits into the slots
  that are free or held by unreferenced entries. A yes leaves enough free slots for the item and all
  items scheduled before it; to get there it evicts the oldest unreferenced entries, no more than needed,
  reports exactly these in \<^verbatim>\<open>freed\<close> and keeps every other entry with its references. A no changes nothing.
\<close>

theorem can_allocate_correct:
  assumes "enc_inv sz c" "sized sz r" "i < length (mm_features r)"
  defines "n \<equiv> int (sz (mm_identifier (mm_features r ! i)))"
  shows "\<exists>ok c' out. can_allocate c r i budget to_schedule = Inr (ok, c')
    \<and> ok = (n \<le> budget \<and> n + to_schedule \<le> num_freeable_slots c)
    \<and> (\<not> ok \<longrightarrow> c' = c)
    \<and> (ok \<longrightarrow> enc_inv sz c' \<and> n + to_schedule \<le> num_free_slots c'
        \<and> freeable c = out @ freeable c' \<and> freed c' = freed c @ map fst out
        \<and> (\<forall>h. map_of (cached c') h = (if h \<in> set (map fst out) then None else map_of (cached c) h))
        \<and> (\<forall>h \<in> set (map fst out). references c h = {})
        \<and> (out \<noteq> [] \<longrightarrow> num_free_slots c' - int (sz (fst (last out))) < n + to_schedule))"
proof -
  let ?ok = "n \<le> budget \<and> n + to_schedule \<le> num_freeable_slots c"
  obtain c' out where R: "can_allocate c r i budget to_schedule = Inr (?ok, c')"
    "if ?ok then evicted sz (n + to_schedule) c c' out \<and> (n + to_schedule \<le> num_free_slots c \<longrightarrow> c' = c) else c' = c"
    using can_allocate_law [OF assms(1-3), of budget to_schedule, folded n_def] by blast
  have unref: "references c h = {}" if "freeable c = out @ freeable c'" "h \<in> set (map fst out)" for h
  proof -
    have "map_of (freeable c) h \<noteq> None" using that by (auto simp: map_of_eq_None_iff)
    then show ?thesis using enc_invD(3) [OF assms(1), of h] by (auto simp: references_def)
  qed
  show ?thesis
  proof (cases ?ok)
    case True
    then have "evicted sz (n + to_schedule) c c' out" using R(2) by simp
    then show ?thesis using R(1) True unref unfolding evicted_def by (intro exI [of _ True] exI [of _ c'] exI [of _ out]) simp
  next
    case False
    then have "c' = c" using R(2) by simp
    then show ?thesis using R(1) False by auto
  qed
qed

theorem can_allocate_correct_witness:
  "case can_allocate example_cache (example_mm_request ''2'' [example_image ''b'' 3]) 0 8 0 of
     Inl e \<Rightarrow> False
   | Inr (ok, c') \<Rightarrow> ok \<and> enc_inv example_sizes c' \<and> freed c' = [''a''] \<and> num_free_slots c' = 6"
proof -
  let ?r = "example_mm_request ''2'' [example_image ''b'' 3]"
  have inv: "enc_inv example_sizes example_cache" using enc_reachable_inv [OF example_cache_reachable] by simp
  have i: "0 < length (mm_features ?r)" by (simp add: example_mm_request_def)
  have "case can_allocate example_cache ?r 0 8 0 of Inl e \<Rightarrow> False
      | Inr (ok, c') \<Rightarrow> ok \<and> freed c' = [''a''] \<and> num_free_slots c' = 6" by code_simp
  then show ?thesis using can_allocate_correct [OF inv example_requests_sized(2) i, of 8 0] by auto
qed

text \<open>
  The docstring says that the result is false only if the item exceeds the free and reclaimable
  capacity. An item of three slots is refused by a cache with six reclaimable slots when the compute
  budget is two.
\<close>

lemma can_allocate_refuses_with_room:
  "can_allocate example_cache (example_mm_request ''2'' [example_image ''b'' 3]) 0 2 0 = Inr (False, example_cache)
   \<and> num_freeable_slots example_cache = 6"
  by code_simp

section \<open>The budget lets every item fit\<close>

text \<open>
  With the budgets of \<^verbatim>\<open>compute_mm_encoder_budget\<close> no item can be stuck for good. An item no larger than the
  largest of its modality always passes \<^verbatim>\<open>can_allocate\<close> once no request references a cached entry and
  nothing else is scheduled, whatever the cache still holds.
\<close>

theorem item_fits_idle_cache:
  assumes budget: "compute_mm_encoder_budget cfg items = Inr (compute_budget, capacity)"
    and item: "(modality, m) \<in> set items" "int (sz (mm_identifier (mm_features r ! i))) \<le> m"
    and r: "sized sz r" "i < length (mm_features r)"
    and c: "enc_inv sz c" "ec_cache_size c = capacity" and idle: "\<forall>h. references c h = {}"
  shows "\<exists>c'. can_allocate c r i compute_budget 0 = Inr (True, c')
    \<and> (\<not> in_cache c (mm_identifier (mm_features r ! i)) \<longrightarrow> (\<exists>c''. allocate c' r i = Inr c''))"
proof -
  let ?h = "mm_identifier (mm_features r ! i)" let ?n = "int (sz ?h)"
  have "m \<le> Max (set (map snd items))" using item(1) by (intro Max_ge) force+
  then have le: "?n \<le> compute_budget" "?n \<le> capacity"
    using budget item by (auto simp: compute_mm_encoder_budget_def Let_def split: if_splits)
  have "filter (\<lambda>e. snd e \<noteq> []) (cached c) = []"
  proof -
    have "refs = []" if "(h, refs) \<in> set (cached c)" for h refs
      using idle [rule_format, of h] map_of_is_SomeI [OF enc_invD(1) [OF c(1)] that] by (simp add: references_def)
    then show ?thesis by (auto simp: filter_empty_conv)
  qed
  then have "num_freeable_slots c = capacity" using freeable_slots_count [OF c(1)] c(2) by simp
  then obtain c' out where R: "can_allocate c r i compute_budget 0 = Inr (True, c')" "evicted sz ?n c c' out"
    using can_allocate_law [OF c(1) r, of compute_budget 0] le by auto
  have "\<exists>c''. allocate c' r i = Inr c''" if "\<not> in_cache c ?h"
  proof -
    have "enc_inv sz c'" "\<not> in_cache c' ?h" "?n \<le> num_free_slots c'"
      using R(2) that by (auto simp: evicted_def in_cache_def)
    then show ?thesis using allocate_law [OF _ r] by blast
  qed
  then show ?thesis using R(1) by blast
qed

theorem item_fits_idle_cache_witness:
  "\<exists>c'. can_allocate example_cache (example_mm_request ''2'' [example_image ''b'' 3]) 0 6 0 = Inr (True, c')"
proof -
  let ?cfg = "\<lparr>disable_chunked_mm_input = True, max_num_batched_tokens = 8, max_num_encoder_input_tokens = 4, encoder_cache_size = 5\<rparr>"
  have b: "compute_mm_encoder_budget ?cfg [(''image'', 6)] = Inr (6, 6)" by code_simp
  have inv: "enc_inv example_sizes example_cache" "ec_cache_size example_cache = 6"
    using enc_reachable_inv [OF example_cache_reachable] by simp_all
  have idle: "\<forall>h. references example_cache h = {}" by (simp add: references_def example_cache_def)
  have i: "0 < length (mm_features (example_mm_request ''2'' [example_image ''b'' 3]))"
    "int (example_sizes (mm_identifier (mm_features (example_mm_request ''2'' [example_image ''b'' 3]) ! 0))) \<le> 6"
    by (simp_all add: example_mm_request_def example_image_def example_sizes_def)
  show ?thesis using item_fits_idle_cache [OF b _ i(2) example_requests_sized(2) i(1) inv idle] by auto
qed

section \<open>The encoder-decoder cache\<close>

text \<open>
  The scheduler releases the inputs of an encoder-decoder request after every step with computed tokens and
  once more when the request ends; each release adds the slots again, so the count of free slots passes the capacity.
\<close>

lemma encoder_decoder_slots_overflow:
  "case ed_allocate (ed_init 6) (example_mm_request ''1'' [example_image ''a'' 4]) 0 of
     Inl e \<Rightarrow> False
   | Inr c \<Rightarrow> (case ed_free_encoder_input (example_mm_request ''1'' [example_image ''a'' 4]) 0 c of
       Inl e \<Rightarrow> False
     | Inr c1 \<Rightarrow> (case ed_free (example_mm_request ''1'' [example_image ''a'' 4]) c1 of
         Inl e \<Rightarrow> False
       | Inr c2 \<Rightarrow> ed_num_free_slots c1 = 6 \<and> ed_num_free_slots c2 = 10 \<and> ed_num_free_slots c2 > ed_cache_size c2))"
  by code_simp

text \<open>Each allocated entry is reported as freed once, by the second report after its allocation.\<close>

lemma encoder_decoder_reports_once:
  assumes "mm_hash_at r i = Inr h" "ed_allocate c r i = Inr c'" "ed_get_freed_mm_hashes c' = (f1, c1)" "ed_get_freed_mm_hashes c1 = (f2, c2)"
  shows "f1 = ed_to_free c \<and> f2 = ed_allocated c @ [h] \<and> ed_allocated c2 = [] \<and> ed_to_free c2 = []"
  using assms by (auto simp: ed_allocate_def ed_get_freed_mm_hashes_def)

end
