(* ===== verification/Encoder_Scheduling.thy ===== *)
theory Encoder_Scheduling
  imports Encoder_Cache_Properties
begin

text \<open>
  Scheduling of encoder inputs: \<^verbatim>\<open>Scheduler._try_schedule_encoder_inputs\<close> and \<^verbatim>\<open>_free_encoder_inputs\<close> of
  src/vllm/vllm/v1/core/sched/scheduler.py with the allocation that follows a successful attempt, and
  \<^verbatim>\<open>PlaceholderRange.get_embeds_indices_in_range\<close> of src/vllm/vllm/multimodal/inputs.py. Whether an item is in the
  remote encoder cache is the answer of the connector, a parameter.
\<close>

section \<open>Operations\<close>

text \<open>\<^verbatim>\<open>embeds_cumsum[k - 1]\<close>, the number of embeddings among the first \<open>k\<close> positions.\<close>

definition cumsum_before :: "bool list \<Rightarrow> int \<Rightarrow> int res" where
  "cumsum_before flags k =
     (if k > 0 then (if nat k \<le> length flags then Inr (int (length (filter id (take (nat k) flags)))) else Inl IndexError)
      else Inr 0)"

definition get_embeds_indices_in_range :: "mm_feature \<Rightarrow> int \<Rightarrow> int \<Rightarrow> (int \<times> int) res" where
  "get_embeds_indices_in_range f start_idx end_idx =
     (case is_embed f of
        None \<Rightarrow> Inr (start_idx, end_idx)
      | Some flags \<Rightarrow>
          res_bind (cumsum_before flags start_idx) (\<lambda>a.
          res_bind (cumsum_before flags end_idx) (\<lambda>b. Inr (a, b))))"

record encoder_plan =
  pl_inputs :: "nat list"
  pl_new_tokens :: int
  pl_budget :: int
  pl_external :: "nat list"
  pl_hashes :: "string list"
  pl_embeds :: int
  pl_cache :: encoder_manager

record encoder_sched_config =
  sc_is_encoder_decoder :: bool
  sc_disable_chunked_mm_input :: bool
  sc_ec_connector :: "(string \<Rightarrow> bool) option"

text \<open>The loop over the features; \<open>nc\<close> is the number of computed tokens.\<close>

fun plan_inputs :: "encoder_sched_config \<Rightarrow> request \<Rightarrow> int \<Rightarrow> int \<Rightarrow> nat list \<Rightarrow> encoder_plan \<Rightarrow> encoder_plan res" where
  "plan_inputs cfg r nc shift [] st = Inr st"
| "plan_inputs cfg r nc shift (i # is) st =
     (let f = mm_features r ! i; start_pos = int (mm_offset f); num = int (mm_length f);
          embeds = int (get_num_embeds f); h = mm_identifier f in
      if start_pos \<ge> nc + pl_new_tokens st + shift then Inr st
      else if sc_is_encoder_decoder cfg \<and> nc > 0
      then guard (start_pos = 0) AssertionError (plan_inputs cfg r nc shift is st)
      else if start_pos + num \<le> nc then plan_inputs cfg r nc shift is st
      else if \<not> sc_is_encoder_decoder cfg \<and> h \<in> set (pl_hashes st) then plan_inputs cfg r nc shift is st
      else res_bind (if sc_is_encoder_decoder cfg then Inr (False, pl_cache st)
                     else em_check_and_update_cache (pl_cache st) r i) (\<lambda>(hit, c1).
        if hit then plan_inputs cfg r nc shift is (st\<lparr>pl_cache := c1\<rparr>)
        else if sc_disable_chunked_mm_input cfg \<and> nc < start_pos \<and> nc + pl_new_tokens st < start_pos + num
        then Inr (st\<lparr>pl_cache := c1, pl_new_tokens := max 0 (start_pos - (nc + shift))\<rparr>)
        else res_bind (em_can_allocate c1 r i (pl_budget st) (pl_embeds st)) (\<lambda>(ok, c2).
          if \<not> ok
          then Inr (st\<lparr>pl_cache := c2, pl_new_tokens := (if nc + shift < start_pos then start_pos - (nc + shift) else 0)\<rparr>)
          else
          res_bind (get_embeds_indices_in_range f (max 0 (nc - start_pos)) (min num (nc + pl_new_tokens st - start_pos)))
            (\<lambda>(a, b).
          if b - a = 0 then plan_inputs cfg r nc shift is (st\<lparr>pl_cache := c2\<rparr>)
          else if (case sc_ec_connector cfg of None \<Rightarrow> False | Some has_cache_item \<Rightarrow> has_cache_item h)
          then plan_inputs cfg r nc shift is
            (st\<lparr>pl_cache := c2, pl_hashes := List.insert h (pl_hashes st), pl_external := pl_external st @ [i],
               pl_embeds := pl_embeds st + embeds\<rparr>)
          else plan_inputs cfg r nc shift is
            (st\<lparr>pl_cache := c2, pl_embeds := pl_embeds st + embeds, pl_budget := pl_budget st - embeds,
               pl_hashes := List.insert h (pl_hashes st), pl_inputs := pl_inputs st @ [i]\<rparr>)))))"

definition empty_plan :: "int \<Rightarrow> int \<Rightarrow> encoder_manager \<Rightarrow> encoder_plan" where
  "empty_plan nn budget c = \<lparr>pl_inputs = [], pl_new_tokens = nn, pl_budget = budget, pl_external = [], pl_hashes = [],
     pl_embeds = 0, pl_cache = c\<rparr>"

definition try_schedule_encoder_inputs ::
  "encoder_sched_config \<Rightarrow> encoder_manager \<Rightarrow> request \<Rightarrow> int \<Rightarrow> int \<Rightarrow> int \<Rightarrow> int \<Rightarrow> encoder_plan res" where
  "try_schedule_encoder_inputs cfg c r nc nn budget shift =
     (if nn = 0 \<or> \<not> has_encoder_inputs r then Inr (empty_plan nn budget c)
      else plan_inputs cfg r nc shift [0..<length (mm_features r)] (empty_plan nn budget c))"

text \<open>The allocation of a scheduled request's inputs in \<^verbatim>\<open>Scheduler.schedule\<close>.\<close>

definition allocate_encoder_inputs :: "request \<Rightarrow> encoder_plan \<Rightarrow> encoder_manager res" where
  "allocate_encoder_inputs r pl =
     res_bind (fold_res (em_allocate r) (pl_inputs pl) (pl_cache pl)) (fold_res (em_allocate r) (pl_external pl))"

definition free_encoder_inputs :: "encoder_sched_config \<Rightarrow> request \<Rightarrow> encoder_manager \<Rightarrow> encoder_manager res" where
  "free_encoder_inputs cfg r c =
     fold_res (\<lambda>i c.
        let f = mm_features r ! i in
        if sc_is_encoder_decoder cfg \<and> num_computed_tokens r > 0 then em_free_encoder_input r i c
        else if int (mm_offset f) + int (mm_length f) \<le> num_computed_tokens r then em_free_encoder_input r i c
        else Inr c) (em_get_cached_input_ids c r) c"

section \<open>The ranges\<close>

text \<open>Position \<open>p\<close> of the prompt is filled from the encoder output of feature \<open>f\<close>.\<close>

definition embeds_at :: "mm_feature \<Rightarrow> int \<Rightarrow> bool" where
  "embeds_at f p \<longleftrightarrow> int (mm_offset f) \<le> p \<and> p < int (mm_offset f) + int (mm_length f)
     \<and> (case is_embed f of None \<Rightarrow> True | Some flags \<Rightarrow> flags ! nat (p - int (mm_offset f)))"

definition flags_ok :: "request \<Rightarrow> bool" where
  "flags_ok r \<longleftrightarrow> (\<forall>f \<in> set (mm_features r). case is_embed f of None \<Rightarrow> True | Some flags \<Rightarrow> length flags = mm_length f)"

lemma count_take_less:
  assumes "a \<le> k" "k < b" "b \<le> length flags" "flags ! k"
  shows "length (filter id (take a flags)) < length (filter id (take b flags))"
proof -
  have "take b flags = take a flags @ take (b - a) (drop a flags)" using assms by (simp flip: take_add)
  moreover have "take (b - a) (drop a flags) ! (k - a) = flags ! k" using assms by simp
  then have "flags ! k \<in> set (take (b - a) (drop a flags))"
    using nth_mem [of "k - a" "take (b - a) (drop a flags)"] assms by simp
  then have "filter id (take (b - a) (drop a flags)) \<noteq> []" using assms(4) by (auto simp: filter_empty_conv)
  ultimately show ?thesis by simp
qed

text \<open>The range computed for an item is empty only when no position to compute needs it.\<close>

lemma embeds_range:
  assumes ok: "case is_embed f of None \<Rightarrow> True | Some flags \<Rightarrow> length flags = mm_length f"
    and over: "nc < int (mm_offset f) + int (mm_length f)"
  shows "\<exists>a b. get_embeds_indices_in_range f (max 0 (nc - int (mm_offset f)))
      (min (int (mm_length f)) (nc + nn - int (mm_offset f))) = Inr (a, b)
    \<and> (b - a = 0 \<longrightarrow> (\<forall>p. nc \<le> p \<and> p < nc + nn \<longrightarrow> \<not> embeds_at f p))"
proof (cases "is_embed f")
  case None
  then show ?thesis by (auto simp: get_embeds_indices_in_range_def embeds_at_def)
next
  case (Some flags)
  then have len: "length flags = mm_length f" using ok by simp
  let ?s = "max 0 (nc - int (mm_offset f))" and ?e = "min (int (mm_length f)) (nc + nn - int (mm_offset f))"
  have cs: "cumsum_before flags k = Inr (int (length (filter id (take (nat k) flags))))" if "k \<le> int (mm_length f)" for k
    using that len by (auto simp: cumsum_before_def)
  have "?s \<le> int (mm_length f)" "?e \<le> int (mm_length f)" using over by auto
  then have r: "get_embeds_indices_in_range f ?s ?e
      = Inr (int (length (filter id (take (nat ?s) flags))), int (length (filter id (take (nat ?e) flags))))"
    using Some cs [of ?s] cs [of ?e] by (simp add: get_embeds_indices_in_range_def)
  have "length (filter id (take (nat ?s) flags)) < length (filter id (take (nat ?e) flags))"
    if "nc \<le> p" "p < nc + nn" "embeds_at f p" for p
    using that Some len by (intro count_take_less [of _ "nat (p - int (mm_offset f))"]) (auto simp: embeds_at_def)
  then show ?thesis unfolding r by fastforce
qed

section \<open>The plan\<close>

abbreviation item_id :: "request \<Rightarrow> nat \<Rightarrow> string" where
  "item_id r i \<equiv> mm_identifier (mm_features r ! i)"

text \<open>The request holds the cached output of item \<open>h\<close>.\<close>

definition holds_output :: "request \<Rightarrow> encoder_cache \<Rightarrow> string \<Rightarrow> bool" where
  "holds_output r c h \<longleftrightarrow> in_cache c h \<and> request_id r \<in> references c h"

text \<open>
  What the loop keeps: the planned items are distinct, not yet cached, and fit together into the free slots.
\<close>

definition plan_ok :: "(string \<Rightarrow> nat) \<Rightarrow> request \<Rightarrow> encoder_plan \<Rightarrow> encoder_cache \<Rightarrow> bool" where
  "plan_ok sz r st c \<longleftrightarrow>
     pl_cache st = MultiModal c \<and> enc_inv sz c \<and> 0 \<le> pl_budget st
     \<and> (\<forall>j \<in> set (pl_inputs st) \<union> set (pl_external st). j < length (mm_features r) \<and> item_id r j \<in> set (pl_hashes st))
     \<and> distinct (map (item_id r) (pl_inputs st @ pl_external st))
     \<and> set (pl_hashes st) = item_id r ` (set (pl_inputs st) \<union> set (pl_external st))
     \<and> (\<forall>h \<in> set (pl_hashes st). \<not> in_cache c h)
     \<and> pl_embeds st = (\<Sum>j \<leftarrow> pl_inputs st @ pl_external st. int (sz (item_id r j)))
     \<and> pl_embeds st \<le> num_free_slots c"

definition needed :: "request \<Rightarrow> int \<Rightarrow> int \<Rightarrow> nat \<Rightarrow> bool" where
  "needed r nc nn j \<longleftrightarrow> (\<exists>p. nc \<le> p \<and> p < nc + nn \<and> embeds_at (mm_features r ! j) p)"

definition covered :: "request \<Rightarrow> encoder_plan \<Rightarrow> encoder_cache \<Rightarrow> nat \<Rightarrow> bool" where
  "covered r st c j \<longleftrightarrow> item_id r j \<in> set (pl_hashes st) \<or> holds_output r c (item_id r j)"

definition offsets_ascend :: "request \<Rightarrow> bool" where
  "offsets_ascend r \<longleftrightarrow> sorted (map mm_offset (mm_features r))"

text \<open>What the loop delivers.\<close>

definition planned :: "(string \<Rightarrow> nat) \<Rightarrow> request \<Rightarrow> int \<Rightarrow> int \<Rightarrow> encoder_plan \<Rightarrow> bool" where
  "planned sz r nc nn st \<longleftrightarrow>
     (\<exists>c. plan_ok sz r st c \<and> 0 \<le> pl_new_tokens st \<and> pl_new_tokens st \<le> nn
        \<and> (\<forall>j < length (mm_features r). needed r nc (pl_new_tokens st) j \<longrightarrow> covered r st c j))"

lemma needed_mono: "needed r nc n j \<Longrightarrow> n \<le> m \<Longrightarrow> needed r nc m j"
  by (force simp: needed_def)

lemma offset_le:
  "offsets_ascend r \<Longrightarrow> i \<le> j \<Longrightarrow> j < length (mm_features r) \<Longrightarrow> mm_offset (mm_features r ! i) \<le> mm_offset (mm_features r ! j)"
  by (auto simp: offsets_ascend_def sorted_iff_nth_mono)

text \<open>Stopping before item \<open>i\<close> loses no needed item, when no token from its start on is computed.\<close>

lemma plan_stop:
  assumes ok: "plan_ok sz r st c" and seen: "\<forall>j < i. needed r nc nn j \<longrightarrow> covered r st c j"
    and asc: "offsets_ascend r" and stop: "n = 0 \<or> nc + n \<le> int (mm_offset (mm_features r ! i))" "0 \<le> n" "n \<le> nn"
  shows "planned sz r nc nn (st\<lparr>pl_new_tokens := n\<rparr>)"
proof -
  have "covered r st c j" if j: "j < length (mm_features r)" "needed r nc n j" for j
  proof (cases "j < i")
    case True
    then show ?thesis using seen needed_mono [OF j(2) stop(3)] by blast
  next
    case False
    then have "mm_offset (mm_features r ! i) \<le> mm_offset (mm_features r ! j)" using offset_le [OF asc _ j(1)] by simp
    then show ?thesis using j(2) stop(1) by (auto simp: needed_def embeds_at_def)
  qed
  moreover have "plan_ok sz r (st\<lparr>pl_new_tokens := n\<rparr>) c" using ok by (simp add: plan_ok_def)
  ultimately show ?thesis using stop by (auto simp: planned_def covered_def)
qed

lemma plan_ok_cache:
  assumes "plan_ok sz r st c" "enc_inv sz c'" "\<And>h. in_cache c' h \<Longrightarrow> in_cache c h" "pl_embeds st \<le> num_free_slots c'"
  shows "plan_ok sz r (st\<lparr>pl_cache := MultiModal c'\<rparr>) c'"
proof -
  have "\<not> in_cache c' h" if "h \<in> set (pl_hashes st)" for h using assms(1,3) that unfolding plan_ok_def by blast
  then show ?thesis using assms(1,2,4) by (simp add: plan_ok_def)
qed

lemma plan_check:
  assumes ok: "plan_ok sz r st c" and i: "i < length (mm_features r)" and new: "item_id r i \<notin> set (pl_hashes st)"
  shows "\<exists>c1. em_check_and_update_cache (pl_cache st) r i = Inr (in_cache c (item_id r i), MultiModal c1)
    \<and> plan_ok sz r (st\<lparr>pl_cache := MultiModal c1\<rparr>) c1
    \<and> (\<forall>h. holds_output r c h \<longrightarrow> holds_output r c1 h) \<and> (\<forall>h. in_cache c1 h = in_cache c h)
    \<and> (in_cache c (item_id r i) \<longrightarrow> holds_output r c1 (item_id r i))"
proof -
  have p: "pl_cache st = MultiModal c" "enc_inv sz c" using ok by (simp_all add: plan_ok_def)
  obtain c1 where C: "check_and_update_cache c r i = Inr (in_cache c (item_id r i), c1)" "enc_inv sz c1"
    "num_free_slots c1 = num_free_slots c" "\<And>k. in_cache c1 k = in_cache c k"
    "\<And>k. references c1 k = (if k = item_id r i \<and> in_cache c (item_id r i) then insert (request_id r) (references c k) else references c k)"
    using check_law [OF p(2) i] by auto
  have "plan_ok sz r (st\<lparr>pl_cache := MultiModal c1\<rparr>) c1" using ok C(2,3,4) by (simp add: plan_ok_def)
  moreover have "holds_output r c1 h" if "holds_output r c h" for h using that C(4,5) by (auto simp: holds_output_def)
  moreover have "in_cache c (item_id r i) \<longrightarrow> holds_output r c1 (item_id r i)" using C(4,5) by (auto simp: holds_output_def)
  ultimately show ?thesis using C(1,4) p(1) by auto
qed

lemma plan_can_allocate:
  assumes ok: "plan_ok sz r st c" and r: "sized sz r" and i: "i < length (mm_features r)"
  defines "n \<equiv> int (sz (item_id r i))"
  shows "\<exists>b c2. em_can_allocate (pl_cache st) r i (pl_budget st) (pl_embeds st) = Inr (b, MultiModal c2)
    \<and> plan_ok sz r (st\<lparr>pl_cache := MultiModal c2\<rparr>) c2
    \<and> (\<forall>h. holds_output r c h \<longrightarrow> holds_output r c2 h) \<and> (\<forall>h. in_cache c2 h \<longrightarrow> in_cache c h)
    \<and> (b \<longrightarrow> n \<le> pl_budget st \<and> pl_embeds st + n \<le> num_free_slots c2)"
proof -
  have p: "pl_cache st = MultiModal c" "enc_inv sz c" "pl_embeds st \<le> num_free_slots c" using ok by (simp_all add: plan_ok_def)
  let ?b = "n \<le> pl_budget st \<and> n + pl_embeds st \<le> num_freeable_slots c"
  obtain c2 out where C: "can_allocate c r i (pl_budget st) (pl_embeds st) = Inr (?b, c2)"
    "if ?b then evicted sz (n + pl_embeds st) c c2 out \<and> (n + pl_embeds st \<le> num_free_slots c \<longrightarrow> c2 = c) else c2 = c"
    using can_allocate_law [OF p(2) r i, of "pl_budget st" "pl_embeds st", folded n_def] by blast
  show ?thesis
  proof (cases ?b)
    case False
    then show ?thesis using C ok p(1) by (auto simp: plan_ok_def)
  next
    case True
    then have ev: "evicted sz (n + pl_embeds st) c c2 out" using C(2) by simp
    have unref: "references c h = {}" if "h \<in> set (map fst out)" for h
    proof -
      have "freeable c = out @ freeable c2" using ev by (simp add: evicted_def)
      then have "map_of (freeable c) h \<noteq> None" using that by (auto simp: map_of_eq_None_iff)
      then show ?thesis using enc_invD(3) [OF p(2), of h] by (auto simp: references_def)
    qed
    have m: "map_of (cached c2) h = (if h \<in> set (map fst out) then None else map_of (cached c) h)" for h
      using ev by (simp add: evicted_def)
    have hold: "holds_output r c2 h" if "holds_output r c h" for h
    proof -
      have "h \<notin> set (map fst out)" using that unref by (auto simp: holds_output_def)
      then show ?thesis using that m [of h] by (simp add: holds_output_def in_cache_def references_def)
    qed
    have sub: "in_cache c2 h \<Longrightarrow> in_cache c h" for h using m [of h] by (auto simp: in_cache_def split: if_splits)
    have nn: "0 \<le> n" by (simp add: n_def)
    have free: "n + pl_embeds st \<le> num_free_slots c2" "enc_inv sz c2" using ev by (simp_all add: evicted_def)
    have "plan_ok sz r (st\<lparr>pl_cache := MultiModal c2\<rparr>) c2" using plan_ok_cache [OF ok free(2) sub] free(1) nn by simp
    then show ?thesis using C(1) True p(1) hold sub free by auto
  qed
qed

text \<open>Adding an item to the plan, to compute or to load.\<close>

lemma plan_add:
  assumes ok: "plan_ok sz r st c" and i: "i < length (mm_features r)" and new: "item_id r i \<notin> set (pl_hashes st)"
    and out: "\<not> in_cache c (item_id r i)" and room: "pl_embeds st + int (sz (item_id r i)) \<le> num_free_slots c"
    and st': "pl_cache st' = pl_cache st" "pl_hashes st' = List.insert (item_id r i) (pl_hashes st)"
      "pl_embeds st' = pl_embeds st + int (sz (item_id r i))" "0 \<le> pl_budget st'"
      "(pl_inputs st' = pl_inputs st @ [i] \<and> pl_external st' = pl_external st)
       \<or> (pl_inputs st' = pl_inputs st \<and> pl_external st' = pl_external st @ [i])"
  shows "plan_ok sz r st' c"
proof -
  have d: "distinct (map (item_id r) (pl_inputs st @ pl_external st))"
    and h: "set (pl_hashes st) = item_id r ` (set (pl_inputs st) \<union> set (pl_external st))"
    and nc: "\<forall>h \<in> set (pl_hashes st). \<not> in_cache c h"
    using ok by (simp_all add: plan_ok_def)
  have n: "item_id r i \<notin> item_id r ` set (pl_inputs st)" "item_id r i \<notin> item_id r ` set (pl_external st)" using new h by auto
  have "distinct (map (item_id r) (pl_inputs st' @ pl_external st'))" using st'(5) d n by (elim disjE conjE; simp; blast)
  moreover have hs: "set (pl_hashes st') = item_id r ` (set (pl_inputs st') \<union> set (pl_external st'))"
    using st'(2,5) h by auto
  moreover have "\<forall>h \<in> set (pl_hashes st'). \<not> in_cache c h" using st'(2) nc out by simp
  moreover have "\<forall>j \<in> set (pl_inputs st') \<union> set (pl_external st'). j < length (mm_features r) \<and> item_id r j \<in> set (pl_hashes st')"
    using ok i st'(2,5) by (auto simp: plan_ok_def)
  moreover have "pl_embeds st' = (\<Sum>j \<leftarrow> pl_inputs st' @ pl_external st'. int (sz (item_id r j)))"
    using ok st'(3,5) by (auto simp: plan_ok_def)
  ultimately show ?thesis using ok st'(1,3,4) room by (simp add: plan_ok_def)
qed

lemma plan_inputs_law:
  assumes cfg: "\<not> sc_is_encoder_decoder cfg" and r: "sized sz r" "flags_ok r" "offsets_ascend r" and shift: "0 \<le> shift"
    and k: "k \<le> length (mm_features r)" and ok: "plan_ok sz r st c" and nn: "0 \<le> pl_new_tokens st"
    and seen: "\<forall>j < k. needed r nc (pl_new_tokens st) j \<longrightarrow> covered r st c j"
  shows "\<exists>st'. plan_inputs cfg r nc shift [k..<length (mm_features r)] st = Inr st' \<and> planned sz r nc (pl_new_tokens st) st'"
  using k ok nn seen
proof (induction "length (mm_features r) - k" arbitrary: k st c)
  case 0
  then have "plan_inputs cfg r nc shift [k..<length (mm_features r)] st = Inr st" by simp
  moreover have "planned sz r nc (pl_new_tokens st) st" using 0 by (auto simp: planned_def)
  ultimately show ?case by blast
next
  case (Suc m)
  let ?n = "length (mm_features r)" and ?nn = "pl_new_tokens st" and ?f = "mm_features r ! k" and ?h = "item_id r k"
  let ?start = "int (mm_offset ?f)" and ?len = "int (mm_length ?f)"
  have k: "k < ?n" using Suc.hyps(2) by simp
  have up: "[k..<?n] = k # [Suc k..<?n]" using k by (rule upt_conv_Cons)
  have size: "get_num_embeds ?f = sz ?h" using r(1) k by (simp add: sized_def)
  have go: "\<exists>st'. plan_inputs cfg r nc shift [Suc k..<?n] st1 = Inr st' \<and> planned sz r nc ?nn st'"
    if "plan_ok sz r st1 c1" "pl_new_tokens st1 = ?nn" "covered r st1 c1 k \<or> \<not> needed r nc ?nn k"
      "\<And>j. covered r st c j \<Longrightarrow> covered r st1 c1 j" for st1 c1
  proof -
    have "\<forall>j < Suc k. needed r nc (pl_new_tokens st1) j \<longrightarrow> covered r st1 c1 j"
      using that Suc.prems(4) by (auto simp: less_Suc_eq)
    moreover have "m = ?n - Suc k" "Suc k \<le> ?n" using Suc.hyps(2) by simp_all
    ultimately show ?thesis using Suc.hyps(1) [of "Suc k" st1 c1] that(1,2) Suc.prems(3) by simp
  qed
  have stop: "planned sz r nc ?nn (st1\<lparr>pl_new_tokens := n\<rparr>)"
    if "plan_ok sz r st1 c1" "\<And>j. covered r st c j \<Longrightarrow> covered r st1 c1 j" "n = 0 \<or> nc + n \<le> ?start" "0 \<le> n" "n \<le> ?nn" for st1 c1 n
    by (rule plan_stop [OF that(1) _ r(3) that(3-5)]) (use Suc.prems(4) that(2) in blast)
  consider (late) "?start \<ge> nc + ?nn + shift" | (early) "?start < nc + ?nn + shift" "?start + ?len \<le> nc"
    | (twice) "?start < nc + ?nn + shift" "?start + ?len > nc" "?h \<in> set (pl_hashes st)"
    | (fresh) "?start < nc + ?nn + shift" "?start + ?len > nc" "?h \<notin> set (pl_hashes st)" by linarith
  then show ?case
  proof cases
    case late
    then have "plan_inputs cfg r nc shift [k..<?n] st = Inr st" by (simp add: up)
    moreover have "planned sz r nc ?nn (st\<lparr>pl_new_tokens := ?nn\<rparr>)"
      by (rule stop [OF Suc.prems(2)]) (use late shift Suc.prems(3) in auto)
    ultimately show ?thesis by simp
  next
    case early
    then have "\<not> needed r nc ?nn k" by (auto simp: needed_def embeds_at_def)
    then show ?thesis using go [OF Suc.prems(2)] early cfg by (simp add: up)
  next
    case twice
    then have "covered r st c k" by (simp add: covered_def)
    then show ?thesis using go [OF Suc.prems(2)] twice cfg by (simp add: up)
  next
    case fresh
    obtain c1 where C1: "em_check_and_update_cache (pl_cache st) r k = Inr (in_cache c ?h, MultiModal c1)"
      "plan_ok sz r (st\<lparr>pl_cache := MultiModal c1\<rparr>) c1" "\<And>h. holds_output r c h \<Longrightarrow> holds_output r c1 h"
      "\<And>h. in_cache c1 h = in_cache c h" "in_cache c ?h \<Longrightarrow> holds_output r c1 ?h"
      using plan_check [OF Suc.prems(2) k fresh(3)] by blast
    let ?st1 = "st\<lparr>pl_cache := MultiModal c1\<rparr>"
    have cov1: "covered r ?st1 c1 j" if "covered r st c j" for j using that C1(3) by (auto simp: covered_def)
    show ?thesis
    proof (cases "in_cache c ?h")
      case True
      then have "covered r ?st1 c1 k" using C1(5) by (simp add: covered_def)
      then show ?thesis using go [OF C1(2) _ _ cov1] fresh cfg C1(1) True by (simp add: up)
    next
      case miss: False
      show ?thesis
      proof (cases "sc_disable_chunked_mm_input cfg \<and> nc < ?start \<and> nc + ?nn < ?start + ?len")
        case True
        let ?m = "max 0 (?start - (nc + shift))"
        have "plan_inputs cfg r nc shift [k..<?n] st = Inr (?st1\<lparr>pl_new_tokens := ?m\<rparr>)"
          using fresh cfg C1(1) miss True by (simp add: up Let_def)
        moreover have "planned sz r nc ?nn (?st1\<lparr>pl_new_tokens := ?m\<rparr>)"
          by (rule stop [OF C1(2) cov1]) (use fresh shift Suc.prems(3) in auto)
        ultimately show ?thesis by simp
      next
        case chunk: False
        obtain b c2 where C2: "em_can_allocate (MultiModal c1) r k (pl_budget st) (pl_embeds st) = Inr (b, MultiModal c2)"
          "plan_ok sz r (st\<lparr>pl_cache := MultiModal c2\<rparr>) c2" "\<And>h. holds_output r c1 h \<Longrightarrow> holds_output r c2 h"
          "\<And>h. in_cache c2 h \<Longrightarrow> in_cache c1 h"
          "b \<Longrightarrow> int (sz ?h) \<le> pl_budget st \<and> pl_embeds st + int (sz ?h) \<le> num_free_slots c2"
          using plan_can_allocate [OF C1(2) r(1) k] by auto
        let ?st2 = "st\<lparr>pl_cache := MultiModal c2\<rparr>"
        have cov2: "covered r ?st2 c2 j" if "covered r st c j" for j
          using cov1 [OF that] C2(3) by (auto simp: covered_def)
        show ?thesis
        proof (cases b)
          case False
          let ?m = "if nc + shift < ?start then ?start - (nc + shift) else 0"
          have "plan_inputs cfg r nc shift [k..<?n] st = Inr (?st2\<lparr>pl_new_tokens := ?m\<rparr>)"
            using fresh cfg C1(1) miss chunk C2(1) False by (auto simp add: up Let_def simp del: em_can_allocate.simps)
          moreover have "planned sz r nc ?nn (?st2\<lparr>pl_new_tokens := ?m\<rparr>)"
            by (rule stop [OF C2(2) cov2]) (use fresh shift Suc.prems(3) in auto)
          ultimately show ?thesis by simp
        next
          case b: True
          have fl: "case is_embed ?f of None \<Rightarrow> True | Some flags \<Rightarrow> length flags = mm_length ?f"
            using r(2) k by (simp add: flags_ok_def)
          obtain x y where E: "get_embeds_indices_in_range ?f (max 0 (nc - ?start)) (min ?len (nc + ?nn - ?start)) = Inr (x, y)"
            "y - x = 0 \<Longrightarrow> \<not> needed r nc ?nn k"
            using embeds_range [OF fl, of nc ?nn] fresh(2) by (auto simp: needed_def)
          have out: "\<not> in_cache c2 ?h" using C2(4) C1(4) miss by blast
          note add = plan_add [OF C2(2) k, simplified, OF fresh(3) out C2(5) [OF b, THEN conjunct2]]
          have bud: "0 \<le> pl_budget st - int (sz ?h)" "0 \<le> pl_budget st"
            using C2(5) [OF b] Suc.prems(2) by (simp_all add: plan_ok_def)
          let ?ext = "?st2\<lparr>pl_hashes := List.insert ?h (pl_hashes st), pl_external := pl_external st @ [k],
               pl_embeds := pl_embeds st + int (get_num_embeds ?f)\<rparr>"
          let ?inp = "?st2\<lparr>pl_embeds := pl_embeds st + int (get_num_embeds ?f), pl_budget := pl_budget st - int (get_num_embeds ?f),
               pl_hashes := List.insert ?h (pl_hashes st), pl_inputs := pl_inputs st @ [k]\<rparr>"
          have oks: "plan_ok sz r ?ext c2" "plan_ok sz r ?inp c2" by (rule add; use bud size fresh(3) in simp)+
          have covs: "covered r ?ext c2 j" "covered r ?inp c2 j" if "covered r st c j \<or> j = k" for j
            using that cov2 [of j] by (auto simp: covered_def)
          have step: "plan_inputs cfg r nc shift [k..<?n] st =
              plan_inputs cfg r nc shift [Suc k..<?n]
                (if y - x = 0 then ?st2
                 else if (case sc_ec_connector cfg of None \<Rightarrow> False | Some g \<Rightarrow> g ?h) then ?ext else ?inp)"
            using fresh cfg C1(1) miss chunk C2(1) b E(1) by (auto simp add: up Let_def simp del: em_can_allocate.simps)
          show ?thesis unfolding step
            using go [OF C2(2) _ _ cov2] go [OF oks(1) _ _ covs(1)] go [OF oks(2) _ _ covs(2)] covs [of k] E(2) by simp
        qed
      qed
    qed
  qed
qed

section \<open>Allocation of the plan\<close>

lemma allocate_all:
  assumes "enc_inv sz c" "sized sz r" "\<forall>j \<in> set js. j < length (mm_features r)" "distinct (map (item_id r) js)"
    and "\<forall>j \<in> set js. \<not> in_cache c (item_id r j)" "(\<Sum>j \<leftarrow> js. int (sz (item_id r j))) \<le> num_free_slots c"
  shows "\<exists>c'. fold_res (em_allocate r) js (MultiModal c) = Inr (MultiModal c') \<and> enc_inv sz c'
    \<and> (\<forall>j \<in> set js. holds_output r c' (item_id r j)) \<and> (\<forall>h. holds_output r c h \<longrightarrow> holds_output r c' h)"
  using assms
proof (induction js arbitrary: c)
  case (Cons j js)
  let ?h = "item_id r j"
  have nn: "0 \<le> (\<Sum>j \<leftarrow> js. int (sz (item_id r j)))" by (intro sum_list_nonneg) auto
  obtain c1 where c1: "allocate c r j = Inr c1" "enc_inv sz c1" "num_free_slots c1 = num_free_slots c - int (sz ?h)"
    "\<And>k. map_of (cached c1) k = (if k = ?h then Some [request_id r] else map_of (cached c) k)"
    using allocate_law [OF Cons.prems(1,2), of j] Cons.prems(3,5,6) nn by auto
  have fresh: "\<forall>i \<in> set js. \<not> in_cache c1 (item_id r i)"
    using Cons.prems(4,5) c1(4) by (auto simp: in_cache_def image_iff)
  obtain c2 where c2: "fold_res (em_allocate r) js (MultiModal c1) = Inr (MultiModal c2)" "enc_inv sz c2"
    "\<And>i. i \<in> set js \<Longrightarrow> holds_output r c2 (item_id r i)" "\<And>h. holds_output r c1 h \<Longrightarrow> holds_output r c2 h"
    using Cons.IH [OF c1(2) Cons.prems(2) _ _ fresh] Cons.prems(3,4,6) c1(3) by auto
  have "holds_output r c1 ?h" using c1(4) [of ?h] by (simp add: holds_output_def in_cache_def references_def)
  moreover have "holds_output r c1 h" if "holds_output r c h" for h
    using that c1(4) [of h] by (auto simp: holds_output_def in_cache_def references_def)
  ultimately show ?case using c1(1) c2 by auto
qed simp

lemma allocate_plan:
  assumes ok: "plan_ok sz r st c" and r: "sized sz r"
  shows "\<exists>c'. allocate_encoder_inputs r st = Inr (MultiModal c') \<and> enc_inv sz c'
    \<and> (\<forall>j. covered r st c j \<longrightarrow> holds_output r c' (item_id r j))"
proof -
  let ?js = "pl_inputs st @ pl_external st"
  have p: "enc_inv sz c" "\<forall>j \<in> set ?js. j < length (mm_features r)" "distinct (map (item_id r) ?js)"
    "\<forall>j \<in> set ?js. \<not> in_cache c (item_id r j)" "(\<Sum>j \<leftarrow> ?js. int (sz (item_id r j))) \<le> num_free_slots c"
    and h: "set (pl_hashes st) = item_id r ` set ?js" and c: "pl_cache st = MultiModal c"
    using ok by (auto simp: plan_ok_def)
  obtain c' where A: "fold_res (em_allocate r) ?js (MultiModal c) = Inr (MultiModal c')" "enc_inv sz c'"
    "\<forall>j \<in> set ?js. holds_output r c' (item_id r j)" "\<forall>h. holds_output r c h \<longrightarrow> holds_output r c' h"
    using allocate_all [OF p(1) r p(2-5)] by blast
  have "allocate_encoder_inputs r st = fold_res (em_allocate r) ?js (MultiModal c)"
    by (simp add: allocate_encoder_inputs_def c)
  moreover have "holds_output r c' (item_id r j)" if "covered r st c j" for j
    using that A(3,4) h by (auto simp: covered_def)
  ultimately show ?thesis using A(1,2) by auto
qed

lemma try_schedule_planned:
  assumes cfg: "\<not> sc_is_encoder_decoder cfg" and r: "sized sz r" "flags_ok r" "offsets_ascend r"
    and c: "enc_inv sz c" "0 \<le> budget" "0 \<le> nn" "0 \<le> shift"
  shows "\<exists>pl. try_schedule_encoder_inputs cfg (MultiModal c) r nc nn budget shift = Inr pl \<and> planned sz r nc nn pl"
proof -
  let ?e = "empty_plan nn budget (MultiModal c)"
  have ok: "plan_ok sz r ?e c" using c enc_inv_bounds [OF c(1)] by (simp add: plan_ok_def empty_plan_def)
  show ?thesis
  proof (cases "nn = 0 \<or> \<not> has_encoder_inputs r")
    case True
    then have "\<not> (j < length (mm_features r) \<and> needed r nc nn j)" for j
      by (auto simp: has_encoder_inputs_def num_encoder_inputs_def needed_def)
    then have "planned sz r nc nn ?e" using ok c(3) by (auto simp: planned_def empty_plan_def)
    then show ?thesis using True by (simp add: try_schedule_encoder_inputs_def)
  next
    case False
    then show ?thesis
      using plan_inputs_law [OF cfg r c(4) le0 ok, of nc] c(3) by (simp add: try_schedule_encoder_inputs_def empty_plan_def)
  qed
qed

text \<open>
  C16: encoder inputs are ready when their placeholder tokens are computed. For a request whose items are in
  prompt order, \<^verbatim>\<open>_try_schedule_encoder_inputs\<close> never raises, never schedules more tokens than asked and never
  overdraws the compute budget; the allocation of the items it selects passes both assertions of \<^verbatim>\<open>allocate\<close>, keeps the
  cache's accounts, and afterwards every token of the reduced range that takes an embedding has the
  output of its item in the cache with a reference by this request.
\<close>

theorem encoder_inputs_ready:
  assumes cfg: "\<not> sc_is_encoder_decoder cfg" and r: "sized sz r" "flags_ok r" "offsets_ascend r"
    and c: "enc_inv sz c" "0 \<le> budget" "0 \<le> nn" "0 \<le> shift"
  shows "\<exists>pl c'. try_schedule_encoder_inputs cfg (MultiModal c) r nc nn budget shift = Inr pl
    \<and> 0 \<le> pl_new_tokens pl \<and> pl_new_tokens pl \<le> nn \<and> 0 \<le> pl_budget pl
    \<and> allocate_encoder_inputs r pl = Inr (MultiModal c') \<and> enc_inv sz c'
    \<and> (\<forall>j < length (mm_features r). \<forall>p. nc \<le> p \<and> p < nc + pl_new_tokens pl \<and> embeds_at (mm_features r ! j) p
         \<longrightarrow> holds_output r c' (item_id r j))"
proof -
  obtain pl where pl: "try_schedule_encoder_inputs cfg (MultiModal c) r nc nn budget shift = Inr pl" "planned sz r nc nn pl"
    using try_schedule_planned [OF assms] by blast
  then obtain c1 where P: "plan_ok sz r pl c1" "0 \<le> pl_new_tokens pl" "pl_new_tokens pl \<le> nn"
    "\<forall>j < length (mm_features r). needed r nc (pl_new_tokens pl) j \<longrightarrow> covered r pl c1 j"
    by (auto simp: planned_def)
  obtain c' where A: "allocate_encoder_inputs r pl = Inr (MultiModal c')" "enc_inv sz c'"
    "\<forall>j. covered r pl c1 j \<longrightarrow> holds_output r c' (item_id r j)"
    using allocate_plan [OF P(1) r(1)] by blast
  have "0 \<le> pl_budget pl" using P(1) by (simp add: plan_ok_def)
  moreover have "holds_output r c' (item_id r j)"
    if "j < length (mm_features r)" "nc \<le> p \<and> p < nc + pl_new_tokens pl \<and> embeds_at (mm_features r ! j) p" for j p
  proof -
    have "needed r nc (pl_new_tokens pl) j" using that(2) by (auto simp: needed_def)
    then show ?thesis using that(1) P(4) A(3) by blast
  qed
  ultimately show ?thesis using pl(1) P(2,3) A(1,2) by blast
qed

definition example_features :: "mm_feature list" where
  "example_features = [\<lparr>mm_identifier = ''a'', mm_offset = 0, mm_length = 4, is_embed = None\<rparr>,
     \<lparr>mm_identifier = ''b'', mm_offset = 5, mm_length = 4, is_embed = Some [False, True, True, True]\<rparr>]"

definition example_plan_config :: encoder_sched_config where
  "example_plan_config = \<lparr>sc_is_encoder_decoder = False, sc_disable_chunked_mm_input = False, sc_ec_connector = None\<rparr>"

lemma example_features_ok:
  "sized example_sizes (example_mm_request ''2'' example_features)" "flags_ok (example_mm_request ''2'' example_features)"
  "offsets_ascend (example_mm_request ''2'' example_features)"
  by (simp_all add: sized_def flags_ok_def offsets_ascend_def example_mm_request_def example_features_def
      example_sizes_def get_num_embeds_def)

text \<open>
  With six slots, of which four hold the first item, only the tokens up to the second item can be scheduled.
\<close>

theorem encoder_inputs_ready_witness:
  "case try_schedule_encoder_inputs example_plan_config (MultiModal example_cache) (example_mm_request ''2'' example_features) 0 9 8 0 of
     Inl e \<Rightarrow> False
   | Inr pl \<Rightarrow> pl_new_tokens pl = 5 \<and> pl_inputs pl = []
       \<and> (\<exists>c'. allocate_encoder_inputs (example_mm_request ''2'' example_features) pl = Inr (MultiModal c')
            \<and> holds_output (example_mm_request ''2'' example_features) c' ''a'')"
proof -
  let ?r = "example_mm_request ''2'' example_features"
  have inv: "enc_inv example_sizes example_cache" using enc_reachable_inv [OF example_cache_reachable] by simp
  have cfg: "\<not> sc_is_encoder_decoder example_plan_config" by (simp add: example_plan_config_def)
  have run: "case try_schedule_encoder_inputs example_plan_config (MultiModal example_cache) ?r 0 9 8 0 of
      Inl e \<Rightarrow> False | Inr pl \<Rightarrow> pl_new_tokens pl = 5 \<and> pl_inputs pl = []" by code_simp
  obtain pl c' where P: "try_schedule_encoder_inputs example_plan_config (MultiModal example_cache) ?r 0 9 8 0 = Inr pl"
    "allocate_encoder_inputs ?r pl = Inr (MultiModal c')"
    "\<forall>j < length (mm_features ?r). \<forall>p. 0 \<le> p \<and> p < 0 + pl_new_tokens pl \<and> embeds_at (mm_features ?r ! j) p
       \<longrightarrow> holds_output ?r c' (item_id ?r j)"
    using encoder_inputs_ready [OF cfg example_features_ok inv, of 8 9 0 0] by auto
  have j: "0 < length (mm_features ?r)" "embeds_at (mm_features ?r ! 0) 0" "item_id ?r 0 = ''a''"
    by (simp_all add: example_mm_request_def example_features_def embeds_at_def)
  have n: "pl_new_tokens pl = 5" "pl_inputs pl = []" using run P(1) by simp_all
  then have "holds_output ?r c' ''a''" using P(3) [rule_format, of 0 0] j by simp
  then show ?thesis using P(1,2) n by auto
qed

section \<open>The shifted range of speculative decoding\<close>

text \<open>
  With a draft model that reads one token ahead (\<open>shift = 1\<close>), the overlap test counts an item that starts just
  after the range as needed, but the range of its embeddings is computed without the shift and comes
  out empty, so the item is skipped.
\<close>

lemma shifted_item_not_scheduled:
  "case try_schedule_encoder_inputs example_plan_config (MultiModal (encoder_cache_init 8))
        (example_mm_request ''1'' [\<lparr>mm_identifier = ''a'', mm_offset = 4, mm_length = 3, is_embed = None\<rparr>]) 0 4 8 1 of
     Inl e \<Rightarrow> False
   | Inr pl \<Rightarrow> pl_new_tokens pl = 4 \<and> pl_inputs pl = [] \<and> pl_external pl = []"
  by code_simp

end
