(* ===== verification/Cache_Policy.thy ===== *)
theory Cache_Policy
  imports Block_Hash
begin

text \<open>
  The replacement policies of the CPU offloading cache, src/vllm/vllm/v1/kv_offload/cpu/policies: the abstract
  \<^verbatim>\<open>CachePolicy\<close> as a record of its methods and as a locale with their laws, LRU and ARC as its two
  implementations. \<^verbatim>\<open>get\<close> returns the block object itself, whose reference count the manager changes in
  place: \<open>cp_set\<close> is that change. The fields of \<^verbatim>\<open>BlockStatus\<close> are C integers of 32 and 64 bits. ARC's
  \<^verbatim>\<open>target_t1_size\<close> is a float: \<open>rnd\<close> rounds an exact result to the nearest float and is a parameter.
\<close>

section \<open>Block status\<close>

definition c_int32 :: "int \<Rightarrow> int" where
  "c_int32 n = (n + 2 ^ 31) mod 2 ^ 32 - 2 ^ 31"

definition c_int64 :: "int \<Rightarrow> int" where
  "c_int64 n = (n + 2 ^ 63) mod 2 ^ 64 - 2 ^ 63"

record block_status =
  bs_ref_cnt :: int
  bs_block_id :: int

definition new_block_status :: "int \<Rightarrow> block_status" where
  "new_block_status i = \<lparr>bs_ref_cnt = c_int32 (-1), bs_block_id = c_int64 i\<rparr>"

definition bs_is_ready :: "block_status \<Rightarrow> bool" where
  "bs_is_ready b = (bs_ref_cnt b \<ge> 0)"

lemma c_int32_id: "- (2 ^ 31) \<le> n \<Longrightarrow> n < 2 ^ 31 \<Longrightarrow> c_int32 n = n"
  by (simp add: c_int32_def)

lemma c_int64_id: "- (2 ^ 63) \<le> n \<Longrightarrow> n < 2 ^ 63 \<Longrightarrow> c_int64 n = n"
  by (simp add: c_int64_def)

lemma new_block_status_simps [simp]:
  "bs_ref_cnt (new_block_status i) = -1" "\<not> bs_is_ready (new_block_status i)"
  by (simp_all add: new_block_status_def bs_is_ready_def c_int32_def)

type_synonym offload_key = bytes

record 'p cache_policy_ops =
  cp_get :: "'p \<Rightarrow> offload_key \<Rightarrow> block_status option"
  cp_set :: "offload_key \<Rightarrow> block_status \<Rightarrow> 'p \<Rightarrow> 'p"
  cp_insert :: "offload_key \<Rightarrow> block_status \<Rightarrow> 'p \<Rightarrow> 'p"
  cp_remove :: "offload_key \<Rightarrow> 'p \<Rightarrow> 'p res"
  cp_touch :: "offload_key list \<Rightarrow> 'p \<Rightarrow> 'p"
  cp_evict :: "int \<Rightarrow> offload_key list \<Rightarrow> 'p \<Rightarrow> (offload_key \<times> block_status) list option \<times> 'p"

text \<open>A block may be evicted when no transfer uses it and the caller does not protect it.\<close>

definition evictable :: "offload_key list \<Rightarrow> offload_key \<times> block_status \<Rightarrow> bool" where
  "evictable protected e = (bs_ref_cnt (snd e) = 0 \<and> fst e \<notin> set protected)"

section \<open>LRU\<close>

type_synonym lru = "(offload_key, block_status) odict"

definition lru_touch :: "offload_key list \<Rightarrow> lru \<Rightarrow> lru" where
  "lru_touch keys d = fold (\<lambda>k d. if map_of d k \<noteq> None then od_move_to_end k d else d) (rev keys) d"

fun lru_candidates :: "nat \<Rightarrow> offload_key list \<Rightarrow> lru \<Rightarrow> lru \<Rightarrow> lru" where
  "lru_candidates n protected [] acc = acc"
| "lru_candidates n protected (e # rest) acc =
     (if evictable protected e
      then (if length acc + 1 = n then acc @ [e] else lru_candidates n protected rest (acc @ [e]))
      else lru_candidates n protected rest acc)"

definition lru_evict :: "int \<Rightarrow> offload_key list \<Rightarrow> lru \<Rightarrow> lru option \<times> lru" where
  "lru_evict n protected d =
     (if n = 0 then (Some [], d)
      else let cand = lru_candidates (nat n) protected d [] in
        if int (length cand) < n then (None, d)
        else (Some cand, fold (\<lambda>(k, b). AList.delete k) cand d))"

definition lru_remove :: "offload_key \<Rightarrow> lru \<Rightarrow> lru res" where
  "lru_remove k d = guard (map_of d k \<noteq> None) KeyError (Inr (AList.delete k d))"

definition lru_ops :: "lru cache_policy_ops" where
  "lru_ops = \<lparr>cp_get = (\<lambda>d k. map_of d k), cp_set = AList.update, cp_insert = AList.update, cp_remove = lru_remove,
     cp_touch = lru_touch, cp_evict = lru_evict\<rparr>"

section \<open>ARC\<close>

record arc =
  arc_capacity :: int
  target_t1_size :: rat
  t1 :: "(offload_key, block_status) odict"
  t2 :: "(offload_key, block_status) odict"
  b1 :: "offload_key list"
  b2 :: "offload_key list"

definition arc_init :: "int \<Rightarrow> arc" where
  "arc_init n = \<lparr>arc_capacity = n, target_t1_size = 0, t1 = [], t2 = [], b1 = [], b2 = []\<rparr>"

definition arc_get :: "arc \<Rightarrow> offload_key \<Rightarrow> block_status option" where
  "arc_get p k = (case map_of (t1 p) k of Some b \<Rightarrow> Some b | None \<Rightarrow> map_of (t2 p) k)"

definition arc_set :: "offload_key \<Rightarrow> block_status \<Rightarrow> arc \<Rightarrow> arc" where
  "arc_set k b p =
     (if map_of (t1 p) k \<noteq> None then p\<lparr>t1 := AList.update k b (t1 p)\<rparr> else p\<lparr>t2 := AList.update k b (t2 p)\<rparr>)"

definition arc_insert :: "offload_key \<Rightarrow> block_status \<Rightarrow> arc \<Rightarrow> arc" where
  "arc_insert k b p = p\<lparr>t1 := AList.update k b (t1 p), b1 := removeAll k (b1 p), b2 := removeAll k (b2 p)\<rparr>"

definition arc_remove :: "offload_key \<Rightarrow> arc \<Rightarrow> arc res" where
  "arc_remove k p =
     Inr (if map_of (t1 p) k \<noteq> None then p\<lparr>t1 := AList.delete k (t1 p)\<rparr> else p\<lparr>t2 := AList.delete k (t2 p)\<rparr>)"

text \<open>Ghost lists: \<^verbatim>\<open>ghost[key] = None\<close> and \<^verbatim>\<open>ghost.move_to_end(key)\<close>.\<close>

definition ghost_add :: "offload_key \<Rightarrow> offload_key list \<Rightarrow> offload_key list" where
  "ghost_add k g = (if k \<in> set g then g else g @ [k])"

definition ghost_refresh :: "offload_key \<Rightarrow> offload_key list \<Rightarrow> offload_key list" where
  "ghost_refresh k g = removeAll k g @ [k]"

definition arc_touch_one :: "(rat \<Rightarrow> rat) \<Rightarrow> offload_key \<Rightarrow> arc \<Rightarrow> arc" where
  "arc_touch_one rnd k p =
     (case map_of (t1 p) k of
        Some b \<Rightarrow>
          let rest = AList.delete k (t1 p) in
          if \<not> bs_is_ready b then p\<lparr>t1 := AList.update k b rest\<rparr>
          else p\<lparr>t1 := rest, t2 := AList.update k b (t2 p)\<rparr>
      | None \<Rightarrow>
          if map_of (t2 p) k \<noteq> None then p\<lparr>t2 := od_move_to_end k (t2 p)\<rparr>
          else if k \<in> set (b1 p)
          then (let delta = max 1 (rnd (of_nat (length (b2 p)) / of_nat (length (b1 p)))) in
            p\<lparr>target_t1_size := min (rnd (target_t1_size p + delta)) (of_int (arc_capacity p)),
              b1 := ghost_refresh k (b1 p)\<rparr>)
          else if k \<in> set (b2 p)
          then (let delta = max 1 (rnd (of_nat (length (b1 p)) / of_nat (length (b2 p)))) in
            p\<lparr>target_t1_size := max (rnd (target_t1_size p - delta)) 0, b2 := ghost_refresh k (b2 p)\<rparr>)
          else p)"

definition arc_touch :: "(rat \<Rightarrow> rat) \<Rightarrow> offload_key list \<Rightarrow> arc \<Rightarrow> arc" where
  "arc_touch rnd keys p = fold (arc_touch_one rnd) (rev keys) p"

text \<open>The selection of \<open>n\<close> candidates, with the simulated size of T1; the flag says that T1 held the block.\<close>

fun arc_select ::
  "nat \<Rightarrow> offload_key list \<Rightarrow> arc \<Rightarrow> int \<Rightarrow> offload_key list \<Rightarrow> ((offload_key \<times> block_status) \<times> bool) list option" where
  "arc_select 0 protected p vt selected = Some []"
| "arc_select (Suc n) protected p vt selected =
     (let ok = (\<lambda>e. evictable protected e \<and> fst e \<notin> set selected);
          from1 = (if vt \<ge> \<lfloor>target_t1_size p\<rfloor> then find ok (t1 p) else None) in
      case from1 of
        Some e \<Rightarrow> map_option (\<lambda>l. (e, True) # l) (arc_select n protected p (vt - 1) (fst e # selected))
      | None \<Rightarrow>
          (case find ok (t2 p) of
             None \<Rightarrow> None
           | Some e \<Rightarrow> map_option (\<lambda>l. (e, False) # l) (arc_select n protected p vt (fst e # selected))))"

definition arc_apply :: "(offload_key \<times> block_status) \<times> bool \<Rightarrow> arc \<Rightarrow> arc" where
  "arc_apply c p =
     (let k = fst (fst c) in
      if snd c then p\<lparr>t1 := AList.delete k (t1 p), b1 := ghost_add k (b1 p)\<rparr>
      else p\<lparr>t2 := AList.delete k (t2 p), b2 := ghost_add k (b2 p)\<rparr>)"

definition arc_trim :: "arc \<Rightarrow> arc" where
  "arc_trim p = p\<lparr>b1 := drop (length (b1 p) - nat (arc_capacity p)) (b1 p),
     b2 := drop (length (b2 p) - nat (arc_capacity p)) (b2 p)\<rparr>"

definition arc_evict :: "int \<Rightarrow> offload_key list \<Rightarrow> arc \<Rightarrow> (offload_key \<times> block_status) list option \<times> arc" where
  "arc_evict n protected p =
     (if n = 0 then (Some [], p)
      else case arc_select (nat n) protected p (int (length (t1 p))) [] of
        None \<Rightarrow> (None, p)
      | Some cand \<Rightarrow> (Some (map fst cand), arc_trim (fold arc_apply cand p)))"

definition arc_ops :: "(rat \<Rightarrow> rat) \<Rightarrow> arc cache_policy_ops" where
  "arc_ops rnd = \<lparr>cp_get = arc_get, cp_set = arc_set, cp_insert = arc_insert, cp_remove = arc_remove,
     cp_touch = arc_touch rnd, cp_evict = arc_evict\<rparr>"

section \<open>The contract of a policy\<close>

text \<open>
  \<open>entries\<close> is the map from keys to blocks that a policy stores. Eviction is exact and atomic: \<open>n\<close> blocks that
  no transfer uses and the caller does not protect, or nothing at all.
\<close>

definition evict_ok ::
  "('k \<Rightarrow> block_status option) \<Rightarrow> ('k \<Rightarrow> block_status option) \<Rightarrow> nat \<Rightarrow> 'k list \<Rightarrow> ('k \<times> block_status) list \<Rightarrow> bool" where
  "evict_ok m m' n protected out \<longleftrightarrow>
     length out = n \<and> distinct (map fst out)
     \<and> (\<forall>(k, b) \<in> set out. m k = Some b \<and> bs_ref_cnt b = 0 \<and> k \<notin> set protected)
     \<and> (\<forall>k. m' k = (if k \<in> fst ` set out then None else m k))"

locale cache_policy =
  fixes ops :: "'p cache_policy_ops" and inv :: "'p \<Rightarrow> bool" and entries :: "'p \<Rightarrow> offload_key \<Rightarrow> block_status option"
  assumes get_law: "cp_get ops p k = entries p k"
    and finite_law: "finite (dom (entries p))"
    and set_law: "inv p \<Longrightarrow> entries p k \<noteq> None \<Longrightarrow> inv (cp_set ops k b p) \<and> entries (cp_set ops k b p) = (entries p)(k \<mapsto> b)"
    and insert_law: "inv p \<Longrightarrow> entries p k = None \<Longrightarrow> inv (cp_insert ops k b p) \<and> entries (cp_insert ops k b p) = (entries p)(k \<mapsto> b)"
    and remove_law: "inv p \<Longrightarrow> entries p k \<noteq> None \<Longrightarrow>
      \<exists>p'. cp_remove ops k p = Inr p' \<and> inv p' \<and> entries p' = (entries p)(k := None)"
    and touch_law: "inv p \<Longrightarrow> inv (cp_touch ops ks p) \<and> entries (cp_touch ops ks p) = entries p"
    and evict_law: "inv p \<Longrightarrow> 0 \<le> n \<Longrightarrow> cp_evict ops n protected p = (res, p') \<Longrightarrow>
      (case res of None \<Rightarrow> p' = p | Some out \<Rightarrow> inv p' \<and> evict_ok (entries p) (entries p') (nat n) protected out)"

section \<open>LRU meets the contract\<close>

lemma lru_candidates_eq:
  "length acc < n \<Longrightarrow> lru_candidates n protected d acc = take n (acc @ filter (evictable protected) d)"
proof (induction d arbitrary: acc)
  case (Cons e d)
  show ?case
  proof (cases "evictable protected e \<and> length acc + 1 = n")
    case True
    then show ?thesis by auto
  next
    case False
    then show ?thesis using Cons.prems Cons.IH [of acc] Cons.IH [of "acc @ [e]"] by auto
  qed
qed simp

lemma fold_delete: "map_of (fold (\<lambda>(k, b). AList.delete k) out d) x = (if x \<in> fst ` set out then None else map_of d x)"
  by (induction out arbitrary: d) auto

lemma od_wf_fold_delete: "od_wf d \<Longrightarrow> od_wf (fold (\<lambda>(k, b). AList.delete k) out d)"
  by (induction out arbitrary: d) auto

lemma lru_evict_ok:
  assumes wf: "od_wf d" and n: "0 \<le> n" and ev: "lru_evict n protected d = (res, d')"
  shows "case res of None \<Rightarrow> d' = d \<and> int (length (filter (evictable protected) d)) < n
    | Some out \<Rightarrow> od_wf d' \<and> out = take (nat n) (filter (evictable protected) d)
        \<and> evict_ok (map_of d) (map_of d') (nat n) protected out"
proof (cases "n = 0")
  case True
  then show ?thesis using wf ev by (auto simp: lru_evict_def evict_ok_def)
next
  case False
  define out where "out = take (nat n) (filter (evictable protected) d)"
  have c: "lru_candidates (nat n) protected d [] = out" using lru_candidates_eq [of "[]" "nat n"] False n by (simp add: out_def)
  show ?thesis
  proof (cases "int (length out) < n")
    case True
    then have "length (filter (evictable protected) d) < nat n" by (auto simp: out_def)
    then show ?thesis using ev False True by (auto simp: lru_evict_def c)
  next
    case enough: False
    then have len: "length out = nat n" using n by (simp add: out_def)
    have sub: "set out \<subseteq> set d" "\<forall>e \<in> set out. evictable protected e"
      by (auto simp: out_def dest: in_set_takeD)
    have dist: "distinct (map fst out)"
      unfolding out_def take_map [symmetric] using distinct_map_filter [OF wf] by (rule distinct_take)
    have "evict_ok (map_of d) (map_of (fold (\<lambda>(k, b). AList.delete k) out d)) (nat n) protected out"
      unfolding evict_ok_def using len dist sub map_of_is_SomeI [OF wf] by (fastforce simp: fold_delete evictable_def)
    moreover have "lru_evict n protected d = (Some out, fold (\<lambda>(k, b). AList.delete k) out d)"
      using False enough by (simp add: lru_evict_def c Let_def)
    ultimately show ?thesis using ev od_wf_fold_delete [OF wf, of out] by (auto simp: out_def)
  qed
qed

lemma lru_touch_ok: "od_wf d \<Longrightarrow> od_wf (lru_touch ks d) \<and> map_of (lru_touch ks d) = map_of d"
proof -
  have "od_wf (fold (\<lambda>k d. if map_of d k \<noteq> None then od_move_to_end k d else d) xs d)
      \<and> map_of (fold (\<lambda>k d. if map_of d k \<noteq> None then od_move_to_end k d else d) xs d) = map_of d" if "od_wf d" for xs d
    using that by (induction xs arbitrary: d) auto
  then show "od_wf d \<Longrightarrow> ?thesis" by (simp add: lru_touch_def)
qed

interpretation lru: cache_policy lru_ops od_wf map_of
proof
  fix p :: lru and n protected res p'
  assume "od_wf p" "0 \<le> n" "cp_evict lru_ops n protected p = (res, p')"
  then show "case res of None \<Rightarrow> p' = p | Some out \<Rightarrow> od_wf p' \<and> evict_ok (map_of p) (map_of p') (nat n) protected out"
    using lru_evict_ok [of p n protected res p'] by (auto simp: lru_ops_def split: option.splits)
qed (auto simp: lru_ops_def finite_dom_map_of lru_remove_def lru_touch_ok fun_eq_iff)

section \<open>ARC meets the contract\<close>

definition arc_entries :: "arc \<Rightarrow> offload_key \<Rightarrow> block_status option" where
  "arc_entries p k = arc_get p k"

text \<open>
  The four lists are pairwise disjoint and without duplicates, and the ghost lists stay within the capacity.
\<close>

definition arc_core :: "arc \<Rightarrow> bool" where
  "arc_core p \<longleftrightarrow> od_wf (t1 p) \<and> od_wf (t2 p) \<and> fst ` set (t1 p) \<inter> fst ` set (t2 p) = {}
     \<and> distinct (b1 p) \<and> distinct (b2 p) \<and> set (b1 p) \<inter> set (b2 p) = {}
     \<and> (set (b1 p) \<union> set (b2 p)) \<inter> (fst ` set (t1 p) \<union> fst ` set (t2 p)) = {}
     \<and> 0 \<le> arc_capacity p"

definition arc_inv :: "arc \<Rightarrow> bool" where
  "arc_inv p \<longleftrightarrow> arc_core p \<and> length (b1 p) \<le> nat (arc_capacity p) \<and> length (b2 p) \<le> nat (arc_capacity p)"

lemma arc_entries_cong: "t1 p = t1 q \<Longrightarrow> t2 p = t2 q \<Longrightarrow> arc_entries p = arc_entries q"
  by (simp add: arc_entries_def arc_get_def fun_eq_iff split: option.split)

lemma arc_init_inv: "0 \<le> n \<Longrightarrow> arc_inv (arc_init n)"
  by (simp add: arc_inv_def arc_core_def arc_init_def)

lemma key_iff: "map_of d k \<noteq> None \<longleftrightarrow> k \<in> fst ` set d"
  by (simp add: map_of_eq_None_iff)

lemma keys_update [simp]: "fst ` set (AList.update k v d) = insert k (fst ` set d)"
  by (metis dom_map_of_conv_image_fst dom_update insert_is_Un)

lemma length_removeAll_snoc: "k \<in> set g \<Longrightarrow> distinct g \<Longrightarrow> length (removeAll k g @ [k]) = length g"
  using length_pos_if_in_set [of k g] by (simp add: distinct_remove1_removeAll [symmetric] length_remove1)

lemma arc_touch_one_ok:
  assumes "arc_inv p"
  shows "arc_inv (arc_touch_one rnd k p) \<and> arc_entries (arc_touch_one rnd k p) = arc_entries p"
proof (cases "map_of (t1 p) k")
  case (Some b)
  then have k: "k \<in> fst ` set (t1 p)" using key_iff [of "t1 p" k] by simp
  then have k2: "k \<notin> fst ` set (t2 p)" "k \<notin> set (b1 p)" "k \<notin> set (b2 p)" using assms by (auto simp: arc_inv_def arc_core_def)
  have n2: "map_of (t2 p) k = None" using k2(1) by (simp add: map_of_eq_None_iff)
  show ?thesis
  proof (cases "bs_is_ready b")
    case True
    let ?p = "p\<lparr>t1 := AList.delete k (t1 p), t2 := AList.update k b (t2 p)\<rparr>"
    have "arc_inv ?p" using assms k k2 by (auto simp: arc_inv_def arc_core_def)
    moreover have "arc_entries ?p x = arc_entries p x" for x
      using Some n2 by (cases "map_of (t1 p) x"; cases "x = k") (simp_all add: arc_entries_def arc_get_def)
    ultimately show ?thesis using Some True by (simp add: arc_touch_one_def fun_eq_iff)
  next
    case False
    let ?p = "p\<lparr>t1 := AList.update k b (AList.delete k (t1 p))\<rparr>"
    have "arc_inv ?p" using assms k by (simp add: arc_inv_def arc_core_def insert_absorb)
    moreover have "arc_entries ?p x = arc_entries p x" for x
      using Some by (cases "map_of (t1 p) x"; cases "x = k") (simp_all add: arc_entries_def arc_get_def)
    ultimately show ?thesis using Some False by (simp add: arc_touch_one_def fun_eq_iff Let_def)
  qed
next
  case None
  consider "map_of (t2 p) k \<noteq> None" | "map_of (t2 p) k = None" "k \<in> set (b1 p)"
    | "map_of (t2 p) k = None" "k \<notin> set (b1 p)" "k \<in> set (b2 p)"
    | "map_of (t2 p) k = None" "k \<notin> set (b1 p)" "k \<notin> set (b2 p)" by blast
  then show ?thesis
  proof cases
    case 1
    then have "arc_touch_one rnd k p = p\<lparr>t2 := od_move_to_end k (t2 p)\<rparr>" using None by (simp add: arc_touch_one_def)
    then show ?thesis using assms
      by (simp add: arc_inv_def arc_core_def arc_entries_def arc_get_def fun_eq_iff split: option.split)
  next
    case 2
    let ?d = "max 1 (rnd (of_nat (length (b2 p)) / of_nat (length (b1 p))))"
    let ?t = "min (rnd (target_t1_size p + ?d)) (of_int (arc_capacity p))"
    have eq: "arc_touch_one rnd k p = p\<lparr>target_t1_size := ?t, b1 := removeAll k (b1 p) @ [k]\<rparr>"
      using None 2 by (simp add: arc_touch_one_def ghost_refresh_def Let_def)
    have "arc_inv (p\<lparr>target_t1_size := ?t, b1 := removeAll k (b1 p) @ [k]\<rparr>)"
      using assms 2(2) length_removeAll_snoc [of k "b1 p"] unfolding arc_inv_def arc_core_def
      by (simp add: distinct_removeAll) blast
    then show ?thesis unfolding eq by (auto intro: arc_entries_cong)
  next
    case 3
    let ?d = "max 1 (rnd (of_nat (length (b1 p)) / of_nat (length (b2 p))))"
    let ?t = "max (rnd (target_t1_size p - ?d)) 0"
    have eq: "arc_touch_one rnd k p = p\<lparr>target_t1_size := ?t, b2 := removeAll k (b2 p) @ [k]\<rparr>"
      using None 3 by (simp add: arc_touch_one_def ghost_refresh_def Let_def)
    have "arc_inv (p\<lparr>target_t1_size := ?t, b2 := removeAll k (b2 p) @ [k]\<rparr>)"
      using assms 3(2,3) length_removeAll_snoc [of k "b2 p"] unfolding arc_inv_def arc_core_def
      by (simp add: distinct_removeAll) blast
    then show ?thesis unfolding eq by (auto intro: arc_entries_cong)
  next
    case 4
    then have "arc_touch_one rnd k p = p" using None by (simp add: arc_touch_one_def)
    then show ?thesis using assms by simp
  qed
qed

lemma arc_touch_ok: "arc_inv p \<Longrightarrow> arc_inv (arc_touch rnd ks p) \<and> arc_entries (arc_touch rnd ks p) = arc_entries p"
proof -
  have "arc_inv (fold (arc_touch_one rnd) xs p) \<and> arc_entries (fold (arc_touch_one rnd) xs p) = arc_entries p" if "arc_inv p" for xs p
    using that by (induction xs arbitrary: p) (simp_all add: arc_touch_one_ok)
  then show "arc_inv p \<Longrightarrow> ?thesis" by (simp add: arc_touch_def)
qed

text \<open>The selected candidates: distinct, evictable, each in the table its flag names.\<close>

definition candidates_ok ::
  "offload_key list \<Rightarrow> arc \<Rightarrow> ((offload_key \<times> block_status) \<times> bool) list \<Rightarrow> bool" where
  "candidates_ok protected p cand \<longleftrightarrow> distinct (map (fst \<circ> fst) cand)
     \<and> (\<forall>c \<in> set cand. evictable protected (fst c) \<and> fst c \<in> set (if snd c then t1 p else t2 p))"

lemma find_SomeD: "find P xs = Some x \<Longrightarrow> P x \<and> x \<in> set xs"
  by (metis find_Some_iff nth_mem)

lemma arc_select_ok:
  "arc_select n protected p vt sel = Some cand \<Longrightarrow>
     length cand = n \<and> candidates_ok protected p cand \<and> (fst \<circ> fst) ` set cand \<inter> set sel = {}"
proof (induction n arbitrary: vt sel cand)
  case 0
  then show ?case by (simp add: candidates_ok_def)
next
  case (Suc n)
  let ?ok = "\<lambda>e. evictable protected e \<and> fst e \<notin> set sel"
  obtain e from1 vt' l where S: "cand = (e, from1) # l" "arc_select n protected p vt' (fst e # sel) = Some l"
      "find ?ok (if from1 then t1 p else t2 p) = Some e"
  proof (cases "if vt \<ge> \<lfloor>target_t1_size p\<rfloor> then find ?ok (t1 p) else None")
    case None
    then show ?thesis using Suc.prems that [of _ False] by (auto simp: Let_def split: option.splits)
  next
    case (Some e)
    then show ?thesis using Suc.prems that [of e True] by (auto simp: Let_def split: option.splits if_splits)
  qed
  have e: "evictable protected e" "fst e \<notin> set sel" "e \<in> set (if from1 then t1 p else t2 p)"
    using find_SomeD [OF S(3)] by auto
  have L: "length l = n" "candidates_ok protected p l" "(fst \<circ> fst) ` set l \<inter> set (fst e # sel) = {}"
    using Suc.IH [OF S(2)] by simp_all
  have "candidates_ok protected p cand" using L(2,3) e S(1) by (auto simp: candidates_ok_def)
  then show ?case using L(1,3) e(2) S(1) by auto
qed

lemma arc_apply_ok:
  assumes core: "arc_core p" and e: "(k, b) \<in> set (if from1 then t1 p else t2 p)"
  shows "arc_core (arc_apply ((k, b), from1) p)
    \<and> arc_entries (arc_apply ((k, b), from1) p) = (arc_entries p)(k := None) \<and> arc_entries p k = Some b
    \<and> arc_capacity (arc_apply ((k, b), from1) p) = arc_capacity p"
proof -
  have w: "od_wf (t1 p)" "od_wf (t2 p)" and dis: "fst ` set (t1 p) \<inter> fst ` set (t2 p) = {}"
    and g: "(set (b1 p) \<union> set (b2 p)) \<inter> (fst ` set (t1 p) \<union> fst ` set (t2 p)) = {}"
    using core by (simp_all add: arc_core_def)
  show ?thesis
  proof (cases from1)
    case True
    then have k1: "map_of (t1 p) k = Some b" "k \<in> fst ` set (t1 p)" using e w(1) by (force simp: image_iff)+
    then have k2: "k \<notin> fst ` set (t2 p)" "map_of (t2 p) k = None" "k \<notin> set (b1 p)" "k \<notin> set (b2 p)"
      using dis g by (auto simp: map_of_eq_None_iff)
    let ?p = "p\<lparr>t1 := AList.delete k (t1 p), b1 := b1 p @ [k]\<rparr>"
    have eq: "arc_apply ((k, b), from1) p = ?p" using True k2 by (simp add: arc_apply_def ghost_add_def)
    have "arc_core ?p" using core k1 k2 by (auto simp: arc_core_def)
    moreover have "arc_entries ?p x = ((arc_entries p)(k := None)) x" for x
      using k1 k2 by (cases "map_of (t1 p) x"; cases "x = k") (simp_all add: arc_entries_def arc_get_def)
    ultimately show ?thesis unfolding eq using k1 by (simp add: fun_eq_iff arc_entries_def arc_get_def)
  next
    case False
    then have k2: "map_of (t2 p) k = Some b" "k \<in> fst ` set (t2 p)" using e w(2) by (force simp: image_iff)+
    then have k1: "k \<notin> fst ` set (t1 p)" "map_of (t1 p) k = None" "k \<notin> set (b1 p)" "k \<notin> set (b2 p)"
      using dis g by (auto simp: map_of_eq_None_iff)
    let ?p = "p\<lparr>t2 := AList.delete k (t2 p), b2 := b2 p @ [k]\<rparr>"
    have eq: "arc_apply ((k, b), from1) p = ?p" using False k1 by (simp add: arc_apply_def ghost_add_def)
    have "arc_core ?p" using core k1 k2 by (auto simp: arc_core_def)
    moreover have "arc_entries ?p x = ((arc_entries p)(k := None)) x" for x
      using k1 k2 by (cases "map_of (t1 p) x"; cases "x = k") (simp_all add: arc_entries_def arc_get_def)
    ultimately show ?thesis unfolding eq using k1 k2 by (simp add: fun_eq_iff arc_entries_def arc_get_def)
  qed
qed

lemma arc_apply_all:
  assumes "arc_core p" "candidates_ok protected p cand"
  shows "arc_core (fold arc_apply cand p) \<and> arc_capacity (fold arc_apply cand p) = arc_capacity p
    \<and> (\<forall>k. arc_entries (fold arc_apply cand p) k = (if k \<in> (fst \<circ> fst) ` set cand then None else arc_entries p k))
    \<and> (\<forall>c \<in> set cand. arc_entries p (fst (fst c)) = Some (snd (fst c)))"
  using assms
proof (induction cand arbitrary: p)
  case (Cons c cand)
  obtain k b from1 where c: "c = ((k, b), from1)" by (metis surj_pair)
  have e: "(k, b) \<in> set (if from1 then t1 p else t2 p)" using Cons.prems(2) c by (auto simp: candidates_ok_def)
  let ?p = "arc_apply c p"
  have A: "arc_core ?p" "arc_entries ?p = (arc_entries p)(k := None)" "arc_entries p k = Some b" "arc_capacity ?p = arc_capacity p"
    using arc_apply_ok [OF Cons.prems(1) e] c by simp_all
  have "fst c' \<in> set (if snd c' then t1 ?p else t2 ?p)" if "c' \<in> set cand" for c'
  proof -
    have "fst (fst c') \<noteq> k" using Cons.prems(2) that c by (force simp: candidates_ok_def)
    moreover have "fst c' \<in> set (if snd c' then t1 p else t2 p)" using Cons.prems(2) that by (simp add: candidates_ok_def)
    ultimately show ?thesis using c by (auto simp: arc_apply_def AList.delete_eq Let_def)
  qed
  then have "candidates_ok protected ?p cand" using Cons.prems(2) by (simp add: candidates_ok_def)
  then have B: "arc_core (fold arc_apply cand ?p)" "arc_capacity (fold arc_apply cand ?p) = arc_capacity ?p"
    "\<And>x. arc_entries (fold arc_apply cand ?p) x = (if x \<in> (fst \<circ> fst) ` set cand then None else arc_entries ?p x)"
    "\<And>c'. c' \<in> set cand \<Longrightarrow> arc_entries ?p (fst (fst c')) = Some (snd (fst c'))"
    using Cons.IH [OF A(1)] by auto
  have "arc_entries p (fst (fst c')) = Some (snd (fst c'))" if "c' \<in> set cand" for c'
    using B(4) [OF that] A(2) by (simp split: if_splits)
  then show ?case using A B(1-3) c by auto
qed simp

lemma arc_core_ghosts:
  assumes "arc_core p" "set g1 \<subseteq> set (b1 p)" "set g2 \<subseteq> set (b2 p)" "distinct g1" "distinct g2"
  shows "arc_core (p\<lparr>b1 := g1, b2 := g2\<rparr>)"
proof -
  have "set g1 \<inter> set g2 \<subseteq> set (b1 p) \<inter> set (b2 p)"
    "(set g1 \<union> set g2) \<inter> X \<subseteq> (set (b1 p) \<union> set (b2 p)) \<inter> X" for X using assms(2,3) by auto
  then have "set g1 \<inter> set g2 = {}" "(set g1 \<union> set g2) \<inter> (fst ` set (t1 p) \<union> fst ` set (t2 p)) = {}"
    using assms(1) unfolding arc_core_def by (metis subset_empty)+
  then show ?thesis using assms(1,4,5) by (simp add: arc_core_def)
qed

lemma arc_trim_ok:
  assumes "arc_core p"
  shows "arc_inv (arc_trim p) \<and> arc_entries (arc_trim p) = arc_entries p"
proof -
  define g1 where "g1 = drop (length (b1 p) - nat (arc_capacity p)) (b1 p)"
  define g2 where "g2 = drop (length (b2 p) - nat (arc_capacity p)) (b2 p)"
  have t: "arc_trim p = p\<lparr>b1 := g1, b2 := g2\<rparr>" by (simp add: arc_trim_def g1_def g2_def)
  have g: "set g1 \<subseteq> set (b1 p)" "set g2 \<subseteq> set (b2 p)" by (simp_all add: g1_def g2_def set_drop_subset)
  have d: "distinct g1" "distinct g2" using assms by (simp_all add: g1_def g2_def arc_core_def)
  have l: "length g1 \<le> nat (arc_capacity p)" "length g2 \<le> nat (arc_capacity p)" by (simp_all add: g1_def g2_def)
  have "arc_inv (arc_trim p)" using arc_core_ghosts [OF assms g d] l by (simp add: arc_inv_def t)
  moreover have "arc_entries (arc_trim p) = arc_entries p" by (rule arc_entries_cong) (simp_all add: t)
  ultimately show ?thesis ..
qed

lemma arc_evict_ok:
  assumes inv: "arc_inv p" and n: "0 \<le> n" and ev: "arc_evict n protected p = (res, p')"
  shows "case res of None \<Rightarrow> p' = p
    | Some out \<Rightarrow> arc_inv p' \<and> evict_ok (arc_entries p) (arc_entries p') (nat n) protected out"
proof (cases "n = 0")
  case True
  then show ?thesis using inv ev by (auto simp: arc_evict_def evict_ok_def)
next
  case False
  show ?thesis
  proof (cases "arc_select (nat n) protected p (int (length (t1 p))) []")
    case None
    then show ?thesis using ev False by (auto simp: arc_evict_def)
  next
    case (Some cand)
    have S: "length cand = nat n" "candidates_ok protected p cand" using arc_select_ok [OF Some] by simp_all
    let ?q = "fold arc_apply cand p"
    have A: "arc_core ?q" "\<And>k. arc_entries ?q k = (if k \<in> (fst \<circ> fst) ` set cand then None else arc_entries p k)"
      "\<And>c. c \<in> set cand \<Longrightarrow> arc_entries p (fst (fst c)) = Some (snd (fst c))"
      using arc_apply_all [OF _ S(2)] inv by (auto simp: arc_inv_def)
    have T: "arc_inv (arc_trim ?q)" "arc_entries (arc_trim ?q) = arc_entries ?q" using arc_trim_ok [OF A(1)] by simp_all
    have r: "res = Some (map fst cand)" "p' = arc_trim ?q" using ev False Some by (simp_all add: arc_evict_def)
    have im: "fst ` set (map fst cand) = (fst \<circ> fst) ` set cand" by (simp add: image_comp)
    have "\<forall>(k, b) \<in> set (map fst cand). arc_entries p k = Some b \<and> bs_ref_cnt b = 0 \<and> k \<notin> set protected"
    proof (clarify, intro conjI)
      fix k b assume "(k, b) \<in> set (map fst cand)"
      then obtain f where c: "((k, b), f) \<in> set cand" by auto
      show "arc_entries p k = Some b" using A(3) [OF c] by simp
      have "evictable protected (k, b)" using S(2) c by (auto simp: candidates_ok_def)
      then show "bs_ref_cnt b = 0" "k \<notin> set protected" by (simp_all add: evictable_def)
    qed
    moreover have "distinct (map fst (map fst cand))" using S(2) by (simp add: candidates_ok_def)
    ultimately have "evict_ok (arc_entries p) (arc_entries p') (nat n) protected (map fst cand)"
      unfolding evict_ok_def r(2) T(2) im using S(1) A(2) by simp
    then show ?thesis using r T(1) by simp
  qed
qed

interpretation arc: cache_policy "arc_ops rnd" arc_inv arc_entries for rnd
proof
  fix p :: arc and k show "cp_get (arc_ops rnd) p k = arc_entries p k" by (simp add: arc_ops_def arc_entries_def)
next
  fix p :: arc
  have "dom (arc_entries p) \<subseteq> dom (map_of (t1 p)) \<union> dom (map_of (t2 p))"
    by (auto simp: arc_entries_def arc_get_def split: option.splits)
  then show "finite (dom (arc_entries p))" by (rule finite_subset) (simp add: finite_dom_map_of)
next
  fix p :: arc and k b assume inv: "arc_inv p" and k: "arc_entries p k \<noteq> None"
  show "arc_inv (cp_set (arc_ops rnd) k b p) \<and> arc_entries (cp_set (arc_ops rnd) k b p) = (arc_entries p)(k \<mapsto> b)"
  proof (cases "map_of (t1 p) k")
    case None
    then have "k \<in> fst ` set (t2 p)" using k key_iff [of "t2 p" k] by (simp add: arc_entries_def arc_get_def)
    then have "arc_inv (arc_set k b p)" using inv None by (simp add: arc_inv_def arc_core_def arc_set_def insert_absorb)
    then show ?thesis using None by (simp add: arc_ops_def arc_set_def arc_entries_def arc_get_def fun_eq_iff split: option.split)
  next
    case (Some c)
    then have "k \<in> fst ` set (t1 p)" using key_iff [of "t1 p" k] by simp
    then have "arc_inv (arc_set k b p)" using inv Some by (simp add: arc_inv_def arc_core_def arc_set_def insert_absorb)
    then show ?thesis using Some by (simp add: arc_ops_def arc_set_def arc_entries_def arc_get_def fun_eq_iff split: option.split)
  qed
next
  fix p :: arc and k b assume inv: "arc_inv p" and k: "arc_entries p k = None"
  then have n: "map_of (t1 p) k = None" "map_of (t2 p) k = None"
    by (auto simp: arc_entries_def arc_get_def split: option.splits)
  then have "k \<notin> fst ` set (t1 p)" "k \<notin> fst ` set (t2 p)" by (simp_all add: map_of_eq_None_iff)
  moreover have "length (removeAll k (b1 p)) \<le> nat (arc_capacity p)" "length (removeAll k (b2 p)) \<le> nat (arc_capacity p)"
    using inv order_trans [OF length_removeAll_less_eq [of k "b1 p"]] order_trans [OF length_removeAll_less_eq [of k "b2 p"]]
    by (simp_all only: arc_inv_def)
  ultimately have "arc_inv (arc_insert k b p)" using inv unfolding arc_inv_def arc_core_def arc_insert_def
    by (auto simp: distinct_removeAll)
  then show "arc_inv (cp_insert (arc_ops rnd) k b p) \<and> arc_entries (cp_insert (arc_ops rnd) k b p) = (arc_entries p)(k \<mapsto> b)"
    by (simp add: arc_ops_def arc_insert_def arc_entries_def arc_get_def fun_eq_iff split: option.split)
next
  fix p :: arc and k assume inv: "arc_inv p" and k: "arc_entries p k \<noteq> None"
  let ?p = "if map_of (t1 p) k \<noteq> None then p\<lparr>t1 := AList.delete k (t1 p)\<rparr> else p\<lparr>t2 := AList.delete k (t2 p)\<rparr>"
  have "arc_inv ?p" using inv unfolding arc_inv_def arc_core_def by auto
  moreover have "arc_entries ?p x = ((arc_entries p)(k := None)) x" for x
  proof (cases "map_of (t1 p) k")
    case (Some c)
    then have "k \<in> fst ` set (t1 p)" using key_iff [of "t1 p" k] by simp
    then have "map_of (t2 p) k = None" using inv by (auto simp: arc_inv_def arc_core_def map_of_eq_None_iff)
    then show ?thesis using Some by (simp add: arc_entries_def arc_get_def split: option.split)
  qed (simp add: arc_entries_def arc_get_def split: option.split)
  ultimately show "\<exists>p'. cp_remove (arc_ops rnd) k p = Inr p' \<and> arc_inv p' \<and> arc_entries p' = (arc_entries p)(k := None)"
    by (simp add: arc_ops_def arc_remove_def fun_eq_iff)
next
  fix p :: arc and ks assume "arc_inv p"
  then show "arc_inv (cp_touch (arc_ops rnd) ks p) \<and> arc_entries (cp_touch (arc_ops rnd) ks p) = arc_entries p"
    by (simp add: arc_ops_def arc_touch_ok)
next
  fix p :: arc and n protected res p'
  assume "arc_inv p" "0 \<le> n" "cp_evict (arc_ops rnd) n protected p = (res, p')"
  then show "case res of None \<Rightarrow> p' = p
      | Some out \<Rightarrow> arc_inv p' \<and> evict_ok (arc_entries p) (arc_entries p') (nat n) protected out"
    by (intro arc_evict_ok) (simp_all add: arc_ops_def)
qed

section \<open>The adaptive target of ARC\<close>

definition target_ok :: "arc \<Rightarrow> bool" where
  "target_ok p \<longleftrightarrow> 0 \<le> target_t1_size p \<and> target_t1_size p \<le> of_int (arc_capacity p) \<and> 0 \<le> arc_capacity p"

lemma arc_touch_one_target:
  assumes rnd: "mono rnd" "rnd 0 = 0" "rnd (of_int (arc_capacity p)) = of_int (arc_capacity p)" and ok: "target_ok p"
  shows "target_ok (arc_touch_one rnd k p) \<and> arc_capacity (arc_touch_one rnd k p) = arc_capacity p"
proof -
  have up: "0 \<le> rnd (target_t1_size p + max 1 d)" for d
  proof -
    have "0 \<le> target_t1_size p + max 1 d" using ok by (simp add: target_ok_def max_def)
    then show ?thesis using monoD [OF rnd(1), of 0] rnd(2) by simp
  qed
  have down: "rnd (target_t1_size p - max 1 d) \<le> of_int (arc_capacity p)" for d
  proof -
    have "target_t1_size p - max 1 d \<le> of_int (arc_capacity p)" using ok by (auto simp: target_ok_def max_def)
    then show ?thesis using monoD [OF rnd(1)] rnd(3) by metis
  qed
  have cap: "(0 :: rat) \<le> of_int (arc_capacity p)" using ok by (simp add: target_ok_def)
  show ?thesis
    using ok up down cap by (simp add: arc_touch_one_def target_ok_def Let_def split: option.split)
qed

text \<open>
  The adaptive target of ARC stays between zero and the capacity, whatever keys are touched, inserted,
  removed or evicted; the float operations are only assumed to round monotonically, with zero and the
  capacity as exact values.
\<close>

theorem arc_target_bounded:
  assumes rnd: "mono rnd" "rnd 0 = 0" "rnd (of_int (arc_capacity p)) = of_int (arc_capacity p)" and ok: "target_ok p"
  shows "target_ok (arc_touch rnd keys p) \<and> target_ok (arc_insert k b p) \<and> target_ok (arc_set k b p)
    \<and> (\<forall>p'. arc_remove k p = Inr p' \<longrightarrow> target_ok p') \<and> target_ok (snd (arc_evict n protected p))"
proof -
  have touch: "target_ok (fold (arc_touch_one rnd) xs p) \<and> arc_capacity (fold (arc_touch_one rnd) xs p) = arc_capacity p" for xs
    using rnd ok
  proof (induction xs arbitrary: p)
    case (Cons x xs)
    then show ?case using arc_touch_one_target [of rnd p x] by simp
  qed simp
  have evicted: "target_ok (fold arc_apply cand p)" for cand
    using ok by (induction cand arbitrary: p) (simp_all add: arc_apply_def target_ok_def Let_def)
  have "target_ok (arc_touch rnd keys p)" using touch by (simp add: arc_touch_def)
  moreover have "target_ok (arc_trim q)" if "target_ok q" for q using that by (simp add: arc_trim_def target_ok_def)
  then have "target_ok (snd (arc_evict n protected p))" using ok evicted by (simp add: arc_evict_def split: option.split)
  ultimately show ?thesis using ok by (simp add: arc_insert_def arc_set_def arc_remove_def target_ok_def)
qed

theorem arc_target_bounded_witness:
  "target_ok (arc_touch id [[1], [2]] \<lparr>arc_capacity = 2, target_t1_size = 1, t1 = [], t2 = [], b1 = [[1], [2]], b2 = [[3]]\<rparr>)"
  using arc_target_bounded [of id "\<lparr>arc_capacity = 2, target_t1_size = 1, t1 = [], t2 = [], b1 = [[1], [2]], b2 = [[3]]\<rparr>"]
  by (simp add: target_ok_def mono_def)

text \<open>
  ARC refuses to evict when T1 is below its target and every block of T2 is in use, although T1 holds a block that
  could be evicted. LRU evicts it.
\<close>

lemma arc_gives_up:
  "fst (arc_evict 1 [] \<lparr>arc_capacity = 4, target_t1_size = 3, t1 = [([1], \<lparr>bs_ref_cnt = 0, bs_block_id = 0\<rparr>)],
     t2 = [([2], \<lparr>bs_ref_cnt = 1, bs_block_id = 1\<rparr>)], b1 = [], b2 = []\<rparr>) = None
   \<and> fst (lru_evict 1 [] [([1], \<lparr>bs_ref_cnt = 0, bs_block_id = 0\<rparr>), ([2], \<lparr>bs_ref_cnt = 1, bs_block_id = 1\<rparr>)])
     = Some [([1], \<lparr>bs_ref_cnt = 0, bs_block_id = 0\<rparr>)]"
  by code_simp

end
