(* ===== verification/Offloading_Manager.thy ===== *)
theory Offloading_Manager
  imports Cache_Policy
begin

text \<open>
  The CPU offloading manager (src/vllm/vllm/v1/kv_offload/cpu/manager.py), its reuse filter
  (src/vllm/vllm/v1/kv_offload/reuse_manager.py) and the offload keys (src/vllm/vllm/v1/kv_offload/abstract.py). The manager
  calls its policy through the record of operations; what it promises is proved once from the policy's
  contract, in the locale \<open>cache_policy\<close>. Request contexts are passed on unused and are left out.
\<close>

section \<open>Keys\<close>

definition make_offload_key :: "bytes \<Rightarrow> int \<Rightarrow> offload_key res" where
  "make_offload_key h g = res_bind (to_bytes_4_big g) (\<lambda>bs. Inr (h @ bs))"

definition get_offload_block_hash :: "offload_key \<Rightarrow> bytes" where
  "get_offload_block_hash k = take (length k - 4) k"

definition get_offload_group_idx :: "offload_key \<Rightarrow> nat" where
  "get_offload_group_idx k = from_bytes_big (drop (length k - 4) k)"

section \<open>State\<close>

record offloading_event =
  oe_keys :: "offload_key list"
  oe_medium :: string
  oe_removed :: bool

record 'p offloading_manager =
  om_num_blocks :: int
  om_num_allocated :: int
  om_free_list :: "int list"
  om_events :: "offloading_event list option"
  om_policy :: 'p

record prepare_store_output =
  po_keys_to_store :: "offload_key list"
  po_block_ids :: "int list"
  po_evicted_keys :: "offload_key list"

datatype policy_kind = LRU | ARC

text \<open>The constructor, for a given fresh policy; an unknown policy name is refused.\<close>

definition policy_of_name :: "string \<Rightarrow> policy_kind res" where
  "policy_of_name s = (if s = ''lru'' then Inr LRU else if s = ''arc'' then Inr ARC else Inl ValueError)"

definition om_init :: "int \<Rightarrow> bool \<Rightarrow> 'p \<Rightarrow> 'p offloading_manager" where
  "om_init n enable_events p = \<lparr>om_num_blocks = n, om_num_allocated = 0, om_free_list = [],
     om_events = (if enable_events then Some [] else None), om_policy = p\<rparr>"

section \<open>Block pool\<close>

definition om_get_num_free_blocks :: "'p offloading_manager \<Rightarrow> int" where
  "om_get_num_free_blocks m = int (length (om_free_list m)) + om_num_blocks m - om_num_allocated m"

definition om_allocate_blocks :: "nat \<Rightarrow> 'p offloading_manager \<Rightarrow> (block_status list \<times> 'p offloading_manager) res" where
  "om_allocate_blocks n m =
     (let fresh = min (int n) (om_num_blocks m - om_num_allocated m); reused = int n - fresh;
          free = om_free_list m; keep = length free - nat reused in
      guard (int (length free) \<ge> reused) AssertionError
        (Inr (map (\<lambda>i. new_block_status (om_num_allocated m + int i)) [0..<nat fresh] @ map new_block_status (rev (drop keep free)),
              m\<lparr>om_num_allocated := om_num_allocated m + int (nat fresh), om_free_list := take keep free\<rparr>)))"

definition om_free_block :: "block_status \<Rightarrow> 'p offloading_manager \<Rightarrow> 'p offloading_manager" where
  "om_free_block b m = m\<lparr>om_free_list := om_free_list m @ [bs_block_id b]\<rparr>"

definition emit :: "bool \<Rightarrow> offload_key list \<Rightarrow> 'p offloading_manager \<Rightarrow> 'p offloading_manager" where
  "emit removed keys m =
     (if keys = [] then m
      else m\<lparr>om_events := map_option (\<lambda>es. es @ [\<lparr>oe_keys = keys, oe_medium = ''CPU'', oe_removed = removed\<rparr>]) (om_events m)\<rparr>)"

section \<open>Interface\<close>

definition om_lookup :: "'p cache_policy_ops \<Rightarrow> 'p offloading_manager \<Rightarrow> offload_key \<Rightarrow> bool" where
  "om_lookup ops m k = (case cp_get ops (om_policy m) k of None \<Rightarrow> False | Some b \<Rightarrow> bs_is_ready b)"

fun om_prepare_load ::
  "'p cache_policy_ops \<Rightarrow> offload_key list \<Rightarrow> 'p offloading_manager \<Rightarrow> (int list \<times> 'p offloading_manager) res" where
  "om_prepare_load ops [] m = Inr ([], m)"
| "om_prepare_load ops (k # ks) m =
     (case cp_get ops (om_policy m) k of
        None \<Rightarrow> Inl AssertionError
      | Some b \<Rightarrow>
          guard (bs_is_ready b) AssertionError
          (res_bind (om_prepare_load ops ks
                       (m\<lparr>om_policy := cp_set ops k (b\<lparr>bs_ref_cnt := c_int32 (bs_ref_cnt b + 1)\<rparr>) (om_policy m)\<rparr>))
             (\<lambda>(ids, m'). Inr (bs_block_id b # ids, m'))))"

definition om_touch :: "'p cache_policy_ops \<Rightarrow> offload_key list \<Rightarrow> 'p offloading_manager \<Rightarrow> 'p offloading_manager" where
  "om_touch ops ks m = m\<lparr>om_policy := cp_touch ops ks (om_policy m)\<rparr>"

definition om_complete_load_one :: "'p cache_policy_ops \<Rightarrow> offload_key \<Rightarrow> 'p offloading_manager \<Rightarrow> 'p offloading_manager res" where
  "om_complete_load_one ops k m =
     (case cp_get ops (om_policy m) k of
        None \<Rightarrow> Inl AssertionError
      | Some b \<Rightarrow> guard (bs_ref_cnt b > 0) AssertionError
          (Inr (m\<lparr>om_policy := cp_set ops k (b\<lparr>bs_ref_cnt := c_int32 (bs_ref_cnt b - 1)\<rparr>) (om_policy m)\<rparr>)))"

definition om_complete_load :: "'p cache_policy_ops \<Rightarrow> offload_key list \<Rightarrow> 'p offloading_manager \<Rightarrow> 'p offloading_manager res" where
  "om_complete_load ops ks m = fold_res (om_complete_load_one ops) ks m"

definition om_prepare_store ::
  "'p cache_policy_ops \<Rightarrow> offload_key list \<Rightarrow> 'p offloading_manager \<Rightarrow> (prepare_store_output option \<times> 'p offloading_manager) res" where
  "om_prepare_store ops keys m =
     (let to_store = filter (\<lambda>k. cp_get ops (om_policy m) k = None) keys in
      if to_store = [] then Inr (Some \<lparr>po_keys_to_store = [], po_block_ids = [], po_evicted_keys = []\<rparr>, m)
      else
      let n = int (length to_store) - om_get_num_free_blocks m in
      case (if n > 0 then cp_evict ops n keys (om_policy m) else (Some [], om_policy m)) of
        (None, p) \<Rightarrow> Inr (None, m\<lparr>om_policy := p\<rparr>)
      | (Some evicted, p) \<Rightarrow>
          let m1 = fold (\<lambda>(k, b). om_free_block b) evicted (m\<lparr>om_policy := p\<rparr>);
              m2 = emit True (map fst evicted) m1 in
          res_bind (om_allocate_blocks (length to_store) m2) (\<lambda>(blocks, m3).
          guard (length blocks = length to_store) AssertionError
            (Inr (Some \<lparr>po_keys_to_store = to_store, po_block_ids = map bs_block_id blocks, po_evicted_keys = map fst evicted\<rparr>,
                  m3\<lparr>om_policy := fold (\<lambda>(k, b). cp_insert ops k b) (zip to_store blocks) (om_policy m3)\<rparr>))))"

definition om_store_done :: "'p cache_policy_ops \<Rightarrow> offload_key \<Rightarrow> offload_key list \<times> 'p offloading_manager
    \<Rightarrow> offload_key list \<times> 'p offloading_manager" where
  "om_store_done ops k st =
     (case cp_get ops (om_policy (snd st)) k of
        None \<Rightarrow> st
      | Some b \<Rightarrow> if bs_is_ready b then st
          else (fst st @ [k], (snd st)\<lparr>om_policy := cp_set ops k (b\<lparr>bs_ref_cnt := c_int32 0\<rparr>) (om_policy (snd st))\<rparr>))"

definition om_store_failed :: "'p cache_policy_ops \<Rightarrow> offload_key \<Rightarrow> 'p offloading_manager \<Rightarrow> 'p offloading_manager res" where
  "om_store_failed ops k m =
     (case cp_get ops (om_policy m) k of
        None \<Rightarrow> Inr m
      | Some b \<Rightarrow> if bs_is_ready b then Inr m
          else res_bind (cp_remove ops k (om_policy m)) (\<lambda>p. Inr (om_free_block b (m\<lparr>om_policy := p\<rparr>))))"

definition om_complete_store :: "'p cache_policy_ops \<Rightarrow> offload_key list \<Rightarrow> bool \<Rightarrow> 'p offloading_manager \<Rightarrow> 'p offloading_manager res" where
  "om_complete_store ops keys success m =
     (if success
      then (case fold (om_store_done ops) keys ([], m) of (stored, m') \<Rightarrow> Inr (emit False stored m'))
      else fold_res (om_store_failed ops) keys m)"

definition om_take_events :: "'p offloading_manager \<Rightarrow> offloading_event list \<times> 'p offloading_manager" where
  "om_take_events m = (case om_events m of None \<Rightarrow> ([], m) | Some es \<Rightarrow> (es, m\<lparr>om_events := Some []\<rparr>))"

section \<open>The reuse filter\<close>

record 'p filter_reused =
  fr_backing :: "'p offloading_manager"
  fr_store_threshold :: int
  fr_max_tracker_size :: int
  fr_counts :: "(offload_key, int) odict"

definition fr_init :: "'p offloading_manager \<Rightarrow> int \<Rightarrow> int \<Rightarrow> 'p filter_reused res" where
  "fr_init m threshold max_size =
     guard (\<not> threshold < 2) ValueError
     (guard (\<not> max_size < 1) ValueError
       (Inr \<lparr>fr_backing = m, fr_store_threshold = threshold, fr_max_tracker_size = max_size, fr_counts = []\<rparr>))"

definition fr_record :: "offload_key \<Rightarrow> 'p filter_reused \<Rightarrow> 'p filter_reused" where
  "fr_record k fr =
     (let d = fr_counts fr in
      fr\<lparr>fr_counts := (case map_of d k of
          Some n \<Rightarrow> AList.update k (n + 1) (od_move_to_end k d)
        | None \<Rightarrow> AList.update k 1 (if int (length d) \<ge> fr_max_tracker_size fr then tl d else d))\<rparr>)"

definition fr_lookup :: "'p cache_policy_ops \<Rightarrow> offload_key \<Rightarrow> 'p filter_reused \<Rightarrow> bool \<times> 'p filter_reused" where
  "fr_lookup ops k fr = (let fr' = fr_record k fr in (om_lookup ops (fr_backing fr') k, fr'))"

definition fr_prepare_store ::
  "'p cache_policy_ops \<Rightarrow> offload_key list \<Rightarrow> 'p filter_reused \<Rightarrow> (prepare_store_output option \<times> 'p filter_reused) res" where
  "fr_prepare_store ops keys fr =
     (let eligible = filter (\<lambda>k. (case map_of (fr_counts fr) k of None \<Rightarrow> 0 | Some n \<Rightarrow> n) \<ge> fr_store_threshold fr) keys in
      res_bind (om_prepare_store ops eligible (fr_backing fr)) (\<lambda>(res, m). Inr (res, fr\<lparr>fr_backing := m\<rparr>)))"

definition fr_prepare_load :: "'p cache_policy_ops \<Rightarrow> offload_key list \<Rightarrow> 'p filter_reused \<Rightarrow> (int list \<times> 'p filter_reused) res" where
  "fr_prepare_load ops keys fr = res_bind (om_prepare_load ops keys (fr_backing fr)) (\<lambda>(ids, m). Inr (ids, fr\<lparr>fr_backing := m\<rparr>))"

definition fr_touch :: "'p cache_policy_ops \<Rightarrow> offload_key list \<Rightarrow> 'p filter_reused \<Rightarrow> 'p filter_reused" where
  "fr_touch ops keys fr = fr\<lparr>fr_backing := om_touch ops keys (fr_backing fr)\<rparr>"

definition fr_complete_load :: "'p cache_policy_ops \<Rightarrow> offload_key list \<Rightarrow> 'p filter_reused \<Rightarrow> 'p filter_reused res" where
  "fr_complete_load ops keys fr = res_bind (om_complete_load ops keys (fr_backing fr)) (\<lambda>m. Inr (fr\<lparr>fr_backing := m\<rparr>))"

definition fr_complete_store :: "'p cache_policy_ops \<Rightarrow> offload_key list \<Rightarrow> bool \<Rightarrow> 'p filter_reused \<Rightarrow> 'p filter_reused res" where
  "fr_complete_store ops keys success fr =
     res_bind (om_complete_store ops keys success (fr_backing fr)) (\<lambda>m. Inr (fr\<lparr>fr_backing := m\<rparr>))"

definition fr_take_events :: "'p filter_reused \<Rightarrow> offloading_event list \<times> 'p filter_reused" where
  "fr_take_events fr = (case om_take_events (fr_backing fr) of (es, m) \<Rightarrow> (es, fr\<lparr>fr_backing := m\<rparr>))"

section \<open>The slots\<close>

text \<open>
  The slots handed out so far are those of the stored blocks and of the free list, each exactly once.
\<close>

definition slot_ids :: "(offload_key \<Rightarrow> block_status option) \<Rightarrow> int set" where
  "slot_ids ent = (\<lambda>k. bs_block_id (the (ent k))) ` dom ent"

definition slots_ok :: "(offload_key \<Rightarrow> block_status option) \<Rightarrow> 'p offloading_manager \<Rightarrow> bool" where
  "slots_ok ent m \<longleftrightarrow>
     0 \<le> om_num_allocated m \<and> om_num_allocated m \<le> om_num_blocks m \<and> om_num_blocks m \<le> 2 ^ 63
     \<and> finite (dom ent) \<and> inj_on (\<lambda>k. bs_block_id (the (ent k))) (dom ent) \<and> distinct (om_free_list m)
     \<and> slot_ids ent \<inter> set (om_free_list m) = {}
     \<and> slot_ids ent \<union> set (om_free_list m) = {0..<om_num_allocated m}"

lemma slots_free_count:
  assumes "slots_ok ent m"
  shows "om_get_num_free_blocks m = om_num_blocks m - int (card (dom ent))"
proof -
  have "card (slot_ids ent) = card (dom ent)" using assms by (simp add: slots_ok_def slot_ids_def card_image)
  moreover have "card (slot_ids ent \<union> set (om_free_list m)) = card (slot_ids ent) + length (om_free_list m)"
  proof -
    have "finite (slot_ids ent)" "slot_ids ent \<inter> set (om_free_list m) = {}" "distinct (om_free_list m)"
      using assms by (simp_all add: slots_ok_def slot_ids_def)
    then show ?thesis by (simp add: card_Un_disjoint distinct_card)
  qed
  moreover have "slot_ids ent \<union> set (om_free_list m) = {0..<om_num_allocated m}" "0 \<le> om_num_allocated m"
    using assms by (simp_all add: slots_ok_def)
  ultimately have "om_num_allocated m = int (card (dom ent)) + int (length (om_free_list m))" by simp
  then show ?thesis by (simp add: om_get_num_free_blocks_def)
qed

lemma slot_ids_restrict:
  assumes inj: "inj_on (\<lambda>k. bs_block_id (the (ent k))) (dom ent)" and sub: "K \<subseteq> dom ent"
    and ent': "\<And>k. ent' k = (if k \<in> K then None else ent k)"
  shows "dom ent' = dom ent - K" "slot_ids ent' = slot_ids ent - (\<lambda>k. bs_block_id (the (ent k))) ` K"
    "inj_on (\<lambda>k. bs_block_id (the (ent' k))) (dom ent')"
proof -
  show d: "dom ent' = dom ent - K" using ent' by (auto simp: dom_def)
  have eq: "bs_block_id (the (ent' k)) = bs_block_id (the (ent k))" if "k \<in> dom ent'" for k using that d ent' by simp
  then have "slot_ids ent' = (\<lambda>k. bs_block_id (the (ent k))) ` (dom ent - K)"
    unfolding slot_ids_def d [symmetric] by (rule image_cong [OF refl])
  then show "slot_ids ent' = slot_ids ent - (\<lambda>k. bs_block_id (the (ent k))) ` K"
    unfolding slot_ids_def using inj_on_image_set_diff [OF inj, of "dom ent" K] sub by simp
  show "inj_on (\<lambda>k. bs_block_id (the (ent' k))) (dom ent')"
    using inj eq d by (simp add: inj_on_def)
qed

lemma slots_evict:
  assumes ok: "slots_ok ent m" and ev: "evict_ok ent ent' n protected out"
  shows "slots_ok ent' (m\<lparr>om_free_list := om_free_list m @ map (bs_block_id \<circ> snd) out\<rparr>)"
proof -
  let ?K = "fst ` set out" and ?f = "\<lambda>k. bs_block_id (the (ent k))"
  note O = ok [unfolded slots_ok_def] and E = ev [unfolded evict_ok_def]
  have m: "ent (fst e) = Some (snd e)" if "e \<in> set out" for e using E that by (cases e) auto
  have K: "?K \<subseteq> dom ent" using m by auto
  have inj: "inj_on ?f (dom ent)" using O by simp
  have ids: "map (bs_block_id \<circ> snd) out = map ?f (map fst out)" using m by simp
  have im: "set (map (bs_block_id \<circ> snd) out) = ?f ` ?K" unfolding ids by auto
  have "distinct (map fst out)" using E by blast
  then have d: "distinct (map (bs_block_id \<circ> snd) out)"
    unfolding ids using inj_on_subset [OF inj K] by (simp only: distinct_map [of ?f "map fst out"] set_map simp_thms)
  have ent': "\<And>k. ent' k = (if k \<in> ?K then None else ent k)" using E by simp
  note R = slot_ids_restrict [OF inj K ent']
  have sub: "?f ` ?K \<subseteq> slot_ids ent" unfolding slot_ids_def using K by (rule image_mono)
  have "slot_ids ent' \<union> (set (om_free_list m) \<union> ?f ` ?K) = {0..<om_num_allocated m}"
    using O R(2) sub by blast
  moreover have "slot_ids ent' \<inter> (set (om_free_list m) \<union> ?f ` ?K) = {}" using O R(2) by blast
  moreover have "set (om_free_list m) \<inter> ?f ` ?K = {}" using O sub by blast
  ultimately show ?thesis
    using O R(1,3) d im by (simp add: slots_ok_def)
qed

lemma slots_release:
  assumes ok: "slots_ok ent m" and k: "ent k = Some b"
  shows "slots_ok (ent(k := None)) (m\<lparr>om_free_list := om_free_list m @ [bs_block_id b]\<rparr>)"
proof -
  let ?f = "\<lambda>k. bs_block_id (the (ent k))"
  note O = ok [unfolded slots_ok_def]
  have inj: "inj_on ?f (dom ent)" using O by simp
  have K: "{k} \<subseteq> dom ent" using k by auto
  note R = slot_ids_restrict [OF inj K, of "ent(k := None)"]
  have ids: "slot_ids (ent(k := None)) = slot_ids ent - {bs_block_id b}" using R(2) k by simp
  have i: "bs_block_id b \<in> slot_ids ent" using k by (force simp: slot_ids_def)
  have "slot_ids ent - {bs_block_id b} \<union> (set (om_free_list m) \<union> {bs_block_id b}) = {0..<om_num_allocated m}" using O i by blast
  moreover have "(slot_ids ent - {bs_block_id b}) \<inter> (set (om_free_list m) \<union> {bs_block_id b}) = {}" "bs_block_id b \<notin> set (om_free_list m)"
    using O i by blast+
  ultimately show ?thesis using O R(1,3) by (simp add: slots_ok_def ids)
qed

text \<open>Allocation hands out distinct slots that no stored block uses.\<close>

definition fresh_slots ::
  "(offload_key \<Rightarrow> block_status option) \<Rightarrow> 'p offloading_manager \<Rightarrow> block_status list \<Rightarrow> 'p offloading_manager \<Rightarrow> bool" where
  "fresh_slots ent m blocks m' \<longleftrightarrow>
     distinct (map bs_block_id blocks) \<and> (\<forall>b \<in> set blocks. bs_ref_cnt b = -1)
     \<and> slot_ids ent \<inter> set (map bs_block_id blocks) = {} \<and> set (map bs_block_id blocks) \<inter> set (om_free_list m') = {}
     \<and> slot_ids ent \<inter> set (om_free_list m') = {} \<and> distinct (om_free_list m')
     \<and> slot_ids ent \<union> (set (map bs_block_id blocks) \<union> set (om_free_list m')) = {0..<om_num_allocated m'}
     \<and> 0 \<le> om_num_allocated m' \<and> om_num_allocated m' \<le> om_num_blocks m' \<and> om_num_blocks m' = om_num_blocks m
     \<and> om_policy m' = om_policy m \<and> om_events m' = om_events m"

lemma allocate_blocks_law:
  assumes ok: "slots_ok ent m" and room: "int n \<le> om_get_num_free_blocks m"
  shows "\<exists>blocks m'. om_allocate_blocks n m = Inr (blocks, m') \<and> length blocks = n \<and> fresh_slots ent m blocks m'"
proof -
  let ?a = "om_num_allocated m" and ?free = "om_free_list m"
  define fresh where "fresh = min (int n) (om_num_blocks m - ?a)"
  define keep where "keep = length ?free - nat (int n - fresh)"
  note O = ok [unfolded slots_ok_def]
  have f: "0 \<le> fresh" "fresh \<le> int n" "?a + fresh \<le> om_num_blocks m" "int n - fresh \<le> int (length ?free)"
    using O room by (auto simp: fresh_def om_get_num_free_blocks_def)
  define new where "new = map (\<lambda>i. ?a + int i) [0..<nat fresh]"
  define old where "old = rev (drop keep ?free)"
  have c: "c_int64 x = x" if "x \<in> set new \<or> x \<in> set ?free" for x
  proof -
    have "x \<in> {0..<om_num_blocks m}" using that O f by (auto simp: new_def)
    then show ?thesis using O by (intro c_int64_id) auto
  qed
  have sub: "set old \<subseteq> set ?free" by (simp add: old_def set_drop_subset)
  let ?blocks = "map (\<lambda>i. new_block_status (?a + int i)) [0..<nat fresh] @ map new_block_status old"
  have ids: "map bs_block_id ?blocks = new @ old"
  proof -
    have "map (bs_block_id \<circ> new_block_status) xs = xs" if "\<And>x. x \<in> set xs \<Longrightarrow> c_int64 x = x" for xs
      using that by (simp add: map_idI new_block_status_def)
    then have "map (bs_block_id \<circ> new_block_status) new = new" "map (bs_block_id \<circ> new_block_status) old = old"
      using c sub by blast+
    then show ?thesis by (simp add: new_def comp_def)
  qed
  have split: "set ?free = set (take keep ?free) \<union> set old" "set (take keep ?free) \<inter> set old = {}"
    using O set_append [of "take keep ?free" "drop keep ?free"] distinct_append [of "take keep ?free" "drop keep ?free"]
    by (simp_all add: old_def)
  have news: "set new = {?a..<?a + fresh}"
  proof (rule set_eqI)
    fix x show "x \<in> set new \<longleftrightarrow> x \<in> {?a..<?a + fresh}"
      using f by (auto simp: new_def image_iff intro!: bexI [of _ "nat (x - ?a)"])
  qed
  have below: "slot_ids ent \<union> set ?free = {0..<?a}" "slot_ids ent \<inter> set ?free = {}" "distinct ?free" using O by simp_all
  have disj: "set new \<inter> ({0..<?a}) = {}" using news by auto
  have dn: "distinct new" by (simp add: new_def distinct_map inj_on_def)
  have all: "slot_ids ent \<union> (set new \<union> set old) \<union> set (take keep ?free) = {0..<?a + fresh}"
  proof -
    have "slot_ids ent \<union> (set new \<union> set old) \<union> set (take keep ?free) = (slot_ids ent \<union> set ?free) \<union> set new"
      using split(1) by blast
    also have "\<dots> = {0..<?a + fresh}" unfolding below(1) news using O f by auto
    finally show ?thesis .
  qed
  have D: "set new \<inter> slot_ids ent = {}" "set old \<inter> slot_ids ent = {}" "set new \<inter> set (take keep ?free) = {}" "set new \<inter> set old = {}"
    using disj below(1,2) split(1) by blast+
  have eq: "om_allocate_blocks n m = Inr (?blocks, m\<lparr>om_num_allocated := ?a + fresh, om_free_list := take keep ?free\<rparr>)"
    using f by (simp add: om_allocate_blocks_def Let_def fresh_def [symmetric] keep_def [symmetric] old_def)
  have len: "length ?blocks = n" using f by (simp add: old_def keep_def)
  have dist: "distinct (new @ old)" using dn below(3) D(4) by (simp add: old_def)
  have ref: "\<forall>b \<in> set ?blocks. bs_ref_cnt b = -1" by auto
  have free: "slot_ids ent \<inter> set (take keep ?free) = {}" using below(2) split(1) by blast
  have s1: "slot_ids ent \<inter> set (new @ old) = {}" using D(1,2) by auto
  have s2: "set (new @ old) \<inter> set (take keep ?free) = {}" using D(3) split(2) by auto
  have s3: "slot_ids ent \<union> (set (new @ old) \<union> set (take keep ?free)) = {0..<?a + fresh}" unfolding set_append using all by blast
  have a: "0 \<le> ?a" using O by simp
  define m' where "m' = m\<lparr>om_num_allocated := ?a + fresh, om_free_list := take keep ?free\<rparr>"
  have m': "om_num_allocated m' = ?a + fresh" "om_free_list m' = take keep ?free" "om_num_blocks m' = om_num_blocks m"
    "om_policy m' = om_policy m" "om_events m' = om_events m" by (simp_all add: m'_def)
  have "fresh_slots ent m ?blocks m'"
    unfolding fresh_slots_def ids m'
    by (intro conjI dist ref s1 s2 s3 free distinct_take [OF below(3)] refl f(3) add_nonneg_nonneg [OF a f(1)])
  then show ?thesis using eq [folded m'_def] len by blast
qed

text \<open>Entering the new blocks under keys that were absent.\<close>

definition with_entries :: "(offload_key \<times> block_status) list \<Rightarrow> (offload_key \<Rightarrow> block_status option) \<Rightarrow> offload_key \<Rightarrow> block_status option" where
  "with_entries kbs ent k = (case map_of kbs k of Some b \<Rightarrow> Some b | None \<Rightarrow> ent k)"

lemma slots_insert:
  assumes fr: "fresh_slots ent m (map snd kbs) m'" and fin: "finite (dom ent)" "inj_on (\<lambda>k. bs_block_id (the (ent k))) (dom ent)"
    and n: "om_num_blocks m \<le> 2 ^ 63" and keys: "distinct (map fst kbs)" "fst ` set kbs \<inter> dom ent = {}"
  shows "slots_ok (with_entries kbs ent) m'"
proof -
  let ?ent = "with_entries kbs ent" and ?f = "\<lambda>k. bs_block_id (the (ent k))" and ?g = "\<lambda>k. bs_block_id (the (with_entries kbs ent k))"
  note F = fr [unfolded fresh_slots_def]
  have new: "?ent k = Some b" if "(k, b) \<in> set kbs" for k b using that keys(1) by (simp add: with_entries_def)
  have old: "?ent k = ent k" if "k \<in> dom ent" for k
  proof -
    have "map_of kbs k = None" using that keys(2) by (auto simp: map_of_eq_None_iff)
    then show ?thesis by (simp add: with_entries_def)
  qed
  have dom: "dom ?ent = dom ent \<union> fst ` set kbs"
    by (auto simp: with_entries_def dom_def map_of_eq_None_iff split: option.splits dest: map_of_SomeD)
  have gnew: "?g (fst e) = bs_block_id (snd e)" if "e \<in> set kbs" for e using new that by (cases e) simp
  have im1: "?g ` dom ent = slot_ids ent" unfolding slot_ids_def using old by (intro image_cong) auto
  have im2: "?g ` fst ` set kbs = set (map bs_block_id (map snd kbs))"
    unfolding image_image set_map using gnew by (intro image_cong) auto
  have ids: "slot_ids ?ent = slot_ids ent \<union> set (map bs_block_id (map snd kbs))"
    unfolding slot_ids_def [of ?ent] dom image_Un im1 im2 ..
  have inj1: "inj_on ?g (dom ent)" using fin(2) old by (simp add: inj_on_def)
  have inj2: "inj_on ?g (fst ` set kbs)"
  proof (rule inj_onI)
    fix x y assume x: "x \<in> fst ` set kbs" and y: "y \<in> fst ` set kbs" and eq: "?g x = ?g y"
    obtain i j where i: "i < length kbs" "x = fst (kbs ! i)" and j: "j < length kbs" "y = fst (kbs ! j)"
      using x y by (auto simp: in_set_conv_nth)
    then have "map bs_block_id (map snd kbs) ! i = map bs_block_id (map snd kbs) ! j"
      using eq gnew [of "kbs ! i"] gnew [of "kbs ! j"] by simp
    then have "i = j" using F i(1) j(1) nth_eq_iff_index_eq [of "map bs_block_id (map snd kbs)" i j] by simp
    then show "x = y" using i j by simp
  qed
  have "?g ` dom ent \<inter> ?g ` fst ` set kbs = {}" unfolding im1 im2 using F by blast
  then have inj: "inj_on ?g (dom ?ent)" unfolding dom using inj1 inj2 by (auto simp: inj_on_Un)
  have u: "slot_ids ?ent \<union> set (om_free_list m') = {0..<om_num_allocated m'}" unfolding ids using F by (simp only: Un_assoc)
  have i: "slot_ids ?ent \<inter> set (om_free_list m') = {}" unfolding ids using F by blast
  have "finite (dom ?ent)" unfolding dom using fin(1) by simp
  then show ?thesis unfolding slots_ok_def using F n inj u i by simp
qed

text \<open>The effect of a successful \<^verbatim>\<open>prepare_store\<close> on the stored blocks.\<close>

definition store_ok ::
  "(offload_key \<Rightarrow> block_status option) \<Rightarrow> offload_key list \<Rightarrow> prepare_store_output \<Rightarrow> (offload_key \<Rightarrow> block_status option) \<Rightarrow> bool" where
  "store_ok ent keys out ent' \<longleftrightarrow>
     po_keys_to_store out = filter (\<lambda>k. ent k = None) keys
     \<and> length (po_block_ids out) = length (po_keys_to_store out) \<and> distinct (po_block_ids out)
     \<and> (\<forall>k \<in> set (po_evicted_keys out). k \<notin> set keys \<and> (\<exists>b. ent k = Some b \<and> bs_ref_cnt b = 0))
     \<and> (\<forall>i < length (po_keys_to_store out).
          ent' (po_keys_to_store out ! i) = Some \<lparr>bs_ref_cnt = -1, bs_block_id = po_block_ids out ! i\<rparr>)
     \<and> (\<forall>k. k \<notin> set (po_keys_to_store out) \<longrightarrow> ent' k = (if k \<in> set (po_evicted_keys out) then None else ent k))"

text \<open>The effect of \<^verbatim>\<open>complete_store\<close> on the stored blocks.\<close>

definition made_ready :: "offload_key list \<Rightarrow> (offload_key \<Rightarrow> block_status option) \<Rightarrow> offload_key \<Rightarrow> block_status option" where
  "made_ready keys ent k = map_option (\<lambda>b. if k \<in> set keys \<and> \<not> bs_is_ready b then b\<lparr>bs_ref_cnt := 0\<rparr> else b) (ent k)"

text \<open>The effect of \<^verbatim>\<open>prepare_load\<close> and \<^verbatim>\<open>complete_load\<close>: the reference counts of the keys change by \<open>d\<close>.\<close>

definition counted :: "int \<Rightarrow> offload_key list \<Rightarrow> (offload_key \<Rightarrow> block_status option) \<Rightarrow> offload_key \<Rightarrow> block_status option" where
  "counted d keys ent k = map_option (\<lambda>b. if k \<in> set keys then b\<lparr>bs_ref_cnt := bs_ref_cnt b + d\<rparr> else b) (ent k)"

context cache_policy
begin

lemma insert_all:
  assumes "inv p" "distinct (map fst kbs)" "\<forall>k \<in> fst ` set kbs. entries p k = None"
  shows "inv (fold (\<lambda>(k, b). cp_insert ops k b) kbs p)
    \<and> entries (fold (\<lambda>(k, b). cp_insert ops k b) kbs p) = with_entries kbs (entries p)"
  using assms
proof (induction kbs arbitrary: p)
  case (Cons e kbs)
  obtain k b where e: "e = (k, b)" by fastforce
  let ?p = "cp_insert ops k b p"
  have P: "inv ?p" "entries ?p = (entries p)(k \<mapsto> b)" using insert_law [OF Cons.prems(1), of k b] Cons.prems(3) e by auto
  have fresh: "\<forall>x \<in> fst ` set kbs. entries ?p x = None" using Cons.prems(2,3) e P(2) by auto
  have k: "map_of kbs k = None" using Cons.prems(2) e by (simp add: map_of_eq_None_iff)
  have "inv (fold (\<lambda>(k, b). cp_insert ops k b) kbs ?p)"
    "entries (fold (\<lambda>(k, b). cp_insert ops k b) kbs ?p) = with_entries kbs (entries ?p)"
    using Cons.IH [OF P(1) _ fresh] Cons.prems(2) by simp_all
  moreover have "with_entries kbs (entries ?p) = with_entries (e # kbs) (entries p)"
    using k e P(2) by (auto simp: with_entries_def fun_eq_iff split: option.split)
  ultimately show ?case using e by simp
qed (simp add: with_entries_def fun_eq_iff)

lemma prepare_store_law:
  assumes inv: "inv (om_policy m)" and ok: "slots_ok (entries (om_policy m)) m" and keys: "distinct keys"
  defines "need \<equiv> filter (\<lambda>k. entries (om_policy m) k = None) keys"
  shows "\<exists>res m'. om_prepare_store ops keys m = Inr (res, m') \<and> (case res of
      None \<Rightarrow> m' = m \<and> int (length need) > om_get_num_free_blocks m
        \<and> fst (cp_evict ops (int (length need) - om_get_num_free_blocks m) keys (om_policy m)) = None
    | Some out \<Rightarrow> inv (om_policy m') \<and> slots_ok (entries (om_policy m')) m' \<and> om_num_blocks m' = om_num_blocks m
        \<and> store_ok (entries (om_policy m)) keys out (entries (om_policy m')))"
proof -
  let ?p = "om_policy m" and ?ent = "entries (om_policy m)" and ?n = "int (length need) - om_get_num_free_blocks m"
  have get: "filter (\<lambda>k. cp_get ops ?p k = None) keys = need" by (simp add: need_def get_law)
  have dn: "distinct need" using keys by (simp add: need_def)
  show ?thesis
  proof (cases "need = []")
    case True
    have eq: "om_prepare_store ops keys m = Inr (Some \<lparr>po_keys_to_store = [], po_block_ids = [], po_evicted_keys = []\<rparr>, m)"
      by (simp add: om_prepare_store_def get True)
    have "store_ok ?ent keys \<lparr>po_keys_to_store = [], po_block_ids = [], po_evicted_keys = []\<rparr> ?ent"
      using True by (simp add: store_ok_def need_def)
    then have "inv ?p \<and> slots_ok ?ent m \<and> om_num_blocks m = om_num_blocks m
        \<and> store_ok ?ent keys \<lparr>po_keys_to_store = [], po_block_ids = [], po_evicted_keys = []\<rparr> ?ent" using inv ok by simp
    then show ?thesis unfolding eq by (intro exI [of _ "Some \<lparr>po_keys_to_store = [], po_block_ids = [], po_evicted_keys = []\<rparr>"]
        exI [of _ m]) simp
  next
    case False
    obtain r p1 where ev: "(if ?n > 0 then cp_evict ops ?n keys ?p else (Some [], ?p)) = (r, p1)" by fastforce
    show ?thesis
    proof (cases r)
      case None
      then have n: "?n > 0" "cp_evict ops ?n keys ?p = (None, p1)" using ev by (auto split: if_splits)
      have "p1 = ?p" using evict_law [OF inv _ n(2)] n(1) by simp
      then have "om_prepare_store ops keys m = Inr (None, m)"
        using False ev None by (simp add: om_prepare_store_def get Let_def)
      then show ?thesis using n by auto
    next
      case (Some out)
      have E: "inv p1" "evict_ok ?ent (entries p1) (nat ?n) keys out"
      proof -
        have "inv p1 \<and> evict_ok ?ent (entries p1) (nat ?n) keys out"
        proof (cases "?n > 0")
          case True
          then have "cp_evict ops ?n keys ?p = (Some out, p1)" using ev Some by simp
          then show ?thesis using evict_law [OF inv, of ?n keys "Some out" p1] True by simp
        next
          case le: False
          then show ?thesis using ev Some inv by (auto simp: evict_ok_def)
        qed
        then show "inv p1" "evict_ok ?ent (entries p1) (nat ?n) keys out" by simp_all
      qed
      let ?m1 = "m\<lparr>om_policy := p1, om_free_list := om_free_list m @ map (bs_block_id \<circ> snd) out\<rparr>"
      have fold: "fold (\<lambda>(k, b). om_free_block b) xs q = q\<lparr>om_free_list := om_free_list q @ map (bs_block_id \<circ> snd) xs\<rparr>"
        for xs :: "(offload_key \<times> block_status) list" and q :: "'a offloading_manager"
        by (induction xs arbitrary: q) (auto simp: om_free_block_def)
      define m2 where "m2 = emit True (map fst out) ?m1"
      have m2: "om_free_list m2 = om_free_list m @ map (bs_block_id \<circ> snd) out" "om_num_blocks m2 = om_num_blocks m"
        "om_num_allocated m2 = om_num_allocated m" "om_policy m2 = p1" by (simp_all add: m2_def emit_def)
      have ok2: "slots_ok (entries p1) m2" using slots_evict [OF ok E(2)] m2 by (simp add: slots_ok_def)
      have "length out = nat ?n" using E(2) by (simp add: evict_ok_def)
      then have room: "int (length need) \<le> om_get_num_free_blocks m2"
        using m2 by (simp add: om_get_num_free_blocks_def split: nat_diff_split)
      obtain blocks m3 where A: "om_allocate_blocks (length need) m2 = Inr (blocks, m3)" "length blocks = length need"
        "fresh_slots (entries p1) m2 blocks m3" using allocate_blocks_law [OF ok2 room] by blast
      define kbs where "kbs = zip need blocks"
      have kb: "map fst kbs = need" "map snd kbs = blocks" using A(2) by (simp_all add: kbs_def)
      have abs: "entries p1 k = None" if "k \<in> set need" for k
        using that E(2) by (simp add: need_def evict_ok_def)
      have fstk: "fst ` set kbs = set need" using kb(1) by (metis set_map)
      define p4 where "p4 = fold (\<lambda>(k, b). cp_insert ops k b) kbs p1"
      have P4: "inv p4" "entries p4 = with_entries kbs (entries p1)"
        using insert_all [OF E(1), of kbs] dn kb(1) abs fstk unfolding p4_def by auto
      have m3: "om_policy m3 = p1" "om_num_blocks m3 = om_num_blocks m" using A(3) m2 by (simp_all add: fresh_slots_def)
      have O2: "finite (dom (entries p1))" "inj_on (\<lambda>k. bs_block_id (the (entries p1 k))) (dom (entries p1))" "om_num_blocks m2 \<le> 2 ^ 63"
        using ok2 by (simp_all add: slots_ok_def)
      have "slots_ok (with_entries kbs (entries p1)) m3"
        by (rule slots_insert [OF _ O2]) (use A(3) kb dn fstk abs in auto)
      then have ok4: "slots_ok (entries p4) (m3\<lparr>om_policy := p4\<rparr>)" by (simp add: P4(2) slots_ok_def)
      let ?out = "\<lparr>po_keys_to_store = need, po_block_ids = map bs_block_id blocks, po_evicted_keys = map fst out\<rparr>"
      have res: "om_prepare_store ops keys m = Inr (Some ?out, m3\<lparr>om_policy := p4\<rparr>)"
        using False ev Some A(1,2) m3(1) by (simp add: om_prepare_store_def get Let_def fold m2_def kbs_def p4_def)
      have stored: "entries p4 (need ! i) = Some \<lparr>bs_ref_cnt = -1, bs_block_id = map bs_block_id blocks ! i\<rparr>" if i: "i < length need" for i
      proof -
        have "(need ! i, blocks ! i) \<in> set kbs" using i A(2) by (auto simp: kbs_def in_set_conv_nth intro!: exI [of _ i])
        then have "map_of kbs (need ! i) = Some (blocks ! i)" using dn kb(1) by simp
        moreover have "bs_ref_cnt (blocks ! i) = -1" using A(2,3) i by (simp add: fresh_slots_def)
        ultimately show ?thesis using i A(2) by (simp add: P4(2) with_entries_def)
      qed
      have rest: "entries p4 k = (if k \<in> set (map fst out) then None else ?ent k)" if "k \<notin> set need" for k
      proof -
        have "map_of kbs k = None" using that fstk by (simp add: map_of_eq_None_iff)
        then show ?thesis using E(2) by (simp add: P4(2) with_entries_def evict_ok_def)
      qed
      have evd: "k \<notin> set keys \<and> (\<exists>b. ?ent k = Some b \<and> bs_ref_cnt b = 0)" if "k \<in> set (map fst out)" for k
        using that E(2) by (auto simp: evict_ok_def)
      have "distinct (map bs_block_id blocks)" using A(3) by (simp add: fresh_slots_def)
      then have "store_ok ?ent keys ?out (entries p4)"
        unfolding store_ok_def need_def [symmetric] using A(2) stored rest evd by simp
      then show ?thesis unfolding res using P4(1) ok4 m3(2)
        by (intro exI [of _ "Some ?out"] exI [of _ "m3\<lparr>om_policy := p4\<rparr>"]) simp
    qed
  qed
qed

lemma set_ref_law:
  fixes n :: int
  assumes inv: "inv (om_policy m)" and ok: "slots_ok (entries (om_policy m)) m" and k: "entries (om_policy m) k = Some b"
  defines "m' \<equiv> m\<lparr>om_policy := cp_set ops k (b\<lparr>bs_ref_cnt := n\<rparr>) (om_policy m)\<rparr>"
  shows "inv (om_policy m')" "slots_ok (entries (om_policy m')) m'"
    "entries (om_policy m') = (entries (om_policy m))(k \<mapsto> b\<lparr>bs_ref_cnt := n\<rparr>)"
proof -
  have s: "inv (om_policy m')" "entries (om_policy m') = (entries (om_policy m))(k \<mapsto> b\<lparr>bs_ref_cnt := n\<rparr>)"
    using set_law [OF inv, of k] k by (simp_all add: m'_def)
  then show "inv (om_policy m')" "entries (om_policy m') = (entries (om_policy m))(k \<mapsto> b\<lparr>bs_ref_cnt := n\<rparr>)" by simp_all
  have id: "bs_block_id (the (entries (om_policy m') x)) = bs_block_id (the (entries (om_policy m) x))" for x
    unfolding s(2) using k by simp
  have d: "dom (entries (om_policy m')) = dom (entries (om_policy m))" unfolding s(2) using k by auto
  show "slots_ok (entries (om_policy m')) m'" using ok unfolding slots_ok_def slot_ids_def id d by (simp add: m'_def)
qed

lemma store_done_law:
  assumes "inv (om_policy m)" "slots_ok (entries (om_policy m)) m" "fold (om_store_done ops) keys (acc, m) = (stored, m')"
  shows "inv (om_policy m') \<and> slots_ok (entries (om_policy m')) m'
    \<and> entries (om_policy m') = made_ready keys (entries (om_policy m)) \<and> om_num_blocks m' = om_num_blocks m"
  using assms
proof (induction keys arbitrary: acc m)
  case Nil
  then show ?case by (simp add: made_ready_def option.map_ident)
next
  case (Cons k keys)
  let ?e = "entries (om_policy m)"
  show ?case
  proof (cases "\<exists>b. ?e k = Some b \<and> \<not> bs_is_ready b")
    case False
    then have "om_store_done ops k (acc, m) = (acc, m)"
      by (cases "?e k") (auto simp: om_store_done_def get_law)
    then have F: "fold (om_store_done ops) keys (acc, m) = (stored, m')" using Cons.prems(3) by simp
    have eq: "made_ready (k # keys) ?e = made_ready keys ?e"
      using False by (auto simp: made_ready_def fun_eq_iff intro!: option.map_cong0)
    show ?thesis unfolding eq by (rule Cons.IH [OF Cons.prems(1,2) F])
  next
    case True
    then obtain b where b: "?e k = Some b" "\<not> bs_is_ready b" by blast
    let ?m = "m\<lparr>om_policy := cp_set ops k (b\<lparr>bs_ref_cnt := 0\<rparr>) (om_policy m)\<rparr>"
    note S = set_ref_law [OF Cons.prems(1,2) b(1), of 0]
    have z: "c_int32 0 = 0" by (simp add: c_int32_def)
    have "om_store_done ops k (acc, m) = (acc @ [k], ?m)" using b z by (simp add: om_store_done_def get_law)
    then have F: "fold (om_store_done ops) keys (acc @ [k], ?m) = (stored, m')" using Cons.prems(3) by simp
    have eq: "made_ready (k # keys) ?e = made_ready keys (entries (om_policy ?m))"
      unfolding S(3) using b by (auto simp: made_ready_def fun_eq_iff bs_is_ready_def intro!: option.map_cong0)
    have n: "om_num_blocks m = om_num_blocks ?m" by simp
    show ?thesis unfolding eq n by (rule Cons.IH [OF S(1,2) F])
  qed
qed

text \<open>A completed store makes every given block that is stored loadable.\<close>

lemma complete_store_entries:
  assumes "inv (om_policy m)" "slots_ok (entries (om_policy m)) m"
  shows "\<exists>m'. om_complete_store ops keys True m = Inr m' \<and> inv (om_policy m') \<and> slots_ok (entries (om_policy m')) m'
    \<and> entries (om_policy m') = made_ready keys (entries (om_policy m))"
proof -
  obtain stored m1 where f: "fold (om_store_done ops) keys ([], m) = (stored, m1)" by fastforce
  note L = store_done_law [OF assms f]
  let ?m = "emit False stored m1"
  have e: "om_policy ?m = om_policy m1" "om_free_list ?m = om_free_list m1" "om_num_allocated ?m = om_num_allocated m1"
    "om_num_blocks ?m = om_num_blocks m1" by (simp_all add: emit_def)
  have "slots_ok (entries (om_policy m1)) m1" using L by blast
  then have "slots_ok (entries (om_policy ?m)) ?m" unfolding slots_ok_def e .
  moreover have "om_complete_store ops keys True m = Inr ?m" by (simp add: om_complete_store_def f)
  ultimately show ?thesis using L e(1) by (intro exI [of _ ?m]) simp
qed

text \<open>A failed store gives the slots of the given unfinished blocks back.\<close>

lemma failed_store_law:
  assumes "inv (om_policy m)" "slots_ok (entries (om_policy m)) m"
  shows "\<exists>m'. om_complete_store ops keys False m = Inr m' \<and> inv (om_policy m') \<and> slots_ok (entries (om_policy m')) m'
    \<and> (\<forall>k. entries (om_policy m') k = (if k \<in> set keys \<and> \<not> om_lookup ops m k then None else entries (om_policy m) k))
    \<and> om_num_blocks m' = om_num_blocks m"
  using assms
proof (induction keys arbitrary: m)
  case Nil
  then show ?case by (simp add: om_complete_store_def)
next
  case (Cons k keys)
  let ?e = "entries (om_policy m)"
  show ?case
  proof (cases "\<exists>b. ?e k = Some b \<and> \<not> bs_is_ready b")
    case False
    then have one: "om_store_failed ops k m = Inr m" by (cases "?e k") (auto simp: om_store_failed_def get_law)
    have "?e k = None \<or> om_lookup ops m k" using False by (cases "?e k") (auto simp: om_lookup_def get_law)
    then show ?thesis using Cons.IH [OF Cons.prems] one by (auto simp: om_complete_store_def)
  next
    case True
    then obtain b where b: "?e k = Some b" "\<not> bs_is_ready b" by blast
    obtain p where p: "cp_remove ops k (om_policy m) = Inr p" "inv p" "entries p = ?e(k := None)"
      using remove_law [OF Cons.prems(1), of k] b by auto
    let ?m = "om_free_block b (m\<lparr>om_policy := p\<rparr>)"
    have one: "om_store_failed ops k m = Inr ?m" using b p by (simp add: om_store_failed_def get_law)
    have m: "om_policy ?m = p" "om_free_list ?m = om_free_list m @ [bs_block_id b]" "om_num_blocks ?m = om_num_blocks m"
      "om_num_allocated ?m = om_num_allocated m" by (simp_all add: om_free_block_def)
    have "slots_ok (entries (om_policy ?m)) ?m"
    proof -
      have "slots_ok (entries p) (m\<lparr>om_free_list := om_free_list m @ [bs_block_id b]\<rparr>)"
        using slots_release [OF Cons.prems(2) b(1)] p(3) by simp
      then show ?thesis by (simp add: slots_ok_def m)
    qed
    then obtain m' where M: "om_complete_store ops keys False ?m = Inr m'" "inv (om_policy m')" "slots_ok (entries (om_policy m')) m'"
      "\<And>x. entries (om_policy m') x = (if x \<in> set keys \<and> \<not> om_lookup ops ?m x then None else entries p x)" "om_num_blocks m' = om_num_blocks m"
      using Cons.IH [of ?m] p(2) m by auto
    have look: "om_lookup ops ?m x = om_lookup ops m x" if "x \<noteq> k" for x
      using that by (simp add: om_lookup_def get_law m p(3))
    have nk: "\<not> om_lookup ops m k" using b by (simp add: om_lookup_def get_law)
    have "entries (om_policy m') x = (if x \<in> set (k # keys) \<and> \<not> om_lookup ops m x then None else ?e x)" for x
      using M(4) [of x] look [of x] nk p(3) by (cases "x = k") auto
    then show ?thesis using M one by (auto simp: om_complete_store_def)
  qed
qed

text \<open>Loading: the counts rise by one per key, so the blocks are protected, and fall back afterwards.\<close>

lemma prepare_load_law:
  assumes "inv (om_policy m)" "slots_ok (entries (om_policy m)) m" "distinct keys"
    and "\<forall>k \<in> set keys. \<exists>b. entries (om_policy m) k = Some b \<and> 0 \<le> bs_ref_cnt b \<and> bs_ref_cnt b < 2 ^ 31 - 1"
  shows "\<exists>m'. om_prepare_load ops keys m = Inr (map (\<lambda>k. bs_block_id (the (entries (om_policy m) k))) keys, m')
    \<and> inv (om_policy m') \<and> slots_ok (entries (om_policy m')) m' \<and> om_num_blocks m' = om_num_blocks m
    \<and> entries (om_policy m') = counted 1 keys (entries (om_policy m))"
  using assms
proof (induction keys arbitrary: m)
  case Nil
  then show ?case by (simp add: counted_def option.map_ident fun_eq_iff)
next
  case (Cons k keys)
  let ?e = "entries (om_policy m)"
  obtain b where b: "?e k = Some b" "0 \<le> bs_ref_cnt b" "bs_ref_cnt b < 2 ^ 31 - 1" using Cons.prems(4) by auto
  have c: "c_int32 (bs_ref_cnt b + 1) = bs_ref_cnt b + 1" using b by (intro c_int32_id) auto
  let ?m = "m\<lparr>om_policy := cp_set ops k (b\<lparr>bs_ref_cnt := bs_ref_cnt b + 1\<rparr>) (om_policy m)\<rparr>"
  note S = set_ref_law [OF Cons.prems(1,2) b(1), of "bs_ref_cnt b + 1"]
  have k: "k \<notin> set keys" using Cons.prems(3) by simp
  have other: "entries (om_policy ?m) x = ?e x" if "x \<noteq> k" for x using S(3) that by simp
  have "\<forall>x \<in> set keys. \<exists>b. entries (om_policy ?m) x = Some b \<and> 0 \<le> bs_ref_cnt b \<and> bs_ref_cnt b < 2 ^ 31 - 1"
    using Cons.prems(4) k other by (metis list.set_intros(2))
  then obtain m' where L: "om_prepare_load ops keys ?m = Inr (map (\<lambda>x. bs_block_id (the (entries (om_policy ?m) x))) keys, m')"
    "inv (om_policy m')" "slots_ok (entries (om_policy m')) m'" "om_num_blocks m' = om_num_blocks ?m"
    "entries (om_policy m') = counted 1 keys (entries (om_policy ?m))"
    using Cons.IH [OF S(1,2)] Cons.prems(3) by auto
  have ids: "map (\<lambda>x. bs_block_id (the (entries (om_policy ?m) x))) keys = map (\<lambda>x. bs_block_id (the (?e x))) keys"
    using k other by (intro map_cong refl) metis
  have "om_prepare_load ops (k # keys) m = Inr (map (\<lambda>x. bs_block_id (the (?e x))) (k # keys), m')"
    using b c L(1) unfolding ids by (simp add: get_law bs_is_ready_def)
  moreover have "counted 1 keys (entries (om_policy ?m)) = counted 1 (k # keys) ?e"
    unfolding S(3) using b(1) k by (auto simp: counted_def fun_eq_iff intro!: option.map_cong0)
  ultimately show ?case using L(2-5) by (intro exI [of _ m']) simp
qed

lemma complete_load_law:
  assumes "inv (om_policy m)" "slots_ok (entries (om_policy m)) m" "distinct keys"
    and "\<forall>k \<in> set keys. \<exists>b. entries (om_policy m) k = Some b \<and> 0 < bs_ref_cnt b \<and> bs_ref_cnt b < 2 ^ 31"
  shows "\<exists>m'. om_complete_load ops keys m = Inr m' \<and> inv (om_policy m') \<and> slots_ok (entries (om_policy m')) m'
    \<and> entries (om_policy m') = counted (-1) keys (entries (om_policy m))"
  using assms
proof (induction keys arbitrary: m)
  case Nil
  then show ?case by (simp add: om_complete_load_def counted_def option.map_ident fun_eq_iff)
next
  case (Cons k keys)
  let ?e = "entries (om_policy m)"
  obtain b where b: "?e k = Some b" "0 < bs_ref_cnt b" "bs_ref_cnt b < 2 ^ 31" using Cons.prems(4) by auto
  have c: "c_int32 (bs_ref_cnt b - 1) = bs_ref_cnt b - 1" using b by (intro c_int32_id) auto
  let ?m = "m\<lparr>om_policy := cp_set ops k (b\<lparr>bs_ref_cnt := bs_ref_cnt b - 1\<rparr>) (om_policy m)\<rparr>"
  note S = set_ref_law [OF Cons.prems(1,2) b(1), of "bs_ref_cnt b - 1"]
  have k: "k \<notin> set keys" using Cons.prems(3) by simp
  have other: "entries (om_policy ?m) x = ?e x" if "x \<noteq> k" for x using S(3) that by simp
  have "\<forall>x \<in> set keys. \<exists>b. entries (om_policy ?m) x = Some b \<and> 0 < bs_ref_cnt b \<and> bs_ref_cnt b < 2 ^ 31"
    using Cons.prems(4) k other by (metis list.set_intros(2))
  then obtain m' where L: "om_complete_load ops keys ?m = Inr m'" "inv (om_policy m')" "slots_ok (entries (om_policy m')) m'"
    "entries (om_policy m') = counted (-1) keys (entries (om_policy ?m))"
    using Cons.IH [OF S(1,2)] Cons.prems(3) by auto
  have "om_complete_load_one ops k m = Inr ?m" using b c by (simp add: om_complete_load_one_def get_law)
  moreover have "counted (-1) keys (entries (om_policy ?m)) = counted (-1) (k # keys) ?e"
    unfolding S(3) using b(1) k by (auto simp: counted_def fun_eq_iff intro!: option.map_cong0)
  ultimately show ?case using L by (intro exI [of _ m']) (simp add: om_complete_load_def)
qed

end

end
