(* ===== verification/Offloading_Properties.thy ===== *)
theory Offloading_Properties
  imports Offloading_Manager
begin

text \<open>
  Properties of the CPU offloading manager with its two policies and of the reuse filter. The laws come from the
  locale \<open>cache_policy\<close> through its interpretations \<open>lru\<close> and \<open>arc\<close>.
\<close>

section \<open>Storing under LRU\<close>

lemma lru_get [simp]: "cp_get lru_ops d k = map_of d k" "cp_evict lru_ops = lru_evict"
  by (simp_all add: lru_ops_def)

text \<open>
  C23: \<^verbatim>\<open>prepare_store\<close> of the LRU manager on distinct keys never raises. It refuses, without any effect, exactly when the
  missing slots outnumber the blocks that are neither in use nor among the given keys. Otherwise it
  stores exactly the absent keys, each in a slot of its own and not yet readable, after evicting the
  least recently used such blocks, as many as are missing; all other blocks stay.
\<close>

theorem lru_prepare_store_correct:
  assumes wf: "od_wf (om_policy m)" and ok: "slots_ok (map_of (om_policy m)) m" and keys: "distinct keys"
  defines "need \<equiv> filter (\<lambda>k. map_of (om_policy m) k = None) keys"
  defines "missing \<equiv> int (length need) - om_get_num_free_blocks m"
  shows "case om_prepare_store lru_ops keys m of
      Inl e \<Rightarrow> False
    | Inr (None, m') \<Rightarrow> m' = m \<and> 0 < missing \<and> int (length (filter (evictable keys) (om_policy m))) < missing
    | Inr (Some out, m') \<Rightarrow> od_wf (om_policy m') \<and> slots_ok (map_of (om_policy m')) m'
        \<and> missing \<le> int (length (filter (evictable keys) (om_policy m)))
        \<and> store_ok (map_of (om_policy m)) keys out (map_of (om_policy m'))
        \<and> (need \<noteq> [] \<longrightarrow> po_evicted_keys out = map fst (take (nat missing) (filter (evictable keys) (om_policy m))))"
proof -
  obtain res m' where R: "om_prepare_store lru_ops keys m = Inr (res, m')"
    and L: "case res of None \<Rightarrow> m' = m \<and> int (length need) > om_get_num_free_blocks m
        \<and> fst (lru_evict (int (length need) - om_get_num_free_blocks m) keys (om_policy m)) = None
      | Some out \<Rightarrow> od_wf (om_policy m') \<and> slots_ok (map_of (om_policy m')) m' \<and> om_num_blocks m' = om_num_blocks m
        \<and> store_ok (map_of (om_policy m)) keys out (map_of (om_policy m'))"
    using lru.prepare_store_law [OF wf ok keys, unfolded lru_get] unfolding need_def by blast
  obtain r p where ev: "lru_evict missing keys (om_policy m) = (r, p)" by fastforce
  show ?thesis
  proof (cases res)
    case None
    then have "0 < missing" "r = None" using L ev by (simp_all add: missing_def)
    then show ?thesis using R L None lru_evict_ok [OF wf _ ev] by simp
  next
    case (Some out)
    have E: "missing \<le> int (length (filter (evictable keys) (om_policy m)))
      \<and> (need \<noteq> [] \<longrightarrow> po_evicted_keys out = map fst (take (nat missing) (filter (evictable keys) (om_policy m))))"
    proof (cases "0 < missing")
      case pos: True
      then have ne: "need \<noteq> []" using ok by (auto simp: missing_def om_get_num_free_blocks_def slots_ok_def)
      have def: "filter (\<lambda>k. cp_get lru_ops (om_policy m) k = None) keys = need" by (simp add: need_def)
      have rs: "r \<noteq> None"
      proof
        assume "r = None"
        then have "om_prepare_store lru_ops keys m = Inr (None, m\<lparr>om_policy := p\<rparr>)"
          using pos ne ev unfolding om_prepare_store_def def by (simp add: missing_def Let_def)
        then show False using R Some by simp
      qed
      then obtain cand where c: "r = Some cand" by blast
      have K: "cand = take (nat missing) (filter (evictable keys) (om_policy m))" "length cand = nat missing"
        using lru_evict_ok [OF wf _ ev] pos c by (auto simp: evict_ok_def)
      have "po_evicted_keys out = map fst cand"
        using R Some pos ne ev c unfolding om_prepare_store_def def
        by (auto simp: missing_def [symmetric] Let_def split: if_splits)
      then show ?thesis using K pos by auto
    next
      case False
      have def: "filter (\<lambda>k. cp_get lru_ops (om_policy m) k = None) keys = need" by (simp add: need_def)
      have "need \<noteq> [] \<longrightarrow> po_evicted_keys out = []"
        using R Some False unfolding om_prepare_store_def def
        by (auto simp: missing_def [symmetric] Let_def)
      then show ?thesis using False by auto
    qed
    then show ?thesis using R L Some by simp
  qed
qed

definition example_offload :: "lru offloading_manager" where
  "example_offload = \<lparr>om_num_blocks = 2, om_num_allocated = 2, om_free_list = [], om_events = Some [],
     om_policy = [([1], \<lparr>bs_ref_cnt = 0, bs_block_id = 1\<rparr>), ([2], \<lparr>bs_ref_cnt = 1, bs_block_id = 0\<rparr>)]\<rparr>"

lemma example_offload_ok: "od_wf (om_policy example_offload)" "slots_ok (map_of (om_policy example_offload)) example_offload"
proof -
  have d: "dom (map_of (om_policy example_offload)) = {[1], [2]}" by (auto simp: example_offload_def dom_def)
  have ids: "slot_ids (map_of (om_policy example_offload)) = {0, 1}"
    unfolding slot_ids_def d by (simp add: example_offload_def insert_commute)
  have r: "{0, 1} = {0..<2 :: int}" by auto
  show "od_wf (om_policy example_offload)" by (simp add: example_offload_def)
  show "slots_ok (map_of (om_policy example_offload)) example_offload"
    unfolding slots_ok_def ids d using r by (simp add: example_offload_def inj_on_def)
qed

theorem lru_prepare_store_correct_witness:
  "case om_prepare_store lru_ops [[2], [3]] example_offload of
     Inr (Some out, m') \<Rightarrow> po_keys_to_store out = [[3]] \<and> po_block_ids out = [1] \<and> po_evicted_keys out = [[1]]
       \<and> slots_ok (map_of (om_policy m')) m'
   | _ \<Rightarrow> False"
proof -
  have "case om_prepare_store lru_ops [[2], [3]] example_offload of
      Inr (Some out, m') \<Rightarrow> po_keys_to_store out = [[3]] \<and> po_block_ids out = [1] \<and> po_evicted_keys out = [[1]] | _ \<Rightarrow> False"
    by code_simp
  moreover have "distinct [[2], [3] :: offload_key]" by simp
  from lru_prepare_store_correct [OF example_offload_ok this]
  have "case om_prepare_store lru_ops [[2], [3]] example_offload of
      Inr (Some out, m') \<Rightarrow> slots_ok (map_of (om_policy m')) m' | _ \<Rightarrow> True"
    by (auto split: sum.splits option.splits)
  ultimately show ?thesis by (auto split: sum.splits option.splits)
qed

section \<open>Store and load under ARC\<close>

lemma slot_ids_distinct:
  assumes "slots_ok ent m" "distinct keys" "set keys \<subseteq> dom ent"
  shows "distinct (map (\<lambda>k. bs_block_id (the (ent k))) keys)"
  using assms by (simp add: distinct_map slots_ok_def) (meson inj_on_subset)

lemma counted_inverse: "counted (-1) keys (counted 1 keys ent) = ent"
proof
  fix k show "counted (-1) keys (counted 1 keys ent) k = ent k" by (cases "ent k") (simp_all add: counted_def)
qed

lemma store_ok_in_use: "store_ok ent keys out ent' \<Longrightarrow> ent k = Some b \<Longrightarrow> bs_ref_cnt b \<noteq> 0 \<Longrightarrow> ent' k = ent k"
  unfolding store_ok_def by fastforce

lemma arc_store_effect:
  assumes "arc_inv (om_policy m)" "slots_ok (arc_entries (om_policy m)) m" "distinct keys"
  shows "\<exists>res m'. om_prepare_store (arc_ops rnd) keys m = Inr (res, m') \<and> (res = None \<longrightarrow> m' = m)
    \<and> (\<forall>out. res = Some out \<longrightarrow> arc_inv (om_policy m') \<and> slots_ok (arc_entries (om_policy m')) m'
        \<and> store_ok (arc_entries (om_policy m)) keys out (arc_entries (om_policy m')))"
proof -
  obtain res m' where R: "om_prepare_store (arc_ops rnd) keys m = Inr (res, m')" and L: "case res of
      None \<Rightarrow> m' = m \<and> int (length (filter (\<lambda>k. arc_entries (om_policy m) k = None) keys)) > om_get_num_free_blocks m
        \<and> fst (cp_evict (arc_ops rnd) (int (length (filter (\<lambda>k. arc_entries (om_policy m) k = None) keys))
            - om_get_num_free_blocks m) keys (om_policy m)) = None
    | Some out \<Rightarrow> arc_inv (om_policy m') \<and> slots_ok (arc_entries (om_policy m')) m' \<and> om_num_blocks m' = om_num_blocks m
        \<and> store_ok (arc_entries (om_policy m)) keys out (arc_entries (om_policy m'))"
    using arc.prepare_store_law [OF assms, of rnd] by blast
  show ?thesis using R L by (cases res) auto
qed

text \<open>
  C24: a store and load cycle under ARC. \<^verbatim>\<open>prepare_store\<close> on distinct keys never raises, and a refusal changes nothing.
  After an accepted and completed store every given key can be looked up; \<^verbatim>\<open>prepare_load\<close> then returns distinct slots and
  protects the blocks: no later \<^verbatim>\<open>prepare_store\<close>, whatever its keys, evicts or changes one of them;
  \<^verbatim>\<open>complete_load\<close> restores the reference counts.
\<close>

theorem arc_store_load_cycle:
  assumes inv: "arc_inv (om_policy m)" and ok: "slots_ok (arc_entries (om_policy m)) m" and keys: "distinct keys"
    and refs: "\<forall>k b. arc_entries (om_policy m) k = Some b \<longrightarrow> -1 \<le> bs_ref_cnt b \<and> bs_ref_cnt b < 2 ^ 31 - 1"
  shows "case om_prepare_store (arc_ops rnd) keys m of
      Inl e \<Rightarrow> False
    | Inr (None, m1) \<Rightarrow> m1 = m
    | Inr (Some out, m1) \<Rightarrow> \<exists>m2 ids m3 m5.
        om_complete_store (arc_ops rnd) keys True m1 = Inr m2 \<and> (\<forall>k \<in> set keys. om_lookup (arc_ops rnd) m2 k)
        \<and> om_prepare_load (arc_ops rnd) keys m2 = Inr (ids, m3) \<and> length ids = length keys \<and> distinct ids
        \<and> (\<forall>keys'. distinct keys' \<longrightarrow> (\<exists>res m4. om_prepare_store (arc_ops rnd) keys' m3 = Inr (res, m4)
             \<and> (\<forall>k \<in> set keys. arc_entries (om_policy m4) k = arc_entries (om_policy m3) k)))
        \<and> om_complete_load (arc_ops rnd) keys m3 = Inr m5 \<and> arc_entries (om_policy m5) = arc_entries (om_policy m2)"
proof -
  let ?ops = "arc_ops rnd" and ?e = "\<lambda>m. arc_entries (om_policy m)"
  obtain res m1 where R: "om_prepare_store ?ops keys m = Inr (res, m1)"
    and L: "res = None \<longrightarrow> m1 = m"
      "\<forall>out. res = Some out \<longrightarrow> arc_inv (om_policy m1) \<and> slots_ok (?e m1) m1 \<and> store_ok (?e m) keys out (?e m1)"
    using arc_store_effect [OF inv ok keys, of rnd] by blast
  show ?thesis
  proof (cases res)
    case None
    then show ?thesis using R L by simp
  next
    case (Some out)
    then have S: "arc_inv (om_policy m1)" "slots_ok (?e m1) m1" "store_ok (?e m) keys out (?e m1)" using L by simp_all
    have r1: "-1 \<le> bs_ref_cnt b \<and> bs_ref_cnt b < 2 ^ 31 - 1" if "?e m1 k = Some b" for k b
    proof (cases "k \<in> set (po_keys_to_store out)")
      case True
      then obtain i where "i < length (po_keys_to_store out)" "k = po_keys_to_store out ! i" by (auto simp: in_set_conv_nth)
      then have "?e m1 k = Some \<lparr>bs_ref_cnt = -1, bs_block_id = po_block_ids out ! i\<rparr>" using S(3) unfolding store_ok_def by blast
      then show ?thesis using that by simp
    next
      case False
      then have "?e m k = Some b" using that S(3) by (auto simp: store_ok_def split: if_splits)
      then show ?thesis using refs by blast
    qed
    have present: "?e m1 k \<noteq> None" if "k \<in> set keys" for k
    proof (cases "k \<in> set (po_keys_to_store out)")
      case True
      then show ?thesis using S(3) by (auto simp: store_ok_def in_set_conv_nth)
    next
      case False
      then have "?e m1 k = ?e m k" "?e m k \<noteq> None" using that S(3) by (auto simp: store_ok_def)
      then show ?thesis by simp
    qed
    obtain m2 where C: "om_complete_store ?ops keys True m1 = Inr m2" "arc_inv (om_policy m2)" "slots_ok (?e m2) m2"
      "?e m2 = made_ready keys (?e m1)"
      using arc.complete_store_entries [OF S(1,2), of rnd keys] by blast
    have e2: "\<exists>b. ?e m2 k = Some b \<and> 0 \<le> bs_ref_cnt b \<and> bs_ref_cnt b < 2 ^ 31 - 1" if "k \<in> set keys" for k
    proof -
      note k = that
      obtain b where "?e m1 k = Some b" using present [OF k] by blast
      then show ?thesis using r1 [of k b] k by (simp add: C(4) made_ready_def bs_is_ready_def)
    qed
    have look: "om_lookup ?ops m2 k" if "k \<in> set keys" for k
      using e2 [OF that] by (auto simp: om_lookup_def arc.get_law bs_is_ready_def)
    let ?ids = "map (\<lambda>k. bs_block_id (the (?e m2 k))) keys"
    have bound: "\<forall>k \<in> set keys. \<exists>b. ?e m2 k = Some b \<and> 0 \<le> bs_ref_cnt b \<and> bs_ref_cnt b < 2 ^ 31 - 1" using e2 by blast
    obtain m3 where P: "om_prepare_load ?ops keys m2 = Inr (?ids, m3)" "arc_inv (om_policy m3)" "slots_ok (?e m3) m3"
      "?e m3 = counted 1 keys (?e m2)"
      using arc.prepare_load_law [OF C(2,3) keys bound, of rnd] by blast
    have "set keys \<subseteq> dom (?e m2)" using e2 by blast
    then have d: "distinct ?ids" by (rule slot_ids_distinct [OF C(3) keys])
    have e3: "\<exists>b. ?e m3 k = Some b \<and> 0 < bs_ref_cnt b \<and> bs_ref_cnt b < 2 ^ 31" if "k \<in> set keys" for k
      using e2 [OF that] that by (auto simp: P(4) counted_def)
    have keep: "\<exists>res m4. om_prepare_store ?ops keys' m3 = Inr (res, m4) \<and> (\<forall>k \<in> set keys. ?e m4 k = ?e m3 k)" if new: "distinct keys'" for keys'
    proof -
      obtain res m4 where Q: "om_prepare_store ?ops keys' m3 = Inr (res, m4)"
        "res = None \<longrightarrow> m4 = m3" "\<forall>out. res = Some out \<longrightarrow> store_ok (?e m3) keys' out (?e m4)"
        using arc_store_effect [OF P(2,3) new, of rnd] by blast
      have "?e m4 k = ?e m3 k" if "k \<in> set keys" for k
        using e3 [OF that] Q(2,3) store_ok_in_use by (cases res) (simp, fastforce)
      then show ?thesis using Q(1) by blast
    qed
    have pos: "\<forall>k \<in> set keys. \<exists>b. ?e m3 k = Some b \<and> 0 < bs_ref_cnt b \<and> bs_ref_cnt b < 2 ^ 31" using e3 by blast
    obtain m5 where K: "om_complete_load ?ops keys m3 = Inr m5" "?e m5 = counted (-1) keys (?e m3)"
      using arc.complete_load_law [OF P(2,3) keys pos, of rnd] by blast
    have "?e m5 = ?e m2" by (simp add: K(2) P(4) counted_inverse)
    then show ?thesis using R Some C(1) look P(1) d keep K(1) by (auto intro!: exI)
  qed
qed

lemma slots_ok_init: "0 \<le> n \<Longrightarrow> n \<le> 2 ^ 63 \<Longrightarrow> slots_ok Map.empty (om_init n e p)"
  by (simp add: slots_ok_def om_init_def slot_ids_def)

lemma arc_init_entries: "arc_entries (arc_init n) = Map.empty"
  by (simp add: fun_eq_iff arc_entries_def arc_get_def arc_init_def)

theorem arc_store_load_cycle_witness:
  "case om_prepare_store (arc_ops (\<lambda>x. x)) [[1], [2]] (om_init 2 True (arc_init 2)) of
     Inr (Some out, m1) \<Rightarrow> po_block_ids out = [0, 1]
       \<and> (case om_complete_store (arc_ops (\<lambda>x. x)) [[1], [2]] True m1 of
            Inr m2 \<Rightarrow> om_lookup (arc_ops (\<lambda>x. x)) m2 [1] \<and> om_lookup (arc_ops (\<lambda>x. x)) m2 [2] | _ \<Rightarrow> False)
   | _ \<Rightarrow> False"
proof -
  let ?m = "om_init 2 True (arc_init 2)"
  have p: "om_policy ?m = arc_init 2" by (simp add: om_init_def)
  have "arc_inv (om_policy ?m)" unfolding p by (rule arc_init_inv) simp
  moreover have "slots_ok (arc_entries (om_policy ?m)) ?m" unfolding p arc_init_entries by (rule slots_ok_init) simp_all
  moreover have "distinct [[1], [2] :: offload_key]" by simp
  moreover have "\<forall>k b. arc_entries (om_policy ?m) k = Some b \<longrightarrow> -1 \<le> bs_ref_cnt b \<and> bs_ref_cnt b < 2 ^ 31 - 1"
    unfolding p arc_init_entries by simp
  ultimately have T: "case om_prepare_store (arc_ops (\<lambda>x. x)) [[1], [2]] ?m of
      Inl e \<Rightarrow> False | Inr (None, m1) \<Rightarrow> True
    | Inr (Some out, m1) \<Rightarrow> \<exists>m2. om_complete_store (arc_ops (\<lambda>x. x)) [[1], [2]] True m1 = Inr m2
        \<and> om_lookup (arc_ops (\<lambda>x. x)) m2 [1] \<and> om_lookup (arc_ops (\<lambda>x. x)) m2 [2]"
    using arc_store_load_cycle [of ?m "[[1], [2]]" "\<lambda>x. x"] by (fastforce split: sum.splits option.splits)
  have "case om_prepare_store (arc_ops (\<lambda>x. x)) [[1], [2]] ?m of
      Inr (Some out, m1) \<Rightarrow> po_block_ids out = [0, 1] | _ \<Rightarrow> False" by code_simp
  then show ?thesis using T by (auto split: sum.splits option.splits)
qed

section \<open>Repeated keys\<close>

text \<open>
  \<^verbatim>\<open>prepare_store\<close> does not remove duplicates: a key given twice takes two slots, and the first one is never freed. The store
  below fails and is completed with \<^verbatim>\<open>success=False\<close>, after which the cache is empty and still lacks a slot.
\<close>

lemma repeated_key_leaks_slot:
  "case om_prepare_store lru_ops [[1], [1]] (om_init 2 False []) of
     Inr (Some out, m1) \<Rightarrow> po_keys_to_store out = [[1], [1]]
       \<and> (case om_complete_store lru_ops [[1], [1]] False m1 of
            Inr m2 \<Rightarrow> om_policy m2 = [] \<and> om_get_num_free_blocks m2 = 1 | _ \<Rightarrow> False)
   | _ \<Rightarrow> False"
  by code_simp

section \<open>The reuse filter\<close>

definition fr_lookups :: "'p cache_policy_ops \<Rightarrow> offload_key list \<Rightarrow> 'p filter_reused \<Rightarrow> 'p filter_reused" where
  "fr_lookups ops ks fr = fold (\<lambda>k fr. snd (fr_lookup ops k fr)) ks fr"

text \<open>
  The tracker after the lookups \<open>ks\<close>: at most \<open>max_tracker_size\<close> keys, no count above the number of lookups, and
  exact counts as long as the tracker never overflowed.
\<close>

definition tracker_ok :: "offload_key list \<Rightarrow> 'p filter_reused \<Rightarrow> bool" where
  "tracker_ok ks fr \<longleftrightarrow> od_wf (fr_counts fr) \<and> 1 \<le> fr_max_tracker_size fr \<and> int (length (fr_counts fr)) \<le> fr_max_tracker_size fr
     \<and> (\<forall>k n. map_of (fr_counts fr) k = Some n \<longrightarrow> n \<le> int (count_list ks k))
     \<and> (int (card (set ks)) \<le> fr_max_tracker_size fr \<longrightarrow>
          (\<forall>k. map_of (fr_counts fr) k = (if k \<in> set ks then Some (int (count_list ks k)) else None)))"

lemma length_update_wf:
  assumes "od_wf d"
  shows "length (AList.update k v d) = (if map_of d k = None then Suc (length d) else length d)"
proof -
  have "length (AList.update k v d) = card (insert k (fst ` set d))"
    using od_wf_update [OF assms, of k v] by (metis distinct_card image_set keys_update length_map)
  moreover have "length d = card (fst ` set d)" using assms by (metis distinct_card image_set length_map)
  ultimately show ?thesis by (simp add: map_of_eq_None_iff card_insert_if)
qed

lemma map_of_tl: "od_wf d \<Longrightarrow> map_of (tl d) k = Some v \<Longrightarrow> map_of d k = Some v"
  by (cases d) (auto simp: image_iff dest: map_of_SomeD)

lemma fr_record_ok:
  assumes "tracker_ok ks fr"
  shows "tracker_ok (ks @ [k]) (fr_record k fr)"
proof (cases "map_of (fr_counts fr) k")
  case (Some n)
  have "card (set ks) \<le> card (insert k (set ks))" by (simp add: card_insert_le)
  then show ?thesis using assms Some unfolding tracker_ok_def fr_record_def
    by (auto simp: Let_def length_update_wf simp del: map_of_eq_Some_iff split: if_splits) (metis option.distinct(1) option.inject)
next
  case None
  note T = assms [unfolded tracker_ok_def]
  let ?d = "fr_counts fr"
  let ?d' = "if int (length ?d) \<ge> fr_max_tracker_size fr then tl ?d else ?d"
  have w: "od_wf ?d'" "int (length ?d') < fr_max_tracker_size fr" using T by (auto simp: map_tl distinct_tl)
  have sub: "map_of ?d x = Some n" if "map_of ?d' x = Some n" for x n
    using that T map_of_tl [of ?d x n] by (simp del: map_of_eq_Some_iff split: if_splits)
  have k: "map_of ?d' k = None" using sub [of k] None by (cases "map_of ?d' k") auto
  have eq: "fr_counts (fr_record k fr) = AList.update k 1 ?d'" using None by (simp add: fr_record_def Let_def)
  have exact: "?d' = ?d \<and> k \<notin> set ks" if few: "int (card (set (ks @ [k]))) \<le> fr_max_tracker_size fr"
  proof -
    have le: "int (card (set ks)) \<le> fr_max_tracker_size fr"
      using few card_insert_le [of "set ks" k] by simp
    then have m: "\<forall>x. map_of ?d x = (if x \<in> set ks then Some (int (count_list ks x)) else None)" using T by blast
    then have kn: "k \<notin> set ks" using None by (metis option.distinct(1))
    have "dom (map_of ?d) = set ks" using m unfolding dom_def by auto
    then have "fst ` set ?d = set ks" by (simp add: dom_map_of_conv_image_fst)
    then have "length ?d = card (set ks)" using T by (metis distinct_card image_set length_map)
    then show ?thesis using few kn by simp
  qed
  have "n \<le> int (count_list (ks @ [k]) x)" if h: "map_of (fr_counts (fr_record k fr)) x = Some n" for x n
  proof (cases "x = k")
    case True
    then show ?thesis using h by (simp add: eq)
  next
    case False
    then have "map_of ?d' x = Some n" using h unfolding eq by simp
    then show ?thesis using sub [of x n] T by fastforce
  qed
  moreover have "map_of (fr_counts (fr_record k fr)) x = (if x \<in> set (ks @ [k]) then Some (int (count_list (ks @ [k]) x)) else None)"
    if few: "int (card (set (ks @ [k]))) \<le> fr_max_tracker_size fr" for x
  proof -
    have "int (card (set ks)) \<le> fr_max_tracker_size fr" using few card_insert_le [of "set ks" k] by simp
    then have m: "map_of ?d x = (if x \<in> set ks then Some (int (count_list ks x)) else None)" using T by blast
    have z: "count_list ks k = 0" using exact [OF few] by (simp add: count_list_0_iff)
    show ?thesis unfolding eq using exact [OF few] m z by simp
  qed
  moreover have "od_wf (fr_counts (fr_record k fr))" "int (length (fr_counts (fr_record k fr))) \<le> fr_max_tracker_size fr"
    unfolding eq using w k by (simp_all add: length_update_wf)
  moreover have "fr_max_tracker_size (fr_record k fr) = fr_max_tracker_size fr" by (simp add: fr_record_def Let_def)
  ultimately show ?thesis using T unfolding tracker_ok_def by simp
qed

lemma fr_lookups_ok: "tracker_ok pre fr \<Longrightarrow> tracker_ok (pre @ ks) (fr_lookups ops ks fr)
    \<and> fr_store_threshold (fr_lookups ops ks fr) = fr_store_threshold fr \<and> fr_backing (fr_lookups ops ks fr) = fr_backing fr
    \<and> fr_max_tracker_size (fr_lookups ops ks fr) = fr_max_tracker_size fr"
proof (induction ks arbitrary: pre fr)
  case (Cons k ks)
  have "fr_store_threshold (fr_record k fr) = fr_store_threshold fr" "fr_backing (fr_record k fr) = fr_backing fr"
    "fr_max_tracker_size (fr_record k fr) = fr_max_tracker_size fr"
    by (simp_all add: fr_record_def Let_def)
  then show ?case using Cons.IH [OF fr_record_ok [OF Cons.prems]] by (simp add: fr_lookups_def fr_lookup_def Let_def)
qed (simp add: fr_lookups_def)

lemma prepare_store_subset:
  assumes "om_prepare_store ops el m = Inr (Some out, m')" "k \<in> set (po_keys_to_store out)"
  shows "k \<in> set el"
proof -
  have "po_keys_to_store out = filter (\<lambda>k. cp_get ops (om_policy m) k = None) el"
  proof (cases "filter (\<lambda>k. cp_get ops (om_policy m) k = None) el")
    case Nil
    then show ?thesis using assms(1) by (auto simp: om_prepare_store_def)
  next
    case (Cons x xs)
    then show ?thesis using assms(1) unfolding om_prepare_store_def Let_def Cons
      by (auto split: prod.splits option.splits)
  qed
  then show ?thesis using assms(2) by simp
qed

text \<open>
  C25: the reuse filter after any sequence of lookups, over any policy. The tracker never holds more than
  \<^verbatim>\<open>max_tracker_size\<close> keys; every key that \<^verbatim>\<open>prepare_store\<close> stores was looked up at least \<^verbatim>\<open>store_threshold\<close> times; and
  as long as no more than \<^verbatim>\<open>max_tracker_size\<close> different keys were looked up, \<^verbatim>\<open>prepare_store\<close> hands exactly the keys with that many
  lookups to the backing manager.
\<close>

theorem reuse_filter_correct:
  fixes ops :: "'p cache_policy_ops" and ks :: "offload_key list"
  assumes init: "fr_init m threshold max_size = Inr fr0"
  defines "fr \<equiv> fr_lookups ops ks fr0"
  shows "int (length (fr_counts fr)) \<le> max_size
    \<and> (\<forall>out fr'. fr_prepare_store ops keys fr = Inr (Some out, fr') \<longrightarrow>
         (\<forall>k \<in> set (po_keys_to_store out). k \<in> set keys \<and> threshold \<le> int (count_list ks k)))
    \<and> (int (card (set ks)) \<le> max_size \<longrightarrow>
         fr_prepare_store ops keys fr =
           res_bind (om_prepare_store ops (filter (\<lambda>k. threshold \<le> int (count_list ks k)) keys) m)
             (\<lambda>(res, m'). Inr (res, fr\<lparr>fr_backing := m'\<rparr>)))"
proof -
  have i: "threshold \<ge> 2" "max_size \<ge> 1" "fr_backing fr0 = m" "fr_store_threshold fr0 = threshold" "fr_max_tracker_size fr0 = max_size"
    "tracker_ok [] fr0"
    using init by (auto simp: fr_init_def tracker_ok_def)
  have T: "tracker_ok ks fr" "fr_store_threshold fr = threshold" "fr_backing fr = m" "fr_max_tracker_size fr = max_size"
    using fr_lookups_ok [OF i(6), of ks ops] i(3,4,5) by (simp_all add: fr_def)
  let ?cnt = "\<lambda>k. case map_of (fr_counts fr) k of None \<Rightarrow> 0 | Some n \<Rightarrow> n"
  let ?el = "filter (\<lambda>k. threshold \<le> ?cnt k) keys"
  have P: "fr_prepare_store ops keys fr = res_bind (om_prepare_store ops ?el m) (\<lambda>(res, m'). Inr (res, fr\<lparr>fr_backing := m'\<rparr>))"
    by (simp add: fr_prepare_store_def T Let_def)
  have cnt: "?cnt k \<le> int (count_list ks k)" for k
    using T(1) unfolding tracker_ok_def by (cases "map_of (fr_counts fr) k") (simp, fastforce simp del: map_of_eq_Some_iff)
  have st: "k \<in> set el" if "om_prepare_store ops el m = Inr (Some out, m')" "k \<in> set (po_keys_to_store out)" for el k out m'
    using that by (rule prepare_store_subset)
  have "k \<in> set keys \<and> threshold \<le> int (count_list ks k)"
    if h: "fr_prepare_store ops keys fr = Inr (Some out, fr')" "k \<in> set (po_keys_to_store out)" for out fr' k
  proof -
    obtain m' where "om_prepare_store ops ?el m = Inr (Some out, m')" using h(1) unfolding P by auto
    then have "k \<in> set ?el" using h(2) by (rule st)
    then show ?thesis using cnt [of k] by simp
  qed
  note store = this
  have exact: "?el = filter (\<lambda>k. threshold \<le> int (count_list ks k)) keys" if few: "int (card (set ks)) \<le> max_size"
  proof (rule filter_cong [OF refl])
    fix k
    have "map_of (fr_counts fr) k = (if k \<in> set ks then Some (int (count_list ks k)) else None)"
      using T(1,4) few unfolding tracker_ok_def by blast
    then show "(threshold \<le> ?cnt k) = (threshold \<le> int (count_list ks k))" by (simp add: count_list_0_iff)
  qed
  show ?thesis
  proof (intro conjI impI allI ballI)
    show "int (length (fr_counts fr)) \<le> max_size" using T by (simp add: tracker_ok_def)
    show "k \<in> set keys" "threshold \<le> int (count_list ks k)"
      if "fr_prepare_store ops keys fr = Inr (Some out, fr')" "k \<in> set (po_keys_to_store out)" for out fr' k
      using store [OF that] by simp_all
    show "fr_prepare_store ops keys fr = res_bind (om_prepare_store ops (filter (\<lambda>k. threshold \<le> int (count_list ks k)) keys) m)
        (\<lambda>(res, m'). Inr (res, fr\<lparr>fr_backing := m'\<rparr>))" if "int (card (set ks)) \<le> max_size"
      unfolding P exact [OF that] by (rule refl)
  qed
qed

theorem reuse_filter_correct_witness:
  "case fr_init (om_init 2 False []) 2 2 of
     Inr fr0 \<Rightarrow> (case fr_prepare_store lru_ops [[1], [2]] (fr_lookups lru_ops [[1], [2], [1]] fr0) of
         Inr (Some out, fr') \<Rightarrow> po_keys_to_store out = [[1]] \<and> 2 \<le> int (count_list [[1], [2], [1]] ([1] :: offload_key)) | _ \<Rightarrow> False)
   | Inl e \<Rightarrow> False"
proof -
  have "\<exists>fr0. fr_init (om_init 2 False ([] :: lru)) 2 2 = Inr fr0" by (simp add: fr_init_def)
  then obtain fr0 where i: "fr_init (om_init 2 False ([] :: lru)) 2 2 = Inr fr0" by blast
  have "case fr_init (om_init 2 False []) 2 2 of
     Inr fr0 \<Rightarrow> (case fr_prepare_store lru_ops [[1], [2]] (fr_lookups lru_ops [[1], [2], [1]] fr0) of
         Inr (Some out, fr') \<Rightarrow> po_keys_to_store out = [[1]] | _ \<Rightarrow> False)
   | Inl e \<Rightarrow> False" by code_simp
  then obtain out fr' where S: "fr_prepare_store lru_ops [[1], [2]] (fr_lookups lru_ops [[1], [2], [1]] fr0) = Inr (Some out, fr')"
    "po_keys_to_store out = [[1]]"
    unfolding i by (auto split: sum.splits option.splits)
  have "2 \<le> int (count_list [[1], [2], [1]] ([1] :: offload_key))"
    using reuse_filter_correct [OF i, of lru_ops "[[1], [2], [1]]" "[[1], [2]]"] S by auto
  then show ?thesis using i S by simp
qed

section \<open>Offload keys\<close>

lemma offload_key_roundtrip:
  assumes "0 \<le> g" "g < 2 ^ 32"
  shows "\<exists>k. make_offload_key h g = Inr k \<and> get_offload_block_hash k = h \<and> get_offload_group_idx k = nat g"
  using to_bytes_4_big_roundtrip [OF assms]
  by (auto simp: make_offload_key_def get_offload_block_hash_def get_offload_group_idx_def)

end
