(* ===== verification/Scheduler_State.thy ===== *)
theory Scheduler_State
  imports KV_Cache_Manager Request_Queue Sched_Utils Encoder_Scheduling
begin

text \<open>
  The state of \<^verbatim>\<open>Scheduler\<close> (src/vllm/vllm/v1/core/sched/scheduler.py) and the operations on it outside the scheduling step
  and the processing of the model output: preemption, the two waiting queues, streaming sessions, adding and finishing of
  requests, pausing and resets. Requests are mutable objects shared by the queues and the tables: a
  reference is a number and \<open>sd_store\<close> holds the objects. The KV connector, the grammar back end and the block hasher are
  parameters; timestamps, engine events and log messages are left out.
\<close>

section \<open>Parameters\<close>

record kv_connector_output =
  invalid_block_ids :: "int list"
  finished_recving :: "string list"
  finished_sending :: "string list"

text \<open>What a step hands to the workers (src/vllm/vllm/v1/core/sched/output.py).\<close>

record new_request_data =
  nr_req_id :: string
  nr_prompt_token_ids :: "int list option"
  nr_mm_features :: "mm_feature list"
  nr_sampling_params :: "sampling_params_data option"
  nr_pooling_params :: "pooling_params_data option"
  nr_block_ids :: "int list list"
  nr_num_computed_tokens :: int
  nr_lora_request :: "lora_request_data option"
  nr_prompt_embeds :: "bytes list option"
  nr_prefill_token_ids :: "int list option"

record cached_request_data =
  cr_req_ids :: "string list"
  cr_resumed_req_ids :: "string list"
  cr_new_token_ids :: "int list list"
  cr_all_token_ids :: "(string, int list) odict"
  cr_new_block_ids :: "int list list option list"
  cr_num_computed_tokens :: "int list"
  cr_num_output_tokens :: "int list"

record scheduler_output =
  so_scheduled_new_reqs :: "new_request_data list"
  so_scheduled_cached_reqs :: cached_request_data
  so_num_scheduled_tokens :: "(string, int) odict"
  so_total_num_scheduled_tokens :: int
  so_scheduled_spec_decode_tokens :: "(string, int list) odict"
  so_scheduled_encoder_inputs :: "(string, nat list) odict"
  so_num_common_prefix_blocks :: "nat list"
  so_finished_req_ids :: "string list"
  so_free_encoder_mm_hashes :: "string list"
  so_preempted_req_ids :: "string list"
  so_has_structured_output_requests :: bool
  so_pending_structured_output_tokens :: bool
  so_num_invalid_spec_tokens :: "(string, int) odict"
  so_new_block_ids_to_zero :: "int list option"

text \<open>
  What the scheduler asks of a \<^verbatim>\<open>KVConnectorBase_V1\<close> with internal state \<open>'c\<close>; \<open>cn_request_finished\<close> stands for
  \<^verbatim>\<open>request_finished\<close> and \<^verbatim>\<open>request_finished_all_groups\<close>.
\<close>

record 'c kv_connector =
  cn_get_num_new_matched_tokens :: "request \<Rightarrow> int \<Rightarrow> 'c \<Rightarrow> (int option \<times> bool) \<times> 'c"
  cn_update_state_after_alloc :: "request \<Rightarrow> kv_cache_blocks \<Rightarrow> int \<Rightarrow> 'c \<Rightarrow> 'c"
  cn_request_finished :: "request \<Rightarrow> int list list \<Rightarrow> 'c \<Rightarrow> bool \<times> 'c"
  cn_supports_hma :: bool
  cn_update_connector_output :: "kv_connector_output \<Rightarrow> 'c \<Rightarrow> 'c"
  cn_build_connector_meta :: "scheduler_output \<Rightarrow> 'c \<Rightarrow> 'c"
  cn_reset_cache :: "'c \<Rightarrow> bool option \<times> 'c"

record 'c sched_env =
  se_hash :: hash_env
  se_hasher :: "block_hasher option"
  se_grammar_ready :: "request \<Rightarrow> bool"
  se_should_advance :: "request \<Rightarrow> bool"
  se_accept_tokens :: "request \<Rightarrow> int list \<Rightarrow> bool"
  se_validate_tokens :: "request \<Rightarrow> int list \<Rightarrow> int list"
  se_connector :: "'c kv_connector option"

record sched_config =
  cf_policy :: scheduling_policy
  cf_max_num_running_reqs :: nat
  cf_max_num_scheduled_tokens :: int
  cf_max_model_len :: int
  cf_long_prefill_token_threshold :: int
  cf_enable_chunked_prefill :: bool
  cf_async_scheduling :: bool
  cf_use_pp :: bool
  cf_max_loras :: "nat option"
  cf_encoder :: encoder_sched_config
  cf_max_num_encoder_input_tokens :: int
  cf_use_eagle :: bool
  cf_num_spec_tokens :: nat
  cf_num_lookahead_tokens :: int
  cf_need_mamba_block_aligned_split :: bool
  cf_cache_block_size :: int
  cf_block_size :: int
  cf_reserve_full_isl :: bool
  cf_needs_kv_cache_zeroing :: bool
  cf_use_v2_model_runner :: bool
  cf_recompute_kv_load_failures :: bool

section \<open>State\<close>

datatype pause_state = UNPAUSED | PAUSED_NEW | PAUSED_ALL

record 'c scheduler =
  sd_store :: "nat \<Rightarrow> request"
  sd_requests :: "(string, nat) odict"
  sd_waiting :: "nat request_queue"
  sd_skipped :: "nat request_queue"
  sd_running :: "nat list"
  sd_finished_req_ids :: "string list"
  sd_finished_req_ids_dict :: "(int, string list) odict option"
  sd_num_streaming :: int
  sd_finished_recving :: "string list"
  sd_failed_recving :: "string list"
  sd_prev_step :: "string list"
  sd_prefill_stats :: "nat list"
  sd_kv :: kv_manager
  sd_enc :: encoder_manager
  sd_pause :: pause_state
  sd_connector :: 'c

definition scheduler_init :: "sched_config \<Rightarrow> bool \<Rightarrow> kv_manager \<Rightarrow> int \<Rightarrow> 'c \<Rightarrow> (nat \<Rightarrow> request) \<Rightarrow> 'c scheduler" where
  "scheduler_init cf finished_set kv enc_size con st =
     \<lparr>sd_store = st, sd_requests = [], sd_waiting = create_request_queue (cf_policy cf),
      sd_skipped = create_request_queue (cf_policy cf), sd_running = [], sd_finished_req_ids = [],
      sd_finished_req_ids_dict = (if finished_set then Some [] else None), sd_num_streaming = 0,
      sd_finished_recving = [], sd_failed_recving = [], sd_prev_step = [], sd_prefill_stats = [], sd_kv = kv,
      sd_enc = (if sc_is_encoder_decoder (cf_encoder cf) then EncoderDecoder (ed_init enc_size) else MultiModal (encoder_cache_init enc_size)),
      sd_pause = UNPAUSED, sd_connector = con\<rparr>"

definition set_request :: "nat \<Rightarrow> request \<Rightarrow> 'c scheduler \<Rightarrow> 'c scheduler" where
  "set_request i r s = s\<lparr>sd_store := (sd_store s)(i := r)\<rparr>"

definition upd_request :: "nat \<Rightarrow> (request \<Rightarrow> request) \<Rightarrow> 'c scheduler \<Rightarrow> 'c scheduler" where
  "upd_request i f s = set_request i (f (sd_store s i)) s"

abbreviation sd_lt :: "'c scheduler \<Rightarrow> nat \<Rightarrow> nat \<Rightarrow> bool" where
  "sd_lt s \<equiv> ref_lt (sd_store s)"

section \<open>Preemption\<close>

definition preempt_request :: "nat \<Rightarrow> 'c scheduler \<Rightarrow> 'c scheduler res" where
  "preempt_request i s =
     (let r = sd_store s i in
      guard (status r = RUNNING) AssertionError
      (res_bind (km_free (sd_kv s) r) (\<lambda>k.
       res_bind (em_free r (sd_enc s)) (\<lambda>e.
       let s1 = upd_request i (\<lambda>r. r\<lparr>status := PREEMPTED, num_computed_tokens := 0, spec_token_ids := [],
                  num_preemptions := num_preemptions r + 1\<rparr>) (s\<lparr>sd_kv := k, sd_enc := e\<rparr>) in
       Inr (s1\<lparr>sd_waiting := prepend_request (sd_lt s1) i (sd_waiting s1)\<rparr>)))))"

section \<open>The waiting queues\<close>

definition is_blocked_waiting_status :: "request_status \<Rightarrow> bool" where
  "is_blocked_waiting_status st =
     (st = WAITING_FOR_STRUCTURED_OUTPUT_GRAMMAR \<or> st = WAITING_FOR_REMOTE_KVS \<or> st = WAITING_FOR_STREAMING_REQ)"

definition enqueue_waiting_request :: "nat \<Rightarrow> 'c scheduler \<Rightarrow> 'c scheduler" where
  "enqueue_waiting_request i s =
     (if is_blocked_waiting_status (status (sd_store s i))
      then s\<lparr>sd_skipped := add_request (sd_lt s) i (sd_skipped s)\<rparr>
      else s\<lparr>sd_waiting := add_request (sd_lt s) i (sd_waiting s)\<rparr>)"

text \<open>Which of its two queues the scheduler looks at.\<close>

datatype waiting_queue_name = WaitingQ | SkippedQ

fun queue_of :: "waiting_queue_name \<Rightarrow> 'c scheduler \<Rightarrow> nat request_queue" where
  "queue_of WaitingQ s = sd_waiting s"
| "queue_of SkippedQ s = sd_skipped s"

fun set_queue :: "waiting_queue_name \<Rightarrow> nat request_queue \<Rightarrow> 'c scheduler \<Rightarrow> 'c scheduler" where
  "set_queue WaitingQ q s = s\<lparr>sd_waiting := q\<rparr>"
| "set_queue SkippedQ q s = s\<lparr>sd_skipped := q\<rparr>"

definition select_waiting_queue_for_scheduling :: "sched_config \<Rightarrow> 'c scheduler \<Rightarrow> waiting_queue_name option res" where
  "select_waiting_queue_for_scheduling cf s =
     (let w = queue_nonempty (sd_waiting s); k = queue_nonempty (sd_skipped s) in
      if cf_policy cf = FCFS
      then Inr (if k then Some SkippedQ else if w then Some WaitingQ else None)
      else if w \<and> k
      then res_bind (peek_request (sd_waiting s)) (\<lambda>a. res_bind (peek_request (sd_skipped s)) (\<lambda>b.
             Inr (Some (if sd_lt s a b then WaitingQ else SkippedQ))))
      else Inr (if w then Some WaitingQ else if k then Some SkippedQ else None))"

definition update_waiting_for_remote_kv :: "'c sched_env \<Rightarrow> nat \<Rightarrow> 'c scheduler \<Rightarrow> 'c scheduler res" where
  "update_waiting_for_remote_kv env i s =
     guard (se_connector env \<noteq> None) AssertionError
     (let r = sd_store s i; rid = request_id r in
      res_bind
        (if rid \<in> set (sd_failed_recving s)
         then res_bind
                (if num_computed_tokens r \<noteq> 0
                 then res_bind (km_cache_blocks (se_hash env) (sd_kv s) r (num_computed_tokens r)) (\<lambda>(k, r').
                        Inr (set_request i r' (s\<lparr>sd_kv := k\<rparr>)))
                 else res_bind (km_free (sd_kv s) r) (\<lambda>k. Inr (s\<lparr>sd_kv := k\<rparr>)))
                (\<lambda>s1. Inr (s1\<lparr>sd_failed_recving := removeAll rid (sd_failed_recving s1)\<rparr>))
         else res_bind (km_cache_blocks (se_hash env) (sd_kv s) r (num_computed_tokens r)) (\<lambda>(k, r').
                Inr (set_request i (if num_computed_tokens r' = int (num_tokens r')
                                    then r'\<lparr>num_computed_tokens := int (num_tokens r') - 1\<rparr> else r') (s\<lparr>sd_kv := k\<rparr>))))
        (\<lambda>s1. guard (rid \<in> set (sd_finished_recving s1)) KeyError
                (Inr (s1\<lparr>sd_finished_recving := removeAll rid (sd_finished_recving s1)\<rparr>))))"

definition try_promote_blocked_waiting_request :: "'c sched_env \<Rightarrow> nat \<Rightarrow> 'c scheduler \<Rightarrow> (bool \<times> 'c scheduler) res" where
  "try_promote_blocked_waiting_request env i s =
     (let r = sd_store s i in
      case status r of
        WAITING_FOR_REMOTE_KVS \<Rightarrow>
          if request_id r \<notin> set (sd_finished_recving s) then Inr (False, s)
          else res_bind (update_waiting_for_remote_kv env i s) (\<lambda>s1.
            Inr (True, upd_request i (\<lambda>r. r\<lparr>status := (if num_preemptions r \<noteq> 0 then PREEMPTED else WAITING)\<rparr>) s1))
      | WAITING_FOR_STRUCTURED_OUTPUT_GRAMMAR \<Rightarrow>
          if \<not> (structured_output_request r \<and> se_grammar_ready env r) then Inr (False, s)
          else Inr (True, upd_request i (\<lambda>r. r\<lparr>status := WAITING\<rparr>) s)
      | WAITING_FOR_STREAMING_REQ \<Rightarrow>
          guard (case streaming_queue r of None \<Rightarrow> True | Some q \<Rightarrow> q = []) AssertionError (Inr (False, s))
      | _ \<Rightarrow> Inl AssertionError)"

section \<open>Release\<close>

definition connector_finished :: "'c sched_env \<Rightarrow> request \<Rightarrow> 'c scheduler \<Rightarrow> (bool \<times> 'c scheduler) res" where
  "connector_finished env r s =
     (case se_connector env of
        None \<Rightarrow> Inr (False, s)
      | Some con \<Rightarrow>
          res_bind (km_remove_skipped_blocks (sd_kv s) (request_id r) (int (num_tokens r))) (\<lambda>k.
          let ids = (case km_get_block_ids k (request_id r) of None \<Rightarrow> [] | Some l \<Rightarrow> l) in
          guard (cn_supports_hma con \<or> num_kv_cache_groups k = 1) AssertionError
          (case cn_request_finished con r ids (sd_connector s) of (delay, c) \<Rightarrow>
             Inr (delay, s\<lparr>sd_kv := k, sd_connector := c\<rparr>))))"

text \<open>\<^verbatim>\<open>_free_blocks\<close>: the request's blocks go back to the pool and the scheduler forgets the request.\<close>

definition sched_free_blocks :: "nat \<Rightarrow> 'c scheduler \<Rightarrow> 'c scheduler res" where
  "sched_free_blocks i s =
     (let r = sd_store s i in
      guard (is_finished r) AssertionError
      (res_bind (km_free (sd_kv s) r) (\<lambda>k.
       guard (map_of (sd_requests s) (request_id r) \<noteq> None) KeyError
         (Inr (s\<lparr>sd_kv := k, sd_requests := AList.delete (request_id r) (sd_requests s)\<rparr>)))))"

definition free_request :: "'c sched_env \<Rightarrow> nat \<Rightarrow> bool \<Rightarrow> 'c scheduler \<Rightarrow> 'c scheduler res" where
  "free_request env i delay s =
     (let r = sd_store s i; rid = request_id r in
      guard (is_finished r) AssertionError
      (res_bind (connector_finished env r s) (\<lambda>(con_delay, s1).
       res_bind (em_free r (sd_enc s1)) (\<lambda>e.
       let s2 = s1\<lparr>sd_enc := e, sd_finished_req_ids := List.insert rid (sd_finished_req_ids s1),
                   sd_finished_req_ids_dict := map_option (\<lambda>d. AList.update (client_index r)
                      (List.insert rid (case map_of d (client_index r) of None \<Rightarrow> [] | Some l \<Rightarrow> l)) d)
                      (sd_finished_req_ids_dict s1)\<rparr> in
       if \<not> (delay \<or> con_delay) then sched_free_blocks i s2 else Inr s2))))"

section \<open>Streaming sessions\<close>

definition update_request_as_session :: "'c sched_env \<Rightarrow> nat \<Rightarrow> streaming_update \<Rightarrow> 'c scheduler \<Rightarrow> 'c scheduler res" where
  "update_request_as_session env i u s =
     (let r = sd_store s i; nc = nat (num_computed_tokens r);
          kept = py_slice (num_prompt_tokens r) nc (all_token_ids r);
          all1 = take nc (all_token_ids r);
          new_tokens = (case su_prompt_token_ids u of None \<Rightarrow> [] | Some l \<Rightarrow> l);
          shifted = map (\<lambda>f. f\<lparr>mm_offset := mm_offset f + length all1\<rparr>) (su_mm_features u) in
      case prompt_token_ids r of
        None \<Rightarrow> Inl AssertionError
      | Some p \<Rightarrow>
          let prompt = p @ kept @ new_tokens in
          res_bind (update_block_hashes (se_hasher env)
                      (r\<lparr>all_token_ids := all1 @ new_tokens, output_token_ids := [], prompt_token_ids := Some prompt,
                         mm_features := mm_features r @ shifted\<rparr>)) (\<lambda>r'.
            Inr (set_request i (r'\<lparr>num_prompt_tokens := length prompt, arrival_time := su_arrival_time u,
                                   sampling_params := su_sampling_params u, status := WAITING\<rparr>)
                   (s\<lparr>sd_num_streaming := sd_num_streaming s - (if status r = WAITING_FOR_STREAMING_REQ then 1 else 0)\<rparr>))))"

text \<open>The result says whether the request is finished.\<close>

definition handle_stopped_request :: "'c sched_env \<Rightarrow> nat \<Rightarrow> 'c scheduler \<Rightarrow> (bool \<times> 'c scheduler) res" where
  "handle_stopped_request env i s =
     (let r = sd_store s i in
      if \<not> resumable r then Inr (True, s)
      else case streaming_queue r of
        Some (None # us) \<Rightarrow> Inr (True, upd_request i (\<lambda>r. r\<lparr>streaming_queue := Some us\<rparr>) s)
      | Some (Some u # us) \<Rightarrow>
          res_bind (update_request_as_session env i u (upd_request i (\<lambda>r. r\<lparr>streaming_queue := Some us\<rparr>) s)) (\<lambda>s1.
            Inr (False, enqueue_waiting_request i s1))
      | _ \<Rightarrow>
          Inr (False, enqueue_waiting_request i
            ((upd_request i (\<lambda>r. r\<lparr>status := WAITING_FOR_STREAMING_REQ\<rparr>) s)\<lparr>sd_num_streaming := sd_num_streaming s + 1\<rparr>)))"

section \<open>Adding and finishing requests\<close>

definition finish_one :: "'c sched_env \<Rightarrow> request_status \<Rightarrow> nat \<Rightarrow> 'c scheduler \<Rightarrow> 'c scheduler res" where
  "finish_one env fs i s =
     (let r = sd_store s i; rid = request_id r; remote = (status r = WAITING_FOR_REMOTE_KVS);
          delay = (remote \<and> rid \<notin> set (sd_finished_recving s));
          s1 = (if remote then s\<lparr>sd_finished_recving := removeAll rid (sd_finished_recving s),
                                 sd_failed_recving := removeAll rid (sd_failed_recving s)\<rparr> else s) in
      free_request env i delay (upd_request i (\<lambda>r. r\<lparr>status := fs\<rparr>) s1))"

text \<open>The ids are those of the given set in the order of its iteration; \<open>None\<close> means all requests.\<close>

definition finish_requests ::
  "'c sched_env \<Rightarrow> string list option \<Rightarrow> request_status \<Rightarrow> 'c scheduler \<Rightarrow> ((string \<times> int) list \<times> 'c scheduler) res" where
  "finish_requests env ids fs s =
     guard (is_finished_status fs) AssertionError
     (let rids = (case ids of None \<Rightarrow> map fst (sd_requests s) | Some l \<Rightarrow> l);
          valid = filter (\<lambda>i. \<not> is_finished (sd_store s i)) (List.map_filter (map_of (sd_requests s)) rids);
          run = filter (\<lambda>i. status (sd_store s i) = RUNNING) valid;
          wait = filter (\<lambda>i. status (sd_store s i) \<noteq> RUNNING) valid;
          streaming = filter (\<lambda>i. status (sd_store s i) = WAITING_FOR_STREAMING_REQ) wait;
          s1 = s\<lparr>sd_num_streaming := sd_num_streaming s - int (length streaming)\<rparr>;
          s2 = (if run \<noteq> [] then s1\<lparr>sd_running := remove_all (sd_running s1) (remdups run)\<rparr> else s1);
          s3 = (if wait \<noteq> []
                then s2\<lparr>sd_waiting := remove_requests (sd_lt s2) wait (sd_waiting s2),
                        sd_skipped := remove_requests (sd_lt s2) wait (sd_skipped s2)\<rparr>
                else s2) in
      res_bind (fold_res (finish_one env fs) valid s3) (\<lambda>s4.
        Inr (map (\<lambda>i. (request_id (sd_store s4 i), client_index (sd_store s4 i))) valid, s4)))"

text \<open>\<open>r\<close> is the submitted object and \<open>i\<close> its reference.\<close>

definition sched_add_request :: "'c sched_env \<Rightarrow> nat \<Rightarrow> request \<Rightarrow> 'c scheduler \<Rightarrow> 'c scheduler res" where
  "sched_add_request env i r s =
     (case map_of (sd_requests s) (request_id r) of
        Some j \<Rightarrow>
          let u = streaming_update_from_request r; e = sd_store s j in
          if status e \<noteq> WAITING_FOR_STREAMING_REQ
          then (case streaming_queue e of
                  None \<Rightarrow> Inl AssertionError
                | Some q \<Rightarrow> Inr (set_request j (e\<lparr>streaming_queue := Some (q @ [u])\<rparr>) s))
          else (case u of
                  Some up \<Rightarrow> update_request_as_session env j up s
                | None \<Rightarrow> res_bind (finish_requests env (Some [request_id r]) FINISHED_ABORTED s) (\<lambda>(_, s1). Inr s1))
      | None \<Rightarrow>
          let r1 = (if resumable r then r\<lparr>streaming_queue := Some []\<rparr> else r);
              s1 = enqueue_waiting_request i (set_request i r1 s) in
          Inr (s1\<lparr>sd_requests := AList.update (request_id r) i (sd_requests s1),
                  sd_prefill_stats := List.insert i (sd_prefill_stats s1)\<rparr>))"

section \<open>Pausing, counting, resets\<close>

definition set_pause_state :: "pause_state \<Rightarrow> 'c scheduler \<Rightarrow> 'c scheduler" where
  "set_pause_state p s = s\<lparr>sd_pause := p\<rparr>"

definition get_request_counts :: "'c scheduler \<Rightarrow> nat \<times> nat" where
  "get_request_counts s = (length (sd_running s), queue_len (sd_waiting s) + queue_len (sd_skipped s))"

definition get_num_unfinished_requests :: "'c scheduler \<Rightarrow> int" where
  "get_num_unfinished_requests s =
     (case sd_pause s of
        PAUSED_ALL \<Rightarrow> 0
      | PAUSED_NEW \<Rightarrow> int (length (sd_running s))
      | UNPAUSED \<Rightarrow> int (queue_len (sd_waiting s)) + int (queue_len (sd_skipped s)) - sd_num_streaming s
                      + int (length (sd_running s)))"

definition has_finished_requests :: "'c scheduler \<Rightarrow> bool" where
  "has_finished_requests s = (length (sd_finished_req_ids s) > 0)"

definition reset_one_running :: "nat \<Rightarrow> 'c scheduler \<Rightarrow> 'c scheduler res" where
  "reset_one_running i s =
     res_bind (preempt_request i (s\<lparr>sd_running := butlast (sd_running s)\<rparr>)) (\<lambda>s1.
       Inr (upd_request i (\<lambda>r. r\<lparr>num_output_placeholders := 0, discard_latest_async_tokens := True\<rparr>) s1))"

definition reset_connector_cache :: "'c sched_env \<Rightarrow> 'c scheduler \<Rightarrow> bool \<times> 'c scheduler" where
  "reset_connector_cache env s =
     (case se_connector env of
        None \<Rightarrow> (False, s)
      | Some con \<Rightarrow> (case cn_reset_cache con (sd_connector s) of (res, c) \<Rightarrow> (res \<noteq> Some False, s\<lparr>sd_connector := c\<rparr>)))"

definition sched_reset_prefix_cache :: "'c sched_env \<Rightarrow> bool \<Rightarrow> bool \<Rightarrow> 'c scheduler \<Rightarrow> (bool \<times> 'c scheduler) res" where
  "sched_reset_prefix_cache env reset_running reset_connector s =
     res_bind
       (if reset_running
        then res_bind (fold_res reset_one_running (rev (sd_running s)) s) (\<lambda>s1. Inr (s1\<lparr>sd_prev_step := []\<rparr>))
        else Inr s) (\<lambda>s1.
     res_bind (km_reset_prefix_cache (sd_kv s1)) (\<lambda>(ok, k).
     let s2 = s1\<lparr>sd_kv := k\<rparr> in
     guard (\<not> (reset_running \<and> \<not> ok)) RuntimeError
     (if reset_connector
      then (case reset_connector_cache env s2 of (ok', s3) \<Rightarrow> Inr (ok' \<and> ok, s3))
      else Inr (ok, s2))))"

definition reset_encoder_cache :: "'c scheduler \<Rightarrow> 'c scheduler" where
  "reset_encoder_cache s = s\<lparr>sd_enc := em_reset (sd_enc s)\<rparr>"

end
