(* ===== verification/Scheduler_Loop.thy ===== *)
theory Scheduler_Loop
  imports Scheduler_State
begin

text \<open>
  One scheduling step: \<^verbatim>\<open>Scheduler.schedule\<close> (src/vllm/vllm/v1/core/sched/scheduler.py) with the loops over the running and
  the waiting requests, preemption, and the construction of the output (src/vllm/vllm/v1/core/sched/output.py). The result
  \<open>None\<close> stands for a step that does not return: the loops carry fuel, one unit per iteration, and the prefix
  cache search of a hybrid model is a fixpoint iteration. Scheduler_Running and Scheduler_Waiting show that the fuel is enough.
\<close>

section \<open>Local state of a step\<close>

record sched_step =
  st_new :: "nat list"
  st_resumed :: "nat list"
  st_running :: "nat list"
  st_preempted :: "nat list"
  st_new_blocks :: "(string, kv_cache_blocks) odict"
  st_tokens :: "(string, int) odict"
  st_budget :: int
  st_enc_inputs :: "(string, nat list) odict"
  st_enc_budget :: int
  st_spec :: "(string, int list) odict"
  st_index :: nat
  st_loras :: "int list"
  st_skipped :: "nat request_queue"

definition step_init :: "sched_config \<Rightarrow> 'c scheduler \<Rightarrow> sched_step" where
  "step_init cf s = \<lparr>st_new = [], st_resumed = [], st_running = [], st_preempted = [], st_new_blocks = [], st_tokens = [],
     st_budget = (if sd_pause s = PAUSED_ALL then 0 else cf_max_num_scheduled_tokens cf), st_enc_inputs = [],
     st_enc_budget = cf_max_num_encoder_input_tokens cf, st_spec = [], st_index = 0, st_loras = [],
     st_skipped = create_request_queue (cf_policy cf)\<rparr>"

section \<open>Number of tokens\<close>

definition mamba_block_aligned_split :: "sched_config \<Rightarrow> request \<Rightarrow> int \<Rightarrow> int \<Rightarrow> int \<Rightarrow> int res" where
  "mamba_block_aligned_split cf r num_new num_local num_external =
     guard (num_external = 0) AssertionError
     (let nc = num_computed_tokens r + num_local + num_external; bs = cf_cache_block_size cf; nt = int (num_tokens r) in
      if nc < max (int (num_prompt_tokens r)) (nt - 1)
      then let last0 = nt - nt mod bs;
               last = (if cf_use_eagle cf then max (last0 - bs) 0 else last0);
               after = nc + num_new in
           if after < last then Inr (num_new div bs * bs)
           else if nc < last \<and> last < after then Inr (last - nc)
           else Inr num_new
      else Inr num_new)"

definition running_tokens :: "sched_config \<Rightarrow> request \<Rightarrow> int \<Rightarrow> int" where
  "running_tokens cf r budget =
     (let n0 = int (num_tokens_with_spec r) + num_output_placeholders r - num_computed_tokens r;
          thr = cf_long_prefill_token_threshold cf;
          n1 = (if 0 < thr \<and> thr < n0 then thr else n0) in
      min (min n1 budget) (cf_max_model_len cf - 1 - num_computed_tokens r))"

definition plan_encoder :: "sched_config \<Rightarrow> 'c scheduler \<Rightarrow> request \<Rightarrow> int \<Rightarrow> int \<Rightarrow> int \<Rightarrow> encoder_plan res" where
  "plan_encoder cf s r nc n budget =
     (if has_encoder_inputs r
      then try_schedule_encoder_inputs (cf_encoder cf) (sd_enc s) r nc n budget (if cf_use_eagle cf then 1 else 0)
      else Inr (empty_plan n budget (sd_enc s)))"

section \<open>Running requests\<close>

text \<open>\<^verbatim>\<open>max(self.running, key=lambda r: (r.priority, r.arrival_time))\<close>: the first of the maximal requests.\<close>

definition worse :: "request \<Rightarrow> request \<Rightarrow> bool" where
  "worse r q \<longleftrightarrow> priority r > priority q \<or> (priority r = priority q \<and> arrival_time r > arrival_time q)"

definition worst :: "(nat \<Rightarrow> request) \<Rightarrow> nat list \<Rightarrow> nat res" where
  "worst rq l =
     (case l of [] \<Rightarrow> Inl ValueError
      | x # xs \<Rightarrow> Inr (fold (\<lambda>y best. if worse (rq y) (rq best) then y else best) xs x))"

text \<open>The step forgets a request that it had scheduled.\<close>

definition unschedule :: "'c scheduler \<Rightarrow> nat \<Rightarrow> sched_step \<Rightarrow> sched_step res" where
  "unschedule s j t =
     (if j \<notin> set (st_running t) then Inr t
      else
      let r = sd_store s j; rid = request_id r in
      case map_of (st_tokens t) rid of
        None \<Rightarrow> Inl KeyError
      | Some n \<Rightarrow>
          guard (map_of (st_new_blocks t) rid \<noteq> None) KeyError
          (res_bind (fold_res (\<lambda>i a. res_bind (get_num_encoder_embeds r i) (\<lambda>e. Inr (a + int e)))
                       (case map_of (st_enc_inputs t) rid of None \<Rightarrow> [] | Some l \<Rightarrow> l) 0) (\<lambda>restored.
           Inr (t\<lparr>st_running := remove1 j (st_running t), st_budget := st_budget t + n,
                  st_tokens := AList.delete rid (st_tokens t), st_new_blocks := AList.delete rid (st_new_blocks t),
                  st_spec := AList.delete rid (st_spec t), st_enc_inputs := AList.delete rid (st_enc_inputs t),
                  st_enc_budget := st_enc_budget t + restored, st_index := st_index t - 1\<rparr>))))"

definition take_victim :: "sched_config \<Rightarrow> sched_step \<Rightarrow> 'c scheduler \<Rightarrow> (nat \<times> sched_step \<times> 'c scheduler) res" where
  "take_victim cf t s =
     (if cf_policy cf = PRIORITY
      then res_bind (worst (sd_store s) (sd_running s)) (\<lambda>j.
             res_bind (unschedule s j t) (\<lambda>t1. Inr (j, t1, s\<lparr>sd_running := remove1 j (sd_running s)\<rparr>)))
      else if sd_running s = [] then Inl IndexError
      else Inr (last (sd_running s), t, s\<lparr>sd_running := butlast (sd_running s)\<rparr>))"

text \<open>The loop around \<^verbatim>\<open>allocate_slots\<close>: preempt until the request gets its blocks or is itself preempted.\<close>

fun allocate_loop ::
  "'c sched_env \<Rightarrow> sched_config \<Rightarrow> nat \<Rightarrow> nat \<Rightarrow> int \<Rightarrow> sched_step \<Rightarrow> 'c scheduler
     \<Rightarrow> (kv_cache_blocks option \<times> sched_step \<times> 'c scheduler) res option" where
  "allocate_loop env cf 0 i n t s = None"
| "allocate_loop env cf (Suc fuel) i n t s =
     ob (Some (allocate_slots (se_hash env) (sd_kv s) (sd_store s i) n 0 None (cf_num_lookahead_tokens cf) 0 False 0))
       (\<lambda>(res, k, r). let s1 = set_request i r (s\<lparr>sd_kv := k\<rparr>) in
        case res of
          Some b \<Rightarrow> Some (Inr (Some b, t, s1))
        | None \<Rightarrow>
            ob (Some (take_victim cf t s1)) (\<lambda>(j, t1, s2).
            ob (Some (preempt_request j s2)) (\<lambda>s3.
              let t2 = t1\<lparr>st_preempted := st_preempted t1 @ [j]\<rparr> in
              if j = i then Some (Inr (None, t2, s3)) else allocate_loop env cf fuel i n t2 s3)))"

definition schedule_spec_tokens :: "nat \<Rightarrow> int \<Rightarrow> sched_step \<times> 'c scheduler \<Rightarrow> sched_step \<times> 'c scheduler" where
  "schedule_spec_tokens i n ts =
     (case ts of (t, s) \<Rightarrow>
      let r = sd_store s i in
      if spec_token_ids r = [] then (t, s)
      else let k = n + num_computed_tokens r - int (num_tokens r) - num_output_placeholders r;
               t1 = (if k > 0 then t\<lparr>st_spec := AList.update (request_id r) (take (nat k) (spec_token_ids r)) (st_spec t)\<rparr> else t)
           in (t1, upd_request i (\<lambda>r. r\<lparr>spec_token_ids := []\<rparr>) s))"

definition allocate_encoder :: "nat \<Rightarrow> encoder_plan \<Rightarrow> sched_step \<Rightarrow> 'c scheduler \<Rightarrow> (sched_step \<times> 'c scheduler) res" where
  "allocate_encoder i pl t s =
     (let r = sd_store s i;
          t1 = (if pl_inputs pl \<noteq> []
                then t\<lparr>st_enc_inputs := AList.update (request_id r) (pl_inputs pl) (st_enc_inputs t), st_enc_budget := pl_budget pl\<rparr>
                else t) in
      res_bind (allocate_encoder_inputs r (pl\<lparr>pl_cache := sd_enc s\<rparr>)) (\<lambda>e. Inr (t1, s\<lparr>sd_enc := e\<rparr>)))"

definition commit_running :: "nat \<Rightarrow> int \<Rightarrow> kv_cache_blocks \<Rightarrow> encoder_plan \<Rightarrow> sched_step \<Rightarrow> 'c scheduler
    \<Rightarrow> (sched_step \<times> 'c scheduler) res" where
  "commit_running i n b pl t s =
     (let rid = request_id (sd_store s i);
          t1 = t\<lparr>st_running := st_running t @ [i], st_new_blocks := AList.update rid b (st_new_blocks t),
                 st_tokens := AList.update rid n (st_tokens t), st_budget := st_budget t - n, st_index := st_index t + 1\<rparr> in
      case schedule_spec_tokens i n (t1, s) of (t2, s2) \<Rightarrow> allocate_encoder i pl t2 s2)"

text \<open>One iteration of the loop; the flag is \<open>False\<close> for \<^verbatim>\<open>break\<close>.\<close>

definition schedule_running_one ::
  "'c sched_env \<Rightarrow> sched_config \<Rightarrow> sched_step \<Rightarrow> 'c scheduler \<Rightarrow> (bool \<times> sched_step \<times> 'c scheduler) res option" where
  "schedule_running_one env cf t s =
     (let i = sd_running s ! st_index t; r = sd_store s i; t_next = t\<lparr>st_index := st_index t + 1\<rparr> in
      if num_output_placeholders r > 0
         \<and> num_computed_tokens r + 2 - num_output_placeholders r \<ge> int (num_prompt_tokens r) + max_tokens r
      then Some (Inr (True, t_next, s))
      else
      ob (Some (plan_encoder cf s r (num_computed_tokens r) (running_tokens cf r (st_budget t)) (st_enc_budget t))) (\<lambda>pl.
      ob (Some (if cf_need_mamba_block_aligned_split cf then mamba_block_aligned_split cf r (pl_new_tokens pl) 0 0
                else Inr (pl_new_tokens pl))) (\<lambda>n.
      let s1 = s\<lparr>sd_enc := pl_cache pl\<rparr> in
      if n = 0 then Some (Inr (True, t_next, s1))
      else
      ob (allocate_loop env cf (length (sd_running s1)) i n t s1) (\<lambda>(res, t1, s2).
      case res of
        None \<Rightarrow> Some (Inr (False, t1, s2))
      | Some b \<Rightarrow> ob (Some (commit_running i n b pl t1 s2)) (\<lambda>(t2, s3). Some (Inr (True, t2, s3)))))))"

fun running_loop ::
  "'c sched_env \<Rightarrow> sched_config \<Rightarrow> nat \<Rightarrow> sched_step \<Rightarrow> 'c scheduler \<Rightarrow> (sched_step \<times> 'c scheduler) res option" where
  "running_loop env cf fuel t s =
     (if st_index t < length (sd_running s) \<and> st_budget t > 0
      then (case fuel of 0 \<Rightarrow> None
            | Suc fuel' \<Rightarrow>
                ob (schedule_running_one env cf t s) (\<lambda>(go, t1, s1).
                  if go then running_loop env cf fuel' t1 s1 else Some (Inr (t1, s1))))
      else Some (Inr (t, s)))"

declare running_loop.simps [simp del]

section \<open>Waiting requests\<close>

definition running_loras :: "sched_config \<Rightarrow> 'c scheduler \<Rightarrow> sched_step \<Rightarrow> int list res" where
  "running_loras cf s t =
     (case cf_max_loras cf of
        None \<Rightarrow> Inr []
      | Some m \<Rightarrow>
          let ids = remdups (filter (\<lambda>l. l > 0) (map lora_int_id (List.map_filter (\<lambda>i. lora_request (sd_store s i)) (st_running t)))) in
          guard (length ids \<le> m) AssertionError (Inr ids))"

definition exceeds_loras :: "sched_config \<Rightarrow> request \<Rightarrow> int list \<Rightarrow> bool" where
  "exceeds_loras cf r loras =
     (case (cf_max_loras cf, lora_request r) of
        (Some m, Some l) \<Rightarrow> length loras = m \<and> lora_int_id l \<notin> set loras
      | _ \<Rightarrow> False)"

text \<open>The head of the queue is set aside for this step.\<close>

definition set_aside :: "waiting_queue_name \<Rightarrow> sched_step \<Rightarrow> 'c scheduler \<Rightarrow> (sched_step \<times> 'c scheduler) res" where
  "set_aside q t s =
     res_bind (pop_request (sd_lt s) (queue_of q s)) (\<lambda>(i, rest).
       Inr (t\<lparr>st_skipped := prepend_request (sd_lt s) i (st_skipped t)\<rparr>, set_queue q rest s))"

record token_match =
  tm_blocks :: kv_cache_blocks
  tm_local :: int
  tm_external :: int
  tm_async :: bool
  tm_computed :: int

text \<open>
  The tokens that need not be computed; \<open>None\<close> when the connector cannot tell yet.
\<close>

definition match_tokens :: "'c sched_env \<Rightarrow> nat \<Rightarrow> 'c scheduler \<Rightarrow> (token_match option \<times> 'c scheduler) res option" where
  "match_tokens env i s =
     (let r = sd_store s i in
      if num_computed_tokens r = 0
      then ob (get_computed_blocks (sd_kv s) r) (\<lambda>(bl, loc, k).
           let s1 = s\<lparr>sd_kv := k\<rparr>;
               (ext, s2) = (case se_connector env of
                   None \<Rightarrow> (Some (0, False), s1)
                 | Some con \<Rightarrow> (case cn_get_num_new_matched_tokens con r loc (sd_connector s1) of
                     ((n, load_async), c) \<Rightarrow> (map_option (\<lambda>n. (n, load_async)) n, s1\<lparr>sd_connector := c\<rparr>))) in
           case ext of
             None \<Rightarrow> Some (Inr (None, s2))
           | Some (e, load_async) \<Rightarrow>
               og (loc + e \<le> int (num_tokens r)) AssertionError
               (og (i \<in> set (sd_prefill_stats s2) \<longrightarrow> loc + e \<le> int (num_prompt_tokens r)) AssertionError
                 (Some (Inr (Some \<lparr>tm_blocks = bl, tm_local = loc, tm_external = e, tm_async = load_async, tm_computed = loc + e\<rparr>, s2)))))
      else Some (Inr (Some \<lparr>tm_blocks = empty_kv_cache_blocks (sd_kv s), tm_local = 0, tm_external = 0, tm_async = False,
                            tm_computed = num_computed_tokens r\<rparr>, s)))"

text \<open>
  The tokens to schedule with their encoder inputs; \<open>None\<close> is \<^verbatim>\<open>break\<close>.
\<close>

definition waiting_tokens :: "sched_config \<Rightarrow> sched_step \<Rightarrow> 'c scheduler \<Rightarrow> request \<Rightarrow> token_match
    \<Rightarrow> ((int \<times> encoder_plan) option \<times> 'c scheduler) res" where
  "waiting_tokens cf t s r tm =
     res_bind
       (if tm_async tm
        then guard (tm_external tm > 0) AssertionError (Inr (Some (empty_plan 0 (st_enc_budget t) (sd_enc s)), s))
        else
        let n0 = int (num_tokens r) - tm_computed tm; thr = cf_long_prefill_token_threshold cf;
            n1 = (if 0 < thr \<and> thr < n0 then thr else n0) in
        if \<not> cf_enable_chunked_prefill cf \<and> n1 > st_budget t then Inr (None, s)
        else
        let n = min n1 (st_budget t) in
        guard (n > 0) AssertionError
        (res_bind (plan_encoder cf s r (tm_computed tm) n (st_enc_budget t)) (\<lambda>pl.
           let s1 = s\<lparr>sd_enc := pl_cache pl\<rparr> in
           Inr (if has_encoder_inputs r \<and> pl_new_tokens pl = 0 then None else Some pl, s1))))
       (\<lambda>(plan, s1). case plan of
          None \<Rightarrow> Inr (None, s1)
        | Some pl \<Rightarrow>
            if cf_need_mamba_block_aligned_split cf
            then res_bind (mamba_block_aligned_split cf r (pl_new_tokens pl) (tm_local tm) (tm_external tm)) (\<lambda>n.
                   Inr (if n = 0 then None else Some (n, pl), s1))
            else Inr (Some (pl_new_tokens pl, pl), s1))"

definition sum_encoder_embeds :: "request \<Rightarrow> nat list \<Rightarrow> int res" where
  "sum_encoder_embeds r is = fold_res (\<lambda>i a. res_bind (get_num_encoder_embeds r i) (\<lambda>e. Inr (a + int e))) is 0"

text \<open>Blocks for the request, or \<open>None\<close> when it does not fit; then its encoder references are dropped.\<close>

definition allocate_waiting :: "'c sched_env \<Rightarrow> sched_config \<Rightarrow> nat \<Rightarrow> token_match \<Rightarrow> int \<Rightarrow> encoder_plan \<Rightarrow> 'c scheduler
    \<Rightarrow> (bool \<times> 'c scheduler) res" where
  "allocate_waiting env cf i tm n pl s =
     (let r = sd_store s i;
          lookahead = (if num_computed_tokens r = 0 then 0 else cf_num_lookahead_tokens cf);
          give_up = (\<lambda>s. if has_encoder_inputs r
                         then res_bind (em_free r (sd_enc s)) (\<lambda>e. Inr (False, s\<lparr>sd_enc := e\<rparr>)) else Inr (False, s)) in
      res_bind (if sc_is_encoder_decoder (cf_encoder cf) \<and> has_encoder_inputs r \<and> pl_inputs pl \<noteq> []
                then sum_encoder_embeds r (pl_inputs pl) else Inr 0) (\<lambda>n_enc.
      res_bind (if cf_reserve_full_isl cf
                then res_bind (can_fit_full_sequence (sd_kv s) r (tm_local tm) (Some (tm_blocks tm)) (tm_external tm) n_enc) (\<lambda>(ok, k).
                       Inr (ok, s\<lparr>sd_kv := k\<rparr>))
                else Inr (True, s)) (\<lambda>(fits, s1).
      if \<not> fits then give_up s1
      else
      res_bind (allocate_slots (se_hash env) (sd_kv s1) r n (tm_local tm) (Some (tm_blocks tm)) lookahead (tm_external tm)
                  (tm_async tm) n_enc) (\<lambda>(res, k, r').
      let s2 = set_request i r' (s1\<lparr>sd_kv := k\<rparr>) in
      case res of
        None \<Rightarrow> give_up s2
      | Some b \<Rightarrow>
          Inr (True, case se_connector env of
            None \<Rightarrow> s2
          | Some con \<Rightarrow> s2\<lparr>sd_connector := cn_update_state_after_alloc con r' (km_get_blocks (sd_kv s2) (request_id r'))
                             (tm_external tm) (sd_connector s2)\<rparr>)))))"

text \<open>The request leaves its queue, to load remote blocks or to run.\<close>

definition admit :: "sched_config \<Rightarrow> waiting_queue_name \<Rightarrow> token_match \<Rightarrow> int \<Rightarrow> encoder_plan \<Rightarrow> sched_step \<Rightarrow> 'c scheduler
    \<Rightarrow> (sched_step \<times> 'c scheduler) res" where
  "admit cf q tm n pl t s =
     res_bind (pop_request (sd_lt s) (queue_of q s)) (\<lambda>(i, rest).
     let s1 = set_queue q rest s; r = sd_store s1 i; rid = request_id r in
     if tm_async tm
     then let s2 = upd_request i (\<lambda>r. r\<lparr>status := WAITING_FOR_REMOTE_KVS, num_computed_tokens := tm_computed tm\<rparr>) s1 in
          Inr (t\<lparr>st_skipped := prepend_request (sd_lt s2) i (st_skipped t)\<rparr>, s2)
     else
     guard (status r = WAITING \<or> status r = PREEMPTED) RuntimeError
     (let t1 = (if status r = WAITING then t\<lparr>st_new := st_new t @ [i]\<rparr> else t\<lparr>st_resumed := st_resumed t @ [i]\<rparr>);
          t2 = (case (cf_max_loras cf, lora_request r) of
                  (Some _, Some l) \<Rightarrow> t1\<lparr>st_loras := List.insert (lora_int_id l) (st_loras t1)\<rparr> | _ \<Rightarrow> t1);
          s2 = s1\<lparr>sd_running := sd_running s1 @ [i]\<rparr>;
          t3 = t2\<lparr>st_new_blocks := AList.update rid (km_get_blocks (sd_kv s2) rid) (st_new_blocks t2),
                  st_tokens := AList.update rid n (st_tokens t2), st_budget := st_budget t2 - n\<rparr>;
          s3 = upd_request i (\<lambda>r. r\<lparr>status := RUNNING, num_computed_tokens := tm_computed tm\<rparr>) s2 in
      allocate_encoder i pl t3 s3))"

definition schedule_waiting_one ::
  "'c sched_env \<Rightarrow> sched_config \<Rightarrow> sched_step \<Rightarrow> 'c scheduler \<Rightarrow> (bool \<times> sched_step \<times> 'c scheduler) res option" where
  "schedule_waiting_one env cf t s =
     (if length (sd_running s) = cf_max_num_running_reqs cf then Some (Inr (False, t, s))
      else
      ob (Some (select_waiting_queue_for_scheduling cf s)) (\<lambda>sel.
      case sel of None \<Rightarrow> Some (Inl AssertionError) | Some q \<Rightarrow>
      ob (Some (peek_request (queue_of q s))) (\<lambda>i.
      ob (Some (if is_blocked_waiting_status (status (sd_store s i))
                then try_promote_blocked_waiting_request env i s else Inr (True, s))) (\<lambda>(ready, s1).
      let skip = (\<lambda>s. ob (Some (set_aside q t s)) (\<lambda>(t', s'). Some (Inr (True, t', s')))) in
      if \<not> ready \<or> exceeds_loras cf (sd_store s1 i) (st_loras t) then skip s1
      else
      ob (match_tokens env i s1) (\<lambda>(found, s2).
      case found of
        None \<Rightarrow> skip s2
      | Some tm \<Rightarrow>
          ob (Some (waiting_tokens cf t s2 (sd_store s2 i) tm)) (\<lambda>(plan, s3).
          case plan of
            None \<Rightarrow> Some (Inr (False, t, s3))
          | Some (n, pl) \<Rightarrow>
              ob (Some (allocate_waiting env cf i tm n pl s3)) (\<lambda>(ok, s4).
              if \<not> ok then Some (Inr (False, t, s4))
              else ob (Some (admit cf q tm n pl t s4)) (\<lambda>(t', s5). Some (Inr (True, t', s5)))))))))) "

fun waiting_loop ::
  "'c sched_env \<Rightarrow> sched_config \<Rightarrow> nat \<Rightarrow> sched_step \<Rightarrow> 'c scheduler \<Rightarrow> (sched_step \<times> 'c scheduler) res option" where
  "waiting_loop env cf fuel t s =
     (if (queue_nonempty (sd_waiting s) \<or> queue_nonempty (sd_skipped s)) \<and> st_budget t > 0
      then (case fuel of 0 \<Rightarrow> None
            | Suc fuel' \<Rightarrow>
                ob (schedule_waiting_one env cf t s) (\<lambda>(go, t1, s1).
                  if go then waiting_loop env cf fuel' t1 s1 else Some (Inr (t1, s1))))
      else Some (Inr (t, s)))"

declare waiting_loop.simps [simp del]

definition schedule_waiting :: "'c sched_env \<Rightarrow> sched_config \<Rightarrow> sched_step \<Rightarrow> 'c scheduler \<Rightarrow> (sched_step \<times> 'c scheduler) res option" where
  "schedule_waiting env cf t s =
     (if st_preempted t = [] \<and> sd_pause s = UNPAUSED
      then ob (waiting_loop env cf (queue_len (sd_waiting s) + queue_len (sd_skipped s)) t s) (\<lambda>(t1, s1).
             Some (Inr (t1, if queue_nonempty (st_skipped t1)
                            then s1\<lparr>sd_skipped := prepend_requests (sd_lt s1) (st_skipped t1) (sd_skipped s1)\<rparr> else s1)))
      else Some (Inr (t, s)))"

text \<open>The decisions of a step, up to the checks on the result.\<close>

definition schedule_requests :: "'c sched_env \<Rightarrow> sched_config \<Rightarrow> 'c scheduler \<Rightarrow> (sched_step \<times> 'c scheduler) res option" where
  "schedule_requests env cf s =
     (let s0 = s\<lparr>sd_kv := km_new_step_starts (sd_kv s)\<rparr> in
      ob (running_loop env cf (length (sd_running s0)) (step_init cf s0) s0) (\<lambda>(t1, s1).
      ob (Some (running_loras cf s1 t1)) (\<lambda>loras.
      schedule_waiting env cf (t1\<lparr>st_loras := loras\<rparr>) s1)))"

section \<open>Output\<close>

definition from_request :: "request \<Rightarrow> int list list \<Rightarrow> int list option \<Rightarrow> new_request_data" where
  "from_request r ids prefill = \<lparr>nr_req_id = request_id r, nr_prompt_token_ids = prompt_token_ids r, nr_mm_features = mm_features r,
     nr_sampling_params = sampling_params r, nr_pooling_params = pooling_params r, nr_block_ids = ids,
     nr_num_computed_tokens = num_computed_tokens r, nr_lora_request = lora_request r, nr_prompt_embeds = prompt_embeds r,
     nr_prefill_token_ids = prefill\<rparr>"

definition cached_request :: "sched_config \<Rightarrow> 'c scheduler \<Rightarrow> sched_step \<Rightarrow> bool \<Rightarrow> nat \<Rightarrow> cached_request_data \<Rightarrow> cached_request_data res" where
  "cached_request cf s t is_resumed i d =
     (let r = sd_store s i; rid = request_id r; prev = (rid \<in> set (sd_prev_step s)) in
      res_bind (if cf_use_pp cf \<and> \<not> cf_async_scheduling cf
                then res_bind (dict_get rid (st_tokens t)) (\<lambda>n.
                       let k = n - int (length (case map_of (st_spec t) rid of None \<Rightarrow> [] | Some l \<Rightarrow> l)) in
                       Inr (cr_new_token_ids d
                            @ [py_slice (nat (num_computed_tokens r)) (nat (num_computed_tokens r + k)) (all_token_ids r)]))
                else Inr (cr_new_token_ids d)) (\<lambda>toks.
      guard (\<not> (is_resumed \<and> prev)) AssertionError
      (res_bind (dict_get rid (st_new_blocks t)) (\<lambda>b.
       Inr (d\<lparr>cr_req_ids := cr_req_ids d @ [rid],
              cr_resumed_req_ids := (if is_resumed then List.insert rid (cr_resumed_req_ids d) else cr_resumed_req_ids d),
              cr_new_token_ids := toks,
              cr_all_token_ids := (if prev then cr_all_token_ids d else AList.update rid (all_token_ids r) (cr_all_token_ids d)),
              cr_new_block_ids := cr_new_block_ids d @ [kb_get_block_ids (km_pool (sd_kv s)) True b],
              cr_num_computed_tokens := cr_num_computed_tokens d @ [num_computed_tokens r],
              cr_num_output_tokens := cr_num_output_tokens d @ [int (num_output_tokens r) + num_output_placeholders r]\<rparr>)))))"

definition make_cached_request_data :: "sched_config \<Rightarrow> 'c scheduler \<Rightarrow> sched_step \<Rightarrow> nat list \<Rightarrow> nat list \<Rightarrow> cached_request_data res" where
  "make_cached_request_data cf s t run resumed =
     res_bind (fold_res (cached_request cf s t False) run
         \<lparr>cr_req_ids = [], cr_resumed_req_ids = [], cr_new_token_ids = [], cr_all_token_ids = [], cr_new_block_ids = [],
          cr_num_computed_tokens = [], cr_num_output_tokens = []\<rparr>)
       (fold_res (cached_request cf s t True) resumed)"

text \<open>\<^verbatim>\<open>_update_after_schedule\<close> of the scheduler and of \<^verbatim>\<open>AsyncScheduler\<close>.\<close>

definition advance_request :: "string \<times> int \<Rightarrow> scheduler_output \<times> 'c scheduler \<Rightarrow> (scheduler_output \<times> 'c scheduler) res" where
  "advance_request e os =
     (case (e, os) of ((rid, n), (out, s)) \<Rightarrow>
      res_bind (dict_get rid (sd_requests s)) (\<lambda>i.
      let r = sd_store s i; nc = num_computed_tokens r + n;
          chunk = (nc < int (num_tokens r) + num_output_placeholders r) in
      Inr (out\<lparr>so_has_structured_output_requests := (so_has_structured_output_requests out \<or> (use_structured_output r \<and> \<not> chunk))\<rparr>,
           set_request i (r\<lparr>num_computed_tokens := nc, is_prefill_chunk := chunk\<rparr>) s)))"

definition add_placeholders :: "sched_config \<Rightarrow> string \<Rightarrow> scheduler_output \<times> 'c scheduler \<Rightarrow> (scheduler_output \<times> 'c scheduler) res" where
  "add_placeholders cf rid os =
     (case os of (out, s) \<Rightarrow>
      res_bind (dict_get rid (sd_requests s)) (\<lambda>i.
      let r = sd_store s i in
      if is_prefill_chunk r then Inr (out, s)
      else Inr (out\<lparr>so_pending_structured_output_tokens :=
                      (so_pending_structured_output_tokens out \<or> (use_structured_output r \<and> num_output_placeholders r > 0))\<rparr>,
                set_request i (r\<lparr>num_output_placeholders := num_output_placeholders r + 1
                                   + int (length (case map_of (so_scheduled_spec_decode_tokens out) rid of None \<Rightarrow> [] | Some l \<Rightarrow> l)),
                                 spec_token_ids := replicate (cf_num_spec_tokens cf) (-1)\<rparr>) s)))"

definition update_after_schedule :: "sched_config \<Rightarrow> scheduler_output \<Rightarrow> 'c scheduler \<Rightarrow> (scheduler_output \<times> 'c scheduler) res" where
  "update_after_schedule cf out s =
     res_bind (fold_res advance_request (so_num_scheduled_tokens out) (out, s)) (\<lambda>(out1, s1).
     let s2 = s1\<lparr>sd_finished_req_ids := []\<rparr> in
     if cf_async_scheduling cf
     then fold_res (add_placeholders cf) (map fst (so_num_scheduled_tokens out1)) (out1, s2)
     else Inr (out1, s2))"

definition make_output :: "sched_config \<Rightarrow> sched_step \<Rightarrow> 'c scheduler \<Rightarrow> (scheduler_output \<times> 'c scheduler) res" where
  "make_output cf t s =
     (let total = sum_list (map snd (st_tokens t)) in
      guard (total \<le> cf_max_num_scheduled_tokens cf) AssertionError
      (guard (st_budget t \<ge> 0) AssertionError
      (guard (length (sd_running s) \<le> cf_max_num_running_reqs cf) AssertionError
      (guard (length (st_new t) + length (st_resumed t) + length (st_running t) \<le> length (sd_running s)) AssertionError
      (res_bind (case sd_running s of
                   [] \<Rightarrow> Inr (replicate (num_kv_cache_groups (sd_kv s)) 0, sd_kv s)
                 | i # _ \<Rightarrow> km_get_num_common_prefix_blocks (sd_kv s) (request_id (sd_store s i))) (\<lambda>(common, k).
      let s1 = s\<lparr>sd_kv := k\<rparr>; v2 = cf_use_v2_model_runner cf;
          new = (if v2 then st_new t @ st_resumed t else st_new t); resumed = (if v2 then [] else st_resumed t) in
      res_bind (map_res (\<lambda>i. res_bind (dict_get (request_id (sd_store s1 i)) (st_new_blocks t)) (\<lambda>b.
                  Inr (from_request (sd_store s1 i) (case kb_get_block_ids (km_pool k) False b of None \<Rightarrow> [] | Some l \<Rightarrow> l)
                         (if v2 then Some (all_token_ids (sd_store s1 i)) else None)))) new) (\<lambda>new_data.
      res_bind (make_cached_request_data cf s1 t (st_running t) resumed) (\<lambda>cached_data.
      let s2 = s1\<lparr>sd_prev_step := map fst (st_tokens t)\<rparr>;
          (zero, k2) = (if cf_needs_kv_cache_zeroing cf
                        then (case km_take_new_block_ids (sd_kv s2) of (ids, k') \<Rightarrow> (if ids = [] then None else Some ids, k'))
                        else (None, sd_kv s2));
          (freed_hashes, e) = em_get_freed_mm_hashes (sd_enc s2) in
      Inr (\<lparr>so_scheduled_new_reqs = new_data, so_scheduled_cached_reqs = cached_data, so_num_scheduled_tokens = st_tokens t,
            so_total_num_scheduled_tokens = total, so_scheduled_spec_decode_tokens = st_spec t,
            so_scheduled_encoder_inputs = st_enc_inputs t, so_num_common_prefix_blocks = common,
            so_finished_req_ids = sd_finished_req_ids s2, so_free_encoder_mm_hashes = freed_hashes,
            so_preempted_req_ids = remdups (map (\<lambda>i. request_id (sd_store s2 i)) (st_preempted t)),
            so_has_structured_output_requests = False, so_pending_structured_output_tokens = False,
            so_num_invalid_spec_tokens = [], so_new_block_ids_to_zero = zero\<rparr>,
           s2\<lparr>sd_kv := k2, sd_enc := e\<rparr>)))))))))"

definition schedule :: "'c sched_env \<Rightarrow> sched_config \<Rightarrow> 'c scheduler \<Rightarrow> (scheduler_output \<times> 'c scheduler) res option" where
  "schedule env cf s =
     ob (schedule_requests env cf s) (\<lambda>(t, s1).
       Some (res_bind (make_output cf t s1) (\<lambda>(out, s2).
         update_after_schedule cf out (case se_connector env of
             None \<Rightarrow> s2
           | Some con \<Rightarrow> s2\<lparr>sd_connector := cn_build_connector_meta con out (sd_connector s2)\<rparr>))))"

end
