(* ===== verification/Scheduler_Update.thy ===== *)
theory Scheduler_Update
  imports Scheduler_Loop
begin

text \<open>
  What the scheduler does with the results of a step: \<^verbatim>\<open>update_from_output\<close> (src/vllm/vllm/v1/core/sched/scheduler.py), with
  \<^verbatim>\<open>AsyncScheduler\<close> (src/vllm/vllm/v1/core/sched/async_scheduler.py), failed remote loads, finished transfers and draft tokens. Log
  probabilities, routed experts, NaN counts and the statistics of speculative decoding only pass through
  and are left out.
\<close>

section \<open>Data\<close>

record model_runner_output =
  mo_sampled_token_ids :: "int list list"
  mo_req_id_to_index :: "(string, nat) odict"
  mo_pooler_output :: "bool list"
  mo_prompt_logprobs :: "string list"
  mo_kv_connector_output :: "kv_connector_output option"

record engine_core_output =
  eo_request_id :: string
  eo_new_token_ids :: "int list"
  eo_finish_reason :: "finish_reason option"
  eo_stop_reason :: "stop_reason_value option"
  eo_pooling_output :: bool

record scheduler_stats =
  ss_num_running_reqs :: nat
  ss_num_waiting_reqs :: nat
  ss_num_skipped_waiting_reqs :: nat
  ss_kv_cache_usage :: rat
  ss_prefix_cache_stats :: prefix_cache_stats
  ss_eviction_events :: "kv_cache_eviction_event list"

record engine_core_outputs =
  ec_outputs :: "engine_core_output list"
  ec_finished_requests :: "string list option"
  ec_scheduler_stats :: "scheduler_stats option"

section \<open>New tokens of a request\<close>

text \<open>The tokens kept, whether the request stopped, and the request.\<close>

fun append_until_stop :: "block_hasher option \<Rightarrow> int \<Rightarrow> int list \<Rightarrow> int list \<Rightarrow> request \<Rightarrow> (int list \<times> bool \<times> request) res" where
  "append_until_stop hasher max_len [] kept r = Inr (kept, False, r)"
| "append_until_stop hasher max_len (x # xs) kept r =
     res_bind (append_output_token_ids hasher [x] r) (\<lambda>r1.
     res_bind (check_stop r1 max_len) (\<lambda>(stopped, r2).
       if stopped then Inr (kept @ [x], True, r2) else append_until_stop hasher max_len xs (kept @ [x]) r2))"

definition update_request_with_output ::
  "'c sched_env \<Rightarrow> sched_config \<Rightarrow> nat \<Rightarrow> int list \<Rightarrow> 'c scheduler \<Rightarrow> (int list \<times> bool \<times> 'c scheduler) res" where
  "update_request_with_output env cf i toks s =
     res_bind (append_until_stop (se_hasher env) (cf_max_model_len cf) toks [] (sd_store s i)) (\<lambda>(kept, stopped, r).
       Inr (kept, stopped, set_request i r s))"

definition async_update_request_with_output ::
  "'c sched_env \<Rightarrow> sched_config \<Rightarrow> nat \<Rightarrow> int list \<Rightarrow> 'c scheduler \<Rightarrow> (int list \<times> bool \<times> 'c scheduler) res" where
  "async_update_request_with_output env cf i toks s =
     (let r = sd_store s i in
      if discard_latest_async_tokens r
      then Inr ([], False, set_request i (r\<lparr>discard_latest_async_tokens := False\<rparr>) s)
      else
      res_bind (update_request_with_output env cf i toks s) (\<lambda>(kept, stopped, s1).
      let r1 = sd_store s1 i; r2 = r1\<lparr>num_output_placeholders := num_output_placeholders r1 - int (length kept)\<rparr>;
          s2 = set_request i r2 s1 in
      guard (num_output_placeholders r2 \<ge> 0) AssertionError
      (if status r = RUNNING
       then res_bind (km_cache_blocks (se_hash env) (sd_kv s2) r2 (num_computed_tokens r2 - num_output_placeholders r2))
              (\<lambda>(k, r3). Inr (kept, stopped, set_request i r3 (s2\<lparr>sd_kv := k\<rparr>)))
       else Inr (kept, stopped, s2))))"

section \<open>The loop over the scheduled requests\<close>

record update_acc =
  ua_stopped_running :: "nat list"
  ua_stopped_preempted :: "nat list"
  ua_outputs :: "(int, engine_core_output list) odict"

definition add_output :: "int \<Rightarrow> engine_core_output \<Rightarrow> (int, engine_core_output list) odict \<Rightarrow> (int, engine_core_output list) odict" where
  "add_output c x d = AList.update c ((case map_of d c of None \<Rightarrow> [] | Some l \<Rightarrow> l) @ [x]) d"

definition list_get :: "nat \<Rightarrow> 'a list \<Rightarrow> 'a res" where
  "list_get i l = (if i < length l then Inr (l ! i) else Inl IndexError)"

text \<open>Rejected draft tokens are taken back.\<close>

definition reject_drafts :: "int list \<Rightarrow> int list \<Rightarrow> request \<Rightarrow> request" where
  "reject_drafts spec generated r =
     (if spec = [] \<or> generated = [] then r
      else let rejected = int (length spec) - (int (length generated) - 1) in
        r\<lparr>num_computed_tokens := num_computed_tokens r - (if num_computed_tokens r > 0 then rejected else 0),
          num_output_placeholders := num_output_placeholders r - (if num_output_placeholders r > 0 then rejected else 0)\<rparr>)"

text \<open>New tokens or a pooling result of request \<open>i\<close>: the tokens, whether it stopped, the state.\<close>

definition take_result ::
  "'c sched_env \<Rightarrow> sched_config \<Rightarrow> nat \<Rightarrow> int list \<Rightarrow> bool \<Rightarrow> 'c scheduler \<Rightarrow> (int list \<times> bool \<times> 'c scheduler) res" where
  "take_result env cf i generated pooled s =
     res_bind
       (if generated \<noteq> []
        then (if cf_async_scheduling cf then async_update_request_with_output env cf i generated s
              else update_request_with_output env cf i generated s)
        else if pooling_params (sd_store s i) \<noteq> None \<and> pooled
        then Inr ([], True, upd_request i (\<lambda>r. r\<lparr>status := FINISHED_STOPPED\<rparr>) s)
        else Inr ([], False, s)) (\<lambda>(kept, stopped, s1).
     let r = sd_store s1 i in
     if kept \<noteq> [] \<and> se_should_advance env r
     then guard (structured_output_request r) AssertionError
          (guard (se_grammar_ready env r) AssertionError
            (if se_accept_tokens env r kept then Inr (kept, stopped, s1)
             else Inr (kept, True, upd_request i (\<lambda>r. r\<lparr>status := FINISHED_ERROR, resumable := False\<rparr>) s1)))
     else Inr (kept, stopped, s1))"

definition stop_request :: "'c sched_env \<Rightarrow> nat \<Rightarrow> 'c scheduler \<Rightarrow> 'c scheduler res" where
  "stop_request env i s =
     res_bind (handle_stopped_request env i s) (\<lambda>(finished, s1).
       if finished then free_request env i False s1 else Inr s1)"

definition update_one ::
  "'c sched_env \<Rightarrow> sched_config \<Rightarrow> scheduler_output \<Rightarrow> model_runner_output \<Rightarrow> string list \<Rightarrow> string \<times> int
     \<Rightarrow> update_acc \<times> 'c scheduler \<Rightarrow> (update_acc \<times> 'c scheduler) res" where
  "update_one env cf out mo failed e acc_s =
     (case (e, acc_s) of ((rid, n), (acc, s)) \<Rightarrow>
      guard (n > 0) AssertionError
      (if rid \<in> set failed then Inr (acc, s)
       else case map_of (sd_requests s) rid of
         None \<Rightarrow> Inr (acc, s)
       | Some i \<Rightarrow>
           if is_finished (sd_store s i) then Inr (acc, s)
           else
           res_bind (dict_get rid (mo_req_id_to_index mo)) (\<lambda>idx.
           res_bind (if mo_sampled_token_ids mo \<noteq> [] then list_get idx (mo_sampled_token_ids mo) else Inr []) (\<lambda>generated.
           let spec = (case map_of (so_scheduled_spec_decode_tokens out) rid of None \<Rightarrow> [] | Some l \<Rightarrow> l);
               s1 = upd_request i (reject_drafts spec generated) s in
           res_bind (if has_encoder_inputs (sd_store s1 i)
                     then free_encoder_inputs (cf_encoder cf) (sd_store s1 i) (sd_enc s1) else Inr (sd_enc s1)) (\<lambda>enc.
           let s2 = s1\<lparr>sd_enc := enc\<rparr>; was = status (sd_store s2 i) in
           res_bind (if mo_pooler_output mo \<noteq> [] then list_get idx (mo_pooler_output mo) else Inr False) (\<lambda>pooled.
           res_bind (take_result env cf i generated pooled s2) (\<lambda>(kept, stopped, s3).
           let reason = (if stopped then get_finished_reason (status (sd_store s3 i)) else None);
               acc1 = (if \<not> stopped then acc
                       else if was = RUNNING then acc\<lparr>ua_stopped_running := List.insert i (ua_stopped_running acc)\<rparr>
                       else acc\<lparr>ua_stopped_preempted := List.insert i (ua_stopped_preempted acc)\<rparr>) in
           res_bind (if stopped then stop_request env i s3 else Inr s3) (\<lambda>s4.
           let r = sd_store s4 i in
           if kept \<noteq> [] \<or> pooled \<or> stopped
           then Inr (acc1\<lparr>ua_outputs := add_output (client_index r) \<lparr>eo_request_id = rid, eo_new_token_ids = kept,
                         eo_finish_reason = reason, eo_stop_reason = stop_reason r, eo_pooling_output = pooled\<rparr> (ua_outputs acc1)\<rparr>,
                     s4\<lparr>sd_prefill_stats := removeAll i (sd_prefill_stats s4)\<rparr>)
           else guard (rid \<notin> set (mo_prompt_logprobs mo)) AssertionError (Inr (acc1, s4))))))))))"

section \<open>Failed remote loads\<close>

record scan_acc =
  sa_affected :: bool
  sa_marked :: bool
  sa_computed :: int
  sa_tokens :: int
  sa_evict :: "int list"
  sa_marked_ids :: "int list"

text \<open>The loop over the blocks of one request; \<open>n\<close> is its number of computed tokens before this step.\<close>

fun scan_blocks :: "int \<Rightarrow> int list \<Rightarrow> bool \<Rightarrow> int \<Rightarrow> int list \<Rightarrow> nat list \<Rightarrow> scan_acc \<Rightarrow> scan_acc" where
  "scan_blocks bs invalid evict n ids [] a = a"
| "scan_blocks bs invalid evict n ids (idx # rest) a =
     (let b = ids ! idx in
      scan_blocks bs invalid evict n ids rest
       (if b \<notin> set invalid then a
        else if b \<in> set (sa_marked_ids a) then a\<lparr>sa_affected := True\<rparr>
        else if sa_marked a then a\<lparr>sa_affected := True, sa_marked_ids := sa_marked_ids a @ [b]\<rparr>
        else a\<lparr>sa_affected := True, sa_marked_ids := sa_marked_ids a @ [b], sa_marked := True, sa_computed := int idx * bs,
               sa_tokens := sa_tokens a + (n - int idx * bs),
               sa_evict := (if evict then sa_evict a @ drop idx ids else sa_evict a)\<rparr>))"

record invalid_acc =
  ia_affected :: "string list"
  ia_tokens :: int
  ia_evict :: "int list"
  ia_marked_ids :: "int list"

definition scan_request :: "sched_config \<Rightarrow> int list \<Rightarrow> (string, int) odict \<Rightarrow> bool \<Rightarrow> nat
    \<Rightarrow> invalid_acc \<times> 'c scheduler \<Rightarrow> (invalid_acc \<times> 'c scheduler) res" where
  "scan_request cf invalid sched evict i acc_s =
     (case acc_s of (acc, s) \<Rightarrow>
      let r = sd_store s i; rid = request_id r in
      case km_get_block_ids (sd_kv s) rid of
        Some [ids] \<Rightarrow>
          let n = num_computed_tokens r - (case map_of sched rid of None \<Rightarrow> 0 | Some k \<Rightarrow> k);
              blocks = nat ((n + cf_block_size cf - 1) div cf_block_size cf);
              a = scan_blocks (cf_block_size cf) invalid evict n ids [0..<min blocks (length ids)]
                    \<lparr>sa_affected = False, sa_marked = False, sa_computed = num_computed_tokens r, sa_tokens = ia_tokens acc,
                     sa_evict = ia_evict acc, sa_marked_ids = ia_marked_ids acc\<rparr>;
              acc1 = acc\<lparr>ia_tokens := sa_tokens a, ia_evict := sa_evict a, ia_marked_ids := sa_marked_ids a\<rparr> in
          if \<not> sa_affected a then Inr (acc1, s)
          else
          let acc2 = acc1\<lparr>ia_affected := List.insert rid (ia_affected acc1)\<rparr> in
          if sa_marked a then Inr (acc2, set_request i (r\<lparr>num_computed_tokens := sa_computed a\<rparr>) s)
          else Inr (acc2\<lparr>ia_tokens := ia_tokens acc2 + (num_computed_tokens r - n)\<rparr>, set_request i (r\<lparr>num_computed_tokens := n\<rparr>) s)
      | _ \<Rightarrow> Inl ValueError)"

definition update_requests_with_invalid_blocks ::
  "sched_config \<Rightarrow> nat list \<Rightarrow> int list \<Rightarrow> (string, int) odict \<Rightarrow> bool \<Rightarrow> 'c scheduler
     \<Rightarrow> ((string list \<times> int \<times> int list) \<times> 'c scheduler) res" where
  "update_requests_with_invalid_blocks cf is invalid sched evict s =
     res_bind (fold_res (scan_request cf invalid sched evict) is
                 (\<lparr>ia_affected = [], ia_tokens = 0, ia_evict = [], ia_marked_ids = []\<rparr>, s)) (\<lambda>(acc, s1).
       Inr ((ia_affected acc, ia_tokens acc, remdups (ia_evict acc)), s1))"

definition handle_invalid_blocks ::
  "'c sched_env \<Rightarrow> sched_config \<Rightarrow> int list \<Rightarrow> (string, int) odict \<Rightarrow> 'c scheduler \<Rightarrow> (string list \<times> 'c scheduler) res" where
  "handle_invalid_blocks env cf invalid sched s =
     res_bind (update_requests_with_invalid_blocks cf
         (filter (\<lambda>i. status (sd_store s i) = WAITING_FOR_REMOTE_KVS) (queue_iter (sd_lt s) (sd_skipped s))) invalid sched False s)
       (\<lambda>((async_failed, _, _), s1).
     res_bind (update_requests_with_invalid_blocks cf (sd_running s1) invalid sched True s1) (\<lambda>((sync_failed, _, to_evict), s2).
     if async_failed = [] \<and> sync_failed = [] then Inr ([], s2)
     else
     res_bind (if to_evict \<noteq> [] \<and> \<not> cf_recompute_kv_load_failures cf
               then res_bind (km_evict_blocks (se_hash env) (sd_kv s2) to_evict) (\<lambda>k. Inr (s2\<lparr>sd_kv := k\<rparr>))
               else Inr s2) (\<lambda>s3.
     if \<not> cf_recompute_kv_load_failures cf then Inr (List.union async_failed sync_failed, s3)
     else Inr (sync_failed, s3\<lparr>sd_failed_recving := List.union (sd_failed_recving s3) async_failed\<rparr>))))"

section \<open>Finished transfers\<close>

definition recving_done :: "string \<Rightarrow> 'c scheduler \<Rightarrow> 'c scheduler res" where
  "recving_done rid s =
     (case map_of (sd_requests s) rid of
        None \<Rightarrow> Inl AssertionError
      | Some i \<Rightarrow>
          if status (sd_store s i) = WAITING_FOR_REMOTE_KVS
          then Inr (s\<lparr>sd_finished_recving := List.insert rid (sd_finished_recving s)\<rparr>)
          else guard (is_finished (sd_store s i)) AssertionError (sched_free_blocks i s))"

definition sending_done :: "string \<Rightarrow> 'c scheduler \<Rightarrow> 'c scheduler res" where
  "sending_done rid s =
     (case map_of (sd_requests s) rid of None \<Rightarrow> Inl AssertionError | Some i \<Rightarrow> sched_free_blocks i s)"

definition update_from_kv_xfer_finished :: "'c sched_env \<Rightarrow> kv_connector_output \<Rightarrow> 'c scheduler \<Rightarrow> 'c scheduler res" where
  "update_from_kv_xfer_finished env ko s =
     (let s1 = (case se_connector env of
                  None \<Rightarrow> s | Some con \<Rightarrow> s\<lparr>sd_connector := cn_update_connector_output con ko (sd_connector s)\<rparr>) in
      res_bind (fold_res recving_done (finished_recving ko) s1) (fold_res sending_done (finished_sending ko)))"

section \<open>The whole update\<close>

definition make_stats :: "'c scheduler \<Rightarrow> (scheduler_stats option \<times> 'c scheduler) res" where
  "make_stats s =
     (if \<not> km_log_stats (sd_kv s) then Inr (None, s)
      else case make_prefix_cache_stats (sd_kv s) of
        (None, k) \<Rightarrow> Inl AssertionError
      | (Some ps, k) \<Rightarrow>
          let p = km_pool k;
              (events, p') = (case metrics_collector p of
                 None \<Rightarrow> ([], p) | Some m \<Rightarrow> (case drain_events m of (es, m') \<Rightarrow> (es, p\<lparr>metrics_collector := Some m'\<rparr>)));
              k' = k\<lparr>km_coordinator := (km_coordinator k)\<lparr>co_pool := p'\<rparr>\<rparr> in
          Inr (Some \<lparr>ss_num_running_reqs = length (sd_running s), ss_num_waiting_reqs = queue_len (sd_waiting s),
                     ss_num_skipped_waiting_reqs = queue_len (sd_skipped s), ss_kv_cache_usage = usage k,
                     ss_prefix_cache_stats = ps, ss_eviction_events = events\<rparr>, s\<lparr>sd_kv := k'\<rparr>))"

definition add_finished :: "int \<times> string list \<Rightarrow> (int, engine_core_outputs) odict \<Rightarrow> (int, engine_core_outputs) odict" where
  "add_finished e d =
     (case e of (c, ids) \<Rightarrow>
      AList.update c (case map_of d c of
          Some eco \<Rightarrow> eco\<lparr>ec_finished_requests := Some ids\<rparr>
        | None \<Rightarrow> \<lparr>ec_outputs = [], ec_finished_requests = Some ids, ec_scheduler_stats = None\<rparr>) d)"

definition add_stats :: "scheduler_stats option \<Rightarrow> (int, engine_core_outputs) odict \<Rightarrow> (int, engine_core_outputs) odict" where
  "add_stats st d =
     (case st of
        None \<Rightarrow> d
      | Some x \<Rightarrow> (case d of
            [] \<Rightarrow> [(0, \<lparr>ec_outputs = [], ec_finished_requests = None, ec_scheduler_stats = Some x\<rparr>)]
          | (c, eco) # rest \<Rightarrow> (c, eco\<lparr>ec_scheduler_stats := Some x\<rparr>) # rest))"

text \<open>The requests whose load failed are finished with an error, unless they are to be recomputed.\<close>

definition fail_requests ::
  "'c sched_env \<Rightarrow> string list \<Rightarrow> (int, engine_core_output list) odict \<Rightarrow> 'c scheduler
     \<Rightarrow> ((int, engine_core_output list) odict \<times> 'c scheduler) res" where
  "fail_requests env failed outputs s =
     res_bind (map_res (\<lambda>rid. dict_get rid (sd_requests s)) failed) (\<lambda>is.
     res_bind (finish_requests env (Some failed) FINISHED_ERROR s) (\<lambda>(_, s1).
       Inr (fold (\<lambda>i d. let r = sd_store s1 i in
                   add_output (client_index r) \<lparr>eo_request_id = request_id r, eo_new_token_ids = [],
                     eo_finish_reason = get_finished_reason (status r), eo_stop_reason = None, eo_pooling_output = False\<rparr> d)
              is outputs, s1)))"

text \<open>The result also lists the KV cache events that are published.\<close>

definition update_from_output ::
  "'c sched_env \<Rightarrow> sched_config \<Rightarrow> scheduler_output \<Rightarrow> model_runner_output \<Rightarrow> 'c scheduler
     \<Rightarrow> ((int, engine_core_outputs) odict \<times> kv_cache_event list \<times> 'c scheduler) res" where
  "update_from_output env cf out mo s =
     res_bind (case mo_kv_connector_output mo of
          Some ko \<Rightarrow> if invalid_block_ids ko \<noteq> []
                     then handle_invalid_blocks env cf (invalid_block_ids ko) (so_num_scheduled_tokens out) s else Inr ([], s)
        | None \<Rightarrow> Inr ([], s)) (\<lambda>(failed, s1).
     res_bind (fold_res (update_one env cf out mo failed) (so_num_scheduled_tokens out)
                 (\<lparr>ua_stopped_running = [], ua_stopped_preempted = [], ua_outputs = []\<rparr>, s1)) (\<lambda>(acc, s2).
     let s3 = (if ua_stopped_running acc \<noteq> []
               then s2\<lparr>sd_running := remove_all (sd_running s2) (ua_stopped_running acc)\<rparr> else s2);
         s4 = (if ua_stopped_preempted acc \<noteq> []
               then s3\<lparr>sd_waiting := remove_requests (sd_lt s3) (ua_stopped_preempted acc) (sd_waiting s3)\<rparr> else s3) in
     res_bind (if failed \<noteq> [] \<and> \<not> cf_recompute_kv_load_failures cf
               then fail_requests env failed (ua_outputs acc) s4 else Inr (ua_outputs acc, s4)) (\<lambda>(outputs, s5).
     res_bind (case mo_kv_connector_output mo of None \<Rightarrow> Inr s5 | Some ko \<Rightarrow> update_from_kv_xfer_finished env ko s5) (\<lambda>s6.
     let (events, k) = km_take_events (sd_kv s6); s7 = s6\<lparr>sd_kv := k\<rparr>;
         d0 = map (\<lambda>(c, outs). (c, \<lparr>ec_outputs = outs, ec_finished_requests = None, ec_scheduler_stats = None\<rparr>)) outputs;
         d1 = (case sd_finished_req_ids_dict s7 of None \<Rightarrow> d0 | Some fd \<Rightarrow> fold add_finished fd d0);
         s8 = s7\<lparr>sd_finished_req_ids_dict := map_option (\<lambda>_. []) (sd_finished_req_ids_dict s7)\<rparr> in
     res_bind (make_stats s8) (\<lambda>(stats, s9). Inr (add_stats stats d1, events, s9))))))"

section \<open>Draft tokens\<close>

definition update_draft :: "'c sched_env \<Rightarrow> string \<times> int list \<Rightarrow> 'c scheduler \<Rightarrow> 'c scheduler" where
  "update_draft env e s =
     (case e of (rid, drafts) \<Rightarrow>
      case map_of (sd_requests s) rid of
        None \<Rightarrow> s
      | Some i \<Rightarrow>
          let r = sd_store s i in
          if is_finished r then s
          else if is_prefill_chunk r then set_request i (r\<lparr>spec_token_ids := []\<rparr>) s
          else set_request i (r\<lparr>spec_token_ids := (if se_should_advance env r then se_validate_tokens env r drafts else drafts)\<rparr>) s)"

definition update_draft_token_ids :: "'c sched_env \<Rightarrow> (string \<times> int list) list \<Rightarrow> 'c scheduler \<Rightarrow> 'c scheduler" where
  "update_draft_token_ids env drafts s = fold (update_draft env) drafts s"

definition update_draft_in_output :: "'c sched_env \<Rightarrow> 'c scheduler \<Rightarrow> string \<times> int list
    \<Rightarrow> (string, int list) odict \<times> (string, int) odict \<Rightarrow> ((string, int list) odict \<times> (string, int) odict) res" where
  "update_draft_in_output env s e acc =
     (case (e, acc) of ((rid, drafts), (spec, invalid)) \<Rightarrow>
      case map_of (sd_requests s) rid of
        None \<Rightarrow> Inr (spec, invalid)
      | Some i \<Rightarrow>
          let r = sd_store s i; placeholders = (case map_of spec rid of None \<Rightarrow> [] | Some l \<Rightarrow> l);
              trimmed = take (length placeholders) drafts in
          if is_finished r \<or> placeholders = [] then Inr (spec, invalid)
          else
          guard (\<not> se_should_advance env r \<or> (structured_output_request r \<and> se_grammar_ready env r)) AssertionError
          (let valid = (if se_should_advance env r then se_validate_tokens env r trimmed else trimmed);
               missing = int (length placeholders) - int (length valid) in
           Inr (AList.update rid (valid @ replicate (nat missing) (-1)) spec,
                if missing \<noteq> 0 then AList.update rid missing invalid else invalid)))"

definition update_draft_token_ids_in_output ::
  "'c sched_env \<Rightarrow> (string \<times> int list) list \<Rightarrow> scheduler_output \<Rightarrow> 'c scheduler \<Rightarrow> scheduler_output res" where
  "update_draft_token_ids_in_output env drafts out s =
     res_bind (fold_res (update_draft_in_output env s) drafts (so_scheduled_spec_decode_tokens out, [])) (\<lambda>(spec, invalid).
       Inr (out\<lparr>so_scheduled_spec_decode_tokens := spec, so_num_invalid_spec_tokens := invalid\<rparr>))"

text \<open>The requests that need a grammar bitmask in this step.\<close>

definition structured_output_request_ids :: "scheduler_output \<Rightarrow> 'c scheduler \<Rightarrow> string list" where
  "structured_output_request_ids out s =
     (if \<not> so_has_structured_output_requests out then []
      else filter (\<lambda>rid. case map_of (sd_requests s) rid of
             None \<Rightarrow> False
           | Some i \<Rightarrow> use_structured_output (sd_store s i) \<and> \<not> is_prefill_chunk (sd_store s i))
        (map fst (so_num_scheduled_tokens out)))"

end
