(* ===== verification/Queue_Contents.thy ===== *)
theory Queue_Contents
  imports Request_Queue
begin

text \<open>
  What the queue operations do to the requests held, for any order at all: the sift loops only permute
  the array. The scheduler's accounting of requests rests on these facts and not on the heap property.
\<close>

section \<open>The sift loops permute\<close>

lemma mset_swap_update:
  assumes "i < length h" "j < length h" "i \<noteq> j"
  shows "mset ((h[j := h ! i])[i := x]) = mset (h[j := x])"
  using assms by (simp add: mset_update nth_list_update)

lemma mset_siftdown_loop: "p < length h \<Longrightarrow> mset (siftdown_loop lt s x p h) = mset (h[p := x])"
proof (induction p arbitrary: h rule: less_induct)
  case (less p)
  let ?q = "(p - 1) div 2"
  show ?case
  proof (cases "p > s \<and> lt x (h ! ?q)")
    case True
    then have q: "?q < p" by auto
    have "siftdown_loop lt s x p h = siftdown_loop lt s x ?q (h[p := h ! ?q])"
      using True by (subst siftdown_loop.simps) (simp add: Let_def)
    then show ?thesis using less.IH [OF q, of "h[p := h ! ?q]"] less.prems q mset_swap_update [of ?q h p x] by simp
  next
    case False
    then show ?thesis by (subst siftdown_loop.simps) (auto simp: Let_def)
  qed
qed

lemma mset_siftdown [simp]: "p < length h \<Longrightarrow> mset (siftdown lt h s p) = mset h"
  by (simp add: siftdown_def mset_siftdown_loop)

lemma mset_siftup_loop:
  "p < length h \<Longrightarrow> siftup_loop lt p h = (p', h') \<Longrightarrow>
     p' < length h' \<and> length h' = length h \<and> mset (h'[p' := x]) = mset (h[p := x])"
proof (induction lt p h rule: siftup_loop.induct)
  case (1 lt p h)
  show ?case
  proof (cases "2 * p + 1 < length h")
    case True
    let ?c = "smaller_child lt h (2 * p + 1)"
    have c: "?c < length h" "?c \<noteq> p" using True smaller_child_bounds(2) [OF True, of lt] smaller_child_bounds(1) [of "2 * p + 1" lt h] by auto
    have eq: "siftup_loop lt ?c (h[p := h ! ?c]) = (p', h')"
      using 1(3) True by (subst (asm) siftup_loop.simps) (simp add: Let_def)
    have "p' < length h' \<and> length h' = length (h[p := h ! ?c]) \<and> mset (h'[p' := x]) = mset ((h[p := h ! ?c])[?c := x])"
      using 1(1) [OF True refl _ eq] c by simp
    then show ?thesis using mset_swap_update [of ?c h p x] c 1(2) by simp
  next
    case False
    then show ?thesis using 1(2,3) by (subst (asm) siftup_loop.simps) auto
  qed
qed

lemma mset_siftup [simp]: "p < length h \<Longrightarrow> mset (siftup lt p h) = mset h"
proof -
  assume p: "p < length h"
  obtain p' h' where l: "siftup_loop lt p h = (p', h')" by fastforce
  have "p' < length h'" "mset (h'[p' := h ! p]) = mset h" using mset_siftup_loop [OF p l, of "h ! p"] p by simp_all
  then show ?thesis by (simp add: siftup_def l)
qed

lemma mset_heappush [simp]: "mset (heappush lt x h) = add_mset x (mset h)"
  by (simp add: heappush_def)

lemma mset_heappop:
  assumes "heappop lt h = Inr (x, h')"
  shows "h \<noteq> [] \<and> x = hd h \<and> mset h = add_mset x (mset h')"
proof -
  have ne: "h \<noteq> []" using assms by (auto simp: heappop_def)
  show ?thesis
  proof (cases "butlast h")
    case Nil
    then obtain y where "h = [y]" using ne by (metis append_Nil append_butlast_last_id)
    then show ?thesis using assms by (simp add: heappop_def)
  next
    case (Cons y ys)
    then have h: "h = y # ys @ [last h]" using ne append_butlast_last_id [of h] by simp
    have "x = hd h" "h' = siftup lt 0 (last h # ys)" using assms ne Cons by (auto simp: heappop_def)
    moreover have "mset h = mset (y # ys @ [last h])" using h by metis
    moreover have "hd h = y" using h by (metis list.sel(1))
    ultimately show ?thesis using ne by simp
  qed
qed

lemma heappop_some: "h \<noteq> [] \<Longrightarrow> \<exists>x h'. heappop lt h = Inr (x, h')"
  by (auto simp: heappop_def)

lemma mset_heapify [simp]: "mset (heapify lt h) = mset h"
proof -
  have "mset (fold (siftup lt) is k) = mset k" if "\<forall>i \<in> set is. i < length k" for "is" k
    using that
  proof (induction "is" arbitrary: k)
    case (Cons i "is")
    have "mset (siftup lt i k) = mset k" using Cons.prems by simp
    then have "length (siftup lt i k) = length k" by (metis size_mset)
    then show ?case using Cons by simp
  qed simp
  moreover have "i < length h" if "i \<in> set (rev [0..<length h div 2])" for i using that by auto
  ultimately show ?thesis unfolding heapify_def by blast
qed

lemma mset_drain_heap: "mset (drain_heap lt (length h) h) = mset h"
proof (induction "length h" arbitrary: h)
  case (Suc n)
  then have "h \<noteq> []" by auto
  then obtain x h' where p: "heappop lt h = Inr (x, h')" using heappop_some by blast
  have m: "mset h = add_mset x (mset h')" using mset_heappop [OF p] by simp
  then have "n = length h'" using Suc.hyps(2) by (metis Suc_inject size_add_mset size_mset)
  then show ?case using Suc.hyps(1) [of h'] p m by (simp flip: Suc.hyps(2))
qed simp

section \<open>The requests held\<close>

lemma members_add [simp]: "members (add_request lt x q) = add_mset x (members q)"
  by (cases q) simp_all

lemma members_prepend [simp]: "members (prepend_request lt x q) = add_mset x (members q)"
  by (cases q) simp_all

lemma members_create [simp]: "members (create_request_queue p) = {#}"
  by (cases p) simp_all

lemma members_remove_requests [simp]: "members (remove_requests lt xs q) = filter_mset (\<lambda>r. r \<notin> set xs) (members q)"
  by (cases q) simp_all

lemma members_iter: "mset (queue_iter lt q) = members q"
  by (cases q) (simp_all add: mset_drain_heap)

lemma members_prepend_requests [simp]: "members (prepend_requests lt other q) = members other + members q"
proof (cases q)
  case (FCFSRequestQueue xs)
  then show ?thesis by (simp add: members_iter)
next
  case (PriorityRequestQueue h)
  have "members (fold (add_request lt) xs k) = mset xs + members k" for xs and k :: "'a request_queue"
    by (induction xs arbitrary: k) simp_all
  then show ?thesis by (simp add: PriorityRequestQueue members_iter)
qed

lemma members_pop:
  assumes "pop_request lt q = Inr (x, q')"
  shows "peek_request q = Inr x \<and> members q = add_mset x (members q') \<and> queue_nonempty q \<and> queue_len q = Suc (queue_len q')"
proof (cases q)
  case (FCFSRequestQueue xs)
  then show ?thesis using assms by (cases xs) auto
next
  case (PriorityRequestQueue h)
  then obtain h' where p: "heappop lt h = Inr (x, h')" "q' = PriorityRequestQueue h'" using assms by (auto split: if_splits)
  have "h \<noteq> []" "x = hd h" "mset h = add_mset x (mset h')" using mset_heappop [OF p(1)] by simp_all
  then show ?thesis using PriorityRequestQueue p(2) by simp (metis size_add_mset size_mset)
qed

lemma pop_peek:
  assumes "peek_request q = Inr x"
  shows "\<exists>q'. pop_request lt q = Inr (x, q')"
proof (cases q)
  case (FCFSRequestQueue xs)
  then show ?thesis using assms by (cases xs) auto
next
  case (PriorityRequestQueue h)
  then have "h \<noteq> []" "x = hd h" using assms by (auto split: if_splits)
  then show ?thesis using heappop_some [of h lt] mset_heappop [of lt h] PriorityRequestQueue by auto
qed

lemma peek_nonempty: "queue_nonempty q \<Longrightarrow> \<exists>x. peek_request q = Inr x"
  by (cases q) auto

lemma queue_len_members: "queue_len q = size (members q)"
  by (cases q) simp_all

lemma queue_nonempty_members: "queue_nonempty q \<longleftrightarrow> members q \<noteq> {#}"
  by (cases q) simp_all

end
