(* ===== verification/Scheduler_Frames.thy ===== *)
theory Scheduler_Frames
  imports Scheduler_Update Queue_Contents
begin

text \<open>
  What the calls of the scheduler leave alone: the KV cache manager never changes its configuration, and of a request
  only the memo of embedding hashes. The facts are collected in \<open>frame\<close>, in a form that \<^verbatim>\<open>auto\<close> applies forward.
\<close>

named_theorems frame \<open>what an operation leaves unchanged\<close>

section \<open>Properties of all results\<close>

text \<open>
  \<open>res_all P m\<close>: if \<open>m\<close> returns, its value satisfies \<open>P\<close>; the introduction rules follow the program text.
\<close>

definition res_all :: "('a \<Rightarrow> bool) \<Rightarrow> 'a res \<Rightarrow> bool" where
  "res_all P m \<longleftrightarrow> (\<forall>x. m = Inr x \<longrightarrow> P x)"

lemma res_allD: "res_all P m \<Longrightarrow> m = Inr x \<Longrightarrow> P x"
  by (simp add: res_all_def)

named_theorems res_rules \<open>rules of \<open>res_all\<close>, by the shape of the program\<close>

lemma res_all_Inr [res_rules]: "P x \<Longrightarrow> res_all P (Inr x)" by (simp add: res_all_def)

lemma res_all_Inl [res_rules]: "res_all P (Inl e)" by (simp add: res_all_def)

lemma res_all_if [res_rules]: "(c \<Longrightarrow> res_all P a) \<Longrightarrow> (\<not> c \<Longrightarrow> res_all P b) \<Longrightarrow> res_all P (if c then a else b)" by simp

lemma res_all_guard [res_rules]: "(c \<Longrightarrow> res_all P k) \<Longrightarrow> res_all P (guard c e k)" by (simp add: res_all_def)

lemma res_all_bind [res_rules]: "(\<And>x. m = Inr x \<Longrightarrow> res_all P (f x)) \<Longrightarrow> res_all P (res_bind m f)" by (auto simp: res_all_def)

lemma res_all_pair [res_rules]: "(\<And>a b. x = (a, b) \<Longrightarrow> res_all P (f a b)) \<Longrightarrow> res_all P (case x of (a, b) \<Rightarrow> f a b)"
  by (cases x) simp

lemma res_all_option [res_rules]:
  "(x = None \<Longrightarrow> res_all P a) \<Longrightarrow> (\<And>y. x = Some y \<Longrightarrow> res_all P (f y)) \<Longrightarrow> res_all P (case x of None \<Rightarrow> a | Some y \<Rightarrow> f y)"
  by (cases x) simp_all

section \<open>The request is only memoised\<close>

definition memo_of :: "request \<Rightarrow> request \<Rightarrow> bool" where
  "memo_of r r' \<longleftrightarrow> (\<exists>m. r' = with_memo r m)"

lemma memo_of_refl [simp]: "memo_of r r"
  unfolding memo_of_def by (intro exI [of _ "prompt_embeds_per_block_hashes r"]) simp

lemma memo_of_trans: "memo_of r r' \<Longrightarrow> memo_of r' r'' \<Longrightarrow> memo_of r r''"
  by (auto simp: memo_of_def)

lemma memo_of_fields:
  assumes "memo_of r r'"
  shows "request_id r' = request_id r" "object_id r' = object_id r" "priority r' = priority r" "arrival_time r' = arrival_time r"
    "status r' = status r" "all_token_ids r' = all_token_ids r" "resumable r' = resumable r"
    "num_computed_tokens r' = num_computed_tokens r" "num_prompt_tokens r' = num_prompt_tokens r"
    "spec_token_ids r' = spec_token_ids r" "num_output_placeholders r' = num_output_placeholders r"
    "mm_features r' = mm_features r" "client_index r' = client_index r" "max_tokens r' = max_tokens r"
    "lora_request r' = lora_request r" "streaming_queue r' = streaming_queue r"
  using assms by (auto simp: memo_of_def)

lemma extra_keys_memo:
  "generate_block_hash_extra_keys E r s e i = Inr (ks, j, r') \<Longrightarrow> memo_of r r'"
  by (auto simp: generate_block_hash_extra_keys_def gen_prompt_embeds_extra_hash_keys_def Let_def memo_of_def
      split: option.splits prod.splits intro: exI [of _ "prompt_embeds_per_block_hashes r"])

lemma event_keys_memo:
  "event_keys_loop E p blocks bs is (mm, acc, r) = Inr (ks, r') \<Longrightarrow> memo_of r r'"
  by (induction "is" arbitrary: mm acc r) (auto split: if_splits dest!: extra_keys_memo intro: memo_of_trans)

lemma cache_full_blocks_memo:
  "cache_full_blocks E p r blocks a b bs g = Inr (p', r') \<Longrightarrow> memo_of r r'"
  by (auto simp: cache_full_blocks_def dest!: event_keys_memo split: if_splits)

lemma cache_blocks_memo: "cache_blocks E m p r n = Inr (m', p', r') \<Longrightarrow> memo_of r r'"
  by (auto simp: cache_blocks_def mamba_cache_blocks_def base_cache_blocks_def Let_def
      dest!: cache_full_blocks_memo split: kv_cache_spec.splits if_splits)

lemma cache_each_memo: "cache_each E n ms p r = Inr (ms', p', r') \<Longrightarrow> memo_of r r'"
  by (induction ms arbitrary: p r ms' p') (auto dest!: cache_blocks_memo intro: memo_of_trans)

lemma hasher_loop_memo: "hasher_loop E bs n r s mm prev acc = Inr (hs, r') \<Longrightarrow> memo_of r r'"
proof (induction E bs n r s mm prev acc rule: hasher_loop.induct)
  case (1 E bs n r s mm prev acc)
  show ?case
  proof (cases "bs = 0 \<or> s + bs > n")
    case True
    then show ?thesis using 1(2) by (subst (asm) hasher_loop.simps) auto
  next
    case False
    then obtain ks mm' r1 where g: "generate_block_hash_extra_keys E r s (s + bs) mm = Inr (ks, mm', r1)"
      and l: "hasher_loop E bs n r1 (s + bs) mm' (Some (hash_block_tokens E prev (py_slice s (s + bs) (all_token_ids r1)) ks))
        (acc @ [hash_block_tokens E prev (py_slice s (s + bs) (all_token_ids r1)) ks]) = Inr (hs, r')"
      using 1(2) by (subst (asm) hasher_loop.simps) (auto simp: Let_def split: sum.splits prod.splits)
    have "memo_of r1 r'" using 1(1) [OF False g refl refl refl l] .
    then show ?thesis using extra_keys_memo [OF g] memo_of_trans by blast
  qed
qed

text \<open>The hypothesis on the block hasher, and that the repository's hasher meets it.\<close>

definition hasher_ok :: "block_hasher option \<Rightarrow> bool" where
  "hasher_ok hasher \<longleftrightarrow> (\<forall>f r hs r'. hasher = Some f \<longrightarrow> f r = Inr (hs, r') \<longrightarrow> memo_of r r')"

lemma request_block_hasher_ok: "hasher_ok (Some (request_block_hasher E bs))"
  by (auto simp: hasher_ok_def request_block_hasher_def Let_def dest!: hasher_loop_memo split: if_splits)

section \<open>The manager keeps its configuration\<close>

definition km_shape :: "kv_manager \<Rightarrow> int \<times> bool \<times> bool \<times> nat \<times> kv_cache_config \<times> coordinator_kind" where
  "km_shape k = (km_max_model_len k, km_enable_caching k, km_log_stats k, num_kv_cache_groups k,
     co_config (km_coordinator k), co_kind (km_coordinator k))"

definition co_shape :: "coordinator \<Rightarrow> kv_cache_config \<times> coordinator_kind" where
  "co_shape c = (co_config c, co_kind c)"

lemma km_shape_coordinator: "co_shape c = co_shape (km_coordinator k) \<Longrightarrow> km_shape (k\<lparr>km_coordinator := c\<rparr>) = km_shape k"
  by (simp add: km_shape_def co_shape_def)

lemma on_managers_shape: "on_managers f c = Inr (rs, c') \<Longrightarrow> co_shape c' = co_shape c"
  by (auto simp: on_managers_def co_shape_def)

lemma co_shapes:
  "co_get_num_blocks_to_allocate c rid a hits b d e = Inr (n, c') \<Longrightarrow> co_shape c' = co_shape c"
  "co_allocate_new_computed_blocks E c rid hits a b = Inr c' \<Longrightarrow> co_shape c' = co_shape c"
  "co_allocate_new_blocks E c rid a b d = Inr (bs, c') \<Longrightarrow> co_shape c' = co_shape c"
  "co_cache_blocks E c r a = Inr (c', r') \<Longrightarrow> co_shape c' = co_shape c"
  "co_free c rid = Inr c' \<Longrightarrow> co_shape c' = co_shape c"
  "co_remove_skipped_blocks c rid a = Inr c' \<Longrightarrow> co_shape c' = co_shape c"
  "co_get_num_common_prefix_blocks c rid = Inr (ns, c') \<Longrightarrow> co_shape c' = co_shape c"
  by (auto simp: co_get_num_blocks_to_allocate_def co_allocate_new_computed_blocks_def co_allocate_new_blocks_def co_free_def
      co_remove_skipped_blocks_def co_get_num_common_prefix_blocks_def split: coordinator_kind.splits dest: on_managers_shape)
    (auto simp: co_cache_blocks_def co_shape_def)

lemma km_free_frame [frame]: "km_free k r = Inr k' \<Longrightarrow> km_shape k' = km_shape k"
  by (auto simp: km_free_def on_coordinator_def intro!: km_shape_coordinator dest: co_shapes)

lemma km_remove_skipped_frame [frame]: "km_remove_skipped_blocks k rid n = Inr k' \<Longrightarrow> km_shape k' = km_shape k"
  by (auto simp: km_remove_skipped_blocks_def on_coordinator_def intro!: km_shape_coordinator dest: co_shapes)

lemma km_evict_frame [frame]: "km_evict_blocks E k ids = Inr k' \<Longrightarrow> km_shape k' = km_shape k"
  by (auto simp: km_evict_blocks_def on_coordinator_def km_shape_def)

lemma km_cache_blocks_frame [frame]: "km_cache_blocks E k r n = Inr (k', r') \<Longrightarrow> km_shape k' = km_shape k \<and> memo_of r r'"
  by (auto simp: km_cache_blocks_def co_cache_blocks_def km_shape_def split: if_splits dest: cache_each_memo)

lemma can_fit_frame [frame]: "can_fit_full_sequence k r a bl b n = Inr (ok, k') \<Longrightarrow> km_shape k' = km_shape k"
  by (auto simp: can_fit_full_sequence_def Let_def intro!: km_shape_coordinator dest: co_shapes)

lemma common_prefix_frame [frame]: "km_get_num_common_prefix_blocks k rid = Inr (ns, k') \<Longrightarrow> km_shape k' = km_shape k"
  by (auto simp: km_get_num_common_prefix_blocks_def intro!: km_shape_coordinator dest: co_shapes)

lemma take_new_block_ids_frame [simp]: "km_shape (snd (km_take_new_block_ids k)) = km_shape k"
  by (simp add: km_take_new_block_ids_def km_shape_def Let_def)

lemma new_step_frame [simp]: "km_shape (km_new_step_starts k) = km_shape k"
  by (simp add: km_new_step_starts_def co_new_step_starts_def km_shape_def)

lemma computed_blocks_frame [frame]: "get_computed_blocks k r = Some (Inr (bl, n, k')) \<Longrightarrow> km_shape k' = km_shape k"
  by (auto simp: get_computed_blocks_def km_shape_def Let_def split: if_splits option.splits)

lemma allocate_slots_frame [frame]:
  assumes "allocate_slots E k r n nc bl look ext delay n_enc = Inr (res, k', r')"
  shows "km_shape k' = km_shape k \<and> memo_of r r'"
proof -
  let ?bl = "block_list k bl" and ?rid = "request_id r"
  define a where "a = min (num_computed_tokens r + nc + ext) (km_max_model_len k)"
  define b where "b = min (a + n + look) (km_max_model_len k)"
  obtain c1 cnt c2 where 1: "co_remove_skipped_blocks (km_coordinator k) ?rid a = Inr c1"
    "co_get_num_blocks_to_allocate c1 ?rid b (kb_blocks ?bl) n_enc (num_computed_tokens r + nc + ext) (a + n) = Inr (cnt, c2)"
    and R: "(if cnt > get_num_free_blocks (co_pool c2) then Inr (None, k\<lparr>km_coordinator := c2\<rparr>, r)
      else
      res_bind (if \<not> is_shared_empty ?bl \<or> ext > 0
                then co_allocate_new_computed_blocks E c2 ?rid (kb_blocks ?bl) (num_computed_tokens r + nc) ext
                else Inr c2) (\<lambda>c3.
      res_bind (co_allocate_new_blocks E c3 ?rid b (a + n) n_enc) (\<lambda>(new_blocks, c4).
      if \<not> km_enable_caching k \<or> delay
      then Inr (Some (create_kv_cache_blocks k new_blocks), k\<lparr>km_coordinator := c4\<rparr>, r)
      else
      res_bind (co_cache_blocks E c4 r (min (a + n) (int (num_tokens r)))) (\<lambda>(c5, r').
        Inr (Some (create_kv_cache_blocks k new_blocks), k\<lparr>km_coordinator := c5\<rparr>, r'))))) = Inr (res, k', r')"
    using assms unfolding allocate_slots_def Let_def guard_eq_Inr a_def [symmetric] b_def [symmetric]
    by (elim conjE, subst (asm) res_bind_eq_Inr, elim exE conjE, subst (asm) res_bind_eq_Inr, elim exE conjE)
      (simp only: split_paired_all prod.case)
  have s2: "co_shape c2 = co_shape (km_coordinator k)" using co_shapes(1) [OF 1(2)] co_shapes(6) [OF 1(1)] by simp
  show ?thesis
  proof (cases "cnt > get_num_free_blocks (co_pool c2)")
    case True
    then show ?thesis using R s2 by (auto intro: km_shape_coordinator)
  next
    case False
    then obtain c3 new c4 where 2: "(if \<not> is_shared_empty ?bl \<or> ext > 0
                then co_allocate_new_computed_blocks E c2 ?rid (kb_blocks ?bl) (num_computed_tokens r + nc) ext
                else Inr c2) = Inr c3" "co_allocate_new_blocks E c3 ?rid b (a + n) n_enc = Inr (new, c4)"
      and F: "(if \<not> km_enable_caching k \<or> delay
      then Inr (Some (create_kv_cache_blocks k new), k\<lparr>km_coordinator := c4\<rparr>, r)
      else
      res_bind (co_cache_blocks E c4 r (min (a + n) (int (num_tokens r)))) (\<lambda>(c5, r').
        Inr (Some (create_kv_cache_blocks k new), k\<lparr>km_coordinator := c5\<rparr>, r'))) = Inr (res, k', r')"
      using R unfolding if_not_P [OF False] 
      by (subst (asm) res_bind_eq_Inr, elim exE conjE, subst (asm) res_bind_eq_Inr, elim exE conjE)
        (simp only: split_paired_all prod.case)
    have Q: "k' = k\<lparr>km_coordinator := c4\<rparr> \<and> r' = r
        \<or> (\<exists>c5 t. co_cache_blocks E c4 r t = Inr (c5, r') \<and> k' = k\<lparr>km_coordinator := c5\<rparr>)"
      using F by (auto split: if_splits)
    have "co_shape c3 = co_shape c2" using 2(1) co_shapes(2) [of E c2] by (auto split: if_splits)
    moreover have "co_shape c4 = co_shape c3" by (rule co_shapes(3) [OF 2(2)])
    ultimately have s4: "co_shape c4 = co_shape (km_coordinator k)" using s2 by simp
    show ?thesis using Q
    proof
      assume "\<exists>c5 t. co_cache_blocks E c4 r t = Inr (c5, r') \<and> k' = k\<lparr>km_coordinator := c5\<rparr>"
      then obtain c5 t where c: "co_cache_blocks E c4 r t = Inr (c5, r')" "k' = k\<lparr>km_coordinator := c5\<rparr>" by blast
      then have "co_shape c5 = co_shape (km_coordinator k)" using s4 co_shapes(4) [OF c(1)] by simp
      moreover have "memo_of r r'" using c(1) by (auto simp: co_cache_blocks_def dest: cache_each_memo)
      ultimately show ?thesis using c(2) by (auto intro: km_shape_coordinator)
    qed (use s4 in \<open>auto intro: km_shape_coordinator\<close>)
  qed
qed

end
