(* ===== verification/Scheduler_Accounts.thy ===== *)
theory Scheduler_Accounts
  imports Scheduler_Frames
begin

text \<open>
  The accounts of the scheduler: every unfinished request is in exactly one of the queues, with the status that
  belongs there, and a scheduling step moves requests between the queues without losing one. The same
  induction gives the token budget of the step and the bound on the running requests.
\<close>

section \<open>The invariant\<close>

text \<open>What identifies a request and does not change while it is scheduled.\<close>

definition ident :: "request \<Rightarrow> string \<times> nat \<times> int \<times> rat \<times> bool \<times> int list \<times> bool" where
  "ident r = (request_id r, object_id r, priority r, arrival_time r, resumable r, all_token_ids r, is_finished r)"

definition same_objects :: "'c scheduler \<Rightarrow> 'c scheduler \<Rightarrow> bool" where
  "same_objects s s' \<longleftrightarrow> (\<forall>j. ident (sd_store s' j) = ident (sd_store s j))
     \<and> sd_requests s' = sd_requests s \<and> sd_pause s' = sd_pause s \<and> km_shape (sd_kv s') = km_shape (sd_kv s)"

definition same_status :: "'c scheduler \<Rightarrow> 'c scheduler \<Rightarrow> bool" where
  "same_status s s' \<longleftrightarrow> (\<forall>j. status (sd_store s' j) = status (sd_store s j))"

definition quiet :: "'c scheduler \<Rightarrow> 'c scheduler \<Rightarrow> bool" where
  "quiet s s' \<longleftrightarrow> same_objects s s' \<and> same_status s s' \<and> sd_running s' = sd_running s
     \<and> sd_waiting s' = sd_waiting s \<and> sd_skipped s' = sd_skipped s"

definition waiting_status :: "request_status \<Rightarrow> bool" where
  "waiting_status st \<longleftrightarrow> st \<noteq> RUNNING \<and> \<not> is_finished_status st"

definition queued :: "'c scheduler \<Rightarrow> nat multiset" where
  "queued s = members (sd_waiting s) + members (sd_skipped s)"

definition unfinished :: "'c scheduler \<Rightarrow> nat multiset" where
  "unfinished s = mset (filter (\<lambda>i. \<not> is_finished (sd_store s i)) (map snd (sd_requests s)))"

definition requests_ok :: "'c scheduler \<Rightarrow> bool" where
  "requests_ok s \<longleftrightarrow> od_wf (sd_requests s) \<and> (\<forall>(rid, i) \<in> set (sd_requests s). request_id (sd_store s i) = rid)"

text \<open>\<open>aside\<close> are the requests that a step in progress has set aside.\<close>

definition placed :: "nat multiset \<Rightarrow> 'c scheduler \<Rightarrow> bool" where
  "placed aside s \<longleftrightarrow> requests_ok s
     \<and> (\<forall>i \<in> set (sd_running s). status (sd_store s i) = RUNNING)
     \<and> (\<forall>i \<in># queued s + aside. waiting_status (status (sd_store s i)))
     \<and> mset (sd_running s) + queued s + aside = unfinished s"

definition sched_inv :: "sched_config \<Rightarrow> 'c scheduler \<Rightarrow> bool" where
  "sched_inv cf s \<longleftrightarrow> placed {#} s \<and> length (sd_running s) \<le> cf_max_num_running_reqs cf"

lemma same_objects_trans: "same_objects s s' \<Longrightarrow> same_objects s' s'' \<Longrightarrow> same_objects s s''"
  by (simp add: same_objects_def)

lemma quiet_refl [simp]: "quiet s s"
  by (simp add: quiet_def same_objects_def same_status_def)

lemma same_objects_refl [simp]: "same_objects s s"
  by (simp add: same_objects_def)

lemma quiet_trans: "quiet s s' \<Longrightarrow> quiet s' s'' \<Longrightarrow> quiet s s''"
  by (simp add: quiet_def same_objects_def same_status_def)

lemma quiet_objects: "quiet s s' \<Longrightarrow> same_objects s s'"
  by (simp add: quiet_def)

lemma quiet_update [simp]:
  "quiet s (s\<lparr>sd_enc := e\<rparr>)" "quiet s (s\<lparr>sd_connector := c\<rparr>)"
  "quiet s (s\<lparr>sd_finished_recving := x\<rparr>)" "quiet s (s\<lparr>sd_failed_recving := x\<rparr>)"
  by (simp_all add: quiet_def same_objects_def same_status_def)

lemma quiet_kv: "km_shape k = km_shape (sd_kv s) \<Longrightarrow> quiet s (s\<lparr>sd_kv := k\<rparr>)"
  by (simp add: quiet_def same_objects_def same_status_def)

lemma quiet_set: "ident r = ident (sd_store s i) \<Longrightarrow> status r = status (sd_store s i) \<Longrightarrow> quiet s (set_request i r s)"
  by (simp add: quiet_def same_objects_def same_status_def set_request_def)

lemma quiet_memo: "memo_of (sd_store s i) r \<Longrightarrow> km_shape k = km_shape (sd_kv s) \<Longrightarrow> quiet s (set_request i r (s\<lparr>sd_kv := k\<rparr>))"
  by (auto simp: quiet_def same_objects_def same_status_def set_request_def ident_def is_finished_def memo_of_def)

lemma quiet_placed: "quiet s s' \<Longrightarrow> placed aside s' = placed aside s"
proof -
  assume q: "quiet s s'"
  then have "request_id (sd_store s' i) = request_id (sd_store s i)" "status (sd_store s' i) = status (sd_store s i)" for i
    by (simp_all add: quiet_def same_objects_def same_status_def ident_def is_finished_def)
  then show "placed aside s' = placed aside s"
    using q by (simp add: quiet_def same_objects_def placed_def requests_ok_def queued_def unfinished_def is_finished_def)
qed

lemma same_unfinished: "same_objects s s' \<Longrightarrow> unfinished s' = unfinished s"
  by (simp add: unfinished_def same_objects_def ident_def)

text \<open>Exactly one queue holds an unfinished request, exactly once.\<close>

lemma distinct_refs:
  assumes ok: "requests_ok s"
  shows "distinct (map snd (sd_requests s))"
proof -
  have eq: "map fst (sd_requests s) = map (\<lambda>e. request_id (sd_store s (snd e))) (sd_requests s)"
    using ok by (auto simp: requests_ok_def)
  have "distinct (map fst (sd_requests s))" using ok by (simp add: requests_ok_def)
  then have "distinct (map (\<lambda>i. request_id (sd_store s i)) (map snd (sd_requests s)))" unfolding eq map_map comp_def .
  then show ?thesis by (subst (asm) distinct_map) (rule conjunct1)
qed

lemma unfinished_distinct: "requests_ok s \<Longrightarrow> count (unfinished s) i \<le> 1"
proof -
  assume "requests_ok s"
  then have "distinct (filter (\<lambda>i. \<not> is_finished (sd_store s i)) (map snd (sd_requests s)))"
    by (intro distinct_filter distinct_refs)
  then have "count (unfinished s) i = (if i \<in> set (filter (\<lambda>i. \<not> is_finished (sd_store s i)) (map snd (sd_requests s))) then 1 else 0)"
    unfolding unfinished_def distinct_count_atmost_1 by (rule spec)
  then show ?thesis by (simp only: split: if_split) simp
qed

lemma count_le_1_distinct: "(\<And>a. count (mset xs) a \<le> 1) \<Longrightarrow> distinct xs"
proof -
  assume le: "\<And>a. count (mset xs) a \<le> 1"
  have "count (mset xs) a = (if a \<in> set xs then 1 else 0)" for a
    using le [of a] count_eq_zero_iff [of "mset xs" a] by (cases "count (mset xs) a") auto
  then show ?thesis unfolding distinct_count_atmost_1 by (rule allI)
qed

lemma placed_distinct:
  assumes "placed aside s"
  shows "distinct (sd_running s)" "i \<in> set (sd_running s) \<Longrightarrow> i \<notin># queued s + aside" "count (queued s + aside) i \<le> 1"
proof -
  have eq: "mset (sd_running s) + (queued s + aside) = unfinished s" and ok: "requests_ok s"
    using assms by (simp_all add: placed_def add.assoc)
  have le: "count (mset (sd_running s)) j + count (queued s + aside) j \<le> 1" for j
    unfolding count_union [symmetric] eq by (rule unfinished_distinct [OF ok])
  show "distinct (sd_running s)" by (rule count_le_1_distinct) (use le add_leD1 in blast)
  show "count (queued s + aside) i \<le> 1" using le [of i] by simp
  show "i \<notin># queued s + aside" if "i \<in> set (sd_running s)"
  proof -
    have "0 < count (mset (sd_running s)) i" using that by simp
    then have "count (queued s + aside) i = 0" using le [of i] by linarith
    then show ?thesis by (simp only: count_eq_zero_iff not_False_eq_True)
  qed
qed

abbreviation rid_of :: "'c scheduler \<Rightarrow> nat \<Rightarrow> string" where
  "rid_of s i \<equiv> request_id (sd_store s i)"

lemma same_objects_rid: "same_objects s s' \<Longrightarrow> rid_of s' i = rid_of s i"
  by (simp add: same_objects_def ident_def is_finished_def)

lemma placed_rid_inj:
  assumes "placed aside s"
  shows "inj_on (rid_of s) (set (sd_running s) \<union> set_mset (queued s + aside))"
proof -
  have ok: "requests_ok s" using assms by (simp add: placed_def)
  have "inj_on (rid_of s) (snd ` set (sd_requests s))"
  proof (rule inj_onI)
    fix i j assume "i \<in> snd ` set (sd_requests s)" "j \<in> snd ` set (sd_requests s)" and eq: "rid_of s i = rid_of s j"
    then obtain a b where ab: "(a, i) \<in> set (sd_requests s)" "(b, j) \<in> set (sd_requests s)" by auto
    then have "rid_of s i = a" "rid_of s j = b" using ok unfolding requests_ok_def by blast+
    then have "a = b" using eq by simp
    then show "i = j" using ab ok unfolding requests_ok_def by (metis map_of_is_SomeI option.inject)
  qed
  moreover have "set (sd_running s) \<union> set_mset (queued s + aside) = set_mset (unfinished s)"
    using assms unfolding placed_def by (metis add.assoc set_mset_mset set_mset_union)
  then have "set (sd_running s) \<union> set_mset (queued s + aside) \<subseteq> snd ` set (sd_requests s)"
    by (auto simp: unfinished_def)
  ultimately show ?thesis by (rule inj_on_subset)
qed

section \<open>Preemption\<close>

lemma preempt_frame:
  assumes "preempt_request j s = Inr s'"
  shows "status (sd_store s j) = RUNNING \<and> same_objects s s' \<and> sd_running s' = sd_running s \<and> sd_skipped s' = sd_skipped s
    \<and> members (sd_waiting s') = add_mset j (members (sd_waiting s))
    \<and> (\<forall>i. status (sd_store s' i) = (if i = j then PREEMPTED else status (sd_store s i)))
    \<and> (\<forall>i. i \<noteq> j \<longrightarrow> sd_store s' i = sd_store s i)"
  using assms
  by (auto simp: preempt_request_def Let_def upd_request_def set_request_def same_objects_def ident_def is_finished_def split: if_splits dest: frame)

lemma preempt_placed:
  assumes p: "placed aside s" and j: "j \<in> set (sd_running s)" and run: "sd_running s1 = remove1 j (sd_running s)"
    and s1: "sd_store s1 = sd_store s" "sd_requests s1 = sd_requests s" "sd_waiting s1 = sd_waiting s" "sd_skipped s1 = sd_skipped s"
    and pre: "preempt_request j s1 = Inr s'"
  shows "placed aside s'"
proof -
  note F = preempt_frame [OF pre]
  have rid: "rid_of s' i = rid_of s i" for i using F s1 same_objects_rid [of s1 s' i] by simp
  have st: "status (sd_store s' i) = (if i = j then PREEMPTED else status (sd_store s i))" for i using F s1 by simp
  have reqs: "sd_requests s' = sd_requests s" using F s1 by (simp add: same_objects_def)
  have q: "queued s' = add_mset j (queued s)" using F s1 by (simp add: queued_def)
  have run': "sd_running s' = remove1 j (sd_running s)" using F run by simp
  have fin: "is_finished (sd_store s' i) = is_finished (sd_store s i)" for i
    using st [of i] p j by (auto simp: is_finished_def placed_def)
  have "requests_ok s'" using p reqs rid by (simp add: placed_def requests_ok_def)
  moreover have "\<forall>i \<in> set (sd_running s'). status (sd_store s' i) = RUNNING"
    using placed_distinct(1) [OF p] p st unfolding run' by (auto simp: placed_def)
  moreover have "\<forall>i \<in># queued s' + aside. waiting_status (status (sd_store s' i))"
    using p st unfolding q by (auto simp: placed_def waiting_status_def)
  moreover have "mset (sd_running s') + queued s' + aside = unfinished s'"
  proof -
    have "unfinished s' = unfinished s" unfolding unfinished_def reqs fin ..
    then show ?thesis using p j unfolding run' q by (simp add: placed_def)
  qed
  ultimately show ?thesis by (simp add: placed_def)
qed

lemma worst_mem: "worst rq l = Inr j \<Longrightarrow> j \<in> set l"
proof -
  have "fold (\<lambda>y best. if worse (rq y) (rq best) then y else best) xs x \<in> insert x (set xs)" for xs x
    by (induction xs arbitrary: x) auto
  then show "worst rq l = Inr j \<Longrightarrow> j \<in> set l" by (cases l) (auto simp: worst_def)
qed

lemma butlast_remove1: "distinct xs \<Longrightarrow> xs \<noteq> [] \<Longrightarrow> butlast xs = remove1 (last xs) xs"
  by (induction xs rule: rev_induct) (auto simp: remove1_append)

section \<open>The accounts of a step\<close>

definition scheduled :: "sched_step \<Rightarrow> nat list" where
  "scheduled t = st_new t @ st_resumed t @ st_running t"

definition sched_ok :: "int \<Rightarrow> sched_step \<Rightarrow> 'c scheduler \<Rightarrow> bool" where
  "sched_ok B t s \<longleftrightarrow>
     od_wf (st_tokens t) \<and> fst ` set (st_tokens t) = rid_of s ` set (scheduled t)
     \<and> fst ` set (st_new_blocks t) = rid_of s ` set (scheduled t)
     \<and> distinct (scheduled t) \<and> set (scheduled t) \<subseteq> set (sd_running s)
     \<and> (\<forall>(k, n) \<in> set (st_tokens t). 0 < n)
     \<and> st_budget t + sum_list (map snd (st_tokens t)) = B \<and> 0 \<le> st_budget t"

lemma sum_delete:
  "od_wf d \<Longrightarrow> map_of d k = Some (n :: int) \<Longrightarrow> sum_list (map snd (AList.delete k d)) = sum_list (map snd d) - n"
proof (induction d)
  case (Cons e d)
  obtain a b where e: "e = (a, b)" by fastforce
  show ?case
  proof (cases "a = k")
    case True
    then have "k \<notin> fst ` set d" using Cons.prems(1) e by auto
    then show ?thesis using Cons.prems e True by (simp add: delete_not_key del: map_of_eq_Some_iff)
  next
    case False
    then show ?thesis using Cons e by (simp del: map_of_eq_Some_iff)
  qed
qed simp

lemma update_new: "k \<notin> fst ` set d \<Longrightarrow> AList.update k v d = d @ [(k, v)]"
  by (induction d) auto

lemma set_delete_subset: "set (AList.delete k d) \<subseteq> set d"
  by (simp add: AList.delete_eq)

lemma sched_ok_quiet: "quiet s s' \<Longrightarrow> sched_ok B t s' = sched_ok B t s"
proof -
  assume q: "quiet s s'"
  have "rid_of s' i = rid_of s i" for i by (rule same_objects_rid [OF quiet_objects [OF q]])
  then show ?thesis using q by (simp add: sched_ok_def quiet_def)
qed

text \<open>Dropping request \<open>j\<close> from the running queue and from the step.\<close>

lemma unschedule_ok:
  assumes ok: "sched_ok B t s" and p: "placed aside s" and j: "j \<in> set (sd_running s)"
    and new: "j \<notin> set (st_new t)" "j \<notin> set (st_resumed t)"
    and un: "unschedule s j t = Inr t'" and run: "sd_running s' = remove1 j (sd_running s)" and obj: "same_objects s s'"
  shows "sched_ok B t' s' \<and> st_budget t \<le> st_budget t' \<and> st_running t' = remove1 j (st_running t)
    \<and> st_new t' = st_new t \<and> st_resumed t' = st_resumed t
    \<and> st_index t' = (if j \<in> set (st_running t) then st_index t - 1 else st_index t)"
proof -
  have d: "distinct (sd_running s)" by (rule placed_distinct(1) [OF p])
  have rid: "rid_of s' i = rid_of s i" for i by (rule same_objects_rid [OF obj])
  have inj: "inj_on (rid_of s) (set (sd_running s))" using placed_rid_inj [OF p] by (rule inj_on_subset) simp
  show ?thesis
  proof (cases "j \<in> set (st_running t)")
    case False
    then have "t' = t" using un by (simp add: unschedule_def)
    moreover have "set (scheduled t) \<subseteq> set (sd_running s')" using ok new False d unfolding run sched_ok_def scheduled_def by auto
    ultimately show ?thesis using ok False by (simp add: sched_ok_def rid remove1_idem)
  next
    case True
    let ?r = "rid_of s j"
    obtain n restored where n: "map_of (st_tokens t) ?r = Some n"
      and t': "t' = t\<lparr>st_running := remove1 j (st_running t), st_budget := st_budget t + n,
                  st_tokens := AList.delete ?r (st_tokens t), st_new_blocks := AList.delete ?r (st_new_blocks t),
                  st_spec := AList.delete ?r (st_spec t), st_enc_inputs := AList.delete ?r (st_enc_inputs t),
                  st_enc_budget := st_enc_budget t + restored, st_index := st_index t - 1\<rparr>"
      using un True by (cases "map_of (st_tokens t) ?r") (auto simp: unschedule_def Let_def)
    have ds: "distinct (scheduled t)" "set (scheduled t) \<subseteq> set (sd_running s)" using ok by (simp_all add: sched_ok_def)
    have sch: "set (scheduled t') = set (scheduled t) - {j}" using ds(1) new by (auto simp: t' scheduled_def)
    have img: "rid_of s ` (set (scheduled t) - {j}) = rid_of s ` set (scheduled t) - {?r}"
      using inj ds(2) True by (subst inj_on_image_set_diff [OF inj]) (auto simp: scheduled_def)
    have "0 < n" using ok map_of_SomeD [OF n] by (auto simp: sched_ok_def)
    moreover have "distinct (scheduled t')" using ds(1) by (auto simp: t' scheduled_def)
    moreover have "set (scheduled t') \<subseteq> set (sd_running s')" using ds(2) d unfolding sch run by auto
    moreover have "sum_list (map snd (st_tokens t')) = sum_list (map snd (st_tokens t)) - n"
      using ok n by (simp add: t' sum_delete sched_ok_def del: map_of_eq_Some_iff)
    moreover have "\<forall>(k, n) \<in> set (st_tokens t'). 0 < n"
    proof -
      have "set (st_tokens t') \<subseteq> set (st_tokens t)" by (simp add: t' set_delete_subset)
      then show ?thesis using ok unfolding sched_ok_def by blast
    qed
    moreover have "od_wf (st_tokens t')" "fst ` set (st_tokens t') = rid_of s' ` set (scheduled t')"
      "fst ` set (st_new_blocks t') = rid_of s' ` set (scheduled t')"
      using ok img unfolding sch by (simp_all add: t' sched_ok_def rid)
    ultimately show ?thesis using ok True by (simp add: sched_ok_def t')
  qed
qed

section \<open>How many tokens\<close>

lemma plan_inputs_tokens:
  assumes "0 \<le> shift"
  shows "0 \<le> pl_new_tokens st \<Longrightarrow>
    res_all (\<lambda>pl. 0 \<le> pl_new_tokens pl \<and> pl_new_tokens pl \<le> pl_new_tokens st) (plan_inputs cfg r nc shift js st)"
proof (induction js arbitrary: st)
  case Nil
  then show ?case by (simp add: res_all_def)
next
  case (Cons i js)
  have again: "res_all (\<lambda>pl. 0 \<le> pl_new_tokens pl \<and> pl_new_tokens pl \<le> pl_new_tokens st) (plan_inputs cfg r nc shift js st')"
    if "pl_new_tokens st' = pl_new_tokens st" for st'
    using Cons.IH [of st'] Cons.prems that by simp
  show ?case using Cons.prems assms
    unfolding plan_inputs.simps Let_def by (intro res_rules again) auto
qed

lemma plan_encoder_tokens:
  assumes "plan_encoder cf s r nc n b = Inr pl" "0 \<le> n"
  shows "0 \<le> pl_new_tokens pl \<and> pl_new_tokens pl \<le> n"
proof -
  let ?e = "empty_plan n b (sd_enc s)" and ?shift = "if cf_use_eagle cf then 1 else 0 :: int"
  have e: "pl_new_tokens ?e = n" by (simp add: empty_plan_def)
  have "res_all (\<lambda>pl. 0 \<le> pl_new_tokens pl \<and> pl_new_tokens pl \<le> n) (plan_inputs (cf_encoder cf) r nc ?shift js ?e)" for js
    using plan_inputs_tokens [of ?shift ?e "cf_encoder cf" r nc js] assms(2) unfolding e by simp
  then have "res_all (\<lambda>pl. 0 \<le> pl_new_tokens pl \<and> pl_new_tokens pl \<le> n) (plan_encoder cf s r nc n b)"
    unfolding plan_encoder_def try_schedule_encoder_inputs_def using assms(2) by (intro res_rules) (simp_all add: e empty_plan_def)
  then show ?thesis using assms(1) by (rule res_allD)
qed

lemma mamba_split_tokens:
  assumes "mamba_block_aligned_split cf r n a b = Inr m" "0 \<le> n" "0 < cf_cache_block_size cf"
  shows "0 \<le> m \<and> m \<le> n"
proof -
  have "0 \<le> n div c * c \<and> n div c * c \<le> n" if "0 < c" for c
    using that assms(2) by (simp add: pos_imp_zdiv_nonneg_iff minus_mod_eq_div_mult [symmetric] zmod_le_nonneg_dividend)
  then show ?thesis using assms by (auto simp: mamba_block_aligned_split_def Let_def split: if_splits)
qed

text \<open>No running request is ahead of its tokens or at the end of the model's context.\<close>

definition not_ahead :: "sched_config \<Rightarrow> request \<Rightarrow> bool" where
  "not_ahead cf r \<longleftrightarrow> num_computed_tokens r \<le> int (num_tokens_with_spec r) + num_output_placeholders r
     \<and> num_computed_tokens r < cf_max_model_len cf"

lemma running_tokens_bounds:
  assumes "not_ahead cf r" "0 < b"
  shows "0 \<le> running_tokens cf r b \<and> running_tokens cf r b \<le> b
    \<and> num_computed_tokens r + running_tokens cf r b < cf_max_model_len cf
    \<and> num_computed_tokens r + running_tokens cf r b \<le> int (num_tokens_with_spec r) + num_output_placeholders r"
  using assms by (auto simp: running_tokens_def not_ahead_def Let_def)

end
