(* ===== verification/Scheduler_Running.thy ===== *)
theory Scheduler_Running
  imports Scheduler_Accounts
begin

text \<open>
  The first phase of a scheduling step, the loop over the running requests: it ends, and it keeps the accounts of the
  step. The facts on a call are stated with \<open>ends\<close>, which says that the call returns and that a normal result
  satisfies the postcondition.
\<close>

section \<open>Calls that end\<close>

definition ends :: "('a \<Rightarrow> bool) \<Rightarrow> 'a res option \<Rightarrow> bool" where
  "ends P m \<longleftrightarrow> (\<exists>r. m = Some r \<and> res_all P r)"

lemma endsD: "ends P m \<Longrightarrow> m = Some (Inr x) \<Longrightarrow> P x"
  by (auto simp: ends_def res_all_def)

lemma ends_not_None: "ends P m \<Longrightarrow> m \<noteq> None"
  by (auto simp: ends_def)

named_theorems ends_rules \<open>rules of \<open>ends\<close>, by the shape of the program\<close>

lemma ends_Some [ends_rules]: "res_all P r \<Longrightarrow> ends P (Some r)"
  by (simp add: ends_def)

lemma ends_og [ends_rules]: "(c \<Longrightarrow> ends P k) \<Longrightarrow> ends P (og c e k)"
  by (simp add: og_def ends_def res_all_def)

lemma ends_ob: "ends Q m \<Longrightarrow> (\<And>x. Q x \<Longrightarrow> ends P (f x)) \<Longrightarrow> ends P (ob m f)"
  by (force simp: ends_def ob_def res_all_def split: sum.splits)

lemma ends_ob_Some: "(\<And>x. r = Inr x \<Longrightarrow> ends P (f x)) \<Longrightarrow> ends P (ob (Some r) f)"
  by (cases r) (auto simp: ends_def res_all_def)

lemma ends_pair: "(\<And>a b. x = (a, b) \<Longrightarrow> ends P (f a b)) \<Longrightarrow> ends P (case x of (a, b) \<Rightarrow> f a b)"
  by (cases x) simp

lemma ends_if: "(c \<Longrightarrow> ends P a) \<Longrightarrow> (\<not> c \<Longrightarrow> ends P b) \<Longrightarrow> ends P (if c then a else b)"
  by simp

lemma ends_option:
  "(x = None \<Longrightarrow> ends P a) \<Longrightarrow> (\<And>y. x = Some y \<Longrightarrow> ends P (f y)) \<Longrightarrow> ends P (case x of None \<Rightarrow> a | Some y \<Rightarrow> f y)"
  by (cases x) simp_all

lemmas ends_shape = ends_ob_Some ends_pair ends_if ends_option ends_Some res_all_Inr

lemma ends_mono: "ends P m \<Longrightarrow> (\<And>x. P x \<Longrightarrow> Q x) \<Longrightarrow> ends Q m"
  by (auto simp: ends_def res_all_def)

section \<open>Positions in the running queue\<close>

lemma remove1_before:
  assumes "distinct xs" "j \<in> set (take k xs)"
  shows "set (take (k - 1) (remove1 j xs)) = set (take k xs) - {j}" "drop (k - 1) (remove1 j xs) = drop k xs"
    "set (take k xs) - {j} \<subseteq> set (take k (remove1 j xs))" "set (drop k (remove1 j xs)) \<subseteq> set (drop k xs)"
proof -
  let ?a = "take k xs" and ?b = "drop k xs"
  have "remove1 j xs = remove1 j (?a @ ?b)" by simp
  then have eq: "remove1 j xs = remove1 j ?a @ ?b" using assms(2) by (simp only: remove1_append if_True)
  have len: "length (remove1 j ?a) = min k (length xs) - 1" using assms(2) by (simp add: length_remove1 min.commute)
  have set1: "set (remove1 j ?a) = set ?a - {j}" using assms(1) by simp
  have tk: "take (k - 1) (remove1 j xs) = remove1 j ?a" and dr: "drop (k - 1) (remove1 j xs) = ?b"
    unfolding eq using len by (cases "k \<le> length xs"; simp)+
  show "set (take (k - 1) (remove1 j xs)) = set ?a - {j}" unfolding tk by (rule set1)
  show "drop (k - 1) (remove1 j xs) = ?b" by (rule dr)
  show "set ?a - {j} \<subseteq> set (take k (remove1 j xs))"
    unfolding set1 [symmetric] tk [symmetric] by (rule set_take_subset_set_take) simp
  show "set (drop k (remove1 j xs)) \<subseteq> set ?b"
    unfolding dr [symmetric] by (rule set_drop_subset_set_drop) simp
qed

lemma remove1_after:
  assumes "j \<notin> set (take k xs)"
  shows "take k (remove1 j xs) = take k xs" "set (drop k (remove1 j xs)) \<subseteq> set (drop k xs)"
proof -
  have "remove1 j xs = remove1 j (take k xs @ drop k xs)" by simp
  then have eq: "remove1 j xs = take k xs @ remove1 j (drop k xs)" using assms by (simp only: remove1_append if_False)
  show "take k (remove1 j xs) = take k xs" unfolding eq by (cases "k \<le> length xs") simp_all
  show "set (drop k (remove1 j xs)) \<subseteq> set (drop k xs)"
    unfolding eq by (cases "k \<le> length xs") (auto dest: notin_set_remove1 set_remove1_subset [THEN subsetD])
qed

text \<open>The loop index after \<open>j\<close> left the queue, when the scheduled requests \<open>A\<close> come before the index \<open>k\<close>.\<close>

lemma removed_positions:
  fixes xs :: "nat list"
  assumes d: "distinct xs" and A: "A \<subseteq> set (take k xs)" and k': "k' = (if j \<in> A then k - 1 else k)"
  shows "set (drop k' (remove1 j xs)) \<subseteq> set (drop k xs)" "set (take k xs) - {j} \<subseteq> set (take k' (remove1 j xs))"
    "i \<in> set (take (Suc k) xs) \<Longrightarrow> i \<noteq> j \<Longrightarrow> i \<in> set (take (Suc k') (remove1 j xs))"
    "k < length xs \<Longrightarrow> xs ! k = i \<Longrightarrow> i \<noteq> j \<Longrightarrow> j = last xs \<Longrightarrow> k' < length (remove1 j xs) \<and> remove1 j xs ! k' = i"
proof -
  show "set (drop k' (remove1 j xs)) \<subseteq> set (drop k xs)"
  proof (cases "j \<in> set (take k xs)")
    case True
    then show ?thesis using remove1_before(2,4) [OF d True] by (simp add: k')
  next
    case False
    then show ?thesis using remove1_after(2) [OF False] A by (auto simp: k')
  qed
  show "set (take k xs) - {j} \<subseteq> set (take k' (remove1 j xs))"
  proof (cases "j \<in> set (take k xs)")
    case True
    then show ?thesis using remove1_before(1,3) [OF d True] by (simp add: k')
  next
    case False
    then show ?thesis using remove1_after(1) [OF False] A by (auto simp: k')
  qed
  show "i \<in> set (take (Suc k') (remove1 j xs))" if i: "i \<in> set (take (Suc k) xs)" "i \<noteq> j"
  proof (cases "j \<in> set (take (Suc k) xs)")
    case True
    have "j \<in> A \<Longrightarrow> 0 < k" using A by (cases k) auto
    then show ?thesis using remove1_before(1,3) [OF d True] i by (auto simp: k')
  next
    case False
    then have "j \<notin> A" using A set_take_subset_set_take [of k "Suc k" xs] by auto
    then show ?thesis using remove1_after(1) [OF False] i by (simp add: k')
  qed
  show "k' < length (remove1 j xs) \<and> remove1 j xs ! k' = i" if k: "k < length xs" "xs ! k = i" "i \<noteq> j" "j = last xs"
  proof -
    obtain ys where ys: "xs = ys @ [j]" using k(1,4) by (cases xs rule: rev_cases) auto
    then have r: "remove1 j xs = ys" "j \<notin> set ys" using d by (simp_all add: remove1_append)
    have lt: "k < length ys" using k(1-3) unfolding ys by (auto simp: nth_append less_Suc_eq)
    then have "j \<notin> A" using A r(2) unfolding ys by (auto dest: in_set_takeD)
    then show ?thesis using lt k(2) r(1) unfolding ys by (simp add: k' nth_append)
  qed
qed

section \<open>The invariant of the loop\<close>

definition run_inv :: "sched_config \<Rightarrow> int \<Rightarrow> sched_step \<Rightarrow> 'c scheduler \<Rightarrow> bool" where
  "run_inv cf B t s \<longleftrightarrow> placed {#} s \<and> sched_ok B t s \<and> st_new t = [] \<and> st_resumed t = []
     \<and> length (st_running t) \<le> st_index t \<and> set (st_running t) \<subseteq> set (take (st_index t) (sd_running s))
     \<and> (\<forall>j \<in> set (drop (st_index t) (sd_running s)). not_ahead cf (sd_store s j))
     \<and> set (st_preempted t) \<subseteq> set_mset (queued s) \<and> members (st_skipped t) = {#}"

text \<open>The request \<open>i\<close> is being looked at.\<close>

definition at_turn :: "sched_config \<Rightarrow> nat \<Rightarrow> sched_step \<Rightarrow> 'c scheduler \<Rightarrow> bool" where
  "at_turn cf i t s \<longleftrightarrow> i \<in> set (take (Suc (st_index t)) (sd_running s)) \<and> i \<notin> set (st_running t)
     \<and> (cf_policy cf \<noteq> PRIORITY \<longrightarrow> st_index t < length (sd_running s) \<and> sd_running s ! st_index t = i)"

text \<open>How far the loop has to go.\<close>

definition ahead :: "sched_step \<Rightarrow> 'c scheduler \<Rightarrow> nat" where
  "ahead t s = length (sd_running s) - st_index t"

lemma quiet_run_inv:
  assumes "quiet s s'" "\<And>j. not_ahead cf (sd_store s j) \<Longrightarrow> not_ahead cf (sd_store s' j)" "run_inv cf B t s"
  shows "run_inv cf B t s'"
  using assms quiet_placed [OF assms(1)] sched_ok_quiet [OF assms(1)] by (simp add: run_inv_def quiet_def queued_def)

lemma quiet_at_turn: "quiet s s' \<Longrightarrow> at_turn cf i t s' = at_turn cf i t s"
  by (simp add: at_turn_def quiet_def)

lemma not_ahead_memo: "memo_of r r' \<Longrightarrow> not_ahead cf r' = not_ahead cf r"
  by (auto simp: not_ahead_def memo_of_def num_tokens_with_spec_def)

section \<open>Preempting a victim\<close>

lemma take_victim_shape:
  assumes inv: "run_inv cf B t s" and turn: "at_turn cf i t s" and v: "take_victim cf t s = Inr (j, t1, s2)"
  shows "j \<in> set (sd_running s) \<and> s2 = s\<lparr>sd_running := remove1 j (sd_running s)\<rparr> \<and> unschedule s j t = Inr t1
    \<and> (cf_policy cf \<noteq> PRIORITY \<longrightarrow> j = last (sd_running s))"
proof (cases "cf_policy cf = PRIORITY")
  case True
  then show ?thesis using v by (auto simp: take_victim_def dest: worst_mem)
next
  case False
  let ?run = "sd_running s"
  have d: "distinct ?run" using inv placed_distinct(1) [of "{#}" s] by (simp add: run_inv_def)
  have lt: "st_index t < length ?run" using turn False by (simp add: at_turn_def)
  then have last: "last ?run \<in> set (drop (st_index t) ?run)" by (metis drop_eq_Nil last_drop last_in_set not_le)
  have "set (take (st_index t) ?run) \<inter> set (drop (st_index t) ?run) = {}" by (rule set_take_disj_set_drop_if_distinct [OF d order_refl])
  then have "last ?run \<notin> set (st_running t)" using last inv unfolding run_inv_def by blast
  then show ?thesis using v False lt d butlast_remove1 [of ?run] by (auto simp: take_victim_def unschedule_def split: if_splits)
qed

lemma victim_ok:
  assumes inv: "run_inv cf B t s" and turn: "at_turn cf i t s" and v: "take_victim cf t s = Inr (j, t1, s2)"
    and pre: "preempt_request j s2 = Inr s3" and t2: "t2 = t1\<lparr>st_preempted := st_preempted t1 @ [j]\<rparr>"
  shows "run_inv cf B t2 s3" "j \<noteq> i \<Longrightarrow> at_turn cf i t2 s3" "length (sd_running s3) = length (sd_running s) - 1"
    "ahead t2 s3 \<le> ahead t s" "st_budget t \<le> st_budget t2" "same_objects s s3" "st_preempted t2 \<noteq> []"
proof -
  let ?run = "sd_running s" and ?k = "st_index t"
  have j: "j \<in> set ?run" and s2: "s2 = s\<lparr>sd_running := remove1 j ?run\<rparr>" and un: "unschedule s j t = Inr t1"
    and last: "cf_policy cf \<noteq> PRIORITY \<Longrightarrow> j = last ?run"
    using take_victim_shape [OF inv turn v] by simp_all
  have p: "placed {#} s" and sub: "set (st_running t) \<subseteq> set (take ?k ?run)" and lenr: "length (st_running t) \<le> ?k"
    and na: "\<forall>j \<in> set (drop ?k ?run). not_ahead cf (sd_store s j)" and preq: "set (st_preempted t) \<subseteq> set_mset (queued s)"
    using inv by (simp_all add: run_inv_def)
  have d: "distinct ?run" by (rule placed_distinct(1) [OF p])
  note F = preempt_frame [OF pre]
  have obj: "same_objects s s3" using F unfolding s2 by (simp add: same_objects_def)
  have run3: "sd_running s3 = remove1 j ?run" using F s2 by simp
  have p3: "placed {#} s3" by (rule preempt_placed [OF p j _ _ _ _ _ pre]) (simp_all add: s2)
  have U: "sched_ok B t1 s3" "st_budget t \<le> st_budget t1" "st_running t1 = remove1 j (st_running t)" "st_new t1 = []" "st_resumed t1 = []"
    "st_index t1 = (if j \<in> set (st_running t) then ?k - 1 else ?k)"
    using unschedule_ok [OF _ p j _ _ un run3 obj, of B] inv by (simp_all add: run_inv_def)
  have pre1: "st_preempted t1 = st_preempted t" "st_skipped t1 = st_skipped t" using un by (auto simp: unschedule_def Let_def split: if_splits option.splits)
  have store: "sd_store s3 m = sd_store s m" if "m \<noteq> j" for m using F that s2 by simp
  have q: "queued s3 = add_mset j (queued s)" using F s2 by (simp add: queued_def)
  note pos = removed_positions [OF d sub U(6)]
  have st1: "set (st_running t1) = set (st_running t) - {j}" 
    using inv unfolding U(3) run_inv_def sched_ok_def scheduled_def by (auto dest: set_remove1_subset [THEN subsetD])
  show "run_inv cf B t2 s3"
  proof -
    have "length (st_running t1) \<le> st_index t1"
      using lenr unfolding U(3) U(6) by (auto simp: length_remove1)
    moreover have "\<forall>m \<in> set (drop (st_index t1) (sd_running s3)). not_ahead cf (sd_store s3 m)"
    proof
      fix m assume m: "m \<in> set (drop (st_index t1) (sd_running s3))"
      then have "m \<in> set (remove1 j ?run)" unfolding run3 by (rule in_set_dropD)
      then have "m \<noteq> j" using d by simp
      then show "not_ahead cf (sd_store s3 m)" using store m pos(1) na unfolding run3 by auto
    qed
    moreover have "set (st_running t1) \<subseteq> set (take (st_index t1) (sd_running s3))" using sub pos(2) st1 unfolding run3 by blast
    moreover have "sched_ok B t2 s3" using U(1) by (simp add: t2 sched_ok_def scheduled_def)
    ultimately show ?thesis using p3 U preq inv by (auto simp: run_inv_def t2 pre1 q)
  qed
  show "length (sd_running s3) = length ?run - 1" unfolding run3 using j by (simp add: length_remove1)
  show "ahead t2 s3 \<le> ahead t s"
    using j lenr unfolding ahead_def run3 by (auto simp: t2 U(6) length_remove1)
  show "at_turn cf i t2 s3" if ne: "j \<noteq> i"
  proof -
    have i: "i \<in> set (take (Suc ?k) ?run)" "i \<notin> set (st_running t)" using turn by (simp_all add: at_turn_def)
    have "i \<in> set (take (Suc (st_index t1)) (remove1 j ?run))" using pos(3) [OF i(1)] ne by simp
    moreover have "st_index t1 < length (remove1 j ?run) \<and> remove1 j ?run ! st_index t1 = i" if "cf_policy cf \<noteq> PRIORITY"
      by (rule pos(4)) (use turn that ne last in \<open>simp_all add: at_turn_def\<close>)
    ultimately show ?thesis using i st1 by (simp add: at_turn_def t2 run3)
  qed
  show "st_budget t \<le> st_budget t2" "same_objects s s3" "st_preempted t2 \<noteq> []" using U(2) obj by (simp_all add: t2)
qed

section \<open>One request\<close>

text \<open>What an iteration does to the queue and the budget.\<close>

definition progress :: "sched_step \<times> 'c scheduler \<Rightarrow> sched_step \<times> 'c scheduler \<Rightarrow> bool" where
  "progress = (\<lambda>(t, s) (t', s'). same_objects s s' \<and> length (sd_running s') \<le> length (sd_running s) \<and> ahead t' s' \<le> ahead t s)"

lemma progress_trans: "progress a b \<Longrightarrow> progress b c \<Longrightarrow> progress a c"
  unfolding progress_def by (cases a; cases b; cases c) (auto intro: same_objects_trans)

lemma quiet_progress: "quiet s s' \<Longrightarrow> progress (t, s) (t, s')"
  by (simp add: progress_def quiet_def ahead_def)

lemma slots_quiet:
  assumes "allocate_slots E (sd_kv s) (sd_store s i) n nc bl look ext delay n_enc = Inr (res, k, r)"
  shows "quiet s (set_request i r (s\<lparr>sd_kv := k\<rparr>))"
    "not_ahead cf (sd_store s j) \<Longrightarrow> not_ahead cf (sd_store (set_request i r (s\<lparr>sd_kv := k\<rparr>)) j)"
  using allocate_slots_frame [OF assms] quiet_memo [of s i r k] not_ahead_memo [of "sd_store s i" r]
  by (auto simp: set_request_def)

lemma allocate_loop_ok:
  assumes "run_inv cf B t s" "at_turn cf i t s" "length (sd_running s) \<le> fuel"
  shows "ends (\<lambda>(res, t', s'). run_inv cf B t' s' \<and> progress (t, s) (t', s') \<and> st_budget t \<le> st_budget t'
      \<and> (res \<noteq> None \<longrightarrow> at_turn cf i t' s')) (allocate_loop env cf fuel i n t s)"
  using assms
proof (induction fuel arbitrary: t s)
  case 0
  then show ?case by (simp add: at_turn_def)
next
  case (Suc fuel)
  show ?case unfolding allocate_loop.simps
  proof (rule ends_ob_Some, clarsimp simp only: split_paired_all prod.case Let_def)
    fix res k r
    assume a: "allocate_slots (se_hash env) (sd_kv s) (sd_store s i) n 0 None (cf_num_lookahead_tokens cf) 0 False 0 = Inr (res, k, r)"
    let ?s1 = "set_request i r (s\<lparr>sd_kv := k\<rparr>)"
    have q: "quiet s ?s1" by (rule slots_quiet(1) [OF a])
    have inv1: "run_inv cf B t ?s1" by (rule quiet_run_inv [OF q _ Suc.prems(1)]) (rule slots_quiet(2) [OF a])
    have turn1: "at_turn cf i t ?s1" using Suc.prems(2) quiet_at_turn [OF q] by blast
    have pr1: "progress (t, s) (t, ?s1)" by (rule quiet_progress [OF q])
    show "ends (\<lambda>(res, t', s'). run_inv cf B t' s' \<and> progress (t, s) (t', s') \<and> st_budget t \<le> st_budget t'
        \<and> (res \<noteq> None \<longrightarrow> at_turn cf i t' s'))
      (case res of None \<Rightarrow> ob (Some (take_victim cf t ?s1)) (\<lambda>(j, t1, s2).
            ob (Some (preempt_request j s2)) (\<lambda>s3.
              if j = i then Some (Inr (None, t1\<lparr>st_preempted := st_preempted t1 @ [j]\<rparr>, s3))
              else allocate_loop env cf fuel i n (t1\<lparr>st_preempted := st_preempted t1 @ [j]\<rparr>) s3))
        | Some b \<Rightarrow> Some (Inr (Some b, t, ?s1)))"
    proof (cases res)
      case None
      have "ends (\<lambda>(res, t', s'). run_inv cf B t' s' \<and> progress (t, s) (t', s') \<and> st_budget t \<le> st_budget t'
          \<and> (res \<noteq> None \<longrightarrow> at_turn cf i t' s'))
        (if j = i then Some (Inr (None, t1\<lparr>st_preempted := st_preempted t1 @ [j]\<rparr>, s3))
         else allocate_loop env cf fuel i n (t1\<lparr>st_preempted := st_preempted t1 @ [j]\<rparr>) s3)"
        if v: "take_victim cf t ?s1 = Inr (j, t1, s2)" and pre: "preempt_request j s2 = Inr s3" for j t1 s2 s3
      proof -
        let ?t2 = "t1\<lparr>st_preempted := st_preempted t1 @ [j]\<rparr>"
        note V = victim_ok [OF inv1 turn1 v pre refl]
        have pr: "progress (t, s) (?t2, s3)"
          by (rule progress_trans [OF pr1]) (use V in \<open>simp add: progress_def\<close>)
        show ?thesis
        proof (cases "j = i")
          case True
          then show ?thesis using V pr by (simp add: ends_def res_all_def)
        next
          case False
          have le: "length (sd_running s3) \<le> fuel" using V(3) q Suc.prems(3) by (simp add: quiet_def)
          show ?thesis unfolding if_not_P [OF False]
            by (rule ends_mono [OF Suc.IH [OF V(1) V(2) [OF False] le]])
              (use pr V(5) in \<open>auto intro: progress_trans\<close>)
        qed
      qed
      then show ?thesis unfolding None option.case by (intro ends_ob_Some ends_pair) blast
    next
      case (Some b)
      then show ?thesis using inv1 turn1 pr1 by (simp add: ends_def res_all_def)
    qed
  qed
qed

text \<open>The request gets its tokens.\<close>

lemma update_sched_ok:
  assumes ok: "sched_ok B t s" and p: "placed aside s" and i: "i \<in> set (sd_running s)" "i \<notin> set (scheduled t)"
    and n: "0 < n" "n \<le> st_budget t" and sch: "mset (scheduled t') = add_mset i (mset (scheduled t))"
    and t': "st_tokens t' = AList.update (rid_of s i) n (st_tokens t)" "st_new_blocks t' = AList.update (rid_of s i) b (st_new_blocks t)"
      "st_budget t' = st_budget t - n"
  shows "sched_ok B t' s"
proof -
  have sub: "set (scheduled t) \<subseteq> set (sd_running s)" and d: "distinct (scheduled t)" using ok by (simp_all add: sched_ok_def)
  have inj: "inj_on (rid_of s) (set (sd_running s))" using placed_rid_inj [OF p] by (rule inj_on_subset) simp
  have "rid_of s i \<notin> rid_of s ` set (scheduled t)" using inj sub i by (auto simp: inj_on_def)
  then have new: "rid_of s i \<notin> fst ` set (st_tokens t)" using ok by (simp add: sched_ok_def)
  have set': "set (scheduled t') = insert i (set (scheduled t))" using sch by (metis set_mset_add_mset_insert set_mset_mset)
  have "distinct (i # scheduled t)" using d i by simp
  then have d': "distinct (scheduled t')" by (rule mset_eq_imp_distinct_iff [THEN iffD1, rotated]) (simp add: sch)
  show ?thesis using ok n sub i set' d' t' new unfolding sched_ok_def
    by (auto simp: update_new dom_update)
qed

lemma spec_quiet:
  assumes "schedule_spec_tokens i n (t, s) = (t', s')"
  shows "quiet s s'" "j \<noteq> i \<Longrightarrow> sd_store s' j = sd_store s j" "\<exists>sp. t' = t\<lparr>st_spec := sp\<rparr>"
  using assms
  by (auto simp: schedule_spec_tokens_def Let_def upd_request_def set_request_def quiet_def same_objects_def same_status_def ident_def is_finished_def
      split: if_splits intro: exI [of _ "st_spec t"])

lemma encoder_quiet:
  assumes "allocate_encoder i pl t s = Inr (t', s')"
  shows "quiet s s'" "sd_store s' = sd_store s" "t' = t\<lparr>st_enc_inputs := st_enc_inputs t', st_enc_budget := st_enc_budget t'\<rparr>"
  using assms by (auto simp: allocate_encoder_def Let_def)

lemma commit_running_ok:
  assumes inv: "run_inv cf B t s" and turn: "at_turn cf i t s" and n: "0 < n" "n \<le> st_budget t"
    and c: "commit_running i n b pl t s = Inr (t', s')"
  shows "run_inv cf B t' s' \<and> quiet s s' \<and> st_index t' = Suc (st_index t)"
proof -
  let ?run = "sd_running s" and ?k = "st_index t" and ?rid = "rid_of s i"
  define t1 where "t1 = t\<lparr>st_running := st_running t @ [i], st_new_blocks := AList.update ?rid b (st_new_blocks t),
                 st_tokens := AList.update ?rid n (st_tokens t), st_budget := st_budget t - n, st_index := ?k + 1\<rparr>"
  obtain t2 s2 where a: "schedule_spec_tokens i n (t1, s) = (t2, s2)" and e: "allocate_encoder i pl t2 s2 = Inr (t', s')"
    using c by (auto simp: commit_running_def Let_def t1_def split: prod.splits)
  obtain sp ei eb where t': "t' = t1\<lparr>st_spec := sp, st_enc_inputs := ei, st_enc_budget := eb\<rparr>"
    using spec_quiet(3) [OF a] encoder_quiet(3) [OF e] by blast
  have q: "quiet s s'" by (rule quiet_trans [OF spec_quiet(1) [OF a] encoder_quiet(1) [OF e]])
  have p: "placed {#} s" and ok: "sched_ok B t s" and sub: "set (st_running t) \<subseteq> set (take ?k ?run)"
    using inv by (simp_all add: run_inv_def)
  have i: "i \<in> set (take (Suc ?k) ?run)" "i \<notin> set (scheduled t)" using turn inv by (simp_all add: at_turn_def run_inv_def scheduled_def)
  have "sched_ok B t' s"
    by (rule update_sched_ok [OF ok p in_set_takeD [OF i(1)] i(2) n]) (simp_all add: t' t1_def scheduled_def)
  then have "sched_ok B t' s'" by (simp add: sched_ok_quiet [OF q])
  moreover have "set (st_running t') \<subseteq> set (take (Suc ?k) ?run)"
    using sub i(1) set_take_subset_set_take [of ?k "Suc ?k" ?run] by (auto simp: t' t1_def)
  moreover have "not_ahead cf (sd_store s' j)" if j: "j \<in> set (drop (Suc ?k) ?run)" for j
  proof -
    have "set (take (Suc ?k) ?run) \<inter> set (drop (Suc ?k) ?run) = {}"
      by (rule set_take_disj_set_drop_if_distinct [OF placed_distinct(1) [OF p] order_refl])
    then have "j \<noteq> i" using i j by auto
    then have "sd_store s' j = sd_store s j" using spec_quiet(2) [OF a] encoder_quiet(2) [OF e] by simp
    moreover have "j \<in> set (drop ?k ?run)" using j set_drop_subset_set_drop [of ?k "Suc ?k" ?run] by auto
    ultimately show ?thesis using inv by (simp add: run_inv_def)
  qed
  ultimately show ?thesis using inv q quiet_placed [OF q] by (simp add: run_inv_def t' t1_def quiet_def queued_def)
qed

lemma turn_starts:
  assumes inv: "run_inv cf B t s" and lt: "st_index t < length (sd_running s)"
  shows "at_turn cf (sd_running s ! st_index t) t s" "not_ahead cf (sd_store s (sd_running s ! st_index t))"
proof -
  let ?run = "sd_running s" and ?k = "st_index t"
  have mem: "?run ! ?k \<in> set (drop ?k ?run)" using lt by (metis Cons_nth_drop_Suc list.set_intros(1))
  then show "not_ahead cf (sd_store s (?run ! ?k))" using inv by (simp add: run_inv_def)
  have "distinct ?run" using inv placed_distinct(1) [of "{#}" s] by (simp add: run_inv_def)
  then have "set (take ?k ?run) \<inter> set (drop ?k ?run) = {}" by (rule set_take_disj_set_drop_if_distinct) simp
  then have "?run ! ?k \<notin> set (st_running t)" using mem inv unfolding run_inv_def by blast
  then show "at_turn cf (?run ! ?k) t s" using lt by (simp add: at_turn_def take_Suc_conv_app_nth)
qed

lemma run_inv_skip:
  assumes "run_inv cf B t s"
  shows "run_inv cf B (t\<lparr>st_index := Suc (st_index t)\<rparr>) s"
  using assms set_take_subset_set_take [of "st_index t" "Suc (st_index t)" "sd_running s"]
    set_drop_subset_set_drop [of "st_index t" "Suc (st_index t)" "sd_running s"]
  by (auto simp: run_inv_def sched_ok_def scheduled_def)

text \<open>The number of tokens of an iteration is between 0 and the budget.\<close>

lemma planned_tokens:
  assumes na: "not_ahead cf r" and b: "0 < b" and cb: "0 < cf_cache_block_size cf"
    and pl: "plan_encoder cf s r (num_computed_tokens r) (running_tokens cf r b) eb = Inr pl"
    and n: "(if cf_need_mamba_block_aligned_split cf then mamba_block_aligned_split cf r (pl_new_tokens pl) 0 0
             else Inr (pl_new_tokens pl)) = Inr n"
  shows "0 \<le> n \<and> n \<le> running_tokens cf r b \<and> n \<le> b"
proof -
  note R = running_tokens_bounds [OF na b]
  have P: "0 \<le> pl_new_tokens pl \<and> pl_new_tokens pl \<le> running_tokens cf r b" using plan_encoder_tokens [OF pl] R by simp
  have "0 \<le> n \<and> n \<le> pl_new_tokens pl"
    using n P mamba_split_tokens [of cf r "pl_new_tokens pl" 0 0 n] cb by (auto split: if_splits)
  then show ?thesis using P R by linarith
qed

lemma quiet_enc_inv: "run_inv cf B t s \<Longrightarrow> run_inv cf B t (s\<lparr>sd_enc := e\<rparr>)"
  by (rule quiet_run_inv [of s]) simp_all

text \<open>What one iteration achieves: the loop gets closer to its end unless it breaks.\<close>

definition iteration :: "sched_config \<Rightarrow> int \<Rightarrow> sched_step \<Rightarrow> 'c scheduler \<Rightarrow> bool \<times> sched_step \<times> 'c scheduler \<Rightarrow> bool" where
  "iteration cf B t s = (\<lambda>(go, t', s'). run_inv cf B t' s' \<and> progress (t, s) (t', s') \<and> (go \<longrightarrow> ahead t' s' < ahead t s))"

lemma allocate_and_commit:
  assumes inv: "run_inv cf B t s" and turn: "at_turn cf i t s" and lt: "st_index t < length (sd_running s)"
    and n: "0 < n" "n \<le> st_budget t"
  shows "ends (iteration cf B t s) (ob (allocate_loop env cf (length (sd_running s)) i n t (s\<lparr>sd_enc := e\<rparr>)) (\<lambda>(res, t1, s2).
      case res of
        None \<Rightarrow> Some (Inr (False, t1, s2))
      | Some b \<Rightarrow> ob (Some (commit_running i n b pl t1 s2)) (\<lambda>(t2, s3). Some (Inr (True, t2, s3)))))"
proof (rule ends_ob [OF allocate_loop_ok [OF quiet_enc_inv [OF inv]]])
  show "at_turn cf i t (s\<lparr>sd_enc := e\<rparr>)" using turn by (simp add: at_turn_def)
  show "length (sd_running (s\<lparr>sd_enc := e\<rparr>)) \<le> length (sd_running s)" by simp
  fix x :: "kv_cache_blocks option \<times> sched_step \<times> 'a scheduler"
  assume x: "case x of (res, t', s') \<Rightarrow> run_inv cf B t' s' \<and> progress (t, s\<lparr>sd_enc := e\<rparr>) (t', s') \<and> st_budget t \<le> st_budget t'
    \<and> (res \<noteq> None \<longrightarrow> at_turn cf i t' s')"
  obtain res t1 s2 where xeq: "x = (res, t1, s2)" by (cases x) auto
  have 1: "run_inv cf B t1 s2" "st_budget t \<le> st_budget t1" "res \<noteq> None \<Longrightarrow> at_turn cf i t1 s2"
    and pr: "progress (t, s) (t1, s2)"
    using x progress_trans [OF quiet_progress [OF quiet_update(1)]] unfolding xeq by auto
  have "iteration cf B t s (True, t2, s3)" if r: "res \<noteq> None" and c: "commit_running i n b pl t1 s2 = Inr (t2, s3)" for b t2 s3
  proof -
    have C: "run_inv cf B t2 s3" "quiet s2 s3" "st_index t2 = Suc (st_index t1)"
      using commit_running_ok [OF 1(1) 1(3) [OF r] n(1) _ c] n(2) 1(2) by simp_all
    have "0 < ahead t s" using lt by (simp add: ahead_def)
    then have "ahead t2 s3 < ahead t s" using pr C by (auto simp: progress_def ahead_def quiet_def)
    then show ?thesis
      using C pr quiet_objects [OF C(2)] by (auto simp: iteration_def progress_def quiet_def intro: same_objects_trans)
  qed
  moreover have "iteration cf B t s (False, t1, s2)" using 1 pr by (simp add: iteration_def)
  ultimately show "ends (iteration cf B t s) (case x of (res, t1, s2) \<Rightarrow> case res of
      None \<Rightarrow> Some (Inr (False, t1, s2))
    | Some b \<Rightarrow> ob (Some (commit_running i n b pl t1 s2)) (\<lambda>(t2, s3). Some (Inr (True, t2, s3))))"
    unfolding xeq prod.case
    by (cases res) (auto intro!: ends_ob_Some ends_Some res_all_Inr simp only: prod.case split_paired_all option.case)
qed

lemma schedule_running_one_ok:
  assumes inv: "run_inv cf B t s" and lt: "st_index t < length (sd_running s)" and b: "0 < st_budget t"
    and cb: "0 < cf_cache_block_size cf"
  shows "ends (iteration cf B t s) (schedule_running_one env cf t s)"
proof -
  let ?i = "sd_running s ! st_index t"
  let ?r = "sd_store s ?i" and ?next = "t\<lparr>st_index := st_index t + 1\<rparr>"
  note start = turn_starts [OF inv lt]
  have skip: "iteration cf B t s (True, ?next, s\<lparr>sd_enc := e\<rparr>)" for e
    using run_inv_skip [OF quiet_enc_inv [OF inv]] lt quiet_objects [OF quiet_update(1)]
    by (simp add: iteration_def progress_def ahead_def) auto
  have n: "0 < n \<and> n \<le> st_budget t" if "n \<noteq> 0"
    and "plan_encoder cf s ?r (num_computed_tokens ?r) (running_tokens cf ?r (st_budget t)) (st_enc_budget t) = Inr pl"
    and "(if cf_need_mamba_block_aligned_split cf then mamba_block_aligned_split cf ?r (pl_new_tokens pl) 0 0
             else Inr (pl_new_tokens pl)) = Inr n" for n pl
    using planned_tokens [OF start(2) b cb that(2,3)] that(1) by linarith
  show ?thesis unfolding schedule_running_one_def Let_def
  proof (intro ends_if ends_ob_Some ends_Some res_all_Inr)
    show "iteration cf B t s (True, ?next, s)" using skip [of "sd_enc s"] by simp
    show "iteration cf B t s (True, ?next, s\<lparr>sd_enc := pl_cache pl\<rparr>)" for pl by (rule skip)
  qed (use allocate_and_commit [OF inv start(1) lt] n in auto)
qed

lemma running_loop_ok:
  assumes "run_inv cf B t s" "ahead t s \<le> fuel" and cb: "0 < cf_cache_block_size cf"
  shows "ends (\<lambda>(t', s'). run_inv cf B t' s' \<and> progress (t, s) (t', s')) (running_loop env cf fuel t s)"
  using assms(1,2)
proof (induction fuel arbitrary: t s)
  case 0
  then show ?case
    by (subst running_loop.simps) (simp add: ahead_def ends_def res_all_def progress_def)
next
  case (Suc fuel)
  show ?case
  proof (cases "st_index t < length (sd_running s) \<and> st_budget t > 0")
    case True
    have "ends (\<lambda>(t', s'). run_inv cf B t' s' \<and> progress (t, s) (t', s'))
      (if go then running_loop env cf fuel t1 s1 else Some (Inr (t1, s1)))"
      if it: "iteration cf B t s (go, t1, s1)" for go t1 s1
    proof (cases go)
      case True
      then have "ends (\<lambda>(t', s'). run_inv cf B t' s' \<and> progress (t1, s1) (t', s')) (running_loop env cf fuel t1 s1)"
        by (intro Suc.IH) (use it Suc.prems(2) in \<open>auto simp: iteration_def\<close>)
      then show ?thesis using True it by (auto simp: iteration_def elim!: ends_mono intro: progress_trans)
    next
      case False
      then show ?thesis using it by (simp add: ends_def res_all_def iteration_def)
    qed
    then show ?thesis using True
      by (subst running_loop.simps) (auto intro!: ends_ob [OF schedule_running_one_ok [OF Suc.prems(1) _ _ cb]])
  next
    case False
    then show ?thesis using Suc.prems by (subst running_loop.simps) (auto simp: ends_def res_all_def progress_def)
  qed
qed

end
