(* ===== verification/Scheduler_Waiting.thy ===== *)
theory Scheduler_Waiting
  imports Scheduler_Running Hybrid_Hit
begin

text \<open>
  The second phase of a scheduling step, the loop over the waiting requests, and the whole step: it ends, moves
  requests between the queues without losing one, and stays within the token budget and the bound on running requests.
\<close>

section \<open>Calls that only change the status of waiting requests\<close>

definition calm :: "'c scheduler \<Rightarrow> 'c scheduler \<Rightarrow> bool" where
  "calm s s' \<longleftrightarrow> same_objects s s' \<and> sd_running s' = sd_running s \<and> sd_waiting s' = sd_waiting s \<and> sd_skipped s' = sd_skipped s
     \<and> (\<forall>j. status (sd_store s' j) = status (sd_store s j)
           \<or> (waiting_status (status (sd_store s j)) \<and> waiting_status (status (sd_store s' j))))"

lemma quiet_calm: "quiet s s' \<Longrightarrow> calm s s'"
  by (simp add: calm_def quiet_def same_status_def)

lemma calm_refl [simp]: "calm s s"
  by (simp add: calm_def)

lemma calm_trans: "calm s s' \<Longrightarrow> calm s' s'' \<Longrightarrow> calm s s''"
  unfolding calm_def by (metis same_objects_trans)

lemma calm_objects: "calm s s' \<Longrightarrow> same_objects s s'"
  by (simp add: calm_def)

lemma waiting_not_finished: "waiting_status (status r) \<Longrightarrow> \<not> is_finished r \<and> status r \<noteq> RUNNING"
  by (simp add: waiting_status_def is_finished_def)

lemma calm_placed:
  assumes c: "calm s s'" and p: "placed aside s"
  shows "placed aside s'"
proof -
  have st: "status (sd_store s' j) = status (sd_store s j)
      \<or> (waiting_status (status (sd_store s j)) \<and> waiting_status (status (sd_store s' j)))" for j
    using c by (simp add: calm_def)
  have fin: "is_finished (sd_store s' j) = is_finished (sd_store s j)" for j
    using st [of j] waiting_not_finished by (metis is_finished_def)
  have rid: "rid_of s' j = rid_of s j" for j by (rule same_objects_rid [OF calm_objects [OF c]])
  have eqs: "sd_running s' = sd_running s" "queued s' = queued s" "sd_requests s' = sd_requests s"
    using c by (simp_all add: calm_def same_objects_def queued_def)
  have "status (sd_store s' i) = RUNNING" if "status (sd_store s i) = RUNNING" for i
    using st [of i] that by (auto simp: waiting_status_def)
  moreover have "waiting_status (status (sd_store s' i))" if "waiting_status (status (sd_store s i))" for i
    using st [of i] that by auto
  ultimately show ?thesis using p unfolding placed_def requests_ok_def unfinished_def eqs rid fin by auto
qed

lemma calm_sched_ok: "calm s s' \<Longrightarrow> sched_ok B t s' = sched_ok B t s"
  using same_objects_rid [of s s'] by (simp add: sched_ok_def calm_def)

lemma quiet_through [simp]:
  "quiet s (s'\<lparr>sd_finished_recving := x\<rparr>) = quiet s s'" "quiet s (s'\<lparr>sd_failed_recving := x\<rparr>) = quiet s s'"
  "quiet s (s'\<lparr>sd_connector := c\<rparr>) = quiet s s'" "quiet s (s'\<lparr>sd_enc := e\<rparr>) = quiet s s'"
  "quiet s (s'\<lparr>sd_prev_step := p\<rparr>) = quiet s s'" "quiet s (s'\<lparr>sd_finished_req_ids := x\<rparr>) = quiet s s'"
  by (simp_all add: quiet_def same_objects_def same_status_def)

lemma remote_kv_quiet:
  assumes "update_waiting_for_remote_kv env i s = Inr s'"
  shows "quiet s s'"
proof -
  let ?r = "sd_store s i"
  have memo: "quiet s (set_request i (if num_computed_tokens r' = int (num_tokens r') then r'\<lparr>num_computed_tokens := m\<rparr> else r') (s\<lparr>sd_kv := k\<rparr>))"
    "quiet s (set_request i r' (s\<lparr>sd_kv := k\<rparr>))"
    if "km_cache_blocks E (sd_kv s) ?r n = Inr (k, r')" for E n k r' m
    using km_cache_blocks_frame [OF that]
    by (auto simp: quiet_def same_objects_def same_status_def set_request_def ident_def is_finished_def memo_of_def)
  have "res_all (quiet s) (update_waiting_for_remote_kv env i s)"
    unfolding update_waiting_for_remote_kv_def Let_def
    by (intro res_rules) (auto simp: km_free_frame quiet_kv memo split: if_splits prod.splits dest: memo(1) [of _ _ _ _ "int (num_tokens _) - 1"])
  then show ?thesis using assms by (rule res_allD)
qed

lemma promote_calm:
  assumes "try_promote_blocked_waiting_request env i s = Inr (ok, s')" "waiting_status (status (sd_store s i))"
  shows "calm s s'"
proof -
  have up: "calm s1 (upd_request i (\<lambda>r. r\<lparr>status := f r\<rparr>) s1)"
    if "waiting_status (status (sd_store s1 i))" "\<And>r. waiting_status (f r)" for s1 :: "'a scheduler" and f
  proof -
    have "is_finished_status (f r) = is_finished_status (status (sd_store s1 i))" for r
      using that(1) that(2) [of r] unfolding waiting_status_def by blast
    then show ?thesis using that
      by (auto simp: calm_def upd_request_def set_request_def same_objects_def ident_def is_finished_def simp del: status_lt_simps)
  qed
  have q: "waiting_status (status (sd_store s1 i))" if "quiet s s1" for s1
    using that assms(2) by (simp add: quiet_def same_status_def)
  have remote: "calm s (upd_request i (\<lambda>r. r\<lparr>status := (if num_preemptions r \<noteq> 0 then PREEMPTED else WAITING)\<rparr>) s1)"
    if "update_waiting_for_remote_kv env i s = Inr s1" for s1
    using remote_kv_quiet [OF that] by (intro calm_trans [OF quiet_calm up]) (simp_all add: q, simp add: waiting_status_def)
  have grammar: "calm s (upd_request i (\<lambda>r. r\<lparr>status := WAITING\<rparr>) s)"
    by (rule up [OF assms(2)]) (simp add: waiting_status_def)
  show ?thesis using assms(1) remote grammar unfolding try_promote_blocked_waiting_request_def Let_def
    by (cases "status (sd_store s i)") (simp_all split: if_splits, blast+)
qed

section \<open>The prefix cache lookup returns\<close>

definition specs_ok :: "kv_manager \<Rightarrow> bool" where
  "specs_ok k = (case co_kind (km_coordinator k) of Hybrid hbs groups al \<Rightarrow> (\<forall>g \<in> set groups. sizes_ok (fst g)) | _ \<Rightarrow> True)"

lemma computed_blocks_total:
  assumes "specs_ok k" "all_token_ids r \<noteq> []"
  shows "get_computed_blocks k r \<noteq> None"
proof -
  have L: "0 \<le> int (num_tokens r) - 1" using assms(2) by (cases "all_token_ids r") (simp_all add: num_tokens_def)
  have "co_find_longest_cache_hit (km_coordinator k) (block_hashes r) (int (num_tokens r) - 1) \<noteq> None"
  proof (cases "co_kind (km_coordinator k)")
    case (Hybrid hbs groups al)
    then have sz: "\<forall>g \<in> set groups. sizes_ok (fst g)" using assms(1) by (simp add: specs_ok_def)
    have "hybrid_loop (km_coordinator k) hbs groups al (block_hashes r) simple (int (num_tokens r) - 1) table \<noteq> None" for simple table
      using hybrid_loop_total [OF sz L] by (metis option.distinct(1))
    then show ?thesis
      by (auto simp: co_find_longest_cache_hit_def hybrid_find_longest_cache_hit_def Hybrid Let_def split: option.splits)
  qed (simp_all add: co_find_longest_cache_hit_def)
  then show ?thesis by (auto simp: get_computed_blocks_def split: if_splits)
qed

text \<open>What the step needs of the requests and the model.\<close>

definition requests_ready :: "'c scheduler \<Rightarrow> bool" where
  "requests_ready s \<longleftrightarrow> specs_ok (sd_kv s) \<and> (\<forall>(rid, i) \<in> set (sd_requests s). all_token_ids (sd_store s i) \<noteq> [])"

lemma requests_ready_same: "same_objects s s' \<Longrightarrow> requests_ready s' = requests_ready s"
  by (auto simp: requests_ready_def same_objects_def ident_def is_finished_def specs_ok_def km_shape_def)

lemma placed_ready: "placed aside s \<Longrightarrow> requests_ready s \<Longrightarrow> i \<in># queued s + aside \<Longrightarrow> all_token_ids (sd_store s i) \<noteq> []"
proof -
  assume p: "placed aside s" and r: "requests_ready s" and i: "i \<in># queued s + aside"
  have "mset (sd_running s) + (queued s + aside) = unfinished s" using p by (simp add: placed_def add.assoc)
  then have "i \<in># unfinished s" using i by (metis union_iff)
  then show ?thesis using r by (auto simp: unfinished_def requests_ready_def)
qed

lemma match_tokens_quiet:
  assumes "specs_ok (sd_kv s)" "all_token_ids (sd_store s i) \<noteq> []"
  shows "ends (\<lambda>(found, s'). quiet s s') (match_tokens env i s)"
proof (cases "num_computed_tokens (sd_store s i) = 0")
  case True
  obtain r where r: "get_computed_blocks (sd_kv s) (sd_store s i) = Some r" using computed_blocks_total [OF assms] by auto
  have kv: "quiet s (s\<lparr>sd_kv := k\<rparr>)" if "r = Inr (bl, n, k)" for bl n k
    using r that by (intro quiet_kv) (simp add: computed_blocks_frame)
  show ?thesis using True r kv
    by (cases r) (auto simp: match_tokens_def Let_def ends_def res_all_def og_def split: option.splits prod.splits)
next
  case False
  then show ?thesis by (simp add: match_tokens_def Let_def ends_def res_all_def)
qed

section \<open>One waiting request\<close>

lemma waiting_tokens_ok:
  assumes "waiting_tokens cf t s r tm = Inr (plan, s')" and cb: "0 < cf_cache_block_size cf"
  shows "quiet s s' \<and> (\<forall>n pl. plan = Some (n, pl) \<longrightarrow> \<not> tm_async tm \<longrightarrow> 0 < n \<and> n \<le> st_budget t)"
proof -
  let ?n1 = "(let n0 = int (num_tokens r) - tm_computed tm; thr = cf_long_prefill_token_threshold cf in
              if 0 < thr \<and> thr < n0 then thr else n0)"
  let ?P = "\<lambda>(plan, s'). quiet s s' \<and> (\<forall>pl. plan = Some pl \<longrightarrow> \<not> tm_async tm \<longrightarrow> 0 < pl_new_tokens pl \<and> pl_new_tokens pl \<le> st_budget t)"
  define first where "first = (if tm_async tm
        then guard (tm_external tm > 0) AssertionError (Inr (Some (empty_plan 0 (st_enc_budget t) (sd_enc s)), s))
        else
        let n0 = int (num_tokens r) - tm_computed tm; thr = cf_long_prefill_token_threshold cf;
            n1 = (if 0 < thr \<and> thr < n0 then thr else n0) in
        if \<not> cf_enable_chunked_prefill cf \<and> n1 > st_budget t then Inr (None, s)
        else
        let n = min n1 (st_budget t) in
        guard (n > 0) AssertionError
        (res_bind (plan_encoder cf s r (tm_computed tm) n (st_enc_budget t)) (\<lambda>pl.
           let s1 = s\<lparr>sd_enc := pl_cache pl\<rparr> in
           Inr (if has_encoder_inputs r \<and> pl_new_tokens pl = 0 then None else Some pl, s1))))"
  have plan: "0 < pl_new_tokens pl \<and> pl_new_tokens pl \<le> b"
    if "plan_encoder cf s r nc (min n1 b) eb = Inr pl" "0 < min n1 b" "\<not> (has_encoder_inputs r \<and> pl_new_tokens pl = 0)" for nc n1 b eb pl
    using plan_encoder_tokens [OF that(1)] that by (cases "has_encoder_inputs r") (auto simp: plan_encoder_def empty_plan_def)
  have "res_all ?P first" unfolding first_def Let_def
    by (intro res_rules) (auto dest: plan)
  moreover obtain p1 s1 where f: "first = Inr (p1, s1)" and rest: "(case p1 of
          None \<Rightarrow> Inr (None, s1)
        | Some pl \<Rightarrow>
            if cf_need_mamba_block_aligned_split cf
            then res_bind (mamba_block_aligned_split cf r (pl_new_tokens pl) (tm_local tm) (tm_external tm)) (\<lambda>n.
                   Inr (if n = 0 then None else Some (n, pl), s1))
            else Inr (Some (pl_new_tokens pl, pl), s1)) = Inr (plan, s')"
    using assms(1) unfolding waiting_tokens_def first_def [symmetric] by (auto simp only: res_bind_eq_Inr prod.case split_paired_all)
  ultimately have P: "?P (p1, s1)" by (simp add: res_all_def)
  have "0 < n \<and> n \<le> pl_new_tokens pl" if "mamba_block_aligned_split cf r (pl_new_tokens pl) a b = Inr n" "0 < pl_new_tokens pl" "n \<noteq> 0" for pl n a b
    using mamba_split_tokens [OF that(1) _ cb] that by linarith
  then show ?thesis using P rest by (fastforce split: option.splits if_splits)
qed

lemma allocate_waiting_quiet:
  assumes "allocate_waiting env cf i tm n pl s = Inr (ok, s')"
  shows "quiet s s'"
proof -
  let ?r = "sd_store s i"
  have enc: "quiet s s1 \<Longrightarrow> res_all (\<lambda>(ok, s'). quiet s s') (if has_encoder_inputs ?r
      then res_bind (em_free ?r (sd_enc s1)) (\<lambda>e. Inr (False, s1\<lparr>sd_enc := e\<rparr>)) else Inr (False, s1))" for s1
    by (auto simp: res_all_def)
  have slots: "quiet s (set_request i r' (s1\<lparr>sd_kv := k\<rparr>))"
    if "allocate_slots E (sd_kv s1) ?r m a bl look ext d e = Inr (res, k, r')" "quiet s s1" "sd_store s1 = sd_store s"
    for E m a bl look ext d e res k r' s1
    using slots_quiet(1) [of E s1 i m a bl look ext d e res k r'] that quiet_trans by metis
  have fit: "quiet s s1 \<and> sd_store s1 = sd_store s" if "(if cf_reserve_full_isl cf
                then res_bind (can_fit_full_sequence (sd_kv s) ?r (tm_local tm) (Some (tm_blocks tm)) (tm_external tm) n_enc) (\<lambda>(ok, k).
                       Inr (ok, s\<lparr>sd_kv := k\<rparr>))
                else Inr (True, s)) = Inr (fits, s1)" for n_enc fits s1
    using that by (auto split: if_splits intro!: quiet_kv dest: can_fit_frame)
  have "res_all (\<lambda>(ok, s'). quiet s s') (allocate_waiting env cf i tm n pl s)"
    unfolding allocate_waiting_def Let_def
    by (intro res_rules enc) (auto dest!: fit dest: slots split: option.splits)
  then show ?thesis using assms by (auto simp: res_all_def)
qed

definition wait_inv :: "sched_config \<Rightarrow> int \<Rightarrow> sched_step \<Rightarrow> 'c scheduler \<Rightarrow> bool" where
  "wait_inv cf B t s \<longleftrightarrow> placed (members (st_skipped t)) s \<and> sched_ok B t s
     \<and> length (sd_running s) \<le> cf_max_num_running_reqs cf \<and> requests_ready s"

lemma calm_wait_inv: "calm s s' \<Longrightarrow> wait_inv cf B t s \<Longrightarrow> wait_inv cf B t s'"
  using calm_placed calm_sched_ok requests_ready_same [OF calm_objects] by (fastforce simp: wait_inv_def calm_def)

text \<open>Taking the head of a queue.\<close>

lemma queue_taken:
  assumes pop: "pop_request lt (queue_of q s) = Inr (i, rest)"
  shows "queued s = add_mset i (queued (set_queue q rest s))" "same_objects s (set_queue q rest s)"
    "sd_store (set_queue q rest s) = sd_store s" "sd_running (set_queue q rest s) = sd_running s"
    "placed aside s \<Longrightarrow> placed (add_mset i aside) (set_queue q rest s)" "sched_ok B t (set_queue q rest s) = sched_ok B t s"
proof -
  note M = members_pop [OF pop]
  show 1: "queued s = add_mset i (queued (set_queue q rest s))" using M by (cases q) (simp_all add: queued_def)
  show "same_objects s (set_queue q rest s)" "sd_store (set_queue q rest s) = sd_store s"
    and run: "sd_running (set_queue q rest s) = sd_running s" by (cases q; simp add: same_objects_def)+
  have "requests_ok (set_queue q rest s) = requests_ok s" "unfinished (set_queue q rest s) = unfinished s"
    by (cases q; simp add: requests_ok_def unfinished_def)+
  then show "placed (add_mset i aside) (set_queue q rest s)" if "placed aside s"
    using that by (cases q) (simp_all add: placed_def 1)
  show "sched_ok B t (set_queue q rest s) = sched_ok B t s" by (cases q) (simp_all add: sched_ok_def)
qed

definition waited :: "sched_config \<Rightarrow> int \<Rightarrow> sched_step \<Rightarrow> 'c scheduler \<Rightarrow> sched_step \<Rightarrow> 'c scheduler \<Rightarrow> bool" where
  "waited cf B t s t' s' \<longleftrightarrow> wait_inv cf B t' s' \<and> same_objects s s' \<and> st_preempted t' = st_preempted t"

lemma set_aside_ok:
  assumes inv: "wait_inv cf B t s" and a: "set_aside q t s = Inr (t', s')"
  shows "waited cf B t s t' s' \<and> size (queued s) = Suc (size (queued s'))"
proof -
  obtain i rest where pop: "pop_request (sd_lt s) (queue_of q s) = Inr (i, rest)"
    and t': "t' = t\<lparr>st_skipped := prepend_request (sd_lt s) i (st_skipped t)\<rparr>" and s': "s' = set_queue q rest s"
    using a by (auto simp: set_aside_def)
  note Q = queue_taken [OF pop]
  have "sched_ok B t' s' = sched_ok B t s" using Q(6) by (simp add: t' s' sched_ok_def scheduled_def)
  then show ?thesis using inv Q requests_ready_same [OF Q(2)] by (simp add: wait_inv_def waited_def t' s')
qed

text \<open>The request loads remote blocks: it stays aside with another status.\<close>

lemma remote_wait:
  assumes p: "placed (add_mset i aside) s" and s': "s' = upd_request i (\<lambda>r. r\<lparr>status := WAITING_FOR_REMOTE_KVS, num_computed_tokens := n\<rparr>) s"
  shows "placed (add_mset i aside) s' \<and> calm s s'"
proof -
  have "waiting_status (status (sd_store s i))" using p by (simp add: placed_def)
  then have "calm s s'" by (auto simp: s' calm_def upd_request_def set_request_def same_objects_def ident_def is_finished_def waiting_status_def)
  then show ?thesis using calm_placed [OF _ p] by simp
qed

text \<open>The request starts to run.\<close>

lemma placed_run:
  assumes p: "placed (add_mset i aside) s"
    and s': "s' = upd_request i (\<lambda>r. r\<lparr>status := RUNNING, num_computed_tokens := n\<rparr>) (s\<lparr>sd_running := sd_running s @ [i]\<rparr>)"
  shows "placed aside s'" "same_objects s s'" "queued s' = queued s" "sd_running s' = sd_running s @ [i]" "i \<notin> set (sd_running s)"
proof -
  have w: "waiting_status (status (sd_store s i))" using p by (simp add: placed_def)
  show obj: "same_objects s s'" and q: "queued s' = queued s" and run: "sd_running s' = sd_running s @ [i]"
    using w by (auto simp: s' same_objects_def upd_request_def set_request_def ident_def is_finished_def queued_def waiting_status_def)
  show fresh: "i \<notin> set (sd_running s)" using placed_distinct(2) [OF p, of i] by auto
  have "count (queued s + add_mset i aside) i \<le> 1" by (rule placed_distinct(3) [OF p])
  then have nq: "i \<notin># queued s + aside" by (simp add: not_in_iff)
  have st: "status (sd_store s' j) = (if j = i then RUNNING else status (sd_store s j))" for j
    by (simp add: s' upd_request_def set_request_def)
  have fin: "is_finished (sd_store s' j) = is_finished (sd_store s j)" for j
    using st [of j] waiting_not_finished [OF w] by (auto simp: is_finished_def)
  have rid: "rid_of s' j = rid_of s j" for j by (rule same_objects_rid [OF obj])
  have reqs: "sd_requests s' = sd_requests s" using obj by (simp add: same_objects_def)
  have "requests_ok s'" using p by (simp add: placed_def requests_ok_def reqs rid)
  moreover have "\<forall>j \<in> set (sd_running s'). status (sd_store s' j) = RUNNING" using p by (auto simp: placed_def run st)
  moreover have "\<forall>j \<in># queued s' + aside. waiting_status (status (sd_store s' j))" using p nq by (auto simp: placed_def q st)
  moreover have "mset (sd_running s') + queued s' + aside = unfinished s'"
    using p by (simp add: placed_def run q unfinished_def reqs fin)
  ultimately show "placed aside s'" by (simp add: placed_def)
qed

lemma admit_ok:
  assumes inv: "wait_inv cf B t s" and room: "length (sd_running s) < cf_max_num_running_reqs cf"
    and n: "\<not> tm_async tm \<Longrightarrow> 0 < n \<and> n \<le> st_budget t" and a: "admit cf q tm n pl t s = Inr (t', s')"
  shows "waited cf B t s t' s' \<and> size (queued s) = Suc (size (queued s'))"
proof -
  obtain i rest where pop: "pop_request (sd_lt s) (queue_of q s) = Inr (i, rest)"
    using a by (auto simp: admit_def)
  note Q = queue_taken [OF pop]
  define s1 where "s1 = set_queue q rest s"
  have p1: "placed (add_mset i (members (st_skipped t))) s1" unfolding s1_def using inv by (intro Q(5)) (simp add: wait_inv_def)
  have ok1: "sched_ok B t s1" using inv Q(6) by (simp add: wait_inv_def s1_def)
  have ready1: "requests_ready s1" using inv requests_ready_same [OF Q(2)] by (simp add: wait_inv_def s1_def)
  show ?thesis
  proof (cases "tm_async tm")
    case True
    let ?s2 = "upd_request i (\<lambda>r. r\<lparr>status := WAITING_FOR_REMOTE_KVS, num_computed_tokens := tm_computed tm\<rparr>) s1"
    have eq: "s' = ?s2" "t' = t\<lparr>st_skipped := prepend_request (sd_lt ?s2) i (st_skipped t)\<rparr>"
      using a True pop by (auto simp: admit_def Let_def s1_def)
    note R = remote_wait [OF p1 refl, of "tm_computed tm"]
    have "sched_ok B t' s' = sched_ok B t s1" using calm_sched_ok [of s1 ?s2 B t] R by (simp add: eq sched_ok_def scheduled_def)
    moreover have obj: "same_objects s s'" using R Q(2) by (auto simp: eq s1_def intro: same_objects_trans calm_objects)
    moreover have "queued s' = queued s1" "sd_running s' = sd_running s" "placed (members (st_skipped t')) s'"
      using R Q(4) by (simp_all add: eq calm_def queued_def s1_def)
    ultimately show ?thesis using ok1 room Q(1) inv requests_ready_same [OF obj]
      by (simp add: waited_def wait_inv_def s1_def) (simp add: eq(2))
  next
    case False
    let ?rid = "rid_of s1 i"
    let ?s2 = "upd_request i (\<lambda>r. r\<lparr>status := RUNNING, num_computed_tokens := tm_computed tm\<rparr>) (s1\<lparr>sd_running := sd_running s1 @ [i]\<rparr>)"
    note R = placed_run(1-4) [OF p1 refl, of "tm_computed tm"] placed_run(5) [OF p1 refl]
    define t1 where "t1 = (if status (sd_store s1 i) = WAITING then t\<lparr>st_new := st_new t @ [i]\<rparr> else t\<lparr>st_resumed := st_resumed t @ [i]\<rparr>)"
    define t2 where "t2 = (case (cf_max_loras cf, lora_request (sd_store s1 i)) of
                  (Some _, Some l) \<Rightarrow> t1\<lparr>st_loras := List.insert (lora_int_id l) (st_loras t1)\<rparr> | _ \<Rightarrow> t1)"
    define b where "b = km_get_blocks (sd_kv (s1\<lparr>sd_running := sd_running s1 @ [i]\<rparr>)) ?rid"
    define t3 where "t3 = t2\<lparr>st_new_blocks := AList.update ?rid b (st_new_blocks t2), st_tokens := AList.update ?rid n (st_tokens t2),
                  st_budget := st_budget t2 - n\<rparr>"
    have e: "allocate_encoder i pl t3 ?s2 = Inr (t', s')"
    proof -
      have "admit cf q tm n pl t s = guard (status (sd_store s1 i) = WAITING \<or> status (sd_store s1 i) = PREEMPTED) RuntimeError
          (allocate_encoder i pl t3 ?s2)"
        unfolding admit_def pop res_bind_simps prod.case if_not_P [OF False] Let_def s1_def t1_def t2_def t3_def b_def by (rule refl)
      with a show ?thesis by (simp only: guard_eq_Inr)
    qed
    have "mset (scheduled t1) = add_mset i (mset (scheduled t))" "st_skipped t1 = st_skipped t" "st_preempted t1 = st_preempted t"
      "st_tokens t1 = st_tokens t" "st_new_blocks t1 = st_new_blocks t" "st_budget t1 = st_budget t"
      by (simp_all add: t1_def scheduled_def)
    moreover have "scheduled t2 = scheduled t1" "st_skipped t2 = st_skipped t1" "st_preempted t2 = st_preempted t1"
      "st_tokens t2 = st_tokens t1" "st_new_blocks t2 = st_new_blocks t1" "st_budget t2 = st_budget t1"
      by (cases "cf_max_loras cf"; cases "lora_request (sd_store s1 i)"; simp add: t2_def scheduled_def)+
    ultimately have t3: "mset (scheduled t3) = add_mset i (mset (scheduled t))" "st_skipped t3 = st_skipped t" "st_preempted t3 = st_preempted t"
        "st_tokens t3 = AList.update ?rid n (st_tokens t)" "st_new_blocks t3 = AList.update ?rid b (st_new_blocks t)"
        "st_budget t3 = st_budget t - n"
      by (simp_all add: t3_def scheduled_def)
    note E = encoder_quiet [OF e]
    have same: "rid_of ?s2 j = rid_of s1 j" for j by (rule same_objects_rid [OF R(2)])
    have "sched_ok B t ?s2" using ok1 by (auto simp: sched_ok_def same R(4))
    moreover have "i \<notin> set (scheduled t)" using ok1 R(5) by (auto simp: sched_ok_def)
    ultimately have ok3: "sched_ok B t3 ?s2"
      using n False by (intro update_sched_ok [OF _ R(1), of B t i n t3 b]) (simp_all add: R(4) t3 same)
    have "sched_ok B t' s'"
      using ok3 sched_ok_quiet [OF E(1), of B t3] by (subst E(3)) (simp add: sched_ok_def scheduled_def)
    moreover have sk: "st_skipped t' = st_skipped t" "st_preempted t' = st_preempted t" using t3 by (subst E(3), simp)+
    moreover have obj: "same_objects s s'" 
      by (rule same_objects_trans [OF same_objects_trans [OF Q(2) [folded s1_def] R(2)] quiet_objects [OF E(1)]])
    moreover have "placed (members (st_skipped t)) s'" using R(1) quiet_placed [OF E(1)] by simp
    moreover have "queued s' = queued s1" "length (sd_running s') = Suc (length (sd_running s1))"
      using E(1) R(3,4) by (simp_all add: quiet_def queued_def)
    ultimately show ?thesis using room Q(1,4) inv requests_ready_same [OF obj] by (simp add: waited_def wait_inv_def s1_def)
  qed
qed

lemma peek_queued:
  assumes "peek_request (queue_of q s) = Inr i"
  shows "i \<in># queued s"
proof -
  obtain rest where "pop_request (sd_lt s) (queue_of q s) = Inr (i, rest)" using pop_peek [OF assms] by blast
  then show ?thesis using queue_taken(1) by fastforce
qed

definition wait_iteration :: "sched_config \<Rightarrow> int \<Rightarrow> sched_step \<Rightarrow> 'c scheduler \<Rightarrow> bool \<times> sched_step \<times> 'c scheduler \<Rightarrow> bool" where
  "wait_iteration cf B t s = (\<lambda>(go, t', s'). waited cf B t s t' s' \<and> (go \<longrightarrow> size (queued s) = Suc (size (queued s'))))"

lemma waited_calm: "calm s s' \<Longrightarrow> waited cf B t s' t' s'' \<Longrightarrow> waited cf B t s t' s''"
  unfolding waited_def by (metis calm_objects same_objects_trans)

lemma calm_waited: "calm s s' \<Longrightarrow> wait_inv cf B t s \<Longrightarrow> waited cf B t s t s'"
  by (simp add: waited_def calm_wait_inv calm_objects)

lemma calm_queued: "calm s s' \<Longrightarrow> queued s' = queued s \<and> sd_running s' = sd_running s"
  by (simp add: calm_def queued_def)

text \<open>The part of an iteration after the request was found ready.\<close>

lemma schedule_ready_ok:
  assumes inv: "wait_inv cf B t s" and c: "calm s s1" and i: "i \<in># queued s"
    and room: "length (sd_running s) < cf_max_num_running_reqs cf" and cb: "0 < cf_cache_block_size cf"
  shows "ends (wait_iteration cf B t s) (ob (match_tokens env i s1) (\<lambda>(found, s2).
      case found of
        None \<Rightarrow> ob (Some (set_aside q t s2)) (\<lambda>(t', s'). Some (Inr (True, t', s')))
      | Some tm \<Rightarrow>
          ob (Some (waiting_tokens cf t s2 (sd_store s2 i) tm)) (\<lambda>(plan, s3).
          case plan of
            None \<Rightarrow> Some (Inr (False, t, s3))
          | Some (n, pl) \<Rightarrow>
              ob (Some (allocate_waiting env cf i tm n pl s3)) (\<lambda>(ok, s4).
              if \<not> ok then Some (Inr (False, t, s4))
              else ob (Some (admit cf q tm n pl t s4)) (\<lambda>(t', s5). Some (Inr (True, t', s5)))))))"
proof (rule ends_ob [OF match_tokens_quiet])
  have inv1: "wait_inv cf B t s1" by (rule calm_wait_inv [OF c inv])
  show "specs_ok (sd_kv s1)" using inv1 by (simp add: wait_inv_def requests_ready_def)
  show "all_token_ids (sd_store s1 i) \<noteq> []"
    using inv1 placed_ready [of "members (st_skipped t)" s1 i] i calm_queued [OF c] by (simp add: wait_inv_def)
  fix x :: "token_match option \<times> 'a scheduler" assume x: "case x of (found, s') \<Rightarrow> quiet s1 s'"
  obtain found s2 where xeq: "x = (found, s2)" by (cases x)
  have c2: "calm s s2" using x calm_trans [OF c quiet_calm] by (simp add: xeq)
  have step: "wait_iteration cf B t s (True, t', s')"
    if "calm s s3" "waited cf B t s3 t' s' \<and> size (queued s3) = Suc (size (queued s'))" for s3 t' s'
    using that waited_calm [OF that(1)] calm_queued [OF that(1)] by (simp add: wait_iteration_def)
  have stop: "wait_iteration cf B t s (False, t, s3)" if "calm s s3" for s3
    using calm_waited [OF that inv] by (simp add: wait_iteration_def)
  have calm4: "calm s s4" and tokens: "\<not> tm_async tm \<Longrightarrow> 0 < n \<and> n \<le> st_budget t"
    if w: "waiting_tokens cf t s2 (sd_store s2 i) tm = Inr (Some (n, pl), s3)"
      and al: "allocate_waiting env cf i tm n pl s3 = Inr (ok, s4)" for tm n pl s3 ok s4
  proof -
    have q: "quiet s2 s3" by (rule conjunct1 [OF waiting_tokens_ok [OF w cb]])
    show "calm s s4" by (rule calm_trans [OF c2 quiet_calm [OF quiet_trans [OF q allocate_waiting_quiet [OF al]]]])
  qed (use waiting_tokens_ok [OF w cb] in auto)
  have stopped: "calm s s3" if "waiting_tokens cf t s2 (sd_store s2 i) tm = Inr (None, s3)" for tm s3
    using waiting_tokens_ok [OF that cb] c2 by (auto intro: calm_trans quiet_calm)
  have admitted: "wait_iteration cf B t s (True, t', s5)"
    if "calm s s4" "\<not> tm_async tm \<Longrightarrow> 0 < n \<and> n \<le> st_budget t" "admit cf q tm n pl t s4 = Inr (t', s5)" for tm n pl s4 t' s5
    using admit_ok [OF calm_wait_inv [OF that(1) inv] _ that(2,3)] room calm_queued [OF that(1)] step [OF that(1)] by simp
  show "ends (wait_iteration cf B t s) (case x of (found, s2) \<Rightarrow>
      case found of
        None \<Rightarrow> ob (Some (set_aside q t s2)) (\<lambda>(t', s'). Some (Inr (True, t', s')))
      | Some tm \<Rightarrow>
          ob (Some (waiting_tokens cf t s2 (sd_store s2 i) tm)) (\<lambda>(plan, s3).
          case plan of
            None \<Rightarrow> Some (Inr (False, t, s3))
          | Some (n, pl) \<Rightarrow>
              ob (Some (allocate_waiting env cf i tm n pl s3)) (\<lambda>(ok, s4).
              if \<not> ok then Some (Inr (False, t, s4))
              else ob (Some (admit cf q tm n pl t s4)) (\<lambda>(t', s5). Some (Inr (True, t', s5))))))"
    unfolding xeq prod.case
  proof (intro ends_shape, goal_cases)
    case (1 p t' s')
    then show ?case using set_aside_ok [OF calm_wait_inv [OF c2 inv]] step [OF c2] by simp
  next
    case (2 tm p plan s3)
    then have "waiting_tokens cf t s2 (sd_store s2 i) tm = Inr (None, s3)" by simp
    then show ?case by (intro stop stopped)
  next
    case (3 tm p plan s3 np n pl p' ok s4)
    then have "waiting_tokens cf t s2 (sd_store s2 i) tm = Inr (Some (n, pl), s3)"
      "allocate_waiting env cf i tm n pl s3 = Inr (ok, s4)" by simp_all
    then show ?case by (intro stop calm4)
  next
    case (4 tm p plan s3 np n pl p' ok s4 p'' t' s5)
    then have w: "waiting_tokens cf t s2 (sd_store s2 i) tm = Inr (Some (n, pl), s3)"
      and al: "allocate_waiting env cf i tm n pl s3 = Inr (ok, s4)" and ad: "admit cf q tm n pl t s4 = Inr (t', s5)" by simp_all
    show ?case by (rule admitted [OF calm4 [OF w al] tokens [OF w al] ad])
  qed
qed

lemma schedule_waiting_one_ok:
  assumes inv: "wait_inv cf B t s" and cb: "0 < cf_cache_block_size cf"
  shows "ends (wait_iteration cf B t s) (schedule_waiting_one env cf t s)"
proof (cases "length (sd_running s) = cf_max_num_running_reqs cf")
  case True
  then show ?thesis using calm_waited [OF calm_refl inv]
    by (simp add: schedule_waiting_one_def ends_def res_all_def wait_iteration_def)
next
  case False
  then have room: "length (sd_running s) < cf_max_num_running_reqs cf" using inv by (simp add: wait_inv_def)
  have skip: "ends (wait_iteration cf B t s) (ob (Some (set_aside q t s1)) (\<lambda>(t', s'). Some (Inr (True, t', s'))))"
    if c: "calm s s1" for q s1
  proof (intro ends_shape)
    fix p t' s' assume "set_aside q t s1 = Inr p" "p = (t', s')"
    then show "wait_iteration cf B t s (True, t', s')"
      using set_aside_ok [OF calm_wait_inv [OF c inv]] waited_calm [OF c] calm_queued [OF c] by (simp add: wait_iteration_def)
  qed
  have ready: "calm s s1" if i: "i \<in># queued s"
    and "(if is_blocked_waiting_status (status (sd_store s i))
          then try_promote_blocked_waiting_request env i s else Inr (True, s)) = Inr (ok, s1)" for i ok s1
  proof -
    have "waiting_status (status (sd_store s i))" using inv i by (simp add: wait_inv_def placed_def)
    then show ?thesis using that promote_calm by (auto split: if_splits)
  qed
  show ?thesis unfolding schedule_waiting_one_def if_not_P [OF False]
  proof (intro ends_ob_Some ends_option ends_pair)
    fix sel q i p ok s1
    assume sel: "select_waiting_queue_for_scheduling cf s = Inr sel" "sel = Some q" and pk: "peek_request (queue_of q s) = Inr i"
      and r: "(if is_blocked_waiting_status (status (sd_store s i))
          then try_promote_blocked_waiting_request env i s else Inr (True, s)) = Inr p" "p = (ok, s1)"
    have i: "i \<in># queued s" by (rule peek_queued [OF pk])
    have c: "calm s s1" by (rule ready [OF i]) (simp add: r)
    show "ends (wait_iteration cf B t s) (let skip = (\<lambda>s. ob (Some (set_aside q t s)) (\<lambda>(t', s'). Some (Inr (True, t', s')))) in
      if \<not> ok \<or> exceeds_loras cf (sd_store s1 i) (st_loras t) then skip s1
      else
      ob (match_tokens env i s1) (\<lambda>(found, s2).
      case found of
        None \<Rightarrow> skip s2
      | Some tm \<Rightarrow>
          ob (Some (waiting_tokens cf t s2 (sd_store s2 i) tm)) (\<lambda>(plan, s3).
          case plan of
            None \<Rightarrow> Some (Inr (False, t, s3))
          | Some (n, pl) \<Rightarrow>
              ob (Some (allocate_waiting env cf i tm n pl s3)) (\<lambda>(ok, s4).
              if \<not> ok then Some (Inr (False, t, s4))
              else ob (Some (admit cf q tm n pl t s4)) (\<lambda>(t', s5). Some (Inr (True, t', s5)))))))"
      unfolding Let_def by (intro ends_if skip [OF c] schedule_ready_ok [OF inv c i room cb])
  qed (simp add: ends_def res_all_def)
qed

lemma waiting_loop_ok:
  assumes "wait_inv cf B t s" "size (queued s) \<le> fuel" and cb: "0 < cf_cache_block_size cf"
  shows "ends (\<lambda>(t', s'). waited cf B t s t' s') (waiting_loop env cf fuel t s)"
  using assms(1,2)
proof (induction fuel arbitrary: t s)
  case 0
  then have "\<not> (queue_nonempty (sd_waiting s) \<or> queue_nonempty (sd_skipped s))"
    by (simp add: queued_def queue_nonempty_members)
  then show ?case using 0 calm_waited [OF calm_refl]
    by (subst waiting_loop.simps) (auto simp: ends_def res_all_def)
next
  case (Suc fuel)
  have "ends (\<lambda>(t', s'). waited cf B t s t' s') (if go then waiting_loop env cf fuel t1 s1 else Some (Inr (t1, s1)))"
    if it: "wait_iteration cf B t s (go, t1, s1)" for go t1 s1
  proof (cases go)
    case True
    then have "ends (\<lambda>(t', s'). waited cf B t1 s1 t' s') (waiting_loop env cf fuel t1 s1)"
      by (intro Suc.IH) (use it Suc.prems(2) in \<open>auto simp: wait_iteration_def waited_def\<close>)
    then show ?thesis using True it
      by (auto simp: wait_iteration_def waited_def elim!: ends_mono intro: same_objects_trans)
  next
    case False
    then show ?thesis using it by (simp add: ends_def res_all_def wait_iteration_def)
  qed
  then show ?case using calm_waited [OF calm_refl Suc.prems(1)]
    by (subst waiting_loop.simps) (auto intro!: ends_ob [OF schedule_waiting_one_ok [OF Suc.prems(1) cb]] ends_Some res_all_Inr)
qed

section \<open>The whole step\<close>

text \<open>The states in which a step may start.\<close>

definition schedulable :: "sched_config \<Rightarrow> 'c scheduler \<Rightarrow> bool" where
  "schedulable cf s \<longleftrightarrow> sched_inv cf s \<and> requests_ready s \<and> (\<forall>i \<in> set (sd_running s). not_ahead cf (sd_store s i))
     \<and> 0 < cf_cache_block_size cf \<and> 0 \<le> cf_max_num_scheduled_tokens cf"

definition step_budget :: "sched_config \<Rightarrow> 'c scheduler \<Rightarrow> int" where
  "step_budget cf s = (if sd_pause s = PAUSED_ALL then 0 else cf_max_num_scheduled_tokens cf)"

definition step_result :: "sched_config \<Rightarrow> 'c scheduler \<Rightarrow> sched_step \<Rightarrow> 'c scheduler \<Rightarrow> bool" where
  "step_result cf s t s' \<longleftrightarrow> sched_inv cf s' \<and> sched_ok (step_budget cf s) t s' \<and> same_objects s s'
     \<and> set (st_preempted t) \<inter> set (scheduled t) = {}"

lemma sched_ok_ignores [simp]: "sched_ok B (t\<lparr>st_loras := l\<rparr>) s = sched_ok B t s" "sched_ok B t (s\<lparr>sd_skipped := q\<rparr>) = sched_ok B t s"
  by (simp_all add: sched_ok_def scheduled_def)

lemma schedule_waiting_ok:
  assumes p: "placed {#} s" and ok: "sched_ok B t s" and len: "length (sd_running s) \<le> cf_max_num_running_reqs cf"
    and ready: "requests_ready s" and sk: "members (st_skipped t) = {#}" and cb: "0 < cf_cache_block_size cf"
    and pre: "set (st_preempted t) \<subseteq> set_mset (queued s)"
  shows "ends (\<lambda>(t', s'). sched_inv cf s' \<and> sched_ok B t' s' \<and> same_objects s s' \<and> set (st_preempted t') \<inter> set (scheduled t') = {})
    (schedule_waiting env cf t s)"
proof (cases "st_preempted t = [] \<and> sd_pause s = UNPAUSED")
  case True
  let ?restored = "\<lambda>t1 s1. if queue_nonempty (st_skipped t1)
                 then s1\<lparr>sd_skipped := prepend_requests (sd_lt s1) (st_skipped t1) (sd_skipped s1)\<rparr> else s1"
  have inv: "wait_inv cf B t s" using assms by (simp add: wait_inv_def)
  have restored: "sched_inv cf (?restored t1 s1) \<and> sched_ok B t1 (?restored t1 s1) \<and> same_objects s (?restored t1 s1)
      \<and> set (st_preempted t1) \<inter> set (scheduled t1) = {}" if w: "waited cf B t s t1 s1" for t1 s1
  proof -
    have "placed {#} (?restored t1 s1)"
      using w by (auto simp: waited_def wait_inv_def placed_def queue_nonempty_members queued_def requests_ok_def unfinished_def ac_simps)
    then show ?thesis using w True by (auto simp: waited_def wait_inv_def sched_inv_def same_objects_def)
  qed
  have "ends (\<lambda>(t', s'). waited cf B t s t' s') (waiting_loop env cf (queue_len (sd_waiting s) + queue_len (sd_skipped s)) t s)"
    by (rule waiting_loop_ok [OF inv _ cb]) (simp add: queued_def queue_len_members)
  then show ?thesis unfolding schedule_waiting_def if_P [OF True]
    by (rule ends_ob) (use restored in \<open>auto intro!: ends_Some res_all_Inr\<close>)
next
  case False
  have "set (st_preempted t) \<inter> set (sd_running s) = {}" using placed_distinct(2) [OF p] pre by fastforce
  then have "set (st_preempted t) \<inter> set (scheduled t) = {}" using ok by (auto simp: sched_ok_def)
  then show ?thesis using False p ok len by (auto simp: schedule_waiting_def ends_def res_all_def sched_inv_def)
qed

lemma step_init_ok:
  assumes "schedulable cf s"
  shows "run_inv cf (step_budget cf s) (step_init cf s) s" "ahead (step_init cf s) s = length (sd_running s)"
  using assms by (auto simp: run_inv_def schedulable_def sched_inv_def sched_ok_def step_init_def scheduled_def step_budget_def ahead_def)

lemma schedulable_new_step: "schedulable cf s \<Longrightarrow> schedulable cf (s\<lparr>sd_kv := km_new_step_starts (sd_kv s)\<rparr>)"
proof -
  have q: "quiet s (s\<lparr>sd_kv := km_new_step_starts (sd_kv s)\<rparr>)" by (rule quiet_kv) simp
  show "schedulable cf s \<Longrightarrow> schedulable cf (s\<lparr>sd_kv := km_new_step_starts (sd_kv s)\<rparr>)"
    using quiet_placed [OF q] requests_ready_same [OF quiet_objects [OF q]] by (simp add: schedulable_def sched_inv_def)
qed

lemma schedule_requests_ok:
  assumes "schedulable cf s"
  shows "ends (\<lambda>(t', s'). step_result cf s t' s') (schedule_requests env cf s)"
proof -
  let ?s0 = "s\<lparr>sd_kv := km_new_step_starts (sd_kv s)\<rparr>" and ?B = "step_budget cf s"
  have s0: "schedulable cf ?s0" by (rule schedulable_new_step [OF assms])
  have B: "step_budget cf ?s0 = ?B" by (simp add: step_budget_def)
  have obj0: "same_objects s ?s0" by (rule quiet_objects [OF quiet_kv]) simp
  note init = step_init_ok [OF s0, unfolded B]
  have cb: "0 < cf_cache_block_size cf" using assms by (simp add: schedulable_def)
  note run = running_loop_ok [OF init(1) eq_refl [OF init(2)] cb]
  show ?thesis unfolding schedule_requests_def Let_def
  proof (rule ends_ob [OF run], intro ends_pair ends_ob_Some)
    fix x t1 s1 loras
    assume x: "case x of (t1, s1) \<Rightarrow> run_inv cf ?B t1 s1 \<and> progress (step_init cf ?s0, ?s0) (t1, s1)"
      and xeq: "x = (t1, s1)"
    have R: "run_inv cf ?B t1 s1" and obj: "same_objects ?s0 s1" and len: "length (sd_running s1) \<le> length (sd_running ?s0)"
      using x by (simp_all add: xeq progress_def)
    have so: "same_objects s s1" by (rule same_objects_trans [OF obj0 obj])
    have "ends (\<lambda>(t', s'). sched_inv cf s' \<and> sched_ok ?B t' s' \<and> same_objects s1 s' \<and> set (st_preempted t') \<inter> set (scheduled t') = {})
      (schedule_waiting env cf (t1\<lparr>st_loras := loras\<rparr>) s1)"
      using R len s0 cb requests_ready_same [OF obj]
      by (intro schedule_waiting_ok) (simp_all add: run_inv_def schedulable_def sched_inv_def)
    then show "ends (\<lambda>(t', s'). step_result cf s t' s') (schedule_waiting env cf (t1\<lparr>st_loras := loras\<rparr>) s1)"
      by (rule ends_mono) (use same_objects_trans [OF so] in \<open>auto simp: step_result_def\<close>)
  qed
qed

end
