(* ===== verification/Scheduler_Example.thy ===== *)
theory Scheduler_Example
  imports Scheduler_Waiting KV_Manager_Properties
begin

text \<open>
  A small scheduler on which the properties are evaluated: sixteen tokens per step, four running requests and blocks of two tokens.
\<close>

definition example_sched_config :: "scheduling_policy \<Rightarrow> int \<Rightarrow> sched_config" where
  "example_sched_config p max_len = \<lparr>cf_policy = p, cf_max_num_running_reqs = 4, cf_max_num_scheduled_tokens = 16, cf_max_model_len = max_len,
    cf_long_prefill_token_threshold = 0, cf_enable_chunked_prefill = True, cf_async_scheduling = False, cf_use_pp = False,
    cf_max_loras = None, cf_encoder = \<lparr>sc_is_encoder_decoder = False, sc_disable_chunked_mm_input = False, sc_ec_connector = None\<rparr>,
    cf_max_num_encoder_input_tokens = 0, cf_use_eagle = False, cf_num_spec_tokens = 0, cf_num_lookahead_tokens = 0,
    cf_need_mamba_block_aligned_split = False, cf_cache_block_size = 2, cf_block_size = 2, cf_reserve_full_isl = False,
    cf_needs_kv_cache_zeroing = False, cf_use_v2_model_runner = False, cf_recompute_kv_load_failures = True\<rparr>"

definition example_sched_env :: "unit sched_env" where
  "example_sched_env = \<lparr>se_hash = example_env, se_hasher = Some (request_block_hasher example_env 2), se_grammar_ready = (\<lambda>_. False),
    se_should_advance = (\<lambda>_. False), se_accept_tokens = (\<lambda>_ _. True), se_validate_tokens = (\<lambda>_ t. t), se_connector = None\<rparr>"

definition example_new :: "nat \<Rightarrow> string \<Rightarrow> int list \<Rightarrow> request" where
  "example_new i rid toks =
     (case request_init (Some (request_block_hasher example_env 2)) (of_nat i) i (example_args rid toks) of Inr r \<Rightarrow> r | Inl e \<Rightarrow> example_request [])"

definition example_start :: "sched_config \<Rightarrow> unit scheduler" where
  "example_start cf = scheduler_init cf False example_manager 0 () (\<lambda>_. example_request [])"

text \<open>Two requests with a common prefix are waiting.\<close>

definition example_two :: "unit scheduler" where
  "example_two = (let s = example_start (example_sched_config FCFS 64) in
     case res_bind (sched_add_request example_sched_env 0 (example_new 0 ''a'' [1, 2, 3, 4, 5]) s)
            (sched_add_request example_sched_env 1 (example_new 1 ''b'' [1, 2, 3, 4, 6])) of Inr s' \<Rightarrow> s' | Inl e \<Rightarrow> s)"

lemma example_schedulable: "schedulable (example_sched_config FCFS 64) example_two"
  by code_simp

lemma example_step:
  "\<exists>t s'. schedule_requests example_sched_env (example_sched_config FCFS 64) example_two = Some (Inr (t, s'))
     \<and> st_tokens t = [(''a'', 5), (''b'', 1)] \<and> sd_running s' = [0, 1]"
proof -
  have "case schedule_requests example_sched_env (example_sched_config FCFS 64) example_two of
      Some (Inr (t, s')) \<Rightarrow> st_tokens t = [(''a'', 5), (''b'', 1)] \<and> sd_running s' = [0, 1] | _ \<Rightarrow> False"
    by code_simp
  then show ?thesis by (auto split: option.splits sum.splits)
qed

end
