(* ===== verification/Scheduler_Step.thy ===== *)
theory Scheduler_Step
  imports Scheduler_Example
begin

text \<open>
  Properties of one scheduling step: it returns, it stays within its bounds, and it loses no request.
\<close>

section \<open>The output of a step\<close>

lemma quiet_kv_through: "km_shape k = km_shape (sd_kv s') \<Longrightarrow> quiet s (s'\<lparr>sd_kv := k\<rparr>) = quiet s s'"
  by (simp add: quiet_def same_objects_def same_status_def)

lemma common_prefix_shape:
  "(case sd_running s of [] \<Rightarrow> Inr (ns0, sd_kv s) | i # _ \<Rightarrow> km_get_num_common_prefix_blocks (sd_kv s) (f i)) = Inr (ns, k)
    \<Longrightarrow> km_shape k = km_shape (sd_kv s)"
  by (auto split: list.splits dest: common_prefix_frame)

lemma zeroing_shape:
  "(if c then (case km_take_new_block_ids k of (ids, k') \<Rightarrow> (g ids, k')) else (None, k)) = (zero, k2) \<Longrightarrow> km_shape k2 = km_shape k"
  using take_new_block_ids_frame [of k] by (cases "km_take_new_block_ids k") (auto split: if_splits)

lemma make_output_all:
  "res_all (\<lambda>(out, s'). quiet s s' \<and> so_num_scheduled_tokens out = st_tokens t) (make_output cf t s)"
  unfolding make_output_def Let_def
proof (intro res_rules, goal_cases)
  case (1 x common k new cached zero k2 freed e)
  have "km_shape k = km_shape (sd_kv s)" by (rule common_prefix_shape [OF 1(5) [unfolded 1(6)]])
  moreover have "km_shape k2 = km_shape k" using zeroing_shape [OF 1(9)] by simp
  ultimately show ?case by (simp add: quiet_kv_through)
qed

lemma advance_quiet:
  "advance_request e os = Inr os' \<Longrightarrow> quiet (snd os) (snd os') \<and> so_num_scheduled_tokens (fst os') = so_num_scheduled_tokens (fst os)"
  by (auto simp: advance_request_def Let_def intro!: quiet_set simp: ident_def is_finished_def split: prod.splits)

lemma placeholders_quiet:
  "add_placeholders cf rid os = Inr os' \<Longrightarrow> quiet (snd os) (snd os') \<and> so_num_scheduled_tokens (fst os') = so_num_scheduled_tokens (fst os)"
  by (auto simp: add_placeholders_def Let_def intro!: quiet_set simp: ident_def is_finished_def split: prod.splits if_splits)

lemma fold_quiet:
  assumes "fold_res f xs os = Inr os'"
    and step: "\<And>x os os'. f x os = Inr os' \<Longrightarrow> quiet (snd os) (snd os') \<and> so_num_scheduled_tokens (fst os') = so_num_scheduled_tokens (fst os)"
  shows "quiet (snd os) (snd os') \<and> so_num_scheduled_tokens (fst os') = so_num_scheduled_tokens (fst os)"
proof (rule fold_res_preserves [OF assms(1)])
  show "quiet (snd os) (snd os) \<and> so_num_scheduled_tokens (fst os) = so_num_scheduled_tokens (fst os)" by simp
  fix x y y' assume "quiet (snd os) (snd y) \<and> so_num_scheduled_tokens (fst y) = so_num_scheduled_tokens (fst os)" "f x y = Inr y'"
  then show "quiet (snd os) (snd y') \<and> so_num_scheduled_tokens (fst y') = so_num_scheduled_tokens (fst os)"
    using step [of x y y'] quiet_trans [of "snd os" "snd y" "snd y'"] by simp
qed

lemma update_after_schedule_quiet:
  assumes "update_after_schedule cf out s = Inr (out', s')"
  shows "quiet s s'" "so_num_scheduled_tokens out' = so_num_scheduled_tokens out"
proof -
  obtain out1 s1 where 1: "fold_res advance_request (so_num_scheduled_tokens out) (out, s) = Inr (out1, s1)"
    and rest: "(if cf_async_scheduling cf
     then fold_res (add_placeholders cf) (map fst (so_num_scheduled_tokens out1)) (out1, s1\<lparr>sd_finished_req_ids := []\<rparr>)
     else Inr (out1, s1\<lparr>sd_finished_req_ids := []\<rparr>)) = Inr (out', s')"
    using assms by (auto simp: update_after_schedule_def Let_def)
  have q1: "quiet s s1" and o1: "so_num_scheduled_tokens out1 = so_num_scheduled_tokens out"
    using fold_quiet [OF 1 advance_quiet] by simp_all
  have q2: "quiet (s1\<lparr>sd_finished_req_ids := []\<rparr>) s' \<and> so_num_scheduled_tokens out' = so_num_scheduled_tokens out1"
  proof (cases "cf_async_scheduling cf")
    case True
    then show ?thesis using fold_quiet [OF rest [unfolded if_P [OF True]] placeholders_quiet] by simp
  next
    case False
    then show ?thesis using rest by auto
  qed
  have "quiet s (s1\<lparr>sd_finished_req_ids := []\<rparr>)" using q1 by simp
  then show "quiet s s'" using q2 quiet_trans by blast
  show "so_num_scheduled_tokens out' = so_num_scheduled_tokens out" using q2 o1 by simp
qed

text \<open>What a whole step leaves behind.\<close>

definition step_done :: "sched_config \<Rightarrow> 'c scheduler \<Rightarrow> scheduler_output \<Rightarrow> 'c scheduler \<Rightarrow> bool" where
  "step_done cf s out s' \<longleftrightarrow> sched_inv cf s' \<and> same_objects s s' \<and> od_wf (so_num_scheduled_tokens out)
     \<and> (\<forall>(rid, n) \<in> set (so_num_scheduled_tokens out). 0 < n \<and> rid \<in> rid_of s' ` set (sd_running s'))
     \<and> sum_list (map snd (so_num_scheduled_tokens out)) \<le> step_budget cf s"

lemma step_done_intro:
  assumes R: "step_result cf s t s1" and q: "quiet s1 s'" and out: "so_num_scheduled_tokens out = st_tokens t"
  shows "step_done cf s out s'"
proof -
  have run: "sd_running s' = sd_running s1" using q by (simp add: quiet_def)
  have rid: "rid_of s' i = rid_of s1 i" for i by (rule same_objects_rid [OF quiet_objects [OF q]])
  have ok: "sched_ok (step_budget cf s) t s1" and obj: "same_objects s s1" and inv: "sched_inv cf s1" using R by (simp_all add: step_result_def)
  have "\<forall>(rid, n) \<in> set (st_tokens t). 0 < n \<and> rid \<in> rid_of s1 ` set (sd_running s1)"
  proof clarify
    fix k n assume kn: "(k, n) \<in> set (st_tokens t)"
    have "k \<in> fst ` set (st_tokens t)" using kn by (rule rev_image_eqI) simp
    then have k: "k \<in> rid_of s1 ` set (scheduled t)" using ok by (simp add: sched_ok_def)
    have sub: "set (scheduled t) \<subseteq> set (sd_running s1)" and pos: "\<forall>x \<in> set (st_tokens t). case x of (k, n) \<Rightarrow> 0 < n"
      using ok by (simp_all add: sched_ok_def)
    show "0 < n \<and> k \<in> rid_of s1 ` set (sd_running s1)" using bspec [OF pos kn] subsetD [OF image_mono [OF sub] k] by simp
  qed
  moreover have "sched_inv cf s'" using inv quiet_placed [OF q] by (simp add: sched_inv_def run)
  moreover have "same_objects s s'" by (rule same_objects_trans [OF obj quiet_objects [OF q]])
  ultimately show ?thesis using ok by (simp add: step_done_def out run rid sched_ok_def)
qed

lemma schedule_ok:
  assumes "schedulable cf s"
  shows "ends (\<lambda>(out, s'). step_done cf s out s') (schedule env cf s)"
  unfolding schedule_def
proof (rule ends_ob [OF schedule_requests_ok [OF assms]], intro ends_pair ends_Some res_rules)
  fix x :: "sched_step \<times> 'a scheduler" and t s1 y out s2
  assume R: "case x of (t', s') \<Rightarrow> step_result cf s t' s'" and x: "x = (t, s1)"
    and y: "make_output cf t s1 = Inr y" "y = (out, s2)"
  let ?s3 = "case se_connector env of None \<Rightarrow> s2
           | Some con \<Rightarrow> s2\<lparr>sd_connector := cn_build_connector_meta con out (sd_connector s2)\<rparr>"
  have M: "quiet s1 s2" "so_num_scheduled_tokens out = st_tokens t"
    using res_allD [OF make_output_all y(1)] by (simp_all add: y(2))
  then have q3: "quiet s1 ?s3" by (simp split: option.split)
  show "res_all (\<lambda>(out, s'). step_done cf s out s') (update_after_schedule cf out ?s3)"
  proof (clarsimp simp: res_all_def)
    fix out' s' assume u: "update_after_schedule cf out ?s3 = Inr (out', s')"
    show "step_done cf s out' s'"
      using R update_after_schedule_quiet [OF u] M
      by (intro step_done_intro [OF _ quiet_trans [OF q3]]) (simp_all add: x)
  qed
qed

section \<open>Properties\<close>



text \<open>
  C27: a call of \<^verbatim>\<open>Scheduler.schedule\<close> returns and loses no request. From such a state the call ends, with an output or with an error of one of its callees;
  after a normal return every unfinished request is again in exactly one of the queues with the status that belongs
  there, the same requests as before are queued or running, and the output names only running requests.
\<close>

theorem schedule_keeps_requests:
  assumes "schedulable cf s"
  shows "\<exists>r. schedule env cf s = Some r \<and> (\<forall>out s'. r = Inr (out, s') \<longrightarrow>
      sched_inv cf s'
      \<and> mset (sd_running s') + members (sd_waiting s') + members (sd_skipped s')
          = mset (sd_running s) + members (sd_waiting s) + members (sd_skipped s)
      \<and> sd_requests s' = sd_requests s
      \<and> fst ` set (so_num_scheduled_tokens out) \<subseteq> rid_of s' ` set (sd_running s'))"
proof -
  obtain r where r: "schedule env cf s = Some r" and all: "res_all (\<lambda>(out, s'). step_done cf s out s') r"
    using schedule_ok [OF assms, of env] by (auto simp: ends_def)
  have D: "step_done cf s out s'" if "r = Inr (out, s')" for out s' using res_allD [OF all that] by simp
  have p: "placed {#} s" using assms by (simp add: schedulable_def sched_inv_def)
  have "mset (sd_running s') + queued s' = mset (sd_running s) + queued s" if "step_done cf s out s'" for out s'
    using that p same_unfinished [of s s'] by (simp add: step_done_def sched_inv_def placed_def)
  then show ?thesis using r D by (force simp: step_done_def queued_def same_objects_def add.assoc)
qed

theorem schedule_keeps_requests_witness:
  "\<exists>out s'. schedule example_sched_env (example_sched_config FCFS 64) example_two = Some (Inr (out, s'))
     \<and> so_num_scheduled_tokens out = [(''a'', 5), (''b'', 1)] \<and> sched_inv (example_sched_config FCFS 64) s'
     \<and> mset (sd_running s') + members (sd_waiting s') + members (sd_skipped s') = {#0, 1#}"
proof -
  have "case schedule example_sched_env (example_sched_config FCFS 64) example_two of
      Some (Inr (out, s')) \<Rightarrow> so_num_scheduled_tokens out = [(''a'', 5), (''b'', 1)] | _ \<Rightarrow> False" by code_simp
  then obtain out s' where "schedule example_sched_env (example_sched_config FCFS 64) example_two = Some (Inr (out, s'))"
    "so_num_scheduled_tokens out = [(''a'', 5), (''b'', 1)]" by (auto split: option.splits sum.splits)
  moreover have "mset (sd_running example_two) + members (sd_waiting example_two) + members (sd_skipped example_two) = {#0, 1#}"
    by code_simp
  ultimately show ?thesis using schedule_keeps_requests [OF example_schedulable, of example_sched_env] by auto
qed

end
