(* ===== verification/Scheduler_Release.thy ===== *)
theory Scheduler_Release
  imports Scheduler_Step
begin

text \<open>
  Requests leave the scheduler: what finishing, aborting and freeing do to the queues. While requests are being
  released the accounts hold up to the requests that are finished or about to be.
\<close>

section \<open>Accounts during a release\<close>

definition gone :: "nat set \<Rightarrow> 'c scheduler \<Rightarrow> nat \<Rightarrow> bool" where
  "gone D s j \<longleftrightarrow> is_finished (sd_store s j) \<or> j \<in> D"

definition settled :: "nat set \<Rightarrow> 'c scheduler \<Rightarrow> bool" where
  "settled D s \<longleftrightarrow> requests_ok s \<and> (\<forall>j. count (mset (sd_running s) + queued s) j \<le> 1)
     \<and> (\<forall>j \<in> set (sd_running s). \<not> gone D s j \<longrightarrow> status (sd_store s j) = RUNNING)
     \<and> (\<forall>j \<in># queued s. \<not> gone D s j \<longrightarrow> waiting_status (status (sd_store s j)))
     \<and> filter_mset (\<lambda>j. \<not> gone D s j) (mset (sd_running s) + queued s)
         = filter_mset (\<lambda>j. \<not> gone D s j) (mset (map snd (sd_requests s)))"

definition clean :: "'c scheduler \<Rightarrow> bool" where
  "clean s \<longleftrightarrow> (\<forall>j \<in># mset (sd_running s) + queued s. \<not> is_finished (sd_store s j))"

lemma clean_filter:
  "clean s \<Longrightarrow> filter_mset (\<lambda>j. \<not> gone {} s j) (mset (sd_running s) + queued s) = mset (sd_running s) + queued s"
  unfolding clean_def gone_def by (intro filter_mset_eq_conv [THEN iffD2]) simp

lemma unfinished_filter: "filter_mset (\<lambda>j. \<not> gone {} s j) (mset (map snd (sd_requests s))) = unfinished s"
  by (simp add: unfinished_def gone_def mset_filter)

lemma placed_iff_settled: "placed {#} s \<longleftrightarrow> settled {} s \<and> clean s"
proof
  assume p: "placed {#} s"
  have eq: "mset (sd_running s) + queued s = unfinished s" using p by (simp add: placed_def)
  have "\<not> is_finished (sd_store s j)" if "j \<in># unfinished s" for j using that by (auto simp: unfinished_def)
  then have c: "clean s" by (simp add: clean_def eq)
  have "count (mset (sd_running s) + queued s) j \<le> 1" for j
    unfolding eq by (rule unfinished_distinct) (use p in \<open>simp add: placed_def\<close>)
  moreover have "filter_mset (\<lambda>j. \<not> gone {} s j) (mset (sd_running s) + queued s)
      = filter_mset (\<lambda>j. \<not> gone {} s j) (mset (map snd (sd_requests s)))"
    unfolding clean_filter [OF c] unfinished_filter by (rule eq)
  ultimately show "settled {} s \<and> clean s" using p c unfolding settled_def placed_def by (simp only: empty_neutral) blast
next
  assume a: "settled {} s \<and> clean s"
  then have nf: "\<not> is_finished (sd_store s j)" if "j \<in> set (sd_running s) \<or> j \<in># queued s" for j using that by (auto simp: clean_def)
  have "requests_ok s" "\<forall>i \<in> set (sd_running s). status (sd_store s i) = RUNNING" "\<forall>i \<in># queued s. waiting_status (status (sd_store s i))"
    using a nf by (simp_all add: settled_def gone_def)
  moreover have "mset (sd_running s) + queued s = unfinished s"
    using a clean_filter [of s] unfinished_filter [of s] by (simp only: settled_def)
  ultimately show "placed {#} s" by (simp add: placed_def)
qed

lemma filter_twice: "filter_mset P (filter_mset Q M) = filter_mset (\<lambda>x. P x \<and> Q x) M"
  by (simp add: filter_filter_mset conj_commute)

lemma settled_change:
  assumes s: "settled D s"
    and same: "sd_requests s' = sd_requests s" "sd_running s' = sd_running s" "queued s' = queued s" "\<And>j. rid_of s' j = rid_of s j"
    and gone: "\<And>j. gone D s j \<Longrightarrow> gone D' s' j"
    and st: "\<And>j. \<not> gone D' s' j \<Longrightarrow> status (sd_store s' j) = status (sd_store s j)
        \<or> (waiting_status (status (sd_store s j)) \<and> waiting_status (status (sd_store s' j)))"
  shows "settled D' s'"
proof -
  have f: "filter_mset (\<lambda>j. \<not> gone D' s' j) M = filter_mset (\<lambda>j. \<not> gone D' s' j) (filter_mset (\<lambda>j. \<not> gone D s j) M)" for M
    unfolding filter_twice by (rule filter_mset_cong) (use gone in auto)
  have "filter_mset (\<lambda>j. \<not> gone D' s' j) (mset (sd_running s) + queued s) = filter_mset (\<lambda>j. \<not> gone D' s' j) (mset (map snd (sd_requests s)))"
    unfolding f [of "mset (sd_running s) + queued s"] f [of "mset (map snd (sd_requests s))"] using s by (simp only: settled_def)
  moreover have "status (sd_store s' j) = RUNNING" if "j \<in> set (sd_running s)" "\<not> gone D' s' j" for j
    using s st [OF that(2)] that gone by (auto simp: settled_def waiting_status_def)
  moreover have "waiting_status (status (sd_store s' j))" if "j \<in># queued s" "\<not> gone D' s' j" for j
    using s st [OF that(2)] that gone by (auto simp: settled_def)
  ultimately show ?thesis using s unfolding settled_def same requests_ok_def by simp
qed

text \<open>Entries of the tables may go once their request is gone.\<close>

lemma settled_drop:
  assumes s: "settled D s" and st: "sd_store s' = sd_store s"
    and run: "mset (sd_running s') = filter_mset P (mset (sd_running s))" and q: "queued s' = filter_mset Q (queued s)"
    and req: "sd_requests s' = filter R (sd_requests s)"
    and PQ: "\<And>j. \<not> gone D s j \<Longrightarrow> P j \<and> Q j" and R: "\<And>e. e \<in> set (sd_requests s) \<Longrightarrow> \<not> gone D s (snd e) \<Longrightarrow> R e"
  shows "settled D s'"
proof -
  have g: "gone D s' = gone D s" by (simp add: gone_def st fun_eq_iff)
  have f: "filter_mset (\<lambda>j. \<not> gone D s j) (filter_mset P M) = filter_mset (\<lambda>j. \<not> gone D s j) M"
    "filter_mset (\<lambda>j. \<not> gone D s j) (filter_mset Q M) = filter_mset (\<lambda>j. \<not> gone D s j) M" for M
    unfolding filter_twice by (rule filter_mset_cong; use PQ in auto)+
  have r: "filter_mset (\<lambda>j. \<not> gone D s j) (mset (map snd (filter R xs))) = filter_mset (\<lambda>j. \<not> gone D s j) (mset (map snd xs))"
    if "\<forall>e \<in> set xs. \<not> gone D s (snd e) \<longrightarrow> R e" for xs
    using that by (induction xs) auto
  have rr: "filter_mset (\<lambda>j. \<not> gone D s j) (mset (map snd (filter R (sd_requests s)))) = filter_mset (\<lambda>j. \<not> gone D s j) (mset (map snd (sd_requests s)))"
    by (rule r) (use R in blast)
  have "count (mset (sd_running s') + queued s') j \<le> count (mset (sd_running s) + queued s) j" for j
    unfolding run q by (simp add: add_mono)
  then have "\<forall>j. count (mset (sd_running s') + queued s') j \<le> 1" using s by (meson le_trans settled_def)
  moreover have "requests_ok s'" using s by (auto simp: settled_def requests_ok_def req st distinct_map_filter)
  moreover have "set (sd_running s') \<subseteq> set (sd_running s)" "set_mset (queued s') \<subseteq> set_mset (queued s)"
    using run q by (metis mset_filter set_mset_filter set_mset_mset Collect_subset subsetI mem_Collect_eq) (simp add: q)
  moreover have "filter_mset (\<lambda>j. \<not> gone D s j) (mset (sd_running s') + queued s')
      = filter_mset (\<lambda>j. \<not> gone D s j) (mset (map snd (sd_requests s')))"
    unfolding run q req rr filter_union_mset f using s by (simp only: settled_def filter_union_mset)
  ultimately show ?thesis using s unfolding settled_def g st by blast
qed

section \<open>Freeing a request\<close>

text \<open>What a release leaves unchanged; the table of requests may lose the entry of \<open>i\<close>.\<close>

definition released :: "nat \<Rightarrow> 'c scheduler \<Rightarrow> 'c scheduler \<Rightarrow> bool" where
  "released i s s' \<longleftrightarrow> sd_store s' = sd_store s \<and> sd_running s' = sd_running s \<and> sd_waiting s' = sd_waiting s \<and> sd_skipped s' = sd_skipped s
     \<and> sd_pause s' = sd_pause s \<and> km_shape (sd_kv s') = km_shape (sd_kv s) \<and> is_finished (sd_store s i)
     \<and> (sd_requests s' = sd_requests s \<or> sd_requests s' = AList.delete (rid_of s i) (sd_requests s))"

lemma connector_finished_frame:
  assumes "connector_finished env r s = Inr (d, s')"
  shows "\<exists>k c. s' = s\<lparr>sd_kv := k, sd_connector := c\<rparr> \<and> km_shape k = km_shape (sd_kv s)"
proof (cases "se_connector env")
  case None
  then show ?thesis using assms by (intro exI [of _ "sd_kv s"] exI [of _ "sd_connector s"]) (simp add: connector_finished_def)
next
  case (Some con)
  then show ?thesis using assms
    by (auto simp: connector_finished_def Let_def split_beta dest!: km_remove_skipped_frame)
qed

lemma sched_free_blocks_released: "sched_free_blocks i s = Inr s' \<Longrightarrow> released i s s'"
  by (auto simp: sched_free_blocks_def Let_def released_def dest: km_free_frame)

lemma free_request_released:
  assumes "free_request env i d s = Inr s'"
  shows "released i s s'"
proof -
  obtain cd s1 e fd where fin: "is_finished (sd_store s i)" and c: "connector_finished env (sd_store s i) s = Inr (cd, s1)"
    and rest: "(let s2 = s1\<lparr>sd_enc := e, sd_finished_req_ids := List.insert (rid_of s i) (sd_finished_req_ids s1), sd_finished_req_ids_dict := fd\<rparr> in
       if \<not> (d \<or> cd) then sched_free_blocks i s2 else Inr s2) = Inr s'"
    using assms by (auto simp: free_request_def Let_def)
  obtain k con where s1: "s1 = s\<lparr>sd_kv := k, sd_connector := con\<rparr>" "km_shape k = km_shape (sd_kv s)"
    using connector_finished_frame [OF c] by blast
  show ?thesis
  proof (cases "d \<or> cd")
    case True
    then show ?thesis using rest fin by (auto simp: released_def s1 Let_def)
  next
    case False
    then have "released i (s1\<lparr>sd_enc := e, sd_finished_req_ids := List.insert (rid_of s i) (sd_finished_req_ids s1), sd_finished_req_ids_dict := fd\<rparr>) s'"
      using rest by (intro sched_free_blocks_released) (simp add: Let_def)
    then show ?thesis by (simp add: released_def s1)
  qed
qed

lemma delete_filter: "AList.delete k d = filter (\<lambda>e. fst e \<noteq> k) d"
  by (induction d) auto

lemma released_settled:
  assumes r: "released i s s'" and s: "settled D s" and i: "(rid_of s i, i) \<in> set (sd_requests s)"
  shows "settled D s'"
proof -
  have fin: "is_finished (sd_store s i)" and q: "queued s' = queued s" using r by (simp_all add: released_def queued_def)
  show ?thesis
  proof (cases "sd_requests s' = sd_requests s")
    case True
    then show ?thesis using r q by (intro settled_change [OF s]) (simp_all add: released_def gone_def)
  next
    case False
    then have del: "sd_requests s' = filter (\<lambda>e. fst e \<noteq> rid_of s i) (sd_requests s)"
      using r by (auto simp: released_def delete_filter)
    have "fst e \<noteq> rid_of s i" if e: "e \<in> set (sd_requests s)" "\<not> gone D s (snd e)" for e
    proof
      assume "fst e = rid_of s i"
      then have "(rid_of s i, snd e) \<in> set (sd_requests s)" using e(1) by (metis prod.collapse)
      then have "snd e = i" using i s by (metis map_of_is_SomeI option.inject requests_ok_def settled_def)
      then show False using e(2) fin by (simp add: gone_def)
    qed
    then show ?thesis using r q del
      by (intro settled_drop [OF s, where P = "\<lambda>_. True" and Q = "\<lambda>_. True" and R = "\<lambda>e. fst e \<noteq> rid_of s i"]) (simp_all add: released_def)
  qed
qed

section \<open>Finishing requests\<close>

text \<open>The request is marked finished and released.\<close>

lemma finish_one_ok:
  assumes f: "finish_one env fs i s = Inr s'" and s: "settled D s" and i: "i \<in> D" "(rid_of s i, i) \<in> set (sd_requests s)" "is_finished_status fs"
  shows "settled D s'" "is_finished (sd_store s' i)" "\<And>j. j \<noteq> i \<Longrightarrow> sd_store s' j = sd_store s j" "\<And>j. rid_of s' j = rid_of s j"
    "sd_running s' = sd_running s" "sd_waiting s' = sd_waiting s" "sd_skipped s' = sd_skipped s"
    "sd_requests s' = sd_requests s \<or> sd_requests s' = AList.delete (rid_of s i) (sd_requests s)"
    "sd_pause s' = sd_pause s" "km_shape (sd_kv s') = km_shape (sd_kv s)" "sd_store s' i = (sd_store s i)\<lparr>status := fs\<rparr>"
proof -
  define s1 where "s1 = (if status (sd_store s i) = WAITING_FOR_REMOTE_KVS then s\<lparr>sd_finished_recving := removeAll (rid_of s i) (sd_finished_recving s),
                                 sd_failed_recving := removeAll (rid_of s i) (sd_failed_recving s)\<rparr> else s)"
  define s2 where "s2 = upd_request i (\<lambda>r. r\<lparr>status := fs\<rparr>) s1"
  obtain d where fr: "free_request env i d s2 = Inr s'" using f by (simp add: finish_one_def Let_def s1_def s2_def)
  have same: "sd_store s2 = (sd_store s)(i := (sd_store s i)\<lparr>status := fs\<rparr>)" "sd_requests s2 = sd_requests s" "sd_running s2 = sd_running s"
    "sd_waiting s2 = sd_waiting s" "sd_skipped s2 = sd_skipped s" "sd_pause s2 = sd_pause s" "sd_kv s2 = sd_kv s"
    by (simp_all add: s2_def s1_def upd_request_def set_request_def)
  have "settled D s2" by (rule settled_change [OF s]) (use i in \<open>auto simp: same queued_def gone_def is_finished_def\<close>)
  note R = free_request_released [OF fr]
  show "settled D s'" by (rule released_settled [OF R \<open>settled D s2\<close>]) (use i in \<open>simp add: same\<close>)
  show "is_finished (sd_store s' i)" "sd_running s' = sd_running s" "sd_waiting s' = sd_waiting s" "sd_skipped s' = sd_skipped s"
    "sd_requests s' = sd_requests s \<or> sd_requests s' = AList.delete (rid_of s i) (sd_requests s)"
    "sd_pause s' = sd_pause s" "km_shape (sd_kv s') = km_shape (sd_kv s)" "sd_store s' i = (sd_store s i)\<lparr>status := fs\<rparr>"
    using R by (simp_all add: released_def same)
  show "sd_store s' j = sd_store s j" if "j \<noteq> i" for j using R that by (simp add: released_def same)
  show "rid_of s' j = rid_of s j" for j using R by (simp add: released_def same)
qed

lemma finish_fold:
  assumes "fold_res (finish_one env fs) vs s = Inr s'" "settled D s" "set vs \<subseteq> D" "distinct vs"
    "\<forall>i \<in> set vs. (rid_of s i, i) \<in> set (sd_requests s)" "is_finished_status fs"
  shows "settled D s' \<and> (\<forall>j. sd_store s' j = (if j \<in> set vs then (sd_store s j)\<lparr>status := fs\<rparr> else sd_store s j))
    \<and> sd_running s' = sd_running s \<and> sd_waiting s' = sd_waiting s \<and> sd_skipped s' = sd_skipped s
    \<and> set (sd_requests s') \<subseteq> set (sd_requests s) \<and> sd_pause s' = sd_pause s \<and> km_shape (sd_kv s') = km_shape (sd_kv s)"
  using assms
proof (induction vs arbitrary: s)
  case (Cons i vs)
  then obtain s1 where 1: "finish_one env fs i s = Inr s1" "fold_res (finish_one env fs) vs s1 = Inr s'" by auto
  have i: "i \<in> D" "(rid_of s i, i) \<in> set (sd_requests s)" using Cons.prems by simp_all
  note F = finish_one_ok [OF 1(1) Cons.prems(2) i Cons.prems(6)]
  have sub: "set (sd_requests s1) \<subseteq> set (sd_requests s)" using F(8) by (auto simp: delete_filter)
  have "(rid_of s1 j, j) \<in> set (sd_requests s1)" if j: "j \<in> set vs" for j
  proof -
    have jr: "(rid_of s j, j) \<in> set (sd_requests s)" "j \<noteq> i" using j Cons.prems(4,5) by auto
    have "rid_of s j \<noteq> rid_of s i"
    proof
      assume "rid_of s j = rid_of s i"
      then have "j = i" using jr(1) i(2) Cons.prems(2) by (metis map_of_is_SomeI option.inject requests_ok_def settled_def)
      then show False using jr(2) by simp
    qed
    then show ?thesis using F(4,8) jr(1) by (auto simp: delete_filter)
  qed
  then have IH: "settled D s' \<and> (\<forall>j. sd_store s' j = (if j \<in> set vs then (sd_store s1 j)\<lparr>status := fs\<rparr> else sd_store s1 j))
    \<and> sd_running s' = sd_running s1 \<and> sd_waiting s' = sd_waiting s1 \<and> sd_skipped s' = sd_skipped s1
    \<and> set (sd_requests s') \<subseteq> set (sd_requests s1) \<and> sd_pause s' = sd_pause s1 \<and> km_shape (sd_kv s') = km_shape (sd_kv s1)"
    using Cons.prems by (intro Cons.IH [OF 1(2) F(1)]) simp_all
  have "sd_store s' j = (if j \<in> set (i # vs) then (sd_store s j)\<lparr>status := fs\<rparr> else sd_store s j)" for j
    using IH F(3) [of j] F(11) Cons.prems(4) by (cases "j = i") auto
  moreover have "set (sd_requests s') \<subseteq> set (sd_requests s)" using IH sub by blast
  ultimately show ?case using IH F(5-7,9,10) by simp
qed simp

lemma set_map_filter: "y \<in> set (List.map_filter f xs) \<longleftrightarrow> (\<exists>x \<in> set xs. f x = Some y)"
  by (induction xs) (auto simp: List.map_filter_simps split: option.splits)

lemma table_refs:
  assumes "requests_ok s" "distinct rids"
  shows "distinct (List.map_filter (map_of (sd_requests s)) rids)"
    "i \<in> set (List.map_filter (map_of (sd_requests s)) rids) \<longleftrightarrow> (rid_of s i, i) \<in> set (sd_requests s) \<and> rid_of s i \<in> set rids"
proof -
  have mem: "map_of (sd_requests s) k = Some i \<longleftrightarrow> (k, i) \<in> set (sd_requests s) \<and> rid_of s i = k" for k i
    using assms(1) by (auto simp: requests_ok_def dest: map_of_SomeD)
  show "i \<in> set (List.map_filter (map_of (sd_requests s)) rids) \<longleftrightarrow> (rid_of s i, i) \<in> set (sd_requests s) \<and> rid_of s i \<in> set rids"
    by (auto simp: set_map_filter mem simp del: map_of_eq_Some_iff)
  show "distinct (List.map_filter (map_of (sd_requests s)) rids)"
    using assms(2)
  proof (induction rids)
    case (Cons k rids)
    then show ?case using mem by (auto simp: List.map_filter_simps set_map_filter split: option.splits simp del: map_of_eq_Some_iff)
  qed (simp add: List.map_filter_simps)
qed

text \<open>The requests that a call finishes.\<close>

definition finish_targets :: "string list option \<Rightarrow> 'c scheduler \<Rightarrow> nat set" where
  "finish_targets ids s = {i. (rid_of s i, i) \<in> set (sd_requests s) \<and> \<not> is_finished (sd_store s i)
     \<and> (case ids of None \<Rightarrow> True | Some l \<Rightarrow> rid_of s i \<in> set l)}"

lemma finish_requests_ok:
  assumes p: "placed {#} s" and ids: "case ids of None \<Rightarrow> True | Some l \<Rightarrow> distinct l"
    and f: "finish_requests env ids fs s = Inr (res, s')"
  defines "T \<equiv> finish_targets ids s"
  shows "placed {#} s'" "sd_running s' = filter (\<lambda>i. i \<notin> T) (sd_running s)"
    "members (sd_waiting s') = filter_mset (\<lambda>i. i \<notin> T) (members (sd_waiting s))"
    "members (sd_skipped s') = filter_mset (\<lambda>i. i \<notin> T) (members (sd_skipped s))"
    "sd_store s' = (\<lambda>j. if j \<in> T then (sd_store s j)\<lparr>status := fs\<rparr> else sd_store s j)"
    "set res = (\<lambda>i. (rid_of s i, client_index (sd_store s i))) ` T"
    "set (sd_requests s') \<subseteq> set (sd_requests s)" "sd_pause s' = sd_pause s" "km_shape (sd_kv s') = km_shape (sd_kv s)"
proof -
  let ?rids = "case ids of None \<Rightarrow> map fst (sd_requests s) | Some l \<Rightarrow> l"
  define valid where "valid = filter (\<lambda>i. \<not> is_finished (sd_store s i)) (List.map_filter (map_of (sd_requests s)) ?rids)"
  define run where "run = filter (\<lambda>i. status (sd_store s i) = RUNNING) valid"
  define wait where "wait = filter (\<lambda>i. status (sd_store s i) \<noteq> RUNNING) valid"
  define s1 where "s1 = s\<lparr>sd_num_streaming := sd_num_streaming s - int (length (filter (\<lambda>i. status (sd_store s i) = WAITING_FOR_STREAMING_REQ) wait))\<rparr>"
  define s2 where "s2 = (if run \<noteq> [] then s1\<lparr>sd_running := remove_all (sd_running s1) (remdups run)\<rparr> else s1)"
  define s3 where "s3 = (if wait \<noteq> [] then s2\<lparr>sd_waiting := remove_requests (sd_lt s2) wait (sd_waiting s2),
                        sd_skipped := remove_requests (sd_lt s2) wait (sd_skipped s2)\<rparr> else s2)"
  have fs: "is_finished_status fs" and fold: "fold_res (finish_one env fs) valid s3 = Inr s'"
    and res: "res = map (\<lambda>i. (rid_of s' i, client_index (sd_store s' i))) valid"
    using f unfolding finish_requests_def Let_def guard_eq_Inr valid_def [symmetric] run_def [symmetric] wait_def [symmetric]
      s1_def [symmetric] s2_def [symmetric] s3_def [symmetric] by auto
  have ok: "requests_ok s" and set: "settled {} s" and cl: "clean s" using p placed_iff_settled [of s] by (auto simp: placed_def)
  have d: "distinct ?rids" using ids ok by (cases ids) (simp_all add: requests_ok_def)
  have inr: "rid_of s i \<in> set ?rids \<longleftrightarrow> (case ids of None \<Rightarrow> True | Some l \<Rightarrow> rid_of s i \<in> set l)"
    if "(rid_of s i, i) \<in> set (sd_requests s)" for i
    using that by (cases ids) (auto intro: rev_image_eqI)
  have T: "T = set valid" and dv: "distinct valid"
    using table_refs [OF ok d] inr by (auto simp: T_def finish_targets_def valid_def)
  have rw: "i \<in> set run \<longleftrightarrow> i \<in> T" if "i \<in> set (sd_running s)" for i using p that by (auto simp: run_def T placed_def)
  have ww: "i \<in> set wait \<longleftrightarrow> i \<in> T" if "i \<in># queued s" for i using p that by (auto simp: wait_def T placed_def waiting_status_def)
  have run3: "sd_running s3 = filter (\<lambda>i. i \<notin> T) (sd_running s)"
  proof -
    have "remove_all (sd_running s) (remdups run) = filter (\<lambda>i. i \<notin> T) (sd_running s)"
      unfolding remove_all_filter [OF placed_distinct(1) [OF p]] by (rule filter_cong) (use rw in auto)
    moreover have "run = [] \<Longrightarrow> filter (\<lambda>i. i \<notin> T) (sd_running s) = sd_running s" using rw by (auto intro: filter_True)
    ultimately show ?thesis by (simp add: s3_def s2_def s1_def)
  qed
  have q3: "members (sd_waiting s3) = filter_mset (\<lambda>i. i \<notin> T) (members (sd_waiting s))"
    "members (sd_skipped s3) = filter_mset (\<lambda>i. i \<notin> T) (members (sd_skipped s))"
  proof -
    have e: "filter_mset (\<lambda>i. i \<notin> set wait) M = filter_mset (\<lambda>i. i \<notin> T) M" if "M \<subseteq># queued s" for M
      by (rule filter_mset_cong) (use ww mset_subset_eqD [OF that] in auto)
    have "members (sd_waiting s) \<subseteq># queued s" "members (sd_skipped s) \<subseteq># queued s" by (simp_all add: queued_def)
    then show "members (sd_waiting s3) = filter_mset (\<lambda>i. i \<notin> T) (members (sd_waiting s))"
      "members (sd_skipped s3) = filter_mset (\<lambda>i. i \<notin> T) (members (sd_skipped s))"
      using e [of "members (sd_waiting s)"] e [of "members (sd_skipped s)"] by (auto simp: s3_def s2_def s1_def)
  qed
  have same3: "sd_store s3 = sd_store s" "sd_requests s3 = sd_requests s" "sd_pause s3 = sd_pause s" "sd_kv s3 = sd_kv s"
    by (simp_all add: s3_def s2_def s1_def)
  have setT: "settled T s" by (rule settled_change [OF set]) (simp_all add: gone_def)
  have set3: "settled T s3"
    by (rule settled_drop [OF setT, where P = "\<lambda>i. i \<notin> T" and Q = "\<lambda>i. i \<notin> T" and R = "\<lambda>_. True"])
      (simp_all add: same3 run3 q3 mset_filter queued_def gone_def)
  have tab: "\<forall>i \<in> set valid. (rid_of s3 i, i) \<in> set (sd_requests s3)" using T by (auto simp: same3 T_def finish_targets_def)
  note F = finish_fold [OF fold set3 _ dv tab fs]
  have F: "settled T s'" "\<forall>j. sd_store s' j = (if j \<in> T then (sd_store s j)\<lparr>status := fs\<rparr> else sd_store s j)"
    "sd_running s' = sd_running s3" "sd_waiting s' = sd_waiting s3" "sd_skipped s' = sd_skipped s3"
    "set (sd_requests s') \<subseteq> set (sd_requests s)" "sd_pause s' = sd_pause s" "km_shape (sd_kv s') = km_shape (sd_kv s)"
    using F by (simp_all add: T same3)
  show store: "sd_store s' = (\<lambda>j. if j \<in> T then (sd_store s j)\<lparr>status := fs\<rparr> else sd_store s j)" using F(2) by (simp add: fun_eq_iff)
  show "sd_running s' = filter (\<lambda>i. i \<notin> T) (sd_running s)" "members (sd_waiting s') = filter_mset (\<lambda>i. i \<notin> T) (members (sd_waiting s))"
    "members (sd_skipped s') = filter_mset (\<lambda>i. i \<notin> T) (members (sd_skipped s))"
    "set (sd_requests s') \<subseteq> set (sd_requests s)" "sd_pause s' = sd_pause s" "km_shape (sd_kv s') = km_shape (sd_kv s)"
    using F(3-8) run3 q3 by simp_all
  have "settled {} s'" by (rule settled_change [OF F(1)]) (use F(2) fs in \<open>auto simp: gone_def is_finished_def\<close>)
  moreover have "clean s'" using cl F(2-5) run3 q3 by (auto simp: clean_def queued_def)
  ultimately show "placed {#} s'" by (simp add: placed_iff_settled)
  show "set res = (\<lambda>i. (rid_of s i, client_index (sd_store s i))) ` T" using F(2) by (auto simp: res T)
qed

end
