(* ===== verification/Scheduler_Result.thy ===== *)
theory Scheduler_Result
  imports Scheduler_Release "HOL-Library.Sublist"
begin

text \<open>
  The results of a step: what \<^verbatim>\<open>update_from_output\<close> does to the requests and to the queues.
\<close>

section \<open>New tokens\<close>

text \<open>\<open>took ts r r'\<close>: the tokens \<open>ts\<close> are appended, and only hashes, status and stop reason may change besides.\<close>

definition took :: "int list \<Rightarrow> request \<Rightarrow> request \<Rightarrow> bool" where
  "took ts r r' \<longleftrightarrow> (\<exists>bh m st sr. r' = r\<lparr>output_token_ids := output_token_ids r @ ts, all_token_ids := all_token_ids r @ ts,
     block_hashes := bh, prompt_embeds_per_block_hashes := m, status := st, stop_reason := sr\<rparr>)"

lemma tookI: "r' = r\<lparr>output_token_ids := output_token_ids r @ ts, all_token_ids := all_token_ids r @ ts, block_hashes := block_hashes r',
    prompt_embeds_per_block_hashes := prompt_embeds_per_block_hashes r', status := status r', stop_reason := stop_reason r'\<rparr> \<Longrightarrow> took ts r r'"
  unfolding took_def by blast

lemma took_Nil [simp]: "took [] r r"
  by (rule tookI) simp

lemma took_append: "took ts r r' \<Longrightarrow> took us r' r'' \<Longrightarrow> took (ts @ us) r r''"
  unfolding took_def by (elim exE, simp) (intro exI, rule refl)

lemma took_fields:
  assumes "took ts r r'"
  shows "request_id r' = request_id r" "resumable r' = resumable r" "all_token_ids r' = all_token_ids r @ ts"
    "output_token_ids r' = output_token_ids r @ ts" "num_computed_tokens r' = num_computed_tokens r" "spec_token_ids r' = spec_token_ids r"
    "num_output_placeholders r' = num_output_placeholders r" "num_prompt_tokens r' = num_prompt_tokens r"
    "sampling_params r' = sampling_params r" "pooling_params r' = pooling_params r" "max_tokens r' = max_tokens r"
  using assms by (auto simp: took_def)

lemma append_took:
  assumes "append_output_token_ids hasher ts r = Inr r'" "hasher_ok hasher"
  shows "took ts r r' \<and> status r' = status r \<and> stop_reason r' = stop_reason r"
proof -
  let ?r = "r\<lparr>output_token_ids := output_token_ids r @ ts, all_token_ids := all_token_ids r @ ts\<rparr>"
  have "\<exists>bh m. r' = ?r\<lparr>block_hashes := bh, prompt_embeds_per_block_hashes := m\<rparr>"
  proof (cases hasher)
    case None
    then have "r' = ?r" using assms(1) by (simp add: append_output_token_ids_def update_block_hashes_def)
    then show ?thesis by (intro exI [of _ "block_hashes r"] exI [of _ "prompt_embeds_per_block_hashes r"]) simp
  next
    case (Some f)
    then obtain hs r1 where f: "f ?r = Inr (hs, r1)" and r': "r' = r1\<lparr>block_hashes := block_hashes r1 @ hs\<rparr>"
      using assms(1) by (auto simp: append_output_token_ids_def update_block_hashes_def)
    have "memo_of ?r r1" using assms(2) Some f unfolding hasher_ok_def by blast
    then obtain m where "r1 = with_memo ?r m" unfolding memo_of_def by blast
    then show ?thesis unfolding r' by (intro exI [of _ "block_hashes r1 @ hs"] exI [of _ m]) simp
  qed
  then obtain bh m where r': "r' = ?r\<lparr>block_hashes := bh, prompt_embeds_per_block_hashes := m\<rparr>" by blast
  show ?thesis unfolding r' by (intro conjI tookI) simp_all
qed

lemma check_stop_took:
  assumes "check_stop r n = Inr (stopped, r')"
  shows "took [] r r'" "stopped \<Longrightarrow> is_finished r'" "\<not> stopped \<Longrightarrow> r' = r"
    "\<not> stopped \<Longrightarrow> \<exists>sp. sampling_params r = Some sp \<and> (int (num_output_tokens r) < min_tokens sp \<or> int (num_tokens r) < n)"
proof -
  have st: "took [] r (r\<lparr>status := st\<rparr>)" "took [] r (r\<lparr>status := st, stop_reason := sr\<rparr>)" for st sr by (rule tookI; simp)+
  have "res_all (\<lambda>(stopped, r'). took [] r r' \<and> (stopped \<longrightarrow> is_finished r') \<and> (\<not> stopped \<longrightarrow> r' = r
      \<and> (\<exists>sp. sampling_params r = Some sp \<and> (int (num_output_tokens r) < min_tokens sp \<or> int (num_tokens r) < n)))) (check_stop r n)"
    unfolding check_stop_def by (intro res_rules) (simp_all add: st is_finished_def not_le)
  from res_allD [OF this assms] show "took [] r r'" "stopped \<Longrightarrow> is_finished r'" "\<not> stopped \<Longrightarrow> r' = r"
    "\<not> stopped \<Longrightarrow> \<exists>sp. sampling_params r = Some sp \<and> (int (num_output_tokens r) < min_tokens sp \<or> int (num_tokens r) < n)"
    by simp_all
qed

lemma append_until_stop_ok:
  assumes "append_until_stop hasher ml xs kept r = Inr (kept', stopped, r')" "hasher_ok hasher"
  shows "\<exists>n \<le> length xs. kept' = kept @ take n xs \<and> took (take n xs) r r'
    \<and> (if stopped then 0 < n \<and> is_finished r'
       else n = length xs \<and> status r' = status r
         \<and> (xs \<noteq> [] \<longrightarrow> (\<exists>sp. sampling_params r = Some sp \<and> (int (num_output_tokens r') < min_tokens sp \<or> int (num_tokens r') < ml))))"
  using assms(1)
proof (induction xs arbitrary: kept r)
  case Nil
  then show ?case by simp
next
  case (Cons x xs)
  obtain r1 st r2 where a: "append_output_token_ids hasher [x] r = Inr r1" and c: "check_stop r1 ml = Inr (st, r2)"
    and rest: "(if st then Inr (kept @ [x], True, r2) else append_until_stop hasher ml xs (kept @ [x]) r2) = Inr (kept', stopped, r')"
    using Cons.prems by auto
  note A = append_took [OF a assms(2)] and C = check_stop_took [OF c]
  have t: "took [x] r r2" using took_append [of "[x]" r r1 "[]" r2] A C(1) by simp
  show ?case
  proof (cases st)
    case True
    then show ?thesis using rest t C(2) by (intro exI [of _ 1]) auto
  next
    case False
    then have r2: "r2 = r1" and l: "append_until_stop hasher ml xs (kept @ [x]) r2 = Inr (kept', stopped, r')" using rest C(3) by simp_all
    obtain n where n: "n \<le> length xs" "kept' = (kept @ [x]) @ take n xs" "took (take n xs) r2 r'"
      "if stopped then 0 < n \<and> is_finished r'
       else n = length xs \<and> status r' = status r2
         \<and> (xs \<noteq> [] \<longrightarrow> (\<exists>sp. sampling_params r2 = Some sp \<and> (int (num_output_tokens r') < min_tokens sp \<or> int (num_tokens r') < ml)))"
      using Cons.IH [OF l] by blast
    have "took (take (Suc n) (x # xs)) r r'" using took_append [OF t n(3)] by simp
    moreover have "r' = r1" if "xs = []" "\<not> stopped" using l r2 that by simp
    ultimately show ?thesis using n A C(4) [OF False] r2 took_fields(9) [OF t] took_fields(9) [of "[x]" r r1]
      by (intro exI [of _ "Suc n"]) (auto split: if_splits)
  qed
qed

text \<open>The tests in between: whether a request stops depends on its tokens and parameters only.\<close>

definition stops :: "request \<Rightarrow> int \<Rightarrow> bool option" where
  "stops r n = (case check_stop r n of Inl e \<Rightarrow> None | Inr (b, r') \<Rightarrow> Some b)"

lemma with_tokens_twice [simp]: "with_tokens (with_tokens r ts) us = with_tokens r (ts @ us)"
  by (simp add: with_tokens_def)

lemma stops_cong:
  assumes "output_token_ids r' = output_token_ids r" "all_token_ids r' = all_token_ids r" "pooling_params r' = pooling_params r"
    "sampling_params r' = sampling_params r" "max_tokens r' = max_tokens r"
  shows "stops r' n = stops r n"
  using assms unfolding stops_def check_stop_def
  by (simp add: num_output_tokens_def num_tokens_def guard_def res_bind_def split: option.splits sum.splits)

lemma stops_took: "took ts r r' \<Longrightarrow> stops (with_tokens r' us) n = stops (with_tokens r (ts @ us)) n"
  by (rule stops_cong) (auto simp: took_def with_tokens_def)

lemma append_until_stop_tests:
  assumes "append_until_stop hasher ml xs kept r = Inr (kept @ ts, stopped, r')" "hasher_ok hasher"
  shows "(\<forall>m. 0 < m \<and> m < length ts \<longrightarrow> stops (with_tokens r (take m xs)) ml = Some False)
    \<and> (xs \<noteq> [] \<longrightarrow> stops (with_tokens r ts) ml = Some stopped)"
  using assms(1)
proof (induction xs arbitrary: kept r ts)
  case Nil
  then show ?case by simp
next
  case (Cons x xs)
  obtain r1 st r2 where a: "append_output_token_ids hasher [x] r = Inr r1" and c: "check_stop r1 ml = Inr (st, r2)"
    and rest: "(if st then Inr (kept @ [x], True, r2) else append_until_stop hasher ml xs (kept @ [x]) r2) = Inr (kept @ ts, stopped, r')"
    using Cons.prems by auto
  have t: "took [x] r r1" using append_took [OF a assms(2)] by simp
  have "stops r1 ml = Some st" using c by (simp add: stops_def)
  then have first: "stops (with_tokens r [x]) ml = Some st" using stops_took [OF t, of "[]"] by (simp add: with_tokens_def)
  show ?case
  proof (cases st)
    case True
    then have "ts = [x]" "stopped" using rest by auto
    then show ?thesis using first True by simp
  next
    case False
    then have l: "append_until_stop hasher ml xs (kept @ [x]) r2 = Inr (kept @ ts, stopped, r')" and r2: "r2 = r1"
      using rest check_stop_took(3) [OF c] by simp_all
    obtain us where ts: "ts = x # us" using append_until_stop_ok [OF l assms(2)] by auto
    then have IH: "(\<forall>m. 0 < m \<and> m < length us \<longrightarrow> stops (with_tokens r1 (take m xs)) ml = Some False)
      \<and> (xs \<noteq> [] \<longrightarrow> stops (with_tokens r1 us) ml = Some stopped)" using Cons.IH [of "kept @ [x]" r2 us] l r2 by simp
    have all: "stops (with_tokens r (take m (x # xs))) ml = Some False" if m: "0 < m" "m < length ts" for m
    proof (cases "m = 1")
      case False
      then obtain k where k: "m = Suc k" "0 < k" using m by (cases m) auto
      then have "stops (with_tokens r1 (take k xs)) ml = Some False" using IH m by (simp add: ts)
      then show ?thesis using k stops_took [OF t, of "take k xs"] by simp
    qed (use first \<open>\<not> st\<close> in simp)
    have "stops (with_tokens r ts) ml = Some stopped"
    proof (cases "xs = []")
      case True
      then show ?thesis using l first \<open>\<not> st\<close> by (simp add: ts)
    qed (use IH stops_took [OF t, of us] in \<open>simp add: ts\<close>)
    then show ?thesis using all by blast
  qed
qed

text \<open>What the results of a step do to request \<open>i\<close>.\<close>

definition touched :: "nat \<Rightarrow> bool \<Rightarrow> 'c scheduler \<Rightarrow> 'c scheduler \<Rightarrow> bool" where
  "touched i stopped s s' \<longleftrightarrow> (\<exists>r k e. s' = (set_request i r s)\<lparr>sd_kv := k, sd_enc := e\<rparr> \<and> km_shape k = km_shape (sd_kv s)
     \<and> request_id r = request_id (sd_store s i) \<and> (resumable r \<longrightarrow> resumable (sd_store s i))
     \<and> prefix (all_token_ids (sd_store s i)) (all_token_ids r)
     \<and> (if stopped then is_finished r else status r = status (sd_store s i)))"

lemma touchedI:
  assumes "s' = (set_request i r s)\<lparr>sd_kv := k, sd_enc := e\<rparr>" "km_shape k = km_shape (sd_kv s)"
    "request_id r = request_id (sd_store s i)" "resumable r \<longrightarrow> resumable (sd_store s i)"
    "prefix (all_token_ids (sd_store s i)) (all_token_ids r)"
    "if stopped then is_finished r else status r = status (sd_store s i)"
  shows "touched i stopped s s'"
  unfolding touched_def using assms by blast

lemma touched_trans:
  assumes "touched i False s s'" "touched i stopped s' s''"
  shows "touched i stopped s s''"
  using assms unfolding touched_def by (elim exE conjE) (rule exI, rule exI, rule exI, auto simp: set_request_def dest: prefix_order.trans)

lemma touched_set:
  assumes "request_id r = request_id (sd_store s i)" "resumable r \<longrightarrow> resumable (sd_store s i)"
    "prefix (all_token_ids (sd_store s i)) (all_token_ids r)"
    "if stopped then is_finished r else status r = status (sd_store s i)"
  shows "touched i stopped s (set_request i r s)"
  by (rule touchedI [where r = r and k = "sd_kv s" and e = "sd_enc s"]) (use assms in \<open>simp_all add: set_request_def\<close>)

lemma update_request_touched:
  assumes "update_request_with_output env cf i toks s = Inr (kept, stopped, s')" "hasher_ok (se_hasher env)"
  shows "touched i stopped s s'" "\<exists>n. kept = take n toks \<and> took kept (sd_store s i) (sd_store s' i)"
proof -
  obtain r where a: "append_until_stop (se_hasher env) (cf_max_model_len cf) toks [] (sd_store s i) = Inr (kept, stopped, r)"
    and s': "s' = set_request i r s" using assms(1) by (auto simp: update_request_with_output_def)
  obtain n where n: "kept = take n toks" "took (take n toks) (sd_store s i) r"
    "if stopped then is_finished r else status r = status (sd_store s i)"
  proof -
    obtain n where "kept = [] @ take n toks \<and> took (take n toks) (sd_store s i) r
      \<and> (if stopped then 0 < n \<and> is_finished r
         else n = length toks \<and> status r = status (sd_store s i)
           \<and> (toks \<noteq> [] \<longrightarrow> (\<exists>sp. sampling_params (sd_store s i) = Some sp
                \<and> (int (num_output_tokens r) < min_tokens sp \<or> int (num_tokens r) < cf_max_model_len cf))))"
      using append_until_stop_ok [OF a assms(2)] by blast
    then show ?thesis by (intro that [of n]) (simp_all split: if_splits)
  qed
  show "touched i stopped s s'" unfolding s' by (rule touched_set) (use n took_fields(1-3) [OF n(2)] in \<open>auto split: if_splits\<close>)
  show "\<exists>n. kept = take n toks \<and> took kept (sd_store s i) (sd_store s' i)" using n by (auto simp: s' set_request_def)
qed

lemma async_update_touched:
  assumes "async_update_request_with_output env cf i toks s = Inr (kept, stopped, s')" "hasher_ok (se_hasher env)"
  shows "touched i stopped s s'"
proof (cases "discard_latest_async_tokens (sd_store s i)")
  case True
  then show ?thesis using assms(1) by (auto simp: async_update_request_with_output_def Let_def intro!: touched_set)
next
  case False
  then obtain s1 where u: "update_request_with_output env cf i toks s = Inr (kept, stopped, s1)"
    and rest: "(let r1 = sd_store s1 i; r2 = r1\<lparr>num_output_placeholders := num_output_placeholders r1 - int (length kept)\<rparr>;
          s2 = set_request i r2 s1 in
      guard (num_output_placeholders r2 \<ge> 0) AssertionError
      (if status (sd_store s i) = RUNNING
       then res_bind (km_cache_blocks (se_hash env) (sd_kv s2) r2 (num_computed_tokens r2 - num_output_placeholders r2))
              (\<lambda>(k, r3). Inr (kept, stopped, set_request i r3 (s2\<lparr>sd_kv := k\<rparr>)))
       else Inr (kept, stopped, s2))) = Inr (kept, stopped, s')"
    using assms(1) by (auto simp: async_update_request_with_output_def Let_def split: if_splits)
  define r2 where "r2 = (sd_store s1 i)\<lparr>num_output_placeholders := num_output_placeholders (sd_store s1 i) - int (length kept)\<rparr>"
  obtain r k e where s1: "s1 = (set_request i r s)\<lparr>sd_kv := k, sd_enc := e\<rparr>" and k: "km_shape k = km_shape (sd_kv s)"
    and r: "request_id r = request_id (sd_store s i)" "resumable r \<longrightarrow> resumable (sd_store s i)"
      "prefix (all_token_ids (sd_store s i)) (all_token_ids r)"
      "if stopped then is_finished r else status r = status (sd_store s i)"
    using update_request_touched(1) [OF u assms(2)] unfolding touched_def by blast
  have r2: "request_id r2 = request_id r" "resumable r2 = resumable r" "status r2 = status r" "all_token_ids r2 = all_token_ids r" by (simp_all add: r2_def s1 set_request_def)
  have "touched i stopped s (set_request i r' (s1\<lparr>sd_kv := k'\<rparr>))"
    if "km_shape k' = km_shape k" "memo_of r2 r'" for k' r'
    by (rule touchedI [where r = r' and k = k' and e = e]) (use that k r r2 memo_of_fields [OF that(2)] in \<open>auto simp: s1 set_request_def is_finished_def\<close>)
  moreover have "touched i stopped s (set_request i r2 s1)"
    by (rule touchedI [where r = r2 and k = k and e = e]) (use k r r2 in \<open>auto simp: s1 set_request_def is_finished_def\<close>)
  ultimately show ?thesis using rest unfolding Let_def r2_def [symmetric] guard_eq_Inr
    by (auto split: if_splits dest!: km_cache_blocks_frame simp: s1 set_request_def)
qed

lemma touched_upd:
  assumes "touched i stopped s s'" "\<And>r. request_id (f r) = request_id r" "\<And>r. resumable (f r) \<Longrightarrow> resumable r" "\<And>r. all_token_ids (f r) = all_token_ids r"
    "\<And>r. is_finished (f r)"
  shows "touched i True s (upd_request i f s')"
proof -
  obtain r k e where "s' = (set_request i r s)\<lparr>sd_kv := k, sd_enc := e\<rparr>" "km_shape k = km_shape (sd_kv s)"
    "request_id r = request_id (sd_store s i)" "resumable r \<longrightarrow> resumable (sd_store s i)"
    "prefix (all_token_ids (sd_store s i)) (all_token_ids r)"
    using assms(1) unfolding touched_def by blast
  then show ?thesis
    by (intro touchedI [where r = "f r" and k = k and e = e]) (use assms(2-5) in \<open>auto simp: upd_request_def set_request_def\<close>)
qed

lemma take_result_touched:
  assumes "hasher_ok (se_hasher env)"
  shows "res_all (\<lambda>(kept, stopped, s'). touched i stopped s s') (take_result env cf i g pooled s)"
proof -
  have first: "touched i stopped s s1" if "(if g \<noteq> []
        then (if cf_async_scheduling cf then async_update_request_with_output env cf i g s
              else update_request_with_output env cf i g s)
        else if pooling_params (sd_store s i) \<noteq> None \<and> pooled
        then Inr ([], True, upd_request i (\<lambda>r. r\<lparr>status := FINISHED_STOPPED\<rparr>) s)
        else Inr ([], False, s)) = Inr (kept, stopped, s1)" for kept stopped s1
    using that async_update_touched [OF _ assms] update_request_touched(1) [OF _ assms]
      touched_set [of "sd_store s i" s i False] touched_set [of "(sd_store s i)\<lparr>status := FINISHED_STOPPED\<rparr>" s i True]
    by (auto split: if_splits simp: upd_request_def is_finished_def set_request_def)
  have err: "touched i True s (upd_request i (\<lambda>r. r\<lparr>status := FINISHED_ERROR, resumable := False\<rparr>) s1)"
    if "touched i stopped s s1" for stopped s1
    by (rule touched_upd [OF that]) (simp_all add: is_finished_def)
  show ?thesis unfolding take_result_def Let_def
    by (intro res_rules) (use first err in auto)
qed

section \<open>The loop over the scheduled requests\<close>

text \<open>
  Between the iterations the finished requests that are still queued are exactly those recorded as stopped, and a
  request that cannot be resumed stays so.
\<close>

definition plain :: "'c scheduler \<Rightarrow> bool" where
  "plain s \<longleftrightarrow> (\<forall>(rid, i) \<in> set (sd_requests s). \<not> resumable (sd_store s i))"

definition noted :: "update_acc \<Rightarrow> 'c scheduler \<Rightarrow> bool" where
  "noted acc s \<longleftrightarrow> (\<forall>j \<in> set (sd_running s). is_finished (sd_store s j) \<longrightarrow> j \<in> set (ua_stopped_running acc))
     \<and> (\<forall>j \<in># members (sd_waiting s). is_finished (sd_store s j) \<longrightarrow> j \<in> set (ua_stopped_preempted acc))
     \<and> (\<forall>j \<in># members (sd_skipped s). \<not> is_finished (sd_store s j))
     \<and> (\<forall>j \<in> set (ua_stopped_running acc) \<union> set (ua_stopped_preempted acc). is_finished (sd_store s j))"

text \<open>Fields the loop leaves alone; the table only shrinks.\<close>

definition still :: "'c scheduler \<Rightarrow> 'c scheduler \<Rightarrow> bool" where
  "still s s' \<longleftrightarrow> sd_running s' = sd_running s \<and> sd_waiting s' = sd_waiting s \<and> sd_skipped s' = sd_skipped s
     \<and> set (sd_requests s') \<subseteq> set (sd_requests s) \<and> sd_pause s' = sd_pause s \<and> km_shape (sd_kv s') = km_shape (sd_kv s)
     \<and> (\<forall>j. rid_of s' j = rid_of s j) \<and> (\<forall>j. prefix (all_token_ids (sd_store s j)) (all_token_ids (sd_store s' j)))"

lemma still_refl [simp]: "still s s"
  by (simp add: still_def)

lemma still_trans: "still s s' \<Longrightarrow> still s' s'' \<Longrightarrow> still s s''"
  by (auto simp: still_def intro: prefix_order.trans)

lemma touched_still:
  assumes t: "touched i stopped s s'" and set: "settled {} s" and p: "plain s"
  shows "still s s'" "settled {} s'" "plain s'" "sd_requests s' = sd_requests s" "\<And>j. j \<noteq> i \<Longrightarrow> sd_store s' j = sd_store s j"
    "if stopped then is_finished (sd_store s' i) else status (sd_store s' i) = status (sd_store s i)"
proof -
  obtain r k e where s': "s' = (set_request i r s)\<lparr>sd_kv := k, sd_enc := e\<rparr>" and k: "km_shape k = km_shape (sd_kv s)"
    and r: "request_id r = request_id (sd_store s i)" "resumable r \<longrightarrow> resumable (sd_store s i)"
      "prefix (all_token_ids (sd_store s i)) (all_token_ids r)"
      "if stopped then is_finished r else status r = status (sd_store s i)"
    using t unfolding touched_def by blast
  show "still s s'" "sd_requests s' = sd_requests s" "\<And>j. j \<noteq> i \<Longrightarrow> sd_store s' j = sd_store s j"
    "if stopped then is_finished (sd_store s' i) else status (sd_store s' i) = status (sd_store s i)"
    using k r by (auto simp: s' still_def set_request_def)
  show "plain s'" using p r(2) by (auto simp: plain_def s' set_request_def)
  show "settled {} s'"
    by (rule settled_change [OF set]) (use r in \<open>auto simp: s' set_request_def queued_def gone_def is_finished_def split: if_splits\<close>)
qed

lemma settled_where:
  assumes set: "settled {} s" and i: "(rid, i) \<in> set (sd_requests s)" "\<not> is_finished (sd_store s i)"
  shows "i \<in> set (sd_running s) \<longleftrightarrow> status (sd_store s i) = RUNNING" "i \<in># queued s \<longleftrightarrow> status (sd_store s i) \<noteq> RUNNING"
    "rid = rid_of s i"
proof -
  have "i \<in># filter_mset (\<lambda>j. \<not> gone {} s j) (mset (map snd (sd_requests s)))" using i by (auto simp: gone_def intro: rev_image_eqI)
  then have "i \<in># filter_mset (\<lambda>j. \<not> gone {} s j) (mset (sd_running s) + queued s)" using set by (simp only: settled_def)
  then have "i \<in> set (sd_running s) \<or> i \<in># queued s" by auto
  then show "i \<in> set (sd_running s) \<longleftrightarrow> status (sd_store s i) = RUNNING" "i \<in># queued s \<longleftrightarrow> status (sd_store s i) \<noteq> RUNNING"
    using set i(2) by (auto simp: settled_def gone_def waiting_status_def)
  show "rid = rid_of s i" using set i(1) by (auto simp: settled_def requests_ok_def)
qed

definition stop_noted :: "bool \<Rightarrow> request_status \<Rightarrow> nat \<Rightarrow> update_acc \<Rightarrow> update_acc" where
  "stop_noted stopped was i acc = (if \<not> stopped then acc
     else if was = RUNNING then acc\<lparr>ua_stopped_running := List.insert i (ua_stopped_running acc)\<rparr>
     else acc\<lparr>ua_stopped_preempted := List.insert i (ua_stopped_preempted acc)\<rparr>)"

lemma update_core:
  assumes set: "settled {} s" and p: "plain s" and nt: "noted acc s" and i: "(rid, i) \<in> set (sd_requests s)" "\<not> is_finished (sd_store s i)"
    and sk: "i \<notin># members (sd_skipped s)" and t: "touched i stopped s s3"
    and stop: "(if stopped then stop_request env i s3 else Inr s3) = Inr s4"
  shows "settled {} s4 \<and> plain s4 \<and> noted (stop_noted stopped (status (sd_store s i)) i acc) s4 \<and> still s s4"
proof -
  note T = touched_still [OF t set p] and W = settled_where [OF set i]
  have iw: "i \<in># members (sd_waiting s) \<longleftrightarrow> status (sd_store s i) \<noteq> RUNNING" using W(2) sk by (simp add: queued_def)
  have n3: "noted (stop_noted stopped (status (sd_store s i)) i acc) s3"
  proof (cases stopped)
    case True
    then have fin: "is_finished (sd_store s3 j) \<longleftrightarrow> is_finished (sd_store s j) \<or> j = i" for j
      using T(5) [of j] T(6) i(2) by (cases "j = i") simp_all
    have same: "sd_running s3 = sd_running s" "sd_waiting s3 = sd_waiting s" "sd_skipped s3 = sd_skipped s" using T(1) by (simp_all add: still_def)
    show ?thesis using nt W(1) iw sk True unfolding noted_def same fin stop_noted_def
      by (cases "status (sd_store s i) = RUNNING") auto
  next
    case False
    then have "is_finished (sd_store s3 j) = is_finished (sd_store s j)" for j using T(5) [of j] T(6) by (cases "j = i") (auto simp: is_finished_def)
    then show ?thesis using T(1) nt False by (simp add: noted_def stop_noted_def still_def)
  qed
  show ?thesis
  proof (cases stopped)
    case False
    then show ?thesis using stop T n3 by simp
  next
    case True
    have "(rid, i) \<in> set (sd_requests s3)" using i T(4) by simp
    then have "\<not> resumable (sd_store s3 i)" and tab: "(rid_of s3 i, i) \<in> set (sd_requests s3)"
      using T(2,3) by (auto simp: plain_def settled_def requests_ok_def)
    then have "free_request env i False s3 = Inr s4" using stop True by (simp add: stop_request_def handle_stopped_request_def Let_def)
    note R = free_request_released [OF this]
    have st: "sd_store s4 = sd_store s3" and sub: "set (sd_requests s4) \<subseteq> set (sd_requests s3)"
      using R by (auto simp: released_def delete_filter)
    have "still s3 s4" using R sub by (simp add: still_def released_def)
    moreover have "plain s4" using T(3) sub by (auto simp: plain_def st)
    moreover have "noted (stop_noted stopped (status (sd_store s i)) i acc) s4" using n3 R by (simp add: noted_def released_def)
    ultimately show ?thesis using released_settled [OF R T(2) tab] still_trans [OF T(1)] by blast
  qed
qed

definition loop_ok :: "'c scheduler \<Rightarrow> update_acc \<times> 'c scheduler \<Rightarrow> bool" where
  "loop_ok s0 = (\<lambda>(acc, s). settled {} s \<and> plain s \<and> noted acc s \<and> still s0 s)"

lemma loop_ok_ignores [simp]:
  "loop_ok s0 (acc\<lparr>ua_outputs := x\<rparr>, s) = loop_ok s0 (acc, s)" "loop_ok s0 (acc, s\<lparr>sd_prefill_stats := y\<rparr>) = loop_ok s0 (acc, s)"
  by (simp_all add: loop_ok_def noted_def settled_def gone_def requests_ok_def queued_def plain_def still_def)

lemma update_one_ok:
  assumes inv: "loop_ok s0 (acc, s)" and h: "hasher_ok (se_hasher env)"
    and sk: "\<And>i. (rid, i) \<in> set (sd_requests s0) \<Longrightarrow> i \<notin># members (sd_skipped s0)"
  shows "res_all (loop_ok s0) (update_one env cf out mo failed (rid, n) (acc, s))"
proof -
  have set: "settled {} s" and p: "plain s" and nt: "noted acc s" and st: "still s0 s" using inv by (simp_all add: loop_ok_def)
  have core: "loop_ok s0 (stop_noted stopped (status (sd_store s i)) i acc, s4)"
    if m: "map_of (sd_requests s) rid = Some i" and fin: "\<not> is_finished (sd_store s i)" and t: "touched i stopped s s3"
      and stop: "(if stopped then stop_request env i s3 else Inr s3) = Inr s4" for i stopped s3 s4
  proof -
    have i: "(rid, i) \<in> set (sd_requests s)" using m by (rule map_of_SomeD)
    have nsk: "i \<notin># members (sd_skipped s)" using sk [of i] i st by (auto simp: still_def)
    show ?thesis using update_core [OF set p nt i fin nsk t stop] still_trans [OF st] by (simp add: loop_ok_def)
  qed
  have drafts: "touched i False s ((upd_request i (reject_drafts spec g) s)\<lparr>sd_enc := e\<rparr>)" for i spec g e
    by (rule touchedI [where r = "reject_drafts spec g (sd_store s i)" and k = "sd_kv s" and e = e])
      (simp_all add: upd_request_def set_request_def reject_drafts_def Let_def)
  have body: "loop_ok s0 (stop_noted stopped (status (sd_store ((upd_request i (reject_drafts spec g) s)\<lparr>sd_enc := e\<rparr>) i)) i acc, s4)"
    if "map_of (sd_requests s) rid = Some i" "\<not> is_finished (sd_store s i)"
      "take_result env cf i g pooled ((upd_request i (reject_drafts spec g) s)\<lparr>sd_enc := e\<rparr>) = Inr (kept, stopped, s3)"
      "(if stopped then stop_request env i s3 else Inr s3) = Inr s4" for i g spec e pooled kept stopped s3 s4
  proof -
    have "touched i stopped s s3"
      using touched_trans [OF drafts] res_allD [OF take_result_touched [OF h] that(3)] by auto
    moreover have "status (sd_store ((upd_request i (reject_drafts spec g) s)\<lparr>sd_enc := e\<rparr>) i) = status (sd_store s i)"
      by (simp add: upd_request_def set_request_def reject_drafts_def Let_def)
    ultimately show ?thesis using core [OF that(1,2) _ that(4)] by simp
  qed
  show ?thesis unfolding update_one_def prod.case Let_def stop_noted_def [symmetric]
    by (intro res_rules) (use inv body in \<open>simp_all del: map_of_eq_Some_iff\<close>)
qed

lemma after_loop:
  assumes inv: "loop_ok s0 (acc, s)" and d: "distinct (sd_running s0)"
    and s3: "s3 = (if ua_stopped_running acc \<noteq> [] then s\<lparr>sd_running := remove_all (sd_running s) (ua_stopped_running acc)\<rparr> else s)"
    and s4: "s4 = (if ua_stopped_preempted acc \<noteq> []
       then s3\<lparr>sd_waiting := remove_requests (sd_lt s3) (ua_stopped_preempted acc) (sd_waiting s3)\<rparr> else s3)"
  shows "placed {#} s4" "plain s4" "set (sd_running s4) \<subseteq> set (sd_running s0)" "length (sd_running s4) \<le> length (sd_running s0)"
    "sd_store s4 = sd_store s" "sd_requests s4 = sd_requests s" "members (sd_skipped s4) = members (sd_skipped s0)"
    "sd_pause s4 = sd_pause s0" "sd_kv s4 = sd_kv s"
proof -
  let ?R = "ua_stopped_running acc" and ?P = "ua_stopped_preempted acc"
  have set: "settled {} s" and p: "plain s" and nt: "noted acc s" and st: "still s0 s" using inv by (simp_all add: loop_ok_def)
  have run: "sd_running s4 = filter (\<lambda>j. j \<notin> set ?R) (sd_running s)"
    using remove_all_filter [of "sd_running s" ?R] d st by (simp add: s4 s3 still_def)
  have w: "members (sd_waiting s4) = filter_mset (\<lambda>j. j \<notin> set ?P) (members (sd_waiting s))" by (simp add: s4 s3)
  have sk: "sd_skipped s4 = sd_skipped s" by (simp add: s4 s3)
  have fixed: "filter_mset (\<lambda>j. j \<notin> set ?P) (members (sd_skipped s)) = members (sd_skipped s)"
  proof (rule filter_mset_eq_conv [THEN iffD2], intro conjI ballI)
    fix j assume "j \<in># members (sd_skipped s)"
    then show "j \<notin> set ?P" using nt by (auto simp: noted_def)
  qed simp_all
  have q: "queued s4 = filter_mset (\<lambda>j. j \<notin> set ?P) (queued s)" by (simp add: queued_def w sk fixed)
  show same: "sd_store s4 = sd_store s" "sd_requests s4 = sd_requests s" "sd_kv s4 = sd_kv s" by (simp_all add: s4 s3)
  have "settled {} s4"
    by (rule settled_drop [OF set, where P = "\<lambda>j. j \<notin> set ?R" and Q = "\<lambda>j. j \<notin> set ?P" and R = "\<lambda>_. True"])
      (use nt in \<open>auto simp: same run q mset_filter gone_def noted_def\<close>)
  moreover have "clean s4" using nt by (auto simp: clean_def run queued_def w sk same noted_def)
  ultimately show "placed {#} s4" by (simp add: placed_iff_settled)
  show "plain s4" using p by (simp add: plain_def same)
  show "set (sd_running s4) \<subseteq> set (sd_running s0)" "length (sd_running s4) \<le> length (sd_running s0)"
    unfolding run using st by (auto simp: still_def intro: le_trans [OF length_filter_le])
  show "members (sd_skipped s4) = members (sd_skipped s0)" "sd_pause s4 = sd_pause s0"
    using st by (simp_all add: sk still_def) (simp add: s4 s3)
qed

section \<open>Failed and finished transfers\<close>

lemma scan_request_quiet:
  "scan_request cf invalid sched evict i (acc, s) = Inr (acc', s') \<Longrightarrow> distinct (ia_affected acc) \<Longrightarrow> quiet s s' \<and> distinct (ia_affected acc')"
  by (auto simp: scan_request_def Let_def ident_def is_finished_def intro!: quiet_set split: option.splits list.splits if_splits)

lemma invalid_blocks_quiet:
  assumes "update_requests_with_invalid_blocks cf is invalid sched evict s = Inr ((a, n, e), s')"
  shows "quiet s s' \<and> distinct a"
proof -
  obtain acc where f: "fold_res (scan_request cf invalid sched evict) is
      (\<lparr>ia_affected = [], ia_tokens = 0, ia_evict = [], ia_marked_ids = []\<rparr>, s) = Inr (acc, s')" and a: "a = ia_affected acc"
    using assms by (auto simp: update_requests_with_invalid_blocks_def)
  have "quiet s (snd (acc, s')) \<and> distinct (ia_affected (fst (acc, s')))"
    by (rule fold_res_preserves [OF f, where I = "\<lambda>x. quiet s (snd x) \<and> distinct (ia_affected (fst x))"])
      (auto dest!: scan_request_quiet intro: quiet_trans)
  then show ?thesis by (simp add: a)
qed

lemma handle_invalid_quiet:
  assumes "handle_invalid_blocks env cf invalid sched s = Inr (failed, s')"
  shows "quiet s s' \<and> distinct failed"
proof -
  obtain af n1 e1 s1 sf n2 ev s2 where
    1: "update_requests_with_invalid_blocks cf
         (filter (\<lambda>i. status (sd_store s i) = WAITING_FOR_REMOTE_KVS) (queue_iter (sd_lt s) (sd_skipped s))) invalid sched False s = Inr ((af, n1, e1), s1)"
    and 2: "update_requests_with_invalid_blocks cf (sd_running s1) invalid sched True s1 = Inr ((sf, n2, ev), s2)"
    and rest: "(if af = [] \<and> sf = [] then Inr ([], s2)
     else
     res_bind (if ev \<noteq> [] \<and> \<not> cf_recompute_kv_load_failures cf
               then res_bind (km_evict_blocks (se_hash env) (sd_kv s2) ev) (\<lambda>k. Inr (s2\<lparr>sd_kv := k\<rparr>))
               else Inr s2) (\<lambda>s3.
     if \<not> cf_recompute_kv_load_failures cf then Inr (List.union af sf, s3)
     else Inr (sf, s3\<lparr>sd_failed_recving := List.union (sd_failed_recving s3) af\<rparr>))) = Inr (failed, s')"
    using assms unfolding handle_invalid_blocks_def
    by (subst (asm) res_bind_eq_Inr, elim exE conjE, simp only: split_paired_all prod.case,
        subst (asm) res_bind_eq_Inr, elim exE conjE, simp only: split_paired_all prod.case)
  note Q1 = invalid_blocks_quiet [OF 1] and Q2 = invalid_blocks_quiet [OF 2]
  have q2: "quiet s s2" using Q1 Q2 quiet_trans by blast
  have "quiet s (s2\<lparr>sd_kv := k\<rparr>)" if "km_evict_blocks E (sd_kv s2) ev = Inr k" for E k
    using q2 km_evict_frame [OF that] by (simp add: quiet_kv_through)
  then show ?thesis using rest q2 Q1 Q2 by (auto split: if_splits)
qed

lemma quiet_plain: "quiet s s' \<Longrightarrow> plain s' = plain s"
  by (simp add: plain_def quiet_def same_objects_def ident_def)

text \<open>A finished transfer frees the blocks of a finished request.\<close>

lemma free_blocks_kept:
  assumes f: "sched_free_blocks i s = Inr s'" and i: "map_of (sd_requests s) rid = Some i" and p: "placed {#} s" "plain s"
  shows "placed {#} s' \<and> plain s' \<and> still s s' \<and> sd_store s' = sd_store s"
proof -
  note R = sched_free_blocks_released [OF f]
  have "(rid_of s i, i) \<in> set (sd_requests s)" using map_of_SomeD [OF i] p(1) by (auto simp: placed_def requests_ok_def)
  then have "settled {} s'" using released_settled [OF R] p(1) placed_iff_settled [of s] by blast
  moreover have "clean s'" using R p(1) placed_iff_settled [of s] by (simp add: released_def clean_def queued_def)
  ultimately have "placed {#} s'" by (simp add: placed_iff_settled)
  moreover have sub: "set (sd_requests s') \<subseteq> set (sd_requests s)" using R by (auto simp: released_def delete_filter)
  ultimately show ?thesis using R p(2) by (auto simp: released_def plain_def still_def)
qed

definition remains :: "'c scheduler \<Rightarrow> 'c scheduler \<Rightarrow> bool" where
  "remains s s' \<longleftrightarrow> placed {#} s' \<and> plain s' \<and> set (sd_running s') \<subseteq> set (sd_running s) \<and> length (sd_running s') \<le> length (sd_running s)
     \<and> set (sd_requests s') \<subseteq> set (sd_requests s) \<and> sd_pause s' = sd_pause s \<and> km_shape (sd_kv s') = km_shape (sd_kv s)
     \<and> (\<forall>j. rid_of s' j = rid_of s j) \<and> (\<forall>j. prefix (all_token_ids (sd_store s j)) (all_token_ids (sd_store s' j)))"

lemma remains_trans: "remains s s' \<Longrightarrow> remains s' s'' \<Longrightarrow> remains s s''"
  by (auto simp: remains_def intro: prefix_order.trans)

lemma remains_refl: "placed {#} s \<Longrightarrow> plain s \<Longrightarrow> remains s s"
  by (simp add: remains_def)

lemma remains_still: "placed {#} s' \<and> plain s' \<and> still s s' \<Longrightarrow> remains s s'"
  by (auto simp: remains_def still_def)

lemma remains_quiet: "remains s a \<Longrightarrow> quiet a b \<Longrightarrow> remains s b"
  using quiet_placed [of a b] quiet_plain [of a b] by (simp add: remains_def quiet_def same_objects_def ident_def)

lemma xfer_kept:
  assumes "update_from_kv_xfer_finished env ko s = Inr s'" "placed {#} s" "plain s"
  shows "remains s s' \<and> sd_store s' = sd_store s"
proof -
  define s1 where "s1 = (case se_connector env of
                  None \<Rightarrow> s | Some con \<Rightarrow> s\<lparr>sd_connector := cn_update_connector_output con ko (sd_connector s)\<rparr>)"
  obtain s2 where f1: "fold_res recving_done (finished_recving ko) s1 = Inr s2" and f2: "fold_res sending_done (finished_sending ko) s2 = Inr s'"
    using assms(1) by (auto simp: update_from_kv_xfer_finished_def Let_def s1_def)
  have q: "quiet s s1" and st: "sd_store s1 = sd_store s" by (simp_all add: s1_def split: option.split)
  have k1: "remains s s1 \<and> sd_store s1 = sd_store s"
    using remains_quiet [OF remains_refl [OF assms(2,3)] q] st by simp
  have free: "remains s b \<and> sd_store b = sd_store s"
    if "remains s a \<and> sd_store a = sd_store s" "map_of (sd_requests a) rid = Some i" "sched_free_blocks i a = Inr b" for rid i a b
    using that free_blocks_kept [OF that(3,2)] remains_trans [of s a b] remains_still [of b a] by (auto simp: remains_def)
  have "remains s s2 \<and> sd_store s2 = sd_store s"
  proof (rule fold_res_preserves [where I = "\<lambda>x. remains s x \<and> sd_store x = sd_store s", OF f1 k1])
    fix rid a b assume a: "remains s a \<and> sd_store a = sd_store s" and r: "recving_done rid a = Inr b"
    show "remains s b \<and> sd_store b = sd_store s"
    proof (cases "map_of (sd_requests a) rid")
      case None
      then show ?thesis using r by (simp add: recving_done_def)
    next
      case (Some i)
      show ?thesis
      proof (cases "status (sd_store a i) = WAITING_FOR_REMOTE_KVS")
        case True
        then have "b = a\<lparr>sd_finished_recving := List.insert rid (sd_finished_recving a)\<rparr>" using r Some by (simp add: recving_done_def)
        then show ?thesis using a remains_quiet [of s a b] by simp
      next
        case False
        then show ?thesis using r Some free [OF a Some] by (simp add: recving_done_def)
      qed
    qed
  qed
  then show ?thesis
  proof (rule fold_res_preserves [where I = "\<lambda>x. remains s x \<and> sd_store x = sd_store s", OF f2])
    fix rid a b assume a: "remains s a \<and> sd_store a = sd_store s" and r: "sending_done rid a = Inr b"
    then obtain i where "map_of (sd_requests a) rid = Some i" "sched_free_blocks i a = Inr b"
      by (cases "map_of (sd_requests a) rid") (simp_all add: sending_done_def del: map_of_eq_Some_iff)
    then show "remains s b \<and> sd_store b = sd_store s" by (rule free [OF a])
  qed
qed

lemma fail_requests_kept:
  assumes f: "fail_requests env failed outs s = Inr (outs', s')" and d: "distinct failed" and p: "placed {#} s" "plain s"
  shows "remains s s'"
proof -
  obtain res where "finish_requests env (Some failed) FINISHED_ERROR s = Inr (res, s')"
    using f by (auto simp: fail_requests_def)
  note F = finish_requests_ok [OF p(1) _ this]
  have d': "case Some failed of None \<Rightarrow> True | Some l \<Rightarrow> distinct l" using d by simp
  have "plain s'" using p(2) F(5,7) [OF d'] by (auto simp: plain_def)
  then show ?thesis using F(1,2,5,7,8,9) [OF d'] by (auto simp: remains_def)
qed

lemma make_stats_quiet:
  assumes "make_stats s = Inr (st, s')"
  shows "quiet s s'"
proof (cases "km_log_stats (sd_kv s)")
  case True
  obtain ps k where m: "make_prefix_cache_stats (sd_kv s) = (ps, k)" by fastforce
  have k: "km_shape k = km_shape (sd_kv s)"
    using m by (auto simp: make_prefix_cache_stats_def km_shape_def Let_def split: if_splits)
  obtain x where ps: "ps = Some x" using assms True m by (cases ps) (simp_all add: make_stats_def)
  have "s' = s\<lparr>sd_kv := sd_kv s'\<rparr> \<and> km_shape (sd_kv s') = km_shape k"
    using assms True m ps by (auto simp: make_stats_def Let_def split_beta km_shape_def)
  then show ?thesis using k quiet_kv [of "sd_kv s'" s] by simp
qed (use assms in \<open>simp add: make_stats_def\<close>)

lemma take_events_shape: "km_shape (snd (km_take_events k)) = km_shape k"
  by (simp add: km_take_events_def km_shape_def split_beta Let_def)

lemma update_from_output_ok:
  assumes p: "placed {#} s" "plain s" and h: "hasher_ok (se_hasher env)"
    and sk: "\<forall>(rid, n) \<in> set (so_num_scheduled_tokens out). \<forall>i. (rid, i) \<in> set (sd_requests s) \<longrightarrow> i \<notin># members (sd_skipped s)"
  shows "res_all (\<lambda>(outs, ev, s'). remains s s') (update_from_output env cf out mo s)"
proof -
  have invalid: "quiet s s1 \<and> distinct failed" if "(case mo_kv_connector_output mo of
          Some ko \<Rightarrow> if invalid_block_ids ko \<noteq> []
                     then handle_invalid_blocks env cf (invalid_block_ids ko) (so_num_scheduled_tokens out) s else Inr ([], s)
        | None \<Rightarrow> Inr ([], s)) = Inr (failed, s1)" for failed s1
    using that by (auto split: option.splits if_splits dest: handle_invalid_quiet)
  have loop: "loop_ok s1 (acc, s2)" if q: "quiet s s1"
    and f: "fold_res (update_one env cf out mo failed) (so_num_scheduled_tokens out)
                 (\<lparr>ua_stopped_running = [], ua_stopped_preempted = [], ua_outputs = []\<rparr>, s1) = Inr (acc, s2)" for failed s1 acc s2
  proof (rule fold_res_preserves [where I = "loop_ok s1", OF f])
    have "placed {#} s1" "plain s1" using p quiet_placed [OF q] quiet_plain [OF q] by simp_all
    then show "loop_ok s1 (\<lparr>ua_stopped_running = [], ua_stopped_preempted = [], ua_outputs = []\<rparr>, s1)"
      using placed_iff_settled [of s1] by (auto simp: loop_ok_def noted_def clean_def queued_def)
    fix e a b assume e: "e \<in> set (so_num_scheduled_tokens out)" and a: "loop_ok s1 a" and u: "update_one env cf out mo failed e a = Inr b"
    obtain rid n acc' s' where ea: "e = (rid, n)" "a = (acc', s')" by fastforce
    have "i \<notin># members (sd_skipped s1)" if "(rid, i) \<in> set (sd_requests s1)" for i
      using that sk e ea q by (auto simp: quiet_def same_objects_def)
    then show "loop_ok s1 b" using res_allD [OF update_one_ok [OF _ h]] a u ea by blast
  qed
  show ?thesis unfolding update_from_output_def Let_def
  proof (intro res_rules, goal_cases)
    case (1 x failed s1 y acc s2 z outputs s5 s6 events k u stats s9)
    define s3 where "s3 = (if ua_stopped_running acc \<noteq> [] then s2\<lparr>sd_running := remove_all (sd_running s2) (ua_stopped_running acc)\<rparr> else s2)"
    define s4 where "s4 = (if ua_stopped_preempted acc \<noteq> []
       then s3\<lparr>sd_waiting := remove_requests (sd_lt s3) (ua_stopped_preempted acc) (sd_waiting s3)\<rparr> else s3)"
    have q: "quiet s s1" and d: "distinct failed" using invalid 1(1,2) by blast+
    have p1: "placed {#} s1" using p quiet_placed [OF q] by simp
    have L: "loop_ok s1 (acc, s2)" using loop [OF q] 1(3,4) by blast
    note A = after_loop [OF L placed_distinct(1) [OF p1] s3_def s4_def]
    have "remains s1 s4" using L A by (auto simp: remains_def loop_ok_def still_def)
    then have r4: "remains s s4" using remains_trans remains_quiet [OF remains_refl [OF p] q] by blast
    have fails: "(if failed \<noteq> [] \<and> \<not> cf_recompute_kv_load_failures cf
               then fail_requests env failed (ua_outputs acc) s4 else Inr (ua_outputs acc, s4)) = Inr (outputs, s5)"
      using 1(5,6) unfolding s4_def s3_def by (simp only:)
    have r5: "remains s s5"
    proof (cases "failed \<noteq> [] \<and> \<not> cf_recompute_kv_load_failures cf")
      case True
      then show ?thesis using fails fail_requests_kept [OF _ d A(1,2)] remains_trans [OF r4] by simp
    qed (use fails r4 in auto)
    then have "remains s5 s6"
      using 1(7) xfer_kept [of env _ s5 s6] remains_refl [of s5] by (auto simp: remains_def split: option.splits)
    then have r6: "remains s s6" by (rule remains_trans [OF r5])
    have k: "km_shape k = km_shape (sd_kv s6)" using take_events_shape [of "sd_kv s6"] 1(8) by simp
    have "quiet s6 (s6\<lparr>sd_kv := k, sd_finished_req_ids_dict := x\<rparr>)" for x using quiet_kv [OF k]
      by (simp add: quiet_def same_objects_def same_status_def)
    then have "quiet s6 s9" using make_stats_quiet 1(9,10) quiet_trans by fastforce
    then show ?case using remains_quiet [OF r6] by simp
  qed
qed

end
