(* ===== verification/Scheduler_Engine.thy ===== *)
theory Scheduler_Engine
  imports Scheduler_Result
begin

text \<open>
  The scheduler in the engine's loop: requests arrive and are aborted at any time, steps and their results
  alternate. Every reachable state keeps the accounts of the queues.
\<close>

section \<open>Adding a request\<close>

lemma placed_in_table:
  assumes p: "placed {#} s" and j: "j \<in> set (sd_running s) \<or> j \<in># queued s"
  shows "(rid_of s j, j) \<in> set (sd_requests s)"
proof -
  have "mset (sd_running s) + queued s = unfinished s" using p by (simp add: placed_def)
  then have "j \<in># unfinished s" using j by (metis set_mset_mset union_iff)
  then obtain rid where "(rid, j) \<in> set (sd_requests s)" by (auto simp: unfinished_def)
  then show ?thesis using p by (auto simp: placed_def requests_ok_def)
qed

lemma add_request_ok:
  assumes p: "placed {#} s" and new: "map_of (sd_requests s) (request_id r) = None" "i \<notin> snd ` set (sd_requests s)"
    and w: "waiting_status (status r)" and a: "sched_add_request env i r s = Inr s'"
  shows "placed {#} s'" "sd_running s' = sd_running s" "sd_requests s' = sd_requests s @ [(request_id r, i)]"
    "\<And>j. j \<noteq> i \<Longrightarrow> sd_store s' j = sd_store s j" "sd_pause s' = sd_pause s" "sd_kv s' = sd_kv s"
    "request_id (sd_store s' i) = request_id r" "all_token_ids (sd_store s' i) = all_token_ids r" "resumable (sd_store s' i) = resumable r"
    "\<And>j. j \<noteq> i \<Longrightarrow> j \<in># members (sd_skipped s') \<Longrightarrow> j \<in># members (sd_skipped s)"
proof -
  define r1 where "r1 = (if resumable r then r\<lparr>streaming_queue := Some []\<rparr> else r)"
  define s1 where "s1 = enqueue_waiting_request i (set_request i r1 s)"
  have r1: "request_id r1 = request_id r" "status r1 = status r" "all_token_ids r1 = all_token_ids r" "resumable r1 = resumable r" by (simp_all add: r1_def)
  have s': "s' = s1\<lparr>sd_requests := AList.update (request_id r) i (sd_requests s1), sd_prefill_stats := List.insert i (sd_prefill_stats s1)\<rparr>"
    using a new(1) by (simp add: sched_add_request_def Let_def r1_def s1_def)
  have fresh: "request_id r \<notin> fst ` set (sd_requests s)" using new(1) by (simp add: map_of_eq_None_iff)
  have same: "sd_store s' = (sd_store s)(i := r1)" "sd_running s' = sd_running s" "sd_pause s' = sd_pause s" "sd_kv s' = sd_kv s"
    "sd_requests s' = sd_requests s @ [(request_id r, i)]"
    using update_new [OF fresh] by (auto simp: s' s1_def enqueue_waiting_request_def set_request_def)
  have q: "queued s' = add_mset i (queued s)"
    by (auto simp: s' s1_def enqueue_waiting_request_def set_request_def queued_def)
  have not: "i \<notin> set (sd_running s)" "i \<notin># queued s"
    using placed_in_table [OF p, of i] new(2) by force+
  have ne: "j \<noteq> i" if "j \<in> snd ` set (sd_requests s)" for j using that new(2) by auto
  have "unfinished s' = add_mset i (unfinished s)"
  proof -
    have "filter (\<lambda>j. \<not> is_finished (sd_store s' j)) (map snd (sd_requests s)) = filter (\<lambda>j. \<not> is_finished (sd_store s j)) (map snd (sd_requests s))"
    proof (rule filter_cong [OF refl])
      fix j assume "j \<in> set (map snd (sd_requests s))"
      then have "j \<noteq> i" using ne by auto
      then show "(\<not> is_finished (sd_store s' j)) = (\<not> is_finished (sd_store s j))" by (simp add: same)
    qed
    moreover have "\<not> is_finished r1" using w r1 by (simp add: waiting_status_def is_finished_def)
    ultimately show ?thesis by (simp add: unfinished_def same)
  qed
  moreover have "(a, i) \<notin> set (sd_requests s)" for a using new(2) by force
  then have "requests_ok s'" using p fresh by (auto simp: placed_def requests_ok_def same r1)
  ultimately show "placed {#} s'"
    using p not w by (auto simp: placed_def same q r1)
  show "sd_running s' = sd_running s" "sd_requests s' = sd_requests s @ [(request_id r, i)]" "\<And>j. j \<noteq> i \<Longrightarrow> sd_store s' j = sd_store s j"
    "sd_pause s' = sd_pause s" "sd_kv s' = sd_kv s" "request_id (sd_store s' i) = request_id r" "all_token_ids (sd_store s' i) = all_token_ids r"
    "resumable (sd_store s' i) = resumable r" "\<And>j. j \<noteq> i \<Longrightarrow> j \<in># members (sd_skipped s') \<Longrightarrow> j \<in># members (sd_skipped s)"
    using r1 by (auto simp: same) (auto simp: s' s1_def enqueue_waiting_request_def set_request_def split: if_splits)
qed

section \<open>Resets and drafts\<close>

lemma reset_one_ok:
  assumes p: "placed {#} s" and run: "sd_running s = xs @ [j]" and r: "reset_one_running j s = Inr s'"
  shows "placed {#} s'" "sd_running s' = xs" "same_objects s s'" "sd_skipped s' = sd_skipped s"
    "\<exists>lt. sd_waiting s' = prepend_request lt j (sd_waiting s)"
proof -
  define s1 where "s1 = s\<lparr>sd_running := xs\<rparr>"
  have d: "distinct (xs @ [j])" using placed_distinct(1) [OF p] run by simp
  obtain s2 where pre: "preempt_request j s1 = Inr s2"
    and s': "s' = upd_request j (\<lambda>r. r\<lparr>num_output_placeholders := 0, discard_latest_async_tokens := True\<rparr>) s2"
    using r by (auto simp: reset_one_running_def run s1_def)
  have q: "quiet s2 s'" unfolding s' upd_request_def by (rule quiet_set) (simp_all add: ident_def is_finished_def)
  note F = preempt_frame [OF pre]
  have rm: "sd_running s1 = remove1 j (sd_running s)" using d by (simp add: s1_def run remove1_append)
  have "placed {#} s2" by (rule preempt_placed [OF p _ rm _ _ _ _ pre]) (simp_all add: s1_def run)
  then show "placed {#} s'" using quiet_placed [OF q] by simp
  have "same_objects s s1" by (simp add: s1_def same_objects_def)
  then show "same_objects s s'" using F quiet_objects [OF q] same_objects_trans by blast
  show "sd_running s' = xs" "sd_skipped s' = sd_skipped s" using F q by (simp_all add: quiet_def s1_def)
  have "\<exists>lt. sd_waiting s2 = prepend_request lt j (sd_waiting s1)" using pre by (auto simp: preempt_request_def Let_def upd_request_def set_request_def)
  then show "\<exists>lt. sd_waiting s' = prepend_request lt j (sd_waiting s)" using q by (simp add: quiet_def s1_def)
qed

lemma reset_running_ok:
  assumes "fold_res reset_one_running (rev xs) s = Inr s'" "placed {#} s" "sd_running s = xs"
  shows "placed {#} s' \<and> sd_running s' = [] \<and> same_objects s s' \<and> sd_skipped s' = sd_skipped s
    \<and> members (sd_waiting s') = mset xs + members (sd_waiting s)
    \<and> (\<forall>q. sd_waiting s = FCFSRequestQueue q \<longrightarrow> sd_waiting s' = FCFSRequestQueue (xs @ q))"
  using assms
proof (induction xs arbitrary: s rule: rev_induct)
  case (snoc j xs)
  then obtain s1 where r: "reset_one_running j s = Inr s1" and f: "fold_res reset_one_running (rev xs) s1 = Inr s'" by auto
  note R = reset_one_ok [OF snoc.prems(2,3) r]
  obtain lt where w: "sd_waiting s1 = prepend_request lt j (sd_waiting s)" using R(5) by blast
  show ?case using snoc.IH [OF f R(1,2)] R(3,4) w same_objects_trans by (auto simp: ac_simps)
qed simp

lemma reset_shape: "km_reset_prefix_cache k = Inr (ok, k') \<Longrightarrow> km_shape k' = km_shape k"
  by (auto simp: km_reset_prefix_cache_def km_shape_def Let_def split: prod.splits if_splits option.splits)

lemma reset_prefix_cache_ok:
  assumes r: "sched_reset_prefix_cache env rr rc s = Inr (ok, s')" and p: "placed {#} s"
  shows "placed {#} s'" "same_objects s s'" "sd_skipped s' = sd_skipped s"
    "rr \<Longrightarrow> sd_running s' = [] \<and> members (sd_waiting s') = mset (sd_running s) + members (sd_waiting s)
       \<and> (\<forall>q. sd_waiting s = FCFSRequestQueue q \<longrightarrow> sd_waiting s' = FCFSRequestQueue (sd_running s @ q))"
    "\<not> rr \<Longrightarrow> sd_running s' = sd_running s \<and> sd_waiting s' = sd_waiting s"
proof -
  define m where "m = (if rr then res_bind (fold_res reset_one_running (rev (sd_running s)) s) (\<lambda>s1. Inr (s1\<lparr>sd_prev_step := []\<rparr>)) else Inr s)"
  obtain s1 x where 1: "m = Inr s1" and x: "km_reset_prefix_cache (sd_kv s1) = Inr x" and g: "(case x of (ok, k) \<Rightarrow>
      guard (\<not> (rr \<and> \<not> ok)) RuntimeError (if rc
        then (case reset_connector_cache env (s1\<lparr>sd_kv := k\<rparr>) of (ok', s3) \<Rightarrow> Inr (ok' \<and> ok, s3)) else Inr (ok, s1\<lparr>sd_kv := k\<rparr>))) = Inr (ok, s')"
    using r unfolding sched_reset_prefix_cache_def Let_def m_def [symmetric] res_bind_eq_Inr by blast
  obtain ok1 k where xk: "x = (ok1, k)" by fastforce
  have k: "km_reset_prefix_cache (sd_kv s1) = Inr (ok1, k)" using x xk by simp
  have rest: "(if rc then (case reset_connector_cache env (s1\<lparr>sd_kv := k\<rparr>) of (ok', s3) \<Rightarrow> Inr (ok' \<and> ok1, s3)) else Inr (ok1, s1\<lparr>sd_kv := k\<rparr>)) = (Inr (ok, s') :: (bool \<times> 'a scheduler) res)"
    using g unfolding xk prod.case guard_eq_Inr by (rule conjunct2)
  have q1: "quiet s1 (s1\<lparr>sd_kv := k\<rparr>)" by (rule quiet_kv) (rule reset_shape [OF k])
  then have q: "quiet s1 s'" using rest by (auto simp: reset_connector_cache_def split: if_splits option.splits prod.splits)
  have S: "placed {#} s1 \<and> same_objects s s1 \<and> sd_skipped s1 = sd_skipped s
    \<and> (if rr then sd_running s1 = [] \<and> members (sd_waiting s1) = mset (sd_running s) + members (sd_waiting s)
         \<and> (\<forall>q. sd_waiting s = FCFSRequestQueue q \<longrightarrow> sd_waiting s1 = FCFSRequestQueue (sd_running s @ q)) else s1 = s)"
  proof (cases rr)
    case True
    then obtain s0 where f: "fold_res reset_one_running (rev (sd_running s)) s = Inr s0" and s1: "s1 = s0\<lparr>sd_prev_step := []\<rparr>" using 1 by (auto simp: m_def)
    have "quiet s0 s1" by (simp add: s1)
    then show ?thesis using reset_running_ok [OF f p refl] quiet_placed [of s0 s1] quiet_objects [of s0 s1] same_objects_trans [of s s0 s1] True
      by (simp add: s1)
  qed (use 1 p in \<open>simp add: m_def\<close>)
  then show "placed {#} s'" "same_objects s s'" "sd_skipped s' = sd_skipped s"
    "rr \<Longrightarrow> sd_running s' = [] \<and> members (sd_waiting s') = mset (sd_running s) + members (sd_waiting s)
       \<and> (\<forall>q. sd_waiting s = FCFSRequestQueue q \<longrightarrow> sd_waiting s' = FCFSRequestQueue (sd_running s @ q))"
    "\<not> rr \<Longrightarrow> sd_running s' = sd_running s \<and> sd_waiting s' = sd_waiting s"
    using q quiet_placed [OF q] quiet_objects [OF q] same_objects_trans [of s s1 s'] by (auto simp: quiet_def split: if_splits)
qed

lemma update_draft_quiet: "quiet s (update_draft env e s)"
  by (auto simp: update_draft_def Let_def ident_def is_finished_def intro!: quiet_set split: prod.splits option.splits)

lemma update_draft_token_ids_quiet: "quiet s (update_draft_token_ids env ds s)"
proof -
  have "quiet s (fold (update_draft env) ds s0)" if "quiet s s0" for s0
    using that
  proof (induction ds arbitrary: s0)
    case (Cons e ds)
    then show ?case using quiet_trans [OF Cons.prems update_draft_quiet] by simp
  qed simp
  then show ?thesis by (simp add: update_draft_token_ids_def)
qed

section \<open>Reachable states\<close>

text \<open>
  The states of the engine's loop, with the output of the step whose results are still to come. A new request
  has an identifier that is not in use, is not a streaming session, and has at least one token; a step starts when no running request
  is ahead of its tokens, and the next one after the results of the last.
\<close>

inductive engine :: "'c sched_env \<Rightarrow> sched_config \<Rightarrow> 'c scheduler \<Rightarrow> scheduler_output option \<Rightarrow> bool" for env cf where
  init: "specs_ok kv \<Longrightarrow> engine env cf (scheduler_init cf finished_set kv enc_size con st) None"
| add: "engine env cf s p \<Longrightarrow> map_of (sd_requests s) (request_id r) = None \<Longrightarrow> i \<notin> snd ` set (sd_requests s)
    \<Longrightarrow> (\<And>out. p = Some out \<Longrightarrow> request_id r \<notin> fst ` set (so_num_scheduled_tokens out))
    \<Longrightarrow> waiting_status (status r) \<Longrightarrow> \<not> resumable r \<Longrightarrow> all_token_ids r \<noteq> []
    \<Longrightarrow> sched_add_request env i r s = Inr s' \<Longrightarrow> engine env cf s' p"
| finish: "engine env cf s p \<Longrightarrow> (case ids of None \<Rightarrow> True | Some l \<Rightarrow> distinct l)
    \<Longrightarrow> finish_requests env ids fs s = Inr (res, s') \<Longrightarrow> engine env cf s' p"
| pause: "engine env cf s p \<Longrightarrow> engine env cf (set_pause_state ps s) p"
| step: "engine env cf s None \<Longrightarrow> (\<forall>i \<in> set (sd_running s). not_ahead cf (sd_store s i))
    \<Longrightarrow> schedule env cf s = Some (Inr (out, s')) \<Longrightarrow> engine env cf s' (Some out)"
| results: "engine env cf s (Some out) \<Longrightarrow> update_from_output env cf out mo s = Inr (outs, ev, s') \<Longrightarrow> engine env cf s' None"
| drafts: "engine env cf s p \<Longrightarrow> engine env cf (update_draft_token_ids env ds s) p"
| reset: "engine env cf s p \<Longrightarrow> sched_reset_prefix_cache env rr rc s = Inr (ok, s') \<Longrightarrow> engine env cf s' p"
| reset_encoder: "engine env cf s p \<Longrightarrow> engine env cf (reset_encoder_cache s) p"

definition engine_inv :: "sched_config \<Rightarrow> 'c scheduler \<Rightarrow> scheduler_output option \<Rightarrow> bool" where
  "engine_inv cf s p \<longleftrightarrow> sched_inv cf s \<and> plain s \<and> requests_ready s
     \<and> (\<forall>out. p = Some out \<longrightarrow> (\<forall>(rid, n) \<in> set (so_num_scheduled_tokens out). \<forall>i. (rid, i) \<in> set (sd_requests s) \<longrightarrow> i \<notin># members (sd_skipped s)))"

text \<open>A change that keeps objects, accounts and the set of skipped requests keeps the invariant.\<close>

lemma engine_inv_same:
  assumes "engine_inv cf s p" "same_objects s s'" "placed {#} s'" "length (sd_running s') \<le> length (sd_running s)"
    "set_mset (members (sd_skipped s')) \<subseteq> set_mset (members (sd_skipped s))"
  shows "engine_inv cf s' p"
proof -
  have "plain s' = plain s" using assms(2) by (simp add: plain_def same_objects_def ident_def)
  moreover have "sd_requests s' = sd_requests s" using assms(2) by (simp add: same_objects_def)
  ultimately show ?thesis using assms requests_ready_same [OF assms(2)] by (fastforce simp: engine_inv_def sched_inv_def)
qed

lemma engine_inv_quiet: "engine_inv cf s p \<Longrightarrow> quiet s s' \<Longrightarrow> engine_inv cf s' p"
  by (rule engine_inv_same) (auto simp: quiet_placed quiet_objects engine_inv_def sched_inv_def, auto simp: quiet_def)

lemma init_inv: "specs_ok kv \<Longrightarrow> engine_inv cf (scheduler_init cf f kv n con st) None"
  by (simp add: engine_inv_def sched_inv_def placed_def requests_ok_def queued_def unfinished_def scheduler_init_def plain_def requests_ready_def)

lemma step_inv:
  assumes inv: "engine_inv cf s None" and na: "\<forall>i \<in> set (sd_running s). not_ahead cf (sd_store s i)"
    and cf: "0 < cf_cache_block_size cf" "0 \<le> cf_max_num_scheduled_tokens cf" and st: "schedule env cf s = Some (Inr (out, s'))"
  shows "engine_inv cf s' (Some out)"
proof -
  have "schedulable cf s" using inv na cf by (simp add: schedulable_def engine_inv_def)
  from endsD [OF schedule_ok [OF this] st] have D: "step_done cf s out s'" by simp
  then have obj: "same_objects s s'" and p: "placed {#} s'" and len: "length (sd_running s') \<le> cf_max_num_running_reqs cf"
    and keys: "\<And>rid n. (rid, n) \<in> set (so_num_scheduled_tokens out) \<Longrightarrow> rid \<in> rid_of s' ` set (sd_running s')"
    by (auto simp: step_done_def sched_inv_def)
  have "i \<notin># members (sd_skipped s')" if n: "(rid, n) \<in> set (so_num_scheduled_tokens out)" and i: "(rid, i) \<in> set (sd_requests s')" for rid n i
  proof -
    obtain j where j: "rid = rid_of s' j" "j \<in> set (sd_running s')" using keys [OF n] by blast
    then have "(rid, j) \<in> set (sd_requests s')" using placed_in_table [OF p, of j] by simp
    then have "i = j" using i p by (metis map_of_is_SomeI option.inject placed_def requests_ok_def)
    then show ?thesis using j(2) placed_distinct(2) [OF p, of j] by (simp add: queued_def)
  qed
  moreover have "plain s'" "requests_ready s'"
    using inv obj requests_ready_same [OF obj] by (simp_all add: engine_inv_def plain_def same_objects_def ident_def)
  ultimately show ?thesis using p len by (auto simp: engine_inv_def sched_inv_def)
qed

lemma results_inv:
  assumes inv: "engine_inv cf s (Some out)" and h: "hasher_ok (se_hasher env)"
    and u: "update_from_output env cf out mo s = Inr (outs, ev, s')"
  shows "engine_inv cf s' None"
proof -
  have "remains s s'" using res_allD [OF update_from_output_ok [OF _ _ h] u] inv by (auto simp: engine_inv_def sched_inv_def)
  then have R: "placed {#} s'" "plain s'" "length (sd_running s') \<le> length (sd_running s)" "set (sd_requests s') \<subseteq> set (sd_requests s)"
    "km_shape (sd_kv s') = km_shape (sd_kv s)" "\<And>j. prefix (all_token_ids (sd_store s j)) (all_token_ids (sd_store s' j))"
    by (simp_all add: remains_def)
  have "all_token_ids (sd_store s' i) \<noteq> []" if "(rid, i) \<in> set (sd_requests s')" for rid i
  proof -
    have "(rid, i) \<in> set (sd_requests s)" using that R(4) by blast
    then have "all_token_ids (sd_store s i) \<noteq> []" using inv by (auto simp: engine_inv_def requests_ready_def)
    then show ?thesis using R(6) [of i] by auto
  qed
  then have "requests_ready s'" using inv R(5) by (auto simp: requests_ready_def engine_inv_def specs_ok_def km_shape_def)
  then show ?thesis using R inv by (simp add: engine_inv_def sched_inv_def)
qed

lemma finish_inv:
  assumes inv: "engine_inv cf s p" and ids: "case ids of None \<Rightarrow> True | Some l \<Rightarrow> distinct l"
    and f: "finish_requests env ids fs s = Inr (res, s')"
  shows "engine_inv cf s' p"
proof -
  have p: "placed {#} s" using inv by (simp add: engine_inv_def sched_inv_def)
  note F = finish_requests_ok [OF p ids f]
  have len: "length (sd_running s') \<le> cf_max_num_running_reqs cf"
    unfolding F(2) using inv length_filter_le le_trans unfolding engine_inv_def sched_inv_def by blast
  have plain: "plain s'" using inv F(5,7) by (auto simp: engine_inv_def plain_def)
  have "requests_ready s'" using inv F(5,7,9) by (auto simp: engine_inv_def requests_ready_def specs_ok_def km_shape_def)
  moreover have "i \<notin># members (sd_skipped s')" if "p = Some out" "(rid, n) \<in> set (so_num_scheduled_tokens out)" "(rid, i) \<in> set (sd_requests s')" for out rid n i
    using inv that F(4,7) by (fastforce simp: engine_inv_def)
  ultimately show ?thesis using F(1) len plain by (auto simp: engine_inv_def sched_inv_def)
qed

lemma add_inv:
  assumes inv: "engine_inv cf s p" and new: "map_of (sd_requests s) (request_id r) = None" "i \<notin> snd ` set (sd_requests s)"
    and out: "\<And>out. p = Some out \<Longrightarrow> request_id r \<notin> fst ` set (so_num_scheduled_tokens out)"
    and r: "waiting_status (status r)" "\<not> resumable r" "all_token_ids r \<noteq> []" and a: "sched_add_request env i r s = Inr s'"
  shows "engine_inv cf s' p"
proof -
  have p: "placed {#} s" using inv by (simp add: engine_inv_def sched_inv_def)
  note A = add_request_ok [OF p new r(1) a]
  have old: "j \<noteq> i" if "(rid, j) \<in> set (sd_requests s)" for rid j using that new(2) by force
  have plain: "plain s'" using inv A(3,4,9) old r(2) by (auto simp: engine_inv_def plain_def)
  have "requests_ready s'" using inv A(3,4,6,8) old r(3) by (auto simp: engine_inv_def requests_ready_def)
  moreover have "j \<notin># members (sd_skipped s')" if o: "p = Some ou" "(rid, n) \<in> set (so_num_scheduled_tokens ou)" and j: "(rid, j) \<in> set (sd_requests s')" for ou rid n j
  proof -
    have "rid \<noteq> request_id r" using out [OF o(1)] o(2) by force
    then have j': "(rid, j) \<in> set (sd_requests s)" using j A(3) by auto
    then have "j \<notin># members (sd_skipped s)" using inv o by (auto simp: engine_inv_def)
    then show ?thesis using A(10) old [OF j'] by blast
  qed
  ultimately show ?thesis using A(1,2) inv plain by (auto simp: engine_inv_def sched_inv_def)
qed

lemma pause_inv: "engine_inv cf s p \<Longrightarrow> engine_inv cf (set_pause_state ps s) p"
  by (auto simp: engine_inv_def set_pause_state_def sched_inv_def placed_def requests_ok_def queued_def unfinished_def plain_def requests_ready_def)

lemma reset_inv:
  assumes inv: "engine_inv cf s p" and r: "sched_reset_prefix_cache env rr rc s = Inr (ok, s')"
  shows "engine_inv cf s' p"
proof -
  have p: "placed {#} s" using inv by (simp add: engine_inv_def sched_inv_def)
  note R = reset_prefix_cache_ok [OF r p]
  have "length (sd_running s') \<le> length (sd_running s)" using R(4,5) by (cases rr) simp_all
  then show ?thesis using R(1,2,3) by (intro engine_inv_same [OF inv]) simp_all
qed

lemma reset_encoder_quiet: "quiet s (reset_encoder_cache s)"
  by (simp add: reset_encoder_cache_def quiet_def same_objects_def same_status_def)

lemma engine_keeps_inv:
  assumes "engine env cf s p" and h: "hasher_ok (se_hasher env)" and cf: "0 < cf_cache_block_size cf" "0 \<le> cf_max_num_scheduled_tokens cf"
  shows "engine_inv cf s p"
  using assms(1)
proof (induction rule: engine.induct)
  case (init kv finished_set enc_size con st)
  then show ?case by (rule init_inv)
next
  case (add s p r i s')
  then show ?case by (intro add_inv [OF add.IH])
next
  case (finish s p ids fs res s')
  then show ?case by (intro finish_inv [OF finish.IH])
next
  case (step s out s')
  then show ?case by (intro step_inv [OF step.IH _ cf])
next
  case (results s out mo outs ev s')
  then show ?case by (intro results_inv [OF results.IH h])
next
  case (reset s p rr rc ok s')
  then show ?case by (intro reset_inv [OF reset.IH])
qed (auto intro: pause_inv engine_inv_quiet [OF _ update_draft_token_ids_quiet] engine_inv_quiet [OF _ reset_encoder_quiet])

end
