(* ===== verification/Scheduler_Properties.thy ===== *)
theory Scheduler_Properties
  imports Scheduler_Engine Scheduler_Example Scheduler_Step
begin

text \<open>
  What the scheduler promises the engine, for single operations and for every reachable state, with the evaluated example.
\<close>

section \<open>The example, reached\<close>

text \<open>One request of one token; the model length allows one token more, so it ends with the first token it gets.\<close>

abbreviation example_cf :: sched_config where
  "example_cf \<equiv> example_sched_config FCFS 2"

definition example_one :: "unit scheduler" where
  "example_one = (case sched_add_request example_sched_env 0 (example_new 0 ''a'' [1]) (example_start example_cf) of
     Inr s \<Rightarrow> s | Inl e \<Rightarrow> example_start example_cf)"

definition example_results :: model_runner_output where
  "example_results = \<lparr>mo_sampled_token_ids = [[9, 8]], mo_req_id_to_index = [(''a'', 0)], mo_pooler_output = [],
     mo_prompt_logprobs = [], mo_kv_connector_output = None\<rparr>"

lemma step_returns: "(case x of Some (Inr (a, b)) \<Rightarrow> P a b | _ \<Rightarrow> False) \<longleftrightarrow> (\<exists>a b. x = Some (Inr (a, b)) \<and> P a b)"
  by (auto split: option.splits sum.splits)

lemma update_returns: "(case x of Inr (a, b, c) \<Rightarrow> P a b c | _ \<Rightarrow> False) \<longleftrightarrow> (\<exists>a b c. x = Inr (a, b, c) \<and> P a b c)"
  by (auto split: sum.splits)

lemma pair_returns: "(case x of Inr (a, b) \<Rightarrow> P a b | _ \<Rightarrow> False) \<longleftrightarrow> (\<exists>a b. x = Inr (a, b) \<and> P a b)"
  by (auto split: sum.splits)

lemma example_hasher_ok: "hasher_ok (se_hasher example_sched_env)"
  by (simp add: example_sched_env_def request_block_hasher_ok)

lemma example_config_ok: "0 < cf_cache_block_size example_cf" "0 \<le> cf_max_num_scheduled_tokens example_cf"
  by (simp_all add: example_sched_config_def)

lemma example_one_reached: "engine example_sched_env example_cf example_one None"
proof -
  let ?s = "example_start example_cf" and ?a = "example_new 0 ''a'' [1]"
  have "specs_ok example_manager" by code_simp
  then have start: "engine example_sched_env example_cf ?s None" unfolding example_start_def by (rule engine.init)
  have "case sched_add_request example_sched_env 0 ?a ?s of Inl e \<Rightarrow> False | Inr s1 \<Rightarrow> True" by code_simp
  then obtain s1 where s1: "sched_add_request example_sched_env 0 ?a ?s = Inr s1" by (auto split: sum.splits)
  have new: "map_of (sd_requests ?s) (request_id ?a) = None" "0 \<notin> snd ` set (sd_requests ?s)" by code_simp+
  have ready: "waiting_status (status ?a)" "\<not> resumable ?a" "all_token_ids ?a \<noteq> []" by code_simp+
  have "engine example_sched_env example_cf s1 None" by (rule engine.add [OF start new _ _ _ _ s1]) (simp_all add: ready)
  moreover have "example_one = s1" using s1 by (simp add: example_one_def)
  ultimately show ?thesis by simp
qed

lemma example_one_inv: "engine_inv example_cf example_one None"
  by (rule engine_keeps_inv [OF example_one_reached example_hasher_ok example_config_ok])

text \<open>The step runs the request, and its results finish it after the first of the two tokens.\<close>

lemma example_round:
  "\<exists>out s outs ev s'. schedule example_sched_env example_cf example_one = Some (Inr (out, s))
     \<and> engine example_sched_env example_cf s (Some out)
     \<and> update_from_output example_sched_env example_cf out example_results s = Inr (outs, ev, s')
     \<and> engine example_sched_env example_cf s' None
     \<and> sd_running s = [0] \<and> sd_requests s = [(''a'', 0)] \<and> sd_running s' = [] \<and> all_token_ids (sd_store s' 0) = [1, 9]"
proof -
  have "case schedule example_sched_env example_cf example_one of
      Some (Inr (out, s)) \<Rightarrow> sd_running s = [0] \<and> sd_requests s = [(''a'', 0)]
        \<and> (case update_from_output example_sched_env example_cf out example_results s of
            Inr (outs, ev, s') \<Rightarrow> sd_running s' = [] \<and> all_token_ids (sd_store s' 0) = [1, 9] | _ \<Rightarrow> False)
    | _ \<Rightarrow> False" by code_simp
  then obtain out s outs ev s' where s: "schedule example_sched_env example_cf example_one = Some (Inr (out, s))"
    and u: "update_from_output example_sched_env example_cf out example_results s = Inr (outs, ev, s')"
    and rest: "sd_running s = [0]" "sd_requests s = [(''a'', 0)]" "sd_running s' = []" "all_token_ids (sd_store s' 0) = [1, 9]"
    unfolding step_returns update_returns by blast
  have "sd_running example_one = []" by code_simp
  then have "\<forall>i \<in> set (sd_running example_one). not_ahead example_cf (sd_store example_one i)" by simp
  then have e: "engine example_sched_env example_cf s (Some out)" using s by (rule engine.step [OF example_one_reached])
  then show ?thesis using s u rest engine.results [OF e u] by blast
qed

section \<open>Single operations\<close>

text \<open>
  C30: \<^verbatim>\<open>finish_requests\<close> finishes exactly the requests it is asked to. Called with a set of identifiers (or with None for all), it
  gives the final status to the unfinished requests of the table with these identifiers and to no other, takes them out
  of the running list and of both waiting queues and nothing else out of them (the running requests keep their order), returns
  their identifiers and clients, and leaves every remaining unfinished request in exactly one queue.
\<close>

theorem finish_requests_correct:
  assumes "placed {#} s" and "case ids of None \<Rightarrow> True | Some l \<Rightarrow> distinct l"
    and "finish_requests env ids fs s = Inr (res, s')"
    and T: "T = {i. (rid_of s i, i) \<in> set (sd_requests s) \<and> \<not> is_finished (sd_store s i)
                  \<and> (case ids of None \<Rightarrow> True | Some l \<Rightarrow> rid_of s i \<in> set l)}"
  shows "placed {#} s' \<and> sd_running s' = filter (\<lambda>i. i \<notin> T) (sd_running s)
    \<and> members (sd_waiting s') = filter_mset (\<lambda>i. i \<notin> T) (members (sd_waiting s))
    \<and> members (sd_skipped s') = filter_mset (\<lambda>i. i \<notin> T) (members (sd_skipped s))
    \<and> sd_store s' = (\<lambda>j. if j \<in> T then (sd_store s j)\<lparr>status := fs\<rparr> else sd_store s j)
    \<and> set res = (\<lambda>i. (rid_of s i, client_index (sd_store s i))) ` T
    \<and> set (sd_requests s') \<subseteq> set (sd_requests s)"
proof -
  have "T = finish_targets ids s" by (simp add: T finish_targets_def)
  then show ?thesis using finish_requests_ok(1-7) [OF assms(1-3)] by blast
qed

theorem finish_requests_correct_witness:
  "\<exists>res s'. finish_requests example_sched_env (Some [''b'', ''x'']) FINISHED_ABORTED example_two = Inr (res, s')
     \<and> members (sd_waiting s') = {#0#} \<and> set res = {(''b'', 0)}"
proof -
  let ?s = "example_two" and ?l = "[''b'', ''x'']"
  define T where "T = {i. (rid_of ?s i, i) \<in> set (sd_requests ?s) \<and> \<not> is_finished (sd_store ?s i)
    \<and> (case Some ?l of None \<Rightarrow> True | Some l \<Rightarrow> rid_of ?s i \<in> set l)}"
  have "case finish_requests example_sched_env (Some ?l) FINISHED_ABORTED ?s of Inr (res, s') \<Rightarrow> True | _ \<Rightarrow> False" by code_simp
  then obtain res s' where f: "finish_requests example_sched_env (Some ?l) FINISHED_ABORTED ?s = Inr (res, s')" unfolding pair_returns by blast
  have p: "placed {#} ?s" using example_schedulable by (simp add: schedulable_def sched_inv_def)
  have req: "sd_requests ?s = [(''a'', 0), (''b'', 1)]" by code_simp
  have id: "rid_of ?s 0 = ''a''" "rid_of ?s 1 = ''b''" "\<not> is_finished (sd_store ?s 1)" "client_index (sd_store ?s 1) = 0" by code_simp+
  have T: "T = {1}" using id by (auto simp: T_def req)
  have "members (sd_waiting ?s) = {#0, 1#}" by code_simp
  then show ?thesis using finish_requests_correct [OF p _ f T_def] f id T by auto
qed

text \<open>
  C31: the tokens of a step are taken up to the first stop. \<^verbatim>\<open>_update_request_with_output\<close> appends the new tokens one by one and keeps those
  up to and including the first one after which \<^verbatim>\<open>check_stop\<close> ends the request: the kept tokens are an initial part of the new ones, they are what
  the request's output and its token list grow by, all of them are kept unless the request stopped, and a
  stopped request is finished. A request that goes on is still below its minimum of output tokens or below the model length. \<open>with_tokens r ts\<close> is
  the request with the tokens \<open>ts\<close> and \<open>stops\<close> the answer of \<^verbatim>\<open>check_stop\<close>.
\<close>

theorem append_until_stop_correct:
  assumes "append_until_stop hasher max_len toks [] r = Inr (kept, stopped, r')" "hasher_ok hasher"
  shows "prefix kept toks \<and> output_token_ids r' = output_token_ids r @ kept \<and> all_token_ids r' = all_token_ids r @ kept
    \<and> request_id r' = request_id r \<and> num_computed_tokens r' = num_computed_tokens r
    \<and> (if stopped then kept \<noteq> [] \<and> is_finished r'
       else kept = toks \<and> status r' = status r
         \<and> (toks = [] \<or> (\<exists>sp. sampling_params r = Some sp \<and> (int (num_output_tokens r') < min_tokens sp \<or> int (num_tokens r') < max_len))))
    \<and> (\<forall>m. 0 < m \<and> m < length kept \<longrightarrow> stops (with_tokens r (take m toks)) max_len = Some False)
    \<and> (toks \<noteq> [] \<longrightarrow> stops (with_tokens r kept) max_len = Some stopped)"
proof -
  obtain n where n: "n \<le> length toks" "kept = [] @ take n toks" "took (take n toks) r r'"
    "if stopped then 0 < n \<and> is_finished r' else n = length toks \<and> status r' = status r
      \<and> (toks \<noteq> [] \<longrightarrow> (\<exists>sp. sampling_params r = Some sp \<and> (int (num_output_tokens r') < min_tokens sp \<or> int (num_tokens r') < max_len)))"
    using append_until_stop_ok [OF assms] by blast
  have tests: "(\<forall>m. 0 < m \<and> m < length kept \<longrightarrow> stops (with_tokens r (take m toks)) max_len = Some False)
    \<and> (toks \<noteq> [] \<longrightarrow> stops (with_tokens r kept) max_len = Some stopped)"
    using append_until_stop_tests [of hasher max_len toks "[]" r kept stopped r'] assms by simp
  have "prefix kept toks" using n(2) by (simp add: take_is_prefix)
  moreover have "if stopped then kept \<noteq> [] \<and> is_finished r' else kept = toks \<and> status r' = status r
      \<and> (toks = [] \<or> (\<exists>sp. sampling_params r = Some sp \<and> (int (num_output_tokens r') < min_tokens sp \<or> int (num_tokens r') < max_len)))"
    using n(1,2,4) by (auto split: if_splits)
  ultimately show ?thesis using took_fields(1,3,4,5) [OF n(3)] n(2) tests by simp
qed

theorem append_until_stop_correct_witness:
  "\<exists>kept r'. append_until_stop None 6 [7, 8, 9] [] (example_request [1, 2, 3, 4]) = Inr (kept, True, r')
     \<and> kept = [7, 8] \<and> all_token_ids r' = [1, 2, 3, 4, 7, 8] \<and> is_finished r'"
proof -
  have "case append_until_stop None 6 [7, 8, 9] [] (example_request [1, 2, 3, 4]) of
    Inr (kept, stopped, r') \<Rightarrow> stopped \<and> kept = [7, 8] | _ \<Rightarrow> False" by code_simp
  then obtain kept r' where a: "append_until_stop None 6 [7, 8, 9] [] (example_request [1, 2, 3, 4]) = Inr (kept, True, r')" "kept = [7, 8]"
    unfolding update_returns by auto
  have "hasher_ok None" "all_token_ids (example_request [1, 2, 3, 4]) = [1, 2, 3, 4]" by (simp add: hasher_ok_def) code_simp
  then show ?thesis using append_until_stop_correct [OF a(1)] a by (auto simp del: append_until_stop.simps)
qed

text \<open>
  \<^verbatim>\<open>reset_prefix_cache\<close> preempts in the order of arrival. With \<^verbatim>\<open>reset_running_requests\<close> a successful call leaves no request running; all of them are back in
  the waiting queue, under first-come-first-served in front of the requests that already waited and in the order in which they
  were running. Without it the queues do not change. In both cases every unfinished request stays in exactly one queue.
\<close>

theorem reset_prefix_cache_order:
  assumes "placed {#} s" "sched_reset_prefix_cache env reset_running reset_connector s = Inr (ok, s')"
  shows "placed {#} s' \<and> sd_requests s' = sd_requests s \<and> sd_skipped s' = sd_skipped s
    \<and> (if reset_running
       then sd_running s' = [] \<and> members (sd_waiting s') = mset (sd_running s) + members (sd_waiting s)
         \<and> (\<forall>q. sd_waiting s = FCFSRequestQueue q \<longrightarrow> sd_waiting s' = FCFSRequestQueue (sd_running s @ q))
       else sd_running s' = sd_running s \<and> sd_waiting s' = sd_waiting s)"
  using reset_prefix_cache_ok [OF assms(2,1)] by (simp add: same_objects_def)

theorem reset_prefix_cache_order_witness:
  "\<exists>out s ok s'. schedule example_sched_env example_cf example_one = Some (Inr (out, s)) \<and> sd_running s = [0]
     \<and> sched_reset_prefix_cache example_sched_env True False s = Inr (ok, s') \<and> sd_running s' = [] \<and> members (sd_waiting s') = {#0#}"
proof -
  have "case schedule example_sched_env example_cf example_one of
      Some (Inr (out, s)) \<Rightarrow> sd_running s = [0] \<and> members (sd_waiting s) = {#}
        \<and> (case sched_reset_prefix_cache example_sched_env True False s of Inr (ok, s') \<Rightarrow> True | _ \<Rightarrow> False)
    | _ \<Rightarrow> False" by code_simp
  then obtain out s ok s' where s: "schedule example_sched_env example_cf example_one = Some (Inr (out, s))"
    and r: "sd_running s = [0]" "members (sd_waiting s) = {#}" "sched_reset_prefix_cache example_sched_env True False s = Inr (ok, s')"
    unfolding step_returns by (auto simp: pair_returns)
  have "sd_running example_one = []" by code_simp
  then have "engine_inv example_cf s (Some out)" using s by (intro step_inv [OF example_one_inv _ example_config_ok]) simp_all
  then have "placed {#} s" by (simp add: engine_inv_def sched_inv_def)
  then show ?thesis using reset_prefix_cache_order [OF _ r(3)] s r by auto
qed

text \<open>
  C28: the results of a step lose no request and no token. After \<^verbatim>\<open>update_from_output\<close> returns, with tokens, pooling results, rejected drafts,
  failed and finished transfers of any kind, the accounts hold again: every unfinished request of the table is in exactly one of the queues
  with the status that belongs there, and no finished request is left in a queue. No request starts running, the table gains no entry, and
  the tokens of every request only grow. The scheduled requests are those of the step; none of them
  waits in the queue of the skipped requests, and no request is a streaming session.
\<close>

theorem update_from_output_keeps_requests:
  assumes "sched_inv cf s" "plain s" "hasher_ok (se_hasher env)"
    and "\<forall>(rid, n) \<in> set (so_num_scheduled_tokens out). \<forall>i. (rid, i) \<in> set (sd_requests s) \<longrightarrow> i \<notin># members (sd_skipped s)"
    and "update_from_output env cf out mo s = Inr (outs, ev, s')"
  shows "sched_inv cf s' \<and> set (sd_running s') \<subseteq> set (sd_running s) \<and> set (sd_requests s') \<subseteq> set (sd_requests s)
    \<and> mset (sd_running s') + members (sd_waiting s') + members (sd_skipped s')
        = mset (filter (\<lambda>i. \<not> is_finished (sd_store s' i)) (map snd (sd_requests s')))
    \<and> (\<forall>i. rid_of s' i = rid_of s i \<and> prefix (all_token_ids (sd_store s i)) (all_token_ids (sd_store s' i)))"
proof -
  have "placed {#} s" using assms(1) by (simp add: sched_inv_def)
  then have R: "remains s s'" using res_allD [OF update_from_output_ok [OF _ assms(2,3,4)] assms(5)] by simp
  then have "mset (sd_running s') + queued s' = unfinished s'" by (simp add: remains_def placed_def)
  then have "mset (sd_running s') + members (sd_waiting s') + members (sd_skipped s') = unfinished s'" by (simp add: queued_def add.assoc)
  then show ?thesis using R assms(1) by (simp add: remains_def sched_inv_def unfinished_def)
qed

theorem update_from_output_keeps_requests_witness:
  "\<exists>out s outs ev s'. update_from_output example_sched_env example_cf out example_results s = Inr (outs, ev, s')
     \<and> sd_running s = [0] \<and> sched_inv example_cf s' \<and> sd_running s' = []
     \<and> prefix (all_token_ids (sd_store s 0)) [1, 9]"
proof -
  obtain out s outs ev s' where e: "engine example_sched_env example_cf s (Some out)"
    and u: "update_from_output example_sched_env example_cf out example_results s = Inr (outs, ev, s')"
    and run: "sd_running s = [0]" "sd_running s' = []" "all_token_ids (sd_store s' 0) = [1, 9]" using example_round by blast
  have inv: "engine_inv example_cf s (Some out)" by (rule engine_keeps_inv [OF e example_hasher_ok example_config_ok])
  then have "sched_inv example_cf s" "plain s"
    "\<forall>(rid, n) \<in> set (so_num_scheduled_tokens out). \<forall>i. (rid, i) \<in> set (sd_requests s) \<longrightarrow> i \<notin># members (sd_skipped s)"
    by (simp_all add: engine_inv_def)
  from update_from_output_keeps_requests [OF this(1,2) example_hasher_ok this(3) u]
  have "sched_inv example_cf s'" "prefix (all_token_ids (sd_store s 0)) (all_token_ids (sd_store s' 0))" by blast+
  then show ?thesis using u run by metis
qed

section \<open>Every reachable state\<close>

text \<open>
  C29: the scheduler's state is well formed whenever the engine can see it. Requests are added, finished or aborted, steps are scheduled and their results
  come back, drafts arrive, the caches are reset and scheduling is paused and resumed, in any order in which
  a step follows the results of the last. In every state reached so, the table maps each identifier to the one request that
  carries it, a running request has the status RUNNING, a queued one a status of the waiting kind, and no
  request occurs twice in the running list or in the queues. A new request has an unused identifier, is not a streaming session and
  has tokens; a step starts when no running request has computed more tokens than it has or has filled the model length.
\<close>

theorem engine_well_formed:
  assumes "engine env cf s p" "hasher_ok (se_hasher env)" "0 < cf_cache_block_size cf" "0 \<le> cf_max_num_scheduled_tokens cf"
  shows "(\<forall>rid i. map_of (sd_requests s) rid = Some i \<longrightarrow> rid_of s i = rid \<and> all_token_ids (sd_store s i) \<noteq> [])
    \<and> (\<forall>i \<in> set (sd_running s). status (sd_store s i) = RUNNING)
    \<and> (\<forall>i \<in># members (sd_waiting s) + members (sd_skipped s). waiting_status (status (sd_store s i)))
    \<and> (\<forall>i. count (mset (sd_running s) + members (sd_waiting s) + members (sd_skipped s)) i \<le> 1)"
proof -
  have inv: "engine_inv cf s p" by (rule engine_keeps_inv [OF assms])
  then have p: "placed {#} s" and r: "requests_ready s" by (simp_all add: engine_inv_def sched_inv_def)
  have "rid_of s i = rid \<and> all_token_ids (sd_store s i) \<noteq> []" if "map_of (sd_requests s) rid = Some i" for rid i
    using map_of_SomeD [OF that] p r by (auto simp: placed_def requests_ok_def requests_ready_def)
  moreover have "count (mset (sd_running s) + members (sd_waiting s) + members (sd_skipped s)) i \<le> 1" for i
    using p placed_iff_settled [of s] by (simp add: settled_def queued_def add.assoc)
  moreover have "\<forall>i \<in> set (sd_running s). status (sd_store s i) = RUNNING"
    "\<forall>i \<in># members (sd_waiting s) + members (sd_skipped s). waiting_status (status (sd_store s i))"
    using p by (simp_all add: placed_def queued_def)
  ultimately show ?thesis by blast
qed

theorem engine_well_formed_witness:
  "\<exists>s out. engine example_sched_env example_cf s (Some out) \<and> sd_running s = [0]
     \<and> (\<forall>rid i. map_of (sd_requests s) rid = Some i \<longrightarrow> rid_of s i = rid) \<and> (\<forall>i \<in> set (sd_running s). status (sd_store s i) = RUNNING)"
proof -
  obtain out s where e: "engine example_sched_env example_cf s (Some out)" "sd_running s = [0]" using example_round by blast
  show ?thesis using engine_well_formed [OF e(1) example_hasher_ok example_config_ok] e by blast
qed

text \<open>
  C4: in the engine's loop no request is lost and every step returns. The relation \<open>engine\<close> adds requests that are not streaming
  sessions, with fresh identifiers and at least one token, has one step in flight at a time, and starts a step only
  when no running request is ahead of its tokens (\<open>not_ahead\<close>). In every state reached so the running and the queued requests are
  together exactly the unfinished requests of the table, each counted once, and at most \<^verbatim>\<open>max_num_running_reqs\<close> run. In a state without pending results and
  with no running request ahead of its tokens, \<^verbatim>\<open>schedule\<close> terminates, and each number of tokens it schedules belongs to a running request.
\<close>

theorem engine_loses_no_request:
  assumes "engine env cf s p" "hasher_ok (se_hasher env)" "0 < cf_cache_block_size cf" "0 \<le> cf_max_num_scheduled_tokens cf"
  shows "mset (sd_running s) + members (sd_waiting s) + members (sd_skipped s)
      = mset (filter (\<lambda>i. \<not> is_finished (sd_store s i)) (map snd (sd_requests s)))
    \<and> length (sd_running s) \<le> cf_max_num_running_reqs cf
    \<and> (p = None \<and> (\<forall>i \<in> set (sd_running s). not_ahead cf (sd_store s i)) \<longrightarrow>
         (\<exists>r. schedule env cf s = Some r \<and> (\<forall>out s'. r = Inr (out, s') \<longrightarrow>
            fst ` set (so_num_scheduled_tokens out) \<subseteq> rid_of s' ` set (sd_running s'))))"
proof -
  have inv: "engine_inv cf s p" by (rule engine_keeps_inv [OF assms])
  then have p: "placed {#} s" and len: "length (sd_running s) \<le> cf_max_num_running_reqs cf" by (simp_all add: engine_inv_def sched_inv_def)
  have step: "\<exists>r. schedule env cf s = Some r \<and> (\<forall>out s'. r = Inr (out, s') \<longrightarrow> fst ` set (so_num_scheduled_tokens out) \<subseteq> rid_of s' ` set (sd_running s'))"
    if na: "\<forall>i \<in> set (sd_running s). not_ahead cf (sd_store s i)"
  proof -
    have "schedulable cf s" using inv na assms(3,4) by (simp add: schedulable_def engine_inv_def)
    then obtain r where "schedule env cf s = Some r" "res_all (\<lambda>(out, s'). step_done cf s out s') r"
      using schedule_ok [of cf s env] by (auto simp: ends_def)
    then show ?thesis by (fastforce simp: step_done_def dest: res_allD)
  qed
  have "mset (sd_running s) + members (sd_waiting s) + members (sd_skipped s) = unfinished s"
    using p by (simp add: placed_def queued_def add.assoc)
  then show ?thesis using len step by (simp add: unfinished_def)
qed

theorem engine_loses_no_request_witness:
  "engine example_sched_env example_cf example_one None
     \<and> mset (sd_running example_one) + members (sd_waiting example_one) + members (sd_skipped example_one) = {#0#}
     \<and> mset (filter (\<lambda>i. \<not> is_finished (sd_store example_one i)) (map snd (sd_requests example_one))) = {#0#}
     \<and> (\<exists>r. schedule example_sched_env example_cf example_one = Some r)"
proof -
  have "sd_running example_one = []" "members (sd_waiting example_one) = {#0#}" "members (sd_skipped example_one) = {#}" by code_simp+
  then show ?thesis using engine_loses_no_request [OF example_one_reached example_hasher_ok example_config_ok] example_one_reached by auto
qed

end
