(* ===== verification/Scheduler_Corners.thy ===== *)
theory Scheduler_Corners
  imports Scheduler_Properties
begin

text \<open>
  Corner cases of the scheduler in which the code does not do what it means to: each is shown on the model, in general
  or on a small state.
\<close>

section \<open>Requests that are never scheduled again\<close>

text \<open>
  A running request is never given its token at position \<^verbatim>\<open>max_model_len - 1\<close>. A pooling prompt may have \<^verbatim>\<open>max_model_len\<close> tokens; when it is
  prefilled in chunks its last token is never scheduled.
\<close>

lemma last_position_never_scheduled:
  assumes "num_computed_tokens r \<le> cf_max_model_len cf - 1"
  shows "num_computed_tokens r + running_tokens cf r budget \<le> cf_max_model_len cf - 1"
  by (simp add: running_tokens_def Let_def)

lemma full_prompt_stalls:
  assumes "num_computed_tokens r = cf_max_model_len cf - 1" "cf_max_model_len cf \<le> int (num_tokens_with_spec r)"
    "0 \<le> num_output_placeholders r" "0 \<le> budget" "0 \<le> cf_long_prefill_token_threshold cf"
  shows "running_tokens cf r budget = 0"
  using assms by (auto simp: running_tokens_def Let_def)

text \<open>
  Below its minimum of output tokens a request is not stopped at the model length either: with a minimum beyond the
  context it fills the context, does not stop and gets no tokens.
\<close>

lemma minimum_beyond_context_stalls:
  assumes "sampling_params r = Some sp" "pooling_params r = None" "int (num_output_tokens r) < min_tokens sp"
    and "num_computed_tokens r = cf_max_model_len cf - 1" "cf_max_model_len cf \<le> int (num_tokens r)" "num_output_placeholders r = 0"
    and "0 \<le> budget" "0 \<le> cf_long_prefill_token_threshold cf"
  shows "check_stop r (cf_max_model_len cf) = Inr (False, r) \<and> running_tokens cf r budget = 0"
  using assms by (auto simp: check_stop_def running_tokens_def Let_def num_tokens_with_spec_def num_tokens_def)

section \<open>Preemption by priority\<close>

text \<open>
  The victim may be a running request that this step passed over (it is not in \<^verbatim>\<open>scheduled_running_reqs\<close>): it leaves the list before the
  current position, but the position stays, so the loop skips the request that follows the current one. Here request 0 is taken
  at position 1; request 2 moves to that position, and the loop goes on at position 2.
\<close>

lemma preemption_skips_request:
  defines "s \<equiv> (example_start (example_sched_config PRIORITY 64))
      \<lparr>sd_store := (\<lambda>i. (example_new i ''a'' [1])\<lparr>priority := (if i = 0 then 5 else 0)\<rparr>), sd_running := [0, 1, 2]\<rparr>"
    and "t \<equiv> (step_init (example_sched_config PRIORITY 64) (example_start (example_sched_config PRIORITY 64)))\<lparr>st_index := 1\<rparr>"
  shows "case take_victim (example_sched_config PRIORITY 64) t s of
    Inr (j, t', s') \<Rightarrow> j = 0 \<and> sd_running s' = [1, 2] \<and> st_index t' = 1 | Inl e \<Rightarrow> False"
  unfolding s_def t_def by code_simp

section \<open>Results for a preempted request\<close>

text \<open>The request has been preempted after its step was scheduled; the results of that step end it.\<close>

definition preempted_request :: "bool \<Rightarrow> request" where
  "preempted_request session = (example_new 0 ''a'' [1])\<lparr>status := PREEMPTED, resumable := session,
     streaming_queue := (if session then Some [Some \<lparr>su_mm_features = [], su_prompt_token_ids = Some [5], su_max_tokens = 1,
       su_arrival_time = 1, su_sampling_params = Some example_sampling\<rparr>] else None)\<rparr>"

definition preempted_state :: "bool \<Rightarrow> bool \<Rightarrow> unit scheduler" where
  "preempted_state session passed_over = (example_start example_cf)\<lparr>sd_store := (\<lambda>_. preempted_request session), sd_requests := [(''a'', 0)],
     sd_waiting := FCFSRequestQueue (if passed_over then [] else [0]), sd_skipped := FCFSRequestQueue (if passed_over then [0] else [])\<rparr>"

definition earlier_output :: scheduler_output where
  "earlier_output = \<lparr>so_scheduled_new_reqs = [], so_scheduled_cached_reqs = \<lparr>cr_req_ids = [], cr_resumed_req_ids = [], cr_new_token_ids = [],
     cr_all_token_ids = [], cr_new_block_ids = [], cr_num_computed_tokens = [], cr_num_output_tokens = []\<rparr>,
     so_num_scheduled_tokens = [(''a'', 1)], so_total_num_scheduled_tokens = 1, so_scheduled_spec_decode_tokens = [],
     so_scheduled_encoder_inputs = [], so_num_common_prefix_blocks = [], so_finished_req_ids = [], so_free_encoder_mm_hashes = [],
     so_preempted_req_ids = [], so_has_structured_output_requests = False, so_pending_structured_output_tokens = False,
     so_num_invalid_spec_tokens = [], so_new_block_ids_to_zero = None\<rparr>"

text \<open>
  A streaming session with an update at hand continues: it is enqueued again, and then removed with the stopped requests. It stays in the table,
  unfinished and in no queue.
\<close>

lemma preempted_session_lost:
  "case update_from_output example_sched_env example_cf earlier_output example_results (preempted_state True False) of
     Inr (outs, ev, s) \<Rightarrow> sd_requests s = [(''a'', 0)] \<and> \<not> is_finished (sd_store s 0)
       \<and> sd_running s = [] \<and> sd_waiting s = FCFSRequestQueue [] \<and> sd_skipped s = FCFSRequestQueue []
   | Inl e \<Rightarrow> False"
  by code_simp

text \<open>
  A preempted request that a later step passed over waits among the skipped requests; only the other queue is searched, so
  the finished request stays queued after it has left the table.
\<close>

lemma stopped_request_left_in_skipped:
  "case update_from_output example_sched_env example_cf earlier_output example_results (preempted_state False True) of
     Inr (outs, ev, s) \<Rightarrow> sd_requests s = [] \<and> is_finished (sd_store s 0) \<and> sd_skipped s = FCFSRequestQueue [0]
   | Inl e \<Rightarrow> False"
  by code_simp

end
