(* ===== verification/Ngram_Proposer.thy ===== *)
theory Ngram_Proposer
  imports Prelude "HOL-Library.Multiset"
begin

text \<open>
  The n-gram proposer of src/vllm/vllm/v1/spec_decode/ngram_proposer.py: draft tokens for speculative decoding, copied from
  the place where the longest suffix of a request's tokens occurred before. The search is the prefix function of
  Knuth, Morris and Pratt on the reversed tokens, with the match length capped so that only a short table is kept.

  The kernels are compiled without bounds checks; the model raises \<open>IndexError\<close> wherever a read or write would be out of
  range, and the theorems show that this never happens. The number of threads is left out: \<^verbatim>\<open>prange\<close> may run its
  iterations in any order, and the result is shown not to depend on it.
\<close>

section \<open>The search\<close>

text \<open>The while loop; \<open>ts\<close> are the reversed tokens and \<open>m\<close> is \<^verbatim>\<open>max_ngram\<close>. \<open>None\<close> is a loop that does not end.\<close>

partial_function (option) ngram_loop ::
  "int list \<Rightarrow> nat \<Rightarrow> nat list \<Rightarrow> nat \<Rightarrow> nat \<Rightarrow> nat \<Rightarrow> nat \<Rightarrow> (nat \<times> nat) res option" where
  "ngram_loop ts m lps longest_ngram position prev_lps i =
     (if i < length ts
      then if length ts \<le> prev_lps then Some (Inl IndexError)
           else if ts ! prev_lps = ts ! i
           then (let prev = prev_lps + 1;
                     longer = (longest_ngram \<le> prev);
                     longest = (if longer then prev else longest_ngram);
                     pos = (if longer then i else position)
                 in if i < m \<and> length lps \<le> i then Some (Inl IndexError)
                    else let lps' = (if i < m then lps[i := prev] else lps)
                         in if prev = m
                            then if length lps' \<le> m - 1 then Some (Inl IndexError)
                                 else ngram_loop ts m lps' longest pos (lps' ! (m - 1)) (i + 1)
                            else ngram_loop ts m lps' longest pos prev (i + 1))
           else if prev_lps \<noteq> 0
           then if length lps \<le> prev_lps - 1 then Some (Inl IndexError)
                else ngram_loop ts m lps longest_ngram position (lps ! (prev_lps - 1)) i
           else ngram_loop ts m lps longest_ngram position prev_lps (i + 1)
      else Some (Inr (longest_ngram, position)))"

declare ngram_loop.simps [code]

definition find_longest_matched_ngram_and_propose_tokens ::
  "int list \<Rightarrow> int \<Rightarrow> int \<Rightarrow> int \<Rightarrow> int \<Rightarrow> int list res option" where
  "find_longest_matched_ngram_and_propose_tokens origin_tokens min_ngram max_ngram max_model_len k =
     (let total_token = length origin_tokens;
          k' = min k (max_model_len - int total_token)
      in if int total_token < min_ngram then Some (Inr [])
         else if k' \<le> 0 then Some (Inr [])
         else og (0 \<le> max_ngram) ValueError
           (ob (ngram_loop (rev origin_tokens) (nat max_ngram) (replicate (nat max_ngram) 0) 0 0 0 1)
             (\<lambda>(longest_ngram, position).
                if int longest_ngram < min_ngram then Some (Inr [])
                else let start = total_token - 1 - position + longest_ngram;
                         k'' = min k' (int total_token - int start)
                     in Some (Inr (py_slice start (start + nat k'') origin_tokens)))))"

section \<open>The proposer\<close>

record ngram_proposer =
  min_n :: int
  max_n :: int
  np_k :: int
  np_max_model_len :: int
  valid_ngram_draft :: "int list list"
  valid_ngram_num_drafts :: "nat list"

definition ngram_request :: "ngram_proposer \<Rightarrow> nat list \<Rightarrow> int list list \<Rightarrow> nat \<Rightarrow> ngram_proposer \<Rightarrow> ngram_proposer res option" where
  "ngram_request cf num_tokens_no_spec token_ids_cpu idx p =
     og (idx < length num_tokens_no_spec \<and> idx < length token_ids_cpu) IndexError
     (ob (find_longest_matched_ngram_and_propose_tokens (take (num_tokens_no_spec ! idx) (token_ids_cpu ! idx))
            (min_n cf) (max_n cf) (np_max_model_len cf) (np_k cf)) (\<lambda>out.
      og (idx < length (valid_ngram_num_drafts p)) IndexError
      (let p1 = p\<lparr>valid_ngram_num_drafts := (valid_ngram_num_drafts p)[idx := length out]\<rparr>
       in if out = [] then Some (Inr p1)
          else og (idx < length (valid_ngram_draft p)) IndexError
               (let row = valid_ngram_draft p ! idx
                in og (length out \<le> length row) ValueError
                   (Some (Inr (p1\<lparr>valid_ngram_draft := (valid_ngram_draft p)[idx := out @ drop (length out) row]\<rparr>)))))))"

fun batch_propose_numba :: "ngram_proposer \<Rightarrow> nat list \<Rightarrow> int list list \<Rightarrow> nat list \<Rightarrow> ngram_proposer \<Rightarrow> ngram_proposer res option" where
  "batch_propose_numba cf nums toks [] p = Some (Inr p)"
| "batch_propose_numba cf nums toks (idx # l) p = ob (ngram_request cf nums toks idx p) (batch_propose_numba cf nums toks l)"

definition collect_draft :: "nat list \<Rightarrow> ngram_proposer \<Rightarrow> nat \<Rightarrow> int list res" where
  "collect_draft valid p i =
     (if i \<in> set valid
      then guard (i < length (valid_ngram_num_drafts p)) IndexError
           (if 0 < valid_ngram_num_drafts p ! i
            then guard (i < length (valid_ngram_draft p)) IndexError
                 (Inr (take (valid_ngram_num_drafts p ! i) (valid_ngram_draft p ! i)))
            else Inr [])
      else Inr [])"

definition batch_propose :: "nat \<Rightarrow> nat list \<Rightarrow> nat list \<Rightarrow> int list list \<Rightarrow> ngram_proposer \<Rightarrow> (int list list \<times> ngram_proposer) res option" where
  "batch_propose num_requests valid nums toks p =
     ob (if valid \<noteq> [] then batch_propose_numba p nums toks valid p else Some (Inr p)) (\<lambda>p1.
     Some (res_bind (map_res (collect_draft valid p1) [0..<num_requests]) (\<lambda>drafts. Inr (drafts, p1))))"

definition select_request :: "int \<Rightarrow> int list list \<Rightarrow> nat list \<Rightarrow> nat \<Rightarrow> nat list \<Rightarrow> nat list res" where
  "select_request mml sampled nums i valid =
     (if sampled ! i = [] then Inr valid
      else guard (i < length nums) IndexError
           (if mml \<le> int (nums ! i) then Inr valid else Inr (valid @ [i])))"

definition propose :: "int list list \<Rightarrow> nat list \<Rightarrow> int list list \<Rightarrow> ngram_proposer \<Rightarrow> (int list list \<times> ngram_proposer) res option" where
  "propose sampled nums toks p =
     ob (Some (fold_res (select_request (np_max_model_len p) sampled nums) [0..<length sampled] [])) (\<lambda>valid.
     batch_propose (length sampled) valid nums toks p)"

text \<open>The constructor; the speculative configuration holds \<^verbatim>\<open>prompt_lookup_min\<close>, \<^verbatim>\<open>prompt_lookup_max\<close> and \<^verbatim>\<open>num_speculative_tokens\<close>.\<close>

definition proposer_init :: "(int option \<times> int option \<times> int) option \<Rightarrow> int \<Rightarrow> nat \<Rightarrow> ngram_proposer res option" where
  "proposer_init spec mml max_num_seqs =
     (case spec of
        Some (Some lo, Some hi, k) \<Rightarrow>
          og (0 \<le> k) ValueError
          (let p = \<lparr>min_n = lo, max_n = hi, np_k = k, np_max_model_len = mml,
                    valid_ngram_draft = replicate max_num_seqs (replicate (nat k) 0),
                    valid_ngram_num_drafts = replicate max_num_seqs 0\<rparr>
           in og (0 \<le> mml) ValueError
              (ob (propose (replicate 1024 []) (replicate 1024 0) (replicate 1024 (replicate (nat mml) 0)) p) (\<lambda>(_, p1).
               Some (Inr p1))))
      | _ \<Rightarrow> Some (Inl AssertionError))"

section \<open>Borders\<close>

text \<open>\<open>border ts v i\<close>: the first \<open>v\<close> tokens are a proper suffix of the first \<open>i\<close> tokens.\<close>

definition border :: "'a list \<Rightarrow> nat \<Rightarrow> nat \<Rightarrow> bool" where
  "border ts v i \<longleftrightarrow> v < i \<and> (\<forall>j < v. ts ! j = ts ! (i - v + j))"

lemma border_0 [simp]: "border ts 0 i \<longleftrightarrow> 0 < i"
  by (simp add: border_def)

lemma border_less: "border ts v i \<Longrightarrow> v < i"
  by (simp add: border_def)

text \<open>Two borders of one prefix are borders of each other, and a border grows by the token that follows it.\<close>

lemma border_nested:
  assumes "border ts v i" "border ts w i" "v < w"
  shows "border ts v w"
proof -
  have "ts ! j = ts ! (w - v + j)" if "j < v" for j
  proof -
    have "ts ! j = ts ! (i - v + j)" using assms(1) that by (simp add: border_def)
    moreover have "ts ! (w - v + j) = ts ! (i - w + (w - v + j))" using assms that by (auto simp: border_def)
    moreover have "i - w + (w - v + j) = i - v + j" using assms border_less [OF assms(2)] by simp
    ultimately show ?thesis by simp
  qed
  with assms(3) show ?thesis by (simp add: border_def)
qed

lemma border_through:
  assumes "border ts v w" "border ts w i"
  shows "border ts v i"
proof -
  have "ts ! j = ts ! (i - v + j)" if "j < v" for j
  proof -
    have "ts ! j = ts ! (w - v + j)" using assms(1) that by (simp add: border_def)
    also have "\<dots> = ts ! (i - w + (w - v + j))" using assms that by (auto simp: border_def)
    also have "i - w + (w - v + j) = i - v + j" using border_less [OF assms(1)] border_less [OF assms(2)] by simp
    finally show ?thesis .
  qed
  then show ?thesis using border_less [OF assms(1)] border_less [OF assms(2)] by (simp add: border_def)
qed

lemma border_Suc: "border ts (Suc v) (Suc i) \<longleftrightarrow> border ts v i \<and> ts ! v = ts ! i"
proof -
  have "(\<forall>j < Suc v. ts ! j = ts ! (Suc i - Suc v + j)) \<longleftrightarrow> (\<forall>j < v. ts ! j = ts ! (i - v + j)) \<and> ts ! v = ts ! (i - v + v)"
    by (auto simp: less_Suc_eq)
  then show ?thesis by (auto simp: border_def)
qed

text \<open>The longest border of a prefix, as the table stores it, and the best match ending before \<open>i\<close>.\<close>

definition longest_border :: "'a list \<Rightarrow> nat \<Rightarrow> nat \<Rightarrow> bool" where
  "longest_border ts v i \<longleftrightarrow> border ts v i \<and> (\<forall>w. border ts w i \<longrightarrow> w \<le> v)"

definition best_match :: "'a list \<Rightarrow> nat \<Rightarrow> nat \<Rightarrow> nat \<Rightarrow> nat \<Rightarrow> bool" where
  "best_match ts m i longest pos \<longleftrightarrow> longest \<le> m \<and> pos < i \<and> border ts longest (Suc pos)
     \<and> (\<forall>e < i. \<forall>v \<le> m. 0 < v \<and> border ts v (Suc e) \<longrightarrow> v \<le> longest \<and> (v = longest \<longrightarrow> e \<le> pos))"

definition search_inv :: "'a list \<Rightarrow> nat \<Rightarrow> nat list \<Rightarrow> nat \<Rightarrow> nat \<Rightarrow> nat \<Rightarrow> nat \<Rightarrow> bool" where
  "search_inv ts m lps longest pos prev i \<longleftrightarrow> length lps = m \<and> prev < m \<and> 0 < i \<and> border ts prev i
     \<and> (\<forall>v < m. border ts v i \<and> prev < v \<longrightarrow> i < length ts \<longrightarrow> ts ! v \<noteq> ts ! i)
     \<and> (\<forall>j < m. if j < i then longest_border ts (lps ! j) (Suc j) else lps ! j = 0)
     \<and> best_match ts m i longest pos"

lemma search_inv_init: "0 < m \<Longrightarrow> search_inv ts m (replicate m 0) 0 0 0 1"
  by (auto simp: search_inv_def best_match_def longest_border_def border_def)

text \<open>A mismatch: fall back to the longest border of the border.\<close>

lemma search_inv_fall_back:
  assumes inv: "search_inv ts m lps longest pos prev i" and i: "i < length ts" and ne: "ts ! prev \<noteq> ts ! i" and pos: "prev \<noteq> 0"
  shows "search_inv ts m lps longest pos (lps ! (prev - 1)) i" "lps ! (prev - 1) < prev" "prev - 1 < length lps"
proof -
  have b: "border ts prev i" "prev < m" "length lps = m" using inv by (auto simp: search_inv_def)
  have "prev - 1 < m" "prev - 1 < i" using b pos border_less [OF b(1)] by auto
  then have "longest_border ts (lps ! (prev - 1)) (Suc (prev - 1))" using inv by (simp add: search_inv_def)
  then have L: "longest_border ts (lps ! (prev - 1)) prev" using pos by simp
  then show less: "lps ! (prev - 1) < prev" by (simp add: longest_border_def border_def)
  show "prev - 1 < length lps" using b pos by simp
  have new: "border ts (lps ! (prev - 1)) i" using L b(1) border_through by (auto simp: longest_border_def)
  have "ts ! v \<noteq> ts ! i" if v: "v < m" "border ts v i" "lps ! (prev - 1) < v" for v
  proof (cases v prev rule: linorder_cases)
    case less
    then have "border ts v prev" using border_nested v(2) b(1) by blast
    then have "v \<le> lps ! (prev - 1)" using L by (simp add: longest_border_def)
    with v show ?thesis by simp
  next
    case equal with ne show ?thesis by simp
  next
    case greater with inv v i show ?thesis by (simp add: search_inv_def)
  qed
  with new less inv show "search_inv ts m lps longest pos (lps ! (prev - 1)) i" by (auto simp: search_inv_def)
qed

text \<open>The borders of the next prefix are the borders that the next token extends.\<close>

lemma next_borders:
  assumes inv: "search_inv ts m lps longest pos prev i" and i: "i < length ts" and v: "v \<le> m" "border ts v (Suc i)" "0 < v"
  shows "v \<le> Suc prev" "v = Suc prev \<Longrightarrow> ts ! prev = ts ! i"
proof -
  obtain w where w: "v = Suc w" using v(3) by (cases v) auto
  then have b: "border ts w i" "ts ! w = ts ! i" using v(2) by (auto simp: border_Suc)
  have "\<not> prev < w" using inv i b v(1) w by (auto simp: search_inv_def)
  then show "v \<le> Suc prev" using w by simp
  show "v = Suc prev \<Longrightarrow> ts ! prev = ts ! i" using b w by simp
qed

lemma best_matchD:
  "best_match ts m i longest pos \<Longrightarrow> e < i \<Longrightarrow> v \<le> m \<Longrightarrow> 0 < v \<Longrightarrow> border ts v (Suc e)
    \<Longrightarrow> v \<le> longest \<and> (v = longest \<longrightarrow> e \<le> pos)"
  unfolding best_match_def by blast

lemma search_inv_none:
  assumes inv: "search_inv ts m lps longest pos 0 i" and i: "i < length ts" and ne: "ts ! 0 \<noteq> ts ! i"
  shows "search_inv ts m lps longest pos 0 (Suc i)"
proof -
  have none: "v = 0" if "v \<le> m" "border ts v (Suc i)" for v
    using next_borders [OF inv i that] ne by (cases "v = 0") (auto simp: le_Suc_eq)
  have "longest_border ts (lps ! j) (Suc j)" if "j < m" "j < Suc i" for j
  proof (cases "j = i")
    case True
    then have "lps ! j = 0" using inv that by (simp add: search_inv_def)
    moreover have "w = 0" if "border ts w (Suc i)" for w using none that \<open>j < m\<close> True border_less [OF that] by simp
    ultimately show ?thesis using True by (auto simp: longest_border_def)
  next
    case False with inv that show ?thesis by (simp add: search_inv_def)
  qed
  moreover have "best_match ts m (Suc i) longest pos"
  proof -
    have B: "best_match ts m i longest pos" using inv by (simp add: search_inv_def)
    have all: "v \<le> longest \<and> (v = longest \<longrightarrow> e \<le> pos)" if "e < Suc i" "v \<le> m" "0 < v" "border ts v (Suc e)" for e v
      using that none [of v] best_matchD [OF B, of e v] by (cases "e = i") simp_all
    have "longest \<le> m" "pos < Suc i" "border ts longest (Suc pos)" using B by (auto simp: best_match_def)
    with all show ?thesis unfolding best_match_def by blast
  qed
  moreover have "\<not> (border ts v (Suc i) \<and> 0 < v)" if "v < m" for v using none [of v] that by auto
  ultimately show ?thesis using inv by (auto simp: search_inv_def)
qed

text \<open>A match: the border grows by one token, and falls back when it has reached the longest n-gram.\<close>

lemma best_match_step:
  assumes "best_match ts m i longest pos" "border ts (Suc prev) (Suc i)" "Suc prev \<le> m"
    and "\<And>v. v \<le> m \<Longrightarrow> border ts v (Suc i) \<Longrightarrow> v \<le> Suc prev"
  shows "best_match ts m (Suc i) (if longest \<le> Suc prev then Suc prev else longest) (if longest \<le> Suc prev then i else pos)"
proof (cases "longest \<le> Suc prev")
  case True
  have "v \<le> Suc prev" if "e < Suc i" "v \<le> m" "0 < v" "border ts v (Suc e)" for e v
    using that assms(4) [of v] best_matchD [OF assms(1), of e v] True by (cases "e = i") simp_all
  with True assms show ?thesis by (auto simp: best_match_def)
next
  case False
  have "v \<le> longest \<and> (v = longest \<longrightarrow> e \<le> pos)" if "e < Suc i" "v \<le> m" "0 < v" "border ts v (Suc e)" for e v
    using that best_matchD [OF assms(1), of e v] assms(4) [of v] False by (cases "e = i") simp_all
  with False assms(1) show ?thesis by (auto simp: best_match_def)
qed

lemma search_inv_match:
  assumes inv: "search_inv ts m lps longest pos prev i" and i: "i < length ts" and eq: "ts ! prev = ts ! i"
    and lps': "lps' = (if i < m then lps[i := Suc prev] else lps)"
  shows "search_inv ts m lps' (if longest \<le> Suc prev then Suc prev else longest) (if longest \<le> Suc prev then i else pos)
    (if Suc prev = m then lps' ! (m - 1) else Suc prev) (Suc i)"
proof -
  have b: "border ts (Suc prev) (Suc i)" "Suc prev \<le> m" and len: "length lps = m"
    using inv eq by (auto simp: search_inv_def border_Suc)
  have maximal: "v \<le> Suc prev" if "v \<le> m" "border ts v (Suc i)" for v
    using next_borders(1) [OF inv i that] by (cases "v = 0") auto
  have table: "longest_border ts (lps' ! j) (Suc j)" if "j < m" "j < Suc i" for j
  proof (cases "j = i")
    case True
    then have "lps' ! j = Suc prev" using lps' that len by simp
    moreover have "w \<le> Suc prev" if "border ts w (Suc i)" for w
      using maximal that border_less [OF that] True \<open>j < m\<close> by simp
    ultimately show ?thesis using True b by (simp add: longest_border_def)
  next
    case False with inv that lps' len show ?thesis by (simp add: search_inv_def)
  qed
  have zeros: "lps' ! j = 0" if "j < m" "\<not> j < Suc i" for j
    using inv that lps' by (auto simp: search_inv_def)
  have new: "border ts p (Suc i) \<and> p < m \<and> (\<forall>v < m. border ts v (Suc i) \<longrightarrow> v \<le> p)"
    if p: "p = (if Suc prev = m then lps' ! (m - 1) else Suc prev)" for p
  proof (cases "Suc prev = m")
    case True
    then have "m - 1 < m" "m - 1 < Suc i" using border_less [OF b(1)] by auto
    from table [OF this] have L: "longest_border ts p m" using p True by auto
    then have "border ts p (Suc i)" "p < m" using b(1) True border_through border_less by (auto simp: longest_border_def)
    moreover have "v \<le> p" if "v < m" "border ts v (Suc i)" for v
      using L border_nested [OF that(2) b(1)] that(1) True by (simp add: longest_border_def)
    ultimately show ?thesis by blast
  next
    case False with p b maximal show ?thesis by auto
  qed
  have "best_match ts m i longest pos" using inv by (simp add: search_inv_def)
  from best_match_step [OF this b maximal] table zeros new [OF refl] len lps' show ?thesis
    by (auto simp: search_inv_def)
qed

text \<open>The loop ends with the best match of all positions, and no access is out of range.\<close>

lemma ngram_loop_correct:
  assumes "search_inv ts m lps longest pos prev i" "i \<le> length ts"
  shows "\<exists>l p. ngram_loop ts m lps longest pos prev i = Some (Inr (l, p)) \<and> best_match ts m (length ts) l p"
  using assms
proof (induction "(length ts - i, prev)" arbitrary: lps longest pos prev i rule: wf_induct_rule [OF wf_lex_prod [OF wf_less wf_less]])
  case 1
  show ?case
  proof (cases "i < length ts")
    case False
    then have "i = length ts" using 1(3) by simp
    then show ?thesis using 1(2) by (subst ngram_loop.simps) (simp add: search_inv_def)
  next
    case i: True
    have b: "prev < i" "prev < m" "length lps = m" using 1(2) border_less by (auto simp: search_inv_def)
    consider (same) "ts ! prev = ts ! i" | (fall) "ts ! prev \<noteq> ts ! i" "prev \<noteq> 0" | (none) "ts ! prev \<noteq> ts ! i" "prev = 0" by blast
    then show ?thesis
    proof cases
      case same
      define lps' where "lps' = (if i < m then lps[i := Suc prev] else lps)"
      note inv = search_inv_match [OF 1(2) i same lps'_def]
      have "length lps' = m" using b by (simp add: lps'_def)
      moreover have "\<exists>l p. ngram_loop ts m lps' (if longest \<le> Suc prev then Suc prev else longest) (if longest \<le> Suc prev then i else pos)
          (if Suc prev = m then lps' ! (m - 1) else Suc prev) (Suc i) = Some (Inr (l, p)) \<and> best_match ts m (length ts) l p"
        by (rule 1(1) [OF _ inv]) (use i in auto)
      ultimately show ?thesis using i b same
        by (subst ngram_loop.simps) (auto simp: Let_def lps'_def split: if_splits)
    next
      case fall
      note s = search_inv_fall_back [OF 1(2) i fall]
      with 1(1) [OF _ s(1)] i b fall show ?thesis
        by (subst ngram_loop.simps) (auto simp: Let_def)
    next
      case none
      then have "search_inv ts m lps longest pos 0 (Suc i)" using search_inv_none 1(2) i by metis
      from 1(1) [OF _ this] i b none show ?thesis
        by (subst ngram_loop.simps) (auto simp: Let_def)
    qed
  qed
qed

section \<open>The draft\<close>

text \<open>\<open>occurs xs q v\<close>: the last \<open>v\<close> tokens also stand at position \<open>q\<close>, before the end.\<close>

definition occurs :: "'a list \<Rightarrow> nat \<Rightarrow> nat \<Rightarrow> bool" where
  "occurs xs q v \<longleftrightarrow> q + v < length xs \<and> take v (drop q xs) = drop (length xs - v) xs"

lemma occurs_nth: "occurs xs q v \<longleftrightarrow> q + v < length xs \<and> (\<forall>j < v. xs ! (q + j) = xs ! (length xs - v + j))"
  by (auto simp: occurs_def list_eq_iff_nth_eq)

lemma all_less_flip: "(\<forall>j < (v :: nat). P (v - 1 - j)) \<longleftrightarrow> (\<forall>j < v. P j)"
proof (intro iffI allI impI)
  show "P j" if "\<forall>j < v. P (v - 1 - j)" "j < v" for j using that(1) [rule_format, of "v - 1 - j"] that(2) by simp
qed simp

lemma border_rev:
  assumes e: "e < length xs"
  shows "border (rev xs) v (Suc e) \<longleftrightarrow> occurs xs (length xs - 1 - e) v"
proof -
  let ?n = "length xs" and ?q = "length xs - 1 - e"
  have "rev xs ! j = xs ! (?n - v + (v - 1 - j)) \<and> rev xs ! (Suc e - v + j) = xs ! (?q + (v - 1 - j))" if "v < Suc e" "j < v" for j
    using e that by (auto simp: rev_nth Suc_diff_le intro!: arg_cong [where f = "nth xs"])
  then have "border (rev xs) v (Suc e) \<longleftrightarrow> v < Suc e \<and> (\<forall>j < v. xs ! (?n - v + (v - 1 - j)) = xs ! (?q + (v - 1 - j)))"
    by (auto simp: border_def)
  also have "\<dots> \<longleftrightarrow> v < Suc e \<and> (\<forall>j < v. xs ! (?q + j) = xs ! (?n - v + j))"
    using all_less_flip [of v "\<lambda>j. xs ! (?n - v + j) = xs ! (?q + j)"] by (simp add: eq_commute)
  also have "\<dots> \<longleftrightarrow> occurs xs ?q v" using e by (auto simp: occurs_nth)
  finally show ?thesis .
qed

lemma best_match_occurs:
  assumes best: "best_match (rev xs) m (length xs) l p"
  shows "occurs xs (length xs - 1 - p) l" "l \<le> m"
    "occurs xs q v \<Longrightarrow> v \<le> m \<Longrightarrow> 0 < v \<Longrightarrow> v \<le> l \<and> (v = l \<longrightarrow> length xs - 1 - p \<le> q)"
proof -
  show "occurs xs (length xs - 1 - p) l" "l \<le> m" using best border_rev [of p xs l] by (auto simp: best_match_def)
  assume o: "occurs xs q v" "v \<le> m" "0 < v"
  have q: "q < length xs" "length xs - 1 - q < length xs" "length xs - 1 - (length xs - 1 - q) = q" using o(1) by (auto simp: occurs_def)
  then have "border (rev xs) v (Suc (length xs - 1 - q))" using border_rev [OF q(2)] o(1) by simp
  then have "v \<le> l \<and> (v = l \<longrightarrow> length xs - 1 - q \<le> p)" using best_matchD [OF best q(2) o(2,3)] by blast
  then show "v \<le> l \<and> (v = l \<longrightarrow> length xs - 1 - p \<le> q)" using q by auto
qed

text \<open>The longest suffix of at most \<open>hi\<close> tokens that occurred before, at its earliest place.\<close>

definition best_occurrence :: "'a list \<Rightarrow> int \<Rightarrow> nat \<Rightarrow> nat \<Rightarrow> bool" where
  "best_occurrence xs hi q v \<longleftrightarrow> occurs xs q v \<and> int v \<le> hi
     \<and> (\<forall>q' v'. occurs xs q' v' \<and> int v' \<le> hi \<longrightarrow> v' \<le> v \<and> (v' = v \<and> 0 < v \<longrightarrow> q \<le> q'))"

lemma best_match_best_occurrence:
  assumes best: "best_match (rev xs) (nat hi) (length xs) l p" and hi: "0 \<le> hi"
  shows "best_occurrence xs hi (length xs - 1 - p) l"
proof -
  note B = best_match_occurs [OF best]
  have "v \<le> l \<and> (v = l \<and> 0 < l \<longrightarrow> length xs - 1 - p \<le> q)" if "occurs xs q v" "int v \<le> hi" for q v
    using B(3) [OF that(1)] that(2) by (cases "v = 0") auto
  moreover have "int l \<le> hi" using B(2) hi by simp
  ultimately show ?thesis using B(1) unfolding best_occurrence_def by blast
qed

lemma draft_found:
  assumes n: "1 \<le> lo" "lo \<le> hi" "lo \<le> int (length xs)" and k: "0 < min k (mml - int (length xs))"
  shows "\<exists>q v. best_occurrence xs hi q v \<and> find_longest_matched_ngram_and_propose_tokens xs lo hi mml k
      = Some (Inr (if int v < lo then [] else take (nat (min k (mml - int (length xs)))) (drop (q + v) xs)))"
proof -
  let ?m = "nat hi" and ?k = "min k (mml - int (length xs))"
  have "search_inv (rev xs) ?m (replicate ?m 0) 0 0 0 1" using n by (intro search_inv_init) simp
  moreover have "1 \<le> length (rev xs)" using n by simp
  ultimately obtain l p where lp: "ngram_loop (rev xs) ?m (replicate ?m 0) 0 0 0 1 = Some (Inr (l, p))" "best_match (rev xs) ?m (length xs) l p"
    using ngram_loop_correct by force
  let ?q = "length xs - 1 - p"
  have "take (nat (min ?k (int (length xs) - int (?q + l)))) (drop (?q + l) xs) = take (nat ?k) (drop (?q + l) xs)"
    by (cases "?k \<le> int (length xs) - int (?q + l)") (auto simp: min_def intro!: arg_cong [where f = "\<lambda>n. take n _"])
  then have "find_longest_matched_ngram_and_propose_tokens xs lo hi mml k
      = Some (Inr (if int l < lo then [] else take (nat ?k) (drop (?q + l) xs)))"
    using lp(1) n k unfolding find_longest_matched_ngram_and_propose_tokens_def Let_def og_def py_slice_def by simp
  with best_match_best_occurrence [OF lp(2)] n show ?thesis by (intro exI [of _ ?q] exI [of _ l]) simp
qed

lemma draft_tokens_total:
  assumes "1 \<le> lo" "lo \<le> hi"
  shows "\<exists>d. find_longest_matched_ngram_and_propose_tokens xs lo hi mml k = Some (Inr d) \<and> length d \<le> nat k"
proof (cases "lo \<le> int (length xs) \<and> 0 < min k (mml - int (length xs))")
  case True
  then show ?thesis using draft_found [OF assms, of xs k mml] by (auto simp: min_def split: if_splits)
next
  case False
  then show ?thesis by (auto simp: find_longest_matched_ngram_and_propose_tokens_def Let_def)
qed

text \<open>
  C8: For \<open>1 \<le> min_ngram \<le> max_ngram\<close> the search for a draft ends and never reads out of range. When there is room for draft
  tokens and a suffix of between \<open>min_ngram\<close> and \<open>max_ngram\<close> tokens occurred before, it takes the longest such
  suffix, at its earliest occurrence, and returns the tokens that follow it, as many as there is room for; otherwise it
  returns no draft. So the table of \<open>max_ngram\<close> entries is enough.
\<close>

theorem draft_tokens_correct:
  assumes "1 \<le> min_ngram" "min_ngram \<le> max_ngram"
  shows "\<exists>draft. find_longest_matched_ngram_and_propose_tokens origin_tokens min_ngram max_ngram max_model_len k = Some (Inr draft)
    \<and> (let room = min k (max_model_len - int (length origin_tokens)) in
       if room \<le> 0 \<or> \<not> (\<exists>q v. occurs origin_tokens q v \<and> min_ngram \<le> int v \<and> int v \<le> max_ngram) then draft = []
       else draft \<noteq> [] \<and> (\<exists>q v. best_occurrence origin_tokens max_ngram q v \<and> min_ngram \<le> int v
              \<and> draft = take (nat room) (drop (q + v) origin_tokens)))"
proof -
  let ?o = origin_tokens and ?room = "min k (max_model_len - int (length origin_tokens))"
  let ?find = "find_longest_matched_ngram_and_propose_tokens ?o min_ngram max_ngram max_model_len k"
  let ?some = "\<exists>q v. occurs ?o q v \<and> min_ngram \<le> int v \<and> int v \<le> max_ngram"
  consider (short) "int (length ?o) < min_ngram" | (full) "?room \<le> 0" | (search) "min_ngram \<le> int (length ?o)" "0 < ?room" by linarith
  then show ?thesis
  proof cases
    case short
    then have "\<not> ?some" by (auto simp: occurs_def)
    moreover have "?find = Some (Inr [])" using short by (simp add: find_longest_matched_ngram_and_propose_tokens_def)
    ultimately show ?thesis by simp
  next
    case full
    then have "?find = Some (Inr [])" by (simp add: find_longest_matched_ngram_and_propose_tokens_def Let_def)
    with full show ?thesis by (simp add: Let_def)
  next
    case search
    from draft_found [OF assms search] obtain q v where qv: "best_occurrence ?o max_ngram q v"
      and d: "?find = Some (Inr (if int v < min_ngram then [] else take (nat ?room) (drop (q + v) ?o)))" by blast
    have some: "?some \<longleftrightarrow> min_ngram \<le> int v" using qv by (force simp: best_occurrence_def)
    have "q + v < length ?o" using qv by (simp add: best_occurrence_def occurs_def)
    then have "take (nat ?room) (drop (q + v) ?o) \<noteq> []" using search(2) by (simp del: min_less_iff_conj)
    with qv d some search(2) show ?thesis unfolding Let_def by (cases "min_ngram \<le> int v") (simp_all only: not_less if_True if_False, auto)
  qed
qed

theorem draft_tokens_correct_witness:
  "\<exists>draft. find_longest_matched_ngram_and_propose_tokens [7, 1, 2, 3, 9, 1, 2, 4, 1, 2] 1 3 100 2 = Some (Inr draft) \<and> length draft \<le> 2 \<and> draft \<noteq> []"
proof -
  have "occurs [7, 1, 2, 3, 9, 1, 2, 4, 1, 2 :: int] 1 2" by (simp add: occurs_def)
  then have "\<exists>q v. occurs [7, 1, 2, 3, 9, 1, 2, 4, 1, 2 :: int] q v \<and> 1 \<le> int v \<and> int v \<le> 3" by force
  then show ?thesis
    using draft_tokens_correct [of 1 3 "[7, 1, 2, 3, 9, 1, 2, 4, 1, 2]" 100 2] by (auto simp: Let_def)
qed

section \<open>The batch\<close>

text \<open>The buffers have one row of \<^verbatim>\<open>k\<close> places per sequence; a request writes its draft into its own row.\<close>

definition buffers_ok :: "nat \<Rightarrow> ngram_proposer \<Rightarrow> bool" where
  "buffers_ok rows p \<longleftrightarrow> 1 \<le> min_n p \<and> min_n p \<le> max_n p \<and> 0 \<le> np_k p \<and> length (valid_ngram_num_drafts p) = rows
     \<and> length (valid_ngram_draft p) = rows \<and> (\<forall>row \<in> set (valid_ngram_draft p). length row = nat (np_k p))"

definition draft_of :: "ngram_proposer \<Rightarrow> nat list \<Rightarrow> int list list \<Rightarrow> nat \<Rightarrow> int list" where
  "draft_of cf nums toks i =
     (case find_longest_matched_ngram_and_propose_tokens (take (nums ! i) (toks ! i)) (min_n cf) (max_n cf) (np_max_model_len cf) (np_k cf)
      of Some (Inr d) \<Rightarrow> d | _ \<Rightarrow> [])"

definition put_draft :: "nat \<Rightarrow> int list \<Rightarrow> ngram_proposer \<Rightarrow> ngram_proposer" where
  "put_draft i d p = p\<lparr>valid_ngram_num_drafts := (valid_ngram_num_drafts p)[i := length d],
     valid_ngram_draft := (valid_ngram_draft p)[i := d @ drop (length d) (valid_ngram_draft p ! i)]\<rparr>"

lemma draft_of_ok:
  assumes "1 \<le> min_n cf" "min_n cf \<le> max_n cf"
  shows "find_longest_matched_ngram_and_propose_tokens (take (nums ! i) (toks ! i)) (min_n cf) (max_n cf) (np_max_model_len cf) (np_k cf)
      = Some (Inr (draft_of cf nums toks i))" "length (draft_of cf nums toks i) \<le> nat (np_k cf)"
proof -
  let ?find = "find_longest_matched_ngram_and_propose_tokens (take (nums ! i) (toks ! i)) (min_n cf) (max_n cf) (np_max_model_len cf) (np_k cf)"
  have "\<exists>d. ?find = Some (Inr d) \<and> length d \<le> nat (np_k cf)"
    using draft_tokens_total [OF assms] by blast
  then show "?find = Some (Inr (draft_of cf nums toks i))" "length (draft_of cf nums toks i) \<le> nat (np_k cf)"
    by (auto simp: draft_of_def)
qed

lemma put_draft_config [simp]:
  "min_n (put_draft i d p) = min_n p" "max_n (put_draft i d p) = max_n p" "np_k (put_draft i d p) = np_k p"
  "np_max_model_len (put_draft i d p) = np_max_model_len p"
  "valid_ngram_num_drafts (put_draft i d p) = (valid_ngram_num_drafts p)[i := length d]"
  "valid_ngram_draft (put_draft i d p) = (valid_ngram_draft p)[i := d @ drop (length d) (valid_ngram_draft p ! i)]"
  by (simp_all add: put_draft_def)

lemma put_draft_ok:
  assumes "buffers_ok rows p" "length d \<le> nat (np_k p)"
  shows "buffers_ok rows (put_draft i d p)"
proof -
  let ?rows = "valid_ngram_draft p" and ?row = "d @ drop (length d) (valid_ngram_draft p ! i)"
  have all: "\<forall>row \<in> set ?rows. length row = nat (np_k p)" using assms(1) by (simp add: buffers_ok_def)
  have "\<forall>row \<in> set (?rows[i := ?row]). length row = nat (np_k p)"
  proof (cases "i < length ?rows")
    case True
    then have "length (?rows ! i) = nat (np_k p)" using all nth_mem by blast
    then have "length ?row = nat (np_k p)" using assms(2) by simp
    then have "\<forall>row \<in> insert ?row (set ?rows). length row = nat (np_k p)" using all by simp
    then show ?thesis using set_update_subset_insert [of ?rows i ?row] by blast
  next
    case False
    then have "?rows[i := ?row] = ?rows" by (intro list_update_beyond) simp
    then show ?thesis using all by (simp only:)
  qed
  then show ?thesis using assms(1) unfolding buffers_ok_def put_draft_config length_list_update by blast
qed

lemma ngram_request_ok:
  assumes "buffers_ok rows p" "i < rows" "i < length nums" "i < length toks"
    and "min_n cf = min_n p" "max_n cf = max_n p" "np_k cf = np_k p"
  shows "ngram_request cf nums toks i p = Some (Inr (put_draft i (draft_of cf nums toks i) p))"
proof -
  have lo: "1 \<le> min_n cf" "min_n cf \<le> max_n cf" and rows: "i < length (valid_ngram_num_drafts p)" "i < length (valid_ngram_draft p)"
    "length (valid_ngram_draft p ! i) = nat (np_k p)" using assms by (auto simp: buffers_ok_def)
  note d = draft_of_ok [OF lo, where nums = nums and toks = toks and i = i]
  have "length (draft_of cf nums toks i) \<le> length (valid_ngram_draft p ! i)" using d(2) rows assms by simp
  then show ?thesis using assms(3,4) d(1) rows by (simp add: ngram_request_def put_draft_def Let_def og_def)
qed

lemma batch_ok:
  assumes "\<forall>i \<in> set l. i < rows \<and> i < length nums \<and> i < length toks" "buffers_ok rows p"
    "min_n cf = min_n p" "max_n cf = max_n p" "np_k cf = np_k p"
  shows "batch_propose_numba cf nums toks l p = Some (Inr (fold (\<lambda>i. put_draft i (draft_of cf nums toks i)) l p))"
  using assms
proof (induction l arbitrary: p)
  case (Cons i l)
  have "length (draft_of cf nums toks i) \<le> nat (np_k p)" using draft_of_ok(2) Cons.prems by (metis buffers_ok_def)
  then have "buffers_ok rows (put_draft i (draft_of cf nums toks i) p)" using put_draft_ok Cons.prems(2) by blast
  with Cons ngram_request_ok [of rows p i nums toks cf] show ?case by simp
qed simp

lemma put_drafts_read:
  "i \<in> set l \<Longrightarrow> i < length (valid_ngram_num_drafts p) \<Longrightarrow> i < length (valid_ngram_draft p)
    \<Longrightarrow> valid_ngram_num_drafts (fold (\<lambda>i. put_draft i (d i)) l p) ! i = length (d i)
      \<and> take (length (d i)) (valid_ngram_draft (fold (\<lambda>i. put_draft i (d i)) l p) ! i) = d i"
proof (induction l rule: rev_induct)
  case (snoc j l)
  have "length (valid_ngram_num_drafts (fold (\<lambda>i. put_draft i (d i)) l p)) = length (valid_ngram_num_drafts p)"
    "length (valid_ngram_draft (fold (\<lambda>i. put_draft i (d i)) l p)) = length (valid_ngram_draft p)" for l
    by (induction l rule: rev_induct) simp_all
  with snoc show ?case by (cases "i = j") simp_all
qed simp

lemma put_drafts_ok:
  "buffers_ok rows p \<Longrightarrow> \<forall>i. length (d i) \<le> nat (np_k p) \<Longrightarrow> buffers_ok rows (fold (\<lambda>i. put_draft i (d i)) l p)
    \<and> np_k (fold (\<lambda>i. put_draft i (d i)) l p) = np_k p"
  by (induction l rule: rev_induct) (auto intro: put_draft_ok)

lemma put_draft_commute: "put_draft i (d i) \<circ> put_draft j (d j) = put_draft j (d j) \<circ> put_draft i (d i)"
  by (cases "i = j") (auto simp: put_draft_def fun_eq_iff list_update_swap nth_list_update)

lemma put_drafts_order:
  "mset l = mset l' \<Longrightarrow> fold (\<lambda>i. put_draft i (d i)) l p = fold (\<lambda>i. put_draft i (d i)) l' p"
  using fold_multiset_equiv [of l "\<lambda>i. put_draft i (d i)" l'] put_draft_commute by metis

text \<open>The requests that take part: those with sampled tokens that are not at the model length.\<close>

lemma select_requests:
  "\<forall>i \<in> set l. i < length nums \<Longrightarrow>
   fold_res (select_request mml sampled nums) l v = Inr (v @ filter (\<lambda>i. sampled ! i \<noteq> [] \<and> int (nums ! i) < mml) l)"
  by (induction l arbitrary: v) (auto simp: select_request_def guard_def)

text \<open>
  C37: With buffers for as many sequences as there are requests, a call of the proposer returns one draft per request: for a
  request with sampled tokens below the model length the draft found in its own tokens, whatever earlier calls left in
  the buffers, and for every other request no draft. The buffers keep their shape, no write leaves its row, and the kernel's
  iterations may run in any order.
\<close>

theorem propose_correct:
  assumes p: "buffers_ok rows p" and len: "length sampled \<le> rows" "length sampled \<le> length nums" "length sampled \<le> length toks"
  shows "\<exists>drafts p'. propose sampled nums toks p = Some (Inr (drafts, p')) \<and> buffers_ok rows p' \<and> length drafts = length sampled
    \<and> (\<forall>i < length sampled.
         if sampled ! i \<noteq> [] \<and> int (nums ! i) < np_max_model_len p
         then find_longest_matched_ngram_and_propose_tokens (take (nums ! i) (toks ! i)) (min_n p) (max_n p) (np_max_model_len p) (np_k p)
                = Some (Inr (drafts ! i))
         else drafts ! i = [])
    \<and> (\<forall>l l'. mset l = mset l' \<and> (\<forall>i \<in> set l. i < length sampled)
         \<longrightarrow> batch_propose_numba p nums toks l p = batch_propose_numba p nums toks l' p)"
proof -
  let ?d = "draft_of p nums toks"
  define valid where "valid = filter (\<lambda>i. sampled ! i \<noteq> [] \<and> int (nums ! i) < np_max_model_len p) [0..<length sampled]"
  define p' where "p' = fold (\<lambda>i. put_draft i (?d i)) valid p"
  have lo: "1 \<le> min_n p" "min_n p \<le> max_n p" using p by (auto simp: buffers_ok_def)
  have batch: "batch_propose_numba p nums toks l p = Some (Inr (fold (\<lambda>i. put_draft i (?d i)) l p))"
    if "\<forall>i \<in> set l. i < length sampled" for l
    by (rule batch_ok [of _ rows]) (use that len p in auto)
  have read: "collect_draft valid p' i = Inr (if i \<in> set valid then ?d i else [])" if "i < length sampled" for i
  proof (cases "i \<in> set valid")
    case True
    have "length (valid_ngram_num_drafts p') = rows" "length (valid_ngram_draft p') = rows"
      using put_drafts_ok [OF p, of ?d valid] draft_of_ok(2) [OF lo] by (auto simp: p'_def buffers_ok_def)
    moreover have "valid_ngram_num_drafts p' ! i = length (?d i) \<and> take (length (?d i)) (valid_ngram_draft p' ! i) = ?d i"
      unfolding p'_def by (rule put_drafts_read) (use True that len p in \<open>auto simp: buffers_ok_def\<close>)
    ultimately show ?thesis using True that len(1) by (auto simp: collect_draft_def guard_def)
  next
    case False then show ?thesis by (simp add: collect_draft_def)
  qed
  let ?drafts = "map (\<lambda>i. if i \<in> set valid then ?d i else []) [0..<length sampled]"
  have "map_res (collect_draft valid p') [0..<length sampled] = Inr ?drafts"
    using read by (simp add: map_res_eq_Inr list_all2_conv_all_nth)
  moreover have "(if valid \<noteq> [] then batch_propose_numba p nums toks valid p else Some (Inr p)) = Some (Inr p')"
    using batch [of valid] by (auto simp: p'_def valid_def)
  moreover have "fold_res (select_request (np_max_model_len p) sampled nums) [0..<length sampled] [] = Inr valid"
    using select_requests [of "[0..<length sampled]" nums] len(2) by (simp add: valid_def)
  ultimately have "propose sampled nums toks p = Some (Inr (?drafts, p'))" by (simp add: propose_def batch_propose_def)
  moreover have "buffers_ok rows p'" using put_drafts_ok [OF p, of ?d valid] draft_of_ok(2) [OF lo] by (simp add: p'_def)
  moreover have "batch_propose_numba p nums toks l p = batch_propose_numba p nums toks l' p"
    if "mset l = mset l'" "\<forall>i \<in> set l. i < length sampled" for l l'
    using batch [of l] batch [of l'] that mset_eq_setD [OF that(1)] put_drafts_order [OF that(1)] by simp
  ultimately show ?thesis using draft_of_ok(1) [OF lo, of nums _ toks] by (intro exI [of _ ?drafts] exI [of _ p']) (auto simp: valid_def)
qed

definition example_proposer :: ngram_proposer where
  "example_proposer = \<lparr>min_n = 1, max_n = 3, np_k = 2, np_max_model_len = 10,
     valid_ngram_draft = [[8, 8], [8, 8], [8, 8]], valid_ngram_num_drafts = [2, 2, 2]\<rparr>"

theorem propose_correct_witness:
  "\<exists>drafts p'. propose [[2], [], [5]] [5, 3, 10] [[1, 2, 3, 1, 2, 0], [4, 4, 4], [5, 5, 5, 5, 5, 5, 5, 5, 5, 5]] example_proposer = Some (Inr (drafts, p'))
    \<and> buffers_ok 3 p' \<and> drafts ! 1 = [] \<and> drafts ! 2 = []"
proof -
  have "buffers_ok 3 example_proposer" by (simp add: buffers_ok_def example_proposer_def)
  from propose_correct [OF this, of "[[2], [], [5]]" "[5, 3, 10]" "[[1, 2, 3, 1, 2, 0], [4, 4, 4], [5, 5, 5, 5, 5, 5, 5, 5, 5, 5]]"]
  show ?thesis by (auto simp: example_proposer_def dest: spec [of _ "Suc 0"] spec [of _ 2])
qed

text \<open>
  The constructor calls \<^verbatim>\<open>propose\<close> in order to compile the kernel, with 1024 empty lists of sampled tokens: no
  request takes part, and the kernel is not called.
\<close>

lemma warm_up_skips_kernel:
  assumes "0 \<le> k" "0 \<le> mml"
  shows "fold_res (select_request mml (replicate 1024 []) (replicate 1024 0)) [0..<1024] [] = Inr []"
    "proposer_init (Some (Some lo, Some hi, k)) mml seqs = Some (Inr \<lparr>min_n = lo, max_n = hi, np_k = k, np_max_model_len = mml,
       valid_ngram_draft = replicate seqs (replicate (nat k) 0), valid_ngram_num_drafts = replicate seqs 0\<rparr>)"
proof -
  show none: "fold_res (select_request mml (replicate 1024 []) (replicate 1024 0)) [0..<1024] [] = Inr []"
    by (subst select_requests) (auto simp: filter_empty_conv)
  have "map_res (collect_draft [] q) l = Inr (map (\<lambda>_. []) l)" for q l
    by (simp add: map_res_eq_Inr collect_draft_def list_all2_conv_all_nth)
  with none assms show "proposer_init (Some (Some lo, Some hi, k)) mml seqs = Some (Inr \<lparr>min_n = lo, max_n = hi, np_k = k, np_max_model_len = mml,
       valid_ngram_draft = replicate seqs (replicate (nat k) 0), valid_ngram_num_drafts = replicate seqs 0\<rparr>)"
    by (simp add: proposer_init_def propose_def batch_propose_def og_def)
qed

end
