(* ===== verification/Detokenizer.thy ===== *)
theory Detokenizer
  imports Request
begin

text \<open>
  Incremental detokenization: src/vllm/vllm/v1/engine/detokenizer.py and src/vllm/vllm/tokenizers/detokenizer_utils.py. The
  sampled tokens of a request become text token by token, stop strings are looked for in the new part of the text, and the tail
  that could be the beginning of a stop string is held back while the request runs.

  A text is the list of its code points. The tokenizer and the decode stream of the tokenizers package are parameters, given by
  the records of the functions that are called.
\<close>

type_synonym utext = "int list"

section \<open>Stop strings\<close>

text \<open>\<^verbatim>\<open>s.find(sub, start)\<close>: the first occurrence at or after \<^verbatim>\<open>start\<close>, counted from the end when negative, or -1.\<close>

definition py_find :: "'a list \<Rightarrow> 'a list \<Rightarrow> int \<Rightarrow> int" where
  "py_find s sub start =
     (let st = nat (if start < 0 then start + int (length s) else start)
      in case find (\<lambda>j. take (length sub) (drop j s) = sub) [st..<Suc (length s) - length sub] of
           Some j \<Rightarrow> int j | None \<Rightarrow> -1)"

fun check_stop_loop :: "utext \<Rightarrow> int \<Rightarrow> bool \<Rightarrow> utext list \<Rightarrow> (utext \<times> int) option" where
  "check_stop_loop output_text new_char_count include_in_output [] = None"
| "check_stop_loop output_text new_char_count include_in_output (stop_str # stop) =
     (let stop_string_len = int (length stop_str);
          stop_index = py_find output_text stop_str (1 - new_char_count - stop_string_len)
      in if stop_index = -1 then check_stop_loop output_text new_char_count include_in_output stop
         else if include_in_output
         then (if int (length output_text) \<le> stop_index + stop_string_len then Some (stop_str, -1)
               else Some (stop_str, stop_index + stop_string_len))
         else Some (stop_str, stop_index))"

definition check_stop_strings :: "utext \<Rightarrow> int \<Rightarrow> utext list \<Rightarrow> bool \<Rightarrow> (utext \<times> int) option" where
  "check_stop_strings output_text new_char_count stop include_in_output =
     (if new_char_count = 0 \<or> stop = [] then None else check_stop_loop output_text new_char_count include_in_output stop)"

section \<open>The tokenizer\<close>

record tokenizer =
  tk_len :: int
  tk_is_fast :: bool
  convert_ids_to_tokens :: "int list \<Rightarrow> bool \<Rightarrow> utext option list"
  convert_tokens_to_string :: "utext list \<Rightarrow> utext"
  get_added_vocab :: "utext list"
  all_special_tokens :: "utext list"

definition replace_none_with_empty :: "utext option list \<Rightarrow> utext list" where
  "replace_none_with_empty = map (\<lambda>t. case t of None \<Rightarrow> [] | Some s \<Rightarrow> s)"

fun join_texts :: "utext \<Rightarrow> utext list \<Rightarrow> utext" where
  "join_texts sep [] = []"
| "join_texts sep [t] = t"
| "join_texts sep (t # ts) = t @ sep @ join_texts sep ts"

fun added_encoders_loop :: "tokenizer \<Rightarrow> utext list \<Rightarrow> utext list \<Rightarrow> utext list \<Rightarrow> utext list \<Rightarrow> utext list" where
  "added_encoders_loop tk special [] sub_texts current =
     (if current \<noteq> [] then sub_texts @ [convert_tokens_to_string tk current] else sub_texts)"
| "added_encoders_loop tk special (token # tokens) sub_texts current =
     (if token \<in> set special then added_encoders_loop tk special tokens sub_texts current
      else if token \<in> set (get_added_vocab tk)
      then added_encoders_loop tk special tokens
             ((if current \<noteq> [] then sub_texts @ [convert_tokens_to_string tk current] else sub_texts) @ [token]) []
      else added_encoders_loop tk special tokens sub_texts (current @ [token]))"

definition convert_tokens_to_string_with_added_encoders :: "tokenizer \<Rightarrow> utext list \<Rightarrow> bool \<Rightarrow> bool \<Rightarrow> utext" where
  "convert_tokens_to_string_with_added_encoders tk output_tokens skip spaces =
     join_texts (if spaces then [32] else [])
       (added_encoders_loop tk (if skip then all_special_tokens tk else []) output_tokens [] [])"

definition convert_prompt_ids_to_tokens :: "tokenizer \<Rightarrow> int list \<Rightarrow> bool \<Rightarrow> utext list \<times> nat \<times> nat" where
  "convert_prompt_ids_to_tokens tk prompt_ids skip =
     (let new_tokens = convert_ids_to_tokens tk (drop (length prompt_ids - 7) prompt_ids) skip;
          read_offset = length new_tokens
      in (replace_none_with_empty new_tokens, read_offset - 5, read_offset))"

text \<open>The replacement character, at the end of a text whose last bytes are not yet complete.\<close>

definition ends_incomplete :: "utext \<Rightarrow> bool" where
  "ends_incomplete t \<longleftrightarrow> t \<noteq> [] \<and> last t = 65533"

definition tokens_text :: "tokenizer \<Rightarrow> bool \<Rightarrow> bool \<Rightarrow> utext list \<Rightarrow> utext" where
  "tokens_text tk skip spaces tokens =
     (if tk_is_fast tk \<or> get_added_vocab tk = [] then convert_tokens_to_string tk tokens
      else convert_tokens_to_string_with_added_encoders tk tokens skip spaces)"

definition detokenize_incrementally ::
  "tokenizer \<Rightarrow> int list \<Rightarrow> utext list option \<Rightarrow> nat \<Rightarrow> nat \<Rightarrow> bool \<Rightarrow> bool \<Rightarrow> (utext list \<times> utext \<times> nat \<times> nat) res" where
  "detokenize_incrementally tk all_input_ids prev_tokens prefix_offset read_offset skip spaces =
     guard (all_input_ids \<noteq> []) IndexError
     (let new_token_id = last all_input_ids;
          (prev, prefix, readoff) = (case prev_tokens of
              None \<Rightarrow> convert_prompt_ids_to_tokens tk (butlast all_input_ids) skip
            | Some ts \<Rightarrow> (ts, prefix_offset, read_offset));
          new = (if 0 \<le> new_token_id \<and> new_token_id < tk_len tk
                 then replace_none_with_empty (convert_ids_to_tokens tk [new_token_id] skip) else [[]]);
          output_tokens = prev @ new;
          new_tokens = (if prev_tokens = None then output_tokens else new);
          prefix_text = tokens_text tk skip spaces (py_slice prefix readoff output_tokens);
          new_text = tokens_text tk skip spaces (drop prefix output_tokens)
      in if length new_text \<le> length prefix_text \<or> ends_incomplete new_text
         then Inr (new_tokens, [], prefix, readoff)
         else Inr (new_tokens, drop (length prefix_text) new_text, readoff, length output_tokens))"

section \<open>Decoders\<close>

text \<open>What a step of the decode stream does: a token's text, if any, or one of the exceptions that are told apart.\<close>

datatype step_outcome =
    StepToken "utext option"
  | StepOverflow
  | StepInvalidPrefix
  | StepError py_error

record 's stream_lib =
  decode_stream :: "int list option \<Rightarrow> bool \<Rightarrow> 's"
  stream_step :: "'s \<Rightarrow> int \<Rightarrow> step_outcome \<times> 's"
  added_tokens_decoder :: "(int \<times> utext) list"

record 's fast_state =
  fs_stream :: 's
  fs_skip :: bool
  fs_spaces :: bool
  fs_last_special :: bool
  fs_added :: "(int \<times> utext) list"

record slow_state =
  sl_prompt_len :: nat
  sl_tokens :: "utext list"
  sl_prefix_offset :: nat
  sl_read_offset :: nat
  sl_skip :: bool
  sl_spaces :: bool

text \<open>No tokenizer, the fast and the slow detokenizer.\<close>

datatype 's decoder = NoText | Fast "'s fast_state" | Slow slow_state

record 's detokenizer =
  dt_token_ids :: "int list"
  dt_stop :: "utext list"
  dt_min_tokens :: int
  dt_include_stop :: bool
  dt_stop_buffer_length :: nat
  dt_last_output_text_offset :: int
  dt_output_text :: utext
  dt_decoder :: "'s decoder"

definition protected_step :: "'s stream_lib \<Rightarrow> int \<Rightarrow> 's fast_state \<Rightarrow> (utext option \<times> 's fast_state) res" where
  "protected_step lib next_token_id f =
     (case stream_step lib (fs_stream f) next_token_id of
        (StepToken t, s) \<Rightarrow> Inr (t, f\<lparr>fs_stream := s\<rparr>)
      | (StepOverflow, s) \<Rightarrow> Inr (None, f\<lparr>fs_stream := s\<rparr>)
      | (StepError e, s) \<Rightarrow> Inl e
      | (StepInvalidPrefix, s) \<Rightarrow>
          (case stream_step lib (decode_stream lib None (fs_skip f)) next_token_id of
             (StepToken t, s') \<Rightarrow> Inr (t, f\<lparr>fs_stream := s'\<rparr>)
           | (StepError e, s') \<Rightarrow> Inl e
           | (StepOverflow, s') \<Rightarrow> Inl OverflowError
           | (StepInvalidPrefix, s') \<Rightarrow> Inl RuntimeError))"

definition fast_decode_next :: "'s stream_lib \<Rightarrow> int \<Rightarrow> 's fast_state \<Rightarrow> (utext \<times> 's fast_state) res" where
  "fast_decode_next lib next_token_id f =
     res_bind (protected_step lib next_token_id f) (\<lambda>(token, f1).
       let special = map_of (fs_added f1) next_token_id;
           token1 = (if \<not> fs_spaces f1 \<and> special \<noteq> None \<and> fs_last_special f1 then special else token);
           f2 = (if fs_spaces f1 then f1 else f1\<lparr>fs_last_special := (special \<noteq> None)\<rparr>)
       in Inr (case token1 of None \<Rightarrow> [] | Some t \<Rightarrow> t, f2))"

definition slow_decode_next :: "tokenizer \<Rightarrow> int list \<Rightarrow> slow_state \<Rightarrow> (utext \<times> slow_state) res" where
  "slow_decode_next tk token_ids s =
     res_bind (detokenize_incrementally tk token_ids (Some (sl_tokens s)) (sl_prefix_offset s) (sl_read_offset s) (sl_skip s) (sl_spaces s))
       (\<lambda>(new_tokens, decoded_text, prefix_offset, read_offset).
          Inr (decoded_text, s\<lparr>sl_tokens := sl_tokens s @ new_tokens, sl_prefix_offset := prefix_offset, sl_read_offset := read_offset\<rparr>))"

definition decode_next :: "tokenizer \<Rightarrow> 's stream_lib \<Rightarrow> int \<Rightarrow> 's detokenizer \<Rightarrow> (utext \<times> 's detokenizer) res" where
  "decode_next tk lib next_token_id d =
     (case dt_decoder d of
        NoText \<Rightarrow> Inl NotImplementedError
      | Fast f \<Rightarrow> res_bind (fast_decode_next lib next_token_id f) (\<lambda>(t, f1). Inr (t, d\<lparr>dt_decoder := Fast f1\<rparr>))
      | Slow s \<Rightarrow> res_bind (slow_decode_next tk (dt_token_ids d) s) (\<lambda>(t, s1). Inr (t, d\<lparr>dt_decoder := Slow s1\<rparr>)))"

section \<open>Construction\<close>

datatype stop_param = StopUnset | StopOne utext | StopMany "utext list"

record detok_params =
  dp_stop :: stop_param
  dp_min_tokens :: int
  dp_include_stop :: bool
  dp_skip_special :: bool
  dp_spaces_between :: bool

definition base_init :: "detok_params \<Rightarrow> 's detokenizer" where
  "base_init p =
     (let stop = (case dp_stop p of StopUnset \<Rightarrow> [] | StopOne x \<Rightarrow> [x] | StopMany l \<Rightarrow> l)
      in \<lparr>dt_token_ids = [], dt_stop = stop, dt_min_tokens = dp_min_tokens p, dt_include_stop = dp_include_stop p,
          dt_stop_buffer_length = (if stop \<noteq> [] \<and> \<not> dp_include_stop p then Max (set (map length stop)) - 1 else 0),
          dt_last_output_text_offset = 0, dt_output_text = [], dt_decoder = NoText\<rparr>)"

definition fast_init :: "'s stream_lib \<Rightarrow> detok_params \<Rightarrow> int list option \<Rightarrow> 's detokenizer" where
  "fast_init lib p prompt_ids =
     (let spaces = (dp_skip_special p \<or> dp_spaces_between p);
          added = added_tokens_decoder lib
      in (base_init p)\<lparr>dt_decoder := Fast \<lparr>fs_stream = decode_stream lib prompt_ids (dp_skip_special p), fs_skip = dp_skip_special p,
            fs_spaces = (spaces \<or> added = []), fs_last_special = False, fs_added = (if spaces then [] else added)\<rparr>\<rparr>)"

definition slow_init :: "tokenizer \<Rightarrow> detok_params \<Rightarrow> int list option \<Rightarrow> bytes list option \<Rightarrow> 's detokenizer res" where
  "slow_init tk p prompt_ids embeds =
     res_bind (length_from_prompt_token_ids_or_embeds prompt_ids embeds) (\<lambda>n.
       let (tokens, prefix_offset, read_offset) = (case prompt_ids of
              Some ids \<Rightarrow> convert_prompt_ids_to_tokens tk ids (dp_skip_special p)
            | None \<Rightarrow> (replicate n [], 0, 0))
       in Inr ((base_init p)\<lparr>
            dt_token_ids := (case prompt_ids of None \<Rightarrow> replicate n 0 | Some ids \<Rightarrow> if ids = [] then replicate n 0 else ids),
            dt_decoder := Slow \<lparr>sl_prompt_len = n, sl_tokens = tokens, sl_prefix_offset = prefix_offset, sl_read_offset = read_offset,
                                sl_skip = dp_skip_special p, sl_spaces = dp_spaces_between p\<rparr>\<rparr>))"

text \<open>\<^verbatim>\<open>IncrementalDetokenizer.from_new_request\<close>; the tokenizer is absent, slow or fast (with native prefill available).\<close>

datatype tokenizer_kind = NoTokenizer | SlowTokenizer | FastTokenizer

definition detokenizer_from_new_request ::
  "tokenizer \<Rightarrow> 's stream_lib \<Rightarrow> tokenizer_kind \<Rightarrow> detok_params option \<Rightarrow> int list option \<Rightarrow> bytes list option \<Rightarrow> 's detokenizer res" where
  "detokenizer_from_new_request tk lib kind params prompt_ids embeds =
     (case params of None \<Rightarrow> Inl AssertionError
      | Some p \<Rightarrow>
          (case kind of
             NoTokenizer \<Rightarrow> Inr ((base_init p)\<lparr>dt_stop := [], dt_min_tokens := 0, dt_include_stop := False, dt_stop_buffer_length := 0\<rparr>)
           | FastTokenizer \<Rightarrow> Inr (fast_init lib p prompt_ids)
           | SlowTokenizer \<Rightarrow> slow_init tk p prompt_ids embeds))"

section \<open>Operations\<close>

definition dt_prompt_len :: "'s detokenizer \<Rightarrow> nat" where
  "dt_prompt_len d = (case dt_decoder d of Slow s \<Rightarrow> sl_prompt_len s | _ \<Rightarrow> 0)"

definition dt_output_token_ids :: "'s detokenizer \<Rightarrow> int list" where
  "dt_output_token_ids d = drop (dt_prompt_len d) (dt_token_ids d)"

definition dt_num_output_tokens :: "'s detokenizer \<Rightarrow> int" where
  "dt_num_output_tokens d = int (length (dt_token_ids d)) - int (dt_prompt_len d)"

definition decode_one :: "tokenizer \<Rightarrow> 's stream_lib \<Rightarrow> int \<Rightarrow> 's detokenizer \<times> nat \<Rightarrow> ('s detokenizer \<times> nat) res" where
  "decode_one tk lib t = (\<lambda>(d, stop_check_offset).
     res_bind (decode_next tk lib t (d\<lparr>dt_token_ids := dt_token_ids d @ [t]\<rparr>)) (\<lambda>(txt, d1).
       let d2 = d1\<lparr>dt_output_text := dt_output_text d1 @ txt\<rparr>
       in Inr (d2, if dt_min_tokens d2 \<noteq> 0 \<and> dt_num_output_tokens d2 \<le> dt_min_tokens d2
                   then length (dt_output_text d2) else stop_check_offset)))"

definition evaluate_stop :: "nat \<Rightarrow> 's detokenizer \<Rightarrow> utext option \<times> 's detokenizer" where
  "evaluate_stop stop_check_offset d =
     (if dt_stop d \<noteq> [] \<and> dt_min_tokens d < dt_num_output_tokens d
      then (case check_stop_strings (dt_output_text d) (int (length (dt_output_text d)) - int stop_check_offset) (dt_stop d) (dt_include_stop d) of
              None \<Rightarrow> (None, d)
            | Some (s, truncate_to) \<Rightarrow>
                (Some s, if truncate_to \<noteq> -1 then d\<lparr>dt_output_text := take (nat truncate_to) (dt_output_text d)\<rparr> else d))
      else (None, d))"

definition dt_update :: "tokenizer \<Rightarrow> 's stream_lib \<Rightarrow> int list \<Rightarrow> bool \<Rightarrow> 's detokenizer \<Rightarrow> (utext option \<times> 's detokenizer) res" where
  "dt_update tk lib new_token_ids stop_terminated d =
     (if dt_decoder d = NoText then Inr (None, d\<lparr>dt_token_ids := dt_token_ids d @ new_token_ids\<rparr>)
      else if new_token_ids = [] then Inr (None, d)
      else let skip = (stop_terminated \<and> \<not> dt_include_stop d);
               toks = (if skip then butlast new_token_ids else new_token_ids)
           in res_bind (fold_res (decode_one tk lib) toks (d, length (dt_output_text d))) (\<lambda>(d1, stop_check_offset).
              let d2 = (if skip then d1\<lparr>dt_token_ids := dt_token_ids d1 @ [last new_token_ids]\<rparr> else d1)
              in Inr (evaluate_stop stop_check_offset d2)))"

definition get_next_output_text :: "bool \<Rightarrow> bool \<Rightarrow> 's detokenizer \<Rightarrow> utext \<times> 's detokenizer" where
  "get_next_output_text finished delta d =
     (if dt_decoder d = NoText then ([], d)
      else let buffer_length = (if finished then 0 else dt_stop_buffer_length d)
           in if \<not> delta
              then ((if buffer_length = 0 then dt_output_text d
                     else take (length (dt_output_text d) - buffer_length) (dt_output_text d)), d)
              else let len = int (length (dt_output_text d)) - int buffer_length;
                       last_offset = dt_last_output_text_offset d
                   in if last_offset < len
                      then (py_slice (nat last_offset) (nat len) (dt_output_text d), d\<lparr>dt_last_output_text_offset := len\<rparr>)
                      else ([], d))"

end
