(* ===== verification/Detokenizer_Properties.thy ===== *)
theory Detokenizer_Properties
  imports Detokenizer
begin

text \<open>
  Properties of incremental detokenization: the search for stop strings finds exactly the occurrences that end in the new text,
  streaming never gives out text that a stop string takes back later, and token by token the slow detokenizer produces the text of
  all tokens.
\<close>

section \<open>Stop strings\<close>

text \<open>\<open>stands_at t s j\<close>: the string \<open>s\<close> stands in \<open>t\<close> at position \<open>j\<close>.\<close>

definition stands_at :: "'a list \<Rightarrow> 'a list \<Rightarrow> nat \<Rightarrow> bool" where
  "stands_at t s j \<longleftrightarrow> j + length s \<le> length t \<and> take (length s) (drop j t) = s"

lemma find_upt: "find P [a..<b] = Some j \<longleftrightarrow> a \<le> j \<and> j < b \<and> P j \<and> (\<forall>i. a \<le> i \<and> i < j \<longrightarrow> \<not> P i)"
proof -
  have "find P [a..<b] = Some j \<longleftrightarrow> (\<exists>i < b - a. P (a + i) \<and> j = a + i \<and> (\<forall>k < i. \<not> P (a + k)))"
    by (auto simp: find_Some_iff)
  also have "\<dots> \<longleftrightarrow> a \<le> j \<and> j < b \<and> P j \<and> (\<forall>i. a \<le> i \<and> i < j \<longrightarrow> \<not> P i)"
  proof
    assume "\<exists>i < b - a. P (a + i) \<and> j = a + i \<and> (\<forall>k < i. \<not> P (a + k))"
    then obtain i where i: "i < b - a" "P (a + i)" "j = a + i" "\<forall>k < i. \<not> P (a + k)" by blast
    have "\<not> P m" if "a \<le> m" "m < j" for m using i(3,4) that by (metis le_Suc_ex nat_add_left_cancel_less)
    with i show "a \<le> j \<and> j < b \<and> P j \<and> (\<forall>i. a \<le> i \<and> i < j \<longrightarrow> \<not> P i)" by auto
  next
    assume "a \<le> j \<and> j < b \<and> P j \<and> (\<forall>i. a \<le> i \<and> i < j \<longrightarrow> \<not> P i)"
    then show "\<exists>i < b - a. P (a + i) \<and> j = a + i \<and> (\<forall>k < i. \<not> P (a + k))" by (intro exI [of _ "j - a"]) auto
  qed
  finally show ?thesis .
qed

lemma find_upt_least:
  "find P [a..<b] = Some j \<longleftrightarrow> (a \<le> j \<and> j < b \<and> P j) \<and> (\<forall>i. a \<le> i \<and> i < b \<and> P i \<longrightarrow> j \<le> i)"
proof -
  have "i < b" if "i < j" "j < b" for i using that by simp
  then show ?thesis unfolding find_upt by (meson not_less)
qed

lemma stop_window:
  assumes "s \<noteq> []" "off < length t"
  shows "py_find t s (1 - (int (length t) - int off) - int (length s)) =
    (case find (\<lambda>j. take (length s) (drop j t) = s) [Suc off - length s..<Suc (length t) - length s] of Some j \<Rightarrow> int j | None \<Rightarrow> -1)"
proof -
  have "nat (1 - (int (length t) - int off) - int (length s) + int (length t)) = Suc off - length s" by simp
  moreover have "1 - (int (length t) - int off) - int (length s) < 0" using assms by (cases s) auto
  ultimately show ?thesis unfolding py_find_def Let_def by (simp only: if_True)
qed

lemma stop_found:
  assumes "s \<noteq> []" "off < length t"
  shows "py_find t s (1 - (int (length t) - int off) - int (length s)) = int j \<longleftrightarrow>
    stands_at t s j \<and> off < j + length s \<and> (\<forall>i. stands_at t s i \<and> off < i + length s \<longrightarrow> j \<le> i)" (is "?a = _ \<longleftrightarrow> ?b")
    and "py_find t s (1 - (int (length t) - int off) - int (length s)) = -1 \<longleftrightarrow> (\<forall>j. stands_at t s j \<longrightarrow> j + length s \<le> off)"
proof -
  let ?P = "\<lambda>j. take (length s) (drop j t) = s"
  have in_window: "Suc off - length s \<le> i \<and> i < Suc (length t) - length s \<and> ?P i \<longleftrightarrow> stands_at t s i \<and> off < i + length s" for i
    using assms by (auto simp: stands_at_def)
  have w: "?a = (case find ?P [Suc off - length s..<Suc (length t) - length s] of Some j \<Rightarrow> int j | None \<Rightarrow> -1)"
    using assms by (rule stop_window)
  have "?a = int j \<longleftrightarrow> find ?P [Suc off - length s..<Suc (length t) - length s] = Some j" using w by (auto split: option.splits)
  also have "\<dots> \<longleftrightarrow> ?b" unfolding find_upt_least in_window by (rule conj_assoc)
  finally show "?a = int j \<longleftrightarrow> ?b" .
  have "?a = -1 \<longleftrightarrow> find ?P [Suc off - length s..<Suc (length t) - length s] = None" using w by (auto split: option.splits)
  also have "\<dots> \<longleftrightarrow> (\<forall>i. \<not> (Suc off - length s \<le> i \<and> i < Suc (length t) - length s \<and> ?P i))" by (auto simp: find_None_iff)
  also have "\<dots> \<longleftrightarrow> (\<forall>j. stands_at t s j \<longrightarrow> j + length s \<le> off)" unfolding in_window by (auto simp: not_less)
  finally show "?a = -1 \<longleftrightarrow> (\<forall>j. stands_at t s j \<longrightarrow> j + length s \<le> off)" .
qed

text \<open>What \<open>check_stop_strings\<close> returns: the first stop string of the list with an occurrence that ends behind \<open>off\<close>.\<close>

definition stop_result :: "utext \<Rightarrow> nat \<Rightarrow> bool \<Rightarrow> utext list \<Rightarrow> (utext \<times> int) option \<Rightarrow> bool" where
  "stop_result t off incl stop r \<longleftrightarrow>
     (case r of
        None \<Rightarrow> \<forall>s \<in> set stop. \<forall>j. stands_at t s j \<longrightarrow> j + length s \<le> off
      | Some (s, pos) \<Rightarrow> \<exists>pre post j. stop = pre @ s # post \<and> (\<forall>s' \<in> set pre. \<forall>j. stands_at t s' j \<longrightarrow> j + length s' \<le> off)
          \<and> stands_at t s j \<and> off < j + length s \<and> (\<forall>i. stands_at t s i \<and> off < i + length s \<longrightarrow> j \<le> i)
          \<and> pos = (if \<not> incl then int j else if j + length s = length t then -1 else int (j + length s)))"

lemma stop_result_Cons:
  "\<forall>j. stands_at t s j \<longrightarrow> j + length s \<le> off \<Longrightarrow> stop_result t off incl stop r \<Longrightarrow> stop_result t off incl (s # stop) r"
proof (cases r)
  case (Some p)
  assume a: "\<forall>j. stands_at t s j \<longrightarrow> j + length s \<le> off" "stop_result t off incl stop r"
  obtain s' pos where p: "p = (s', pos)" by force
  from a(2) Some p obtain pre post j where x: "stop = pre @ s' # post" "\<forall>x \<in> set pre. \<forall>j. stands_at t x j \<longrightarrow> j + length x \<le> off"
    "stands_at t s' j" "off < j + length s'" "\<forall>i. stands_at t s' i \<and> off < i + length s' \<longrightarrow> j \<le> i"
    "pos = (if \<not> incl then int j else if j + length s' = length t then -1 else int (j + length s'))"
    by (auto simp: stop_result_def)
  have "s # stop = (s # pre) @ s' # post" "\<forall>x \<in> set (s # pre). \<forall>j. stands_at t x j \<longrightarrow> j + length x \<le> off" using x(1,2) a(1) by auto
  with x(3-6) show ?thesis unfolding stop_result_def Some p option.case prod.case by blast
qed (simp add: stop_result_def)

lemma check_stop_loop_result:
  assumes "\<forall>s \<in> set stop. s \<noteq> []" "off < length t"
  shows "stop_result t off incl stop (check_stop_loop t (int (length t) - int off) incl stop)"
  using assms(1)
proof (induction stop)
  case Nil show ?case by (simp add: stop_result_def)
next
  case (Cons s stop)
  let ?f = "py_find t s (1 - (int (length t) - int off) - int (length s))"
  have s: "s \<noteq> []" using Cons.prems by simp
  show ?case
  proof (cases "?f = -1")
    case True
    with stop_found(2) [OF s assms(2)] have "\<forall>j. stands_at t s j \<longrightarrow> j + length s \<le> off" by simp
    with True Cons show ?thesis by (simp add: stop_result_Cons)
  next
    case False
    then obtain j where j: "?f = int j" unfolding py_find_def by (auto simp: Let_def split: option.splits)
    then have at: "stands_at t s j \<and> off < j + length s \<and> (\<forall>i. stands_at t s i \<and> off < i + length s \<longrightarrow> j \<le> i)"
      using stop_found(1) [OF s assms(2)] by blast
    then have "stop_result t off incl (s # stop) (Some (s, if \<not> incl then int j else if j + length s = length t then -1 else int (j + length s)))"
      unfolding stop_result_def option.case prod.case by (intro exI [of _ "[]"] exI [of _ stop] exI [of _ j]) simp
    moreover have "j + length s \<le> length t" using at by (simp add: stands_at_def)
    ultimately show ?thesis using j by (auto simp: Let_def)
  qed
qed

lemma check_stop_strings_law:
  assumes "\<forall>s \<in> set stop. s \<noteq> []" "off \<le> length t"
  shows "stop_result t off incl stop (check_stop_strings t (int (length t) - int off) stop incl)"
proof (cases "off < length t \<and> stop \<noteq> []")
  case True
  then show ?thesis using check_stop_loop_result assms(1) by (simp add: check_stop_strings_def)
next
  case False
  then show ?thesis using assms(2) by (auto simp: check_stop_strings_def stop_result_def stands_at_def)
qed

text \<open>
  C38: Given how much of the text was searched before, the stop string check finds exactly the occurrences that end in
  the new part: it returns nothing when no stop string has one, and otherwise the first stop string of the list that has one, at its
  first such occurrence, with the length to which the text is to be cut: before the stop string or, when it is to be included, behind it.
\<close>

theorem check_stop_strings_correct:
  assumes "\<forall>s \<in> set stop. s \<noteq> []" "off \<le> length output_text"
  shows "stop_result output_text off include_in_output stop
    (check_stop_strings output_text (int (length output_text) - int off) stop include_in_output)"
  using assms by (rule check_stop_strings_law)

theorem check_stop_strings_correct_witness:
  "stop_result [97, 98, 99, 98, 99, 100] 4 False [[120], [98, 99]] (check_stop_strings [97, 98, 99, 98, 99, 100] 2 [[120], [98, 99]] False)
    \<and> check_stop_strings [97, 98, 99, 98, 99, 100] 2 [[120], [98, 99]] False = Some ([98, 99], 3)"
proof
  show "stop_result [97, 98, 99, 98, 99, 100] 4 False [[120], [98, 99]] (check_stop_strings [97, 98, 99, 98, 99, 100] 2 [[120], [98, 99]] False)"
    using check_stop_strings_correct [of "[[120], [98, 99]]" 4 "[97, 98, 99, 98, 99, 100]" False] by simp
  show "check_stop_strings [97, 98, 99, 98, 99, 100] 2 [[120], [98, 99]] False = Some ([98, 99], 3)" by code_simp
qed

text \<open>
  With several stop strings the list decides, not the text: an earlier occurrence of a later stop string stays in the text that is
  returned, although the stop strings are to be excluded.
\<close>

lemma earlier_stop_string_kept:
  "check_stop_strings [120, 97, 98] 3 [[98], [97]] False = Some ([98], 2)" "stands_at (take 2 [120, 97, 98 :: int]) [97] 1"
  by (code_simp, simp add: stands_at_def)

section \<open>Updates\<close>

text \<open>The part of a detokenizer that no update changes.\<close>

definition same_params :: "'s detokenizer \<Rightarrow> 's detokenizer \<Rightarrow> bool" where
  "same_params d d' \<longleftrightarrow> dt_stop d' = dt_stop d \<and> dt_min_tokens d' = dt_min_tokens d \<and> dt_include_stop d' = dt_include_stop d
     \<and> dt_stop_buffer_length d' = dt_stop_buffer_length d \<and> dt_last_output_text_offset d' = dt_last_output_text_offset d
     \<and> (dt_decoder d' = NoText \<longleftrightarrow> dt_decoder d = NoText) \<and> dt_prompt_len d' = dt_prompt_len d"

lemma same_params_refl [simp]: "same_params d d"
  by (simp add: same_params_def)

lemma same_params_trans: "same_params d d' \<Longrightarrow> same_params d' d'' \<Longrightarrow> same_params d d''"
  by (simp add: same_params_def)

lemma decode_next_same:
  "decode_next tk lib t d = Inr (txt, d') \<Longrightarrow> same_params d d' \<and> dt_token_ids d' = dt_token_ids d \<and> dt_output_text d' = dt_output_text d"
  by (auto simp: decode_next_def slow_decode_next_def same_params_def dt_prompt_len_def split: decoder.splits prod.splits)

lemma decode_one_law:
  assumes "decode_one tk lib t (d, off) = Inr (d', off')" "off \<le> length (dt_output_text d)"
  shows "same_params d d'" "dt_token_ids d' = dt_token_ids d @ [t]" "\<exists>x. dt_output_text d' = dt_output_text d @ x"
    "off \<le> off'" "off' \<le> length (dt_output_text d')"
proof -
  from assms(1) obtain piece d1 where n: "decode_next tk lib t (d\<lparr>dt_token_ids := dt_token_ids d @ [t]\<rparr>) = Inr (piece, d1)"
    and d': "d' = d1\<lparr>dt_output_text := dt_output_text d1 @ piece\<rparr>"
    and off': "off' = (if dt_min_tokens d' \<noteq> 0 \<and> dt_num_output_tokens d' \<le> dt_min_tokens d' then length (dt_output_text d') else off)"
    by (auto simp: decode_one_def Let_def)
  from decode_next_same [OF n] have "same_params d d1" "dt_token_ids d1 = dt_token_ids d @ [t]" "dt_output_text d1 = dt_output_text d"
    by (auto simp: same_params_def dt_prompt_len_def)
  with d' off' assms(2) show "same_params d d'" "dt_token_ids d' = dt_token_ids d @ [t]" "\<exists>x. dt_output_text d' = dt_output_text d @ x"
    "off \<le> off'" "off' \<le> length (dt_output_text d')"
    by (auto simp: same_params_def dt_prompt_len_def)
qed

lemma decode_all_law:
  assumes "fold_res (decode_one tk lib) toks (d, off) = Inr (d', off')" "off \<le> length (dt_output_text d)"
  shows "same_params d d' \<and> dt_token_ids d' = dt_token_ids d @ toks \<and> (\<exists>x. dt_output_text d' = dt_output_text d @ x)
    \<and> off \<le> off' \<and> off' \<le> length (dt_output_text d')"
  using assms
proof (induction toks arbitrary: d off)
  case (Cons t toks)
  then obtain d1 off1 where one: "decode_one tk lib t (d, off) = Inr (d1, off1)" and rest: "fold_res (decode_one tk lib) toks (d1, off1) = Inr (d', off')"
    by auto
  note L = decode_one_law [OF one Cons.prems(2)]
  from Cons.IH [OF rest L(5)] L show ?case using same_params_trans by (auto intro: same_params_trans)
qed simp

text \<open>
  A detokenizer whose text is streamed: what was given out is \<open>take offset text\<close>, and behind it there is still room for the
  beginning of every stop string that is to be left out.
\<close>

definition stream_ok :: "'s detokenizer \<Rightarrow> bool" where
  "stream_ok d \<longleftrightarrow> (\<forall>s \<in> set (dt_stop d). s \<noteq> [] \<and> (\<not> dt_include_stop d \<longrightarrow> length s \<le> Suc (dt_stop_buffer_length d)))
     \<and> 0 \<le> dt_last_output_text_offset d
     \<and> (dt_last_output_text_offset d = 0 \<or> dt_last_output_text_offset d + int (dt_stop_buffer_length d) \<le> int (length (dt_output_text d)))"

definition given_out :: "'s detokenizer \<Rightarrow> utext" where
  "given_out d = take (nat (dt_last_output_text_offset d)) (dt_output_text d)"

lemma stream_ok_init: "\<forall>s \<in> set (dt_stop (base_init p)). s \<noteq> [] \<Longrightarrow> stream_ok (base_init p)"
proof -
  have "length s \<le> Suc (Max (length ` set l) - 1)" if "s \<in> set l" for s :: utext and l
  proof -
    have "length s \<le> Max (length ` set l)" using that by (intro Max_ge) auto
    then show ?thesis by linarith
  qed
  moreover assume "\<forall>s \<in> set (dt_stop (base_init p)). s \<noteq> []"
  ultimately show ?thesis by (auto simp: stream_ok_def base_init_def Let_def)
qed

text \<open>The stop check cuts nothing off that was given out.\<close>

lemma evaluate_stop_law:
  assumes ok: "stream_ok d" and off: "off \<le> length (dt_output_text d)"
    and given: "dt_last_output_text_offset d = 0 \<or> dt_last_output_text_offset d + int (dt_stop_buffer_length d) \<le> int off"
    and e: "evaluate_stop off d = (r, d')"
  shows "same_params d d'" "dt_token_ids d' = dt_token_ids d" "r = None \<Longrightarrow> d' = d"
    "\<exists>n. dt_output_text d' = take n (dt_output_text d) \<and> dt_last_output_text_offset d \<le> int n"
    "given_out d' = given_out d" "dt_last_output_text_offset d \<le> int (length (dt_output_text d'))"
proof -
  have "same_params d d' \<and> dt_token_ids d' = dt_token_ids d \<and> (r = None \<longrightarrow> d' = d)
    \<and> (\<exists>n. dt_output_text d' = take n (dt_output_text d) \<and> dt_last_output_text_offset d \<le> int n)"
  proof (cases "r = None")
    case True
    then have "d' = d" using e by (auto simp: evaluate_stop_def split: if_splits option.splits)
    moreover have "dt_last_output_text_offset d \<le> int (length (dt_output_text d))" using given off by auto
    ultimately show ?thesis by (auto intro: exI [of _ "length (dt_output_text d)"])
  next
    case False
    then obtain s pos where c: "check_stop_strings (dt_output_text d) (int (length (dt_output_text d)) - int off) (dt_stop d) (dt_include_stop d) = Some (s, pos)"
      and d': "d' = (if pos \<noteq> -1 then d\<lparr>dt_output_text := take (nat pos) (dt_output_text d)\<rparr> else d)"
      using e by (auto simp: evaluate_stop_def split: if_splits option.splits)
    have "stop_result (dt_output_text d) off (dt_include_stop d) (dt_stop d) (Some (s, pos))"
      using check_stop_strings_law [of "dt_stop d" off "dt_output_text d" "dt_include_stop d"] ok off c by (simp add: stream_ok_def)
    then obtain j where j: "s \<in> set (dt_stop d)" "off < j + length s" "j + length s \<le> length (dt_output_text d)"
      "pos = (if \<not> dt_include_stop d then int j else if j + length s = length (dt_output_text d) then -1 else int (j + length s))"
      unfolding stop_result_def stands_at_def by auto
    have "length s \<le> Suc (dt_stop_buffer_length d)" if "\<not> dt_include_stop d" using ok j(1) that by (simp add: stream_ok_def)
    then have "dt_last_output_text_offset d \<le> pos \<or> pos = -1" using j(2-4) given by (auto split: if_splits)
    moreover have "dt_last_output_text_offset d \<le> int (length (dt_output_text d))" using given off by auto
    ultimately show ?thesis using d' False
      by (auto simp: same_params_def dt_prompt_len_def intro: exI [of _ "nat pos"] exI [of _ "length (dt_output_text d)"])
  qed
  then show "same_params d d'" "dt_token_ids d' = dt_token_ids d" "r = None \<Longrightarrow> d' = d"
    and n: "\<exists>n. dt_output_text d' = take n (dt_output_text d) \<and> dt_last_output_text_offset d \<le> int n" by auto
  have "dt_last_output_text_offset d \<le> int (length (dt_output_text d))" using given off by auto
  with n \<open>same_params d d'\<close> show "given_out d' = given_out d" "dt_last_output_text_offset d \<le> int (length (dt_output_text d'))"
    by (auto simp: given_out_def same_params_def min_def)
qed

lemma dt_update_cases:
  fixes d :: "'s detokenizer"
  assumes u: "dt_update tk lib new_ids stop_terminated d = Inr (r, d')"
  defines "skip \<equiv> stop_terminated \<and> \<not> dt_include_stop d"
  obtains (quiet) "dt_output_text d' = dt_output_text d" "r = None" "same_params d d'" "dt_token_ids d' = dt_token_ids d @ new_ids"
  | (decoded) d1 off where "new_ids \<noteq> []" "fold_res (decode_one tk lib) (if skip then butlast new_ids else new_ids) (d, length (dt_output_text d)) = Inr (d1, off)"
      "evaluate_stop off (if skip then d1\<lparr>dt_token_ids := dt_token_ids d1 @ [last new_ids]\<rparr> else d1) = (r, d')"
proof (cases "dt_decoder d = NoText \<or> new_ids = []")
  case True
  then have "r = None" "d' = d\<lparr>dt_token_ids := dt_token_ids d @ new_ids\<rparr>" using u by (auto simp: dt_update_def split: if_splits)
  then show ?thesis by (intro quiet) (auto simp: same_params_def dt_prompt_len_def)
next
  case False
  then have "res_bind (fold_res (decode_one tk lib) (if skip then butlast new_ids else new_ids) (d, length (dt_output_text d))) (\<lambda>(d1, off).
      Inr (evaluate_stop off (if skip then d1\<lparr>dt_token_ids := dt_token_ids d1 @ [last new_ids]\<rparr> else d1))) = Inr (r, d')"
    using u unfolding dt_update_def skip_def Let_def by simp
  then obtain d1 off where "fold_res (decode_one tk lib) (if skip then butlast new_ids else new_ids) (d, length (dt_output_text d)) = Inr (d1, off)"
      "evaluate_stop off (if skip then d1\<lparr>dt_token_ids := dt_token_ids d1 @ [last new_ids]\<rparr> else d1) = (r, d')"
    unfolding res_bind_eq_Inr by (auto split del: if_split)
  with False decoded show ?thesis by blast
qed

lemma dt_update_law:
  assumes ok: "stream_ok d" and u: "dt_update tk lib new_ids stop_terminated d = Inr (r, d')"
  shows "same_params d d'" "dt_token_ids d' = dt_token_ids d @ new_ids" "r = None \<Longrightarrow> stream_ok d'"
    "given_out d' = given_out d" "dt_last_output_text_offset d' \<le> int (length (dt_output_text d'))"
proof -
  let ?skip = "stop_terminated \<and> \<not> dt_include_stop d"
  have len: "dt_last_output_text_offset d \<le> int (length (dt_output_text d))" using ok by (auto simp: stream_ok_def)
  consider (quiet) "dt_output_text d' = dt_output_text d" "r = None" "same_params d d'" "dt_token_ids d' = dt_token_ids d @ new_ids"
    | (decoded) d1 off where "new_ids \<noteq> []" "fold_res (decode_one tk lib) (if ?skip then butlast new_ids else new_ids) (d, length (dt_output_text d)) = Inr (d1, off)"
      "evaluate_stop off (if ?skip then d1\<lparr>dt_token_ids := dt_token_ids d1 @ [last new_ids]\<rparr> else d1) = (r, d')"
    using dt_update_cases [OF u] by blast
  then have "same_params d d' \<and> dt_token_ids d' = dt_token_ids d @ new_ids \<and> (r = None \<longrightarrow> stream_ok d')
    \<and> given_out d' = given_out d \<and> dt_last_output_text_offset d' \<le> int (length (dt_output_text d'))"
  proof cases
    case quiet
    then show ?thesis using ok len by (auto simp: stream_ok_def given_out_def same_params_def)
  next
    case decoded
    define d2 where "d2 = (if ?skip then d1\<lparr>dt_token_ids := dt_token_ids d1 @ [last new_ids]\<rparr> else d1)"
    from decode_all_law [OF decoded(2) order_refl] obtain x where D: "same_params d d1" "dt_output_text d1 = dt_output_text d @ x"
      "dt_token_ids d1 = dt_token_ids d @ (if ?skip then butlast new_ids else new_ids)" "length (dt_output_text d) \<le> off" "off \<le> length (dt_output_text d1)"
      by blast
    have "same_params d1 d2" "dt_output_text d2 = dt_output_text d1" by (simp_all add: d2_def same_params_def dt_prompt_len_def)
    moreover have "dt_token_ids d2 = dt_token_ids d @ new_ids" using D(3) decoded(1) by (simp add: d2_def)
    ultimately have D2: "same_params d d2" "dt_output_text d2 = dt_output_text d @ x" "dt_token_ids d2 = dt_token_ids d @ new_ids"
      using D(2) same_params_trans [OF D(1)] by simp_all
    have ok2: "stream_ok d2" using ok D2(1,2) by (auto simp: stream_ok_def same_params_def)
    have given2: "dt_last_output_text_offset d2 = 0 \<or> dt_last_output_text_offset d2 + int (dt_stop_buffer_length d2) \<le> int off"
      using ok D(4) D2(1) by (auto simp: stream_ok_def same_params_def)
    have off2: "off \<le> length (dt_output_text d2)" using D(2,5) D2(2) by simp
    note E = evaluate_stop_law [OF ok2 off2 given2 decoded(3) [folded d2_def]]
    have "given_out d2 = given_out d" using D2(1,2) len by (simp add: given_out_def same_params_def)
    moreover have "dt_last_output_text_offset d' = dt_last_output_text_offset d2" using E(1) by (simp add: same_params_def)
    ultimately show ?thesis using E(2-6) ok2 D2(3) same_params_trans [OF D2(1) E(1)] by auto
  qed
  then show "same_params d d'" "dt_token_ids d' = dt_token_ids d @ new_ids" "r = None \<Longrightarrow> stream_ok d'"
    "given_out d' = given_out d" "dt_last_output_text_offset d' \<le> int (length (dt_output_text d'))" by auto
qed

text \<open>The next piece continues what was given out; at the end the whole text has been given out.\<close>

lemma get_next_law:
  assumes g: "get_next_output_text finished True d = (piece, d')" and dec: "dt_decoder d \<noteq> NoText"
    and off: "0 \<le> dt_last_output_text_offset d" "dt_last_output_text_offset d \<le> int (length (dt_output_text d))"
  shows "given_out d @ piece = given_out d'" "finished \<Longrightarrow> given_out d' = dt_output_text d'"
    "\<not> finished \<Longrightarrow> stream_ok d \<Longrightarrow> stream_ok d'" "dt_output_text d' = dt_output_text d" "dt_token_ids d' = dt_token_ids d" "dt_decoder d' = dt_decoder d"
proof -
  let ?len = "int (length (dt_output_text d)) - int (if finished then 0 else dt_stop_buffer_length d)"
  have "given_out d @ piece = given_out d' \<and> (finished \<longrightarrow> given_out d' = dt_output_text d') \<and> (\<not> finished \<longrightarrow> stream_ok d \<longrightarrow> stream_ok d')
    \<and> dt_output_text d' = dt_output_text d \<and> dt_token_ids d' = dt_token_ids d \<and> dt_decoder d' = dt_decoder d"
  proof (cases "dt_last_output_text_offset d < ?len")
    case True
    then have p: "piece = py_slice (nat (dt_last_output_text_offset d)) (nat ?len) (dt_output_text d)" and d': "d' = d\<lparr>dt_last_output_text_offset := ?len\<rparr>"
      using g dec by (auto simp: get_next_output_text_def Let_def)
    have "nat (dt_last_output_text_offset d) \<le> nat ?len" using True by simp
    then have "given_out d @ piece = given_out d'" unfolding p d' given_out_def py_slice_def
      by (simp add: take_add [symmetric])
    moreover have "given_out d' = dt_output_text d'" if finished using that by (simp add: d' given_out_def)
    moreover have "stream_ok d'" if "\<not> finished" "stream_ok d" using that True off(1) by (auto simp: d' stream_ok_def)
    ultimately show ?thesis by (simp add: d')
  next
    case False
    then have "piece = []" "d' = d" using g dec by (auto simp: get_next_output_text_def Let_def)
    moreover have "given_out d = dt_output_text d" if finished using False off that by (simp add: given_out_def)
    ultimately show ?thesis by simp
  qed
  then show "given_out d @ piece = given_out d'" "finished \<Longrightarrow> given_out d' = dt_output_text d'"
    "\<not> finished \<Longrightarrow> stream_ok d \<Longrightarrow> stream_ok d'" "dt_output_text d' = dt_output_text d" "dt_token_ids d' = dt_token_ids d" "dt_decoder d' = dt_decoder d"
    by auto
qed

section \<open>The slow detokenizer\<close>

text \<open>
  What is asked of the tokenizer. Its text of a token list may depend on the surrounding tokens (the
  cleanup that the offsets are there to defeat: a leading space that is dropped at the start of a
  string, for instance), so texts cannot simply be joined. Tokens with an empty text add nothing, and what the tokens
  \<open>b\<close> add to a text that does not end in the middle of a character depends on the tokens before them only
  through any last part \<open>ctx\<close> of these in which some token has a text: they add the same after \<open>ctx\<close> alone
  as after all tokens before.
\<close>

definition local_cleanup :: "tokenizer \<Rightarrow> bool" where
  "local_cleanup tk \<longleftrightarrow> (tk_is_fast tk \<or> get_added_vocab tk = [])
     \<and> (\<forall>a b. (\<forall>t \<in> set b. t = []) \<longrightarrow> convert_tokens_to_string tk (a @ b) = convert_tokens_to_string tk a)
     \<and> (\<forall>a ctx b. (\<exists>t \<in> set ctx. t \<noteq> []) \<longrightarrow> \<not> ends_incomplete (convert_tokens_to_string tk (a @ ctx)) \<longrightarrow>
          (\<exists>u. convert_tokens_to_string tk (ctx @ b) = convert_tokens_to_string tk ctx @ u
             \<and> convert_tokens_to_string tk (a @ ctx @ b) = convert_tokens_to_string tk (a @ ctx) @ u))"

lemma local_cleanupD:
  assumes "local_cleanup tk"
  shows "tk_is_fast tk \<or> get_added_vocab tk = []"
    and "\<forall>t \<in> set b. t = [] \<Longrightarrow> convert_tokens_to_string tk (a @ b) = convert_tokens_to_string tk a"
    and "\<exists>t \<in> set ctx. t \<noteq> [] \<Longrightarrow> \<not> ends_incomplete (convert_tokens_to_string tk (a @ ctx)) \<Longrightarrow>
      \<exists>u. convert_tokens_to_string tk (ctx @ b) = convert_tokens_to_string tk ctx @ u
        \<and> convert_tokens_to_string tk (a @ ctx @ b) = convert_tokens_to_string tk (a @ ctx) @ u"
  using assms unfolding local_cleanup_def by blast+

definition token_texts :: "tokenizer \<Rightarrow> bool \<Rightarrow> int \<Rightarrow> utext list" where
  "token_texts tk skip t =
     (if 0 \<le> t \<and> t < tk_len tk then replace_none_with_empty (convert_ids_to_tokens tk [t] skip) else [[]])"

text \<open>
  The tokens before the read offset give the text \<open>base\<close> of the prompt followed by the text \<open>t\<close> written so
  far; the prefix window is a usable context; what the tokens after the read offset add is nothing or
  ends in the middle of a character.
\<close>

definition slow_inv :: "tokenizer \<Rightarrow> utext \<Rightarrow> slow_state \<Rightarrow> utext \<Rightarrow> bool" where
  "slow_inv tk base s t \<longleftrightarrow> sl_prefix_offset s \<le> sl_read_offset s \<and> sl_read_offset s \<le> length (sl_tokens s)
     \<and> convert_tokens_to_string tk (take (sl_read_offset s) (sl_tokens s)) = base @ t \<and> \<not> ends_incomplete (base @ t)
     \<and> (\<exists>w \<in> set (py_slice (sl_prefix_offset s) (sl_read_offset s) (sl_tokens s)). w \<noteq> [])
     \<and> (\<exists>u. convert_tokens_to_string tk (sl_tokens s) = base @ t @ u \<and> (u = [] \<or> ends_incomplete u))"

lemma slice_drop: "a \<le> b \<Longrightarrow> b \<le> length xs \<Longrightarrow> py_slice a b xs @ drop b xs = drop a xs"
  unfolding py_slice_def by (metis append_take_drop_id drop_drop le_add_diff_inverse2)

lemma ends_incomplete_append: "x \<noteq> [] \<Longrightarrow> ends_incomplete (y @ x) \<longleftrightarrow> ends_incomplete x"
  by (simp add: ends_incomplete_def)

lemma detokenize_one:
  "ids \<noteq> [] \<Longrightarrow> detokenize_incrementally tk ids (Some ts) p r skip spaces =
    (let T = ts @ token_texts tk skip (last ids); a = tokens_text tk skip spaces (py_slice p r T); b = tokens_text tk skip spaces (drop p T)
     in if length b \<le> length a \<or> ends_incomplete b then Inr (token_texts tk skip (last ids), [], p, r)
        else Inr (token_texts tk skip (last ids), drop (length a) b, r, length T))"
  unfolding detokenize_incrementally_def token_texts_def Let_def by (simp del: drop_append)

lemma split_at_offsets:
  "p \<le> r \<Longrightarrow> r \<le> length xs \<Longrightarrow> take p xs @ py_slice p r xs = take r xs \<and> xs = take p xs @ py_slice p r xs @ drop r xs"
  by (metis append_take_drop_id append.assoc drop_take py_slice_def slice_drop take_take min_def)

text \<open>One token: either nothing is added and the rest is empty or unfinished, or everything up to here is added.\<close>

lemma slow_step:
  assumes j: "local_cleanup tk" and inv: "slow_inv tk base s t" and ids: "ids \<noteq> []" "last ids = x"
  shows "\<exists>piece s'. slow_decode_next tk ids s = Inr (piece, s') \<and> slow_inv tk base s' (t @ piece)
    \<and> sl_tokens s' = sl_tokens s @ token_texts tk (sl_skip s) x \<and> sl_skip s' = sl_skip s"
proof -
  define T where "T = sl_tokens s @ token_texts tk (sl_skip s) x"
  let ?conv = "convert_tokens_to_string tk"
  let ?r = "sl_read_offset s" and ?p = "sl_prefix_offset s"
  let ?ctx = "py_slice ?p ?r T"
  have conv: "tokens_text tk skip spaces l = ?conv l" for skip spaces l
    using local_cleanupD(1) [OF j] by (simp add: tokens_text_def)
  have I: "?p \<le> ?r" "?r \<le> length (sl_tokens s)" "\<not> ends_incomplete (base @ t)" using inv by (auto simp: slow_inv_def)
  have len: "?r \<le> length T" using I(2) by (simp add: T_def)
  have "py_slice a ?r T = py_slice a ?r (sl_tokens s)" for a
    using I(2) unfolding T_def by (rule py_slice_append_left)
  moreover have "take ?r T = take ?r (sl_tokens s)" using I(2) by (simp add: T_def)
  ultimately have ctx: "\<exists>w \<in> set ?ctx. w \<noteq> []" and done_text: "?conv (take ?r T) = base @ t"
    using inv by (auto simp: slow_inv_def)
  note parts = split_at_offsets [OF I(1) len]
  obtain u where u: "?conv (?ctx @ drop ?r T) = ?conv ?ctx @ u" "?conv T = base @ t @ u"
    using local_cleanupD(3) [OF j ctx, of "take ?p T" "drop ?r T"] parts done_text I(3) by auto
  have new: "?conv (drop ?p T) = ?conv ?ctx @ u" using u(1) slice_drop [OF I(1) len] by simp
  have d: "detokenize_incrementally tk ids (Some (sl_tokens s)) ?p ?r (sl_skip s) (sl_spaces s) =
      (if u = [] \<or> ends_incomplete (?conv ?ctx @ u) then Inr (token_texts tk (sl_skip s) x, [], ?p, ?r)
       else Inr (token_texts tk (sl_skip s) x, u, ?r, length T))"
    unfolding detokenize_one [OF ids(1)] ids(2) T_def [symmetric] Let_def conv new by auto
  show ?thesis
  proof (cases "u = [] \<or> ends_incomplete (?conv ?ctx @ u)")
    case True
    then have "u = [] \<or> ends_incomplete u" using ends_incomplete_append by blast
    then have "slow_inv tk base (s\<lparr>sl_tokens := T\<rparr>) t" using I len ctx done_text u(2) by (auto simp: slow_inv_def)
    moreover have "slow_decode_next tk ids s = Inr ([], s\<lparr>sl_tokens := T\<rparr>)" using d True by (simp add: slow_decode_next_def T_def)
    ultimately show ?thesis by (intro exI [of _ "[]"] exI [of _ "s\<lparr>sl_tokens := T\<rparr>"]) (simp add: T_def)
  next
    case False
    let ?s = "s\<lparr>sl_tokens := T, sl_prefix_offset := ?r, sl_read_offset := length T\<rparr>"
    have rest: "u \<noteq> []" "\<not> ends_incomplete (base @ t @ u)"
      using False ends_incomplete_append [of u "?conv ?ctx"] ends_incomplete_append [of u "base @ t"] by simp_all
    have "\<exists>w \<in> set (drop ?r T). w \<noteq> []"
    proof (rule ccontr)
      assume "\<not> (\<exists>w \<in> set (drop ?r T). w \<noteq> [])"
      then have "?conv (?ctx @ drop ?r T) = ?conv ?ctx" by (intro local_cleanupD(2) [OF j]) blast
      then show False using u(1) rest(1) by simp
    qed
    then have "slow_inv tk base ?s (t @ u)" using rest u(2) len by (simp add: slow_inv_def py_slice_def)
    moreover have "slow_decode_next tk ids s = Inr (u, ?s)" using d False by (simp add: slow_decode_next_def T_def)
    ultimately show ?thesis by (intro exI [of _ u] exI [of _ ?s]) (simp add: T_def)
  qed
qed

lemma slow_decode_all:
  assumes j: "local_cleanup tk" and dec: "dt_decoder d = Slow s" and inv: "slow_inv tk base s (dt_output_text d)"
  shows "\<exists>d' off' s'. fold_res (decode_one tk lib) toks (d, off) = Inr (d', off') \<and> dt_decoder d' = Slow s'
    \<and> slow_inv tk base s' (dt_output_text d') \<and> sl_tokens s' = sl_tokens s @ concat (map (token_texts tk (sl_skip s)) toks)"
  using dec inv
proof (induction toks arbitrary: d off s)
  case (Cons x toks)
  from slow_step [OF j Cons.prems(2), of "dt_token_ids d @ [x]" x] obtain piece s1 where
    one: "slow_decode_next tk (dt_token_ids d @ [x]) s = Inr (piece, s1)" "slow_inv tk base s1 (dt_output_text d @ piece)"
      "sl_tokens s1 = sl_tokens s @ token_texts tk (sl_skip s) x" "sl_skip s1 = sl_skip s" by auto
  define d1 where "d1 = d\<lparr>dt_token_ids := dt_token_ids d @ [x], dt_decoder := Slow s1, dt_output_text := dt_output_text d @ piece\<rparr>"
  define off1 where "off1 = (if dt_min_tokens d1 \<noteq> 0 \<and> dt_num_output_tokens d1 \<le> dt_min_tokens d1 then length (dt_output_text d1) else off)"
  have step: "decode_one tk lib x (d, off) = Inr (d1, off1)"
    using one(1) Cons.prems(1) by (simp add: decode_one_def decode_next_def Let_def d1_def off1_def)
  have "dt_decoder d1 = Slow s1" "slow_inv tk base s1 (dt_output_text d1)" using one(2) by (simp_all add: d1_def)
  from Cons.IH [OF this, of off1] show ?case using step one(3,4) by auto
qed auto

text \<open>
  C39: the slow detokenizer with a tokenizer whose cleanup is local (\<open>local_cleanup\<close>) and without added
  vocabulary. Started on a prompt whose last five tokens have some text and whose text does not end in the middle of a
  character, it never fails, and after any sampled tokens the text of the prompt tokens it keeps, followed by what it has
  written and by what it still holds back, is the text of all these tokens converted at once; it holds back
  nothing, or a text that ends in an unfinished character. So the offsets do defeat a cleanup at the start of a string.
\<close>

theorem slow_detokenizer_complete:
  assumes "local_cleanup tk" and "slow_init tk p (Some prompt) None = Inr d"
    and "prompt_texts = fst (convert_prompt_ids_to_tokens tk prompt (dp_skip_special p))"
    and "\<exists>w \<in> set (drop (length prompt_texts - 5) prompt_texts). w \<noteq> []"
    and "\<not> ends_incomplete (convert_tokens_to_string tk prompt_texts)"
  shows "\<exists>d' off rest. fold_res (decode_one tk lib) toks (d, 0) = Inr (d', off)
    \<and> convert_tokens_to_string tk (prompt_texts @ concat (map (token_texts tk (dp_skip_special p)) toks))
        = convert_tokens_to_string tk prompt_texts @ dt_output_text d' @ rest
    \<and> (rest = [] \<or> ends_incomplete rest) \<and> \<not> ends_incomplete (dt_output_text d')"
proof -
  let ?n = "length prompt_texts"
  let ?base = "convert_tokens_to_string tk prompt_texts"
  have len: "snd (convert_prompt_ids_to_tokens tk prompt (dp_skip_special p)) = (?n - 5, ?n)"
    using assms(3) by (simp add: convert_prompt_ids_to_tokens_def Let_def replace_none_with_empty_def)
  then have pt: "convert_prompt_ids_to_tokens tk prompt (dp_skip_special p) = (prompt_texts, ?n - 5, ?n)"
    using assms(3) by (metis prod.collapse)
  obtain s where s: "dt_decoder d = Slow s" "sl_tokens s = prompt_texts" "sl_prefix_offset s = ?n - 5" "sl_read_offset s = ?n"
    "sl_skip s = dp_skip_special p" "dt_output_text d = []"
    using assms(2) pt by (auto simp: slow_init_def base_init_def Let_def split: if_splits)
  have "slow_inv tk ?base s (dt_output_text d)"
    using assms(4,5) s by (simp add: slow_inv_def py_slice_def)
  from slow_decode_all [OF assms(1) s(1) this, of lib toks 0] obtain d' off s' where
    d': "fold_res (decode_one tk lib) toks (d, 0) = Inr (d', off)" "slow_inv tk ?base s' (dt_output_text d')"
      "sl_tokens s' = prompt_texts @ concat (map (token_texts tk (dp_skip_special p)) toks)" using s by auto
  then obtain u where "convert_tokens_to_string tk (sl_tokens s') = ?base @ dt_output_text d' @ u" "u = [] \<or> ends_incomplete u"
    "\<not> ends_incomplete (?base @ dt_output_text d')" by (auto simp: slow_inv_def)
  moreover have "\<not> ends_incomplete (dt_output_text d')"
    using ends_incomplete_append [of "dt_output_text d'" ?base] calculation(3) by (auto simp: ends_incomplete_def)
  ultimately show ?thesis using d'(1,3) by auto
qed

definition example_tokenizer :: tokenizer where
  "example_tokenizer = \<lparr>tk_len = 26, tk_is_fast = False, convert_ids_to_tokens = (\<lambda>ids skip. map (\<lambda>i. Some [i + 97]) ids),
     convert_tokens_to_string = concat, get_added_vocab = [], all_special_tokens = []\<rparr>"

definition example_stream :: "unit stream_lib" where
  "example_stream = \<lparr>decode_stream = (\<lambda>_ _. ()), stream_step = (\<lambda>_ t. (StepToken (Some [t + 97]), ())), added_tokens_decoder = []\<rparr>"

definition example_params :: detok_params where
  "example_params = \<lparr>dp_stop = StopMany [[99, 100]], dp_min_tokens = 0, dp_include_stop = False, dp_skip_special = True, dp_spaces_between = True\<rparr>"

text \<open>A tokenizer that writes every word with a space before it and drops the space at the start of a string.\<close>

definition drop_space :: "utext \<Rightarrow> utext" where
  "drop_space x = (if x \<noteq> [] \<and> hd x = 32 then tl x else x)"

lemma drop_space_append: "x \<noteq> [] \<Longrightarrow> drop_space (x @ y) = drop_space x @ y"
  by (simp add: drop_space_def)

definition word_tokenizer :: tokenizer where
  "word_tokenizer = \<lparr>tk_len = 26, tk_is_fast = False, convert_ids_to_tokens = (\<lambda>ids skip. map (\<lambda>i. Some [32, i + 97]) ids),
     convert_tokens_to_string = (\<lambda>ts. drop_space (concat ts)),
     get_added_vocab = [], all_special_tokens = []\<rparr>"

lemma word_tokenizer_local: "local_cleanup word_tokenizer"
proof -
  let ?conv = "convert_tokens_to_string word_tokenizer"
  have c: "?conv ts = drop_space (concat ts)" "get_added_vocab word_tokenizer = []" for ts
    by (simp_all add: word_tokenizer_def)
  have "\<exists>u. ?conv (ctx @ b) = ?conv ctx @ u \<and> ?conv (a @ ctx @ b) = ?conv (a @ ctx) @ u"
    if "\<exists>t \<in> set ctx. t \<noteq> []" for a ctx b
  proof -
    have "concat ctx \<noteq> []" "concat (a @ ctx) \<noteq> []" using that by auto
    then show ?thesis
      using drop_space_append [of "concat ctx" "concat b"] drop_space_append [of "concat (a @ ctx)" "concat b"]
      by (intro exI [of _ "concat b"]) (simp add: c)
  qed
  moreover have "?conv (a @ b) = ?conv a" if "\<forall>t \<in> set b. t = []" for a b
  proof -
    have "concat b = []" using that by simp
    then show ?thesis by (simp only: c concat_append append_Nil2)
  qed
  ultimately show ?thesis unfolding local_cleanup_def c(2) by blast
qed

theorem slow_detokenizer_complete_witness:
  "\<exists>d d' off rest. slow_init word_tokenizer example_params (Some [7, 8]) None = Inr d
    \<and> fold_res (decode_one word_tokenizer example_stream) [0, 99, 1] (d, 0) = Inr (d', off)
    \<and> dt_output_text d' @ rest = [32, 97, 32, 98] \<and> (rest = [] \<or> ends_incomplete rest)"
proof -
  have init: "\<exists>d :: unit detokenizer. slow_init word_tokenizer example_params (Some [7, 8]) None = Inr d"
    by (simp add: slow_init_def length_from_prompt_token_ids_or_embeds_def convert_prompt_ids_to_tokens_def Let_def)
  then obtain d :: "unit detokenizer" where d: "slow_init word_tokenizer example_params (Some [7, 8]) None = Inr d" by blast
  have p: "[[32, 104], [32, 105]] = fst (convert_prompt_ids_to_tokens word_tokenizer [7, 8] (dp_skip_special example_params))"
    by (simp add: convert_prompt_ids_to_tokens_def word_tokenizer_def replace_none_with_empty_def Let_def)
  have out: "convert_tokens_to_string word_tokenizer ([[32, 104], [32, 105]] @ concat (map (token_texts word_tokenizer (dp_skip_special example_params)) [0, 99, 1]))
      = [104, 32, 105, 32, 97, 32, 98]"
    "convert_tokens_to_string word_tokenizer [[32, 104], [32, 105]] = [104, 32, 105]"
    by (simp_all add: token_texts_def word_tokenizer_def drop_space_def replace_none_with_empty_def)
  have u: "\<exists>w \<in> set (drop (length [[32, 104], [32, 105 :: int]] - 5) [[32, 104], [32, 105 :: int]]). w \<noteq> []"
    "\<not> ends_incomplete (convert_tokens_to_string word_tokenizer [[32, 104], [32, 105]])"
    by (simp_all add: ends_incomplete_def word_tokenizer_def drop_space_def)
  from slow_detokenizer_complete [OF word_tokenizer_local d p u, of example_stream "[0, 99, 1]"] d
  show ?thesis unfolding out by auto
qed

end
