(* ===== verification/Output_Processor.thy ===== *)
theory Output_Processor
  imports Detokenizer_Properties Scheduler_Update
begin

text \<open>
  The output side of the front end: src/vllm/vllm/v1/engine/output_processor.py, parallel_sampling.py and the merging of outputs
  in src/vllm/vllm/outputs.py. The outputs of the scheduler (\<^verbatim>\<open>EngineCoreOutput\<close>) become pieces of text and tokens, which are handed to
  the client through a collector, one per client request.

  Parent requests and collectors are shared between the children of a request with several samples: a reference is a number, and
  the processor holds the objects. Log probabilities, statistics, tracing, LoRA bookkeeping and the asyncio event that wakes the
  client are left out; a pooling output is its presence.
\<close>

section \<open>Outputs\<close>

datatype output_kind = CUMULATIVE | DELTA | FINAL_ONLY

datatype out_stop_reason = OutToken int | OutString utext

record completion_output =
  cm_index :: nat
  cm_text :: utext
  cm_token_ids :: "int list"
  cm_finish_reason :: "finish_reason option"
  cm_stop_reason :: "out_stop_reason option"

text \<open>An entry of the aggregator of a parent request that has no output yet is \<^verbatim>\<open>None\<close>.\<close>

record request_output =
  ro_request_id :: string
  ro_prompt :: "utext option"
  ro_prompt_token_ids :: "int list"
  ro_outputs :: "completion_output option list"
  ro_finished :: bool

record pooling_request_output =
  po_request_id :: string
  po_prompt_token_ids :: "int list"
  po_finished :: bool

datatype out_item = OutRequest request_output | OutPooling pooling_request_output | OutException py_error

text \<open>\<^verbatim>\<open>RequestOutput.add\<close>: the first output with the same index takes the new one in, otherwise it is appended.\<close>

definition merge_completion :: "bool \<Rightarrow> completion_output \<Rightarrow> completion_output \<Rightarrow> completion_output" where
  "merge_completion aggregate c nc =
     (if aggregate then c\<lparr>cm_text := cm_text c @ cm_text nc, cm_token_ids := cm_token_ids c @ cm_token_ids nc,
                           cm_finish_reason := cm_finish_reason nc, cm_stop_reason := cm_stop_reason nc\<rparr>
      else nc)"

fun add_completion :: "bool \<Rightarrow> completion_output option \<Rightarrow> completion_output option list \<Rightarrow> completion_output option list res" where
  "add_completion aggregate None [] = Inr [None]"
| "add_completion aggregate None (c # cs) = Inl AttributeError"
| "add_completion aggregate (Some nc) [] = Inr [Some nc]"
| "add_completion aggregate (Some nc) (None # cs) = Inl AttributeError"
| "add_completion aggregate (Some nc) (Some c # cs) =
     (if cm_index c = cm_index nc then Inr (Some (merge_completion aggregate c nc) # cs)
      else res_bind (add_completion aggregate (Some nc) cs) (\<lambda>cs'. Inr (Some c # cs')))"

definition request_output_add :: "bool \<Rightarrow> request_output \<Rightarrow> request_output \<Rightarrow> request_output res" where
  "request_output_add aggregate next_output o1 =
     res_bind (fold_res (add_completion aggregate) (ro_outputs next_output) (ro_outputs o1)) (\<lambda>outs.
       Inr (o1\<lparr>ro_finished := ro_finished o1 \<or> ro_finished next_output, ro_outputs := outs\<rparr>))"

section \<open>Collector\<close>

record collector =
  rc_aggregate :: bool
  rc_output :: "out_item option"

definition collector_init :: "output_kind \<Rightarrow> collector" where
  "collector_init kind = \<lparr>rc_aggregate = (kind = DELTA), rc_output = None\<rparr>"

definition collector_put :: "out_item \<Rightarrow> collector \<Rightarrow> collector res" where
  "collector_put item q =
     (case (rc_output q, item) of
        (None, _) \<Rightarrow> Inr (q\<lparr>rc_output := Some item\<rparr>)
      | (_, OutException e) \<Rightarrow> Inr (q\<lparr>rc_output := Some item\<rparr>)
      | (Some (OutRequest o1), OutRequest o2) \<Rightarrow>
          res_bind (request_output_add (rc_aggregate q) o2 o1) (\<lambda>o3. Inr (q\<lparr>rc_output := Some (OutRequest o3)\<rparr>))
      | (Some (OutPooling _), OutPooling _) \<Rightarrow> Inr (q\<lparr>rc_output := Some item\<rparr>)
      | _ \<Rightarrow> Inr q)"

text \<open>\<^verbatim>\<open>get_nowait\<close>; \<^verbatim>\<open>get\<close> waits until there is an output and then does the same.\<close>

definition collector_get :: "collector \<Rightarrow> out_item option res \<times> collector" where
  "collector_get q =
     (case rc_output q of
        Some (OutException e) \<Rightarrow> (Inl e, q\<lparr>rc_output := None\<rparr>)
      | out \<Rightarrow> (Inr out, q\<lparr>rc_output := None\<rparr>))"

section \<open>Parallel sampling\<close>

record child_params =
  ch_n :: nat
  ch_seed :: "int option"

record parent_request =
  pr_request_id :: string
  pr_external_req_id :: string
  pr_params :: child_params
  pr_output_kind :: output_kind
  pr_child_requests :: "string list"
  pr_output_aggregator :: "completion_output option list"
  pr_max_num_generation_tokens :: nat
  pr_cached_child_params :: "child_params option"

definition parent_init :: "string \<Rightarrow> string option \<Rightarrow> child_params \<Rightarrow> output_kind \<Rightarrow> parent_request res" where
  "parent_init rid ext params kind =
     (case ext of None \<Rightarrow> Inl AssertionError
      | Some e \<Rightarrow> Inr \<lparr>pr_request_id = rid, pr_external_req_id = e, pr_params = params, pr_output_kind = kind, pr_child_requests = [],
          pr_output_aggregator = (if kind = FINAL_ONLY then replicate (ch_n params) None else []),
          pr_max_num_generation_tokens = 0, pr_cached_child_params = None\<rparr>)"

definition get_child_sampling_params :: "nat \<Rightarrow> parent_request \<Rightarrow> child_params \<times> parent_request" where
  "get_child_sampling_params index p =
     (case pr_cached_child_params p of
        Some c \<Rightarrow> (c, p)
      | None \<Rightarrow>
          (case ch_seed (pr_params p) of
             None \<Rightarrow> let c = (pr_params p)\<lparr>ch_n := 1\<rparr> in (c, p\<lparr>pr_cached_child_params := Some c\<rparr>)
           | Some seed \<Rightarrow> ((pr_params p)\<lparr>ch_n := 1, ch_seed := Some (seed + int index)\<rparr>, p)))"

text \<open>Decimal digits of an index.\<close>

fun show_nat :: "nat \<Rightarrow> string" where
  "show_nat n = (if n < 10 then [char_of (48 + n)] else show_nat (n div 10) @ [char_of (48 + n mod 10)])"

definition child_id :: "nat \<Rightarrow> string \<Rightarrow> string" where
  "child_id index rid = show_nat index @ ''_'' @ rid"

definition get_child_info :: "nat \<Rightarrow> parent_request \<Rightarrow> (string \<times> child_params) \<times> parent_request" where
  "get_child_info index p =
     (let cid = child_id index (pr_request_id p);
          (c, p1) = get_child_sampling_params index (p\<lparr>pr_child_requests := List.insert cid (pr_child_requests p)\<rparr>)
      in ((cid, c), p1))"

definition get_outputs :: "string \<Rightarrow> completion_output \<Rightarrow> parent_request \<Rightarrow> ((completion_output option list \<times> bool) \<times> parent_request) res" where
  "get_outputs child_request_id completion_output p =
     (let fin = (cm_finish_reason completion_output \<noteq> None);
          already = (fin \<and> child_request_id \<notin> set (pr_child_requests p));
          p1 = (if fin then p\<lparr>pr_child_requests := removeAll child_request_id (pr_child_requests p)\<rparr> else p)
      in if pr_output_kind p1 \<noteq> FINAL_ONLY
         then Inr ((if already then [] else [Some completion_output], pr_child_requests p1 = []), p1)
         else guard (cm_index completion_output < length (pr_output_aggregator p1)) IndexError
              (let p2 = p1\<lparr>pr_output_aggregator := (pr_output_aggregator p1)[cm_index completion_output := Some completion_output]\<rparr>
               in Inr ((if pr_child_requests p2 \<noteq> [] then [] else pr_output_aggregator p2, pr_child_requests p2 = []), p2)))"

definition observe_num_generation_tokens :: "nat \<Rightarrow> parent_request \<Rightarrow> nat \<times> parent_request" where
  "observe_num_generation_tokens n p =
     (let m = max n (pr_max_num_generation_tokens p) in (m, p\<lparr>pr_max_num_generation_tokens := m\<rparr>))"

text \<open>The statistics of an iteration are the two lists that are appended to.\<close>

definition observe_finished_request ::
  "parent_request option \<Rightarrow> nat \<Rightarrow> nat list \<times> nat list \<Rightarrow> parent_request option \<times> nat list \<times> nat list" where
  "observe_finished_request parent_req num_generation_tokens = (\<lambda>(max_tokens_iter, n_params_iter).
     case parent_req of
       None \<Rightarrow> (None, max_tokens_iter @ [num_generation_tokens], n_params_iter @ [1])
     | Some p \<Rightarrow>
         (case observe_num_generation_tokens num_generation_tokens p of
            (m, p1) \<Rightarrow> if pr_child_requests p1 = [] then (Some p1, max_tokens_iter @ [m], n_params_iter @ [ch_n (pr_params p1)])
                        else (Some p1, max_tokens_iter, n_params_iter)))"

section \<open>State of a request\<close>

record chunk_update =
  cu_prompt :: "utext option"
  cu_prompt_token_ids :: "int list option"
  cu_final :: bool

record 's request_state =
  rs_request_id :: string
  rs_external_req_id :: string
  rs_parent_req :: "nat option"
  rs_request_index :: nat
  rs_output_kind :: output_kind
  rs_prompt :: "utext option"
  rs_prompt_token_ids :: "int list option"
  rs_prompt_embeds :: "bytes list option"
  rs_prompt_len :: nat
  rs_detokenizer :: "'s detokenizer option"
  rs_is_prefilling :: bool
  rs_queue :: "nat option"
  rs_stream_interval :: int
  rs_sent_tokens_offset :: int
  rs_streaming_input :: bool
  rs_input_chunk_queue :: "chunk_update list option"

record ec_request =
  er_request_id :: string
  er_external_req_id :: "string option"
  er_sampling :: "(detok_params \<times> bool \<times> output_kind) option"
  er_pooling_kind :: "output_kind option"
  er_prompt_token_ids :: "int list option"
  er_prompt_embeds :: "bytes list option"
  er_resumable :: bool

definition state_from_new_request ::
  "tokenizer \<Rightarrow> 's stream_lib \<Rightarrow> tokenizer_kind \<Rightarrow> ec_request \<Rightarrow> utext option \<Rightarrow> nat option \<Rightarrow> nat \<Rightarrow> nat option \<Rightarrow> int \<Rightarrow> 's request_state res" where
  "state_from_new_request tk lib kind r prompt parent_req index queue interval =
     res_bind (case er_sampling r of
                 Some (params, detokenize, out_kind) \<Rightarrow>
                   res_bind (detokenizer_from_new_request tk lib (if detokenize then kind else NoTokenizer) (Some params)
                               (er_prompt_token_ids r) (er_prompt_embeds r)) (\<lambda>d. Inr (Some d, out_kind))
               | None \<Rightarrow> (case er_pooling_kind r of None \<Rightarrow> Inl AssertionError | Some k \<Rightarrow> Inr (None, k))) (\<lambda>(detok, out_kind).
     case er_external_req_id r of None \<Rightarrow> Inl AssertionError
     | Some ext \<Rightarrow>
         res_bind (length_from_prompt_token_ids_or_embeds (er_prompt_token_ids r) (er_prompt_embeds r)) (\<lambda>n.
         Inr \<lparr>rs_request_id = er_request_id r, rs_external_req_id = ext, rs_parent_req = parent_req, rs_request_index = index,
              rs_output_kind = out_kind, rs_prompt = prompt, rs_prompt_token_ids = er_prompt_token_ids r,
              rs_prompt_embeds = er_prompt_embeds r, rs_prompt_len = n, rs_detokenizer = detok, rs_is_prefilling = True,
              rs_queue = queue, rs_stream_interval = interval, rs_sent_tokens_offset = 0, rs_streaming_input = er_resumable r,
              rs_input_chunk_queue = (if er_resumable r then Some [] else None)\<rparr>))"

definition apply_streaming_update :: "chunk_update \<Rightarrow> 's request_state \<Rightarrow> 's request_state" where
  "apply_streaming_update u st =
     (let st1 = st\<lparr>rs_streaming_input := \<not> cu_final u\<rparr>;
          st2 = (case cu_prompt u of
                   Some pr \<Rightarrow> if pr = [] then st1
                     else st1\<lparr>rs_prompt := Some ((case rs_prompt st1 of Some old \<Rightarrow> old | None \<Rightarrow> []) @ pr)\<rparr>
                 | None \<Rightarrow> st1);
          extra = (case cu_prompt_token_ids u of Some l \<Rightarrow> l | None \<Rightarrow> []);
          ids = (case rs_prompt_token_ids st2 of Some l \<Rightarrow> l @ extra | None \<Rightarrow> extra)
      in st2\<lparr>rs_prompt_token_ids := Some ids, rs_prompt_len := length ids, rs_is_prefilling := True\<rparr>)"

definition new_completion_output ::
  "int list \<Rightarrow> finish_reason option \<Rightarrow> out_stop_reason option \<Rightarrow> 's request_state \<Rightarrow> (completion_output \<times> 's request_state) res" where
  "new_completion_output token_ids finish stop st =
     (case rs_detokenizer st of None \<Rightarrow> Inl AssertionError
      | Some d \<Rightarrow>
          let delta = (rs_output_kind st = DELTA);
              (t, d1) = get_next_output_text (finish \<noteq> None) delta d
          in Inr (\<lparr>cm_index = rs_request_index st, cm_text = t, cm_token_ids = (if delta then token_ids else dt_output_token_ids d1),
                   cm_finish_reason = finish, cm_stop_reason = (if finish \<noteq> None then stop else None)\<rparr>,
                  st\<lparr>rs_detokenizer := Some d1\<rparr>))"

definition prompt_ids_of :: "'s request_state \<Rightarrow> int list res" where
  "prompt_ids_of st =
     (case rs_prompt_token_ids st of
        Some ids \<Rightarrow> Inr ids
      | None \<Rightarrow> (case rs_prompt_embeds st of None \<Rightarrow> Inl AssertionError | Some e \<Rightarrow> Inr (replicate (length e) 0)))"

text \<open>Whether an output is due under the stream interval, and the tokens it covers.\<close>

definition output_due :: "int list \<Rightarrow> finish_reason option \<Rightarrow> 's request_state \<Rightarrow> (int list \<times> 's request_state) option res" where
  "output_due new_token_ids finish st =
     (if rs_stream_interval st > 1
      then (case rs_detokenizer st of None \<Rightarrow> Inl AssertionError
            | Some d \<Rightarrow>
                if \<not> (finish \<noteq> None \<or> rs_sent_tokens_offset st = 0 \<or> dt_num_output_tokens d - rs_sent_tokens_offset st \<ge> rs_stream_interval st)
                then Inr None
                else if rs_output_kind st = DELTA
                then Inr (Some (drop (nat (rs_sent_tokens_offset st)) (dt_output_token_ids d),
                                st\<lparr>rs_sent_tokens_offset := dt_num_output_tokens d\<rparr>))
                else Inr (Some (new_token_ids, st)))
      else Inr (Some (new_token_ids, st)))"

text \<open>\<^verbatim>\<open>make_request_output\<close>: the output, if one is due, the parents and the state of the request.\<close>

definition make_request_output ::
  "int list \<Rightarrow> bool \<Rightarrow> finish_reason option \<Rightarrow> out_stop_reason option \<Rightarrow> (nat \<Rightarrow> parent_request) \<Rightarrow> 's request_state
     \<Rightarrow> (out_item option \<times> (nat \<Rightarrow> parent_request) \<times> 's request_state) res" where
  "make_request_output new_token_ids pooling finish stop parents st =
     (let fin = (finish \<noteq> None) in
      if \<not> fin \<and> rs_output_kind st = FINAL_ONLY then Inr (None, parents, st)
      else res_bind (output_due new_token_ids finish st) (\<lambda>due.
      case due of None \<Rightarrow> Inr (None, parents, st)
      | Some (ids, st1) \<Rightarrow>
          if pooling
          then res_bind (prompt_ids_of st1) (\<lambda>pids.
               Inr (Some (OutPooling \<lparr>po_request_id = rs_external_req_id st1, po_prompt_token_ids = pids, po_finished = fin\<rparr>), parents, st1))
          else res_bind (new_completion_output ids finish stop st1) (\<lambda>(out, st2).
               case rs_parent_req st2 of
                 None \<Rightarrow>
                   res_bind (prompt_ids_of st2) (\<lambda>pids.
                   Inr (Some (OutRequest \<lparr>ro_request_id = rs_external_req_id st2, ro_prompt = rs_prompt st2, ro_prompt_token_ids = pids,
                                          ro_outputs = [Some out], ro_finished = fin\<rparr>), parents, st2))
               | Some p \<Rightarrow>
                   res_bind (get_outputs (rs_request_id st2) out (parents p)) (\<lambda>((outs, all_fin), pr).
                   if outs = [] then Inr (None, parents(p := pr), st2)
                   else res_bind (prompt_ids_of st2) (\<lambda>pids.
                     Inr (Some (OutRequest \<lparr>ro_request_id = pr_external_req_id pr, ro_prompt = rs_prompt st2, ro_prompt_token_ids = pids,
                                            ro_outputs = outs, ro_finished = all_fin\<rparr>), parents(p := pr), st2))))))"

section \<open>The processor\<close>

record 's output_processor =
  op_kind :: tokenizer_kind
  op_stream_interval :: int
  op_states :: "(string, 's request_state) odict"
  op_parents :: "(string, nat) odict"
  op_external :: "(string, string list) odict"
  op_parent_store :: "nat \<Rightarrow> parent_request"
  op_queues :: "nat \<Rightarrow> collector"

definition external_ids :: "string \<Rightarrow> 's output_processor \<Rightarrow> string list" where
  "external_ids ext op = (case map_of (op_external op) ext of None \<Rightarrow> [] | Some l \<Rightarrow> l)"

text \<open>\<^verbatim>\<open>internal_ids.remove(req_id)\<close>, and the entry goes when its list is empty.\<close>

definition drop_external :: "string \<Rightarrow> string \<Rightarrow> 's output_processor \<Rightarrow> 's output_processor res" where
  "drop_external ext rid op =
     (let ids = external_ids ext op
      in guard (rid \<in> set ids) ValueError
         (let ids' = remove1 rid ids
          in Inr (op\<lparr>op_external := (if ids' = [] then AList.delete ext (op_external op) else AList.update ext ids' (op_external op))\<rparr>)))"

definition finish_request :: "'s request_state \<Rightarrow> 's output_processor \<Rightarrow> 's output_processor res" where
  "finish_request st op =
     guard (map_of (op_states op) (rs_request_id st) \<noteq> None) KeyError
     (res_bind (drop_external (rs_external_req_id st) (rs_request_id st) (op\<lparr>op_states := AList.delete (rs_request_id st) (op_states op)\<rparr>)) (\<lambda>op1.
      Inr (case rs_parent_req st of
             Some p \<Rightarrow> if pr_child_requests (op_parent_store op1 p) = []
                        then op1\<lparr>op_parents := AList.delete (pr_request_id (op_parent_store op1 p)) (op_parents op1)\<rparr> else op1
           | None \<Rightarrow> op1)))"

definition put_output :: "nat option \<Rightarrow> out_item \<Rightarrow> 's output_processor \<times> out_item list \<Rightarrow> ('s output_processor \<times> out_item list) res" where
  "put_output queue item = (\<lambda>(op, outs).
     case queue of
       Some q \<Rightarrow> res_bind (collector_put item (op_queues op q)) (\<lambda>c. Inr (op\<lparr>op_queues := (op_queues op)(q := c)\<rparr>, outs))
     | None \<Rightarrow> Inr (op, outs @ [item]))"

text \<open>The detokenization of an output: the state and the finish and stop reasons.\<close>

definition out_stop :: "stop_reason_value option \<Rightarrow> out_stop_reason option" where
  "out_stop s = (case s of None \<Rightarrow> None | Some (StopToken t) \<Rightarrow> Some (OutToken t) | Some (StopString x) \<Rightarrow> Some (OutString (map of_char x)))"

definition detokenize_output ::
  "tokenizer \<Rightarrow> 's stream_lib \<Rightarrow> engine_core_output \<Rightarrow> 's request_state
     \<Rightarrow> (finish_reason option \<times> out_stop_reason option \<times> 's request_state) res" where
  "detokenize_output tk lib e st =
     (if eo_pooling_output e then Inr (eo_finish_reason e, out_stop (eo_stop_reason e), st)
      else case rs_detokenizer st of None \<Rightarrow> Inl AssertionError
      | Some d \<Rightarrow> res_bind (dt_update tk lib (eo_new_token_ids e) (eo_finish_reason e = Some FR_STOP) d) (\<lambda>(s, d1).
          let st1 = st\<lparr>rs_detokenizer := Some d1\<rparr> in
          Inr (case s of Some str \<Rightarrow> if str \<noteq> [] then (Some FR_STOP, Some (OutString str), st1)
                                     else (eo_finish_reason e, out_stop (eo_stop_reason e), st1)
               | None \<Rightarrow> (eo_finish_reason e, out_stop (eo_stop_reason e), st1))))"

definition mark_streaming :: "'s request_state \<Rightarrow> out_item \<Rightarrow> out_item" where
  "mark_streaming st item =
     (if rs_streaming_input st
      then (case item of OutRequest ro \<Rightarrow> OutRequest (ro\<lparr>ro_finished := False\<rparr>)
            | OutPooling po \<Rightarrow> OutPooling (po\<lparr>po_finished := False\<rparr>) | OutException x \<Rightarrow> OutException x)
      else item)"

definition set_state :: "'s request_state \<Rightarrow> 's output_processor \<Rightarrow> 's output_processor" where
  "set_state st op = op\<lparr>op_states := AList.update (rs_request_id st) st (op_states op)\<rparr>"

text \<open>The next input of a streaming session, or the mark that the session waits for one.\<close>

definition next_chunk :: "'s request_state \<Rightarrow> 's request_state" where
  "next_chunk st =
     (case rs_input_chunk_queue st of
        Some (u # us) \<Rightarrow> (apply_streaming_update u st)\<lparr>rs_input_chunk_queue := Some us\<rparr>
      | _ \<Rightarrow> st\<lparr>rs_input_chunk_queue := None\<rparr>)"

definition process_output ::
  "tokenizer \<Rightarrow> 's stream_lib \<Rightarrow> engine_core_output \<Rightarrow> 's output_processor \<times> out_item list \<times> string list
     \<Rightarrow> ('s output_processor \<times> out_item list \<times> string list) res" where
  "process_output tk lib e = (\<lambda>(op, outs, aborts).
     case map_of (op_states op) (eo_request_id e) of
       None \<Rightarrow> Inr (op, outs, aborts)
     | Some st \<Rightarrow>
         res_bind (detokenize_output tk lib e (st\<lparr>rs_is_prefilling := False\<rparr>)) (\<lambda>(finish, stop, st1).
         res_bind (make_request_output (eo_new_token_ids e) (eo_pooling_output e) finish stop (op_parent_store op) st1) (\<lambda>(item, parents, st2).
         res_bind (case item of None \<Rightarrow> Inr (set_state st2 op\<lparr>op_parent_store := parents\<rparr>, outs)
                   | Some x \<Rightarrow> put_output (rs_queue st2) (mark_streaming st2 x) (set_state st2 op\<lparr>op_parent_store := parents\<rparr>, outs)) (\<lambda>(op2, outs2).
         if finish = None then Inr (op2, outs2, aborts)
         else if rs_streaming_input st2
         then Inr (set_state (next_chunk st2) op2, outs2, aborts)
         else res_bind (finish_request st2 op2) (\<lambda>op3.
              Inr (op3, outs2, if eo_finish_reason e = None then aborts @ [eo_request_id e] else aborts))))))"

definition process_outputs ::
  "tokenizer \<Rightarrow> 's stream_lib \<Rightarrow> engine_core_output list \<Rightarrow> 's output_processor \<Rightarrow> ('s output_processor \<times> out_item list \<times> string list) res" where
  "process_outputs tk lib es op = fold_res (process_output tk lib) es (op, [], [])"

section \<open>Adding and aborting\<close>

definition update_streaming_request_state :: "'s request_state \<Rightarrow> ec_request \<Rightarrow> utext option \<Rightarrow> 's output_processor \<Rightarrow> 's output_processor res" where
  "update_streaming_request_state st r prompt op =
     (if \<not> er_resumable r
      then (case rs_input_chunk_queue st of
              None \<Rightarrow> res_bind (finish_request st op) (\<lambda>op1.
                case rs_queue st of None \<Rightarrow> Inr op1
                | Some q \<Rightarrow> res_bind (collector_put (OutRequest \<lparr>ro_request_id = [], ro_prompt = None, ro_prompt_token_ids = [], ro_outputs = [], ro_finished = True\<rparr>)
                                        (op_queues op1 q)) (\<lambda>c. Inr (op1\<lparr>op_queues := (op_queues op1)(q := c)\<rparr>)))
            | Some [] \<Rightarrow> Inr (set_state (st\<lparr>rs_streaming_input := False\<rparr>) op)
            | Some us \<Rightarrow> Inr (set_state (st\<lparr>rs_input_chunk_queue := Some (butlast us @ [(last us)\<lparr>cu_final := True\<rparr>])\<rparr>) op))
      else let u = \<lparr>cu_prompt = prompt, cu_prompt_token_ids = er_prompt_token_ids r, cu_final = False\<rparr>
           in Inr (set_state (case rs_input_chunk_queue st of
                                None \<Rightarrow> (apply_streaming_update u st)\<lparr>rs_input_chunk_queue := Some []\<rparr>
                              | Some us \<Rightarrow> st\<lparr>rs_input_chunk_queue := Some (us @ [u])\<rparr>) op))"

definition op_add_request ::
  "tokenizer \<Rightarrow> 's stream_lib \<Rightarrow> ec_request \<Rightarrow> utext option \<Rightarrow> nat option \<Rightarrow> nat \<Rightarrow> nat option \<Rightarrow> 's output_processor \<Rightarrow> 's output_processor res" where
  "op_add_request tk lib r prompt parent_req index queue op =
     (case map_of (op_states op) (er_request_id r) of
        Some st \<Rightarrow> update_streaming_request_state st r prompt op
      | None \<Rightarrow>
          res_bind (state_from_new_request tk lib (op_kind op) r prompt parent_req index queue (op_stream_interval op)) (\<lambda>st.
          let op1 = set_state st op;
              op2 = (case parent_req of Some p \<Rightarrow> op1\<lparr>op_parents := AList.update (pr_request_id (op_parent_store op1 p)) p (op_parents op1)\<rparr>
                     | None \<Rightarrow> op1)
          in Inr (op2\<lparr>op_external := AList.update (rs_external_req_id st) (external_ids (rs_external_req_id st) op2 @ [er_request_id r]) (op_external op2)\<rparr>)))"

text \<open>The identifiers to abort, taken out of the map of external identifiers.\<close>

definition collect_internal :: "bool \<Rightarrow> string \<Rightarrow> string list \<times> 's output_processor \<Rightarrow> (string list \<times> 's output_processor) res" where
  "collect_internal internal rid = (\<lambda>(ids, op).
     if internal
     then (case map_of (op_states op) rid of
             Some st \<Rightarrow> res_bind (drop_external (rs_external_req_id st) rid op) (\<lambda>op1. Inr (ids @ [rid], op1))
           | None \<Rightarrow> Inr (ids @ [rid], op))
     else Inr (ids @ external_ids rid op, op\<lparr>op_external := AList.delete rid (op_external op)\<rparr>))"

definition abort_state :: "string \<Rightarrow> 's request_state \<Rightarrow> 's output_processor \<Rightarrow> 's output_processor res" where
  "abort_state rid st op =
     (let op1 = op\<lparr>op_states := AList.delete rid (op_states op)\<rparr>
      in case rs_queue st of None \<Rightarrow> Inr op1
         | Some q \<Rightarrow>
             res_bind (make_request_output [] (rs_detokenizer st = None) (Some FR_ABORT) None (op_parent_store op1) st) (\<lambda>(item, parents, _).
             let op2 = op1\<lparr>op_parent_store := parents\<rparr>
             in case item of None \<Rightarrow> Inr op2
                | Some x \<Rightarrow> res_bind (collector_put x (op_queues op2 q)) (\<lambda>c. Inr (op2\<lparr>op_queues := (op_queues op2)(q := c)\<rparr>))))"

text \<open>
  Aborting a parent aborts its children first; the nesting is the fuel, and \<open>None\<close> stands for a recursion that does not end (a parent among
  its own descendants).
\<close>

fun abort_ids :: "nat \<Rightarrow> string list \<Rightarrow> 's output_processor \<Rightarrow> (string list \<times> 's output_processor) res option" where
  "abort_ids fuel [] op = Some (Inr ([], op))"
| "abort_ids fuel (rid # ids) op =
     (case map_of (op_states op) rid of
        Some st \<Rightarrow> ob (Some (abort_state rid st op)) (\<lambda>op1.
                    ob (abort_ids fuel ids op1) (\<lambda>(l, op2). Some (Inr (rid # l, op2))))
      | None \<Rightarrow>
          (case map_of (op_parents op) rid of
             None \<Rightarrow> abort_ids fuel ids op
           | Some p \<Rightarrow>
               if pr_child_requests (op_parent_store op p) = []
               then abort_ids fuel ids (op\<lparr>op_parents := AList.delete rid (op_parents op)\<rparr>)
               else (case fuel of 0 \<Rightarrow> None
                     | Suc fuel' \<Rightarrow>
                         ob (Some (fold_res (collect_internal True) (pr_child_requests (op_parent_store op p)) ([], op))) (\<lambda>(cids, op1).
                         ob (abort_ids fuel' cids op1) (\<lambda>(l1, op2).
                         ob (abort_ids fuel ids (op2\<lparr>op_parents := AList.delete rid (op_parents op2)\<rparr>)) (\<lambda>(l2, op3).
                         Some (Inr (l1 @ l2, op3))))))))"

definition op_abort_requests :: "nat \<Rightarrow> string list \<Rightarrow> bool \<Rightarrow> 's output_processor \<Rightarrow> (string list \<times> 's output_processor) res option" where
  "op_abort_requests fuel ids internal op =
     ob (Some (fold_res (collect_internal internal) ids ([], op))) (\<lambda>(iids, op1). abort_ids fuel iids op1)"

definition propagate_error :: "py_error \<Rightarrow> 's output_processor \<Rightarrow> 's output_processor res" where
  "propagate_error e op =
     fold_res (\<lambda>(_, st) op1. case rs_queue st of None \<Rightarrow> Inl AssertionError
                | Some q \<Rightarrow> res_bind (collector_put (OutException e) (op_queues op1 q)) (\<lambda>c. Inr (op1\<lparr>op_queues := (op_queues op1)(q := c)\<rparr>)))
       (op_states op) op"

end
