(* ===== verification/Output_Properties.thy ===== *)
theory Output_Properties
  imports Output_Processor
begin

text \<open>
  Properties of the output processor: a client that streams gets the whole text and every token, however often it looks and however the
  outputs are grouped; the samples of a request with several samples are returned once, together and in order; and the
  tables of the processor stay consistent.
\<close>

section \<open>Detokenizing without streaming\<close>

text \<open>What was given out does not influence the text.\<close>

abbreviation at_offset :: "int \<Rightarrow> 's detokenizer \<Rightarrow> 's detokenizer" where
  "at_offset x d \<equiv> d\<lparr>dt_last_output_text_offset := x\<rparr>"

lemma offset_last [simp]:
  "(at_offset x d)\<lparr>dt_token_ids := l\<rparr> = at_offset x (d\<lparr>dt_token_ids := l\<rparr>)"
  "(at_offset x d)\<lparr>dt_decoder := c\<rparr> = at_offset x (d\<lparr>dt_decoder := c\<rparr>)"
  "(at_offset x d)\<lparr>dt_output_text := t\<rparr> = at_offset x (d\<lparr>dt_output_text := t\<rparr>)"
  by simp_all

lemma decode_next_offset:
  "decode_next tk lib t (at_offset x d) = map_sum id (apsnd (at_offset x)) (decode_next tk lib t d)"
  by (cases "dt_decoder d") (auto simp: decode_next_def res_bind_def split: sum.splits)

lemma decode_one_offset:
  "decode_one tk lib t (at_offset x d, off) = map_sum id (apfst (at_offset x)) (decode_one tk lib t (d, off))"
  by (cases "decode_next tk lib t (d\<lparr>dt_token_ids := dt_token_ids d @ [t]\<rparr>)")
    (auto simp: decode_one_def decode_next_offset Let_def dt_num_output_tokens_def dt_prompt_len_def)

lemma decode_all_offset:
  "fold_res (decode_one tk lib) ts (at_offset x d, off) = map_sum id (apfst (at_offset x)) (fold_res (decode_one tk lib) ts (d, off))"
proof (induction ts arbitrary: d off)
  case (Cons t ts)
  show ?case by (cases "decode_one tk lib t (d, off)") (auto simp: decode_one_offset Cons.IH)
qed simp

lemma evaluate_stop_offset: "evaluate_stop off (at_offset x d) = apsnd (at_offset x) (evaluate_stop off d)"
  by (auto simp: evaluate_stop_def dt_num_output_tokens_def dt_prompt_len_def split: option.splits)

lemma dt_update_offset:
  "dt_update tk lib ids b (at_offset x d) = map_sum id (apsnd (at_offset x)) (dt_update tk lib ids b d)"
proof (cases "dt_decoder d = NoText \<or> ids = []")
  case True
  then show ?thesis by (auto simp: dt_update_def)
next
  case False
  let ?skip = "b \<and> \<not> dt_include_stop d"
  let ?ts = "if ?skip then butlast ids else ids"
  show ?thesis
    using False by (cases "fold_res (decode_one tk lib) ?ts (d, length (dt_output_text d))")
      (auto simp: dt_update_def Let_def decode_all_offset evaluate_stop_offset)
qed

text \<open>The detokenizer after the outputs of one request, and whether the request ended.\<close>

fun decoded :: "tokenizer \<Rightarrow> 's stream_lib \<Rightarrow> engine_core_output list \<Rightarrow> 's detokenizer \<Rightarrow> bool \<times> 's detokenizer" where
  "decoded tk lib [] d = (False, d)"
| "decoded tk lib (e # es) d =
     (case dt_update tk lib (eo_new_token_ids e) (eo_finish_reason e = Some FR_STOP) d of
        Inl _ \<Rightarrow> (False, d)
      | Inr (s, d1) \<Rightarrow> if s \<noteq> None \<or> eo_finish_reason e \<noteq> None then (True, d1) else decoded tk lib es d1)"

lemma at_offset_fields [simp]: "dt_output_text (at_offset x d) = dt_output_text d" "dt_output_token_ids (at_offset x d) = dt_output_token_ids d"
  by (simp_all add: dt_output_token_ids_def dt_prompt_len_def)

lemma decoded_offset_id: "at_offset 0 d2 = at_offset 0 d1 \<Longrightarrow> d1 = at_offset (dt_last_output_text_offset d1) d2"
  by (cases d1; cases d2) simp

lemma decoded_offset: "decoded tk lib es (at_offset x d) = apsnd (at_offset x) (decoded tk lib es d)"
  by (induction es arbitrary: d) (auto simp: dt_update_offset split: sum.splits)

lemma check_stop_loop_mem: "check_stop_loop t n incl stop = Some (s, pos) \<Longrightarrow> s \<in> set stop"
  by (induction stop) (auto simp: Let_def split: if_splits)

lemma dt_update_stop: "dt_update tk lib ids b d = Inr (Some s, d') \<Longrightarrow> s \<in> set (dt_stop d)"
proof (erule dt_update_cases)
  fix d1 off
  assume f: "fold_res (decode_one tk lib) (if b \<and> \<not> dt_include_stop d then butlast ids else ids) (d, length (dt_output_text d)) = Inr (d1, off)"
    and e: "evaluate_stop off (if b \<and> \<not> dt_include_stop d then d1\<lparr>dt_token_ids := dt_token_ids d1 @ [last ids]\<rparr> else d1) = (Some s, d')"
  have "dt_stop d1 = dt_stop d" using decode_all_law [OF f order_refl] by (simp add: same_params_def)
  with e show "s \<in> set (dt_stop d)"
    by (auto simp: evaluate_stop_def check_stop_strings_def dest!: check_stop_loop_mem split: if_splits option.splits)
qed simp

section \<open>Delta outputs\<close>

definition completions :: "out_item option \<Rightarrow> completion_output list" where
  "completions item = (case item of Some (OutRequest ro) \<Rightarrow> concat (map (\<lambda>c. case c of None \<Rightarrow> [] | Some x \<Rightarrow> [x]) (ro_outputs ro)) | _ \<Rightarrow> [])"

lemma completions_None [simp]: "completions None = []"
  by (simp add: completions_def)

definition got_text :: "completion_output list \<Rightarrow> utext" where
  "got_text cs = concat (map cm_text cs)"

definition got_tokens :: "completion_output list \<Rightarrow> int list" where
  "got_tokens cs = concat (map cm_token_ids cs)"

lemma got_append [simp]: "got_text (a @ b) = got_text a @ got_text b" "got_tokens (a @ b) = got_tokens a @ got_tokens b"
  "got_text [] = []" "got_tokens [] = []"
  by (simp_all add: got_text_def got_tokens_def)

lemma got_single [simp]: "got_text [x] = cm_text x" "got_tokens [x] = cm_token_ids x"
  by (simp_all add: got_text_def got_tokens_def)

text \<open>A collector of deltas holds at most one piece, and a new piece is appended to it.\<close>

definition delta_queue :: "nat \<Rightarrow> collector \<Rightarrow> bool" where
  "delta_queue i c \<longleftrightarrow> rc_aggregate c \<and> (rc_output c = None \<or> (\<exists>ro x. rc_output c = Some (OutRequest ro) \<and> ro_outputs ro = [Some x] \<and> cm_index x = i))"

lemma put_delta:
  assumes "delta_queue i c" "ro_outputs ro = [Some y]" "cm_index y = i"
  shows "\<exists>c'. collector_put (OutRequest ro) c = Inr c' \<and> delta_queue i c'
    \<and> got_text (completions (rc_output c')) = got_text (completions (rc_output c)) @ cm_text y
    \<and> got_tokens (completions (rc_output c')) = got_tokens (completions (rc_output c)) @ cm_token_ids y
    \<and> (\<exists>x. completions (rc_output c') = [x] \<and> cm_finish_reason x = cm_finish_reason y)"
  using assms by (auto simp: delta_queue_def collector_put_def request_output_add_def completions_def merge_completion_def)

text \<open>The part of a detokenizer that an output reads or changes.\<close>

definition well_streamed :: "'s detokenizer \<Rightarrow> bool" where
  "well_streamed d \<longleftrightarrow> dt_decoder d \<noteq> NoText \<and> 0 \<le> dt_last_output_text_offset d
     \<and> dt_last_output_text_offset d \<le> int (length (dt_output_text d)) \<and> dt_prompt_len d \<le> length (dt_token_ids d)"

definition delta_state :: "nat \<Rightarrow> 's detokenizer \<Rightarrow> 's request_state \<Rightarrow> bool" where
  "delta_state q d st \<longleftrightarrow> rs_output_kind st = DELTA \<and> rs_parent_req st = None \<and> rs_queue st = Some q \<and> rs_detokenizer st = Some d
     \<and> \<not> rs_streaming_input st \<and> 0 \<le> rs_sent_tokens_offset st \<and> rs_sent_tokens_offset st \<le> dt_num_output_tokens d"

definition sent_tokens :: "'s request_state \<Rightarrow> 's detokenizer \<Rightarrow> int list" where
  "sent_tokens st d = (if 1 < rs_stream_interval st then take (nat (rs_sent_tokens_offset st)) (dt_output_token_ids d) else dt_output_token_ids d)"

lemma num_output_length: "dt_prompt_len d \<le> length (dt_token_ids d) \<Longrightarrow> dt_num_output_tokens d = int (length (dt_output_token_ids d))"
  by (simp add: dt_num_output_tokens_def dt_output_token_ids_def)

text \<open>An output in delta mode: nothing is due yet, or a piece that continues the text and the tokens.\<close>

lemma make_delta:
  assumes st: "delta_state q d st" and d: "well_streamed d"
    and m: "make_request_output new_ids False finish stop parents st = Inr (item, parents', st')"
    and new: "\<not> 1 < rs_stream_interval st \<Longrightarrow> dt_output_token_ids d = old @ new_ids"
  obtains (wait) "item = None" "finish = None" "st' = st" "1 < rs_stream_interval st" "parents' = parents"
  | (piece) ro y d' n where "item = Some (OutRequest ro)" "ro_outputs ro = [Some y]" "cm_index y = rs_request_index st" "cm_finish_reason y = finish"
      "st' = st\<lparr>rs_sent_tokens_offset := n, rs_detokenizer := Some d'\<rparr>" "get_next_output_text (finish \<noteq> None) True d = (cm_text y, d')"
      "n = (if 1 < rs_stream_interval st then dt_num_output_tokens d else rs_sent_tokens_offset st)"
      "(if 1 < rs_stream_interval st then take (nat (rs_sent_tokens_offset st)) (dt_output_token_ids d) else old) @ cm_token_ids y = dt_output_token_ids d"
      "parents' = parents"
proof (cases "1 < rs_stream_interval st \<and> \<not> (finish \<noteq> None \<or> rs_sent_tokens_offset st = 0
    \<or> rs_stream_interval st \<le> dt_num_output_tokens d - rs_sent_tokens_offset st)")
  case True
  then have "item = None" "finish = None" "st' = st" "parents' = parents" using m st by (auto simp: make_request_output_def output_due_def delta_state_def)
  with True wait show ?thesis by blast
next
  case False
  define n where "n = (if 1 < rs_stream_interval st then dt_num_output_tokens d else rs_sent_tokens_offset st)"
  define ids where "ids = (if 1 < rs_stream_interval st then drop (nat (rs_sent_tokens_offset st)) (dt_output_token_ids d) else new_ids)"
  obtain t d' where g: "get_next_output_text (finish \<noteq> None) True d = (t, d')" by force
  define y where "y = \<lparr>cm_index = rs_request_index st, cm_text = t, cm_token_ids = ids, cm_finish_reason = finish,
    cm_stop_reason = (if finish \<noteq> None then stop else None)\<rparr>"
  have due: "output_due new_ids finish st = Inr (Some (ids, st\<lparr>rs_sent_tokens_offset := n\<rparr>))"
    using False st by (auto simp: output_due_def delta_state_def ids_def n_def)
  have c: "new_completion_output ids finish stop (st\<lparr>rs_sent_tokens_offset := n\<rparr>) =
      Inr (y, st\<lparr>rs_sent_tokens_offset := n, rs_detokenizer := Some d'\<rparr>)"
    using st g by (simp add: new_completion_output_def delta_state_def y_def)
  have "rs_output_kind st \<noteq> FINAL_ONLY" "rs_parent_req st = None" using st by (auto simp: delta_state_def)
  with m obtain ro where ro: "item = Some (OutRequest ro)" "ro_outputs ro = [Some y]" "parents' = parents"
      "st' = st\<lparr>rs_sent_tokens_offset := n, rs_detokenizer := Some d'\<rparr>"
    unfolding make_request_output_def Let_def due by (auto simp: c)
  have "(if 1 < rs_stream_interval st then take (nat (rs_sent_tokens_offset st)) (dt_output_token_ids d) else old) @ cm_token_ids y = dt_output_token_ids d"
    using new by (simp add: y_def ids_def)
  from piece [OF ro(1,2) _ _ ro(4) _ n_def this ro(3)] g show ?thesis by (simp add: y_def)
qed

section \<open>A streaming client\<close>

text \<open>Outputs of the engine arrive and the client takes what there is, in any order.\<close>

datatype stream_event = Receive engine_core_output | Take

fun serve :: "tokenizer \<Rightarrow> 's stream_lib \<Rightarrow> nat \<Rightarrow> stream_event list \<Rightarrow> 's output_processor \<Rightarrow> completion_output list
    \<Rightarrow> ('s output_processor \<times> completion_output list) res" where
  "serve tk lib q [] op got = Inr (op, got)"
| "serve tk lib q (Receive e # evs) op got = res_bind (process_output tk lib e (op, [], [])) (\<lambda>(op1, _, _). serve tk lib q evs op1 got)"
| "serve tk lib q (Take # evs) op got =
     (case collector_get (op_queues op q) of
        (Inl x, _) \<Rightarrow> Inl x
      | (Inr item, c) \<Rightarrow> serve tk lib q evs (op\<lparr>op_queues := (op_queues op)(q := c)\<rparr>) (got @ completions item))"

fun received :: "string \<Rightarrow> stream_event list \<Rightarrow> engine_core_output list" where
  "received rid [] = []"
| "received rid (Receive e # evs) = (if eo_request_id e = rid then e # received rid evs else received rid evs)"
| "received rid (Take # evs) = received rid evs"

definition waiting_pieces :: "nat \<Rightarrow> 's output_processor \<Rightarrow> completion_output list" where
  "waiting_pieces q op = completions (rc_output (op_queues op q))"

text \<open>Each state is filed under its own identifier, and no other request uses the collector.\<close>

definition filed :: "string \<Rightarrow> nat \<Rightarrow> 's output_processor \<Rightarrow> bool" where
  "filed rid q op \<longleftrightarrow> (\<forall>r s. map_of (op_states op) r = Some s \<longrightarrow> rs_request_id s = r \<and> (r \<noteq> rid \<longrightarrow> rs_queue s \<noteq> Some q))"

definition streaming :: "string \<Rightarrow> nat \<Rightarrow> 's detokenizer \<Rightarrow> completion_output list \<Rightarrow> 's output_processor \<Rightarrow> bool" where
  "streaming rid q d got op \<longleftrightarrow> (\<exists>st. map_of (op_states op) rid = Some st \<and> delta_state q d st \<and> well_streamed d \<and> stream_ok d
     \<and> delta_queue (rs_request_index st) (op_queues op q)
     \<and> got_text (got @ waiting_pieces q op) = given_out d \<and> got_tokens (got @ waiting_pieces q op) = sent_tokens st d
     \<and> (\<forall>c \<in> set (got @ waiting_pieces q op). cm_finish_reason c = None))"

definition complete :: "string \<Rightarrow> nat \<Rightarrow> 's detokenizer \<Rightarrow> completion_output list \<Rightarrow> 's output_processor \<Rightarrow> bool" where
  "complete rid q d got op \<longleftrightarrow> map_of (op_states op) rid = None
     \<and> got_text (got @ waiting_pieces q op) = dt_output_text d \<and> got_tokens (got @ waiting_pieces q op) = dt_output_token_ids d
     \<and> (\<exists>c \<in> set (got @ waiting_pieces q op). cm_finish_reason c \<noteq> None)"

text \<open>An update keeps a detokenizer ready for streaming.\<close>

lemma update_well_streamed:
  assumes "well_streamed d" "stream_ok d" "dt_update tk lib ids b d = Inr (s, d1)"
  shows "well_streamed d1" "dt_output_token_ids d1 = dt_output_token_ids d @ ids" "dt_num_output_tokens d \<le> dt_num_output_tokens d1"
proof -
  note U = dt_update_law [OF assms(2,3)]
  have p: "dt_prompt_len d1 = dt_prompt_len d" "dt_last_output_text_offset d1 = dt_last_output_text_offset d" using U(1) by (auto simp: same_params_def)
  show "well_streamed d1" using assms(1) U by (auto simp: well_streamed_def same_params_def)
  show "dt_output_token_ids d1 = dt_output_token_ids d @ ids" "dt_num_output_tokens d \<le> dt_num_output_tokens d1"
    using assms(1) U(2) p by (auto simp: dt_output_token_ids_def dt_num_output_tokens_def well_streamed_def)
qed

lemma next_chunk_fields [simp]:
  "rs_request_id (next_chunk st) = rs_request_id st" "rs_queue (next_chunk st) = rs_queue st" "rs_external_req_id (next_chunk st) = rs_external_req_id st"
  "rs_parent_req (next_chunk st) = rs_parent_req st"
  by (simp_all add: next_chunk_def apply_streaming_update_def Let_def split: option.splits list.splits)

text \<open>The processing of an output that is not a pooling output, opened up.\<close>

lemma process_output_cases:
  assumes p: "process_output tk lib e (op, outs, ab) = Inr (op', outs', ab')" and st: "map_of (op_states op) (eo_request_id e) = Some st"
  obtains finish stop st1 item parents st2 op2 outs2 where
    "detokenize_output tk lib e (st\<lparr>rs_is_prefilling := False\<rparr>) = Inr (finish, stop, st1)"
    "make_request_output (eo_new_token_ids e) (eo_pooling_output e) finish stop (op_parent_store op) st1 = Inr (item, parents, st2)"
    "(case item of None \<Rightarrow> Inr (set_state st2 op\<lparr>op_parent_store := parents\<rparr>, outs)
       | Some x \<Rightarrow> put_output (rs_queue st2) (mark_streaming st2 x) (set_state st2 op\<lparr>op_parent_store := parents\<rparr>, outs)) = Inr (op2, outs2)"
    "finish = None \<Longrightarrow> op' = op2"
    "finish \<noteq> None \<Longrightarrow> \<not> rs_streaming_input st2 \<Longrightarrow> finish_request st2 op2 = Inr op'"
    "finish \<noteq> None \<Longrightarrow> rs_streaming_input st2 \<Longrightarrow> op' = set_state (next_chunk st2) op2"
proof -
  from p st obtain finish stop st1 item parents st2 op2 outs2 where *:
    "detokenize_output tk lib e (st\<lparr>rs_is_prefilling := False\<rparr>) = Inr (finish, stop, st1)"
    "make_request_output (eo_new_token_ids e) (eo_pooling_output e) finish stop (op_parent_store op) st1 = Inr (item, parents, st2)"
    "(case item of None \<Rightarrow> Inr (set_state st2 op\<lparr>op_parent_store := parents\<rparr>, outs)
       | Some x \<Rightarrow> put_output (rs_queue st2) (mark_streaming st2 x) (set_state st2 op\<lparr>op_parent_store := parents\<rparr>, outs)) = Inr (op2, outs2)"
    and rest: "(if finish = None then Inr (op2, outs2, ab)
         else if rs_streaming_input st2
         then Inr (set_state (next_chunk st2) op2, outs2, ab)
         else res_bind (finish_request st2 op2) (\<lambda>op3.
              Inr (op3, outs2, if eo_finish_reason e = None then ab @ [eo_request_id e] else ab))) = Inr (op', outs', ab')"
    unfolding process_output_def by (auto simp del: split_paired_Ex)
  have "op' = op2" if "finish = None" using rest that by simp
  moreover have "finish_request st2 op2 = Inr op'" if "finish \<noteq> None" "\<not> rs_streaming_input st2" using rest that by auto
  moreover have "op' = set_state (next_chunk st2) op2" if "finish \<noteq> None" "rs_streaming_input st2" using rest that by simp
  ultimately show ?thesis using * that by blast
qed

text \<open>The fields of a request state that its outputs do not change.\<close>

definition same_request :: "'s request_state \<Rightarrow> 's request_state \<Rightarrow> bool" where
  "same_request st st' \<longleftrightarrow> rs_request_id st' = rs_request_id st \<and> rs_queue st' = rs_queue st \<and> rs_external_req_id st' = rs_external_req_id st
     \<and> rs_parent_req st' = rs_parent_req st \<and> rs_streaming_input st' = rs_streaming_input st"

lemma detokenize_output_same: "detokenize_output tk lib e st = Inr (finish, stop, st') \<Longrightarrow> same_request st st'"
  by (auto simp: detokenize_output_def same_request_def Let_def split: if_splits option.splits)

lemma new_completion_same: "new_completion_output ids finish stop st = Inr (out, st') \<Longrightarrow> same_request st st'"
  by (auto simp: new_completion_output_def same_request_def Let_def split: option.splits prod.splits)

lemma same_request_trans: "same_request a b \<Longrightarrow> same_request b c \<Longrightarrow> same_request a c"
  by (simp add: same_request_def)

lemma make_output_same:
  assumes "make_request_output ids pooling finish stop parents st = Inr (item, parents', st')"
  shows "same_request st st'"
proof -
  have due: "same_request st st1" if "output_due ids finish st = Inr (Some (ids1, st1))" for ids1 st1
    using that by (auto simp: output_due_def same_request_def split: if_splits option.splits)
  show ?thesis
  proof (cases "finish = None \<and> rs_output_kind st = FINAL_ONLY")
    case True then show ?thesis using assms by (auto simp: make_request_output_def same_request_def)
  next
    case False
    then obtain x where x: "output_due ids finish st = Inr x" using assms unfolding make_request_output_def Let_def by (auto simp del: split_paired_Ex)
    show ?thesis
    proof (cases x)
      case None then show ?thesis using assms False x unfolding make_request_output_def Let_def by (simp add: same_request_def)
    next
      case (Some p)
      obtain ids1 st1 where p: "p = (ids1, st1)" by force
      have "same_request st st1" using due x Some p by simp
      moreover have "same_request st1 st'"
        using assms False x unfolding make_request_output_def Let_def Some p
        by (cases pooling) (auto simp: same_request_def dest!: new_completion_same split: option.splits if_splits)
      ultimately show ?thesis by (rule same_request_trans)
    qed
  qed
qed

text \<open>The processing of an output leaves the other requests and their collectors alone.\<close>

lemma drop_external_frame:
  "drop_external ext rid op = Inr op' \<Longrightarrow> op_states op' = op_states op \<and> op_queues op' = op_queues op \<and> op_parent_store op' = op_parent_store op"
  by (auto simp: drop_external_def Let_def)

lemma finish_request_frame:
  "finish_request st op = Inr op' \<Longrightarrow> op_states op' = AList.delete (rs_request_id st) (op_states op) \<and> op_queues op' = op_queues op"
  by (auto simp: finish_request_def dest!: drop_external_frame split: option.splits)

lemma put_output_frame:
  "put_output queue item (op, outs) = Inr (op', outs') \<Longrightarrow> op_states op' = op_states op
    \<and> (\<forall>q. queue \<noteq> Some q \<longrightarrow> op_queues op' q = op_queues op q)"
  by (auto simp: put_output_def split: option.splits)

lemma set_state_states [simp]:
  "op_states (set_state st op) = AList.update (rs_request_id st) st (op_states op)" "op_queues (set_state st op) = op_queues op"
  "op_external (set_state st op) = op_external op" "op_parent_store (set_state st op) = op_parent_store op" "op_parents (set_state st op) = op_parents op"
  by (simp_all add: set_state_def)

lemma other_output:
  assumes p: "process_output tk lib e (op, outs, ab) = Inr (op', outs', ab')" and f: "filed rid q op" and ne: "eo_request_id e \<noteq> rid"
  shows "filed rid q op' \<and> map_of (op_states op') rid = map_of (op_states op) rid \<and> op_queues op' q = op_queues op q"
proof (cases "map_of (op_states op) (eo_request_id e)")
  case None
  then show ?thesis using p f by (simp add: process_output_def)
next
  case (Some st)
  from process_output_cases [OF p Some] obtain finish stop st1 item parents st2 op2 outs2 where S:
    "detokenize_output tk lib e (st\<lparr>rs_is_prefilling := False\<rparr>) = Inr (finish, stop, st1)"
    "make_request_output (eo_new_token_ids e) (eo_pooling_output e) finish stop (op_parent_store op) st1 = Inr (item, parents, st2)"
    "(case item of None \<Rightarrow> Inr (set_state st2 op\<lparr>op_parent_store := parents\<rparr>, outs)
       | Some x \<Rightarrow> put_output (rs_queue st2) (mark_streaming st2 x) (set_state st2 op\<lparr>op_parent_store := parents\<rparr>, outs)) = Inr (op2, outs2)"
    "finish = None \<Longrightarrow> op' = op2"
    "finish \<noteq> None \<Longrightarrow> \<not> rs_streaming_input st2 \<Longrightarrow> finish_request st2 op2 = Inr op'"
    "finish \<noteq> None \<Longrightarrow> rs_streaming_input st2 \<Longrightarrow> op' = set_state (next_chunk st2) op2" by metis
  have same: "rs_request_id st2 = eo_request_id e" "rs_queue st2 \<noteq> Some q"
    using detokenize_output_same [OF S(1)] make_output_same [OF S(2)] f Some ne by (auto simp: same_request_def filed_def)
  have two: "op_states op2 = AList.update (rs_request_id st2) st2 (op_states op)" "op_queues op2 q = op_queues op q"
    using S(3) same(2) by (auto dest!: put_output_frame split: option.splits)
  consider "op' = op2" | "finish_request st2 op2 = Inr op'" | "op' = set_state (next_chunk st2) op2" using S(4-6) by blast
  then show ?thesis
  proof cases
    case 1 then show ?thesis using two same f ne by (auto simp: filed_def)
  next
    case 2
    from finish_request_frame [OF this] two same f ne show ?thesis by (auto simp: filed_def)
  next
    case 3 then show ?thesis using two same f ne by (auto simp: filed_def)
  qed
qed

text \<open>An output of the streaming request itself: the pieces go on, or they are complete.\<close>

lemma detokenize_own:
  assumes "detokenize_output tk lib e st = Inr (finish, stop, st1)" "rs_detokenizer st = Some d" "\<not> eo_pooling_output e" "stream_ok d"
  obtains s d1 where "dt_update tk lib (eo_new_token_ids e) (eo_finish_reason e = Some FR_STOP) d = Inr (s, d1)"
    "st1 = st\<lparr>rs_detokenizer := Some d1\<rparr>" "finish \<noteq> None \<longleftrightarrow> s \<noteq> None \<or> eo_finish_reason e \<noteq> None"
proof -
  from assms obtain s d1 where u: "dt_update tk lib (eo_new_token_ids e) (eo_finish_reason e = Some FR_STOP) d = Inr (s, d1)"
    by (auto simp: detokenize_output_def)
  then have "(case s of Some str \<Rightarrow> if str \<noteq> [] then (Some FR_STOP, Some (OutString str), st\<lparr>rs_detokenizer := Some d1\<rparr>)
                else (eo_finish_reason e, out_stop (eo_stop_reason e), st\<lparr>rs_detokenizer := Some d1\<rparr>)
     | None \<Rightarrow> (eo_finish_reason e, out_stop (eo_stop_reason e), st\<lparr>rs_detokenizer := Some d1\<rparr>)) = (finish, stop, st1)"
    using assms(1-3) by (simp add: detokenize_output_def Let_def)
  then have st1: "st1 = st\<lparr>rs_detokenizer := Some d1\<rparr>"
    and f: "finish = (case s of Some str \<Rightarrow> if str \<noteq> [] then Some FR_STOP else eo_finish_reason e | None \<Rightarrow> eo_finish_reason e)"
    by (auto split: option.splits if_splits)
  have "finish \<noteq> None \<longleftrightarrow> s \<noteq> None \<or> eo_finish_reason e \<noteq> None"
  proof (cases s)
    case None then show ?thesis by (simp add: f)
  next
    case (Some str)
    then have "str \<in> set (dt_stop d)" using dt_update_stop u by blast
    then have "str \<noteq> []" using assms(4) unfolding stream_ok_def by blast
    with Some show ?thesis by (simp add: f)
  qed
  with u st1 show ?thesis by (rule that)
qed

lemma put_own:
  assumes dq: "delta_queue i (op_queues op q)" and ro: "ro_outputs ro = [Some y]" "cm_index y = i" and q: "rs_queue st = Some q" "\<not> rs_streaming_input st"
    and p: "put_output (rs_queue st) (mark_streaming st (OutRequest ro)) (op, outs) = Inr (op2, outs2)"
  shows "delta_queue i (op_queues op2 q)" "op_states op2 = op_states op"
    "got_text (waiting_pieces q op2) = got_text (waiting_pieces q op) @ cm_text y"
    "got_tokens (waiting_pieces q op2) = got_tokens (waiting_pieces q op) @ cm_token_ids y"
    "\<exists>x. waiting_pieces q op2 = [x] \<and> cm_finish_reason x = cm_finish_reason y"
  using put_delta [OF dq ro] p q by (auto simp: put_output_def mark_streaming_def waiting_pieces_def)

lemma get_next_offset: "get_next_output_text finished True d = (t, d') \<Longrightarrow> at_offset 0 d' = at_offset 0 d"
  by (auto simp: get_next_output_text_def Let_def split: if_splits)

lemma get_next_keeps:
  assumes "get_next_output_text finished True d = (t, d')" "well_streamed d"
  shows "well_streamed d'"
proof -
  have "dt_last_output_text_offset d' = dt_last_output_text_offset d
    \<or> dt_last_output_text_offset d < dt_last_output_text_offset d' \<and> dt_last_output_text_offset d' \<le> int (length (dt_output_text d))"
    using assms by (auto simp: get_next_output_text_def Let_def split: if_splits)
  moreover have "dt_decoder d' = dt_decoder d" "dt_output_text d' = dt_output_text d" "dt_token_ids d' = dt_token_ids d"
    using assms by (auto simp: get_next_output_text_def Let_def split: if_splits)
  ultimately show ?thesis using assms(2) by (auto simp: well_streamed_def dt_prompt_len_def)
qed

lemma own_output:
  assumes p: "process_output tk lib e (op, outs, ab) = Inr (op', outs', ab')" and f: "filed rid q op" and s: "streaming rid q d got op"
    and e: "eo_request_id e = rid" "\<not> eo_pooling_output e"
  shows "filed rid q op' \<and> (\<exists>s d1. dt_update tk lib (eo_new_token_ids e) (eo_finish_reason e = Some FR_STOP) d = Inr (s, d1)
    \<and> (if s \<noteq> None \<or> eo_finish_reason e \<noteq> None then complete rid q d1 got op'
       else \<exists>d2. streaming rid q d2 got op' \<and> at_offset 0 d2 = at_offset 0 d1))"
proof -
  from s obtain st where st: "map_of (op_states op) rid = Some st" "delta_state q d st" "well_streamed d" "stream_ok d"
    "delta_queue (rs_request_index st) (op_queues op q)" "got_text (got @ waiting_pieces q op) = given_out d"
    "got_tokens (got @ waiting_pieces q op) = sent_tokens st d" "\<forall>c \<in> set (got @ waiting_pieces q op). cm_finish_reason c = None"
    by (auto simp: streaming_def)
  have lookup: "map_of (op_states op) (eo_request_id e) = Some st" using st(1) e(1) by simp
  from process_output_cases [OF p lookup] obtain finish stop st1 item parents st2 op2 outs2 where S:
    "detokenize_output tk lib e (st\<lparr>rs_is_prefilling := False\<rparr>) = Inr (finish, stop, st1)"
    "make_request_output (eo_new_token_ids e) (eo_pooling_output e) finish stop (op_parent_store op) st1 = Inr (item, parents, st2)"
    "(case item of None \<Rightarrow> Inr (set_state st2 op\<lparr>op_parent_store := parents\<rparr>, outs)
       | Some x \<Rightarrow> put_output (rs_queue st2) (mark_streaming st2 x) (set_state st2 op\<lparr>op_parent_store := parents\<rparr>, outs)) = Inr (op2, outs2)"
    "finish = None \<Longrightarrow> op' = op2"
    "finish \<noteq> None \<Longrightarrow> \<not> rs_streaming_input st2 \<Longrightarrow> finish_request st2 op2 = Inr op'" by metis
  have "rs_detokenizer (st\<lparr>rs_is_prefilling := False\<rparr>) = Some d" using st(2) by (simp add: delta_state_def)
  from detokenize_own [OF S(1) this e(2) st(4)] obtain r d1 where
    u: "dt_update tk lib (eo_new_token_ids e) (eo_finish_reason e = Some FR_STOP) d = Inr (r, d1)"
    and st1: "st1 = st\<lparr>rs_is_prefilling := False, rs_detokenizer := Some d1\<rparr>"
    and fin: "finish \<noteq> None \<longleftrightarrow> r \<noteq> None \<or> eo_finish_reason e \<noteq> None" by auto
  note W = update_well_streamed [OF st(3,4) u] and U = dt_update_law [OF st(4) u]
  have ds1: "delta_state q d1 st1" using st(2) W(3) st1 by (auto simp: delta_state_def)
  have id1: "rs_request_id st1 = rid" using f st(1) st1 by (auto simp: filed_def)
  let ?op = "set_state st2 op\<lparr>op_parent_store := parents\<rparr>"
  have same2: "rs_request_id st2 = rid" "rs_queue st2 = Some q"
    using make_output_same [OF S(2)] id1 ds1 by (auto simp: same_request_def delta_state_def)
  have filed_two: "filed rid q o2" if "op_states o2 = op_states ?op" for o2 using f that same2 by (auto simp: filed_def)
  then have filed_op: "filed rid q ?op" by simp
  have sent: "sent_tokens st d = (if 1 < rs_stream_interval st1 then take (nat (rs_sent_tokens_offset st1)) (dt_output_token_ids d1) else dt_output_token_ids d)"
    using st(2,3) st1 W(2) num_output_length [of d] by (auto simp: sent_tokens_def delta_state_def well_streamed_def)
  have m: "make_request_output (eo_new_token_ids e) False finish stop (op_parent_store op) st1 = Inr (item, parents, st2)" using S(2) e(2) by simp
  from make_delta [OF ds1 W(1) m, of "dt_output_token_ids d"] W(2)
  consider (wait) "item = None" "finish = None" "st2 = st1" "1 < rs_stream_interval st1"
  | (piece) ro y d' n where "item = Some (OutRequest ro)" "ro_outputs ro = [Some y]" "cm_index y = rs_request_index st1" "cm_finish_reason y = finish"
      "st2 = st1\<lparr>rs_sent_tokens_offset := n, rs_detokenizer := Some d'\<rparr>" "get_next_output_text (finish \<noteq> None) True d1 = (cm_text y, d')"
      "n = (if 1 < rs_stream_interval st1 then dt_num_output_tokens d1 else rs_sent_tokens_offset st1)"
      "(if 1 < rs_stream_interval st1 then take (nat (rs_sent_tokens_offset st1)) (dt_output_token_ids d1) else dt_output_token_ids d) @ cm_token_ids y = dt_output_token_ids d1"
    by metis
  then show ?thesis
  proof cases
    case wait
    have "op' = ?op" using S(3,4) wait by simp
    moreover have "r = None" "eo_finish_reason e = None" using fin wait(2) by auto
    moreover have "streaming rid q d1 got ?op"
    proof -
      have "sent_tokens st d = sent_tokens st1 d1" using sent wait(4) by (simp add: sent_tokens_def)
      moreover have "rs_request_index st1 = rs_request_index st" using st1 by simp
      ultimately show ?thesis using wait(3) ds1 W(1) U(3,4) \<open>r = None\<close> st(5-8) id1
        unfolding streaming_def by (intro exI [of _ st1]) (simp add: waiting_pieces_def)
    qed
    ultimately show ?thesis using filed_op u wait(3) by auto
  next
    case piece
    have st2: "rs_queue st2 = Some q" "\<not> rs_streaming_input st2" "rs_request_index st1 = rs_request_index st" "rs_request_id st2 = rid"
      using ds1 piece(5) st1 id1 by (auto simp: delta_state_def)
    have put: "put_output (rs_queue st2) (mark_streaming st2 (OutRequest ro)) (?op, outs) = Inr (op2, outs2)" using S(3) piece(1) by simp
    have "delta_queue (rs_request_index st1) (op_queues ?op q)" using st(5) st2(3) by simp
    note P = put_own [OF this piece(2,3) st2(1,2) put]
    have off1: "0 \<le> dt_last_output_text_offset d1" "dt_last_output_text_offset d1 \<le> int (length (dt_output_text d1))" "dt_decoder d1 \<noteq> NoText"
      using W(1) by (auto simp: well_streamed_def)
    note G = get_next_law [OF piece(6) off1(3,1,2)]
    have wp: "waiting_pieces q ?op = waiting_pieces q op" by (simp add: waiting_pieces_def)
    have "got_text (got @ waiting_pieces q op2) = got_text (got @ waiting_pieces q op) @ cm_text y"
      "got_tokens (got @ waiting_pieces q op2) = got_tokens (got @ waiting_pieces q op) @ cm_token_ids y" using P(3,4) wp by simp_all
    then have pieces: "got_text (got @ waiting_pieces q op2) = given_out d'" "got_tokens (got @ waiting_pieces q op2) = dt_output_token_ids d1"
      unfolding st(6,7) sent using G(1) U(4) piece(8) by simp_all
    have out': "dt_output_token_ids d' = dt_output_token_ids d1" "dt_num_output_tokens d' = dt_num_output_tokens d1" "dt_prompt_len d' = dt_prompt_len d1"
      using G(5,6) by (simp_all add: dt_output_token_ids_def dt_num_output_tokens_def dt_prompt_len_def)
    show ?thesis
    proof (cases "finish = None")
      case True
      then have r: "r = None" "eo_finish_reason e = None" "op' = op2" using fin S(4) by auto
      have "stream_ok d'" using G(3) U(3) True r(1) by simp
      moreover have "well_streamed d'" using get_next_keeps [OF piece(6) W(1)] by simp
      moreover have "delta_state q d' st2" using ds1 piece(5,7) out'(2) W(1) by (auto simp: delta_state_def well_streamed_def dt_num_output_tokens_def)
      moreover have "sent_tokens st2 d' = dt_output_token_ids d1"
        using piece(5,7) out' W(1) num_output_length [of d1] by (simp add: sent_tokens_def well_streamed_def)
      moreover have "\<forall>c \<in> set (got @ waiting_pieces q op2). cm_finish_reason c = None" using P(5) piece(4) True st(8) by auto
      ultimately have "streaming rid q d' got op2" using P(1,2) pieces piece(5) st2(4) unfolding streaming_def by (intro exI [of _ st2]) simp
      then show ?thesis using r u get_next_offset [OF piece(6)] filed_two P(2) st2 by auto
    next
      case False
      then have r: "r \<noteq> None \<or> eo_finish_reason e \<noteq> None" and ended: "finish_request st2 op2 = Inr op'" using fin S(5) st2(2) by auto
      note F = finish_request_frame [OF ended]
      have "waiting_pieces q op' = waiting_pieces q op2" using F by (simp add: waiting_pieces_def)
      moreover have "\<exists>c \<in> set (got @ waiting_pieces q op2). cm_finish_reason c \<noteq> None" using P(5) piece(4) False by auto
      ultimately have "complete rid q d1 got op'" using pieces G(2,4) False F st2(4) P(2) by (simp add: complete_def)
      moreover have "filed rid q op'"
      proof -
        have "filed rid q op2" using filed_two [of op2] P(2) by simp
        then show ?thesis using F unfolding filed_def by (simp split: if_splits)
      qed
      ultimately show ?thesis using r u by auto
    qed
  qed
qed

text \<open>Once a request is complete it stays so, whatever comes and goes.\<close>

lemma serve_complete:
  assumes "serve tk lib q evs op got = Inr (op', got')" "filed rid q op" "complete rid q d got op"
  shows "complete rid q d got' op'"
  using assms
proof (induction evs arbitrary: op got)
  case (Cons ev evs)
  show ?case
  proof (cases ev)
    case (Receive e)
    then obtain op1 outs ab where p: "process_output tk lib e (op, [], []) = Inr (op1, outs, ab)" and rest: "serve tk lib q evs op1 got = Inr (op', got')"
      using Cons.prems(1) by auto
    have "filed rid q op1 \<and> map_of (op_states op1) rid = map_of (op_states op) rid \<and> op_queues op1 q = op_queues op q"
    proof (cases "eo_request_id e = rid")
      case True
      then have "op1 = op" using p Cons.prems(3) by (simp add: process_output_def complete_def)
      then show ?thesis using Cons.prems(2) by simp
    next
      case False with other_output [OF p Cons.prems(2)] show ?thesis by blast
    qed
    then show ?thesis using Cons.IH [OF rest] Cons.prems(3) by (simp add: complete_def waiting_pieces_def)
  next
    case Take
    obtain item c where c: "collector_get (op_queues op q) = (Inr item, c)"
      and rest: "serve tk lib q evs (op\<lparr>op_queues := (op_queues op)(q := c)\<rparr>) (got @ completions item) = Inr (op', got')"
      using Cons.prems(1) Take by (auto split: prod.splits sum.splits)
    have "item = rc_output (op_queues op q)" "rc_output c = None" using c by (auto simp: collector_get_def split: option.splits out_item.splits)
    then have "complete rid q d (got @ completions item) (op\<lparr>op_queues := (op_queues op)(q := c)\<rparr>)"
      using Cons.prems(3) by (simp add: complete_def waiting_pieces_def)
    then show ?thesis using Cons.IH [OF rest] Cons.prems(2) by (simp add: filed_def)
  qed
qed simp

lemma serve_streaming:
  assumes "serve tk lib q evs op got = Inr (op', got')" "filed rid q op" "streaming rid q d got op" "\<forall>e \<in> set (received rid evs). \<not> eo_pooling_output e"
  shows "\<exists>ended d'. decoded tk lib (received rid evs) d = (ended, d')
    \<and> (if ended then complete rid q d' got' op' else \<exists>d2. streaming rid q d2 got' op' \<and> at_offset 0 d2 = at_offset 0 d')"
  using assms
proof (induction evs arbitrary: op got d)
  case Nil then show ?case by auto
next
  case (Cons ev evs)
  show ?case
  proof (cases ev)
    case Take
    obtain item c where c: "collector_get (op_queues op q) = (Inr item, c)"
      and rest: "serve tk lib q evs (op\<lparr>op_queues := (op_queues op)(q := c)\<rparr>) (got @ completions item) = Inr (op', got')"
      using Cons.prems(1) Take by (auto split: prod.splits sum.splits)
    have "item = rc_output (op_queues op q)" "rc_output c = None" "rc_aggregate c = rc_aggregate (op_queues op q)"
      using c by (auto simp: collector_get_def split: option.splits out_item.splits)
    then have "streaming rid q d (got @ completions item) (op\<lparr>op_queues := (op_queues op)(q := c)\<rparr>)"
      using Cons.prems(3) by (auto simp: streaming_def waiting_pieces_def delta_queue_def)
    then show ?thesis using Cons.IH [OF rest] Cons.prems(2,4) Take by (simp add: filed_def)
  next
    case (Receive e)
    then obtain op1 outs ab where p: "process_output tk lib e (op, [], []) = Inr (op1, outs, ab)" and rest: "serve tk lib q evs op1 got = Inr (op', got')"
      using Cons.prems(1) by auto
    show ?thesis
    proof (cases "eo_request_id e = rid")
      case False
      from other_output [OF p Cons.prems(2) False] have o1: "filed rid q op1" "map_of (op_states op1) rid = map_of (op_states op) rid" "op_queues op1 q = op_queues op q" by auto
      then have "streaming rid q d got op1" using Cons.prems(3) by (simp add: streaming_def waiting_pieces_def)
      from Cons.IH [OF rest o1(1) this] Cons.prems(4) Receive False show ?thesis by simp
    next
      case True
      then have np: "\<not> eo_pooling_output e" using Cons.prems(4) Receive by simp
      from own_output [OF p Cons.prems(2,3) True np] obtain s d1 where f1: "filed rid q op1"
        and u: "dt_update tk lib (eo_new_token_ids e) (eo_finish_reason e = Some FR_STOP) d = Inr (s, d1)"
        and next': "if s \<noteq> None \<or> eo_finish_reason e \<noteq> None then complete rid q d1 got op1 else \<exists>d2. streaming rid q d2 got op1 \<and> at_offset 0 d2 = at_offset 0 d1"
        by blast
      show ?thesis
      proof (cases "s \<noteq> None \<or> eo_finish_reason e \<noteq> None")
        case ended: True
        then have "complete rid q d1 got op1" using next' by simp
        from serve_complete [OF rest f1 this] show ?thesis using Receive True u ended by (intro exI [of _ True] exI [of _ d1]) auto
      next
        case False
        then obtain d2 where d2: "streaming rid q d2 got op1" "at_offset 0 d2 = at_offset 0 d1" using next' by auto
        have "\<forall>e \<in> set (received rid evs). \<not> eo_pooling_output e" using Cons.prems(4) Receive True by simp
        from Cons.IH [OF rest f1 d2(1) this] obtain ended d' where
          D: "decoded tk lib (received rid evs) d2 = (ended, d')" "if ended then complete rid q d' got' op' else \<exists>d2. streaming rid q d2 got' op' \<and> at_offset 0 d2 = at_offset 0 d'"
          by blast
        have "decoded tk lib (received rid evs) d1 = (ended, at_offset (dt_last_output_text_offset d1) d')"
        proof -
          have "d1 = at_offset (dt_last_output_text_offset d1) d2" using d2(2) by (metis decoded_offset_id)
          then show ?thesis using D(1) decoded_offset [of tk lib "received rid evs" "dt_last_output_text_offset d1" d2] by simp
        qed
        moreover have "complete rid q (at_offset x d') got' op' = complete rid q d' got' op'" for x
          by (simp add: complete_def dt_output_token_ids_def dt_prompt_len_def)
        ultimately show ?thesis using D(2) Receive True u False by (auto split: if_splits)
      qed
    qed
  qed
qed

text \<open>A request that has just been added streams from the beginning.\<close>

lemma new_detokenizer:
  fixes d :: "'s detokenizer"
  assumes "detokenizer_from_new_request tk lib kind (Some p) ids embeds = Inr d" "kind \<noteq> NoTokenizer" "\<forall>s \<in> set (dt_stop d). s \<noteq> []"
  shows "well_streamed d" "stream_ok d" "dt_output_token_ids d = []" "dt_num_output_tokens d = 0" "given_out d = []"
proof -
  have "dt_stop d = dt_stop (base_init p :: 's detokenizer) \<and> stream_ok d = stream_ok (base_init p :: 's detokenizer) \<and> dt_decoder d \<noteq> NoText \<and> dt_output_text d = []
    \<and> dt_last_output_text_offset d = 0 \<and> dt_prompt_len d = length (dt_token_ids d)"
  proof (cases kind)
    case FastTokenizer
    then have "d = fast_init lib p ids" using assms(1) by (simp add: detokenizer_from_new_request_def)
    then show ?thesis by (simp add: fast_init_def base_init_def Let_def stream_ok_def dt_prompt_len_def)
  next
    case SlowTokenizer
    then have "slow_init tk p ids embeds = Inr d" using assms(1) by (simp add: detokenizer_from_new_request_def)
    then obtain n where n: "length_from_prompt_token_ids_or_embeds ids embeds = Inr n"
      and i: "(let (tokens, prefix_offset, read_offset) = (case ids of Some ids \<Rightarrow> convert_prompt_ids_to_tokens tk ids (dp_skip_special p) | None \<Rightarrow> (replicate n [], 0, 0))
       in Inr ((base_init p)\<lparr>dt_token_ids := (case ids of None \<Rightarrow> replicate n 0 | Some ids \<Rightarrow> if ids = [] then replicate n 0 else ids),
            dt_decoder := Slow \<lparr>sl_prompt_len = n, sl_tokens = tokens, sl_prefix_offset = prefix_offset, sl_read_offset = read_offset,
                                sl_skip = dp_skip_special p, sl_spaces = dp_spaces_between p\<rparr>\<rparr>)) = (Inr d :: 's detokenizer res)"
      unfolding slow_init_def by (auto simp del: split_paired_Ex)
    obtain t a b where c: "(case ids of Some ids \<Rightarrow> convert_prompt_ids_to_tokens tk ids (dp_skip_special p) | None \<Rightarrow> (replicate n [], 0, 0)) = (t, a, b)"
      using prod_cases3 by blast
    obtain s where d: "d = (base_init p)\<lparr>dt_token_ids := (case ids of None \<Rightarrow> replicate n 0 | Some l \<Rightarrow> if l = [] then replicate n 0 else l), dt_decoder := Slow s\<rparr>"
      and s: "sl_prompt_len s = n"
      using i unfolding c by auto
    have "length (case ids of None \<Rightarrow> replicate n (0 :: int) | Some l \<Rightarrow> if l = [] then replicate n 0 else l) = n"
      using n by (cases ids; cases embeds) (simp_all add: length_from_prompt_token_ids_or_embeds_def split: if_splits)
    then show ?thesis using s by (simp add: d stream_ok_def dt_prompt_len_def base_init_def Let_def)
  qed (use assms(2) in simp)
  then have f: "dt_stop d = dt_stop (base_init p :: 's detokenizer)" "stream_ok d = stream_ok (base_init p :: 's detokenizer)" "dt_decoder d \<noteq> NoText" "dt_output_text d = []"
    "dt_last_output_text_offset d = 0" "dt_prompt_len d = length (dt_token_ids d)" by blast+
  have "\<forall>s \<in> set (dt_stop (base_init p :: 's detokenizer)). s \<noteq> []" using assms(3) unfolding f(1) .
  from stream_ok_init [OF this] f(2) show "stream_ok d" by blast
  show "well_streamed d" "dt_output_token_ids d = []" "dt_num_output_tokens d = 0" "given_out d = []"
    using f(3-6) by (simp_all add: well_streamed_def dt_output_token_ids_def dt_num_output_tokens_def given_out_def)
qed

lemma added_streaming:
  assumes add: "op_add_request tk lib r prompt None index (Some q) op0 = Inr op"
    and r: "er_sampling r = Some (params, True, DELTA)" "\<not> er_resumable r" "op_kind op0 \<noteq> NoTokenizer"
    and d: "detokenizer_from_new_request tk lib (op_kind op0) (Some params) (er_prompt_token_ids r) (er_prompt_embeds r) = Inr d" "\<forall>s \<in> set (dt_stop d). s \<noteq> []"
    and fresh: "map_of (op_states op0) (er_request_id r) = None" "filed (er_request_id r) q op0" "op_queues op0 q = collector_init DELTA"
  shows "filed (er_request_id r) q op" "streaming (er_request_id r) q d [] op"
proof -
  from add fresh(1) obtain st where st: "state_from_new_request tk lib (op_kind op0) r prompt None index (Some q) (op_stream_interval op0) = Inr st"
    and op: "op_states op = AList.update (rs_request_id st) st (op_states op0)" "op_queues op = op_queues op0"
    by (auto simp: op_add_request_def Let_def)
  note N = new_detokenizer [OF d(1) r(3) d(2)]
  from st r d(1) have f: "rs_request_id st = er_request_id r" "rs_queue st = Some q" "delta_state q d st" "rs_request_index st = index"
    using N(4) by (auto simp: state_from_new_request_def delta_state_def split: option.splits)
  show "filed (er_request_id r) q op" using fresh(2) op f(1,2) by (auto simp: filed_def)
  show "streaming (er_request_id r) q d [] op" using op f N fresh(3)
    by (auto simp: streaming_def waiting_pieces_def collector_init_def delta_queue_def sent_tokens_def)
qed

text \<open>
  C7: A client that streams loses nothing. For a request added in delta mode, whatever outputs for this and other requests arrive, whatever
  the stream interval is and whenever the client takes what its collector holds: the pieces of text taken and still waiting, put together, are
  a beginning of the text that detokenizing all outputs gives, with stop strings cut off, and likewise for the tokens; when the request
  has ended they are the whole text and all tokens, and exactly then a piece carries a finish reason and the request is gone from the processor.
\<close>

theorem streamed_deltas_complete:
  assumes "op_add_request tk lib r prompt None index (Some q) op0 = Inr op"
    and "er_sampling r = Some (params, True, DELTA)" "\<not> er_resumable r" "op_kind op0 \<noteq> NoTokenizer"
    and "detokenizer_from_new_request tk lib (op_kind op0) (Some params) (er_prompt_token_ids r) (er_prompt_embeds r) = Inr d" "\<forall>s \<in> set (dt_stop d). s \<noteq> []"
    and "map_of (op_states op0) (er_request_id r) = None" "filed (er_request_id r) q op0" "op_queues op0 q = collector_init DELTA"
    and "serve tk lib q evs op [] = Inr (op', got)" "\<forall>e \<in> set (received (er_request_id r) evs). \<not> eo_pooling_output e"
    and "decoded tk lib (received (er_request_id r) evs) d = (ended, d')"
  shows "(\<exists>rest. got_text (got @ waiting_pieces q op') @ rest = dt_output_text d' \<and> (ended \<longrightarrow> rest = []))
    \<and> (\<exists>rest. got_tokens (got @ waiting_pieces q op') @ rest = dt_output_token_ids d' \<and> (ended \<longrightarrow> rest = []))
    \<and> ((\<exists>c \<in> set (got @ waiting_pieces q op'). cm_finish_reason c \<noteq> None) \<longleftrightarrow> ended)
    \<and> (map_of (op_states op') (er_request_id r) = None \<longleftrightarrow> ended)"
proof -
  from serve_streaming [OF assms(10) added_streaming [OF assms(1-9)] assms(11)] assms(12)
  consider (ended) "ended" "complete (er_request_id r) q d' got op'"
    | (going) d2 where "\<not> ended" "streaming (er_request_id r) q d2 got op'" "at_offset 0 d2 = at_offset 0 d'" by (auto split: if_splits)
  then show ?thesis
  proof cases
    case ended then show ?thesis by (simp add: complete_def)
  next
    case going
    from decoded_offset_id [OF going(3)] have d': "dt_output_text d' = dt_output_text d2" "dt_output_token_ids d' = dt_output_token_ids d2"
      by (metis at_offset_fields)+
    from going(2) obtain st where st: "map_of (op_states op') (er_request_id r) = Some st" "got_text (got @ waiting_pieces q op') = given_out d2"
      "got_tokens (got @ waiting_pieces q op') = sent_tokens st d2" "\<forall>c \<in> set (got @ waiting_pieces q op'). cm_finish_reason c = None"
      by (auto simp: streaming_def)
    have "\<exists>rest. given_out d2 @ rest = dt_output_text d2" unfolding given_out_def by (metis append_take_drop_id)
    moreover have "\<exists>rest. sent_tokens st d2 @ rest = dt_output_token_ids d2" unfolding sent_tokens_def by (metis append_Nil2 append_take_drop_id)
    ultimately show ?thesis using st going(1) d' by simp
  qed
qed

definition example_added :: ec_request where
  "example_added = \<lparr>er_request_id = ''r'', er_external_req_id = Some ''x'', er_sampling = Some (example_params, True, DELTA), er_pooling_kind = None,
     er_prompt_token_ids = Some [7, 8], er_prompt_embeds = None, er_resumable = False\<rparr>"

definition example_processor :: "unit output_processor" where
  "example_processor = \<lparr>op_kind = FastTokenizer, op_stream_interval = 2, op_states = [], op_parents = [], op_external = [],
     op_parent_store = (\<lambda>_. \<lparr>pr_request_id = [], pr_external_req_id = [], pr_params = \<lparr>ch_n = 1, ch_seed = None\<rparr>, pr_output_kind = DELTA,
        pr_child_requests = [], pr_output_aggregator = [], pr_max_num_generation_tokens = 0, pr_cached_child_params = None\<rparr>),
     op_queues = (\<lambda>_. collector_init DELTA)\<rparr>"

abbreviation example_out :: "int list \<Rightarrow> engine_core_output" where
  "example_out ids \<equiv> \<lparr>eo_request_id = ''r'', eo_new_token_ids = ids, eo_finish_reason = None, eo_stop_reason = None, eo_pooling_output = False\<rparr>"

definition example_events :: "stream_event list" where
  "example_events = [Receive (example_out [0]), Take, Receive (example_out [1]), Receive (example_out [0, 2]), Take, Receive (example_out [3, 4])]"

definition example_served :: "(unit output_processor \<times> completion_output list) res" where
  "example_served = res_bind (op_add_request example_tokenizer example_stream example_added None None 0 (Some 0) example_processor)
     (\<lambda>op. serve example_tokenizer example_stream 0 example_events op [])"

definition example_decoded :: "bool \<times> unit detokenizer" where
  "example_decoded = decoded example_tokenizer example_stream (received ''r'' example_events) (fast_init example_stream example_params (Some [7, 8]))"

lemma example_run:
  "(case example_served of Inr (op, got) \<Rightarrow> map cm_text got = [[], [97, 98, 97]] | Inl _ \<Rightarrow> False)"
  "fst example_decoded \<and> dt_output_text (snd example_decoded) = [97, 98, 97]"
  by code_simp+

lemma example_tokens: "dt_output_token_ids (snd example_decoded) = [0, 1, 0, 2, 3, 4]"
  by code_simp

theorem streamed_deltas_complete_witness:
  "\<exists>op got. example_served = Inr (op, got) \<and> got_text (got @ waiting_pieces 0 op) = [97, 98, 97] \<and> got_tokens (got @ waiting_pieces 0 op) = [0, 1, 0, 2, 3, 4]"
proof -
  obtain op' got where served: "example_served = Inr (op', got)" using example_run(1) by (auto split: sum.splits)
  then obtain op where add: "op_add_request example_tokenizer example_stream example_added None None 0 (Some 0) example_processor = Inr op"
    and run: "serve example_tokenizer example_stream 0 example_events op [] = Inr (op', got)" by (auto simp: example_served_def)
  obtain d' where dec: "decoded example_tokenizer example_stream (received (er_request_id example_added) example_events) (fast_init example_stream example_params (Some [7, 8])) = (True, d')"
    and d': "dt_output_text d' = [97, 98, 97]" using example_run(2) by (cases example_decoded) (auto simp: example_decoded_def example_added_def)
  have "dt_output_token_ids d' = [0, 1, 0, 2, 3, 4]" using example_tokens dec by (simp add: example_decoded_def example_added_def)
  moreover have "detokenizer_from_new_request example_tokenizer example_stream (op_kind example_processor) (Some example_params) (er_prompt_token_ids example_added) (er_prompt_embeds example_added)
      = Inr (fast_init example_stream example_params (Some [7, 8]))"
    by (simp add: detokenizer_from_new_request_def example_processor_def example_added_def)
  moreover have "\<forall>s \<in> set (dt_stop (fast_init example_stream example_params (Some [7, 8]))). s \<noteq> []"
    by (simp add: fast_init_def base_init_def example_params_def Let_def)
  moreover have "filed (er_request_id example_added) 0 example_processor" by (simp add: filed_def example_processor_def)
  moreover have "\<forall>e \<in> set (received (er_request_id example_added) example_events). \<not> eo_pooling_output e" by (simp add: example_events_def example_added_def)
  ultimately show ?thesis
    using streamed_deltas_complete [OF add _ _ _ _ _ _ _ _ run _ dec, where params = example_params] served d'
    by (auto simp: example_added_def example_processor_def)
qed

section \<open>Parallel sampling\<close>

text \<open>The digits of an index determine it, so the children of a request have different identifiers.\<close>

definition digits_value :: "string \<Rightarrow> nat" where
  "digits_value = foldl (\<lambda>a c. 10 * a + (of_char c - 48)) 0"

declare show_nat.simps [simp del]

lemma digits_value_show: "digits_value (show_nat n) = n"
proof (induction n rule: show_nat.induct)
  case (1 n)
  have "of_char (char_of (48 + n mod 10) :: char) = (48 + n mod 10 :: nat)" by (simp add: of_char_of)
  then show ?case using 1 by (subst show_nat.simps) (auto simp: digits_value_def of_char_of)
qed

lemma child_id_inj: "child_id i rid = child_id j rid \<longleftrightarrow> i = j"
  unfolding child_id_def by (metis append_same_eq digits_value_show)

text \<open>All children of a request, registered in order of their indices.\<close>

fun get_children :: "nat list \<Rightarrow> parent_request \<Rightarrow> (string \<times> child_params) list \<times> parent_request" where
  "get_children [] p = ([], p)"
| "get_children (i # is) p = (let (c, p1) = get_child_info i p; (cs, p2) = get_children is p1 in (c # cs, p2))"

definition child_sampling :: "child_params \<Rightarrow> nat \<Rightarrow> child_params" where
  "child_sampling c i = c\<lparr>ch_n := 1, ch_seed := map_option (\<lambda>s. s + int i) (ch_seed c)\<rparr>"

definition same_parent :: "parent_request \<Rightarrow> parent_request \<Rightarrow> bool" where
  "same_parent p p' \<longleftrightarrow> pr_request_id p' = pr_request_id p \<and> pr_params p' = pr_params p \<and> pr_output_kind p' = pr_output_kind p
     \<and> pr_output_aggregator p' = pr_output_aggregator p
     \<and> (\<forall>c. pr_cached_child_params p' = Some c \<longrightarrow> ch_seed (pr_params p) = None \<and> c = (pr_params p)\<lparr>ch_n := 1\<rparr>)"

lemma get_child_info_law:
  assumes "get_child_info i p = ((cid, c), p')" "same_parent p0 p"
  shows "cid = child_id i (pr_request_id p0)" "c = child_sampling (pr_params p0) i" "same_parent p0 p'"
    "set (pr_child_requests p') = insert cid (set (pr_child_requests p))"
  using assms by (auto simp: get_child_info_def get_child_sampling_params_def Let_def same_parent_def child_sampling_def split: option.splits)

lemma get_children_law:
  assumes "get_children is p = (cs, p')" "same_parent p0 p"
  shows "cs = map (\<lambda>i. (child_id i (pr_request_id p0), child_sampling (pr_params p0) i)) is \<and> same_parent p0 p'
    \<and> set (pr_child_requests p') = (\<lambda>i. child_id i (pr_request_id p0)) ` set is \<union> set (pr_child_requests p)"
  using assms
proof (induction "is" arbitrary: p cs)
  case (Cons i "is")
  obtain cid c p1 where one: "get_child_info i p = ((cid, c), p1)" by (metis prod.collapse)
  obtain cs1 where rest: "get_children is p1 = (cs1, p')" "cs = (cid, c) # cs1" using Cons.prems(1) one by (auto simp: Let_def split: prod.splits)
  note L = get_child_info_law [OF one Cons.prems(2)]
  from Cons.IH [OF rest(1) L(3)] L rest(2) show ?case by auto
qed simp

text \<open>The answers of the parent to the outputs of its children, in the order in which they arrive.\<close>

fun child_answers ::
  "(nat \<times> completion_output) list \<Rightarrow> parent_request \<Rightarrow> ((completion_output option list \<times> bool) list \<times> parent_request) res" where
  "child_answers [] p = Inr ([], p)"
| "child_answers ((i, out) # evs) p =
     res_bind (get_outputs (child_id i (pr_request_id p)) out p) (\<lambda>(a, p1).
     res_bind (child_answers evs p1) (\<lambda>(as, p2). Inr (a # as, p2)))"

text \<open>The children whose final output is among the given ones.\<close>

definition ended :: "(nat \<times> completion_output) list \<Rightarrow> nat set" where
  "ended evs = {i. \<exists>out. (i, out) \<in> set evs \<and> cm_finish_reason out \<noteq> None}"

lemma ended_simps [simp]:
  "ended [] = {}" "ended (evs @ evs') = ended evs \<union> ended evs'"
  "ended [(i, out)] = (if cm_finish_reason out \<noteq> None then {i} else {})"
  by (auto simp: ended_def)

definition parent_state :: "string \<Rightarrow> output_kind \<Rightarrow> nat \<Rightarrow> (nat \<times> completion_output) list \<Rightarrow> parent_request \<Rightarrow> bool" where
  "parent_state rid kind n past p \<longleftrightarrow> pr_request_id p = rid \<and> pr_output_kind p = kind
     \<and> set (pr_child_requests p) = (\<lambda>i. child_id i rid) ` ({..<n} - ended past)
     \<and> (kind = FINAL_ONLY \<longrightarrow> pr_output_aggregator p = map (map_of (rev past)) [0..<n])"

text \<open>
  What the parent answers to the output of child \<open>i\<close> after the outputs \<open>past\<close>: it says that the request is finished
  when every child has ended; for a streaming kind it passes the output on unless it repeats a final
  output; for the final-only kind it gives nothing until every child has ended, and then the last output of every child
  in the order of the indices.
\<close>

definition answer_ok ::
  "output_kind \<Rightarrow> nat \<Rightarrow> (nat \<times> completion_output) list \<Rightarrow> nat \<times> completion_output \<Rightarrow> completion_output option list \<times> bool \<Rightarrow> bool" where
  "answer_ok kind n past ev answer \<longleftrightarrow>
     snd answer = ({..<n} \<subseteq> ended (past @ [ev]))
     \<and> (kind \<noteq> FINAL_ONLY \<longrightarrow> fst answer =
          (if cm_finish_reason (snd ev) \<noteq> None \<and> fst ev \<in> ended past then [] else [Some (snd ev)]))
     \<and> (kind = FINAL_ONLY \<longrightarrow> fst answer =
          (if {..<n} \<subseteq> ended (past @ [ev]) then map (map_of (rev (past @ [ev]))) [0..<n] else []))"

lemma get_outputs_step:
  assumes st: "parent_state rid kind n past p" and i: "i < n" "cm_index out = i"
  shows "\<exists>a p1. get_outputs (child_id i rid) out p = Inr (a, p1)
    \<and> parent_state rid kind n (past @ [(i, out)]) p1 \<and> answer_ok kind n past (i, out) a"
proof -
  let ?fin = "cm_finish_reason out \<noteq> None" and ?now = "past @ [(i, out)]"
  define kids where "kids = (if ?fin then removeAll (child_id i rid) (pr_child_requests p) else pr_child_requests p)"
  have P: "pr_request_id p = rid" "pr_output_kind p = kind"
    "set (pr_child_requests p) = (\<lambda>j. child_id j rid) ` ({..<n} - ended past)"
    "kind = FINAL_ONLY \<longrightarrow> pr_output_aggregator p = map (map_of (rev past)) [0..<n]"
    using st by (auto simp: parent_state_def)
  have kset: "set kids = (\<lambda>j. child_id j rid) ` ({..<n} - ended ?now)"
    unfolding kids_def by (auto simp: P(3) child_id_inj)
  have none: "kids = [] \<longleftrightarrow> {..<n} \<subseteq> ended ?now"
  proof -
    have "kids = [] \<longleftrightarrow> {..<n} - ended ?now = {}" using kset by (metis image_is_empty set_empty)
    then show ?thesis by (simp only: Diff_eq_empty_iff)
  qed
  have already: "child_id i rid \<notin> set (pr_child_requests p) \<longleftrightarrow> i \<in> ended past"
    using i(1) by (auto simp: P(3) child_id_inj)
  show ?thesis
  proof (cases "kind = FINAL_ONLY")
    case False
    let ?p = "p\<lparr>pr_child_requests := kids\<rparr>"
    have "get_outputs (child_id i rid) out p = Inr ((if ?fin \<and> i \<in> ended past then [] else [Some out], kids = []), ?p)"
      using False by (simp add: get_outputs_def Let_def P(2) already kids_def)
    moreover have "parent_state rid kind n ?now ?p" using P(1,2) kset False by (simp add: parent_state_def)
    ultimately show ?thesis using False none by (auto simp: answer_ok_def)
  next
    case True
    define agg where "agg = (pr_output_aggregator p)[i := Some out]"
    let ?p = "p\<lparr>pr_child_requests := kids, pr_output_aggregator := agg\<rparr>"
    have agg: "agg = map (map_of (rev ?now)) [0..<n]"
      using P(4) True i(1) by (auto simp: agg_def list_eq_iff_nth_eq nth_list_update)
    have "get_outputs (child_id i rid) out p = Inr ((if kids \<noteq> [] then [] else agg, kids = []), ?p)"
      using True i P(4) by (simp add: get_outputs_def Let_def P(2) kids_def agg_def)
    moreover have "parent_state rid kind n ?now ?p" using P(1,2) kset agg by (simp add: parent_state_def)
    ultimately show ?thesis using True none agg by (auto simp: answer_ok_def)
  qed
qed

lemma child_answers_law:
  assumes "parent_state rid kind n past p" "\<forall>(i, out) \<in> set evs. i < n \<and> cm_index out = i"
  shows "\<exists>as p'. child_answers evs p = Inr (as, p') \<and> length as = length evs
    \<and> (\<forall>k < length evs. answer_ok kind n (past @ take k evs) (evs ! k) (as ! k))"
  using assms
proof (induction evs arbitrary: past p)
  case (Cons ev evs)
  obtain i out where ev: "ev = (i, out)" by (cases ev)
  have rid: "pr_request_id p = rid" using Cons.prems(1) by (simp add: parent_state_def)
  obtain a p1 where one: "get_outputs (child_id i rid) out p = Inr (a, p1)"
    "parent_state rid kind n (past @ [ev]) p1" "answer_ok kind n past ev a"
    using get_outputs_step [OF Cons.prems(1), of i out] Cons.prems(2) ev by auto
  obtain as p2 where rest: "child_answers evs p1 = Inr (as, p2)" "length as = length evs"
    "\<forall>k < length evs. answer_ok kind n ((past @ [ev]) @ take k evs) (evs ! k) (as ! k)"
    using Cons.IH [OF one(2)] Cons.prems(2) by auto
  have "answer_ok kind n (past @ take k (ev # evs)) ((ev # evs) ! k) ((a # as) ! k)" if "k < length (ev # evs)" for k
    using rest(3) one(3) that by (cases k) auto
  then show ?case using one(1) rest(1,2) rid ev by (intro exI [of _ "a # as"] exI [of _ p2]) simp
qed simp

text \<open>
  C40: several samples of one request, for every output kind, once all children are registered. The children get different
  identifiers, one sample each and, when there is a seed, seeds that count up. Whatever outputs of the children then
  arrive in whatever order, \<^verbatim>\<open>get_outputs\<close> never fails and every answer is as it should be (\<open>answer_ok\<close>): the
  request is said to be finished exactly when the final outputs of all children have arrived; a streaming request passes
  every output on at once, except a final output that repeats one already passed on; a final-only request answers with nothing until
  all children have ended, and then with the last outputs of all children in the order of their indices.
\<close>

theorem parallel_samples_complete:
  assumes "parent_init rid ext params kind = Inr p0" "get_children [0..<n] p0 = (children, p)" "n = ch_n params"
    and "\<forall>(i, out) \<in> set evs. i < n \<and> cm_index out = i"
  shows "children = map (\<lambda>i. (child_id i rid, child_sampling params i)) [0..<n] \<and> distinct (map fst children)
    \<and> (\<exists>as p'. child_answers evs p = Inr (as, p') \<and> length as = length evs
         \<and> (\<forall>k < length evs. answer_ok kind n (take k evs) (evs ! k) (as ! k)))"
proof -
  have p0: "pr_request_id p0 = rid" "pr_params p0 = params" "pr_output_kind p0 = kind" "pr_child_requests p0 = []"
    "kind = FINAL_ONLY \<longrightarrow> pr_output_aggregator p0 = replicate n None" "pr_cached_child_params p0 = None"
    using assms(1,3) by (auto simp: parent_init_def split: option.splits)
  have "same_parent p0 p0" using p0(6) by (simp add: same_parent_def)
  note G = get_children_law [OF assms(2) this]
  have c: "children = map (\<lambda>i. (child_id i rid, child_sampling params i)) [0..<n]" using G unfolding p0(1,2) by blast
  have p: "same_parent p0 p" "set (pr_child_requests p) = (\<lambda>i. child_id i rid) ` {..<n}"
    using G unfolding p0(1,4) by (simp_all add: atLeast0LessThan)
  have "map (\<lambda>_. None :: completion_output option) [0..<n] = replicate n None" by (intro nth_equalityI) simp_all
  moreover have "pr_request_id p = rid" "pr_output_kind p = kind" "pr_output_aggregator p = pr_output_aggregator p0"
    using p(1) p0(1,3) by (simp_all add: same_parent_def)
  ultimately have "parent_state rid kind n [] p" using p(2) p0(5) by (simp add: parent_state_def)
  from child_answers_law [OF this assms(4)] obtain as p' where
    "child_answers evs p = Inr (as, p')" "length as = length evs"
    "\<forall>k < length evs. answer_ok kind n (take k evs) (evs ! k) (as ! k)" by auto
  moreover have "distinct (map fst children)" unfolding c by (simp add: comp_def distinct_map inj_on_def child_id_inj)
  ultimately show ?thesis using c by auto
qed

definition example_sample :: "nat \<Rightarrow> completion_output" where
  "example_sample i = \<lparr>cm_index = i, cm_text = [97], cm_token_ids = [int i], cm_finish_reason = Some FR_LENGTH, cm_stop_reason = None\<rparr>"

theorem parallel_samples_complete_witness:
  "\<exists>p0 children p as p'. parent_init ''r'' (Some ''x'') \<lparr>ch_n = 2, ch_seed = Some 5\<rparr> FINAL_ONLY = Inr p0
    \<and> get_children [0..<2] p0 = (children, p)
    \<and> child_answers [(1, example_sample 1), (0, example_sample 0)] p = Inr (as, p')
    \<and> as = [([], False), ([Some (example_sample 0), Some (example_sample 1)], True)]"
proof -
  let ?evs = "[(1 :: nat, example_sample 1), (0, example_sample 0)]"
  obtain p0 where p0: "parent_init ''r'' (Some ''x'') \<lparr>ch_n = 2, ch_seed = Some 5\<rparr> FINAL_ONLY = Inr p0" by (simp add: parent_init_def)
  obtain children p where c: "get_children [0..<2] p0 = (children, p)" by force
  have ev: "\<forall>(i, out) \<in> set ?evs. i < 2 \<and> cm_index out = i" by (simp add: example_sample_def)
  have n: "2 = ch_n \<lparr>ch_n = 2, ch_seed = Some 5\<rparr>" by simp
  obtain as p' where A: "child_answers ?evs p = Inr (as, p')" "length as = length ?evs"
    "\<forall>k < length ?evs. answer_ok FINAL_ONLY 2 (take k ?evs) (?evs ! k) (as ! k)"
    using parallel_samples_complete [OF p0 c n ev] by (elim conjE exE) (rule that)
  have two: "{..<2 :: nat} = {0, 1}" "[0..<2] = [0, 1 :: nat]" by auto code_simp
  obtain a b where ab: "as = [a, b]" using A(2) by (auto simp: length_Suc_conv)
  have "answer_ok FINAL_ONLY 2 [] (1, example_sample 1) a"
    "answer_ok FINAL_ONLY 2 [(1, example_sample 1)] (0, example_sample 0) b"
    using A(3) [rule_format, of 0] A(3) [rule_format, of 1] by (simp_all add: ab)
  then have "a = ([], False)" "b = ([Some (example_sample 0), Some (example_sample 1)], True)"
    unfolding answer_ok_def two ended_def by (simp_all add: example_sample_def prod_eq_iff)
  then have as_eq: "as = [([], False), ([Some (example_sample 0), Some (example_sample 1)], True)]" using ab by simp
  show ?thesis by (intro exI conjI) (rule p0 c A(1) as_eq)+
qed

section \<open>Corner cases\<close>

text \<open>
  The children are registered one by one while outputs may already arrive. A child that ends before the next one is
  registered empties the set of children: the request is reported as finished, with an output missing.
\<close>

lemma early_child_ends_request:
  "case parent_init ''r'' (Some ''x'') \<lparr>ch_n = 2, ch_seed = None\<rparr> FINAL_ONLY of
     Inl _ \<Rightarrow> False
   | Inr p0 \<Rightarrow> (case get_child_info 0 p0 of ((cid, _), p1) \<Rightarrow>
       map_sum id fst (get_outputs cid (example_sample 0) p1) = Inr ([Some (example_sample 0), None], True))"
  by (simp add: parent_init_def get_child_info_def get_child_sampling_params_def get_outputs_def example_sample_def Let_def numeral_2_eq_2)

text \<open>With a stream interval above one a pooling request fails: the check asks for a detokenizer, and a pooling request has none.\<close>

lemma pooling_with_interval_fails:
  assumes "rs_detokenizer st = None" "1 < rs_stream_interval st"
  shows "make_request_output ids True (Some FR_STOP) stop parents st = Inl AssertionError"
  using assms by (simp add: make_request_output_def output_due_def)

text \<open>In cumulative mode the offset of sent tokens stays zero, so that the stream interval has no effect: an output is due every time.\<close>

lemma interval_ignored_when_cumulative:
  assumes "rs_output_kind st = CUMULATIVE" "rs_sent_tokens_offset st = 0" "rs_detokenizer st = Some d"
  shows "output_due ids finish st = Inr (Some (ids, st))"
  using assms by (simp add: output_due_def)

text \<open>
  A request with two samples that is aborted by its external identifier: both children go, but the entry of the parent stays in the
  table of parents for good.
\<close>

definition example_parent_processor :: "unit output_processor res" where
  "example_parent_processor =
     (let child = (\<lambda>cid. example_added\<lparr>er_request_id := cid, er_sampling := Some (example_params, True, FINAL_ONLY)\<rparr>);
          p = \<lparr>pr_request_id = ''r'', pr_external_req_id = ''x'', pr_params = \<lparr>ch_n = 2, ch_seed = None\<rparr>, pr_output_kind = FINAL_ONLY,
               pr_child_requests = [''0_r'', ''1_r''], pr_output_aggregator = [None, None], pr_max_num_generation_tokens = 0, pr_cached_child_params = None\<rparr>
      in res_bind (op_add_request example_tokenizer example_stream (child ''0_r'') None (Some 0) 0 (Some 0) (example_processor\<lparr>op_parent_store := (\<lambda>_. p)\<rparr>)) (\<lambda>op.
         op_add_request example_tokenizer example_stream (child ''1_r'') None (Some 0) 1 (Some 0) op))"

lemma external_abort_keeps_parent:
  "case example_parent_processor of
     Inl _ \<Rightarrow> False
   | Inr op \<Rightarrow> (case op_abort_requests 1 [''x''] False op of
       Some (Inr (ids, op')) \<Rightarrow> ids = [''0_r'', ''1_r''] \<and> map fst (op_states op') = [] \<and> map fst (op_external op') = []
         \<and> pr_child_requests (op_parent_store op' 0) = [] \<and> map fst (op_parents op') = [''r'']
     | _ \<Rightarrow> False)"
  by code_simp

end
