(* ===== verification/Spec2Isabelle.thy ===== *)
theory Spec2Isabelle
  imports Math_Utils KV_Cache_Config_Properties KV_Manager_Properties Hybrid_Hit Block_Pool_Properties Request_Queue Sched_Utils Encoder_Scheduling Offloading_Properties Scheduler_Corners Ngram_Proposer Output_Properties
begin

text \<open>
  Verification of the core of the vLLM V1 engine (src/vllm/vllm/v1).

  \<^bold>\<open>The program.\<close> A serving engine receives requests (a prompt and sampling or pooling parameters) and
  advances them in steps. In each step the scheduler chooses how many tokens of which requests the
  workers compute, reserves the memory for their keys and values in the paged KV cache, and later books
  the sampled tokens that come back. The parts and their interaction:

  \<^item> A request carries its tokens and the chain of hashes of its full blocks. The chain identifies a prefix of
    tokens together with everything else that determines its keys and values.
  \<^item> The block pool owns all KV cache blocks. Blocks carry reference counts; blocks without references wait in a
    doubly linked free queue in the order of their eviction, and keep their hash until they are reused.
  \<^item> Each group of layers with one kind of attention has a manager with a block table per request. The coordinator
    runs the managers of all groups over one pool and finds the longest prefix that is cached in every group.
  \<^item> The KV cache manager is the interface of the scheduler to all this: look up, allocate, free, evict, reset.
  \<^item> The encoder cache manager does the same for the outputs of multi-modal encoders.
  \<^item> The request queues (first come first served, or by priority) hold the requests that wait.
  \<^item> The scheduler owns the table of requests, the running list and two waiting queues, and calls the above.
  \<^item> Before the first step the set-up of the KV cache divides the layers into groups, checks that a request of the
    maximal length fits into memory, and computes the tensors and the number of blocks of each worker.
  \<^item> The n-gram proposer guesses the next tokens of a request from its own text, for the workers to verify.
  \<^item> In the front end the output processor turns the outputs of the scheduler into text: the detokenizer decodes token by
    token and looks for stop strings, and a collector per client request hands the pieces over. A request with several
    samples is a parent with one child request per sample.
  \<^item> The offloading manager keeps blocks in a second, CPU-side cache under an LRU or ARC policy.

  \<^bold>\<open>Theories and sources.\<close> Paths are below src/vllm/vllm.

  \<^item> Prelude: exceptions as values (\<open>py_error\<close>), the result type \<open>'a res\<close> and its sequencing \<open>res_bind\<close>, Python's slices and
    ordered dictionaries (association lists), and the lemma collections used everywhere.
  \<^item> Math_Utils: utils/math_utils.py.
  \<^item> Request_Data, Request: v1/request.py and the parts of the parameter objects the engine core reads. Block_Hash: the
    hashing half of v1/core/kv_cache_utils.py. A request is a record; \<open>block_hashes\<close> is extended by the same
    incremental loop as in the code and compared with a reference chain.
  \<^item> Free_Block_Queue: \<^verbatim>\<open>KVCacheBlock\<close> and \<^verbatim>\<open>FreeKVCacheBlockQueue\<close> of v1/core/kv_cache_utils.py, over an explicit store from
    references to blocks, because the queue links the blocks themselves. KV_Metrics: v1/core/kv_cache_metrics.py.
  \<^item> Block_Pool, Block_Pool_Properties: v1/core/block_pool.py.
  \<^item> KV_Cache_Spec: v1/kv_cache_interface.py. Single_Type_Managers and Cache_Hit: the classes of
    v1/core/single_type_kv_cache_manager.py, dispatching on the spec of the group as the code dispatches on the class.
  \<^item> KV_Cache_Coordinator, Hybrid_Hit: v1/core/kv_cache_coordinator.py. Block_Ownership, Coordinator_Laws: its laws.
  \<^item> KV_Cache_Manager, Allocation_Laws, KV_Manager_Properties: v1/core/kv_cache_manager.py.
  \<^item> KV_Cache_Config, KV_Cache_Config_Properties: the set-up half of v1/core/kv_cache_utils.py, from the memory check
    to \<^verbatim>\<open>get_kv_cache_configs\<close>.
  \<^item> Heapq: the sift loops of Python's heapq. Request_Queue, Queue_Contents: v1/core/sched/request_queue.py.
  \<^item> Sched_Utils: v1/core/sched/utils.py.
  \<^item> Encoder_Cache, Encoder_Cache_Properties: v1/core/encoder_cache_manager.py. Encoder_Scheduling: the encoder parts of
    v1/core/sched/scheduler.py.
  \<^item> Scheduler_State (state, queues, adding, finishing, preemption, pausing, resets, streaming sessions), Scheduler_Loop
    (\<^verbatim>\<open>schedule\<close>) and Scheduler_Update (\<^verbatim>\<open>update_from_output\<close>): v1/core/sched/scheduler.py, async_scheduler.py,
    interface.py and output.py. The other Scheduler theories hold lemmas and theorems about these definitions.
  \<^item> Ngram_Proposer: v1/spec_decode/ngram_proposer.py.
  \<^item> Detokenizer, Detokenizer_Properties: v1/engine/detokenizer.py and tokenizers/detokenizer_utils.py.
  \<^item> Output_Processor, Output_Properties: v1/engine/output_processor.py, v1/engine/parallel_sampling.py and the merging of outputs
    in outputs.py. Its input is the \<open>engine_core_output\<close> that Scheduler_Update produces.
  \<^item> Cache_Policy, Offloading_Manager, Offloading_Properties: v1/kv_offload (abstract.py, reuse_manager.py, cpu/manager.py,
    cpu/policies).

  \<^bold>\<open>How the code is translated.\<close> Objects become records, classes with several implementations a datatype or a record of
  operations, and mutable objects that are shared (blocks, requests) live in a store and are passed as references. A
  method that changes state returns the new state; one that can raise returns \<open>py_error + 'a\<close>, with every assertion and
  every raise of the source a branch. Python integers are \<^typ>\<open>int\<close>; a group id is packed into four bytes
  with the overflow error of \<^verbatim>\<open>int.to_bytes\<close>. Dictionaries whose order matters are association lists.

  \<^bold>\<open>Interfaces.\<close> Five contracts are locales. \<open>fifo_free_list\<close> is what the pool relies on in the free queue,
  interpreted (\<open>fq\<close>) on the linked list; \<open>hash_block_map\<close> (\<open>hm\<close>) is the map from hashes to cached blocks; \<open>heap_order\<close> (\<open>hq\<close>)
  is the order heapq needs, interpreted on \<^verbatim>\<open>Request.__lt__\<close>; \<open>waiting_queue\<close> (\<open>wq\<close>) is the contract of
  \<^verbatim>\<open>RequestQueue\<close>, interpreted on both queue classes; \<open>cache_policy\<close> is the abstract class \<^verbatim>\<open>CachePolicy\<close>, interpreted on LRU
  (\<open>lru\<close>) and ARC (\<open>arc\<close>), in which the offloading manager is verified once.

  \<^bold>\<open>What is shown.\<close>

  \<^item> Hashing: the incremental hash chain is the reference chain as long as only the last multi-modal item reaches into
    unhashed blocks, and for an injective hash function equal block hashes
    come from equal prefixes and equal extra keys, which is what makes sharing blocks sound.
  \<^item> Pool: the linked queue refines a list, allocation takes the least recently freed blocks, evicts their hashes and
    fails exactly when there are too few; cached blocks are found again; touching and freeing is neutral.
  \<^item> Managers and coordinator: every reference count of the pool is the number of table entries that hold the block
    (\<open>kv_wf\<close>), and look up, allocation, freeing, eviction and reset keep this. An allocation is refused
    exactly when the free blocks are fewer than the number announced before it, and otherwise appends exactly the missing blocks,
    in the order of the free list; a request of a model with one full attention group gets the blocks of its longest
    cached prefix. The fixpoint search of hybrid models terminates and, with full attention in the first group at most, all groups agree on its result.
  \<^item> Set-up: the binary search for the model length terminates with the largest length that fits; the groups partition
    the layers; the tensors fit the memory of each worker; all workers and the scheduler agree on the number of blocks.
  \<^item> Queues: both classes meet the queue contract, and the priority queue serves in an order that depends only on its
    contents, the other one first come, first served. Repetition detection agrees with its declarative description, and the
    stop check ends every generation within its limits, with a finished status that is true.
  \<^item> Encoder cache: the slot accounts hold in every reachable cache, eviction is minimal and oldest first, and the inputs
    chosen for a step can be allocated.
  \<^item> Scheduler: a step returns, stays within the token budget and the bound on running requests, and schedules a request at
    most once; every unfinished request is in exactly one queue with the status that belongs there. These facts hold
    through steps, results, aborts, pauses, resets and drafts, in every state of the step relation \<open>engine\<close>.
    Finishing, appending up to the stop and the order after a reset are described exactly.
  \<^item> Offloading: stores either refuse without effect or succeed within capacity, loads protect their blocks, ARC's target
    stays bounded, and the reuse filter offers exactly the keys that were asked for often enough.
  \<^item> Proposer: the search with its short table finds the longest suffix that occurred before, at its earliest place; drafts do not
    depend on stale buffers or on the order of the parallel iterations.
  \<^item> Output: the stop check finds exactly the new occurrences of stop strings; decoding token by token gives the text of all tokens, also with a tokenizer that
    cleans up at the start of a string;
    a streaming client gets all text and tokens for every stream interval and every interleaving, and nothing that a stop
    string takes back; the outputs of several samples are passed on or collected as the output kind asks for.
  \<^item> Where the code does something other than it means to, the lemma that shows it is stated next to the component
    (Scheduler_Corners for the scheduler, the end of Output_Properties for the output) and the manifest lists it as a finding.

  \<^bold>\<open>Loops, fuel and partiality.\<close> Loops over lists are structural recursion. \<open>hasher_loop\<close>, \<open>mm_keys_loop\<close>, \<open>align_pop\<close>,
  \<open>siftup_loop\<close>, \<open>search_len\<close> and \<open>bit_length\<close> are functions with termination proofs. The walk over the linked queue
  (\<open>walk_free\<close>), the search of hybrid models (\<open>hybrid_loop\<close>) and the search of the proposer (\<open>ngram_loop\<close>) are partial functions into options,
  proved to return on well formed queues, caches and bounds. Aborting a parent request recurs into its children; the fuel of \<open>abort_ids\<close> is the depth of
  this nesting, which is one as long as children are not parents themselves. The loops of a scheduling step carry fuel: the length of the running list for the loop over the
  running requests and for the preemptions inside it (each iteration passes or removes one running request), and
  the number of waiting requests for the second loop (each iteration takes one from the queues it serves). A
  step that runs out of fuel is \<open>None\<close>, and Scheduler_Running and Scheduler_Waiting prove that it never is.

  \<^bold>\<open>Parameters.\<close> Code outside the repository, or outside the core, is an argument of the definitions: the hash function
  over the serialised block contents, the seed of the chain, the block hasher a request is made with, the clock and the random source of
  the metrics, the rounding of a division to a double in ARC, the KV connector and the grammar back end of the scheduler, the tokenizer and the decode stream of the detokenizers. What a theorem needs of
  them is a named hypothesis (injectivity of the hash on the keys, \<open>hasher_ok\<close>, \<open>local_cleanup\<close> for a tokenizer, and similar),
  and the witnesses instantiate them with concrete functions. The step relation \<open>engine\<close> takes requests that are not streaming sessions, with fresh identifiers,
  one step in flight at a time, and steps only while no running request has more tokens computed than it has (\<open>not_ahead\<close>); the
  findings show what can happen to streaming sessions and with several steps in flight.

  \<^bold>\<open>Not modelled.\<close> Timestamps, log messages, engine events and statistics of the scheduler that no decision depends on,
  log probabilities and routed experts, which the scheduler only passes through; in the output processor also tracing and
  LoRA bookkeeping; in the proposer the number of threads. The records the scheduler exchanges
  with other processes are modelled as far as it reads or writes them. Everything around the core is left out: the worker processes, the model
  runner, models, layers, attention back ends and samplers are tensor programs over torch and device kernels, whose meaning is not in this
  repository; servers, argument parsing, process management, communication, compilation, LoRA loading and plugins are
  input and output around the core.
\<close>

end
